(* ===== verification/Prelude.thy ===== *)
theory Prelude
  imports Main "HOL-Library.Word"
begin

text \<open>
  Shared vocabulary of the development: the C integer types as fixed-width words, C buffers as
  lists with \<^verbatim>\<open>memcpy\<close> and pointer-plus-offset writes, counted \<^verbatim>\<open>for\<close> loops, and the generic lemmas
  about them that every component uses.  A call \<^verbatim>\<open>f(b + off)\<close> that writes through the pointer is
  \<open>at_off off f b\<close>; a call that only reads is \<open>f (drop off b)\<close>.
\<close>

unbundle bit_operations_syntax

type_synonym u8 = "8 word"
type_synonym u32 = "32 word"
type_synonym u64 = "64 word"
type_synonym u128 = "128 word"
type_synonym bytes = "8 word list"

named_theorems limb_unat "natural-number value of word operations that do not overflow"
named_theorems limb_def "definitions of limb routines, unfolded together"

section \<open>Buffers\<close>

definition slice :: "nat \<Rightarrow> nat \<Rightarrow> 'a list \<Rightarrow> 'a list" where
  "slice off n b = take n (drop off b)"

text \<open>\<open>blit dst off src\<close> is \<^verbatim>\<open>memcpy(dst + off, src, length src)\<close>.\<close>

definition blit :: "'a list \<Rightarrow> nat \<Rightarrow> 'a list \<Rightarrow> 'a list" where
  "blit dst off src = take off dst @ src @ drop (off + length src) dst"

definition at_off :: "nat \<Rightarrow> ('a list \<Rightarrow> 'a list) \<Rightarrow> 'a list \<Rightarrow> 'a list" where
  "at_off off f b = take off b @ f (drop off b)"

text \<open>A call through \<^verbatim>\<open>b + off\<close> that also updates a second buffer.\<close>

definition at_off_with :: "nat \<Rightarrow> ('a list \<Rightarrow> 'a list \<times> 's) \<Rightarrow> 'a list \<Rightarrow> 'a list \<times> 's" where
  "at_off_with off f b = (let (x, s) = f (drop off b) in (take off b @ x, s))"

text \<open>The 32-bit product \<^verbatim>\<open>(uint32_t)w * i\<close> that the code uses as a byte offset.\<close>

definition off32 :: "nat \<Rightarrow> nat \<Rightarrow> nat" where
  "off32 w i = w * i mod 2 ^ 32"

lemma off32_small: "w * i < 2 ^ 32 \<Longrightarrow> off32 w i = w * i"
  by (simp add: off32_def)

lemma length_slice [simp]: "length (slice off n b) = min n (length b - off)"
  by (simp add: slice_def min.commute)

lemma length_blit: "off + length src \<le> length dst \<Longrightarrow> length (blit dst off src) = length dst"
  by (simp add: blit_def)

lemma blit_0: "blit dst 0 src = src @ drop (length src) dst"
  by (simp add: blit_def)

lemma blit_all: "length src = length dst \<Longrightarrow> blit dst 0 src = src"
  by (simp add: blit_def)

lemma slice_blit_same: "off + length src \<le> length dst \<Longrightarrow> n = length src \<Longrightarrow>
    slice off n (blit dst off src) = src"
  by (simp add: slice_def blit_def)

lemma take_blit: "n \<le> off \<Longrightarrow> off \<le> length dst \<Longrightarrow> take n (blit dst off src) = take n dst"
  by (simp add: blit_def min_def)

lemma drop_blit: "off + length src \<le> n \<Longrightarrow> off + length src \<le> length dst \<Longrightarrow>
    drop n (blit dst off src) = drop n dst"
  by (simp add: blit_def)

lemma blit_blit:
  "p = n + length a \<Longrightarrow> n + length a + length b \<le> length s \<Longrightarrow> blit (blit s n a) p b = blit s n (a @ b)"
  by (simp add: blit_def add_ac)

lemma nth_segment: "n = length k \<Longrightarrow> j < length w \<Longrightarrow> (k @ w @ r) ! (n + j) = w ! j"
  by (simp add: nth_append)

lemma update_segment: "n = length k \<Longrightarrow> j < length w \<Longrightarrow> (k @ w @ r)[n + j := x] = k @ w[j := x] @ r"
  by (simp add: list_update_append)

lemma at_off_0 [simp]: "at_off 0 f b = f b"
  by (simp add: at_off_def)

lemma length_at_off: "(\<And>x. length x = length b - off \<Longrightarrow> length (f x) = length x) \<Longrightarrow>
    length (at_off off f b) = length b"
  by (simp add: at_off_def)

lemma list_update_Cons_numeral [simp]:
  "(x # xs)[numeral v := y] = x # xs[pred_numeral v := y]"
  by (simp add: numeral_eq_Suc)

section \<open>Counted loops\<close>

text \<open>\<open>for_range lo hi body s\<close> is \<^verbatim>\<open>for (i = lo; i < hi; i++) s = body(i, s)\<close>.\<close>

definition for_range :: "nat \<Rightarrow> nat \<Rightarrow> (nat \<Rightarrow> 's \<Rightarrow> 's) \<Rightarrow> 's \<Rightarrow> 's" where
  "for_range lo hi body s = fold body [lo..<hi] s"

lemma for_range_empty [simp]: "hi \<le> lo \<Longrightarrow> for_range lo hi body s = s"
  by (simp add: for_range_def)

lemma for_range_first: "lo < hi \<Longrightarrow>
    for_range lo hi body s = for_range (Suc lo) hi body (body lo s)"
  by (simp add: for_range_def upt_rec)

lemma for_range_last: "lo \<le> hi \<Longrightarrow>
    for_range lo (Suc hi) body s = body hi (for_range lo hi body s)"
  by (simp add: for_range_def)

lemma for_range_cong:
  assumes "\<And>i s. lo \<le> i \<Longrightarrow> i < hi \<Longrightarrow> f i s = g i s"
  shows "for_range lo hi f s = for_range lo hi g s"
  unfolding for_range_def using assms by (intro fold_cong) auto

lemma for_range_invariant:
  assumes "P lo s" and "\<And>i s. lo \<le> i \<Longrightarrow> i < hi \<Longrightarrow> P i s \<Longrightarrow> P (Suc i) (body i s)"
    and "lo \<le> hi"
  shows "P hi (for_range lo hi body s)"
  using assms(3,2)
proof (induction hi)
  case 0
  then show ?case using assms(1) by simp
next
  case (Suc hi)
  show ?case
  proof (cases "lo = Suc hi")
    case True
    then show ?thesis using assms(1) by simp
  next
    case False
    with Suc have "P hi (for_range lo hi body s)" by simp
    with False Suc.prems show ?thesis by (simp add: for_range_last)
  qed
qed

lemma for_range_keeps:
  assumes "P s" and "\<And>i s. lo \<le> i \<Longrightarrow> i < hi \<Longrightarrow> P s \<Longrightarrow> P (body i s)"
  shows "P (for_range lo hi body s)"
  using assms for_range_invariant [where P = "\<lambda>_. P" and lo = lo and hi = hi and s = s and body = body]
  by (cases "lo \<le> hi") auto

lemma for_range_length:
  "(\<And>i s. length (body i s) = length s) \<Longrightarrow> length (for_range lo hi body s) = length s"
  by (rule for_range_keeps [where P = "\<lambda>x. length x = length s"]) auto

text \<open>A loop that rewrites each element in place, from its old value and the index.\<close>

lemma for_range_update:
  assumes "n \<le> length out"
  shows "for_range 0 n (\<lambda>i o'. o'[i := f i (o' ! i)]) out
       = map (\<lambda>i. f i (out ! i)) [0..<n] @ drop n out"
  using assms
proof (induction n)
  case 0
  then show ?case by simp
next
  case (Suc n)
  then have "drop n out = out ! n # drop (Suc n) out"
    by (simp add: Cons_nth_drop_Suc)
  with Suc show ?case
    by (simp add: for_range_last nth_append list_update_append)
qed

lemma for_range_store:
  assumes "n \<le> length out"
  shows "for_range 0 n (\<lambda>i o'. o'[i := f i]) out = map f [0..<n] @ drop n out"
  using for_range_update [OF assms, of "\<lambda>i _. f i"] by simp

text \<open>A loop that combines two buffers byte by byte.\<close>

lemma map_upt_zip:
  "n \<le> length a \<Longrightarrow> n \<le> length b \<Longrightarrow>
    map (\<lambda>i. f (a ! i) (b ! i)) [0..<n] = map2 f (take n a) (take n b)"
  by (intro nth_equalityI) simp_all

text \<open>A loop that writes one fixed-width chunk after another.\<close>

lemma for_range_chunks:
  assumes "w * n \<le> length out" and "\<And>i. i < n \<Longrightarrow> length (g i) = w"
  shows "for_range 0 n (\<lambda>i o'. blit o' (w * i) (g i)) out
       = concat (map g [0..<n]) @ drop (w * n) out"
  using assms
proof (induction n)
  case 0
  then show ?case by simp
next
  case (Suc n)
  have "map (length \<circ> g) [0..<n] = replicate n w"
    using Suc.prems(2) by (intro nth_equalityI) auto
  then have len: "length (concat (map g [0..<n])) = w * n"
    by (simp add: length_concat sum_list_replicate)
  have "for_range 0 n (\<lambda>i o'. blit o' (w * i) (g i)) out
      = concat (map g [0..<n]) @ drop (w * n) out"
    using Suc by simp
  then show ?case
    using Suc.prems len by (simp add: for_range_last blit_def add.commute)
qed

lemma for_range_funpow:
  fixes f :: "'a \<Rightarrow> 'a"
  shows "for_range 0 n (\<lambda>_. f) s = (f ^^ n) s"
  by (induction n) (simp_all add: for_range_last)

lemma funpow_length:
  fixes f :: "'a list \<Rightarrow> 'a list"
  shows "(\<And>x. length x = k \<Longrightarrow> length (f x) = k) \<Longrightarrow> length x = k \<Longrightarrow> length ((f ^^ n) x) = k"
  by (induction n) simp_all

lemma for_range_map2:
  "n \<le> length a \<Longrightarrow> n \<le> length b \<Longrightarrow> n \<le> length out \<Longrightarrow>
    for_range 0 n (\<lambda>i o'. o'[i := f (a ! i) (b ! i)]) out = map2 f (take n a) (take n b) @ drop n out"
  by (simp add: for_range_store map_upt_zip)

lemma for_range_map2_in_place:
  "n = length a \<Longrightarrow> n \<le> length b \<Longrightarrow>
    for_range 0 n (\<lambda>i o'. o'[i := f (o' ! i) (b ! i)]) a = map2 f a (take n b)"
  using for_range_update [of n a "\<lambda>i x. f x (b ! i)"] map_upt_zip [of n a b f] by simp

text \<open>A loop that works inside a segment of a buffer leaves the rest alone.\<close>

lemma for_range_frame:
  assumes "length w = n"
    and "\<And>i w. lo \<le> i \<Longrightarrow> i < hi \<Longrightarrow> length w = n \<Longrightarrow> body i (pre @ w @ post) = pre @ g i w @ post"
    and "\<And>i w. lo \<le> i \<Longrightarrow> i < hi \<Longrightarrow> length w = n \<Longrightarrow> length (g i w) = n"
  shows "for_range lo hi body (pre @ w @ post) = pre @ for_range lo hi g w @ post"
proof (cases "lo \<le> hi")
  case True
  have "for_range lo hi body (pre @ w @ post) = pre @ for_range lo hi g w @ post \<and> length (for_range lo hi g w) = n"
    using True assms
  proof (induction hi)
    case 0
    then show ?case by simp
  next
    case (Suc hi)
    show ?case
    proof (cases "lo = Suc hi")
      case False
      with Suc.prems(1) have "lo \<le> hi" by simp
      with Suc show ?thesis by (simp add: for_range_last)
    qed (use Suc.prems in simp)
  qed
  then show ?thesis by simp
qed simp

lemma for_range_2: "for_range 0 2 body s = body 1 (body 0 s)"
  by (simp add: for_range_def numeral_2_eq_2)

lemma for_range_3: "for_range 0 3 body s = body 2 (body 1 (body 0 s))"
  by (simp add: for_range_def numeral_3_eq_3 numeral_2_eq_2)

lemma length_3_cases:
  assumes "length a = 3"
  obtains a0 a1 a2 where "a = [a0, a1, a2]"
  using assms by (auto simp: numeral_3_eq_3 length_Suc_conv)

section \<open>Words as natural numbers\<close>

lemma unat_add_small [limb_unat]:
  fixes a b :: "'a::len word"
  shows "unat a + unat b < 2 ^ LENGTH('a) \<Longrightarrow> unat (a + b) = unat a + unat b"
  using unat_add_lem by blast

lemma unat_mult_small [limb_unat]:
  fixes a b :: "'a::len word"
  shows "unat a * unat b < 2 ^ LENGTH('a) \<Longrightarrow> unat (a * b) = unat a * unat b"
  using unat_mult_lem by blast

lemma unat_sub_small [limb_unat]:
  fixes a b :: "'a::len word"
  shows "unat b \<le> unat a \<Longrightarrow> unat (a - b) = unat a - unat b"
  by (simp add: unat_sub word_le_nat_alt)

lemma unat_push_bit:
  fixes a :: "'a::len word"
  shows "unat (push_bit n a) = unat a * 2 ^ n mod 2 ^ LENGTH('a)"
  by (simp only: unsigned_push_bit_eq) (simp add: take_bit_eq_mod push_bit_eq_mult)

lemma unat_push_bit_small [limb_unat]:
  fixes a :: "'a::len word"
  shows "unat a * 2 ^ n < 2 ^ LENGTH('a) \<Longrightarrow> unat (push_bit n a) = unat a * 2 ^ n"
  by (simp add: unat_push_bit)

lemma unat_drop_bit [limb_unat]:
  fixes a :: "'a::len word"
  shows "unat (drop_bit n a) = unat a div 2 ^ n"
  by (simp only: unat_drop_bit_eq) (simp add: drop_bit_eq_div)

lemma unat_take_bit:
  fixes a :: "'a::len word"
  shows "unat (take_bit n a) = unat a mod 2 ^ n"
  by (simp only: unsigned_take_bit_eq) (simp add: take_bit_eq_mod)

lemma unat_and_mask:
  fixes a :: "'a::len word"
  shows "unat (a AND mask n) = unat a mod 2 ^ n"
  by (simp flip: take_bit_eq_mask add: unat_take_bit)

lemma word_unat_eqI: "unat a = unat b \<Longrightarrow> a = b"
  by (simp add: word_unat_eq_iff)

lemma unat_lt_word:
  fixes a :: "'a::len word"
  shows "unat a < 2 ^ LENGTH('a)"
  by (rule unsigned_less)

lemma unat_ucast_up:
  fixes a :: "'a::len word"
  assumes "LENGTH('a) \<le> LENGTH('b)"
  shows "unat (ucast a :: 'b::len word) = unat a"
  using assms by (simp add: unsigned_ucast_eq take_bit_eq_mod)
    (meson le_less_trans less_le_trans nat_less_le power_increasing_iff one_less_numeral_iff
      semiring_norm(76) unat_lt_word linorder_not_le mod_less)

lemma unat_ucast_down:
  fixes a :: "'a::len word"
  shows "unat (ucast a :: 'b::len word) = unat a mod 2 ^ LENGTH('b)"
  by (simp add: unsigned_ucast_eq take_bit_eq_mod)

text \<open>Two disjoint bit ranges: OR is addition.\<close>

lemma or_eq_add_disjoint:
  fixes a b :: "'a::len word"
  assumes "a AND b = 0"
  shows "a OR b = a + b"
  using assms by (simp only: disjunctive_add_eq_or)

lemma and_push_bit_eq_0:
  fixes x y :: "'a::len word"
  assumes "unat x < 2 ^ n"
  shows "x AND push_bit n y = 0"
proof -
  have "take_bit n x = x"
    using assms by (simp add: word_unat_eq_iff unat_take_bit)
  then have "\<not> bit x k" if "n \<le> k" for k
    using that by (metis bit_take_bit_iff linorder_not_less)
  then show ?thesis
    by (intro bit_word_eqI) (auto simp: bit_simps)
qed

lemma unat_or_push_bit:
  fixes x y :: "'a::len word"
  assumes "unat x < 2 ^ n" and "unat x + unat y * 2 ^ n < 2 ^ LENGTH('a)"
  shows "unat (x OR push_bit n y) = unat x + unat y * 2 ^ n"
  using assms and_push_bit_eq_0 [OF assms(1), of y]
  by (simp add: or_eq_add_disjoint unat_add_small unat_push_bit_small)

section \<open>Little-endian and big-endian values of byte strings\<close>

fun le_nat :: "bytes \<Rightarrow> nat" where
  "le_nat [] = 0"
| "le_nat (x # xs) = unat x + 256 * le_nat xs"

lemma le_nat_zeros: "le_nat (replicate n 0) = 0"
  by (induction n) simp_all

lemma unat_u8_lt: "unat (x :: u8) < 256"
  using unat_lt_word [of x] by simp

lemma le_nat_lt: "le_nat xs < 256 ^ length xs"
proof (induction xs)
  case Nil
  then show ?case by simp
next
  case (Cons x xs)
  have "unat x + 256 * le_nat xs < 256 + 256 * le_nat xs"
    by (simp add: unat_u8_lt)
  also have "\<dots> \<le> 256 * 256 ^ length xs"
    using Cons by simp
  finally show ?case by simp
qed

lemma le_nat_append: "le_nat (xs @ ys) = le_nat xs + 256 ^ length xs * le_nat ys"
  by (induction xs) (auto simp: algebra_simps)

lemma le_nat_inj: "length xs = length ys \<Longrightarrow> le_nat xs = le_nat ys \<Longrightarrow> xs = ys"
proof (induction xs ys rule: list_induct2)
  case Nil
  then show ?case by simp
next
  case (Cons x xs y ys)
  have "le_nat (x # xs) mod 256 = unat x" and "le_nat (x # xs) div 256 = le_nat xs"
    and "le_nat (y # ys) mod 256 = unat y" and "le_nat (y # ys) div 256 = le_nat ys"
    using unat_u8_lt [of x] unat_u8_lt [of y] by simp_all
  with Cons show ?case by (auto intro: word_unat_eqI)
qed

end
