(* ===== verification/Kremlib.thy ===== *)
theory Kremlib
  imports Prelude
begin

text \<open>
  The C support library of the extracted HACL* code: \<^verbatim>\<open>kremlib_base.h\<close> (rotations and the
  constant-time comparison masks) and \<^verbatim>\<open>kremlib.h\<close> (unaligned loads and stores and byte order).
  The library is compiled with \<^verbatim>\<open>-fwrapv\<close>, so signed subtraction wraps; an arithmetic right shift
  of a signed value is \<open>signed_drop_bit\<close>.  The platform is little-endian, so the byte order
  macros are those of the generic little-endian branch of the header.
\<close>

section \<open>Rotations\<close>

definition rotate32_left :: "u32 \<Rightarrow> nat \<Rightarrow> u32" where
  "rotate32_left x n = push_bit n x OR drop_bit (32 - n) x"

definition rotate32_right :: "u32 \<Rightarrow> nat \<Rightarrow> u32" where
  "rotate32_right x n = drop_bit n x OR push_bit (32 - n) x"

section \<open>Constant-time masks\<close>

definition FStar_UInt8_eq_mask :: "u8 \<Rightarrow> u8 \<Rightarrow> u8" where
  "FStar_UInt8_eq_mask x y =
     (let x = NOT (x XOR y);
          x = x AND push_bit 4 x;
          x = x AND push_bit 2 x;
          x = x AND push_bit 1 x
      in signed_drop_bit 7 x)"

definition FStar_UInt8_gte_mask :: "u8 \<Rightarrow> u8 \<Rightarrow> u8" where
  "FStar_UInt8_gte_mask x y = NOT (ucast (signed_drop_bit 31 (ucast x - ucast y :: u32)))"

definition FStar_UInt16_eq_mask :: "16 word \<Rightarrow> 16 word \<Rightarrow> 16 word" where
  "FStar_UInt16_eq_mask x y =
     (let x = NOT (x XOR y);
          x = x AND push_bit 8 x;
          x = x AND push_bit 4 x;
          x = x AND push_bit 2 x;
          x = x AND push_bit 1 x
      in signed_drop_bit 15 x)"

definition FStar_UInt16_gte_mask :: "16 word \<Rightarrow> 16 word \<Rightarrow> 16 word" where
  "FStar_UInt16_gte_mask x y = NOT (ucast (signed_drop_bit 31 (ucast x - ucast y :: u32)))"

definition FStar_UInt32_eq_mask :: "u32 \<Rightarrow> u32 \<Rightarrow> u32" where
  "FStar_UInt32_eq_mask x y =
     (let x = NOT (x XOR y);
          x = x AND push_bit 16 x;
          x = x AND push_bit 8 x;
          x = x AND push_bit 4 x;
          x = x AND push_bit 2 x;
          x = x AND push_bit 1 x
      in signed_drop_bit 31 x)"

definition FStar_UInt32_gte_mask :: "u32 \<Rightarrow> u32 \<Rightarrow> u32" where
  "FStar_UInt32_gte_mask x y = NOT (ucast (signed_drop_bit 63 (ucast x - ucast y :: u64)))"

definition FStar_UInt64_eq_mask :: "u64 \<Rightarrow> u64 \<Rightarrow> u64" where
  "FStar_UInt64_eq_mask x y =
     (let x = NOT (x XOR y);
          x = x AND push_bit 32 x;
          x = x AND push_bit 16 x;
          x = x AND push_bit 8 x;
          x = x AND push_bit 4 x;
          x = x AND push_bit 2 x;
          x = x AND push_bit 1 x
      in signed_drop_bit 63 x)"

definition FStar_UInt64_gte_mask :: "u64 \<Rightarrow> u64 \<Rightarrow> u64" where
  "FStar_UInt64_gte_mask x y =
     (let low63 = NOT (signed_drop_bit 63 ((x AND 0x7fffffffffffffff) - (y AND 0x7fffffffffffffff)));
          high_bit = NOT (signed_drop_bit 63 ((x AND 0x8000000000000000) - (y AND 0x8000000000000000)))
      in low63 AND high_bit)"

section \<open>Loads and stores\<close>

text \<open>
  \<open>load\<close> and \<open>store\<close> copy the bytes of an integer on a little-endian machine; the conversion
  macros between host and big-endian order swap bytes by shifting, those for little-endian order
  are the identity.
\<close>

definition load32 :: "bytes \<Rightarrow> u32" where
  "load32 b = ucast (b ! 0) OR push_bit 8 (ucast (b ! 1)) OR push_bit 16 (ucast (b ! 2))
     OR push_bit 24 (ucast (b ! 3))"

definition load64 :: "bytes \<Rightarrow> u64" where
  "load64 b = ucast (b ! 0) OR push_bit 8 (ucast (b ! 1)) OR push_bit 16 (ucast (b ! 2))
     OR push_bit 24 (ucast (b ! 3)) OR push_bit 32 (ucast (b ! 4)) OR push_bit 40 (ucast (b ! 5))
     OR push_bit 48 (ucast (b ! 6)) OR push_bit 56 (ucast (b ! 7))"

definition bytes_of_u32 :: "u32 \<Rightarrow> bytes" where
  "bytes_of_u32 i = map (\<lambda>j. ucast (drop_bit (8 * j) i)) [0, 1, 2, 3]"

definition bytes_of_u64 :: "u64 \<Rightarrow> bytes" where
  "bytes_of_u64 i = map (\<lambda>j. ucast (drop_bit (8 * j) i)) [0, 1, 2, 3, 4, 5, 6, 7]"

definition store32 :: "bytes \<Rightarrow> u32 \<Rightarrow> bytes" where
  "store32 b i = blit b 0 (bytes_of_u32 i)"

definition store64 :: "bytes \<Rightarrow> u64 \<Rightarrow> bytes" where
  "store64 b i = blit b 0 (bytes_of_u64 i)"

definition htobe32 :: "u32 \<Rightarrow> u32" where
  "htobe32 x = (drop_bit 24 x AND 0x000000FF) OR (drop_bit 8 x AND 0x0000FF00)
     OR (push_bit 8 x AND 0x00FF0000) OR (push_bit 24 x AND 0xFF000000)"

definition htobe64 :: "u64 \<Rightarrow> u64" where
  "htobe64 x = (let low = htobe32 (ucast x); high = htobe32 (ucast (drop_bit 32 x))
     in push_bit 32 (ucast low) OR ucast high)"

definition load32_le :: "bytes \<Rightarrow> u32" where
  "load32_le b = load32 b"

definition store32_le :: "bytes \<Rightarrow> u32 \<Rightarrow> bytes" where
  "store32_le b i = store32 b i"

definition load32_be :: "bytes \<Rightarrow> u32" where
  "load32_be b = htobe32 (load32 b)"

definition store32_be :: "bytes \<Rightarrow> u32 \<Rightarrow> bytes" where
  "store32_be b i = store32 b (htobe32 i)"

definition load64_le :: "bytes \<Rightarrow> u64" where
  "load64_le b = load64 b"

definition store64_le :: "bytes \<Rightarrow> u64 \<Rightarrow> bytes" where
  "store64_le b i = store64 b i"

definition load64_be :: "bytes \<Rightarrow> u64" where
  "load64_be b = htobe64 (load64 b)"

definition store64_be :: "bytes \<Rightarrow> u64 \<Rightarrow> bytes" where
  "store64_be b i = store64 b (htobe64 i)"

definition load128_le :: "bytes \<Rightarrow> u128" where
  "load128_le b = (let l = ucast (load64_le b); h = ucast (load64_le (drop 8 b))
     in push_bit 64 h OR l)"

definition store128_le :: "bytes \<Rightarrow> u128 \<Rightarrow> bytes" where
  "store128_le b n = at_off 8 (\<lambda>b. store64_le b (ucast (drop_bit 64 n))) (store64_le b (ucast n))"

definition load128_be :: "bytes \<Rightarrow> u128" where
  "load128_be b = (let h = ucast (load64_be b); l = ucast (load64_be (drop 8 b))
     in push_bit 64 h OR l)"

definition store128_be :: "bytes \<Rightarrow> u128 \<Rightarrow> bytes" where
  "store128_be b n = at_off 8 (\<lambda>b. store64_be b (ucast n)) (store64_be b (ucast (drop_bit 64 n)))"

section \<open>Rotations are the library's\<close>

lemma rotate32_left_rotl:
  assumes "0 < n" and "n < 32"
  shows "rotate32_left x n = word_rotl n x"
proof (rule bit_word_eqI)
  fix k
  assume "k < LENGTH(32)"
  then have k: "k < 32" by simp
  have "(k + (32 - n)) mod 32 = (if k < n then k + (32 - n) else k - n)"
    using assms k by (auto simp: mod_if)
  moreover have "\<not> k < n \<Longrightarrow> \<not> bit x (k + (32 - n))"
    by (auto dest: bit_imp_le_length)
  ultimately show "bit (rotate32_left x n) k = bit (word_rotl n x) k"
    using assms k by (simp add: rotate32_left_def bit_word_rotl_iff bit_or_iff bit_push_bit_iff
        bit_drop_bit_eq add.commute [of "32 - n"])
qed

lemma rotate32_right_rotr:
  assumes "0 < n" and "n < 32"
  shows "rotate32_right x n = word_rotr n x"
proof (rule bit_word_eqI)
  fix k
  assume "k < LENGTH(32)"
  then have k: "k < 32" by simp
  have "(k + n) mod 32 = (if k + n < 32 then k + n else k - (32 - n))"
    using assms k by (auto simp: mod_if)
  moreover have "\<not> k + n < 32 \<Longrightarrow> \<not> bit x (k + n)"
    by (auto dest: bit_imp_le_length)
  ultimately show "bit (rotate32_right x n) k = bit (word_rotr n x) k"
    using assms k by (auto simp: rotate32_right_def bit_word_rotr_iff bit_or_iff bit_push_bit_iff
        bit_drop_bit_eq add.commute [of n])
qed

section \<open>Equality masks\<close>

text \<open>
  \<open>top_ones k x\<close>: the highest \<open>k\<close> bits of \<open>x\<close> are set.  Each step \<^verbatim>\<open>x &= x << k\<close> of a mask
  doubles the number of bits that the top of the word stands for.
\<close>

definition top_ones :: "nat \<Rightarrow> 'a::len word \<Rightarrow> bool" where
  "top_ones k x = (\<forall>n. LENGTH('a) \<le> n + k \<and> n < LENGTH('a) \<longrightarrow> bit x n)"

lemma top_ones_step:
  fixes x :: "'a::len word"
  assumes "2 * k \<le> LENGTH('a)"
  shows "top_ones k (x AND push_bit k x) = top_ones (2 * k) x"
proof
  assume l: "top_ones k (x AND push_bit k x)"
  show "top_ones (2 * k) x"
    unfolding top_ones_def
  proof (intro allI impI)
    fix n
    assume n: "LENGTH('a) \<le> n + 2 * k \<and> n < LENGTH('a)"
    show "bit x n"
    proof (cases "LENGTH('a) \<le> n + k")
      case True
      with l n show ?thesis by (auto simp: top_ones_def bit_simps)
    next
      case False
      then have "bit (x AND push_bit k x) (n + k)"
        using l [unfolded top_ones_def, rule_format, of "n + k"] n by simp
      then show ?thesis by (simp add: bit_simps)
    qed
  qed
next
  assume "top_ones (2 * k) x"
  then show "top_ones k (x AND push_bit k x)"
    using assms by (auto simp: top_ones_def bit_simps)
qed

lemma top_ones_1:
  fixes x :: "'a::len word"
  assumes "n = LENGTH('a) - 1"
  shows "bit x n = top_ones 1 x"
proof -
  have "\<And>m. (LENGTH('a) \<le> m + 1 \<and> m < LENGTH('a)) = (m = n)"
    using assms len_gt_0 [where 'a = 'a] by linarith
  then show ?thesis by (simp add: top_ones_def)
qed

lemma top_ones_all:
  fixes x y :: "'a::len word"
  shows "n = LENGTH('a) \<Longrightarrow> top_ones n (NOT (x XOR y)) = (x = y)"
  by (auto simp: top_ones_def bit_simps intro: bit_word_eqI)

lemma signed_drop_top:
  fixes x :: "'a::len word"
  assumes "n = LENGTH('a) - 1"
  shows "signed_drop_bit n x = (if bit x n then -1 else 0)"
  using assms by (intro bit_word_eqI) (auto simp: bit_simps not_le)

lemmas mask_simps = Let_def signed_drop_top top_ones_1 top_ones_step top_ones_all

lemma FStar_UInt8_eq_mask_correct:
  "FStar_UInt8_eq_mask x y = (if x = y then -1 else 0)"
  by (simp add: FStar_UInt8_eq_mask_def mask_simps del: One_nat_def)

lemma FStar_UInt16_eq_mask_correct:
  "FStar_UInt16_eq_mask x y = (if x = y then -1 else 0)"
  by (simp add: FStar_UInt16_eq_mask_def mask_simps del: One_nat_def)

lemma FStar_UInt32_eq_mask_correct:
  "FStar_UInt32_eq_mask x y = (if x = y then -1 else 0)"
  by (simp add: FStar_UInt32_eq_mask_def mask_simps del: One_nat_def)

lemma FStar_UInt64_eq_mask_correct:
  "FStar_UInt64_eq_mask x y = (if x = y then -1 else 0)"
  by (simp add: FStar_UInt64_eq_mask_def mask_simps del: One_nat_def)

section \<open>Order masks\<close>

text \<open>The sign bit of a wrapped difference of two values below half the range is the borrow.\<close>

lemma bit_top_iff:
  fixes x :: "'a::len word"
  shows "n = LENGTH('a) - 1 \<Longrightarrow> bit x n = (2 ^ n \<le> unat x)"
proof -
  assume n: "n = LENGTH('a) - 1"
  have lt: "unat x < 2 * 2 ^ n"
    using unat_lt_word [of x] n by (metis Suc_diff_1 len_gt_0 power_Suc)
  have "bit x n = bit (unat x) n"
    by (auto simp: bit_unsigned_iff dest: bit_imp_le_length)
  also have "\<dots> = odd (unat x div 2 ^ n)"
    by (simp add: bit_iff_odd)
  also have "\<dots> = (2 ^ n \<le> unat x)"
  proof (cases "2 ^ n \<le> unat x")
    case True
    then have "unat x div 2 ^ n = 1"
      using lt by (intro div_nat_eqI) auto
    then show ?thesis using True by simp
  next
    case False
    then show ?thesis by simp
  qed
  finally show ?thesis .
qed

lemma borrow_bit:
  fixes x y :: "'a::len word"
  assumes "n = LENGTH('a) - 1" and "unat x < 2 ^ n" and "unat y < 2 ^ n"
  shows "bit (x - y) n = (x < y)"
proof -
  have "2 ^ LENGTH('a) = 2 * (2 ^ n :: nat)"
    using assms(1) by (metis Suc_diff_1 len_gt_0 power_Suc)
  then show ?thesis
    using assms by (auto simp: bit_top_iff unat_sub_if' word_less_nat_alt)
qed

lemma ucast_minus_1:
  "LENGTH('b) \<le> LENGTH('a) \<Longrightarrow> ucast (-1 :: 'a::len word) = (-1 :: 'b::len word)"
  by (rule bit_word_eqI) (simp add: bit_simps)

lemma FStar_UInt8_gte_mask_correct:
  "FStar_UInt8_gte_mask x y = (if x \<ge> y then -1 else 0)"
proof -
  have "bit (ucast x - ucast y :: u32) 31 = (x < y)"
    using unat_lt_word [of x] unat_lt_word [of y]
    by (subst borrow_bit) (auto simp: unat_ucast_up word_less_nat_alt)
  then show ?thesis
    by (simp add: FStar_UInt8_gte_mask_def signed_drop_top ucast_minus_1 not_less [symmetric])
qed

lemma FStar_UInt16_gte_mask_correct:
  "FStar_UInt16_gte_mask x y = (if x \<ge> y then -1 else 0)"
proof -
  have "bit (ucast x - ucast y :: u32) 31 = (x < y)"
    using unat_lt_word [of x] unat_lt_word [of y]
    by (subst borrow_bit) (auto simp: unat_ucast_up word_less_nat_alt)
  then show ?thesis
    by (simp add: FStar_UInt16_gte_mask_def signed_drop_top ucast_minus_1 not_less [symmetric])
qed

lemma FStar_UInt32_gte_mask_correct:
  "FStar_UInt32_gte_mask x y = (if x \<ge> y then -1 else 0)"
proof -
  have "bit (ucast x - ucast y :: u64) 63 = (x < y)"
    using unat_lt_word [of x] unat_lt_word [of y]
    by (subst borrow_bit) (auto simp: unat_ucast_up word_less_nat_alt)
  then show ?thesis
    by (simp add: FStar_UInt32_gte_mask_def signed_drop_top ucast_minus_1 not_less [symmetric])
qed

text \<open>
  The 64-bit mask splits off the top bit.  It is exact when the top bits agree or \<open>y\<close> has the
  larger one; for \<open>x\<close> in the upper half and \<open>y\<close> in the lower the difference of the top bits is
  itself the most negative value, and the mask is 0.
\<close>

lemma and_low63: "(x :: u64) AND 0x7fffffffffffffff = take_bit 63 x"
  by (simp add: take_bit_eq_mask mask_eq_exp_minus_1)

lemma and_high63: "(x :: u64) AND 0x8000000000000000 = (if bit x 63 then 0x8000000000000000 else 0)"
proof -
  have e: "(0x8000000000000000 :: u64) = 2 ^ 63"
    by simp
  have b: "bit (0x8000000000000000 :: u64) n = (n = 63)" for n
    by (subst e, subst bit_exp_iff) auto
  show ?thesis
    by (cases "bit x 63"; rule bit_word_eqI; simp only: bit_and_iff b if_True if_False) auto
qed

lemma FStar_UInt64_gte_mask_split:
  "FStar_UInt64_gte_mask x y =
     (if bit x 63 = bit y 63 \<and> take_bit 63 x \<ge> take_bit 63 y then -1 else 0)"
proof -
  have "bit (take_bit 63 x - take_bit 63 y) 63 = (take_bit 63 x < take_bit 63 y)"
    by (subst borrow_bit) (auto simp: unat_take_bit)
  then show ?thesis
    by (auto simp: FStar_UInt64_gte_mask_def and_low63 and_high63 signed_drop_top Let_def not_less)
qed

lemma FStar_UInt64_gte_mask_low:
  assumes "unat x < 2 ^ 63" and "unat y < 2 ^ 63"
  shows "FStar_UInt64_gte_mask x y = (if x \<ge> y then -1 else 0)"
  using assms by (simp add: FStar_UInt64_gte_mask_split bit_top_iff word_le_nat_alt unat_take_bit)

lemma FStar_UInt64_gte_mask_high:
  assumes "2 ^ 63 \<le> unat x" and "unat y < 2 ^ 63"
  shows "FStar_UInt64_gte_mask x y = 0 \<and> y < x"
  using assms by (simp add: FStar_UInt64_gte_mask_split bit_top_iff word_less_nat_alt)

section \<open>Byte order\<close>

lemma length_4_cases:
  assumes "4 \<le> length b"
  obtains b0 b1 b2 b3 r where "b = b0 # b1 # b2 # b3 # r"
  using assms by (auto simp: numeral_eq_Suc Suc_le_length_iff)

lemma length_8_cases:
  assumes "8 \<le> length b"
  obtains b0 b1 b2 b3 b4 b5 b6 b7 r where "b = b0 # b1 # b2 # b3 # b4 # b5 # b6 # b7 # r"
  using assms by (auto simp: numeral_eq_Suc Suc_le_length_iff)

lemma length_bytes_of [simp]: "length (bytes_of_u32 i) = 4" "length (bytes_of_u64 j) = 8"
  by (simp_all add: bytes_of_u32_def bytes_of_u64_def)

lemma unat_ucast_u8 [simp]:
  "unat (ucast (x :: u8) :: u32) = unat x" "unat (ucast (x :: u8) :: u64) = unat x"
  by (simp_all add: unat_ucast_up)

lemma unat_u8_le: "unat (x :: u8) \<le> 255"
  using unat_u8_lt [of x] by linarith

lemma unat_load32:
  assumes "4 \<le> length b"
  shows "unat (load32 b) = le_nat (take 4 b)"
proof -
  obtain b0 b1 b2 b3 r where b: "b = b0 # b1 # b2 # b3 # r"
    by (rule length_4_cases [OF assms])
  note le = unat_u8_le [of b0] unat_u8_le [of b1] unat_u8_le [of b2] unat_u8_le [of b3]
  let ?x1 = "ucast b0 OR push_bit 8 (ucast b1) :: u32"
  let ?x2 = "?x1 OR push_bit 16 (ucast b2)"
  have x1: "unat ?x1 = unat b0 + unat b1 * 2 ^ 8"
    using le by (subst unat_or_push_bit) auto
  have x2: "unat ?x2 = unat b0 + unat b1 * 2 ^ 8 + unat b2 * 2 ^ 16"
    using le by (subst unat_or_push_bit) (auto simp: x1)
  have "unat (?x2 OR push_bit 24 (ucast b3)) = unat ?x2 + unat b3 * 2 ^ 24"
    using le by (subst unat_or_push_bit) (auto simp: x2)
  then show ?thesis
    unfolding x2 by (simp add: load32_def b or.assoc)
qed

lemma unat_load64:
  assumes "8 \<le> length b"
  shows "unat (load64 b) = le_nat (take 8 b)"
proof -
  obtain b0 b1 b2 b3 b4 b5 b6 b7 r where b: "b = b0 # b1 # b2 # b3 # b4 # b5 # b6 # b7 # r"
    by (rule length_8_cases [OF assms])
  note le = unat_u8_le [of b0] unat_u8_le [of b1] unat_u8_le [of b2] unat_u8_le [of b3]
    unat_u8_le [of b4] unat_u8_le [of b5] unat_u8_le [of b6] unat_u8_le [of b7]
  let ?x1 = "ucast b0 OR push_bit 8 (ucast b1) :: u64"
  let ?x2 = "?x1 OR push_bit 16 (ucast b2)"
  let ?x3 = "?x2 OR push_bit 24 (ucast b3)"
  let ?x4 = "?x3 OR push_bit 32 (ucast b4)"
  let ?x5 = "?x4 OR push_bit 40 (ucast b5)"
  let ?x6 = "?x5 OR push_bit 48 (ucast b6)"
  have x1: "unat ?x1 = unat b0 + unat b1 * 2 ^ 8"
    using le by (subst unat_or_push_bit) auto
  have x2: "unat ?x2 = unat b0 + unat b1 * 2 ^ 8 + unat b2 * 2 ^ 16"
    using le by (subst unat_or_push_bit) (auto simp: x1)
  have x3: "unat ?x3 = unat ?x2 + unat b3 * 2 ^ 24"
    using le by (subst unat_or_push_bit) (auto simp: x2)
  have x4: "unat ?x4 = unat ?x3 + unat b4 * 2 ^ 32"
    using le by (subst unat_or_push_bit) (auto simp: x3 x2)
  have x5: "unat ?x5 = unat ?x4 + unat b5 * 2 ^ 40"
    using le by (subst unat_or_push_bit) (auto simp: x4 x3 x2)
  have x6: "unat ?x6 = unat ?x5 + unat b6 * 2 ^ 48"
    using le by (subst unat_or_push_bit) (auto simp: x5 x4 x3 x2)
  have "unat (?x6 OR push_bit 56 (ucast b7)) = unat ?x6 + unat b7 * 2 ^ 56"
    using le by (subst unat_or_push_bit) (auto simp: x6 x5 x4 x3 x2)
  then show ?thesis
    unfolding x6 x5 x4 x3 x2 by (simp add: load64_def b or.assoc)
qed

lemma unat_load128_le:
  assumes "16 \<le> length b"
  shows "unat (load128_le b) = le_nat (take 16 b)"
proof -
  let ?l = "load64 b" and ?h = "load64 (drop 8 b)"
  have l: "unat ?l = le_nat (take 8 b)" and h: "unat ?h = le_nat (take 8 (drop 8 b))"
    using assms by (auto intro: unat_load64)
  have lt: "unat ?l < 2 ^ 64" "unat ?h < 2 ^ 64"
    using unat_lt_word [of ?l] unat_lt_word [of ?h] by simp_all
  have "unat (ucast ?l OR push_bit 64 (ucast ?h) :: u128) = unat ?l + unat ?h * 2 ^ 64"
    using lt by (subst unat_or_push_bit) (auto simp: unat_ucast_up)
  moreover have "take 16 b = take 8 b @ take 8 (drop 8 b)"
    by (simp flip: take_add)
  moreover have "length (take 8 b) = 8"
    using assms by simp
  ultimately show ?thesis
    by (simp add: load128_le_def load64_le_def Let_def or.commute l h le_nat_append)
qed

lemma le_nat_bytes_of:
  fixes x :: "'a::len word"
  shows "le_nat (map (\<lambda>j. ucast (drop_bit (8 * j) x)) [0..<n]) = unat x mod 256 ^ n"
proof (induction n)
  case 0
  then show ?case by simp
next
  case (Suc n)
  have "unat (ucast (drop_bit (8 * n) x) :: u8) = unat x div 256 ^ n mod 256"
    by (simp add: unat_ucast_down unat_drop_bit power_mult)
  then show ?case
    using Suc mod_mult2_eq [of "unat x" "256 ^ n" 256]
    by (simp add: le_nat_append mult.commute)
qed

lemma le_nat_bytes_of_u32: "le_nat (bytes_of_u32 x) = unat x"
  using le_nat_bytes_of [of x 4] unat_lt_word [of x]
  by (simp add: bytes_of_u32_def upt_rec)

lemma le_nat_bytes_of_u64: "le_nat (bytes_of_u64 x) = unat x"
  using le_nat_bytes_of [of x 8] unat_lt_word [of x]
  by (simp add: bytes_of_u64_def upt_rec)

lemma load32_bytes_of_u32 [simp]: "load32 (bytes_of_u32 x @ r) = x"
  by (rule word_unat_eqI) (simp add: unat_load32 le_nat_bytes_of_u32)

lemma load64_bytes_of_u64 [simp]: "load64 (bytes_of_u64 x @ r) = x"
  by (rule word_unat_eqI) (simp add: unat_load64 le_nat_bytes_of_u64)

lemma bytes_of_u32_load32: "4 \<le> length b \<Longrightarrow> bytes_of_u32 (load32 b) = take 4 b"
  by (rule le_nat_inj) (simp_all add: le_nat_bytes_of_u32 unat_load32)

lemma bytes_of_u64_load64: "8 \<le> length b \<Longrightarrow> bytes_of_u64 (load64 b) = take 8 b"
  by (rule le_nat_inj) (simp_all add: le_nat_bytes_of_u64 unat_load64)

text \<open>Byte swapping reverses the bytes.\<close>

lemma bytes_of_u32_htobe32: "bytes_of_u32 (htobe32 x) = rev (bytes_of_u32 x)"
proof -
  have m: "(0x000000FF :: u32) = mask 8" "(0x0000FF00 :: u32) = push_bit 8 (mask 8)"
    "(0x00FF0000 :: u32) = push_bit 16 (mask 8)" "(0xFF000000 :: u32) = push_bit 24 (mask 8)"
    by (simp_all add: mask_eq_exp_minus_1)
  show ?thesis
    unfolding htobe32_def m
    by (auto simp: bytes_of_u32_def bit_simps intro!: bit_word_eqI dest: bit_imp_le_length)
qed

lemma bytes_of_u64_halves:
  "bytes_of_u64 x = bytes_of_u32 (ucast x) @ bytes_of_u32 (ucast (drop_bit 32 x))"
  by (auto simp: bytes_of_u64_def bytes_of_u32_def bit_simps intro!: bit_word_eqI)

lemma not_bit_u32: "32 \<le> n \<Longrightarrow> \<not> bit (x :: u32) n"
  by (auto dest: bit_imp_le_length)

lemma bytes_of_u64_htobe64: "bytes_of_u64 (htobe64 x) = rev (bytes_of_u64 x)"
proof -
  let ?l = "htobe32 (ucast x)" and ?h = "htobe32 (ucast (drop_bit 32 x))"
  have "ucast (htobe64 x) = ?h" and "ucast (drop_bit 32 (htobe64 x)) = ?l"
    by (auto simp: htobe64_def Let_def bit_simps not_bit_u32 intro!: bit_word_eqI)
  then show ?thesis
    by (simp add: bytes_of_u64_halves bytes_of_u32_htobe32)
qed

lemma le_nat_htobe32: "unat (htobe32 x) = le_nat (rev (bytes_of_u32 x))"
  by (metis bytes_of_u32_htobe32 le_nat_bytes_of_u32)

lemma le_nat_htobe64: "unat (htobe64 x) = le_nat (rev (bytes_of_u64 x))"
  by (metis bytes_of_u64_htobe64 le_nat_bytes_of_u64)

lemma unat_load32_be: "4 \<le> length b \<Longrightarrow> unat (load32_be b) = le_nat (rev (take 4 b))"
  by (simp add: load32_be_def le_nat_htobe32 bytes_of_u32_load32)

lemma unat_load64_be: "8 \<le> length b \<Longrightarrow> unat (load64_be b) = le_nat (rev (take 8 b))"
  by (simp add: load64_be_def le_nat_htobe64 bytes_of_u64_load64)

lemma htobe32_htobe32 [simp]: "htobe32 (htobe32 x) = x"
  by (rule word_unat_eqI) (simp add: le_nat_htobe32 bytes_of_u32_htobe32 le_nat_bytes_of_u32)

lemma htobe64_htobe64 [simp]: "htobe64 (htobe64 x) = x"
  by (rule word_unat_eqI) (simp add: le_nat_htobe64 bytes_of_u64_htobe64 le_nat_bytes_of_u64)

section \<open>Stores\<close>

lemma store32_le_eq: "store32_le b i = bytes_of_u32 i @ drop 4 b"
  by (simp add: store32_le_def store32_def blit_0)

lemma store64_le_eq: "store64_le b i = bytes_of_u64 i @ drop 8 b"
  by (simp add: store64_le_def store64_def blit_0)

lemma store32_be_eq: "store32_be b i = rev (bytes_of_u32 i) @ drop 4 b"
  by (simp add: store32_be_def store32_def blit_0 bytes_of_u32_htobe32)

lemma store64_be_eq: "store64_be b i = rev (bytes_of_u64 i) @ drop 8 b"
  by (simp add: store64_be_def store64_def blit_0 bytes_of_u64_htobe64)

definition bytes_of_u128 :: "u128 \<Rightarrow> bytes" where
  "bytes_of_u128 n = bytes_of_u64 (ucast n) @ bytes_of_u64 (ucast (drop_bit 64 n))"

lemma length_bytes_of_u128 [simp]: "length (bytes_of_u128 n) = 16"
  by (simp add: bytes_of_u128_def)

lemma le_nat_bytes_of_u128: "le_nat (bytes_of_u128 n) = unat n"
proof -
  have "unat (ucast (drop_bit 64 n) :: u64) = unat n div 2 ^ 64"
    using unat_lt_word [of n] by (simp add: unat_ucast_down unat_drop_bit less_mult_imp_div_less)
  moreover have "unat (ucast n :: u64) = unat n mod 2 ^ 64"
    by (simp add: unat_ucast_down)
  ultimately show ?thesis
    by (simp add: bytes_of_u128_def le_nat_append le_nat_bytes_of_u64)
qed

lemma store128_le_eq:
  assumes "16 \<le> length b"
  shows "store128_le b n = bytes_of_u128 n @ drop 16 b"
  using assms by (simp add: store128_le_def at_off_def store64_le_eq bytes_of_u128_def)

text \<open>The base-256 digits of a number, least or most significant first.\<close>

definition nat_to_le :: "nat \<Rightarrow> nat \<Rightarrow> bytes" where
  "nat_to_le n x = map (\<lambda>i. word_of_nat (x div 256 ^ i)) [0..<n]"

definition nat_to_be :: "nat \<Rightarrow> nat \<Rightarrow> bytes" where
  "nat_to_be n x = rev (nat_to_le n x)"

lemma length_nat_to_be [simp]: "length (nat_to_be n x) = n"
  by (simp add: nat_to_be_def nat_to_le_def)

lemma length_nat_to_le [simp]: "length (nat_to_le n x) = n"
  by (simp add: nat_to_le_def)

lemma le_nat_nat_to_le: "le_nat (nat_to_le n x) = x mod 256 ^ n"
proof (induction n)
  case 0
  then show ?case by (simp add: nat_to_le_def)
next
  case (Suc n)
  have "nat_to_le (Suc n) x = nat_to_le n x @ [word_of_nat (x div 256 ^ n)]"
    by (simp add: nat_to_le_def)
  with Suc show ?case
    using mod_mult2_eq [of x "256 ^ n" 256]
    by (simp add: le_nat_append unat_of_nat mult.commute)
qed

lemma bytes_of_u128_nat_to_le: "bytes_of_u128 w = nat_to_le 16 (unat w)"
  using unat_lt_word [of w]
  by (intro le_nat_inj) (simp_all add: le_nat_bytes_of_u128 le_nat_nat_to_le)

lemma bytes_of_u64_nat_to_le: "bytes_of_u64 w = nat_to_le 8 (unat w)"
  using unat_lt_word [of w] by (intro le_nat_inj) (simp_all add: le_nat_bytes_of_u64 le_nat_nat_to_le)

text \<open>For every buffer long enough, a value stored in one of the four byte orders is the value
  loaded back, and the bytes stored are the little-endian (respectively big-endian) digits of the
  value in base 256; the 128-bit store round-trips as two 64-bit words.\<close>

theorem load_store_roundtrip:
  assumes "16 \<le> length b"
  shows "load32_le (store32_le b x) = x \<and> load32_be (store32_be b x) = x
    \<and> load64_le (store64_le b y) = y \<and> load64_be (store64_be b y) = y
    \<and> load128_le (store128_le b z) = z
    \<and> le_nat (take 4 (store32_le b x)) = unat x \<and> le_nat (rev (take 4 (store32_be b x))) = unat x
    \<and> le_nat (take 8 (store64_le b y)) = unat y \<and> le_nat (rev (take 8 (store64_be b y))) = unat y
    \<and> le_nat (take 16 (store128_le b z)) = unat z"
proof -
  have "load32_be (store32_be b x) = x"
    using assms by (simp add: load32_be_def store32_be_def store32_def blit_0)
  moreover have "load64_be (store64_be b y) = y"
    using assms by (simp add: load64_be_def store64_be_def store64_def blit_0)
  moreover have "load128_le (store128_le b z) = z"
    using assms by (intro word_unat_eqI)
      (simp add: unat_load128_le store128_le_eq le_nat_bytes_of_u128)
  ultimately show ?thesis
    using assms
    by (simp add: load32_le_def load64_le_def store32_le_eq store64_le_eq store32_be_eq store64_be_eq
        store128_le_eq le_nat_bytes_of_u32 le_nat_bytes_of_u64 le_nat_bytes_of_u128)
qed

theorem load_store_roundtrip_witness:
  "load64_be (store64_be (replicate 16 0) 0x0102030405060708) = 0x0102030405060708
   \<and> load32_le (store32_le (replicate 16 0) 0xdeadbeef) = 0xdeadbeef"
  using load_store_roundtrip [of "replicate 16 0" "0xdeadbeef" "0x0102030405060708" 0] by simp

text \<open>The constant-time comparison masks of 8, 16 and 32 bits, and the 64-bit equality mask, are
  all ones exactly when the comparison holds and zero otherwise, for every pair of arguments.\<close>

theorem masks_correct:
  "FStar_UInt8_eq_mask a b = (if a = b then -1 else 0)
   \<and> FStar_UInt8_gte_mask a b = (if b \<le> a then -1 else 0)
   \<and> FStar_UInt16_eq_mask c d = (if c = d then -1 else 0)
   \<and> FStar_UInt16_gte_mask c d = (if d \<le> c then -1 else 0)
   \<and> FStar_UInt32_eq_mask e f = (if e = f then -1 else 0)
   \<and> FStar_UInt32_gte_mask e f = (if f \<le> e then -1 else 0)
   \<and> FStar_UInt64_eq_mask g h = (if g = h then -1 else 0)"
  by (simp add: FStar_UInt8_eq_mask_correct FStar_UInt8_gte_mask_correct
      FStar_UInt16_eq_mask_correct FStar_UInt16_gte_mask_correct
      FStar_UInt32_eq_mask_correct FStar_UInt32_gte_mask_correct FStar_UInt64_eq_mask_correct)

text \<open>The 64-bit order mask is exact exactly outside one quadrant: it is all ones iff the
  comparison holds unless the first argument is at least \<open>2 ^ 63\<close> and the second is below it,
  where it is zero although the first argument is the greater one.\<close>

theorem gte_mask64_characterisation:
  "FStar_UInt64_gte_mask x y =
     (if y \<le> x \<and> \<not> (2 ^ 63 \<le> unat x \<and> unat y < 2 ^ 63) then -1 else 0)"
proof (cases "bit x 63 = bit y 63")
  case True
  have "unat x = unat (take_bit 63 x) + (if bit x 63 then 2 ^ 63 else 0)" for x :: u64
    using unat_lt_word [of x] by (auto simp: unat_take_bit bit_top_iff mod_if)
  from this [of x] this [of y] True show ?thesis
    by (auto simp: FStar_UInt64_gte_mask_split bit_top_iff word_le_nat_alt)
next
  case False
  then show ?thesis
    by (auto simp: FStar_UInt64_gte_mask_split bit_top_iff word_le_nat_alt)
qed

end
