(* ===== verification/FStar.thy ===== *)
theory FStar
  imports Kremlib
begin

text \<open>
  128-bit unsigned arithmetic.  The HACL* routines are written against the \<^verbatim>\<open>FStar_UInt128_*\<close>
  interface, which \<^verbatim>\<open>kremlib.h\<close> provides in two ways: with the compiler's 128-bit integers (the
  build on 64-bit machines) and, under \<^verbatim>\<open>KRML_NOUINT128\<close>, with pairs of 64-bit words
  (\<^verbatim>\<open>FStar.c\<close>, the build on 32-bit machines).  The locale \<open>uint128\<close> is the contract the limb
  routines rely on; both providers interpret it.
\<close>

section \<open>The compiler's 128-bit integers\<close>

definition FStar_UInt128_add :: "u128 \<Rightarrow> u128 \<Rightarrow> u128" where
  "FStar_UInt128_add x y = x + y"

definition FStar_UInt128_add_mod :: "u128 \<Rightarrow> u128 \<Rightarrow> u128" where
  "FStar_UInt128_add_mod x y = x + y"

definition FStar_UInt128_sub :: "u128 \<Rightarrow> u128 \<Rightarrow> u128" where
  "FStar_UInt128_sub x y = x - y"

definition FStar_UInt128_sub_mod :: "u128 \<Rightarrow> u128 \<Rightarrow> u128" where
  "FStar_UInt128_sub_mod x y = x - y"

definition FStar_UInt128_logand :: "u128 \<Rightarrow> u128 \<Rightarrow> u128" where
  "FStar_UInt128_logand x y = x AND y"

definition FStar_UInt128_logor :: "u128 \<Rightarrow> u128 \<Rightarrow> u128" where
  "FStar_UInt128_logor x y = x OR y"

definition FStar_UInt128_logxor :: "u128 \<Rightarrow> u128 \<Rightarrow> u128" where
  "FStar_UInt128_logxor x y = x XOR y"

definition FStar_UInt128_lognot :: "u128 \<Rightarrow> u128" where
  "FStar_UInt128_lognot x = NOT x"

definition FStar_UInt128_shift_left :: "u128 \<Rightarrow> nat \<Rightarrow> u128" where
  "FStar_UInt128_shift_left x s = push_bit s x"

definition FStar_UInt128_shift_right :: "u128 \<Rightarrow> nat \<Rightarrow> u128" where
  "FStar_UInt128_shift_right x s = drop_bit s x"

definition FStar_UInt128_uint64_to_uint128 :: "u64 \<Rightarrow> u128" where
  "FStar_UInt128_uint64_to_uint128 x = ucast x"

definition FStar_UInt128_uint128_to_uint64 :: "u128 \<Rightarrow> u64" where
  "FStar_UInt128_uint128_to_uint64 x = ucast x"

definition FStar_UInt128_mul_wide :: "u64 \<Rightarrow> u64 \<Rightarrow> u128" where
  "FStar_UInt128_mul_wide x y = ucast x * ucast y"

definition FStar_UInt128_eq_mask :: "u128 \<Rightarrow> u128 \<Rightarrow> u128" where
  "FStar_UInt128_eq_mask x y =
     (let m = FStar_UInt64_eq_mask (ucast (drop_bit 64 x)) (ucast (drop_bit 64 y))
            AND FStar_UInt64_eq_mask (ucast x) (ucast y)
      in push_bit 64 (ucast m) OR ucast m)"

definition FStar_UInt128_gte_mask :: "u128 \<Rightarrow> u128 \<Rightarrow> u128" where
  "FStar_UInt128_gte_mask x y =
     (let xh = ucast (drop_bit 64 x); yh = ucast (drop_bit 64 y);
          m = (FStar_UInt64_gte_mask xh yh AND NOT (FStar_UInt64_eq_mask xh yh))
            OR (FStar_UInt64_eq_mask xh yh AND FStar_UInt64_gte_mask (ucast x) (ucast y))
      in push_bit 64 (ucast m) OR ucast m)"

section \<open>Pairs of 64-bit words\<close>

record FStar_UInt128_uint128 =
  low :: u64
  high :: u64

definition FStar_UInt128_constant_time_carry :: "u64 \<Rightarrow> u64 \<Rightarrow> u64" where
  "FStar_UInt128_constant_time_carry a b =
     drop_bit 63 (a XOR ((a XOR b) OR ((a - b) XOR b)))"

definition FStar_UInt128_carry :: "u64 \<Rightarrow> u64 \<Rightarrow> u64" where
  "FStar_UInt128_carry a b = FStar_UInt128_constant_time_carry a b"

definition FStar_UInt128_add_struct ::
  "FStar_UInt128_uint128 \<Rightarrow> FStar_UInt128_uint128 \<Rightarrow> FStar_UInt128_uint128" where
  "FStar_UInt128_add_struct a b =
     \<lparr>low = low a + low b,
      high = high a + high b + FStar_UInt128_carry (low a + low b) (low b)\<rparr>"

definition FStar_UInt128_add_mod_struct ::
  "FStar_UInt128_uint128 \<Rightarrow> FStar_UInt128_uint128 \<Rightarrow> FStar_UInt128_uint128" where
  "FStar_UInt128_add_mod_struct a b =
     \<lparr>low = low a + low b,
      high = high a + high b + FStar_UInt128_carry (low a + low b) (low b)\<rparr>"

definition FStar_UInt128_sub_struct ::
  "FStar_UInt128_uint128 \<Rightarrow> FStar_UInt128_uint128 \<Rightarrow> FStar_UInt128_uint128" where
  "FStar_UInt128_sub_struct a b =
     \<lparr>low = low a - low b,
      high = high a - high b - FStar_UInt128_carry (low a) (low a - low b)\<rparr>"

definition FStar_UInt128_sub_mod_impl ::
  "FStar_UInt128_uint128 \<Rightarrow> FStar_UInt128_uint128 \<Rightarrow> FStar_UInt128_uint128" where
  "FStar_UInt128_sub_mod_impl a b =
     \<lparr>low = low a - low b,
      high = high a - high b - FStar_UInt128_carry (low a) (low a - low b)\<rparr>"

definition FStar_UInt128_sub_mod_struct ::
  "FStar_UInt128_uint128 \<Rightarrow> FStar_UInt128_uint128 \<Rightarrow> FStar_UInt128_uint128" where
  "FStar_UInt128_sub_mod_struct a b = FStar_UInt128_sub_mod_impl a b"

definition FStar_UInt128_logand_struct ::
  "FStar_UInt128_uint128 \<Rightarrow> FStar_UInt128_uint128 \<Rightarrow> FStar_UInt128_uint128" where
  "FStar_UInt128_logand_struct a b = \<lparr>low = low a AND low b, high = high a AND high b\<rparr>"

definition FStar_UInt128_logxor_struct ::
  "FStar_UInt128_uint128 \<Rightarrow> FStar_UInt128_uint128 \<Rightarrow> FStar_UInt128_uint128" where
  "FStar_UInt128_logxor_struct a b = \<lparr>low = low a XOR low b, high = high a XOR high b\<rparr>"

definition FStar_UInt128_logor_struct ::
  "FStar_UInt128_uint128 \<Rightarrow> FStar_UInt128_uint128 \<Rightarrow> FStar_UInt128_uint128" where
  "FStar_UInt128_logor_struct a b = \<lparr>low = low a OR low b, high = high a OR high b\<rparr>"

definition FStar_UInt128_lognot_struct :: "FStar_UInt128_uint128 \<Rightarrow> FStar_UInt128_uint128" where
  "FStar_UInt128_lognot_struct a = \<lparr>low = NOT (low a), high = NOT (high a)\<rparr>"

definition FStar_UInt128_u32_64 :: nat where
  "FStar_UInt128_u32_64 = 64"

definition FStar_UInt128_add_u64_shift_left :: "u64 \<Rightarrow> u64 \<Rightarrow> nat \<Rightarrow> u64" where
  "FStar_UInt128_add_u64_shift_left hi lo s =
     push_bit s hi + drop_bit (FStar_UInt128_u32_64 - s) lo"

definition FStar_UInt128_add_u64_shift_left_respec :: "u64 \<Rightarrow> u64 \<Rightarrow> nat \<Rightarrow> u64" where
  "FStar_UInt128_add_u64_shift_left_respec hi lo s = FStar_UInt128_add_u64_shift_left hi lo s"

definition FStar_UInt128_shift_left_small ::
  "FStar_UInt128_uint128 \<Rightarrow> nat \<Rightarrow> FStar_UInt128_uint128" where
  "FStar_UInt128_shift_left_small a s =
     (if s = 0 then a
      else \<lparr>low = push_bit s (low a),
            high = FStar_UInt128_add_u64_shift_left_respec (high a) (low a) s\<rparr>)"

definition FStar_UInt128_shift_left_large ::
  "FStar_UInt128_uint128 \<Rightarrow> nat \<Rightarrow> FStar_UInt128_uint128" where
  "FStar_UInt128_shift_left_large a s =
     \<lparr>low = 0, high = push_bit (s - FStar_UInt128_u32_64) (low a)\<rparr>"

definition FStar_UInt128_shift_left_struct ::
  "FStar_UInt128_uint128 \<Rightarrow> nat \<Rightarrow> FStar_UInt128_uint128" where
  "FStar_UInt128_shift_left_struct a s =
     (if s < FStar_UInt128_u32_64 then FStar_UInt128_shift_left_small a s
      else FStar_UInt128_shift_left_large a s)"

definition FStar_UInt128_add_u64_shift_right :: "u64 \<Rightarrow> u64 \<Rightarrow> nat \<Rightarrow> u64" where
  "FStar_UInt128_add_u64_shift_right hi lo s =
     drop_bit s lo + push_bit (FStar_UInt128_u32_64 - s) hi"

definition FStar_UInt128_add_u64_shift_right_respec :: "u64 \<Rightarrow> u64 \<Rightarrow> nat \<Rightarrow> u64" where
  "FStar_UInt128_add_u64_shift_right_respec hi lo s = FStar_UInt128_add_u64_shift_right hi lo s"

definition FStar_UInt128_shift_right_small ::
  "FStar_UInt128_uint128 \<Rightarrow> nat \<Rightarrow> FStar_UInt128_uint128" where
  "FStar_UInt128_shift_right_small a s =
     (if s = 0 then a
      else \<lparr>low = FStar_UInt128_add_u64_shift_right_respec (high a) (low a) s,
            high = drop_bit s (high a)\<rparr>)"

definition FStar_UInt128_shift_right_large ::
  "FStar_UInt128_uint128 \<Rightarrow> nat \<Rightarrow> FStar_UInt128_uint128" where
  "FStar_UInt128_shift_right_large a s =
     \<lparr>low = drop_bit (s - FStar_UInt128_u32_64) (high a), high = 0\<rparr>"

definition FStar_UInt128_shift_right_struct ::
  "FStar_UInt128_uint128 \<Rightarrow> nat \<Rightarrow> FStar_UInt128_uint128" where
  "FStar_UInt128_shift_right_struct a s =
     (if s < FStar_UInt128_u32_64 then FStar_UInt128_shift_right_small a s
      else FStar_UInt128_shift_right_large a s)"

definition FStar_UInt128_eq_mask_struct ::
  "FStar_UInt128_uint128 \<Rightarrow> FStar_UInt128_uint128 \<Rightarrow> FStar_UInt128_uint128" where
  "FStar_UInt128_eq_mask_struct a b =
     \<lparr>low = FStar_UInt64_eq_mask (low a) (low b) AND FStar_UInt64_eq_mask (high a) (high b),
      high = FStar_UInt64_eq_mask (low a) (low b) AND FStar_UInt64_eq_mask (high a) (high b)\<rparr>"

definition FStar_UInt128_gte_mask_struct ::
  "FStar_UInt128_uint128 \<Rightarrow> FStar_UInt128_uint128 \<Rightarrow> FStar_UInt128_uint128" where
  "FStar_UInt128_gte_mask_struct a b =
     \<lparr>low = (FStar_UInt64_gte_mask (high a) (high b) AND NOT (FStar_UInt64_eq_mask (high a) (high b)))
        OR (FStar_UInt64_eq_mask (high a) (high b) AND FStar_UInt64_gte_mask (low a) (low b)),
      high = (FStar_UInt64_gte_mask (high a) (high b) AND NOT (FStar_UInt64_eq_mask (high a) (high b)))
        OR (FStar_UInt64_eq_mask (high a) (high b) AND FStar_UInt64_gte_mask (low a) (low b))\<rparr>"

definition FStar_UInt128_uint64_to_uint128_struct :: "u64 \<Rightarrow> FStar_UInt128_uint128" where
  "FStar_UInt128_uint64_to_uint128_struct a = \<lparr>low = a, high = 0\<rparr>"

definition FStar_UInt128_uint128_to_uint64_struct :: "FStar_UInt128_uint128 \<Rightarrow> u64" where
  "FStar_UInt128_uint128_to_uint64_struct a = low a"

definition FStar_UInt128_u64_l32_mask :: u64 where
  "FStar_UInt128_u64_l32_mask = 0xffffffff"

definition FStar_UInt128_u64_mod_32 :: "u64 \<Rightarrow> u64" where
  "FStar_UInt128_u64_mod_32 a = a AND FStar_UInt128_u64_l32_mask"

definition FStar_UInt128_u32_32 :: nat where
  "FStar_UInt128_u32_32 = 32"

definition FStar_UInt128_mul_wide_impl_t' :: "u64 \<Rightarrow> u64 \<Rightarrow> u64 \<times> u64 \<times> u64 \<times> u64" where
  "FStar_UInt128_mul_wide_impl_t' x y =
     (FStar_UInt128_u64_mod_32 x,
      FStar_UInt128_u64_mod_32 (FStar_UInt128_u64_mod_32 x * FStar_UInt128_u64_mod_32 y),
      drop_bit FStar_UInt128_u32_32 x,
      drop_bit FStar_UInt128_u32_32 x * FStar_UInt128_u64_mod_32 y
        + drop_bit FStar_UInt128_u32_32 (FStar_UInt128_u64_mod_32 x * FStar_UInt128_u64_mod_32 y))"

definition FStar_UInt128_u32_combine' :: "u64 \<Rightarrow> u64 \<Rightarrow> u64" where
  "FStar_UInt128_u32_combine' hi lo = lo + push_bit FStar_UInt128_u32_32 hi"

definition FStar_UInt128_mul_wide_impl :: "u64 \<Rightarrow> u64 \<Rightarrow> FStar_UInt128_uint128" where
  "FStar_UInt128_mul_wide_impl x y =
     (let (u1, w3, x', t') = FStar_UInt128_mul_wide_impl_t' x y
      in \<lparr>low = FStar_UInt128_u32_combine'
            (u1 * drop_bit FStar_UInt128_u32_32 y + FStar_UInt128_u64_mod_32 t') w3,
          high = x' * drop_bit FStar_UInt128_u32_32 y + drop_bit FStar_UInt128_u32_32 t'
            + drop_bit FStar_UInt128_u32_32
                (u1 * drop_bit FStar_UInt128_u32_32 y + FStar_UInt128_u64_mod_32 t')\<rparr>)"

definition FStar_UInt128_mul_wide_struct :: "u64 \<Rightarrow> u64 \<Rightarrow> FStar_UInt128_uint128" where
  "FStar_UInt128_mul_wide_struct x y = FStar_UInt128_mul_wide_impl x y"

section \<open>The interface\<close>

text \<open>
  The contract: an abstract value below \<open>2 ^ 128\<close>, and each operation's effect on it.  The
  lemmas are the steps of the limb routines: accumulate a product, split off the low bits of an
  accumulator, carry the rest into the next one.
\<close>

locale uint128 =
  fixes val :: "'w \<Rightarrow> nat"
    and add :: "'w \<Rightarrow> 'w \<Rightarrow> 'w"
    and sub :: "'w \<Rightarrow> 'w \<Rightarrow> 'w"
    and conj :: "'w \<Rightarrow> 'w \<Rightarrow> 'w"
    and disj :: "'w \<Rightarrow> 'w \<Rightarrow> 'w"
    and shl :: "'w \<Rightarrow> nat \<Rightarrow> 'w"
    and shr :: "'w \<Rightarrow> nat \<Rightarrow> 'w"
    and of64 :: "u64 \<Rightarrow> 'w"
    and to64 :: "'w \<Rightarrow> u64"
    and mulw :: "u64 \<Rightarrow> u64 \<Rightarrow> 'w"
  assumes val_lt: "val a < 2 ^ 128"
    and val_inject: "val a = val b \<Longrightarrow> a = b"
    and val_add: "val (add a b) = (val a + val b) mod 2 ^ 128"
    and val_sub: "val (sub a b) = (val a + (2 ^ 128 - val b)) mod 2 ^ 128"
    and val_conj: "val (conj a b) = val a AND val b"
    and val_disj: "val (disj a b) = val a OR val b"
    and val_shl: "n < 128 \<Longrightarrow> val (shl a n) = val a * 2 ^ n mod 2 ^ 128"
    and val_shr: "n < 128 \<Longrightarrow> val (shr a n) = val a div 2 ^ n"
    and val_of64: "val (of64 x) = unat x"
    and unat_to64: "unat (to64 a) = val a mod 2 ^ 64"
    and val_mulw: "val (mulw x y) = unat x * unat y"
begin

lemma val_add_small: "val a + val b < 2 ^ 128 \<Longrightarrow> val (add a b) = val a + val b"
  by (simp add: val_add)

lemma val_accumulate:
  "val a + unat x * unat y < 2 ^ 128 \<Longrightarrow> val (add a (mulw x y)) = val a + unat x * unat y"
  by (simp add: val_add_small val_mulw)

lemma val_low_bits: "k \<le> 64 \<Longrightarrow> val (of64 (to64 a AND mask k)) = val a mod 2 ^ k"
  using mod_mod_cancel [OF le_imp_power_dvd [of k 64 "2 :: nat"], of "val a"]
  by (simp add: val_of64 unat_and_mask unat_to64)

lemma val_carry:
  "k < 128 \<Longrightarrow> val b + val a div 2 ^ k < 2 ^ 128 \<Longrightarrow> val (add b (shr a k)) = val b + val a div 2 ^ k"
  by (simp add: val_add_small val_shr)

lemma val_conj_mask: "k \<le> 64 \<Longrightarrow> val (conj a (of64 (mask k))) = val a mod 2 ^ k"
proof -
  assume "k \<le> 64"
  then have "unat (mask k :: u64) = mask k"
    by (intro bit_eqI) (auto simp: bit_simps)
  then show ?thesis
    by (simp add: val_conj val_of64 take_bit_eq_mod flip: take_bit_eq_mask)
qed

lemma unat_to64_small: "val a < 2 ^ 64 \<Longrightarrow> unat (to64 a) = val a"
  by (simp add: unat_to64)

lemma unat_to64_shr: "k < 128 \<Longrightarrow> val a < 2 ^ (k + 64) \<Longrightarrow> unat (to64 (shr a k)) = val a div 2 ^ k"
  by (simp add: unat_to64 val_shr less_mult_imp_div_less power_add mult.commute)

text \<open>The contract determines the operations: two values with the same image are equal.\<close>

lemma add_unique: "val r = (val a + val b) mod 2 ^ 128 \<Longrightarrow> r = add a b"
  by (simp add: val_inject val_add)

end

interpretation native: uint128 unat FStar_UInt128_add FStar_UInt128_sub FStar_UInt128_logand
  FStar_UInt128_logor FStar_UInt128_shift_left FStar_UInt128_shift_right
  FStar_UInt128_uint64_to_uint128 FStar_UInt128_uint128_to_uint64 FStar_UInt128_mul_wide
proof unfold_locales
  fix a b :: u128 and x y :: u64 and n :: nat
  show "unat a < 2 ^ 128"
    using unat_lt_word [of a] by simp
  show "unat a = unat b \<Longrightarrow> a = b"
    by (rule word_unat_eqI)
  show "unat (FStar_UInt128_add a b) = (unat a + unat b) mod 2 ^ 128"
    by (simp add: FStar_UInt128_add_def unat_word_ariths)
  show "unat (FStar_UInt128_sub a b) = (unat a + (2 ^ 128 - unat b)) mod 2 ^ 128"
    using unat_lt_word [of a] unat_lt_word [of b]
    by (auto simp: FStar_UInt128_sub_def unat_sub_if' mod_if)
  show "unat (FStar_UInt128_logand a b) = unat a AND unat b"
    by (simp add: FStar_UInt128_logand_def unsigned_and_eq)
  show "unat (FStar_UInt128_logor a b) = unat a OR unat b"
    by (simp add: FStar_UInt128_logor_def unsigned_or_eq)
  show "unat (FStar_UInt128_shift_left a n) = unat a * 2 ^ n mod 2 ^ 128"
    by (simp add: FStar_UInt128_shift_left_def unat_push_bit)
  show "unat (FStar_UInt128_shift_right a n) = unat a div 2 ^ n"
    by (simp add: FStar_UInt128_shift_right_def unat_drop_bit)
  show "unat (FStar_UInt128_uint64_to_uint128 x) = unat x"
    by (simp add: FStar_UInt128_uint64_to_uint128_def unat_ucast_up)
  show "unat (FStar_UInt128_uint128_to_uint64 a) = unat a mod 2 ^ 64"
    by (simp add: FStar_UInt128_uint128_to_uint64_def unat_ucast_down)
  have "unat x * unat y < 2 ^ 64 * 2 ^ 64"
    using unat_lt_word [of x] unat_lt_word [of y] by (intro mult_strict_mono) simp_all
  then show "unat (FStar_UInt128_mul_wide x y) = unat x * unat y"
    by (simp add: FStar_UInt128_mul_wide_def unat_mult_small unat_ucast_up)
qed

section \<open>The pair implementation meets the contract\<close>

definition struct_val :: "FStar_UInt128_uint128 \<Rightarrow> nat" where
  "struct_val a = unat (low a) + 2 ^ 64 * unat (high a)"

lemma unat_u64_lt: "unat (x :: u64) < 18446744073709551616"
  using unat_lt_word [of x] by simp

lemma struct_val_lt: "struct_val a < 2 ^ 128"
  using unat_u64_lt [of "low a"] unat_u64_lt [of "high a"] by (simp add: struct_val_def)

lemma struct_val_parts:
  "unat (low a) = struct_val a mod 2 ^ 64" "unat (high a) = struct_val a div 2 ^ 64"
  using unat_u64_lt [of "low a"] by (simp_all add: struct_val_def)

lemma struct_val_inject: "struct_val a = struct_val b \<Longrightarrow> a = b"
  using struct_val_parts [of a] struct_val_parts [of b]
  by (cases a; cases b) (simp add: word_unat_eqI)

lemma unat_drop_top: "unat (drop_bit 63 (r :: u64)) = (if bit r 63 then 1 else 0)"
proof -
  have "unat r div 2 ^ 63 < 2"
    using unat_u64_lt [of r] by (intro less_mult_imp_div_less) simp
  moreover have "2 ^ 63 \<le> unat r \<Longrightarrow> 0 < unat r div 2 ^ 63"
    by (simp add: div_greater_zero_iff)
  ultimately show ?thesis
    by (auto simp: unat_drop_bit bit_top_iff)
qed

lemma carry_correct: "unat (FStar_UInt128_carry a b) = (if a < b then 1 else 0)"
proof -
  have "bit (a XOR ((a XOR b) OR ((a - b) XOR b))) 63 = (a < b)"
    using unat_u64_lt [of a] unat_u64_lt [of b]
    by (auto simp: bit_or_iff bit_xor_iff bit_top_iff word_less_nat_alt unat_sub_if' split: if_splits)
  then show ?thesis
    by (simp only: FStar_UInt128_carry_def FStar_UInt128_constant_time_carry_def unat_drop_top)
qed

lemma struct_val_add:
  "struct_val (FStar_UInt128_add_struct a b) = (struct_val a + struct_val b) mod 2 ^ 128"
proof -
  let ?c = "FStar_UInt128_carry (low a + low b) (low b)"
  have c: "unat ?c = (unat (low a) + unat (low b)) div 2 ^ 64"
  proof -
    have "(unat (low a) + unat (low b)) div 2 ^ 64 = (if unat (low a) + unat (low b) < 2 ^ 64 then 0 else 1)"
      using unat_u64_lt [of "low a"] unat_u64_lt [of "low b"] by (auto intro!: div_nat_eqI)
    then show ?thesis
      using unat_u64_lt [of "low a"] unat_u64_lt [of "low b"]
      by (auto simp: carry_correct word_less_nat_alt unat_plus_if')
  qed
  have l: "unat (low a + low b) = (unat (low a) + unat (low b)) mod 2 ^ 64"
    by (simp add: unat_word_ariths)
  have h: "unat (high a + high b + ?c)
      = (unat (high a) + unat (high b) + (unat (low a) + unat (low b)) div 2 ^ 64) mod 2 ^ 64"
    by (simp add: unat_word_ariths c mod_simps)
  let ?m = "unat (low a) + unat (low b) + 2 ^ 64 * (unat (high a) + unat (high b))"
  have "?m mod (2 ^ 64 * 2 ^ 64) = 2 ^ 64 * (?m div 2 ^ 64 mod 2 ^ 64) + ?m mod 2 ^ 64"
    by (rule mod_mult2_eq)
  moreover have "?m div 2 ^ 64 = unat (high a) + unat (high b) + (unat (low a) + unat (low b)) div 2 ^ 64"
    by simp
  moreover have "?m mod 2 ^ 64 = (unat (low a) + unat (low b)) mod 2 ^ 64"
    by (simp only: mod_mult_self2)
  ultimately show ?thesis
    unfolding FStar_UInt128_add_struct_def struct_val_def
    by (simp only: FStar_UInt128_uint128.simps l h) (simp add: algebra_simps)
qed

lemma struct_val_sub:
  "struct_val (FStar_UInt128_sub_struct a b) = (struct_val a + (2 ^ 128 - struct_val b)) mod 2 ^ 128"
proof -
  let ?s = "FStar_UInt128_sub_struct a b"
  have "(low a < low a - low b) = (low a < low b)"
    using unat_u64_lt [of "low a"] unat_u64_lt [of "low b"]
    by (auto simp: word_less_nat_alt unat_sub_if')
  then have "FStar_UInt128_carry (low a) (low a - low b) = FStar_UInt128_carry (low a) (low b)"
    by (intro word_unat_eqI) (simp add: carry_correct)
  then have "FStar_UInt128_add_struct ?s b = a"
    by (simp add: FStar_UInt128_add_struct_def FStar_UInt128_sub_struct_def)
  then have "struct_val a = (struct_val ?s + struct_val b) mod 2 ^ 128"
    using struct_val_add [of ?s b] by simp
  then show ?thesis
    using struct_val_lt [of a] struct_val_lt [of b] struct_val_lt [of ?s] by (auto simp: mod_if)
qed

text \<open>As natural numbers the two halves occupy disjoint bits.\<close>

lemma bit_struct_val:
  "bit (struct_val a) n = (if n < 64 then bit (low a) n else bit (high a) (n - 64))"
proof -
  have "take_bit 64 (struct_val a) = unat (low a)" "drop_bit 64 (struct_val a) = unat (high a)"
    by (simp_all only: struct_val_parts take_bit_eq_mod drop_bit_eq_div)
  then have "bit (struct_val a) n = (if n < 64 then bit (unat (low a)) n else bit (unat (high a)) (n - 64))"
    by (metis bit_take_bit_iff bit_drop_bit_eq comp_apply le_add_diff_inverse linorder_not_less)
  then show ?thesis
    by (auto simp: bit_unsigned_iff dest: bit_imp_le_length)
qed

lemma struct_val_logand:
  "struct_val (FStar_UInt128_logand_struct a b) = struct_val a AND struct_val b"
  by (rule bit_eqI) (simp add: bit_struct_val bit_and_iff FStar_UInt128_logand_struct_def)

lemma struct_val_logor:
  "struct_val (FStar_UInt128_logor_struct a b) = struct_val a OR struct_val b"
  by (rule bit_eqI) (simp add: bit_struct_val bit_or_iff FStar_UInt128_logor_struct_def)

lemma struct_val_logxor:
  "struct_val (FStar_UInt128_logxor_struct a b) = struct_val a XOR struct_val b"
  by (rule bit_eqI) (simp add: bit_struct_val bit_xor_iff FStar_UInt128_logxor_struct_def)

lemma add_push_drop:
  fixes x y :: u64
  assumes "0 < s" and "s < 64"
  shows "push_bit s x + drop_bit (64 - s) y = push_bit s x OR drop_bit (64 - s) y"
  using assms by (intro disjunctive_add_eq_or bit_word_eqI)
    (auto simp: bit_simps dest: bit_imp_le_length)

lemma struct_val_shift_left:
  assumes "s < 128"
  shows "struct_val (FStar_UInt128_shift_left_struct a s) = struct_val a * 2 ^ s mod 2 ^ 128"
proof -
  have "struct_val (FStar_UInt128_shift_left_struct a s) = take_bit 128 (push_bit s (struct_val a))"
    using assms
    by (intro bit_eqI) (auto simp: bit_struct_val FStar_UInt128_shift_left_struct_def
        FStar_UInt128_u32_64_def FStar_UInt128_shift_left_small_def
        FStar_UInt128_shift_left_large_def FStar_UInt128_add_u64_shift_left_respec_def
        FStar_UInt128_add_u64_shift_left_def add_push_drop bit_simps add.commute [of 64 s]
        dest: bit_imp_le_length)
  then show ?thesis
    by (simp only: take_bit_eq_mod push_bit_eq_mult)
qed

lemma add_drop_push:
  fixes x y :: u64
  assumes "0 < s" and "s < 64"
  shows "drop_bit s y + push_bit (64 - s) x = drop_bit s y OR push_bit (64 - s) x"
  using assms by (intro disjunctive_add_eq_or bit_word_eqI)
    (auto simp: bit_simps dest: bit_imp_le_length)

lemma struct_val_shift_right:
  assumes "s < 128"
  shows "struct_val (FStar_UInt128_shift_right_struct a s) = struct_val a div 2 ^ s"
proof -
  have "struct_val (FStar_UInt128_shift_right_struct a s) = drop_bit s (struct_val a)"
    using assms
    by (intro bit_eqI) (auto simp: bit_struct_val FStar_UInt128_shift_right_struct_def
        FStar_UInt128_u32_64_def FStar_UInt128_shift_right_small_def
        FStar_UInt128_shift_right_large_def FStar_UInt128_add_u64_shift_right_respec_def
        FStar_UInt128_add_u64_shift_right_def add_drop_push bit_simps algebra_simps
        dest: bit_imp_le_length)
  then show ?thesis
    by (simp only: drop_bit_eq_div)
qed

text \<open>Schoolbook multiplication of 32-bit halves; no intermediate sum overflows 64 bits.\<close>

lemma u64_mod_32: "unat (FStar_UInt128_u64_mod_32 x) = unat x mod 2 ^ 32"
proof -
  have "(0xffffffff :: u64) = mask 32"
    by (simp add: mask_eq_exp_minus_1)
  then show ?thesis
    by (simp only: FStar_UInt128_u64_mod_32_def FStar_UInt128_u64_l32_mask_def unat_and_mask)
qed

lemma halves_product_bound: "(a :: nat) < 2 ^ 32 \<Longrightarrow> b < 2 ^ 32 \<Longrightarrow> a * b \<le> (2 ^ 32 - 1) * (2 ^ 32 - 1)"
  by (rule mult_le_mono) simp_all

lemma mul_wide_halves:
  fixes x0 x1 y0 y1 t m :: nat
  assumes "t = x1 * y0 + (x0 * y0) div 2 ^ 32" and "m = x0 * y1 + t mod 2 ^ 32"
  shows "(x0 * y0) mod 2 ^ 32 + (m mod 2 ^ 32) * 2 ^ 32
      + 2 ^ 64 * (x1 * y1 + t div 2 ^ 32 + m div 2 ^ 32)
    = (x0 + 2 ^ 32 * x1) * (y0 + 2 ^ 32 * y1)"
proof -
  define a b c d e f where ds: "a = x0 * y0 div 2 ^ 32" "b = x0 * y0 mod 2 ^ 32"
    "c = t div 2 ^ 32" "d = t mod 2 ^ 32" "e = m div 2 ^ 32" "f = m mod 2 ^ 32"
  have 1: "x0 * y0 = 2 ^ 32 * a + b" and 2: "x1 * y0 + a = 2 ^ 32 * c + d"
    and 3: "x0 * y1 + d = 2 ^ 32 * e + f"
    using assms by (simp_all add: ds)
  have "(x0 + 2 ^ 32 * x1) * (y0 + 2 ^ 32 * y1)
      = x0 * y0 + 2 ^ 32 * (x1 * y0) + 2 ^ 32 * (x0 * y1) + 2 ^ 64 * (x1 * y1)"
    by (simp add: algebra_simps)
  with 1 2 3 show ?thesis
    unfolding ds [symmetric] by simp
qed

lemma struct_val_mul_wide:
  "struct_val (FStar_UInt128_mul_wide_struct x y) = unat x * unat y"
proof -
  define x0 x1 y0 y1 where ds: "x0 = unat x mod 2 ^ 32" "x1 = unat x div 2 ^ 32"
    "y0 = unat y mod 2 ^ 32" "y1 = unat y div 2 ^ 32"
  have lt: "x0 < 2 ^ 32" "x1 < 2 ^ 32" "y0 < 2 ^ 32" "y1 < 2 ^ 32"
    using unat_u64_lt [of x] unat_u64_lt [of y]
    by (simp_all add: ds less_mult_imp_div_less)
  define t m where tm: "t = x1 * y0 + (x0 * y0) div 2 ^ 32" "m = x0 * y1 + t mod 2 ^ 32"
  have le: "x0 * y0 \<le> 18446744065119617025" "x0 * y1 \<le> 18446744065119617025"
    "x1 * y0 \<le> 18446744065119617025" "x1 * y1 \<le> 18446744065119617025"
    using halves_product_bound [OF lt(1) lt(3)] halves_product_bound [OF lt(1) lt(4)]
      halves_product_bound [OF lt(2) lt(3)] halves_product_bound [OF lt(2) lt(4)] by simp_all
  have "t mod 2 ^ 32 < 2 ^ 32" and "x0 * y0 div 2 ^ 32 < 2 ^ 32"
    using le by (simp_all add: less_mult_imp_div_less)
  then have le': "t \<le> 18446744069414584320" "m \<le> 18446744069414584320"
    "t mod 2 ^ 32 \<le> 4294967295"
    using le by (simp_all add: tm)
  let ?xl = "FStar_UInt128_u64_mod_32 x" and ?yl = "FStar_UInt128_u64_mod_32 y"
  let ?T = "drop_bit 32 x * ?yl + drop_bit 32 (?xl * ?yl)"
  let ?M = "?xl * drop_bit 32 y + FStar_UInt128_u64_mod_32 ?T"
  have l: "unat ?xl = x0" "unat ?yl = y0" "unat (drop_bit 32 x) = x1" "unat (drop_bit 32 y) = y1"
    by (simp_all add: u64_mod_32 unat_drop_bit ds)
  have P: "unat (?xl * ?yl) = x0 * y0" "unat (drop_bit 32 x * ?yl) = x1 * y0"
    "unat (?xl * drop_bit 32 y) = x0 * y1" "unat (drop_bit 32 x * drop_bit 32 y) = x1 * y1"
    using le by (simp_all add: unat_mult_small l)
  have T: "unat ?T = t"
    using le' by (simp add: unat_add_small P unat_drop_bit tm)
  have M: "unat ?M = m"
    using le' by (simp add: unat_add_small P u64_mod_32 T tm)
  have H: "unat (drop_bit 32 x * drop_bit 32 y + drop_bit 32 ?T + drop_bit 32 ?M)
      = x1 * y1 + t div 2 ^ 32 + m div 2 ^ 32"
  proof -
    have "t div 2 ^ 32 < 2 ^ 32" and "m div 2 ^ 32 < 2 ^ 32"
      using le' by (simp_all add: less_mult_imp_div_less)
    then show ?thesis
      using le by (simp add: unat_add_small P unat_drop_bit T M)
  qed
  have L: "unat (FStar_UInt128_u64_mod_32 (?xl * ?yl) + push_bit 32 ?M)
      = (x0 * y0) mod 2 ^ 32 + (m mod 2 ^ 32) * 2 ^ 32"
  proof -
    have "unat (push_bit 32 ?M) = (m mod 2 ^ 32) * 2 ^ 32"
      using mult_mod_left [of m "2 ^ 32" "2 ^ 32"] by (simp add: unat_push_bit M)
    moreover have "(x0 * y0) mod 2 ^ 32 < 2 ^ 32" "m mod 2 ^ 32 < 2 ^ 32"
      by simp_all
    ultimately show ?thesis
      by (simp add: unat_add_small u64_mod_32 P)
  qed
  have "unat x = x0 + 2 ^ 32 * x1" "unat y = y0 + 2 ^ 32 * y1"
    by (simp_all add: ds)
  with mul_wide_halves [OF tm] show ?thesis
    by (simp only: FStar_UInt128_mul_wide_struct_def FStar_UInt128_mul_wide_impl_def
        FStar_UInt128_mul_wide_impl_t'_def FStar_UInt128_u32_combine'_def Let_def prod.case
        FStar_UInt128_u32_32_def struct_val_def FStar_UInt128_uint128.simps L H)
qed

interpretation emulated: uint128 struct_val FStar_UInt128_add_struct FStar_UInt128_sub_struct
  FStar_UInt128_logand_struct FStar_UInt128_logor_struct FStar_UInt128_shift_left_struct
  FStar_UInt128_shift_right_struct FStar_UInt128_uint64_to_uint128_struct
  FStar_UInt128_uint128_to_uint64_struct FStar_UInt128_mul_wide_struct
proof unfold_locales
  fix a b :: FStar_UInt128_uint128 and x y :: u64 and n :: nat
  show "struct_val a < 2 ^ 128"
    by (rule struct_val_lt)
  show "struct_val a = struct_val b \<Longrightarrow> a = b"
    by (rule struct_val_inject)
  show "struct_val (FStar_UInt128_uint64_to_uint128_struct x) = unat x"
    by (simp add: FStar_UInt128_uint64_to_uint128_struct_def struct_val_def)
  show "unat (FStar_UInt128_uint128_to_uint64_struct a) = struct_val a mod 2 ^ 64"
    by (simp add: FStar_UInt128_uint128_to_uint64_struct_def struct_val_parts)
qed (rule struct_val_add struct_val_sub struct_val_logand struct_val_logor struct_val_shift_left
    struct_val_shift_right struct_val_mul_wide; assumption?)+

definition struct_of_u128 :: "u128 \<Rightarrow> FStar_UInt128_uint128" where
  "struct_of_u128 w = \<lparr>low = ucast w, high = ucast (drop_bit 64 w)\<rparr>"

lemma struct_val_of_u128 [simp]: "struct_val (struct_of_u128 w) = unat w"
proof -
  have "unat w div 2 ^ 64 < 2 ^ 64"
    using unat_lt_word [of w] by (simp add: less_mult_imp_div_less)
  then show ?thesis
    by (simp add: struct_of_u128_def struct_val_def unat_ucast_down unat_drop_bit)
qed

lemma struct_of_u128_eqI: "struct_val s = unat w \<Longrightarrow> s = struct_of_u128 w"
  by (rule struct_val_inject) simp

lemma struct_copies:
  "FStar_UInt128_add_mod_struct = FStar_UInt128_add_struct"
  "FStar_UInt128_sub_mod_struct = FStar_UInt128_sub_struct"
  "FStar_UInt128_add_mod = FStar_UInt128_add" "FStar_UInt128_sub_mod = FStar_UInt128_sub"
  by (intro ext; simp add: FStar_UInt128_add_mod_struct_def FStar_UInt128_add_struct_def
      FStar_UInt128_sub_mod_struct_def FStar_UInt128_sub_mod_impl_def FStar_UInt128_sub_struct_def
      FStar_UInt128_add_mod_def FStar_UInt128_add_def FStar_UInt128_sub_mod_def FStar_UInt128_sub_def)+

lemma halves_of_concat:
  fixes m :: u64
  shows "ucast (push_bit 64 (ucast m) OR ucast m :: u128) = m"
    and "ucast (drop_bit 64 (push_bit 64 (ucast m) OR ucast m :: u128)) = m"
  by (rule bit_word_eqI; auto simp: bit_simps dest: bit_imp_le_length)+

lemma struct_not_xor:
  "FStar_UInt128_logxor_struct (struct_of_u128 a) (struct_of_u128 b) = struct_of_u128 (FStar_UInt128_logxor a b)"
  "FStar_UInt128_lognot_struct (struct_of_u128 a) = struct_of_u128 (FStar_UInt128_lognot a)"
  by (auto simp: FStar_UInt128_logxor_struct_def FStar_UInt128_logxor_def struct_of_u128_def
      FStar_UInt128_lognot_struct_def FStar_UInt128_lognot_def bit_simps intro!: bit_word_eqI)

lemma struct_masks:
  "FStar_UInt128_eq_mask_struct (struct_of_u128 a) (struct_of_u128 b) = struct_of_u128 (FStar_UInt128_eq_mask a b)"
  "FStar_UInt128_gte_mask_struct (struct_of_u128 a) (struct_of_u128 b) = struct_of_u128 (FStar_UInt128_gte_mask a b)"
  by (simp_all only: FStar_UInt128_eq_mask_struct_def FStar_UInt128_gte_mask_struct_def
      FStar_UInt128_eq_mask_def FStar_UInt128_gte_mask_def struct_of_u128_def Let_def
      halves_of_concat and.commute FStar_UInt128_uint128.simps)

text \<open>C38. The 32-bit build's 128-bit arithmetic (pairs of 64-bit words, \<^verbatim>\<open>FStar.c\<close>) computes what the
  64-bit build's compiler arithmetic computes: for pairs that stand for the 128-bit values \<open>a\<close>
  and \<open>b\<close>, every operation of the interface returns a pair that stands for the native result,
  with wrap-around, for every shift amount below 128.\<close>

theorem emulated_uint128_refines_native:
  assumes "s < 128"
  shows "FStar_UInt128_add_struct (struct_of_u128 a) (struct_of_u128 b) = struct_of_u128 (FStar_UInt128_add a b)
    \<and> FStar_UInt128_add_mod_struct (struct_of_u128 a) (struct_of_u128 b) = struct_of_u128 (FStar_UInt128_add_mod a b)
    \<and> FStar_UInt128_sub_struct (struct_of_u128 a) (struct_of_u128 b) = struct_of_u128 (FStar_UInt128_sub a b)
    \<and> FStar_UInt128_sub_mod_struct (struct_of_u128 a) (struct_of_u128 b) = struct_of_u128 (FStar_UInt128_sub_mod a b)
    \<and> FStar_UInt128_logand_struct (struct_of_u128 a) (struct_of_u128 b) = struct_of_u128 (FStar_UInt128_logand a b)
    \<and> FStar_UInt128_logor_struct (struct_of_u128 a) (struct_of_u128 b) = struct_of_u128 (FStar_UInt128_logor a b)
    \<and> FStar_UInt128_logxor_struct (struct_of_u128 a) (struct_of_u128 b) = struct_of_u128 (FStar_UInt128_logxor a b)
    \<and> FStar_UInt128_lognot_struct (struct_of_u128 a) = struct_of_u128 (FStar_UInt128_lognot a)
    \<and> FStar_UInt128_shift_left_struct (struct_of_u128 a) s = struct_of_u128 (FStar_UInt128_shift_left a s)
    \<and> FStar_UInt128_shift_right_struct (struct_of_u128 a) s = struct_of_u128 (FStar_UInt128_shift_right a s)
    \<and> FStar_UInt128_uint64_to_uint128_struct x = struct_of_u128 (FStar_UInt128_uint64_to_uint128 x)
    \<and> FStar_UInt128_uint128_to_uint64_struct (struct_of_u128 a) = FStar_UInt128_uint128_to_uint64 a
    \<and> FStar_UInt128_mul_wide_struct x y = struct_of_u128 (FStar_UInt128_mul_wide x y)
    \<and> FStar_UInt128_eq_mask_struct (struct_of_u128 a) (struct_of_u128 b) = struct_of_u128 (FStar_UInt128_eq_mask a b)
    \<and> FStar_UInt128_gte_mask_struct (struct_of_u128 a) (struct_of_u128 b) = struct_of_u128 (FStar_UInt128_gte_mask a b)"
proof -
  have "struct_val (FStar_UInt128_add_struct (struct_of_u128 a) (struct_of_u128 b)) = unat (FStar_UInt128_add a b)"
    "struct_val (FStar_UInt128_sub_struct (struct_of_u128 a) (struct_of_u128 b)) = unat (FStar_UInt128_sub a b)"
    by (simp_all add: emulated.val_add native.val_add emulated.val_sub native.val_sub)
  moreover have "FStar_UInt128_uint128_to_uint64_struct (struct_of_u128 a) = FStar_UInt128_uint128_to_uint64 a"
    by (rule word_unat_eqI) (simp add: emulated.unat_to64 native.unat_to64)
  ultimately show ?thesis
    using assms unfolding struct_copies struct_not_xor struct_masks
    by (intro conjI struct_of_u128_eqI refl)
      (simp_all add: emulated.val_conj native.val_conj emulated.val_disj native.val_disj
        emulated.val_shl native.val_shl emulated.val_shr native.val_shr emulated.val_of64
        native.val_of64 emulated.val_mulw native.val_mulw)
qed

theorem emulated_uint128_refines_native_witness:
  "FStar_UInt128_mul_wide_struct (2 ^ 63) 6 = \<lparr>low = 0, high = 3\<rparr>
   \<and> FStar_UInt128_shift_right_struct (struct_of_u128 (2 ^ 70)) 69 = struct_of_u128 2"
  using emulated_uint128_refines_native [of 69 "2 ^ 70" 0 "2 ^ 63" 6]
  by (simp add: struct_of_u128_def FStar_UInt128_mul_wide_def FStar_UInt128_shift_right_def)

end
