(* ===== verification/Poly1305_Spec.thy ===== *)
theory Poly1305_Spec
  imports Kremlib
begin

text \<open>
  What a Poly1305 authenticator promises (RFC 8439, section 2.5): the message is cut into 16-byte
  blocks, each extended by a byte 1, and evaluated as a polynomial at the clamped key \<open>r\<close> modulo
  \<open>2 ^ 130 - 5\<close>; the tag is the sum with the second key half modulo \<open>2 ^ 128\<close>.  The locale
  \<open>poly1305_impl\<close> is the contract between a limb implementation and the block loops.
\<close>

section \<open>Specification\<close>

definition P1305 :: nat where
  "P1305 = 2 ^ 130 - 5"

definition clamp1305 :: "nat \<Rightarrow> nat" where
  "clamp1305 k = k AND 0x0ffffffc0ffffffc0ffffffc0fffffff"

definition poly1305_step :: "nat \<Rightarrow> nat \<Rightarrow> bytes \<Rightarrow> nat" where
  "poly1305_step r a block = (a + le_nat (block @ [1])) * r mod P1305"

fun chunks16 :: "bytes \<Rightarrow> bytes list" where
  "chunks16 [] = []"
| "chunks16 (x # xs) = take 16 (x # xs) # chunks16 (drop 16 (x # xs))"

definition poly1305_acc :: "nat \<Rightarrow> bytes \<Rightarrow> nat" where
  "poly1305_acc r msg = foldl (poly1305_step r) 0 (chunks16 msg)"

definition poly1305_tag :: "bytes \<Rightarrow> bytes \<Rightarrow> bytes" where
  "poly1305_tag key msg =
     (let r = clamp1305 (le_nat (take 16 key));
          s = le_nat (take 16 (drop 16 key))
      in nat_to_le 16 ((poly1305_acc r msg + s) mod 2 ^ 128))"

section \<open>Blocks\<close>

fun blocks16 :: "nat \<Rightarrow> bytes \<Rightarrow> bytes list" where
  "blocks16 0 m = []"
| "blocks16 (Suc n) m = take 16 m # blocks16 n (drop 16 m)"

lemma blocks16_take: "blocks16 n (take (16 * n) m) = blocks16 n m"
  by (induction n m rule: blocks16.induct) (auto simp: min_def drop_take)

lemma length_blocks16: "16 * n \<le> length m \<Longrightarrow> b \<in> set (blocks16 n m) \<Longrightarrow> length b = 16"
  by (induction n m rule: blocks16.induct) auto

lemma chunks16_nonempty: "m \<noteq> [] \<Longrightarrow> chunks16 m = take 16 m # chunks16 (drop 16 m)"
  by (cases m) simp_all

lemma chunks16_blocks:
  assumes "length m = 16 * n + k" and "k < 16"
  shows "chunks16 m = blocks16 n m @ (if k = 0 then [] else [drop (16 * n) m])"
  using assms(1)
proof (induction n arbitrary: m)
  case 0
  with assms(2) show ?case
    by (cases "m = []") (auto simp: chunks16_nonempty)
next
  case (Suc n)
  then have "m \<noteq> []" by auto
  with Suc show ?case
    by (simp add: chunks16_nonempty add.commute)
qed

lemma P1305_pos: "0 < P1305"
  by (simp add: P1305_def)

lemma poly1305_step_lt: "poly1305_step r a b < P1305"
  by (simp add: poly1305_step_def P1305_pos)

lemma poly1305_step_mod: "poly1305_step r (a mod P1305) b = poly1305_step r a b"
  unfolding poly1305_step_def by (metis mod_add_left_eq mod_mult_left_eq)

lemma poly1305_acc_lt: "poly1305_acc r msg < P1305"
  by (cases "chunks16 msg" rule: rev_cases)
    (simp_all add: poly1305_acc_def P1305_pos poly1305_step_lt)

text \<open>The block loops of the code: one block, then the pointer moves by 16 bytes.\<close>

fun absorb_blocks :: "('s \<Rightarrow> bytes \<Rightarrow> 's) \<Rightarrow> 's \<Rightarrow> bytes \<Rightarrow> nat \<Rightarrow> 's" where
  "absorb_blocks f s m 0 = s"
| "absorb_blocks f s m (Suc n) = absorb_blocks f (f s m) (drop 16 m) n"

section \<open>The contract of a limb implementation\<close>

text \<open>
  \<open>ok\<close> is the limb invariant, \<open>acc\<close> and \<open>key\<close> the values of the two field elements of a state,
  \<open>absorb\<close> takes a pointer whose first 16 bytes are the next block, and \<open>absorb_last\<close> a shorter
  final block.
\<close>

locale poly1305_impl =
  fixes ok :: "'s \<Rightarrow> bool"
    and acc :: "'s \<Rightarrow> nat"
    and key :: "'s \<Rightarrow> nat"
    and absorb :: "'s \<Rightarrow> bytes \<Rightarrow> 's"
    and absorb_last :: "'s \<Rightarrow> bytes \<Rightarrow> 's"
  assumes absorb_ok: "ok s \<Longrightarrow> 16 \<le> length m \<Longrightarrow> ok (absorb s m)"
    and absorb_key: "ok s \<Longrightarrow> 16 \<le> length m \<Longrightarrow> key (absorb s m) = key s"
    and absorb_acc: "ok s \<Longrightarrow> 16 \<le> length m \<Longrightarrow>
      acc (absorb s m) mod P1305 = poly1305_step (key s) (acc s) (take 16 m)"
    and absorb_last_ok: "ok s \<Longrightarrow> 0 < length m \<Longrightarrow> length m < 16 \<Longrightarrow> ok (absorb_last s m)"
    and absorb_last_acc: "ok s \<Longrightarrow> 0 < length m \<Longrightarrow> length m < 16 \<Longrightarrow>
      acc (absorb_last s m) mod P1305 = poly1305_step (key s) (acc s) m"
begin

lemma absorb_blocks_correct:
  assumes "ok s" and "16 * n \<le> length m"
  shows "ok (absorb_blocks absorb s m n) \<and> key (absorb_blocks absorb s m n) = key s
    \<and> acc (absorb_blocks absorb s m n) mod P1305 = foldl (poly1305_step (key s)) (acc s mod P1305) (blocks16 n m)"
  using assms
proof (induction n arbitrary: s m)
  case 0
  then show ?case by simp
next
  case (Suc n)
  then show ?case
    by (simp add: absorb_ok absorb_key absorb_acc poly1305_step_mod)
qed

text \<open>A whole message from a zero accumulator: full blocks, then the rest if there is one.\<close>

lemma absorb_message_correct:
  assumes "ok s" and "acc s = 0" and "length m = 16 * n + k" and "k < 16"
    and "s' = absorb_blocks absorb s m n"
    and "s'' = (if k = 0 then s' else absorb_last s' (drop (16 * n) m))"
  shows "ok s'' \<and> acc s'' mod P1305 = poly1305_acc (key s) m"
proof -
  have b: "ok s' \<and> key s' = key s \<and> acc s' mod P1305 = foldl (poly1305_step (key s)) 0 (blocks16 n m)"
    using absorb_blocks_correct [of s n m] assms by simp
  show ?thesis
  proof (cases "k = 0")
    case True
    with b assms chunks16_blocks [OF assms(3,4)] show ?thesis
      by (simp add: poly1305_acc_def)
  next
    case False
    have d: "0 < length (drop (16 * n) m)" "length (drop (16 * n) m) < 16"
      using assms(3,4) False by simp_all
    have s: "s'' = absorb_last s' (drop (16 * n) m)"
      using assms(6) False by simp
    have "acc s'' mod P1305 = poly1305_step (key s) (acc s') (drop (16 * n) m)"
      using b d by (simp only: s absorb_last_acc)
    also have "\<dots> = poly1305_step (key s) (acc s' mod P1305) (drop (16 * n) m)"
      by (rule poly1305_step_mod [symmetric])
    also have "\<dots> = poly1305_acc (key s) m"
      using False b by (simp only: poly1305_acc_def chunks16_blocks [OF assms(3,4)]) simp
    finally show ?thesis
      using b d by (simp only: s absorb_last_ok simp_thms)
  qed
qed

end

end
