(* ===== verification/Hacl_Poly1305_64.thy ===== *)
theory Hacl_Poly1305_64
  imports FStar Poly1305_Spec
begin

text \<open>
  The Poly1305 one-time authenticator over three 44-bit limbs (\<^verbatim>\<open>Hacl_Poly1305_64.c\<close>).  Field
  elements modulo \<open>2 ^ 130 - 5\<close> are buffers of three 64-bit words, products buffers of three
  128-bit words; a routine that writes a buffer returns its new contents.  The state is the pair
  of buffers \<open>r\<close> (the clamped key) and \<open>h\<close> (the accumulator).
\<close>

section \<open>Limb arithmetic\<close>

definition Hacl_Bignum_Modulo_reduce :: "u64 list \<Rightarrow> u64 list" where
  "Hacl_Bignum_Modulo_reduce b = (let b0 = b ! 0 in b[0 := push_bit 4 b0 + push_bit 2 b0])"

definition Hacl_Bignum_Modulo_carry_top :: "u64 list \<Rightarrow> u64 list" where
  "Hacl_Bignum_Modulo_carry_top b =
     (let b2 = b ! 2; b0 = b ! 0; b2_42 = drop_bit 42 b2;
          b = b[2 := b2 AND 0x3ffffffffff]
      in b[0 := push_bit 2 b2_42 + b2_42 + b0])"

definition Hacl_Bignum_Modulo_carry_top_wide :: "u128 list \<Rightarrow> u128 list" where
  "Hacl_Bignum_Modulo_carry_top_wide b =
     (let b2 = b ! 2; b0 = b ! 0;
          b2' = FStar_UInt128_logand b2 (FStar_UInt128_uint64_to_uint128 0x3ffffffffff);
          b2_42 = FStar_UInt128_uint128_to_uint64 (FStar_UInt128_shift_right b2 42);
          b0' = FStar_UInt128_add b0 (FStar_UInt128_uint64_to_uint128 (push_bit 2 b2_42 + b2_42));
          b = b[2 := b2']
      in b[0 := b0'])"

definition Hacl_Bignum_Fproduct_copy_from_wide' :: "u64 list \<Rightarrow> u128 list \<Rightarrow> u64 list" where
  "Hacl_Bignum_Fproduct_copy_from_wide' output input =
     for_range 0 3 (\<lambda>i output.
       let xi = input ! i in output[i := FStar_UInt128_uint128_to_uint64 xi]) output"

definition Hacl_Bignum_Fproduct_sum_scalar_multiplication' ::
  "u128 list \<Rightarrow> u64 list \<Rightarrow> u64 \<Rightarrow> u128 list" where
  "Hacl_Bignum_Fproduct_sum_scalar_multiplication' output input s =
     for_range 0 3 (\<lambda>i output.
       let xi = output ! i; yi = input ! i
       in output[i := FStar_UInt128_add_mod xi (FStar_UInt128_mul_wide yi s)]) output"

definition Hacl_Bignum_Fproduct_carry_wide' :: "u128 list \<Rightarrow> u128 list" where
  "Hacl_Bignum_Fproduct_carry_wide' tmp =
     for_range 0 2 (\<lambda>i tmp.
       let ctr = i; tctr = tmp ! ctr; tctrp1 = tmp ! (ctr + 1);
           r0 = FStar_UInt128_uint128_to_uint64 tctr AND 0xfffffffffff;
           c = FStar_UInt128_shift_right tctr 44;
           tmp = tmp[ctr := FStar_UInt128_uint64_to_uint128 r0]
       in tmp[ctr + 1 := FStar_UInt128_add tctrp1 c]) tmp"

definition Hacl_Bignum_Fproduct_carry_limb' :: "u64 list \<Rightarrow> u64 list" where
  "Hacl_Bignum_Fproduct_carry_limb' tmp =
     for_range 0 2 (\<lambda>i tmp.
       let ctr = i; tctr = tmp ! ctr; tctrp1 = tmp ! (ctr + 1);
           r0 = tctr AND 0xfffffffffff;
           c = drop_bit 44 tctr;
           tmp = tmp[ctr := r0]
       in tmp[ctr + 1 := tctrp1 + c]) tmp"

definition Hacl_Bignum_Fmul_shift_reduce :: "u64 list \<Rightarrow> u64 list" where
  "Hacl_Bignum_Fmul_shift_reduce output =
     (let tmp = output ! 2;
          output = for_range 0 2 (\<lambda>i output.
            let ctr = 3 - i - 1; z = output ! (ctr - 1) in output[ctr := z]) output;
          output = output[0 := tmp]
      in Hacl_Bignum_Modulo_reduce output)"

definition Hacl_Bignum_Fmul_mul_shift_reduce' ::
  "u128 list \<Rightarrow> u64 list \<Rightarrow> u64 list \<Rightarrow> u128 list \<times> u64 list" where
  "Hacl_Bignum_Fmul_mul_shift_reduce' output input input2 =
     (let (output, input) = for_range 0 2 (\<lambda>i (output, input).
            let input2i = input2 ! i;
                output = Hacl_Bignum_Fproduct_sum_scalar_multiplication' output input input2i
            in (output, Hacl_Bignum_Fmul_shift_reduce input)) (output, input);
          i = 2;
          input2i = input2 ! i
      in (Hacl_Bignum_Fproduct_sum_scalar_multiplication' output input input2i, input))"

definition Hacl_Bignum_Fmul_fmul :: "u64 list \<Rightarrow> u64 list \<Rightarrow> u64 list \<Rightarrow> u64 list" where
  "Hacl_Bignum_Fmul_fmul output input input2 =
     (let tmp = blit (replicate 3 0) 0 (take 3 input);
          t = replicate 3 (FStar_UInt128_uint64_to_uint128 0);
          (t, tmp) = Hacl_Bignum_Fmul_mul_shift_reduce' t tmp input2;
          t = Hacl_Bignum_Fproduct_carry_wide' t;
          t = Hacl_Bignum_Modulo_carry_top_wide t;
          output = Hacl_Bignum_Fproduct_copy_from_wide' output t;
          i0 = output ! 0;
          i1 = output ! 1;
          i0' = i0 AND 0xfffffffffff;
          i1' = i1 + drop_bit 44 i0;
          output = output[0 := i0']
      in output[1 := i1'])"

definition Hacl_Bignum_AddAndMultiply_add_and_multiply ::
  "u64 list \<Rightarrow> u64 list \<Rightarrow> u64 list \<Rightarrow> u64 list" where
  "Hacl_Bignum_AddAndMultiply_add_and_multiply acc block r =
     (let acc = for_range 0 3 (\<lambda>i acc.
            let xi = acc ! i; yi = block ! i in acc[i := xi + yi]) acc
      in Hacl_Bignum_Fmul_fmul acc acc r)"

section \<open>The authenticator\<close>

record Hacl_Impl_Poly1305_64_State_poly1305_state =
  state_r :: "u64 list"
  state_h :: "u64 list"

type_synonym poly1305_state = Hacl_Impl_Poly1305_64_State_poly1305_state

definition Hacl_Impl_Poly1305_64_poly1305_update :: "poly1305_state \<Rightarrow> bytes \<Rightarrow> poly1305_state" where
  "Hacl_Impl_Poly1305_64_poly1305_update st m =
     (let acc = state_h st;
          r3 = state_r st;
          tmp = replicate 3 0;
          m0 = load128_le m;
          r0 = FStar_UInt128_uint128_to_uint64 m0 AND 0xfffffffffff;
          r1 = FStar_UInt128_uint128_to_uint64 (FStar_UInt128_shift_right m0 44) AND 0xfffffffffff;
          r2 = FStar_UInt128_uint128_to_uint64 (FStar_UInt128_shift_right m0 88);
          tmp = tmp[0 := r0];
          tmp = tmp[1 := r1];
          tmp = tmp[2 := r2];
          b2 = tmp ! 2;
          b2' = 0x10000000000 OR b2;
          tmp = tmp[2 := b2']
      in st\<lparr>state_h := Hacl_Bignum_AddAndMultiply_add_and_multiply acc tmp r3\<rparr>)"

definition Hacl_Impl_Poly1305_64_poly1305_process_last_block' ::
  "bytes \<Rightarrow> poly1305_state \<Rightarrow> bytes \<Rightarrow> u64 \<Rightarrow> poly1305_state" where
  "Hacl_Impl_Poly1305_64_poly1305_process_last_block' block st m rem' =
     (let tmp = replicate 3 0;
          m0 = load128_le block;
          r0 = FStar_UInt128_uint128_to_uint64 m0 AND 0xfffffffffff;
          r1 = FStar_UInt128_uint128_to_uint64 (FStar_UInt128_shift_right m0 44) AND 0xfffffffffff;
          r2 = FStar_UInt128_uint128_to_uint64 (FStar_UInt128_shift_right m0 88);
          tmp = tmp[0 := r0];
          tmp = tmp[1 := r1];
          tmp = tmp[2 := r2];
          h = state_h st;
          r = state_r st
      in st\<lparr>state_h := Hacl_Bignum_AddAndMultiply_add_and_multiply h tmp r\<rparr>)"

definition Hacl_Impl_Poly1305_64_poly1305_process_last_block ::
  "poly1305_state \<Rightarrow> bytes \<Rightarrow> u64 \<Rightarrow> poly1305_state" where
  "Hacl_Impl_Poly1305_64_poly1305_process_last_block st m rem' =
     (let zero1 = 0;
          block = replicate 16 zero1;
          i0 = (ucast rem' :: u32);
          i = (ucast rem' :: u32);
          block = blit block 0 (take (unat i) m);
          block = block[unat i0 := 1]
      in Hacl_Impl_Poly1305_64_poly1305_process_last_block' block st m rem')"

definition Hacl_Impl_Poly1305_64_poly1305_last_pass :: "u64 list \<Rightarrow> u64 list" where
  "Hacl_Impl_Poly1305_64_poly1305_last_pass acc =
     (let acc = Hacl_Bignum_Fproduct_carry_limb' acc;
          acc = Hacl_Bignum_Modulo_carry_top acc;
          a0 = acc ! 0;
          a10 = acc ! 1;
          a20 = acc ! 2;
          a0' = a0 AND 0xfffffffffff;
          r0 = drop_bit 44 a0;
          a1' = (a10 + r0) AND 0xfffffffffff;
          r1 = drop_bit 44 (a10 + r0);
          a2' = a20 + r1;
          acc = acc[0 := a0'];
          acc = acc[1 := a1'];
          acc = acc[2 := a2'];
          acc = Hacl_Bignum_Modulo_carry_top acc;
          i0 = acc ! 0;
          i1 = acc ! 1;
          i0' = i0 AND 0xfffffffffff;
          i1' = i1 + drop_bit 44 i0;
          acc = acc[0 := i0'];
          acc = acc[1 := i1'];
          a00 = acc ! 0;
          a1 = acc ! 1;
          a2 = acc ! 2;
          mask0 = FStar_UInt64_gte_mask a00 0xffffffffffb;
          mask1 = FStar_UInt64_eq_mask a1 0xfffffffffff;
          mask2 = FStar_UInt64_eq_mask a2 0x3ffffffffff;
          mask = (mask0 AND mask1) AND mask2;
          a0_0 = a00 - (0xffffffffffb AND mask);
          a1_0 = a1 - (0xfffffffffff AND mask);
          a2_0 = a2 - (0x3ffffffffff AND mask);
          acc = acc[0 := a0_0];
          acc = acc[1 := a1_0]
      in acc[2 := a2_0])"

definition Hacl_Impl_Poly1305_64_mk_state :: "u64 list \<Rightarrow> u64 list \<Rightarrow> poly1305_state" where
  "Hacl_Impl_Poly1305_64_mk_state r h = \<lparr>state_r = r, state_h = h\<rparr>"

function Hacl_Standalone_Poly1305_64_poly1305_blocks ::
  "poly1305_state \<Rightarrow> bytes \<Rightarrow> u64 \<Rightarrow> poly1305_state" where
  "Hacl_Standalone_Poly1305_64_poly1305_blocks st m len1 =
     (if len1 \<noteq> 0 then
        let block = m;
            tail1 = drop 16 m;
            st = Hacl_Impl_Poly1305_64_poly1305_update st block;
            len2 = len1 - 1
        in Hacl_Standalone_Poly1305_64_poly1305_blocks st tail1 len2
      else st)"
  by pat_completeness auto
termination
  by (relation "measure (\<lambda>(st, m, len1). unat len1)") (auto simp: unat_minus_one unat_gt_0)

declare Hacl_Standalone_Poly1305_64_poly1305_blocks.simps [simp del]

definition Hacl_Standalone_Poly1305_64_poly1305_partial ::
  "poly1305_state \<Rightarrow> bytes \<Rightarrow> u64 \<Rightarrow> bytes \<Rightarrow> poly1305_state" where
  "Hacl_Standalone_Poly1305_64_poly1305_partial st input len1 kr =
     (let x0 = state_r st;
          k1 = load128_le kr;
          k_clamped = FStar_UInt128_logand k1
            (FStar_UInt128_logor
              (FStar_UInt128_shift_left (FStar_UInt128_uint64_to_uint128 0x0ffffffc0ffffffc) 64)
              (FStar_UInt128_uint64_to_uint128 0x0ffffffc0fffffff));
          r0 = FStar_UInt128_uint128_to_uint64 k_clamped AND 0xfffffffffff;
          r1 = FStar_UInt128_uint128_to_uint64 (FStar_UInt128_shift_right k_clamped 44) AND 0xfffffffffff;
          r2 = FStar_UInt128_uint128_to_uint64 (FStar_UInt128_shift_right k_clamped 88);
          x0 = x0[0 := r0];
          x0 = x0[1 := r1];
          x0 = x0[2 := r2];
          st = st\<lparr>state_r := x0\<rparr>;
          x00 = state_h st;
          x00 = x00[0 := 0];
          x00 = x00[1 := 0];
          x00 = x00[2 := 0];
          st = st\<lparr>state_h := x00\<rparr>
      in Hacl_Standalone_Poly1305_64_poly1305_blocks st input len1)"

definition Hacl_Standalone_Poly1305_64_poly1305_complete ::
  "poly1305_state \<Rightarrow> bytes \<Rightarrow> u64 \<Rightarrow> bytes \<Rightarrow> poly1305_state" where
  "Hacl_Standalone_Poly1305_64_poly1305_complete st m len1 k1 =
     (let kr = k1;
          len16 = drop_bit 4 len1;
          rem16 = len1 AND 0xf;
          part_input = m;
          last_block = drop (unat (ucast (16 * len16) :: u32)) m;
          st = Hacl_Standalone_Poly1305_64_poly1305_partial st part_input len16 kr;
          st = (if rem16 \<noteq> 0
                then Hacl_Impl_Poly1305_64_poly1305_process_last_block st last_block rem16 else st);
          acc = state_h st
      in st\<lparr>state_h := Hacl_Impl_Poly1305_64_poly1305_last_pass acc\<rparr>)"

definition Hacl_Standalone_Poly1305_64_crypto_onetimeauth' ::
  "bytes \<Rightarrow> bytes \<Rightarrow> u64 \<Rightarrow> bytes \<Rightarrow> bytes" where
  "Hacl_Standalone_Poly1305_64_crypto_onetimeauth' output input len1 k1 =
     (let buf = replicate 6 0;
          r = take 3 buf;
          h = drop 3 buf;
          st = Hacl_Impl_Poly1305_64_mk_state r h;
          key_s = drop 16 k1;
          st = Hacl_Standalone_Poly1305_64_poly1305_complete st input len1 k1;
          acc = state_h st;
          k' = load128_le key_s;
          h0 = acc ! 0;
          h1 = acc ! 1;
          h2 = acc ! 2;
          acc' = FStar_UInt128_logor
            (FStar_UInt128_shift_left
              (FStar_UInt128_uint64_to_uint128 (push_bit 24 h2 OR drop_bit 20 h1)) 64)
            (FStar_UInt128_uint64_to_uint128 (push_bit 44 h1 OR h0));
          mac' = FStar_UInt128_add_mod acc' k'
      in store128_le output mac')"

definition Hacl_Standalone_Poly1305_64_crypto_onetimeauth ::
  "bytes \<Rightarrow> bytes \<Rightarrow> u64 \<Rightarrow> bytes \<Rightarrow> bytes" where
  "Hacl_Standalone_Poly1305_64_crypto_onetimeauth output input len1 k1 =
     Hacl_Standalone_Poly1305_64_crypto_onetimeauth' output input len1 k1"

section \<open>The public interface\<close>

definition Hacl_Poly1305_64_mk_state :: "u64 list \<Rightarrow> u64 list \<Rightarrow> poly1305_state" where
  "Hacl_Poly1305_64_mk_state r acc = Hacl_Impl_Poly1305_64_mk_state r acc"

definition Hacl_Poly1305_64_init :: "poly1305_state \<Rightarrow> bytes \<Rightarrow> poly1305_state" where
  "Hacl_Poly1305_64_init st k1 =
     (let x0 = state_r st;
          k10 = load128_le k1;
          k_clamped = FStar_UInt128_logand k10
            (FStar_UInt128_logor
              (FStar_UInt128_shift_left (FStar_UInt128_uint64_to_uint128 0x0ffffffc0ffffffc) 64)
              (FStar_UInt128_uint64_to_uint128 0x0ffffffc0fffffff));
          r0 = FStar_UInt128_uint128_to_uint64 k_clamped AND 0xfffffffffff;
          r1 = FStar_UInt128_uint128_to_uint64 (FStar_UInt128_shift_right k_clamped 44) AND 0xfffffffffff;
          r2 = FStar_UInt128_uint128_to_uint64 (FStar_UInt128_shift_right k_clamped 88);
          x0 = x0[0 := r0];
          x0 = x0[1 := r1];
          x0 = x0[2 := r2];
          st = st\<lparr>state_r := x0\<rparr>;
          x00 = state_h st;
          x00 = x00[0 := 0];
          x00 = x00[1 := 0];
          x00 = x00[2 := 0]
      in st\<lparr>state_h := x00\<rparr>)"

definition Hacl_Poly1305_64_update_block :: "poly1305_state \<Rightarrow> bytes \<Rightarrow> poly1305_state" where
  "Hacl_Poly1305_64_update_block st m = Hacl_Impl_Poly1305_64_poly1305_update st m"

function Hacl_Poly1305_64_update :: "poly1305_state \<Rightarrow> bytes \<Rightarrow> u32 \<Rightarrow> poly1305_state" where
  "Hacl_Poly1305_64_update st m num_blocks =
     (if num_blocks \<noteq> 0 then
        let block = m;
            m' = drop 16 m;
            n1 = num_blocks - 1;
            st = Hacl_Poly1305_64_update_block st block
        in Hacl_Poly1305_64_update st m' n1
      else st)"
  by pat_completeness auto
termination
  by (relation "measure (\<lambda>(st, m, n). unat n)") (auto simp: unat_minus_one unat_gt_0)

declare Hacl_Poly1305_64_update.simps [simp del]

definition Hacl_Poly1305_64_update_last :: "poly1305_state \<Rightarrow> bytes \<Rightarrow> u32 \<Rightarrow> poly1305_state" where
  "Hacl_Poly1305_64_update_last st m len1 =
     (let st = (if (ucast len1 :: u64) \<noteq> 0
                then Hacl_Impl_Poly1305_64_poly1305_process_last_block st m (ucast len1) else st);
          acc = state_h st
      in st\<lparr>state_h := Hacl_Impl_Poly1305_64_poly1305_last_pass acc\<rparr>)"

definition Hacl_Poly1305_64_finish :: "poly1305_state \<Rightarrow> bytes \<Rightarrow> bytes \<Rightarrow> bytes" where
  "Hacl_Poly1305_64_finish st mac k1 =
     (let acc = state_h st;
          k' = load128_le k1;
          h0 = acc ! 0;
          h1 = acc ! 1;
          h2 = acc ! 2;
          acc' = FStar_UInt128_logor
            (FStar_UInt128_shift_left
              (FStar_UInt128_uint64_to_uint128 (push_bit 24 h2 OR drop_bit 20 h1)) 64)
            (FStar_UInt128_uint64_to_uint128 (push_bit 44 h1 OR h0));
          mac' = FStar_UInt128_add_mod acc' k'
      in store128_le mac mac')"

definition Hacl_Poly1305_64_crypto_onetimeauth :: "bytes \<Rightarrow> bytes \<Rightarrow> u64 \<Rightarrow> bytes \<Rightarrow> bytes" where
  "Hacl_Poly1305_64_crypto_onetimeauth output input len1 k1 =
     Hacl_Standalone_Poly1305_64_crypto_onetimeauth output input len1 k1"

section \<open>Values of limb buffers\<close>

definition val44 :: "u64 list \<Rightarrow> nat" where
  "val44 a = unat (a ! 0) + 2 ^ 44 * unat (a ! 1) + 2 ^ 88 * unat (a ! 2)"

text \<open>The accumulator after a multiplication, and what a multiplication accepts.\<close>

definition limbs_ok :: "u64 list \<Rightarrow> bool" where
  "limbs_ok a = (length a = 3 \<and> unat (a ! 0) < 2 ^ 44 \<and> unat (a ! 1) < 2 ^ 44 + 2 ^ 16
     \<and> unat (a ! 2) < 2 ^ 42)"

definition limbs44 :: "u64 list \<Rightarrow> bool" where
  "limbs44 a = (length a = 3 \<and> unat (a ! 0) < 2 ^ 44 \<and> unat (a ! 1) < 2 ^ 44 \<and> unat (a ! 2) < 2 ^ 44)"

lemma mask_constants:
  "(0xfffffffffff :: u64) = mask 44" "(0x3ffffffffff :: u64) = mask 42"
  by (simp_all add: mask_eq_exp_minus_1)

section \<open>Multiplication\<close>

lemma shift_reduce_eq:
  "Hacl_Bignum_Fmul_shift_reduce [x0, x1, x2] = [push_bit 4 x2 + push_bit 2 x2, x0, x1]"
  by (simp add: Hacl_Bignum_Fmul_shift_reduce_def Hacl_Bignum_Modulo_reduce_def for_range_2 Let_def
     )

lemma unat_times20:
  fixes x :: u64
  assumes "unat x < 2 ^ 46"
  shows "unat (push_bit 4 x + push_bit 2 x) = 20 * unat x"
  using assms by (simp add: unat_add_small unat_push_bit_small)

lemma sum_scalar_eq:
  "Hacl_Bignum_Fproduct_sum_scalar_multiplication' [t0, t1, t2] [x0, x1, x2] s =
     [FStar_UInt128_add t0 (FStar_UInt128_mul_wide x0 s), FStar_UInt128_add t1 (FStar_UInt128_mul_wide x1 s),
      FStar_UInt128_add t2 (FStar_UInt128_mul_wide x2 s)]"
  by (simp add: Hacl_Bignum_Fproduct_sum_scalar_multiplication'_def for_range_3 Let_def struct_copies
     )

lemma mul_bound: "(a :: nat) < 2 ^ m \<Longrightarrow> b < 2 ^ n \<Longrightarrow> a * b < 2 ^ (m + n)"
  by (simp add: power_add mult_strict_mono)

lemma mul_shift_reduce_correct:
  assumes "unat x0 < 2 ^ 46" "unat x1 < 2 ^ 46" "unat x2 < 2 ^ 44"
    and "unat y0 < 2 ^ 44" "unat y1 < 2 ^ 44" "unat y2 < 2 ^ 44"
  obtains t0 t1 t2 where
    "fst (Hacl_Bignum_Fmul_mul_shift_reduce' [0, 0, 0] [x0, x1, x2] [y0, y1, y2]) = [t0, t1, t2]"
    "unat t0 = unat x0 * unat y0 + 20 * unat x2 * unat y1 + 20 * unat x1 * unat y2"
    "unat t1 = unat x1 * unat y0 + unat x0 * unat y1 + 20 * unat x2 * unat y2"
    "unat t2 = unat x2 * unat y0 + unat x1 * unat y1 + unat x0 * unat y2"
    "unat t0 < 2 ^ 98" "unat t1 < 2 ^ 98" "unat t2 < 2 ^ 98"
proof -
  let ?x20 = "push_bit 4 x2 + push_bit 2 x2" and ?x10 = "push_bit 4 x1 + push_bit 2 x1"
  have x: "unat ?x20 = 20 * unat x2" "unat ?x10 = 20 * unat x1"
    using assms by (auto intro!: unat_times20)
  have p: "unat x0 * unat y0 < 2 ^ (46 + 44)" "unat x0 * unat y1 < 2 ^ (46 + 44)" "unat x0 * unat y2 < 2 ^ (46 + 44)"
    "unat x1 * unat y0 < 2 ^ (46 + 44)" "unat x1 * unat y1 < 2 ^ (46 + 44)" "unat x1 * unat y2 < 2 ^ (46 + 44)"
    "unat x2 * unat y0 < 2 ^ (44 + 44)" "unat x2 * unat y1 < 2 ^ (44 + 44)" "unat x2 * unat y2 < 2 ^ (44 + 44)"
    by (rule mul_bound; rule assms)+
  define t0 where "t0 = FStar_UInt128_add (FStar_UInt128_add (FStar_UInt128_add 0 (FStar_UInt128_mul_wide x0 y0))
      (FStar_UInt128_mul_wide ?x20 y1)) (FStar_UInt128_mul_wide ?x10 y2)"
  define t1 where "t1 = FStar_UInt128_add (FStar_UInt128_add (FStar_UInt128_add 0 (FStar_UInt128_mul_wide x1 y0))
      (FStar_UInt128_mul_wide x0 y1)) (FStar_UInt128_mul_wide ?x20 y2)"
  define t2 where "t2 = FStar_UInt128_add (FStar_UInt128_add (FStar_UInt128_add 0 (FStar_UInt128_mul_wide x2 y0))
      (FStar_UInt128_mul_wide x1 y1)) (FStar_UInt128_mul_wide x0 y2)"
  have "fst (Hacl_Bignum_Fmul_mul_shift_reduce' [0, 0, 0] [x0, x1, x2] [y0, y1, y2]) = [t0, t1, t2]"
    by (simp add: Hacl_Bignum_Fmul_mul_shift_reduce'_def for_range_2 Let_def sum_scalar_eq shift_reduce_eq
        t0_def t1_def t2_def)
  moreover have "unat t0 = unat x0 * unat y0 + 20 * unat x2 * unat y1 + 20 * unat x1 * unat y2"
    using p by (simp add: t0_def native.val_accumulate x)
  moreover have "unat t1 = unat x1 * unat y0 + unat x0 * unat y1 + 20 * unat x2 * unat y2"
    using p by (simp add: t1_def native.val_accumulate x)
  moreover have "unat t2 = unat x2 * unat y0 + unat x1 * unat y1 + unat x0 * unat y2"
    using p by (simp add: t2_def native.val_accumulate x)
  ultimately show thesis
    using p by (intro that [of t0 t1 t2]; simp add: mult.assoc)
qed

lemma carry_chain:
  fixes a b c k s :: nat
  assumes "s = b + a div k"
  shows "a mod k + k * (s mod k) + k * k * (c + s div k) = a + k * b + k * k * c"
proof -
  have "k * (s mod k) + k * k * (s div k) = k * (b + a div k)"
    unfolding assms [symmetric] mult.assoc distrib_left [symmetric] by simp
  moreover have "a mod k + k * (a div k) = a"
    by simp
  ultimately show ?thesis
    by (simp only: distrib_left)
qed

lemma carry_wide_correct:
  assumes "unat t0 < 2 ^ 98" "unat t1 < 2 ^ 98" "unat t2 < 2 ^ 98"
  obtains c0 c1 c2 where "Hacl_Bignum_Fproduct_carry_wide' [t0, t1, t2] = [c0, c1, c2]"
    "unat c0 < 2 ^ 44" "unat c1 < 2 ^ 44" "unat c2 < 2 ^ 99"
    "unat c0 + 2 ^ 44 * unat c1 + 2 ^ 88 * unat c2 = unat t0 + 2 ^ 44 * unat t1 + 2 ^ 88 * unat t2"
proof -
  define s1 where "s1 = FStar_UInt128_add t1 (FStar_UInt128_shift_right t0 44)"
  define c0 where "c0 = FStar_UInt128_uint64_to_uint128 (FStar_UInt128_uint128_to_uint64 t0 AND mask 44)"
  define c1 where "c1 = FStar_UInt128_uint64_to_uint128 (FStar_UInt128_uint128_to_uint64 s1 AND mask 44)"
  define c2 where "c2 = FStar_UInt128_add t2 (FStar_UInt128_shift_right s1 44)"
  have "Hacl_Bignum_Fproduct_carry_wide' [t0, t1, t2] = [c0, c1, c2]"
    by (simp add: Hacl_Bignum_Fproduct_carry_wide'_def for_range_2 Let_def mask_constants
        c0_def c1_def c2_def s1_def)
  moreover have s1: "unat s1 = unat t1 + unat t0 div 2 ^ 44"
    using assms by (simp add: s1_def native.val_carry)
  moreover have c2: "unat c2 = unat t2 + unat s1 div 2 ^ 44"
    using assms by (simp add: c2_def native.val_carry s1)
  moreover have "unat c0 = unat t0 mod 2 ^ 44" and "unat c1 = unat s1 mod 2 ^ 44"
    by (simp_all add: c0_def c1_def native.val_low_bits)
  moreover have "unat c2 < 2 ^ 99"
    using assms by (simp add: c2 s1)
  ultimately show thesis
    using carry_chain [OF s1, of "unat t2"] by (intro that [of c0 c1 c2]; simp)
qed

lemma carry_top_wide_correct:
  assumes "unat t0 < 2 ^ 44" "unat t2 < 2 ^ 99"
  obtains c0 c2 q where "Hacl_Bignum_Modulo_carry_top_wide [t0, t1, t2] = [c0, t1, c2]"
    "unat c2 < 2 ^ 42" "unat c0 = unat t0 + 5 * q" "unat t2 = unat c2 + 2 ^ 42 * q" "q < 2 ^ 57"
proof -
  let ?q = "FStar_UInt128_uint128_to_uint64 (FStar_UInt128_shift_right t2 42)"
  define c2 where "c2 = FStar_UInt128_logand t2 (FStar_UInt128_uint64_to_uint128 (mask 42))"
  define c0 where "c0 = FStar_UInt128_add t0 (FStar_UInt128_uint64_to_uint128 (push_bit 2 ?q + ?q))"
  have q: "unat ?q = unat t2 div 2 ^ 42"
    using assms by (simp add: native.unat_to64_shr)
  have lt: "unat t2 div 2 ^ 42 < 2 ^ 57"
    using assms by (intro less_mult_imp_div_less) simp
  then have "unat (push_bit 2 ?q + ?q) = 5 * (unat t2 div 2 ^ 42)"
    by (simp add: unat_add_small unat_push_bit_small q)
  then have "unat c0 = unat t0 + 5 * (unat t2 div 2 ^ 42)"
    using lt assms by (simp add: c0_def native.val_add_small native.val_of64)
  moreover have "unat c2 = unat t2 mod 2 ^ 42"
    by (simp add: c2_def native.val_conj_mask)
  moreover have "Hacl_Bignum_Modulo_carry_top_wide [t0, t1, t2] = [c0, t1, c2]"
    by (simp add: Hacl_Bignum_Modulo_carry_top_wide_def Let_def mask_constants c0_def c2_def)
  ultimately show thesis
    using lt by (intro that [of c0 c2 "unat t2 div 2 ^ 42"]) simp_all
qed

lemma copy_from_wide_eq:
  "length output = 3 \<Longrightarrow> Hacl_Bignum_Fproduct_copy_from_wide' output [t0, t1, t2] =
     [FStar_UInt128_uint128_to_uint64 t0, FStar_UInt128_uint128_to_uint64 t1, FStar_UInt128_uint128_to_uint64 t2]"
  by (erule length_3_cases) (simp add: Hacl_Bignum_Fproduct_copy_from_wide'_def for_range_3 Let_def)

text \<open>The arithmetic of the reduction: \<open>2 ^ 130 = P1305 + 5\<close>.\<close>

lemma product_mod_P1305:
  fixes x0 x1 x2 y0 y1 y2 :: nat
  assumes "z0 + 2 ^ 44 * z1 + 2 ^ 88 * z2 + P1305 * q =
    (x0 * y0 + 20 * x2 * y1 + 20 * x1 * y2) + 2 ^ 44 * (x1 * y0 + x0 * y1 + 20 * x2 * y2)
    + 2 ^ 88 * (x2 * y0 + x1 * y1 + x0 * y2)"
  shows "(z0 + 2 ^ 44 * z1 + 2 ^ 88 * z2) mod P1305
    = (x0 + 2 ^ 44 * x1 + 2 ^ 88 * x2) * (y0 + 2 ^ 44 * y1 + 2 ^ 88 * y2) mod P1305"
proof -
  have "(x0 + 2 ^ 44 * x1 + 2 ^ 88 * x2) * (y0 + 2 ^ 44 * y1 + 2 ^ 88 * y2)
      = z0 + 2 ^ 44 * z1 + 2 ^ 88 * z2 + P1305 * (q + 4 * (x1 * y2 + x2 * y1 + 2 ^ 44 * (x2 * y2)))"
    unfolding distrib_left [of P1305] add.assoc [symmetric] assms
    by (simp add: P1305_def algebra_simps)
  then show ?thesis
    by (simp only: mod_mult_self2)
qed

lemma fmul_correct:
  assumes "unat x0 < 2 ^ 46" "unat x1 < 2 ^ 46" "unat x2 < 2 ^ 44"
    and "limbs44 y" and "length output = 3"
  shows "limbs_ok (Hacl_Bignum_Fmul_fmul output [x0, x1, x2] y)
    \<and> val44 (Hacl_Bignum_Fmul_fmul output [x0, x1, x2] y) mod P1305 = val44 [x0, x1, x2] * val44 y mod P1305"
proof -
  obtain y0 y1 y2 where y: "y = [y0, y1, y2]"
    using assms(4) by (auto simp: limbs44_def elim: length_3_cases)
  have yl: "unat y0 < 2 ^ 44" "unat y1 < 2 ^ 44" "unat y2 < 2 ^ 44"
    using assms(4) by (simp_all add: limbs44_def y)
  obtain t0 t1 t2 where t:
    "fst (Hacl_Bignum_Fmul_mul_shift_reduce' [0, 0, 0] [x0, x1, x2] [y0, y1, y2]) = [t0, t1, t2]"
    "unat t0 = unat x0 * unat y0 + 20 * unat x2 * unat y1 + 20 * unat x1 * unat y2"
    "unat t1 = unat x1 * unat y0 + unat x0 * unat y1 + 20 * unat x2 * unat y2"
    "unat t2 = unat x2 * unat y0 + unat x1 * unat y1 + unat x0 * unat y2"
    "unat t0 < 2 ^ 98" "unat t1 < 2 ^ 98" "unat t2 < 2 ^ 98"
    by (rule mul_shift_reduce_correct [OF assms(1-3) yl])
  obtain c0 c1 c2 where c: "Hacl_Bignum_Fproduct_carry_wide' [t0, t1, t2] = [c0, c1, c2]"
    "unat c0 < 2 ^ 44" "unat c1 < 2 ^ 44" "unat c2 < 2 ^ 99"
    "unat c0 + 2 ^ 44 * unat c1 + 2 ^ 88 * unat c2 = unat t0 + 2 ^ 44 * unat t1 + 2 ^ 88 * unat t2"
    by (rule carry_wide_correct [OF t(5-7)])
  obtain d0 d2 q where d: "Hacl_Bignum_Modulo_carry_top_wide [c0, c1, c2] = [d0, c1, d2]"
    "unat d2 < 2 ^ 42" "unat d0 = unat c0 + 5 * q" "unat c2 = unat d2 + 2 ^ 42 * q" "q < 2 ^ 57"
    by (rule carry_top_wide_correct [OF c(2,4), of c1])
  define e0 e1 e2 where e: "e0 = FStar_UInt128_uint128_to_uint64 d0"
    "e1 = FStar_UInt128_uint128_to_uint64 c1" "e2 = FStar_UInt128_uint128_to_uint64 d2"
  have ev: "unat e0 = unat c0 + 5 * q" "unat e1 = unat c1" "unat e2 = unat d2"
    using c(2,3) d(2,3,5) by (simp_all add: e native.unat_to64_small)
  let ?z = "Hacl_Bignum_Fmul_fmul output [x0, x1, x2] y"
  have z: "?z = [e0 AND mask 44, e1 + drop_bit 44 e0, e2]"
  proof -
    obtain tmp where "Hacl_Bignum_Fmul_mul_shift_reduce' [0, 0, 0] [x0, x1, x2] [y0, y1, y2] = ([t0, t1, t2], tmp)"
      using t(1) by (metis prod.collapse)
    then show ?thesis
      using assms(5)
      by (simp add: Hacl_Bignum_Fmul_fmul_def Let_def y blit_def numeral_3_eq_3
          FStar_UInt128_uint64_to_uint128_def c(1) d(1) copy_from_wide_eq mask_constants e)
  qed
  have "(unat c0 + 5 * q) div 2 ^ 44 < 2 ^ 16"
    using c(2) d(5) by (intro less_mult_imp_div_less) simp
  then have zv: "unat (e0 AND mask 44) = (unat c0 + 5 * q) mod 2 ^ 44"
    "unat (e1 + drop_bit 44 e0) = unat c1 + (unat c0 + 5 * q) div 2 ^ 44"
    using c(3) by (simp_all add: unat_and_mask ev unat_add_small unat_drop_bit)
  have "limbs_ok ?z"
    using \<open>(unat c0 + 5 * q) div 2 ^ 44 < 2 ^ 16\<close> c(3) d(2) by (simp add: limbs_ok_def z zv ev)
  moreover have "unat (e0 AND mask 44) + 2 ^ 44 * unat (e1 + drop_bit 44 e0) + 2 ^ 88 * unat e2 + P1305 * q
      = unat t0 + 2 ^ 44 * unat t1 + 2 ^ 88 * unat t2"
  proof -
    have "(unat c0 + 5 * q) mod 2 ^ 44 + 2 ^ 44 * ((unat c0 + 5 * q) div 2 ^ 44) = unat c0 + 5 * q"
      by simp
    then show ?thesis
      using c(5) d(4) by (simp only: zv ev) (simp add: P1305_def)
  qed
  ultimately show ?thesis
    using product_mod_P1305 [of "unat (e0 AND mask 44)" "unat (e1 + drop_bit 44 e0)" "unat e2" q
        "unat x0" "unat y0" "unat x2" "unat y1" "unat x1" "unat y2"]
    unfolding val44_def z by (simp add: y t(2-4))
qed

section \<open>Canonical form\<close>

lemma carry_limb_correct:
  assumes "unat a0 < 2 ^ 45" "unat a1 < 2 ^ 45" "unat a2 < 2 ^ 42"
  obtains c0 c1 c2 where "Hacl_Bignum_Fproduct_carry_limb' [a0, a1, a2] = [c0, c1, c2]"
    "unat c0 < 2 ^ 44" "unat c1 < 2 ^ 44" "unat c2 < 2 ^ 43"
    "unat c0 + 2 ^ 44 * unat c1 + 2 ^ 88 * unat c2 = unat a0 + 2 ^ 44 * unat a1 + 2 ^ 88 * unat a2"
proof -
  define s1 where "s1 = a1 + drop_bit 44 a0"
  define c0 c1 c2 where c: "c0 = a0 AND mask 44" "c1 = s1 AND mask 44" "c2 = a2 + drop_bit 44 s1"
  have "Hacl_Bignum_Fproduct_carry_limb' [a0, a1, a2] = [c0, c1, c2]"
    by (simp add: Hacl_Bignum_Fproduct_carry_limb'_def for_range_2 Let_def mask_constants c s1_def)
  moreover have s1: "unat s1 = unat a1 + unat a0 div 2 ^ 44"
    using assms by (simp add: s1_def unat_add_small unat_drop_bit)
  moreover have "unat c2 = unat a2 + unat s1 div 2 ^ 44"
    using assms by (simp add: c unat_add_small unat_drop_bit s1)
  moreover have "unat c0 = unat a0 mod 2 ^ 44" and "unat c1 = unat s1 mod 2 ^ 44"
    by (simp_all add: c unat_and_mask)
  moreover have "unat a2 + unat s1 div 2 ^ 44 < 2 ^ 43"
    using assms by (simp add: s1)
  ultimately show thesis
    using carry_chain [OF s1, of "unat a2"] by (intro that [of c0 c1 c2]; simp)
qed

lemma carry_top_correct:
  assumes "unat a0 < 2 ^ 45" "unat a2 < 2 ^ 43"
  obtains c0 c2 q where "Hacl_Bignum_Modulo_carry_top [a0, a1, a2] = [c0, a1, c2]"
    "unat c2 < 2 ^ 42" "unat c0 = unat a0 + 5 * q" "unat a2 = unat c2 + 2 ^ 42 * q" "q < 2"
proof -
  define c0 c2 where c: "c0 = push_bit 2 (drop_bit 42 a2) + drop_bit 42 a2 + a0" "c2 = a2 AND mask 42"
  have q: "unat a2 div 2 ^ 42 < 2"
    using assms by (intro less_mult_imp_div_less) simp
  then have "unat c0 = unat a0 + 5 * (unat a2 div 2 ^ 42)"
    using assms by (simp add: c unat_add_small unat_push_bit_small unat_drop_bit)
  moreover have "unat c2 = unat a2 mod 2 ^ 42"
    by (simp add: c unat_and_mask)
  moreover have "Hacl_Bignum_Modulo_carry_top [a0, a1, a2] = [c0, a1, c2]"
    by (simp add: Hacl_Bignum_Modulo_carry_top_def Let_def mask_constants c)
  ultimately show thesis
    using q by (intro that [of c0 c2 "unat a2 div 2 ^ 42"]) simp_all
qed

text \<open>The constant-time subtraction of the prime when the value reaches it.\<close>

definition subtract_P1305 :: "u64 list \<Rightarrow> u64 list" where
  "subtract_P1305 a =
     (let m = FStar_UInt64_gte_mask (a ! 0) 0xffffffffffb AND FStar_UInt64_eq_mask (a ! 1) 0xfffffffffff
            AND FStar_UInt64_eq_mask (a ! 2) 0x3ffffffffff
      in [a ! 0 - (0xffffffffffb AND m), a ! 1 - (0xfffffffffff AND m), a ! 2 - (0x3ffffffffff AND m)])"

lemma subtract_P1305_correct:
  assumes "unat a0 < 2 ^ 44" "unat a1 < 2 ^ 44" "unat a2 < 2 ^ 42"
    and "d = subtract_P1305 [a0, a1, a2]"
  shows "val44 d = val44 [a0, a1, a2] mod P1305 \<and> length d = 3
    \<and> unat (d ! 0) < 2 ^ 44 \<and> unat (d ! 1) < 2 ^ 44 \<and> unat (d ! 2) < 2 ^ 42"
proof -
  have m0: "FStar_UInt64_gte_mask a0 0xffffffffffb = (if 0xffffffffffb \<le> unat a0 then -1 else 0)"
    using assms(1) by (subst FStar_UInt64_gte_mask_low) (simp_all add: word_le_nat_alt)
  have m1: "FStar_UInt64_eq_mask a1 0xfffffffffff = (if unat a1 = 0xfffffffffff then -1 else 0)"
    and m2: "FStar_UInt64_eq_mask a2 0x3ffffffffff = (if unat a2 = 0x3ffffffffff then -1 else 0)"
    by (simp_all add: FStar_UInt64_eq_mask_correct word_unat_eq_iff)
  show ?thesis
  proof (cases "0xffffffffffb \<le> unat a0 \<and> unat a1 = 0xfffffffffff \<and> unat a2 = 0x3ffffffffff")
    case True
    then have "d = [a0 - 0xffffffffffb, a1 - 0xfffffffffff, a2 - 0x3ffffffffff]"
      by (simp add: assms(4) subtract_P1305_def m0 m1 m2)
    moreover have "unat (a0 - 0xffffffffffb) = unat a0 - 0xffffffffffb"
      using True by (simp add: unat_sub_small)
    moreover have "unat (a1 - 0xfffffffffff) = 0" "unat (a2 - 0x3ffffffffff) = 0"
      using True by (simp_all add: unat_sub_small)
    moreover have "val44 [a0, a1, a2] = unat a0 - 0xffffffffffb + P1305"
      using True by (simp add: val44_def P1305_def)
    moreover have "(unat a0 - 0xffffffffffb + P1305) mod P1305 = unat a0 - 0xffffffffffb"
      using assms(1) by (simp add: P1305_def)
    ultimately show ?thesis
      using assms(1) by (simp add: val44_def)
  next
    case False
    then have "d = [a0, a1, a2]"
      by (auto simp: assms(4) subtract_P1305_def m0 m1 m2)
    moreover have "val44 [a0, a1, a2] < P1305"
      using assms(1-3) False by (simp add: val44_def P1305_def) linarith
    ultimately show ?thesis
      using assms(1-3) by simp
  qed
qed

lemma last_pass_correct:
  assumes "limbs_ok a" and "d = Hacl_Impl_Poly1305_64_poly1305_last_pass a"
  shows "val44 d = val44 a mod P1305 \<and> length d = 3
    \<and> unat (d ! 0) < 2 ^ 44 \<and> unat (d ! 1) < 2 ^ 44 \<and> unat (d ! 2) < 2 ^ 42"
proof -
  obtain a0 a1 a2 where a: "a = [a0, a1, a2]"
    using assms(1) by (auto simp: limbs_ok_def elim: length_3_cases)
  have al: "unat a0 < 2 ^ 45" "unat a1 < 2 ^ 45" "unat a2 < 2 ^ 42"
    using assms(1) by (simp_all add: limbs_ok_def a)
  obtain b0 b1 b2 where b: "Hacl_Bignum_Fproduct_carry_limb' [a0, a1, a2] = [b0, b1, b2]"
    "unat b0 < 2 ^ 44" "unat b1 < 2 ^ 44" "unat b2 < 2 ^ 43"
    "unat b0 + 2 ^ 44 * unat b1 + 2 ^ 88 * unat b2 = unat a0 + 2 ^ 44 * unat a1 + 2 ^ 88 * unat a2"
    by (rule carry_limb_correct [OF al])
  have "unat b0 < 2 ^ 45" using b by simp
  then obtain c0 c2 q where c: "Hacl_Bignum_Modulo_carry_top [b0, b1, b2] = [c0, b1, c2]"
    "unat c2 < 2 ^ 42" "unat c0 = unat b0 + 5 * q" "unat b2 = unat c2 + 2 ^ 42 * q" "q < 2"
    using b(4) by (rule carry_top_correct)
  have cl: "unat c0 < 2 ^ 45" "unat b1 < 2 ^ 45"
    using b c by simp_all
  obtain f0 f1 f2 where f: "Hacl_Bignum_Fproduct_carry_limb' [c0, b1, c2] = [f0, f1, f2]"
    "unat f0 < 2 ^ 44" "unat f1 < 2 ^ 44" "unat f2 < 2 ^ 43"
    "unat f0 + 2 ^ 44 * unat f1 + 2 ^ 88 * unat f2 = unat c0 + 2 ^ 44 * unat b1 + 2 ^ 88 * unat c2"
    by (rule carry_limb_correct [OF cl c(2)])
  have fe: "f0 = c0 AND mask 44" "f1 = (b1 + drop_bit 44 c0) AND mask 44"
    "f2 = c2 + drop_bit 44 (b1 + drop_bit 44 c0)"
    using f(1) by (simp_all add: Hacl_Bignum_Fproduct_carry_limb'_def for_range_2 Let_def mask_constants)
  have "unat f0 < 2 ^ 45" using f by simp
  then obtain g0 g2 p where g: "Hacl_Bignum_Modulo_carry_top [f0, f1, f2] = [g0, f1, g2]"
    "unat g2 < 2 ^ 42" "unat g0 = unat f0 + 5 * p" "unat f2 = unat g2 + 2 ^ 42 * p" "p < 2"
    using f(4) by (rule carry_top_correct)
  have g0: "unat g0 < 2 ^ 44"
  proof (cases "p = 0")
    case True
    then show ?thesis using f g by simp
  next
    case False
    then have "p = 1" using g(5) by simp
    then show ?thesis using f(5) b(2,3) c(2,3,5) g(3,4) by simp
  qed
  then have "g0 AND mask 44 = g0" "drop_bit 44 g0 = 0"
    by (simp_all add: word_unat_eq_iff unat_and_mask unat_drop_bit)
  then have "d = subtract_P1305 [g0, f1, g2]"
    using assms(2) by (simp add: Hacl_Impl_Poly1305_64_poly1305_last_pass_def Let_def a b(1) c(1) g(1)
        mask_constants subtract_P1305_def and.assoc flip: fe)
  then have d: "val44 d = val44 [g0, f1, g2] mod P1305 \<and> length d = 3
    \<and> unat (d ! 0) < 2 ^ 44 \<and> unat (d ! 1) < 2 ^ 44 \<and> unat (d ! 2) < 2 ^ 42"
    by (rule subtract_P1305_correct [OF g0 f(3) g(2)])
  have "val44 a = val44 [g0, f1, g2] + P1305 * (p + q)"
    using b(5) c(3,4) f(5) g(3,4) by (simp add: a val44_def P1305_def)
  with d show ?thesis by simp
qed

section \<open>Blocks and keys as limbs\<close>

definition limbs_of :: "u128 \<Rightarrow> u64 list" where
  "limbs_of m =
     [FStar_UInt128_uint128_to_uint64 m AND 0xfffffffffff,
      FStar_UInt128_uint128_to_uint64 (FStar_UInt128_shift_right m 44) AND 0xfffffffffff,
      FStar_UInt128_uint128_to_uint64 (FStar_UInt128_shift_right m 88)]"

lemma limbs_of_correct:
  "unat (limbs_of m ! 0) = unat m mod 2 ^ 44" "unat (limbs_of m ! 1) = unat m div 2 ^ 44 mod 2 ^ 44"
  "unat (limbs_of m ! 2) = unat m div 2 ^ 88" "unat m div 2 ^ 88 < 2 ^ 40" "length (limbs_of m) = 3"
proof -
  show lt: "unat m div 2 ^ 88 < 2 ^ 40"
    using native.val_lt [of m] by (intro less_mult_imp_div_less) simp
  have "unat m < 2 ^ (88 + 64)"
    using native.val_lt [of m] by simp
  then have "unat (FStar_UInt128_uint128_to_uint64 (FStar_UInt128_shift_right m 88)) = unat m div 2 ^ 88"
    by (intro native.unat_to64_shr) simp_all
  then show "unat (limbs_of m ! 2) = unat m div 2 ^ 88"
    by (simp add: limbs_of_def)
  have sh: "unat (FStar_UInt128_shift_right m 44) = unat m div 2 ^ 44"
    by (simp add: native.val_shr)
  have e: "a mod 2 ^ 64 mod 2 ^ 44 = a mod 2 ^ 44" for a :: nat
    using mod_mod_cancel [OF le_imp_power_dvd [of 44 64 "2 :: nat"]] by simp
  show "unat (limbs_of m ! 0) = unat m mod 2 ^ 44" "unat (limbs_of m ! 1) = unat m div 2 ^ 44 mod 2 ^ 44"
    using e [of "unat m"]  e [of "unat m div 2 ^ 44"]
    by (simp_all only: limbs_of_def mask_constants nth_Cons_0 nth_Cons_Suc One_nat_def unat_and_mask
        native.unat_to64 sh)
  show "length (limbs_of m) = 3"
    by (simp add: limbs_of_def)
qed

lemma split_44: "(m :: nat) mod 2 ^ 44 + 2 ^ 44 * (m div 2 ^ 44 mod 2 ^ 44) + 2 ^ 88 * (m div 2 ^ 88) = m"
  using carry_chain [OF refl, of m "2 ^ 44" 0 0] by (simp add: div_mult2_eq [symmetric])

lemma val44_limbs_of: "val44 (limbs_of m) = unat m"
  using split_44 [of "unat m"] by (simp only: val44_def limbs_of_correct)

lemma limbs44_limbs_of: "limbs44 (limbs_of m)"
  using limbs_of_correct [of m] by (simp add: limbs44_def)

text \<open>The block limbs: as loaded, with or without the bit \<open>2 ^ 128\<close>.\<close>

definition block_limbs :: "u64 list \<Rightarrow> bool" where
  "block_limbs b = (length b = 3 \<and> unat (b ! 0) < 2 ^ 44 \<and> unat (b ! 1) < 2 ^ 44 \<and> unat (b ! 2) < 2 ^ 41)"

lemma add_and_multiply_correct:
  assumes "limbs_ok a" and "block_limbs b" and "limbs44 r"
    and "z = Hacl_Bignum_AddAndMultiply_add_and_multiply a b r"
  shows "limbs_ok z \<and> val44 z mod P1305 = (val44 a + val44 b) * val44 r mod P1305"
proof -
  obtain a0 a1 a2 where a: "a = [a0, a1, a2]"
    using assms(1) by (auto simp: limbs_ok_def elim: length_3_cases)
  obtain b0 b1 b2 where b: "b = [b0, b1, b2]"
    using assms(2) by (auto simp: block_limbs_def elim: length_3_cases)
  have al: "unat a0 < 2 ^ 44" "unat a1 < 2 ^ 44 + 2 ^ 16" "unat a2 < 2 ^ 42"
    using assms(1) by (simp_all add: limbs_ok_def a)
  have bl: "unat b0 < 2 ^ 44" "unat b1 < 2 ^ 44" "unat b2 < 2 ^ 41"
    using assms(2) by (simp_all add: block_limbs_def b)
  have s: "unat (a0 + b0) = unat a0 + unat b0" "unat (a1 + b1) = unat a1 + unat b1"
    "unat (a2 + b2) = unat a2 + unat b2"
    using al bl by (simp_all add: unat_add_small)
  have lt: "unat (a0 + b0) < 2 ^ 46" "unat (a1 + b1) < 2 ^ 46" "unat (a2 + b2) < 2 ^ 44"
    using al bl by (simp_all add: s)
  have "z = Hacl_Bignum_Fmul_fmul [a0 + b0, a1 + b1, a2 + b2] [a0 + b0, a1 + b1, a2 + b2] r"
    by (simp add: assms(4) a b Hacl_Bignum_AddAndMultiply_add_and_multiply_def for_range_3 Let_def)
  moreover have "val44 [a0 + b0, a1 + b1, a2 + b2] = val44 a + val44 b"
    by (simp add: val44_def a b s)
  ultimately show ?thesis
    using fmul_correct [OF lt assms(3), of "[a0 + b0, a1 + b1, a2 + b2]"] by simp
qed

definition state_ok :: "poly1305_state \<Rightarrow> bool" where
  "state_ok st = (limbs_ok (state_h st) \<and> limbs44 (state_r st))"

definition state_acc :: "poly1305_state \<Rightarrow> nat" where
  "state_acc st = val44 (state_h st)"

definition state_key :: "poly1305_state \<Rightarrow> nat" where
  "state_key st = val44 (state_r st)"

lemma le_nat_block: "length b = 16 \<Longrightarrow> le_nat (b @ [1]) = le_nat b + 2 ^ 128"
  by (simp add: le_nat_append)

lemma unat_or_2_40: "unat x < 2 ^ 40 \<Longrightarrow> unat (0x10000000000 OR x :: u64) = unat x + 2 ^ 40"
  using unat_or_push_bit [of x 40 1] by (simp add: or.commute)

lemma poly1305_update_correct:
  assumes "state_ok st" and "16 \<le> length m"
    and "st' = Hacl_Impl_Poly1305_64_poly1305_update st m"
  shows "state_ok st' \<and> state_r st' = state_r st
    \<and> state_acc st' mod P1305 = poly1305_step (state_key st) (state_acc st) (take 16 m)"
proof -
  let ?l = "limbs_of (load128_le m)"
  define b where "b = [?l ! 0, ?l ! 1, 0x10000000000 OR ?l ! 2]"
  have st': "st' = st\<lparr>state_h := Hacl_Bignum_AddAndMultiply_add_and_multiply (state_h st) b (state_r st)\<rparr>"
    by (simp add: assms(3) Hacl_Impl_Poly1305_64_poly1305_update_def b_def limbs_of_def Let_def numeral_3_eq_3)
  have top: "unat (0x10000000000 OR ?l ! 2) = unat (?l ! 2) + 2 ^ 40"
    by (rule unat_or_2_40) (simp only: limbs_of_correct)
  have "block_limbs b"
    using limbs_of_correct [of "load128_le m"] by (simp add: block_limbs_def b_def top)
  moreover have "val44 b = le_nat (take 16 m @ [1])"
    using val44_limbs_of [of "load128_le m"] assms(2)
    by (simp add: val44_def b_def top le_nat_block unat_load128_le)
  ultimately show ?thesis
    using assms(1) add_and_multiply_correct [of "state_h st" b "state_r st"]
    by (simp add: st' state_ok_def state_acc_def state_key_def poly1305_step_def)
qed

lemma process_last_block_correct:
  assumes "state_ok st" and "unat rem' \<le> length m" and "unat rem' < 16"
    and "st' = Hacl_Impl_Poly1305_64_poly1305_process_last_block st m rem'"
  shows "state_ok st' \<and> state_r st' = state_r st
    \<and> state_acc st' mod P1305 = poly1305_step (state_key st) (state_acc st) (take (unat rem') m)"
proof -
  define k where "k = unat rem'"
  have k: "unat (ucast rem' :: u32) = k" "k \<le> length m" "k < 16"
    using assms(2,3) by (simp_all add: unat_ucast_down k_def)
  define blk where "blk = (blit (replicate 16 0) 0 (take k m))[k := 1]"
  have blk: "blk = take k m @ [1] @ replicate (15 - k) 0"
    using k by (intro nth_equalityI)
      (auto simp: blk_def blit_0 nth_append nth_list_update nth_Cons' min_def)
  then have len: "length blk = 16"
    using k by simp
  have val: "le_nat blk = le_nat (take k m @ [1])"
    by (simp only: blk le_nat_append [of "take k m"] le_nat_append [of "[1]"] le_nat_zeros)
      (simp add: le_nat_append)
  let ?l = "limbs_of (load128_le blk)"
  have st': "st' = st\<lparr>state_h := Hacl_Bignum_AddAndMultiply_add_and_multiply (state_h st) ?l (state_r st)\<rparr>"
    by (simp add: assms(4) Hacl_Impl_Poly1305_64_poly1305_process_last_block_def
        Hacl_Impl_Poly1305_64_poly1305_process_last_block'_def k blk_def limbs_of_def Let_def numeral_3_eq_3)
  have "block_limbs ?l"
    using limbs_of_correct [of "load128_le blk"] by (simp add: block_limbs_def)
  moreover have "val44 ?l = le_nat (take k m @ [1])"
    by (simp add: val44_limbs_of unat_load128_le len val)
  ultimately show ?thesis
    using assms(1) add_and_multiply_correct [of "state_h st" ?l "state_r st"]
    by (simp add: st' state_ok_def state_acc_def state_key_def poly1305_step_def k_def)
qed

text \<open>The limb implementation meets the contract of \<^verbatim>\<open>Poly1305_Spec\<close>.\<close>

interpretation poly64: poly1305_impl state_ok state_acc state_key
  Hacl_Impl_Poly1305_64_poly1305_update
  "\<lambda>st m. Hacl_Impl_Poly1305_64_poly1305_process_last_block st m (word_of_nat (length m))"
proof unfold_locales
  fix s :: poly1305_state and m :: bytes
  assume s: "state_ok s"
  {
    assume "16 \<le> length m"
    from poly1305_update_correct [OF s this refl]
    show "state_ok (Hacl_Impl_Poly1305_64_poly1305_update s m)"
      "state_key (Hacl_Impl_Poly1305_64_poly1305_update s m) = state_key s"
      "state_acc (Hacl_Impl_Poly1305_64_poly1305_update s m) mod P1305
        = poly1305_step (state_key s) (state_acc s) (take 16 m)"
      by (simp_all add: state_key_def)
  next
    assume "0 < length m" "length m < 16"
    then have "unat (word_of_nat (length m) :: u64) = length m"
      by (simp add: unat_of_nat)
    with \<open>length m < 16\<close> process_last_block_correct [OF s _ _ refl, of "word_of_nat (length m)" m]
    show "state_ok (Hacl_Impl_Poly1305_64_poly1305_process_last_block s m (word_of_nat (length m)))"
      "state_acc (Hacl_Impl_Poly1305_64_poly1305_process_last_block s m (word_of_nat (length m))) mod P1305
        = poly1305_step (state_key s) (state_acc s) m"
      by simp_all
  }
qed

section \<open>Keys and messages\<close>

definition clamped :: "u128 \<Rightarrow> u128" where
  "clamped k = FStar_UInt128_logand k
     (FStar_UInt128_logor
       (FStar_UInt128_shift_left (FStar_UInt128_uint64_to_uint128 0x0ffffffc0ffffffc) 64)
       (FStar_UInt128_uint64_to_uint128 0x0ffffffc0fffffff))"

lemma unat_clamped: "unat (clamped k) = clamp1305 (unat k)"
proof -
  have "unat (FStar_UInt128_logor
       (FStar_UInt128_shift_left (FStar_UInt128_uint64_to_uint128 0x0ffffffc0ffffffc) 64)
       (FStar_UInt128_uint64_to_uint128 0x0ffffffc0fffffff)) = 0x0ffffffc0ffffffc0ffffffc0fffffff"
    by (simp add: native.val_disj native.val_shl native.val_of64)
  then show ?thesis
    by (simp add: clamped_def native.val_conj clamp1305_def)
qed

definition key_state :: "bytes \<Rightarrow> poly1305_state" where
  "key_state k = \<lparr>state_r = limbs_of (clamped (load128_le k)), state_h = [0, 0, 0]\<rparr>"

lemma key_state_correct:
  assumes "16 \<le> length k"
  shows "state_ok (key_state k)" "state_acc (key_state k) = 0"
    "state_key (key_state k) = clamp1305 (le_nat (take 16 k))"
  using assms limbs44_limbs_of [of "clamped (load128_le k)"]
  by (simp_all add: key_state_def state_ok_def state_acc_def state_key_def limbs_ok_def val44_def
      [of "[0, 0, 0]"] val44_limbs_of unat_clamped unat_load128_le)

lemma poly64_init_eq:
  assumes "length (state_r st) = 3" and "length (state_h st) = 3"
  shows "Hacl_Poly1305_64_init st k = key_state k"
  using assms
  by (cases st) (auto elim!: length_3_cases
      simp: Hacl_Poly1305_64_init_def key_state_def clamped_def limbs_of_def Let_def)

lemma partial_eq:
  assumes "length (state_r st) = 3" and "length (state_h st) = 3"
  shows "Hacl_Standalone_Poly1305_64_poly1305_partial st m n k
    = Hacl_Standalone_Poly1305_64_poly1305_blocks (key_state k) m n"
  using assms
  by (cases st) (auto elim!: length_3_cases
      simp: Hacl_Standalone_Poly1305_64_poly1305_partial_def key_state_def clamped_def limbs_of_def Let_def)

lemma poly1305_blocks_eq:
  "Hacl_Standalone_Poly1305_64_poly1305_blocks st m len1
     = absorb_blocks Hacl_Impl_Poly1305_64_poly1305_update st m (unat len1)"
proof (induction st m len1 rule: Hacl_Standalone_Poly1305_64_poly1305_blocks.induct)
  case (1 st m len1)
  show ?case
  proof (cases "len1 = 0")
    case False
    then have "unat len1 = Suc (unat (len1 - 1))"
      by (simp add: unat_minus_one unat_gt_0)
    with False 1 show ?thesis
      by (subst Hacl_Standalone_Poly1305_64_poly1305_blocks.simps) simp
  qed (simp add: Hacl_Standalone_Poly1305_64_poly1305_blocks.simps)
qed

lemma poly64_update_eq:
  "Hacl_Poly1305_64_update st m n = absorb_blocks Hacl_Impl_Poly1305_64_poly1305_update st m (unat n)"
proof (induction st m n rule: Hacl_Poly1305_64_update.induct)
  case (1 st m n)
  show ?case
  proof (cases "n = 0")
    case False
    then have "unat n = Suc (unat (n - 1))"
      by (simp add: unat_minus_one unat_gt_0)
    with False 1 show ?thesis
      by (subst Hacl_Poly1305_64_update.simps) (simp add: Hacl_Poly1305_64_update_block_def)
  qed (simp add: Hacl_Poly1305_64_update.simps)
qed

text \<open>A whole message: the blocks, then what is left, then the canonical form.\<close>

definition absorb_all :: "bytes \<Rightarrow> bytes \<Rightarrow> nat \<Rightarrow> poly1305_state" where
  "absorb_all key m n =
     (let st = absorb_blocks Hacl_Impl_Poly1305_64_poly1305_update (key_state key) m (n div 16)
      in if n mod 16 = 0 then st
         else Hacl_Impl_Poly1305_64_poly1305_process_last_block st (drop (16 * (n div 16)) m)
                (word_of_nat (n mod 16)))"

lemma absorb_blocks_prefix:
  assumes "\<And>s m m'. take 16 m = take 16 m' \<Longrightarrow> f s m = f s m'" and "take (16 * n) m = take (16 * n) m'"
  shows "absorb_blocks f s m n = absorb_blocks f s m' n"
  using assms(2)
proof (induction n arbitrary: s m m')
  case 0
  then show ?case by simp
next
  case (Suc n)
  have "take 16 (take (16 * Suc n) m) = take 16 (take (16 * Suc n) m')"
    using Suc.prems by simp
  then have "take 16 m = take 16 m'"
    by (simp add: min_def)
  moreover have "take (16 * n) (drop 16 m) = take (16 * n) (drop 16 m')"
    using arg_cong [OF Suc.prems, of "drop 16"] by (simp add: drop_take)
  ultimately show ?case
    using Suc.IH assms(1) by (metis absorb_blocks.simps(2))
qed

lemma load64_prefix: "take 8 m = take 8 m' \<Longrightarrow> load64 m = load64 m'"
proof -
  assume e: "take 8 m = take 8 m'"
  have "m ! i = m' ! i" if "i < 8" for i
    using that arg_cong [OF e, of "\<lambda>x. x ! i"] by simp
  then show ?thesis
    by (simp add: load64_def)
qed

lemma load128_le_prefix: "take 16 m = take 16 m' \<Longrightarrow> load128_le m = load128_le m'"
proof -
  assume e: "take 16 m = take 16 m'"
  have "take 8 m = take 8 m'"
    using arg_cong [OF e, of "take 8"] by simp
  moreover have "take 8 (drop 8 m) = take 8 (drop 8 m')"
    using arg_cong [OF e, of "drop 8"] by (simp add: drop_take)
  ultimately show ?thesis
    unfolding load128_le_def load64_le_def by (metis load64_prefix)
qed

lemma poly1305_update_prefix: "take 16 m = take 16 m' \<Longrightarrow>
    Hacl_Impl_Poly1305_64_poly1305_update s m = Hacl_Impl_Poly1305_64_poly1305_update s m'"
  by (drule load128_le_prefix) (simp only: Hacl_Impl_Poly1305_64_poly1305_update_def)

lemma process_last_prefix: "unat n < 2 ^ 32 \<Longrightarrow> take (unat n) m = take (unat n) m' \<Longrightarrow>
    Hacl_Impl_Poly1305_64_poly1305_process_last_block s m n = Hacl_Impl_Poly1305_64_poly1305_process_last_block s m' n"
  by (simp add: Hacl_Impl_Poly1305_64_poly1305_process_last_block_def
      Hacl_Impl_Poly1305_64_poly1305_process_last_block'_def unat_ucast_down)

lemma absorb_all_take: "absorb_all key (take n m) n = absorb_all key m n"
proof -
  have "absorb_blocks Hacl_Impl_Poly1305_64_poly1305_update (key_state key) (take n m) (n div 16)
      = absorb_blocks Hacl_Impl_Poly1305_64_poly1305_update (key_state key) m (n div 16)"
    by (rule absorb_blocks_prefix [OF poly1305_update_prefix]) (simp_all add: min_def)
  moreover have "Hacl_Impl_Poly1305_64_poly1305_process_last_block s
        (drop (16 * (n div 16)) (take n m)) (word_of_nat (n mod 16))
      = Hacl_Impl_Poly1305_64_poly1305_process_last_block s
        (drop (16 * (n div 16)) m) (word_of_nat (n mod 16))" for s
  proof (rule process_last_prefix)
    have n: "n = 16 * (n div 16) + n mod 16" "n mod 16 < 16" by simp_all
    then have u: "unat (word_of_nat (n mod 16) :: u64) = n mod 16"
      by (simp add: unat_of_nat)
    then show "unat (word_of_nat (n mod 16) :: u64) < 2 ^ 32"
      using n(2) by simp
    have "n - 16 * (n div 16) = n mod 16"
      by (simp add: minus_mult_div_eq_mod)
    then show "take (unat (word_of_nat (n mod 16) :: u64)) (drop (16 * (n div 16)) (take n m))
        = take (unat (word_of_nat (n mod 16) :: u64)) (drop (16 * (n div 16)) m)"
      by (simp add: u drop_take)
  qed
  ultimately show ?thesis
    by (simp add: absorb_all_def Let_def)
qed

lemma absorb_all_correct:
  assumes "n \<le> length m" and "16 \<le> length key"
  shows "state_ok (absorb_all key m n)
    \<and> state_acc (absorb_all key m n) mod P1305 = poly1305_acc (clamp1305 (le_nat (take 16 key))) (take n m)"
proof -
  let ?m = "take n m"
  have l: "length ?m = 16 * (n div 16) + n mod 16" and lt: "n mod 16 < 16"
    using assms(1) by simp_all
  have d: "length (drop (16 * (n div 16)) ?m) = n mod 16"
    using assms(1) by (simp add: minus_mult_div_eq_mod)
  show ?thesis
    using poly64.absorb_message_correct [OF key_state_correct(1,2) [OF assms(2)] l lt refl refl]
    unfolding d absorb_all_take [of key n m, symmetric] key_state_correct(3) [OF assms(2)]
    by (simp only: absorb_all_def Let_def)
qed

text \<open>From the canonical limbs to the tag.\<close>

definition tag_of :: "u64 list \<Rightarrow> bytes \<Rightarrow> u128" where
  "tag_of acc k = FStar_UInt128_add_mod
     (FStar_UInt128_logor
       (FStar_UInt128_shift_left
         (FStar_UInt128_uint64_to_uint128 (push_bit 24 (acc ! 2) OR drop_bit 20 (acc ! 1))) 64)
       (FStar_UInt128_uint64_to_uint128 (push_bit 44 (acc ! 1) OR acc ! 0)))
     (load128_le k)"

lemma concat_word:
  fixes h l :: u64
  shows "unat (FStar_UInt128_logor (FStar_UInt128_shift_left (FStar_UInt128_uint64_to_uint128 h) 64)
      (FStar_UInt128_uint64_to_uint128 l)) = unat l + 2 ^ 64 * unat h"
proof -
  have "unat (ucast l :: u128) < 2 ^ 64" "unat (ucast l :: u128) + unat (ucast h :: u128) * 2 ^ 64 < 2 ^ LENGTH(128)"
    using unat_u64_lt [of l] unat_u64_lt [of h] by (simp_all add: unat_ucast_up)
  from unat_or_push_bit [OF this] show ?thesis
    by (simp add: FStar_UInt128_logor_def FStar_UInt128_shift_left_def
        FStar_UInt128_uint64_to_uint128_def unat_ucast_up or.commute)
qed

lemma pack_low: "unat (a0 :: u64) < 2 ^ 44 \<Longrightarrow> unat (push_bit 44 a1 OR a0) = unat a0 + 2 ^ 44 * (unat a1 mod 2 ^ 20)"
proof -
  assume a0: "unat a0 < 2 ^ 44"
  have "push_bit 44 a1 = push_bit 44 (take_bit 20 a1)"
    by (rule bit_word_eqI) (auto simp: bit_simps)
  then have "unat (push_bit 44 a1 OR a0) = unat (a0 OR push_bit 44 (take_bit 20 a1))"
    by (simp add: or.commute)
  also have "\<dots> = unat a0 + unat (take_bit 20 a1) * 2 ^ 44"
  proof (rule unat_or_push_bit [OF a0])
    have "unat a1 mod 2 ^ 20 < 2 ^ 20" by simp
    with a0 show "unat a0 + unat (take_bit 20 a1) * 2 ^ 44 < 2 ^ LENGTH(64)"
      by (simp add: unat_take_bit)
  qed
  finally show ?thesis
    by (simp add: unat_take_bit)
qed

lemma pack_high:
  assumes "unat (a1 :: u64) < 2 ^ 44" and "unat a2 < 2 ^ 42"
  shows "unat (push_bit 24 a2 OR drop_bit 20 a1) = unat a1 div 2 ^ 20 + 2 ^ 24 * (unat a2 mod 2 ^ 40)"
proof -
  have "push_bit 24 a2 = push_bit 24 (take_bit 40 a2)"
    by (rule bit_word_eqI) (auto simp: bit_simps)
  then have "unat (push_bit 24 a2 OR drop_bit 20 a1) = unat (drop_bit 20 a1 OR push_bit 24 (take_bit 40 a2))"
    by (simp add: or.commute)
  also have "\<dots> = unat (drop_bit 20 a1) + unat (take_bit 40 a2) * 2 ^ 24"
  proof (rule unat_or_push_bit)
    have "unat a1 div 2 ^ 20 < 2 ^ 24" "unat a2 mod 2 ^ 40 < 2 ^ 40"
      using assms by (simp_all add: less_mult_imp_div_less)
    then show "unat (drop_bit 20 a1) < 2 ^ 24"
      "unat (drop_bit 20 a1) + unat (take_bit 40 a2) * 2 ^ 24 < 2 ^ LENGTH(64)"
      by (simp_all add: unat_take_bit unat_drop_bit)
  qed
  finally show ?thesis
    by (simp add: unat_take_bit unat_drop_bit)
qed

lemma pack_value:
  fixes x0 x1 x2 :: nat
  assumes "x1 = r1 + 2 ^ 20 * q1" and "x2 = r2 + 2 ^ 40 * q2"
  shows "x0 + 2 ^ 44 * x1 + 2 ^ 88 * x2 = x0 + 2 ^ 44 * r1 + 2 ^ 64 * (q1 + 2 ^ 24 * r2) + 2 ^ 128 * q2"
  by (simp add: assms)

lemma tag_of_correct:
  assumes "unat (a ! 0) < 2 ^ 44" "unat (a ! 1) < 2 ^ 44" "unat (a ! 2) < 2 ^ 42" and "16 \<le> length k"
  shows "unat (tag_of a k) = (val44 a + le_nat (take 16 k)) mod 2 ^ 128"
proof -
  let ?p = "unat (a ! 0) + 2 ^ 44 * (unat (a ! 1) mod 2 ^ 20)
      + 2 ^ 64 * (unat (a ! 1) div 2 ^ 20 + 2 ^ 24 * (unat (a ! 2) mod 2 ^ 40))"
  have "val44 a = ?p + 2 ^ 128 * (unat (a ! 2) div 2 ^ 40)"
    unfolding val44_def by (rule pack_value) simp_all
  then have "val44 a + x = ?p + x + 2 ^ 128 * (unat (a ! 2) div 2 ^ 40)" for x
    by simp
  then have "(val44 a + x) mod 2 ^ 128 = (?p + x) mod 2 ^ 128" for x
    by (simp only: mod_mult_self2)
  then show ?thesis
    using assms by (simp only: tag_of_def FStar_UInt128_add_mod_def unat_word_ariths concat_word
        pack_low pack_high unat_load128_le len_num1) simp
qed

lemma tag_bytes:
  assumes "n \<le> length m" and "32 \<le> length key"
    and "d = Hacl_Impl_Poly1305_64_poly1305_last_pass (state_h (absorb_all key m n))"
  shows "bytes_of_u128 (tag_of d (drop 16 key)) = poly1305_tag key (take n m)"
proof -
  have a: "state_ok (absorb_all key m n)"
    "state_acc (absorb_all key m n) mod P1305 = poly1305_acc (clamp1305 (le_nat (take 16 key))) (take n m)"
    using absorb_all_correct [of n m key] assms(1,2) by simp_all
  then have "limbs_ok (state_h (absorb_all key m n))"
    by (simp add: state_ok_def)
  from last_pass_correct [OF this assms(3)] a(2)
  have d: "val44 d = poly1305_acc (clamp1305 (le_nat (take 16 key))) (take n m)"
    "unat (d ! 0) < 2 ^ 44" "unat (d ! 1) < 2 ^ 44" "unat (d ! 2) < 2 ^ 42"
    by (simp_all add: state_acc_def)
  show ?thesis
    using assms(2) tag_of_correct [OF d(2-4), of "drop 16 key"]
    by (simp add: bytes_of_u128_nat_to_le d(1) poly1305_tag_def Let_def)
qed


lemma crypto_onetimeauth_eq:
  assumes "unat len \<le> length input" and "unat len < 2 ^ 32" and "32 \<le> length key" and "16 \<le> length output"
  shows "Hacl_Poly1305_64_crypto_onetimeauth output input len key
    = poly1305_tag key (take (unat len) input) @ drop 16 output"
proof -
  let ?n = "unat len"
  have w: "unat (drop_bit 4 len) = ?n div 16" "unat (len AND 0xf) = ?n mod 16"
    using unat_and_mask [of len 4] by (simp_all add: unat_drop_bit mask_eq_exp_minus_1)
  have "16 * (?n div 16) \<le> ?n" by simp
  then have off: "unat (ucast (16 * drop_bit 4 len) :: u32) = 16 * (?n div 16)"
    using assms(2) by (simp add: unat_ucast_down unat_mult_small w)
  have z: "(len AND 0xf = 0) = (?n mod 16 = 0)"
    by (metis w(2) unat_eq_zero)
  have u: "unat (word_of_nat (?n mod 16) :: u64) = ?n mod 16"
    by (simp add: unat_of_nat)
  then have zz: "((word_of_nat (?n mod 16) :: u64) = 0) = (?n mod 16 = 0)"
    and r: "len AND 0xf = word_of_nat (?n mod 16)"
    by (metis unat_eq_zero) (intro word_unat_eqI; simp only: w u)
  have i: "length (state_r (Hacl_Impl_Poly1305_64_mk_state (take 3 (replicate 6 0)) (drop 3 (replicate 6 0)))) = 3"
    "length (state_h (Hacl_Impl_Poly1305_64_mk_state (take 3 (replicate 6 0)) (drop 3 (replicate 6 0)))) = 3"
    by (simp_all add: Hacl_Impl_Poly1305_64_mk_state_def)
  have "Hacl_Standalone_Poly1305_64_poly1305_complete
      (Hacl_Impl_Poly1305_64_mk_state (take 3 (replicate 6 0)) (drop 3 (replicate 6 0))) input len key
    = (absorb_all key input ?n)\<lparr>state_h := Hacl_Impl_Poly1305_64_poly1305_last_pass (state_h (absorb_all key input ?n))\<rparr>"
    by (simp only: Hacl_Standalone_Poly1305_64_poly1305_complete_def partial_eq [OF i] poly1305_blocks_eq
        w off z zz r absorb_all_def Let_def if_not_P if_P) auto
  then have "Hacl_Poly1305_64_crypto_onetimeauth output input len key
    = store128_le output (tag_of (Hacl_Impl_Poly1305_64_poly1305_last_pass (state_h (absorb_all key input ?n))) (drop 16 key))"
    by (simp add: Hacl_Poly1305_64_crypto_onetimeauth_def Hacl_Standalone_Poly1305_64_crypto_onetimeauth_def
        Hacl_Standalone_Poly1305_64_crypto_onetimeauth'_def Let_def tag_of_def)
  then show ?thesis
    using assms by (simp add: store128_le_eq tag_bytes)
qed

section \<open>Properties\<close>

text \<open>One block multiplies and reduces correctly: for an accumulator within the limb invariant, a block
  below \<open>2 ^ 129\<close> and a key of three 44-bit limbs, adding the block and multiplying by the key gives limbs
  within the invariant again whose value is \<open>(acc + block) * r\<close> modulo \<open>2 ^ 130 - 5\<close>, with no overflow of a
  64-bit or 128-bit word on the way.\<close>

theorem add_and_multiply_is_field_arithmetic:
  assumes "limbs_ok acc" and "block_limbs block" and "limbs44 r"
  shows "limbs_ok (Hacl_Bignum_AddAndMultiply_add_and_multiply acc block r)
    \<and> val44 (Hacl_Bignum_AddAndMultiply_add_and_multiply acc block r) mod P1305
      = (val44 acc + val44 block) * val44 r mod P1305"
  by (rule add_and_multiply_correct [OF assms refl])

theorem add_and_multiply_is_field_arithmetic_witness:
  "val44 (Hacl_Bignum_AddAndMultiply_add_and_multiply [0xfffffffffff, 0x1000000ffff, 0x3ffffffffff] [1, 2, 3] [5, 6, 0xffffffffff])
      mod P1305
    = (val44 [0xfffffffffff, 0x1000000ffff, 0x3ffffffffff] + val44 [1, 2, 3]) * val44 [5, 6, 0xffffffffff] mod P1305"
  using add_and_multiply_is_field_arithmetic
    [of "[0xfffffffffff, 0x1000000ffff, 0x3ffffffffff]" "[1, 2, 3]" "[5, 6, 0xffffffffff]"]
  by (simp add: limbs_ok_def block_limbs_def limbs44_def del: val44_def)

text \<open>The final pass makes an accumulator canonical: from any limbs within the invariant it yields
  fully reduced limbs (44, 44 and 42 bits) of the one representative below \<open>2 ^ 130 - 5\<close>; the
  constant-time masks subtract the prime exactly when the value reaches it.\<close>

theorem last_pass_is_canonical:
  assumes "limbs_ok acc"
  shows "val44 (Hacl_Impl_Poly1305_64_poly1305_last_pass acc) = val44 acc mod P1305
    \<and> unat (Hacl_Impl_Poly1305_64_poly1305_last_pass acc ! 0) < 2 ^ 44
    \<and> unat (Hacl_Impl_Poly1305_64_poly1305_last_pass acc ! 1) < 2 ^ 44
    \<and> unat (Hacl_Impl_Poly1305_64_poly1305_last_pass acc ! 2) < 2 ^ 42"
  using last_pass_correct [OF assms refl] by simp

theorem last_pass_is_canonical_witness:
  "val44 (Hacl_Impl_Poly1305_64_poly1305_last_pass [0xffffffffffb, 0xfffffffffff, 0x3ffffffffff]) = 0"
  using last_pass_is_canonical [of "[0xffffffffffb, 0xfffffffffff, 0x3ffffffffff]"]
  by (simp add: limbs_ok_def val44_def [of "[_, _, _]"] P1305_def)

text \<open>C1. The one-shot authenticator computes the Poly1305 tag of RFC 8439 of the first \<open>len\<close> bytes of
  the input under the 32-byte key, writes it to the first 16 bytes of the output and leaves the
  rest of the output alone, for every message shorter than \<open>2 ^ 32\<close> bytes (the offset of the last
  block is a 32-bit integer).\<close>

theorem crypto_onetimeauth_correct:
  assumes "unat len \<le> length input" and "unat len < 2 ^ 32" and "32 \<le> length key" and "16 \<le> length output"
  shows "Hacl_Poly1305_64_crypto_onetimeauth output input len key
    = poly1305_tag key (take (unat len) input) @ drop 16 output"
  by (rule crypto_onetimeauth_eq [OF assms])

theorem crypto_onetimeauth_correct_witness:
  "Hacl_Poly1305_64_crypto_onetimeauth (replicate 17 7) [1, 2, 3] 3 (replicate 32 9)
    = poly1305_tag (replicate 32 9) [1, 2, 3] @ [7]"
  using crypto_onetimeauth_correct [of 3 "[1, 2, 3]" "replicate 32 9" "replicate 17 7"] by simp

text \<open>C39. The incremental interface agrees with the one-shot one: initialising a state of two
  three-limb buffers with a key, absorbing \<open>n\<close> full blocks, then a last block of fewer than 16 bytes, and
  finishing with the second half of the key writes the tag of the concatenated message.\<close>

theorem incremental_poly1305_correct:
  assumes "length (state_r st) = 3" and "length (state_h st) = 3" and "32 \<le> length key"
    and "length m1 = 16 * unat n" and "unat k < 16" and "length m2 = unat k" and "16 \<le> length mac"
  shows "Hacl_Poly1305_64_finish
      (Hacl_Poly1305_64_update_last (Hacl_Poly1305_64_update (Hacl_Poly1305_64_init st key) m1 n) m2 k)
      mac (drop 16 key)
    = poly1305_tag key (m1 @ m2) @ drop 16 mac"
proof -
  let ?n = "length (m1 @ m2)"
  have d: "?n div 16 = unat n" "?n mod 16 = unat k" and "16 * (?n div 16) = length m1"
    using assms by simp_all
  then have dr: "drop (16 * unat n) (m1 @ m2) = m2" by simp
  have b: "absorb_blocks Hacl_Impl_Poly1305_64_poly1305_update (key_state key) m1 (unat n)
      = absorb_blocks Hacl_Impl_Poly1305_64_poly1305_update (key_state key) (m1 @ m2) (unat n)"
    using assms(4) by (intro absorb_blocks_prefix [OF poly1305_update_prefix]) simp_all
  have z: "((word_of_nat (unat k) :: u64) = 0) = (unat k = 0)" and c: "(ucast k :: u64) = word_of_nat (unat k)"
    by (simp_all add: word_unat_eq_iff unat_ucast_up unat_of_nat)
  have a: "absorb_all key (m1 @ m2) ?n =
      (let st' = absorb_blocks Hacl_Impl_Poly1305_64_poly1305_update (key_state key) (m1 @ m2) (unat n)
       in if (ucast k :: u64) = 0 then st'
          else Hacl_Impl_Poly1305_64_poly1305_process_last_block st' m2 (ucast k))"
    by (simp only: absorb_all_def d dr z c)
  have "Hacl_Poly1305_64_update_last (Hacl_Poly1305_64_update (Hacl_Poly1305_64_init st key) m1 n) m2 k
    = (absorb_all key (m1 @ m2) ?n)\<lparr>state_h :=
        Hacl_Impl_Poly1305_64_poly1305_last_pass (state_h (absorb_all key (m1 @ m2) ?n))\<rparr>"
    unfolding a Hacl_Poly1305_64_update_last_def poly64_init_eq [OF assms(1,2)] poly64_update_eq b Let_def
    by (cases "(ucast k :: u64) = 0") (simp_all only: if_P if_not_P not_not simp_thms)
  then have "Hacl_Poly1305_64_finish
      (Hacl_Poly1305_64_update_last (Hacl_Poly1305_64_update (Hacl_Poly1305_64_init st key) m1 n) m2 k)
      mac (drop 16 key)
    = store128_le mac (tag_of (Hacl_Impl_Poly1305_64_poly1305_last_pass (state_h (absorb_all key (m1 @ m2) ?n))) (drop 16 key))"
    by (simp add: Hacl_Poly1305_64_finish_def Let_def tag_of_def)
  then show ?thesis
    using tag_bytes [of ?n "m1 @ m2" key, OF le_refl assms(3) refl] assms(7)
    by (simp only: store128_le_eq take_all le_refl)
qed

theorem incremental_poly1305_correct_witness:
  "Hacl_Poly1305_64_finish
      (Hacl_Poly1305_64_update_last (Hacl_Poly1305_64_update
        (Hacl_Poly1305_64_init \<lparr>state_r = [1, 2, 3], state_h = [4, 5, 6]\<rparr> (replicate 32 9)) (replicate 16 8) 1) [7] 1)
      (replicate 16 0) (replicate 16 9)
    = poly1305_tag (replicate 32 9) (replicate 16 8 @ [7])"
  using incremental_poly1305_correct [of "\<lparr>state_r = [1, 2, 3], state_h = [4, 5, 6]\<rparr>" "replicate 32 9"
      "replicate 16 8" 1 1 "[7]" "replicate 16 0"]
  by simp

end
