(* ===== verification/AEAD_Poly1305_64.thy ===== *)
theory AEAD_Poly1305_64
  imports Hacl_Poly1305_64
begin

text \<open>
  Poly1305 over zero-padded segments (\<^verbatim>\<open>AEAD_Poly1305_64.c\<close>), as authenticated encryption uses it:
  the additional data and the cipher text are each padded to whole blocks and followed by a block
  of lengths.  The static functions of this file are textual copies of those of
  \<^verbatim>\<open>Hacl_Poly1305_64.c\<close>, so the definitions of that theory are used for them.
\<close>

section \<open>The code\<close>

definition AEAD_Poly1305_64_mk_state :: "u64 list \<Rightarrow> u64 list \<Rightarrow> poly1305_state" where
  "AEAD_Poly1305_64_mk_state r acc = Hacl_Impl_Poly1305_64_mk_state r acc"

definition AEAD_Poly1305_64_mul_div_16 :: "u32 \<Rightarrow> u32" where
  "AEAD_Poly1305_64_mul_div_16 len1 = 16 * drop_bit 4 len1"

definition AEAD_Poly1305_64_pad_last :: "poly1305_state \<Rightarrow> bytes \<Rightarrow> u32 \<Rightarrow> poly1305_state" where
  "AEAD_Poly1305_64_pad_last st input len1 =
     (if len1 \<noteq> 0 then
        let b = replicate 16 0;
            b = blit b 0 (take (unat len1) input);
            b0 = b
        in Hacl_Impl_Poly1305_64_poly1305_update st b0
      else st)"

definition AEAD_Poly1305_64_poly1305_blocks_init ::
  "poly1305_state \<Rightarrow> bytes \<Rightarrow> u32 \<Rightarrow> bytes \<Rightarrow> poly1305_state" where
  "AEAD_Poly1305_64_poly1305_blocks_init st input len1 k1 =
     (let len_16 = drop_bit 4 len1;
          rem_16 = len1 AND 15;
          kr = k1;
          len' = 16 * drop_bit 4 len1;
          part_input = input;
          last_block = drop (unat len') input;
          st = Hacl_Standalone_Poly1305_64_poly1305_partial st part_input (ucast len_16) kr
      in AEAD_Poly1305_64_pad_last st last_block rem_16)"

definition AEAD_Poly1305_64_poly1305_blocks_continue ::
  "poly1305_state \<Rightarrow> bytes \<Rightarrow> u32 \<Rightarrow> poly1305_state" where
  "AEAD_Poly1305_64_poly1305_blocks_continue st input len1 =
     (let len_16 = drop_bit 4 len1;
          rem_16 = len1 AND 15;
          len' = 16 * drop_bit 4 len1;
          part_input = input;
          last_block = drop (unat len') input;
          st = Hacl_Standalone_Poly1305_64_poly1305_blocks st part_input (ucast len_16)
      in AEAD_Poly1305_64_pad_last st last_block rem_16)"

definition AEAD_Poly1305_64_poly1305_blocks_finish' :: "poly1305_state \<Rightarrow> bytes \<Rightarrow> poly1305_state" where
  "AEAD_Poly1305_64_poly1305_blocks_finish' st input =
     (let st = Hacl_Impl_Poly1305_64_poly1305_update st input;
          x2 = drop 16 input;
          st = (if (0 :: u64) \<noteq> 0
                then Hacl_Impl_Poly1305_64_poly1305_process_last_block st x2 0 else st);
          acc = state_h st
      in st\<lparr>state_h := Hacl_Impl_Poly1305_64_poly1305_last_pass acc\<rparr>)"

definition AEAD_Poly1305_64_poly1305_blocks_finish ::
  "poly1305_state \<Rightarrow> bytes \<Rightarrow> bytes \<Rightarrow> bytes \<Rightarrow> bytes" where
  "AEAD_Poly1305_64_poly1305_blocks_finish st input mac key_s =
     (let st = Hacl_Impl_Poly1305_64_poly1305_update st input;
          x2 = drop 16 input;
          st = (if (0 :: u64) \<noteq> 0
                then Hacl_Impl_Poly1305_64_poly1305_process_last_block st x2 0 else st);
          acc = state_h st;
          st = st\<lparr>state_h := Hacl_Impl_Poly1305_64_poly1305_last_pass acc\<rparr>;
          acc0 = state_h st;
          k' = load128_le key_s;
          h0 = acc0 ! 0;
          h1 = acc0 ! 1;
          h2 = acc0 ! 2;
          acc' = FStar_UInt128_logor
            (FStar_UInt128_shift_left
              (FStar_UInt128_uint64_to_uint128 (push_bit 24 h2 OR drop_bit 20 h1)) 64)
            (FStar_UInt128_uint64_to_uint128 (push_bit 44 h1 OR h0));
          mac' = FStar_UInt128_add_mod acc' k'
      in store128_le mac mac')"

section \<open>Padding\<close>

definition pad16 :: "bytes \<Rightarrow> bytes" where
  "pad16 m = m @ replicate ((16 - length m mod 16) mod 16) 0"

definition blocks_of :: "bytes \<Rightarrow> nat" where
  "blocks_of m = length (pad16 m) div 16"

lemma pad16_exact: "length m mod 16 = 0 \<Longrightarrow> pad16 m = m \<and> blocks_of m = length m div 16"
  by (simp add: pad16_def blocks_of_def)

lemma round_up_16: "(l :: nat) mod 16 \<noteq> 0 \<Longrightarrow> l + (16 - l mod 16) = 16 * Suc (l div 16)"
proof -
  have "r < 16 \<Longrightarrow> l = 16 * q + r \<Longrightarrow> l + (16 - r) = 16 * Suc q" for q r
    by simp
  from this [of "l mod 16" "l div 16"] show ?thesis
    by (simp only: mod_less_divisor zero_less_numeral mult_div_mod_eq refl TrueI simp_thms)
qed

lemma pad16_partial: "length m mod 16 \<noteq> 0 \<Longrightarrow>
    pad16 m = m @ replicate (16 - length m mod 16) 0 \<and> blocks_of m = Suc (length m div 16)"
proof -
  assume m: "length m mod 16 \<noteq> 0"
  then have "(16 - length m mod 16) mod 16 = 16 - length m mod 16"
    by simp
  then have p: "pad16 m = m @ replicate (16 - length m mod 16) 0"
    by (simp only: pad16_def)
  moreover have "length (pad16 m) = 16 * Suc (length m div 16)"
    using round_up_16 [OF m] by (simp only: p length_append length_replicate)
  ultimately show ?thesis
    by (simp only: blocks_of_def) simp
qed

lemma length_pad16: "length (pad16 m) = 16 * blocks_of m"
proof (cases "length m mod 16 = 0")
  case True
  then show ?thesis
    using pad16_exact [OF True] mult_div_mod_eq [of 16 "length m"] by simp
next
  case False
  then show ?thesis
    using pad16_partial [OF False] round_up_16 [OF False] by (simp only: length_append length_replicate)
qed

lemma absorb_blocks_append:
  assumes "length a = 16 * n" and "\<And>s m m'. take 16 m = take 16 m' \<Longrightarrow> f s m = f s m'"
  shows "absorb_blocks f s (a @ b) (n + k) = absorb_blocks f (absorb_blocks f s a n) b k"
  using assms(1)
proof (induction n arbitrary: s a)
  case 0
  then show ?case by simp
next
  case (Suc n)
  then have "f s (a @ b) = f s a"
    by (intro assms(2)) simp
  moreover have "length (drop 16 a) = 16 * n"
    using Suc.prems by simp
  ultimately show ?case
    using Suc by simp
qed

lemma absorb_padded:
  assumes "unat len \<le> length m"
  shows "AEAD_Poly1305_64_pad_last (absorb_blocks Hacl_Impl_Poly1305_64_poly1305_update st m (unat len div 16))
      (drop (16 * (unat len div 16)) m) (len AND 15)
    = absorb_blocks Hacl_Impl_Poly1305_64_poly1305_update st (pad16 (take (unat len) m)) (blocks_of (take (unat len) m))"
proof -
  let ?n = "unat len" and ?f = Hacl_Impl_Poly1305_64_poly1305_update
  let ?t = "take ?n m" and ?h = "take (16 * (?n div 16)) m"
  have r: "unat (len AND 15) = ?n mod 16"
    using unat_and_mask [of len 4] by (simp add: mask_eq_exp_minus_1)
  have z: "(len AND 15 = 0) = (?n mod 16 = 0)"
    by (metis r unat_eq_zero)
  have le: "16 * (?n div 16) \<le> ?n" by simp
  have h: "absorb_blocks ?f st ?h (?n div 16) = absorb_blocks ?f st m (?n div 16)"
    by (rule absorb_blocks_prefix [OF poly1305_update_prefix]) simp_all
  have lt: "length ?t = ?n"
    using assms by simp
  show ?thesis
  proof (cases "?n mod 16 = 0")
    case True
    then have "16 * (?n div 16) = ?n"
      using mult_div_mod_eq [of 16 ?n] by linarith
    then have "?h = ?t" by simp
    then show ?thesis
      using True h lt pad16_exact [of ?t] z by (simp add: AEAD_Poly1305_64_pad_last_def)
  next
    case False
    let ?l = "take (?n mod 16) (drop (16 * (?n div 16)) m) @ replicate (16 - ?n mod 16) 0"
    have "16 * (?n div 16) + ?n mod 16 = ?n" by simp
    then have t: "?t = ?h @ take (?n mod 16) (drop (16 * (?n div 16)) m)"
      by (metis take_add)
    have "pad16 ?t = ?t @ replicate (16 - ?n mod 16) 0"
      using False pad16_partial [of ?t] unfolding lt by blast
    then have "pad16 ?t = ?h @ ?l"
      using t by (metis append.assoc)
    moreover have "length ?h = 16 * (?n div 16)"
      using assms le by simp
    moreover have "blit (replicate 16 0) 0 (take (?n mod 16) (drop (16 * (?n div 16)) m)) = ?l"
    proof -
      have "?n mod 16 \<le> length m - 16 * (?n div 16)"
        using assms by (simp add: minus_mult_div_eq_mod [symmetric] diff_le_mono)
      then show ?thesis
        by (simp add: blit_0)
    qed
    ultimately show ?thesis
      using False lt pad16_partial [of ?t] z
        absorb_blocks_append [of ?h "?n div 16" ?f st ?l 1, OF _ poly1305_update_prefix]
      by (simp add: AEAD_Poly1305_64_pad_last_def r h)
  qed
qed

lemma blocks_args:
  fixes len :: u32
  shows "unat (16 * drop_bit 4 len) = 16 * (unat len div 16)"
    and "unat (ucast (drop_bit 4 len) :: u64) = unat len div 16"
proof -
  have "16 * (unat len div 16) \<le> unat len" by simp
  also have "unat len < 2 ^ 32" using unat_lt_word [of len] by simp
  finally show "unat (16 * drop_bit 4 len) = 16 * (unat len div 16)"
    by (simp add: unat_mult_small unat_drop_bit)
  show "unat (ucast (drop_bit 4 len) :: u64) = unat len div 16"
    by (simp add: unat_ucast_up unat_drop_bit)
qed

lemma blocks_continue_eq:
  assumes "unat len \<le> length m"
  shows "AEAD_Poly1305_64_poly1305_blocks_continue st m len
    = absorb_blocks Hacl_Impl_Poly1305_64_poly1305_update st (pad16 (take (unat len) m)) (blocks_of (take (unat len) m))"
  using absorb_padded [OF assms, of st]
  by (simp add: AEAD_Poly1305_64_poly1305_blocks_continue_def poly1305_blocks_eq blocks_args Let_def)

lemma blocks_init_eq:
  assumes "unat len \<le> length m" and "length (state_r st) = 3" and "length (state_h st) = 3"
  shows "AEAD_Poly1305_64_poly1305_blocks_init st m len k
    = absorb_blocks Hacl_Impl_Poly1305_64_poly1305_update (key_state k) (pad16 (take (unat len) m))
        (blocks_of (take (unat len) m))"
  using absorb_padded [OF assms(1), of "key_state k"]
  by (simp add: AEAD_Poly1305_64_poly1305_blocks_init_def partial_eq [OF assms(2,3)] poly1305_blocks_eq
      blocks_args Let_def)

lemma padded_finish_eq:
  "AEAD_Poly1305_64_poly1305_blocks_finish st lb mac key_s
    = store128_le mac (tag_of (Hacl_Impl_Poly1305_64_poly1305_last_pass
        (state_h (Hacl_Impl_Poly1305_64_poly1305_update st lb))) key_s)"
  by (simp add: AEAD_Poly1305_64_poly1305_blocks_finish_def tag_of_def Let_def)

lemma segments_eq:
  assumes "unat la \<le> length a" and "unat lc \<le> length c" and "length lb = 16" and "32 \<le> length key"
    and "length (state_r st) = 3" and "length (state_h st) = 3" and "16 \<le> length mac"
  shows "AEAD_Poly1305_64_poly1305_blocks_finish
      (AEAD_Poly1305_64_poly1305_blocks_continue (AEAD_Poly1305_64_poly1305_blocks_init st a la key) c lc)
      lb mac (drop 16 key)
    = poly1305_tag key (pad16 (take (unat la) a) @ pad16 (take (unat lc) c) @ lb) @ drop 16 mac"
proof -
  let ?f = Hacl_Impl_Poly1305_64_poly1305_update
  let ?a = "take (unat la) a" and ?c = "take (unat lc) c"
  let ?m = "pad16 ?a @ pad16 ?c @ lb"
  have n: "length ?m = 16 * (blocks_of ?a + (blocks_of ?c + 1))"
    using assms(3) by (simp add: length_pad16)
  have "?f (AEAD_Poly1305_64_poly1305_blocks_continue (AEAD_Poly1305_64_poly1305_blocks_init st a la key) c lc) lb
      = absorb_blocks ?f (absorb_blocks ?f (absorb_blocks ?f (key_state key) (pad16 ?a) (blocks_of ?a))
          (pad16 ?c) (blocks_of ?c)) lb 1"
    using assms by (simp add: blocks_init_eq blocks_continue_eq)
  also have "\<dots> = absorb_blocks ?f (key_state key) ?m (blocks_of ?a + (blocks_of ?c + 1))"
    by (simp only: absorb_blocks_append [OF length_pad16 poly1305_update_prefix])
  also have "\<dots> = absorb_all key ?m (length ?m)"
    by (simp only: absorb_all_def n Let_def) simp
  finally show ?thesis
    using tag_bytes [of "length ?m" ?m key, OF le_refl assms(4) refl] assms(7)
    by (simp only: padded_finish_eq store128_le_eq take_all le_refl)
qed

section \<open>Properties\<close>

text \<open>The padded authenticator is Poly1305 of the padded concatenation: initialising with the
  additional data, continuing with the cipher text and finishing with a 16-byte block writes the
  tag of both segments, each padded with zeros to a multiple of 16 bytes, followed by that block.\<close>

theorem padded_poly1305_correct:
  assumes "unat la \<le> length a" and "unat lc \<le> length c" and "length lb = 16" and "32 \<le> length key"
    and "length (state_r st) = 3" and "length (state_h st) = 3" and "16 \<le> length mac"
  shows "AEAD_Poly1305_64_poly1305_blocks_finish
      (AEAD_Poly1305_64_poly1305_blocks_continue (AEAD_Poly1305_64_poly1305_blocks_init st a la key) c lc)
      lb mac (drop 16 key)
    = poly1305_tag key (pad16 (take (unat la) a) @ pad16 (take (unat lc) c) @ lb) @ drop 16 mac"
  by (rule segments_eq [OF assms])

theorem padded_poly1305_correct_witness:
  "AEAD_Poly1305_64_poly1305_blocks_finish
      (AEAD_Poly1305_64_poly1305_blocks_continue
        (AEAD_Poly1305_64_poly1305_blocks_init \<lparr>state_r = [0, 0, 0], state_h = [0, 0, 0]\<rparr> [1] 1 (replicate 32 9)) [2, 3] 2)
      (replicate 16 4) (replicate 16 0) (replicate 16 9)
    = poly1305_tag (replicate 32 9) (([1] @ replicate 15 0) @ ([2, 3] @ replicate 14 0) @ replicate 16 4)"
  using padded_poly1305_correct [of 1 "[1]" 2 "[2, 3]" "replicate 16 4" "replicate 32 9"
      "\<lparr>state_r = [0, 0, 0], state_h = [0, 0, 0]\<rparr>" "replicate 16 0"]
  by (simp add: pad16_def)

end
