(* ===== verification/Hacl_Lib.thy ===== *)
theory Hacl_Lib
  imports Kremlib
begin

text \<open>
  The buffer helpers that the extracted ciphers repeat as static functions
  (\<^verbatim>\<open>Hacl_Lib_Create_*\<close> and \<^verbatim>\<open>Hacl_Lib_LoadStore32_*\<close> of \<^verbatim>\<open>Hacl_Salsa20.c\<close>,
  \<^verbatim>\<open>Hacl_Chacha20.c\<close> and the hash files): filling a buffer of words, and loading or storing a
  buffer of words as bytes.
\<close>

section \<open>Buffers of words\<close>

definition Hacl_Lib_Create_make_h32_4 ::
  "u32 list \<Rightarrow> u32 \<Rightarrow> u32 \<Rightarrow> u32 \<Rightarrow> u32 \<Rightarrow> u32 list" where
  "Hacl_Lib_Create_make_h32_4 b s0 s1 s2 s3 =
     (let b = b[0 := s0]; b = b[1 := s1]; b = b[2 := s2] in b[3 := s3])"

definition Hacl_Lib_Create_make_h32_8 ::
  "u32 list \<Rightarrow> u32 \<Rightarrow> u32 \<Rightarrow> u32 \<Rightarrow> u32 \<Rightarrow> u32 \<Rightarrow> u32 \<Rightarrow> u32 \<Rightarrow> u32 \<Rightarrow> u32 list" where
  "Hacl_Lib_Create_make_h32_8 b s0 s1 s2 s3 s4 s5 s6 s7 =
     (let b = Hacl_Lib_Create_make_h32_4 b s0 s1 s2 s3
      in at_off 4 (\<lambda>b. Hacl_Lib_Create_make_h32_4 b s4 s5 s6 s7) b)"

definition Hacl_Lib_Create_make_h32_16 ::
  "u32 list \<Rightarrow> u32 \<Rightarrow> u32 \<Rightarrow> u32 \<Rightarrow> u32 \<Rightarrow> u32 \<Rightarrow> u32 \<Rightarrow> u32 \<Rightarrow> u32
    \<Rightarrow> u32 \<Rightarrow> u32 \<Rightarrow> u32 \<Rightarrow> u32 \<Rightarrow> u32 \<Rightarrow> u32 \<Rightarrow> u32 \<Rightarrow> u32 \<Rightarrow> u32 list" where
  "Hacl_Lib_Create_make_h32_16 b s0 s1 s2 s3 s4 s5 s6 s7 s8 s9 s10 s11 s12 s13 s14 s15 =
     (let b = Hacl_Lib_Create_make_h32_8 b s0 s1 s2 s3 s4 s5 s6 s7
      in at_off 8 (\<lambda>b. Hacl_Lib_Create_make_h32_8 b s8 s9 s10 s11 s12 s13 s14 s15) b)"

section \<open>Words and bytes\<close>

definition Hacl_Lib_LoadStore32_uint32s_from_le_bytes :: "u32 list \<Rightarrow> bytes \<Rightarrow> u32 \<Rightarrow> u32 list" where
  "Hacl_Lib_LoadStore32_uint32s_from_le_bytes output input len =
     for_range 0 (unat len) (\<lambda>i output.
       let x0 = drop (off32 4 i) input;
           inputi = load32_le x0
       in output[i := inputi]) output"

definition Hacl_Lib_LoadStore32_uint32s_to_le_bytes :: "bytes \<Rightarrow> u32 list \<Rightarrow> u32 \<Rightarrow> bytes" where
  "Hacl_Lib_LoadStore32_uint32s_to_le_bytes output input len =
     for_range 0 (unat len) (\<lambda>i output.
       let hd1 = input ! i
       in at_off (off32 4 i) (\<lambda>x0. store32_le x0 hd1) output) output"

definition Hacl_Hash_Lib_LoadStore_uint32s_from_be_bytes :: "u32 list \<Rightarrow> bytes \<Rightarrow> u32 \<Rightarrow> u32 list" where
  "Hacl_Hash_Lib_LoadStore_uint32s_from_be_bytes output input len =
     for_range 0 (unat len) (\<lambda>i output.
       let x0 = drop (off32 4 i) input;
           inputi = load32_be x0
       in output[i := inputi]) output"

definition Hacl_Hash_Lib_LoadStore_uint32s_to_be_bytes :: "bytes \<Rightarrow> u32 list \<Rightarrow> u32 \<Rightarrow> bytes" where
  "Hacl_Hash_Lib_LoadStore_uint32s_to_be_bytes output input len =
     for_range 0 (unat len) (\<lambda>i output.
       let hd1 = input ! i
       in at_off (off32 4 i) (\<lambda>x0. store32_be x0 hd1) output) output"

definition Hacl_Hash_Lib_LoadStore_uint64s_from_be_bytes :: "u64 list \<Rightarrow> bytes \<Rightarrow> u32 \<Rightarrow> u64 list" where
  "Hacl_Hash_Lib_LoadStore_uint64s_from_be_bytes output input len =
     for_range 0 (unat len) (\<lambda>i output.
       let x0 = drop (off32 8 i) input;
           inputi = load64_be x0
       in output[i := inputi]) output"

definition Hacl_Hash_Lib_LoadStore_uint64s_to_be_bytes :: "bytes \<Rightarrow> u64 list \<Rightarrow> u32 \<Rightarrow> bytes" where
  "Hacl_Hash_Lib_LoadStore_uint64s_to_be_bytes output input len =
     for_range 0 (unat len) (\<lambda>i output.
       let hd1 = input ! i
       in at_off (off32 8 i) (\<lambda>x0. store64_be x0 hd1) output) output"

section \<open>What they compute\<close>

lemma length_16_cases:
  assumes "length s = 16"
  obtains x0 x1 x2 x3 x4 x5 x6 x7 x8 x9 x10 x11 x12 x13 x14 x15
  where "s = [x0, x1, x2, x3, x4, x5, x6, x7, x8, x9, x10, x11, x12, x13, x14, x15]"
  using assms by (auto simp: numeral_eq_Suc length_Suc_conv)

lemma length_8_exact:
  assumes "length s = 8"
  obtains x0 x1 x2 x3 x4 x5 x6 x7 where "s = [x0, x1, x2, x3, x4, x5, x6, x7]"
  using assms by (auto simp: numeral_eq_Suc length_Suc_conv)

lemma make_h32_16_eq [simp]:
  "length b = 16 \<Longrightarrow>
    Hacl_Lib_Create_make_h32_16 b s0 s1 s2 s3 s4 s5 s6 s7 s8 s9 s10 s11 s12 s13 s14 s15
    = [s0, s1, s2, s3, s4, s5, s6, s7, s8, s9, s10, s11, s12, s13, s14, s15]"
  by (erule length_16_cases)
    (simp add: Hacl_Lib_Create_make_h32_16_def Hacl_Lib_Create_make_h32_8_def
      Hacl_Lib_Create_make_h32_4_def at_off_def)

lemma make_h32_8_eq [simp]:
  "length b = 8 \<Longrightarrow>
    Hacl_Lib_Create_make_h32_8 b s0 s1 s2 s3 s4 s5 s6 s7 = [s0, s1, s2, s3, s4, s5, s6, s7]"
  by (erule length_8_exact)
    (simp add: Hacl_Lib_Create_make_h32_8_def Hacl_Lib_Create_make_h32_4_def at_off_def)

text \<open>The words of a byte string, and the bytes of a list of words.\<close>

definition words_le :: "nat \<Rightarrow> bytes \<Rightarrow> u32 list" where
  "words_le n b = map (\<lambda>i. load32_le (drop (4 * i) b)) [0..<n]"

definition bytes_le :: "u32 list \<Rightarrow> bytes" where
  "bytes_le ws = concat (map bytes_of_u32 ws)"

definition words_be :: "nat \<Rightarrow> bytes \<Rightarrow> u32 list" where
  "words_be n b = map (\<lambda>i. load32_be (drop (4 * i) b)) [0..<n]"

definition bytes_be :: "u32 list \<Rightarrow> bytes" where
  "bytes_be ws = concat (map (\<lambda>w. rev (bytes_of_u32 w)) ws)"

definition words64_be :: "nat \<Rightarrow> bytes \<Rightarrow> u64 list" where
  "words64_be n b = map (\<lambda>i. load64_be (drop (8 * i) b)) [0..<n]"

definition bytes64_be :: "u64 list \<Rightarrow> bytes" where
  "bytes64_be ws = concat (map (\<lambda>w. rev (bytes_of_u64 w)) ws)"

lemma length_words64 [simp]: "length (words64_be n b) = n"
  by (simp add: words64_be_def)

lemma length_bytes64_be [simp]: "length (bytes64_be ws) = 8 * length ws"
  by (induction ws) (simp_all add: bytes64_be_def)

lemma length_words [simp]: "length (words_le n b) = n" "length (words_be n b) = n"
  by (simp_all add: words_le_def words_be_def)

lemma length_bytes_le [simp]: "length (bytes_le ws) = 4 * length ws"
  by (induction ws) (simp_all add: bytes_le_def)

lemma length_bytes_be [simp]: "length (bytes_be ws) = 4 * length ws"
  by (induction ws) (simp_all add: bytes_be_def)

lemma uint32s_from_le_bytes_eq:
  assumes "unat n \<le> length output" and "4 * unat n < 2 ^ 32"
  shows "Hacl_Lib_LoadStore32_uint32s_from_le_bytes output input n
    = words_le (unat n) input @ drop (unat n) output"
proof -
  have "for_range 0 (unat n) (\<lambda>i output. let x0 = drop (off32 4 i) input; inputi = load32_le x0 in output[i := inputi]) output
      = for_range 0 (unat n) (\<lambda>i output. output[i := load32_le (drop (4 * i) input)]) output"
    using assms(2) by (intro for_range_cong) (simp add: off32_small)
  then show ?thesis
    using assms(1) by (simp add: Hacl_Lib_LoadStore32_uint32s_from_le_bytes_def for_range_store words_le_def)
qed

lemma uint32s_from_be_bytes_eq:
  assumes "unat n \<le> length output" and "4 * unat n < 2 ^ 32"
  shows "Hacl_Hash_Lib_LoadStore_uint32s_from_be_bytes output input n
    = words_be (unat n) input @ drop (unat n) output"
proof -
  have "for_range 0 (unat n) (\<lambda>i output. let x0 = drop (off32 4 i) input; inputi = load32_be x0 in output[i := inputi]) output
      = for_range 0 (unat n) (\<lambda>i output. output[i := load32_be (drop (4 * i) input)]) output"
    using assms(2) by (intro for_range_cong) (simp add: off32_small)
  then show ?thesis
    using assms(1) by (simp add: Hacl_Hash_Lib_LoadStore_uint32s_from_be_bytes_def for_range_store words_be_def)
qed

lemma words_le_Suc: "words_le (Suc n) b = load32_le b # words_le n (drop 4 b)"
  by (simp add: words_le_def upt_conv_Cons map_Suc_upt [symmetric] add.commute del: upt_Suc)

lemma words_be_Suc: "words_be (Suc n) b = load32_be b # words_be n (drop 4 b)"
  by (simp add: words_be_def upt_conv_Cons map_Suc_upt [symmetric] add.commute del: upt_Suc)

lemma words_0 [simp]: "words_le 0 b = []" "words_be 0 b = []"
  by (simp_all add: words_le_def words_be_def)

lemma bytes_le_simps [simp]: "bytes_le [] = []" "bytes_le (w # ws) = bytes_of_u32 w @ bytes_le ws"
  by (simp_all add: bytes_le_def)

lemma bytes_be_simps [simp]: "bytes_be [] = []" "bytes_be (w # ws) = rev (bytes_of_u32 w) @ bytes_be ws"
  by (simp_all add: bytes_be_def)

lemma map_nth_take: "n \<le> length xs \<Longrightarrow> map (\<lambda>i. f (xs ! i)) [0..<n] = map f (take n xs)"
  by (intro nth_equalityI) simp_all

lemma uint32s_to_le_bytes_eq:
  assumes "4 * unat n \<le> length output" and "unat n \<le> length input" and "4 * unat n < 2 ^ 32"
  shows "Hacl_Lib_LoadStore32_uint32s_to_le_bytes output input n
    = bytes_le (take (unat n) input) @ drop (4 * unat n) output"
proof -
  have "for_range 0 (unat n) (\<lambda>i output. let hd1 = input ! i in at_off (off32 4 i) (\<lambda>x0. store32_le x0 hd1) output) output
      = for_range 0 (unat n) (\<lambda>i output. blit output (4 * i) (bytes_of_u32 (input ! i))) output"
    using assms(3) by (intro for_range_cong) (simp add: off32_small at_off_def blit_def store32_le_eq add.commute)
  also have "\<dots> = concat (map (\<lambda>i. bytes_of_u32 (input ! i)) [0..<unat n]) @ drop (4 * unat n) output"
    using assms(1) by (rule for_range_chunks) simp
  finally show ?thesis
    using assms(2) by (simp add: Hacl_Lib_LoadStore32_uint32s_to_le_bytes_def bytes_le_def map_nth_take)
qed

lemma uint32s_to_be_bytes_eq:
  assumes "4 * unat n \<le> length output" and "unat n \<le> length input" and "4 * unat n < 2 ^ 32"
  shows "Hacl_Hash_Lib_LoadStore_uint32s_to_be_bytes output input n
    = bytes_be (take (unat n) input) @ drop (4 * unat n) output"
proof -
  have "for_range 0 (unat n) (\<lambda>i output. let hd1 = input ! i in at_off (off32 4 i) (\<lambda>x0. store32_be x0 hd1) output) output
      = for_range 0 (unat n) (\<lambda>i output. blit output (4 * i) (rev (bytes_of_u32 (input ! i)))) output"
    using assms(3) by (intro for_range_cong) (simp add: off32_small at_off_def blit_def store32_be_eq add.commute)
  also have "\<dots> = concat (map (\<lambda>i. rev (bytes_of_u32 (input ! i))) [0..<unat n]) @ drop (4 * unat n) output"
    using assms(1) by (rule for_range_chunks) simp
  finally show ?thesis
    using assms(2) by (simp add: Hacl_Hash_Lib_LoadStore_uint32s_to_be_bytes_def bytes_be_def
        map_nth_take [where f = "\<lambda>w. rev (bytes_of_u32 w)"])
qed

lemma uint64s_from_be_bytes_eq:
  assumes "unat n \<le> length output" and "8 * unat n < 2 ^ 32"
  shows "Hacl_Hash_Lib_LoadStore_uint64s_from_be_bytes output input n
    = words64_be (unat n) input @ drop (unat n) output"
proof -
  have "for_range 0 (unat n) (\<lambda>i output. let x0 = drop (off32 8 i) input; inputi = load64_be x0 in output[i := inputi]) output
      = for_range 0 (unat n) (\<lambda>i output. output[i := load64_be (drop (8 * i) input)]) output"
    using assms(2) by (intro for_range_cong) (simp add: off32_small)
  then show ?thesis
    using assms(1) by (simp add: Hacl_Hash_Lib_LoadStore_uint64s_from_be_bytes_def for_range_store words64_be_def)
qed

lemma uint64s_to_be_bytes_eq:
  assumes "8 * unat n \<le> length output" and "unat n \<le> length input" and "8 * unat n < 2 ^ 32"
  shows "Hacl_Hash_Lib_LoadStore_uint64s_to_be_bytes output input n
    = bytes64_be (take (unat n) input) @ drop (8 * unat n) output"
proof -
  have "for_range 0 (unat n) (\<lambda>i output. let hd1 = input ! i in at_off (off32 8 i) (\<lambda>x0. store64_be x0 hd1) output) output
      = for_range 0 (unat n) (\<lambda>i output. blit output (8 * i) (rev (bytes_of_u64 (input ! i)))) output"
    using assms(3) by (intro for_range_cong) (simp add: off32_small at_off_def blit_def store64_be_eq add.commute)
  also have "\<dots> = concat (map (\<lambda>i. rev (bytes_of_u64 (input ! i))) [0..<unat n]) @ drop (8 * unat n) output"
    using assms(1) by (rule for_range_chunks) simp
  finally show ?thesis
    using assms(2) by (simp add: Hacl_Hash_Lib_LoadStore_uint64s_to_be_bytes_def bytes64_be_def
        map_nth_take [where f = "\<lambda>w. rev (bytes_of_u64 w)"])
qed

lemma nth_bytes_le: "i < 4 * length ws \<Longrightarrow> bytes_le ws ! i = bytes_of_u32 (ws ! (i div 4)) ! (i mod 4)"
proof (induction ws arbitrary: i)
  case Nil
  then show ?case by simp
next
  case (Cons w ws)
  show ?case
  proof (cases "i < 4")
    case True
    then show ?thesis by (simp add: bytes_le_def nth_append)
  next
    case False
    then have "i div 4 = Suc ((i - 4) div 4)" "(i - 4) mod 4 = i mod 4"
      by (simp_all add: le_div_geq le_mod_geq)
    with False Cons show ?thesis
      by (simp add: bytes_le_def nth_append)
  qed
qed

lemma words_le_bytes_le: "length ws = n \<Longrightarrow> words_le n (bytes_le ws @ r) = ws"
  by (induction ws arbitrary: n) (auto simp: words_le_Suc load32_le_def)

lemma bytes_le_words_le: "4 * n \<le> length b \<Longrightarrow> bytes_le (words_le n b) = take (4 * n) b"
proof (induction n arbitrary: b)
  case (Suc n)
  then show ?case
    by (simp add: words_le_Suc load32_le_def bytes_of_u32_load32 take_add)
qed simp

end
