(* ===== verification/Stream_Spec.thy ===== *)
theory Stream_Spec
  imports Hacl_Lib
begin

text \<open>
  What a stream cipher promises: byte \<open>j\<close> of the output is byte \<open>j\<close> of the input combined with byte
  \<open>j mod 64\<close> of the keystream block \<open>j div 64\<close>.  The locale \<open>counter_mode\<close> is the contract between
  a block routine (one 64-byte block, and a shorter last one) and the loops that run it over a
  message; Salsa20 and ChaCha20 interpret it.
\<close>

section \<open>Specification\<close>

definition stream_xor :: "(nat \<Rightarrow> bytes) \<Rightarrow> bytes \<Rightarrow> bytes" where
  "stream_xor ks m = map (\<lambda>j. m ! j XOR ks (j div 64) ! (j mod 64)) [0..<length m]"

lemma length_stream_xor [simp]: "length (stream_xor ks m) = length m"
  by (simp add: stream_xor_def)

lemma stream_xor_involution: "stream_xor ks (stream_xor ks m) = m"
  by (intro nth_equalityI) (simp_all add: stream_xor_def xor.assoc)

lemma stream_xor_inj: "stream_xor ks a = stream_xor ks b \<Longrightarrow> a = b"
  by (metis stream_xor_involution)

lemma take_stream_xor: "take n (stream_xor ks m) = stream_xor ks (take n m)"
  by (intro nth_equalityI) (auto simp: stream_xor_def)

lemma stream_xor_append:
  assumes "length a = 64 * n"
  shows "stream_xor ks (a @ b) = stream_xor ks a @ stream_xor (\<lambda>i. ks (n + i)) b"
proof (rule nth_equalityI)
  fix j
  assume "j < length (stream_xor ks (a @ b))"
  then have j: "j < length a + length b" by simp
  show "stream_xor ks (a @ b) ! j = (stream_xor ks a @ stream_xor (\<lambda>i. ks (n + i)) b) ! j"
  proof (cases "j < length a")
    case True
    then show ?thesis by (simp add: stream_xor_def nth_append)
  next
    case False
    then have "j = 64 * n + (j - length a)" using assms by simp
    then have "j div 64 = n + (j - length a) div 64" "j mod 64 = (j - length a) mod 64"
      by (metis div_mult_self4 add.commute zero_neq_numeral, metis mod_mult_self4)
    moreover have "j - length a < length b"
      using j False by simp
    ultimately show ?thesis using False j by (simp add: stream_xor_def nth_append)
  qed
qed simp

lemma stream_xor_block: "length m \<le> 64 \<Longrightarrow> length (ks 0) = 64 \<Longrightarrow>
    stream_xor ks m = map2 (XOR) m (take (length m) (ks 0))"
  by (intro nth_equalityI) (auto simp: stream_xor_def)

lemma stream_xor_cong: "(\<And>i. i \<le> length m div 64 \<Longrightarrow> ks i = ks' i) \<Longrightarrow> stream_xor ks m = stream_xor ks' m"
  by (auto simp: stream_xor_def intro!: div_le_mono)

text \<open>XOR of words is XOR of their bytes.\<close>

lemma bytes_of_u32_xor: "bytes_of_u32 (a XOR b) = map2 (XOR) (bytes_of_u32 a) (bytes_of_u32 b)"
  by (auto simp: bytes_of_u32_def bit_simps intro!: bit_word_eqI)

lemma bytes_le_xor:
  "length a = length b \<Longrightarrow> bytes_le (map2 (XOR) a b) = map2 (XOR) (bytes_le a) (bytes_le b)"
  by (induction a b rule: list_induct2) (simp_all add: bytes_of_u32_xor)

section \<open>Block routines and counter mode\<close>

locale counter_mode =
  fixes ok :: "'s \<Rightarrow> bool"
    and keystream :: "'s \<Rightarrow> 'c::len word \<Rightarrow> bytes"
    and update :: "bytes \<Rightarrow> bytes \<Rightarrow> 's \<Rightarrow> 'c word \<Rightarrow> bytes \<times> 's"
    and update_last :: "bytes \<Rightarrow> bytes \<Rightarrow> u32 \<Rightarrow> 's \<Rightarrow> 'c word \<Rightarrow> bytes \<times> 's"
  assumes length_keystream: "ok st \<Longrightarrow> length (keystream st c) = 64"
    and update_output: "ok st \<Longrightarrow> 64 \<le> length p \<Longrightarrow> 64 \<le> length out \<Longrightarrow>
      fst (update out p st c) = map2 (XOR) (take 64 p) (keystream st c) @ drop 64 out"
    and update_ok: "ok st \<Longrightarrow> ok (snd (update out p st c))"
    and update_keystream: "ok st \<Longrightarrow> keystream (snd (update out p st c)) = keystream st"
    and update_last_output: "ok st \<Longrightarrow> unat n < 64 \<Longrightarrow> unat n \<le> length p \<Longrightarrow> unat n \<le> length out \<Longrightarrow>
      fst (update_last out p n st c)
        = map2 (XOR) (take (unat n) p) (take (unat n) (keystream st c)) @ drop (unat n) out"
begin

definition blocks :: "bytes \<Rightarrow> bytes \<Rightarrow> nat \<Rightarrow> 's \<Rightarrow> 'c word \<Rightarrow> bytes \<times> 's" where
  "blocks out p n st c = for_range 0 n (\<lambda>i (out, st).
     at_off_with (off32 64 i) (\<lambda>o'. update o' (drop (off32 64 i) p) st (c + word_of_nat i)) out) (out, st)"

lemma blocks_correct:
  assumes "ok st" and "64 * n \<le> length p" and "64 * n \<le> length out" and "64 * n < 2 ^ 32"
  shows "fst (blocks out p n st c)
      = stream_xor (\<lambda>i. keystream st (c + word_of_nat i)) (take (64 * n) p) @ drop (64 * n) out
    \<and> ok (snd (blocks out p n st c)) \<and> keystream (snd (blocks out p n st c)) = keystream st"
  using assms(2-4)
proof (induction n)
  case 0
  with assms(1) show ?case by (simp add: blocks_def stream_xor_def)
next
  case (Suc n)
  define o1 s1 where b: "o1 = fst (blocks out p n st c)" "s1 = snd (blocks out p n st c)"
  have IH: "o1 = stream_xor (\<lambda>i. keystream st (c + word_of_nat i)) (take (64 * n) p) @ drop (64 * n) out"
    "ok s1" "keystream s1 = keystream st"
    using Suc by (simp_all add: b)
  have l: "length (stream_xor (\<lambda>i. keystream st (c + word_of_nat i)) (take (64 * n) p)) = 64 * n"
    using Suc.prems by simp
  let ?k = "\<lambda>i. keystream st (c + word_of_nat i)"
  let ?u = "update (drop (64 * n) o1) (drop (64 * n) p) s1 (c + word_of_nat n)"
  have step: "blocks out p (Suc n) st c = (take (64 * n) o1 @ fst ?u, snd ?u)"
    using Suc.prems by (simp add: blocks_def for_range_last b at_off_with_def off32_small split_beta Let_def)
  have d: "drop (64 * n) o1 = drop (64 * n) out" "take (64 * n) o1 = stream_xor ?k (take (64 * n) p)"
    using l by (simp_all add: IH(1))
  have "fst ?u = map2 (XOR) (take 64 (drop (64 * n) p)) (?k n) @ drop 64 (drop (64 * n) out)"
    using Suc.prems IH(2,3) by (simp add: update_output d(1))
  moreover have "map2 (XOR) (take 64 (drop (64 * n) p)) (?k n)
      = stream_xor (\<lambda>i. ?k (n + i)) (take 64 (drop (64 * n) p))"
    using Suc.prems length_keystream [OF assms(1)] by (subst stream_xor_block) (simp_all add: min_def)
  moreover have "take (64 * Suc n) p = take (64 * n) p @ take 64 (drop (64 * n) p)"
    by (simp flip: take_add add: add.commute)
  moreover have "stream_xor ?k (take (64 * n) p @ take 64 (drop (64 * n) p))
      = stream_xor ?k (take (64 * n) p) @ stream_xor (\<lambda>i. ?k (n + i)) (take 64 (drop (64 * n) p))"
    using Suc.prems by (intro stream_xor_append) simp
  ultimately show ?case
    using IH(2,3) by (simp add: step d(2) update_ok update_keystream add.commute)
qed

definition message :: "bytes \<Rightarrow> bytes \<Rightarrow> u32 \<Rightarrow> 's \<Rightarrow> 'c word \<Rightarrow> bytes" where
  "message out p len st c =
     (let n = unat (drop_bit 6 len); k = len AND 0x3f;
          (out, st) = blocks out p n st c
      in if 0 < k then fst (at_off_with (off32 64 n) (\<lambda>o'. update_last o' (drop (off32 64 n) p) k st (c + word_of_nat n)) out)
         else out)"

lemma message_correct:
  assumes "ok st" and "unat len \<le> length p" and "unat len \<le> length out"
  shows "message out p len st c
    = stream_xor (\<lambda>i. keystream st (c + word_of_nat i)) (take (unat len) p) @ drop (unat len) out"
proof -
  define n k where nk: "n = unat len div 64" "k = unat len mod 64"
  have w: "unat (drop_bit 6 len) = n" "unat (len AND 0x3f) = k"
    using unat_and_mask [of len 6] by (simp_all add: nk unat_drop_bit mask_eq_exp_minus_1)
  have len: "unat len = 64 * n + k" "k < 64" by (simp_all add: nk)
  then have lt: "64 * n < 2 ^ 32" using unat_lt_word [of len] by simp
  have n: "64 * n \<le> length p" "64 * n \<le> length out" using assms len by simp_all
  let ?k = "\<lambda>i. keystream st (c + word_of_nat i)"
  define o1 s1 where b: "o1 = fst (blocks out p n st c)" "s1 = snd (blocks out p n st c)"
  have o1: "o1 = stream_xor ?k (take (64 * n) p) @ drop (64 * n) out"
    and s1: "ok s1" "keystream s1 = keystream st"
    using blocks_correct [OF assms(1) n lt] by (simp_all add: b)
  have d: "drop (64 * n) o1 = drop (64 * n) out" "take (64 * n) o1 = stream_xor ?k (take (64 * n) p)"
    using n by (simp_all add: o1)
  have m: "message out p len st c =
      (if 0 < k then take (64 * n) o1 @ fst (update_last (drop (64 * n) o1) (drop (64 * n) p) (len AND 0x3f) s1 (c + word_of_nat n))
       else o1)"
    using lt w(2) by (simp add: message_def w(1) b at_off_with_def off32_small split_beta Let_def word_less_nat_alt)
  show ?thesis
  proof (cases "k = 0")
    case True
    then show ?thesis using m o1 len by simp
  next
    case False
    have "fst (update_last (drop (64 * n) o1) (drop (64 * n) p) (len AND 0x3f) s1 (c + word_of_nat n))
        = map2 (XOR) (take k (drop (64 * n) p)) (take k (?k n)) @ drop k (drop (64 * n) out)"
      using s1 len n assms by (subst update_last_output) (simp_all add: w d(1))
    moreover have "map2 (XOR) (take k (drop (64 * n) p)) (take k (?k n))
        = stream_xor (\<lambda>i. ?k (n + i)) (take k (drop (64 * n) p))"
      using len assms length_keystream [OF assms(1)] by (subst stream_xor_block) simp_all
    moreover have "take (unat len) p = take (64 * n) p @ take k (drop (64 * n) p)"
      by (simp flip: take_add add: len)
    moreover have "stream_xor ?k (take (64 * n) p @ take k (drop (64 * n) p))
        = stream_xor ?k (take (64 * n) p) @ stream_xor (\<lambda>i. ?k (n + i)) (take k (drop (64 * n) p))"
      using n by (intro stream_xor_append) simp
    ultimately show ?thesis
      using False m len by (simp add: d(2) add.commute)
  qed
qed

end

end
