(* ===== verification/Hacl_Chacha20.thy ===== *)
theory Hacl_Chacha20
  imports Stream_Spec
begin

text \<open>
  The ChaCha20 stream cipher (\<^verbatim>\<open>Hacl_Chacha20.c\<close>): the state is a buffer of 16 words, of which
  word 12 is the block counter; the core writes the counter, runs ten double rounds on a copy and
  adds the state.  The specification is RFC 8439, section 2.
\<close>

section \<open>The code\<close>

definition Hacl_Impl_Chacha20_rotate_left :: "u32 \<Rightarrow> nat \<Rightarrow> u32" where
  "Hacl_Impl_Chacha20_rotate_left a s = push_bit s a OR drop_bit (32 - s) a"

definition Hacl_Impl_Chacha20_quarter_round :: "nat \<Rightarrow> nat \<Rightarrow> nat \<Rightarrow> nat \<Rightarrow> u32 list \<Rightarrow> u32 list" where
  "Hacl_Impl_Chacha20_quarter_round a b c d st =
     (let sa = st ! a; sb0 = st ! b; st = st[a := sa + sb0];
          sd = st ! d; sa10 = st ! a; sda = sd XOR sa10;
          st = st[d := Hacl_Impl_Chacha20_rotate_left sda 16];
          sa0 = st ! c; sb1 = st ! d; st = st[c := sa0 + sb1];
          sd0 = st ! b; sa11 = st ! c; sda0 = sd0 XOR sa11;
          st = st[b := Hacl_Impl_Chacha20_rotate_left sda0 12];
          sa2 = st ! a; sb2 = st ! b; st = st[a := sa2 + sb2];
          sd1 = st ! d; sa12 = st ! a; sda1 = sd1 XOR sa12;
          st = st[d := Hacl_Impl_Chacha20_rotate_left sda1 8];
          sa3 = st ! c; sb = st ! d; st = st[c := sa3 + sb];
          sd2 = st ! b; sa1 = st ! c; sda2 = sd2 XOR sa1
      in st[b := Hacl_Impl_Chacha20_rotate_left sda2 7])"

definition Hacl_Impl_Chacha20_double_round :: "u32 list \<Rightarrow> u32 list" where
  "Hacl_Impl_Chacha20_double_round st =
     (let st = Hacl_Impl_Chacha20_quarter_round 0 4 8 12 st;
          st = Hacl_Impl_Chacha20_quarter_round 1 5 9 13 st;
          st = Hacl_Impl_Chacha20_quarter_round 2 6 10 14 st;
          st = Hacl_Impl_Chacha20_quarter_round 3 7 11 15 st;
          st = Hacl_Impl_Chacha20_quarter_round 0 5 10 15 st;
          st = Hacl_Impl_Chacha20_quarter_round 1 6 11 12 st;
          st = Hacl_Impl_Chacha20_quarter_round 2 7 8 13 st
      in Hacl_Impl_Chacha20_quarter_round 3 4 9 14 st)"

definition Hacl_Impl_Chacha20_rounds :: "u32 list \<Rightarrow> u32 list" where
  "Hacl_Impl_Chacha20_rounds st = for_range 0 10 (\<lambda>_ st. Hacl_Impl_Chacha20_double_round st) st"

definition Hacl_Impl_Chacha20_sum_states :: "u32 list \<Rightarrow> u32 list \<Rightarrow> u32 list" where
  "Hacl_Impl_Chacha20_sum_states st st' =
     for_range 0 16 (\<lambda>i st. let xi = st ! i; yi = st' ! i in st[i := xi + yi]) st"

definition Hacl_Impl_Chacha20_copy_state :: "u32 list \<Rightarrow> u32 list \<Rightarrow> u32 list" where
  "Hacl_Impl_Chacha20_copy_state st st' = blit st 0 (take 16 st')"

definition Hacl_Impl_Chacha20_chacha20_core ::
  "u32 list \<Rightarrow> u32 list \<Rightarrow> u32 \<Rightarrow> u32 list \<times> u32 list" where
  "Hacl_Impl_Chacha20_chacha20_core k st ctr =
     (let st = st[12 := ctr];
          k = Hacl_Impl_Chacha20_copy_state k st;
          k = Hacl_Impl_Chacha20_rounds k
      in (Hacl_Impl_Chacha20_sum_states k st, st))"

definition Hacl_Impl_Chacha20_chacha20_block :: "bytes \<Rightarrow> u32 list \<Rightarrow> u32 \<Rightarrow> bytes \<times> u32 list" where
  "Hacl_Impl_Chacha20_chacha20_block stream_block st ctr =
     (let st' = replicate 16 0;
          (st', st) = Hacl_Impl_Chacha20_chacha20_core st' st ctr
      in (Hacl_Lib_LoadStore32_uint32s_to_le_bytes stream_block st' 16, st))"

definition Hacl_Impl_Chacha20_init :: "u32 list \<Rightarrow> bytes \<Rightarrow> bytes \<Rightarrow> u32 list" where
  "Hacl_Impl_Chacha20_init st k n1 =
     (let st = st[0 := 0x61707865];
          st = st[1 := 0x3320646e];
          st = st[2 := 0x79622d32];
          st = st[3 := 0x6b206574];
          st = at_off 4 (\<lambda>stk. Hacl_Lib_LoadStore32_uint32s_from_le_bytes stk k 8) st;
          st = at_off 12 (\<lambda>stc. stc[0 := 0]) st
      in at_off 13 (\<lambda>stn. Hacl_Lib_LoadStore32_uint32s_from_le_bytes stn n1 3) st)"

definition Hacl_Impl_Chacha20_update ::
  "bytes \<Rightarrow> bytes \<Rightarrow> u32 list \<Rightarrow> u32 \<Rightarrow> bytes \<times> u32 list" where
  "Hacl_Impl_Chacha20_update output plain st ctr =
     (let b = replicate 48 0;
          k = take 16 b;
          ib = take 16 (drop 16 b);
          ob = drop 32 b;
          (k, st) = Hacl_Impl_Chacha20_chacha20_core k st ctr;
          ib = Hacl_Lib_LoadStore32_uint32s_from_le_bytes ib plain 16;
          ob = for_range 0 16 (\<lambda>i ob. let xi = ib ! i; yi = k ! i in ob[i := xi XOR yi]) ob
      in (Hacl_Lib_LoadStore32_uint32s_to_le_bytes output ob 16, st))"

definition Hacl_Impl_Chacha20_update_last ::
  "bytes \<Rightarrow> bytes \<Rightarrow> u32 \<Rightarrow> u32 list \<Rightarrow> u32 \<Rightarrow> bytes \<times> u32 list" where
  "Hacl_Impl_Chacha20_update_last output plain len st ctr =
     (let block = replicate 64 0;
          (block, st) = Hacl_Impl_Chacha20_chacha20_block block st ctr;
          mask = block
      in (for_range 0 (unat len) (\<lambda>i output.
            let xi = plain ! i; yi = mask ! i in output[i := xi XOR yi]) output, st))"

definition Hacl_Impl_Chacha20_chacha20_counter_mode_blocks ::
  "bytes \<Rightarrow> bytes \<Rightarrow> u32 \<Rightarrow> u32 list \<Rightarrow> u32 \<Rightarrow> bytes \<times> u32 list" where
  "Hacl_Impl_Chacha20_chacha20_counter_mode_blocks output plain num_blocks st ctr =
     for_range 0 (unat num_blocks) (\<lambda>i (output, st).
       let b = drop (off32 64 i) plain
       in at_off_with (off32 64 i) (\<lambda>o'. Hacl_Impl_Chacha20_update o' b st (ctr + word_of_nat i)) output)
       (output, st)"

definition Hacl_Impl_Chacha20_chacha20_counter_mode ::
  "bytes \<Rightarrow> bytes \<Rightarrow> u32 \<Rightarrow> u32 list \<Rightarrow> u32 \<Rightarrow> bytes \<times> u32 list" where
  "Hacl_Impl_Chacha20_chacha20_counter_mode output plain len st ctr =
     (let blocks_len = drop_bit 6 len;
          part_len = len AND 0x3f;
          off = off32 64 (unat blocks_len);
          (output, st) = Hacl_Impl_Chacha20_chacha20_counter_mode_blocks output plain blocks_len st ctr
      in if part_len > 0
         then at_off_with off (\<lambda>output''.
                Hacl_Impl_Chacha20_update_last output'' (drop off plain) part_len st (ctr + blocks_len)) output
         else (output, st))"

definition Hacl_Impl_Chacha20_chacha20 ::
  "bytes \<Rightarrow> bytes \<Rightarrow> u32 \<Rightarrow> bytes \<Rightarrow> bytes \<Rightarrow> u32 \<Rightarrow> bytes" where
  "Hacl_Impl_Chacha20_chacha20 output plain len k n1 ctr =
     (let buf = replicate 16 0;
          st = Hacl_Impl_Chacha20_init buf k n1
      in fst (Hacl_Impl_Chacha20_chacha20_counter_mode output plain len st ctr))"

definition Hacl_Chacha20_chacha20_key_block :: "bytes \<Rightarrow> bytes \<Rightarrow> bytes \<Rightarrow> u32 \<Rightarrow> bytes" where
  "Hacl_Chacha20_chacha20_key_block block k n1 ctr =
     (let buf = replicate 16 0;
          st = Hacl_Impl_Chacha20_init buf k n1
      in fst (Hacl_Impl_Chacha20_chacha20_block block st ctr))"

definition Hacl_Chacha20_chacha20 :: "bytes \<Rightarrow> bytes \<Rightarrow> u32 \<Rightarrow> bytes \<Rightarrow> bytes \<Rightarrow> u32 \<Rightarrow> bytes" where
  "Hacl_Chacha20_chacha20 output plain len k n1 ctr = Hacl_Impl_Chacha20_chacha20 output plain len k n1 ctr"

section \<open>Specification\<close>

type_synonym quad = "u32 \<times> u32 \<times> u32 \<times> u32"

fun chacha_quarter :: "quad \<Rightarrow> quad" where
  "chacha_quarter (a, b, c, d) =
     (let a = a + b; d = word_rotl 16 (d XOR a);
          c = c + d; b = word_rotl 12 (b XOR c);
          a = a + b; d = word_rotl 8 (d XOR a);
          c = c + d; b = word_rotl 7 (b XOR c)
      in (a, b, c, d))"

text \<open>A column round and a diagonal round, on the matrix of RFC 8439.\<close>

fun chacha_inner_block :: "u32 list \<Rightarrow> u32 list" where
  "chacha_inner_block [x0, x1, x2, x3, x4, x5, x6, x7, x8, x9, x10, x11, x12, x13, x14, x15] =
     (let (x0, x4, x8, x12) = chacha_quarter (x0, x4, x8, x12);
          (x1, x5, x9, x13) = chacha_quarter (x1, x5, x9, x13);
          (x2, x6, x10, x14) = chacha_quarter (x2, x6, x10, x14);
          (x3, x7, x11, x15) = chacha_quarter (x3, x7, x11, x15);
          (x0, x5, x10, x15) = chacha_quarter (x0, x5, x10, x15);
          (x1, x6, x11, x12) = chacha_quarter (x1, x6, x11, x12);
          (x2, x7, x8, x13) = chacha_quarter (x2, x7, x8, x13);
          (x3, x4, x9, x14) = chacha_quarter (x3, x4, x9, x14)
      in [x0, x1, x2, x3, x4, x5, x6, x7, x8, x9, x10, x11, x12, x13, x14, x15])"
| "chacha_inner_block s = s"

definition chacha20_words :: "bytes \<Rightarrow> bytes \<Rightarrow> u32 \<Rightarrow> u32 list" where
  "chacha20_words k n ctr =
     [0x61707865, 0x3320646e, 0x79622d32, 0x6b206574] @ words_le 8 k @ [ctr] @ words_le 3 n"

definition chacha20_keystream :: "bytes \<Rightarrow> bytes \<Rightarrow> u32 \<Rightarrow> bytes" where
  "chacha20_keystream k n ctr =
     (let s = chacha20_words k n ctr in bytes_le (map2 (+) ((chacha_inner_block ^^ 10) s) s))"

section \<open>Rounds\<close>

declare chacha_quarter.simps [simp del]

lemma rotate_left_rotl: "0 < s \<Longrightarrow> s < 32 \<Longrightarrow> Hacl_Impl_Chacha20_rotate_left a s = word_rotl s a"
  using rotate32_left_rotl [of s a] by (simp add: Hacl_Impl_Chacha20_rotate_left_def rotate32_left_def)

lemma chacha_quarter_round_eq:
  assumes "distinct [a, b, c, d]" and "a < length st" "b < length st" "c < length st" "d < length st"
  shows "Hacl_Impl_Chacha20_quarter_round a b c d st =
    (case chacha_quarter (st ! a, st ! b, st ! c, st ! d) of (za, zb, zc, zd) \<Rightarrow>
      st[a := za, b := zb, c := zc, d := zd])"
proof -
  define a1 where "a1 = st ! a + st ! b"
  define d1 where "d1 = word_rotl 16 (st ! d XOR a1)"
  define c1 where "c1 = st ! c + d1"
  define b1 where "b1 = word_rotl 12 (st ! b XOR c1)"
  define a2 where "a2 = a1 + b1"
  define d2 where "d2 = word_rotl 8 (d1 XOR a2)"
  define c2 where "c2 = c1 + d2"
  define b2 where "b2 = word_rotl 7 (b1 XOR c2)"
  have ne: "a \<noteq> b" "a \<noteq> c" "a \<noteq> d" "b \<noteq> a" "b \<noteq> c" "b \<noteq> d" "c \<noteq> a" "c \<noteq> b" "c \<noteq> d"
      "d \<noteq> a" "d \<noteq> b" "d \<noteq> c"
    using assms(1) by auto
  note len = assms(2-5)
  have rot: "Hacl_Impl_Chacha20_rotate_left x 16 = word_rotl 16 x" "Hacl_Impl_Chacha20_rotate_left x 12 = word_rotl 12 x"
      "Hacl_Impl_Chacha20_rotate_left x 8 = word_rotl 8 x" "Hacl_Impl_Chacha20_rotate_left x 7 = word_rotl 7 x" for x
    by (simp_all add: rotate_left_rotl)
  have "Hacl_Impl_Chacha20_quarter_round a b c d st
      = st[a := a1, d := d1, c := c1, b := b1, a := a2, d := d2, c := c2, b := b2]"
    by (simp only: Hacl_Impl_Chacha20_quarter_round_def Let_def rot ne len nth_list_update_eq
        nth_list_update_neq length_list_update not_False_eq_True
        a1_def [symmetric] d1_def [symmetric] c1_def [symmetric] b1_def [symmetric]
        a2_def [symmetric] d2_def [symmetric] c2_def [symmetric] b2_def [symmetric])
  also have "\<dots> = st[a := a2, b := b2, c := c2, d := d2]"
    using assms by (intro nth_equalityI) (auto simp: nth_list_update)
  finally show ?thesis
    by (simp only: chacha_quarter.simps Let_def prod.case b2_def c2_def d2_def a2_def b1_def c1_def d1_def a1_def)
qed

lemma chacha_double_round_eq:
  assumes "length st = 16"
  shows "Hacl_Impl_Chacha20_double_round st = chacha_inner_block st"
proof -
  obtain x0 x1 x2 x3 x4 x5 x6 x7 x8 x9 x10 x11 x12 x13 x14 x15
    where st: "st = [x0, x1, x2, x3, x4, x5, x6, x7, x8, x9, x10, x11, x12, x13, x14, x15]"
    by (rule length_16_cases [OF assms])
  obtain a0 a4 a8 a12 where a: "chacha_quarter (x0, x4, x8, x12) = (a0, a4, a8, a12)" by (metis prod_cases4)
  obtain a1 a5 a9 a13 where b: "chacha_quarter (x1, x5, x9, x13) = (a1, a5, a9, a13)" by (metis prod_cases4)
  obtain a2 a6 a10 a14 where c: "chacha_quarter (x2, x6, x10, x14) = (a2, a6, a10, a14)" by (metis prod_cases4)
  obtain a3 a7 a11 a15 where d: "chacha_quarter (x3, x7, x11, x15) = (a3, a7, a11, a15)" by (metis prod_cases4)
  obtain b0 b5 b10 b15 where e: "chacha_quarter (a0, a5, a10, a15) = (b0, b5, b10, b15)" by (metis prod_cases4)
  obtain b1 b6 b11 b12 where f: "chacha_quarter (a1, a6, a11, a12) = (b1, b6, b11, b12)" by (metis prod_cases4)
  obtain b2 b7 b8 b13 where g: "chacha_quarter (a2, a7, a8, a13) = (b2, b7, b8, b13)" by (metis prod_cases4)
  obtain b3 b4 b9 b14 where h: "chacha_quarter (a3, a4, a9, a14) = (b3, b4, b9, b14)" by (metis prod_cases4)
  have "chacha_inner_block st = [b0, b1, b2, b3, b4, b5, b6, b7, b8, b9, b10, b11, b12, b13, b14, b15]"
    by (simp add: st a b c d e f g h)
  moreover have "Hacl_Impl_Chacha20_double_round st
      = [b0, b1, b2, b3, b4, b5, b6, b7, b8, b9, b10, b11, b12, b13, b14, b15]"
    unfolding Hacl_Impl_Chacha20_double_round_def st Let_def
    by (simp add: chacha_quarter_round_eq a b c d e f g h)
  ultimately show ?thesis by simp
qed

lemma length_inner_block: "length st = 16 \<Longrightarrow> length (chacha_inner_block st) = 16"
  by (erule length_16_cases) (simp split: prod.splits)

lemma chacha_rounds_eq:
  assumes "length st = 16"
  shows "Hacl_Impl_Chacha20_rounds st = (chacha_inner_block ^^ 10) st"
proof -
  have "(Hacl_Impl_Chacha20_double_round ^^ n) st = (chacha_inner_block ^^ n) st
      \<and> length ((chacha_inner_block ^^ n) st) = 16" for n
    using assms by (induction n) (simp_all add: chacha_double_round_eq length_inner_block)
  then show ?thesis
    by (simp add: Hacl_Impl_Chacha20_rounds_def for_range_funpow)
qed

lemma chacha_length_rounds: "length st = 16 \<Longrightarrow> length ((chacha_inner_block ^^ n) st) = 16"
  by (rule funpow_length [OF length_inner_block])

definition chacha20_hash :: "u32 list \<Rightarrow> u32 list" where
  "chacha20_hash st = map2 (+) ((chacha_inner_block ^^ 10) st) st"

lemma length_chacha20_hash [simp]: "length st = 16 \<Longrightarrow> length (chacha20_hash st) = 16"
  by (simp add: chacha20_hash_def chacha_length_rounds)

lemma chacha_core_eq:
  assumes "length st = 16" and "length k = 16"
  shows "Hacl_Impl_Chacha20_chacha20_core k st ctr = (chacha20_hash (st[12 := ctr]), st[12 := ctr])"
proof -
  have "Hacl_Impl_Chacha20_copy_state k (st[12 := ctr]) = st[12 := ctr]"
    using assms by (simp add: Hacl_Impl_Chacha20_copy_state_def blit_def)
  moreover have "Hacl_Impl_Chacha20_sum_states a (st[12 := ctr]) = map2 (+) a (st[12 := ctr])"
    if "length a = 16" for a
    using for_range_map2_in_place [of 16 a "st[12 := ctr]" "(+)"] that assms(1)
    by (simp add: Hacl_Impl_Chacha20_sum_states_def Let_def)
  ultimately show ?thesis
    using assms by (simp add: Hacl_Impl_Chacha20_chacha20_core_def Let_def chacha_rounds_eq chacha_length_rounds chacha20_hash_def)
qed

definition state_keystream :: "u32 list \<Rightarrow> u32 \<Rightarrow> bytes" where
  "state_keystream st c = bytes_le (chacha20_hash (st[12 := c]))"

lemma chacha_length_state_keystream: "length st = 16 \<Longrightarrow> length (state_keystream st c) = 64"
  by (simp add: state_keystream_def)

lemma chacha_block_eq:
  assumes "length st = 16" and "64 \<le> length b"
  shows "Hacl_Impl_Chacha20_chacha20_block b st ctr = (state_keystream st ctr @ drop 64 b, st[12 := ctr])"
  using assms by (simp add: Hacl_Impl_Chacha20_chacha20_block_def chacha_core_eq uint32s_to_le_bytes_eq state_keystream_def)

lemma chacha_update_eq:
  assumes "length st = 16" and "64 \<le> length plain" and "64 \<le> length out"
  shows "fst (Hacl_Impl_Chacha20_update out plain st c)
    = map2 (XOR) (take 64 plain) (state_keystream st c) @ drop 64 out"
proof -
  let ?w = "words_le 16 plain" and ?k = "chacha20_hash (st[12 := c])"
  have "for_range 0 16 (\<lambda>i ob. let xi = ?w ! i; yi = ?k ! i in ob[i := xi XOR yi]) (replicate 16 0)
      = map2 (XOR) ?w ?k"
    using for_range_map2 [of 16 ?w ?k "replicate 16 0" "(XOR)"] assms(1) by (simp add: Let_def)
  moreover have "bytes_le (map2 (XOR) ?w ?k) = map2 (XOR) (take 64 plain) (bytes_le ?k)"
    using assms(1,2) by (simp add: bytes_le_xor bytes_le_words_le)
  ultimately show ?thesis
    using assms by (simp add: Hacl_Impl_Chacha20_update_def chacha_core_eq uint32s_from_le_bytes_eq
        uint32s_to_le_bytes_eq state_keystream_def Let_def)
qed

lemma chacha_snd_update: "length st = 16 \<Longrightarrow> snd (Hacl_Impl_Chacha20_update out plain st c) = st[12 := c]"
  by (simp add: Hacl_Impl_Chacha20_update_def chacha_core_eq Let_def)

lemma chacha_update_last_eq:
  assumes "length st = 16" and "unat n < 64" and "unat n \<le> length plain" and "unat n \<le> length out"
  shows "fst (Hacl_Impl_Chacha20_update_last out plain n st c)
    = map2 (XOR) (take (unat n) plain) (take (unat n) (state_keystream st c)) @ drop (unat n) out"
  using for_range_map2 [of "unat n" plain "state_keystream st c" out "(XOR)"] assms
  by (simp add: Hacl_Impl_Chacha20_update_last_def chacha_block_eq chacha_length_state_keystream Let_def)

interpretation chacha: counter_mode "\<lambda>st. length st = 16" state_keystream
  Hacl_Impl_Chacha20_update Hacl_Impl_Chacha20_update_last
  by unfold_locales
    (simp_all add: chacha_length_state_keystream chacha_update_eq chacha_snd_update chacha_update_last_eq state_keystream_def fun_eq_iff)

lemma chacha_counter_mode_blocks_eq:
  "Hacl_Impl_Chacha20_chacha20_counter_mode_blocks out plain n st c = chacha.blocks out plain (unat n) st c"
  by (simp add: Hacl_Impl_Chacha20_chacha20_counter_mode_blocks_def chacha.blocks_def Let_def)

lemma chacha_counter_mode_eq:
  "fst (Hacl_Impl_Chacha20_chacha20_counter_mode out plain len st c) = chacha.message out plain len st c"
proof -
  have "drop_bit 6 len = word_of_nat (unat (drop_bit 6 len))"
    by simp
  then show ?thesis
    by (simp add: Hacl_Impl_Chacha20_chacha20_counter_mode_def chacha.message_def chacha_counter_mode_blocks_eq
        split_beta Let_def)
qed

section \<open>Key setup\<close>

lemma words_le_3: "words_le 3 b = [load32_le b, load32_le (drop 4 b), load32_le (drop 8 b)]"
  by (simp add: words_le_def upt_rec)

lemma chacha_init_eq: "Hacl_Impl_Chacha20_init (replicate 16 0) k n = chacha20_words k n 0"
proof -
  obtain k0 k1 k2 k3 k4 k5 k6 k7 where k: "words_le 8 k = [k0, k1, k2, k3, k4, k5, k6, k7]"
    by (rule length_8_exact [of "words_le 8 k"]) simp
  have "(replicate 16 0 :: u32 list) = [0, 0, 0, 0, 0, 0, 0, 0, 0, 0, 0, 0, 0, 0, 0, 0]"
    by (simp add: numeral_eq_Suc)
  then show ?thesis
    by (simp add: Hacl_Impl_Chacha20_init_def uint32s_from_le_bytes_eq at_off_def Let_def chacha20_words_def
        words_le_3 k)
qed

lemma chacha20_words_update: "(chacha20_words k n a)[12 := c] = chacha20_words k n c"
proof -
  obtain k0 k1 k2 k3 k4 k5 k6 k7 where "words_le 8 k = [k0, k1, k2, k3, k4, k5, k6, k7]"
    by (rule length_8_exact [of "words_le 8 k"]) simp
  then show ?thesis by (simp add: chacha20_words_def)
qed

lemma length_chacha20_words [simp]: "length (chacha20_words k n c) = 16"
  by (simp add: chacha20_words_def)

lemma chacha_state_keystream_init:
  "state_keystream (Hacl_Impl_Chacha20_init (replicate 16 0) k n) c = chacha20_keystream k n c"
  by (simp add: state_keystream_def chacha_init_eq chacha20_words_update chacha20_keystream_def chacha20_hash_def Let_def)

lemma chacha20_eq:
  assumes "unat len \<le> length plain" and "unat len \<le> length out"
  shows "Hacl_Chacha20_chacha20 out plain len k n ctr
    = stream_xor (\<lambda>i. chacha20_keystream k n (ctr + word_of_nat i)) (take (unat len) plain) @ drop (unat len) out"
proof -
  have "length (Hacl_Impl_Chacha20_init (replicate 16 0) k n) = 16"
    by (simp add: chacha_init_eq)
  from chacha.message_correct [OF this assms, of ctr] show ?thesis
    by (simp add: Hacl_Chacha20_chacha20_def Hacl_Impl_Chacha20_chacha20_def chacha_counter_mode_eq chacha_state_keystream_init Let_def)
qed

lemma chacha20_key_block_eq:
  assumes "64 \<le> length block"
  shows "Hacl_Chacha20_chacha20_key_block block k n ctr = chacha20_keystream k n ctr @ drop 64 block"
  using assms chacha_block_eq [of "Hacl_Impl_Chacha20_init (replicate 16 0) k n" block ctr]
  by (simp add: Hacl_Chacha20_chacha20_key_block_def chacha_state_keystream_init chacha_init_eq Let_def flip: chacha_state_keystream_init)

section \<open>Properties\<close>

text \<open>C31. ChaCha20 encryption is the cipher of RFC 8439: the first \<open>len\<close> bytes of the output are the plain
  text combined with the key stream, block \<open>i\<close> of which uses the 32-bit block counter \<open>ctr + i\<close> (which
  wraps); the rest of the output is left alone.\<close>

theorem chacha20_correct:
  assumes "unat len \<le> length plain" and "unat len \<le> length out"
  shows "Hacl_Chacha20_chacha20 out plain len k n ctr
    = stream_xor (\<lambda>i. chacha20_keystream k n (ctr + word_of_nat i)) (take (unat len) plain) @ drop (unat len) out"
  by (rule chacha20_eq [OF assms])

theorem chacha20_correct_witness:
  "Hacl_Chacha20_chacha20 (replicate 71 0) (replicate 70 1) 70 (replicate 32 2) (replicate 12 3) 5
    = stream_xor (\<lambda>i. chacha20_keystream (replicate 32 2) (replicate 12 3) (5 + word_of_nat i)) (replicate 70 1) @ [0]"
  using chacha20_correct [of 70 "replicate 70 1" "replicate 71 0" "replicate 32 2" "replicate 12 3" 5] by simp

text \<open>The key block, from which the authenticated encryption takes its one-time key, is the key stream
  block of the given counter.\<close>

theorem chacha20_key_block_correct:
  assumes "64 \<le> length block"
  shows "Hacl_Chacha20_chacha20_key_block block k n ctr = chacha20_keystream k n ctr @ drop 64 block"
  by (rule chacha20_key_block_eq [OF assms])

theorem chacha20_key_block_correct_witness:
  "Hacl_Chacha20_chacha20_key_block (replicate 65 9) (replicate 32 2) (replicate 12 3) 5
    = chacha20_keystream (replicate 32 2) (replicate 12 3) 5 @ [9]"
  using chacha20_key_block_correct [of "replicate 65 9" "replicate 32 2" "replicate 12 3" 5] by simp

end
