(* ===== verification/Hacl_Policies.thy ===== *)
theory Hacl_Policies
  imports Kremlib
begin

text \<open>
  Declassification and the constant-time comparison of byte strings (\<^verbatim>\<open>Hacl_Policies.c\<close>): the
  comparison accumulates the equality masks of the bytes and returns the complement, so 0 means
  equal.
\<close>

definition Hacl_Policies_declassify_u8 :: "u8 \<Rightarrow> u8" where
  "Hacl_Policies_declassify_u8 x = x"

definition Hacl_Policies_declassify_u32 :: "u32 \<Rightarrow> u32" where
  "Hacl_Policies_declassify_u32 x = x"

definition Hacl_Policies_declassify_u64 :: "u64 \<Rightarrow> u64" where
  "Hacl_Policies_declassify_u64 x = x"

definition Hacl_Policies_declassify_u128 :: "u128 \<Rightarrow> u128" where
  "Hacl_Policies_declassify_u128 x = x"

definition Hacl_Policies_cmp_bytes' :: "bytes \<Rightarrow> bytes \<Rightarrow> u32 \<Rightarrow> bytes \<Rightarrow> u8" where
  "Hacl_Policies_cmp_bytes' b1 b2 len tmp =
     (let tmp = for_range 0 (unat len) (\<lambda>i tmp.
            let bi1 = b1 ! i; bi2 = b2 ! i; z0 = tmp ! 0
            in tmp[0 := FStar_UInt8_eq_mask bi1 bi2 AND z0]) tmp
      in tmp ! 0)"

definition Hacl_Policies_cmp_bytes :: "bytes \<Rightarrow> bytes \<Rightarrow> u32 \<Rightarrow> u8" where
  "Hacl_Policies_cmp_bytes b1 b2 len =
     (let tmp = [255]; z = Hacl_Policies_cmp_bytes' b1 b2 len tmp in NOT z)"

lemma cmp_loop:
  "for_range 0 n (\<lambda>i tmp. let bi1 = b1 ! i; bi2 = b2 ! i; z0 = tmp ! 0
      in tmp[0 := FStar_UInt8_eq_mask bi1 bi2 AND z0]) [-1]
   = [if \<forall>i < n. b1 ! i = b2 ! i then -1 else 0]"
  by (induction n) (auto simp: for_range_last FStar_UInt8_eq_mask_correct less_Suc_eq)

lemma cmp_bytes_eq:
  assumes "unat len \<le> length b1" and "unat len \<le> length b2"
  shows "Hacl_Policies_cmp_bytes b1 b2 len = (if take (unat len) b1 = take (unat len) b2 then 0 else 255)"
proof -
  have "(\<forall>i < unat len. b1 ! i = b2 ! i) = (take (unat len) b1 = take (unat len) b2)"
    using assms by (auto simp: list_eq_iff_nth_eq)
  moreover have "(255 :: u8) = -1"
    by simp
  ultimately show ?thesis
    by (simp only: Hacl_Policies_cmp_bytes_def Hacl_Policies_cmp_bytes'_def Let_def
        cmp_loop [unfolded Let_def]) simp
qed

text \<open>The constant-time comparison decides equality: it returns 0 when the first \<open>len\<close> bytes of the two
  strings agree and 255 when they differ anywhere.\<close>

theorem cmp_bytes_correct:
  assumes "unat len \<le> length b1" and "unat len \<le> length b2"
  shows "Hacl_Policies_cmp_bytes b1 b2 len = (if take (unat len) b1 = take (unat len) b2 then 0 else 255)"
  by (rule cmp_bytes_eq [OF assms])

theorem cmp_bytes_correct_witness:
  "Hacl_Policies_cmp_bytes [1, 2, 3] [1, 2, 4] 3 = 255 \<and> Hacl_Policies_cmp_bytes [1, 2, 3] [1, 2, 4] 2 = 0"
  using cmp_bytes_correct [of 3 "[1, 2, 3]" "[1, 2, 4]"] cmp_bytes_correct [of 2 "[1, 2, 3]" "[1, 2, 4]"]
  by simp

end
