(* ===== verification/Hacl_Chacha20Poly1305.thy ===== *)
theory Hacl_Chacha20Poly1305
  imports AEAD_Poly1305_64 Hacl_Chacha20 Hacl_Policies
begin

text \<open>
  Authenticated encryption with associated data (\<^verbatim>\<open>Hacl_Chacha20Poly1305.c\<close>, RFC 8439, section
  2.8): ChaCha20 from block counter 1, and Poly1305 over the padded additional data, the padded cipher
  text and their lengths, under the first 32 bytes of key stream block 0.
\<close>

section \<open>The code\<close>

definition Hacl_Chacha20Poly1305_aead_encrypt_poly ::
  "bytes \<Rightarrow> u32 \<Rightarrow> bytes \<Rightarrow> bytes \<Rightarrow> u32 \<Rightarrow> bytes \<Rightarrow> bytes" where
  "Hacl_Chacha20Poly1305_aead_encrypt_poly c mlen mac aad1 aadlen tmp =
     (let b = tmp;
          lb = drop 64 tmp;
          mk = b;
          key_s = drop 16 mk;
          tmp1 = replicate 6 0;
          st = AEAD_Poly1305_64_mk_state (take 3 tmp1) (drop 3 tmp1);
          st = AEAD_Poly1305_64_poly1305_blocks_init st aad1 aadlen mk;
          st = AEAD_Poly1305_64_poly1305_blocks_continue st c mlen
      in AEAD_Poly1305_64_poly1305_blocks_finish st lb mac key_s)"

definition Hacl_Chacha20Poly1305_encode_length :: "bytes \<Rightarrow> u32 \<Rightarrow> u32 \<Rightarrow> bytes" where
  "Hacl_Chacha20Poly1305_encode_length lb aad_len mlen =
     (let lb = store64_le lb (ucast aad_len)
      in at_off 8 (\<lambda>x0. store64_le x0 (ucast mlen)) lb)"

definition Hacl_Chacha20Poly1305_aead_encrypt' ::
  "bytes \<Rightarrow> bytes \<Rightarrow> bytes \<Rightarrow> u32 \<Rightarrow> bytes \<Rightarrow> u32 \<Rightarrow> bytes \<Rightarrow> bytes \<Rightarrow> u32 \<times> bytes \<times> bytes" where
  "Hacl_Chacha20Poly1305_aead_encrypt' c mac m mlen aad1 aadlen k1 n1 =
     (let tmp = replicate 80 0;
          tmp = at_off 64 (\<lambda>lb. Hacl_Chacha20Poly1305_encode_length lb aadlen mlen) tmp;
          c = Hacl_Chacha20_chacha20 c m mlen k1 n1 1;
          tmp = Hacl_Chacha20_chacha20_key_block tmp k1 n1 0;
          mac = Hacl_Chacha20Poly1305_aead_encrypt_poly c mlen mac aad1 aadlen tmp
      in (0, c, mac))"

definition Hacl_Chacha20Poly1305_aead_encrypt ::
  "bytes \<Rightarrow> bytes \<Rightarrow> bytes \<Rightarrow> u32 \<Rightarrow> bytes \<Rightarrow> u32 \<Rightarrow> bytes \<Rightarrow> bytes \<Rightarrow> u32 \<times> bytes \<times> bytes" where
  "Hacl_Chacha20Poly1305_aead_encrypt c mac m mlen aad1 aadlen k1 n1 =
     (let z = Hacl_Chacha20Poly1305_aead_encrypt' c mac m mlen aad1 aadlen k1 n1 in z)"

definition Hacl_Chacha20Poly1305_aead_decrypt ::
  "bytes \<Rightarrow> bytes \<Rightarrow> u32 \<Rightarrow> bytes \<Rightarrow> bytes \<Rightarrow> u32 \<Rightarrow> bytes \<Rightarrow> bytes \<Rightarrow> u32 \<times> bytes" where
  "Hacl_Chacha20Poly1305_aead_decrypt m c mlen mac aad1 aadlen k1 n1 =
     (let tmp = replicate 96 0;
          tmp = at_off 64 (\<lambda>lb. Hacl_Chacha20Poly1305_encode_length lb aadlen mlen) tmp;
          tmp = Hacl_Chacha20_chacha20_key_block tmp k1 n1 0;
          rmac = Hacl_Chacha20Poly1305_aead_encrypt_poly c mlen (drop 80 tmp) aad1 aadlen (take 80 tmp);
          result = Hacl_Policies_cmp_bytes mac rmac 16;
          verify = result
      in if verify = 0 then
           let m = Hacl_Chacha20_chacha20 m c mlen k1 n1 1;
               res = 0
           in (res, m)
         else
           let res = 1 in (res, m))"

section \<open>Specification\<close>

definition chacha20_stream :: "bytes \<Rightarrow> bytes \<Rightarrow> nat \<Rightarrow> bytes" where
  "chacha20_stream k n i = chacha20_keystream k n (1 + word_of_nat i)"

definition aead_tag :: "bytes \<Rightarrow> bytes \<Rightarrow> bytes \<Rightarrow> bytes \<Rightarrow> bytes" where
  "aead_tag k n aad c =
     poly1305_tag (take 32 (chacha20_keystream k n 0))
       (pad16 aad @ pad16 c @ nat_to_le 8 (length aad) @ nat_to_le 8 (length c))"

section \<open>Lemmas\<close>

lemma length_chacha20_keystream [simp]: "length (chacha20_keystream k n c) = 64"
  using chacha_length_rounds [of "chacha20_words k n c" 10] by (simp add: chacha20_keystream_def Let_def)

lemma encode_length_eq:
  "16 \<le> length lb \<Longrightarrow> Hacl_Chacha20Poly1305_encode_length lb la lc
    = nat_to_le 8 (unat la) @ nat_to_le 8 (unat lc) @ drop 16 lb"
  by (simp add: Hacl_Chacha20Poly1305_encode_length_def store64_le_eq at_off_def bytes_of_u64_nat_to_le
      unat_ucast_up Let_def)

lemma encrypt_poly_eq:
  assumes "unat la \<le> length a" and "unat lc \<le> length c" and "16 \<le> length mac"
    and "length ks = 64" and "tmp = ks @ nat_to_le 8 (unat la) @ nat_to_le 8 (unat lc)"
  shows "Hacl_Chacha20Poly1305_aead_encrypt_poly c lc mac a la tmp
    = poly1305_tag (take 32 ks) (pad16 (take (unat la) a) @ pad16 (take (unat lc) c)
        @ nat_to_le 8 (unat la) @ nat_to_le 8 (unat lc)) @ drop 16 mac"
proof -
  let ?st = "AEAD_Poly1305_64_mk_state (take 3 (replicate 6 0)) (drop 3 (replicate 6 0))"
  have st: "length (state_r ?st) = 3" "length (state_h ?st) = 3"
    by (simp_all add: AEAD_Poly1305_64_mk_state_def Hacl_Impl_Poly1305_64_mk_state_def)
  have lb: "length (drop 64 tmp) = 16" "32 \<le> length tmp"
    using assms(4) by (simp_all add: assms(5))
  have "take 16 tmp = take 16 (take 32 ks)" "take 16 (drop 16 tmp) = take 16 (drop 16 (take 32 ks))"
    using assms(4) by (simp_all add: assms(5) drop_take)
  then have "poly1305_tag tmp m = poly1305_tag (take 32 ks) m" for m
    by (simp only: poly1305_tag_def)
  then show ?thesis
    using segments_eq [OF assms(1,2) lb st assms(3)] assms(4)
    by (simp add: Hacl_Chacha20Poly1305_aead_encrypt_poly_def assms(5) Let_def)
qed

lemma aead_encrypt_eq:
  assumes "unat mlen = length m" and "length c = length m" and "unat aadlen = length aad" and "length mac = 16"
  shows "Hacl_Chacha20Poly1305_aead_encrypt c mac m mlen aad aadlen k n
    = (0, stream_xor (chacha20_stream k n) m, aead_tag k n aad (stream_xor (chacha20_stream k n) m))"
proof -
  let ?x = "stream_xor (chacha20_stream k n) m"
  have c: "Hacl_Chacha20_chacha20 c m mlen k n 1 = ?x"
    using chacha20_eq [of mlen m c k n 1] assms by (simp add: chacha20_stream_def [abs_def])
  have t: "Hacl_Chacha20_chacha20_key_block
      (at_off 64 (\<lambda>lb. Hacl_Chacha20Poly1305_encode_length lb aadlen mlen) (replicate 80 0)) k n 0
    = chacha20_keystream k n 0 @ nat_to_le 8 (unat aadlen) @ nat_to_le 8 (unat mlen)"
    by (simp add: chacha20_key_block_eq at_off_def encode_length_eq)
  show ?thesis
    using assms encrypt_poly_eq [of aadlen aad mlen ?x mac "chacha20_keystream k n 0", OF _ _ _ _ refl]
    by (simp add: Hacl_Chacha20Poly1305_aead_encrypt_def Hacl_Chacha20Poly1305_aead_encrypt'_def c t
        aead_tag_def Let_def)
qed

lemma aead_decrypt_eq:
  assumes "unat mlen = length c" and "length m = length c" and "unat aadlen = length aad" and "16 \<le> length mac"
  shows "Hacl_Chacha20Poly1305_aead_decrypt m c mlen mac aad aadlen k n
    = (if take 16 mac = aead_tag k n aad c then (0, stream_xor (chacha20_stream k n) c) else (1, m))"
proof -
  have d: "Hacl_Chacha20_chacha20 m c mlen k n 1 = stream_xor (chacha20_stream k n) c"
    using chacha20_eq [of mlen c m k n 1] assms by (simp add: chacha20_stream_def [abs_def])
  have t: "Hacl_Chacha20_chacha20_key_block
      (at_off 64 (\<lambda>lb. Hacl_Chacha20Poly1305_encode_length lb aadlen mlen) (replicate 96 0)) k n 0
    = chacha20_keystream k n 0 @ nat_to_le 8 (unat aadlen) @ nat_to_le 8 (unat mlen) @ replicate 16 0"
    by (simp add: chacha20_key_block_eq at_off_def encode_length_eq)
  have p: "Hacl_Chacha20Poly1305_aead_encrypt_poly c mlen (replicate 16 0) aad aadlen
      (chacha20_keystream k n 0 @ nat_to_le 8 (length aad) @ nat_to_le 8 (length c)) = aead_tag k n aad c"
    using assms encrypt_poly_eq [of aadlen aad mlen c "replicate 16 0" "chacha20_keystream k n 0", OF _ _ _ _ refl]
    by (simp add: aead_tag_def)
  have "Hacl_Policies_cmp_bytes mac (aead_tag k n aad c) 16 = (if take 16 mac = aead_tag k n aad c then 0 else 255)"
    using cmp_bytes_eq [of 16 mac "aead_tag k n aad c"] assms(4) by (simp add: aead_tag_def poly1305_tag_def Let_def)
  then show ?thesis
    using assms by (simp add: Hacl_Chacha20Poly1305_aead_decrypt_def d t p Let_def)
qed

section \<open>Properties\<close>

text \<open>C3. Authenticated encryption is that of RFC 8439: the cipher text is the message combined with the ChaCha20
  key stream from block counter 1 and the tag is Poly1305, under the first half of key stream block 0,
  of the padded additional data, the padded cipher text and the two lengths; the status is 0.\<close>

theorem aead_encrypt_correct:
  assumes "unat mlen = length m" and "length c = length m" and "unat aadlen = length aad" and "length mac = 16"
  shows "Hacl_Chacha20Poly1305_aead_encrypt c mac m mlen aad aadlen k n
    = (0, stream_xor (chacha20_stream k n) m, aead_tag k n aad (stream_xor (chacha20_stream k n) m))"
  by (rule aead_encrypt_eq [OF assms])

theorem aead_encrypt_correct_witness:
  "Hacl_Chacha20Poly1305_aead_encrypt [0, 0] (replicate 16 0) [5, 6] 2 [7] 1 (replicate 32 2) (replicate 12 3)
    = (0, stream_xor (chacha20_stream (replicate 32 2) (replicate 12 3)) [5, 6],
       aead_tag (replicate 32 2) (replicate 12 3) [7] (stream_xor (chacha20_stream (replicate 32 2) (replicate 12 3)) [5, 6]))"
  using aead_encrypt_correct [of 2 "[5, 6]" "[0, 0]" 1 "[7]" "replicate 16 0" "replicate 32 2" "replicate 12 3"] by simp

text \<open>C4. Decryption decides by the tag: it returns 0 and the plain text when the first 16 bytes of the tag
  argument are the tag of the additional data and the cipher text, and otherwise returns 1 and leaves the
  message buffer as it was.\<close>

theorem aead_decrypt_decides:
  assumes "unat mlen = length c" and "length m = length c" and "unat aadlen = length aad" and "16 \<le> length mac"
  shows "Hacl_Chacha20Poly1305_aead_decrypt m c mlen mac aad aadlen k n
    = (if take 16 mac = aead_tag k n aad c then (0, stream_xor (chacha20_stream k n) c) else (1, m))"
  by (rule aead_decrypt_eq [OF assms])

theorem aead_decrypt_decides_witness:
  "Hacl_Chacha20Poly1305_aead_decrypt [9, 9] [5, 6] 2
     ((aead_tag (replicate 32 2) (replicate 12 3) [7] [5, 6])[3 := aead_tag (replicate 32 2) (replicate 12 3) [7] [5, 6] ! 3 + 1])
     [7] 1 (replicate 32 2) (replicate 12 3) = (1, [9, 9])"
proof -
  let ?t = "aead_tag (replicate 32 2) (replicate 12 3) [7] [5, 6]"
  have l: "length ?t = 16"
    by (simp add: aead_tag_def poly1305_tag_def Let_def)
  then have "?t[3 := ?t ! 3 + 1] ! 3 \<noteq> ?t ! 3"
    by simp
  then have "?t[3 := ?t ! 3 + 1] \<noteq> ?t"
    by metis
  then show ?thesis
    using l aead_decrypt_decides [of 2 "[5, 6]" "[9, 9]" 1 "[7]" "?t[3 := ?t ! 3 + 1]" "replicate 32 2" "replicate 12 3"]
    by simp
qed

text \<open>C2. Decrypting what was encrypted, with the same key, nonce and additional data, returns status 0 and the
  message.\<close>

theorem aead_roundtrip:
  assumes "unat mlen = length m" and "length c = length m" and "length m' = length m"
    and "unat aadlen = length aad" and "length mac = 16"
  shows "(case Hacl_Chacha20Poly1305_aead_encrypt c mac m mlen aad aadlen k n of
      (status, c', mac') \<Rightarrow> Hacl_Chacha20Poly1305_aead_decrypt m' c' mlen mac' aad aadlen k n) = (0, m)"
proof -
  have "length (aead_tag k n aad b) = 16" for b
    by (simp add: aead_tag_def poly1305_tag_def Let_def)
  then show ?thesis
    using assms by (simp add: aead_encrypt_eq aead_decrypt_eq stream_xor_involution)
qed

theorem aead_roundtrip_witness:
  "(case Hacl_Chacha20Poly1305_aead_encrypt [0, 0] (replicate 16 0) [5, 6] 2 [7] 1 (replicate 32 2) (replicate 12 3) of
      (status, c', mac') \<Rightarrow> Hacl_Chacha20Poly1305_aead_decrypt [8, 8] c' 2 mac' [7] 1 (replicate 32 2) (replicate 12 3))
   = (0, [5, 6])"
  using aead_roundtrip [of 2 "[5, 6]" "[0, 0]" "[8, 8]" 1 "[7]" "replicate 16 0" "replicate 32 2" "replicate 12 3"] by simp

end
