(* ===== verification/Hacl_Salsa20.thy ===== *)
theory Hacl_Salsa20
  imports Stream_Spec
begin

text \<open>
  The Salsa20 stream cipher and the HSalsa20 key derivation (\<^verbatim>\<open>Hacl_Salsa20.c\<close>): the state is a
  buffer of 16 words; the core writes the counter into words 8 and 9 of the state, runs ten double
  rounds on a copy and adds the state.  The specification follows the Salsa20 paper, with
  quarter rounds on tuples and row and column rounds on matrices.
\<close>

section \<open>The code\<close>

definition Hacl_Impl_Salsa20_setup :: "u32 list \<Rightarrow> bytes \<Rightarrow> bytes \<Rightarrow> u64 \<Rightarrow> u32 list" where
  "Hacl_Impl_Salsa20_setup st k n1 c =
     (let tmp = replicate 10 0;
          tmp = Hacl_Lib_LoadStore32_uint32s_from_le_bytes tmp k 8;
          tmp = at_off 8 (\<lambda>n'. Hacl_Lib_LoadStore32_uint32s_from_le_bytes n' n1 2) tmp;
          k' = tmp;
          n' = drop 8 tmp;
          c0 = (ucast c :: u32);
          c1 = (ucast (drop_bit 32 c) :: u32);
          k0 = k' ! 0; k1 = k' ! 1; k2 = k' ! 2; k3 = k' ! 3;
          k4 = k' ! 4; k5 = k' ! 5; k6 = k' ! 6; k7 = k' ! 7;
          n0 = n' ! 0; n11 = n' ! 1
      in Hacl_Lib_Create_make_h32_16 st 0x61707865 k0 k1 k2 k3 0x3320646e n0 n11 c0 c1
           0x79622d32 k4 k5 k6 k7 0x6b206574)"

definition Hacl_Impl_Salsa20_line :: "nat \<Rightarrow> nat \<Rightarrow> nat \<Rightarrow> nat \<Rightarrow> u32 list \<Rightarrow> u32 list" where
  "Hacl_Impl_Salsa20_line a b d s st =
     (let sa = st ! a; sb = st ! b; sd = st ! d;
          sbd = sb + sd;
          sbds = push_bit s sbd OR drop_bit (32 - s) sbd
      in st[a := sa XOR sbds])"

definition Hacl_Impl_Salsa20_quarter_round :: "nat \<Rightarrow> nat \<Rightarrow> nat \<Rightarrow> nat \<Rightarrow> u32 list \<Rightarrow> u32 list" where
  "Hacl_Impl_Salsa20_quarter_round a b c d st =
     (let st = Hacl_Impl_Salsa20_line b a d 7 st;
          st = Hacl_Impl_Salsa20_line c b a 9 st;
          st = Hacl_Impl_Salsa20_line d c b 13 st
      in Hacl_Impl_Salsa20_line a d c 18 st)"

definition Hacl_Impl_Salsa20_double_round :: "u32 list \<Rightarrow> u32 list" where
  "Hacl_Impl_Salsa20_double_round st =
     (let st = Hacl_Impl_Salsa20_quarter_round 0 4 8 12 st;
          st = Hacl_Impl_Salsa20_quarter_round 5 9 13 1 st;
          st = Hacl_Impl_Salsa20_quarter_round 10 14 2 6 st;
          st = Hacl_Impl_Salsa20_quarter_round 15 3 7 11 st;
          st = Hacl_Impl_Salsa20_quarter_round 0 1 2 3 st;
          st = Hacl_Impl_Salsa20_quarter_round 5 6 7 4 st;
          st = Hacl_Impl_Salsa20_quarter_round 10 11 8 9 st
      in Hacl_Impl_Salsa20_quarter_round 15 12 13 14 st)"

definition Hacl_Impl_Salsa20_rounds :: "u32 list \<Rightarrow> u32 list" where
  "Hacl_Impl_Salsa20_rounds st = for_range 0 10 (\<lambda>_ st. Hacl_Impl_Salsa20_double_round st) st"

definition Hacl_Impl_Salsa20_sum_states :: "u32 list \<Rightarrow> u32 list \<Rightarrow> u32 list" where
  "Hacl_Impl_Salsa20_sum_states st st' =
     for_range 0 16 (\<lambda>i st. let xi = st ! i; yi = st' ! i in st[i := xi + yi]) st"

definition Hacl_Impl_Salsa20_copy_state :: "u32 list \<Rightarrow> u32 list \<Rightarrow> u32 list" where
  "Hacl_Impl_Salsa20_copy_state st st' = blit st 0 (take 16 st')"

text \<open>The core returns the key stream words and the state with the new counter.\<close>

definition Hacl_Impl_Salsa20_salsa20_core ::
  "u32 list \<Rightarrow> u32 list \<Rightarrow> u64 \<Rightarrow> u32 list \<times> u32 list" where
  "Hacl_Impl_Salsa20_salsa20_core k st ctr =
     (let c0 = (ucast ctr :: u32);
          c1 = (ucast (drop_bit 32 ctr) :: u32);
          st = st[8 := c0];
          st = st[9 := c1];
          k = Hacl_Impl_Salsa20_copy_state k st;
          k = Hacl_Impl_Salsa20_rounds k
      in (Hacl_Impl_Salsa20_sum_states k st, st))"

definition Hacl_Impl_Salsa20_salsa20_block :: "bytes \<Rightarrow> u32 list \<Rightarrow> u64 \<Rightarrow> bytes \<times> u32 list" where
  "Hacl_Impl_Salsa20_salsa20_block stream_block st ctr =
     (let st' = replicate 16 0;
          (st', st) = Hacl_Impl_Salsa20_salsa20_core st' st ctr
      in (Hacl_Lib_LoadStore32_uint32s_to_le_bytes stream_block st' 16, st))"

definition Hacl_Impl_Salsa20_init :: "u32 list \<Rightarrow> bytes \<Rightarrow> bytes \<Rightarrow> u32 list" where
  "Hacl_Impl_Salsa20_init st k n1 = Hacl_Impl_Salsa20_setup st k n1 0"

definition Hacl_Impl_Salsa20_update_last ::
  "bytes \<Rightarrow> bytes \<Rightarrow> u32 \<Rightarrow> u32 list \<Rightarrow> u64 \<Rightarrow> bytes \<times> u32 list" where
  "Hacl_Impl_Salsa20_update_last output plain len st ctr =
     (let block = replicate 64 0;
          (block, st) = Hacl_Impl_Salsa20_salsa20_block block st ctr;
          mask = block
      in (for_range 0 (unat len) (\<lambda>i output.
            let xi = plain ! i; yi = mask ! i in output[i := xi XOR yi]) output, st))"

definition Hacl_Impl_Salsa20_update ::
  "bytes \<Rightarrow> bytes \<Rightarrow> u32 list \<Rightarrow> u64 \<Rightarrow> bytes \<times> u32 list" where
  "Hacl_Impl_Salsa20_update output plain st ctr =
     (let b = replicate 48 0;
          k = take 16 b;
          ib = take 16 (drop 16 b);
          ob = drop 32 b;
          (k, st) = Hacl_Impl_Salsa20_salsa20_core k st ctr;
          ib = Hacl_Lib_LoadStore32_uint32s_from_le_bytes ib plain 16;
          ob = for_range 0 16 (\<lambda>i ob. let xi = ib ! i; yi = k ! i in ob[i := xi XOR yi]) ob
      in (Hacl_Lib_LoadStore32_uint32s_to_le_bytes output ob 16, st))"

definition Hacl_Impl_Salsa20_salsa20_counter_mode_blocks ::
  "bytes \<Rightarrow> bytes \<Rightarrow> u32 \<Rightarrow> u32 list \<Rightarrow> u64 \<Rightarrow> bytes \<times> u32 list" where
  "Hacl_Impl_Salsa20_salsa20_counter_mode_blocks output plain len st ctr =
     for_range 0 (unat len) (\<lambda>i (output, st).
       let b = drop (off32 64 i) plain
       in at_off_with (off32 64 i) (\<lambda>o'. Hacl_Impl_Salsa20_update o' b st (ctr + word_of_nat i)) output)
       (output, st)"

definition Hacl_Impl_Salsa20_salsa20_counter_mode ::
  "bytes \<Rightarrow> bytes \<Rightarrow> u32 \<Rightarrow> u32 list \<Rightarrow> u64 \<Rightarrow> bytes \<times> u32 list" where
  "Hacl_Impl_Salsa20_salsa20_counter_mode output plain len st ctr =
     (let blocks_len = drop_bit 6 len;
          part_len = len AND 0x3f;
          off = off32 64 (unat blocks_len);
          (output, st) = Hacl_Impl_Salsa20_salsa20_counter_mode_blocks output plain blocks_len st ctr
      in if part_len > 0
         then at_off_with off (\<lambda>output''.
                Hacl_Impl_Salsa20_update_last output'' (drop off plain) part_len st (ctr + ucast blocks_len)) output
         else (output, st))"

definition Hacl_Impl_Salsa20_salsa20 ::
  "bytes \<Rightarrow> bytes \<Rightarrow> u32 \<Rightarrow> bytes \<Rightarrow> bytes \<Rightarrow> u64 \<Rightarrow> bytes" where
  "Hacl_Impl_Salsa20_salsa20 output plain len k n1 ctr =
     (let buf = replicate 16 0;
          st = Hacl_Impl_Salsa20_init buf k n1
      in fst (Hacl_Impl_Salsa20_salsa20_counter_mode output plain len st ctr))"

definition Hacl_Impl_HSalsa20_setup :: "u32 list \<Rightarrow> bytes \<Rightarrow> bytes \<Rightarrow> u32 list" where
  "Hacl_Impl_HSalsa20_setup st k n1 =
     (let tmp = replicate 12 0;
          tmp = Hacl_Lib_LoadStore32_uint32s_from_le_bytes tmp k 8;
          tmp = at_off 8 (\<lambda>n'. Hacl_Lib_LoadStore32_uint32s_from_le_bytes n' n1 4) tmp;
          k' = tmp;
          n' = drop 8 tmp;
          k0 = k' ! 0; k1 = k' ! 1; k2 = k' ! 2; k3 = k' ! 3;
          k4 = k' ! 4; k5 = k' ! 5; k6 = k' ! 6; k7 = k' ! 7;
          n0 = n' ! 0; n11 = n' ! 1; n2 = n' ! 2; n3 = n' ! 3
      in Hacl_Lib_Create_make_h32_16 st 0x61707865 k0 k1 k2 k3 0x3320646e n0 n11 n2 n3
           0x79622d32 k4 k5 k6 k7 0x6b206574)"

definition Hacl_Impl_HSalsa20_crypto_core_hsalsa20 :: "bytes \<Rightarrow> bytes \<Rightarrow> bytes \<Rightarrow> bytes" where
  "Hacl_Impl_HSalsa20_crypto_core_hsalsa20 output nonce key =
     (let tmp = replicate 24 0;
          st = take 16 tmp;
          hs = drop 16 tmp;
          st = Hacl_Impl_HSalsa20_setup st key nonce;
          st = Hacl_Impl_Salsa20_rounds st;
          hs0 = st ! 0; hs1 = st ! 5; hs2 = st ! 10; hs3 = st ! 15;
          hs4 = st ! 6; hs5 = st ! 7; hs6 = st ! 8; hs7 = st ! 9;
          hs = Hacl_Lib_Create_make_h32_8 hs hs0 hs1 hs2 hs3 hs4 hs5 hs6 hs7
      in Hacl_Lib_LoadStore32_uint32s_to_le_bytes output hs 8)"

definition Hacl_Salsa20_salsa20 :: "bytes \<Rightarrow> bytes \<Rightarrow> u32 \<Rightarrow> bytes \<Rightarrow> bytes \<Rightarrow> u64 \<Rightarrow> bytes" where
  "Hacl_Salsa20_salsa20 output plain len k n1 ctr = Hacl_Impl_Salsa20_salsa20 output plain len k n1 ctr"

definition Hacl_Salsa20_hsalsa20 :: "bytes \<Rightarrow> bytes \<Rightarrow> bytes \<Rightarrow> bytes" where
  "Hacl_Salsa20_hsalsa20 output key nonce = Hacl_Impl_HSalsa20_crypto_core_hsalsa20 output nonce key"

section \<open>Specification\<close>

type_synonym quad = "u32 \<times> u32 \<times> u32 \<times> u32"

fun quarterround :: "quad \<Rightarrow> quad" where
  "quarterround (y0, y1, y2, y3) =
     (let z1 = y1 XOR word_rotl 7 (y0 + y3);
          z2 = y2 XOR word_rotl 9 (z1 + y0);
          z3 = y3 XOR word_rotl 13 (z2 + z1);
          z0 = y0 XOR word_rotl 18 (z3 + z2)
      in (z0, z1, z2, z3))"

text \<open>A matrix is the list of its four rows.\<close>

fun rowround :: "u32 list \<Rightarrow> u32 list" where
  "rowround [y0, y1, y2, y3, y4, y5, y6, y7, y8, y9, y10, y11, y12, y13, y14, y15] =
     (let (z0, z1, z2, z3) = quarterround (y0, y1, y2, y3);
          (z5, z6, z7, z4) = quarterround (y5, y6, y7, y4);
          (z10, z11, z8, z9) = quarterround (y10, y11, y8, y9);
          (z15, z12, z13, z14) = quarterround (y15, y12, y13, y14)
      in [z0, z1, z2, z3, z4, z5, z6, z7, z8, z9, z10, z11, z12, z13, z14, z15])"
| "rowround y = y"

fun transpose16 :: "'a list \<Rightarrow> 'a list" where
  "transpose16 [y0, y1, y2, y3, y4, y5, y6, y7, y8, y9, y10, y11, y12, y13, y14, y15] =
     [y0, y4, y8, y12, y1, y5, y9, y13, y2, y6, y10, y14, y3, y7, y11, y15]"
| "transpose16 y = y"

definition columnround :: "u32 list \<Rightarrow> u32 list" where
  "columnround y = transpose16 (rowround (transpose16 y))"

definition doubleround :: "u32 list \<Rightarrow> u32 list" where
  "doubleround y = rowround (columnround y)"

definition salsa20_hash :: "u32 list \<Rightarrow> u32 list" where
  "salsa20_hash x = map2 (+) ((doubleround ^^ 10) x) x"

definition salsa20_matrix :: "bytes \<Rightarrow> u32 list \<Rightarrow> u32 list" where
  "salsa20_matrix k n =
     (let k = words_le 8 k
      in [0x61707865] @ take 4 k @ [0x3320646e] @ n @ [0x79622d32] @ drop 4 k @ [0x6b206574])"

definition salsa20_keystream :: "bytes \<Rightarrow> bytes \<Rightarrow> u64 \<Rightarrow> bytes" where
  "salsa20_keystream k n ctr =
     bytes_le (salsa20_hash (salsa20_matrix k (words_le 2 n @ [ucast ctr, ucast (drop_bit 32 ctr)])))"

definition hsalsa20_key :: "bytes \<Rightarrow> bytes \<Rightarrow> bytes" where
  "hsalsa20_key k n =
     (let z = (doubleround ^^ 10) (salsa20_matrix k (words_le 4 n))
      in bytes_le (map (\<lambda>i. z ! i) [0, 5, 10, 15, 6, 7, 8, 9]))"

section \<open>Rounds\<close>

declare quarterround.simps [simp del]

lemma line_rotl:
  assumes "0 < s" and "s < 32"
  shows "Hacl_Impl_Salsa20_line a b d s st = st[a := st ! a XOR word_rotl s (st ! b + st ! d)]"
  using rotate32_left_rotl [OF assms, of "st ! b + st ! d"]
  by (simp add: Hacl_Impl_Salsa20_line_def rotate32_left_def Let_def)

lemma salsa_quarter_round_eq:
  assumes "distinct [a, b, c, d]" and "a < length st" "b < length st" "c < length st" "d < length st"
    and "quarterround (st ! a, st ! b, st ! c, st ! d) = (za, zb, zc, zd)"
  shows "Hacl_Impl_Salsa20_quarter_round a b c d st = st[a := za, b := zb, c := zc, d := zd]"
  using assms
  by (auto simp: Hacl_Impl_Salsa20_quarter_round_def line_rotl quarterround.simps Let_def
      nth_list_update list_update_swap [of a b] list_update_swap [of a c] list_update_swap [of a d])

lemma quarter_round_case:
  assumes "distinct [a, b, c, d]" and "a < length st" "b < length st" "c < length st" "d < length st"
  shows "Hacl_Impl_Salsa20_quarter_round a b c d st =
    (case quarterround (st ! a, st ! b, st ! c, st ! d) of (za, zb, zc, zd) \<Rightarrow>
      st[a := za, b := zb, c := zc, d := zd])"
  using salsa_quarter_round_eq [OF assms] by (auto split: prod.splits)

lemma salsa_double_round_eq:
  assumes "length st = 16"
  shows "Hacl_Impl_Salsa20_double_round st = doubleround st"
proof -
  obtain x0 x1 x2 x3 x4 x5 x6 x7 x8 x9 x10 x11 x12 x13 x14 x15
    where st: "st = [x0, x1, x2, x3, x4, x5, x6, x7, x8, x9, x10, x11, x12, x13, x14, x15]"
    by (rule length_16_cases [OF assms])
  obtain a0 a4 a8 a12 where a: "quarterround (x0, x4, x8, x12) = (a0, a4, a8, a12)" by (metis prod_cases4)
  obtain a5 a9 a13 a1 where b: "quarterround (x5, x9, x13, x1) = (a5, a9, a13, a1)" by (metis prod_cases4)
  obtain a10 a14 a2 a6 where c: "quarterround (x10, x14, x2, x6) = (a10, a14, a2, a6)" by (metis prod_cases4)
  obtain a15 a3 a7 a11 where d: "quarterround (x15, x3, x7, x11) = (a15, a3, a7, a11)" by (metis prod_cases4)
  obtain b0 b1 b2 b3 where e: "quarterround (a0, a1, a2, a3) = (b0, b1, b2, b3)" by (metis prod_cases4)
  obtain b5 b6 b7 b4 where f: "quarterround (a5, a6, a7, a4) = (b5, b6, b7, b4)" by (metis prod_cases4)
  obtain b10 b11 b8 b9 where g: "quarterround (a10, a11, a8, a9) = (b10, b11, b8, b9)" by (metis prod_cases4)
  obtain b15 b12 b13 b14 where h: "quarterround (a15, a12, a13, a14) = (b15, b12, b13, b14)" by (metis prod_cases4)
  have "doubleround st = [b0, b1, b2, b3, b4, b5, b6, b7, b8, b9, b10, b11, b12, b13, b14, b15]"
    by (simp add: doubleround_def columnround_def st a b c d e f g h)
  moreover have "Hacl_Impl_Salsa20_double_round st
      = [b0, b1, b2, b3, b4, b5, b6, b7, b8, b9, b10, b11, b12, b13, b14, b15]"
    unfolding Hacl_Impl_Salsa20_double_round_def st Let_def
    by (simp add: quarter_round_case a b c d e f g h)
  ultimately show ?thesis by simp
qed

lemma length_rowround: "length st = 16 \<Longrightarrow> length (rowround st) = 16"
  by (erule length_16_cases) (simp split: prod.splits)

lemma length_transpose16: "length st = 16 \<Longrightarrow> length (transpose16 st) = 16"
  by (erule length_16_cases) simp

lemma length_doubleround: "length st = 16 \<Longrightarrow> length (doubleround st) = 16"
  by (simp add: doubleround_def columnround_def length_rowround length_transpose16)

lemma salsa_rounds_eq:
  assumes "length st = 16"
  shows "Hacl_Impl_Salsa20_rounds st = (doubleround ^^ 10) st"
proof -
  have "(Hacl_Impl_Salsa20_double_round ^^ n) st = (doubleround ^^ n) st
      \<and> length ((doubleround ^^ n) st) = 16" for n
    using assms by (induction n) (simp_all add: salsa_double_round_eq length_doubleround)
  then show ?thesis
    by (simp add: Hacl_Impl_Salsa20_rounds_def for_range_funpow)
qed

lemma salsa_length_rounds: "length st = 16 \<Longrightarrow> length ((doubleround ^^ n) st) = 16"
  by (rule funpow_length [OF length_doubleround])

lemma length_salsa20_hash [simp]: "length st = 16 \<Longrightarrow> length (salsa20_hash st) = 16"
  by (simp add: salsa20_hash_def salsa_length_rounds)

text \<open>The state with a counter.\<close>

definition with_ctr :: "u32 list \<Rightarrow> u64 \<Rightarrow> u32 list" where
  "with_ctr st c = st[8 := ucast c, 9 := ucast (drop_bit 32 c)]"

lemma with_ctr_simps [simp]: "length (with_ctr st c) = length st" "with_ctr (with_ctr st c) d = with_ctr st d"
  by (simp_all add: with_ctr_def list_update_swap [of 8 9])

lemma salsa_core_eq:
  assumes "length st = 16" and "length k = 16"
  shows "Hacl_Impl_Salsa20_salsa20_core k st ctr = (salsa20_hash (with_ctr st ctr), with_ctr st ctr)"
proof -
  have "Hacl_Impl_Salsa20_copy_state k (with_ctr st ctr) = with_ctr st ctr"
    using assms by (simp add: Hacl_Impl_Salsa20_copy_state_def blit_def)
  moreover have "Hacl_Impl_Salsa20_sum_states a (with_ctr st ctr) = map2 (+) a (with_ctr st ctr)"
    if "length a = 16" for a
    using for_range_map2_in_place [of 16 a "with_ctr st ctr" "(+)"] that assms(1)
    by (simp add: Hacl_Impl_Salsa20_sum_states_def Let_def)
  ultimately show ?thesis
    using assms by (simp add: Hacl_Impl_Salsa20_salsa20_core_def Let_def salsa_rounds_eq salsa_length_rounds salsa20_hash_def
        flip: with_ctr_def)
qed

definition state_keystream :: "u32 list \<Rightarrow> u64 \<Rightarrow> bytes" where
  "state_keystream st c = bytes_le (salsa20_hash (with_ctr st c))"

lemma salsa_length_state_keystream: "length st = 16 \<Longrightarrow> length (state_keystream st c) = 64"
  by (simp add: state_keystream_def)

lemma salsa_block_eq:
  assumes "length st = 16" and "64 \<le> length b"
  shows "Hacl_Impl_Salsa20_salsa20_block b st ctr = (state_keystream st ctr @ drop 64 b, with_ctr st ctr)"
  using assms by (simp add: Hacl_Impl_Salsa20_salsa20_block_def salsa_core_eq uint32s_to_le_bytes_eq state_keystream_def)

lemma salsa_update_eq:
  assumes "length st = 16" and "64 \<le> length plain" and "64 \<le> length output"
  shows "fst (Hacl_Impl_Salsa20_update output plain st c)
    = map2 (XOR) (take 64 plain) (state_keystream st c) @ drop 64 output"
proof -
  let ?w = "words_le 16 plain" and ?k = "salsa20_hash (with_ctr st c)"
  have "for_range 0 16 (\<lambda>i ob. let xi = ?w ! i; yi = ?k ! i in ob[i := xi XOR yi]) (replicate 16 0)
      = map2 (XOR) ?w ?k"
    using for_range_map2 [of 16 ?w ?k "replicate 16 0" "(XOR)"] assms(1) by (simp add: Let_def)
  moreover have "bytes_le (map2 (XOR) ?w ?k) = map2 (XOR) (take 64 plain) (bytes_le ?k)"
    using assms(1,2) by (simp add: bytes_le_xor bytes_le_words_le)
  ultimately show ?thesis
    using assms by (simp add: Hacl_Impl_Salsa20_update_def salsa_core_eq uint32s_from_le_bytes_eq
        uint32s_to_le_bytes_eq state_keystream_def Let_def)
qed

lemma salsa_snd_update: "length st = 16 \<Longrightarrow> snd (Hacl_Impl_Salsa20_update output plain st c) = with_ctr st c"
  by (simp add: Hacl_Impl_Salsa20_update_def salsa_core_eq Let_def)

lemma salsa_update_last_eq:
  assumes "length st = 16" and "unat n < 64" and "unat n \<le> length plain" and "unat n \<le> length output"
  shows "fst (Hacl_Impl_Salsa20_update_last output plain n st c)
    = map2 (XOR) (take (unat n) plain) (take (unat n) (state_keystream st c)) @ drop (unat n) output"
  using for_range_map2 [of "unat n" plain "state_keystream st c" "output" "(XOR)"] assms
  by (simp add: Hacl_Impl_Salsa20_update_last_def salsa_block_eq salsa_length_state_keystream Let_def)

interpretation salsa: counter_mode "\<lambda>st. length st = 16" state_keystream
  Hacl_Impl_Salsa20_update Hacl_Impl_Salsa20_update_last
  by unfold_locales
    (simp_all add: salsa_length_state_keystream salsa_update_eq salsa_snd_update salsa_update_last_eq state_keystream_def fun_eq_iff)

lemma salsa_counter_mode_blocks_eq:
  "Hacl_Impl_Salsa20_salsa20_counter_mode_blocks output plain n st c = salsa.blocks output plain (unat n) st c"
  by (simp add: Hacl_Impl_Salsa20_salsa20_counter_mode_blocks_def salsa.blocks_def Let_def)

lemma salsa_counter_mode_eq:
  "fst (Hacl_Impl_Salsa20_salsa20_counter_mode output plain len st c) = salsa.message output plain len st c"
proof -
  have "(ucast (drop_bit 6 len) :: u64) = word_of_nat (unat (drop_bit 6 len))"
    by (rule word_unat_eqI) (simp add: unat_ucast_up unat_of_nat)
  then show ?thesis
    by (simp add: Hacl_Impl_Salsa20_salsa20_counter_mode_def salsa.message_def salsa_counter_mode_blocks_eq
        split_beta Let_def)
qed

section \<open>Key setup\<close>

lemma words_le_2: "words_le 2 b = [load32_le b, load32_le (drop 4 b)]"
  by (simp add: numeral_2_eq_2 words_le_Suc)

lemma words_le_4: "words_le 4 b = [load32_le b, load32_le (drop 4 b), load32_le (drop 8 b), load32_le (drop 12 b)]"
  by (simp add: words_le_def upt_rec)

lemma setup_eq:
  "Hacl_Impl_Salsa20_setup (replicate 16 0) k n c
    = salsa20_matrix k (words_le 2 n @ [ucast c, ucast (drop_bit 32 c)])"
proof -
  obtain k0 k1 k2 k3 k4 k5 k6 k7 where "words_le 8 k = [k0, k1, k2, k3, k4, k5, k6, k7]"
    by (rule length_8_exact [of "words_le 8 k"]) simp
  then show ?thesis
    by (simp add: Hacl_Impl_Salsa20_setup_def uint32s_from_le_bytes_eq at_off_def Let_def salsa20_matrix_def words_le_2)
qed

lemma hsetup_eq: "Hacl_Impl_HSalsa20_setup (replicate 16 0) k n = salsa20_matrix k (words_le 4 n)"
proof -
  obtain k0 k1 k2 k3 k4 k5 k6 k7 where "words_le 8 k = [k0, k1, k2, k3, k4, k5, k6, k7]"
    by (rule length_8_exact [of "words_le 8 k"]) simp
  then show ?thesis
    by (simp add: Hacl_Impl_HSalsa20_setup_def uint32s_from_le_bytes_eq at_off_def Let_def salsa20_matrix_def words_le_4)
qed

lemma length_salsa20_matrix [simp]: "length (salsa20_matrix k n) = 12 + length n"
  by (simp add: salsa20_matrix_def Let_def)


lemma salsa_state_keystream_init:
  "state_keystream (Hacl_Impl_Salsa20_init (replicate 16 0) k n) c = salsa20_keystream k n c"
proof -
  obtain k0 k1 k2 k3 k4 k5 k6 k7 where "words_le 8 k = [k0, k1, k2, k3, k4, k5, k6, k7]"
    by (rule length_8_exact [of "words_le 8 k"]) simp
  then show ?thesis
    by (simp add: state_keystream_def Hacl_Impl_Salsa20_init_def setup_eq with_ctr_def salsa20_matrix_def
        salsa20_keystream_def words_le_2)
qed

lemma salsa20_eq:
  assumes "unat len \<le> length plain" and "unat len \<le> length out"
  shows "Hacl_Salsa20_salsa20 out plain len k n ctr
    = stream_xor (\<lambda>i. salsa20_keystream k n (ctr + word_of_nat i)) (take (unat len) plain) @ drop (unat len) out"
proof -
  have "length (Hacl_Impl_Salsa20_init (replicate 16 0) k n) = 16"
    by (simp add: Hacl_Impl_Salsa20_init_def setup_eq)
  from salsa.message_correct [OF this assms, of ctr] show ?thesis
    by (simp add: Hacl_Salsa20_salsa20_def Hacl_Impl_Salsa20_salsa20_def salsa_counter_mode_eq salsa_state_keystream_init Let_def)
qed

lemma hsalsa20_eq:
  assumes "32 \<le> length out"
  shows "Hacl_Salsa20_hsalsa20 out key nonce = hsalsa20_key key nonce @ drop 32 out"
proof -
  have "length (salsa20_matrix key (words_le 4 nonce)) = 16" by simp
  with assms show ?thesis
    by (simp add: Hacl_Salsa20_hsalsa20_def Hacl_Impl_HSalsa20_crypto_core_hsalsa20_def hsetup_eq salsa_rounds_eq
        uint32s_to_le_bytes_eq hsalsa20_key_def Let_def)
qed

section \<open>Properties\<close>

text \<open>C30. Salsa20 encryption is the specified stream cipher: the first \<open>len\<close> bytes of the output are the
  plain text combined with the key stream of the Salsa20 paper, block \<open>i\<close> of which is the hash of the
  matrix of constants, key, nonce and the 64-bit counter \<open>ctr + i\<close>; the rest of the output is left alone.\<close>

theorem salsa20_correct:
  assumes "unat len \<le> length plain" and "unat len \<le> length out"
  shows "Hacl_Salsa20_salsa20 out plain len k n ctr
    = stream_xor (\<lambda>i. salsa20_keystream k n (ctr + word_of_nat i)) (take (unat len) plain) @ drop (unat len) out"
  by (rule salsa20_eq [OF assms])

theorem salsa20_correct_witness:
  "Hacl_Salsa20_salsa20 (replicate 71 0) (replicate 70 1) 70 (replicate 32 2) (replicate 8 3) 5
    = stream_xor (\<lambda>i. salsa20_keystream (replicate 32 2) (replicate 8 3) (5 + word_of_nat i)) (replicate 70 1) @ [0]"
  using salsa20_correct [of 70 "replicate 70 1" "replicate 71 0" "replicate 32 2" "replicate 8 3" 5] by simp

text \<open>Salsa20 decryption: running the cipher again with the same key, nonce and counter on what it
  wrote returns the plain text.\<close>

theorem salsa20_decrypts:
  assumes "unat len = length plain" and "length out = length plain" and "length out' = length plain"
  shows "Hacl_Salsa20_salsa20 out' (Hacl_Salsa20_salsa20 out plain len k n ctr) len k n ctr = plain"
proof -
  have "Hacl_Salsa20_salsa20 out plain len k n ctr
      = stream_xor (\<lambda>i. salsa20_keystream k n (ctr + word_of_nat i)) plain" (is "?e = ?x")
    using salsa20_eq [of len plain out k n ctr] assms by simp
  moreover have "Hacl_Salsa20_salsa20 out' ?x len k n ctr
      = stream_xor (\<lambda>i. salsa20_keystream k n (ctr + word_of_nat i)) ?x"
    using salsa20_eq [of len ?x out' k n ctr] assms by simp
  ultimately show ?thesis by (simp add: stream_xor_involution)
qed

theorem salsa20_decrypts_witness:
  "Hacl_Salsa20_salsa20 [0, 0, 0] (Hacl_Salsa20_salsa20 [9, 9, 9] [1, 2, 3] 3 (replicate 32 2) (replicate 8 3) 5)
     3 (replicate 32 2) (replicate 8 3) 5 = [1, 2, 3]"
  using salsa20_decrypts [of 3 "[1, 2, 3]" "[9, 9, 9]" "[0, 0, 0]" "replicate 32 2" "replicate 8 3" 5] by simp

text \<open>HSalsa20 derives the key of the specification: ten double rounds on the matrix of the key and a
  16-byte nonce, without the final addition, of which the diagonal and the nonce positions are the 32 bytes
  written.\<close>

theorem hsalsa20_correct:
  assumes "32 \<le> length out"
  shows "Hacl_Salsa20_hsalsa20 out key nonce = hsalsa20_key key nonce @ drop 32 out"
  by (rule hsalsa20_eq [OF assms])

theorem hsalsa20_correct_witness:
  "Hacl_Salsa20_hsalsa20 (replicate 33 7) (replicate 32 1) (replicate 16 2)
    = hsalsa20_key (replicate 32 1) (replicate 16 2) @ [7]"
  using hsalsa20_correct [of "replicate 33 7" "replicate 32 1" "replicate 16 2"] by simp

end
