(* ===== verification/NaCl_SecretBox.thy ===== *)
theory NaCl_SecretBox
  imports Hacl_Salsa20 Hacl_Poly1305_64 Hacl_Policies
begin

text \<open>
  NaCl secret-key boxes (\<^verbatim>\<open>NaCl.c\<close>): XSalsa20 encryption with a Poly1305 tag.  Buffers are padded:
  the message and the cipher text have 32 bytes in front, and \<open>mlen\<close> counts the bytes after them.
  A function that writes buffers returns its status word and the new contents.
\<close>

section \<open>The code\<close>

definition Hacl_SecretBox_ZeroPad_set_zero_bytes :: "bytes \<Rightarrow> bytes" where
  "Hacl_SecretBox_ZeroPad_set_zero_bytes b =
     (let zero1 = 0
      in b[0 := zero1, 1 := zero1, 2 := zero1, 3 := zero1, 4 := zero1, 5 := zero1, 6 := zero1, 7 := zero1,
           8 := zero1, 9 := zero1, 10 := zero1, 11 := zero1, 12 := zero1, 13 := zero1, 14 := zero1, 15 := zero1,
           16 := zero1, 17 := zero1, 18 := zero1, 19 := zero1, 20 := zero1, 21 := zero1, 22 := zero1, 23 := zero1,
           24 := zero1, 25 := zero1, 26 := zero1, 27 := zero1, 28 := zero1, 29 := zero1, 30 := zero1, 31 := zero1])"

definition Hacl_SecretBox_ZeroPad_crypto_secretbox_detached ::
  "bytes \<Rightarrow> bytes \<Rightarrow> bytes \<Rightarrow> u64 \<Rightarrow> bytes \<Rightarrow> bytes \<Rightarrow> u32 \<times> bytes \<times> bytes" where
  "Hacl_SecretBox_ZeroPad_crypto_secretbox_detached c mac m mlen n1 k1 =
     (let mlen' = (ucast mlen :: u32);
          subkey = replicate 32 0;
          subkey = Hacl_Salsa20_hsalsa20 subkey k1 n1;
          c = Hacl_Salsa20_salsa20 c m (mlen' + 32) subkey (drop 16 n1) 0;
          mac = Hacl_Poly1305_64_crypto_onetimeauth mac (drop 32 c) mlen c;
          c = Hacl_SecretBox_ZeroPad_set_zero_bytes c;
          subkey = Hacl_SecretBox_ZeroPad_set_zero_bytes subkey
      in (0, c, mac))"

definition Hacl_SecretBox_ZeroPad_crypto_secretbox_open_detached_decrypt ::
  "bytes \<Rightarrow> bytes \<Rightarrow> u64 \<Rightarrow> bytes \<Rightarrow> bytes \<Rightarrow> u8 \<Rightarrow> u32 \<times> bytes \<times> bytes" where
  "Hacl_SecretBox_ZeroPad_crypto_secretbox_open_detached_decrypt m c clen n1 subkey verify =
     (let clen' = (ucast clen :: u32)
      in if verify = 0 then
           let m = Hacl_Salsa20_salsa20 m c (clen' + 32) subkey (drop 16 n1) 0;
               subkey = Hacl_SecretBox_ZeroPad_set_zero_bytes subkey;
               m = Hacl_SecretBox_ZeroPad_set_zero_bytes m
           in (0, m, subkey)
         else (0xffffffff, m, subkey))"

definition Hacl_SecretBox_ZeroPad_crypto_secretbox_open_detached ::
  "bytes \<Rightarrow> bytes \<Rightarrow> bytes \<Rightarrow> u64 \<Rightarrow> bytes \<Rightarrow> bytes \<Rightarrow> u32 \<times> bytes" where
  "Hacl_SecretBox_ZeroPad_crypto_secretbox_open_detached m c mac clen n1 k1 =
     (let tmp = replicate 112 0;
          subkey = take 32 tmp;
          mackey = take 32 (drop 32 tmp);
          mackey' = take 32 (drop 64 tmp);
          cmac = drop 96 tmp;
          subkey = Hacl_Salsa20_hsalsa20 subkey k1 n1;
          mackey = Hacl_Salsa20_salsa20 mackey mackey' 32 subkey (drop 16 n1) 0;
          cmac = Hacl_Poly1305_64_crypto_onetimeauth cmac (drop 32 c) clen mackey;
          result = Hacl_Policies_cmp_bytes mac cmac 16;
          verify = result;
          (z, m, subkey) =
            Hacl_SecretBox_ZeroPad_crypto_secretbox_open_detached_decrypt m c clen n1 subkey verify
      in (z, m))"

definition Hacl_SecretBox_ZeroPad_crypto_secretbox_easy ::
  "bytes \<Rightarrow> bytes \<Rightarrow> u64 \<Rightarrow> bytes \<Rightarrow> bytes \<Rightarrow> u32 \<times> bytes" where
  "Hacl_SecretBox_ZeroPad_crypto_secretbox_easy c m mlen n1 k1 =
     (let cmac = replicate 16 0;
          (res, c, cmac) = Hacl_SecretBox_ZeroPad_crypto_secretbox_detached c cmac m mlen n1 k1
      in (res, blit c 16 (take 16 cmac)))"

definition Hacl_SecretBox_ZeroPad_crypto_secretbox_open_easy ::
  "bytes \<Rightarrow> bytes \<Rightarrow> u64 \<Rightarrow> bytes \<Rightarrow> bytes \<Rightarrow> u32 \<times> bytes" where
  "Hacl_SecretBox_ZeroPad_crypto_secretbox_open_easy m c clen n1 k1 =
     (let mac = c
      in Hacl_SecretBox_ZeroPad_crypto_secretbox_open_detached m c mac clen n1 k1)"

definition NaCl_crypto_secretbox_detached ::
  "bytes \<Rightarrow> bytes \<Rightarrow> bytes \<Rightarrow> u64 \<Rightarrow> bytes \<Rightarrow> bytes \<Rightarrow> u32 \<times> bytes \<times> bytes" where
  "NaCl_crypto_secretbox_detached c mac m mlen n1 k1 =
     Hacl_SecretBox_ZeroPad_crypto_secretbox_detached c mac m mlen n1 k1"

definition NaCl_crypto_secretbox_open_detached ::
  "bytes \<Rightarrow> bytes \<Rightarrow> bytes \<Rightarrow> u64 \<Rightarrow> bytes \<Rightarrow> bytes \<Rightarrow> u32 \<times> bytes" where
  "NaCl_crypto_secretbox_open_detached m c mac clen n1 k1 =
     Hacl_SecretBox_ZeroPad_crypto_secretbox_open_detached m c mac clen n1 k1"

definition NaCl_crypto_secretbox_easy :: "bytes \<Rightarrow> bytes \<Rightarrow> u64 \<Rightarrow> bytes \<Rightarrow> bytes \<Rightarrow> u32 \<times> bytes" where
  "NaCl_crypto_secretbox_easy c m mlen n1 k1 = Hacl_SecretBox_ZeroPad_crypto_secretbox_easy c m mlen n1 k1"

definition NaCl_crypto_secretbox_open_easy :: "bytes \<Rightarrow> bytes \<Rightarrow> u64 \<Rightarrow> bytes \<Rightarrow> bytes \<Rightarrow> u32 \<times> bytes" where
  "NaCl_crypto_secretbox_open_easy m c clen n1 k1 =
     Hacl_SecretBox_ZeroPad_crypto_secretbox_open_easy m c clen n1 k1"

section \<open>Specification\<close>

text \<open>The key stream of a box, and the tag of the cipher text body under its first 32 bytes.\<close>

definition xsalsa20 :: "bytes \<Rightarrow> bytes \<Rightarrow> nat \<Rightarrow> bytes" where
  "xsalsa20 k n i = salsa20_keystream (hsalsa20_key k n) (drop 16 n) (word_of_nat i)"

definition box_body :: "bytes \<Rightarrow> bytes \<Rightarrow> bytes \<Rightarrow> bytes" where
  "box_body k n m = drop 32 (stream_xor (xsalsa20 k n) m)"

definition box_tag :: "bytes \<Rightarrow> bytes \<Rightarrow> bytes \<Rightarrow> bytes" where
  "box_tag k n body = poly1305_tag (take 32 (xsalsa20 k n 0)) body"

section \<open>Lemmas\<close>

lemma set_zero_bytes_eq:
  assumes "32 \<le> length b"
  shows "Hacl_SecretBox_ZeroPad_set_zero_bytes b = replicate 32 0 @ drop 32 b"
proof -
  have upt32: "[0..<32] = [0, 1, 2, 3, 4, 5, 6, 7, 8, 9, 10, 11, 12, 13, 14, 15, 16, 17, 18, 19, 20,
      21, 22, 23, 24, 25, 26, 27, 28, 29, 30, 31 :: nat]"
    by code_simp
  have "Hacl_SecretBox_ZeroPad_set_zero_bytes b = for_range 0 32 (\<lambda>i b. b[i := 0]) b"
    by (simp add: Hacl_SecretBox_ZeroPad_set_zero_bytes_def for_range_def upt32)
  then show ?thesis
    using assms for_range_store [of 32 b "\<lambda>_. 0"] by (simp add: map_replicate_const)
qed

lemma length_salsa20_keystream [simp]: "length (salsa20_keystream k n c) = 64"
  by (simp add: salsa20_keystream_def)

lemma length_hsalsa20_key [simp]: "length (hsalsa20_key k n) = 32"
  by (simp add: hsalsa20_key_def Let_def)

lemma length_xsalsa20 [simp]: "length (xsalsa20 k n i) = 64"
  by (simp add: xsalsa20_def)

lemma length_poly1305_tag [simp]: "length (poly1305_tag k m) = 16"
  by (simp add: poly1305_tag_def Let_def)

lemma salsa20_xsalsa20:
  assumes "unat len \<le> length m" and "unat len \<le> length out"
  shows "Hacl_Salsa20_salsa20 out m len (Hacl_Salsa20_hsalsa20 (replicate 32 0) k n) (drop 16 n) 0
    = stream_xor (xsalsa20 k n) (take (unat len) m) @ drop (unat len) out"
proof -
  have "Hacl_Salsa20_hsalsa20 (replicate 32 0) k n = hsalsa20_key k n"
    using hsalsa20_eq [of "replicate 32 0"] by simp
  then show ?thesis
    using salsa20_eq [OF assms] by (simp add: xsalsa20_def [abs_def])
qed


lemma secretbox_detached_eq:
  assumes "length m = 32 + unat mlen" and "length c = length m" and "unat mlen + 32 < 2 ^ 32"
    and "take 32 m = replicate 32 0" and "16 \<le> length mac"
  shows "Hacl_SecretBox_ZeroPad_crypto_secretbox_detached c mac m mlen n k
    = (0, replicate 32 0 @ box_body k n m, box_tag k n (box_body k n m) @ drop 16 mac)"
proof -
  have len: "unat (ucast mlen + 32 :: u32) = length m"
    using assms(1,3) by (simp add: unat_add_small unat_ucast_down)
  let ?x = "stream_xor (xsalsa20 k n) m"
  have s: "Hacl_Salsa20_salsa20 c m (ucast mlen + 32) (Hacl_Salsa20_hsalsa20 (replicate 32 0) k n) (drop 16 n) 0 = ?x"
    using salsa20_xsalsa20 [of "ucast mlen + 32" m c k n] assms(2) by (simp add: len)
  have "take 32 ?x = stream_xor (xsalsa20 k n) (take 32 m)"
    by (rule take_stream_xor)
  also have "\<dots> = take 32 (xsalsa20 k n 0)"
    unfolding assms(4) by (intro nth_equalityI) (simp_all add: stream_xor_def)
  finally have key: "take 32 ?x = take 32 (xsalsa20 k n 0)" .
  have "Hacl_Poly1305_64_crypto_onetimeauth mac (drop 32 ?x) mlen ?x = poly1305_tag ?x (drop 32 ?x) @ drop 16 mac"
    using crypto_onetimeauth_eq [of mlen "drop 32 ?x" ?x mac] assms by simp
  moreover have "poly1305_tag ?x b = box_tag k n b" for b
    using arg_cong [OF key, of "take 16"] arg_cong [OF key, of "drop 16"]
    by (simp add: box_tag_def poly1305_tag_def drop_take)
  moreover have "Hacl_SecretBox_ZeroPad_set_zero_bytes ?x = replicate 32 0 @ box_body k n m"
    using assms(1) by (simp add: set_zero_bytes_eq box_body_def)
  ultimately show ?thesis
    by (simp add: Hacl_SecretBox_ZeroPad_crypto_secretbox_detached_def s box_body_def Let_def)
qed

text \<open>Opening: the tag of the body is recomputed under the key stream's first block.\<close>

lemma secretbox_open_detached_eq:
  assumes "length c = 32 + unat clen" and "length m = length c" and "unat clen + 32 < 2 ^ 32" and "16 \<le> length mac"
  shows "Hacl_SecretBox_ZeroPad_crypto_secretbox_open_detached m c mac clen n k
    = (if take 16 mac = box_tag k n (drop 32 c)
       then (0, replicate 32 0 @ drop 32 (stream_xor (xsalsa20 k n) c)) else (0xffffffff, m))"
proof -
  have len: "unat (ucast clen + 32 :: u32) = length c"
    using assms(1,3) by (simp add: unat_add_small unat_ucast_down)
  let ?s = "Hacl_Salsa20_hsalsa20 (replicate 32 0) k n"
  have mk: "Hacl_Salsa20_salsa20 (replicate 32 0) (replicate 32 0) 32 ?s (drop 16 n) 0 = take 32 (xsalsa20 k n 0)"
    using salsa20_xsalsa20 [of 32 "replicate 32 0" "replicate 32 0" k n]
    by (simp add: stream_xor_block)
      (intro nth_equalityI; simp)
  have "Hacl_Poly1305_64_crypto_onetimeauth (replicate 16 0) (drop 32 c) clen (take 32 (xsalsa20 k n 0))
      = box_tag k n (drop 32 c)"
    using crypto_onetimeauth_eq [of clen "drop 32 c" "take 32 (xsalsa20 k n 0)" "replicate 16 0"] assms
    by (simp add: box_tag_def)
  moreover have "Hacl_Policies_cmp_bytes mac (box_tag k n (drop 32 c)) 16
      = (if take 16 mac = box_tag k n (drop 32 c) then 0 else 255)"
    using cmp_bytes_eq [of 16 mac "box_tag k n (drop 32 c)"] assms(4) by (simp add: box_tag_def)
  moreover have "Hacl_Salsa20_salsa20 m c (ucast clen + 32) ?s (drop 16 n) 0 = stream_xor (xsalsa20 k n) c"
    using salsa20_xsalsa20 [of "ucast clen + 32" c m k n] assms(2) by (simp add: len)
  ultimately show ?thesis
    using assms(1) by (simp add: Hacl_SecretBox_ZeroPad_crypto_secretbox_open_detached_def mk set_zero_bytes_eq
        Hacl_SecretBox_ZeroPad_crypto_secretbox_open_detached_decrypt_def Let_def)
qed

lemma length_box_body [simp]: "length (box_body k n m) = length m - 32"
  by (simp add: box_body_def)

lemma length_box_tag [simp]: "length (box_tag k n b) = 16"
  by (simp add: box_tag_def)

text \<open>The key stream is positional, so the padding may hold anything when a body is opened.\<close>

lemma drop_stream_xor_cong:
  assumes "drop n a = drop n b" and "length a = length b"
  shows "drop n (stream_xor ks a) = drop n (stream_xor ks b)"
proof (rule nth_equalityI)
  fix i
  assume i: "i < length (drop n (stream_xor ks a))"
  then have "n + i < length b"
    using assms(2) by simp
  moreover have "drop n a ! i = drop n b ! i"
    by (simp add: assms(1))
  ultimately show "drop n (stream_xor ks a) ! i = drop n (stream_xor ks b) ! i"
    using assms(2) i by (simp add: stream_xor_def)
qed (simp add: assms(2))

lemma open_body:
  assumes "length p = 32" and "32 \<le> length m"
  shows "drop 32 (stream_xor (xsalsa20 k n) (p @ box_body k n m)) = drop 32 m"
proof -
  have "drop 32 (stream_xor (xsalsa20 k n) (p @ box_body k n m))
      = drop 32 (stream_xor (xsalsa20 k n) (stream_xor (xsalsa20 k n) m))"
    using assms by (intro drop_stream_xor_cong) (simp_all add: box_body_def)
  then show ?thesis
    by (simp add: stream_xor_involution)
qed

section \<open>Properties\<close>

text \<open>Sealing: on a message with a zero pad of 32 bytes, the detached secret box writes a cipher text
  with a zero pad whose body is the message body combined with the XSalsa20 key stream from its 33rd byte,
  and the tag of that body under the first 32 bytes of the key stream; it returns 0.\<close>

theorem secretbox_seals:
  assumes "length m = 32 + unat mlen" and "length c = length m" and "unat mlen + 32 < 2 ^ 32"
    and "take 32 m = replicate 32 0" and "16 \<le> length mac"
  shows "NaCl_crypto_secretbox_detached c mac m mlen n k
    = (0, replicate 32 0 @ box_body k n m, box_tag k n (box_body k n m) @ drop 16 mac)"
  unfolding NaCl_crypto_secretbox_detached_def by (rule secretbox_detached_eq [OF assms])

theorem secretbox_seals_witness:
  "NaCl_crypto_secretbox_detached (replicate 33 7) (replicate 16 0) (replicate 32 0 @ [5]) 1 (replicate 24 1) (replicate 32 2)
    = (0, replicate 32 0 @ box_body (replicate 32 2) (replicate 24 1) (replicate 32 0 @ [5]),
       box_tag (replicate 32 2) (replicate 24 1) (box_body (replicate 32 2) (replicate 24 1) (replicate 32 0 @ [5])))"
  using secretbox_seals [of "replicate 32 0 @ [5]" 1 "replicate 33 7" "replicate 16 0" "replicate 24 1" "replicate 32 2"]
  by simp

text \<open>C5. Opening what was sealed returns the message: for every key, every nonce and every zero-padded message of fewer than
  2 ^ 32 bytes with its pad of 32, the detached opening of the cipher text and tag that the detached sealing wrote succeeds with
  status 0 and writes the message back, pad included. The bound is the code's: it takes the length as a \<^verbatim>\<open>uint64_t\<close> and casts it to
  \<^verbatim>\<open>uint32_t\<close>, so of a message of 4 GiB or more it would seal only a part.\<close>

theorem secretbox_open_seal:
  assumes "length m = 32 + unat mlen" and "length c = length m" and "length m' = length m"
    and "unat mlen + 32 < 2 ^ 32" and "take 32 m = replicate 32 0" and "length mac = 16"
  shows "(case NaCl_crypto_secretbox_detached c mac m mlen n k of
      (status, c', mac') \<Rightarrow> NaCl_crypto_secretbox_open_detached m' c' mac' mlen n k) = (0, m)"
proof -
  have "replicate 32 0 @ drop 32 m = m"
    using append_take_drop_id [of 32 m] assms(5) by simp
  then show ?thesis
    using assms by (simp add: NaCl_crypto_secretbox_detached_def NaCl_crypto_secretbox_open_detached_def
        secretbox_detached_eq secretbox_open_detached_eq open_body)
qed

theorem secretbox_open_seal_witness:
  "(case NaCl_crypto_secretbox_detached (replicate 33 7) (replicate 16 0) (replicate 32 0 @ [5]) 1 (replicate 24 1) (replicate 32 2) of
      (status, c', mac') \<Rightarrow> NaCl_crypto_secretbox_open_detached (replicate 33 8) c' mac' 1 (replicate 24 1) (replicate 32 2))
   = (0, replicate 32 0 @ [5])"
  using secretbox_open_seal [of "replicate 32 0 @ [5]" 1 "replicate 33 7" "replicate 33 8" "replicate 16 0"
      "replicate 24 1" "replicate 32 2"]
  by simp

text \<open>Opening decides by the tag alone: when the first 16 bytes of the tag argument are the tag of the
  body, it returns 0 and the decrypted body behind a zero pad; otherwise it returns \<open>0xffffffff\<close> and
  leaves the message buffer as it was, having decrypted nothing.\<close>

theorem secretbox_open_decides:
  assumes "length c = 32 + unat clen" and "length m = length c" and "unat clen + 32 < 2 ^ 32" and "16 \<le> length mac"
  shows "NaCl_crypto_secretbox_open_detached m c mac clen n k
    = (if take 16 mac = box_tag k n (drop 32 c)
       then (0, replicate 32 0 @ drop 32 (stream_xor (xsalsa20 k n) c)) else (0xffffffff, m))"
  unfolding NaCl_crypto_secretbox_open_detached_def by (rule secretbox_open_detached_eq [OF assms])

theorem secretbox_open_decides_witness:
  "NaCl_crypto_secretbox_open_detached (replicate 33 7) (replicate 33 8)
       ((box_tag (replicate 32 2) (replicate 24 1) [8])[0 := box_tag (replicate 32 2) (replicate 24 1) [8] ! 0 + 1])
       1 (replicate 24 1) (replicate 32 2) = (0xffffffff, replicate 33 7)"
proof -
  let ?t = "box_tag (replicate 32 2) (replicate 24 1) [8]"
  have "?t[0 := ?t ! 0 + 1] ! 0 \<noteq> ?t ! 0"
    by simp
  then have "?t[0 := ?t ! 0 + 1] \<noteq> ?t"
    by metis
  then show ?thesis
    using secretbox_open_decides [of "replicate 33 8" 1 "replicate 33 7" "?t[0 := ?t ! 0 + 1]"
        "replicate 24 1" "replicate 32 2"] by simp
qed

text \<open>C40. The combined format does not round-trip through its own opening.  Sealing with the easy interface
  puts the tag at offset 16, behind 16 zero bytes, and reading it there the detached opening returns the
  message; the easy opening takes the tag from offset 0, where the zeros are, and so returns
  \<open>0xffffffff\<close> and leaves the message buffer alone unless the tag happens to be zero. The message with its pad
  has fewer than 2 ^ 32 bytes, since the code casts the length to \<^verbatim>\<open>uint32_t\<close>.\<close>

theorem secretbox_easy_layout:
  assumes "length m = 32 + unat mlen" and "length c = length m" and "length m' = length m"
    and "unat mlen + 32 < 2 ^ 32" and "take 32 m = replicate 32 0"
  shows "NaCl_crypto_secretbox_easy c m mlen n k
      = (0, replicate 16 0 @ box_tag k n (box_body k n m) @ box_body k n m)
    \<and> NaCl_crypto_secretbox_open_detached m' (snd (NaCl_crypto_secretbox_easy c m mlen n k))
        (drop 16 (snd (NaCl_crypto_secretbox_easy c m mlen n k))) mlen n k = (0, m)
    \<and> NaCl_crypto_secretbox_open_easy m' (snd (NaCl_crypto_secretbox_easy c m mlen n k)) mlen n k
      = (if box_tag k n (box_body k n m) = replicate 16 0 then (0, m) else (0xffffffff, m'))"
proof -
  let ?b = "box_body k n m" and ?t = "box_tag k n (box_body k n m)"
  have m: "replicate 32 0 @ drop 32 m = m"
    using append_take_drop_id [of 32 m] assms(5) by simp
  have easy: "NaCl_crypto_secretbox_easy c m mlen n k = (0, replicate 16 0 @ ?t @ ?b)"
    using assms by (simp add: NaCl_crypto_secretbox_easy_def Hacl_SecretBox_ZeroPad_crypto_secretbox_easy_def
        secretbox_detached_eq blit_def)
  have "drop 32 (stream_xor (xsalsa20 k n) (replicate 16 0 @ ?t @ ?b)) = drop 32 m"
    using open_body [of "replicate 16 0 @ ?t" m k n] assms(1) by simp
  then show ?thesis
    using assms m by (auto simp: easy NaCl_crypto_secretbox_open_detached_def NaCl_crypto_secretbox_open_easy_def
        Hacl_SecretBox_ZeroPad_crypto_secretbox_open_easy_def secretbox_open_detached_eq)
qed

theorem secretbox_easy_layout_witness:
  "NaCl_crypto_secretbox_open_detached (replicate 33 8)
     (snd (NaCl_crypto_secretbox_easy (replicate 33 7) (replicate 32 0 @ [5]) 1 (replicate 24 1) (replicate 32 2)))
     (drop 16 (snd (NaCl_crypto_secretbox_easy (replicate 33 7) (replicate 32 0 @ [5]) 1 (replicate 24 1) (replicate 32 2))))
     1 (replicate 24 1) (replicate 32 2) = (0, replicate 32 0 @ [5])"
  by (rule secretbox_easy_layout [THEN conjunct2, THEN conjunct1]; simp)

end
