(* ===== verification/Field25519_Spec.thy ===== *)
theory Field25519_Spec
  imports Prelude
begin

text \<open>
  The field of Curve25519 and Ed25519: integers modulo \<open>2 ^ 255 - 19\<close>, and the Montgomery ladder
  of RFC 7748 over them.
\<close>

section \<open>The field\<close>

definition P25519 :: int where
  "P25519 = 2 ^ 255 - 19"

lemma P25519_pos [simp]: "0 < P25519"
  by (simp add: P25519_def)

lemma P25519_nz [simp]: "P25519 \<noteq> 0"
  by (simp add: P25519_def)

text \<open>Powers by squaring, and the inverse as the power \<open>p - 2\<close>.\<close>

fun pow_mod :: "int \<Rightarrow> nat \<Rightarrow> int" where
  "pow_mod x n =
     (if n = 0 then 1
      else let h = pow_mod (x * x mod P25519) (n div 2)
           in if odd n then x * h mod P25519 else h)"

declare pow_mod.simps [simp del]

lemma pow_mod_eq: "pow_mod x n mod P25519 = x ^ n mod P25519"
proof (induction x n rule: pow_mod.induct)
  case (1 x n)
  show ?case
  proof (cases "n = 0")
    case True
    then show ?thesis by (simp add: pow_mod.simps)
  next
    case False
    have h: "pow_mod (x * x mod P25519) (n div 2) mod P25519 = x ^ (2 * (n div 2)) mod P25519"
      using "1.IH" [OF False] by (simp add: power_mod power_mult power2_eq_square)
    show ?thesis
    proof (cases "odd n")
      case True
      then have "x ^ n = x * x ^ (2 * (n div 2))"
        by (metis odd_two_times_div_two_succ power_Suc Suc_eq_plus1)
      moreover have "pow_mod x n mod P25519 = x * pow_mod (x * x mod P25519) (n div 2) mod P25519"
        using True False by (subst pow_mod.simps) simp
      ultimately show ?thesis
        using h by (metis mod_mult_right_eq)
    next
      case even: False
      then show ?thesis
        using False h by (subst pow_mod.simps) simp
    qed
  qed
qed

definition field_inv :: "int \<Rightarrow> int" where
  "field_inv x = pow_mod x (2 ^ 255 - 21)"

section \<open>The ladder\<close>

text \<open>
  One step on the projective x-coordinates \<open>x2 / z2\<close> of nP and \<open>x3 / z3\<close> of (n+1)P: the double of
  the first and the sum of both, where \<open>x1\<close> is the coordinate of P.
\<close>

definition ladder_step :: "int \<Rightarrow> (int \<times> int) \<times> (int \<times> int) \<Rightarrow> (int \<times> int) \<times> (int \<times> int)" where
  "ladder_step x1 = (\<lambda>((x2, z2), (x3, z3)).
     let a = (x2 + z2) mod P25519;
         aa = a ^ 2 mod P25519;
         b = (x2 - z2) mod P25519;
         bb = b ^ 2 mod P25519;
         e = (aa - bb) mod P25519;
         c = (x3 + z3) mod P25519;
         d = (x3 - z3) mod P25519;
         da = d * a mod P25519;
         cb = c * b mod P25519
     in ((aa * bb mod P25519, e * (aa + 121665 * e) mod P25519),
         ((da + cb) ^ 2 mod P25519, x1 * (da - cb) ^ 2 mod P25519)))"

definition ladder_bit :: "int \<Rightarrow> bool \<Rightarrow> (int \<times> int) \<times> (int \<times> int) \<Rightarrow> (int \<times> int) \<times> (int \<times> int)" where
  "ladder_bit x1 b s = (if b then prod.swap (ladder_step x1 (prod.swap s)) else ladder_step x1 s)"

text \<open>The ladder over the bits of a scalar, the most significant first.\<close>

definition ladder :: "int \<Rightarrow> bool list \<Rightarrow> (int \<times> int) \<times> (int \<times> int)" where
  "ladder x1 bs = fold (ladder_bit x1) bs ((1, 0), (x1, 1))"

definition x25519_bits :: "bool list \<Rightarrow> int \<Rightarrow> int" where
  "x25519_bits bs u = (let (x, z) = fst (ladder u bs) in x * field_inv z mod P25519)"

text \<open>The bits of a byte and of a little-endian byte string, from the top.\<close>

definition byte_bits :: "u8 \<Rightarrow> bool list" where
  "byte_bits b = map (\<lambda>i. bit b (7 - i)) [0..<8]"

definition bits_of_bytes :: "u8 list \<Rightarrow> bool list" where
  "bits_of_bytes bs = concat (map byte_bits (rev bs))"

end
