(* ===== verification/Hacl_Field51.thy ===== *)
theory Hacl_Field51
  imports FStar Field25519_Spec
begin

text \<open>
  The field modulo \<open>2 ^ 255 - 19\<close> over five 51-bit limbs, as \<^verbatim>\<open>Hacl_Curve25519.c\<close> and, in a textual
  copy, \<^verbatim>\<open>Hacl_Ed25519.c\<close> have it.  A field element is a buffer of five 64-bit words; a routine that writes
  a buffer returns its new contents.  \<open>rep B a x\<close> says that the buffer \<open>a\<close> has limbs below \<open>B\<close> and stands for the
  integer \<open>x\<close>; the rules for the operations on it are what the curve theories use.
\<close>

section \<open>Limb arithmetic\<close>

definition Hacl_Bignum_Modulo_carry_top :: "u64 list \<Rightarrow> u64 list" where
  "Hacl_Bignum_Modulo_carry_top b =
     (let b4 = b ! 4;
          b0 = b ! 0;
          b4' = b4 AND 0x7ffffffffffff;
          b0' = b0 + 19 * drop_bit 51 b4;
          b = b[4 := b4']
      in b[0 := b0'])"

definition Hacl_Bignum_Fproduct_copy_from_wide' :: "u64 list \<Rightarrow> u128 list \<Rightarrow> u64 list" where
  "Hacl_Bignum_Fproduct_copy_from_wide' output input =
     for_range 0 5 (\<lambda>i output.
       let xi = input ! i in output[i := FStar_UInt128_uint128_to_uint64 xi]) output"

definition Hacl_Bignum_Fproduct_sum_scalar_multiplication' ::
  "u128 list \<Rightarrow> u64 list \<Rightarrow> u64 \<Rightarrow> u128 list" where
  "Hacl_Bignum_Fproduct_sum_scalar_multiplication' output input s =
     for_range 0 5 (\<lambda>i output.
       let xi = output ! i; yi = input ! i
       in output[i := FStar_UInt128_add_mod xi (FStar_UInt128_mul_wide yi s)]) output"

definition Hacl_Bignum_Fproduct_carry_wide' :: "u128 list \<Rightarrow> u128 list" where
  "Hacl_Bignum_Fproduct_carry_wide' tmp =
     for_range 0 4 (\<lambda>ctr tmp.
       let tctr = tmp ! ctr; tctrp1 = tmp ! (ctr + 1);
           r0 = FStar_UInt128_uint128_to_uint64 tctr AND 0x7ffffffffffff;
           c = FStar_UInt128_shift_right tctr 51;
           tmp = tmp[ctr := FStar_UInt128_uint64_to_uint128 r0]
       in tmp[ctr + 1 := FStar_UInt128_add tctrp1 c]) tmp"

definition Hacl_Bignum_Fmul_shift_reduce :: "u64 list \<Rightarrow> u64 list" where
  "Hacl_Bignum_Fmul_shift_reduce output =
     (let tmp = output ! 4;
          output = for_range 0 4 (\<lambda>i output.
            let ctr = 5 - i - 1; z = output ! (ctr - 1) in output[ctr := z]) output;
          output = output[0 := tmp];
          b0 = output ! 0
      in output[0 := 19 * b0])"

definition Hacl_Bignum_Fmul_mul_shift_reduce' ::
  "u128 list \<Rightarrow> u64 list \<Rightarrow> u64 list \<Rightarrow> u128 list \<times> u64 list" where
  "Hacl_Bignum_Fmul_mul_shift_reduce' output input input21 =
     (let (output, input) = for_range 0 4 (\<lambda>i (output, input).
            let input2i = input21 ! i;
                output = Hacl_Bignum_Fproduct_sum_scalar_multiplication' output input input2i
            in (output, Hacl_Bignum_Fmul_shift_reduce input)) (output, input);
          i = 4;
          input2i = input21 ! i
      in (Hacl_Bignum_Fproduct_sum_scalar_multiplication' output input input2i, input))"

definition Hacl_Bignum_Fmul_fmul :: "u64 list \<Rightarrow> u64 list \<Rightarrow> u64 list \<Rightarrow> u64 list" where
  "Hacl_Bignum_Fmul_fmul output input input21 =
     (let tmp = blit (replicate 5 0) 0 (take 5 input);
          t = replicate 5 (FStar_UInt128_uint64_to_uint128 0);
          (t, tmp) = Hacl_Bignum_Fmul_mul_shift_reduce' t tmp input21;
          t = Hacl_Bignum_Fproduct_carry_wide' t;
          b4 = t ! 4;
          b0 = t ! 0;
          b4' = FStar_UInt128_logand b4 (FStar_UInt128_uint64_to_uint128 0x7ffffffffffff);
          b0' = FStar_UInt128_add b0 (FStar_UInt128_mul_wide 19
                  (FStar_UInt128_uint128_to_uint64 (FStar_UInt128_shift_right b4 51)));
          t = t[4 := b4'];
          t = t[0 := b0'];
          output = Hacl_Bignum_Fproduct_copy_from_wide' output t;
          i0 = output ! 0;
          i1 = output ! 1;
          i0' = i0 AND 0x7ffffffffffff;
          i1' = i1 + drop_bit 51 i0;
          output = output[0 := i0']
      in output[1 := i1'])"

definition Hacl_Bignum_Fsquare_fsquare'' :: "u128 list \<Rightarrow> u64 list \<Rightarrow> u128 list" where
  "Hacl_Bignum_Fsquare_fsquare'' tmp output =
     (let r0 = output ! 0;
          r1 = output ! 1;
          r2 = output ! 2;
          r3 = output ! 3;
          r4 = output ! 4;
          d0 = r0 * 2;
          d1 = r1 * 2;
          d2 = r2 * 2 * 19;
          d419 = r4 * 19;
          d4 = d419 * 2;
          s0 = FStar_UInt128_add (FStar_UInt128_add (FStar_UInt128_mul_wide r0 r0)
                 (FStar_UInt128_mul_wide d4 r1)) (FStar_UInt128_mul_wide d2 r3);
          s1 = FStar_UInt128_add (FStar_UInt128_add (FStar_UInt128_mul_wide d0 r1)
                 (FStar_UInt128_mul_wide d4 r2)) (FStar_UInt128_mul_wide (r3 * 19) r3);
          s2 = FStar_UInt128_add (FStar_UInt128_add (FStar_UInt128_mul_wide d0 r2)
                 (FStar_UInt128_mul_wide r1 r1)) (FStar_UInt128_mul_wide d4 r3);
          s3 = FStar_UInt128_add (FStar_UInt128_add (FStar_UInt128_mul_wide d0 r3)
                 (FStar_UInt128_mul_wide d1 r2)) (FStar_UInt128_mul_wide r4 d419);
          s4 = FStar_UInt128_add (FStar_UInt128_add (FStar_UInt128_mul_wide d0 r4)
                 (FStar_UInt128_mul_wide d1 r3)) (FStar_UInt128_mul_wide r2 r2);
          tmp = tmp[0 := s0];
          tmp = tmp[1 := s1];
          tmp = tmp[2 := s2];
          tmp = tmp[3 := s3]
      in tmp[4 := s4])"

definition Hacl_Bignum_Fsquare_fsquare' :: "u128 list \<Rightarrow> u64 list \<Rightarrow> u128 list \<times> u64 list" where
  "Hacl_Bignum_Fsquare_fsquare' tmp output =
     (let tmp = Hacl_Bignum_Fsquare_fsquare'' tmp output;
          tmp = Hacl_Bignum_Fproduct_carry_wide' tmp;
          b4 = tmp ! 4;
          b0 = tmp ! 0;
          b4' = FStar_UInt128_logand b4 (FStar_UInt128_uint64_to_uint128 0x7ffffffffffff);
          b0' = FStar_UInt128_add b0 (FStar_UInt128_mul_wide 19
                  (FStar_UInt128_uint128_to_uint64 (FStar_UInt128_shift_right b4 51)));
          tmp = tmp[4 := b4'];
          tmp = tmp[0 := b0'];
          output = Hacl_Bignum_Fproduct_copy_from_wide' output tmp;
          i0 = output ! 0;
          i1 = output ! 1;
          i0' = i0 AND 0x7ffffffffffff;
          i1' = i1 + drop_bit 51 i0;
          output = output[0 := i0'];
          output = output[1 := i1']
      in (tmp, output))"

definition Hacl_Bignum_Fsquare_fsquare_times' ::
  "u64 list \<Rightarrow> u128 list \<Rightarrow> u32 \<Rightarrow> u64 list \<times> u128 list" where
  "Hacl_Bignum_Fsquare_fsquare_times' input tmp count1 =
     (let (tmp, input) = Hacl_Bignum_Fsquare_fsquare' tmp input;
          (tmp, input) = for_range 1 (unat count1)
            (\<lambda>_ (tmp, input). Hacl_Bignum_Fsquare_fsquare' tmp input) (tmp, input)
      in (input, tmp))"

definition Hacl_Bignum_Fsquare_fsquare_times :: "u64 list \<Rightarrow> u64 list \<Rightarrow> u32 \<Rightarrow> u64 list" where
  "Hacl_Bignum_Fsquare_fsquare_times output input count1 =
     (let t = replicate 5 (FStar_UInt128_uint64_to_uint128 0);
          output = blit output 0 (take 5 input);
          (output, t) = Hacl_Bignum_Fsquare_fsquare_times' output t count1
      in output)"

definition Hacl_Bignum_Fsquare_fsquare_times_inplace :: "u64 list \<Rightarrow> u32 \<Rightarrow> u64 list" where
  "Hacl_Bignum_Fsquare_fsquare_times_inplace output count1 =
     (let t = replicate 5 (FStar_UInt128_uint64_to_uint128 0);
          (output, t) = Hacl_Bignum_Fsquare_fsquare_times' output t count1
      in output)"

definition Hacl_Bignum_Crecip_crecip :: "u64 list \<Rightarrow> u64 list \<Rightarrow> u64 list" where
  "Hacl_Bignum_Crecip_crecip out z =
     (let buf = replicate 20 0;
          a = slice 0 5 buf;
          t00 = slice 5 5 buf;
          b0 = slice 10 5 buf;
          a = Hacl_Bignum_Fsquare_fsquare_times a z 1;
          t00 = Hacl_Bignum_Fsquare_fsquare_times t00 a 2;
          b0 = Hacl_Bignum_Fmul_fmul b0 t00 z;
          a = Hacl_Bignum_Fmul_fmul a b0 a;
          t00 = Hacl_Bignum_Fsquare_fsquare_times t00 a 1;
          b0 = Hacl_Bignum_Fmul_fmul b0 t00 b0;
          t00 = Hacl_Bignum_Fsquare_fsquare_times t00 b0 5;
          t01 = t00;
          b1 = b0;
          c0 = slice 15 5 buf;
          b1 = Hacl_Bignum_Fmul_fmul b1 t01 b1;
          t01 = Hacl_Bignum_Fsquare_fsquare_times t01 b1 10;
          c0 = Hacl_Bignum_Fmul_fmul c0 t01 b1;
          t01 = Hacl_Bignum_Fsquare_fsquare_times t01 c0 20;
          t01 = Hacl_Bignum_Fmul_fmul t01 t01 c0;
          t01 = Hacl_Bignum_Fsquare_fsquare_times_inplace t01 10;
          b1 = Hacl_Bignum_Fmul_fmul b1 t01 b1;
          t01 = Hacl_Bignum_Fsquare_fsquare_times t01 b1 50;
          a0 = a;
          t0 = t01;
          b = b1;
          c = c0;
          c = Hacl_Bignum_Fmul_fmul c t0 b;
          t0 = Hacl_Bignum_Fsquare_fsquare_times t0 c 100;
          t0 = Hacl_Bignum_Fmul_fmul t0 t0 c;
          t0 = Hacl_Bignum_Fsquare_fsquare_times_inplace t0 50;
          t0 = Hacl_Bignum_Fmul_fmul t0 t0 b;
          t0 = Hacl_Bignum_Fsquare_fsquare_times_inplace t0 5
      in Hacl_Bignum_Fmul_fmul out t0 a0)"

definition Hacl_Bignum_fsum :: "u64 list \<Rightarrow> u64 list \<Rightarrow> u64 list" where
  "Hacl_Bignum_fsum a b =
     for_range 0 5 (\<lambda>i a. let xi = a ! i; yi = b ! i in a[i := xi + yi]) a"

definition Hacl_Bignum_fdifference :: "u64 list \<Rightarrow> u64 list \<Rightarrow> u64 list" where
  "Hacl_Bignum_fdifference a b =
     (let tmp = blit (replicate 5 0) 0 (take 5 b);
          b0 = tmp ! 0;
          b1 = tmp ! 1;
          b2 = tmp ! 2;
          b3 = tmp ! 3;
          b4 = tmp ! 4;
          tmp = tmp[0 := b0 + 0x3fffffffffff68];
          tmp = tmp[1 := b1 + 0x3ffffffffffff8];
          tmp = tmp[2 := b2 + 0x3ffffffffffff8];
          tmp = tmp[3 := b3 + 0x3ffffffffffff8];
          tmp = tmp[4 := b4 + 0x3ffffffffffff8]
      in for_range 0 5 (\<lambda>i a. let xi = a ! i; yi = tmp ! i in a[i := yi - xi]) a)"

definition Hacl_Bignum_fscalar :: "u64 list \<Rightarrow> u64 list \<Rightarrow> u64 \<Rightarrow> u64 list" where
  "Hacl_Bignum_fscalar output b s =
     (let tmp = replicate 5 (FStar_UInt128_uint64_to_uint128 0);
          tmp = for_range 0 5 (\<lambda>i tmp.
            let xi = b ! i in tmp[i := FStar_UInt128_mul_wide xi s]) tmp;
          tmp = Hacl_Bignum_Fproduct_carry_wide' tmp;
          b4 = tmp ! 4;
          b0 = tmp ! 0;
          b4' = FStar_UInt128_logand b4 (FStar_UInt128_uint64_to_uint128 0x7ffffffffffff);
          b0' = FStar_UInt128_add b0 (FStar_UInt128_mul_wide 19
                  (FStar_UInt128_uint128_to_uint64 (FStar_UInt128_shift_right b4 51)));
          tmp = tmp[4 := b4'];
          tmp = tmp[0 := b0']
      in Hacl_Bignum_Fproduct_copy_from_wide' output tmp)"

definition Hacl_Bignum_fmul :: "u64 list \<Rightarrow> u64 list \<Rightarrow> u64 list \<Rightarrow> u64 list" where
  "Hacl_Bignum_fmul output a b = Hacl_Bignum_Fmul_fmul output a b"

definition Hacl_Bignum_crecip :: "u64 list \<Rightarrow> u64 list \<Rightarrow> u64 list" where
  "Hacl_Bignum_crecip output input = Hacl_Bignum_Crecip_crecip output input"


section \<open>Values of limb buffers\<close>

definition fval :: "u64 list \<Rightarrow> nat" where
  "fval a = unat (a ! 0) + 2 ^ 51 * unat (a ! 1) + 2 ^ 102 * unat (a ! 2) + 2 ^ 153 * unat (a ! 3)
     + 2 ^ 204 * unat (a ! 4)"

definition limbs_below :: "nat \<Rightarrow> u64 list \<Rightarrow> bool" where
  "limbs_below B a = (length a = 5 \<and> unat (a ! 0) < B \<and> unat (a ! 1) < B \<and> unat (a ! 2) < B
     \<and> unat (a ! 3) < B \<and> unat (a ! 4) < B)"

definition rep :: "nat \<Rightarrow> u64 list \<Rightarrow> int \<Rightarrow> bool" where
  "rep B a x = (limbs_below B a \<and> int (fval a) mod P25519 = x mod P25519)"

text \<open>The limbs of a product, and those a product accepts (a sum or difference of two products).\<close>

definition TIGHT :: nat where "TIGHT = 2 ^ 51 + 2 ^ 13"
definition LOOSE :: nat where "LOOSE = 2 ^ 54 + 2 ^ 51 + 2 ^ 13"

lemma rep_mod [simp]: "rep B a (x mod P25519) = rep B a x"
  by (simp add: rep_def)

lemma rep_length: "rep B a x \<Longrightarrow> length a = 5"
  by (simp add: rep_def limbs_below_def)

lemma rep_mono: "rep B a x \<Longrightarrow> B \<le> C \<Longrightarrow> rep C a x"
  by (auto simp: rep_def limbs_below_def)

lemma rep_loose: "rep TIGHT a x \<Longrightarrow> rep LOOSE a x"
  by (erule rep_mono) (simp add: TIGHT_def LOOSE_def)

lemma rep_cong: "rep B a x \<Longrightarrow> x mod P25519 = y mod P25519 \<Longrightarrow> rep B a y"
  by (simp add: rep_def)

lemma length_5_cases:
  assumes "length a = 5"
  obtains a0 a1 a2 a3 a4 where "a = [a0, a1, a2, a3, a4]"
  using assms by (auto simp: eval_nat_numeral length_Suc_conv)

lemma for_range_4: "for_range 0 4 body s = body 3 (body 2 (body 1 (body 0 s)))"
  by (simp add: for_range_def eval_nat_numeral)

lemma for_range_5: "for_range 0 5 body s = body 4 (body 3 (body 2 (body 1 (body 0 s))))"
  by (simp add: for_range_def eval_nat_numeral)

lemma mask51: "(0x7ffffffffffff :: u64) = mask 51"
  by (simp add: mask_eq_exp_minus_1)

section \<open>Multiplication\<close>

lemma f51_shift_reduce_eq:
  "Hacl_Bignum_Fmul_shift_reduce [x0, x1, x2, x3, x4] = [19 * x4, x0, x1, x2, x3]"
  by (simp add: Hacl_Bignum_Fmul_shift_reduce_def for_range_4 Let_def)

lemma f51_sum_scalar_eq:
  "Hacl_Bignum_Fproduct_sum_scalar_multiplication' [t0, t1, t2, t3, t4] [x0, x1, x2, x3, x4] s =
     [FStar_UInt128_add t0 (FStar_UInt128_mul_wide x0 s), FStar_UInt128_add t1 (FStar_UInt128_mul_wide x1 s),
      FStar_UInt128_add t2 (FStar_UInt128_mul_wide x2 s), FStar_UInt128_add t3 (FStar_UInt128_mul_wide x3 s),
      FStar_UInt128_add t4 (FStar_UInt128_mul_wide x4 s)]"
  by (simp add: Hacl_Bignum_Fproduct_sum_scalar_multiplication'_def for_range_5 Let_def struct_copies)

lemma unat_times19:
  fixes x :: u64
  assumes "unat x < LOOSE"
  shows "unat (19 * x) = 19 * unat x" "unat (x * 19) = 19 * unat x"
  using assms by (simp_all add: unat_mult_small LOOSE_def)

definition wide_sum :: "(u64 \<times> u64) list \<Rightarrow> u128" where
  "wide_sum ps = foldl (\<lambda>t (x, y). FStar_UInt128_add t (FStar_UInt128_mul_wide x y)) 0 ps"

lemma unat_wide_sum:
  assumes "\<And>x y. (x, y) \<in> set ps \<Longrightarrow> unat x * unat y < 2 ^ 116" and "length ps \<le> 32"
  shows "unat (wide_sum ps) = (\<Sum>(x, y)\<leftarrow>ps. unat x * unat y)
    \<and> unat (wide_sum ps) \<le> length ps * 2 ^ 116"
  using assms
proof (induction ps rule: rev_induct)
  case Nil
  then show ?case by (simp add: wide_sum_def)
next
  case (snoc p ps)
  obtain x y where p: "p = (x, y)" by (cases p)
  have b: "unat x * unat y < 2 ^ 116" using snoc.prems(1) [of x y] by (simp add: p)
  have IH: "unat (wide_sum ps) = (\<Sum>(x, y)\<leftarrow>ps. unat x * unat y)" "unat (wide_sum ps) \<le> length ps * 2 ^ 116"
    using snoc.IH snoc.prems by auto
  have "length ps * 2 ^ 116 \<le> 31 * 2 ^ 116" using snoc.prems(2) by simp
  then have "unat (wide_sum ps) + unat x * unat y < 2 ^ 128"
    using IH(2) b by simp
  then have "unat (wide_sum (ps @ [p])) = unat (wide_sum ps) + unat x * unat y"
    by (simp add: wide_sum_def p native.val_accumulate)
  then show ?case using IH b by (simp add: p)
qed

lemma f51_mul_shift_reduce_eq:
  "fst (Hacl_Bignum_Fmul_mul_shift_reduce' [0, 0, 0, 0, 0] [x0, x1, x2, x3, x4] [y0, y1, y2, y3, y4]) =
     [wide_sum [(x0, y0), (19 * x4, y1), (19 * x3, y2), (19 * x2, y3), (19 * x1, y4)],
      wide_sum [(x1, y0), (x0, y1), (19 * x4, y2), (19 * x3, y3), (19 * x2, y4)],
      wide_sum [(x2, y0), (x1, y1), (x0, y2), (19 * x4, y3), (19 * x3, y4)],
      wide_sum [(x3, y0), (x2, y1), (x1, y2), (x0, y3), (19 * x4, y4)],
      wide_sum [(x4, y0), (x3, y1), (x2, y2), (x1, y3), (x0, y4)]]"
  by (simp add: Hacl_Bignum_Fmul_mul_shift_reduce'_def for_range_4 Let_def f51_sum_scalar_eq f51_shift_reduce_eq
      wide_sum_def del: One_nat_def)


lemma carry5_sum:
  fixes t0 t1 t2 t3 t4 :: nat
  assumes "t0 = m0 + 2 ^ 51 * ka" "t1 + ka = m1 + 2 ^ 51 * kb" "t2 + kb = m2 + 2 ^ 51 * kc" "t3 + kc = m3 + 2 ^ 51 * kd"
  shows "m0 + 2 ^ 51 * m1 + 2 ^ 102 * m2 + 2 ^ 153 * m3 + 2 ^ 204 * (t4 + kd)
    = t0 + 2 ^ 51 * t1 + 2 ^ 102 * t2 + 2 ^ 153 * t3 + 2 ^ 204 * t4"
  using assms by simp
lemma fold5_sum:
  fixes c0 c1 c2 c3 c4 e4 k m q t :: nat
  assumes "c0 + 2 ^ 51 * c1 + 2 ^ 102 * c2 + 2 ^ 153 * c3 + 2 ^ 204 * c4 = t"
    and "m + 2 ^ 51 * k = c0 + 19 * q" "c4 = e4 + 2 ^ 51 * q"
  shows "m + 2 ^ 51 * (c1 + k) + 2 ^ 102 * c2 + 2 ^ 153 * c3 + 2 ^ 204 * e4 + 2 ^ 255 * q = t + 19 * q"
  using assms by simp

lemma fold_int: "f + 2 ^ 255 * q = t + 19 * q \<Longrightarrow> int t = int f + P25519 * int q"
proof -
  assume "f + 2 ^ 255 * q = t + 19 * q"
  then have "int f + 2 ^ 255 * int q = int t + 19 * int q"
    using arg_cong [of "f + 2 ^ 255 * q" "t + 19 * q" int] by simp
  then show ?thesis by (simp add: P25519_def)
qed

definition TOP :: nat where "TOP = 5 * LOOSE ^ 2"

lemma f51_carry_wide_correct:
  assumes "unat t0 < 2 ^ 120" "unat t1 < 2 ^ 120" "unat t2 < 2 ^ 120" "unat t3 < 2 ^ 120" "unat t4 \<le> TOP"
  obtains c0 c1 c2 c3 c4 where
    "Hacl_Bignum_Fproduct_carry_wide' [t0, t1, t2, t3, t4] = [c0, c1, c2, c3, c4]"
    "unat c0 < 2 ^ 51" "unat c1 < 2 ^ 51" "unat c2 < 2 ^ 51" "unat c3 < 2 ^ 51" "unat c4 \<le> TOP + 2 ^ 70"
    "unat c0 + 2 ^ 51 * unat c1 + 2 ^ 102 * unat c2 + 2 ^ 153 * unat c3 + 2 ^ 204 * unat c4
     = unat t0 + 2 ^ 51 * unat t1 + 2 ^ 102 * unat t2 + 2 ^ 153 * unat t3 + 2 ^ 204 * unat t4"
proof -
  define lo where "lo t = FStar_UInt128_uint64_to_uint128 (FStar_UInt128_uint128_to_uint64 t AND mask 51)" for t
  define up where "up s t = FStar_UInt128_add s (FStar_UInt128_shift_right t 51)" for s t
  define s1 s2 s3 s4 where s: "s1 = up t1 t0" "s2 = up t2 s1" "s3 = up t3 s2" "s4 = up t4 s3"
  have "Hacl_Bignum_Fproduct_carry_wide' [t0, t1, t2, t3, t4] = [lo t0, lo s1, lo s2, lo s3, s4]"
    by (simp add: Hacl_Bignum_Fproduct_carry_wide'_def for_range_4 Let_def mask51 lo_def up_def s)
  moreover have lo: "unat (lo t) = unat t mod 2 ^ 51" for t
    by (simp add: lo_def native.val_low_bits)
  have up: "unat (up b a) = unat b + unat a div 2 ^ 51 \<and> unat (up b a) < 2 ^ 121"
    if "unat b < 2 ^ 120" "unat a < 2 ^ 121" for a b
    using that by (simp add: up_def native.val_carry)
  have s1: "unat s1 = unat t1 + unat t0 div 2 ^ 51" "unat s1 < 2 ^ 121"
    using up [of t1 t0] assms by (simp_all add: s)
  have s2: "unat s2 = unat t2 + unat s1 div 2 ^ 51" "unat s2 < 2 ^ 121"
    using up [of t2 s1] assms s1 by (simp_all add: s)
  have s3: "unat s3 = unat t3 + unat s2 div 2 ^ 51" "unat s3 < 2 ^ 121"
    using up [of t3 s2] assms s2 by (simp_all add: s)
  have "unat t4 < 2 ^ 120" using assms(5) by (simp add: TOP_def LOOSE_def)
  then have s4: "unat s4 = unat t4 + unat s3 div 2 ^ 51"
    using up [of t4 s3] s3 by (simp add: s)
  moreover have "unat s3 div 2 ^ 51 < 2 ^ 70"
    using s3(2) by (intro less_mult_imp_div_less) simp
  moreover have "unat (lo t0) + 2 ^ 51 * unat (lo s1) + 2 ^ 102 * unat (lo s2) + 2 ^ 153 * unat (lo s3) + 2 ^ 204 * unat s4
     = unat t0 + 2 ^ 51 * unat t1 + 2 ^ 102 * unat t2 + 2 ^ 153 * unat t3 + 2 ^ 204 * unat t4"
  proof -
    show ?thesis
      unfolding lo s4
      by (rule carry5_sum [where ka = "unat t0 div 2 ^ 51" and kb = "unat s1 div 2 ^ 51" and kc = "unat s2 div 2 ^ 51"])
        (simp_all only: s1(1) [symmetric] s2(1) [symmetric] s3(1) [symmetric] mod_mult_div_eq)
  qed
  ultimately show thesis
    using assms(5) by (intro that [of "lo t0" "lo s1" "lo s2" "lo s3" s4]) (simp_all add: lo)
qed

lemma f51_copy_from_wide_eq:
  "length out = 5 \<Longrightarrow> Hacl_Bignum_Fproduct_copy_from_wide' out [t0, t1, t2, t3, t4] =
     [FStar_UInt128_uint128_to_uint64 t0, FStar_UInt128_uint128_to_uint64 t1, FStar_UInt128_uint128_to_uint64 t2,
      FStar_UInt128_uint128_to_uint64 t3, FStar_UInt128_uint128_to_uint64 t4]"
  by (erule length_5_cases) (simp add: Hacl_Bignum_Fproduct_copy_from_wide'_def for_range_5 Let_def)

text \<open>The end of every multiplication: fold the carry of the top limb into the lowest one, and copy.\<close>

definition fold_top :: "u128 list \<Rightarrow> u128 list" where
  "fold_top t = t[4 := FStar_UInt128_logand (t ! 4) (FStar_UInt128_uint64_to_uint128 (mask 51)),
     0 := FStar_UInt128_add (t ! 0) (FStar_UInt128_mul_wide 19
            (FStar_UInt128_uint128_to_uint64 (FStar_UInt128_shift_right (t ! 4) 51)))]"

lemma fold_top_correct:
  assumes "unat c0 < 2 ^ 51" "unat c1 < 2 ^ 51" "unat c2 < 2 ^ 51" "unat c3 < 2 ^ 51"
    and "unat c4 \<le> TOP + 2 ^ 70" "length out = 5"
  obtains e0 e1 e2 e3 e4 q where
    "Hacl_Bignum_Fproduct_copy_from_wide' out (fold_top [c0, c1, c2, c3, c4]) = [e0, e1, e2, e3, e4]"
    "unat e0 = unat c0 + 19 * q" "unat e1 = unat c1" "unat e2 = unat c2" "unat e3 = unat c3"
    "unat e4 < 2 ^ 51" "unat c4 = unat e4 + 2 ^ 51 * q"
proof -
  define q where "q = unat c4 div 2 ^ 51"
  define d0 d4 where d: "d0 = FStar_UInt128_add c0 (FStar_UInt128_mul_wide 19
      (FStar_UInt128_uint128_to_uint64 (FStar_UInt128_shift_right c4 51)))"
    "d4 = FStar_UInt128_logand c4 (FStar_UInt128_uint64_to_uint128 (mask 51))"
  have c4: "unat c4 < 2 ^ 115" using assms(5) by (simp add: TOP_def LOOSE_def)
  have q: "19 * q + 2 ^ 51 \<le> 2 ^ 64"
    using div_le_mono [OF assms(5), of "2 ^ 51"] by (simp add: q_def TOP_def LOOSE_def)
  have "unat (FStar_UInt128_uint128_to_uint64 (FStar_UInt128_shift_right c4 51)) = q"
    using c4 by (simp add: native.unat_to64_shr q_def)
  then have d0: "unat d0 = unat c0 + 19 * q"
    using q assms(1) by (simp add: d native.val_accumulate)
  have d4: "unat d4 = unat c4 mod 2 ^ 51"
    by (simp add: d native.val_conj_mask)
  let ?to = FStar_UInt128_uint128_to_uint64
  have "Hacl_Bignum_Fproduct_copy_from_wide' out (fold_top [c0, c1, c2, c3, c4]) = [?to d0, ?to c1, ?to c2, ?to c3, ?to d4]"
    using assms(6) by (simp add: fold_top_def f51_copy_from_wide_eq d)
  moreover have "unat (?to d0) = unat c0 + 19 * q"
    using q assms(1) by (subst native.unat_to64_small) (simp_all add: d0)
  moreover have "unat (?to c1) = unat c1" "unat (?to c2) = unat c2" "unat (?to c3) = unat c3"
    using assms by (simp_all add: native.unat_to64_small)
  moreover have "unat (?to d4) = unat c4 mod 2 ^ 51"
    by (subst native.unat_to64_small) (simp_all add: d4 less_le_trans [OF mod_less_divisor])
  ultimately show thesis
    by (intro that [of "?to d0" "?to c1" "?to c2" "?to c3" "?to d4" q]) (simp_all add: q_def)
qed

lemma fval_cons: "fval [a0, a1, a2, a3, a4] = unat a0 + 2 ^ 51 * unat a1 + 2 ^ 102 * unat a2 + 2 ^ 153 * unat a3
     + 2 ^ 204 * unat a4"
  by (simp add: fval_def)

lemma limbs_below_cons: "limbs_below B [a0, a1, a2, a3, a4] = (unat a0 < B \<and> unat a1 < B \<and> unat a2 < B
     \<and> unat a3 < B \<and> unat a4 < B)"
  by (simp add: limbs_below_def)

text \<open>Carrying, folding and the last carry together, from wide limbs.\<close>

definition narrow :: "u64 list \<Rightarrow> u128 list \<Rightarrow> u64 list" where
  "narrow out t =
     (let e = Hacl_Bignum_Fproduct_copy_from_wide' out (fold_top (Hacl_Bignum_Fproduct_carry_wide' t))
      in e[0 := e ! 0 AND mask 51, 1 := e ! 1 + drop_bit 51 (e ! 0)])"

lemma narrow_correct:
  assumes "unat t0 < 2 ^ 120" "unat t1 < 2 ^ 120" "unat t2 < 2 ^ 120" "unat t3 < 2 ^ 120" "unat t4 \<le> TOP"
    and "length out = 5"
    and "int (unat t0 + 2 ^ 51 * unat t1 + 2 ^ 102 * unat t2 + 2 ^ 153 * unat t3 + 2 ^ 204 * unat t4) mod P25519
         = x mod P25519"
  shows "rep TIGHT (narrow out [t0, t1, t2, t3, t4]) x"
proof -
  obtain c0 c1 c2 c3 c4 where c:
    "Hacl_Bignum_Fproduct_carry_wide' [t0, t1, t2, t3, t4] = [c0, c1, c2, c3, c4]"
    "unat c0 < 2 ^ 51" "unat c1 < 2 ^ 51" "unat c2 < 2 ^ 51" "unat c3 < 2 ^ 51" "unat c4 \<le> TOP + 2 ^ 70"
    "unat c0 + 2 ^ 51 * unat c1 + 2 ^ 102 * unat c2 + 2 ^ 153 * unat c3 + 2 ^ 204 * unat c4
     = unat t0 + 2 ^ 51 * unat t1 + 2 ^ 102 * unat t2 + 2 ^ 153 * unat t3 + 2 ^ 204 * unat t4"
    by (rule f51_carry_wide_correct [OF assms(1-5)])
  obtain e0 e1 e2 e3 e4 q where e:
    "Hacl_Bignum_Fproduct_copy_from_wide' out (fold_top [c0, c1, c2, c3, c4]) = [e0, e1, e2, e3, e4]"
    "unat e0 = unat c0 + 19 * q" "unat e1 = unat c1" "unat e2 = unat c2" "unat e3 = unat c3"
    "unat e4 < 2 ^ 51" "unat c4 = unat e4 + 2 ^ 51 * q"
    by (rule fold_top_correct [OF c(2-6) assms(6)])
  define f0 f1 where f: "f0 = e0 AND mask 51" "f1 = e1 + drop_bit 51 e0"
  have n: "narrow out [t0, t1, t2, t3, t4] = [f0, f1, e2, e3, e4]"
    by (simp add: narrow_def c(1) e(1) Let_def f)
  have f0: "unat f0 = unat e0 mod 2 ^ 51" by (simp add: f unat_and_mask)
  have hi: "unat e0 div 2 ^ 51 < 2 ^ 13"
    using unat_lt_word [of e0] by (intro less_mult_imp_div_less) simp
  then have f1: "unat f1 = unat e1 + unat e0 div 2 ^ 51"
    using c(3) e(3) by (simp add: f unat_add_small unat_drop_bit)
  have "limbs_below TIGHT [f0, f1, e2, e3, e4]"
    using hi c(2-5) e(3-6) f0 f1 by (simp add: limbs_below_cons TIGHT_def trans_less_add1)
  moreover have "fval [f0, f1, e2, e3, e4] + 2 ^ 255 * q =
      unat t0 + 2 ^ 51 * unat t1 + 2 ^ 102 * unat t2 + 2 ^ 153 * unat t3 + 2 ^ 204 * unat t4 + 19 * q"
  proof -
    have "unat e0 mod 2 ^ 51 + 2 ^ 51 * (unat e0 div 2 ^ 51) = unat c0 + 19 * q"
      using e(2) by simp
    then show ?thesis
      unfolding fval_cons f0 f1 e(3-5) by (rule fold5_sum [OF c(7) _ e(7)])
  qed
  then have "int (unat t0 + 2 ^ 51 * unat t1 + 2 ^ 102 * unat t2 + 2 ^ 153 * unat t3 + 2 ^ 204 * unat t4) =
      int (fval [f0, f1, e2, e3, e4]) + P25519 * int q"
    by (rule fold_int)
  ultimately show ?thesis
    using assms(7) by (simp add: rep_def n)
qed


text \<open>The product of two loose elements, and the arithmetic of its reduction: \<open>2 ^ 255 = P25519 + 19\<close>.\<close>

lemma loose_prod:
  assumes "unat x < LOOSE" "unat y < LOOSE"
  shows "unat x * unat y \<le> LOOSE ^ 2"
  using mult_mono [of "unat x" LOOSE "unat y" LOOSE] assms by (simp add: power2_eq_square)

lemma loose_prod_lt:
  assumes "unat x < LOOSE" "unat y < LOOSE"
  shows "unat x * unat y < 2 ^ 116" "19 * unat x * unat y < 2 ^ 116" "38 * unat x * unat y < 2 ^ 116"
    "2 * unat x * unat y < 2 ^ 116"
proof -
  have "unat x * unat y \<le> 2 ^ 110"
    using loose_prod [OF assms] by (simp add: LOOSE_def)
  then show "unat x * unat y < 2 ^ 116" "19 * unat x * unat y < 2 ^ 116" "38 * unat x * unat y < 2 ^ 116"
    "2 * unat x * unat y < 2 ^ 116"
    by simp_all
qed

lemma loose_prod_19:
  fixes x y :: u64
  assumes "unat x < LOOSE" "unat y < LOOSE"
  shows "unat (19 * x) * unat y < 2 ^ 116"
  unfolding unat_times19(1) [OF assms(1)] by (rule loose_prod_lt(2) [OF assms])

lemma product_mod_P25519:
  fixes x0 x1 x2 x3 x4 y0 y1 y2 y3 y4 :: nat
  shows "int ((x0 * y0 + 19 * x4 * y1 + 19 * x3 * y2 + 19 * x2 * y3 + 19 * x1 * y4)
    + 2 ^ 51 * (x1 * y0 + x0 * y1 + 19 * x4 * y2 + 19 * x3 * y3 + 19 * x2 * y4)
    + 2 ^ 102 * (x2 * y0 + x1 * y1 + x0 * y2 + 19 * x4 * y3 + 19 * x3 * y4)
    + 2 ^ 153 * (x3 * y0 + x2 * y1 + x1 * y2 + x0 * y3 + 19 * x4 * y4)
    + 2 ^ 204 * (x4 * y0 + x3 * y1 + x2 * y2 + x1 * y3 + x0 * y4)) mod P25519
    = int (x0 + 2 ^ 51 * x1 + 2 ^ 102 * x2 + 2 ^ 153 * x3 + 2 ^ 204 * x4)
      * int (y0 + 2 ^ 51 * y1 + 2 ^ 102 * y2 + 2 ^ 153 * y3 + 2 ^ 204 * y4) mod P25519"
    (is "int ?t mod _ = int ?x * int ?y mod _")
proof -
  let ?q = "(x4 * y1 + x3 * y2 + x2 * y3 + x1 * y4) + 2 ^ 51 * (x4 * y2 + x3 * y3 + x2 * y4)
    + 2 ^ 102 * (x4 * y3 + x3 * y4) + 2 ^ 153 * (x4 * y4)"
  have "?t + 2 ^ 255 * ?q = ?x * ?y + 19 * ?q"
    by (simp add: algebra_simps)
  then have "int (?x * ?y) = int ?t + P25519 * int ?q"
    by (rule fold_int)
  then show ?thesis
    by (simp only: of_nat_mult [symmetric] mod_mult_self2)
qed

lemma wide_sum_5:
  assumes "unat a1 * unat b1 < 2 ^ 116" "unat a2 * unat b2 < 2 ^ 116" "unat a3 * unat b3 < 2 ^ 116"
    "unat a4 * unat b4 < 2 ^ 116" "unat a5 * unat b5 < 2 ^ 116"
  shows "unat (wide_sum [(a1, b1), (a2, b2), (a3, b3), (a4, b4), (a5, b5)]) =
      unat a1 * unat b1 + unat a2 * unat b2 + unat a3 * unat b3 + unat a4 * unat b4 + unat a5 * unat b5"
    and "unat (wide_sum [(a1, b1), (a2, b2), (a3, b3), (a4, b4), (a5, b5)]) < 2 ^ 120"
proof -
  let ?ps = "[(a1, b1), (a2, b2), (a3, b3), (a4, b4), (a5, b5)]"
  have "unat (wide_sum ?ps) = (\<Sum>(x, y)\<leftarrow>?ps. unat x * unat y) \<and> unat (wide_sum ?ps) \<le> length ?ps * 2 ^ 116"
    using assms by (intro unat_wide_sum) auto
  then show "unat (wide_sum ?ps) =
      unat a1 * unat b1 + unat a2 * unat b2 + unat a3 * unat b3 + unat a4 * unat b4 + unat a5 * unat b5"
    and "unat (wide_sum ?ps) < 2 ^ 120"
    by simp_all
qed

lemma fmul_eq_narrow:
  assumes "length out = 5"
  shows "Hacl_Bignum_Fmul_fmul out [x0, x1, x2, x3, x4] [y0, y1, y2, y3, y4] =
    narrow out (fst (Hacl_Bignum_Fmul_mul_shift_reduce' [0, 0, 0, 0, 0] [x0, x1, x2, x3, x4] [y0, y1, y2, y3, y4]))"
proof -
  obtain t tmp where t: "Hacl_Bignum_Fmul_mul_shift_reduce' [0, 0, 0, 0, 0] [x0, x1, x2, x3, x4] [y0, y1, y2, y3, y4] = (t, tmp)"
    by (cases "Hacl_Bignum_Fmul_mul_shift_reduce' [0, 0, 0, 0, 0] [x0, x1, x2, x3, x4] [y0, y1, y2, y3, y4]")
  have r: "replicate 5 (FStar_UInt128_uint64_to_uint128 0) = [0, 0, 0, 0, 0]"
    by (simp add: eval_nat_numeral FStar_UInt128_uint64_to_uint128_def)
  have b: "blit (replicate 5 0) 0 (take 5 [x0, x1, x2, x3, x4]) = [x0, x1, x2, x3, x4]"
    by (simp add: blit_def)
  have tm: "Hacl_Bignum_Fmul_mul_shift_reduce' (replicate 5 (FStar_UInt128_uint64_to_uint128 0))
      (blit (replicate 5 0) 0 (take 5 [x0, x1, x2, x3, x4])) [y0, y1, y2, y3, y4] = (t, tmp)"
    unfolding b r by (rule t)
  show ?thesis
    unfolding Hacl_Bignum_Fmul_fmul_def Let_def tm prod.case narrow_def fold_top_def mask51 t fst_conv ..
qed

lemma fmul_rep:
  assumes a: "rep LOOSE a x" and b: "rep LOOSE b y" and out: "length out = 5"
  shows "rep TIGHT (Hacl_Bignum_Fmul_fmul out a b) (x * y)"
proof -
  obtain x0 x1 x2 x3 x4 where A: "a = [x0, x1, x2, x3, x4]"
    using rep_length [OF a] by (rule length_5_cases)
  obtain y0 y1 y2 y3 y4 where B: "b = [y0, y1, y2, y3, y4]"
    using rep_length [OF b] by (rule length_5_cases)
  have xl: "unat x0 < LOOSE" "unat x1 < LOOSE" "unat x2 < LOOSE" "unat x3 < LOOSE" "unat x4 < LOOSE"
    and yl: "unat y0 < LOOSE" "unat y1 < LOOSE" "unat y2 < LOOSE" "unat y3 < LOOSE" "unat y4 < LOOSE"
    using a b by (simp_all add: rep_def limbs_below_cons A B)
  note p = loose_prod_lt(1) loose_prod_19
  note w = xl [THEN unat_times19(1)]
  let ?t0 = "wide_sum [(x0, y0), (19 * x4, y1), (19 * x3, y2), (19 * x2, y3), (19 * x1, y4)]"
  let ?t1 = "wide_sum [(x1, y0), (x0, y1), (19 * x4, y2), (19 * x3, y3), (19 * x2, y4)]"
  let ?t2 = "wide_sum [(x2, y0), (x1, y1), (x0, y2), (19 * x4, y3), (19 * x3, y4)]"
  let ?t3 = "wide_sum [(x3, y0), (x2, y1), (x1, y2), (x0, y3), (19 * x4, y4)]"
  let ?t4 = "wide_sum [(x4, y0), (x3, y1), (x2, y2), (x1, y3), (x0, y4)]"
  note t0 = wide_sum_5 [OF p(1) [OF xl(1) yl(1)] p(2) [OF xl(5) yl(2)] p(2) [OF xl(4) yl(3)] p(2) [OF xl(3) yl(4)] p(2) [OF xl(2) yl(5)], unfolded w]
  note t1 = wide_sum_5 [OF p(1) [OF xl(2) yl(1)] p(1) [OF xl(1) yl(2)] p(2) [OF xl(5) yl(3)] p(2) [OF xl(4) yl(4)] p(2) [OF xl(3) yl(5)], unfolded w]
  note t2 = wide_sum_5 [OF p(1) [OF xl(3) yl(1)] p(1) [OF xl(2) yl(2)] p(1) [OF xl(1) yl(3)] p(2) [OF xl(5) yl(4)] p(2) [OF xl(4) yl(5)], unfolded w]
  note t3 = wide_sum_5 [OF p(1) [OF xl(4) yl(1)] p(1) [OF xl(3) yl(2)] p(1) [OF xl(2) yl(3)] p(1) [OF xl(1) yl(4)] p(2) [OF xl(5) yl(5)], unfolded w]
  note t4 = wide_sum_5 [OF p(1) [OF xl(5) yl(1)] p(1) [OF xl(4) yl(2)] p(1) [OF xl(3) yl(3)] p(1) [OF xl(2) yl(4)] p(1) [OF xl(1) yl(5)], unfolded w]
  have "unat ?t4 \<le> TOP"
    using loose_prod [OF xl(5) yl(1)] loose_prod [OF xl(4) yl(2)] loose_prod [OF xl(3) yl(3)]
      loose_prod [OF xl(2) yl(4)] loose_prod [OF xl(1) yl(5)] by (simp add: t4 TOP_def)
  moreover have "int (unat ?t0 + 2 ^ 51 * unat ?t1 + 2 ^ 102 * unat ?t2 + 2 ^ 153 * unat ?t3 + 2 ^ 204 * unat ?t4) mod P25519
    = x * y mod P25519"
    unfolding t0(1) t1(1) t2(1) t3(1) t4(1) product_mod_P25519
    by (rule mod_mult_cong) (use a b in \<open>simp_all only: rep_def A B fval_cons\<close>)
  ultimately show ?thesis
    unfolding A B fmul_eq_narrow [OF out] f51_mul_shift_reduce_eq
    using t0(2) t1(2) t2(2) t3(2) out by (intro narrow_correct)
qed


section \<open>Squaring and the inverse\<close>

lemma wide_sum_3:
  assumes "unat a1 * unat b1 < 2 ^ 116" "unat a2 * unat b2 < 2 ^ 116" "unat a3 * unat b3 < 2 ^ 116"
  shows "unat (wide_sum [(a1, b1), (a2, b2), (a3, b3)]) = unat a1 * unat b1 + unat a2 * unat b2 + unat a3 * unat b3"
    and "unat (wide_sum [(a1, b1), (a2, b2), (a3, b3)]) < 2 ^ 120"
proof -
  let ?ps = "[(a1, b1), (a2, b2), (a3, b3)]"
  have "unat (wide_sum ?ps) = (\<Sum>(x, y)\<leftarrow>?ps. unat x * unat y) \<and> unat (wide_sum ?ps) \<le> length ?ps * 2 ^ 116"
    using assms by (intro unat_wide_sum) auto
  then show "unat (wide_sum ?ps) = unat a1 * unat b1 + unat a2 * unat b2 + unat a3 * unat b3"
    and "unat (wide_sum ?ps) < 2 ^ 120"
    by simp_all
qed

lemma unat_multiples:
  fixes x :: u64
  assumes "unat x < LOOSE"
  shows "unat (x * 2) = 2 * unat x" "unat (x * 2 * 19) = 38 * unat x" "unat (x * 19 * 2) = 38 * unat x"
  using assms by (simp_all add: unat_mult_small LOOSE_def)

lemma loose_prods:
  fixes x y :: u64
  assumes "unat x < LOOSE" "unat y < LOOSE"
  shows "unat x * unat y < 2 ^ 116" "unat (x * 2) * unat y < 2 ^ 116" "unat (x * 2 * 19) * unat y < 2 ^ 116"
    "unat (x * 19 * 2) * unat y < 2 ^ 116" "unat (x * 19) * unat y < 2 ^ 116" "unat y * unat (x * 19) < 2 ^ 116"
  unfolding unat_multiples [OF assms(1)] unat_times19(2) [OF assms(1)] mult.commute [of "unat y"]
  by (rule loose_prod_lt [OF assms])+

lemma fsquare_wide_eq:
  assumes "length tmp = 5"
  shows "Hacl_Bignum_Fsquare_fsquare'' tmp [x0, x1, x2, x3, x4] =
     [wide_sum [(x0, x0), (x4 * 19 * 2, x1), (x2 * 2 * 19, x3)],
      wide_sum [(x0 * 2, x1), (x4 * 19 * 2, x2), (x3 * 19, x3)],
      wide_sum [(x0 * 2, x2), (x1, x1), (x4 * 19 * 2, x3)],
      wide_sum [(x0 * 2, x3), (x1 * 2, x2), (x4, x4 * 19)],
      wide_sum [(x0 * 2, x4), (x1 * 2, x3), (x2, x2)]]"
  using assms by (elim length_5_cases)
    (simp add: Hacl_Bignum_Fsquare_fsquare''_def Let_def wide_sum_def FStar_UInt128_add_def)

lemma fsquare_eq_narrow:
  "snd (Hacl_Bignum_Fsquare_fsquare' tmp out) = narrow out (Hacl_Bignum_Fsquare_fsquare'' tmp out)"
  unfolding Hacl_Bignum_Fsquare_fsquare'_def Let_def narrow_def fold_top_def mask51 snd_conv ..

lemma length_fsquare:
  assumes "length tmp = 5"
  shows "length (fst (Hacl_Bignum_Fsquare_fsquare' tmp out)) = 5"
proof -
  have "length (Hacl_Bignum_Fproduct_carry_wide' t) = length t" for t
    unfolding Hacl_Bignum_Fproduct_carry_wide'_def by (rule for_range_length) (simp add: Let_def)
  moreover have "length (Hacl_Bignum_Fsquare_fsquare'' tmp out) = length tmp"
    by (simp add: Hacl_Bignum_Fsquare_fsquare''_def Let_def)
  ultimately show ?thesis
    using assms by (simp add: Hacl_Bignum_Fsquare_fsquare'_def Let_def)
qed

lemma fsquare_rep:
  assumes a: "rep LOOSE a x" and tmp: "length tmp = 5"
  shows "rep TIGHT (snd (Hacl_Bignum_Fsquare_fsquare' tmp a)) (x ^ 2)"
proof -
  obtain x0 x1 x2 x3 x4 where A: "a = [x0, x1, x2, x3, x4]"
    using rep_length [OF a] by (rule length_5_cases)
  have xl: "unat x0 < LOOSE" "unat x1 < LOOSE" "unat x2 < LOOSE" "unat x3 < LOOSE" "unat x4 < LOOSE"
    using a by (simp_all add: rep_def limbs_below_cons A)
  note p = loose_prods
  note w = xl [THEN unat_times19(2)] xl [THEN unat_multiples(1)] xl [THEN unat_multiples(2)] xl [THEN unat_multiples(3)]
  let ?t0 = "wide_sum [(x0, x0), (x4 * 19 * 2, x1), (x2 * 2 * 19, x3)]"
  let ?t1 = "wide_sum [(x0 * 2, x1), (x4 * 19 * 2, x2), (x3 * 19, x3)]"
  let ?t2 = "wide_sum [(x0 * 2, x2), (x1, x1), (x4 * 19 * 2, x3)]"
  let ?t3 = "wide_sum [(x0 * 2, x3), (x1 * 2, x2), (x4, x4 * 19)]"
  let ?t4 = "wide_sum [(x0 * 2, x4), (x1 * 2, x3), (x2, x2)]"
  note t0 = wide_sum_3 [OF p(1) [OF xl(1) xl(1)] p(4) [OF xl(5) xl(2)] p(3) [OF xl(3) xl(4)], unfolded w]
  note t1 = wide_sum_3 [OF p(2) [OF xl(1) xl(2)] p(4) [OF xl(5) xl(3)] p(5) [OF xl(4) xl(4)], unfolded w]
  note t2 = wide_sum_3 [OF p(2) [OF xl(1) xl(3)] p(1) [OF xl(2) xl(2)] p(4) [OF xl(5) xl(4)], unfolded w]
  note t3 = wide_sum_3 [OF p(2) [OF xl(1) xl(4)] p(2) [OF xl(2) xl(3)] p(6) [OF xl(5) xl(5)], unfolded w]
  note t4 = wide_sum_3 [OF p(2) [OF xl(1) xl(5)] p(2) [OF xl(2) xl(4)] p(1) [OF xl(3) xl(3)], unfolded w]
  have "unat ?t4 \<le> TOP"
    using loose_prod [OF xl(1) xl(5)] loose_prod [OF xl(2) xl(4)] loose_prod [OF xl(3) xl(3)]
    by (simp add: t4 TOP_def)
  moreover have "int (unat ?t0 + 2 ^ 51 * unat ?t1 + 2 ^ 102 * unat ?t2 + 2 ^ 153 * unat ?t3 + 2 ^ 204 * unat ?t4) mod P25519
    = x ^ 2 mod P25519"
  proof -
    have "unat ?t0 + 2 ^ 51 * unat ?t1 + 2 ^ 102 * unat ?t2 + 2 ^ 153 * unat ?t3 + 2 ^ 204 * unat ?t4 =
      (unat x0 * unat x0 + 19 * unat x4 * unat x1 + 19 * unat x3 * unat x2 + 19 * unat x2 * unat x3 + 19 * unat x1 * unat x4)
      + 2 ^ 51 * (unat x1 * unat x0 + unat x0 * unat x1 + 19 * unat x4 * unat x2 + 19 * unat x3 * unat x3 + 19 * unat x2 * unat x4)
      + 2 ^ 102 * (unat x2 * unat x0 + unat x1 * unat x1 + unat x0 * unat x2 + 19 * unat x4 * unat x3 + 19 * unat x3 * unat x4)
      + 2 ^ 153 * (unat x3 * unat x0 + unat x2 * unat x1 + unat x1 * unat x2 + unat x0 * unat x3 + 19 * unat x4 * unat x4)
      + 2 ^ 204 * (unat x4 * unat x0 + unat x3 * unat x1 + unat x2 * unat x2 + unat x1 * unat x3 + unat x0 * unat x4)"
      unfolding t0(1) t1(1) t2(1) t3(1) t4(1) by (simp add: algebra_simps)
    then show ?thesis
      unfolding power2_eq_square by (simp only: product_mod_P25519, intro mod_mult_cong)
        (use a in \<open>simp_all only: rep_def A fval_cons\<close>)
  qed
  ultimately show ?thesis
    unfolding A fsquare_eq_narrow fsquare_wide_eq [OF tmp]
    using t0(2) t1(2) t2(2) t3(2) by (intro narrow_correct) simp_all
qed

text \<open>Repeated squaring.\<close>

lemma fsquare_times'_rep:
  assumes a: "rep LOOSE a x" and tmp: "length tmp = 5" and n: "0 < n"
  shows "rep TIGHT (fst (Hacl_Bignum_Fsquare_fsquare_times' a tmp n)) (x ^ (2 ^ unat n))"
proof -
  define s where "s = Hacl_Bignum_Fsquare_fsquare' tmp a"
  define body where "body = (\<lambda>(_ :: nat) (tmp, input). Hacl_Bignum_Fsquare_fsquare' tmp input)"
  let ?I = "\<lambda>(i :: nat) (t :: u128 list, r). length t = 5 \<and> rep TIGHT r (x ^ (2 ^ i))"
  have "?I (unat n) (for_range 1 (unat n) body s)"
  proof (rule for_range_invariant [where P = ?I])
    show "1 \<le> unat n" using n by (simp add: word_less_nat_alt)
    show "?I 1 s" using fsquare_rep [OF a tmp] length_fsquare [OF tmp] by (simp add: s_def case_prod_beta)
    fix i st
    assume I: "?I i st"
    obtain t r where st: "st = (t, r)" by (cases st)
    have "rep TIGHT (snd (Hacl_Bignum_Fsquare_fsquare' t r)) ((x ^ (2 ^ i)) ^ 2)"
      using I by (intro fsquare_rep rep_loose) (simp_all add: st)
    then show "?I (Suc i) (body i st)"
      using I length_fsquare by (simp add: st body_def case_prod_beta power_mult [symmetric] mult.commute)
  qed
  then show ?thesis
    by (simp add: Hacl_Bignum_Fsquare_fsquare_times'_def s_def body_def case_prod_beta Let_def)
qed

lemma fsquare_times_rep:
  assumes "rep LOOSE a x" "length out = 5" "0 < n"
  shows "rep TIGHT (Hacl_Bignum_Fsquare_fsquare_times out a n) (x ^ (2 ^ unat n))"
  using fsquare_times'_rep [of a x "replicate 5 (FStar_UInt128_uint64_to_uint128 0)" n] assms rep_length [OF assms(1)]
  by (simp add: Hacl_Bignum_Fsquare_fsquare_times_def Let_def case_prod_beta blit_all)

lemma fsquare_times_inplace_rep:
  assumes "rep LOOSE a x" "0 < n"
  shows "rep TIGHT (Hacl_Bignum_Fsquare_fsquare_times_inplace a n) (x ^ (2 ^ unat n))"
  using fsquare_times'_rep [of a x "replicate 5 (FStar_UInt128_uint64_to_uint128 0)" n] assms
  by (simp add: Hacl_Bignum_Fsquare_fsquare_times_inplace_def Let_def case_prod_beta)


text \<open>The inverse: one rule per statement of the addition chain, on the exponents.\<close>

lemma let_buffer:
  "(\<And>v. length v = n \<Longrightarrow> rep B (f v) y) \<Longrightarrow> rep B (let v = replicate n c in f v) y"
  by (simp add: Let_def)

lemma let_slice:
  "length a = m \<Longrightarrow> off + 5 \<le> m \<Longrightarrow> (\<And>v. length v = 5 \<Longrightarrow> rep B (f v) y) \<Longrightarrow>
    rep B (let v = slice off 5 a in f v) y"
  by (simp add: Let_def)

lemma let_copy:
  "rep TIGHT a (z ^ e) \<Longrightarrow> (\<And>v. rep TIGHT v (z ^ e) \<Longrightarrow> rep B (f v) y) \<Longrightarrow> rep B (let v = a in f v) y"
  by (simp add: Let_def)

lemma let_fsquare_times:
  assumes "rep TIGHT a (z ^ e)" "length out = 5" "0 < n"
    and "\<And>v. rep TIGHT v (z ^ (e * 2 ^ unat n)) \<Longrightarrow> rep B (f v) y"
  shows "rep B (let v = Hacl_Bignum_Fsquare_fsquare_times out a n in f v) y"
  unfolding Let_def using assms(1-3)
  by (intro assms(4)) (simp add: fsquare_times_rep rep_loose power_mult)

lemma let_fsquare_times_inplace:
  assumes "rep TIGHT a (z ^ e)" "0 < n"
    and "\<And>v. rep TIGHT v (z ^ (e * 2 ^ unat n)) \<Longrightarrow> rep B (f v) y"
  shows "rep B (let v = Hacl_Bignum_Fsquare_fsquare_times_inplace a n in f v) y"
  unfolding Let_def using assms(1-2)
  by (intro assms(3)) (simp add: fsquare_times_inplace_rep rep_loose power_mult)

lemma fmul_pow:
  "rep TIGHT a (z ^ d) \<Longrightarrow> rep TIGHT b (z ^ e) \<Longrightarrow> length out = 5 \<Longrightarrow>
    rep TIGHT (Hacl_Bignum_Fmul_fmul out a b) (z ^ (d + e))"
  by (simp add: fmul_rep rep_loose power_add)

lemma let_fmul:
  assumes "rep TIGHT a (z ^ d)" "rep TIGHT b (z ^ e)" "length out = 5"
    and "\<And>v. rep TIGHT v (z ^ (d + e)) \<Longrightarrow> rep B (f v) y"
  shows "rep B (let v = Hacl_Bignum_Fmul_fmul out a b in f v) y"
  unfolding Let_def by (intro assms(4) fmul_pow assms(1-3))

lemma crecip_chain:
  assumes z: "rep TIGHT a x" and out: "length out = 5"
  shows "rep TIGHT (Hacl_Bignum_Crecip_crecip out a) (x ^ (2 ^ 255 - 21))"
proof -
  have z1: "rep TIGHT a (x ^ 1)" using z by simp
  then show ?thesis
    using out unfolding Hacl_Bignum_Crecip_crecip_def
    apply -
    apply (rule let_buffer)
    apply ((rule let_slice, assumption, simp)
      | (rule let_fsquare_times, assumption, (assumption | erule rep_length), simp)
      | (rule let_fsquare_times_inplace, assumption, simp)
      | (rule let_fmul, assumption, assumption, (assumption | erule rep_length))
      | (rule let_copy, assumption))+
    apply (rule rep_cong, rule fmul_pow, assumption, assumption, assumption)
    apply simp
    done
qed


lemma crecip_rep:
  assumes "rep TIGHT a x" "length out = 5"
  shows "rep TIGHT (Hacl_Bignum_crecip out a) (field_inv x)"
  unfolding Hacl_Bignum_crecip_def
  by (rule rep_cong [OF crecip_chain [OF assms]]) (simp only: field_inv_def pow_mod_eq)

lemma replicate_5: "replicate 5 z = [z, z, z, z, z]"
  by (simp add: eval_nat_numeral)

section \<open>Sums, differences and small multiples\<close>

lemma fmul_rep':
  "rep LOOSE a x \<Longrightarrow> rep LOOSE b y \<Longrightarrow> length out = 5 \<Longrightarrow> rep TIGHT (Hacl_Bignum_fmul out a b) (x * y)"
  by (simp add: Hacl_Bignum_fmul_def fmul_rep)

lemma fsum_rep:
  assumes a: "rep A a x" and b: "rep B b y" and AB: "A + B \<le> LOOSE"
  shows "rep LOOSE (Hacl_Bignum_fsum a b) (x + y)"
proof -
  obtain x0 x1 x2 x3 x4 where A: "a = [x0, x1, x2, x3, x4]"
    using rep_length [OF a] by (rule length_5_cases)
  obtain y0 y1 y2 y3 y4 where B: "b = [y0, y1, y2, y3, y4]"
    using rep_length [OF b] by (rule length_5_cases)
  have S: "Hacl_Bignum_fsum a b = [x0 + y0, x1 + y1, x2 + y2, x3 + y3, x4 + y4]"
    by (simp add: A B Hacl_Bignum_fsum_def for_range_5 Let_def)
  have s: "unat (u + v) = unat u + unat v \<and> unat (u + v) < LOOSE" if "unat u < A" "unat v < B" for u v :: u64
    using that AB by (simp add: unat_add_small LOOSE_def)
  have xl: "unat x0 < A" "unat x1 < A" "unat x2 < A" "unat x3 < A" "unat x4 < A"
    and yl: "unat y0 < B" "unat y1 < B" "unat y2 < B" "unat y3 < B" "unat y4 < B"
    using a b by (simp_all add: rep_def limbs_below_cons A B)
  note l = s [OF xl(1) yl(1)] s [OF xl(2) yl(2)] s [OF xl(3) yl(3)] s [OF xl(4) yl(4)] s [OF xl(5) yl(5)]
  have "limbs_below LOOSE (Hacl_Bignum_fsum a b)"
    unfolding S limbs_below_cons using l by blast
  moreover have "fval (Hacl_Bignum_fsum a b) = fval a + fval b"
    unfolding S unfolding A B fval_cons using l by (simp add: algebra_simps)
  ultimately show ?thesis
    using a b mod_add_cong [of "int (fval a)" P25519 x "int (fval b)" y] by (simp add: rep_def)
qed

lemma fdifference_rep:
  assumes a: "rep TIGHT a x" and b: "rep TIGHT b y"
  shows "rep LOOSE (Hacl_Bignum_fdifference a b) (y - x)"
proof -
  obtain x0 x1 x2 x3 x4 where A: "a = [x0, x1, x2, x3, x4]"
    using rep_length [OF a] by (rule length_5_cases)
  obtain y0 y1 y2 y3 y4 where B: "b = [y0, y1, y2, y3, y4]"
    using rep_length [OF b] by (rule length_5_cases)
  define d0 d1 d2 d3 d4 where d: "d0 = y0 + 0x3fffffffffff68 - x0" "d1 = y1 + 0x3ffffffffffff8 - x1"
    "d2 = y2 + 0x3ffffffffffff8 - x2" "d3 = y3 + 0x3ffffffffffff8 - x3" "d4 = y4 + 0x3ffffffffffff8 - x4"
  have S: "Hacl_Bignum_fdifference a b = [d0, d1, d2, d3, d4]"
    by (simp add: A B d Hacl_Bignum_fdifference_def for_range_5 Let_def blit_def)
  have s0: "unat d0 + unat x0 = unat y0 + 0x3fffffffffff68 \<and> unat d0 < LOOSE"
    if "unat x0 < TIGHT" "unat y0 < TIGHT"
    using that by (simp add: d unat_add_small unat_sub_small LOOSE_def TIGHT_def)
  have s: "unat (v + 0x3ffffffffffff8 - u) + unat u = unat v + 0x3ffffffffffff8 \<and> unat (v + 0x3ffffffffffff8 - u) < LOOSE"
    if "unat u < TIGHT" "unat v < TIGHT" for u v :: u64
    using that by (simp add: unat_add_small unat_sub_small LOOSE_def TIGHT_def)
  have xl: "unat x0 < TIGHT" "unat x1 < TIGHT" "unat x2 < TIGHT" "unat x3 < TIGHT" "unat x4 < TIGHT"
    and yl: "unat y0 < TIGHT" "unat y1 < TIGHT" "unat y2 < TIGHT" "unat y3 < TIGHT" "unat y4 < TIGHT"
    using a b by (simp_all add: rep_def limbs_below_cons A B)
  note l = s0 [OF xl(1) yl(1)] s [OF xl(2) yl(2), folded d] s [OF xl(3) yl(3), folded d]
    s [OF xl(4) yl(4), folded d] s [OF xl(5) yl(5), folded d]
  have "limbs_below LOOSE (Hacl_Bignum_fdifference a b)"
    unfolding S limbs_below_cons using l by blast
  moreover have "fval (Hacl_Bignum_fdifference a b) + fval a = fval b + 8 * nat P25519"
    using l unfolding S unfolding A B fval_cons by (simp add: P25519_def)
  then have "int (fval (Hacl_Bignum_fdifference a b)) = int (fval b) - int (fval a) + 8 * P25519"
    using P25519_pos by linarith
  ultimately show ?thesis
    using a b mod_diff_cong [of "int (fval b)" P25519 y "int (fval a)" x] by (simp add: rep_def)
qed

text \<open>The limbs of a small multiple.\<close>

definition MEDIUM :: nat where "MEDIUM = 2 ^ 52"

lemma fscalar_rep:
  assumes b: "rep LOOSE b y" and s: "unat s < 2 ^ 17" and out: "length out = 5"
  shows "rep MEDIUM (Hacl_Bignum_fscalar out b s) (int (unat s) * y)"
proof -
  obtain y0 y1 y2 y3 y4 where B: "b = [y0, y1, y2, y3, y4]"
    using rep_length [OF b] by (rule length_5_cases)
  have yl: "unat y0 < LOOSE" "unat y1 < LOOSE" "unat y2 < LOOSE" "unat y3 < LOOSE" "unat y4 < LOOSE"
    using b by (simp_all add: rep_def limbs_below_cons B)
  let ?m = "\<lambda>v. FStar_UInt128_mul_wide v s"
  have m: "unat (?m v) = unat v * unat s" for v by (simp add: native.val_mulw)
  have m_lt: "unat (?m v) < 2 ^ 72" if "unat v < LOOSE" for v
    unfolding m using mult_strict_mono [of "unat v" LOOSE "unat s" "2 ^ 17"] that s by (simp add: LOOSE_def)
  have E: "Hacl_Bignum_fscalar out b s = Hacl_Bignum_Fproduct_copy_from_wide' out
      (fold_top (Hacl_Bignum_Fproduct_carry_wide' [?m y0, ?m y1, ?m y2, ?m y3, ?m y4]))"
  proof -
    have "for_range 0 5 (\<lambda>i tmp. let xi = b ! i in tmp[i := FStar_UInt128_mul_wide xi s])
        (replicate 5 (FStar_UInt128_uint64_to_uint128 0)) = [?m y0, ?m y1, ?m y2, ?m y3, ?m y4]"
      by (simp add: B for_range_5 Let_def replicate_5)
    then show ?thesis
      by (simp only: Hacl_Bignum_fscalar_def Let_def fold_top_def mask51)
  qed
  have t: "unat (?m y0) < 2 ^ 120" "unat (?m y1) < 2 ^ 120" "unat (?m y2) < 2 ^ 120" "unat (?m y3) < 2 ^ 120"
    "unat (?m y4) \<le> TOP"
    using yl [THEN m_lt] by (simp_all add: TOP_def LOOSE_def)
  obtain c0 c1 c2 c3 c4 where c:
    "Hacl_Bignum_Fproduct_carry_wide' [?m y0, ?m y1, ?m y2, ?m y3, ?m y4] = [c0, c1, c2, c3, c4]"
    "unat c0 < 2 ^ 51" "unat c1 < 2 ^ 51" "unat c2 < 2 ^ 51" "unat c3 < 2 ^ 51" "unat c4 \<le> TOP + 2 ^ 70"
    "unat c0 + 2 ^ 51 * unat c1 + 2 ^ 102 * unat c2 + 2 ^ 153 * unat c3 + 2 ^ 204 * unat c4
     = unat (?m y0) + 2 ^ 51 * unat (?m y1) + 2 ^ 102 * unat (?m y2) + 2 ^ 153 * unat (?m y3) + 2 ^ 204 * unat (?m y4)"
    by (rule f51_carry_wide_correct [OF t])
  obtain e0 e1 e2 e3 e4 q where e:
    "Hacl_Bignum_Fproduct_copy_from_wide' out (fold_top [c0, c1, c2, c3, c4]) = [e0, e1, e2, e3, e4]"
    "unat e0 = unat c0 + 19 * q" "unat e1 = unat c1" "unat e2 = unat c2" "unat e3 = unat c3"
    "unat e4 < 2 ^ 51" "unat c4 = unat e4 + 2 ^ 51 * q"
    by (rule fold_top_correct [OF c(2-6) out])
  have T: "unat (?m y0) + 2 ^ 51 * unat (?m y1) + 2 ^ 102 * unat (?m y2) + 2 ^ 153 * unat (?m y3) + 2 ^ 204 * unat (?m y4)
      = unat s * fval b"
    unfolding m B fval_cons by (simp add: algebra_simps)
  have "2 ^ 204 * unat c4 < 2 ^ 277"
  proof -
    have "unat (?m y0) + 2 ^ 51 * unat (?m y1) + 2 ^ 102 * unat (?m y2) + 2 ^ 153 * unat (?m y3) + 2 ^ 204 * unat (?m y4) < 2 ^ 277"
      using yl [THEN m_lt] by simp
    then show ?thesis using c(7) by linarith
  qed
  then have q: "q < 2 ^ 22"
    using e(7) by simp
  have F: "Hacl_Bignum_fscalar out b s = [e0, e1, e2, e3, e4]"
    by (simp only: E c(1) e(1))
  have "limbs_below MEDIUM [e0, e1, e2, e3, e4]"
    using q c(2-5) e(2-6) by (simp add: limbs_below_cons MEDIUM_def)
  moreover have "fval [e0, e1, e2, e3, e4] + 2 ^ 255 * q = unat s * fval b + 19 * q"
    using c(7) e(7) unfolding T fval_cons e(2-5) by simp
  then have "int (unat s * fval b) = int (fval [e0, e1, e2, e3, e4]) + P25519 * int q"
    by (rule fold_int)
  then have "int (fval [e0, e1, e2, e3, e4]) mod P25519 = int (unat s) * int (fval b) mod P25519"
    by (simp only: of_nat_mult [symmetric] mod_mult_self2)
  moreover have "int (unat s) * int (fval b) mod P25519 = int (unat s) * y mod P25519"
    using b by (intro mod_mult_cong refl) (simp add: rep_def)
  ultimately show ?thesis
    unfolding rep_def F by metis
qed

section \<open>Properties\<close>

text \<open>C13. Field multiplication with delayed carries never overflows: for limbs as large as a sum or a difference of two
  products has them (below \<open>2 ^ 54 + 2 ^ 51 + 2 ^ 13\<close>), the product and the square have limbs below \<open>2 ^ 51 + 2 ^ 13\<close> and are
  congruent to the product of the values modulo \<open>2 ^ 255 - 19\<close>, whatever the output and scratch buffers held.\<close>

theorem field_multiplication_bounds:
  assumes "limbs_below LOOSE a" "limbs_below LOOSE b" "length out = 5" "length tmp = 5"
  shows "limbs_below TIGHT (Hacl_Bignum_Fmul_fmul out a b)
    \<and> int (fval (Hacl_Bignum_Fmul_fmul out a b)) mod P25519 = int (fval a) * int (fval b) mod P25519
    \<and> limbs_below TIGHT (snd (Hacl_Bignum_Fsquare_fsquare' tmp a))
    \<and> int (fval (snd (Hacl_Bignum_Fsquare_fsquare' tmp a))) mod P25519 = int (fval a) ^ 2 mod P25519"
  using fmul_rep [of a "int (fval a)" b "int (fval b)" out] fsquare_rep [of a "int (fval a)" tmp] assms
  by (simp add: rep_def)

theorem field_multiplication_bounds_witness:
  "limbs_below TIGHT (Hacl_Bignum_Fmul_fmul [0, 0, 0, 0, 0] (replicate 5 0x47ffffffffffff) (replicate 5 0x47ffffffffffff))"
  using field_multiplication_bounds [of "replicate 5 0x47ffffffffffff" "replicate 5 0x47ffffffffffff" "[0, 0, 0, 0, 0]" "[0, 0, 0, 0, 0]"]
  by (simp add: limbs_below_def LOOSE_def replicate_5)

text \<open>The addition chain of the inverse computes the power \<open>2 ^ 255 - 21\<close>, that is \<open>p - 2\<close>.\<close>

theorem crecip_is_power:
  assumes "limbs_below TIGHT a" "length out = 5"
  shows "limbs_below TIGHT (Hacl_Bignum_crecip out a)
    \<and> int (fval (Hacl_Bignum_crecip out a)) mod P25519 = int (fval a) ^ (2 ^ 255 - 21) mod P25519"
  using crecip_chain [of a "int (fval a)" out] assms by (simp only: rep_def Hacl_Bignum_crecip_def)

theorem crecip_is_power_witness: "limbs_below TIGHT (Hacl_Bignum_crecip [0, 0, 0, 0, 0] [7, 0, 0, 0, 0])"
  by (rule crecip_is_power [THEN conjunct1]) (simp_all add: limbs_below_def TIGHT_def)

end
