(* ===== verification/Hacl_EC_Format.thy ===== *)
theory Hacl_EC_Format
  imports Hacl_Field51
begin

text \<open>
  Field elements as 32 bytes (the \<^verbatim>\<open>Hacl_EC_Format\<close> functions of \<^verbatim>\<open>Hacl_Curve25519.c\<close>, repeated in
  \<^verbatim>\<open>Hacl_Ed25519.c\<close>): expansion into limbs, reduction to the canonical representative, and packing.
\<close>

section \<open>The code\<close>

definition Hacl_EC_Format_fexpand :: "u64 list \<Rightarrow> bytes \<Rightarrow> u64 list" where
  "Hacl_EC_Format_fexpand output input =
     (let i0 = load64_le input;
          x00 = drop 6 input;
          i1 = load64_le x00;
          x01 = drop 12 input;
          i2 = load64_le x01;
          x02 = drop 19 input;
          i3 = load64_le x02;
          x0 = drop 24 input;
          i4 = load64_le x0;
          output0 = i0 AND 0x7ffffffffffff;
          output1 = drop_bit 3 i1 AND 0x7ffffffffffff;
          output2 = drop_bit 6 i2 AND 0x7ffffffffffff;
          output3 = drop_bit 1 i3 AND 0x7ffffffffffff;
          output4 = drop_bit 12 i4 AND 0x7ffffffffffff;
          output = output[0 := output0];
          output = output[1 := output1];
          output = output[2 := output2];
          output = output[3 := output3]
      in output[4 := output4])"

definition Hacl_EC_Format_fcontract_first_carry_pass :: "u64 list \<Rightarrow> u64 list" where
  "Hacl_EC_Format_fcontract_first_carry_pass input =
     (let t0 = input ! 0;
          t1 = input ! 1;
          t2 = input ! 2;
          t3 = input ! 3;
          t4 = input ! 4;
          t1' = t1 + drop_bit 51 t0;
          t0' = t0 AND 0x7ffffffffffff;
          t2' = t2 + drop_bit 51 t1';
          t1'' = t1' AND 0x7ffffffffffff;
          t3' = t3 + drop_bit 51 t2';
          t2'' = t2' AND 0x7ffffffffffff;
          t4' = t4 + drop_bit 51 t3';
          t3'' = t3' AND 0x7ffffffffffff;
          input = input[0 := t0'];
          input = input[1 := t1''];
          input = input[2 := t2''];
          input = input[3 := t3'']
      in input[4 := t4'])"

definition Hacl_EC_Format_fcontract_first_carry_full :: "u64 list \<Rightarrow> u64 list" where
  "Hacl_EC_Format_fcontract_first_carry_full input =
     (let input = Hacl_EC_Format_fcontract_first_carry_pass input
      in Hacl_Bignum_Modulo_carry_top input)"

definition Hacl_EC_Format_fcontract_second_carry_pass :: "u64 list \<Rightarrow> u64 list" where
  "Hacl_EC_Format_fcontract_second_carry_pass input =
     (let t0 = input ! 0;
          t1 = input ! 1;
          t2 = input ! 2;
          t3 = input ! 3;
          t4 = input ! 4;
          t1' = t1 + drop_bit 51 t0;
          t0' = t0 AND 0x7ffffffffffff;
          t2' = t2 + drop_bit 51 t1';
          t1'' = t1' AND 0x7ffffffffffff;
          t3' = t3 + drop_bit 51 t2';
          t2'' = t2' AND 0x7ffffffffffff;
          t4' = t4 + drop_bit 51 t3';
          t3'' = t3' AND 0x7ffffffffffff;
          input = input[0 := t0'];
          input = input[1 := t1''];
          input = input[2 := t2''];
          input = input[3 := t3'']
      in input[4 := t4'])"

definition Hacl_EC_Format_fcontract_second_carry_full :: "u64 list \<Rightarrow> u64 list" where
  "Hacl_EC_Format_fcontract_second_carry_full input =
     (let input = Hacl_EC_Format_fcontract_second_carry_pass input;
          input = Hacl_Bignum_Modulo_carry_top input;
          i0 = input ! 0;
          i1 = input ! 1;
          i0' = i0 AND 0x7ffffffffffff;
          i1' = i1 + drop_bit 51 i0;
          input = input[0 := i0']
      in input[1 := i1'])"

definition Hacl_EC_Format_fcontract_trim :: "u64 list \<Rightarrow> u64 list" where
  "Hacl_EC_Format_fcontract_trim input =
     (let a0 = input ! 0;
          a1 = input ! 1;
          a2 = input ! 2;
          a3 = input ! 3;
          a4 = input ! 4;
          mask0 = FStar_UInt64_gte_mask a0 0x7ffffffffffed;
          mask1 = FStar_UInt64_eq_mask a1 0x7ffffffffffff;
          mask2 = FStar_UInt64_eq_mask a2 0x7ffffffffffff;
          mask3 = FStar_UInt64_eq_mask a3 0x7ffffffffffff;
          mask4 = FStar_UInt64_eq_mask a4 0x7ffffffffffff;
          mask = (((mask0 AND mask1) AND mask2) AND mask3) AND mask4;
          a0' = a0 - (0x7ffffffffffed AND mask);
          a1' = a1 - (0x7ffffffffffff AND mask);
          a2' = a2 - (0x7ffffffffffff AND mask);
          a3' = a3 - (0x7ffffffffffff AND mask);
          a4' = a4 - (0x7ffffffffffff AND mask);
          input = input[0 := a0'];
          input = input[1 := a1'];
          input = input[2 := a2'];
          input = input[3 := a3']
      in input[4 := a4'])"

definition Hacl_EC_Format_fcontract_store :: "bytes \<Rightarrow> u64 list \<Rightarrow> bytes" where
  "Hacl_EC_Format_fcontract_store output input =
     (let t0 = input ! 0;
          t1 = input ! 1;
          t2 = input ! 2;
          t3 = input ! 3;
          t4 = input ! 4;
          o0 = push_bit 51 t1 OR t0;
          o1 = push_bit 38 t2 OR drop_bit 13 t1;
          o2 = push_bit 25 t3 OR drop_bit 26 t2;
          o3 = push_bit 12 t4 OR drop_bit 39 t3;
          output = store64_le output o0;
          output = at_off 8 (\<lambda>b1. store64_le b1 o1) output;
          output = at_off 16 (\<lambda>b2. store64_le b2 o2) output
      in at_off 24 (\<lambda>b3. store64_le b3 o3) output)"

definition Hacl_EC_Format_fcontract :: "bytes \<Rightarrow> u64 list \<Rightarrow> bytes" where
  "Hacl_EC_Format_fcontract output input =
     (let input = Hacl_EC_Format_fcontract_first_carry_full input;
          input = Hacl_EC_Format_fcontract_second_carry_full input;
          input = Hacl_EC_Format_fcontract_trim input
      in Hacl_EC_Format_fcontract_store output input)"

section \<open>Expansion\<close>

lemma le_nat_drop: "le_nat (drop k b) = le_nat b div 256 ^ k"
proof (cases "k \<le> length b")
  case True
  have "le_nat b = le_nat (take k b) + 256 ^ k * le_nat (drop k b)"
    using le_nat_append [of "take k b" "drop k b"] True by simp
  moreover have "le_nat (take k b) < 256 ^ k"
    using le_nat_lt [of "take k b"] True by simp
  ultimately show ?thesis by simp
next
  case False
  moreover have "le_nat b < 256 ^ k"
    using le_nat_lt [of b] False by (metis le_less_trans less_imp_le not_le power_increasing one_le_numeral order_less_le_trans)
  ultimately show ?thesis by simp
qed

lemma le_nat_take: "k \<le> length b \<Longrightarrow> le_nat (take k b) = le_nat b mod 256 ^ k"
  using le_nat_append [of "take k b" "drop k b"] le_nat_lt [of "take k b"] by simp

lemma eight: "(2 :: nat) ^ 8 = 256"
  by simp

lemma load_limb:
  assumes "off + 8 \<le> length b" and "s + 51 \<le> 64"
  shows "unat (drop_bit s (load64_le (drop off b)) AND 0x7ffffffffffff) = le_nat b div 2 ^ (8 * off + s) mod 2 ^ 51"
proof -
  have "unat (load64_le (drop off b)) = le_nat b div 256 ^ off mod 2 ^ 64"
    using assms by (simp add: load64_le_def unat_load64 le_nat_take le_nat_drop)
  then have "unat (drop_bit s (load64_le (drop off b)) AND 0x7ffffffffffff) =
      take_bit 51 (drop_bit s (take_bit 64 (drop_bit (8 * off) (le_nat b))))"
    unfolding mask51 unat_and_mask unat_drop_bit
    by (simp only: take_bit_eq_mod drop_bit_eq_div power_mult eight)
  also have "\<dots> = take_bit 51 (drop_bit (8 * off + s) (le_nat b))"
    using assms(2) by (intro bit_eqI) (auto simp: bit_simps ac_simps)
  finally show ?thesis
    by (simp only: take_bit_eq_mod drop_bit_eq_div)
qed

lemma digits51:
  fixes n :: nat
  shows "n mod 2 ^ 51 + 2 ^ 51 * (n div 2 ^ 51 mod 2 ^ 51) + 2 ^ 102 * (n div 2 ^ 102 mod 2 ^ 51)
    + 2 ^ 153 * (n div 2 ^ 153 mod 2 ^ 51) + 2 ^ 204 * (n div 2 ^ 204 mod 2 ^ 51) = n mod 2 ^ 255"
proof -
  have s: "n mod 2 ^ (k + 51) = 2 ^ k * (n div 2 ^ k mod 2 ^ 51) + n mod 2 ^ k" for k
    by (simp only: power_add mod_mult2_eq)
  show ?thesis
    using s [of 51] s [of 102] s [of 153] s [of 204] by simp
qed

lemma fexpand_value:
  assumes "32 \<le> length input" "length out = 5"
  shows "limbs_below (2 ^ 51) (Hacl_EC_Format_fexpand out input)
    \<and> fval (Hacl_EC_Format_fexpand out input) = le_nat (take 32 input) mod 2 ^ 255"
proof -
  let ?b = "take 32 input"
  have ld: "load64_le (drop off input) = load64_le (drop off ?b)" if "off + 8 \<le> 32" for off
    using assms that by (intro word_unat_eqI) (simp add: load64_le_def unat_load64 drop_take)
  define l where "l off s = drop_bit s (load64_le (drop off ?b)) AND (0x7ffffffffffff :: u64)" for off s
  have L: "unat (l off s) = le_nat ?b div 2 ^ (8 * off + s) mod 2 ^ 51" if "off + 8 \<le> 32" "s + 51 \<le> 64" for off s
    using assms that by (simp only: l_def) (rule load_limb; simp)
  have E: "Hacl_EC_Format_fexpand out input = [l 0 0, l 6 3, l 12 6, l 19 1, l 24 12]"
    using assms(2) ld [of 0] ld [of 6] ld [of 12] ld [of 19] ld [of 24]
    by (elim length_5_cases) (simp add: Hacl_EC_Format_fexpand_def Let_def l_def)
  define n where "n = le_nat ?b"
  have u: "unat (l 0 0) = n mod 2 ^ 51" "unat (l 6 3) = n div 2 ^ 51 mod 2 ^ 51"
    "unat (l 12 6) = n div 2 ^ 102 mod 2 ^ 51" "unat (l 19 1) = n div 2 ^ 153 mod 2 ^ 51"
    "unat (l 24 12) = n div 2 ^ 204 mod 2 ^ 51"
    by (subst L; simp add: n_def)+
  show ?thesis
    unfolding E fval_cons limbs_below_cons u digits51 n_def [symmetric] by (intro conjI mod_less_divisor refl; simp)
qed

lemma fexpand_rep:
  assumes "32 \<le> length input" "length out = 5"
  shows "rep TIGHT (Hacl_EC_Format_fexpand out input) (int (le_nat (take 32 input) mod 2 ^ 255))"
  using fexpand_value [OF assms] by (auto simp: rep_def limbs_below_def TIGHT_def)


section \<open>Canonical form\<close>

lemma second_pass_eq: "Hacl_EC_Format_fcontract_second_carry_pass = Hacl_EC_Format_fcontract_first_carry_pass"
  by (simp add: fun_eq_iff Hacl_EC_Format_fcontract_first_carry_pass_def Hacl_EC_Format_fcontract_second_carry_pass_def)

lemma carry_pass_correct:
  assumes "unat t0 < 2 ^ 63" "unat t1 < 2 ^ 62" "unat t2 < 2 ^ 62" "unat t3 < 2 ^ 62" "unat t4 < 2 ^ 62"
  obtains c0 c1 c2 c3 c4 where
    "Hacl_EC_Format_fcontract_first_carry_pass [t0, t1, t2, t3, t4] = [c0, c1, c2, c3, c4]"
    "unat c0 < 2 ^ 51" "unat c1 < 2 ^ 51" "unat c2 < 2 ^ 51" "unat c3 < 2 ^ 51" "unat c4 < 2 ^ 63"
    "fval [c0, c1, c2, c3, c4] = fval [t0, t1, t2, t3, t4]"
proof -
  define lo where "lo t = t AND mask 51" for t :: u64
  define s1 s2 s3 s4 where s: "s1 = t1 + drop_bit 51 t0" "s2 = t2 + drop_bit 51 s1" "s3 = t3 + drop_bit 51 s2"
    "s4 = t4 + drop_bit 51 s3"
  have E: "Hacl_EC_Format_fcontract_first_carry_pass [t0, t1, t2, t3, t4] = [lo t0, lo s1, lo s2, lo s3, s4]"
    by (simp add: Hacl_EC_Format_fcontract_first_carry_pass_def Let_def mask51 lo_def s)
  have lo: "unat (lo t) = unat t mod 2 ^ 51" for t
    by (simp add: lo_def unat_and_mask)
  have up: "unat (b + drop_bit 51 a) = unat b + unat a div 2 ^ 51 \<and> unat (b + drop_bit 51 a) < 2 ^ 63"
    if "unat b < 2 ^ 62" "unat a < 2 ^ 63" for a b :: u64
    using that by (simp add: unat_add_small unat_drop_bit)
  have s1: "unat s1 = unat t1 + unat t0 div 2 ^ 51" "unat s1 < 2 ^ 63"
    using up [OF assms(2,1)] by (simp_all add: s)
  have s2: "unat s2 = unat t2 + unat s1 div 2 ^ 51" "unat s2 < 2 ^ 63"
    using up [OF assms(3) s1(2)] by (simp_all add: s)
  have s3: "unat s3 = unat t3 + unat s2 div 2 ^ 51" "unat s3 < 2 ^ 63"
    using up [OF assms(4) s2(2)] by (simp_all add: s)
  have s4: "unat s4 = unat t4 + unat s3 div 2 ^ 51" "unat s4 < 2 ^ 63"
    using up [OF assms(5) s3(2)] by (simp_all add: s)
  have "fval [lo t0, lo s1, lo s2, lo s3, s4] = fval [t0, t1, t2, t3, t4]"
    unfolding fval_cons lo s4
    by (rule carry5_sum [where ka = "unat t0 div 2 ^ 51" and kb = "unat s1 div 2 ^ 51" and kc = "unat s2 div 2 ^ 51"])
      (simp_all only: s1(1) [symmetric] s2(1) [symmetric] s3(1) [symmetric] mod_mult_div_eq)
  then show thesis
    using E s4(2) by (intro that [of "lo t0" "lo s1" "lo s2" "lo s3" s4]) (simp_all add: lo)
qed

lemma carry_top_correct51:
  assumes "unat t0 < 2 ^ 63" "unat t4 < 2 ^ 63"
  obtains c0 c4 q where "Hacl_Bignum_Modulo_carry_top [t0, t1, t2, t3, t4] = [c0, t1, t2, t3, c4]"
    "unat c4 < 2 ^ 51" "unat c0 = unat t0 + 19 * q" "unat t4 = unat c4 + 2 ^ 51 * q" "q < 2 ^ 12"
    "fval [c0, t1, t2, t3, c4] + q * nat P25519 = fval [t0, t1, t2, t3, t4]"
proof -
  define c0 c4 q where c: "c0 = t0 + 19 * drop_bit 51 t4" "c4 = t4 AND mask 51" "q = unat t4 div 2 ^ 51"
  have q: "q < 2 ^ 12"
    using assms(2) unfolding c(3) by (intro less_mult_imp_div_less) simp
  have "unat (19 * drop_bit 51 t4) = 19 * q"
    using q by (simp add: unat_mult_small unat_drop_bit c(3))
  then have c0: "unat c0 = unat t0 + 19 * q"
    using q assms(1) by (simp add: c(1) unat_add_small)
  have c4: "unat c4 = unat t4 mod 2 ^ 51"
    by (simp add: c(2) unat_and_mask)
  have t4: "unat t4 = unat c4 + 2 ^ 51 * q"
    unfolding c4 c(3) by simp
  have "fval [c0, t1, t2, t3, c4] + q * nat P25519 = fval [t0, t1, t2, t3, t4]"
    unfolding fval_cons c0 t4 by (simp add: P25519_def)
  moreover have "Hacl_Bignum_Modulo_carry_top [t0, t1, t2, t3, t4] = [c0, t1, t2, t3, c4]"
    by (simp add: Hacl_Bignum_Modulo_carry_top_def Let_def mask51 c)
  ultimately show thesis
    using q t4 c0 by (intro that [of c0 c4 q]) (simp_all add: c4)
qed

lemma trim_correct:
  assumes "limbs_below (2 ^ 51) a"
  shows "limbs_below (2 ^ 51) (Hacl_EC_Format_fcontract_trim a)
    \<and> fval (Hacl_EC_Format_fcontract_trim a) = fval a mod nat P25519"
proof -
  have len: "length a = 5" using assms by (simp add: limbs_below_def)
  obtain a0 a1 a2 a3 a4 where A: "a = [a0, a1, a2, a3, a4]"
    using len by (rule length_5_cases)
  have l: "unat a0 < 2 ^ 51" "unat a1 < 2 ^ 51" "unat a2 < 2 ^ 51" "unat a3 < 2 ^ 51" "unat a4 < 2 ^ 51"
    using assms by (simp_all add: A limbs_below_cons)
  have m0: "FStar_UInt64_gte_mask a0 0x7ffffffffffed = (if 0x7ffffffffffed \<le> unat a0 then -1 else 0)"
    using l(1) by (subst FStar_UInt64_gte_mask_low) (simp_all add: word_le_nat_alt)
  have m: "FStar_UInt64_eq_mask v 0x7ffffffffffff = (if unat v = 0x7ffffffffffff then -1 else 0)" for v
    by (simp add: FStar_UInt64_eq_mask_correct word_unat_eq_iff)
  have P: "nat P25519 = 2 ^ 255 - 19" by (simp add: P25519_def)
  show ?thesis
  proof (cases "0x7ffffffffffed \<le> unat a0 \<and> unat a1 = 0x7ffffffffffff \<and> unat a2 = 0x7ffffffffffff
      \<and> unat a3 = 0x7ffffffffffff \<and> unat a4 = 0x7ffffffffffff")
    case True
    then have "a1 = 0x7ffffffffffff" "a2 = 0x7ffffffffffff" "a3 = 0x7ffffffffffff" "a4 = 0x7ffffffffffff"
      by (simp_all add: word_unat_eq_iff)
    then have E: "Hacl_EC_Format_fcontract_trim a = [a0 - 0x7ffffffffffed, 0, 0, 0, 0]"
      using True by (simp add: Hacl_EC_Format_fcontract_trim_def Let_def A m0 m)
    have u: "unat (a0 - 0x7ffffffffffed) = unat a0 - 0x7ffffffffffed"
      using True by (simp add: unat_sub_small)
    have "fval a = (unat a0 - 0x7ffffffffffed) + nat P25519"
      using True by (simp add: A fval_cons P)
    then show ?thesis
      using l(1) unfolding E fval_cons limbs_below_cons u by (simp add: P)
  next
    case False
    then have E: "Hacl_EC_Format_fcontract_trim a = a"
      by (auto simp: Hacl_EC_Format_fcontract_trim_def Let_def A m0 m)
    have "fval a < nat P25519"
      using l False by (simp add: A fval_cons P) linarith
    then show ?thesis using assms by (simp add: E)
  qed
qed


lemma carry_full_correct:
  assumes "limbs_below (2 ^ 62) a"
  defines "c \<equiv> Hacl_EC_Format_fcontract_second_carry_full (Hacl_EC_Format_fcontract_first_carry_full a)"
  shows "limbs_below (2 ^ 51) c \<and> (\<exists>q. fval c + q * nat P25519 = fval a)"
proof -
  have len: "length a = 5" using assms(1) by (simp add: limbs_below_def)
  obtain a0 a1 a2 a3 a4 where A: "a = [a0, a1, a2, a3, a4]"
    using len by (rule length_5_cases)
  have al: "unat a0 < 2 ^ 63" "unat a1 < 2 ^ 62" "unat a2 < 2 ^ 62" "unat a3 < 2 ^ 62" "unat a4 < 2 ^ 62"
    using assms(1) by (simp_all add: A limbs_below_cons)
  obtain b0 b1 b2 b3 b4 where b: "Hacl_EC_Format_fcontract_first_carry_pass [a0, a1, a2, a3, a4] = [b0, b1, b2, b3, b4]"
    "unat b0 < 2 ^ 51" "unat b1 < 2 ^ 51" "unat b2 < 2 ^ 51" "unat b3 < 2 ^ 51" "unat b4 < 2 ^ 63"
    "fval [b0, b1, b2, b3, b4] = fval [a0, a1, a2, a3, a4]"
    by (rule carry_pass_correct [OF al])
  have "unat b0 < 2 ^ 63" using b(2) by simp
  then obtain c0 c4 p where c: "Hacl_Bignum_Modulo_carry_top [b0, b1, b2, b3, b4] = [c0, b1, b2, b3, c4]"
    "unat c4 < 2 ^ 51" "unat c0 = unat b0 + 19 * p" "unat b4 = unat c4 + 2 ^ 51 * p" "p < 2 ^ 12"
    "fval [c0, b1, b2, b3, c4] + p * nat P25519 = fval [b0, b1, b2, b3, b4]"
    using b(6) by (rule carry_top_correct51)
  have cl: "unat c0 < 2 ^ 63" "unat b1 < 2 ^ 62" "unat b2 < 2 ^ 62" "unat b3 < 2 ^ 62" "unat c4 < 2 ^ 62"
    using b(2-5) c(2,3,5) by simp_all
  obtain d0 d1 d2 d3 d4 where d: "Hacl_EC_Format_fcontract_first_carry_pass [c0, b1, b2, b3, c4] = [d0, d1, d2, d3, d4]"
    "unat d0 < 2 ^ 51" "unat d1 < 2 ^ 51" "unat d2 < 2 ^ 51" "unat d3 < 2 ^ 51" "unat d4 < 2 ^ 63"
    "fval [d0, d1, d2, d3, d4] = fval [c0, b1, b2, b3, c4]"
    by (rule carry_pass_correct [OF cl])
  have "unat d0 < 2 ^ 63" using d(2) by simp
  then obtain e0 e4 q where e: "Hacl_Bignum_Modulo_carry_top [d0, d1, d2, d3, d4] = [e0, d1, d2, d3, e4]"
    "unat e4 < 2 ^ 51" "unat e0 = unat d0 + 19 * q" "unat d4 = unat e4 + 2 ^ 51 * q" "q < 2 ^ 12"
    "fval [e0, d1, d2, d3, e4] + q * nat P25519 = fval [d0, d1, d2, d3, d4]"
    using d(6) by (rule carry_top_correct51)
  have small: "unat d0 + 2 ^ 255 * q < 2 ^ 255 + 2 ^ 17"
  proof -
    have "fval [c0, b1, b2, b3, c4] < 2 ^ 255 + 2 ^ 17"
      using b(2-5) c(2,3,5) unfolding fval_cons by simp
    moreover have "unat d0 + 2 ^ 255 * q \<le> fval [d0, d1, d2, d3, d4]"
      unfolding fval_cons e(4) by simp
    ultimately show ?thesis using d(7) by simp
  qed
  have e0: "unat e0 < 2 ^ 51"
  proof (cases "q = 0")
    case True
    then show ?thesis using e(3) d(2) by simp
  next
    case False
    then have "q = 1" using small by simp
    then show ?thesis using small e(3) by simp
  qed
  then have "e0 AND mask 51 = e0" "drop_bit 51 e0 = 0"
    by (simp_all add: word_unat_eq_iff unat_and_mask unat_drop_bit)
  then have C: "c = [e0, d1, d2, d3, e4]"
    by (simp add: c_def A Hacl_EC_Format_fcontract_first_carry_full_def Hacl_EC_Format_fcontract_second_carry_full_def
        Let_def second_pass_eq b(1) c(1) d(1) e(1) mask51)
  have "fval c + (p + q) * nat P25519 = fval a"
    using b(7) c(6) d(7) e(6) by (simp add: C A algebra_simps)
  then show ?thesis
    using e0 d(3-5) e(2) by (auto simp: C limbs_below_cons)
qed

section \<open>Packing\<close>

lemma unat_or_push_wrap:
  fixes x y :: u64
  assumes "unat x < 2 ^ n" "n + k = 64"
  shows "unat (push_bit n y OR x) = unat x + 2 ^ n * (unat y mod 2 ^ k)"
proof -
  have "push_bit n y = push_bit n (take_bit k y)"
    using assms(2) by (intro bit_word_eqI) (auto simp: bit_simps)
  then have "push_bit n y OR x = x OR push_bit n (take_bit k y)"
    by (simp add: or.commute)
  moreover have "unat (x OR push_bit n (take_bit k y)) = unat x + unat (take_bit k y) * 2 ^ n"
  proof (rule unat_or_push_bit [OF assms(1)])
    define m where "m = unat y mod 2 ^ k"
    have "m + 1 \<le> 2 ^ k" by (simp add: m_def Suc_leI)
    then have "(m + 1) * 2 ^ n \<le> 2 ^ k * 2 ^ n" by (rule mult_le_mono1)
    also have "\<dots> = 2 ^ 64"
      unfolding assms(2) [symmetric] power_add by (rule mult.commute)
    finally have "m * 2 ^ n + 2 ^ n \<le> 2 ^ 64" by (simp only: distrib_right mult_1)
    then have "unat x + m * 2 ^ n < 2 ^ 64" using assms(1) by linarith
    then show "unat x + unat (take_bit k y) * 2 ^ n < 2 ^ LENGTH(64)"
      by (simp only: unat_take_bit m_def len_num0 len_num1 len_bit0) simp
  qed
  ultimately show ?thesis by (simp add: unat_take_bit)
qed

lemma store_limbs:
  assumes "limbs_below (2 ^ 51) a" "32 \<le> length out"
  shows "Hacl_EC_Format_fcontract_store out a = nat_to_le 32 (fval a) @ drop 32 out"
proof -
  have len: "length a = 5" using assms(1) by (simp add: limbs_below_def)
  obtain t0 t1 t2 t3 t4 where A: "a = [t0, t1, t2, t3, t4]"
    using len by (rule length_5_cases)
  have l: "unat t0 < 2 ^ 51" "unat t1 < 2 ^ 51" "unat t2 < 2 ^ 51" "unat t3 < 2 ^ 51" "unat t4 < 2 ^ 51"
    using assms(1) by (simp_all add: A limbs_below_cons)
  define o0 o1 o2 o3 where o: "o0 = push_bit 51 t1 OR t0" "o1 = push_bit 38 t2 OR drop_bit 13 t1"
    "o2 = push_bit 25 t3 OR drop_bit 26 t2" "o3 = push_bit 12 t4 OR drop_bit 39 t3"
  have d: "unat t1 div 2 ^ 13 < 2 ^ 38" "unat t2 div 2 ^ 26 < 2 ^ 25" "unat t3 div 2 ^ 39 < 2 ^ 12"
    using l by (simp_all add: less_mult_imp_div_less)
  have u: "unat o0 = unat t0 + 2 ^ 51 * (unat t1 mod 2 ^ 13)"
    "unat o1 = unat t1 div 2 ^ 13 + 2 ^ 38 * (unat t2 mod 2 ^ 26)"
    "unat o2 = unat t2 div 2 ^ 26 + 2 ^ 25 * (unat t3 mod 2 ^ 39)"
    "unat o3 = unat t3 div 2 ^ 39 + 2 ^ 12 * (unat t4 mod 2 ^ 52)"
    unfolding o using l d
    by (simp_all only: unat_or_push_wrap [where n = 51 and k = 13] unat_or_push_wrap [where n = 38 and k = 26]
        unat_or_push_wrap [where n = 25 and k = 39] unat_or_push_wrap [where n = 12 and k = 52] unat_drop_bit)
  have t4: "unat t4 mod 2 ^ 52 = unat t4" using l(5) by simp
  have V: "unat o0 + 2 ^ 64 * unat o1 + 2 ^ 128 * unat o2 + 2 ^ 192 * unat o3 = fval a"
  proof -
    have s: "n = n mod 2 ^ k + 2 ^ k * (n div 2 ^ k)" for n k :: nat by simp
    have "unat t0 + 2 ^ 51 * (unat t1 mod 2 ^ 13 + 2 ^ 13 * (unat t1 div 2 ^ 13))
        + 2 ^ 102 * (unat t2 mod 2 ^ 26 + 2 ^ 26 * (unat t2 div 2 ^ 26))
        + 2 ^ 153 * (unat t3 mod 2 ^ 39 + 2 ^ 39 * (unat t3 div 2 ^ 39)) + 2 ^ 204 * unat t4 = fval a"
      unfolding A fval_cons s [symmetric] ..
    moreover define m1 h1 m2 h2 m3 h3 where m: "m1 = unat t1 mod 2 ^ 13" "h1 = unat t1 div 2 ^ 13"
      "m2 = unat t2 mod 2 ^ 26" "h2 = unat t2 div 2 ^ 26" "m3 = unat t3 mod 2 ^ 39" "h3 = unat t3 div 2 ^ 39"
    ultimately show ?thesis
      unfolding u t4 m [symmetric] by simp
  qed
  have "Hacl_EC_Format_fcontract_store out a =
      bytes_of_u64 o0 @ bytes_of_u64 o1 @ bytes_of_u64 o2 @ bytes_of_u64 o3 @ drop 32 out"
    using assms(2) by (simp add: Hacl_EC_Format_fcontract_store_def Let_def A at_off_def store64_le_eq flip: o)
  moreover have "bytes_of_u64 o0 @ bytes_of_u64 o1 @ bytes_of_u64 o2 @ bytes_of_u64 o3 = nat_to_le 32 (fval a)"
  proof (rule le_nat_inj)
    have "fval a < 2 ^ 256" using l unfolding A fval_cons by simp
    then have "le_nat (nat_to_le 32 (fval a)) = fval a" by (simp add: le_nat_nat_to_le)
    then show "le_nat (bytes_of_u64 o0 @ bytes_of_u64 o1 @ bytes_of_u64 o2 @ bytes_of_u64 o3) = le_nat (nat_to_le 32 (fval a))"
      unfolding V [symmetric] by (simp add: le_nat_append le_nat_bytes_of_u64)
  qed simp
  ultimately show ?thesis by simp
qed

text \<open>The encoding of a field element, and the whole contraction.\<close>

definition encode_field :: "int \<Rightarrow> bytes" where
  "encode_field x = nat_to_le 32 (nat (x mod P25519))"

lemma fval_mod:
  assumes "rep B a x"
  shows "fval a mod nat P25519 = nat (x mod P25519)"
  using assms nat_mod_distrib [of "int (fval a)" P25519] by (simp add: rep_def less_imp_le)

lemma fcontract_rep:
  assumes "rep LOOSE a x" "32 \<le> length out"
  shows "Hacl_EC_Format_fcontract out a = encode_field x @ drop 32 out"
proof -
  let ?c = "Hacl_EC_Format_fcontract_second_carry_full (Hacl_EC_Format_fcontract_first_carry_full a)"
  have "limbs_below (2 ^ 62) a"
    using assms(1) by (auto simp: rep_def limbs_below_def LOOSE_def)
  from carry_full_correct [OF this] obtain q where c: "limbs_below (2 ^ 51) ?c" "fval a = fval ?c + q * nat P25519"
    by (metis (no_types))
  from trim_correct [OF c(1)] have "limbs_below (2 ^ 51) (Hacl_EC_Format_fcontract_trim ?c)"
    and "fval (Hacl_EC_Format_fcontract_trim ?c) = nat (x mod P25519)"
    using fval_mod [OF assms(1)] by (simp_all add: c(2))
  with store_limbs [OF this(1) assms(2)] show ?thesis
    by (simp add: Hacl_EC_Format_fcontract_def encode_field_def)
qed

section \<open>Properties\<close>

text \<open>Contraction writes the canonical encoding: for limbs below \<open>2 ^ 62\<close>, carried or not, the 32 bytes written are the
  little-endian digits of the value modulo \<open>2 ^ 255 - 19\<close>, and expanding them again gives limbs of that value.\<close>

theorem fcontract_is_canonical:
  assumes "limbs_below (2 ^ 62) a" "length out = 32" "length out2 = 5"
  shows "Hacl_EC_Format_fcontract out a = nat_to_le 32 (fval a mod nat P25519)
    \<and> fval (Hacl_EC_Format_fexpand out2 (Hacl_EC_Format_fcontract out a)) = fval a mod nat P25519"
proof -
  let ?c = "Hacl_EC_Format_fcontract_second_carry_full (Hacl_EC_Format_fcontract_first_carry_full a)"
  obtain q where c: "limbs_below (2 ^ 51) ?c" "fval a = fval ?c + q * nat P25519"
    using carry_full_correct [OF assms(1)] by (metis (no_types))
  have eq: "Hacl_EC_Format_fcontract out a = nat_to_le 32 (fval a mod nat P25519)"
    using trim_correct [OF c(1)] store_limbs [of "Hacl_EC_Format_fcontract_trim ?c" out] assms(2)
    by (simp add: Hacl_EC_Format_fcontract_def c(2))
  have "fval a mod nat P25519 < nat P25519"
    by (rule mod_less_divisor) simp
  then have "fval a mod nat P25519 < 2 ^ 255"
    by (rule less_trans) (simp add: P25519_def)
  then show ?thesis
    using fexpand_value [of "nat_to_le 32 (fval a mod nat P25519)" out2] assms(3)
    by (simp add: eq le_nat_nat_to_le)
qed

theorem fcontract_is_canonical_witness:
  "Hacl_EC_Format_fcontract (replicate 32 0) [0x7ffffffffffed, 0x7ffffffffffff, 0x7ffffffffffff, 0x7ffffffffffff, 0x7ffffffffffff]
    = replicate 32 0"
proof -
  let ?a = "[0x7ffffffffffed, 0x7ffffffffffff, 0x7ffffffffffff, 0x7ffffffffffff, 0x7ffffffffffff] :: u64 list"
  have "fval ?a mod nat P25519 = 0" by (simp add: fval_cons P25519_def)
  then show ?thesis
    using fcontract_is_canonical [of ?a "replicate 32 0" "[0, 0, 0, 0, 0]"]
    by (simp add: limbs_below_cons nat_to_le_def map_replicate_const)
qed

end
