(* ===== verification/Hacl_Curve25519.thy ===== *)
theory Hacl_Curve25519
  imports Hacl_EC_Format
begin

text \<open>
  X25519 (\<^verbatim>\<open>Hacl_Curve25519.c\<close>): the Montgomery ladder over projective points, a point being a buffer of
  ten words with the coordinates \<open>x\<close> and \<open>z\<close>.  The ladder alternates between two pairs of buffers; a routine
  that writes several buffers returns all of them.
\<close>

section \<open>The code\<close>

definition Hacl_EC_Point_swap_conditional_step ::
  "u64 list \<Rightarrow> u64 list \<Rightarrow> u64 \<Rightarrow> u32 \<Rightarrow> u64 list \<times> u64 list" where
  "Hacl_EC_Point_swap_conditional_step a b swap1 ctr =
     (let i = unat (ctr - 1);
          ai = a ! i;
          bi = b ! i;
          x = swap1 AND (ai XOR bi);
          ai1 = ai XOR x;
          bi1 = bi XOR x
      in (a[i := ai1], b[i := bi1]))"

function Hacl_EC_Point_swap_conditional' ::
  "u64 list \<Rightarrow> u64 list \<Rightarrow> u64 \<Rightarrow> u32 \<Rightarrow> u64 list \<times> u64 list" where
  "Hacl_EC_Point_swap_conditional' a b swap1 ctr =
     (if \<not> ctr = 0 then
        let (a, b) = Hacl_EC_Point_swap_conditional_step a b swap1 ctr;
            i = ctr - 1
        in Hacl_EC_Point_swap_conditional' a b swap1 i
      else (a, b))"
  by pat_completeness auto
termination
  by (relation "measure (\<lambda>(a, b, s, ctr). unat ctr)") (auto simp: unat_minus_one unat_gt_0)

declare Hacl_EC_Point_swap_conditional'.simps [simp del]

definition Hacl_EC_Point_swap_conditional ::
  "u64 list \<Rightarrow> u64 list \<Rightarrow> u64 \<Rightarrow> u64 list \<times> u64 list" where
  "Hacl_EC_Point_swap_conditional a b iswap =
     (let swap1 = 0 - iswap;
          (a, b) = Hacl_EC_Point_swap_conditional' a b swap1 5;
          (a5, b5) = Hacl_EC_Point_swap_conditional' (drop 5 a) (drop 5 b) swap1 5
      in (take 5 a @ a5, take 5 b @ b5))"

definition Hacl_EC_Point_copy :: "u64 list \<Rightarrow> u64 list \<Rightarrow> u64 list" where
  "Hacl_EC_Point_copy output input =
     (let output = blit output 0 (take 5 input)
      in blit output 5 (take 5 (drop 5 input)))"

definition Hacl_EC_AddAndDouble_fmonty ::
  "u64 list \<Rightarrow> u64 list \<Rightarrow> u64 list \<Rightarrow> u64 list \<Rightarrow> u64 list
     \<Rightarrow> u64 list \<times> u64 list \<times> u64 list \<times> u64 list" where
  "Hacl_EC_AddAndDouble_fmonty pp ppq p pq qmqp =
     (let qx = take 5 qmqp;
          x2 = take 5 pp;
          z2 = drop 5 pp;
          x3 = take 5 ppq;
          z3 = drop 5 ppq;
          x = take 5 p;
          z = drop 5 p;
          xprime = take 5 pq;
          zprime = drop 5 pq;
          buf = replicate 40 0;
          origx = slice 0 5 buf;
          origxprime = slice 5 5 buf;
          xxprime0 = slice 25 5 buf;
          zzprime0 = slice 30 5 buf;
          origx = blit origx 0 x;
          x = Hacl_Bignum_fsum x z;
          z = Hacl_Bignum_fdifference z origx;
          origxprime = blit origxprime 0 xprime;
          xprime = Hacl_Bignum_fsum xprime zprime;
          zprime = Hacl_Bignum_fdifference zprime origxprime;
          xxprime0 = Hacl_Bignum_fmul xxprime0 xprime z;
          zzprime0 = Hacl_Bignum_fmul zzprime0 x zprime;
          origxprime0 = origxprime;
          xx0 = slice 15 5 buf;
          zz0 = slice 20 5 buf;
          xxprime = xxprime0;
          zzprime = zzprime0;
          zzzprime = slice 35 5 buf;
          origxprime0 = blit origxprime0 0 xxprime;
          xxprime = Hacl_Bignum_fsum xxprime zzprime;
          zzprime = Hacl_Bignum_fdifference zzprime origxprime0;
          x3 = Hacl_Bignum_Fsquare_fsquare_times x3 xxprime 1;
          zzzprime = Hacl_Bignum_Fsquare_fsquare_times zzzprime zzprime 1;
          z3 = Hacl_Bignum_fmul z3 zzzprime qx;
          xx0 = Hacl_Bignum_Fsquare_fsquare_times xx0 x 1;
          zz0 = Hacl_Bignum_Fsquare_fsquare_times zz0 z 1;
          zzz = slice 10 5 buf;
          xx = xx0;
          zz = zz0;
          x2 = Hacl_Bignum_fmul x2 xx zz;
          zz = Hacl_Bignum_fdifference zz xx;
          scalar = 121665;
          zzz = Hacl_Bignum_fscalar zzz zz scalar;
          zzz = Hacl_Bignum_fsum zzz xx;
          z2 = Hacl_Bignum_fmul z2 zzz zz
      in (x2 @ z2, x3 @ z3, x @ z, xprime @ zprime))"

definition Hacl_EC_Ladder_SmallLoop_cmult_small_loop_step ::
  "u64 list \<Rightarrow> u64 list \<Rightarrow> u64 list \<Rightarrow> u64 list \<Rightarrow> u64 list \<Rightarrow> u8
     \<Rightarrow> u64 list \<times> u64 list \<times> u64 list \<times> u64 list" where
  "Hacl_EC_Ladder_SmallLoop_cmult_small_loop_step nq nqpq nq2 nqpq2 q byt =
     (let b = ucast (drop_bit 7 byt);
          (nq, nqpq) = Hacl_EC_Point_swap_conditional nq nqpq b;
          (nq2, nqpq2, nq, nqpq) = Hacl_EC_AddAndDouble_fmonty nq2 nqpq2 nq nqpq q;
          bit0 = ucast (drop_bit 7 byt);
          (nq2, nqpq2) = Hacl_EC_Point_swap_conditional nq2 nqpq2 bit0
      in (nq, nqpq, nq2, nqpq2))"

definition Hacl_EC_Ladder_SmallLoop_cmult_small_loop_double_step ::
  "u64 list \<Rightarrow> u64 list \<Rightarrow> u64 list \<Rightarrow> u64 list \<Rightarrow> u64 list \<Rightarrow> u8
     \<Rightarrow> u64 list \<times> u64 list \<times> u64 list \<times> u64 list" where
  "Hacl_EC_Ladder_SmallLoop_cmult_small_loop_double_step nq nqpq nq2 nqpq2 q byt =
     (let (nq, nqpq, nq2, nqpq2) = Hacl_EC_Ladder_SmallLoop_cmult_small_loop_step nq nqpq nq2 nqpq2 q byt;
          byt1 = push_bit 1 byt;
          (nq2, nqpq2, nq, nqpq) = Hacl_EC_Ladder_SmallLoop_cmult_small_loop_step nq2 nqpq2 nq nqpq q byt1
      in (nq, nqpq, nq2, nqpq2))"

function Hacl_EC_Ladder_SmallLoop_cmult_small_loop ::
  "u64 list \<Rightarrow> u64 list \<Rightarrow> u64 list \<Rightarrow> u64 list \<Rightarrow> u64 list \<Rightarrow> u8 \<Rightarrow> u32
     \<Rightarrow> u64 list \<times> u64 list \<times> u64 list \<times> u64 list" where
  "Hacl_EC_Ladder_SmallLoop_cmult_small_loop nq nqpq nq2 nqpq2 q byt i =
     (if \<not> i = 0 then
        let i' = i - 1;
            (nq, nqpq, nq2, nqpq2) =
              Hacl_EC_Ladder_SmallLoop_cmult_small_loop_double_step nq nqpq nq2 nqpq2 q byt;
            byt' = push_bit 2 byt
        in Hacl_EC_Ladder_SmallLoop_cmult_small_loop nq nqpq nq2 nqpq2 q byt' i'
      else (nq, nqpq, nq2, nqpq2))"
  by pat_completeness auto
termination
  by (relation "measure (\<lambda>(nq, nqpq, nq2, nqpq2, q, byt, i). unat i)") (auto simp: unat_minus_one unat_gt_0)

declare Hacl_EC_Ladder_SmallLoop_cmult_small_loop.simps [simp del]

function Hacl_EC_Ladder_BigLoop_cmult_big_loop ::
  "bytes \<Rightarrow> u64 list \<Rightarrow> u64 list \<Rightarrow> u64 list \<Rightarrow> u64 list \<Rightarrow> u64 list \<Rightarrow> u32
     \<Rightarrow> u64 list \<times> u64 list \<times> u64 list \<times> u64 list" where
  "Hacl_EC_Ladder_BigLoop_cmult_big_loop n1 nq nqpq nq2 nqpq2 q i =
     (if \<not> i = 0 then
        let i1 = i - 1;
            byt = n1 ! unat i1;
            (nq, nqpq, nq2, nqpq2) =
              Hacl_EC_Ladder_SmallLoop_cmult_small_loop nq nqpq nq2 nqpq2 q byt 4
        in Hacl_EC_Ladder_BigLoop_cmult_big_loop n1 nq nqpq nq2 nqpq2 q i1
      else (nq, nqpq, nq2, nqpq2))"
  by pat_completeness auto
termination
  by (relation "measure (\<lambda>(n1, nq, nqpq, nq2, nqpq2, q, i). unat i)") (auto simp: unat_minus_one unat_gt_0)

declare Hacl_EC_Ladder_BigLoop_cmult_big_loop.simps [simp del]

definition Hacl_EC_Ladder_cmult :: "u64 list \<Rightarrow> bytes \<Rightarrow> u64 list \<Rightarrow> u64 list" where
  "Hacl_EC_Ladder_cmult result n1 q =
     (let point_buf = replicate 40 0;
          nq = slice 0 10 point_buf;
          nqpq = slice 10 10 point_buf;
          nq2 = slice 20 10 point_buf;
          nqpq2 = slice 30 10 point_buf;
          nqpq = Hacl_EC_Point_copy nqpq q;
          nq = nq[0 := 1];
          (nq, nqpq, nq2, nqpq2) = Hacl_EC_Ladder_BigLoop_cmult_big_loop n1 nq nqpq nq2 nqpq2 q 32
      in Hacl_EC_Point_copy result nq)"

definition Hacl_EC_Format_scalar_of_point :: "bytes \<Rightarrow> u64 list \<Rightarrow> bytes" where
  "Hacl_EC_Format_scalar_of_point scalar point =
     (let x = take 5 point;
          z = drop 5 point;
          buf = replicate 10 0;
          zmone = take 5 buf;
          sc = drop 5 buf;
          zmone = Hacl_Bignum_crecip zmone z;
          sc = Hacl_Bignum_fmul sc x zmone
      in Hacl_EC_Format_fcontract scalar sc)"

definition Hacl_EC_crypto_scalarmult :: "bytes \<Rightarrow> bytes \<Rightarrow> bytes \<Rightarrow> bytes" where
  "Hacl_EC_crypto_scalarmult mypublic secret basepoint =
     (let buf0 = replicate 10 0;
          x0 = take 5 buf0;
          z = drop 5 buf0;
          x0 = Hacl_EC_Format_fexpand x0 basepoint;
          z = z[0 := 1];
          q = x0 @ z;
          e = replicate 32 0;
          e = blit e 0 (take 32 secret);
          e0 = e ! 0;
          e31 = e ! 31;
          e01 = e0 AND 248;
          e311 = e31 AND 127;
          e312 = e311 OR 64;
          e = e[0 := e01];
          e = e[31 := e312];
          scalar = e;
          buf = replicate 15 0;
          nq = buf;
          nq = nq[0 := 1];
          nq = Hacl_EC_Ladder_cmult nq scalar q
      in Hacl_EC_Format_scalar_of_point mypublic (take 10 nq))"

definition Hacl_Curve25519_crypto_scalarmult :: "bytes \<Rightarrow> bytes \<Rightarrow> bytes \<Rightarrow> bytes" where
  "Hacl_Curve25519_crypto_scalarmult mypublic secret basepoint =
     Hacl_EC_crypto_scalarmult mypublic secret basepoint"


section \<open>Points\<close>

text \<open>A buffer of ten words that stands for a projective point.\<close>

definition point_rep :: "u64 list \<Rightarrow> int \<times> int \<Rightarrow> bool" where
  "point_rep a p = (rep TIGHT (take 5 a) (fst p) \<and> rep TIGHT (drop 5 a) (snd p))"

lemma point_rep_append: "length x = 5 \<Longrightarrow> point_rep (x @ z) p = (rep TIGHT x (fst p) \<and> rep TIGHT z (snd p))"
  by (simp add: point_rep_def)

lemma point_rep_length: "point_rep a p \<Longrightarrow> length a = 10"
  by (auto simp: point_rep_def dest!: rep_length)

lemma point_rep_cases:
  assumes "point_rep a p"
  obtains x z where "a = x @ z" "length x = 5" "length z = 5" "rep TIGHT x (fst p)" "rep TIGHT z (snd p)"
proof
  show "a = take 5 a @ drop 5 a" by simp
  show "rep TIGHT (take 5 a) (fst p)" "rep TIGHT (drop 5 a) (snd p)"
    using assms by (simp_all add: point_rep_def)
  then show "length (take 5 a) = 5" "length (drop 5 a) = 5" by (auto dest: rep_length)
qed

section \<open>Conditional swap\<close>

lemma swap_step_eq:
  assumes "0 < unat c" "unat c \<le> length a" "unat c \<le> length b"
  shows "Hacl_EC_Point_swap_conditional_step a b 0 c = (a, b)"
    and "Hacl_EC_Point_swap_conditional_step a b (- 1) c = (a[unat c - 1 := b ! (unat c - 1)], b[unat c - 1 := a ! (unat c - 1)])"
proof -
  have c: "unat (c - 1) = unat c - 1" using assms(1) by (simp add: unat_minus_one unat_gt_0)
  have x: "u XOR (u XOR v) = v" "u XOR (v XOR u) = v" for u v :: u64
    by (intro bit_word_eqI; auto simp: bit_simps)+
  show "Hacl_EC_Point_swap_conditional_step a b 0 c = (a, b)"
    and "Hacl_EC_Point_swap_conditional_step a b (- 1) c = (a[unat c - 1 := b ! (unat c - 1)], b[unat c - 1 := a ! (unat c - 1)])"
    by (simp_all add: Hacl_EC_Point_swap_conditional_step_def Let_def c x)
qed

lemma swap_loop_eq:
  assumes "unat c \<le> length a" "unat c \<le> length b"
  shows "Hacl_EC_Point_swap_conditional' a b 0 c = (a, b)
    \<and> Hacl_EC_Point_swap_conditional' a b (- 1) c
      = (take (unat c) b @ drop (unat c) a, take (unat c) a @ drop (unat c) b)"
  using assms
proof (induction "unat c" arbitrary: a b c)
  case 0
  then have "c = 0" by (simp add: unat_eq_0)
  then show ?case by (simp add: Hacl_EC_Point_swap_conditional'.simps)
next
  case (Suc n)
  have "c \<noteq> 0" using Suc.hyps(2) by auto
  then have c: "c \<noteq> 0" "unat (c - 1) = n" "0 < unat c"
    using Suc.hyps(2) by (simp_all add: unat_minus_one)
  define a' b' where ab: "a' = a[n := b ! n]" "b' = b[n := a ! n]"
  have len: "n < length a" "n < length b" using Suc.prems Suc.hyps(2) by simp_all
  have IH0: "Hacl_EC_Point_swap_conditional' a b 0 (c - 1) = (a, b)"
    using Suc.hyps(1) [of "c - 1" a b] c(2) len by simp
  have IH1: "Hacl_EC_Point_swap_conditional' a' b' (- 1) (c - 1) = (take n b' @ drop n a', take n a' @ drop n b')"
    using Suc.hyps(1) [of "c - 1" a' b'] c(2) len by (simp add: ab)
  have s: "unat c - 1 = n" using Suc.hyps(2) by simp
  have d: "take n b' @ drop n a' = take (Suc n) b @ drop (Suc n) a" "take n a' @ drop n b' = take (Suc n) a @ drop (Suc n) b"
    using len by (simp_all add: ab take_Suc_conv_app_nth drop_update_swap Cons_nth_drop_Suc [symmetric])
  have step: "Hacl_EC_Point_swap_conditional_step a b (- 1) c = (a', b')"
    using swap_step_eq(2) [of c a b] c(3) Suc.prems by (simp only: s ab)
  have "Hacl_EC_Point_swap_conditional' a b 0 c = (a, b)"
    using c Suc.prems swap_step_eq(1) [of c a b] IH0 by (subst Hacl_EC_Point_swap_conditional'.simps) simp
  moreover have "Hacl_EC_Point_swap_conditional' a b (- 1) c = (take n b' @ drop n a', take n a' @ drop n b')"
    using c(1) step IH1 by (subst Hacl_EC_Point_swap_conditional'.simps) simp
  ultimately show ?case
    unfolding Suc.hyps(2) [symmetric] d by simp
qed

lemma swap_conditional_eq:
  assumes "length a = 10" "length b = 10"
  shows "Hacl_EC_Point_swap_conditional a b (of_bool s) = (if s then (b, a) else (a, b))"
  using assms swap_loop_eq [of 5 a b] swap_loop_eq [of 5 "drop 5 a" "drop 5 b"]
    swap_loop_eq [of 5 "drop 5 b" "drop 5 a"]
  by (simp add: Hacl_EC_Point_swap_conditional_def Let_def)

section \<open>The ladder step\<close>

lemma fmonty_rep:
  assumes p: "point_rep p s" and pq: "point_rep pq t" and q: "rep TIGHT (take 5 q) x1"
    and len: "length pp = 10" "length ppq = 10"
    and st: "ladder_step x1 (s, t) = (s', t')"
    and r: "Hacl_EC_AddAndDouble_fmonty pp ppq p pq q = (pp', ppq', p', pq')"
  shows "point_rep pp' s' \<and> point_rep ppq' t' \<and> length p' = 10 \<and> length pq' = 10"
proof -
  obtain x z where P: "p = x @ z" "length x = 5" "length z = 5" "rep TIGHT x (fst s)" "rep TIGHT z (snd s)"
    using p by (rule point_rep_cases)
  obtain x' z' where Q: "pq = x' @ z'" "length x' = 5" "length z' = 5" "rep TIGHT x' (fst t)" "rep TIGHT z' (snd t)"
    using pq by (rule point_rep_cases)
  define A B C D where abcd: "A = Hacl_Bignum_fsum x z" "B = Hacl_Bignum_fdifference z x"
    "C = Hacl_Bignum_fsum x' z'" "D = Hacl_Bignum_fdifference z' x'"
  define out :: "u64 list" where "out = [0, 0, 0, 0, 0]"
  define CB DA where cbda: "CB = Hacl_Bignum_fmul out C B" "DA = Hacl_Bignum_fmul out A D"
  define S T where st': "S = Hacl_Bignum_fsum CB DA" "T = Hacl_Bignum_fdifference DA CB"
  define TT where "TT = Hacl_Bignum_Fsquare_fsquare_times out T 1"
  define AA BB where aabb: "AA = Hacl_Bignum_Fsquare_fsquare_times out A 1" "BB = Hacl_Bignum_Fsquare_fsquare_times out B 1"
  define E where "E = Hacl_Bignum_fdifference BB AA"
  define F where "F = Hacl_Bignum_fsum (Hacl_Bignum_fscalar out E 121665) AA"
  have out: "length out = 5" by (simp add: out_def)
  have sl: "slice k 5 (replicate 40 0) = out" if "k + 5 \<le> 40" for k
    using that by (simp add: out_def slice_def replicate_5)
  have bl: "blit w 0 y = y" if "length w = 5" "length y = 5" for w y :: "u64 list"
    using that by (simp add: blit_all)
  note [simp] = out rep_loose
  have TT2: "TIGHT + TIGHT \<le> LOOSE" "MEDIUM + TIGHT \<le> LOOSE"
    by (simp_all add: TIGHT_def LOOSE_def MEDIUM_def)
  define a aa b bb e c d da cb where m: "a = (fst s + snd s) mod P25519" "aa = a ^ 2 mod P25519"
    "b = (fst s - snd s) mod P25519" "bb = b ^ 2 mod P25519" "e = (aa - bb) mod P25519"
    "c = (fst t + snd t) mod P25519" "d = (fst t - snd t) mod P25519" "da = d * a mod P25519" "cb = c * b mod P25519"
  have rA: "rep LOOSE A a" and rC: "rep LOOSE C c"
    unfolding abcd m using P Q TT2(1) by (simp_all add: fsum_rep)
  have rB: "rep LOOSE B b" and rD: "rep LOOSE D d"
    unfolding abcd m using P Q by (simp_all add: fdifference_rep)
  have rCB: "rep TIGHT CB cb" and rDA: "rep TIGHT DA da"
    unfolding cbda m(8,9) using fmul_rep' [OF rC rB out] fmul_rep' [OF rA rD out] by (simp_all add: mult.commute)
  have rS: "rep LOOSE S (da + cb)" and rT: "rep LOOSE T (cb - da)"
    unfolding st' using fsum_rep [OF rCB rDA TT2(1)] fdifference_rep [OF rDA rCB] by (simp_all add: add.commute)
  have sq: "rep TIGHT (Hacl_Bignum_Fsquare_fsquare_times o' v 1) (y ^ 2)" if "rep LOOSE v y" "length o' = 5" for o' v y
    using fsquare_times_rep [OF that, of 1] by simp
  have rTT: "rep TIGHT TT ((cb - da) ^ 2)"
    unfolding TT_def by (rule sq [OF rT out])
  have rAA: "rep TIGHT AA aa" and rBB: "rep TIGHT BB bb"
    unfolding aabb m(2,4) using sq [OF rA out] sq [OF rB out] by simp_all
  have rE: "rep LOOSE E e"
    unfolding E_def m(5) using fdifference_rep [OF rBB rAA] by simp
  have "rep MEDIUM (Hacl_Bignum_fscalar out E 121665) (121665 * e)"
    using fscalar_rep [OF rE _ out, of 121665] by simp
  then have rF: "rep LOOSE F (121665 * e + aa)"
    unfolding F_def using rAA TT2(2) by (rule fsum_rep)
  have lCB: "length CB = 5" and lDA: "length DA = 5"
    using rCB rDA by (auto dest: rep_length)
  have eq: "Hacl_EC_AddAndDouble_fmonty pp ppq p pq q =
    (Hacl_Bignum_fmul (take 5 pp) AA BB @ Hacl_Bignum_fmul (drop 5 pp) F E,
     Hacl_Bignum_Fsquare_fsquare_times (take 5 ppq) S 1 @ Hacl_Bignum_fmul (drop 5 ppq) TT (take 5 q), A @ B, C @ D)"
    by (simp add: Hacl_EC_AddAndDouble_fmonty_def Let_def P(1-3) Q(1-3) sl bl lCB flip: abcd cbda st' TT_def aabb E_def F_def)
  have step: "s' = (aa * bb mod P25519, e * (aa + 121665 * e) mod P25519)"
    "t' = ((da + cb) ^ 2 mod P25519, x1 * (da - cb) ^ 2 mod P25519)"
    using st by (auto simp: ladder_step_def case_prod_beta Let_def m)
  have "point_rep pp' s'"
    using r eq fmul_rep' [OF rep_loose [OF rAA] rep_loose [OF rBB], of "take 5 pp"]
      fmul_rep' [OF rF rE, of "drop 5 pp"] len
    by (auto simp: point_rep_append rep_length step algebra_simps)
  moreover have "point_rep ppq' t'"
    using r eq sq [OF rS, of "take 5 ppq"] fmul_rep' [OF rep_loose [OF rTT] rep_loose [OF q], of "drop 5 ppq"] len
    by (auto simp: point_rep_append rep_length step power2_commute mult.commute)
  moreover have "length p' = 10" "length pq' = 10"
    using r eq rA rB rC rD by (auto dest!: rep_length)
  ultimately show ?thesis by blast
qed


section \<open>The loops\<close>

text \<open>The four buffers of the ladder: the current points in the first two, scratch in the others.\<close>

definition ladder_bufs :: "u64 list \<times> u64 list \<times> u64 list \<times> u64 list \<Rightarrow> (int \<times> int) \<times> (int \<times> int) \<Rightarrow> bool" where
  "ladder_bufs = (\<lambda>(nq, nqpq, nq2, nqpq2) st. point_rep nq (fst st) \<and> point_rep nqpq (snd st)
     \<and> length nq2 = 10 \<and> length nqpq2 = 10)"

lemma top_bit: "(ucast (drop_bit 7 (byt :: u8)) :: u64) = of_bool (bit byt 7)"
proof (rule bit_word_eqI)
  fix n assume "n < LENGTH(64)"
  then show "bit (ucast (drop_bit 7 byt) :: u64) n = bit (of_bool (bit byt 7) :: u64) n"
    using bit_imp_le_length [of byt "7 + n"] by (cases n) (auto simp: bit_simps)
qed

lemma small_loop_step_correct:
  assumes st: "ladder_bufs (nq, nqpq, nq2, nqpq2) st" and q: "rep TIGHT (take 5 q) x1"
    and r: "Hacl_EC_Ladder_SmallLoop_cmult_small_loop_step nq nqpq nq2 nqpq2 q byt = (a, b, c, d)"
  shows "ladder_bufs (c, d, a, b) (ladder_bit x1 (bit byt 7) st)"
proof -
  let ?s = "bit byt 7"
  let ?in = "if ?s then prod.swap st else st"
  have len: "length nq = 10" "length nqpq = 10" "length nq2 = 10" "length nqpq2 = 10"
    using st by (auto simp: ladder_bufs_def dest: point_rep_length)
  obtain m n where mn: "Hacl_EC_Point_swap_conditional nq nqpq (of_bool ?s) = (m, n)"
    "point_rep m (fst ?in)" "point_rep n (snd ?in)"
    using st swap_conditional_eq [OF len(1,2), of ?s] by (cases ?s) (auto simp: ladder_bufs_def)
  obtain u v w y where f: "Hacl_EC_AddAndDouble_fmonty nq2 nqpq2 m n q = (u, v, w, y)"
    by (metis prod_cases4)
  obtain s' t' where out: "ladder_step x1 (fst ?in, snd ?in) = (s', t')"
    by (cases "ladder_step x1 (fst ?in, snd ?in)")
  have F: "point_rep u s'" "point_rep v t'" "length w = 10" "length y = 10"
    using fmonty_rep [OF mn(2,3) q len(3,4) out f] by simp_all
  have sw: "Hacl_EC_Point_swap_conditional u v (of_bool ?s) = (if ?s then (v, u) else (u, v))"
    using F by (simp add: swap_conditional_eq point_rep_length)
  have "(a, b, c, d) = (w, y, if ?s then (v, u) else (u, v))"
    using r unfolding Hacl_EC_Ladder_SmallLoop_cmult_small_loop_step_def top_bit Let_def
    by (simp only: mn(1) f sw prod.case) (simp split: if_splits)
  moreover have "ladder_bit x1 ?s st = (if ?s then (t', s') else (s', t'))"
    using out by (auto simp: ladder_bit_def)
  ultimately show ?thesis
    using F by (auto simp: ladder_bufs_def split: if_splits)
qed

lemma double_step_correct:
  assumes st: "ladder_bufs (nq, nqpq, nq2, nqpq2) st" and q: "rep TIGHT (take 5 q) x1"
    and r: "Hacl_EC_Ladder_SmallLoop_cmult_small_loop_double_step nq nqpq nq2 nqpq2 q byt = bufs"
  shows "ladder_bufs bufs (ladder_bit x1 (bit byt 6) (ladder_bit x1 (bit byt 7) st))"
proof -
  obtain a b c d where 1: "Hacl_EC_Ladder_SmallLoop_cmult_small_loop_step nq nqpq nq2 nqpq2 q byt = (a, b, c, d)"
    by (metis prod_cases4)
  obtain e f g h where 2: "Hacl_EC_Ladder_SmallLoop_cmult_small_loop_step c d a b q (push_bit 1 byt) = (e, f, g, h)"
    by (metis prod_cases4)
  have "bufs = (g, h, e, f)"
    using r unfolding Hacl_EC_Ladder_SmallLoop_cmult_small_loop_double_step_def Let_def 1 prod.case 2 by simp
  moreover have "bit (push_bit 1 byt) 7 = bit byt 6"
    by (simp only: bit_push_bit_iff possible_bit_word) simp
  ultimately show ?thesis
    using small_loop_step_correct [OF small_loop_step_correct [OF st q 1] q 2] by simp
qed

lemma small_loop_correct:
  assumes "ladder_bufs (nq, nqpq, nq2, nqpq2) st" "rep TIGHT (take 5 q) x1" "unat i \<le> 4"
  shows "ladder_bufs (Hacl_EC_Ladder_SmallLoop_cmult_small_loop nq nqpq nq2 nqpq2 q byt i)
    (fold (ladder_bit x1) (map (\<lambda>j. bit byt (7 - j)) [0..<2 * unat i]) st)"
  using assms
proof (induction "unat i" arbitrary: nq nqpq nq2 nqpq2 st byt i)
  case 0
  then have "i = 0" by (simp add: unat_eq_0)
  then show ?case using 0 by (simp add: Hacl_EC_Ladder_SmallLoop_cmult_small_loop.simps)
next
  case (Suc n)
  have i0: "i \<noteq> 0" using Suc.hyps(2) by auto
  then have i: "unat (i - 1) = n" using Suc.hyps(2) by (simp add: unat_minus_one)
  obtain a b c d where r: "Hacl_EC_Ladder_SmallLoop_cmult_small_loop_double_step nq nqpq nq2 nqpq2 q byt = (a, b, c, d)"
    by (metis prod_cases4)
  let ?st = "ladder_bit x1 (bit byt 6) (ladder_bit x1 (bit byt 7) st)"
  have st: "ladder_bufs (a, b, c, d) ?st"
    by (rule double_step_correct [OF Suc.prems(1,2) r])
  have IH: "ladder_bufs (Hacl_EC_Ladder_SmallLoop_cmult_small_loop a b c d q (push_bit 2 byt) (i - 1))
      (fold (ladder_bit x1) (map (\<lambda>j. bit (push_bit 2 byt) (7 - j)) [0..<2 * n]) ?st)"
    using Suc.hyps(1) [of "i - 1" a b c d ?st "push_bit 2 byt"] st Suc.prems(2,3) Suc.hyps(2) i by simp
  have "map (\<lambda>j. bit byt (7 - j)) [0..<2 * unat i] =
      bit byt 7 # bit byt 6 # map (\<lambda>j. bit (push_bit 2 byt) (7 - j)) [0..<2 * n]"
  proof -
    have "[0..<2 * unat i] = 0 # Suc 0 # map (\<lambda>j. j + 2) [0..<2 * n]"
      unfolding map_add_upt Suc.hyps(2) [symmetric] by (simp add: upt_conv_Cons numeral_2_eq_2 del: upt_Suc)
    moreover have "bit byt (7 - (j + 2)) = bit (push_bit 2 byt) (7 - j)" if "j < 2 * n" for j
    proof -
      have "j < 6" using that Suc.prems(3) Suc.hyps(2) by linarith
      then have "2 \<le> 7 - j" "7 - j < 8" by linarith+
      then show ?thesis by (simp add: bit_simps)
    qed
    ultimately show ?thesis by simp
  qed
  then show ?case
    using IH i0 by (subst Hacl_EC_Ladder_SmallLoop_cmult_small_loop.simps) (simp add: r)
qed

lemma byte_bits_small_loop:
  assumes "ladder_bufs (nq, nqpq, nq2, nqpq2) st" "rep TIGHT (take 5 q) x1"
  shows "ladder_bufs (Hacl_EC_Ladder_SmallLoop_cmult_small_loop nq nqpq nq2 nqpq2 q byt 4)
    (fold (ladder_bit x1) (byte_bits byt) st)"
  using small_loop_correct [OF assms, of 4 byt] by (simp add: byte_bits_def)

lemma big_loop_correct:
  assumes "ladder_bufs (nq, nqpq, nq2, nqpq2) st" "rep TIGHT (take 5 q) x1" "unat i \<le> length n1"
  shows "ladder_bufs (Hacl_EC_Ladder_BigLoop_cmult_big_loop n1 nq nqpq nq2 nqpq2 q i)
    (fold (ladder_bit x1) (bits_of_bytes (take (unat i) n1)) st)"
  using assms
proof (induction "unat i" arbitrary: nq nqpq nq2 nqpq2 st i)
  case 0
  then have "i = 0" by (simp add: unat_eq_0)
  then show ?case using 0 by (simp add: Hacl_EC_Ladder_BigLoop_cmult_big_loop.simps bits_of_bytes_def)
next
  case (Suc n)
  have i0: "i \<noteq> 0" using Suc.hyps(2) by auto
  then have i: "unat (i - 1) = n" using Suc.hyps(2) by (simp add: unat_minus_one)
  obtain a b c d where r: "Hacl_EC_Ladder_SmallLoop_cmult_small_loop nq nqpq nq2 nqpq2 q (n1 ! n) 4 = (a, b, c, d)"
    by (metis prod_cases4)
  let ?st = "fold (ladder_bit x1) (byte_bits (n1 ! n)) st"
  have st: "ladder_bufs (a, b, c, d) ?st"
    using byte_bits_small_loop [OF Suc.prems(1,2), of "n1 ! n"] by (simp add: r)
  have IH: "ladder_bufs (Hacl_EC_Ladder_BigLoop_cmult_big_loop n1 a b c d q (i - 1))
      (fold (ladder_bit x1) (bits_of_bytes (take n n1)) ?st)"
    using Suc.hyps(1) [of "i - 1" a b c d ?st] st Suc.prems(2,3) Suc.hyps(2) i by simp
  have "bits_of_bytes (take (unat i) n1) = byte_bits (n1 ! n) @ bits_of_bytes (take n n1)"
    using Suc.prems(3) by (simp add: bits_of_bytes_def Suc.hyps(2) [symmetric] take_Suc_conv_app_nth)
  then show ?case
    using IH i0 by (subst Hacl_EC_Ladder_BigLoop_cmult_big_loop.simps) (simp add: i r)
qed


section \<open>X25519\<close>

text \<open>The specification of RFC 7748: the scalar is clamped, the top bit of the coordinate ignored.\<close>

definition clamp25519 :: "bytes \<Rightarrow> bytes" where
  "clamp25519 k = (take 32 k)[0 := k ! 0 AND 248, 31 := (k ! 31 AND 127) OR 64]"

definition x25519 :: "bytes \<Rightarrow> bytes \<Rightarrow> bytes" where
  "x25519 k u = encode_field (x25519_bits (bits_of_bytes (clamp25519 k)) (int (le_nat (take 32 u) mod 2 ^ 255)))"

lemma rep_one: "rep TIGHT [1, 0, 0, 0, 0] 1"
  by (simp add: rep_def limbs_below_cons fval_cons TIGHT_def)

lemma rep_zero: "rep TIGHT [0, 0, 0, 0, 0] 0"
  by (simp add: rep_def limbs_below_cons fval_cons TIGHT_def)

lemma point_copy_eq: "10 \<le> length out \<Longrightarrow> length p = 10 \<Longrightarrow> Hacl_EC_Point_copy out p = p @ drop 10 out"
proof -
  assume a: "10 \<le> length out" "length p = 10"
  have "take 5 p @ take 5 (drop 5 p) = take (5 + 5) p" by (simp only: take_add)
  then show ?thesis using a by (simp add: Hacl_EC_Point_copy_def blit_def)
qed

lemma replicate_10: "replicate 10 z = [z, z, z, z, z, z, z, z, z, z]"
  by (simp add: eval_nat_numeral)

lemma cmult_correct:
  assumes q: "point_rep q (u, 1)" and n1: "length n1 = 32" and out: "10 \<le> length out"
  shows "point_rep (take 10 (Hacl_EC_Ladder_cmult out n1 q)) (fst (ladder u (bits_of_bytes n1)))"
proof -
  let ?z = "replicate 10 (0 :: u64)"
  have sl: "slice k 10 (replicate 40 0) = ?z" if "k + 10 \<le> 40" for k
    using that by (simp add: slice_def)
  have lq: "length q = 10" by (rule point_rep_length [OF q])
  obtain a b c d where r: "Hacl_EC_Ladder_BigLoop_cmult_big_loop n1 (?z[0 := 1]) q ?z ?z q 32 = (a, b, c, d)"
    by (metis prod_cases4)
  have "point_rep (?z[0 := 1]) (1, 0)"
    using rep_one rep_zero by (simp add: point_rep_def replicate_10)
  then have "ladder_bufs (?z[0 := 1], q, ?z, ?z) ((1, 0), (u, 1))"
    using q by (simp add: ladder_bufs_def)
  moreover have "rep TIGHT (take 5 q) u" using q by (simp add: point_rep_def)
  ultimately have "ladder_bufs (a, b, c, d) (fold (ladder_bit u) (bits_of_bytes (take (unat (32 :: u32)) n1)) ((1, 0), (u, 1)))"
    using big_loop_correct [of "?z[0 := 1]" q ?z ?z "((1, 0), (u, 1))" q u 32 n1] n1 by (simp add: r)
  then have a: "point_rep a (fst (ladder u (bits_of_bytes n1)))"
    using n1 by (simp add: ladder_bufs_def ladder_def)
  have "Hacl_EC_Ladder_cmult out n1 q = Hacl_EC_Point_copy out a"
    using r by (simp add: Hacl_EC_Ladder_cmult_def sl point_copy_eq lq)
  then show ?thesis
    using a out by (simp add: point_copy_eq point_rep_length)
qed

lemma scalar_of_point_correct:
  assumes "point_rep p (x, z)" "32 \<le> length out"
  shows "Hacl_EC_Format_scalar_of_point out p = encode_field (x * field_inv z) @ drop 32 out"
proof -
  have p: "rep TIGHT (take 5 p) x" "rep TIGHT (drop 5 p) z"
    using assms(1) by (simp_all add: point_rep_def)
  have "rep TIGHT (Hacl_Bignum_fmul (drop 5 (replicate 10 0)) (take 5 p) (Hacl_Bignum_crecip (take 5 (replicate 10 0)) (drop 5 p)))
    (x * field_inv z)"
    using p by (intro fmul_rep' rep_loose crecip_rep) simp_all
  from fcontract_rep [OF rep_loose [OF this] assms(2)] show ?thesis
    by (simp add: Hacl_EC_Format_scalar_of_point_def)
qed

lemma encode_field_mod [simp]: "encode_field (x mod P25519) = encode_field x"
  by (simp add: encode_field_def)

lemma scalarmult_eq:
  assumes "32 \<le> length out" "32 \<le> length secret" "32 \<le> length basepoint"
  shows "Hacl_Curve25519_crypto_scalarmult out secret basepoint = x25519 secret basepoint @ drop 32 out"
proof -
  let ?u = "int (le_nat (take 32 basepoint) mod 2 ^ 255)"
  let ?x = "Hacl_EC_Format_fexpand (take 5 (replicate 10 0)) basepoint"
  let ?q = "?x @ (drop 5 (replicate 10 0))[0 := 1]"
  have "rep TIGHT ?x ?u" using assms(3) by (intro fexpand_rep) simp_all
  moreover have "(drop 5 (replicate 10 (0 :: u64)))[0 := 1] = [1, 0, 0, 0, 0]"
    by (simp add: replicate_10)
  ultimately have q: "point_rep ?q (?u, 1)"
    using rep_one by (simp add: point_rep_append rep_length)
  have e: "(blit (replicate 32 0) 0 (take 32 secret))[0 := blit (replicate 32 0) 0 (take 32 secret) ! 0 AND 248,
      31 := (blit (replicate 32 0) 0 (take 32 secret) ! 31 AND 127) OR 64] = clamp25519 secret"
    using assms(2) by (simp add: blit_all clamp25519_def)
  have len: "length (clamp25519 secret) = 32" using assms(2) by (simp add: clamp25519_def)
  let ?r = "Hacl_EC_Ladder_cmult ((replicate 15 0)[0 := 1]) (clamp25519 secret) ?q"
  obtain x z where xz: "fst (ladder ?u (bits_of_bytes (clamp25519 secret))) = (x, z)"
    by (cases "fst (ladder ?u (bits_of_bytes (clamp25519 secret)))")
  have "point_rep (take 10 ?r) (x, z)"
    using cmult_correct [OF q len, of "(replicate 15 0)[0 := 1]"] xz by simp
  moreover have "Hacl_Curve25519_crypto_scalarmult out secret basepoint = Hacl_EC_Format_scalar_of_point out (take 10 ?r)"
    unfolding Hacl_Curve25519_crypto_scalarmult_def Hacl_EC_crypto_scalarmult_def Let_def e ..
  ultimately show ?thesis
    using assms(1) xz by (simp add: scalar_of_point_correct x25519_def x25519_bits_def)
qed

section \<open>Properties\<close>

text \<open>C11. X25519: for every secret, coordinate and output buffer the code writes the 32 bytes that RFC 7748 prescribes. The
  secret is clamped, the top bit of the coordinate ignored, the Montgomery ladder runs over the 256 bits of the clamped
  secret from the top with its formulas modulo \<open>2 ^ 255 - 19\<close>, and \<open>x / z\<close> is encoded by its canonical representative.\<close>

theorem x25519_correct:
  assumes "32 \<le> length out" "32 \<le> length secret" "32 \<le> length basepoint"
  shows "Hacl_Curve25519_crypto_scalarmult out secret basepoint = x25519 secret basepoint @ drop 32 out"
  by (rule scalarmult_eq [OF assms])

theorem x25519_correct_witness:
  "Hacl_Curve25519_crypto_scalarmult (replicate 32 0) (replicate 32 77) (9 # replicate 31 0)
    = x25519 (replicate 32 77) (9 # replicate 31 0)"
  using x25519_correct [of "replicate 32 0" "replicate 32 77" "9 # replicate 31 0"] by simp

end
