(* ===== verification/NaCl_Box.thy ===== *)
theory NaCl_Box
  imports NaCl_SecretBox Hacl_Curve25519
begin

text \<open>
  NaCl public-key boxes (\<^verbatim>\<open>NaCl.c\<close>): the X25519 secret of the two parties, hashed by HSalsa20 with a zero nonce, is
  the key of a secret box.  The \<^verbatim>\<open>afternm\<close> functions take that key ready-made.
\<close>

section \<open>The code\<close>

definition Hacl_Box_ZeroPad_crypto_box_beforenm :: "bytes \<Rightarrow> bytes \<Rightarrow> bytes \<Rightarrow> u32 \<times> bytes" where
  "Hacl_Box_ZeroPad_crypto_box_beforenm k1 pk sk =
     (let tmp = replicate 48 0;
          hsalsa_k = take 32 tmp;
          hsalsa_n = drop 32 tmp;
          hsalsa_k = Hacl_Curve25519_crypto_scalarmult hsalsa_k sk pk;
          k1 = Hacl_Salsa20_hsalsa20 k1 hsalsa_k hsalsa_n
      in (0, k1))"

definition Hacl_Box_ZeroPad_crypto_box_detached_afternm ::
  "bytes \<Rightarrow> bytes \<Rightarrow> bytes \<Rightarrow> u64 \<Rightarrow> bytes \<Rightarrow> bytes \<Rightarrow> u32 \<times> bytes \<times> bytes" where
  "Hacl_Box_ZeroPad_crypto_box_detached_afternm c mac m mlen n1 k1 =
     Hacl_SecretBox_ZeroPad_crypto_secretbox_detached c mac m mlen n1 k1"

definition Hacl_Box_ZeroPad_crypto_box_detached ::
  "bytes \<Rightarrow> bytes \<Rightarrow> bytes \<Rightarrow> u64 \<Rightarrow> bytes \<Rightarrow> bytes \<Rightarrow> bytes \<Rightarrow> u32 \<times> bytes \<times> bytes" where
  "Hacl_Box_ZeroPad_crypto_box_detached c mac m mlen n1 pk sk =
     (let key = replicate 80 0;
          k1 = slice 0 32 key;
          subkey = slice 32 32 key;
          hsalsa_n = slice 64 16 key;
          k1 = Hacl_Curve25519_crypto_scalarmult k1 sk pk;
          subkey = Hacl_Salsa20_hsalsa20 subkey k1 hsalsa_n
      in Hacl_SecretBox_ZeroPad_crypto_secretbox_detached c mac m mlen n1 subkey)"

definition Hacl_Box_ZeroPad_crypto_box_open_detached ::
  "bytes \<Rightarrow> bytes \<Rightarrow> bytes \<Rightarrow> u64 \<Rightarrow> bytes \<Rightarrow> bytes \<Rightarrow> bytes \<Rightarrow> u32 \<times> bytes" where
  "Hacl_Box_ZeroPad_crypto_box_open_detached m c mac mlen n1 pk sk =
     (let key = replicate 80 0;
          k1 = slice 0 32 key;
          subkey = slice 32 32 key;
          hsalsa_n = slice 64 16 key;
          k1 = Hacl_Curve25519_crypto_scalarmult k1 sk pk;
          subkey = Hacl_Salsa20_hsalsa20 subkey k1 hsalsa_n
      in Hacl_SecretBox_ZeroPad_crypto_secretbox_open_detached m c mac mlen n1 subkey)"

definition Hacl_Box_ZeroPad_crypto_box_easy_afternm ::
  "bytes \<Rightarrow> bytes \<Rightarrow> u64 \<Rightarrow> bytes \<Rightarrow> bytes \<Rightarrow> u32 \<times> bytes" where
  "Hacl_Box_ZeroPad_crypto_box_easy_afternm c m mlen n1 k1 =
     (let cmac = replicate 16 0;
          (z, c, cmac) = Hacl_Box_ZeroPad_crypto_box_detached_afternm c cmac m mlen n1 k1
      in (z, blit c 16 (take 16 cmac)))"

definition Hacl_Box_ZeroPad_crypto_box_easy ::
  "bytes \<Rightarrow> bytes \<Rightarrow> u64 \<Rightarrow> bytes \<Rightarrow> bytes \<Rightarrow> bytes \<Rightarrow> u32 \<times> bytes" where
  "Hacl_Box_ZeroPad_crypto_box_easy c m mlen n1 pk sk =
     (let cmac = replicate 16 0;
          (res, c, cmac) = Hacl_Box_ZeroPad_crypto_box_detached c cmac m mlen n1 pk sk
      in (res, blit c 16 (take 16 cmac)))"

definition Hacl_Box_ZeroPad_crypto_box_open_easy ::
  "bytes \<Rightarrow> bytes \<Rightarrow> u64 \<Rightarrow> bytes \<Rightarrow> bytes \<Rightarrow> bytes \<Rightarrow> u32 \<times> bytes" where
  "Hacl_Box_ZeroPad_crypto_box_open_easy m c mlen n1 pk sk =
     (let mac = drop 16 c
      in Hacl_Box_ZeroPad_crypto_box_open_detached m c mac mlen n1 pk sk)"

definition Hacl_Box_ZeroPad_crypto_box_open_detached_afternm ::
  "bytes \<Rightarrow> bytes \<Rightarrow> bytes \<Rightarrow> u64 \<Rightarrow> bytes \<Rightarrow> bytes \<Rightarrow> u32 \<times> bytes" where
  "Hacl_Box_ZeroPad_crypto_box_open_detached_afternm m c mac mlen n1 k1 =
     Hacl_SecretBox_ZeroPad_crypto_secretbox_open_detached m c mac mlen n1 k1"

definition Hacl_Box_ZeroPad_crypto_box_open_easy_afternm ::
  "bytes \<Rightarrow> bytes \<Rightarrow> u64 \<Rightarrow> bytes \<Rightarrow> bytes \<Rightarrow> u32 \<times> bytes" where
  "Hacl_Box_ZeroPad_crypto_box_open_easy_afternm m c mlen n1 k1 =
     (let mac = drop 16 c;
          t = Hacl_Box_ZeroPad_crypto_box_open_detached_afternm m c mac mlen n1 k1
      in t)"

definition NaCl_crypto_box_beforenm :: "bytes \<Rightarrow> bytes \<Rightarrow> bytes \<Rightarrow> u32 \<times> bytes" where
  "NaCl_crypto_box_beforenm k1 pk sk = Hacl_Box_ZeroPad_crypto_box_beforenm k1 pk sk"

definition NaCl_crypto_box_detached_afternm ::
  "bytes \<Rightarrow> bytes \<Rightarrow> bytes \<Rightarrow> u64 \<Rightarrow> bytes \<Rightarrow> bytes \<Rightarrow> u32 \<times> bytes \<times> bytes" where
  "NaCl_crypto_box_detached_afternm c mac m mlen n1 k1 =
     Hacl_Box_ZeroPad_crypto_box_detached_afternm c mac m mlen n1 k1"

definition NaCl_crypto_box_detached ::
  "bytes \<Rightarrow> bytes \<Rightarrow> bytes \<Rightarrow> u64 \<Rightarrow> bytes \<Rightarrow> bytes \<Rightarrow> bytes \<Rightarrow> u32 \<times> bytes \<times> bytes" where
  "NaCl_crypto_box_detached c mac m mlen n1 pk sk =
     Hacl_Box_ZeroPad_crypto_box_detached c mac m mlen n1 pk sk"

definition NaCl_crypto_box_open_detached ::
  "bytes \<Rightarrow> bytes \<Rightarrow> bytes \<Rightarrow> u64 \<Rightarrow> bytes \<Rightarrow> bytes \<Rightarrow> bytes \<Rightarrow> u32 \<times> bytes" where
  "NaCl_crypto_box_open_detached m c mac mlen n1 pk sk =
     Hacl_Box_ZeroPad_crypto_box_open_detached m c mac mlen n1 pk sk"

definition NaCl_crypto_box_easy_afternm :: "bytes \<Rightarrow> bytes \<Rightarrow> u64 \<Rightarrow> bytes \<Rightarrow> bytes \<Rightarrow> u32 \<times> bytes" where
  "NaCl_crypto_box_easy_afternm c m mlen n1 k1 = Hacl_Box_ZeroPad_crypto_box_easy_afternm c m mlen n1 k1"

definition NaCl_crypto_box_easy ::
  "bytes \<Rightarrow> bytes \<Rightarrow> u64 \<Rightarrow> bytes \<Rightarrow> bytes \<Rightarrow> bytes \<Rightarrow> u32 \<times> bytes" where
  "NaCl_crypto_box_easy c m mlen n1 pk sk = Hacl_Box_ZeroPad_crypto_box_easy c m mlen n1 pk sk"

definition NaCl_crypto_box_open_easy ::
  "bytes \<Rightarrow> bytes \<Rightarrow> u64 \<Rightarrow> bytes \<Rightarrow> bytes \<Rightarrow> bytes \<Rightarrow> u32 \<times> bytes" where
  "NaCl_crypto_box_open_easy m c mlen n1 pk sk = Hacl_Box_ZeroPad_crypto_box_open_easy m c mlen n1 pk sk"

definition NaCl_crypto_box_open_detached_afternm ::
  "bytes \<Rightarrow> bytes \<Rightarrow> bytes \<Rightarrow> u64 \<Rightarrow> bytes \<Rightarrow> bytes \<Rightarrow> u32 \<times> bytes" where
  "NaCl_crypto_box_open_detached_afternm m c mac mlen n1 k1 =
     Hacl_Box_ZeroPad_crypto_box_open_detached_afternm m c mac mlen n1 k1"

definition NaCl_crypto_box_open_easy_afternm ::
  "bytes \<Rightarrow> bytes \<Rightarrow> u64 \<Rightarrow> bytes \<Rightarrow> bytes \<Rightarrow> u32 \<times> bytes" where
  "NaCl_crypto_box_open_easy_afternm m c mlen n1 k1 =
     Hacl_Box_ZeroPad_crypto_box_open_easy_afternm m c mlen n1 k1"

section \<open>Lemmas\<close>

text \<open>The shared key of a box.\<close>

definition box_key :: "bytes \<Rightarrow> bytes \<Rightarrow> bytes" where
  "box_key pk sk = hsalsa20_key (x25519 sk pk) (replicate 16 0)"

lemma length_x25519 [simp]: "length (x25519 k u) = 32"
  by (simp add: x25519_def encode_field_def)

lemma derive_key:
  assumes "32 \<le> length pk" "32 \<le> length sk" "32 \<le> length out"
  shows "Hacl_Salsa20_hsalsa20 out (Hacl_Curve25519_crypto_scalarmult (replicate 32 0) sk pk) (replicate 16 0)
    = box_key pk sk @ drop 32 out"
  using assms hsalsa20_eq [of out] by (simp add: scalarmult_eq box_key_def)

lemma box_detached_secretbox:
  assumes "32 \<le> length pk" "32 \<le> length sk"
  shows "Hacl_Box_ZeroPad_crypto_box_detached c mac m mlen n pk sk
      = Hacl_SecretBox_ZeroPad_crypto_secretbox_detached c mac m mlen n (box_key pk sk)"
    and "Hacl_Box_ZeroPad_crypto_box_open_detached m c mac mlen n pk sk
      = Hacl_SecretBox_ZeroPad_crypto_secretbox_open_detached m c mac mlen n (box_key pk sk)"
  using derive_key [OF assms, of "replicate 32 0"]
  by (simp_all add: Hacl_Box_ZeroPad_crypto_box_detached_def Hacl_Box_ZeroPad_crypto_box_open_detached_def
      slice_def Let_def)

text \<open>The combined format has the tag behind 16 zero bytes, where the opening reads it.\<close>

lemma sealed_opens:
  assumes "length m = 32 + unat mlen" and "length m' = length m" and "unat mlen + 32 < 2 ^ 32"
    and "take 32 m = replicate 32 0" and "length p = 16" and c: "c = p @ box_tag k n (box_body k n m) @ box_body k n m"
  shows "Hacl_SecretBox_ZeroPad_crypto_secretbox_open_detached m' c (drop 16 c) mlen n k = (0, m)"
proof -
  have "replicate 32 0 @ drop 32 m = m"
    using append_take_drop_id [of 32 m] assms(4) by simp
  moreover have "drop 32 (stream_xor (xsalsa20 k n) c) = drop 32 m"
    using open_body [of "p @ box_tag k n (box_body k n m)" m k n] assms(1,5) by (simp add: c)
  ultimately show ?thesis
    using assms by (simp add: secretbox_open_detached_eq)
qed

lemma box_easy_eq:
  assumes "length m = 32 + unat mlen" and "length c = length m" and "unat mlen + 32 < 2 ^ 32"
    and "take 32 m = replicate 32 0"
  shows "NaCl_crypto_box_easy_afternm c m mlen n k
      = (0, replicate 16 0 @ box_tag k n (box_body k n m) @ box_body k n m)"
    and "32 \<le> length pk \<Longrightarrow> 32 \<le> length sk \<Longrightarrow> NaCl_crypto_box_easy c m mlen n pk sk
      = (0, replicate 16 0 @ box_tag (box_key pk sk) n (box_body (box_key pk sk) n m) @ box_body (box_key pk sk) n m)"
  using assms by (simp_all add: NaCl_crypto_box_easy_afternm_def Hacl_Box_ZeroPad_crypto_box_easy_afternm_def
      NaCl_crypto_box_easy_def Hacl_Box_ZeroPad_crypto_box_easy_def Hacl_Box_ZeroPad_crypto_box_detached_afternm_def
      box_detached_secretbox secretbox_detached_eq blit_def)

section \<open>Properties\<close>

text \<open>The box derived directly and the box with a key computed beforehand agree: \<open>beforenm\<close> succeeds with
  the key HSalsa20(X25519(sk, pk), 0), and sealing or opening with it, detached or combined, returns what the
  direct functions return on the two keys.\<close>

theorem box_afternm_agrees:
  assumes "32 \<le> length pk" "32 \<le> length sk" and "32 \<le> length k1"
  shows "NaCl_crypto_box_beforenm k1 pk sk = (0, box_key pk sk @ drop 32 k1)
    \<and> NaCl_crypto_box_detached c mac m mlen n pk sk = NaCl_crypto_box_detached_afternm c mac m mlen n (box_key pk sk)
    \<and> NaCl_crypto_box_open_detached m c mac mlen n pk sk
      = NaCl_crypto_box_open_detached_afternm m c mac mlen n (box_key pk sk)
    \<and> NaCl_crypto_box_easy c m mlen n pk sk = NaCl_crypto_box_easy_afternm c m mlen n (box_key pk sk)
    \<and> NaCl_crypto_box_open_easy m c mlen n pk sk = NaCl_crypto_box_open_easy_afternm m c mlen n (box_key pk sk)"
proof -
  have "NaCl_crypto_box_beforenm k1 pk sk = (0, box_key pk sk @ drop 32 k1)"
    using derive_key [OF assms] by (simp add: NaCl_crypto_box_beforenm_def Hacl_Box_ZeroPad_crypto_box_beforenm_def)
  then show ?thesis
    using assms(1,2) by (simp add: NaCl_crypto_box_detached_def NaCl_crypto_box_detached_afternm_def
        NaCl_crypto_box_open_detached_def NaCl_crypto_box_open_detached_afternm_def NaCl_crypto_box_easy_def
        NaCl_crypto_box_easy_afternm_def NaCl_crypto_box_open_easy_def NaCl_crypto_box_open_easy_afternm_def
        Hacl_Box_ZeroPad_crypto_box_detached_afternm_def Hacl_Box_ZeroPad_crypto_box_open_detached_afternm_def
        Hacl_Box_ZeroPad_crypto_box_easy_def Hacl_Box_ZeroPad_crypto_box_easy_afternm_def
        Hacl_Box_ZeroPad_crypto_box_open_easy_def Hacl_Box_ZeroPad_crypto_box_open_easy_afternm_def box_detached_secretbox)
qed

theorem box_afternm_agrees_witness:
  "NaCl_crypto_box_beforenm (replicate 32 7) (replicate 32 9) (replicate 32 5) = (0, box_key (replicate 32 9) (replicate 32 5))"
  using box_afternm_agrees [of "replicate 32 9" "replicate 32 5" "replicate 32 7", THEN conjunct1] by simp

text \<open>C12. The public-key box round-trips through its own combined format: when the two parties hold the same X25519
  secret, what one seals with \<open>box_easy\<close> the other opens with \<open>box_open_easy\<close>, with status 0 and the whole padded message.
  The message with its pad of 32 bytes has fewer than 2 ^ 32 bytes, because the code casts its length to \<^verbatim>\<open>uint32_t\<close>.\<close>

theorem box_open_seal:
  assumes "length m = 32 + unat mlen" and "length c = length m" and "length m' = length m"
    and "unat mlen + 32 < 2 ^ 32" and "take 32 m = replicate 32 0"
    and "32 \<le> length pk1" "32 \<le> length sk1" "32 \<le> length pk2" "32 \<le> length sk2"
    and "x25519 sk1 pk2 = x25519 sk2 pk1"
  shows "NaCl_crypto_box_open_easy m' (snd (NaCl_crypto_box_easy c m mlen n pk2 sk1)) mlen n pk1 sk2 = (0, m)"
proof -
  have "box_key pk1 sk2 = box_key pk2 sk1"
    using assms(10) by (simp add: box_key_def)
  then show ?thesis
    using assms sealed_opens [OF assms(1,3,4,5) _ refl, of "replicate 16 0" "box_key pk2 sk1" n]
    by (simp add: box_easy_eq NaCl_crypto_box_open_easy_def Hacl_Box_ZeroPad_crypto_box_open_easy_def box_detached_secretbox)
qed

text \<open>Two secrets that differ in the clamped bits only.\<close>

theorem box_open_seal_witness:
  "NaCl_crypto_box_open_easy (replicate 33 8)
     (snd (NaCl_crypto_box_easy (replicate 33 7) (replicate 32 0 @ [5]) 1 (replicate 24 3) (replicate 32 9) (8 # replicate 31 8)))
     1 (replicate 24 3) (replicate 32 9) (9 # replicate 31 8) = (0, replicate 32 0 @ [5])"
proof -
  have "clamp25519 (8 # replicate 31 8) = clamp25519 (9 # replicate 31 8)"
    by (simp add: clamp25519_def nth_Cons')
  then have "x25519 (8 # replicate 31 8) (replicate 32 9) = x25519 (9 # replicate 31 8) (replicate 32 9)"
    by (simp add: x25519_def)
  then show ?thesis
    by (intro box_open_seal; simp)
qed

end
