(* ===== verification/SHA2_Spec.thy ===== *)
theory SHA2_Spec
  imports Hacl_Lib
begin

text \<open>
  The SHA-2 family as FIPS 180-4 defines it, over words of any length: padding, message schedule,
  compression, and the hash as a fold over blocks.  The locale \<open>block_hash\<close> is the contract between
  a routine that absorbs one block into a state and the loops that absorb a message.
\<close>

section \<open>Compression\<close>

record (overloaded) ('w::len) sha2 =
  Sigma0 :: "'w word \<Rightarrow> 'w word"
  Sigma1 :: "'w word \<Rightarrow> 'w word"
  sigma0 :: "'w word \<Rightarrow> 'w word"
  sigma1 :: "'w word \<Rightarrow> 'w word"
  round_constants :: "'w word list"
  initial_hash :: "'w word list"

definition Ch :: "'w::len word \<Rightarrow> 'w word \<Rightarrow> 'w word \<Rightarrow> 'w word" where
  "Ch x y z = (x AND y) XOR (NOT x AND z)"

definition Maj :: "'w::len word \<Rightarrow> 'w word \<Rightarrow> 'w word \<Rightarrow> 'w word" where
  "Maj x y z = (x AND y) XOR ((x AND z) XOR (y AND z))"

definition schedule_word :: "'w::len sha2 \<Rightarrow> 'w word list \<Rightarrow> nat \<Rightarrow> 'w word" where
  "schedule_word p w t =
     sigma1 p (w ! (t - 2)) + w ! (t - 7) + sigma0 p (w ! (t - 15)) + w ! (t - 16)"

definition schedule_extend :: "'w::len sha2 \<Rightarrow> 'w word list \<Rightarrow> 'w word list" where
  "schedule_extend p w = w @ [schedule_word p w (length w)]"

definition schedule :: "'w::len sha2 \<Rightarrow> 'w word list \<Rightarrow> 'w word list" where
  "schedule p m = (schedule_extend p ^^ (length (round_constants p) - 16)) m"

definition sha2_round :: "'w::len sha2 \<Rightarrow> 'w word \<Rightarrow> 'w word \<Rightarrow> 'w word list \<Rightarrow> 'w word list" where
  "sha2_round p kt wt v =
     (let a = v ! 0; b = v ! 1; c = v ! 2; d = v ! 3; e = v ! 4; f = v ! 5; g = v ! 6; h = v ! 7;
          t1 = h + Sigma1 p e + Ch e f g + kt + wt;
          t2 = Sigma0 p a + Maj a b c
      in [t1 + t2, a, b, c, d + t1, e, f, g])"

definition compress :: "'w::len sha2 \<Rightarrow> 'w word list \<Rightarrow> 'w word list \<Rightarrow> 'w word list" where
  "compress p h m =
     (let w = schedule p m
      in map2 (+) h (fold (\<lambda>t. sha2_round p (round_constants p ! t) (w ! t)) [0..<length (round_constants p)] h))"

section \<open>Padding and hashing\<close>

text \<open>\<open>b\<close> is the block length and \<open>l\<close> that of the length field, in bytes.\<close>

definition sha2_zeros :: "nat \<Rightarrow> nat \<Rightarrow> nat \<Rightarrow> nat" where
  "sha2_zeros b l n = (b - (n + l + 1) mod b) mod b"

definition sha2_pad :: "nat \<Rightarrow> nat \<Rightarrow> bytes \<Rightarrow> bytes" where
  "sha2_pad b l m = m @ [0x80] @ replicate (sha2_zeros b l (length m)) 0 @ nat_to_be l (8 * length m)"

fun blocks :: "nat \<Rightarrow> nat \<Rightarrow> bytes \<Rightarrow> bytes list" where
  "blocks b 0 m = []"
| "blocks b (Suc n) m = take b m # blocks b n (drop b m)"

definition sha2_hash ::
  "'w::len sha2 \<Rightarrow> (bytes \<Rightarrow> 'w word list) \<Rightarrow> nat \<Rightarrow> nat \<Rightarrow> bytes \<Rightarrow> 'w word list" where
  "sha2_hash p words b l m =
     (let q = sha2_pad b l m
      in foldl (\<lambda>h x. compress p h (words x)) (initial_hash p) (blocks b (length q div b) q))"

section \<open>Lemmas\<close>

lemma rotr_or:
  fixes x :: "'a::len word"
  assumes "0 < n" and "n < LENGTH('a)"
  shows "drop_bit n x OR push_bit (LENGTH('a) - n) x = word_rotr n x"
proof (rule bit_word_eqI)
  fix k
  assume k: "k < LENGTH('a)"
  have "(k + n) mod LENGTH('a) = (if k + n < LENGTH('a) then k + n else k - (LENGTH('a) - n))"
    using assms k by (auto simp: mod_if)
  moreover have "\<not> k + n < LENGTH('a) \<Longrightarrow> \<not> bit x (k + n)"
    by (auto dest: bit_imp_le_length)
  ultimately show "bit (drop_bit n x OR push_bit (LENGTH('a) - n) x) k = bit (word_rotr n x) k"
    using assms k by (auto simp: bit_word_rotr_iff bit_or_iff bit_push_bit_iff bit_drop_bit_eq add.commute [of n])
qed

lemma round_up:
  assumes "0 < (b :: nat)"
  shows "n + (b - n mod b) mod b = b * ((n + b - 1) div b)"
proof -
  define q r where "q = n div b" "r = n mod b"
  have n: "n = b * q + r" and r: "r < b"
    using assms by (simp_all add: q_r_def)
  show ?thesis
  proof (cases "r = 0")
    case True
    then have "(n + b - 1) div b = q"
      using assms by (intro div_nat_eqI) (simp_all add: n)
    then show ?thesis using True by (simp add: n)
  next
    case False
    have "n + b - 1 = b * Suc q + (r - 1)" and "r - 1 < b"
      using False r by (simp_all add: n)
    then have "(n + b - 1) div b = Suc q"
      by (intro div_nat_eqI) simp_all
    moreover have "n mod b = r"
      using r by (simp add: n)
    ultimately show ?thesis
      using False r by (simp add: n)
  qed
qed

lemma length_sha2_pad:
  assumes "0 < b"
  shows "length (sha2_pad b l m) = b * ((length m + l + b) div b)"
  using round_up [OF assms, of "length m + l + 1"] by (simp add: sha2_pad_def sha2_zeros_def add_ac)

lemma blocks_append:
  "length x = b * n \<Longrightarrow> blocks b (n + k) (x @ y) = blocks b n x @ blocks b k y"
proof (induction n arbitrary: x)
  case (Suc n)
  then have "length (drop b x) = b * n" and "b \<le> length x"
    by simp_all
  with Suc.IH show ?case by simp
qed simp

lemma blocks_concat: "\<forall>x \<in> set xs. length x = b \<Longrightarrow> blocks b (length xs) (concat xs) = xs"
  by (induction xs) simp_all

lemma length_concat_blocks: "\<forall>x \<in> set xs. length x = b \<Longrightarrow> length (concat xs) = b * length xs"
  by (induction xs) simp_all

lemma blocks_take: "blocks b n (take (b * n) m) = blocks b n m"
  by (induction n arbitrary: m) (simp_all add: min_def drop_take)

lemma length_schedule_extend [simp]: "length (schedule_extend p w) = Suc (length w)"
  by (simp add: schedule_extend_def)

lemma length_schedule_iter: "length ((schedule_extend p ^^ n) w) = length w + n"
  by (induction n) simp_all

lemma take_schedule_extend: "n \<le> length w \<Longrightarrow> take n (schedule_extend p w) = take n w"
  by (simp add: schedule_extend_def)

lemma take_schedule_iter: "take (length w) ((schedule_extend p ^^ n) w) = w"
  by (induction n) (simp_all add: take_schedule_extend length_schedule_iter)

text \<open>The schedule computed in place: word \<open>t\<close> only looks at the words before it.\<close>

lemma schedule_word_append:
  "16 \<le> length w \<Longrightarrow> schedule_word p (w @ r) (length w) = schedule_word p w (length w)"
proof -
  assume w: "16 \<le> length w"
  then have "length w - 2 < length w" "length w - 7 < length w" "length w - 15 < length w" "length w - 16 < length w"
    by linarith+
  then show ?thesis
    by (simp only: schedule_word_def nth_append if_True)
qed

lemma schedule_in_place:
  assumes "length m = 16" and "16 + n \<le> length w" and "take 16 w = m"
  shows "for_range 16 (16 + n) (\<lambda>t w. w[t := schedule_word p w t]) w
    = (schedule_extend p ^^ n) m @ drop (16 + n) w"
  using assms(2)
proof (induction n)
  case 0
  then show ?case using append_take_drop_id [of 16 w] assms(3) by simp
next
  case (Suc n)
  let ?s = "(schedule_extend p ^^ n) m"
  have l: "length ?s = 16 + n"
    using assms(1) by (simp add: length_schedule_iter)
  have "drop (16 + n) w = w ! (16 + n) # drop (Suc (16 + n)) w"
    by (rule Cons_nth_drop_Suc [symmetric]) (use Suc.prems in simp)
  then have d: "drop (16 + n) w = w ! (16 + n) # drop (16 + Suc n) w"
    by simp
  have "for_range 16 (16 + Suc n) (\<lambda>t w. w[t := schedule_word p w t]) w
      = (?s @ drop (16 + n) w)[16 + n := schedule_word p (?s @ drop (16 + n) w) (16 + n)]"
    using Suc for_range_last [of 16 "16 + n" "\<lambda>t w. w[t := schedule_word p w t]" w] by simp
  also have "\<dots> = (?s @ drop (16 + n) w)[16 + n := schedule_word p ?s (16 + n)]"
    using schedule_word_append [of ?s p "drop (16 + n) w"] by (simp add: l)
  also have "\<dots> = ?s @ [schedule_word p ?s (16 + n)] @ drop (16 + Suc n) w"
    unfolding d using l by (simp add: list_update_append)
  finally show ?case
    by (simp only: funpow.simps o_apply schedule_extend_def [of p ?s] l append_assoc)
qed

lemma length_sha2_round [simp]: "length (sha2_round p k w v) = 8"
  by (simp add: sha2_round_def Let_def)

lemma length_rounds: "length h = 8 \<Longrightarrow> length (fold (\<lambda>t. sha2_round p (f t) (g t)) ts h) = 8"
  by (induction ts arbitrary: h) simp_all

lemma length_compress [simp]: "length h = 8 \<Longrightarrow> length (compress p h m) = 8"
  by (simp add: compress_def Let_def length_rounds)

lemma fold_cong_list: "(\<And>t x. t \<in> set ts \<Longrightarrow> length x = 8 \<Longrightarrow> f t x = g t x) \<Longrightarrow>
    (\<And>t x. length x = 8 \<Longrightarrow> length (g t x) = 8) \<Longrightarrow> length h = 8 \<Longrightarrow> fold f ts h = fold g ts h"
  by (induction ts arbitrary: h) auto

section \<open>Absorbing blocks\<close>

locale block_hash =
  fixes ok :: "'s \<Rightarrow> bool"
    and hash :: "'s \<Rightarrow> 'h"
    and count :: "'s \<Rightarrow> 'c::len word"
    and update :: "'s \<Rightarrow> bytes \<Rightarrow> 's"
    and step :: "'h \<Rightarrow> bytes \<Rightarrow> 'h"
    and b :: nat
  assumes b_pos: "0 < b"
    and update_ok: "ok s \<Longrightarrow> b \<le> length d \<Longrightarrow> ok (update s d)"
    and update_hash: "ok s \<Longrightarrow> b \<le> length d \<Longrightarrow> hash (update s d) = step (hash s) (take b d)"
    and update_count: "ok s \<Longrightarrow> b \<le> length d \<Longrightarrow> count (update s d) = count s + 1"
begin

text \<open>The multi-block loop: block \<open>i\<close> is read at byte offset \<^verbatim>\<open>i * b\<close>, a 32-bit product.\<close>

definition multi :: "'s \<Rightarrow> bytes \<Rightarrow> nat \<Rightarrow> 's" where
  "multi s d n = for_range 0 n (\<lambda>i s. update s (drop (off32 i b) d)) s"

lemma multi_correct:
  assumes "ok s" and "b * n \<le> length d" and "b * n < 2 ^ 32 + b"
  shows "ok (multi s d n) \<and> hash (multi s d n) = foldl step (hash s) (blocks b n d)
    \<and> count (multi s d n) = count s + word_of_nat n"
  using assms(2,3)
proof (induction n)
  case 0
  then show ?case using assms(1) by (simp add: multi_def)
next
  case (Suc n)
  have off: "off32 n b = b * n"
    using Suc.prems(2) by (simp add: off32_def mult.commute)
  have n: "b * n \<le> length d" "b * n < 2 ^ 32 + b"
    using Suc.prems by simp_all
  define t where "t = multi s d n"
  have t: "ok t" "hash t = foldl step (hash s) (blocks b n d)" "count t = count s + word_of_nat n"
    using Suc.IH [OF n] by (simp_all only: t_def simp_thms)
  have step: "multi s d (Suc n) = update t (drop (b * n) d)"
    by (simp add: multi_def for_range_last off t_def)
  have len: "b \<le> length (drop (b * n) d)"
    using Suc.prems(1) by simp
  have "blocks b (n + 1) (take (b * n) d @ drop (b * n) d) = blocks b n (take (b * n) d) @ blocks b 1 (drop (b * n) d)"
    using Suc.prems(1) by (intro blocks_append) simp
  then have "blocks b (Suc n) d = blocks b n d @ [take b (drop (b * n) d)]"
    by (simp only: blocks_take append_take_drop_id) simp
  then show ?case
    unfolding step using update_ok [OF t(1) len] update_hash [OF t(1) len] update_count [OF t(1) len] t(2,3)
    by (simp only: foldl_append foldl.simps of_nat_Suc add_ac simp_thms)
qed

lemma absorb_list:
  assumes "ok s" and "\<forall>x \<in> set xs. length x = b"
  shows "ok (foldl update s xs) \<and> hash (foldl update s xs) = foldl step (hash s) xs
    \<and> count (foldl update s xs) = count s + word_of_nat (length xs)"
  using assms
proof (induction xs arbitrary: s)
  case (Cons x xs)
  then have x: "b \<le> length x" "take b x = x" by simp_all
  show ?case
    using Cons.IH [of "update s x"] Cons.prems update_ok [OF Cons.prems(1) x(1)]
      update_hash [OF Cons.prems(1) x(1)] update_count [OF Cons.prems(1) x(1)]
    by (simp add: x(2) add.assoc)
qed simp

lemma multi_append:
  assumes "ok s" and "b * n \<le> length d" and "length e = b * k" and "b * n < 2 ^ 32" and "b * k < 2 ^ 32"
  shows "hash (multi (multi s d n) e k) = foldl step (hash s) (blocks b (n + k) (take (b * n) d @ e))"
  using multi_correct [OF assms(1,2)] multi_correct [of "multi s d n" k e] assms
  by (simp add: blocks_append blocks_take)

end

section \<open>The last blocks\<close>

text \<open>A buffer of zeros that receives the rest of the message, the byte 0x80 and the length.\<close>

definition last_blocks :: "nat \<Rightarrow> nat \<Rightarrow> bytes \<Rightarrow> bytes \<Rightarrow> bytes" where
  "last_blocks b l m enc = m @ [0x80] @ replicate (sha2_zeros b l (length m)) 0 @ enc"

lemma last_blocks_buffer:
  assumes "length m + 1 + z + length enc = n" and "z = sha2_zeros b l (length m)"
  shows "blit ((blit (replicate n 0) 0 m)[length m := 0x80]) (length m + 1 + z) enc = last_blocks b l m enc"
proof -
  have "blit (replicate n 0) 0 m = m @ 0 # replicate (z + length enc) 0"
  proof -
    have "n - length m = Suc (z + length enc)"
      using assms(1) by simp
    then show ?thesis by (simp add: blit_0)
  qed
  then have "(blit (replicate n 0) 0 m)[length m := 0x80] = m @ [0x80] @ replicate z 0 @ replicate (length enc) 0"
    by (simp add: replicate_add)
  then show ?thesis
    by (simp add: blit_def last_blocks_def assms(2))
qed

lemma pad_split:
  assumes "length m1 = b * n"
  shows "sha2_pad b l (m1 @ m2) = m1 @ last_blocks b l m2 (nat_to_be l (8 * (b * n + length m2)))"
proof -
  have "sha2_zeros b l (b * n + length m2) = sha2_zeros b l (length m2)"
    by (simp add: sha2_zeros_def add.assoc)
  then show ?thesis
    by (simp add: sha2_pad_def last_blocks_def assms)
qed

lemma length_last_blocks:
  assumes "0 < b"
  shows "length (last_blocks b (length enc) m enc) = b * ((length m + length enc + b) div b)"
  using length_sha2_pad [OF assms, of "length enc" m] by (simp add: last_blocks_def sha2_pad_def)

end
