(* ===== verification/SHA2_Constants.thy ===== *)
theory SHA2_Constants
  imports SHA2_Spec
begin

text \<open>
  The constants of FIPS 180-4 by their definition rather than as tables: the round constants are the
  first bits of the fractional parts of the cube roots of the first primes, the initial hashes those
  of the square roots.  The equations below evaluate them; the tables of the code are compared with them.
\<close>

section \<open>Roots\<close>

text \<open>The integer part of the \<open>e\<close>-th root of \<open>n\<close>, and the first bits of the fraction of the root of \<open>p\<close>.\<close>

definition int_root :: "nat \<Rightarrow> nat \<Rightarrow> nat" where
  "int_root e n = (GREATEST k. k ^ e \<le> n)"

definition root_bits :: "nat \<Rightarrow> nat \<Rightarrow> 'w::len word" where
  "root_bits e p = word_of_nat (int_root e (p * 2 ^ (e * LENGTH('w))))"

lemma int_root_eqI:
  assumes "k ^ e \<le> n" and "n < (k + 1) ^ e"
  shows "int_root e n = k"
  unfolding int_root_def
proof (rule Greatest_equality)
  show "k ^ e \<le> n" by (rule assms(1))
  fix y assume "y ^ e \<le> n"
  then have "y ^ e < (k + 1) ^ e" using assms(2) by simp
  then have "y < k + 1" by (rule power_less_imp_less_base) simp
  then show "y \<le> k" by simp
qed

lemma root_bits_eqI:
  fixes c :: "'w::len word"
  assumes "k ^ e \<le> p * 2 ^ (e * LENGTH('w))" and "p * 2 ^ (e * LENGTH('w)) < (k + 1) ^ e" and "word_of_nat k = c"
  shows "root_bits e p = c"
  using int_root_eqI [OF assms(1,2)] assms(3) by (simp add: root_bits_def)

text \<open>The primes below 410, in order: the first eighty, as the numbers that no smaller prime below 21 divides.\<close>

definition primes80 :: "nat list" where
  "primes80 = filter (\<lambda>n. list_all (\<lambda>d. n = d \<or> n mod d \<noteq> 0) [2, 3, 5, 7, 11, 13, 17, 19]) [2..<410]"

lemma primes80_eq:
  "primes80 = [2, 3, 5, 7, 11, 13, 17, 19, 23, 29, 31, 37, 41, 43, 47, 53, 59, 61, 67, 71, 73, 79, 83,
      89, 97, 101, 103, 107, 109, 113, 127, 131, 137, 139, 149, 151, 157, 163, 167, 173, 179,
      181, 191, 193, 197, 199, 211, 223, 227, 229, 233, 239, 241, 251, 257, 263, 269, 271, 277,
      281, 283, 293, 307, 311, 313, 317, 331, 337, 347, 349, 353, 359, 367, 373, 379, 383, 389,
      397, 401, 409]"
  by (simp add: primes80_def upt_rec_numeral)

section \<open>Values\<close>

lemma cube_roots_32_0:
  "root_bits 3 2 = (0x428a2f98 :: u32)"
  "root_bits 3 3 = (0x71374491 :: u32)"
  "root_bits 3 5 = (0xb5c0fbcf :: u32)"
  "root_bits 3 7 = (0xe9b5dba5 :: u32)"
  "root_bits 3 11 = (0x3956c25b :: u32)"
  "root_bits 3 13 = (0x59f111f1 :: u32)"
  "root_bits 3 17 = (0x923f82a4 :: u32)"
  "root_bits 3 19 = (0xab1c5ed5 :: u32)"
proof -
  show "root_bits 3 2 = (0x428a2f98 :: u32)"
    by (rule root_bits_eqI [of 5411319704]; simp)
  show "root_bits 3 3 = (0x71374491 :: u32)"
    by (rule root_bits_eqI [of 6194414737]; simp)
  show "root_bits 3 5 = (0xb5c0fbcf :: u32)"
    by (rule root_bits_eqI [of 7344290767]; simp)
  show "root_bits 3 7 = (0xe9b5dba5 :: u32)"
    by (rule root_bits_eqI [of 8215976869]; simp)
  show "root_bits 3 11 = (0x3956c25b :: u32)"
    by (rule root_bits_eqI [of 9551921755]; simp)
  show "root_bits 3 13 = (0x59f111f1 :: u32)"
    by (rule root_bits_eqI [of 10098905585]; simp)
  show "root_bits 3 17 = (0x923f82a4 :: u32)"
    by (rule root_bits_eqI [of 11043570340]; simp)
  show "root_bits 3 19 = (0xab1c5ed5 :: u32)"
    by (rule root_bits_eqI [of 11460697813]; simp)
qed

lemma cube_roots_32_8:
  "root_bits 3 23 = (0xd807aa98 :: u32)"
  "root_bits 3 29 = (0x12835b01 :: u32)"
  "root_bits 3 31 = (0x243185be :: u32)"
  "root_bits 3 37 = (0x550c7dc3 :: u32)"
  "root_bits 3 41 = (0x72be5d74 :: u32)"
  "root_bits 3 43 = (0x80deb1fe :: u32)"
  "root_bits 3 47 = (0x9bdc06a7 :: u32)"
  "root_bits 3 53 = (0xc19bf174 :: u32)"
proof -
  show "root_bits 3 23 = (0xd807aa98 :: u32)"
    by (rule root_bits_eqI [of 12214315672]; simp)
  show "root_bits 3 29 = (0x12835b01 :: u32)"
    by (rule root_bits_eqI [of 13195500289]; simp)
  show "root_bits 3 31 = (0x243185be :: u32)"
    by (rule root_bits_eqI [of 13492127166]; simp)
  show "root_bits 3 37 = (0x550c7dc3 :: u32)"
    by (rule root_bits_eqI [of 14311783875]; simp)
  show "root_bits 3 41 = (0x72be5d74 :: u32)"
    by (rule root_bits_eqI [of 14809980276]; simp)
  show "root_bits 3 43 = (0x80deb1fe :: u32)"
    by (rule root_bits_eqI [of 15046980094]; simp)
  show "root_bits 3 47 = (0x9bdc06a7 :: u32)"
    by (rule root_bits_eqI [of 15499789991]; simp)
  show "root_bits 3 53 = (0xc19bf174 :: u32)"
    by (rule root_bits_eqI [of 16133124468]; simp)
qed

lemma cube_roots_32_16:
  "root_bits 3 59 = (0xe49b69c1 :: u32)"
  "root_bits 3 61 = (0xefbe4786 :: u32)"
  "root_bits 3 67 = (0x0fc19dc6 :: u32)"
  "root_bits 3 71 = (0x240ca1cc :: u32)"
  "root_bits 3 73 = (0x2de92c6f :: u32)"
  "root_bits 3 79 = (0x4a7484aa :: u32)"
  "root_bits 3 83 = (0x5cb0a9dc :: u32)"
  "root_bits 3 89 = (0x76f988da :: u32)"
proof -
  show "root_bits 3 59 = (0xe49b69c1 :: u32)"
    by (rule root_bits_eqI [of 16720292289]; simp)
  show "root_bits 3 61 = (0xefbe4786 :: u32)"
    by (rule root_bits_eqI [of 16907126662]; simp)
  show "root_bits 3 67 = (0x0fc19dc6 :: u32)"
    by (rule root_bits_eqI [of 17444216262]; simp)
  show "root_bits 3 71 = (0x240ca1cc :: u32)"
    by (rule root_bits_eqI [of 17784676812]; simp)
  show "root_bits 3 73 = (0x2de92c6f :: u32)"
    by (rule root_bits_eqI [of 17950125167]; simp)
  show "root_bits 3 79 = (0x4a7484aa :: u32)"
    by (rule root_bits_eqI [of 18429019306]; simp)
  show "root_bits 3 83 = (0x5cb0a9dc :: u32)"
    by (rule root_bits_eqI [of 18734950876]; simp)
  show "root_bits 3 89 = (0x76f988da :: u32)"
    by (rule root_bits_eqI [of 19175934170]; simp)
qed

lemma cube_roots_32_24:
  "root_bits 3 97 = (0x983e5152 :: u32)"
  "root_bits 3 101 = (0xa831c66d :: u32)"
  "root_bits 3 103 = (0xb00327c8 :: u32)"
  "root_bits 3 107 = (0xbf597fc7 :: u32)"
  "root_bits 3 109 = (0xc6e00bf3 :: u32)"
  "root_bits 3 113 = (0xd5a79147 :: u32)"
  "root_bits 3 127 = (0x06ca6351 :: u32)"
  "root_bits 3 131 = (0x14292967 :: u32)"
proof -
  show "root_bits 3 97 = (0x983e5152 :: u32)"
    by (rule root_bits_eqI [of 19734090066]; simp)
  show "root_bits 3 101 = (0xa831c66d :: u32)"
    by (rule root_bits_eqI [of 20001703533]; simp)
  show "root_bits 3 103 = (0xb00327c8 :: u32)"
    by (rule root_bits_eqI [of 20132865992]; simp)
  show "root_bits 3 107 = (0xbf597fc7 :: u32)"
    by (rule root_bits_eqI [of 20390182855]; simp)
  show "root_bits 3 109 = (0xc6e00bf3 :: u32)"
    by (rule root_bits_eqI [of 20516441075]; simp)
  show "root_bits 3 113 = (0xd5a79147 :: u32)"
    by (rule root_bits_eqI [of 20764397895]; simp)
  show "root_bits 3 127 = (0x06ca6351 :: u32)"
    by (rule root_bits_eqI [of 21588763473]; simp)
  show "root_bits 3 131 = (0x14292967 :: u32)"
    by (rule root_bits_eqI [of 21813078375]; simp)
qed

lemma cube_roots_32_32:
  "root_bits 3 137 = (0x27b70a85 :: u32)"
  "root_bits 3 139 = (0x2e1b2138 :: u32)"
  "root_bits 3 149 = (0x4d2c6dfc :: u32)"
  "root_bits 3 151 = (0x53380d13 :: u32)"
  "root_bits 3 157 = (0x650a7354 :: u32)"
  "root_bits 3 163 = (0x766a0abb :: u32)"
  "root_bits 3 167 = (0x81c2c92e :: u32)"
  "root_bits 3 173 = (0x92722c85 :: u32)"
proof -
  show "root_bits 3 137 = (0x27b70a85 :: u32)"
    by (rule root_bits_eqI [of 22141143685]; simp)
  show "root_bits 3 139 = (0x2e1b2138 :: u32)"
    by (rule root_bits_eqI [of 22248366392]; simp)
  show "root_bits 3 149 = (0x4d2c6dfc :: u32)"
    by (rule root_bits_eqI [of 22769593852]; simp)
  show "root_bits 3 151 = (0x53380d13 :: u32)"
    by (rule root_bits_eqI [of 22871018771]; simp)
  show "root_bits 3 157 = (0x650a7354 :: u32)"
    by (rule root_bits_eqI [of 23170020180]; simp)
  show "root_bits 3 163 = (0x766a0abb :: u32)"
    by (rule root_bits_eqI [of 23461497531]; simp)
  show "root_bits 3 167 = (0x81c2c92e :: u32)"
    by (rule root_bits_eqI [of 23651862830]; simp)
  show "root_bits 3 173 = (0x92722c85 :: u32)"
    by (rule root_bits_eqI [of 23931792517]; simp)
qed

lemma cube_roots_32_40:
  "root_bits 3 179 = (0xa2bfe8a1 :: u32)"
  "root_bits 3 181 = (0xa81a664b :: u32)"
  "root_bits 3 191 = (0xc24b8b70 :: u32)"
  "root_bits 3 193 = (0xc76c51a3 :: u32)"
  "root_bits 3 197 = (0xd192e819 :: u32)"
  "root_bits 3 199 = (0xd6990624 :: u32)"
  "root_bits 3 211 = (0xf40e3585 :: u32)"
  "root_bits 3 223 = (0x106aa070 :: u32)"
proof -
  show "root_bits 3 179 = (0xa2bfe8a1 :: u32)"
    by (rule root_bits_eqI [of 24205322401]; simp)
  show "root_bits 3 181 = (0xa81a664b :: u32)"
    by (rule root_bits_eqI [of 24295138891]; simp)
  show "root_bits 3 191 = (0xc24b8b70 :: u32)"
    by (rule root_bits_eqI [of 24734567280]; simp)
  show "root_bits 3 193 = (0xc76c51a3 :: u32)"
    by (rule root_bits_eqI [of 24820601251]; simp)
  show "root_bits 3 197 = (0xd192e819 :: u32)"
    by (rule root_bits_eqI [of 24990902297]; simp)
  show "root_bits 3 199 = (0xd6990624 :: u32)"
    by (rule root_bits_eqI [of 25075189284]; simp)
  show "root_bits 3 211 = (0xf40e3585 :: u32)"
    by (rule root_bits_eqI [of 25569408389]; simp)
  show "root_bits 3 223 = (0x106aa070 :: u32)"
    by (rule root_bits_eqI [of 26045227120]; simp)
qed

lemma cube_roots_32_48:
  "root_bits 3 227 = (0x19a4c116 :: u32)"
  "root_bits 3 229 = (0x1e376c08 :: u32)"
  "root_bits 3 233 = (0x2748774c :: u32)"
  "root_bits 3 239 = (0x34b0bcb5 :: u32)"
  "root_bits 3 241 = (0x391c0cb3 :: u32)"
  "root_bits 3 251 = (0x4ed8aa4a :: u32)"
  "root_bits 3 257 = (0x5b9cca4f :: u32)"
  "root_bits 3 263 = (0x682e6ff3 :: u32)"
proof -
  show "root_bits 3 227 = (0x19a4c116 :: u32)"
    by (rule root_bits_eqI [of 26200031510]; simp)
  show "root_bits 3 229 = (0x1e376c08 :: u32)"
    by (rule root_bits_eqI [of 26276752392]; simp)
  show "root_bits 3 233 = (0x2748774c :: u32)"
    by (rule root_bits_eqI [of 26428864332]; simp)
  show "root_bits 3 239 = (0x34b0bcb5 :: u32)"
    by (rule root_bits_eqI [of 26653801653]; simp)
  show "root_bits 3 241 = (0x391c0cb3 :: u32)"
    by (rule root_bits_eqI [of 26727943347]; simp)
  show "root_bits 3 251 = (0x4ed8aa4a :: u32)"
    by (rule root_bits_eqI [of 27092625994]; simp)
  show "root_bits 3 257 = (0x5b9cca4f :: u32)"
    by (rule root_bits_eqI [of 27306805839]; simp)
  show "root_bits 3 263 = (0x682e6ff3 :: u32)"
    by (rule root_bits_eqI [of 27517677555]; simp)
qed

lemma cube_roots_32_56:
  "root_bits 3 269 = (0x748f82ee :: u32)"
  "root_bits 3 271 = (0x78a5636f :: u32)"
  "root_bits 3 277 = (0x84c87814 :: u32)"
  "root_bits 3 281 = (0x8cc70208 :: u32)"
  "root_bits 3 283 = (0x90befffa :: u32)"
  "root_bits 3 293 = (0xa4506ceb :: u32)"
  "root_bits 3 307 = (0xbef9a3f7 :: u32)"
  "root_bits 3 311 = (0xc67178f2 :: u32)"
proof -
  show "root_bits 3 269 = (0x748f82ee :: u32)"
    by (rule root_bits_eqI [of 27725365998]; simp)
  show "root_bits 3 271 = (0x78a5636f :: u32)"
    by (rule root_bits_eqI [of 27793908591]; simp)
  show "root_bits 3 277 = (0x84c87814 :: u32)"
    by (rule root_bits_eqI [of 27997534228]; simp)
  show "root_bits 3 281 = (0x8cc70208 :: u32)"
    by (rule root_bits_eqI [of 28131656200]; simp)
  show "root_bits 3 283 = (0x90befffa :: u32)"
    by (rule root_bits_eqI [of 28198240250]; simp)
  show "root_bits 3 293 = (0xa4506ceb :: u32)"
    by (rule root_bits_eqI [of 28526537963]; simp)
  show "root_bits 3 307 = (0xbef9a3f7 :: u32)"
    by (rule root_bits_eqI [of 28973835255]; simp)
  show "root_bits 3 311 = (0xc67178f2 :: u32)"
    by (rule root_bits_eqI [of 29099129074]; simp)
qed

lemmas cube_roots_32 = cube_roots_32_0 cube_roots_32_8 cube_roots_32_16 cube_roots_32_24 cube_roots_32_32 cube_roots_32_40 cube_roots_32_48 cube_roots_32_56

lemma square_roots_32_0:
  "root_bits 2 2 = (0x6a09e667 :: u32)"
  "root_bits 2 3 = (0xbb67ae85 :: u32)"
  "root_bits 2 5 = (0x3c6ef372 :: u32)"
  "root_bits 2 7 = (0xa54ff53a :: u32)"
  "root_bits 2 11 = (0x510e527f :: u32)"
  "root_bits 2 13 = (0x9b05688c :: u32)"
  "root_bits 2 17 = (0x1f83d9ab :: u32)"
  "root_bits 2 19 = (0x5be0cd19 :: u32)"
proof -
  show "root_bits 2 2 = (0x6a09e667 :: u32)"
    by (rule root_bits_eqI [of 6074000999]; simp)
  show "root_bits 2 3 = (0xbb67ae85 :: u32)"
    by (rule root_bits_eqI [of 7439101573]; simp)
  show "root_bits 2 5 = (0x3c6ef372 :: u32)"
    by (rule root_bits_eqI [of 9603838834]; simp)
  show "root_bits 2 7 = (0xa54ff53a :: u32)"
    by (rule root_bits_eqI [of 11363415354]; simp)
  show "root_bits 2 11 = (0x510e527f :: u32)"
    by (rule root_bits_eqI [of 14244795007]; simp)
  show "root_bits 2 13 = (0x9b05688c :: u32)"
    by (rule root_bits_eqI [of 15485724812]; simp)
  show "root_bits 2 17 = (0x1f83d9ab :: u32)"
    by (rule root_bits_eqI [of 17708603819]; simp)
  show "root_bits 2 19 = (0x5be0cd19 :: u32)"
    by (rule root_bits_eqI [of 18721328409]; simp)
qed

lemmas square_roots_32 = square_roots_32_0

lemma cube_roots_64_0:
  "root_bits 3 2 = (0x428a2f98d728ae22 :: u64)"
  "root_bits 3 3 = (0x7137449123ef65cd :: u64)"
  "root_bits 3 5 = (0xb5c0fbcfec4d3b2f :: u64)"
  "root_bits 3 7 = (0xe9b5dba58189dbbc :: u64)"
  "root_bits 3 11 = (0x3956c25bf348b538 :: u64)"
  "root_bits 3 13 = (0x59f111f1b605d019 :: u64)"
  "root_bits 3 17 = (0x923f82a4af194f9b :: u64)"
  "root_bits 3 19 = (0xab1c5ed5da6d8118 :: u64)"
proof -
  show "root_bits 3 2 = (0x428a2f98d728ae22 :: u64)"
    by (rule root_bits_eqI [of 23241441160490167842]; simp)
  show "root_bits 3 3 = (0x7137449123ef65cd :: u64)"
    by (rule root_bits_eqI [of 26604808713878332877]; simp)
  show "root_bits 3 5 = (0xb5c0fbcfec4d3b2f :: u64)"
    by (rule root_bits_eqI [of 31543488660544240431]; simp)
  show "root_bits 3 7 = (0xe9b5dba58189dbbc :: u64)"
    by (rule root_bits_eqI [of 35287351959220771772]; simp)
  show "root_bits 3 11 = (0x3956c25bf348b538 :: u64)"
    by (rule root_bits_eqI [of 41025191555757552952]; simp)
  show "root_bits 3 13 = (0x59f111f1b605d019 :: u64)"
    by (rule root_bits_eqI [of 43374469216020582425]; simp)
  show "root_bits 3 17 = (0x923f82a4af194f9b :: u64)"
    by (rule root_bits_eqI [of 47431773444313272219]; simp)
  show "root_bits 3 19 = (0xab1c5ed5da6d8118 :: u64)"
    by (rule root_bits_eqI [of 49223322299838333208]; simp)
qed

lemma cube_roots_64_8:
  "root_bits 3 23 = (0xd807aa98a3030242 :: u64)"
  "root_bits 3 29 = (0x12835b0145706fbe :: u64)"
  "root_bits 3 31 = (0x243185be4ee4b28c :: u64)"
  "root_bits 3 37 = (0x550c7dc3d5ffb4e2 :: u64)"
  "root_bits 3 41 = (0x72be5d74f27b896f :: u64)"
  "root_bits 3 43 = (0x80deb1fe3b1696b1 :: u64)"
  "root_bits 3 47 = (0x9bdc06a725c71235 :: u64)"
  "root_bits 3 53 = (0xc19bf174cf692694 :: u64)"
proof -
  show "root_bits 3 23 = (0xd807aa98a3030242 :: u64)"
    by (rule root_bits_eqI [of 52460086356995146306]; simp)
  show "root_bits 3 29 = (0x12835b0145706fbe :: u64)"
    by (rule root_bits_eqI [of 56674242196778545086]; simp)
  show "root_bits 3 31 = (0x243185be4ee4b28c :: u64)"
    by (rule root_bits_eqI [of 57948244932766773900]; simp)
  show "root_bits 3 37 = (0x550c7dc3d5ffb4e2 :: u64)"
    by (rule root_bits_eqI [of 61468643694135456994]; simp)
  show "root_bits 3 41 = (0x72be5d74f27b896f :: u64)"
    by (rule root_bits_eqI [of 63608380943893236079]; simp)
  show "root_bits 3 43 = (0x80deb1fe3b1696b1 :: u64)"
    by (rule root_bits_eqI [of 64626287408284341937]; simp)
  show "root_bits 3 47 = (0x9bdc06a725c71235 :: u64)"
    by (rule root_bits_eqI [of 66571091106846937653]; simp)
  show "root_bits 3 53 = (0xc19bf174cf692694 :: u64)"
    by (rule root_bits_eqI [of 69291241975837173396]; simp)
qed

lemma cube_roots_64_16:
  "root_bits 3 59 = (0xe49b69c19ef14ad2 :: u64)"
  "root_bits 3 61 = (0xefbe4786384f25e3 :: u64)"
  "root_bits 3 67 = (0x0fc19dc68b8cd5b5 :: u64)"
  "root_bits 3 71 = (0x240ca1cc77ac9c65 :: u64)"
  "root_bits 3 73 = (0x2de92c6f592b0275 :: u64)"
  "root_bits 3 79 = (0x4a7484aa6ea6e483 :: u64)"
  "root_bits 3 83 = (0x5cb0a9dcbd41fbd4 :: u64)"
  "root_bits 3 89 = (0x76f988da831153b5 :: u64)"
proof -
  show "root_bits 3 59 = (0xe49b69c19ef14ad2 :: u64)"
    by (rule root_bits_eqI [of 71813108563482594002]; simp)
  show "root_bits 3 61 = (0xefbe4786384f25e3 :: u64)"
    by (rule root_bits_eqI [of 72615556083564357091]; simp)
  show "root_bits 3 67 = (0x0fc19dc68b8cd5b5 :: u64)"
    by (rule root_bits_eqI [of 74922338351982630325]; simp)
  show "root_bits 3 71 = (0x240ca1cc77ac9c65 :: u64)"
    by (rule root_bits_eqI [of 76384605279477341285]; simp)
  show "root_bits 3 73 = (0x2de92c6f592b0275 :: u64)"
    by (rule root_bits_eqI [of 77095200552867529333]; simp)
  show "root_bits 3 79 = (0x4a7484aa6ea6e483 :: u64)"
    by (rule root_bits_eqI [of 79152035218479047811]; simp)
  show "root_bits 3 83 = (0x5cb0a9dcbd41fbd4 :: u64)"
    by (rule root_bits_eqI [of 80466001307761769428]; simp)
  show "root_bits 3 89 = (0x76f988da831153b5 :: u64)"
    by (rule root_bits_eqI [of 82360010132597855157]; simp)
qed

lemma cube_roots_64_24:
  "root_bits 3 97 = (0x983e5152ee66dfab :: u64)"
  "root_bits 3 101 = (0xa831c66d2db43210 :: u64)"
  "root_bits 3 103 = (0xb00327c898fb213f :: u64)"
  "root_bits 3 107 = (0xbf597fc7beef0ee4 :: u64)"
  "root_bits 3 109 = (0xc6e00bf33da88fc2 :: u64)"
  "root_bits 3 113 = (0xd5a79147930aa725 :: u64)"
  "root_bits 3 127 = (0x06ca6351e003826f :: u64)"
  "root_bits 3 131 = (0x142929670a0e6e70 :: u64)"
proof -
  show "root_bits 3 97 = (0x983e5152ee66dfab :: u64)"
    by (rule root_bits_eqI [of 84757271453788200875]; simp)
  show "root_bits 3 101 = (0xa831c66d2db43210 :: u64)"
    by (rule root_bits_eqI [of 85906662539289440784]; simp)
  show "root_bits 3 103 = (0xb00327c898fb213f :: u64)"
    by (rule root_bits_eqI [of 86470001012957192511]; simp)
  show "root_bits 3 107 = (0xbf597fc7beef0ee4 :: u64)"
    by (rule root_bits_eqI [of 87575168524888248036]; simp)
  show "root_bits 3 109 = (0xc6e00bf33da88fc2 :: u64)"
    by (rule root_bits_eqI [of 88117443448470540226]; simp)
  show "root_bits 3 113 = (0xd5a79147930aa725 :: u64)"
    by (rule root_bits_eqI [of 89182409882623190821]; simp)
  show "root_bits 3 127 = (0x06ca6351e003826f :: u64)"
    by (rule root_bits_eqI [of 92723033081372705391]; simp)
  show "root_bits 3 131 = (0x142929670a0e6e70 :: u64)"
    by (rule root_bits_eqI [of 93686458245878541936]; simp)
qed

lemma cube_roots_64_32:
  "root_bits 3 137 = (0x27b70a8546d22ffc :: u64)"
  "root_bits 3 139 = (0x2e1b21385c26c926 :: u64)"
  "root_bits 3 149 = (0x4d2c6dfc5ac42aed :: u64)"
  "root_bits 3 151 = (0x53380d139d95b3df :: u64)"
  "root_bits 3 157 = (0x650a73548baf63de :: u64)"
  "root_bits 3 163 = (0x766a0abb3c77b2a8 :: u64)"
  "root_bits 3 167 = (0x81c2c92e47edaee6 :: u64)"
  "root_bits 3 173 = (0x92722c851482353b :: u64)"
proof -
  show "root_bits 3 137 = (0x27b70a8546d22ffc :: u64)"
    by (rule root_bits_eqI [of 95095488024300105724]; simp)
  show "root_bits 3 139 = (0x2e1b21385c26c926 :: u64)"
    by (rule root_bits_eqI [of 95556006044611561766]; simp)
  show "root_bits 3 149 = (0x4d2c6dfc5ac42aed :: u64)"
    by (rule root_bits_eqI [of 97794660939065469677]; simp)
  show "root_bits 3 151 = (0x53380d139d95b3df :: u64)"
    by (rule root_bits_eqI [of 98230277650290947039]; simp)
  show "root_bits 3 157 = (0x650a73548baf63de :: u64)"
    by (rule root_bits_eqI [of 99514478923103560670]; simp)
  show "root_bits 3 163 = (0x766a0abb3c77b2a8 :: u64)"
    by (rule root_bits_eqI [of 100766364611844223656]; simp)
  show "root_bits 3 167 = (0x81c2c92e47edaee6 :: u64)"
    by (rule root_bits_eqI [of 101583977345534766822]; simp)
  show "root_bits 3 173 = (0x92722c851482353b :: u64)"
    by (rule root_bits_eqI [of 102786266195516601659]; simp)
qed

lemma cube_roots_64_40:
  "root_bits 3 179 = (0xa2bfe8a14cf10364 :: u64)"
  "root_bits 3 181 = (0xa81a664bbc423001 :: u64)"
  "root_bits 3 191 = (0xc24b8b70d0f89791 :: u64)"
  "root_bits 3 193 = (0xc76c51a30654be30 :: u64)"
  "root_bits 3 197 = (0xd192e819d6ef5218 :: u64)"
  "root_bits 3 199 = (0xd69906245565a910 :: u64)"
  "root_bits 3 211 = (0xf40e35855771202a :: u64)"
  "root_bits 3 223 = (0x106aa07032bbd1b8 :: u64)"
proof -
  show "root_bits 3 179 = (0xa2bfe8a14cf10364 :: u64)"
    by (rule root_bits_eqI [of 103961068102722061156]; simp)
  show "root_bits 3 181 = (0xa81a664bbc423001 :: u64)"
    by (rule root_bits_eqI [of 104346826991781163009]; simp)
  show "root_bits 3 191 = (0xc24b8b70d0f89791 :: u64)"
    by (rule root_bits_eqI [of 106234157551817627537]; simp)
  show "root_bits 3 193 = (0xc76c51a30654be30 :: u64)"
    by (rule root_bits_eqI [of 106603670640207904304]; simp)
  show "root_bits 3 197 = (0xd192e819d6ef5218 :: u64)"
    by (rule root_bits_eqI [of 107335108066752287256]; simp)
  show "root_bits 3 199 = (0xd69906245565a910 :: u64)"
    by (rule root_bits_eqI [of 107697117917222381840]; simp)
  show "root_bits 3 211 = (0xf40e35855771202a :: u64)"
    by (rule root_bits_eqI [of 109819772810290077738]; simp)
  show "root_bits 3 223 = (0x106aa07032bbd1b8 :: u64)"
    by (rule root_bits_eqI [of 111863398698143437240]; simp)
qed

lemma cube_roots_64_48:
  "root_bits 3 227 = (0x19a4c116b8d2d0c8 :: u64)"
  "root_bits 3 229 = (0x1e376c085141ab53 :: u64)"
  "root_bits 3 233 = (0x2748774cdf8eeb99 :: u64)"
  "root_bits 3 239 = (0x34b0bcb5e19b48a8 :: u64)"
  "root_bits 3 241 = (0x391c0cb3c5c95a63 :: u64)"
  "root_bits 3 251 = (0x4ed8aa4ae3418acb :: u64)"
  "root_bits 3 257 = (0x5b9cca4f7763e373 :: u64)"
  "root_bits 3 263 = (0x682e6ff3d6b2b8a3 :: u64)"
proof -
  show "root_bits 3 227 = (0x19a4c116b8d2d0c8 :: u64)"
    by (rule root_bits_eqI [of 112528278492720320712]; simp)
  show "root_bits 3 229 = (0x1e376c085141ab53 :: u64)"
    by (rule root_bits_eqI [of 112857792170093030227]; simp)
  show "root_bits 3 233 = (0x2748774cdf8eeb99 :: u64)"
    by (rule root_bits_eqI [of 113511107980111571865]; simp)
  show "root_bits 3 239 = (0x34b0bcb5e19b48a8 :: u64)"
    by (rule root_bits_eqI [of 114477206417490790568]; simp)
  show "root_bits 3 241 = (0x391c0cb3c5c95a63 :: u64)"
    by (rule root_bits_eqI [of 114795642568024087139]; simp)
  show "root_bits 3 251 = (0x4ed8aa4ae3418acb :: u64)"
    by (rule root_bits_eqI [of 116361942610802215627]; simp)
  show "root_bits 3 257 = (0x5b9cca4f7763e373 :: u64)"
    by (rule root_bits_eqI [of 117281838038729876339]; simp)
  show "root_bits 3 263 = (0x682e6ff3d6b2b8a3 :: u64)"
    by (rule root_bits_eqI [of 118187525164200278179]; simp)
qed

lemma cube_roots_64_56:
  "root_bits 3 269 = (0x748f82ee5defb2fc :: u64)"
  "root_bits 3 271 = (0x78a5636f43172f60 :: u64)"
  "root_bits 3 277 = (0x84c87814a1f0ab72 :: u64)"
  "root_bits 3 281 = (0x8cc702081a6439ec :: u64)"
  "root_bits 3 283 = (0x90befffa23631e28 :: u64)"
  "root_bits 3 293 = (0xa4506cebde82bde9 :: u64)"
  "root_bits 3 307 = (0xbef9a3f7b2c67915 :: u64)"
  "root_bits 3 311 = (0xc67178f2e372532b :: u64)"
proof -
  show "root_bits 3 269 = (0x748f82ee5defb2fc :: u64)"
    by (rule root_bits_eqI [of 119079540232616391420]; simp)
  show "root_bits 3 271 = (0x78a5636f43172f60 :: u64)"
    by (rule root_bits_eqI [of 119373928427484032864]; simp)
  show "root_bits 3 277 = (0x84c87814a1f0ab72 :: u64)"
    by (rule root_bits_eqI [of 120248493880617511794]; simp)
  show "root_bits 3 281 = (0x8cc702081a6439ec :: u64)"
    by (rule root_bits_eqI [of 120824543361758411244]; simp)
  show "root_bits 3 283 = (0x90befffa23631e28 :: u64)"
    by (rule root_bits_eqI [of 121110519679094562344]; simp)
  show "root_bits 3 293 = (0xa4506cebde82bde9 :: u64)"
    by (rule root_bits_eqI [of 122520547622920568297]; simp)
  show "root_bits 3 307 = (0xbef9a3f7b2c67915 :: u64)"
    by (rule root_bits_eqI [of 124441674862916172053]; simp)
  show "root_bits 3 311 = (0xc67178f2e372532b :: u64)"
    by (rule root_bits_eqI [of 124979807718728684331]; simp)
qed

lemma cube_roots_64_64:
  "root_bits 3 313 = (0xca273eceea26619c :: u64)"
  "root_bits 3 317 = (0xd186b8c721c0c207 :: u64)"
  "root_bits 3 331 = (0xeada7dd6cde0eb1e :: u64)"
  "root_bits 3 337 = (0xf57d4f7fee6ed178 :: u64)"
  "root_bits 3 347 = (0x06f067aa72176fba :: u64)"
  "root_bits 3 349 = (0x0a637dc5a2c898a6 :: u64)"
  "root_bits 3 353 = (0x113f9804bef90dae :: u64)"
  "root_bits 3 359 = (0x1b710b35131c471b :: u64)"
proof -
  show "root_bits 3 313 = (0xca273eceea26619c :: u64)"
    by (rule root_bits_eqI [of 125247145020423037340]; simp)
  show "root_bits 3 317 = (0xd186b8c721c0c207 :: u64)"
    by (rule root_bits_eqI [of 125778422408467759623]; simp)
  show "root_bits 3 331 = (0xeada7dd6cde0eb1e :: u64)"
    by (rule root_bits_eqI [of 127603441353585912606]; simp)
  show "root_bits 3 337 = (0xf57d4f7fee6ed178 :: u64)"
    by (rule root_bits_eqI [of 128369846764518166904]; simp)
  show "root_bits 3 347 = (0x06f067aa72176fba :: u64)"
    by (rule root_bits_eqI [of 129627222056361226170]; simp)
  show "root_bits 3 349 = (0x0a637dc5a2c898a6 :: u64)"
    by (rule root_bits_eqI [of 129875788766833580198]; simp)
  show "root_bits 3 353 = (0x113f9804bef90dae :: u64)"
    by (rule root_bits_eqI [of 130370087684295691694]; simp)
  show "root_bits 3 359 = (0x1b710b35131c471b :: u64)"
    by (rule root_bits_eqI [of 131104582549941012251]; simp)
qed

lemma cube_roots_64_72:
  "root_bits 3 367 = (0x28db77f523047d84 :: u64)"
  "root_bits 3 373 = (0x32caab7b40c72493 :: u64)"
  "root_bits 3 379 = (0x3c9ebe0a15c9bebc :: u64)"
  "root_bits 3 383 = (0x431d67c49c100d4c :: u64)"
  "root_bits 3 389 = (0x4cc5d4becb3e42b6 :: u64)"
  "root_bits 3 397 = (0x597f299cfc657e2a :: u64)"
  "root_bits 3 401 = (0x5fcb6fab3ad6faec :: u64)"
  "root_bits 3 409 = (0x6c44198c4a475817 :: u64)"
proof -
  show "root_bits 3 367 = (0x28db77f523047d84 :: u64)"
    by (rule root_bits_eqI [of 132071287192121802116]; simp)
  show "root_bits 3 373 = (0x32caab7b40c72493 :: u64)"
    by (rule root_bits_eqI [of 132787134709014930579]; simp)
  show "root_bits 3 379 = (0x3c9ebe0a15c9bebc :: u64)"
    by (rule root_bits_eqI [of 133495346155087314620]; simp)
  show "root_bits 3 383 = (0x431d67c49c100d4c :: u64)"
    by (rule root_bits_eqI [of 133963344184962190668]; simp)
  show "root_bits 3 389 = (0x4cc5d4becb3e42b6 :: u64)"
    by (rule root_bits_eqI [of 134659270149180113590]; simp)
  show "root_bits 3 397 = (0x597f299cfc657e2a :: u64)"
    by (rule root_bits_eqI [of 135576127461610847786]; simp)
  show "root_bits 3 401 = (0x5fcb6fab3ad6faec :: u64)"
    by (rule root_bits_eqI [of 136029942151059536620]; simp)
  show "root_bits 3 409 = (0x6c44198c4a475817 :: u64)"
    by (rule root_bits_eqI [of 136928597060811708439]; simp)
qed

lemmas cube_roots_64 = cube_roots_64_0 cube_roots_64_8 cube_roots_64_16 cube_roots_64_24 cube_roots_64_32 cube_roots_64_40 cube_roots_64_48 cube_roots_64_56 cube_roots_64_64 cube_roots_64_72

lemma square_roots_64_0:
  "root_bits 2 2 = (0x6a09e667f3bcc908 :: u64)"
  "root_bits 2 3 = (0xbb67ae8584caa73b :: u64)"
  "root_bits 2 5 = (0x3c6ef372fe94f82b :: u64)"
  "root_bits 2 7 = (0xa54ff53a5f1d36f1 :: u64)"
  "root_bits 2 11 = (0x510e527fade682d1 :: u64)"
  "root_bits 2 13 = (0x9b05688c2b3e6c1f :: u64)"
  "root_bits 2 17 = (0x1f83d9abfb41bd6b :: u64)"
  "root_bits 2 19 = (0x5be0cd19137e2179 :: u64)"
proof -
  show "root_bits 2 2 = (0x6a09e667f3bcc908 :: u64)"
    by (rule root_bits_eqI [of 26087635650665564424]; simp)
  show "root_bits 2 3 = (0xbb67ae8584caa73b :: u64)"
    by (rule root_bits_eqI [of 31950697969885030203]; simp)
  show "root_bits 2 5 = (0x3c6ef372fe94f82b :: u64)"
    by (rule root_bits_eqI [of 41248173712355948587]; simp)
  show "root_bits 2 7 = (0xa54ff53a5f1d36f1 :: u64)"
    by (rule root_bits_eqI [of 48805497317890012913]; simp)
  show "root_bits 2 11 = (0x510e527fade682d1 :: u64)"
    by (rule root_bits_eqI [of 61180928696206656209]; simp)
  show "root_bits 2 13 = (0x9b05688c2b3e6c1f :: u64)"
    by (rule root_bits_eqI [of 66510681623121259551]; simp)
  show "root_bits 2 17 = (0x1f83d9abfb41bd6b :: u64)"
    by (rule root_bits_eqI [of 76057874264641092971]; simp)
  show "root_bits 2 19 = (0x5be0cd19137e2179 :: u64)"
    by (rule root_bits_eqI [of 80407493254657745273]; simp)
qed

lemma square_roots_64_8:
  "root_bits 2 23 = (0xcbbb9d5dc1059ed8 :: u64)"
  "root_bits 2 29 = (0x629a292a367cd507 :: u64)"
  "root_bits 2 31 = (0x9159015a3070dd17 :: u64)"
  "root_bits 2 37 = (0x152fecd8f70e5939 :: u64)"
  "root_bits 2 41 = (0x67332667ffc00b31 :: u64)"
  "root_bits 2 43 = (0x8eb44a8768581511 :: u64)"
  "root_bits 2 47 = (0xdb0c2e0d64f98fa7 :: u64)"
  "root_bits 2 53 = (0x47b5481dbefa4fa4 :: u64)"
proof -
  show "root_bits 2 23 = (0xcbbb9d5dc1059ed8 :: u64)"
    by (rule root_bits_eqI [of 88467476731178360536]; simp)
  show "root_bits 2 29 = (0x629a292a367cd507 :: u64)"
    by (rule root_bits_eqI [of 99338756991957652743]; simp)
  show "root_bits 2 31 = (0x9159015a3070dd17 :: u64)"
    by (rule root_bits_eqI [of 102707124263845944599]; simp)
  show "root_bits 2 37 = (0x152fecd8f70e5939 :: u64)"
    by (rule root_bits_eqI [of 112207163657561200953]; simp)
  show "root_bits 2 41 = (0x67332667ffc00b31 :: u64)"
    by (rule root_bits_eqI [of 118116794080090393393]; simp)
  show "root_bits 2 43 = (0x8eb44a8768581511 :: u64)"
    by (rule root_bits_eqI [of 120963390236882638097]; simp)
  show "root_bits 2 47 = (0xdb0c2e0d64f98fa7 :: u64)"
    by (rule root_bits_eqI [of 126464505871347584935]; simp)
  show "root_bits 2 53 = (0x47b5481dbefa4fa4 :: u64)"
    by (rule root_bits_eqI [of 134294323956039700388]; simp)
qed

lemmas square_roots_64 = square_roots_64_0 square_roots_64_8

end
