(* ===== verification/Hacl_SHA2_256.thy ===== *)
theory Hacl_SHA2_256
  imports SHA2_Constants
begin

text \<open>
  SHA-256 (\<^verbatim>\<open>Hacl_SHA2_256.c\<close>).  The state is one buffer of 137 words: the round constants at 0,
  the message schedule at 64, the hash at 128 and the number of absorbed blocks at 136; a pointer
  into it is its offset.  A hash is \<open>init\<close>, \<open>update\<close> for each 64-byte block, \<open>update_last\<close> for the
  rest, which writes the padding, and \<open>finish\<close>.
\<close>

section \<open>The code\<close>

definition Hacl_Impl_SHA2_256_init :: "u32 list \<Rightarrow> u32 list" where
  "Hacl_Impl_SHA2_256_init state =
     (let n1 = 136; k1 = 0; h_01 = 128;
          state = blit state (k1 + 0) [0x428a2f98, 0x71374491, 0xb5c0fbcf, 0xe9b5dba5];
          state = blit state (k1 + 4) [0x3956c25b, 0x59f111f1, 0x923f82a4, 0xab1c5ed5];
          state = blit state (k1 + 8) [0xd807aa98, 0x12835b01, 0x243185be, 0x550c7dc3];
          state = blit state (k1 + 12) [0x72be5d74, 0x80deb1fe, 0x9bdc06a7, 0xc19bf174];
          state = blit state (k1 + 16) [0xe49b69c1, 0xefbe4786, 0x0fc19dc6, 0x240ca1cc];
          state = blit state (k1 + 20) [0x2de92c6f, 0x4a7484aa, 0x5cb0a9dc, 0x76f988da];
          state = blit state (k1 + 24) [0x983e5152, 0xa831c66d, 0xb00327c8, 0xbf597fc7];
          state = blit state (k1 + 28) [0xc6e00bf3, 0xd5a79147, 0x06ca6351, 0x14292967];
          state = blit state (k1 + 32) [0x27b70a85, 0x2e1b2138, 0x4d2c6dfc, 0x53380d13];
          state = blit state (k1 + 36) [0x650a7354, 0x766a0abb, 0x81c2c92e, 0x92722c85];
          state = blit state (k1 + 40) [0xa2bfe8a1, 0xa81a664b, 0xc24b8b70, 0xc76c51a3];
          state = blit state (k1 + 44) [0xd192e819, 0xd6990624, 0xf40e3585, 0x106aa070];
          state = blit state (k1 + 48) [0x19a4c116, 0x1e376c08, 0x2748774c, 0x34b0bcb5];
          state = blit state (k1 + 52) [0x391c0cb3, 0x4ed8aa4a, 0x5b9cca4f, 0x682e6ff3];
          state = blit state (k1 + 56) [0x748f82ee, 0x78a5636f, 0x84c87814, 0x8cc70208];
          state = blit state (k1 + 60) [0x90befffa, 0xa4506ceb, 0xbef9a3f7, 0xc67178f2];
          state = blit state h_01 [0x6a09e667, 0xbb67ae85, 0x3c6ef372, 0xa54ff53a];
          state = blit state (h_01 + 4) [0x510e527f, 0x9b05688c, 0x1f83d9ab, 0x5be0cd19]
      in state[n1 := 0])"

text \<open>The bodies of the two long loops of \<^verbatim>\<open>update\<close>: the schedule from word 16 on, and a round.\<close>

definition Hacl_Impl_SHA2_256_update_schedule_loop :: "nat \<Rightarrow> nat \<Rightarrow> u32 list \<Rightarrow> u32 list" where
  "Hacl_Impl_SHA2_256_update_schedule_loop ws_w i state =
     (let t16 = state ! (ws_w + (i - 16));
          t15 = state ! (ws_w + (i - 15));
          t7 = state ! (ws_w + (i - 7));
          t2 = state ! (ws_w + (i - 2))
      in state[ws_w + i :=
           ((drop_bit 17 t2 OR push_bit (32 - 17) t2)
            XOR ((drop_bit 19 t2 OR push_bit (32 - 19) t2) XOR drop_bit 10 t2))
           + t7
           + ((drop_bit 7 t15 OR push_bit (32 - 7) t15)
              XOR ((drop_bit 18 t15 OR push_bit (32 - 18) t15) XOR drop_bit 3 t15))
           + t16])"

definition Hacl_Impl_SHA2_256_update_round_loop :: "u32 list \<Rightarrow> nat \<Rightarrow> nat \<Rightarrow> nat \<Rightarrow> u32 list \<Rightarrow> u32 list" where
  "Hacl_Impl_SHA2_256_update_round_loop state k_w ws_w i hash_0 =
     (let a = hash_0 ! 0; b = hash_0 ! 1; c = hash_0 ! 2; d = hash_0 ! 3;
          e = hash_0 ! 4; f1 = hash_0 ! 5; g = hash_0 ! 6; h = hash_0 ! 7;
          kt = state ! (k_w + i);
          wst = state ! (ws_w + i);
          t1 = h
            + ((drop_bit 6 e OR push_bit (32 - 6) e)
               XOR ((drop_bit 11 e OR push_bit (32 - 11) e)
                    XOR (drop_bit 25 e OR push_bit (32 - 25) e)))
            + ((e AND f1) XOR (NOT e AND g))
            + kt + wst;
          t2 = ((drop_bit 2 a OR push_bit (32 - 2) a)
                XOR ((drop_bit 13 a OR push_bit (32 - 13) a)
                     XOR (drop_bit 22 a OR push_bit (32 - 22) a)))
            + ((a AND b) XOR ((a AND c) XOR (b AND c)));
          x1 = t1 + t2;
          x5 = d + t1
      in hash_0[0 := x1, 1 := a, 2 := b, 3 := c, 4 := x5, 5 := e, 6 := f1, 7 := g])"

definition Hacl_Impl_SHA2_256_update :: "u32 list \<Rightarrow> bytes \<Rightarrow> u32 list" where
  "Hacl_Impl_SHA2_256_update state data =
     (let data_w = replicate 16 0;
          data_w = Hacl_Hash_Lib_LoadStore_uint32s_from_be_bytes data_w data 16;
          hash_w = 128; ws_w = 64; k_w = 0; counter_w = 136;
          state = for_range 0 16 (\<lambda>i state. let b = data_w ! i in state[ws_w + i := b]) state;
          state = for_range 16 64 (Hacl_Impl_SHA2_256_update_schedule_loop ws_w) state;
          hash_0 = replicate 8 0;
          hash_0 = blit hash_0 0 (take 8 (drop hash_w state));
          hash_0 = for_range 0 64 (Hacl_Impl_SHA2_256_update_round_loop state k_w ws_w) hash_0;
          state = for_range 0 8 (\<lambda>i state.
            let xi = state ! (hash_w + i); yi = hash_0 ! i in state[hash_w + i := xi + yi]) state;
          c0 = state ! counter_w;
          one1 = 1
      in state[counter_w := c0 + one1])"

definition Hacl_Impl_SHA2_256_update_multi :: "u32 list \<Rightarrow> bytes \<Rightarrow> u32 \<Rightarrow> u32 list" where
  "Hacl_Impl_SHA2_256_update_multi state data n1 =
     for_range 0 (unat n1) (\<lambda>i state.
       let b = drop (off32 i 64) data in Hacl_Impl_SHA2_256_update state b) state"

definition Hacl_Impl_SHA2_256_update_last :: "u32 list \<Rightarrow> bytes \<Rightarrow> u32 \<Rightarrow> u32 list" where
  "Hacl_Impl_SHA2_256_update_last state data len =
     (let blocks = replicate 128 0;
          nb = (if len < 56 then 1 else 2);
          final_blocks = (if len < 56 then drop 64 blocks else blocks);
          final_blocks = blit final_blocks 0 (take (unat len) data);
          n1 = state ! 136;
          padding = unat len;
          pad0len = (64 - (len + 8 + 1) mod 64) mod 64;
          buf1 = padding;
          buf2 = padding + 1 + unat pad0len;
          encodedlen = ((ucast n1 :: u64) * 64 + ucast len) * 8;
          final_blocks = final_blocks[buf1 := 0x80];
          final_blocks = at_off buf2 (\<lambda>b. store64_be b encodedlen) final_blocks
      in Hacl_Impl_SHA2_256_update_multi state final_blocks nb)"

definition Hacl_Impl_SHA2_256_finish :: "u32 list \<Rightarrow> bytes \<Rightarrow> bytes" where
  "Hacl_Impl_SHA2_256_finish state hash1 =
     (let hash_w = drop 128 state
      in Hacl_Hash_Lib_LoadStore_uint32s_to_be_bytes hash1 hash_w 8)"

definition Hacl_Impl_SHA2_256_hash :: "bytes \<Rightarrow> bytes \<Rightarrow> u32 \<Rightarrow> bytes" where
  "Hacl_Impl_SHA2_256_hash hash1 input len =
     (let state = replicate 137 0;
          n1 = len div 64;
          r = len mod 64;
          input_blocks = input;
          input_last = drop (unat (n1 * 64)) input;
          state = Hacl_Impl_SHA2_256_init state;
          state = Hacl_Impl_SHA2_256_update_multi state input_blocks n1;
          state = Hacl_Impl_SHA2_256_update_last state input_last r
      in Hacl_Impl_SHA2_256_finish state hash1)"

definition Hacl_SHA2_256_init :: "u32 list \<Rightarrow> u32 list" where
  "Hacl_SHA2_256_init state = Hacl_Impl_SHA2_256_init state"

definition Hacl_SHA2_256_update :: "u32 list \<Rightarrow> bytes \<Rightarrow> u32 list" where
  "Hacl_SHA2_256_update state data_8 = Hacl_Impl_SHA2_256_update state data_8"

definition Hacl_SHA2_256_update_multi :: "u32 list \<Rightarrow> bytes \<Rightarrow> u32 \<Rightarrow> u32 list" where
  "Hacl_SHA2_256_update_multi state data n1 = Hacl_Impl_SHA2_256_update_multi state data n1"

definition Hacl_SHA2_256_update_last :: "u32 list \<Rightarrow> bytes \<Rightarrow> u32 \<Rightarrow> u32 list" where
  "Hacl_SHA2_256_update_last state data len = Hacl_Impl_SHA2_256_update_last state data len"

definition Hacl_SHA2_256_finish :: "u32 list \<Rightarrow> bytes \<Rightarrow> bytes" where
  "Hacl_SHA2_256_finish state hash1 = Hacl_Impl_SHA2_256_finish state hash1"

definition Hacl_SHA2_256_hash :: "bytes \<Rightarrow> bytes \<Rightarrow> u32 \<Rightarrow> bytes" where
  "Hacl_SHA2_256_hash hash1 input len = Hacl_Impl_SHA2_256_hash hash1 input len"

section \<open>Specification\<close>

definition K256 :: "u32 list" where
  "K256 = map (root_bits 3) (take 64 primes80)"

definition H256 :: "u32 list" where
  "H256 = map (root_bits 2) (take 8 primes80)"

definition SHA256 :: "32 sha2" where
  "SHA256 = \<lparr>
     Sigma0 = (\<lambda>x. word_rotr 2 x XOR (word_rotr 13 x XOR word_rotr 22 x)),
     Sigma1 = (\<lambda>x. word_rotr 6 x XOR (word_rotr 11 x XOR word_rotr 25 x)),
     sigma0 = (\<lambda>x. word_rotr 7 x XOR (word_rotr 18 x XOR drop_bit 3 x)),
     sigma1 = (\<lambda>x. word_rotr 17 x XOR (word_rotr 19 x XOR drop_bit 10 x)),
     round_constants = K256,
     initial_hash = H256\<rparr>"

definition sha256 :: "bytes \<Rightarrow> bytes" where
  "sha256 m = bytes_be (sha2_hash SHA256 (words_be 16) 64 8 m)"

section \<open>Initialisation\<close>

lemma length_K256: "length K256 = 64" "length H256 = 8"
  by (simp_all add: K256_def H256_def primes80_eq)

lemma drop_136: "length s = 137 \<Longrightarrow> drop 136 s = [s ! 136]"
  by (simp add: Cons_nth_drop_Suc [of 136 s, symmetric])

lemma sha256_state_parts:
  assumes "length s = 137"
  shows "s = take 64 s @ take 64 (drop 64 s) @ take 8 (drop 128 s) @ [s ! 136]"
proof -
  have "[s ! 136] = drop 136 s"
    using drop_136 [OF assms] by simp
  moreover have "take 8 (drop 128 s) @ drop 136 s = drop 128 s"
    using append_take_drop_id [of 8 "drop 128 s"] by simp
  moreover have "take 64 (drop 64 s) @ drop 128 s = drop 64 s"
    using append_take_drop_id [of 64 "drop 64 s"] by simp
  ultimately show ?thesis
    by simp
qed

lemma sha256_init_eq:
  assumes "length s = 137"
  shows "Hacl_Impl_SHA2_256_init s = K256 @ take 64 (drop 64 s) @ H256 @ [0]"
proof -
  have "Hacl_Impl_SHA2_256_init s = (blit (blit s 0 K256) 128 H256)[136 := 0]"
    unfolding Hacl_Impl_SHA2_256_init_def Let_def K256_def H256_def primes80_eq
    using assms by (simp add: blit_blit length_blit cube_roots_32 square_roots_32)
  moreover have "blit s 0 K256 = K256 @ drop 64 s"
    by (simp add: blit_0 length_K256)
  moreover have "drop 64 s = take 64 (drop 64 s) @ take 8 (drop 128 s) @ [s ! 136]"
    using arg_cong [OF sha256_state_parts [OF assms], of "drop 64"] assms by simp
  ultimately show ?thesis
    using assms length_K256 drop_136 [OF assms] by (simp add: blit_def list_update_append)
qed

section \<open>One block\<close>

lemma rotr_256:
  "drop_bit 17 x OR push_bit (32 - 17) x = word_rotr 17 (x :: u32)"
  "drop_bit 19 x OR push_bit (32 - 19) x = word_rotr 19 (x :: u32)"
  "drop_bit 7 x OR push_bit (32 - 7) x = word_rotr 7 (x :: u32)"
  "drop_bit 18 x OR push_bit (32 - 18) x = word_rotr 18 (x :: u32)"
  "drop_bit 6 x OR push_bit (32 - 6) x = word_rotr 6 (x :: u32)"
  "drop_bit 11 x OR push_bit (32 - 11) x = word_rotr 11 (x :: u32)"
  "drop_bit 25 x OR push_bit (32 - 25) x = word_rotr 25 (x :: u32)"
  "drop_bit 2 x OR push_bit (32 - 2) x = word_rotr 2 (x :: u32)"
  "drop_bit 13 x OR push_bit (32 - 13) x = word_rotr 13 (x :: u32)"
  "drop_bit 22 x OR push_bit (32 - 22) x = word_rotr 22 (x :: u32)"
  by (rule rotate32_right_rotr [unfolded rotate32_right_def]; simp)+

lemma sha256_schedule_loop_eq:
  assumes "length k = 64" and "length w = 64" and "16 \<le> i" and "i < 64"
  shows "Hacl_Impl_SHA2_256_update_schedule_loop 64 i (k @ w @ r) = k @ w[i := schedule_word SHA256 w i] @ r"
proof -
  have "i - 16 < length w" "i - 15 < length w" "i - 7 < length w" "i - 2 < length w" "i < length w"
    using assms by simp_all
  then show ?thesis
    using assms(1) by (simp only: Hacl_Impl_SHA2_256_update_schedule_loop_def Let_def rotr_256 nth_segment update_segment
        schedule_word_def SHA256_def sha2.simps)
qed

lemma sha256_round_loop_eq:
  assumes "length w = 64" and "length h = 8" and "i < 64"
  shows "Hacl_Impl_SHA2_256_update_round_loop (K256 @ w @ r) 0 64 i h = sha2_round SHA256 (K256 ! i) (w ! i) h"
proof -
  obtain a b c d e f g h' where h: "h = [a, b, c, d, e, f, g, h']"
    by (rule length_8_exact [OF assms(2)])
  have k: "(K256 @ w @ r) ! (0 + i) = K256 ! i" "(K256 @ w @ r) ! (64 + i) = w ! i"
    using assms length_K256 by (simp_all add: nth_append)
  show ?thesis
    unfolding Hacl_Impl_SHA2_256_update_round_loop_def sha2_round_def rotr_256 k h
    by (simp add: SHA256_def Ch_def Maj_def Let_def)
qed

lemma sha256_update_eq:
  assumes "length w = 64" and "length h = 8" and "64 \<le> length data"
  shows "Hacl_Impl_SHA2_256_update (K256 @ w @ h @ [c]) data
    = K256 @ schedule SHA256 (words_be 16 data) @ compress SHA256 h (words_be 16 data) @ [c + 1]"
proof -
  let ?m = "words_be 16 data" and ?r = "h @ [c]"
  have m: "Hacl_Hash_Lib_LoadStore_uint32s_from_be_bytes (replicate 16 0) data 16 = ?m"
    by (simp add: uint32s_from_be_bytes_eq)
  have 1: "for_range 0 16 (\<lambda>i state. state[64 + i := ?m ! i]) (K256 @ w @ ?r) = K256 @ (?m @ drop 16 w) @ ?r"
    using assms(1) for_range_frame [where w = w and n = 64 and lo = 0 and hi = 16 and pre = K256 and post = ?r
        and body = "\<lambda>i state. state[64 + i := ?m ! i]" and g = "\<lambda>i w. w[i := ?m ! i]"]
      for_range_store [of 16 w "(!) ?m"] map_nth [of ?m]
    by (simp add: update_segment length_K256)
  let ?w = "?m @ drop 16 w"
  have l: "length ?w = 64" "length ?m = 16"
    using assms(1) by simp_all
  have "for_range 16 64 (Hacl_Impl_SHA2_256_update_schedule_loop 64) (K256 @ ?w @ ?r)
      = K256 @ for_range 16 64 (\<lambda>t w. w[t := schedule_word SHA256 w t]) ?w @ ?r"
    by (rule for_range_frame [OF l(1)]) (simp_all add: sha256_schedule_loop_eq length_K256)
  moreover have "for_range 16 (16 + 48) (\<lambda>t w. w[t := schedule_word SHA256 w t]) ?w
      = (schedule_extend SHA256 ^^ 48) ?m @ drop (16 + 48) ?w"
    by (rule schedule_in_place) (use l in simp_all)
  moreover have "(schedule_extend SHA256 ^^ 48) ?m = schedule SHA256 ?m"
    by (simp add: schedule_def SHA256_def length_K256)
  ultimately have 2: "for_range 16 64 (Hacl_Impl_SHA2_256_update_schedule_loop 64) (K256 @ ?w @ ?r)
      = K256 @ schedule SHA256 ?m @ ?r"
    using l(1) by simp
  let ?s = "schedule SHA256 ?m"
  have s: "length ?s = 64"
    by (simp add: schedule_def length_schedule_iter SHA256_def length_K256)
  let ?v = "fold (\<lambda>t. sha2_round SHA256 (K256 ! t) (?s ! t)) [0..<64] h"
  have 3: "for_range 0 64 (Hacl_Impl_SHA2_256_update_round_loop (K256 @ ?s @ ?r) 0 64) h = ?v"
    unfolding for_range_def using assms(2) s by (intro fold_cong_list) (simp_all add: sha256_round_loop_eq)
  have v: "length ?v = 8"
    by (rule length_rounds [OF assms(2)])
  have h0: "blit (replicate 8 0) 0 (take 8 (drop 128 (K256 @ ?s @ ?r))) = h"
    using assms(2) s by (simp add: length_K256 blit_def)
  have 4: "for_range 0 8 (\<lambda>i st. let xi = st ! (128 + i); yi = ?v ! i in st[128 + i := xi + yi]) ((K256 @ ?s) @ h @ [c])
      = (K256 @ ?s) @ map2 (+) h ?v @ [c]"
  proof -
    have "for_range 0 8 (\<lambda>i st. let xi = st ! (128 + i); yi = ?v ! i in st[128 + i := xi + yi]) ((K256 @ ?s) @ h @ [c])
        = (K256 @ ?s) @ for_range 0 8 (\<lambda>i h. h[i := h ! i + ?v ! i]) h @ [c]"
      by (rule for_range_frame [OF assms(2)])
        (simp_all add: Let_def nth_segment update_segment length_K256 s del: append_assoc)
    then show ?thesis
      using for_range_map2_in_place [of 8 h ?v "(+)"] assms(2) v by simp
  qed
  have "compress SHA256 h ?m = map2 (+) h ?v"
    by (simp add: compress_def Let_def SHA256_def length_K256)
  then show ?thesis
    unfolding Hacl_Impl_SHA2_256_update_def Let_def [of "replicate 16 0"] Let_def [of 128] m
    using 1 2 3 4 h0 v assms(2) s by (simp add: Let_def length_K256 nth_append list_update_append)
qed

section \<open>Messages\<close>

definition state_ok :: "u32 list \<Rightarrow> bool" where
  "state_ok s = (length s = 137 \<and> take 64 s = K256)"

definition state_hash :: "u32 list \<Rightarrow> u32 list" where
  "state_hash s = take 8 (drop 128 s)"

definition state_count :: "u32 list \<Rightarrow> u32" where
  "state_count s = s ! 136"

definition block_step :: "u32 list \<Rightarrow> bytes \<Rightarrow> u32 list" where
  "block_step h x = compress SHA256 h (words_be 16 x)"

lemma load32_prefix: "take 4 m = take 4 m' \<Longrightarrow> load32 m = load32 m'"
proof -
  assume e: "take 4 m = take 4 m'"
  have "m ! i = m' ! i" if "i < 4" for i
    using that arg_cong [OF e, of "\<lambda>x. x ! i"] by simp
  then show ?thesis
    by (simp add: load32_def)
qed

lemma words_be_take: "words_be n (take (4 * n) d) = words_be n d"
proof -
  have "load32_be (drop (4 * i) (take (4 * n) d)) = load32_be (drop (4 * i) d)" if "i < n" for i
  proof -
    have "take 4 (drop (4 * i) (take (4 * n) d)) = take 4 (drop (4 * i) d)"
      using that by (simp add: drop_take min_def)
    then show ?thesis
      by (simp only: load32_be_def load32_prefix [OF \<open>take 4 (drop (4 * i) (take (4 * n) d)) = _\<close>])
  qed
  then show ?thesis
    by (simp add: words_be_def)
qed

lemma length_schedule_256: "length m = 16 \<Longrightarrow> length (schedule SHA256 m) = 64"
  by (simp add: schedule_def length_schedule_iter SHA256_def length_K256)

lemma sha256_update_state:
  assumes "state_ok s" and "64 \<le> length d"
  shows "state_ok (Hacl_Impl_SHA2_256_update s d)"
    "state_hash (Hacl_Impl_SHA2_256_update s d) = block_step (state_hash s) (take 64 d)"
    "state_count (Hacl_Impl_SHA2_256_update s d) = state_count s + 1"
proof -
  have l: "length s = 137" "take 64 s = K256"
    using assms(1) by (simp_all add: state_ok_def)
  let ?m = "words_be 16 d" and ?h = "take 8 (drop 128 s)"
  have h: "length ?h = 8" "length (take 64 (drop 64 s)) = 64"
    using l by simp_all
  have "s = K256 @ take 64 (drop 64 s) @ ?h @ [s ! 136]"
    using sha256_state_parts [OF l(1)] by (simp add: l(2))
  then have u: "Hacl_Impl_SHA2_256_update s d = K256 @ schedule SHA256 ?m @ compress SHA256 ?h ?m @ [s ! 136 + 1]"
    using sha256_update_eq [OF h(2,1) assms(2), of "s ! 136"] by simp
  show "state_ok (Hacl_Impl_SHA2_256_update s d)" "state_count (Hacl_Impl_SHA2_256_update s d) = state_count s + 1"
    using h(1) by (simp_all add: u state_ok_def state_count_def length_K256 length_schedule_256 nth_append)
  show "state_hash (Hacl_Impl_SHA2_256_update s d) = block_step (state_hash s) (take 64 d)"
    using h(1) words_be_take [of 16 d]
    by (simp add: u state_hash_def block_step_def length_K256 length_schedule_256)
qed

interpretation sha: block_hash state_ok state_hash state_count Hacl_Impl_SHA2_256_update block_step 64
  by unfold_locales (simp_all add: sha256_update_state)

lemma sha256_update_multi_eq: "Hacl_Impl_SHA2_256_update_multi s d n = sha.multi s d (unat n)"
  by (simp add: Hacl_Impl_SHA2_256_update_multi_def sha.multi_def Let_def)

text \<open>The padding arithmetic in 32-bit words is that of the specification.\<close>

lemma sha256_pad0len_eq:
  fixes len :: u32
  assumes "unat len < 120"
  shows "unat ((64 - (len + 8 + 1) mod 64) mod 64) = sha2_zeros 64 8 (unat len)"
proof -
  have a: "unat (len + 8 + 1) = unat len + 8 + 1"
    using assms by (simp add: unat_add_small)
  have m: "unat ((len + 8 + 1) mod 64) = (unat len + 8 + 1) mod 64"
    by (simp only: unat_mod_distrib a) simp
  have "unat (64 - (len + 8 + 1) mod 64) = 64 - (unat len + 8 + 1) mod 64"
    by (subst unat_sub_small) (simp_all only: m, simp_all)
  then show ?thesis
    by (simp only: unat_mod_distrib sha2_zeros_def) simp
qed

lemma sha256_last_total:
  fixes n :: nat
  assumes "n < 120"
  shows "n + 1 + sha2_zeros 64 8 n + 8 = 64 * (if n < 56 then 1 else 2)"
proof -
  have "n + 1 + sha2_zeros 64 8 n + 8 = 64 * ((n + 8 + 64) div 64)"
    using round_up [of 64 "n + 8 + 1"] by (simp add: sha2_zeros_def)
  moreover have "(n + 8 + 64) div 64 = (if n < 56 then 1 else 2)"
    using assms by (auto intro!: div_nat_eqI)
  ultimately show ?thesis by simp
qed

lemma nat_to_be_u64: "rev (bytes_of_u64 w) = nat_to_be 8 (unat w)"
  by (simp add: bytes_of_u64_nat_to_le nat_to_be_def)

lemma sha256_encodedlen_eq:
  fixes n len :: u32
  assumes "unat len < 120"
  shows "unat (((ucast n :: u64) * 64 + ucast len) * 8) = 8 * (64 * unat n + unat len)"
proof -
  have n: "unat n < 4294967296"
    using unat_lt_word [of n] by simp
  then have "unat ((ucast n :: u64) * 64) = unat n * 64"
    by (simp add: unat_mult_small unat_ucast_up)
  then have "unat ((ucast n :: u64) * 64 + ucast len) = unat n * 64 + unat len"
    using n assms by (simp add: unat_add_small unat_ucast_up)
  then show ?thesis
    using n assms by (subst unat_mult_small) simp_all
qed

lemma sha256_update_last_eq:
  assumes "unat len \<le> length d" and "unat len < 120"
  shows "Hacl_Impl_SHA2_256_update_last s d len
    = sha.multi s (last_blocks 64 8 (take (unat len) d)
        (nat_to_be 8 (8 * (64 * unat (state_count s) + unat len)))) (if unat len < 56 then 1 else 2)"
proof -
  let ?n = "unat len" and ?m = "take (unat len) d"
  let ?e = "((ucast (s ! 136) :: u64) * 64 + ucast len) * 8"
  let ?k = "if ?n < 56 then 1 else 2 :: nat"
  have m: "length ?m = ?n"
    using assms(1) by simp
  have e: "rev (bytes_of_u64 ?e) = nat_to_be 8 (8 * (64 * unat (state_count s) + ?n))"
    using sha256_encodedlen_eq [OF assms(2), of "s ! 136"] by (simp add: nat_to_be_u64 state_count_def)
  have lt: "(len < 56) = (?n < 56)"
    by (simp add: word_less_nat_alt)
  have f: "(if len < 56 then drop 64 (replicate 128 0) else replicate 128 0) = (replicate (64 * ?k) 0 :: bytes)"
    by (simp add: lt)
  have nb: "unat (if len < 56 then 1 else 2 :: u32) = ?k"
    by (simp add: lt)
  have tot: "length ?m + 1 + sha2_zeros 64 8 ?n + length (rev (bytes_of_u64 ?e)) = 64 * ?k"
    using sha256_last_total [OF assms(2)] by (simp only: m length_rev length_bytes_of)
  let ?b = "(blit (replicate (64 * ?k) 0) 0 ?m)[?n := 0x80]"
  have lb: "length ?b = 64 * ?k"
    using tot by (subst length_list_update, subst length_blit) simp_all
  have "at_off (?n + 1 + sha2_zeros 64 8 ?n) (\<lambda>b. store64_be b ?e) ?b
      = blit ?b (length ?m + 1 + sha2_zeros 64 8 ?n) (rev (bytes_of_u64 ?e))"
    using tot lb m by (simp add: at_off_def blit_def store64_be_eq add.commute)
  also have "\<dots> = last_blocks 64 8 ?m (rev (bytes_of_u64 ?e))"
    using last_blocks_buffer [OF tot] by (simp only: m)
  finally show ?thesis
    unfolding Hacl_Impl_SHA2_256_update_last_def Let_def f nb sha256_pad0len_eq [OF assms(2)] e sha256_update_multi_eq by simp
qed

lemma sha256_finish_eq:
  assumes "length s = 137" and "32 \<le> length out"
  shows "Hacl_Impl_SHA2_256_finish s out = bytes_be (state_hash s) @ drop 32 out"
  using assms by (simp add: Hacl_Impl_SHA2_256_finish_def uint32s_to_be_bytes_eq state_hash_def)

text \<open>From any state that has absorbed whole blocks to the digest.\<close>

lemma digest_eq:
  assumes "state_ok s" and "length m1 = 64 * n" and "n < 2 ^ 32"
    and "state_hash s = foldl block_step H256 (blocks 64 n m1)" and "state_count s = word_of_nat n"
    and "unat len \<le> length m2" and "unat len < 120" and "32 \<le> length out"
  shows "Hacl_Impl_SHA2_256_finish (Hacl_Impl_SHA2_256_update_last s m2 len) out
    = sha256 (m1 @ take (unat len) m2) @ drop 32 out"
proof -
  let ?m = "take (unat len) m2" and ?k = "if unat len < 56 then 1 else 2 :: nat"
  let ?l = "last_blocks 64 8 ?m (nat_to_be 8 (8 * (64 * n + unat len)))"
  have c: "unat (state_count s) = n"
    using assms(3,5) by (simp add: unat_of_nat)
  have p: "sha2_pad 64 8 (m1 @ ?m) = m1 @ ?l"
    using pad_split [OF assms(2), of 8 ?m] assms(6) by simp
  have l: "length ?l = 64 * ?k"
    using sha256_last_total [OF assms(7)] assms(6) by (simp add: last_blocks_def)
  let ?s = "sha.multi s ?l ?k"
  have s: "state_ok ?s \<and> state_hash ?s = foldl block_step (state_hash s) (blocks 64 ?k ?l)
      \<and> state_count ?s = state_count s + word_of_nat ?k"
    by (rule sha.multi_correct [OF assms(1)]) (simp_all only: l le_refl, simp)
  have "length (sha2_pad 64 8 (m1 @ ?m)) div 64 = n + ?k"
    by (simp only: p length_append assms(2) l distrib_left [symmetric] nonzero_mult_div_cancel_left numeral_neq_zero
        not_False_eq_True refl)
  then have "state_hash ?s = sha2_hash SHA256 (words_be 16) 64 8 (m1 @ ?m)"
    using s by (simp only: sha2_hash_def Let_def p blocks_append [OF assms(2)] assms(4) block_step_def [abs_def]
        foldl_append) (simp add: SHA256_def)
  moreover have "length ?s = 137"
    using s by (simp add: state_ok_def)
  ultimately show ?thesis
    using assms(8) by (simp add: sha256_update_last_eq assms(6,7) c sha256_finish_eq sha256_def)
qed

lemma sha256_init_state:
  assumes "length s = 137"
  shows "state_ok (Hacl_Impl_SHA2_256_init s)" "state_hash (Hacl_Impl_SHA2_256_init s) = H256"
    "state_count (Hacl_Impl_SHA2_256_init s) = 0"
  using assms length_K256 by (simp_all add: sha256_init_eq state_ok_def state_hash_def state_count_def nth_append)

lemma sha256_hash_eq:
  assumes "unat len \<le> length input" and "32 \<le> length out"
  shows "Hacl_Impl_SHA2_256_hash out input len = sha256 (take (unat len) input) @ drop 32 out"
proof -
  define n r where "n = unat len div 64" "r = unat len mod 64"
  have len: "unat len = 64 * n + r" "r < 64" by (simp_all add: n_r_def)
  have lt: "unat len < 2 ^ 32" using unat_lt_word [of len] by simp
  have w: "unat (len div 64) = n" "unat (len mod 64) = r"
    by (simp_all add: unat_div_distrib unat_mod_distrib n_r_def)
  have off: "unat (len div 64 * 64) = 64 * n"
    using lt len by (simp add: unat_mult_small w)
  let ?i = "Hacl_Impl_SHA2_256_init (replicate 137 0)"
  let ?s = "Hacl_Impl_SHA2_256_update_multi ?i input (len div 64)" and ?m = "take (64 * n) input"
  have i: "state_ok ?i" "state_hash ?i = H256" "state_count ?i = 0"
    by (rule sha256_init_state; simp)+
  have s: "state_ok ?s \<and> state_hash ?s = foldl block_step (state_hash ?i) (blocks 64 n input)
      \<and> state_count ?s = state_count ?i + word_of_nat n"
    unfolding sha256_update_multi_eq w by (rule sha.multi_correct [OF i(1)]) (use assms(1) len lt in simp_all)
  have "Hacl_Impl_SHA2_256_finish (Hacl_Impl_SHA2_256_update_last ?s (drop (64 * n) input) (len mod 64)) out
      = sha256 (?m @ take (unat (len mod 64)) (drop (64 * n) input)) @ drop 32 out"
  proof (rule digest_eq [where n = n])
    show "state_ok ?s" "state_count ?s = word_of_nat n"
      "state_hash ?s = foldl block_step H256 (blocks 64 n ?m)"
      using s i by (simp_all add: blocks_take)
  qed (use assms len lt w in simp_all)
  moreover have "?m @ take r (drop (64 * n) input) = take (unat len) input"
    by (simp only: len(1) take_add)
  ultimately show ?thesis
    by (simp add: Hacl_Impl_SHA2_256_hash_def Let_def off w)
qed

section \<open>Properties\<close>

text \<open>C26. One-shot hashing is SHA-256 of FIPS 180-4: the first 32 bytes of the output are the digest of the
  first \<open>len\<close> bytes of the input, padding included, for every 32-bit length.\<close>

theorem sha256_hash_correct:
  assumes "unat len \<le> length input" and "32 \<le> length out"
  shows "Hacl_SHA2_256_hash out input len = sha256 (take (unat len) input) @ drop 32 out"
  unfolding Hacl_SHA2_256_hash_def by (rule sha256_hash_eq [OF assms])

theorem sha256_hash_correct_witness:
  "Hacl_SHA2_256_hash (replicate 33 9) (replicate 100 1) 70 = sha256 (replicate 70 1) @ [9]"
  using sha256_hash_correct [of 70 "replicate 100 1" "replicate 33 9"] by simp

text \<open>C27. The incremental interface hashes the concatenation: after \<open>init\<close>, any number of 64-byte blocks
  given to \<open>update\<close> (fewer than \<open>2 ^ 32\<close>, the range of the block counter) and a last piece of up to 119
  bytes given to \<open>update_last\<close>, \<open>finish\<close> writes the SHA-256 digest of everything.\<close>

theorem sha256_incremental_correct:
  assumes "length s = 137" and "\<forall>x \<in> set xs. length x = 64" and "length xs < 2 ^ 32"
    and "unat len = length m" and "unat len < 120" and "32 \<le> length out"
  shows "Hacl_SHA2_256_finish
      (Hacl_SHA2_256_update_last (foldl Hacl_SHA2_256_update (Hacl_SHA2_256_init s) xs) m len) out
    = sha256 (concat xs @ m) @ drop 32 out"
proof -
  let ?i = "Hacl_Impl_SHA2_256_init s" and ?s = "foldl Hacl_Impl_SHA2_256_update (Hacl_Impl_SHA2_256_init s) xs"
  have i: "state_ok ?i" "state_hash ?i = H256" "state_count ?i = 0"
    by (rule sha256_init_state [OF assms(1)])+
  have s: "state_ok ?s" "state_hash ?s = foldl block_step H256 (blocks 64 (length xs) (concat xs))"
    "state_count ?s = word_of_nat (length xs)"
    using sha.absorb_list [OF i(1) assms(2)] i(2,3) blocks_concat [OF assms(2)] by simp_all
  have u: "Hacl_SHA2_256_update = Hacl_Impl_SHA2_256_update"
    by (intro ext) (rule Hacl_SHA2_256_update_def)
  show ?thesis
    using digest_eq [OF s(1) length_concat_blocks [OF assms(2)] assms(3) s(2,3) _ assms(5,6), of m] assms(4)
    by (simp add: Hacl_SHA2_256_finish_def Hacl_SHA2_256_update_last_def Hacl_SHA2_256_init_def u)
qed

theorem sha256_incremental_correct_witness:
  "Hacl_SHA2_256_finish
      (Hacl_SHA2_256_update_last (foldl Hacl_SHA2_256_update (Hacl_SHA2_256_init (replicate 137 5))
        [replicate 64 1, replicate 64 2]) [3, 4] 2) (replicate 32 0)
    = sha256 (replicate 64 1 @ replicate 64 2 @ [3, 4])"
  using sha256_incremental_correct [of "replicate 137 5" "[replicate 64 1, replicate 64 2]" 2 "[3, 4]" "replicate 32 0"]
  by simp

end
