(* ===== verification/Hacl_HMAC_SHA2_256.thy ===== *)
theory Hacl_HMAC_SHA2_256
  imports Hacl_SHA2_256
begin

text \<open>
  HMAC-SHA-256 (\<^verbatim>\<open>Hacl_HMAC_SHA2_256.c\<close>, RFC 2104).  The hash functions of this file are textual
  copies of the static functions of \<^verbatim>\<open>Hacl_SHA2_256.c\<close>, so the definitions of that theory are used.
  The inner hash is computed into the buffer of the inner pad.
\<close>

section \<open>The code\<close>

definition Hacl_Impl_HMAC_SHA2_256_xor_bytes_inplace :: "bytes \<Rightarrow> bytes \<Rightarrow> u32 \<Rightarrow> bytes" where
  "Hacl_Impl_HMAC_SHA2_256_xor_bytes_inplace a b len =
     for_range 0 (unat len) (\<lambda>i a. let xi = a ! i; yi = b ! i in a[i := xi XOR yi]) a"

definition Hacl_Impl_HMAC_SHA2_256_hmac_core :: "bytes \<Rightarrow> bytes \<Rightarrow> bytes \<Rightarrow> u32 \<Rightarrow> bytes" where
  "Hacl_Impl_HMAC_SHA2_256_hmac_core mac key data len =
     (let ipad = replicate 64 0x36;
          opad = replicate 64 0x5c;
          ipad = Hacl_Impl_HMAC_SHA2_256_xor_bytes_inplace ipad key 64;
          state0 = replicate 137 0;
          n0 = len div 64;
          r0 = len mod 64;
          blocks0 = data;
          last0 = drop (unat (n0 * 64)) data;
          state0 = Hacl_Impl_SHA2_256_init state0;
          state0 = Hacl_Impl_SHA2_256_update state0 ipad;
          state0 = Hacl_Impl_SHA2_256_update_multi state0 blocks0 n0;
          state0 = Hacl_Impl_SHA2_256_update_last state0 last0 r0;
          ipad = Hacl_Impl_SHA2_256_finish state0 ipad;
          s4 = ipad;
          opad = Hacl_Impl_HMAC_SHA2_256_xor_bytes_inplace opad key 64;
          state1 = replicate 137 0;
          state1 = Hacl_Impl_SHA2_256_init state1;
          state1 = Hacl_Impl_SHA2_256_update state1 opad;
          state1 = Hacl_Impl_SHA2_256_update_last state1 s4 32
      in Hacl_Impl_SHA2_256_finish state1 mac)"

definition Hacl_Impl_HMAC_SHA2_256_hmac :: "bytes \<Rightarrow> bytes \<Rightarrow> u32 \<Rightarrow> bytes \<Rightarrow> u32 \<Rightarrow> bytes" where
  "Hacl_Impl_HMAC_SHA2_256_hmac mac key keylen data datalen =
     (let nkey = replicate 64 0;
          nkey = (if keylen \<le> 64 then blit nkey 0 (take (unat keylen) key)
                  else Hacl_Impl_SHA2_256_hash nkey key keylen)
      in Hacl_Impl_HMAC_SHA2_256_hmac_core mac nkey data datalen)"

definition Hacl_HMAC_SHA2_256_hmac_core :: "bytes \<Rightarrow> bytes \<Rightarrow> bytes \<Rightarrow> u32 \<Rightarrow> bytes" where
  "Hacl_HMAC_SHA2_256_hmac_core mac key data len = Hacl_Impl_HMAC_SHA2_256_hmac_core mac key data len"

definition Hacl_HMAC_SHA2_256_hmac :: "bytes \<Rightarrow> bytes \<Rightarrow> u32 \<Rightarrow> bytes \<Rightarrow> u32 \<Rightarrow> bytes" where
  "Hacl_HMAC_SHA2_256_hmac mac key keylen data datalen =
     Hacl_Impl_HMAC_SHA2_256_hmac mac key keylen data datalen"

section \<open>Specification\<close>

definition hmac_pad :: "u8 \<Rightarrow> bytes \<Rightarrow> bytes" where
  "hmac_pad p key = map (\<lambda>x. p XOR x) key"

definition hmac_key :: "bytes \<Rightarrow> bytes" where
  "hmac_key key = (let k = (if length key \<le> 64 then key else sha256 key) in k @ replicate (64 - length k) 0)"

definition hmac_sha256 :: "bytes \<Rightarrow> bytes \<Rightarrow> bytes" where
  "hmac_sha256 key m =
     sha256 (hmac_pad 0x5c (hmac_key key) @ sha256 (hmac_pad 0x36 (hmac_key key) @ m))"

section \<open>Lemmas\<close>

lemma xor_pad_eq:
  assumes "length key = 64"
  shows "Hacl_Impl_HMAC_SHA2_256_xor_bytes_inplace (replicate 64 p) key 64 = hmac_pad p key"
proof -
  have "Hacl_Impl_HMAC_SHA2_256_xor_bytes_inplace (replicate 64 p) key 64 = map2 (XOR) (replicate 64 p) (take 64 key)"
    using for_range_map2_in_place [of 64 "replicate 64 p" key "(XOR)"] assms
    by (simp add: Hacl_Impl_HMAC_SHA2_256_xor_bytes_inplace_def Let_def)
  then show ?thesis
    using assms by (simp add: hmac_pad_def map2_map_map [where f = "\<lambda>_. p" and g = id, simplified]
        flip: map_replicate_const) (intro nth_equalityI; simp)
qed

lemma length_hmac_pad [simp]: "length (hmac_pad p key) = length key"
  by (simp add: hmac_pad_def)

lemma length_foldl_compress: "length h = 8 \<Longrightarrow> length (foldl (\<lambda>h x. compress p h (f x)) h xs) = 8"
  by (induction xs arbitrary: h) simp_all

lemma length_sha256 [simp]: "length (sha256 m) = 32"
  using length_foldl_compress [of H256 SHA256 "words_be 16"]
  by (simp add: sha256_def sha2_hash_def Let_def SHA256_def length_K256)

text \<open>A hash that starts with a block already in one piece.\<close>

lemma digest_prefixed:
  assumes "length p = 64" and "unat len \<le> length m" and "32 \<le> length out"
  shows "Hacl_Impl_SHA2_256_finish
      (Hacl_Impl_SHA2_256_update_last
        (Hacl_Impl_SHA2_256_update_multi
          (Hacl_Impl_SHA2_256_update (Hacl_Impl_SHA2_256_init (replicate 137 0)) p) m (len div 64))
        (drop (unat (len div 64 * 64)) m) (len mod 64)) out
    = sha256 (p @ take (unat len) m) @ drop 32 out"
proof -
  define n r where "n = unat len div 64" "r = unat len mod 64"
  have len: "unat len = 64 * n + r" "r < 64" by (simp_all add: n_r_def)
  have lt: "unat len < 2 ^ 32" using unat_lt_word [of len] by simp
  have w: "unat (len div 64) = n" "unat (len mod 64) = r"
    by (simp_all add: unat_div_distrib unat_mod_distrib n_r_def)
  have off: "unat (len div 64 * 64) = 64 * n"
    using lt len by (simp add: unat_mult_small w)
  let ?i = "Hacl_Impl_SHA2_256_update (Hacl_Impl_SHA2_256_init (replicate 137 0)) p"
  let ?s = "Hacl_Impl_SHA2_256_update_multi ?i m (len div 64)" and ?m = "take (64 * n) m"
  have z: "state_ok (Hacl_Impl_SHA2_256_init (replicate 137 0))"
    "state_hash (Hacl_Impl_SHA2_256_init (replicate 137 0)) = H256"
    "state_count (Hacl_Impl_SHA2_256_init (replicate 137 0)) = 0"
    by (rule sha256_init_state; simp)+
  have i: "state_ok ?i" "state_hash ?i = block_step H256 p" "state_count ?i = 1"
    using sha256_update_state [OF z(1), of p] assms(1) by (simp_all add: z)
  have s: "state_ok ?s \<and> state_hash ?s = foldl block_step (state_hash ?i) (blocks 64 n m)
      \<and> state_count ?s = state_count ?i + word_of_nat n"
    unfolding sha256_update_multi_eq w by (rule sha.multi_correct [OF i(1)]) (use assms(2) len lt in simp_all)
  have "Hacl_Impl_SHA2_256_finish (Hacl_Impl_SHA2_256_update_last ?s (drop (64 * n) m) (len mod 64)) out
      = sha256 ((p @ ?m) @ take (unat (len mod 64)) (drop (64 * n) m)) @ drop 32 out"
  proof (rule digest_eq [where n = "Suc n"])
    show "state_ok ?s" "state_count ?s = word_of_nat (Suc n)"
      "state_hash ?s = foldl block_step H256 (blocks 64 (Suc n) (p @ ?m))"
      using s i assms(1) by (simp_all add: blocks_take)
  qed (use assms len lt w in simp_all)
  moreover have "?m @ take r (drop (64 * n) m) = take (unat len) m"
    by (simp only: len(1) take_add)
  ultimately show ?thesis
    by (simp add: off w)
qed

lemma hmac_core_eq:
  assumes "length key = 64" and "unat len \<le> length data" and "32 \<le> length mac"
  shows "Hacl_Impl_HMAC_SHA2_256_hmac_core mac key data len
    = sha256 (hmac_pad 0x5c key @ sha256 (hmac_pad 0x36 key @ take (unat len) data)) @ drop 32 mac"
proof -
  let ?ip = "hmac_pad 0x36 key" and ?op = "hmac_pad 0x5c key"
  let ?h = "sha256 (?ip @ take (unat len) data) @ drop 32 ?ip"
  have inner: "Hacl_Impl_SHA2_256_finish
      (Hacl_Impl_SHA2_256_update_last
        (Hacl_Impl_SHA2_256_update_multi
          (Hacl_Impl_SHA2_256_update (Hacl_Impl_SHA2_256_init (replicate 137 0)) ?ip) data (len div 64))
        (drop (unat (len div 64 * 64)) data) (len mod 64)) ?ip = ?h"
    by (rule digest_prefixed) (use assms in simp_all)
  have z: "Hacl_Impl_SHA2_256_update_multi s d 0 = s" for s d
    by (simp add: Hacl_Impl_SHA2_256_update_multi_def)
  have outer: "Hacl_Impl_SHA2_256_finish
      (Hacl_Impl_SHA2_256_update_last
        (Hacl_Impl_SHA2_256_update (Hacl_Impl_SHA2_256_init (replicate 137 0)) ?op) ?h 32) mac
      = sha256 (?op @ sha256 (?ip @ take (unat len) data)) @ drop 32 mac"
    using digest_prefixed [of ?op 32 ?h mac] assms(1,3) by (simp add: z)
  show ?thesis
    unfolding Hacl_Impl_HMAC_SHA2_256_hmac_core_def Let_def xor_pad_eq [OF assms(1)] inner outer ..
qed

section \<open>Properties\<close>

text \<open>C28. The keyed hash is HMAC of RFC 2104 over SHA-256: keys of at most 64 bytes are padded with zeros,
  longer keys are hashed first, and the first 32 bytes of the output are the outer hash of the
  inner one, for every 32-bit key and message length.\<close>

theorem hmac_correct:
  assumes "unat keylen = length key" and "unat datalen \<le> length data" and "32 \<le> length mac"
  shows "Hacl_HMAC_SHA2_256_hmac mac key keylen data datalen
    = hmac_sha256 key (take (unat datalen) data) @ drop 32 mac"
proof -
  have le: "(keylen \<le> 64) = (length key \<le> 64)"
    by (simp add: word_le_nat_alt assms(1))
  have "(if keylen \<le> 64 then blit (replicate 64 0) 0 (take (unat keylen) key)
      else Hacl_Impl_SHA2_256_hash (replicate 64 0) key keylen) = hmac_key key"
    using sha256_hash_eq [of keylen key "replicate 64 0"] by (simp add: le assms(1) blit_0 hmac_key_def)
  moreover have "length (hmac_key key) = 64"
    by (simp add: hmac_key_def Let_def)
  ultimately show ?thesis
    using hmac_core_eq [of "hmac_key key" datalen data mac] assms(2,3)
    by (simp add: Hacl_HMAC_SHA2_256_hmac_def Hacl_Impl_HMAC_SHA2_256_hmac_def hmac_sha256_def)
qed

theorem hmac_correct_witness:
  "Hacl_HMAC_SHA2_256_hmac (replicate 33 9) (replicate 70 1) 70 [2, 3, 4] 3
    = hmac_sha256 (replicate 70 1) [2, 3, 4] @ [9]"
  using hmac_correct [of 70 "replicate 70 1" 3 "[2, 3, 4]" "replicate 33 9"] by simp

end
