(* ===== verification/Hacl_SHA2_512.thy ===== *)
theory Hacl_SHA2_512
  imports SHA2_Constants FStar
begin

text \<open>
  SHA-512 (\<^verbatim>\<open>Hacl_SHA2_512.c\<close>).  The state is one buffer of 169 words: the round constants at 0,
  the message schedule at 80, the hash at 160 and the number of absorbed blocks at 168; a pointer
  into it is its offset.  The length in the padding is a 128-bit integer.
\<close>

section \<open>The code\<close>

definition Hacl_Impl_SHA2_512_init :: "u64 list \<Rightarrow> u64 list" where
  "Hacl_Impl_SHA2_512_init state =
     (let n1 = 168; k1 = 0; h_01 = 160;
          state = blit state (k1 + 0) [0x428a2f98d728ae22, 0x7137449123ef65cd, 0xb5c0fbcfec4d3b2f, 0xe9b5dba58189dbbc];
          state = blit state (k1 + 4) [0x3956c25bf348b538, 0x59f111f1b605d019, 0x923f82a4af194f9b, 0xab1c5ed5da6d8118];
          state = blit state (k1 + 8) [0xd807aa98a3030242, 0x12835b0145706fbe, 0x243185be4ee4b28c, 0x550c7dc3d5ffb4e2];
          state = blit state (k1 + 12) [0x72be5d74f27b896f, 0x80deb1fe3b1696b1, 0x9bdc06a725c71235, 0xc19bf174cf692694];
          state = blit state (k1 + 16) [0xe49b69c19ef14ad2, 0xefbe4786384f25e3, 0x0fc19dc68b8cd5b5, 0x240ca1cc77ac9c65];
          state = blit state (k1 + 20) [0x2de92c6f592b0275, 0x4a7484aa6ea6e483, 0x5cb0a9dcbd41fbd4, 0x76f988da831153b5];
          state = blit state (k1 + 24) [0x983e5152ee66dfab, 0xa831c66d2db43210, 0xb00327c898fb213f, 0xbf597fc7beef0ee4];
          state = blit state (k1 + 28) [0xc6e00bf33da88fc2, 0xd5a79147930aa725, 0x06ca6351e003826f, 0x142929670a0e6e70];
          state = blit state (k1 + 32) [0x27b70a8546d22ffc, 0x2e1b21385c26c926, 0x4d2c6dfc5ac42aed, 0x53380d139d95b3df];
          state = blit state (k1 + 36) [0x650a73548baf63de, 0x766a0abb3c77b2a8, 0x81c2c92e47edaee6, 0x92722c851482353b];
          state = blit state (k1 + 40) [0xa2bfe8a14cf10364, 0xa81a664bbc423001, 0xc24b8b70d0f89791, 0xc76c51a30654be30];
          state = blit state (k1 + 44) [0xd192e819d6ef5218, 0xd69906245565a910, 0xf40e35855771202a, 0x106aa07032bbd1b8];
          state = blit state (k1 + 48) [0x19a4c116b8d2d0c8, 0x1e376c085141ab53, 0x2748774cdf8eeb99, 0x34b0bcb5e19b48a8];
          state = blit state (k1 + 52) [0x391c0cb3c5c95a63, 0x4ed8aa4ae3418acb, 0x5b9cca4f7763e373, 0x682e6ff3d6b2b8a3];
          state = blit state (k1 + 56) [0x748f82ee5defb2fc, 0x78a5636f43172f60, 0x84c87814a1f0ab72, 0x8cc702081a6439ec];
          state = blit state (k1 + 60) [0x90befffa23631e28, 0xa4506cebde82bde9, 0xbef9a3f7b2c67915, 0xc67178f2e372532b];
          state = blit state (k1 + 64) [0xca273eceea26619c, 0xd186b8c721c0c207, 0xeada7dd6cde0eb1e, 0xf57d4f7fee6ed178];
          state = blit state (k1 + 68) [0x06f067aa72176fba, 0x0a637dc5a2c898a6, 0x113f9804bef90dae, 0x1b710b35131c471b];
          state = blit state (k1 + 72) [0x28db77f523047d84, 0x32caab7b40c72493, 0x3c9ebe0a15c9bebc, 0x431d67c49c100d4c];
          state = blit state (k1 + 76) [0x4cc5d4becb3e42b6, 0x597f299cfc657e2a, 0x5fcb6fab3ad6faec, 0x6c44198c4a475817];
          state = blit state h_01 [0x6a09e667f3bcc908, 0xbb67ae8584caa73b, 0x3c6ef372fe94f82b, 0xa54ff53a5f1d36f1];
          state = blit state (h_01 + 4) [0x510e527fade682d1, 0x9b05688c2b3e6c1f, 0x1f83d9abfb41bd6b, 0x5be0cd19137e2179]
      in state[n1 := 0])"

text \<open>The bodies of the two long loops of \<^verbatim>\<open>update\<close>: the schedule from word 16 on, and a round.\<close>

definition Hacl_Impl_SHA2_512_update_schedule_loop :: "nat \<Rightarrow> nat \<Rightarrow> u64 list \<Rightarrow> u64 list" where
  "Hacl_Impl_SHA2_512_update_schedule_loop ws_w i state =
     (let t16 = state ! (ws_w + (i - 16));
          t15 = state ! (ws_w + (i - 15));
          t7 = state ! (ws_w + (i - 7));
          t2 = state ! (ws_w + (i - 2))
      in state[ws_w + i :=
           ((drop_bit 19 t2 OR push_bit (64 - 19) t2)
            XOR ((drop_bit 61 t2 OR push_bit (64 - 61) t2) XOR drop_bit 6 t2))
           + t7
           + ((drop_bit 1 t15 OR push_bit (64 - 1) t15)
              XOR ((drop_bit 8 t15 OR push_bit (64 - 8) t15) XOR drop_bit 7 t15))
           + t16])"

definition Hacl_Impl_SHA2_512_update_round_loop :: "u64 list \<Rightarrow> nat \<Rightarrow> nat \<Rightarrow> nat \<Rightarrow> u64 list \<Rightarrow> u64 list" where
  "Hacl_Impl_SHA2_512_update_round_loop state k_w ws_w i hash_0 =
     (let a = hash_0 ! 0; b = hash_0 ! 1; c = hash_0 ! 2; d = hash_0 ! 3;
          e = hash_0 ! 4; f1 = hash_0 ! 5; g = hash_0 ! 6; h = hash_0 ! 7;
          k_t = state ! (k_w + i);
          ws_t = state ! (ws_w + i);
          t1 = h
            + ((drop_bit 14 e OR push_bit (64 - 14) e)
               XOR ((drop_bit 18 e OR push_bit (64 - 18) e)
                    XOR (drop_bit 41 e OR push_bit (64 - 41) e)))
            + ((e AND f1) XOR (NOT e AND g))
            + k_t + ws_t;
          t2 = ((drop_bit 28 a OR push_bit (64 - 28) a)
                XOR ((drop_bit 34 a OR push_bit (64 - 34) a)
                     XOR (drop_bit 39 a OR push_bit (64 - 39) a)))
            + ((a AND b) XOR ((a AND c) XOR (b AND c)));
          x1 = t1 + t2;
          x5 = d + t1
      in hash_0[0 := x1, 1 := a, 2 := b, 3 := c, 4 := x5, 5 := e, 6 := f1, 7 := g])"

definition Hacl_Impl_SHA2_512_update :: "u64 list \<Rightarrow> bytes \<Rightarrow> u64 list" where
  "Hacl_Impl_SHA2_512_update state data =
     (let data_w = replicate 16 0;
          data_w = Hacl_Hash_Lib_LoadStore_uint64s_from_be_bytes data_w data 16;
          hash_w = 160; ws_w = 80; k_w = 0; counter_w = 168;
          state = for_range 0 16 (\<lambda>i state. let b = data_w ! i in state[ws_w + i := b]) state;
          state = for_range 16 80 (Hacl_Impl_SHA2_512_update_schedule_loop ws_w) state;
          hash_0 = replicate 8 0;
          hash_0 = blit hash_0 0 (take 8 (drop hash_w state));
          hash_0 = for_range 0 80 (Hacl_Impl_SHA2_512_update_round_loop state k_w ws_w) hash_0;
          state = for_range 0 8 (\<lambda>i state.
            let xi = state ! (hash_w + i); yi = hash_0 ! i in state[hash_w + i := xi + yi]) state;
          c0 = state ! counter_w;
          one1 = 1
      in state[counter_w := c0 + one1])"

definition Hacl_Impl_SHA2_512_update_multi :: "u64 list \<Rightarrow> bytes \<Rightarrow> u32 \<Rightarrow> u64 list" where
  "Hacl_Impl_SHA2_512_update_multi state data n1 =
     for_range 0 (unat n1) (\<lambda>i state.
       let b = drop (off32 i 128) data in Hacl_Impl_SHA2_512_update state b) state"

definition Hacl_Impl_SHA2_512_update_last :: "u64 list \<Rightarrow> bytes \<Rightarrow> u64 \<Rightarrow> u64 list" where
  "Hacl_Impl_SHA2_512_update_last state data len =
     (let blocks = replicate 256 0;
          nb = (if len < 112 then 1 else 2);
          final_blocks = (if len < 112 then drop 128 blocks else blocks);
          final_blocks = blit final_blocks 0 (take (unat (ucast len :: u32)) data);
          n1 = state ! 168;
          padding = unat (ucast len :: u32);
          encodedlen = FStar_UInt128_shift_left
            (FStar_UInt128_add (FStar_UInt128_mul_wide n1 128) (FStar_UInt128_uint64_to_uint128 len)) 3;
          pad0len = ((256 :: u32) - (ucast len + 16 + 1)) mod 128;
          buf1 = padding;
          buf2 = padding + 1 + unat pad0len;
          final_blocks = final_blocks[buf1 := 0x80];
          final_blocks = at_off buf2 (\<lambda>b. store128_be b encodedlen) final_blocks
      in Hacl_Impl_SHA2_512_update_multi state final_blocks nb)"

definition Hacl_Impl_SHA2_512_finish :: "u64 list \<Rightarrow> bytes \<Rightarrow> bytes" where
  "Hacl_Impl_SHA2_512_finish state hash1 =
     (let hash_w = drop 160 state
      in Hacl_Hash_Lib_LoadStore_uint64s_to_be_bytes hash1 hash_w 8)"

definition Hacl_Impl_SHA2_512_hash :: "bytes \<Rightarrow> bytes \<Rightarrow> u32 \<Rightarrow> bytes" where
  "Hacl_Impl_SHA2_512_hash hash1 input len =
     (let state = replicate 169 0;
          n1 = len div 128;
          r = len mod 128;
          input_blocks = input;
          input_last = drop (unat (n1 * 128)) input;
          state = Hacl_Impl_SHA2_512_init state;
          state = Hacl_Impl_SHA2_512_update_multi state input_blocks n1;
          state = Hacl_Impl_SHA2_512_update_last state input_last (ucast r)
      in Hacl_Impl_SHA2_512_finish state hash1)"

definition Hacl_SHA2_512_init :: "u64 list \<Rightarrow> u64 list" where
  "Hacl_SHA2_512_init state = Hacl_Impl_SHA2_512_init state"

definition Hacl_SHA2_512_update :: "u64 list \<Rightarrow> bytes \<Rightarrow> u64 list" where
  "Hacl_SHA2_512_update state data = Hacl_Impl_SHA2_512_update state data"

definition Hacl_SHA2_512_update_multi :: "u64 list \<Rightarrow> bytes \<Rightarrow> u32 \<Rightarrow> u64 list" where
  "Hacl_SHA2_512_update_multi state data n1 = Hacl_Impl_SHA2_512_update_multi state data n1"

definition Hacl_SHA2_512_update_last :: "u64 list \<Rightarrow> bytes \<Rightarrow> u64 \<Rightarrow> u64 list" where
  "Hacl_SHA2_512_update_last state data len = Hacl_Impl_SHA2_512_update_last state data len"

definition Hacl_SHA2_512_finish :: "u64 list \<Rightarrow> bytes \<Rightarrow> bytes" where
  "Hacl_SHA2_512_finish state hash1 = Hacl_Impl_SHA2_512_finish state hash1"

definition Hacl_SHA2_512_hash :: "bytes \<Rightarrow> bytes \<Rightarrow> u32 \<Rightarrow> bytes" where
  "Hacl_SHA2_512_hash hash1 input len = Hacl_Impl_SHA2_512_hash hash1 input len"

section \<open>Specification\<close>

definition K512 :: "u64 list" where
  "K512 = map (root_bits 3) primes80"

definition H512 :: "u64 list" where
  "H512 = map (root_bits 2) (take 8 primes80)"

definition SHA512 :: "64 sha2" where
  "SHA512 = \<lparr>
     Sigma0 = (\<lambda>x. word_rotr 28 x XOR (word_rotr 34 x XOR word_rotr 39 x)),
     Sigma1 = (\<lambda>x. word_rotr 14 x XOR (word_rotr 18 x XOR word_rotr 41 x)),
     sigma0 = (\<lambda>x. word_rotr 1 x XOR (word_rotr 8 x XOR drop_bit 7 x)),
     sigma1 = (\<lambda>x. word_rotr 19 x XOR (word_rotr 61 x XOR drop_bit 6 x)),
     round_constants = K512,
     initial_hash = H512\<rparr>"

definition sha512 :: "bytes \<Rightarrow> bytes" where
  "sha512 m = bytes64_be (sha2_hash SHA512 (words64_be 16) 128 16 m)"

section \<open>Initialisation\<close>

lemma length_K512: "length K512 = 80" "length H512 = 8"
  by (simp_all add: K512_def H512_def primes80_eq)

lemma drop_168: "length s = 169 \<Longrightarrow> drop 168 s = [s ! 168]"
  by (simp add: Cons_nth_drop_Suc [of 168 s, symmetric])

lemma sha512_state_parts:
  assumes "length s = 169"
  shows "s = take 80 s @ take 80 (drop 80 s) @ take 8 (drop 160 s) @ [s ! 168]"
proof -
  have "[s ! 168] = drop 168 s"
    using drop_168 [OF assms] by simp
  moreover have "take 8 (drop 160 s) @ drop 168 s = drop 160 s"
    using append_take_drop_id [of 8 "drop 160 s"] by simp
  moreover have "take 80 (drop 80 s) @ drop 160 s = drop 80 s"
    using append_take_drop_id [of 80 "drop 80 s"] by simp
  ultimately show ?thesis
    by simp
qed

text \<open>Initialisation for any constants, since SHA-384 differs from SHA-512 in the initial hash alone.\<close>

lemma init_blits:
  assumes "length s = 169" and "length h = 8"
  shows "(blit (blit s 0 K512) 160 h)[168 := 0] = K512 @ take 80 (drop 80 s) @ h @ [0]"
proof -
  have "blit s 0 K512 = K512 @ drop 80 s"
    by (simp add: blit_0 length_K512)
  moreover have "drop 80 s = take 80 (drop 80 s) @ take 8 (drop 160 s) @ [s ! 168]"
    using arg_cong [OF sha512_state_parts [OF assms(1)], of "drop 80"] assms(1) by simp
  ultimately show ?thesis
    using assms length_K512 drop_168 [OF assms(1)] by (simp add: blit_def list_update_append)
qed

lemma sha512_init_eq:
  assumes "length s = 169"
  shows "Hacl_Impl_SHA2_512_init s = K512 @ take 80 (drop 80 s) @ H512 @ [0]"
proof -
  have "Hacl_Impl_SHA2_512_init s = (blit (blit s 0 K512) 160 H512)[168 := 0]"
    unfolding Hacl_Impl_SHA2_512_init_def Let_def K512_def H512_def primes80_eq
    using assms by (simp add: blit_blit length_blit cube_roots_64 square_roots_64)
  then show ?thesis
    using init_blits [OF assms length_K512(2)] by simp
qed

section \<open>One block\<close>

lemma rotr_or64:
  fixes x :: u64
  assumes "0 < n" and "n < 64"
  shows "drop_bit n x OR push_bit (64 - n) x = word_rotr n x"
  using rotr_or [of n x] assms by simp

lemma rotr_512:
  "drop_bit 19 x OR push_bit (64 - 19) x = word_rotr 19 (x :: u64)"
  "drop_bit 61 x OR push_bit (64 - 61) x = word_rotr 61 (x :: u64)"
  "drop_bit 1 x OR push_bit (64 - 1) x = word_rotr 1 (x :: u64)"
  "drop_bit 8 x OR push_bit (64 - 8) x = word_rotr 8 (x :: u64)"
  "drop_bit 14 x OR push_bit (64 - 14) x = word_rotr 14 (x :: u64)"
  "drop_bit 18 x OR push_bit (64 - 18) x = word_rotr 18 (x :: u64)"
  "drop_bit 41 x OR push_bit (64 - 41) x = word_rotr 41 (x :: u64)"
  "drop_bit 28 x OR push_bit (64 - 28) x = word_rotr 28 (x :: u64)"
  "drop_bit 34 x OR push_bit (64 - 34) x = word_rotr 34 (x :: u64)"
  "drop_bit 39 x OR push_bit (64 - 39) x = word_rotr 39 (x :: u64)"
  by (rule rotr_or64; simp)+

lemma sha512_schedule_loop_eq:
  assumes "length k = 80" and "length w = 80" and "16 \<le> i" and "i < 80"
  shows "Hacl_Impl_SHA2_512_update_schedule_loop 80 i (k @ w @ r) = k @ w[i := schedule_word SHA512 w i] @ r"
proof -
  have "i - 16 < length w" "i - 15 < length w" "i - 7 < length w" "i - 2 < length w" "i < length w"
    using assms by simp_all
  then show ?thesis
    using assms(1) by (simp only: Hacl_Impl_SHA2_512_update_schedule_loop_def Let_def rotr_512 nth_segment update_segment
        schedule_word_def SHA512_def sha2.simps)
qed

lemma sha512_round_loop_eq:
  assumes "length w = 80" and "length h = 8" and "i < 80"
  shows "Hacl_Impl_SHA2_512_update_round_loop (K512 @ w @ r) 0 80 i h = sha2_round SHA512 (K512 ! i) (w ! i) h"
proof -
  obtain a b c d e f g h' where h: "h = [a, b, c, d, e, f, g, h']"
    by (rule length_8_exact [OF assms(2)])
  have k: "(K512 @ w @ r) ! (0 + i) = K512 ! i" "(K512 @ w @ r) ! (80 + i) = w ! i"
    using assms length_K512 by (simp_all add: nth_append)
  show ?thesis
    unfolding Hacl_Impl_SHA2_512_update_round_loop_def sha2_round_def rotr_512 k h
    by (simp add: SHA512_def Ch_def Maj_def Let_def)
qed

lemma sha512_update_eq:
  assumes "length w = 80" and "length h = 8" and "128 \<le> length data"
  shows "Hacl_Impl_SHA2_512_update (K512 @ w @ h @ [c]) data
    = K512 @ schedule SHA512 (words64_be 16 data) @ compress SHA512 h (words64_be 16 data) @ [c + 1]"
proof -
  let ?m = "words64_be 16 data" and ?r = "h @ [c]"
  have m: "Hacl_Hash_Lib_LoadStore_uint64s_from_be_bytes (replicate 16 0) data 16 = ?m"
    by (simp add: uint64s_from_be_bytes_eq)
  have 1: "for_range 0 16 (\<lambda>i state. state[80 + i := ?m ! i]) (K512 @ w @ ?r) = K512 @ (?m @ drop 16 w) @ ?r"
    using assms(1) for_range_frame [where w = w and n = 80 and lo = 0 and hi = 16 and pre = K512 and post = ?r
        and body = "\<lambda>i state. state[80 + i := ?m ! i]" and g = "\<lambda>i w. w[i := ?m ! i]"]
      for_range_store [of 16 w "(!) ?m"] map_nth [of ?m]
    by (simp add: update_segment length_K512)
  let ?w = "?m @ drop 16 w"
  have l: "length ?w = 80" "length ?m = 16"
    using assms(1) by simp_all
  have "for_range 16 80 (Hacl_Impl_SHA2_512_update_schedule_loop 80) (K512 @ ?w @ ?r)
      = K512 @ for_range 16 80 (\<lambda>t w. w[t := schedule_word SHA512 w t]) ?w @ ?r"
    by (rule for_range_frame [OF l(1)]) (simp_all add: sha512_schedule_loop_eq length_K512)
  moreover have "for_range 16 (16 + 64) (\<lambda>t w. w[t := schedule_word SHA512 w t]) ?w
      = (schedule_extend SHA512 ^^ 64) ?m @ drop (16 + 64) ?w"
    by (rule schedule_in_place) (use l in simp_all)
  moreover have "(schedule_extend SHA512 ^^ 64) ?m = schedule SHA512 ?m"
    by (simp add: schedule_def SHA512_def length_K512)
  ultimately have 2: "for_range 16 80 (Hacl_Impl_SHA2_512_update_schedule_loop 80) (K512 @ ?w @ ?r)
      = K512 @ schedule SHA512 ?m @ ?r"
    using l(1) by simp
  let ?s = "schedule SHA512 ?m"
  have s: "length ?s = 80"
    by (simp add: schedule_def length_schedule_iter SHA512_def length_K512)
  let ?v = "fold (\<lambda>t. sha2_round SHA512 (K512 ! t) (?s ! t)) [0..<80] h"
  have 3: "for_range 0 80 (Hacl_Impl_SHA2_512_update_round_loop (K512 @ ?s @ ?r) 0 80) h = ?v"
    unfolding for_range_def using assms(2) s by (intro fold_cong_list) (simp_all add: sha512_round_loop_eq)
  have v: "length ?v = 8"
    by (rule length_rounds [OF assms(2)])
  have h0: "blit (replicate 8 0) 0 (take 8 (drop 160 (K512 @ ?s @ ?r))) = h"
    using assms(2) s by (simp add: length_K512 blit_def)
  have 4: "for_range 0 8 (\<lambda>i st. let xi = st ! (160 + i); yi = ?v ! i in st[160 + i := xi + yi]) ((K512 @ ?s) @ h @ [c])
      = (K512 @ ?s) @ map2 (+) h ?v @ [c]"
  proof -
    have "for_range 0 8 (\<lambda>i st. let xi = st ! (160 + i); yi = ?v ! i in st[160 + i := xi + yi]) ((K512 @ ?s) @ h @ [c])
        = (K512 @ ?s) @ for_range 0 8 (\<lambda>i h. h[i := h ! i + ?v ! i]) h @ [c]"
      by (rule for_range_frame [OF assms(2)])
        (simp_all add: Let_def nth_segment update_segment length_K512 s del: append_assoc)
    then show ?thesis
      using for_range_map2_in_place [of 8 h ?v "(+)"] assms(2) v by simp
  qed
  have "compress SHA512 h ?m = map2 (+) h ?v"
    by (simp add: compress_def Let_def SHA512_def length_K512)
  then show ?thesis
    unfolding Hacl_Impl_SHA2_512_update_def Let_def [of "replicate 16 0"] Let_def [of 160] m
    using 1 2 3 4 h0 v assms(2) s by (simp add: Let_def length_K512 nth_append list_update_append)
qed

section \<open>Messages\<close>

definition state_ok :: "u64 list \<Rightarrow> bool" where
  "state_ok s = (length s = 169 \<and> take 80 s = K512)"

definition state_hash :: "u64 list \<Rightarrow> u64 list" where
  "state_hash s = take 8 (drop 160 s)"

definition state_count :: "u64 list \<Rightarrow> u64" where
  "state_count s = s ! 168"

definition block_step :: "u64 list \<Rightarrow> bytes \<Rightarrow> u64 list" where
  "block_step h x = compress SHA512 h (words64_be 16 x)"

lemma load64_prefix8: "take 8 m = take 8 m' \<Longrightarrow> load64 m = load64 m'"
proof -
  assume e: "take 8 m = take 8 m'"
  have "m ! i = m' ! i" if "i < 8" for i
    using that arg_cong [OF e, of "\<lambda>x. x ! i"] by simp
  then show ?thesis
    by (simp add: load64_def)
qed

lemma words64_be_take: "words64_be n (take (8 * n) d) = words64_be n d"
proof -
  have "load64_be (drop (8 * i) (take (8 * n) d)) = load64_be (drop (8 * i) d)" if "i < n" for i
  proof -
    have "take 8 (drop (8 * i) (take (8 * n) d)) = take 8 (drop (8 * i) d)"
      using that by (simp add: drop_take min_def)
    then show ?thesis
      by (simp only: load64_be_def load64_prefix8 [OF \<open>take 8 (drop (8 * i) (take (8 * n) d)) = _\<close>])
  qed
  then show ?thesis
    by (simp add: words64_be_def)
qed

lemma length_schedule_512: "length m = 16 \<Longrightarrow> length (schedule SHA512 m) = 80"
  by (simp add: schedule_def length_schedule_iter SHA512_def length_K512)

lemma sha512_update_state:
  assumes "state_ok s" and "128 \<le> length d"
  shows "state_ok (Hacl_Impl_SHA2_512_update s d)"
    "state_hash (Hacl_Impl_SHA2_512_update s d) = block_step (state_hash s) (take 128 d)"
    "state_count (Hacl_Impl_SHA2_512_update s d) = state_count s + 1"
proof -
  have l: "length s = 169" "take 80 s = K512"
    using assms(1) by (simp_all add: state_ok_def)
  let ?m = "words64_be 16 d" and ?h = "take 8 (drop 160 s)"
  have h: "length ?h = 8" "length (take 80 (drop 80 s)) = 80"
    using l by simp_all
  have "s = K512 @ take 80 (drop 80 s) @ ?h @ [s ! 168]"
    using sha512_state_parts [OF l(1)] by (simp add: l(2))
  then have u: "Hacl_Impl_SHA2_512_update s d = K512 @ schedule SHA512 ?m @ compress SHA512 ?h ?m @ [s ! 168 + 1]"
    using sha512_update_eq [OF h(2,1) assms(2), of "s ! 168"] by simp
  show "state_ok (Hacl_Impl_SHA2_512_update s d)" "state_count (Hacl_Impl_SHA2_512_update s d) = state_count s + 1"
    using h(1) by (simp_all add: u state_ok_def state_count_def length_K512 length_schedule_512 nth_append)
  show "state_hash (Hacl_Impl_SHA2_512_update s d) = block_step (state_hash s) (take 128 d)"
    using h(1) words64_be_take [of 16 d]
    by (simp add: u state_hash_def block_step_def length_K512 length_schedule_512)
qed

interpretation sha512: block_hash state_ok state_hash state_count Hacl_Impl_SHA2_512_update block_step 128
  by unfold_locales (simp_all add: sha512_update_state)

lemma sha512_update_multi_eq: "Hacl_Impl_SHA2_512_update_multi s d n = sha512.multi s d (unat n)"
  by (simp add: Hacl_Impl_SHA2_512_update_multi_def sha512.multi_def Let_def)

text \<open>The padding arithmetic in 32-bit words is that of the specification.\<close>

lemma pad0len_nat: "n < 240 \<Longrightarrow> (256 - (n + 16 + 1)) mod 128 = sha2_zeros 128 16 n"
proof -
  assume n: "n < 240"
  define q r where "q = (n + 17) div 128" "r = (n + 17) mod 128"
  have e: "n + 17 = 128 * q + r" "r < 128" "q < 3"
    using n by (simp_all add: q_r_def less_mult_imp_div_less)
  have wrap: "256 - r = (128 - r) + 128"
    using e(2) by simp
  consider "q = 0" | "q = 1" | "q = 2" "r = 0"
    using e n by linarith
  then have "(256 - (128 * q + r)) mod 128 = (128 - r) mod 128"
  proof cases
    case 1
    then show ?thesis by (simp only: wrap mult_0_right add_0 mod_add_self2)
  qed simp_all
  moreover have "(n + 17) mod 128 = r" "n + 16 + 1 = 128 * q + r"
    using e by (simp_all add: q_r_def(2))
  ultimately show ?thesis
    by (simp add: sha2_zeros_def)
qed
lemma sha512_pad0len_eq:
  fixes len :: u64
  assumes "unat len < 240"
  shows "unat (((256 :: u32) - (ucast len + 16 + 1)) mod 128) = sha2_zeros 128 16 (unat len)"
proof -
  have u: "unat (ucast len :: u32) = unat len"
    using assms by (simp add: unat_ucast_down)
  then have a: "unat ((ucast len :: u32) + 16 + 1) = unat len + 16 + 1"
    using assms by (simp add: unat_add_small)
  have "unat ((256 :: u32) - (ucast len + 16 + 1)) = 256 - (unat len + 16 + 1)"
    using assms by (subst unat_sub_small) (simp_all only: a, simp_all)
  then have "unat (((256 :: u32) - (ucast len + 16 + 1)) mod 128) = (256 - (unat len + 16 + 1)) mod 128"
    by (simp only: unat_mod_distrib) simp
  then show ?thesis
    by (simp only: pad0len_nat [OF assms])
qed

lemma sha512_last_total:
  fixes n :: nat
  assumes "n < 240"
  shows "n + 1 + sha2_zeros 128 16 n + 16 = 128 * (if n < 112 then 1 else 2)"
proof -
  have "n + 1 + sha2_zeros 128 16 n + 16 = 128 * ((n + 16 + 128) div 128)"
    using round_up [of 128 "n + 16 + 1"] by (simp add: sha2_zeros_def)
  moreover have "(n + 16 + 128) div 128 = (if n < 112 then 1 else 2)"
    using assms by (auto intro!: div_nat_eqI)
  ultimately show ?thesis by simp
qed

lemma store128_be_eq:
  assumes "16 \<le> length b"
  shows "store128_be b n = nat_to_be 16 (unat n) @ drop 16 b"
proof -
  have "rev (bytes_of_u64 (ucast (drop_bit 64 n))) @ rev (bytes_of_u64 (ucast n)) = rev (bytes_of_u128 n)"
    by (simp add: bytes_of_u128_def)
  then show ?thesis
    using assms by (simp add: store128_be_def at_off_def store64_be_eq nat_to_be_def bytes_of_u128_nat_to_le)
qed

definition encoded_length :: "u64 \<Rightarrow> u64 \<Rightarrow> u128" where
  "encoded_length n len = FStar_UInt128_shift_left
     (FStar_UInt128_add (FStar_UInt128_mul_wide n 128) (FStar_UInt128_uint64_to_uint128 len)) 3"

lemma sha512_encodedlen_eq:
  assumes "unat len < 240"
  shows "unat (encoded_length n len) = 8 * (128 * unat n + unat len)"
proof -
  have n: "unat n < 18446744073709551616"
    by (rule unat_u64_lt)
  then have "unat (FStar_UInt128_add (FStar_UInt128_mul_wide n 128) (FStar_UInt128_uint64_to_uint128 len))
      = 128 * unat n + unat len"
    using assms by (subst native.val_add_small) (simp_all add: native.val_mulw native.val_of64)
  then show ?thesis
    using n assms by (simp add: encoded_length_def native.val_shl)
qed

lemma sha512_update_last_eq:
  assumes "unat len \<le> length d" and "unat len < 240"
  shows "Hacl_Impl_SHA2_512_update_last s d len
    = sha512.multi s (last_blocks 128 16 (take (unat len) d)
        (nat_to_be 16 (8 * (128 * unat (state_count s) + unat len)))) (if unat len < 112 then 1 else 2)"
proof -
  let ?n = "unat len" and ?m = "take (unat len) d"
  let ?e = "encoded_length (s ! 168) len"
  let ?k = "if ?n < 112 then 1 else 2 :: nat"
  have m: "length ?m = ?n" and u: "unat (ucast len :: u32) = ?n"
    using assms by (simp_all add: unat_ucast_down)
  have e: "nat_to_be 16 (unat ?e) = nat_to_be 16 (8 * (128 * unat (state_count s) + ?n))"
    by (simp only: sha512_encodedlen_eq [OF assms(2)] state_count_def)
  have lt: "(len < 112) = (?n < 112)"
    by (simp add: word_less_nat_alt)
  have f: "(if len < 112 then drop 128 (replicate 256 0) else replicate 256 0) = (replicate (128 * ?k) 0 :: bytes)"
    by (simp add: lt)
  have nb: "unat (if len < 112 then 1 else 2 :: u32) = ?k"
    by (simp add: lt)
  have tot: "length ?m + 1 + sha2_zeros 128 16 ?n + length (nat_to_be 16 (unat ?e)) = 128 * ?k"
    using sha512_last_total [OF assms(2)] by (simp only: m length_nat_to_be)
  let ?b = "(blit (replicate (128 * ?k) 0) 0 ?m)[?n := 0x80]"
  have lb: "length ?b = 128 * ?k"
    using tot by (subst length_list_update, subst length_blit) simp_all
  have "at_off (?n + 1 + sha2_zeros 128 16 ?n) (\<lambda>b. store128_be b ?e) ?b
      = blit ?b (length ?m + 1 + sha2_zeros 128 16 ?n) (nat_to_be 16 (unat ?e))"
    using tot lb m by (simp add: at_off_def blit_def store128_be_eq add.commute)
  also have "\<dots> = last_blocks 128 16 ?m (nat_to_be 16 (unat ?e))"
    using last_blocks_buffer [OF tot] by (simp only: m)
  finally show ?thesis
    unfolding Hacl_Impl_SHA2_512_update_last_def Let_def f nb u sha512_pad0len_eq [OF assms(2)] sha512_update_multi_eq
      encoded_length_def [symmetric] by (simp only: e)
qed

lemma sha512_finish_eq:
  assumes "length s = 169" and "64 \<le> length out"
  shows "Hacl_Impl_SHA2_512_finish s out = bytes64_be (state_hash s) @ drop 64 out"
  using assms by (simp add: Hacl_Impl_SHA2_512_finish_def uint64s_to_be_bytes_eq state_hash_def)

text \<open>From any state that has absorbed whole blocks, started from the hash \<open>h0\<close>, to the final hash.\<close>

lemma last_hash_eq:
  assumes "state_ok s" and "length m1 = 128 * n" and "n < 2 ^ 64"
    and "state_hash s = foldl block_step h0 (blocks 128 n m1)" and "state_count s = word_of_nat n"
    and "unat len \<le> length m2" and "unat len < 240"
  shows "state_ok (Hacl_Impl_SHA2_512_update_last s m2 len)
    \<and> state_hash (Hacl_Impl_SHA2_512_update_last s m2 len)
      = sha2_hash (SHA512\<lparr>initial_hash := h0\<rparr>) (words64_be 16) 128 16 (m1 @ take (unat len) m2)"
proof -
  let ?m = "take (unat len) m2" and ?k = "if unat len < 112 then 1 else 2 :: nat"
  let ?l = "last_blocks 128 16 ?m (nat_to_be 16 (8 * (128 * n + unat len)))"
  have c: "unat (state_count s) = n"
    using assms(3,5) by (simp add: unat_of_nat)
  have p: "sha2_pad 128 16 (m1 @ ?m) = m1 @ ?l"
    using pad_split [OF assms(2), of 16 ?m] assms(6) by simp
  have l: "length ?l = 128 * ?k"
    using sha512_last_total [OF assms(7)] assms(6) by (simp add: last_blocks_def)
  let ?s = "sha512.multi s ?l ?k"
  have s: "state_ok ?s \<and> state_hash ?s = foldl block_step (state_hash s) (blocks 128 ?k ?l)
      \<and> state_count ?s = state_count s + word_of_nat ?k"
    by (rule sha512.multi_correct [OF assms(1)]) (simp_all only: l le_refl, simp)
  have "length (sha2_pad 128 16 (m1 @ ?m)) div 128 = n + ?k"
    by (simp only: p length_append assms(2) l distrib_left [symmetric] nonzero_mult_div_cancel_left
        numeral_neq_zero not_False_eq_True refl)
  moreover have "compress (SHA512\<lparr>initial_hash := h0\<rparr>) h w = compress SHA512 h w" for h w
    by (simp add: compress_def schedule_def schedule_extend_def [abs_def] schedule_word_def [abs_def]
        sha2_round_def [abs_def] SHA512_def)
  ultimately have "state_hash ?s = sha2_hash (SHA512\<lparr>initial_hash := h0\<rparr>) (words64_be 16) 128 16 (m1 @ ?m)"
    using s by (simp only: sha2_hash_def Let_def p blocks_append [OF assms(2)] assms(4) block_step_def [abs_def]
        foldl_append) simp
  then show ?thesis
    using s by (simp add: sha512_update_last_eq assms(6,7) c)
qed

lemma SHA512_initial [simp]: "SHA512\<lparr>initial_hash := H512\<rparr> = SHA512"
  by (simp add: SHA512_def)

lemma sha512_init_state:
  assumes "length s = 169"
  shows "state_ok (Hacl_Impl_SHA2_512_init s)" "state_hash (Hacl_Impl_SHA2_512_init s) = H512"
    "state_count (Hacl_Impl_SHA2_512_init s) = 0"
  using assms length_K512 by (simp_all add: sha512_init_eq state_ok_def state_hash_def state_count_def nth_append)

text \<open>The body of the one-shot hash, from a state with any initial hash.\<close>

lemma hash_state_eq:
  assumes "unat len \<le> length input" and "state_ok i" "state_hash i = h0" "state_count i = 0"
    and "s = Hacl_Impl_SHA2_512_update_last (Hacl_Impl_SHA2_512_update_multi i input (len div 128))
      (drop (unat (len div 128 * 128)) input) (ucast (len mod 128))"
  shows "state_ok s \<and> state_hash s
    = sha2_hash (SHA512\<lparr>initial_hash := h0\<rparr>) (words64_be 16) 128 16 (take (unat len) input)"
proof -
  define n r where "n = unat len div 128" "r = unat len mod 128"
  have len: "unat len = 128 * n + r" "r < 128" by (simp_all add: n_r_def)
  have lt: "unat len < 2 ^ 32" using unat_lt_word [of len] by simp
  have w: "unat (len div 128) = n" "unat (ucast (len mod 128) :: u64) = r"
    by (simp_all add: unat_div_distrib unat_mod_distrib n_r_def unat_ucast_up)
  have off: "unat (len div 128 * 128) = 128 * n"
    using lt len by (simp add: unat_mult_small w)
  let ?s = "Hacl_Impl_SHA2_512_update_multi i input (len div 128)" and ?m = "take (128 * n) input"
  have s: "state_ok ?s \<and> state_hash ?s = foldl block_step (state_hash i) (blocks 128 n input)
      \<and> state_count ?s = state_count i + word_of_nat n"
    unfolding sha512_update_multi_eq w by (rule sha512.multi_correct [OF assms(2)]) (use assms(1) len lt in simp_all)
  have "state_ok (Hacl_Impl_SHA2_512_update_last ?s (drop (128 * n) input) (ucast (len mod 128)))
    \<and> state_hash (Hacl_Impl_SHA2_512_update_last ?s (drop (128 * n) input) (ucast (len mod 128)))
      = sha2_hash (SHA512\<lparr>initial_hash := h0\<rparr>) (words64_be 16) 128 16
          (?m @ take (unat (ucast (len mod 128) :: u64)) (drop (128 * n) input))"
  proof (rule last_hash_eq [where n = n])
    show "state_ok ?s" "state_count ?s = word_of_nat n"
      "state_hash ?s = foldl block_step h0 (blocks 128 n ?m)"
      using s assms(3,4) by (simp_all add: blocks_take)
  qed (use assms(1) len lt w in simp_all)
  moreover have "?m @ take r (drop (128 * n) input) = take (unat len) input"
    by (simp only: len(1) take_add)
  ultimately show ?thesis
    by (simp only: assms(5) off w)
qed

lemma sha512_hash_eq:
  assumes "unat len \<le> length input" and "64 \<le> length out"
  shows "Hacl_Impl_SHA2_512_hash out input len = sha512 (take (unat len) input) @ drop 64 out"
proof -
  let ?i = "Hacl_Impl_SHA2_512_init (replicate 169 0)"
  have i: "state_ok ?i" "state_hash ?i = H512" "state_count ?i = 0"
    by (rule sha512_init_state; simp)+
  have "length s = 169" if "state_ok s" for s
    using that by (simp add: state_ok_def)
  then show ?thesis
    using hash_state_eq [OF assms(1) i refl] assms(2)
    by (simp add: Hacl_Impl_SHA2_512_hash_def Let_def sha512_finish_eq sha512_def)
qed

section \<open>Properties\<close>

text \<open>C29. One-shot hashing is SHA-512 of FIPS 180-4: the first 64 bytes of the output are the digest of the
  first \<open>len\<close> bytes of the input, padding and 128-bit length included, for every 32-bit length.\<close>

theorem sha512_hash_correct:
  assumes "unat len \<le> length input" and "64 \<le> length out"
  shows "Hacl_SHA2_512_hash out input len = sha512 (take (unat len) input) @ drop 64 out"
  unfolding Hacl_SHA2_512_hash_def by (rule sha512_hash_eq [OF assms])

theorem sha512_hash_correct_witness:
  "Hacl_SHA2_512_hash (replicate 65 9) (replicate 200 1) 130 = sha512 (replicate 130 1) @ [9]"
  using sha512_hash_correct [of 130 "replicate 200 1" "replicate 65 9"] by simp

text \<open>The incremental interface hashes the concatenation: after \<open>init\<close>, any number of 128-byte blocks
  given to \<open>update\<close> and a last piece of up to 239 bytes given to \<open>update_last\<close>, \<open>finish\<close> writes the SHA-512
  digest of everything.\<close>

theorem sha512_incremental_correct:
  assumes "length s = 169" and "\<forall>x \<in> set xs. length x = 128" and "length xs < 2 ^ 64"
    and "unat len = length m" and "unat len < 240" and "64 \<le> length out"
  shows "Hacl_SHA2_512_finish
      (Hacl_SHA2_512_update_last (foldl Hacl_SHA2_512_update (Hacl_SHA2_512_init s) xs) m len) out
    = sha512 (concat xs @ m) @ drop 64 out"
proof -
  let ?i = "Hacl_Impl_SHA2_512_init s" and ?s = "foldl Hacl_Impl_SHA2_512_update (Hacl_Impl_SHA2_512_init s) xs"
  have i: "state_ok ?i" "state_hash ?i = H512" "state_count ?i = 0"
    by (rule sha512_init_state [OF assms(1)])+
  have s: "state_ok ?s" "state_hash ?s = foldl block_step H512 (blocks 128 (length xs) (concat xs))"
    "state_count ?s = word_of_nat (length xs)"
    using sha512.absorb_list [OF i(1) assms(2)] i(2,3) blocks_concat [OF assms(2)] by simp_all
  have u: "Hacl_SHA2_512_update = Hacl_Impl_SHA2_512_update"
    by (intro ext) (rule Hacl_SHA2_512_update_def)
  have "length s = 169" if "state_ok s" for s
    using that by (simp add: state_ok_def)
  then show ?thesis
    using last_hash_eq [OF s(1) length_concat_blocks [OF assms(2)] assms(3) s(2,3) _ assms(5), of m] assms(4,6)
    by (simp add: Hacl_SHA2_512_finish_def Hacl_SHA2_512_update_last_def Hacl_SHA2_512_init_def u sha512_finish_eq sha512_def)
qed

theorem sha512_incremental_correct_witness:
  "Hacl_SHA2_512_finish
      (Hacl_SHA2_512_update_last (foldl Hacl_SHA2_512_update (Hacl_SHA2_512_init (replicate 169 5))
        [replicate 128 1, replicate 128 2]) [3, 4] 2) (replicate 64 0)
    = sha512 (replicate 128 1 @ replicate 128 2 @ [3, 4])"
  using sha512_incremental_correct [of "replicate 169 5" "[replicate 128 1, replicate 128 2]" 2 "[3, 4]" "replicate 64 0"]
  by simp

end
