(* ===== verification/Hacl_SHA2_384.thy ===== *)
theory Hacl_SHA2_384
  imports Hacl_SHA2_512
begin

text \<open>
  SHA-384 (\<^verbatim>\<open>Hacl_SHA2_384.c\<close>): SHA-512 with its own initial hash, another formula for the padding and
  a digest of six words.  The file repeats the block function; it is translated again and shown equal
  to that of SHA-512, whose lemmas then carry the proofs.
\<close>

section \<open>The code\<close>

definition Hacl_Impl_SHA2_384_init :: "u64 list \<Rightarrow> u64 list" where
  "Hacl_Impl_SHA2_384_init state =
     (let n1 = 168; k1 = 0; h_01 = 160;
          state = blit state (k1 + 0) [0x428a2f98d728ae22, 0x7137449123ef65cd, 0xb5c0fbcfec4d3b2f, 0xe9b5dba58189dbbc];
          state = blit state (k1 + 4) [0x3956c25bf348b538, 0x59f111f1b605d019, 0x923f82a4af194f9b, 0xab1c5ed5da6d8118];
          state = blit state (k1 + 8) [0xd807aa98a3030242, 0x12835b0145706fbe, 0x243185be4ee4b28c, 0x550c7dc3d5ffb4e2];
          state = blit state (k1 + 12) [0x72be5d74f27b896f, 0x80deb1fe3b1696b1, 0x9bdc06a725c71235, 0xc19bf174cf692694];
          state = blit state (k1 + 16) [0xe49b69c19ef14ad2, 0xefbe4786384f25e3, 0x0fc19dc68b8cd5b5, 0x240ca1cc77ac9c65];
          state = blit state (k1 + 20) [0x2de92c6f592b0275, 0x4a7484aa6ea6e483, 0x5cb0a9dcbd41fbd4, 0x76f988da831153b5];
          state = blit state (k1 + 24) [0x983e5152ee66dfab, 0xa831c66d2db43210, 0xb00327c898fb213f, 0xbf597fc7beef0ee4];
          state = blit state (k1 + 28) [0xc6e00bf33da88fc2, 0xd5a79147930aa725, 0x06ca6351e003826f, 0x142929670a0e6e70];
          state = blit state (k1 + 32) [0x27b70a8546d22ffc, 0x2e1b21385c26c926, 0x4d2c6dfc5ac42aed, 0x53380d139d95b3df];
          state = blit state (k1 + 36) [0x650a73548baf63de, 0x766a0abb3c77b2a8, 0x81c2c92e47edaee6, 0x92722c851482353b];
          state = blit state (k1 + 40) [0xa2bfe8a14cf10364, 0xa81a664bbc423001, 0xc24b8b70d0f89791, 0xc76c51a30654be30];
          state = blit state (k1 + 44) [0xd192e819d6ef5218, 0xd69906245565a910, 0xf40e35855771202a, 0x106aa07032bbd1b8];
          state = blit state (k1 + 48) [0x19a4c116b8d2d0c8, 0x1e376c085141ab53, 0x2748774cdf8eeb99, 0x34b0bcb5e19b48a8];
          state = blit state (k1 + 52) [0x391c0cb3c5c95a63, 0x4ed8aa4ae3418acb, 0x5b9cca4f7763e373, 0x682e6ff3d6b2b8a3];
          state = blit state (k1 + 56) [0x748f82ee5defb2fc, 0x78a5636f43172f60, 0x84c87814a1f0ab72, 0x8cc702081a6439ec];
          state = blit state (k1 + 60) [0x90befffa23631e28, 0xa4506cebde82bde9, 0xbef9a3f7b2c67915, 0xc67178f2e372532b];
          state = blit state (k1 + 64) [0xca273eceea26619c, 0xd186b8c721c0c207, 0xeada7dd6cde0eb1e, 0xf57d4f7fee6ed178];
          state = blit state (k1 + 68) [0x06f067aa72176fba, 0x0a637dc5a2c898a6, 0x113f9804bef90dae, 0x1b710b35131c471b];
          state = blit state (k1 + 72) [0x28db77f523047d84, 0x32caab7b40c72493, 0x3c9ebe0a15c9bebc, 0x431d67c49c100d4c];
          state = blit state (k1 + 76) [0x4cc5d4becb3e42b6, 0x597f299cfc657e2a, 0x5fcb6fab3ad6faec, 0x6c44198c4a475817];
          state = blit state h_01 [0xcbbb9d5dc1059ed8, 0x629a292a367cd507, 0x9159015a3070dd17, 0x152fecd8f70e5939];
          state = blit state (h_01 + 4) [0x67332667ffc00b31, 0x8eb44a8768581511, 0xdb0c2e0d64f98fa7, 0x47b5481dbefa4fa4]
      in state[n1 := 0])"

text \<open>The bodies of the two long loops of \<^verbatim>\<open>update\<close>: the schedule from word 16 on, and a round.\<close>

definition Hacl_Impl_SHA2_384_update_schedule_loop :: "nat \<Rightarrow> nat \<Rightarrow> u64 list \<Rightarrow> u64 list" where
  "Hacl_Impl_SHA2_384_update_schedule_loop ws_w i state =
     (let t16 = state ! (ws_w + (i - 16));
          t15 = state ! (ws_w + (i - 15));
          t7 = state ! (ws_w + (i - 7));
          t2 = state ! (ws_w + (i - 2))
      in state[ws_w + i :=
           ((drop_bit 19 t2 OR push_bit (64 - 19) t2)
            XOR ((drop_bit 61 t2 OR push_bit (64 - 61) t2) XOR drop_bit 6 t2))
           + t7
           + ((drop_bit 1 t15 OR push_bit (64 - 1) t15)
              XOR ((drop_bit 8 t15 OR push_bit (64 - 8) t15) XOR drop_bit 7 t15))
           + t16])"

definition Hacl_Impl_SHA2_384_update_round_loop :: "u64 list \<Rightarrow> nat \<Rightarrow> nat \<Rightarrow> nat \<Rightarrow> u64 list \<Rightarrow> u64 list" where
  "Hacl_Impl_SHA2_384_update_round_loop state k_w ws_w i hash_0 =
     (let a = hash_0 ! 0; b = hash_0 ! 1; c = hash_0 ! 2; d = hash_0 ! 3;
          e = hash_0 ! 4; f1 = hash_0 ! 5; g = hash_0 ! 6; h = hash_0 ! 7;
          k_t = state ! (k_w + i);
          ws_t = state ! (ws_w + i);
          t1 = h
            + ((drop_bit 14 e OR push_bit (64 - 14) e)
               XOR ((drop_bit 18 e OR push_bit (64 - 18) e)
                    XOR (drop_bit 41 e OR push_bit (64 - 41) e)))
            + ((e AND f1) XOR (NOT e AND g))
            + k_t + ws_t;
          t2 = ((drop_bit 28 a OR push_bit (64 - 28) a)
                XOR ((drop_bit 34 a OR push_bit (64 - 34) a)
                     XOR (drop_bit 39 a OR push_bit (64 - 39) a)))
            + ((a AND b) XOR ((a AND c) XOR (b AND c)));
          x1 = t1 + t2;
          x5 = d + t1
      in hash_0[0 := x1, 1 := a, 2 := b, 3 := c, 4 := x5, 5 := e, 6 := f1, 7 := g])"

definition Hacl_Impl_SHA2_384_update :: "u64 list \<Rightarrow> bytes \<Rightarrow> u64 list" where
  "Hacl_Impl_SHA2_384_update state data =
     (let data_w = replicate 16 0;
          data_w = Hacl_Hash_Lib_LoadStore_uint64s_from_be_bytes data_w data 16;
          hash_w = 160; ws_w = 80; k_w = 0; counter_w = 168;
          state = for_range 0 16 (\<lambda>i state. let b = data_w ! i in state[ws_w + i := b]) state;
          state = for_range 16 80 (Hacl_Impl_SHA2_384_update_schedule_loop ws_w) state;
          hash_0 = replicate 8 0;
          hash_0 = blit hash_0 0 (take 8 (drop hash_w state));
          hash_0 = for_range 0 80 (Hacl_Impl_SHA2_384_update_round_loop state k_w ws_w) hash_0;
          state = for_range 0 8 (\<lambda>i state.
            let xi = state ! (hash_w + i); yi = hash_0 ! i in state[hash_w + i := xi + yi]) state;
          c0 = state ! counter_w;
          one1 = 1
      in state[counter_w := c0 + one1])"

definition Hacl_Impl_SHA2_384_update_multi :: "u64 list \<Rightarrow> bytes \<Rightarrow> u32 \<Rightarrow> u64 list" where
  "Hacl_Impl_SHA2_384_update_multi state data n1 =
     for_range 0 (unat n1) (\<lambda>i state.
       let b = drop (off32 i 128) data in Hacl_Impl_SHA2_384_update state b) state"

definition Hacl_Impl_SHA2_384_update_last :: "u64 list \<Rightarrow> bytes \<Rightarrow> u64 \<Rightarrow> u64 list" where
  "Hacl_Impl_SHA2_384_update_last state data len =
     (let blocks = replicate 256 0;
          nb = (if len < 112 then 1 else 2);
          final_blocks = (if len < 112 then drop 128 blocks else blocks);
          final_blocks = blit final_blocks 0 (take (unat (ucast len :: u32)) data);
          n1 = state ! 168;
          padding = unat (ucast len :: u32);
          encodedlen = FStar_UInt128_shift_left
            (FStar_UInt128_add (FStar_UInt128_mul_wide n1 128) (FStar_UInt128_uint64_to_uint128 len)) 3;
          pad0len = ((128 :: u32) - (ucast len + 16 + 1) mod 128) mod 128;
          buf1 = padding;
          buf2 = padding + 1 + unat pad0len;
          final_blocks = final_blocks[buf1 := 0x80];
          final_blocks = at_off buf2 (\<lambda>b. store128_be b encodedlen) final_blocks
      in Hacl_Impl_SHA2_384_update_multi state final_blocks nb)"

definition Hacl_Impl_SHA2_384_finish :: "u64 list \<Rightarrow> bytes \<Rightarrow> bytes" where
  "Hacl_Impl_SHA2_384_finish state hash1 =
     (let hash_w = drop 160 state
      in Hacl_Hash_Lib_LoadStore_uint64s_to_be_bytes hash1 hash_w 6)"

definition Hacl_Impl_SHA2_384_hash :: "bytes \<Rightarrow> bytes \<Rightarrow> u32 \<Rightarrow> bytes" where
  "Hacl_Impl_SHA2_384_hash hash1 input len =
     (let state = replicate 169 0;
          n1 = len div 128;
          r = len mod 128;
          input_blocks = input;
          input_last = drop (unat (n1 * 128)) input;
          state = Hacl_Impl_SHA2_384_init state;
          state = Hacl_Impl_SHA2_384_update_multi state input_blocks n1;
          state = Hacl_Impl_SHA2_384_update_last state input_last (ucast r)
      in Hacl_Impl_SHA2_384_finish state hash1)"

definition Hacl_SHA2_384_init :: "u64 list \<Rightarrow> u64 list" where
  "Hacl_SHA2_384_init state = Hacl_Impl_SHA2_384_init state"

definition Hacl_SHA2_384_update :: "u64 list \<Rightarrow> bytes \<Rightarrow> u64 list" where
  "Hacl_SHA2_384_update state data_8 = Hacl_Impl_SHA2_384_update state data_8"

definition Hacl_SHA2_384_update_multi :: "u64 list \<Rightarrow> bytes \<Rightarrow> u32 \<Rightarrow> u64 list" where
  "Hacl_SHA2_384_update_multi state data n1 = Hacl_Impl_SHA2_384_update_multi state data n1"

definition Hacl_SHA2_384_update_last :: "u64 list \<Rightarrow> bytes \<Rightarrow> u64 \<Rightarrow> u64 list" where
  "Hacl_SHA2_384_update_last state data len = Hacl_Impl_SHA2_384_update_last state data len"

definition Hacl_SHA2_384_finish :: "u64 list \<Rightarrow> bytes \<Rightarrow> bytes" where
  "Hacl_SHA2_384_finish state hash1 = Hacl_Impl_SHA2_384_finish state hash1"

definition Hacl_SHA2_384_hash :: "bytes \<Rightarrow> bytes \<Rightarrow> u32 \<Rightarrow> bytes" where
  "Hacl_SHA2_384_hash hash1 input len = Hacl_Impl_SHA2_384_hash hash1 input len"

section \<open>Specification\<close>

definition H384 :: "u64 list" where
  "H384 = map (root_bits 2) (take 8 (drop 8 primes80))"

definition SHA384 :: "64 sha2" where
  "SHA384 = SHA512\<lparr>initial_hash := H384\<rparr>"

definition sha384 :: "bytes \<Rightarrow> bytes" where
  "sha384 m = take 48 (bytes64_be (sha2_hash SHA384 (words64_be 16) 128 16 m))"

section \<open>The shared block function\<close>

lemma update_384:
  "Hacl_Impl_SHA2_384_update = Hacl_Impl_SHA2_512_update"
proof -
  have "Hacl_Impl_SHA2_384_update_schedule_loop = Hacl_Impl_SHA2_512_update_schedule_loop"
    "Hacl_Impl_SHA2_384_update_round_loop = Hacl_Impl_SHA2_512_update_round_loop"
    by (intro ext, simp only: Hacl_Impl_SHA2_384_update_schedule_loop_def Hacl_Impl_SHA2_512_update_schedule_loop_def
        Hacl_Impl_SHA2_384_update_round_loop_def Hacl_Impl_SHA2_512_update_round_loop_def)+
  then show ?thesis
    by (intro ext) (simp only: Hacl_Impl_SHA2_384_update_def Hacl_Impl_SHA2_512_update_def)
qed

lemma update_multi_384:
  "Hacl_Impl_SHA2_384_update_multi = Hacl_Impl_SHA2_512_update_multi"
  by (intro ext) (simp only: Hacl_Impl_SHA2_384_update_multi_def Hacl_Impl_SHA2_512_update_multi_def update_384)

lemma init_384:
  assumes "length s = 169"
  shows "state_ok (Hacl_Impl_SHA2_384_init s)" "state_hash (Hacl_Impl_SHA2_384_init s) = H384"
    "state_count (Hacl_Impl_SHA2_384_init s) = 0"
proof -
  have h: "length H384 = 8"
    by (simp add: H384_def primes80_eq)
  have "Hacl_Impl_SHA2_384_init s = (blit (blit s 0 K512) 160 H384)[168 := 0]"
    unfolding Hacl_Impl_SHA2_384_init_def Let_def K512_def H384_def primes80_eq
    using assms by (simp add: blit_blit length_blit cube_roots_64 square_roots_64)
  then have "Hacl_Impl_SHA2_384_init s = K512 @ take 80 (drop 80 s) @ H384 @ [0]"
    using init_blits [OF assms h] by simp
  then show "state_ok (Hacl_Impl_SHA2_384_init s)" "state_hash (Hacl_Impl_SHA2_384_init s) = H384"
    "state_count (Hacl_Impl_SHA2_384_init s) = 0"
    using assms length_K512 h by (simp_all add: state_ok_def state_hash_def state_count_def nth_append)
qed

text \<open>The two padding formulas agree where the last piece fits in the two spare blocks.\<close>

lemma pad0len_384:
  fixes len :: u64
  assumes "unat len < 240"
  shows "unat (((128 :: u32) - (ucast len + 16 + 1) mod 128) mod 128) = sha2_zeros 128 16 (unat len)"
proof -
  have u: "unat (ucast len :: u32) = unat len"
    using assms by (simp add: unat_ucast_down)
  then have "unat ((ucast len :: u32) + 16 + 1) = unat len + 16 + 1"
    using assms by (simp add: unat_add_small)
  then have m: "unat (((ucast len :: u32) + 16 + 1) mod 128) = (unat len + 16 + 1) mod 128"
    by (simp only: unat_mod_distrib) simp
  have "unat ((128 :: u32) - ((ucast len + 16 + 1) mod 128)) = 128 - (unat len + 16 + 1) mod 128"
    by (subst unat_sub_small) (simp_all only: m, simp_all)
  then have "unat (((128 :: u32) - (ucast len + 16 + 1) mod 128) mod 128) = (128 - (unat len + 16 + 1) mod 128) mod 128"
    by (simp only: unat_mod_distrib) simp
  then show ?thesis
    by (simp add: sha2_zeros_def)
qed

lemma update_last_384:
  assumes "unat len < 240"
  shows "Hacl_Impl_SHA2_384_update_last s d len = Hacl_Impl_SHA2_512_update_last s d len"
  unfolding Hacl_Impl_SHA2_384_update_last_def Hacl_Impl_SHA2_512_update_last_def Let_def
    pad0len_384 [OF assms] sha512_pad0len_eq [OF assms] update_multi_384 ..

lemma take_bytes64_be: "take (8 * n) (bytes64_be ws) = bytes64_be (take n ws)"
proof (induction n arbitrary: ws)
  case (Suc n)
  then show ?case
    by (cases ws) (simp_all add: bytes64_be_def)
qed (simp add: bytes64_be_def)

lemma finish_384:
  assumes "length s = 169" and "48 \<le> length out"
  shows "Hacl_Impl_SHA2_384_finish s out = take 48 (bytes64_be (state_hash s)) @ drop 48 out"
proof -
  have "bytes64_be (take 6 (state_hash s)) = take 48 (bytes64_be (state_hash s))"
    using assms(1) using take_bytes64_be [of 6 "state_hash s"] by simp
  then show ?thesis
    using assms by (simp add: Hacl_Impl_SHA2_384_finish_def uint64s_to_be_bytes_eq state_hash_def)
qed

lemma hash_384_eq:
  assumes "unat len \<le> length input" and "48 \<le> length out"
  shows "Hacl_Impl_SHA2_384_hash out input len = sha384 (take (unat len) input) @ drop 48 out"
proof -
  let ?i = "Hacl_Impl_SHA2_384_init (replicate 169 0)"
  have i: "state_ok ?i" "state_hash ?i = H384" "state_count ?i = 0"
    by (rule init_384; simp)+
  have "unat (len mod 128) < 128"
    by (simp only: unat_mod_distrib) simp
  then have r: "unat (ucast (len mod 128) :: u64) < 240"
    by (simp add: unat_ucast_up)
  have "length s = 169" if "state_ok s" for s
    using that by (simp add: state_ok_def)
  then show ?thesis
    using hash_state_eq [OF assms(1) i refl] assms(2) r
    by (simp add: Hacl_Impl_SHA2_384_hash_def Let_def finish_384 sha384_def SHA384_def update_last_384 update_multi_384)
qed

section \<open>Properties\<close>

text \<open>One-shot hashing is SHA-384 of FIPS 180-4: the first 48 bytes of the output are the digest of the
  first \<open>len\<close> bytes of the input, for every 32-bit length.\<close>

theorem sha384_hash_correct:
  assumes "unat len \<le> length input" and "48 \<le> length out"
  shows "Hacl_SHA2_384_hash out input len = sha384 (take (unat len) input) @ drop 48 out"
  unfolding Hacl_SHA2_384_hash_def by (rule hash_384_eq [OF assms])

theorem sha384_hash_correct_witness:
  "Hacl_SHA2_384_hash (replicate 49 9) (replicate 200 1) 130 = sha384 (replicate 130 1) @ [9]"
  using sha384_hash_correct [of 130 "replicate 200 1" "replicate 49 9"] by simp

text \<open>The incremental interface of SHA-384: after \<open>init\<close>, any number of 128-byte blocks and a last piece
  of up to 239 bytes, \<open>finish\<close> writes the digest of everything.\<close>

theorem sha384_incremental_correct:
  assumes "length s = 169" and "\<forall>x \<in> set xs. length x = 128" and "length xs < 2 ^ 64"
    and "unat len = length m" and "unat len < 240" and "48 \<le> length out"
  shows "Hacl_SHA2_384_finish
      (Hacl_SHA2_384_update_last (foldl Hacl_SHA2_384_update (Hacl_SHA2_384_init s) xs) m len) out
    = sha384 (concat xs @ m) @ drop 48 out"
proof -
  let ?i = "Hacl_Impl_SHA2_384_init s" and ?s = "foldl Hacl_Impl_SHA2_512_update (Hacl_Impl_SHA2_384_init s) xs"
  have i: "state_ok ?i" "state_hash ?i = H384" "state_count ?i = 0"
    by (rule init_384 [OF assms(1)])+
  have s: "state_ok ?s" "state_hash ?s = foldl block_step H384 (blocks 128 (length xs) (concat xs))"
    "state_count ?s = word_of_nat (length xs)"
    using sha512.absorb_list [OF i(1) assms(2)] i(2,3) blocks_concat [OF assms(2)] by simp_all
  have u: "Hacl_SHA2_384_update = Hacl_Impl_SHA2_512_update"
    by (intro ext) (simp only: Hacl_SHA2_384_update_def update_384)
  have "length s = 169" if "state_ok s" for s
    using that by (simp add: state_ok_def)
  then show ?thesis
    using last_hash_eq [OF s(1) length_concat_blocks [OF assms(2)] assms(3) s(2,3) _ assms(5), of m] assms(4-6)
    by (simp add: Hacl_SHA2_384_finish_def Hacl_SHA2_384_update_last_def Hacl_SHA2_384_init_def u finish_384
        update_last_384 sha384_def SHA384_def)
qed

theorem sha384_incremental_correct_witness:
  "Hacl_SHA2_384_finish
      (Hacl_SHA2_384_update_last (foldl Hacl_SHA2_384_update (Hacl_SHA2_384_init (replicate 169 5))
        [replicate 128 1, replicate 128 2]) [3, 4] 2) (replicate 48 0)
    = sha384 (replicate 128 1 @ replicate 128 2 @ [3, 4])"
  using sha384_incremental_correct [of "replicate 169 5" "[replicate 128 1, replicate 128 2]" 2 "[3, 4]" "replicate 48 0"]
  by simp

end
