(* ===== verification/Midl.thy ===== *)
theory Midl
  imports Prelude "HOL-Library.Monad_Syntax" "HOL-Library.Multiset"
begin

text \<open>
  ID lists of LMDB (\<^verbatim>\<open>ocaml-lmdb/src/midl.c\<close>, \<^verbatim>\<open>midl.h\<close>): arrays of 64-bit page numbers whose word 0 is
  the number of elements; an allocated list has its capacity in the word before.  Reads and writes
  are checked: a step outside the array is the value \<open>None\<close>, so that a result \<open>Some\<close> says that the
  code stays inside the memory it was given.  \<^verbatim>\<open>unsigned\<close> is a 32-bit word.
\<close>

section \<open>Checked access\<close>

definition rd :: "'a list \<Rightarrow> nat \<Rightarrow> 'a option" where
  "rd a i = (if i < length a then Some (a ! i) else None)"

definition wr :: "'a list \<Rightarrow> nat \<Rightarrow> 'a \<Rightarrow> 'a list option" where
  "wr a i x = (if i < length a then Some (a[i := x]) else None)"

lemma rd_in [simp]: "i < length a \<Longrightarrow> rd a i = Some (a ! i)"
  by (simp add: rd_def)

lemma wr_in [simp]: "i < length a \<Longrightarrow> wr a i x = Some (a[i := x])"
  by (simp add: wr_def)

definition MDB_IDL_UM_MAX :: nat where
  "MDB_IDL_UM_MAX = 2 ^ (16 + 1) - 1"

text \<open>The elements of a list whose word 0 is the count.\<close>

definition idl_elems :: "u64 list \<Rightarrow> u64 list" where
  "idl_elems ids = take (unat (ids ! 0)) (drop 1 ids)"

definition idl_fits :: "u64 list \<Rightarrow> bool" where
  "idl_fits ids = (ids \<noteq> [] \<and> unat (ids ! 0) < length ids)"

section \<open>Binary search\<close>

definition CMP :: "u64 \<Rightarrow> u64 \<Rightarrow> int" where
  "CMP x y = (if x < y then - 1 else if x > y then 1 else 0)"

lemma half_word:
  fixes n :: u32
  shows "unat (drop_bit 1 n) = unat n div 2" "unat (drop_bit (Suc 0) n) = unat n div 2"
  by (simp_all add: unat_drop_bit_eq drop_bit_eq_div unat_div_distrib flip: One_nat_def)

lemma half_word_less: "0 < (n :: u32) \<Longrightarrow> unat (drop_bit 1 n) < unat n"
  by (simp add: half_word word_less_nat_alt)

lemma rest_word:
  fixes n :: u32
  assumes "0 < n"
  shows "unat (n - (drop_bit 1 n + 1)) = unat n - (unat n div 2 + 1)"
proof -
  have n: "0 < unat n" "unat n < 2 ^ 32"
    using assms unat_lt_word [of n] by (simp_all add: word_less_nat_alt)
  then have "unat (drop_bit 1 n + 1) = unat n div 2 + 1"
    by (subst unat_add_small) (simp_all add: half_word)
  then show ?thesis
    using n by (subst unat_sub_small) simp_all
qed

lemmas half_less = half_word_less half_word_less [unfolded One_nat_def]

lemma rest_word_less: "0 < (n :: u32) \<Longrightarrow> unat (n - (drop_bit 1 n + 1)) < unat n"
  by (simp only: rest_word) (simp add: word_less_nat_alt)

lemmas rest_less = rest_word_less rest_word_less [unfolded One_nat_def]

function mdb_midl_search_loop :: "u64 list \<Rightarrow> u64 \<Rightarrow> u32 \<Rightarrow> u32 \<Rightarrow> int \<Rightarrow> u32 \<Rightarrow> u32 option" where
  "mdb_midl_search_loop ids id' base cursor val n =
     (if 0 < n then
        let pivot = drop_bit 1 n;
            cursor = base + pivot + 1
        in do {
          x \<leftarrow> rd ids (unat cursor);
          let val = CMP x id';
          if val < 0 then mdb_midl_search_loop ids id' base cursor val pivot
          else if val > 0 then mdb_midl_search_loop ids id' cursor cursor val (n - (pivot + 1))
          else Some cursor
        }
      else Some (if val > 0 then cursor + 1 else cursor))"
  by pat_completeness auto
termination
  by (relation "measure (\<lambda>(ids, id', base, cursor, val, n). unat n)")
    (simp_all add: half_less rest_less)

declare mdb_midl_search_loop.simps [simp del]

definition mdb_midl_search :: "u64 list \<Rightarrow> u64 \<Rightarrow> u32 option" where
  "mdb_midl_search ids id' = do {
     n \<leftarrow> rd ids 0;
     mdb_midl_search_loop ids id' 0 1 0 (ucast n)
   }"

record MDB_ID2 =
  mid :: u64
  mptr :: u64

function mdb_mid2l_search_loop :: "MDB_ID2 list \<Rightarrow> u64 \<Rightarrow> u32 \<Rightarrow> u32 \<Rightarrow> int \<Rightarrow> u32 \<Rightarrow> u32 option" where
  "mdb_mid2l_search_loop ids id' base cursor val n =
     (if 0 < n then
        let pivot = drop_bit 1 n;
            cursor = base + pivot + 1
        in do {
          x \<leftarrow> rd ids (unat cursor);
          let val = CMP id' (mid x);
          if val < 0 then mdb_mid2l_search_loop ids id' base cursor val pivot
          else if val > 0 then mdb_mid2l_search_loop ids id' cursor cursor val (n - (pivot + 1))
          else Some cursor
        }
      else Some (if val > 0 then cursor + 1 else cursor))"
  by pat_completeness auto
termination
  by (relation "measure (\<lambda>(ids, id', base, cursor, val, n). unat n)")
    (simp_all add: half_less rest_less)

declare mdb_mid2l_search_loop.simps [simp del]

definition mdb_mid2l_search :: "MDB_ID2 list \<Rightarrow> u64 \<Rightarrow> u32 option" where
  "mdb_mid2l_search ids id' = do {
     c \<leftarrow> rd ids 0;
     mdb_mid2l_search_loop ids id' 0 1 0 (ucast (mid c))
   }"

text \<open>
  Both searches are one bisection: \<open>cmp\<close> is the comparison at a position, positive where the search
  goes right.  The contract fixes one step of the loop; the result is proved once.
\<close>

locale bisection =
  fixes cmp :: "'s \<Rightarrow> u64 \<Rightarrow> nat \<Rightarrow> int option"
    and loop :: "'s \<Rightarrow> u64 \<Rightarrow> u32 \<Rightarrow> u32 \<Rightarrow> int \<Rightarrow> u32 \<Rightarrow> u32 option"
  assumes loop_step: "0 < n \<Longrightarrow> cmp ids k (unat (base + drop_bit 1 n + 1)) = Some v' \<Longrightarrow>
      loop ids k base cursor v n =
        (if v' < 0 then loop ids k base (base + drop_bit 1 n + 1) v' (drop_bit 1 n)
         else if v' > 0 then loop ids k (base + drop_bit 1 n + 1) (base + drop_bit 1 n + 1) v' (n - (drop_bit 1 n + 1))
         else Some (base + drop_bit 1 n + 1))"
    and loop_done: "loop ids k base cursor v 0 = Some (if v > 0 then cursor + 1 else cursor)"
begin

lemma loop_finds:
  assumes "N < 2 ^ 32 - 1" and "\<And>p. 1 \<le> p \<Longrightarrow> p \<le> N \<Longrightarrow> cmp ids k p = Some (c p)"
    and mono: "\<And>p q. 1 \<le> p \<Longrightarrow> p < q \<Longrightarrow> q \<le> N \<Longrightarrow> c p \<le> 0 \<Longrightarrow> c q < 0"
    and "unat base + unat n \<le> N"
    and "\<And>p. 1 \<le> p \<Longrightarrow> p \<le> unat base \<Longrightarrow> 0 < c p"
    and "\<And>p. unat base + unat n < p \<Longrightarrow> p \<le> N \<Longrightarrow> c p < 0"
    and "if 0 < v then cursor = base else 0 < n \<or> unat cursor = unat base + 1"
  shows "\<exists>r. loop ids k base cursor v n = Some r \<and> 1 \<le> unat r \<and> unat r \<le> N + 1
    \<and> (\<forall>p. 1 \<le> p \<and> p < unat r \<longrightarrow> 0 < c p) \<and> (\<forall>p. unat r < p \<and> p \<le> N \<longrightarrow> c p < 0)
    \<and> (unat r \<le> N \<longrightarrow> c (unat r) \<le> 0)"
  using assms(4-)
proof (induction "unat n" arbitrary: n base cursor v rule: less_induct)
  case less
  note IH = less(1) and range = less(2) and left = less(3) and right = less(4) and cur = less(5)
  show ?case
  proof (cases "n = 0")
    case True
    have "unat (base + 1) = unat base + 1"
      using range assms(1) by (subst unat_add_small) simp_all
    then have "unat (if v > 0 then cursor + 1 else cursor) = unat base + 1"
      using cur True by (simp split: if_splits)
    moreover have "c (unat base + 1) \<le> 0" if "unat base + 1 \<le> N"
      using right [of "unat base + 1"] that True by simp
    ultimately show ?thesis
      using range left right True by (intro exI [of _ "if v > 0 then cursor + 1 else cursor"])
        (simp add: loop_done less_Suc_eq_le)
  next
    case False
    define m where "m = base + drop_bit 1 n + 1"
    have n: "0 < n" "0 < unat n"
      using False by (simp_all add: word_neq_0_conv unat_gt_0)
    have m: "unat m = unat base + unat n div 2 + 1"
      using range assms(1) n(2) unfolding m_def
      by (subst unat_add_small; (subst unat_add_small)?) (simp_all add: half_word)
    have mN: "1 \<le> unat m" "unat m \<le> N"
      using range n(2) by (simp_all add: m)
    have step: "loop ids k base cursor v n =
        (if c (unat m) < 0 then loop ids k base m (c (unat m)) (drop_bit 1 n)
         else if c (unat m) > 0 then loop ids k m m (c (unat m)) (n - (drop_bit 1 n + 1))
         else Some m)"
      using loop_step [OF n(1), of ids k base "c (unat m)" cursor v] assms(2) [OF mN] by (simp only: m_def [symmetric])
    have before: "0 < c p" if "1 \<le> p" "p < unat m" "0 \<le> c (unat m)" for p
      using mono [of p "unat m"] that mN by force
    have after: "c p < 0" if "unat m < p" "p \<le> N" "c (unat m) \<le> 0" for p
      using mono [of "unat m" p] that mN by force
    consider "c (unat m) < 0" | "c (unat m) > 0" | "c (unat m) = 0" by linarith
    then show ?thesis
    proof cases
      case 1
      have "\<exists>r. loop ids k base m (c (unat m)) (drop_bit 1 n) = Some r \<and> 1 \<le> unat r \<and> unat r \<le> N + 1
          \<and> (\<forall>p. 1 \<le> p \<and> p < unat r \<longrightarrow> 0 < c p) \<and> (\<forall>p. unat r < p \<and> p \<le> N \<longrightarrow> c p < 0)
          \<and> (unat r \<le> N \<longrightarrow> c (unat r) \<le> 0)"
      proof (rule IH)
        show "c p < 0" if "unat base + unat (drop_bit 1 n) < p" "p \<le> N" for p
          using that 1 after [of p] m by (cases "p = unat m") (simp_all add: half_word)
        show "if 0 < c (unat m) then m = base else 0 < drop_bit 1 n \<or> unat m = unat base + 1"
          using 1 m by (auto simp: half_word word_less_nat_alt)
      qed (use n range left half_word_less [OF n(1)] in \<open>simp_all add: half_word\<close>)
      then show ?thesis using 1 by (simp add: step)
    next
      case 2
      have "\<exists>r. loop ids k m m (c (unat m)) (n - (drop_bit 1 n + 1)) = Some r \<and> 1 \<le> unat r \<and> unat r \<le> N + 1
          \<and> (\<forall>p. 1 \<le> p \<and> p < unat r \<longrightarrow> 0 < c p) \<and> (\<forall>p. unat r < p \<and> p \<le> N \<longrightarrow> c p < 0)
          \<and> (unat r \<le> N \<longrightarrow> c (unat r) \<le> 0)"
      proof (rule IH)
        show "0 < c p" if "1 \<le> p" "p \<le> unat m" for p
          using that 2 before [of p] by (cases "p = unat m") simp_all
        show "c p < 0" if "unat m + unat (n - (drop_bit 1 n + 1)) < p" "p \<le> N" for p
          using that right [of p] n m by (simp only: rest_word)
        show "unat m + unat (n - (drop_bit 1 n + 1)) \<le> N"
          using range n m by (simp only: rest_word)
        show "unat (n - (drop_bit 1 n + 1)) < unat n"
          by (rule rest_word_less [OF n(1)])
      qed (use 2 in simp)
      then show ?thesis using 2 by (simp add: step)
    next
      case 3
      then show ?thesis
        using mN before after by (intro exI [of _ m]) (auto simp: step)
    qed
  qed
qed

end

interpretation idl: bisection
  "\<lambda>ids k p. map_option (\<lambda>x. CMP x k) (rd ids p)" mdb_midl_search_loop
proof unfold_locales
  fix n base cursor :: u32 and ids k v v'
  assume "0 < n" "map_option (\<lambda>x. CMP x k) (rd ids (unat (base + drop_bit 1 n + 1))) = Some v'"
  then show "mdb_midl_search_loop ids k base cursor v n =
        (if v' < 0 then mdb_midl_search_loop ids k base (base + drop_bit 1 n + 1) v' (drop_bit 1 n)
         else if v' > 0 then mdb_midl_search_loop ids k (base + drop_bit 1 n + 1) (base + drop_bit 1 n + 1) v'
           (n - (drop_bit 1 n + 1))
         else Some (base + drop_bit 1 n + 1))"
    by (subst mdb_midl_search_loop.simps) (auto simp: Let_def)
qed (simp add: mdb_midl_search_loop.simps)

interpretation id2l: bisection
  "\<lambda>(ids :: MDB_ID2 list) k p. map_option (\<lambda>x. CMP k (mid x)) (rd ids p)" mdb_mid2l_search_loop
proof unfold_locales
  fix n base cursor :: u32 and ids :: "MDB_ID2 list" and k v v'
  assume "0 < n" "map_option (\<lambda>x. CMP k (mid x)) (rd ids (unat (base + drop_bit 1 n + 1))) = Some v'"
  then show "mdb_mid2l_search_loop ids k base cursor v n =
        (if v' < 0 then mdb_mid2l_search_loop ids k base (base + drop_bit 1 n + 1) v' (drop_bit 1 n)
         else if v' > 0 then mdb_mid2l_search_loop ids k (base + drop_bit 1 n + 1) (base + drop_bit 1 n + 1) v'
           (n - (drop_bit 1 n + 1))
         else Some (base + drop_bit 1 n + 1))"
    by (subst mdb_mid2l_search_loop.simps) (auto simp: Let_def)
qed (simp add: mdb_mid2l_search_loop.simps)

section \<open>Pairs of an ID and a pointer\<close>

text \<open>\<^verbatim>\<open>for (i=(unsigned)ids[0].mid; i>x; i--) ids[i] = ids[i-1];\<close>\<close>

fun mdb_mid2l_insert_loop :: "nat \<Rightarrow> nat \<Rightarrow> MDB_ID2 list \<Rightarrow> MDB_ID2 list option" where
  "mdb_mid2l_insert_loop x i ids =
     (if x < i then do {
        v \<leftarrow> rd ids (i - 1);
        ids \<leftarrow> wr ids i v;
        mdb_mid2l_insert_loop x (i - 1) ids
      } else Some ids)"

declare mdb_mid2l_insert_loop.simps [simp del]

definition mdb_mid2l_insert :: "MDB_ID2 list \<Rightarrow> MDB_ID2 \<Rightarrow> (int \<times> MDB_ID2 list) option" where
  "mdb_mid2l_insert ids id' = do {
     x \<leftarrow> mdb_mid2l_search ids (mid id');
     c \<leftarrow> rd ids 0;
     if x < 1 then Some (- 2, ids)
     else do {
       duplicate \<leftarrow> (if ucast x \<le> mid c then do { y \<leftarrow> rd ids (unat x); Some (mid y = mid id') } else Some False);
       if duplicate then Some (- 1, ids)
       else if mid c \<ge> word_of_nat MDB_IDL_UM_MAX then Some (- 2, ids)
       else do {
         ids \<leftarrow> wr ids 0 (c\<lparr>mid := mid c + 1\<rparr>);
         ids \<leftarrow> mdb_mid2l_insert_loop (unat x) (unat (ucast (mid c + 1) :: u32)) ids;
         ids \<leftarrow> wr ids (unat x) id';
         Some (0, ids)
       }
     }
   }"

definition mdb_mid2l_append :: "MDB_ID2 list \<Rightarrow> MDB_ID2 \<Rightarrow> (int \<times> MDB_ID2 list) option" where
  "mdb_mid2l_append ids id' = do {
     c \<leftarrow> rd ids 0;
     if mid c \<ge> word_of_nat MDB_IDL_UM_MAX then Some (- 2, ids)
     else do {
       ids \<leftarrow> wr ids 0 (c\<lparr>mid := mid c + 1\<rparr>);
       ids \<leftarrow> wr ids (unat (mid c + 1)) id';
       Some (0, ids)
     }
   }"

text \<open>The pairs of a list whose entry 0 holds the count.\<close>

definition id2l_elems :: "MDB_ID2 list \<Rightarrow> MDB_ID2 list" where
  "id2l_elems ids = take (unat (mid (ids ! 0))) (drop 1 ids)"

definition id2l_fits :: "MDB_ID2 list \<Rightarrow> bool" where
  "id2l_fits ids = (ids \<noteq> [] \<and> unat (mid (ids ! 0)) < length ids)"

section \<open>Results of the searches\<close>

lemma CMP_sign:
  "(0 < CMP x y) = (y < x)" "(CMP x y < 0) = (x < y)" "(CMP x y \<le> 0) = (x \<le> y)" "(0 \<le> CMP x y) = (y \<le> x)"
  by (auto simp: CMP_def)

lemma search_count: "n < 2 ^ 32 \<Longrightarrow> unat (c :: u64) = n \<Longrightarrow> unat (ucast c :: u32) = n"
  by (simp add: unat_ucast_down)

lemma nth_idl_elems: "idl_fits ids \<Longrightarrow> p < unat (ids ! 0) \<Longrightarrow> idl_elems ids ! p = ids ! (p + 1)"
  by (simp add: idl_elems_def idl_fits_def)

lemma length_idl_elems: "idl_fits ids \<Longrightarrow> length (idl_elems ids) = unat (ids ! 0)"
  by (auto simp: idl_elems_def idl_fits_def)

lemma in_idl_elems:
  assumes "idl_fits ids"
  shows "x \<in> set (idl_elems ids) \<longleftrightarrow> (\<exists>p. 1 \<le> p \<and> p \<le> unat (ids ! 0) \<and> ids ! p = x)"
proof -
  have "x \<in> set (idl_elems ids) \<longleftrightarrow> (\<exists>i < unat (ids ! 0). ids ! (i + 1) = x)"
    using assms by (auto simp: in_set_conv_nth length_idl_elems nth_idl_elems)
  also have "\<dots> \<longleftrightarrow> (\<exists>p. 1 \<le> p \<and> p \<le> unat (ids ! 0) \<and> ids ! p = x)" (is "?l \<longleftrightarrow> ?r")
  proof
    assume ?r
    then obtain p where "1 \<le> p" "p \<le> unat (ids ! 0)" "ids ! p = x" by blast
    then show ?l by (intro exI [of _ "p - 1"]) simp
  next
    assume ?l
    then obtain i where "i < unat (ids ! 0)" "ids ! (i + 1) = x" by blast
    then show ?r by (intro exI [of _ "i + 1"]) simp
  qed
  finally show ?thesis .
qed

lemma idl_search:
  assumes "idl_fits ids" and "sorted_wrt (>) (idl_elems ids)" and "unat (ids ! 0) < 2 ^ 32 - 1"
  shows "\<exists>x. mdb_midl_search ids k = Some x \<and> 1 \<le> unat x \<and> unat x \<le> unat (ids ! 0) + 1
    \<and> (\<forall>p. 1 \<le> p \<and> p < unat x \<longrightarrow> k < ids ! p) \<and> (\<forall>p. unat x < p \<and> p \<le> unat (ids ! 0) \<longrightarrow> ids ! p < k)
    \<and> (unat x \<le> unat (ids ! 0) \<longrightarrow> ids ! unat x \<le> k)"
proof -
  let ?N = "unat (ids ! 0)"
  have len: "?N < length ids" "ids \<noteq> []"
    using assms(1) by (simp_all add: idl_fits_def)
  have mono: "ids ! q < ids ! p" if "1 \<le> p" "p < q" "q \<le> ?N" for p q
    using sorted_wrt_nth_less [OF assms(2), of "p - 1" "q - 1"] that
    by (simp add: nth_idl_elems assms(1) length_idl_elems)
  have n: "unat (ucast (ids ! 0) :: u32) = ?N"
    using assms(3) by (intro search_count) simp_all
  have "\<exists>x. mdb_midl_search_loop ids k 0 1 0 (ucast (ids ! 0)) = Some x \<and> 1 \<le> unat x \<and> unat x \<le> ?N + 1
    \<and> (\<forall>p. 1 \<le> p \<and> p < unat x \<longrightarrow> 0 < CMP (ids ! p) k) \<and> (\<forall>p. unat x < p \<and> p \<le> ?N \<longrightarrow> CMP (ids ! p) k < 0)
    \<and> (unat x \<le> ?N \<longrightarrow> CMP (ids ! unat x) k \<le> 0)"
  proof (rule idl.loop_finds [OF assms(3)])
    fix p q
    assume "1 \<le> p" "p < q" "q \<le> ?N" "CMP (ids ! p) k \<le> 0"
    then show "CMP (ids ! q) k < 0"
      using mono [of p q] by (simp add: CMP_sign)
  qed (use n len in simp_all)
  then show ?thesis
    using len by (simp add: mdb_midl_search_def CMP_sign)
qed

lemma nth_id2l_elems: "id2l_fits ids \<Longrightarrow> p < unat (mid (ids ! 0)) \<Longrightarrow> id2l_elems ids ! p = ids ! (p + 1)"
  by (simp add: id2l_elems_def id2l_fits_def)

lemma length_id2l_elems: "id2l_fits ids \<Longrightarrow> length (id2l_elems ids) = unat (mid (ids ! 0))"
  by (auto simp: id2l_elems_def id2l_fits_def)

lemma id2l_search:
  assumes "id2l_fits ids" and "sorted_wrt (\<lambda>x y. mid x < mid y) (id2l_elems ids)" and "unat (mid (ids ! 0)) < 2 ^ 32 - 1"
  shows "\<exists>x. mdb_mid2l_search ids k = Some x \<and> 1 \<le> unat x \<and> unat x \<le> unat (mid (ids ! 0)) + 1
    \<and> (\<forall>p. 1 \<le> p \<and> p < unat x \<longrightarrow> mid (ids ! p) < k) \<and> (\<forall>p. unat x < p \<and> p \<le> unat (mid (ids ! 0)) \<longrightarrow> k < mid (ids ! p))
    \<and> (unat x \<le> unat (mid (ids ! 0)) \<longrightarrow> k \<le> mid (ids ! unat x))"
proof -
  let ?N = "unat (mid (ids ! 0))"
  have len: "?N < length ids" "ids \<noteq> []"
    using assms(1) by (simp_all add: id2l_fits_def)
  have mono: "mid (ids ! p) < mid (ids ! q)" if "1 \<le> p" "p < q" "q \<le> ?N" for p q
    using sorted_wrt_nth_less [OF assms(2), of "p - 1" "q - 1"] that
    by (simp add: nth_id2l_elems assms(1) length_id2l_elems)
  have n: "unat (ucast (mid (ids ! 0)) :: u32) = ?N"
    using assms(3) by (intro search_count) simp_all
  have "\<exists>x. mdb_mid2l_search_loop ids k 0 1 0 (ucast (mid (ids ! 0))) = Some x \<and> 1 \<le> unat x \<and> unat x \<le> ?N + 1
    \<and> (\<forall>p. 1 \<le> p \<and> p < unat x \<longrightarrow> 0 < CMP k (mid (ids ! p)))
    \<and> (\<forall>p. unat x < p \<and> p \<le> ?N \<longrightarrow> CMP k (mid (ids ! p)) < 0)
    \<and> (unat x \<le> ?N \<longrightarrow> CMP k (mid (ids ! unat x)) \<le> 0)"
  proof (rule id2l.loop_finds [OF assms(3)])
    fix p q
    assume "1 \<le> p" "p < q" "q \<le> ?N" "CMP k (mid (ids ! p)) \<le> 0"
    then show "CMP k (mid (ids ! q)) < 0"
      using mono [of p q] by (simp add: CMP_sign)
  qed (use n len in simp_all)
  then show ?thesis
    using len by (simp add: mdb_mid2l_search_def CMP_sign)
qed

section \<open>Insertion\<close>

lemma insert_loop_eq:
  "x \<le> i \<Longrightarrow> i < length ids \<Longrightarrow>
    mdb_mid2l_insert_loop x i ids = Some (take (Suc x) ids @ take (i - x) (drop x ids) @ drop (Suc i) ids)"
proof (induction "i - x" arbitrary: i ids)
  case 0
  then show ?case by (subst mdb_mid2l_insert_loop.simps) simp
next
  case (Suc m)
  let ?ids = "ids[i := ids ! (i - 1)]"
  have i: "x < i" "m = (i - 1) - x" using Suc by simp_all
  then have "mdb_mid2l_insert_loop x i ids = mdb_mid2l_insert_loop x (i - 1) ?ids"
    using Suc.prems by (subst mdb_mid2l_insert_loop.simps) simp
  also have "\<dots> = Some (take (Suc x) ?ids @ take (i - 1 - x) (drop x ?ids) @ drop (Suc (i - 1)) ?ids)"
    using Suc.prems i by (intro Suc.hyps(1)) simp_all
  also have "drop (Suc (i - 1)) ?ids = ids ! (i - 1) # drop (Suc i) ids"
    using Suc.prems i by (simp add: Cons_nth_drop_Suc [symmetric])
  also have "take (i - 1 - x) (drop x ?ids) = take (i - 1 - x) (drop x ids)"
    using i by (simp add: take_drop)
  also have "take (Suc x) ?ids = take (Suc x) ids"
    using i by simp
  also have "take (i - 1 - x) (drop x ids) @ ids ! (i - 1) # drop (Suc i) ids = take (i - x) (drop x ids) @ drop (Suc i) ids"
    using i Suc.prems take_Suc_conv_app_nth [of "i - 1 - x" "drop x ids"] by (simp add: Suc_diff_Suc)
  finally show ?case .
qed

lemma insort_key_between:
  "\<forall>y \<in> set a. f y < f z \<Longrightarrow> \<forall>y \<in> set b. f z \<le> f y \<Longrightarrow> insort_key f z (a @ b) = a @ z # b"
proof (induction a)
  case Nil
  then show ?case by (cases b) simp_all
qed auto

lemma id2l_shape:
  assumes "id2l_fits ids"
  shows "ids = ids ! 0 # id2l_elems ids @ drop (Suc (unat (mid (ids ! 0)))) ids"
  using assms by (cases ids) (simp_all add: id2l_elems_def id2l_fits_def)

lemma id2l_insert_at:
  assumes "id2l_fits ids" and "unat (mid (ids ! 0)) + 1 < length ids" and "unat (mid (ids ! 0)) < MDB_IDL_UM_MAX"
    and "1 \<le> x" and "x \<le> unat (mid (ids ! 0)) + 1" and "c = ids ! 0"
  shows "\<exists>ids'. do {
         ids \<leftarrow> wr ids 0 (c\<lparr>mid := mid c + 1\<rparr>);
         ids \<leftarrow> mdb_mid2l_insert_loop x (unat (ucast (mid c + 1) :: u32)) ids;
         ids \<leftarrow> wr ids x k;
         Some (0 :: int, ids)
       } = Some (0, ids') \<and> length ids' = length ids \<and> id2l_fits ids'
    \<and> id2l_elems ids' = take (x - 1) (id2l_elems ids) @ k # drop (x - 1) (id2l_elems ids)"
proof -
  let ?n = "unat (mid (ids ! 0))" and ?e = "id2l_elems ids" and ?c = "c\<lparr>mid := mid c + 1\<rparr>"
  let ?r = "drop (Suc ?n) ids" and ?ids = "ids[0 := c\<lparr>mid := mid c + 1\<rparr>]"
  have n1: "unat (mid c + 1) = ?n + 1"
    using assms(3,6) by (subst unat_add_small) (simp_all add: MDB_IDL_UM_MAX_def)
  have n2: "unat (ucast (mid c + 1) :: u32) = ?n + 1"
    using assms(3) by (intro search_count) (simp_all only: n1, simp add: MDB_IDL_UM_MAX_def)
  have e: "length ?e = ?n" "ids \<noteq> []"
    using assms(1) by (simp_all add: length_id2l_elems id2l_fits_def)
  have shape: "?ids = ?c # ?e @ ?r"
    using arg_cong [OF id2l_shape [OF assms(1)], of "\<lambda>l. l[0 := ?c]"] by simp
  obtain y where x: "x = Suc y" "y \<le> ?n"
    using assms(4,5) by (cases x) simp_all
  let ?out = "take (Suc x) ?ids @ take (?n + 1 - x) (drop x ?ids) @ drop (Suc (?n + 1)) ?ids"
  have loop: "mdb_mid2l_insert_loop x (?n + 1) ?ids = Some ?out"
    using assms(2,5) by (intro insert_loop_eq) simp_all
  have len: "length ?out = length ids"
    using assms(2,5) by simp
  have "?out[x := k] = take x ?ids @ k # take (?n + 1 - x) (drop x ?ids) @ drop (Suc (?n + 1)) ?ids"
    using assms(2,5) by (simp add: take_Suc_conv_app_nth list_update_append)
  also have "\<dots> = ?c # take y ?e @ k # drop y ?e @ drop 1 ?r"
    using x e by (simp add: shape del: list_update_code)
  finally have out: "?out[x := k] = ?c # take y ?e @ k # drop y ?e @ drop 1 ?r" .
  have "id2l_elems (?out[x := k]) = take y ?e @ k # drop y ?e"
    unfolding out using x e n1 by (simp add: id2l_elems_def Suc_diff_le)
  moreover have "id2l_fits (?out[x := k])"
  proof -
    have h: "?out[x := k] ! 0 = ?c"
      unfolding out by simp
    have l: "length (?out[x := k]) = length ids"
      by (simp only: length_list_update len)
    show ?thesis
      unfolding id2l_fits_def h length_greater_0_conv [symmetric] l using assms(2) n1 e(2) by simp
  qed
  ultimately show ?thesis
    using e len assms(2,5) x loop
    by (intro exI [of _ "?out[x := k]"]) (simp add: n2 del: list_update_code)
qed

lemma id2l_insert:
  assumes "id2l_fits ids" and "sorted_wrt (\<lambda>x y. mid x < mid y) (id2l_elems ids)"
    and "unat (mid (ids ! 0)) + 1 < length ids" and "unat (mid (ids ! 0)) < 2 ^ 32 - 1"
  shows "if mid k \<in> mid ` set (id2l_elems ids) then mdb_mid2l_insert ids k = Some (- 1, ids)
    else if MDB_IDL_UM_MAX \<le> unat (mid (ids ! 0)) then mdb_mid2l_insert ids k = Some (- 2, ids)
    else \<exists>ids'. mdb_mid2l_insert ids k = Some (0, ids') \<and> length ids' = length ids \<and> id2l_fits ids'
      \<and> id2l_elems ids' = insort_key mid k (id2l_elems ids)
      \<and> sorted_wrt (\<lambda>x y. mid x < mid y) (id2l_elems ids')"
proof -
  let ?n = "unat (mid (ids ! 0))" and ?e = "id2l_elems ids"
  obtain x where x: "mdb_mid2l_search ids (mid k) = Some x" "1 \<le> unat x" "unat x \<le> ?n + 1"
    "\<And>p. 1 \<le> p \<Longrightarrow> p < unat x \<Longrightarrow> mid (ids ! p) < mid k" "\<And>p. unat x < p \<Longrightarrow> p \<le> ?n \<Longrightarrow> mid k < mid (ids ! p)"
    "unat x \<le> ?n \<Longrightarrow> mid k \<le> mid (ids ! unat x)"
    using id2l_search [OF assms(1,2,4)] by metis
  have e: "length ?e = ?n" "\<And>i. i < ?n \<Longrightarrow> ?e ! i = ids ! (i + 1)"
    using assms(1) by (simp_all add: length_id2l_elems nth_id2l_elems)
  have le: "(ucast x \<le> mid (ids ! 0)) = (unat x \<le> ?n)"
    by (simp add: word_le_nat_alt unat_ucast_up)
  have x1: "\<not> x < 1"
    using x(2) by (simp add: word_less_nat_alt)
  have dup: "mid k \<in> mid ` set ?e \<longleftrightarrow> unat x \<le> ?n \<and> mid (ids ! unat x) = mid k"
  proof
    assume "mid k \<in> mid ` set ?e"
    then obtain i where i: "i < ?n" "mid (ids ! (i + 1)) = mid k"
      using e by (force simp: in_set_conv_nth)
    then have "unat x = i + 1"
      using x(4) [of "i + 1"] x(5) [of "i + 1"] by (cases "i + 1" "unat x" rule: linorder_cases) simp_all
    then show "unat x \<le> ?n \<and> mid (ids ! unat x) = mid k"
      using i by simp
  next
    assume "unat x \<le> ?n \<and> mid (ids ! unat x) = mid k"
    moreover from this have "unat x - 1 < ?n"
      using x(2) by linarith
    ultimately have "unat x - 1 < length ?e" "mid (?e ! (unat x - 1)) = mid k"
      using x(2) e(1) e(2) [of "unat x - 1"] by simp_all
    then show "mid k \<in> mid ` set ?e"
      by (metis imageI nth_mem)
  qed
  have full: "(word_of_nat MDB_IDL_UM_MAX \<le> mid (ids ! 0)) = (MDB_IDL_UM_MAX \<le> ?n)"
    by (simp add: word_le_nat_alt MDB_IDL_UM_MAX_def)
  have rd0: "rd ids 0 = Some (ids ! 0)" and rdx: "unat x \<le> ?n \<Longrightarrow> rd ids (unat x) = Some (ids ! unat x)"
    using assms(1,3) by (auto simp: id2l_fits_def)
  have code: "mdb_mid2l_insert ids k = (if unat x \<le> ?n \<and> mid (ids ! unat x) = mid k then Some (- 1, ids)
      else if MDB_IDL_UM_MAX \<le> ?n then Some (- 2, ids)
      else do {
         ids' \<leftarrow> wr ids 0 ((ids ! 0)\<lparr>mid := mid (ids ! 0) + 1\<rparr>);
         ids' \<leftarrow> mdb_mid2l_insert_loop (unat x) (unat (ucast (mid (ids ! 0) + 1) :: u32)) ids';
         ids' \<leftarrow> wr ids' (unat x) k;
         Some (0, ids')
       })"
    unfolding mdb_mid2l_insert_def x(1) bind.bind_lunit rd0
    using x1 rdx by (simp only: le full if_False) auto
  show ?thesis
  proof (cases "mid k \<in> mid ` set ?e \<or> MDB_IDL_UM_MAX \<le> ?n")
    case True
    then show ?thesis by (auto simp: code dup)
  next
    case False
    have below: "\<forall>y \<in> set (take (unat x - 1) ?e). mid y < mid k"
      using x(2-4) e by (auto simp: in_set_conv_nth)
    have above: "\<forall>y \<in> set (drop (unat x - 1) ?e). mid k < mid y"
    proof
      fix y assume "y \<in> set (drop (unat x - 1) ?e)"
      then obtain i where "i < length (drop (unat x - 1) ?e)" "y = drop (unat x - 1) ?e ! i"
        by (auto simp only: in_set_conv_nth)
      then have i: "unat x - 1 + i < ?n" "y = ?e ! (unat x - 1 + i)" "y = ids ! (unat x + i)"
        using e x(2,3) by (simp_all add: e(2))
      then have "mid y \<noteq> mid k"
        using False nth_mem [of "unat x - 1 + i" ?e] e(1) by (metis imageI)
      then show "mid k < mid y"
        using x(2,3) x(5) [of "unat x + i"] x(6) i by (cases i) force+
    qed
    have ins: "insort_key mid k ?e = take (unat x - 1) ?e @ k # drop (unat x - 1) ?e"
      using insort_key_between [of "take (unat x - 1) ?e" mid k "drop (unat x - 1) ?e"] below above by force
    have "sorted_wrt (\<lambda>x y. mid x < mid y) (take (unat x - 1) ?e @ k # drop (unat x - 1) ?e)"
      using below above assms(2) sorted_wrt_append [of "\<lambda>x y. mid x < mid y" "take (unat x - 1) ?e" "drop (unat x - 1) ?e"]
      by (auto simp: sorted_wrt_append)
    moreover have "?n < MDB_IDL_UM_MAX"
      using False by simp
    from id2l_insert_at [OF assms(1,3) this x(2,3) refl, of k] obtain ids' where r: "do {
         ids' \<leftarrow> wr ids 0 ((ids ! 0)\<lparr>mid := mid (ids ! 0) + 1\<rparr>);
         ids' \<leftarrow> mdb_mid2l_insert_loop (unat x) (unat (ucast (mid (ids ! 0) + 1) :: u32)) ids';
         ids' \<leftarrow> wr ids' (unat x) k;
         Some (0 :: int, ids')
       } = Some (0, ids')" "length ids' = length ids" "id2l_fits ids'"
      "id2l_elems ids' = take (unat x - 1) ?e @ k # drop (unat x - 1) ?e"
      by blast
    moreover have "mdb_mid2l_insert ids k = Some (0, ids')"
    proof -
      have "\<not> (unat x \<le> ?n \<and> mid (ids ! unat x) = mid k)" "\<not> MDB_IDL_UM_MAX \<le> ?n"
        using False dup by blast+
      then show ?thesis
        by (simp only: code r(1) if_False)
    qed
    ultimately show ?thesis
      using False by (simp only: ins) simp
  qed
qed

section \<open>Properties\<close>

text \<open>C34. \<open>mdb_midl_search\<close> on a list in strictly descending order stays inside the list and returns the first
  position whose ID is at most \<open>k\<close>, or one past the end; the ID is in the list exactly when it is found
  at that position, the test that \<open>mdb.c\<close> makes.\<close>

theorem midl_search_correct:
  assumes "idl_fits ids" and "sorted_wrt (>) (idl_elems ids)" and "unat (ids ! 0) < 2 ^ 32 - 1"
  shows "\<exists>x. mdb_midl_search ids k = Some x \<and> 1 \<le> unat x \<and> unat x \<le> unat (ids ! 0) + 1
    \<and> (\<forall>p. 1 \<le> p \<and> p < unat x \<longrightarrow> k < ids ! p) \<and> (unat x \<le> unat (ids ! 0) \<longrightarrow> ids ! unat x \<le> k)
    \<and> (k \<in> set (idl_elems ids) \<longleftrightarrow> unat x \<le> unat (ids ! 0) \<and> ids ! unat x = k)"
proof -
  obtain x where x: "mdb_midl_search ids k = Some x" "1 \<le> unat x" "unat x \<le> unat (ids ! 0) + 1"
    "\<And>p. 1 \<le> p \<Longrightarrow> p < unat x \<Longrightarrow> k < ids ! p" "\<And>p. unat x < p \<Longrightarrow> p \<le> unat (ids ! 0) \<Longrightarrow> ids ! p < k"
    "unat x \<le> unat (ids ! 0) \<Longrightarrow> ids ! unat x \<le> k"
    using idl_search [OF assms] by metis
  have "k \<in> set (idl_elems ids) \<longleftrightarrow> unat x \<le> unat (ids ! 0) \<and> ids ! unat x = k"
    unfolding in_idl_elems [OF assms(1)] using x(2,4,5) by (metis linorder_neqE_nat less_irrefl)
  then show ?thesis
    using x by blast
qed

theorem midl_search_correct_witness:
  "mdb_midl_search [4, 9, 7, 5, 2] 6 = Some 3 \<and> mdb_midl_search [4, 9, 7, 5, 2] 7 = Some 2
    \<and> (\<exists>x. mdb_midl_search [4, 9, 7, 5, 2] 7 = Some x \<and> (7 \<in> set (idl_elems [4, 9, 7, 5, 2])
      \<longleftrightarrow> unat x \<le> 4 \<and> [4, 9, 7, 5, 2] ! unat x = (7 :: u64)))"
proof -
  have "mdb_midl_search [4, 9, 7, 5, 2] 6 = Some 3" "mdb_midl_search [4, 9, 7, 5, 2] 7 = Some 2"
    by code_simp+
  then show ?thesis
    using midl_search_correct [of "[4, 9, 7, 5, 2]" 7] by (simp add: idl_fits_def idl_elems_def)
qed

text \<open>C35. \<open>mdb_mid2l_insert\<close> on a list of pairs in ascending order, with room for one more: a duplicate is
  refused with -1 and a full list with -2, both leaving the list alone; otherwise the pair is inserted at its
  place, the list stays ordered and keeps every other pair, and no access is outside the array.\<close>

theorem mid2l_insert_correct:
  assumes "id2l_fits ids" and "sorted_wrt (\<lambda>x y. mid x < mid y) (id2l_elems ids)"
    and "unat (mid (ids ! 0)) + 1 < length ids" and "unat (mid (ids ! 0)) < 2 ^ 32 - 1"
  shows "if mid k \<in> mid ` set (id2l_elems ids) then mdb_mid2l_insert ids k = Some (- 1, ids)
    else if MDB_IDL_UM_MAX \<le> unat (mid (ids ! 0)) then mdb_mid2l_insert ids k = Some (- 2, ids)
    else \<exists>ids'. mdb_mid2l_insert ids k = Some (0, ids') \<and> length ids' = length ids \<and> id2l_fits ids'
      \<and> id2l_elems ids' = insort_key mid k (id2l_elems ids)
      \<and> sorted_wrt (\<lambda>x y. mid x < mid y) (id2l_elems ids')"
  by (rule id2l_insert [OF assms])

theorem mid2l_insert_correct_witness:
  "\<exists>ids'. mdb_mid2l_insert [\<lparr>mid = 2, mptr = 0\<rparr>, \<lparr>mid = 3, mptr = 1\<rparr>, \<lparr>mid = 8, mptr = 2\<rparr>, \<lparr>mid = 0, mptr = 0\<rparr>]
      \<lparr>mid = 5, mptr = 9\<rparr> = Some (0, ids')
    \<and> id2l_elems ids' = [\<lparr>mid = 3, mptr = 1\<rparr>, \<lparr>mid = 5, mptr = 9\<rparr>, \<lparr>mid = 8, mptr = 2\<rparr>]"
  using mid2l_insert_correct [of "[\<lparr>mid = 2, mptr = 0\<rparr>, \<lparr>mid = 3, mptr = 1\<rparr>, \<lparr>mid = 8, mptr = 2\<rparr>, \<lparr>mid = 0, mptr = 0\<rparr>]"
      "\<lparr>mid = 5, mptr = 9\<rparr>"]
  by (auto simp: id2l_fits_def id2l_elems_def MDB_IDL_UM_MAX_def split: if_splits)

end
