(* ===== verification/Midl_Alloc.thy ===== *)
theory Midl_Alloc
  imports Midl
begin

text \<open>
  Allocated ID lists (\<^verbatim>\<open>midl.c\<close>).  The model of \<^verbatim>\<open>MDB_IDL *idp\<close> is the block that was allocated: word 0
  is the capacity (\<^verbatim>\<open>ids[-1]\<close>), word 1 the count (\<^verbatim>\<open>ids[0]\<close>), the elements follow.  The allocator is an
  argument: \<open>None\<close> fails, \<open>Some junk\<close> returns memory whose new words are \<open>junk\<close>; a size is a number of
  bytes, at most one word of 64 bits as in C.
\<close>

section \<open>The code\<close>

definition ENOMEM :: int where
  "ENOMEM = 12"

definition c_realloc :: "u64 option \<Rightarrow> u64 list \<Rightarrow> u64 \<Rightarrow> u64 list option" where
  "c_realloc m p size' = (case m of
       None \<Rightarrow> None
     | Some junk \<Rightarrow> let n = unat size' div 8 in Some (take n p @ replicate (n - length p) junk))"

definition c_memcpy :: "u64 list \<Rightarrow> nat \<Rightarrow> u64 list \<Rightarrow> nat \<Rightarrow> u64 \<Rightarrow> u64 list option" where
  "c_memcpy dst off src soff size' =
     (let n = unat size' div 8
      in if off + n \<le> length dst \<and> soff + n \<le> length src then Some (blit dst off (take n (drop soff src))) else None)"

text \<open>\<^verbatim>\<open>mdb_midl_alloc\<close>: the inner \<open>None\<close> is the null pointer.\<close>

definition mdb_midl_alloc :: "u64 option \<Rightarrow> u32 \<Rightarrow> u64 list option option" where
  "mdb_midl_alloc m num = (case c_realloc m [] (scast (num + 2) * 8) of
       None \<Rightarrow> Some None
     | Some ids \<Rightarrow> do {
         ids \<leftarrow> wr ids 0 (scast num);
         ids \<leftarrow> wr ids 1 0;
         Some (Some ids)
       })"

definition mdb_midl_shrink :: "u64 option \<Rightarrow> u64 list \<Rightarrow> u64 list option" where
  "mdb_midl_shrink m ids = do {
     alloclen \<leftarrow> rd ids 0;
     if alloclen > word_of_nat MDB_IDL_UM_MAX
     then (case c_realloc m ids (word_of_nat (MDB_IDL_UM_MAX + 2) * 8) of
         None \<Rightarrow> Some ids
       | Some ids \<Rightarrow> wr ids 0 (word_of_nat MDB_IDL_UM_MAX))
     else Some ids
   }"

definition mdb_midl_grow :: "u64 option \<Rightarrow> u64 list \<Rightarrow> u32 \<Rightarrow> (int \<times> u64 list) option" where
  "mdb_midl_grow m ids num = do {
     alloclen \<leftarrow> rd ids 0;
     (case c_realloc m ids ((alloclen + scast num + 2) * 8) of
         None \<Rightarrow> Some (ENOMEM, ids)
       | Some idn \<Rightarrow> do {
           a \<leftarrow> rd idn 0;
           idn \<leftarrow> wr idn 0 (a + scast num);
           Some (0, idn)
         })
   }"

definition mdb_midl_need :: "u64 option \<Rightarrow> u64 list \<Rightarrow> u32 \<Rightarrow> (int \<times> u64 list) option" where
  "mdb_midl_need m ids num = do {
     ids0 \<leftarrow> rd ids 1;
     let num = num + ucast ids0;
     alloclen \<leftarrow> rd ids 0;
     if ucast num > alloclen then
       let num = (num + num div 4 + (256 + 2)) AND - 256
       in (case c_realloc m ids (ucast num * 8) of
           None \<Rightarrow> Some (ENOMEM, ids)
         | Some ids \<Rightarrow> do {
             ids \<leftarrow> wr ids 0 (ucast (num - 2));
             Some (0, ids)
           })
     else Some (0, ids)
   }"

definition mdb_midl_append :: "u64 option \<Rightarrow> u64 list \<Rightarrow> u64 \<Rightarrow> (int \<times> u64 list) option" where
  "mdb_midl_append m ids id' = do {
     ids0 \<leftarrow> rd ids 1;
     alloclen \<leftarrow> rd ids 0;
     (rc, ids) \<leftarrow> (if ids0 \<ge> alloclen then mdb_midl_grow m ids (word_of_nat MDB_IDL_UM_MAX) else Some (0, ids));
     if rc \<noteq> 0 then Some (ENOMEM, ids)
     else do {
       ids0 \<leftarrow> rd ids 1;
       ids \<leftarrow> wr ids 1 (ids0 + 1);
       ids \<leftarrow> wr ids (1 + unat (ids0 + 1)) id';
       Some (0, ids)
     }
   }"

definition mdb_midl_append_list :: "u64 option \<Rightarrow> u64 list \<Rightarrow> u64 list \<Rightarrow> (int \<times> u64 list) option" where
  "mdb_midl_append_list m ids app = do {
     ids0 \<leftarrow> rd ids 1;
     app0 \<leftarrow> rd app 0;
     alloclen \<leftarrow> rd ids 0;
     (rc, ids) \<leftarrow> (if ids0 + app0 \<ge> alloclen then mdb_midl_grow m ids (ucast app0) else Some (0, ids));
     if rc \<noteq> 0 then Some (ENOMEM, ids)
     else do {
       ids0 \<leftarrow> rd ids 1;
       ids \<leftarrow> c_memcpy ids (1 + unat (ids0 + 1)) app 1 (app0 * 8);
       ids \<leftarrow> wr ids 1 (ids0 + app0);
       Some (0, ids)
     }
   }"

text \<open>The macro \<^verbatim>\<open>mdb_midl_xappend\<close>, which relies on room made before.\<close>

definition mdb_midl_xappend :: "u64 list \<Rightarrow> u64 \<Rightarrow> u64 list option" where
  "mdb_midl_xappend idl id' = do {
     c \<leftarrow> rd idl 1;
     let xlen = c + 1;
     idl \<leftarrow> wr idl 1 xlen;
     wr idl (1 + unat xlen) id'
   }"

text \<open>\<^verbatim>\<open>ids += len; while (n) ids[n--] = id++;\<close> with \<open>base\<close> the place of \<^verbatim>\<open>ids[len]\<close>.\<close>

fun mdb_midl_append_range_loop :: "nat \<Rightarrow> nat \<Rightarrow> u64 \<Rightarrow> u64 list \<Rightarrow> u64 list option" where
  "mdb_midl_append_range_loop base n id' ids =
     (if n \<noteq> 0 then do {
        ids \<leftarrow> wr ids (base + n) id';
        mdb_midl_append_range_loop base (n - 1) (id' + 1) ids
      } else Some ids)"

declare mdb_midl_append_range_loop.simps [simp del]

definition mdb_midl_append_range :: "u64 option \<Rightarrow> u64 list \<Rightarrow> u64 \<Rightarrow> u32 \<Rightarrow> (int \<times> u64 list) option" where
  "mdb_midl_append_range m ids id' n = do {
     len \<leftarrow> rd ids 1;
     alloclen \<leftarrow> rd ids 0;
     (rc, ids) \<leftarrow> (if len + ucast n > alloclen then mdb_midl_grow m ids (n OR word_of_nat MDB_IDL_UM_MAX)
                   else Some (0, ids));
     if rc \<noteq> 0 then Some (ENOMEM, ids)
     else do {
       ids \<leftarrow> wr ids 1 (len + ucast n);
       ids \<leftarrow> mdb_midl_append_range_loop (1 + unat len) (unat n) id' ids;
       Some (0, ids)
     }
   }"

section \<open>Well-formed blocks\<close>

text \<open>The block has room for its capacity, and its count is at most the capacity.\<close>

definition idl_cap :: "u64 list \<Rightarrow> nat" where
  "idl_cap b = unat (b ! 0)"

definition idl_count :: "u64 list \<Rightarrow> nat" where
  "idl_count b = unat (b ! 1)"

definition idl_block :: "u64 list \<Rightarrow> bool" where
  "idl_block b = (length b = idl_cap b + 2 \<and> idl_count b \<le> idl_cap b)"

definition idl_ids :: "u64 list \<Rightarrow> u64 list" where
  "idl_ids b = take (idl_count b) (drop 2 b)"

text \<open>The largest capacity for which the sizes in bytes are below 2^64.\<close>

definition IDL_LIMIT :: nat where
  "IDL_LIMIT = 2 ^ 60"

lemma block_shape:
  "idl_block b \<Longrightarrow> b = b ! 0 # b ! 1 # idl_ids b @ drop (2 + idl_count b) b \<and> length (idl_ids b) = idl_count b
    \<and> length (drop (2 + idl_count b) b) = idl_cap b - idl_count b"
proof -
  assume b: "idl_block b"
  then obtain x y r where "b = x # y # r"
    by (cases b rule: remdups_adj.cases) (auto simp: idl_block_def)
  then show ?thesis
    using b by (auto simp: idl_block_def idl_ids_def idl_cap_def idl_count_def)
qed

lemma idl_block_eq:
  assumes "length e = unat n" and "unat c = length e + length r"
  shows "idl_block (c # n # e @ r) \<and> idl_ids (c # n # e @ r) = e \<and> idl_count (c # n # e @ r) = length e
    \<and> idl_cap (c # n # e @ r) = unat c"
  using assms by (simp add: idl_block_def idl_ids_def idl_cap_def idl_count_def)

lemma UM_MAX_word: "unat (word_of_nat MDB_IDL_UM_MAX :: u32) = MDB_IDL_UM_MAX"
  "unat (word_of_nat MDB_IDL_UM_MAX :: u64) = MDB_IDL_UM_MAX"
  by (simp_all add: MDB_IDL_UM_MAX_def unat_of_nat)

lemma scast_nonneg:
  fixes n :: u32
  assumes "unat n < 2 ^ 31"
  shows "unat (scast n :: u64) = unat n"
proof -
  define k where "k = unat n"
  have n: "n = word_of_nat k"
    by (simp add: k_def)
  have k: "k < 2 ^ 31"
    using assms by (simp add: k_def)
  have "(scast n :: u64) = word_of_int (signed_take_bit 31 (int k))"
    unfolding n by (subst signed_of_nat) simp
  also have "\<dots> = word_of_nat k"
    using k by (subst signed_take_bit_int_eq_self) simp_all
  finally show ?thesis
    using k by (simp add: unat_of_nat flip: k_def)
qed

lemma c_realloc_extend:
  "unat sz = (length p + n) * 8 \<Longrightarrow> c_realloc (Some junk) p sz = Some (p @ replicate n junk)"
  by (simp add: c_realloc_def)

lemma c_realloc_shorten:
  "unat sz = n * 8 \<Longrightarrow> n \<le> length p \<Longrightarrow> c_realloc (Some junk) p sz = Some (take n p)"
  by (simp add: c_realloc_def)

lemma c_realloc_fails: "c_realloc None p sz = None"
  by (simp add: c_realloc_def)

lemma grow_eq:
  assumes "idl_block b" and "unat n < 2 ^ 31" and "idl_cap b < IDL_LIMIT"
  shows "mdb_midl_grow None b n = Some (ENOMEM, b)"
    "\<exists>b'. mdb_midl_grow (Some junk) b n = Some (0, b') \<and> idl_block b' \<and> idl_cap b' = idl_cap b + unat n
      \<and> idl_count b' = idl_count b \<and> idl_ids b' = idl_ids b"
proof -
  define c k e r where "c = b ! 0" "k = b ! 1" "e = idl_ids b" "r = drop (2 + idl_count b) b"
  have b: "b = c # k # e @ r" "length e = unat k" "unat c = length e + length r"
    using block_shape [OF assms(1)] assms(1) by (simp_all add: c_k_e_r_def idl_count_def idl_cap_def idl_block_def)
  have lim: "unat c < 2 ^ 60"
    using assms(3) by (simp add: IDL_LIMIT_def idl_cap_def b(1))
  have cn: "unat (c + scast n) = unat c + unat n"
    using lim assms(2) by (subst unat_add_small) (simp_all add: scast_nonneg)
  then have sz: "unat ((c + scast n + 2) * 8) = (unat c + unat n + 2) * 8"
    using lim assms(2) by (subst unat_mult_small; (subst unat_add_small)?) simp_all
  show "mdb_midl_grow None b n = Some (ENOMEM, b)"
    by (simp add: mdb_midl_grow_def c_realloc_def b(1))
  let ?r = "r @ replicate (unat n) junk"
  have "mdb_midl_grow (Some junk) b n = Some (0, (c + scast n) # k # e @ ?r)"
  proof -
    have "c_realloc (Some junk) b ((c + scast n + 2) * 8) = Some (b @ replicate (unat n) junk)"
      using b(2,3) by (intro c_realloc_extend) (simp only: sz, simp add: b(1))
    moreover have "rd b 0 = Some c"
      by (simp add: b(1))
    ultimately show ?thesis
      by (simp add: mdb_midl_grow_def del: distrib_right_numeral) (simp add: b(1))
  qed
  moreover have "idl_block ((c + scast n) # k # e @ ?r) \<and> idl_ids ((c + scast n) # k # e @ ?r) = e
      \<and> idl_count ((c + scast n) # k # e @ ?r) = length e \<and> idl_cap ((c + scast n) # k # e @ ?r) = unat (c + scast n)"
    using b(2,3) cn by (intro idl_block_eq) simp_all
  ultimately show "\<exists>b'. mdb_midl_grow (Some junk) b n = Some (0, b') \<and> idl_block b' \<and> idl_cap b' = idl_cap b + unat n
      \<and> idl_count b' = idl_count b \<and> idl_ids b' = idl_ids b"
    using cn b idl_block_eq [OF b(2,3)] by (intro exI [of _ "(c + scast n) # k # e @ ?r"]) simp
qed

section \<open>Appending\<close>

lemma xappend_eq:
  assumes "idl_block b" and "idl_count b < idl_cap b"
  shows "\<exists>b'. mdb_midl_xappend b x = Some b' \<and> idl_block b' \<and> idl_cap b' = idl_cap b
    \<and> idl_count b' = idl_count b + 1 \<and> idl_ids b' = idl_ids b @ [x]"
proof -
  define c k e r where "c = b ! 0" "k = b ! 1" "e = idl_ids b" "r = drop (2 + idl_count b) b"
  have b: "b = c # k # e @ r" "length e = unat k" "unat c = length e + length r"
    using block_shape [OF assms(1)] assms(1) by (simp_all add: c_k_e_r_def idl_count_def idl_cap_def idl_block_def)
  have "r \<noteq> []"
    using assms(2) b by (auto simp: idl_count_def idl_cap_def)
  then obtain y r' where r: "r = y # r'" by (cases r) simp_all
  have k: "unat (k + 1) = unat k + 1"
    using b(2,3) unat_lt_word [of c] by (subst unat_add_small) (simp_all add: r)
  have "mdb_midl_xappend b x = Some (c # (k + 1) # (e @ [x]) @ r')"
    using b(2) k by (simp add: mdb_midl_xappend_def b(1) r list_update_append)
  moreover have "idl_block (c # (k + 1) # (e @ [x]) @ r') \<and> idl_ids (c # (k + 1) # (e @ [x]) @ r') = e @ [x]
      \<and> idl_count (c # (k + 1) # (e @ [x]) @ r') = length (e @ [x]) \<and> idl_cap (c # (k + 1) # (e @ [x]) @ r') = unat c"
    using b(2,3) k by (intro idl_block_eq) (simp_all add: r)
  ultimately show ?thesis
    using b idl_block_eq [OF b(2,3)] by (intro exI [of _ "c # (k + 1) # (e @ [x]) @ r'"]) simp
qed

lemma append_code:
  assumes "rd b 1 = Some k" and "rd b 0 = Some c"
    and "(if k \<ge> c then mdb_midl_grow m b (word_of_nat MDB_IDL_UM_MAX) else Some (0, b)) = Some (rc, b')"
  shows "mdb_midl_append m b x = (if rc \<noteq> 0 then Some (ENOMEM, b') else map_option (Pair 0) (mdb_midl_xappend b' x))"
  unfolding mdb_midl_append_def assms(1,2) bind.bind_lunit assms(3) split_conv
  by (simp add: mdb_midl_xappend_def map_conv_bind_option comp_def Let_def)

lemma block_reads: "idl_block b \<Longrightarrow> rd b 0 = Some (b ! 0)" "idl_block b \<Longrightarrow> rd b 1 = Some (b ! 1)"
  by (simp_all add: idl_block_def)

lemma full_word: "(b ! 1 \<ge> b ! 0) = (idl_cap b \<le> idl_count b)" "(b ! Suc 0 \<ge> b ! 0) = (idl_cap b \<le> idl_count b)"
  by (simp_all add: idl_cap_def idl_count_def word_le_nat_alt)

lemma append_eq:
  assumes "idl_block b" and "idl_cap b < IDL_LIMIT"
  shows "\<exists>b'. mdb_midl_append (Some junk) b x = Some (0, b') \<and> idl_block b' \<and> idl_ids b' = idl_ids b @ [x]
      \<and> idl_cap b' \<le> idl_cap b + MDB_IDL_UM_MAX"
    "mdb_midl_append None b x = (if idl_count b = idl_cap b then Some (ENOMEM, b) else mdb_midl_append (Some junk) b x)"
proof -
  have lt: "unat (word_of_nat MDB_IDL_UM_MAX :: u32) < 2 ^ 31"
    by (simp add: UM_MAX_word(1)) (simp add: MDB_IDL_UM_MAX_def)
  obtain b1 where b1: "(if b ! 1 \<ge> b ! 0 then mdb_midl_grow (Some junk) b (word_of_nat MDB_IDL_UM_MAX) else Some (0, b)) = Some (0, b1)"
    "idl_block b1" "idl_count b1 < idl_cap b1" "idl_ids b1 = idl_ids b" "idl_cap b1 \<le> idl_cap b + MDB_IDL_UM_MAX"
  proof (cases "idl_cap b \<le> idl_count b")
    case True
    obtain b1 where b1: "mdb_midl_grow (Some junk) b (word_of_nat MDB_IDL_UM_MAX) = Some (0, b1)" "idl_block b1"
      "idl_cap b1 = idl_cap b + MDB_IDL_UM_MAX" "idl_count b1 = idl_count b" "idl_ids b1 = idl_ids b"
      using grow_eq(2) [OF assms(1) lt assms(2), of junk] by (auto simp: UM_MAX_word)
    moreover have "idl_count b1 < idl_cap b1"
      using b1(3,4) assms(1) by (simp add: idl_block_def MDB_IDL_UM_MAX_def)
    ultimately show thesis
      using True by (intro that [of b1]) (simp_all add: full_word)
  qed (use assms that [of b] in \<open>simp add: full_word\<close>)
  note some = append_code [OF block_reads(2,1) b1(1), OF assms(1,1), of x]
  show 1: "\<exists>b'. mdb_midl_append (Some junk) b x = Some (0, b') \<and> idl_block b' \<and> idl_ids b' = idl_ids b @ [x]
      \<and> idl_cap b' \<le> idl_cap b + MDB_IDL_UM_MAX"
    using xappend_eq [OF b1(2,3), of x] b1(4,5) by (auto simp: some)
  have eq: "idl_cap b \<le> idl_count b \<longleftrightarrow> idl_count b = idl_cap b"
    using assms(1) by (auto simp: idl_block_def)
  show "mdb_midl_append None b x = (if idl_count b = idl_cap b then Some (ENOMEM, b) else mdb_midl_append (Some junk) b x)"
  proof (cases "idl_cap b \<le> idl_count b")
    case True
    have g: "(if b ! 1 \<ge> b ! 0 then mdb_midl_grow None b (word_of_nat MDB_IDL_UM_MAX) else Some (0, b)) = Some (ENOMEM, b)"
      using grow_eq(1) [OF assms(1) lt assms(2)] True by (simp add: full_word)
    show ?thesis
      using append_code [OF block_reads(2,1) g, OF assms(1,1), of x] True eq by (simp add: ENOMEM_def)
  next
    case False
    then have g: "(if b ! 1 \<ge> b ! 0 then mdb_midl_grow m b (word_of_nat MDB_IDL_UM_MAX) else Some (0, b)) = Some (0, b)" for m
      by (simp add: full_word)
    show ?thesis
      using append_code [OF block_reads(2,1) g, OF assms(1,1), of _ x] False eq by simp
  qed
qed

text \<open>A block as capacity, count, elements and spare room.\<close>

lemma block_cases:
  assumes "idl_block b"
  obtains c k r where "b = c # k # idl_ids b @ r" "length (idl_ids b) = unat k" "unat c = unat k + length r"
    "idl_count b = unat k" "idl_cap b = unat c"
  using block_shape [OF assms] assms
  by (intro that [of "b ! 0" "b ! 1" "drop (2 + idl_count b) b"]) (simp_all add: idl_count_def idl_cap_def idl_block_def)

lemma count_add:
  assumes "idl_block b" and "unat (n :: u64) < 2 ^ 32" and "idl_cap b < IDL_LIMIT"
  shows "unat (b ! 1 + n) = idl_count b + unat n"
proof -
  have "unat (b ! 1) < 2 ^ 60"
    using assms(1,3) by (simp add: idl_block_def IDL_LIMIT_def idl_count_def)
  then show ?thesis
    using assms(2) by (subst unat_add_small) (simp_all add: idl_count_def)
qed

lemma append_list_eq:
  assumes "idl_block b" and "idl_cap b < IDL_LIMIT" and "idl_fits app" and "unat (app ! 0) < 2 ^ 31"
  shows "\<exists>b'. mdb_midl_append_list (Some junk) b app = Some (0, b') \<and> idl_block b' \<and> idl_ids b' = idl_ids b @ idl_elems app"
    "mdb_midl_append_list None b app = (if idl_cap b \<le> idl_count b + unat (app ! 0) then Some (ENOMEM, b)
      else mdb_midl_append_list (Some junk) b app)"
proof -
  let ?n = "unat (app ! 0)"
  have n: "unat (ucast (app ! 0) :: u32) = ?n"
    using assms(4) by (intro search_count) simp_all
  have full: "(b ! 1 + app ! 0 \<ge> b ! 0) = (idl_cap b \<le> idl_count b + ?n)"
    using count_add [OF assms(1) _ assms(2), of "app ! 0"] assms(4) by (simp add: word_le_nat_alt idl_cap_def)
  have app: "rd app 0 = Some (app ! 0)" "?n < length app"
    using assms(3) by (simp_all add: idl_fits_def)
  have code: "mdb_midl_append_list m b app = (if rc \<noteq> 0 then Some (ENOMEM, b') else do {
       ids0 \<leftarrow> rd b' 1;
       ids \<leftarrow> c_memcpy b' (1 + unat (ids0 + 1)) app 1 (app ! 0 * 8);
       ids \<leftarrow> wr ids 1 (ids0 + app ! 0);
       Some (0, ids)
     })" if "(if b ! 1 + app ! 0 \<ge> b ! 0 then mdb_midl_grow m b (ucast (app ! 0)) else Some (0, b)) = Some (rc, b')" for m rc b'
    unfolding mdb_midl_append_list_def block_reads [OF assms(1)] app(1) bind.bind_lunit that split_conv ..
  obtain b1 where b1: "(if b ! 1 + app ! 0 \<ge> b ! 0 then mdb_midl_grow (Some junk) b (ucast (app ! 0)) else Some (0, b)) = Some (0, b1)"
    "idl_block b1" "idl_count b1 + ?n \<le> idl_cap b1" "idl_ids b1 = idl_ids b" "idl_cap b1 < 2 ^ 61"
  proof (cases "idl_cap b \<le> idl_count b + ?n")
    case True
    obtain b1 where b1: "mdb_midl_grow (Some junk) b (ucast (app ! 0)) = Some (0, b1)" "idl_block b1"
      "idl_cap b1 = idl_cap b + ?n" "idl_count b1 = idl_count b" "idl_ids b1 = idl_ids b"
      using grow_eq(2) [OF assms(1) _ assms(2), of "ucast (app ! 0)" junk] assms(4) by (auto simp: n)
    moreover have "idl_count b1 + ?n \<le> idl_cap b1" "idl_cap b1 < 2 ^ 61"
      using b1(3,4) assms(1,2,4) by (simp_all add: idl_block_def IDL_LIMIT_def)
    ultimately show thesis
      using True by (intro that [of b1]) (simp_all only: full if_True)
  next
    case False
    then show thesis
      using assms(1,2) by (intro that [of b]) (simp_all only: full if_False, simp_all add: IDL_LIMIT_def)
  qed
  from b1(2) obtain c k r where r: "b1 = c # k # idl_ids b1 @ r" "length (idl_ids b1) = unat k" "unat c = unat k + length r"
    "idl_count b1 = unat k" "idl_cap b1 = unat c"
    by (rule block_cases)
  let ?e = "idl_elems app"
  have e: "length ?e = ?n" "take ?n (drop 1 app) = ?e"
    using length_idl_elems [OF assms(3)] by (simp_all add: idl_elems_def)
  have c: "unat c < 2 ^ 61" "unat k + ?n \<le> unat c"
    using b1(3,5) r(4,5) by simp_all
  have w: "unat (k + 1) = unat k + 1" "unat (k + app ! 0) = unat k + ?n" "unat (app ! 0 * 8) = ?n * 8"
    using c assms(4) by (simp_all add: unat_add_small unat_mult_small)
  let ?b = "c # (k + app ! 0) # (idl_ids b1 @ ?e) @ drop ?n r"
  have "c_memcpy b1 (1 + unat (k + 1)) app 1 (app ! 0 * 8) = Some (c # k # (idl_ids b1 @ ?e) @ drop ?n r)"
  proof -
    have "blit b1 (1 + unat (k + 1)) ?e = c # k # (idl_ids b1 @ ?e) @ drop ?n r"
      using arg_cong [OF r(1), of "\<lambda>b. blit b (1 + unat (k + 1)) ?e"] r(2) w(1) e(1) by (simp add: blit_def)
    moreover have "length b1 = unat c + 2"
      using b1(2) r(5) by (simp add: idl_block_def)
    ultimately show ?thesis
      using c app(2) e w unfolding c_memcpy_def Let_def by simp
  qed
  moreover have "rd b1 1 = Some k"
    using arg_cong [OF r(1), of "\<lambda>b. rd b 1"] by simp
  ultimately have "mdb_midl_append_list (Some junk) b app = Some (0, ?b)"
    by (simp add: code [OF b1(1)])
  moreover have "idl_block ?b \<and> idl_ids ?b = idl_ids b1 @ ?e \<and> idl_count ?b = length (idl_ids b1 @ ?e) \<and> idl_cap ?b = unat c"
    using r(2,3) w(2) e c by (intro idl_block_eq) simp_all
  ultimately show "\<exists>b'. mdb_midl_append_list (Some junk) b app = Some (0, b') \<and> idl_block b' \<and> idl_ids b' = idl_ids b @ idl_elems app"
    by (simp add: b1(4))
  show "mdb_midl_append_list None b app = (if idl_cap b \<le> idl_count b + ?n then Some (ENOMEM, b)
      else mdb_midl_append_list (Some junk) b app)"
  proof (cases "idl_cap b \<le> idl_count b + ?n")
    case True
    have g: "(if b ! 1 + app ! 0 \<ge> b ! 0 then mdb_midl_grow None b (ucast (app ! 0)) else Some (0, b)) = Some (ENOMEM, b)"
      using grow_eq(1) [OF assms(1) _ assms(2), of "ucast (app ! 0)"] True assms(4) by (simp only: full if_True n)
    show ?thesis
      using True by (simp add: code [OF g] ENOMEM_def)
  next
    case False
    then have g: "(if b ! 1 + app ! 0 \<ge> b ! 0 then mdb_midl_grow m b (ucast (app ! 0)) else Some (0, b)) = Some (0, b)" for m
      by (simp only: full if_False)
    show ?thesis
      using False by (simp add: code [OF g])
  qed
qed

section \<open>Ranges\<close>

text \<open>The run of \<open>n\<close> consecutive IDs from \<open>x\<close> in descending order.\<close>

definition id_range :: "u64 \<Rightarrow> nat \<Rightarrow> u64 list" where
  "id_range x n = rev (map (\<lambda>i. x + word_of_nat i) [0..<n])"

lemma id_range_Suc: "id_range x (Suc n) = id_range (x + 1) n @ [x]"
proof -
  have "[0..<Suc n] = 0 # map Suc [0..<n]"
    by (simp only: upt_conv_Cons zero_less_Suc map_Suc_upt)
  then show ?thesis
    by (simp add: id_range_def comp_def add_ac del: upt_Suc)
qed

lemma length_id_range [simp]: "length (id_range x n) = n"
  by (simp add: id_range_def)

lemma range_loop_eq:
  "length pre = base + 1 \<Longrightarrow> length mid' = n \<Longrightarrow>
    mdb_midl_append_range_loop base n x (pre @ mid' @ r) = Some (pre @ id_range x n @ r)"
proof (induction n arbitrary: mid' x r)
  case 0
  then show ?case by (subst mdb_midl_append_range_loop.simps) (simp add: id_range_def)
next
  case (Suc n)
  then obtain m y where m: "mid' = m @ [y]" "length m = n"
    by (metis length_Suc_conv_rev)
  have "mdb_midl_append_range_loop base (Suc n) x (pre @ mid' @ r)
      = mdb_midl_append_range_loop base n (x + 1) (pre @ m @ x # r)"
    using Suc.prems m by (subst mdb_midl_append_range_loop.simps) (simp add: list_update_append)
  also have "\<dots> = Some (pre @ id_range (x + 1) n @ x # r)"
    by (rule Suc.IH [OF Suc.prems(1) m(2)])
  finally show ?case
    by (simp add: id_range_Suc)
qed

lemma or_mask_bounds:
  fixes n :: u32
  assumes "unat n < 2 ^ 31"
  shows "unat n \<le> unat (n OR word_of_nat MDB_IDL_UM_MAX)" "unat (n OR word_of_nat MDB_IDL_UM_MAX) < 2 ^ 31"
proof -
  have e: "int (unat (n OR word_of_nat MDB_IDL_UM_MAX)) = int (unat n) OR 131071"
    by (simp add: unsigned_or_eq of_nat_or_eq UM_MAX_word) (simp add: MDB_IDL_UM_MAX_def)
  have "int (unat n) \<le> int (unat n) OR 131071"
    by (rule or_greater_eq) simp
  moreover have "int (unat n) OR 131071 < 2 ^ 31"
  proof (rule OR_upper)
    show "int (unat n) < 2 ^ 31"
      using assms by (metis of_nat_less_iff of_nat_numeral of_nat_power)
  qed simp_all
  ultimately show "unat n \<le> unat (n OR word_of_nat MDB_IDL_UM_MAX)" "unat (n OR word_of_nat MDB_IDL_UM_MAX) < 2 ^ 31"
    unfolding e [symmetric] by (metis of_nat_le_iff, metis of_nat_less_iff of_nat_numeral of_nat_power)
qed

lemma append_range_eq:
  assumes "idl_block b" and "idl_cap b < IDL_LIMIT" and "unat n < 2 ^ 31"
  shows "\<exists>b'. mdb_midl_append_range (Some junk) b x n = Some (0, b') \<and> idl_block b' \<and> idl_ids b' = idl_ids b @ id_range x (unat n)"
    "mdb_midl_append_range None b x n = (if idl_cap b < idl_count b + unat n then Some (ENOMEM, b)
      else mdb_midl_append_range (Some junk) b x n)"
proof -
  let ?n = "unat n" and ?g = "n OR word_of_nat MDB_IDL_UM_MAX"
  note g = or_mask_bounds [OF assms(3)]
  have un: "unat (ucast n :: u64) = ?n"
    by (simp add: unat_ucast_up)
  have new: "unat (b ! 1 + ucast n) = idl_count b + ?n"
    using count_add [OF assms(1) _ assms(2), of "ucast n"] assms(3) by (simp only: un) simp
  have full: "(b ! 1 + ucast n > b ! 0) = (idl_cap b < idl_count b + ?n)"
    using new by (simp only: word_less_nat_alt idl_cap_def)
  have code: "mdb_midl_append_range m b x n = (if rc \<noteq> 0 then Some (ENOMEM, b') else do {
       ids \<leftarrow> wr b' 1 (b ! 1 + ucast n);
       ids \<leftarrow> mdb_midl_append_range_loop (1 + unat (b ! 1)) ?n x ids;
       Some (0, ids)
     })" if "(if b ! 1 + ucast n > b ! 0 then mdb_midl_grow m b ?g else Some (0, b)) = Some (rc, b')" for m rc b'
    unfolding mdb_midl_append_range_def block_reads [OF assms(1)] bind.bind_lunit that split_conv ..
  obtain b1 where b1: "(if b ! 1 + ucast n > b ! 0 then mdb_midl_grow (Some junk) b ?g else Some (0, b)) = Some (0, b1)"
    "idl_block b1" "idl_count b1 + ?n \<le> idl_cap b1" "idl_ids b1 = idl_ids b" "idl_count b1 = idl_count b"
  proof (cases "idl_cap b < idl_count b + ?n")
    case True
    obtain b1 where b1: "mdb_midl_grow (Some junk) b ?g = Some (0, b1)" "idl_block b1"
      "idl_cap b1 = idl_cap b + unat ?g" "idl_count b1 = idl_count b" "idl_ids b1 = idl_ids b"
      using grow_eq(2) [OF assms(1) g(2) assms(2), of junk] by auto
    moreover have "idl_count b1 + ?n \<le> idl_cap b1"
      using b1(3,4) assms(1) g(1) by (simp add: idl_block_def)
    ultimately show thesis
      using True by (intro that [of b1]) (simp_all only: full if_True)
  next
    case False
    then show thesis
      using assms(1) by (intro that [of b]) (simp_all only: full if_False)
  qed
  from b1(2) obtain c k r where r: "b1 = c # k # idl_ids b1 @ r" "length (idl_ids b1) = unat k" "unat c = unat k + length r"
    "idl_count b1 = unat k" "idl_cap b1 = unat c"
    by (rule block_cases)
  let ?k = "b ! 1 + ucast n" and ?e = "id_range x ?n"
  let ?b = "c # ?k # (idl_ids b1 @ ?e) @ drop ?n r"
  have k: "unat (b ! 1) = unat k"
    using b1(5) r(4) by (simp add: idl_count_def)
  have w: "wr b1 1 ?k = Some ((c # ?k # idl_ids b1) @ take ?n r @ drop ?n r)"
    using arg_cong [OF r(1), of "\<lambda>b. wr b 1 ?k"] by simp
  have l: "mdb_midl_append_range_loop (1 + unat (b ! 1)) ?n x ((c # ?k # idl_ids b1) @ take ?n r @ drop ?n r)
      = Some ((c # ?k # idl_ids b1) @ ?e @ drop ?n r)"
    using r b1(3) k by (intro range_loop_eq) simp_all
  have "mdb_midl_append_range (Some junk) b x n = Some (0, ?b)"
    by (simp only: code [OF b1(1)] w l bind.bind_lunit) simp
  moreover have "idl_block ?b \<and> idl_ids ?b = idl_ids b1 @ ?e \<and> idl_count ?b = length (idl_ids b1 @ ?e) \<and> idl_cap ?b = unat c"
    using r(2-5) new b1(3,5) by (intro idl_block_eq) simp_all
  ultimately show "\<exists>b'. mdb_midl_append_range (Some junk) b x n = Some (0, b') \<and> idl_block b' \<and> idl_ids b' = idl_ids b @ ?e"
    by (simp add: b1(4))
  show "mdb_midl_append_range None b x n = (if idl_cap b < idl_count b + unat n then Some (ENOMEM, b)
      else mdb_midl_append_range (Some junk) b x n)"
  proof (cases "idl_cap b < idl_count b + ?n")
    case True
    have g: "(if b ! 1 + ucast n > b ! 0 then mdb_midl_grow None b ?g else Some (0, b)) = Some (ENOMEM, b)"
      using grow_eq(1) [OF assms(1) g(2) assms(2)] True by (simp only: full if_True)
    show ?thesis
      using True by (simp add: code [OF g] ENOMEM_def)
  next
    case False
    then have g: "(if b ! 1 + ucast n > b ! 0 then mdb_midl_grow m b ?g else Some (0, b)) = Some (0, b)" for m
      by (simp only: full if_False)
    show ?thesis
      using False by (simp add: code [OF g])
  qed
qed

section \<open>Room in advance\<close>

lemma and_minus_256:
  fixes x :: u32
  shows "unat (x AND - 256) = unat x - unat x mod 256"
proof -
  have "(x AND 255) + (x AND - 256) = ((x AND 255) AND (x AND - 256)) + ((x AND 255) OR (x AND - 256))"
    by (simp only: word_plus_and_or)
  also have "(x AND 255) AND (x AND - 256) = x AND (255 AND - 256)"
    by (simp only: ac_simps and.left_idem)
  also have "(x AND 255) OR (x AND - 256) = x AND (255 OR - 256)"
    by (simp only: bit.conj_disj_distrib)
  finally have "(x AND 255) + (x AND - 256) = x"
    by simp
  moreover have "x AND 255 = take_bit 8 x"
    by (simp add: take_bit_eq_mask mask_numeral)
  ultimately have "x AND - 256 = x - take_bit 8 x"
    by (simp add: algebra_simps)
  moreover have "unat (take_bit 8 x) = unat x mod 256"
    by (simp add: take_bit_eq_mod unat_mod_distrib)
  ultimately show ?thesis
    by (simp add: unat_sub_small)
qed

lemma need_rounding:
  fixes n :: u32
  assumes "unat n < 2 ^ 31"
  shows "unat n + 2 \<le> unat ((n + n div 4 + (256 + 2)) AND - 256)"
proof -
  let ?m = "unat n + unat n div 4 + 258"
  have "unat (n + n div 4 + (256 + 2)) = ?m"
    using assms by (subst unat_add_small; (subst unat_add_small)?) (simp_all add: unat_div_distrib)
  then have "unat ((n + n div 4 + (256 + 2)) AND - 256) = ?m - ?m mod 256"
    by (simp only: and_minus_256)
  moreover have "?m mod 256 < 256" by simp
  ultimately show ?thesis by linarith
qed

lemma need_eq:
  assumes "idl_block b" and "idl_count b + unat n < 2 ^ 31" 
  shows "\<exists>b'. mdb_midl_need (Some junk) b n = Some (0, b') \<and> idl_block b' \<and> idl_ids b' = idl_ids b
      \<and> idl_count b' = idl_count b \<and> idl_count b + unat n \<le> idl_cap b'"
    "mdb_midl_need None b n = (if idl_cap b < idl_count b + unat n then Some (ENOMEM, b) else Some (0, b))"
proof -
  let ?n = "n + ucast (b ! 1)" and ?m = "idl_count b + unat n"
  let ?s = "(?n + ?n div 4 + (256 + 2)) AND - 256"
  have u: "unat (ucast (b ! 1) :: u32) = idl_count b"
    using assms(2) by (intro search_count) (simp_all add: idl_count_def)
  then have n: "unat ?n = ?m"
    using assms(2) by (subst unat_add_small) simp_all
  have full: "(ucast ?n > b ! 0) = (idl_cap b < ?m)"
    using n by (simp add: word_less_nat_alt idl_cap_def unat_ucast_up)
  have code: "mdb_midl_need m b n = (if idl_cap b < ?m then (case c_realloc m b (ucast ?s * 8) of
           None \<Rightarrow> Some (ENOMEM, b)
         | Some ids \<Rightarrow> do {
             ids \<leftarrow> wr ids 0 (ucast (?s - 2));
             Some (0, ids)
           }) else Some (0, b))" for m
    unfolding mdb_midl_need_def block_reads [OF assms(1)] bind.bind_lunit Let_def full ..
  show "mdb_midl_need None b n = (if idl_cap b < ?m then Some (ENOMEM, b) else Some (0, b))"
    by (simp only: code c_realloc_fails option.case)
  show "\<exists>b'. mdb_midl_need (Some junk) b n = Some (0, b') \<and> idl_block b' \<and> idl_ids b' = idl_ids b
      \<and> idl_count b' = idl_count b \<and> ?m \<le> idl_cap b'"
  proof (cases "idl_cap b < ?m")
    case True
    from assms(1) obtain c k r where r: "b = c # k # idl_ids b @ r" "length (idl_ids b) = unat k" "unat c = unat k + length r"
      "idl_count b = unat k" "idl_cap b = unat c"
      by (rule block_cases)
    have s: "?m + 2 \<le> unat ?s"
      using need_rounding [of ?n] assms(2) by (simp only: n)
    have s32: "unat ?s < 2 ^ 32"
      using unat_lt_word [of ?s] by simp
    have s8: "unat (ucast ?s * 8 :: u64) = unat ?s * 8"
      using s32 by (subst unat_mult_small) (simp_all add: unat_ucast_up)
    define d where "d = unat ?s - 2 - unat c"
    have d: "unat ?s = unat c + 2 + d"
      using s True r(5) by (simp add: d_def)
    have "c_realloc (Some junk) b (ucast ?s * 8) = Some (b @ replicate d junk)"
      using arg_cong [OF r(1), of length] r(2,3) by (intro c_realloc_extend) (simp only: s8 d, simp)
    moreover have "wr (b @ replicate d junk) 0 (ucast (?s - 2)) = Some (ucast (?s - 2) # k # idl_ids b @ (r @ replicate d junk))"
      using arg_cong [OF r(1), of "\<lambda>b. wr (b @ replicate d junk) 0 (ucast (?s - 2))"] by simp
    ultimately have "mdb_midl_need (Some junk) b n = Some (0, ucast (?s - 2) # k # idl_ids b @ (r @ replicate d junk))"
      using True by (simp only: code if_True option.case bind.bind_lunit)
    moreover have "unat (ucast (?s - 2) :: u64) = unat c + d"
      using s d by (simp add: unat_ucast_up unat_sub_small)
    moreover from this have "idl_block (ucast (?s - 2) # k # idl_ids b @ (r @ replicate d junk))
      \<and> idl_ids (ucast (?s - 2) # k # idl_ids b @ (r @ replicate d junk)) = idl_ids b
      \<and> idl_count (ucast (?s - 2) # k # idl_ids b @ (r @ replicate d junk)) = length (idl_ids b)
      \<and> idl_cap (ucast (?s - 2) # k # idl_ids b @ (r @ replicate d junk)) = unat (ucast (?s - 2) :: u64)"
      using r(2,3) by (intro idl_block_eq) simp_all
    ultimately show ?thesis
      using s d r(2,4) by (intro exI [of _ "ucast (?s - 2) # k # idl_ids b @ (r @ replicate d junk)"]) simp
  qed (use assms(1) in \<open>simp add: code\<close>)
qed

section \<open>Allocation and shrinking\<close>

lemma alloc_eq:
  assumes "unat num < 2 ^ 31 - 2"
  shows "mdb_midl_alloc None num = Some None"
    "\<exists>b. mdb_midl_alloc (Some junk) num = Some (Some b) \<and> idl_block b \<and> idl_cap b = unat num \<and> idl_ids b = []"
proof -
  have "unat (num + 2) = unat num + 2"
    using assms by (subst unat_add_small) simp_all
  then have s: "unat (scast (num + 2) :: u64) = unat num + 2"
    using assms by (subst scast_nonneg) simp_all
  then have "unat (scast (num + 2) * 8 :: u64) = (length ([] :: u64 list) + (unat num + 2)) * 8"
    using assms by (subst unat_mult_small) (simp_all only: s, simp_all)
  then have "c_realloc (Some junk) [] (scast (num + 2) * 8) = Some (replicate (unat num + 2) junk)"
    by (simp only: c_realloc_extend append_Nil)
  then have "mdb_midl_alloc (Some junk) num = Some (Some (scast num # 0 # [] @ replicate (unat num) junk))"
    unfolding mdb_midl_alloc_def by simp
  moreover have "idl_block (scast num # 0 # [] @ replicate (unat num) junk) \<and> idl_ids (scast num # 0 # [] @ replicate (unat num) junk) = []
      \<and> idl_count (scast num # 0 # [] @ replicate (unat num) junk) = length ([] :: u64 list)
      \<and> idl_cap (scast num # 0 # [] @ replicate (unat num) junk) = unat (scast num :: u64)"
    using assms by (intro idl_block_eq) (simp_all add: scast_nonneg)
  ultimately show "\<exists>b. mdb_midl_alloc (Some junk) num = Some (Some b) \<and> idl_block b \<and> idl_cap b = unat num \<and> idl_ids b = []"
    using assms by (simp add: scast_nonneg)
  show "mdb_midl_alloc None num = Some None"
    by (simp add: mdb_midl_alloc_def c_realloc_fails)
qed

lemma shrink_eq:
  assumes "idl_block b" and "idl_count b \<le> MDB_IDL_UM_MAX"
  shows "\<exists>b'. mdb_midl_shrink m b = Some b' \<and> idl_block b' \<and> idl_ids b' = idl_ids b
    \<and> idl_cap b' = (if m = None then idl_cap b else min (idl_cap b) MDB_IDL_UM_MAX)"
proof (cases "MDB_IDL_UM_MAX < idl_cap b \<and> m \<noteq> None")
  case True
  then obtain junk where m: "m = Some junk" by blast
  from assms(1) obtain c k r where r: "b = c # k # idl_ids b @ r" "length (idl_ids b) = unat k" "unat c = unat k + length r"
    "idl_count b = unat k" "idl_cap b = unat c"
    by (rule block_cases)
  let ?M = "MDB_IDL_UM_MAX" and ?w = "word_of_nat MDB_IDL_UM_MAX :: u64"
  have z: "unat (word_of_nat (?M + 2) * 8 :: u64) = (?M + 2) * 8"
    by (simp add: MDB_IDL_UM_MAX_def)
  let ?b = "c # k # idl_ids b @ take (?M - unat k) r"
  have "length b = unat c + 2"
    using assms(1) r(5) by (simp add: idl_block_def)
  then have "c_realloc m b (word_of_nat (?M + 2) * 8) = Some (take (?M + 2) b)"
    unfolding m using True r(5) by (intro c_realloc_shorten [OF z]) simp
  moreover have "take (?M + 2) b = ?b"
    using arg_cong [OF r(1), of "take (?M + 2)"] r(2) assms(2) r(4) by simp
  moreover have "rd b 0 = Some c"
    using arg_cong [OF r(1), of "\<lambda>b. rd b 0"] by simp
  moreover have "c > ?w"
    using True r(5) by (simp add: word_less_nat_alt UM_MAX_word)
  ultimately have "mdb_midl_shrink m b = Some (?w # k # idl_ids b @ take (?M - unat k) r)"
    unfolding mdb_midl_shrink_def by simp
  moreover have "idl_block (?w # k # idl_ids b @ take (?M - unat k) r)
      \<and> idl_ids (?w # k # idl_ids b @ take (?M - unat k) r) = idl_ids b
      \<and> idl_count (?w # k # idl_ids b @ take (?M - unat k) r) = length (idl_ids b)
      \<and> idl_cap (?w # k # idl_ids b @ take (?M - unat k) r) = unat ?w"
    using r(2-5) assms(2) True by (intro idl_block_eq) (auto simp: UM_MAX_word)
  ultimately show ?thesis
    using True by (simp add: UM_MAX_word m)
next
  case False
  have "(b ! 0 > word_of_nat MDB_IDL_UM_MAX) = (MDB_IDL_UM_MAX < idl_cap b)"
    by (simp add: word_less_nat_alt UM_MAX_word idl_cap_def)
  then show ?thesis
    using False assms(1) block_reads(1) [OF assms(1)] by (auto simp: mdb_midl_shrink_def c_realloc_fails)
qed

section \<open>Growing lists\<close>

primrec push_all :: "('l \<Rightarrow> u64 \<Rightarrow> (int \<times> 'l) option) \<Rightarrow> 'l \<Rightarrow> u64 list \<Rightarrow> (int \<times> 'l) option" where
  "push_all push l [] = Some (0, l)"
| "push_all push l (x # xs) = (case push l x of
       None \<Rightarrow> None
     | Some (rc, l') \<Rightarrow> if rc \<noteq> 0 then Some (rc, l') else push_all push l' xs)"

text \<open>What the clients of a list rely on: with room for one more element a push succeeds and keeps the others.\<close>

locale id_list =
  fixes room :: "'l \<Rightarrow> nat \<Rightarrow> bool"
    and elems :: "'l \<Rightarrow> u64 list"
    and push :: "'l \<Rightarrow> u64 \<Rightarrow> (int \<times> 'l) option"
  assumes push_room: "room l (Suc n) \<Longrightarrow> \<exists>l'. push l x = Some (0, l') \<and> room l' n \<and> elems l' = elems l @ [x]"
begin

lemma push_all_elems:
  "room l (length xs) \<Longrightarrow> \<exists>l'. push_all push l xs = Some (0, l') \<and> room l' 0 \<and> elems l' = elems l @ xs"
proof (induction xs arbitrary: l)
  case (Cons x xs)
  then obtain l1 where l1: "push l x = Some (0, l1)" "room l1 (length xs)" "elems l1 = elems l @ [x]"
    using push_room [of l "length xs" x] by auto
  then show ?case
    using Cons.IH [OF l1(2)] by simp
qed simp

end

interpretation growing: id_list
  "\<lambda>b n. idl_block b \<and> idl_cap b + n * MDB_IDL_UM_MAX < IDL_LIMIT" idl_ids "mdb_midl_append (Some junk)" for junk
proof unfold_locales
  fix b n x
  assume b: "idl_block b \<and> idl_cap b + Suc n * MDB_IDL_UM_MAX < IDL_LIMIT"
  then show "\<exists>b'. mdb_midl_append (Some junk) b x = Some (0, b')
      \<and> (idl_block b' \<and> idl_cap b' + n * MDB_IDL_UM_MAX < IDL_LIMIT) \<and> idl_ids b' = idl_ids b @ [x]"
    using append_eq(1) [of b junk x] by auto
qed

interpretation reserved: id_list
  "\<lambda>b n. idl_block b \<and> idl_count b + n \<le> idl_cap b" idl_ids "\<lambda>b x. map_option (Pair 0) (mdb_midl_xappend b x)"
proof unfold_locales
  fix b n x
  assume "idl_block b \<and> idl_count b + Suc n \<le> idl_cap b"
  then show "\<exists>b'. map_option (Pair 0) (mdb_midl_xappend b x) = Some (0, b')
      \<and> (idl_block b' \<and> idl_count b' + n \<le> idl_cap b') \<and> idl_ids b' = idl_ids b @ [x]"
    using xappend_eq [of b x] by auto
qed

section \<open>Properties\<close>

text \<open>C37. A list made by \<open>mdb_midl_alloc\<close> holds, after any number of \<open>mdb_midl_append\<close> calls whose
  allocations succeed, exactly the appended IDs in order: growing keeps the elements, the block stays
  well formed and no access is outside it. The capacity asked for is below 2 ^ 31 - 2, because \<^verbatim>\<open>mdb_midl_alloc\<close> takes an
  \<^verbatim>\<open>int\<close>, and the appended IDs are too few for the size in bytes to wrap.\<close>

theorem midl_append_all:
  assumes "unat num < 2 ^ 31 - 2" and "length xs * MDB_IDL_UM_MAX < 2 ^ 59"
  shows "\<exists>b0 b. mdb_midl_alloc (Some junk) num = Some (Some b0)
    \<and> push_all (mdb_midl_append (Some junk)) b0 xs = Some (0, b) \<and> idl_block b \<and> idl_ids b = xs"
proof -
  obtain b0 where b0: "mdb_midl_alloc (Some junk) num = Some (Some b0)" "idl_block b0" "idl_cap b0 = unat num" "idl_ids b0 = []"
    using alloc_eq(2) [OF assms(1)] by blast
  moreover have "idl_cap b0 + length xs * MDB_IDL_UM_MAX < IDL_LIMIT"
    using assms b0(3) by (simp add: IDL_LIMIT_def)
  ultimately show ?thesis
    using growing.push_all_elems [of b0 xs junk] by auto
qed

theorem midl_append_all_witness:
  "\<exists>b0 b. mdb_midl_alloc (Some 7) 1 = Some (Some b0)
    \<and> push_all (mdb_midl_append (Some 7)) b0 [5, 9, 2] = Some (0, b) \<and> idl_block b \<and> idl_ids b = [5, 9, 2]"
  using midl_append_all [of 1 "[5, 9, 2]" 7] by (simp add: MDB_IDL_UM_MAX_def)

text \<open>C36. The pattern of \<open>mdb.c\<close> that reserves room and then writes without checks: after a successful
  \<open>mdb_midl_need(&ids, n)\<close>, up to \<open>n\<close> uses of \<open>mdb_midl_xappend\<close> stay inside the block and add exactly
  their IDs; when the allocator fails, \<open>need\<close> reports it and leaves the list as it was. The count
  and the room asked for are below 2 ^ 31 together.\<close>

theorem midl_need_then_xappend:
  assumes "idl_block b" and "idl_count b + unat n < 2 ^ 31" and "length xs \<le> unat n"
  shows "(\<exists>b1 b2. mdb_midl_need (Some junk) b n = Some (0, b1)
      \<and> push_all (\<lambda>b x. map_option (Pair 0) (mdb_midl_xappend b x)) b1 xs = Some (0, b2)
      \<and> idl_block b2 \<and> idl_ids b2 = idl_ids b @ xs)
    \<and> mdb_midl_need None b n = (if idl_cap b < idl_count b + unat n then Some (ENOMEM, b) else Some (0, b))"
proof -
  obtain b1 where b1: "mdb_midl_need (Some junk) b n = Some (0, b1)" "idl_block b1" "idl_ids b1 = idl_ids b"
    "idl_count b1 = idl_count b" "idl_count b + unat n \<le> idl_cap b1"
    using need_eq(1) [OF assms(1,2)] by blast
  moreover have "idl_count b1 + length xs \<le> idl_cap b1"
    using b1(4,5) assms(3) by simp
  ultimately show ?thesis
    using reserved.push_all_elems [of b1 xs] need_eq(2) [OF assms(1,2)] by auto
qed

theorem midl_need_then_xappend_witness:
  "(\<exists>b1 b2. mdb_midl_need (Some 0) [1, 1, 5] 2 = Some (0, b1)
      \<and> push_all (\<lambda>b x. map_option (Pair 0) (mdb_midl_xappend b x)) b1 [9, 2] = Some (0, b2)
      \<and> idl_block b2 \<and> idl_ids b2 = [5, 9, 2])
    \<and> mdb_midl_need None [1, 1, 5] 2 = Some (ENOMEM, [1, 1, 5])"
  using midl_need_then_xappend [of "[1, 1, 5]" 2 "[9, 2]" 0] by (simp add: idl_block_def idl_cap_def idl_count_def idl_ids_def)

text \<open>Appending a run of \<open>n\<close> consecutive IDs adds them in descending order after the present elements, growing
  the block when needed; appending another list adds its elements in order; when the allocator fails and room is
  needed, both report \<open>ENOMEM\<close> and leave the list as it was.\<close>

theorem midl_append_range_list:
  assumes "idl_block b" and "idl_cap b < IDL_LIMIT" and "unat n < 2 ^ 31" and "idl_fits app" and "unat (app ! 0) < 2 ^ 31"
  shows "(\<exists>b'. mdb_midl_append_range (Some junk) b x n = Some (0, b') \<and> idl_block b'
      \<and> idl_ids b' = idl_ids b @ rev (map (\<lambda>i. x + word_of_nat i) [0..<unat n]))
    \<and> (\<exists>b'. mdb_midl_append_list (Some junk) b app = Some (0, b') \<and> idl_block b' \<and> idl_ids b' = idl_ids b @ idl_elems app)
    \<and> mdb_midl_append_range None b x n
      = (if idl_cap b < idl_count b + unat n then Some (ENOMEM, b) else mdb_midl_append_range (Some junk) b x n)
    \<and> mdb_midl_append_list None b app
      = (if idl_cap b \<le> idl_count b + unat (app ! 0) then Some (ENOMEM, b) else mdb_midl_append_list (Some junk) b app)"
  using append_range_eq(1) [OF assms(1-3), of junk x] append_list_eq(1) [OF assms(1,2,4,5), of junk]
    append_range_eq(2) [OF assms(1-3), of x junk] append_list_eq(2) [OF assms(1,2,4,5), of junk]
  unfolding id_range_def by (intro conjI)

theorem midl_append_range_list_witness:
  "\<exists>b'. mdb_midl_append_range (Some 0) [1, 1, 5] 20 3 = Some (0, b') \<and> idl_block b' \<and> idl_ids b' = [5, 22, 21, 20]"
  using midl_append_range_list [of "[1, 1, 5]" 3 "[1, 8]" 0 20]
  by (simp add: idl_block_def idl_cap_def idl_count_def idl_ids_def IDL_LIMIT_def idl_fits_def upt_rec)

end
