(* ===== verification/Midl_Merge.thy ===== *)
theory Midl_Merge
  imports Midl
begin

text \<open>
  \<^verbatim>\<open>mdb_midl_xmerge\<close> (\<^verbatim>\<open>midl.c\<close>): merging a descending list into another in place, from the small end,
  with the largest ID in word 0 as the sentinel that stops the inner loop.
\<close>

section \<open>The code\<close>

text \<open>\<^verbatim>\<open>for (; old_id < merge_id; old_id = idl[--j]) idl[k--] = old_id;\<close>\<close>

partial_function (option) mdb_midl_xmerge_inner ::
  "u64 \<Rightarrow> u64 \<Rightarrow> u64 \<Rightarrow> u64 \<Rightarrow> u64 list \<Rightarrow> (u64 \<times> u64 \<times> u64 \<times> u64 list) option" where
  [code]: "mdb_midl_xmerge_inner merge_id old_id j k idl =
     (if old_id < merge_id then do {
        idl \<leftarrow> wr idl (unat k) old_id;
        old_id \<leftarrow> rd idl (unat (j - 1));
        mdb_midl_xmerge_inner merge_id old_id (j - 1) (k - 1) idl
      } else Some (old_id, j, k, idl))"

partial_function (option) mdb_midl_xmerge_outer ::
  "u64 list \<Rightarrow> u64 \<Rightarrow> u64 \<Rightarrow> u64 \<Rightarrow> u64 \<Rightarrow> u64 list \<Rightarrow> u64 list option" where
  [code]: "mdb_midl_xmerge_outer merge' i j k old_id idl =
     (if i \<noteq> 0 then do {
        merge_id \<leftarrow> rd merge' (unat i);
        (old_id, j, k, idl) \<leftarrow> mdb_midl_xmerge_inner merge_id old_id j k idl;
        idl \<leftarrow> wr idl (unat k) merge_id;
        mdb_midl_xmerge_outer merge' (i - 1) j (k - 1) old_id idl
      } else Some idl)"

definition mdb_midl_xmerge :: "u64 list \<Rightarrow> u64 list \<Rightarrow> u64 list option" where
  "mdb_midl_xmerge idl merge' = do {
     i \<leftarrow> rd merge' 0;
     j \<leftarrow> rd idl 0;
     let k = i + j;
     let total' = k;
     idl \<leftarrow> wr idl 0 (- 1);
     old_id \<leftarrow> rd idl (unat j);
     idl \<leftarrow> mdb_midl_xmerge_outer merge' i j k old_id idl;
     wr idl 0 total'
   }"

section \<open>Merging ascending lists\<close>

primrec merge_up :: "u64 list \<Rightarrow> u64 list \<Rightarrow> u64 list" where
  "merge_up a [] = a"
| "merge_up a (m # b) = takeWhile (\<lambda>x. x < m) a @ m # merge_up (dropWhile (\<lambda>x. x < m) a) b"

lemma mset_merge_up: "mset (merge_up a b) = mset a + mset b"
proof (induction b arbitrary: a)
  case (Cons m b)
  have "mset (takeWhile (\<lambda>x. x < m) a) + mset (dropWhile (\<lambda>x. x < m) a) = mset a"
    by (simp only: mset_append [symmetric] takeWhile_dropWhile_id)
  then show ?case
    using Cons by simp
qed simp

lemma length_merge_up: "length (merge_up a b) = length a + length b"
  using arg_cong [OF mset_merge_up [of a b], of size] by simp

lemma sorted_merge_up: "sorted a \<Longrightarrow> sorted b \<Longrightarrow> sorted (merge_up a b)"
proof (induction b arbitrary: a)
  case (Cons m b)
  let ?t = "takeWhile (\<lambda>x. x < m) a" and ?d = "dropWhile (\<lambda>x. x < m) a"
  have d: "\<forall>x \<in> set ?d. m \<le> x"
  proof (cases ?d)
    case (Cons y ys)
    have "\<not> y < m"
      using hd_dropWhile [of "\<lambda>x. x < m" a] Cons by auto
    moreover have "sorted ?d"
      using Cons.prems(1) by (rule sorted_dropWhile)
    ultimately show ?thesis
      using Cons by auto
  next
    case Nil
    then show ?thesis by (simp only: list.set ball_empty)
  qed
  have set: "set (merge_up ?d b) = set ?d \<union> set b"
    using arg_cong [OF mset_merge_up [of ?d b], of set_mset] by simp
  have "sorted (merge_up ?d b)"
    using Cons by (simp add: sorted_dropWhile)
  moreover have "x \<le> y" if "x \<in> set ?t" "y = m \<or> y \<in> set ?d \<or> y \<in> set b" for x y
    using that d Cons.prems(2) set_takeWhileD [of x "\<lambda>x. x < m" a] by force
  ultimately show ?case
    using Cons.prems d set by (auto simp: sorted_append sorted_takeWhile)
qed simp

section \<open>The loops\<close>

text \<open>
  The array holds the sentinel \<open>d\<close>, the elements still to place, a gap as long as the rest of the
  merged list, and what is already placed.
\<close>

lemma last_nth: "(d # p) ! length p = last (d # p)"
  by (simp add: last_conv_nth)

lemma inner_eq:
  assumes "d = (- 1 :: u64)" and "length p + length g < 2 ^ 64" and "g \<noteq> []"
  shows "\<exists>g'. length g' = length g \<and>
    mdb_midl_xmerge_inner m (last (d # p)) (word_of_nat (length p)) (word_of_nat (length p + length g)) (d # p @ g @ q)
    = (let p1 = rev (dropWhile (\<lambda>x. x < m) (rev p)); p2 = rev (takeWhile (\<lambda>x. x < m) (rev p))
       in Some (last (d # p1), word_of_nat (length p1), word_of_nat (length p1 + length g), d # p1 @ g' @ p2 @ q))"
  using assms(2,3)
proof (induction p arbitrary: g q rule: rev_induct)
  case Nil
  have "\<not> d < m"
    by (simp add: assms(1) not_less)
  then show ?case
    by (subst mdb_midl_xmerge_inner.simps) (auto simp: Let_def)
next
  case (snoc x p)
  show ?case
  proof (cases "x < m")
    case False
    then show ?thesis
      by (subst mdb_midl_xmerge_inner.simps) (auto simp: Let_def)
  next
    case True
    obtain g' y where g: "g = g' @ [y]"
      using snoc.prems(2) by (metis rev_exhaust)
    let ?g = "x # g'" and ?q = "x # q"
    let ?j = "word_of_nat (length (p @ [x])) :: u64" and ?k = "word_of_nat (length (p @ [x]) + length g) :: u64"
    have l: "length ?g = length g"
      by (simp add: g)
    have k: "unat ?k = length (p @ [x]) + length g"
      using snoc.prems(1) by (simp only: unat_of_nat) simp
    have jk: "?j - 1 = word_of_nat (length p)" "?k - 1 = word_of_nat (length p + length ?g)"
      by (simp_all add: g)
    have w: "wr (d # (p @ [x]) @ g @ q) (unat ?k) x = Some (d # p @ ?g @ ?q)"
      unfolding k unfolding g by (simp add: list_update_append)
    have u: "unat (word_of_nat (length p) :: u64) = length p"
      using snoc.prems(1) by (simp add: unat_of_nat)
    have r: "rd (d # p @ ?g @ ?q) (unat (word_of_nat (length p) :: u64)) = Some (last (d # p))"
      unfolding u by (simp add: nth_append last_conv_nth nth_Cons split: nat.split)
    have x: "last (d # p @ [x]) = x"
      by simp
    have step: "mdb_midl_xmerge_inner m (last (d # p @ [x])) ?j ?k (d # (p @ [x]) @ g @ q)
      = mdb_midl_xmerge_inner m (last (d # p)) (word_of_nat (length p)) (word_of_nat (length p + length ?g)) (d # p @ ?g @ ?q)"
      by (subst mdb_midl_xmerge_inner.simps) (simp only: x True if_True w jk r bind.bind_lunit)
    have "length p + length ?g < 2 ^ 64" "?g \<noteq> []"
      using snoc.prems(1) l by simp_all
    then obtain g1 where g1: "length g1 = length ?g" "mdb_midl_xmerge_inner m (last (d # p)) (word_of_nat (length p))
        (word_of_nat (length p + length ?g)) (d # p @ ?g @ ?q)
      = (let p1 = rev (dropWhile (\<lambda>x. x < m) (rev p)); p2 = rev (takeWhile (\<lambda>x. x < m) (rev p))
         in Some (last (d # p1), word_of_nat (length p1), word_of_nat (length p1 + length ?g), d # p1 @ g1 @ p2 @ ?q))"
      using snoc.IH [of ?g ?q] by blast
    have "dropWhile (\<lambda>x. x < m) (rev (p @ [x])) = dropWhile (\<lambda>x. x < m) (rev p)"
      "rev (takeWhile (\<lambda>x. x < m) (rev (p @ [x]))) = rev (takeWhile (\<lambda>x. x < m) (rev p)) @ [x]"
      using True by simp_all
    then show ?thesis
      unfolding step g1(2) Let_def by (intro exI [of _ g1]) (simp only: append_assoc append_Cons append_Nil g1(1) l)
  qed
qed

lemma outer_eq:
  assumes "d = (- 1 :: u64)" and "length p + length b < 2 ^ 64" and "length g = length b"
  shows "mdb_midl_xmerge_outer (c # rev b @ r) (word_of_nat (length b)) (word_of_nat (length p))
      (word_of_nat (length p + length b)) (last (d # p)) (d # p @ g @ q)
    = Some (d # rev (merge_up (rev p) b) @ q)"
  using assms(2,3)
proof (induction b arbitrary: p g q r)
  case Nil
  then show ?case
    by (subst mdb_midl_xmerge_outer.simps) simp
next
  case (Cons m b)
  let ?p1 = "rev (dropWhile (\<lambda>x. x < m) (rev p))" and ?p2 = "rev (takeWhile (\<lambda>x. x < m) (rev p))"
  have "g \<noteq> []" "length p + length g < 2 ^ 64"
    using Cons.prems by auto
  from inner_eq [OF assms(1) this(2,1), of m q] obtain g1 where g1: "length g1 = length g"
    "mdb_midl_xmerge_inner m (last (d # p)) (word_of_nat (length p)) (word_of_nat (length p + length g)) (d # p @ g @ q)
     = Some (last (d # ?p1), word_of_nat (length ?p1), word_of_nat (length ?p1 + length g), d # ?p1 @ g1 @ ?p2 @ q)"
    by (auto simp only: Let_def)
  obtain g2 y where g2: "g1 = g2 @ [y]" "length g2 = length b"
    using g1(1) Cons.prems(2) by (metis length_Suc_conv_rev length_Cons)
  have p1: "length ?p1 \<le> length p"
    using length_dropWhile_le [of "\<lambda>x. x < m" "rev p"] by simp
  have i: "unat (word_of_nat (length (m # b)) :: u64) = length (m # b)"
    using Cons.prems(1) by (simp only: unat_of_nat) simp
  have rdm: "rd (c # rev (m # b) @ r) (length (m # b)) = Some m"
    by (simp add: nth_append)
  have k: "unat (word_of_nat (length ?p1 + length g) :: u64) = length ?p1 + length g"
    using Cons.prems p1 by (simp only: unat_of_nat) simp
  have w: "wr (d # ?p1 @ g1 @ ?p2 @ q) (length ?p1 + length g) m = Some (d # ?p1 @ g2 @ m # ?p2 @ q)"
    using Cons.prems(2) g2(2) unfolding g2(1) by (simp add: list_update_append)
  have dec: "(word_of_nat (length (m # b)) :: u64) - 1 = word_of_nat (length b)"
    "(word_of_nat (length ?p1 + length g) :: u64) - 1 = word_of_nat (length ?p1 + length b)"
    using Cons.prems(2) by simp_all
  have nz: "(word_of_nat (length (m # b)) :: u64) \<noteq> 0"
    using i by (metis length_0_conv list.distinct(1) unat_0)
  have lg: "length p + length (m # b) = length p + length g"
    using Cons.prems(2) by simp
  have "mdb_midl_xmerge_outer (c # rev (m # b) @ r) (word_of_nat (length (m # b))) (word_of_nat (length p))
      (word_of_nat (length p + length (m # b))) (last (d # p)) (d # p @ g @ q)
    = mdb_midl_xmerge_outer (c # rev (m # b) @ r) (word_of_nat (length b)) (word_of_nat (length ?p1))
      (word_of_nat (length ?p1 + length b)) (last (d # ?p1)) (d # ?p1 @ g2 @ m # ?p2 @ q)"
    unfolding lg by (subst mdb_midl_xmerge_outer.simps)
      (simp only: nz not_False_eq_True if_True i rdm g1(2) k w dec bind.bind_lunit split_conv)
  also have "\<dots> = Some (d # rev (merge_up (rev ?p1) b) @ m # ?p2 @ q)"
    using Cons.IH [of ?p1 g2 "m # r" "m # ?p2 @ q"] Cons.prems(1) p1 g2(2) by simp
  finally show ?case
    by simp
qed

lemma rev_sort_unique:
  fixes xs :: "u64 list"
  assumes "sorted (rev xs)" and "mset xs = mset ys"
  shows "xs = rev (sort ys)"
  using assms by (metis mset_rev properties_for_sort rev_rev_ident)

lemma xmerge_eq:
  assumes "idl_fits idl" and "idl_fits merge'" and "sorted (rev (idl_elems idl))" and "sorted (rev (idl_elems merge'))"
    and "unat (idl ! 0) + unat (merge' ! 0) < length idl" and "length idl < 2 ^ 64"
  shows "\<exists>idl'. mdb_midl_xmerge idl merge' = Some idl' \<and> length idl' = length idl \<and> idl_fits idl'
    \<and> idl_elems idl' = rev (sort (idl_elems idl @ idl_elems merge'))"
proof -
  let ?a = "idl_elems idl" and ?b = "idl_elems merge'" and ?j = "unat (idl ! 0)" and ?i = "unat (merge' ! 0)"
  define c0 where "c0 = idl ! 0"
  define g where "g = take ?i (drop (Suc ?j) idl)"
  define q where "q = drop ?i (drop (Suc ?j) idl)"
  define r where "r = drop (Suc ?i) merge'"
  have l: "length ?a = ?j" "length ?b = ?i" "length g = ?i"
    using assms(1,2,5) by (simp_all add: length_idl_elems g_def)
  have idl: "idl = c0 # ?a @ g @ q"
    using assms(1,5) by (cases idl) (simp_all add: c0_def idl_elems_def g_def q_def idl_fits_def
        del: drop_drop)
  have mrg: "merge' = merge' ! 0 # ?b @ r"
    using assms(2) by (cases merge') (simp_all add: idl_elems_def r_def idl_fits_def)
  let ?k = "merge' ! 0 + idl ! 0"
  have "unat ?k = ?i + ?j"
    using assms(5,6) by (intro unat_add_small) simp
  then have k: "unat ?k = length ?a + length ?b"
    by (simp only: l)
  have k': "?k = word_of_nat (length ?a + length (rev ?b))"
    unfolding length_rev k [symmetric] of_nat_unat ucast_id ..
  have len: "length ?a + length (rev ?b) < 2 ^ 64"
    using assms(5,6) l by simp
  have o: "mdb_midl_xmerge_outer merge' (merge' ! 0) (idl ! 0) ?k (last (- 1 # ?a)) (- 1 # ?a @ g @ q)
      = Some (- 1 # rev (merge_up (rev ?a) (rev ?b)) @ q)"
  proof -
    have ia: "word_of_nat (length ?a) = idl ! 0" "word_of_nat (length (rev ?b)) = merge' ! 0"
      by (simp_all add: l)
    have "length g = length (rev ?b)"
      by (simp add: l)
    from outer_eq [OF refl len this, of "merge' ! 0" r q] show ?thesis
      by (simp only: k' [symmetric] ia rev_rev_ident mrg [symmetric])
  qed
  have w0: "wr idl 0 (- 1) = Some (- 1 # ?a @ g @ q)"
    using arg_cong [OF idl, of "\<lambda>x. wr x 0 (- 1)"] by simp
  have r0: "rd (- 1 # ?a @ g @ q) (unat (idl ! 0)) = Some (last (- 1 # ?a))"
  proof -
    have "(- 1 # ?a @ g @ q) ! length ?a = last (- 1 # ?a)"
      using last_nth [of "- 1" ?a] nth_append [of "- 1 # ?a" "g @ q" "length ?a"] by simp
    moreover have "length ?a < length (- 1 # ?a @ g @ q)"
      by simp
    ultimately show ?thesis
      by (simp only: rd_def l(1) [symmetric] if_True)
  qed
  let ?out = "?k # rev (merge_up (rev ?a) (rev ?b)) @ q"
  have reads: "rd merge' 0 = Some (merge' ! 0)" "rd idl 0 = Some (idl ! 0)"
    using assms(1,2) by (simp_all add: idl_fits_def)
  have "mdb_midl_xmerge idl merge' = Some ?out"
    unfolding mdb_midl_xmerge_def reads bind.bind_lunit Let_def w0 r0 o by simp
  moreover have "length ?out = length idl"
    using arg_cong [OF idl, of length] l by (simp add: length_merge_up)
  moreover have "idl_elems ?out = rev (merge_up (rev ?a) (rev ?b))"
    using k by (simp add: idl_elems_def length_merge_up)
  moreover have "rev (merge_up (rev ?a) (rev ?b)) = rev (sort (?a @ ?b))"
    using assms(3,4) by (intro rev_sort_unique) (simp_all add: sorted_merge_up mset_merge_up)
  moreover have "idl_fits ?out"
    using k by (simp add: idl_fits_def length_merge_up)
  ultimately show ?thesis by simp
qed

section \<open>Properties\<close>

text \<open>C33. Merging one descending list into another that has room for it: the code stays inside both arrays,
  terminates, and the result is the descending sort of the two lists together; no ID is lost or invented.\<close>

theorem xmerge_correct:
  assumes "idl_fits idl" and "idl_fits merge'" and "sorted (rev (idl_elems idl))" and "sorted (rev (idl_elems merge'))"
    and "unat (idl ! 0) + unat (merge' ! 0) < length idl" and "length idl < 2 ^ 64"
  shows "\<exists>idl'. mdb_midl_xmerge idl merge' = Some idl' \<and> length idl' = length idl
    \<and> idl_elems idl' = rev (sort (idl_elems idl @ idl_elems merge'))"
  using xmerge_eq [OF assms] by blast

theorem xmerge_correct_witness:
  "\<exists>idl'. mdb_midl_xmerge [2, 9, 3, 0, 0, 0] [3, 7, 3, 2] = Some idl' \<and> idl_elems idl' = [9, 7, 3, 3, 2]"
  using xmerge_correct [of "[2, 9, 3, 0, 0, 0]" "[3, 7, 3, 2]"]
  by (auto simp: idl_fits_def idl_elems_def)

end
