(* ===== verification/Midl_Sort.thy ===== *)
theory Midl_Sort
  imports Midl
begin

text \<open>
  \<^verbatim>\<open>mdb_midl_sort\<close> (\<^verbatim>\<open>midl.c\<close>): quicksort into descending order with an explicit stack of pending
  segments, and insertion sort for segments of at most eight elements.  \<^verbatim>\<open>int\<close> variables are integers;
  the two places where they could leave 32 bits, the cast of the count and \<^verbatim>\<open>l + ir\<close>, are written out
  (the cast wraps, the overflow of the sum is \<open>None\<close>).  The stack is an array of 64 integers whose
  initial contents are arbitrary.
\<close>

section \<open>The code\<close>

definition ird :: "'a list \<Rightarrow> int \<Rightarrow> 'a option" where
  "ird a i = (if 0 \<le> i then rd a (nat i) else None)"

definition iwr :: "'a list \<Rightarrow> int \<Rightarrow> 'a \<Rightarrow> 'a list option" where
  "iwr a i x = (if 0 \<le> i then wr a (nat i) x else None)"

definition int_add :: "int \<Rightarrow> int \<Rightarrow> int option" where
  "int_add x y = (if - (2 ^ 31) \<le> x + y \<and> x + y < 2 ^ 31 then Some (x + y) else None)"

definition SMALL :: int where
  "SMALL = 8"

definition MIDL_SWAP :: "u64 list \<Rightarrow> int \<Rightarrow> int \<Rightarrow> u64 list option" where
  "MIDL_SWAP ids a b = do {
     itmp \<leftarrow> ird ids a;
     y \<leftarrow> ird ids b;
     ids \<leftarrow> iwr ids a y;
     iwr ids b itmp
   }"

text \<open>\<^verbatim>\<open>for (i=j-1;i>=1;i--) { if (ids[i] >= a) break; ids[i+1] = ids[i]; }\<close>\<close>

partial_function (option) midl_sort_shift :: "u64 \<Rightarrow> int \<Rightarrow> u64 list \<Rightarrow> (int \<times> u64 list) option" where
  [code]: "midl_sort_shift a i ids =
     (if i \<ge> 1 then do {
        x \<leftarrow> ird ids i;
        if x \<ge> a then Some (i, ids)
        else do {
          ids \<leftarrow> iwr ids (i + 1) x;
          midl_sort_shift a (i - 1) ids
        }
      } else Some (i, ids))"

text \<open>\<^verbatim>\<open>for (j=l+1;j<=ir;j++) { a = ids[j]; ... ids[i+1] = a; }\<close>\<close>

partial_function (option) midl_sort_insertion :: "int \<Rightarrow> int \<Rightarrow> u64 list \<Rightarrow> u64 list option" where
  [code]: "midl_sort_insertion ir j ids =
     (if j \<le> ir then do {
        a \<leftarrow> ird ids j;
        (i, ids) \<leftarrow> midl_sort_shift a (j - 1) ids;
        ids \<leftarrow> iwr ids (i + 1) a;
        midl_sort_insertion ir (j + 1) ids
      } else Some ids)"

text \<open>The exchange of \<^verbatim>\<open>ids[a]\<close> and \<^verbatim>\<open>ids[b]\<close> when \<^verbatim>\<open>ids[a] < ids[b]\<close>.\<close>

definition midl_sort_order :: "u64 list \<Rightarrow> int \<Rightarrow> int \<Rightarrow> u64 list option" where
  "midl_sort_order ids a b = do {
     x \<leftarrow> ird ids a;
     y \<leftarrow> ird ids b;
     if x < y then MIDL_SWAP ids a b else Some ids
   }"

definition midl_sort_median :: "int \<Rightarrow> int \<Rightarrow> u64 list \<Rightarrow> u64 list option" where
  "midl_sort_median l ir ids = do {
     k \<leftarrow> int_add l ir;
     ids \<leftarrow> MIDL_SWAP ids (k div 2) (l + 1);
     ids \<leftarrow> midl_sort_order ids l ir;
     ids \<leftarrow> midl_sort_order ids (l + 1) ir;
     midl_sort_order ids l (l + 1)
   }"

text \<open>\<^verbatim>\<open>do i++; while(ids[i] > a);\<close> and \<^verbatim>\<open>do j--; while(ids[j] < a);\<close>\<close>

partial_function (option) midl_sort_up :: "u64 \<Rightarrow> u64 list \<Rightarrow> int \<Rightarrow> int option" where
  [code]: "midl_sort_up a ids i = do {
     x \<leftarrow> ird ids (i + 1);
     if x > a then midl_sort_up a ids (i + 1) else Some (i + 1)
   }"

partial_function (option) midl_sort_down :: "u64 \<Rightarrow> u64 list \<Rightarrow> int \<Rightarrow> int option" where
  [code]: "midl_sort_down a ids j = do {
     x \<leftarrow> ird ids (j - 1);
     if x < a then midl_sort_down a ids (j - 1) else Some (j - 1)
   }"

partial_function (option) midl_sort_partition :: "u64 \<Rightarrow> int \<Rightarrow> int \<Rightarrow> u64 list \<Rightarrow> (int \<times> int \<times> u64 list) option" where
  [code]: "midl_sort_partition a i j ids = do {
     i \<leftarrow> midl_sort_up a ids i;
     j \<leftarrow> midl_sort_down a ids j;
     if j < i then Some (i, j, ids)
     else do {
       ids \<leftarrow> MIDL_SWAP ids i j;
       midl_sort_partition a i j ids
     }
   }"

text \<open>The outer loop: sort a small segment and take the next from the stack, or split a large one and
  push its longer part.\<close>

partial_function (option) midl_sort_loop :: "int list \<Rightarrow> int \<Rightarrow> int \<Rightarrow> int \<Rightarrow> u64 list \<Rightarrow> u64 list option" where
  [code]: "midl_sort_loop istack jstack l ir ids =
     (if ir - l < SMALL then do {
        ids \<leftarrow> midl_sort_insertion ir (l + 1) ids;
        if jstack = 0 then Some ids
        else do {
          ir \<leftarrow> ird istack jstack;
          l \<leftarrow> ird istack (jstack - 1);
          midl_sort_loop istack (jstack - 2) l ir ids
        }
      } else do {
        ids \<leftarrow> midl_sort_median l ir ids;
        a \<leftarrow> ird ids (l + 1);
        (i, j, ids) \<leftarrow> midl_sort_partition a (l + 1) ir ids;
        x \<leftarrow> ird ids j;
        ids \<leftarrow> iwr ids (l + 1) x;
        ids \<leftarrow> iwr ids j a;
        (if ir - i + 1 \<ge> j - l then do {
           istack \<leftarrow> iwr istack (jstack + 2) ir;
           istack \<leftarrow> iwr istack (jstack + 2 - 1) i;
           midl_sort_loop istack (jstack + 2) l (j - 1) ids
         } else do {
           istack \<leftarrow> iwr istack (jstack + 2) (j - 1);
           istack \<leftarrow> iwr istack (jstack + 2 - 1) l;
           midl_sort_loop istack (jstack + 2) i ir ids
         })
      })"

definition mdb_midl_sort :: "int list \<Rightarrow> u64 list \<Rightarrow> u64 list option" where
  "mdb_midl_sort istack ids = do {
     n \<leftarrow> rd ids 0;
     midl_sort_loop istack 0 1 (sint (ucast n :: u32)) ids
   }"


section \<open>Rearranging a segment\<close>

abbreviation el :: "u64 list \<Rightarrow> int \<Rightarrow> u64" where
  "el a i \<equiv> a ! nat i"

definition desc :: "u64 list \<Rightarrow> int \<Rightarrow> int \<Rightarrow> bool" where
  "desc a l r = (\<forall>p q. l \<le> p \<and> p < q \<and> q \<le> r \<longrightarrow> el a q \<le> el a p)"

text \<open>\<open>b\<close> is \<open>a\<close> with the elements of the segment from \<open>l\<close> to \<open>r\<close> rearranged.\<close>

definition seg_perm :: "int \<Rightarrow> int \<Rightarrow> u64 list \<Rightarrow> u64 list \<Rightarrow> bool" where
  "seg_perm l r a b = (length a = length b \<and> mset a = mset b
     \<and> (\<forall>p. 0 \<le> p \<and> (p < l \<or> r < p) \<longrightarrow> el b p = el a p))"

lemma seg_perm_refl [simp]: "seg_perm l r a a"
  by (simp add: seg_perm_def)

lemma seg_perm_trans: "seg_perm l r a b \<Longrightarrow> seg_perm l r b c \<Longrightarrow> seg_perm l r a c"
  by (simp add: seg_perm_def)

lemma seg_perm_mono: "seg_perm l r a b \<Longrightarrow> l' \<le> l \<Longrightarrow> r \<le> r' \<Longrightarrow> seg_perm l' r' a b"
  by (auto simp: seg_perm_def)

lemma seg_perm_length: "seg_perm l r a b \<Longrightarrow> length b = length a"
  by (simp add: seg_perm_def)

lemma seg_perm_outside: "seg_perm l r a b \<Longrightarrow> 0 \<le> p \<Longrightarrow> p < l \<or> r < p \<Longrightarrow> el b p = el a p"
  by (simp add: seg_perm_def)

lemma seg_perm_inside:
  assumes "seg_perm l r a b" and "0 \<le> l" and "r < int (length a)" and "l \<le> q" and "q \<le> r"
  shows "\<exists>q'. l \<le> q' \<and> q' \<le> r \<and> el b q = el a q'"
proof -
  define m n where "m = nat l" "n = nat (r + 1)"
  have mn: "m \<le> n" "n \<le> length a" "nat q < n" "m \<le> nat q"
    using assms by (simp_all add: m_n_def)
  have ab: "length a = length b" "mset a = mset b"
    using assms(1) by (simp_all add: seg_perm_def)
  have out: "b ! i = a ! i" if "i < m \<or> n \<le> i" for i
  proof -
    have "int i < l \<or> r < int i"
      using that assms(2) unfolding m_n_def by linarith
    then show ?thesis
      using seg_perm_outside [OF assms(1), of "int i"] by simp
  qed
  have t: "take m a = take m b" and d: "drop n a = drop n b"
    using ab(1) out by (auto intro!: nth_equalityI)
  have cut: "x = take m x @ take (n - m) (drop m x) @ drop n x" for x :: "u64 list"
    using mn(1) append_take_drop_id [of m x] append_take_drop_id [of "n - m" "drop m x"] by simp
  have "mset (take (n - m) (drop m a)) = mset (take (n - m) (drop m b))"
    using arg_cong [OF cut [of a], of mset] arg_cong [OF cut [of b], of mset] ab(2) t d by simp
  then have "set (take (n - m) (drop m b)) = set (take (n - m) (drop m a))"
    by (metis set_mset_mset)
  moreover have "take (n - m) (drop m b) ! (nat q - m) = el b q" "nat q - m < length (take (n - m) (drop m b))"
    using mn ab(1) by simp_all
  ultimately have "el b q \<in> set (take (n - m) (drop m a))"
    by (metis nth_mem)
  then obtain i where "i < n - m" "el b q = a ! (m + i)"
    using mn(2) by (auto simp: in_set_conv_nth)
  then show ?thesis
    using assms(2) by (intro exI [of _ "int (m + i)"]) (auto simp: m_n_def nat_add_distrib)
qed

section \<open>Single operations\<close>

lemma ird_in [simp]: "0 \<le> i \<Longrightarrow> i < int (length a) \<Longrightarrow> ird a i = Some (a ! nat i)"
  by (simp add: ird_def nat_less_iff)

lemma iwr_in [simp]: "0 \<le> i \<Longrightarrow> i < int (length a) \<Longrightarrow> iwr a i x = Some (a[nat i := x])"
  by (simp add: iwr_def nat_less_iff)

lemma el_update: "0 \<le> i \<Longrightarrow> i < int (length a) \<Longrightarrow> 0 \<le> p \<Longrightarrow> el (a[nat i := x]) p = (if p = i then x else el a p)"
  by (auto simp: nth_list_update nat_less_iff)

lemma swap_seg_perm:
  assumes "0 \<le> l" and "r < int (length ids)" and "l \<le> i" "i \<le> r" and "l \<le> j" "j \<le> r"
  shows "seg_perm l r ids (ids[nat i := el ids j, nat j := el ids i])"
  using assms mset_swap [of "nat j" ids "nat i"] by (auto simp: seg_perm_def el_update nat_less_iff)

lemma MIDL_SWAP_eq:
  assumes "0 \<le> i" and "i < int (length ids)" and "0 \<le> j" and "j < int (length ids)"
  shows "MIDL_SWAP ids i j = Some (ids[nat i := el ids j, nat j := el ids i])"
  using assms by (simp add: MIDL_SWAP_def)

lemma order_eq:
  assumes "0 \<le> l" and "r < int (length ids)" and "l \<le> i" "i \<le> r" and "l \<le> j" "j \<le> r" and "i \<noteq> j"
  shows "\<exists>ids'. midl_sort_order ids i j = Some ids' \<and> seg_perm l r ids ids'
    \<and> el ids' i = max (el ids i) (el ids j) \<and> el ids' j = min (el ids i) (el ids j)
    \<and> (\<forall>p. 0 \<le> p \<and> p \<noteq> i \<and> p \<noteq> j \<longrightarrow> el ids' p = el ids p)"
proof (cases "el ids i < el ids j")
  case True
  then show ?thesis
    using assms swap_seg_perm [OF assms(1-6)]
    by (intro exI [of _ "ids[nat i := el ids j, nat j := el ids i]"])
      (simp add: midl_sort_order_def MIDL_SWAP_eq el_update)
next
  case False
  then show ?thesis
    using assms by (intro exI [of _ ids]) (simp add: midl_sort_order_def max_def min_def not_less)
qed

lemma median_eq:
  assumes "1 \<le> l" and "l + 2 \<le> ir" and "ir < int (length ids)" and "l + ir < 2 ^ 31"
  shows "\<exists>ids'. midl_sort_median l ir ids = Some ids' \<and> seg_perm l ir ids ids'
    \<and> el ids' ir \<le> el ids' (l + 1) \<and> el ids' (l + 1) \<le> el ids' l"
proof -
  have k: "l \<le> (l + ir) div 2" "(l + ir) div 2 \<le> ir"
    using assms(2) by simp_all
  define x where "x = ids[nat ((l + ir) div 2) := el ids (l + 1), nat (l + 1) := el ids ((l + ir) div 2)]"
  have s: "MIDL_SWAP ids ((l + ir) div 2) (l + 1) = Some x"
    unfolding x_def using assms k by (intro MIDL_SWAP_eq) simp_all
  have p: "seg_perm l ir ids x"
    unfolding x_def using assms k by (intro swap_seg_perm) simp_all
  note len = seg_perm_length [OF p]
  obtain a where a: "midl_sort_order x l ir = Some a" "seg_perm l ir x a"
    "el a l = max (el x l) (el x ir)" "el a ir = min (el x l) (el x ir)"
    using order_eq [of l ir x l ir] assms len by auto
  note alen = seg_perm_length [OF a(2)]
  obtain b where b: "midl_sort_order a (l + 1) ir = Some b" "seg_perm l ir a b"
    "el b (l + 1) = max (el a (l + 1)) (el a ir)" "el b ir = min (el a (l + 1)) (el a ir)" "el b l = el a l"
    using order_eq [of l ir a "l + 1" ir] assms len alen by auto
  note blen = seg_perm_length [OF b(2)]
  obtain c where c: "midl_sort_order b l (l + 1) = Some c" "seg_perm l ir b c"
    "el c l = max (el b l) (el b (l + 1))" "el c (l + 1) = min (el b l) (el b (l + 1))" "el c ir = el b ir"
    using order_eq [of l ir b l "l + 1"] assms len alen blen by auto
  have "midl_sort_median l ir ids = Some c"
    using assms by (simp add: midl_sort_median_def int_add_def s a(1) b(1) c(1))
  moreover have "seg_perm l ir ids c"
    using p a(2) b(2) c(2) seg_perm_trans by blast
  moreover have "el c ir \<le> el c (l + 1)" "el c (l + 1) \<le> el c l"
    unfolding c(3-5) b(3-5) a(3,4) by (auto simp: min_le_iff_disj le_max_iff_disj)
  ultimately show ?thesis by blast
qed

section \<open>Insertion sort\<close>

text \<open>
  The state of the shift: \<open>a\<close> is the element of position \<open>j\<close> of \<open>o'\<close>; positions above \<open>i + 1\<close> up to \<open>j\<close>
  hold the elements of \<open>o'\<close> one place down, all smaller than \<open>a\<close>, and the hole is at \<open>i + 1\<close>.
\<close>

definition shifted :: "u64 list \<Rightarrow> u64 \<Rightarrow> int \<Rightarrow> int \<Rightarrow> u64 list \<Rightarrow> bool" where
  "shifted o' a j i ids = (length ids = length o' \<and> mset (ids[nat (i + 1) := a]) = mset o'
     \<and> (\<forall>p. 0 \<le> p \<and> (p \<le> i \<or> j < p) \<longrightarrow> el ids p = el o' p)
     \<and> (\<forall>p. i < p \<and> p < j \<longrightarrow> el ids (p + 1) = el o' p \<and> el o' p < a))"

lemma shifted_step:
  assumes "shifted o' a j i ids" and "1 \<le> i" and "i < j" and "j < int (length o')" and "el ids i < a"
  shows "shifted o' a j (i - 1) (ids[nat (i + 1) := el ids i])"
proof -
  let ?m = "nat i" and ?n = "nat (i + 1)"
  have l: "length ids = length o'" and i: "?m < length ids" "?n < length ids" "?m \<noteq> ?n"
    using assms by (auto simp: shifted_def nat_less_iff)
  have "mset (ids[?n := el ids i, ?m := a]) = mset (ids[?n := a])"
  proof -
    let ?x = "ids[?n := a]"
    have "mset (?x[?m := ?x ! ?n, ?n := ?x ! ?m]) = mset ?x"
      using i by (intro mset_swap) simp_all
    moreover have "?x[?m := ?x ! ?n, ?n := ?x ! ?m] = ids[?n := el ids i, ?m := a]"
      using i by (simp add: list_update_swap)
    ultimately show ?thesis by simp
  qed
  moreover have "el ids i = el o' i"
    using assms(1,2) by (simp add: shifted_def)
  moreover have "el (ids[?n := el ids i]) p = (if p = i + 1 then el ids i else el ids p)" if "0 \<le> p" for p
    using that assms(2,3,4) l by (intro el_update) simp_all
  ultimately show ?thesis
    using assms(1-3,5) by (auto simp: shifted_def)
qed

lemma shift_eq:
  assumes "shifted o' a j i ids" and "1 \<le> l" and "l - 1 \<le> i" and "i < j" and "j < int (length o')"
    and "\<And>p. 1 \<le> p \<Longrightarrow> p < l \<Longrightarrow> a \<le> el o' p"
  shows "\<exists>i' ids'. midl_sort_shift a i ids = Some (i', ids') \<and> l - 1 \<le> i' \<and> i' < j
    \<and> shifted o' a j i' ids' \<and> (l \<le> i' \<longrightarrow> a \<le> el o' i')"
  using assms(1,3,4)
proof (induction "nat i" arbitrary: i ids rule: less_induct)
  case less
  have len: "length ids = length o'"
    using less.prems(1) by (simp add: shifted_def)
  show ?case
  proof (cases "1 \<le> i")
    case False
    then have "i = l - 1"
      using less.prems(2) assms(2) by simp
    then show ?thesis
      using False less.prems by (subst midl_sort_shift.simps) simp
  next
    case True
    have r: "ird ids i = Some (el ids i)" and e: "el ids i = el o' i"
      using True less.prems assms(5) len by (simp_all add: shifted_def)
    show ?thesis
    proof (cases "a \<le> el ids i")
      case a: True
      then show ?thesis
        using True less.prems e by (subst midl_sort_shift.simps) (simp add: r)
    next
      case a: False
      then have li: "l \<le> i"
        using assms(6) [of i] e True by force
      let ?ids = "ids[nat (i + 1) := el ids i]"
      have w: "iwr ids (i + 1) (el ids i) = Some ?ids"
        using True less.prems(3) assms(5) len by simp
      have "midl_sort_shift a i ids = midl_sort_shift a (i - 1) ?ids"
        using True a by (subst midl_sort_shift.simps) (simp add: r w)
      moreover have "shifted o' a j (i - 1) ?ids"
        using a True less.prems assms(5) by (intro shifted_step) (simp_all add: not_le)
      ultimately show ?thesis
        using less.hyps [of "i - 1" ?ids] less.prems li True by simp
    qed
  qed
qed

lemma insert_one:
  assumes "desc ids l (j - 1)" and "1 \<le> l" and "l < j" and "j < int (length ids)"
    and "\<And>p. 1 \<le> p \<Longrightarrow> p < l \<Longrightarrow> el ids j \<le> el ids p"
  shows "\<exists>i ids1. midl_sort_shift (el ids j) (j - 1) ids = Some (i, ids1) \<and> l - 1 \<le> i \<and> i < j
    \<and> iwr ids1 (i + 1) (el ids j) = Some (ids1[nat (i + 1) := el ids j])
    \<and> seg_perm l j ids (ids1[nat (i + 1) := el ids j]) \<and> desc (ids1[nat (i + 1) := el ids j]) l j"
proof -
  let ?a = "el ids j"
  have "shifted ids ?a j (j - 1) ids"
    by (simp add: shifted_def)
  from shift_eq [OF this assms(2) _ _ assms(4,5)] assms(3) obtain i ids1 where
    i: "midl_sort_shift ?a (j - 1) ids = Some (i, ids1)" "l - 1 \<le> i" "i < j" "shifted ids ?a j i ids1"
      "l \<le> i \<Longrightarrow> ?a \<le> el ids i"
    by auto
  let ?b = "ids1[nat (i + 1) := ?a]"
  have len: "length ids1 = length ids" "mset ?b = mset ids"
    using i(4) by (simp_all add: shifted_def)
  have b: "el ?b p = (if p = i + 1 then ?a else el ids1 p)" if "0 \<le> p" for p
    using that assms(2,4) i(2,3) len by (intro el_update) simp_all
  have low: "el ?b p = el ids p" if "0 \<le> p" "p \<le> i \<or> j < p" for p
    using that i(3,4) by (auto simp: b shifted_def)
  have mid': "el ?b p = el ids (p - 1)" "el ids (p - 1) < ?a" if "i + 1 < p" "p \<le> j" for p
  proof -
    have "i < p - 1 \<and> p - 1 < j"
      using that by simp
    then have "el ids1 (p - 1 + 1) = el ids (p - 1)" "el ids (p - 1) < ?a"
      using i(4) unfolding shifted_def by blast+
    then show "el ?b p = el ids (p - 1)" "el ids (p - 1) < ?a"
      using that i(2) assms(2) by (simp_all add: b)
  qed
  have hole: "el ?b (i + 1) = ?a"
    using i(2) assms(2) by (simp add: b)
  have old: "el ids q \<le> el ids p" if "l \<le> p" "p \<le> q" "q < j" for p q
    using assms(1) that by (cases "p = q") (simp_all add: desc_def)
  have "desc ?b l j"
    unfolding desc_def
  proof (intro allI impI)
    fix p q
    assume pq: "l \<le> p \<and> p < q \<and> q \<le> j"
    have p0: "0 \<le> p" "0 \<le> q" using pq assms(2) by simp_all
    consider "q \<le> i" | "q = i + 1" | "i + 1 < q" "p \<le> i" | "i + 1 < q" "p = i + 1" | "i + 1 < p"
      by linarith
    then show "el ?b q \<le> el ?b p"
    proof cases
      case 1
      then show ?thesis using pq p0 i(3) low old [of p q] by simp
    next
      case 2
      then have "el ids i \<le> el ids p" "?a \<le> el ids i"
        using pq i(3,5) old [of p i] by simp_all
      then show ?thesis using 2 pq p0 low [of p] hole by simp
    next
      case 3
      then show ?thesis using pq p0 low [of p] mid' [of q] old [of p "q - 1"] by simp
    next
      case 4
      then show ?thesis using pq hole mid' [of q] by simp
    next
      case 5
      then show ?thesis using pq mid' [of p] mid' [of q] old [of "p - 1" "q - 1"] i(2) by simp
    qed
  qed
  moreover have "seg_perm l j ids ?b"
  proof -
    have "el ?b p = el ids p" if "0 \<le> p" "p < l \<or> j < p" for p
      using that(2) i(2) by (intro low [OF that(1)]) linarith
    then show ?thesis
      using len by (simp add: seg_perm_def)
  qed
  moreover have "iwr ids1 (i + 1) ?a = Some ?b"
    using i(2,3) assms(2,4) len by simp
  ultimately show ?thesis
    using i by blast
qed

lemma insertion_eq:
  assumes "desc ids l (j - 1)" and "1 \<le> l" and "l < j" and "ir < int (length ids)"
    and "\<And>p q. 1 \<le> p \<Longrightarrow> p < l \<Longrightarrow> l \<le> q \<Longrightarrow> q \<le> ir \<Longrightarrow> el ids q \<le> el ids p"
  shows "\<exists>ids'. midl_sort_insertion ir j ids = Some ids' \<and> seg_perm l ir ids ids' \<and> desc ids' l ir"
  using assms(1,3-)
proof (induction "nat (ir + 1 - j)" arbitrary: j ids rule: less_induct)
  case less
  show ?case
  proof (cases "j \<le> ir")
    case False
    then have "desc ids l ir"
      using less.prems(1) by (auto simp: desc_def)
    then show ?thesis
      using False by (subst midl_sort_insertion.simps) simp
  next
    case True
    obtain i ids1 where s: "midl_sort_shift (el ids j) (j - 1) ids = Some (i, ids1)"
      "iwr ids1 (i + 1) (el ids j) = Some (ids1[nat (i + 1) := el ids j])"
      "seg_perm l j ids (ids1[nat (i + 1) := el ids j])" "desc (ids1[nat (i + 1) := el ids j]) l j"
      using insert_one [OF less.prems(1) assms(2) less.prems(2)] less.prems(2,3,4) True by auto
    define b where "b = ids1[nat (i + 1) := el ids j]"
    note s = s [folded b_def]
    have r: "ird ids j = Some (el ids j)"
      using True less.prems(2,3) assms(2) by simp
    have step: "midl_sort_insertion ir j ids = midl_sort_insertion ir (j + 1) b"
      using True by (subst midl_sort_insertion.simps) (simp add: r s(1,2))
    have p: "seg_perm l ir ids b"
      using seg_perm_mono [OF s(3), of l ir] True by simp
    have sep: "el b q \<le> el b p" if "1 \<le> p" "p < l" "l \<le> q" "q \<le> ir" for p q
      using seg_perm_inside [OF p _ less.prems(3) that(3,4)] seg_perm_outside [OF p, of p] that assms(2) less.prems(4) by force
    have "\<exists>ids'. midl_sort_insertion ir (j + 1) b = Some ids' \<and> seg_perm l ir b ids' \<and> desc ids' l ir"
      using less.hyps [of "j + 1" b] True s(4) less.prems(2,3) sep seg_perm_length [OF p] by simp
    then show ?thesis
      unfolding step using p seg_perm_trans by blast
  qed
qed

section \<open>Partition\<close>

lemma up_eq:
  assumes "0 \<le> i" and "i < e" and "e < int (length ids)" and "el ids e \<le> a"
  shows "\<exists>i'. midl_sort_up a ids i = Some i' \<and> i < i' \<and> i' \<le> e \<and> el ids i' \<le> a \<and> (\<forall>p. i < p \<and> p < i' \<longrightarrow> a < el ids p)"
  using assms(1,2)
proof (induction "nat (e - i)" arbitrary: i rule: less_induct)
  case less
  have r: "ird ids (i + 1) = Some (el ids (i + 1))"
    using less.prems assms(3) by simp
  show ?case
  proof (cases "a < el ids (i + 1)")
    case False
    then show ?thesis
      using less.prems by (subst midl_sort_up.simps) (auto simp: r)
  next
    case True
    then have e: "i + 1 < e"
      using less.prems assms(4) by (cases "i + 1 = e") auto
    obtain i' where i': "midl_sort_up a ids (i + 1) = Some i'" "i + 1 < i'" "i' \<le> e" "el ids i' \<le> a"
      "\<forall>p. i + 1 < p \<and> p < i' \<longrightarrow> a < el ids p"
      using less.hyps [of "i + 1"] less.prems e by auto
    have "midl_sort_up a ids i = Some i'"
      using True by (subst midl_sort_up.simps) (simp add: r i'(1))
    moreover have "a < el ids p" if "i < p" "p < i'" for p
      using that True i'(5) by (cases "p = i + 1") auto
    ultimately show ?thesis
      using i' by auto
  qed
qed

lemma down_eq:
  assumes "0 \<le> e" and "e < j" and "j \<le> int (length ids)" and "a \<le> el ids e"
  shows "\<exists>j'. midl_sort_down a ids j = Some j' \<and> e \<le> j' \<and> j' < j \<and> a \<le> el ids j' \<and> (\<forall>p. j' < p \<and> p < j \<longrightarrow> el ids p < a)"
  using assms(2,3)
proof (induction "nat (j - e)" arbitrary: j rule: less_induct)
  case less
  have r: "ird ids (j - 1) = Some (el ids (j - 1))"
    using less.prems assms(1) by simp
  show ?case
  proof (cases "el ids (j - 1) < a")
    case False
    then show ?thesis
      using less.prems by (subst midl_sort_down.simps) (auto simp: r)
  next
    case True
    then have e: "e < j - 1"
      using less.prems assms(4) by (cases "e = j - 1") auto
    obtain j' where j': "midl_sort_down a ids (j - 1) = Some j'" "e \<le> j'" "j' < j - 1" "a \<le> el ids j'"
      "\<forall>p. j' < p \<and> p < j - 1 \<longrightarrow> el ids p < a"
      using less.hyps [of "j - 1"] less.prems e by auto
    have "midl_sort_down a ids j = Some j'"
      using True by (subst midl_sort_down.simps) (simp add: r j'(1))
    moreover have "el ids p < a" if "j' < p" "p < j" for p
      using that True j'(5) by (cases "p = j - 1") auto
    ultimately show ?thesis
      using j' by auto
  qed
qed

text \<open>What the partition loop keeps: the elements up to \<open>i\<close> are at least the pivot \<open>a\<close>, those from \<open>j\<close> on at
  most; the pivot waits at \<open>l + 1\<close>, and the last element stops the upward scan.\<close>

definition partitioning :: "int \<Rightarrow> int \<Rightarrow> u64 \<Rightarrow> int \<Rightarrow> int \<Rightarrow> u64 list \<Rightarrow> bool" where
  "partitioning l r a i j ids = (1 \<le> l \<and> r < int (length ids) \<and> l + 1 \<le> i \<and> i < r \<and> l + 1 < j \<and> j \<le> r
     \<and> el ids (l + 1) = a \<and> el ids r \<le> a
     \<and> (\<forall>p. l \<le> p \<and> p \<le> i \<longrightarrow> a \<le> el ids p) \<and> (\<forall>p. j \<le> p \<and> p \<le> r \<longrightarrow> el ids p \<le> a))"

lemma partition_eq:
  "partitioning l r a i j ids \<Longrightarrow>
    \<exists>i' j' ids'. midl_sort_partition a i j ids = Some (i', j', ids') \<and> seg_perm l r ids ids'
      \<and> l + 2 \<le> i' \<and> i' \<le> r \<and> l + 1 \<le> j' \<and> j' < r \<and> j' < i' \<and> el ids' (l + 1) = a
      \<and> (\<forall>p. l \<le> p \<and> p < i' \<longrightarrow> a \<le> el ids' p) \<and> (\<forall>p. j' < p \<and> p \<le> r \<longrightarrow> el ids' p \<le> a)"
proof (induction "nat (r - i)" arbitrary: i j ids rule: less_induct)
  case less
  from less.prems have b: "1 \<le> l" "r < int (length ids)" "l + 1 \<le> i" "i < r" "l + 1 < j" "j \<le> r"
    "el ids (l + 1) = a" "el ids r \<le> a"
    and left: "\<And>p. l \<le> p \<Longrightarrow> p \<le> i \<Longrightarrow> a \<le> el ids p" and right: "\<And>p. j \<le> p \<Longrightarrow> p \<le> r \<Longrightarrow> el ids p \<le> a"
    unfolding partitioning_def by blast+
  obtain i' where i': "midl_sort_up a ids i = Some i'" "i < i'" "i' \<le> r" "el ids i' \<le> a" "\<And>p. i < p \<Longrightarrow> p < i' \<Longrightarrow> a < el ids p"
    using up_eq [of i r ids a] b by auto
  obtain j' where j': "midl_sort_down a ids j = Some j'" "l + 1 \<le> j'" "j' < j" "a \<le> el ids j'" "\<And>p. j' < p \<Longrightarrow> p < j \<Longrightarrow> el ids p < a"
    using down_eq [of "l + 1" j ids a] b by auto
  have left': "a \<le> el ids p" if "l \<le> p" "p < i'" for p
    using left [of p] i'(5) [of p] that by force
  have right': "el ids p \<le> a" if "j' < p" "p \<le> r" for p
    using right [of p] j'(5) [of p] that by force
  show ?case
  proof (cases "j' < i'")
    case True
    then have "midl_sort_partition a i j ids = Some (i', j', ids)"
      by (subst midl_sort_partition.simps) (simp add: i'(1) j'(1))
    then show ?thesis
      using True i' j' b left' right' by auto
  next
    case False
    define x where "x = ids[nat i' := el ids j', nat j' := el ids i']"
    have s: "MIDL_SWAP ids i' j' = Some x"
      unfolding x_def using i'(2,3) j'(2,3) b by (intro MIDL_SWAP_eq) simp_all
    have p: "seg_perm l r ids x"
      unfolding x_def using i'(2,3) j'(2,3) b by (intro swap_seg_perm) simp_all
    have x: "el x p = (if p = j' then el ids i' else if p = i' then el ids j' else el ids p)" if "0 \<le> p" for p
      unfolding x_def using that i'(2,3) j'(2,3) b by (simp add: el_update)
    have "partitioning l r a i' j' x"
      unfolding partitioning_def
    proof (intro conjI allI impI)
      show "el x (l + 1) = a" "el x r \<le> a"
        using x b i'(2) j'(3) False by simp_all
      show "a \<le> el x p" if "l \<le> p \<and> p \<le> i'" for p
        using that x [of p] left' [of p] j'(4) i'(2,4) False b(1) by (cases "p = i'") (auto simp: order.antisym)
      show "el x p \<le> a" if "j' \<le> p \<and> p \<le> r" for p
        using that x [of p] right' [of p] i'(4) j'(4) False b(1) i'(2) j'(2) by (cases "p = j'") auto
    qed (use b i' j' False seg_perm_length [OF p] in auto)
    then obtain i2 j2 y where y: "midl_sort_partition a i' j' x = Some (i2, j2, y)" "seg_perm l r x y"
      "l + 2 \<le> i2" "i2 \<le> r" "l + 1 \<le> j2" "j2 < r" "j2 < i2" "el y (l + 1) = a"
      "\<forall>p. l \<le> p \<and> p < i2 \<longrightarrow> a \<le> el y p" "\<forall>p. j2 < p \<and> p \<le> r \<longrightarrow> el y p \<le> a"
      using less.hyps [of i' j' x] i'(2) b(4) by auto
    have "midl_sort_partition a i j ids = Some (i2, j2, y)"
      using False by (subst midl_sort_partition.simps) (simp add: i'(1) j'(1) s y(1))
    then show ?thesis
      using y seg_perm_trans [OF p y(2)] by auto
  qed
qed

section \<open>Pending segments\<close>

text \<open>A segment is separated when everything before it is at least, and everything after it at most, what it holds.\<close>

definition sep :: "u64 list \<Rightarrow> int \<Rightarrow> int \<times> int \<Rightarrow> bool" where
  "sep a n s = (\<forall>p q. fst s \<le> q \<and> q \<le> snd s \<longrightarrow>
     (1 \<le> p \<and> p < fst s \<longrightarrow> el a q \<le> el a p) \<and> (snd s < p \<and> p \<le> n \<longrightarrow> el a p \<le> el a q))"

lemma sepD:
  assumes "sep a n (l, r)" and "l \<le> q" and "q \<le> r"
  shows "1 \<le> p \<Longrightarrow> p < l \<Longrightarrow> el a q \<le> el a p" "r < p \<Longrightarrow> p \<le> n \<Longrightarrow> el a p \<le> el a q"
  using assms by (simp_all add: sep_def)

lemma seg_perm_source:
  assumes "seg_perm l r a b" and "0 \<le> l" and "r < int (length a)" and "0 \<le> x"
  shows "\<exists>x'. el b x = el a x' \<and> (if l \<le> x \<and> x \<le> r then l \<le> x' \<and> x' \<le> r else x' = x)"
  using seg_perm_inside [OF assms(1-3), of x] seg_perm_outside [OF assms(1,4)]
  by (cases "l \<le> x \<and> x \<le> r") auto

lemma sep_perm:
  assumes "seg_perm l r a b" and "1 \<le> l" and "r < int (length a)" and "r \<le> n" and "sep a n (l', r')" and "1 \<le> l'" and "r' \<le> n"
    and "r < l' \<or> r' < l \<or> (l' = l \<and> r' = r)"
  shows "sep b n (l', r')"
  unfolding sep_def
proof (intro allI impI, goal_cases)
  case (1 p q)
  then have q: "l' \<le> q" "q \<le> r'" by simp_all
  have l0: "0 \<le> l" using assms(2) by simp
  obtain q' where q': "el b q = el a q'" "if l \<le> q \<and> q \<le> r then l \<le> q' \<and> q' \<le> r else q' = q"
    using seg_perm_source [OF assms(1) l0 assms(3), of q] q assms(6) by auto
  have q2: "l' \<le> q'" "q' \<le> r'"
    using q q'(2) assms(8) by (auto split: if_splits)
  show ?case
  proof (intro conjI impI)
    assume p: "1 \<le> p \<and> p < fst (l', r')"
    then obtain p' where p': "el b p = el a p'" "if l \<le> p \<and> p \<le> r then l \<le> p' \<and> p' \<le> r else p' = p"
      using seg_perm_source [OF assms(1) l0 assms(3), of p] by auto
    have "1 \<le> p'" "p' < l'"
      using p p'(2) assms(2,8) q by (auto split: if_splits)
    then show "el b q \<le> el b p"
      unfolding q'(1) p'(1) by (rule sepD(1) [OF assms(5) q2])
  next
    assume p: "snd (l', r') < p \<and> p \<le> n"
    then have "0 \<le> p" using q assms(6) by simp
    then obtain p' where p': "el b p = el a p'" "if l \<le> p \<and> p \<le> r then l \<le> p' \<and> p' \<le> r else p' = p"
      using seg_perm_source [OF assms(1) l0 assms(3), of p] by auto
    have "r' < p'" "p' \<le> n"
      using p p'(2) assms(4,8) q by (auto split: if_splits)
    then show "el b p \<le> el b q"
      unfolding q'(1) p'(1) by (rule sepD(2) [OF assms(5) q2])
  qed
qed

text \<open>One split of a large segment: the code's steps from the median to the placing of the pivot.\<close>

lemma split_eq:
  assumes "1 \<le> l" and "l + 8 \<le> r" and "r \<le> n" and "n < int (length ids)" and "l + r < 2 ^ 31" and "sep ids n (l, r)"
  shows "\<exists>m a i j q b. midl_sort_median l r ids = Some m \<and> ird m (l + 1) = Some a
    \<and> midl_sort_partition a (l + 1) r m = Some (i, j, q)
    \<and> ird q j = Some (el q j) \<and> iwr q (l + 1) (el q j) = Some (q[nat (l + 1) := el q j])
    \<and> iwr (q[nat (l + 1) := el q j]) j a = Some b \<and> seg_perm l r ids b
    \<and> l + 2 \<le> i \<and> i \<le> r \<and> l + 1 \<le> j \<and> j < i
    \<and> sep b n (l, j - 1) \<and> sep b n (i, r) \<and> (\<forall>p. j \<le> p \<and> p < i \<longrightarrow> sep b n (p, p))"
proof -
  obtain m where m: "midl_sort_median l r ids = Some m" "seg_perm l r ids m" "el m r \<le> el m (l + 1)" "el m (l + 1) \<le> el m l"
    using median_eq [of l r ids] assms by auto
  note ml = seg_perm_length [OF m(2)]
  define a where "a = el m (l + 1)"
  have "partitioning l r a (l + 1) r m"
    unfolding partitioning_def
  proof (intro conjI allI impI)
    show "a \<le> el m p" if "l \<le> p \<and> p \<le> l + 1" for p
    proof -
      have "p = l \<or> p = l + 1"
        using that by linarith
      then show ?thesis
        using m(4) by (auto simp: a_def)
    qed
    show "el m p \<le> a" if "r \<le> p \<and> p \<le> r" for p
    proof -
      have "p = r"
        using that by linarith
      then show ?thesis
        using m(3) by (simp add: a_def)
    qed
  qed (use assms m ml in \<open>auto simp: a_def\<close>)
  from partition_eq [OF this] obtain i j q where q: "midl_sort_partition a (l + 1) r m = Some (i, j, q)" "seg_perm l r m q"
    "l + 2 \<le> i" "i \<le> r" "l + 1 \<le> j" "j < r" "j < i" "el q (l + 1) = a"
    "\<And>p. l \<le> p \<Longrightarrow> p < i \<Longrightarrow> a \<le> el q p" "\<And>p. j < p \<Longrightarrow> p \<le> r \<Longrightarrow> el q p \<le> a"
    by blast
  have ql: "length q = length ids"
    using seg_perm_length [OF q(2)] ml by simp
  define b where "b = q[nat (l + 1) := el q j, nat j := el q (l + 1)]"
  have "seg_perm l r q b"
    unfolding b_def using q assms ql by (intro swap_seg_perm) simp_all
  then have p: "seg_perm l r ids b"
    using m(2) q(2) seg_perm_trans by blast
  have bv: "el b p = (if p = j then a else if p = l + 1 then el q j else el q p)" if "0 \<le> p" for p
    unfolding b_def using that q assms ql by (simp add: el_update)
  have left: "a \<le> el b p" if "l \<le> p" "p < i" for p
    using that q assms(1) by (simp add: bv)
  have right: "el b p \<le> a" if "j \<le> p" "p \<le> r" for p
    using that q assms(1) by (simp add: bv)
  have whole: "sep b n (l, r)"
    using sep_perm [OF p assms(1) _ assms(3,6,1,3)] assms(3,4) by simp
  note w1 = sepD(1) [OF whole] and w2 = sepD(2) [OF whole]
  have mid': "sep b n (u, v)" if "l \<le> u" "v \<le> r" "v < i" "j \<le> v + 1 \<or> v < u" "u = l \<or> j \<le> u" for u v
    unfolding sep_def fst_conv snd_conv
  proof (intro allI impI conjI, goal_cases)
    case (1 p x)
    show ?case
    proof (cases "p < l")
      case False
      then have "a \<le> el b p" "el b x \<le> a"
        using 1 that left [of p] right [of x] by auto
      then show ?thesis by simp
    qed (use 1 that w1 in auto)
  next
    case (2 p x)
    show ?case
    proof (cases "r < p")
      case False
      then have "a \<le> el b x" "el b p \<le> a"
        using 2 that left [of x] right [of p] by auto
      then show ?thesis by simp
    qed (use 2 that w2 in auto)
  qed
  have top: "sep b n (i, r)"
    unfolding sep_def fst_conv snd_conv
  proof (intro allI impI conjI, goal_cases)
    case (1 p x)
    show ?case
    proof (cases "p < l")
      case False
      then have "a \<le> el b p" "el b x \<le> a"
        using 1 q left [of p] right [of x] by auto
      then show ?thesis by simp
    qed (use 1 q w1 in auto)
  next
    case (2 p x)
    then show ?case using w2 [of x p] q by simp
  qed
  have "sep b n (l, j - 1)" "\<And>p. j \<le> p \<Longrightarrow> p < i \<Longrightarrow> sep b n (p, p)"
    using mid' q by auto
  moreover have "ird m (l + 1) = Some a"
    using assms ml by (simp add: a_def)
  moreover have "iwr (q[nat (l + 1) := el q j]) j a = Some b"
    using q assms ql by (simp add: b_def)
  ultimately show ?thesis
    using m(1) q p top assms ql by (intro exI [of _ m] exI [of _ a] exI [of _ i] exI [of _ j] exI [of _ q] exI [of _ b]) simp
qed

section \<open>The outer loop\<close>

definition pending :: "u64 list \<Rightarrow> int \<Rightarrow> (int \<times> int) list \<Rightarrow> bool" where
  "pending a n segs = ((\<forall>s \<in> set segs. 1 \<le> fst s \<and> snd s \<le> n \<and> sep a n s)
     \<and> sorted_wrt (\<lambda>s t. snd s < fst t \<or> snd t < fst s) segs
     \<and> (\<forall>p. 1 \<le> p \<and> p \<le> n \<longrightarrow> (\<exists>s \<in> set segs. fst s \<le> p \<and> p \<le> snd s) \<or> sep a n (p, p)))"

text \<open>Segments \<open>e\<close> levels up the stack are at most \<open>n / 2^e\<close> long, which bounds its depth.\<close>

definition stacked :: "int list \<Rightarrow> int \<Rightarrow> (int \<times> int) list \<Rightarrow> bool" where
  "stacked istack n ps = (length istack = 64 \<and> length ps \<le> 28
     \<and> (\<forall>e < length ps. istack ! (2 * e + 1) = fst (ps ! e) \<and> istack ! (2 * e + 2) = snd (ps ! e)
       \<and> (snd (ps ! e) - fst (ps ! e) + 1) * 2 ^ e \<le> n))"

lemma pending_rest:
  assumes "pending a n ((l, r) # ps)" and "seg_perm l r a b" and "n < int (length a)"
  shows "\<forall>s \<in> set ps. 1 \<le> fst s \<and> snd s \<le> n \<and> sep b n s"
    "\<And>p. 1 \<le> p \<Longrightarrow> p \<le> n \<Longrightarrow> p < l \<or> r < p \<Longrightarrow> (\<exists>s \<in> set ps. fst s \<le> p \<and> p \<le> snd s) \<or> sep b n (p, p)"
proof -
  have lr: "1 \<le> l" "r \<le> n" "r < int (length a)"
    using assms(1,3) by (simp_all add: pending_def)
  show "\<forall>s \<in> set ps. 1 \<le> fst s \<and> snd s \<le> n \<and> sep b n s"
  proof
    fix s assume s: "s \<in> set ps"
    then have "1 \<le> fst s \<and> snd s \<le> n \<and> sep a n (fst s, snd s)" "r < fst s \<or> snd s < l"
      using assms(1) by (auto simp: pending_def)
    then show "1 \<le> fst s \<and> snd s \<le> n \<and> sep b n s"
      using sep_perm [OF assms(2) lr(1,3,2), of "fst s" "snd s"] by auto
  qed
  fix p assume p: "1 \<le> p" "p \<le> n" "p < l \<or> r < p"
  then have "(\<exists>s \<in> set ps. fst s \<le> p \<and> p \<le> snd s) \<or> sep a n (p, p)"
    using assms(1) by (auto simp: pending_def)
  moreover have "sep a n (p, p) \<Longrightarrow> sep b n (p, p)"
    using sep_perm [OF assms(2) lr(1,3,2), of p p] p by auto
  ultimately show "(\<exists>s \<in> set ps. fst s \<le> p \<and> p \<le> snd s) \<or> sep b n (p, p)"
    by blast
qed

lemma pending_small:
  assumes "pending a n ((l, r) # ps)" and "seg_perm l r a b" and "n < int (length a)" and "desc b l r"
  shows "pending b n ps"
proof -
  have lr: "1 \<le> l" "r \<le> n" "r < int (length a)" "sep a n (l, r)"
    using assms(1,3) by (simp_all add: pending_def)
  have whole: "sep b n (l, r)"
    using sep_perm [OF assms(2) lr(1,3,2,4,1,2)] by simp
  have "sep b n (p, p)" if "l \<le> p" "p \<le> r" for p
    unfolding sep_def fst_conv snd_conv
  proof (intro allI impI conjI, goal_cases)
    case (1 x q)
    then show ?case
      using sepD(1) [OF whole that, of x] assms(4) that by (cases "x < l") (auto simp: desc_def)
  next
    case (2 x q)
    then show ?case
      using sepD(2) [OF whole that, of x] assms(4) that by (cases "r < x") (auto simp: desc_def)
  qed
  then have "(\<exists>s \<in> set ps. fst s \<le> p \<and> p \<le> snd s) \<or> sep b n (p, p)" if "1 \<le> p" "p \<le> n" for p
    using pending_rest(2) [OF assms(1-3) that] by (cases "l \<le> p \<and> p \<le> r") auto
  then show ?thesis
    using pending_rest(1) [OF assms(1-3)] assms(1) by (simp add: pending_def)
qed

lemma pending_split:
  assumes "pending a n ((l, r) # ps)" and "seg_perm l r a b" and "n < int (length a)"
    and "l + 2 \<le> i" "i \<le> r" "l + 1 \<le> j" "j < i"
    and "sep b n (l, j - 1)" "sep b n (i, r)" "\<forall>p. j \<le> p \<and> p < i \<longrightarrow> sep b n (p, p)"
    and xy: "x = (l, j - 1) \<and> y = (i, r) \<or> x = (i, r) \<and> y = (l, j - 1)"
  shows "pending b n (x # ps @ [y])"
proof -
  have lr: "1 \<le> l" "r \<le> n" "sorted_wrt (\<lambda>s t. snd s < fst t \<or> snd t < fst s) ps" "\<And>s. s \<in> set ps \<Longrightarrow> r < fst s \<or> snd s < l"
    using assms(1) by (auto simp: pending_def)
  have in': "l \<le> fst x" "snd x \<le> r" "l \<le> fst y" "snd y \<le> r" "snd x < fst y \<or> snd y < fst x"
    using xy assms(4-7) by auto
  have "sorted_wrt (\<lambda>s t. snd s < fst t \<or> snd t < fst s) (x # ps @ [y])"
    using lr in' by (force simp: sorted_wrt_append)
  moreover have "\<forall>s \<in> set (x # ps @ [y]). 1 \<le> fst s \<and> snd s \<le> n \<and> sep b n s"
    using pending_rest(1) [OF assms(1-3)] xy assms(4-9) lr(1,2) by auto
  moreover have "(\<exists>s \<in> set (x # ps @ [y]). fst s \<le> p \<and> p \<le> snd s) \<or> sep b n (p, p)" if "1 \<le> p" "p \<le> n" for p
  proof (cases "p < l \<or> r < p")
    case True
    then show ?thesis using pending_rest(2) [OF assms(1-3) that] by auto
  next
    case False
    then consider "l \<le> p" "p \<le> j - 1" | "i \<le> p" "p \<le> r" | "j \<le> p" "p < i" by linarith
    then show ?thesis
      using xy assms(10) by cases auto
  qed
  ultimately show ?thesis
    by (simp add: pending_def)
qed

lemma pending_done:
  assumes "pending a n []"
  shows "desc a 1 n"
  unfolding desc_def
proof (intro allI impI)
  fix p q assume pq: "1 \<le> p \<and> p < q \<and> q \<le> n"
  then have "sep a n (q, q)"
    using assms by (simp add: pending_def)
  then show "el a q \<le> el a p"
    using sepD(1) [of a n q q q p] pq by simp
qed

lemma pushed:
  assumes "stacked istack n ps" and "length ps < 28" and "(snd y - fst y + 1) * 2 ^ length ps \<le> n"
  shows "\<exists>st. iwr istack (2 * int (length ps) + 2) (snd y) = Some st
    \<and> iwr st (2 * int (length ps) + 2 - 1) (fst y) = Some (st[2 * length ps + 1 := fst y])
    \<and> stacked (st[2 * length ps + 1 := fst y]) n (ps @ [y])"
proof -
  let ?st = "istack[2 * length ps + 2 := snd y]"
  have len: "length istack = 64"
    using assms(1) by (simp add: stacked_def)
  have i: "nat (2 * int (length ps) + 2) = 2 * length ps + 2" "nat (2 * int (length ps) + 2 - 1) = 2 * length ps + 1"
    by simp_all
  have "iwr istack (2 * int (length ps) + 2) (snd y) = Some ?st"
    using assms(2) len i(1) iwr_in [of "2 * int (length ps) + 2" istack "snd y"] by simp
  moreover have "iwr ?st (2 * int (length ps) + 2 - 1) (fst y) = Some (?st[2 * length ps + 1 := fst y])"
    using assms(2) len i(2) iwr_in [of "2 * int (length ps) + 2 - 1" ?st "fst y"] by simp
  moreover have "stacked (?st[2 * length ps + 1 := fst y]) n (ps @ [y])"
    using assms len by (auto simp: stacked_def nth_append nth_list_update less_Suc_eq)
  ultimately show ?thesis by blast
qed

lemma popped:
  assumes "stacked istack n (ps @ [y])"
  shows "ird istack (2 * int (length (ps @ [y]))) = Some (snd y)" "ird istack (2 * int (length (ps @ [y])) - 1) = Some (fst y)"
    "stacked istack n ps" "(snd y - fst y + 1) * 2 ^ length ps \<le> n"
proof -
  have s: "length istack = 64" "length ps < 28" "istack ! (2 * length ps + 1) = fst y" "istack ! (2 * length ps + 2) = snd y"
    using assms by (auto simp: stacked_def nth_append)
  have i: "nat (2 * int (length (ps @ [y]))) = 2 * length ps + 2" "nat (2 * int (length (ps @ [y])) - 1) = 2 * length ps + 1"
    by simp_all
  show "ird istack (2 * int (length (ps @ [y]))) = Some (snd y)" "ird istack (2 * int (length (ps @ [y])) - 1) = Some (fst y)"
    using s by (simp_all only: ird_def i rd_def) simp_all
  show "stacked istack n ps" "(snd y - fst y + 1) * 2 ^ length ps \<le> n"
    using assms by (auto simp: stacked_def nth_append split: if_splits)
qed

definition work :: "(int \<times> int) list \<Rightarrow> nat" where
  "work segs = (\<Sum>s \<leftarrow> segs. 2 * nat (snd s - fst s + 1) + 1)"

lemma depth_bound:
  assumes "9 \<le> (k :: int)" and "k * 2 ^ d \<le> n" and "n < 2 ^ 30"
  shows "d < 28"
proof (rule ccontr)
  assume "\<not> d < 28"
  then have "(2 :: int) ^ 28 \<le> 2 ^ d"
    by (intro power_increasing) simp_all
  then have "9 * 2 ^ 28 \<le> k * 2 ^ d"
    using assms(1) by (intro mult_mono) simp_all
  then show False
    using assms(2,3) by simp
qed

lemma loop_eq:
  assumes "n < int (length ids)" and "n < 2 ^ 30" and "pending ids n ((l, r) # ps)" and "stacked istack n ps"
    and "(r - l + 1) * 2 ^ length ps \<le> n"
  shows "\<exists>ids'. midl_sort_loop istack (2 * int (length ps)) l r ids = Some ids' \<and> seg_perm 1 n ids ids' \<and> desc ids' 1 n"
  using assms(1,3-)
proof (induction "work ((l, r) # ps)" arbitrary: l r ps istack ids rule: less_induct)
  case less
  note IH = less.hyps and len = less.prems(1) and pend = less.prems(2) and st = less.prems(3) and sz = less.prems(4)
  have lr: "1 \<le> l" "r \<le> n" "r < int (length ids)" "sep ids n (l, r)"
    using pend len by (simp_all add: pending_def)
  show ?case
  proof (cases "r - l < SMALL")
    case True
    have "desc ids l (l + 1 - 1)"
      by (simp add: desc_def)
    from insertion_eq [OF this lr(1) _ lr(3)] obtain b where b: "midl_sort_insertion r (l + 1) ids = Some b"
      "seg_perm l r ids b" "desc b l r"
      using sepD(1) [OF lr(4)] by auto
    have p: "seg_perm 1 n ids b"
      by (rule seg_perm_mono [OF b(2) lr(1,2)])
    have pb: "pending b n ps"
      by (rule pending_small [OF pend b(2) len b(3)])
    show ?thesis
    proof (cases ps rule: rev_cases)
      case Nil
      have "midl_sort_loop istack (2 * int (length ps)) l r ids = Some b"
        using True Nil by (subst midl_sort_loop.simps) (simp add: b(1))
      then show ?thesis
        using p pending_done pb Nil by auto
    next
      case (snoc ps' y)
      note pop = popped [OF st [unfolded snoc]]
      have "midl_sort_loop istack (2 * int (length ps)) l r ids = midl_sort_loop istack (2 * int (length ps')) (fst y) (snd y) b"
        unfolding snoc using True pop(1,2) by (subst midl_sort_loop.simps) (simp add: b(1))
      moreover have "pending b n ((fst y, snd y) # ps')"
        using pb unfolding snoc pending_def by (auto simp: sorted_wrt_append)
      moreover have "work ((fst y, snd y) # ps') < work ((l, r) # ps)"
        by (simp add: work_def snoc)
      ultimately obtain c where "midl_sort_loop istack (2 * int (length ps)) l r ids = Some c" "seg_perm 1 n b c" "desc c 1 n"
        using IH [of "fst y" "snd y" ps' b istack] len seg_perm_length [OF p] pop(3,4) by auto
      then show ?thesis
        using seg_perm_trans [OF p] by blast
    qed
  next
    case False
    then have big: "l + 8 \<le> r"
      by (simp add: SMALL_def)
    then have d: "length ps < 28"
      using depth_bound [OF _ sz assms(2)] by simp
    obtain m a i j q b where sp: "midl_sort_median l r ids = Some m" "ird m (l + 1) = Some a"
      "midl_sort_partition a (l + 1) r m = Some (i, j, q)" "ird q j = Some (el q j)"
      "iwr q (l + 1) (el q j) = Some (q[nat (l + 1) := el q j])" "iwr (q[nat (l + 1) := el q j]) j a = Some b"
      "seg_perm l r ids b" "l + 2 \<le> i" "i \<le> r" "l + 1 \<le> j" "j < i"
      "sep b n (l, j - 1)" "sep b n (i, r)" "\<forall>p. j \<le> p \<and> p < i \<longrightarrow> sep b n (p, p)"
      using split_eq [OF lr(1) big lr(2) len _ lr(4)] lr(2) assms(2) big by auto
    have p: "seg_perm 1 n ids b"
      by (rule seg_perm_mono [OF sp(7) lr(1,2)])
    have go: "\<exists>c. midl_sort_loop (stk[2 * length ps + 1 := fst y]) (2 * int (length ps) + 2) (fst x) (snd x) b = Some c
        \<and> seg_perm 1 n ids c \<and> desc c 1 n"
      if xy: "x = (l, j - 1) \<and> y = (i, r) \<or> x = (i, r) \<and> y = (l, j - 1)" and le: "snd x - fst x \<le> snd y - fst y"
        and stk: "stacked (stk[2 * length ps + 1 := fst y]) n (ps @ [y])" for x y stk
    proof -
      have "pending b n (x # ps @ [y])"
        by (rule pending_split [OF pend sp(7) len sp(8-14) xy])
      moreover have w: "work (x # ps @ [y]) < work ((l, r) # ps)"
        using xy sp(8-11) by (auto simp: work_def)
      moreover have "(snd x - fst x + 1) * 2 ^ length (ps @ [y]) \<le> n"
      proof -
        have "2 * (snd x - fst x + 1) \<le> r - l + 1"
          using xy le sp(8-11) by auto
        then have "2 * (snd x - fst x + 1) * 2 ^ length ps \<le> (r - l + 1) * 2 ^ length ps"
          by (rule mult_right_mono) simp
        moreover have "(snd x - fst x + 1) * 2 ^ length (ps @ [y]) = 2 * (snd x - fst x + 1) * 2 ^ length ps"
          by (simp add: mult_ac)
        ultimately show ?thesis
          using sz by linarith
      qed
      ultimately show ?thesis
        using IH [of "fst x" "snd x" "ps @ [y]" b "stk[2 * length ps + 1 := fst y]"] len seg_perm_length [OF p] stk
          seg_perm_trans [OF p] by (auto simp: add.commute)
    qed
    have szy: "(snd y - fst y + 1) * 2 ^ length ps \<le> n" if "snd y - fst y \<le> r - l" for y :: "int \<times> int"
    proof -
      have "(snd y - fst y + 1) * 2 ^ length ps \<le> (r - l + 1) * 2 ^ length ps"
        using that by (intro mult_right_mono) simp_all
      then show ?thesis by (rule order.trans [OF _ sz])
    qed
    show ?thesis
    proof (cases "j - l \<le> r - i + 1")
      case True
      obtain stk where stk: "iwr istack (2 * int (length ps) + 2) r = Some stk"
        "iwr stk (2 * int (length ps) + 2 - 1) i = Some (stk[2 * length ps + 1 := i])"
        "stacked (stk[2 * length ps + 1 := i]) n (ps @ [(i, r)])"
        using pushed [OF st d, of "(i, r)"] szy [of "(i, r)"] sp(8) by auto
      have "midl_sort_loop istack (2 * int (length ps)) l r ids
          = midl_sort_loop (stk[2 * length ps + 1 := i]) (2 * int (length ps) + 2) l (j - 1) b"
        using False True by (subst midl_sort_loop.simps) (simp only: sp(1-6) stk(1,2) if_False if_True bind.bind_lunit split_conv)
      then show ?thesis
        using go [of "(l, j - 1)" "(i, r)" stk] True stk(3) by simp
    next
      case no: False
      obtain stk where stk: "iwr istack (2 * int (length ps) + 2) (j - 1) = Some stk"
        "iwr stk (2 * int (length ps) + 2 - 1) l = Some (stk[2 * length ps + 1 := l])"
        "stacked (stk[2 * length ps + 1 := l]) n (ps @ [(l, j - 1)])"
        using pushed [OF st d, of "(l, j - 1)"] szy [of "(l, j - 1)"] sp(9,11) by auto
      have "midl_sort_loop istack (2 * int (length ps)) l r ids
          = midl_sort_loop (stk[2 * length ps + 1 := l]) (2 * int (length ps) + 2) i r b"
        using False no by (subst midl_sort_loop.simps) (simp only: sp(1-6) stk(1,2) if_False bind.bind_lunit split_conv)
      then show ?thesis
        using go [of "(i, r)" "(l, j - 1)" stk] no stk(3) by simp
    qed
  qed
qed

lemma sort_eq:
  assumes "idl_fits ids" and "unat (ids ! 0) < 2 ^ 30" and "length istack = 64"
  shows "\<exists>ids'. mdb_midl_sort istack ids = Some ids' \<and> length ids' = length ids \<and> ids' ! 0 = ids ! 0
    \<and> idl_elems ids' = rev (sort (idl_elems ids)) \<and> drop (Suc (unat (ids ! 0))) ids' = drop (Suc (unat (ids ! 0))) ids"
proof -
  define n where "n = unat (ids ! 0)"
  have nb: "n < 2 ^ 30"
    using assms(2) by (simp add: n_def)
  have len: "n < length ids" and rd0: "rd ids 0 = Some (ids ! 0)"
    using assms(1) by (simp_all add: idl_fits_def n_def)
  have cast: "sint (ucast (ids ! 0) :: u32) = int n"
  proof -
    have u: "unat (ucast (ids ! 0) :: u32) = n"
      using nb by (intro search_count) (simp_all add: n_def)
    define k where "k = (ucast (ids ! 0) :: u32)"
    have "uint k = int (unat k)"
      by simp
    also have "\<dots> = int n"
      by (simp only: k_def u)
    finally have k: "uint k = int n" .
    have self: "signed_take_bit 31 x = x" if "0 \<le> x" "x < 2 ^ 31" for x :: int
      using that by (intro signed_take_bit_int_eq_self) simp_all
    have "int n < 2 ^ 31"
      using nb by simp
    then show ?thesis
      unfolding k_def [symmetric] sint_uint k using self [of "int n"] by simp
  qed
  have "pending ids (int n) [(1, int n)]"
    by (simp add: pending_def sep_def)
  moreover have "stacked istack (int n) []"
    using assms(3) by (simp add: stacked_def)
  ultimately obtain b where b: "midl_sort_loop istack 0 1 (int n) ids = Some b" "seg_perm 1 (int n) ids b" "desc b 1 (int n)"
    using loop_eq [of "int n" ids 1 "int n" "[]" istack] len nb by auto
  have lb: "length b = length ids"
    by (rule seg_perm_length [OF b(2)])
  have out: "b ! i = ids ! i" if "i = 0 \<or> n < i" for i
    using seg_perm_outside [OF b(2), of "int i"] that by auto
  have rest: "drop (Suc n) b = drop (Suc n) ids"
    using lb out by (intro nth_equalityI) simp_all
  have cut: "x = x ! 0 # take n (drop 1 x) @ drop (Suc n) x" if "length x = length ids" for x :: "u64 list"
    using that len by (cases x) simp_all
  have fits: "idl_fits b"
    using assms(1) lb out [of 0] by (auto simp: idl_fits_def)
  have el: "idl_elems ids = take n (drop 1 ids)" "idl_elems b = take n (drop 1 b)"
    using out [of 0] by (simp_all add: idl_elems_def n_def)
  have "mset ids = mset b"
    using b(2) by (simp add: seg_perm_def)
  then have "mset (idl_elems b) = mset (idl_elems ids)"
    using arg_cong [OF cut [OF refl], of mset] arg_cong [OF cut [OF lb], of mset] out [of 0] rest unfolding el by simp
  moreover have "sorted (rev (idl_elems b))"
  proof -
    have "sorted_wrt (\<lambda>x y. y \<le> x) (idl_elems b)"
      unfolding sorted_wrt_iff_nth_less
    proof (intro allI impI)
      fix i j assume ij: "i < j" "j < length (idl_elems b)"
      have l: "length (idl_elems b) = n"
        using length_idl_elems [OF fits] out [of 0] by (simp add: n_def)
      have "el b (int (j + 1)) \<le> el b (int (i + 1))"
        using b(3) ij l unfolding desc_def by (elim allE [of _ "int (i + 1)"] allE [of _ "int (j + 1)"]) auto
      then show "idl_elems b ! j \<le> idl_elems b ! i"
        using ij l fits out [of 0] by (simp add: nth_idl_elems nat_add_distrib n_def)
    qed
    then show ?thesis
      by (simp add: sorted_wrt_rev)
  qed
  ultimately have "idl_elems b = rev (sort (idl_elems ids))"
    by (metis mset_rev properties_for_sort rev_rev_ident)
  moreover have "mdb_midl_sort istack ids = Some b"
    by (simp add: mdb_midl_sort_def rd0 cast b(1))
  ultimately show ?thesis
    using lb out [of 0] rest unfolding n_def by blast
qed

section \<open>Properties\<close>

text \<open>C32. The sort terminates, stays inside the list and inside its stack of 64 integers, and leaves the IDs in
  descending order: the elements become the reverse of the sorted elements, the count and everything after
  the list are untouched.  The bound on the count keeps \<open>l + ir\<close> within an \<open>int\<close>.\<close>

theorem midl_sort_correct:
  assumes "idl_fits ids" and "unat (ids ! 0) < 2 ^ 30" and "length istack = 64"
  shows "\<exists>ids'. mdb_midl_sort istack ids = Some ids' \<and> length ids' = length ids \<and> ids' ! 0 = ids ! 0
    \<and> idl_elems ids' = rev (sort (idl_elems ids)) \<and> drop (Suc (unat (ids ! 0))) ids' = drop (Suc (unat (ids ! 0))) ids"
  by (rule sort_eq [OF assms])

theorem midl_sort_correct_witness:
  "\<exists>ids'. mdb_midl_sort (replicate 64 (- 1)) [4, 3, 9, 2, 9, 5] = Some ids' \<and> idl_elems ids' = [9, 9, 3, 2]"
  using midl_sort_correct [of "[4, 3, 9, 2, 9, 5]" "replicate 64 (- 1)"]
  by (auto simp: idl_fits_def idl_elems_def)

end
