(* ===== verification/Ed25519_Spec.thy ===== *)
theory Ed25519_Spec
  imports Field25519_Spec Hacl_SHA2_512
begin

text \<open>
  Ed25519 as RFC 8032 describes it, over integers: points in extended homogeneous coordinates (X, Y, Z, T) with
  \<open>x = X / Z\<close>, \<open>y = Y / Z\<close> and \<open>x y = T / Z\<close>, the compressed encoding of points, and signatures. Scalars multiply by
  a ladder over their bits, as the code does.
\<close>

section \<open>The curve\<close>

definition ed_d :: int where
  "ed_d = 37095705934669439343138083508754565189542113879843219016388785533085940283555"

text \<open>The constant is \<open>-121665 / 121666\<close>.\<close>

lemma residue_eqI: "a - b = P25519 * k \<Longrightarrow> a mod P25519 = b mod P25519"
  by (simp add: mod_eq_dvd_iff)

lemma ed_d_quotient: "ed_d * 121666 mod P25519 = (- 121665) mod P25519"
  by (rule residue_eqI [where k = 77955]) (simp add: ed_d_def P25519_def)

definition sqrt_minus_1 :: int where
  "sqrt_minus_1 = 19681161376707505956807079304988542015446066515923890162744021073123829784752"

lemma sqrt_minus_1_square: "sqrt_minus_1 ^ 2 mod P25519 = (- 1) mod P25519"
  by (rule residue_eqI [where k = "6690407189080634018507799843845558368979872843924222843531373839242004886245"])
    (simp add: sqrt_minus_1_def P25519_def power2_eq_square)

text \<open>The order of the base point.\<close>

definition ed_order :: nat where
  "ed_order = 2 ^ 252 + 27742317777372353535851937790883648493"

type_synonym ext_point = "int \<times> int \<times> int \<times> int"

text \<open>The base point: \<open>y = 4 / 5\<close> and \<open>x\<close> even.\<close>

definition base_x :: int where
  "base_x = 15112221349535400772501151409588531511454012693041857206046113283949847762202"

definition base_y :: int where
  "base_y = 46316835694926478169428394003475163141307993866256225615783033603165251855960"

definition ed_base :: ext_point where
  "ed_base = (base_x, base_y, 1, base_x * base_y mod P25519)"

lemma base_xy:
  "base_x * base_y mod P25519 = 46827403850823179245072216630277197565144205554125654976674165829533817101731"
  by code_simp

lemma base_xx:
  "base_x * base_x mod P25519 = 26187595835145689230469591415084376402084551887632582719101735842039498021991"
  by code_simp

lemma base_yy:
  "base_y * base_y mod P25519 = 37053468555941182535542715202780130513046395093004980492626426882532201484768"
  by code_simp

lemma base_dxx:
  "ed_d * 26187595835145689230469591415084376402084551887632582719101735842039498021991 mod P25519
    = 45925948435572007145069502170446592761695376174804512530996725752748131570562"
  by code_simp

lemma base_dxxyy:
  "45925948435572007145069502170446592761695376174804512530996725752748131570562 * 37053468555941182535542715202780130513046395093004980492626426882532201484768 mod P25519
    = 10865872720795493305073123787695754110961843205372397773524691040492703462776"
  by code_simp

text \<open>It satisfies the curve equation \<open>- x\<^sup>2 + y\<^sup>2 = 1 + d x\<^sup>2 y\<^sup>2\<close>.\<close>

lemma ed_base_on_curve:
  "(base_y * base_y - base_x * base_x) mod P25519
    = (1 + ed_d * (base_x * base_x) * (base_y * base_y)) mod P25519"
proof -
  let ?c = "ed_d * (base_x * base_x) * (base_y * base_y)"
  have c: "?c mod P25519
      = (ed_d * (base_x * base_x mod P25519) mod P25519) * (base_y * base_y mod P25519) mod P25519"
    by (simp only: mod_mult_left_eq mod_mult_right_eq mod_mult_eq)
  have "(base_y * base_y - base_x * base_x) mod P25519
      = (base_y * base_y mod P25519 - base_x * base_x mod P25519) mod P25519"
    by (simp only: mod_diff_eq)
  also have "\<dots> = (1 + ?c mod P25519) mod P25519"
    unfolding c base_xx base_yy base_dxx base_dxxyy by (simp add: P25519_def)
  also have "\<dots> = (1 + ?c) mod P25519"
    by (simp only: mod_add_right_eq)
  finally show ?thesis .
qed

lemma base_y_quotient: "5 * base_y mod P25519 = 4" and base_x_even: "even base_x"
  by (simp_all add: base_x_def base_y_def P25519_def)

definition ed_add :: "ext_point \<Rightarrow> ext_point \<Rightarrow> ext_point" where
  "ed_add = (\<lambda>(x1, y1, z1, t1) (x2, y2, z2, t2).
     let a = (y1 - x1) * (y2 - x2) mod P25519;
         b = (y1 + x1) * (y2 + x2) mod P25519;
         c = t1 * (2 * ed_d) * t2 mod P25519;
         d = 2 * z1 * z2 mod P25519;
         e = b - a;
         f = d - c;
         g = d + c;
         h = b + a
     in (e * f mod P25519, g * h mod P25519, f * g mod P25519, e * h mod P25519))"

definition ed_double :: "ext_point \<Rightarrow> ext_point" where
  "ed_double = (\<lambda>(x1, y1, z1, t1).
     let a = x1 ^ 2 mod P25519;
         b = y1 ^ 2 mod P25519;
         c = 2 * z1 ^ 2 mod P25519;
         h = a + b;
         e = h - (x1 + y1) ^ 2;
         g = a - b;
         f = c + g
     in (e * f mod P25519, g * h mod P25519, f * g mod P25519, e * h mod P25519))"

definition ed_neutral :: ext_point where
  "ed_neutral = (0, 1, 1, 0)"

text \<open>The ladder keeps nP and (n + 1)P.\<close>

definition ed_ladder_bit :: "bool \<Rightarrow> ext_point \<times> ext_point \<Rightarrow> ext_point \<times> ext_point" where
  "ed_ladder_bit b = (\<lambda>(n, m). if b then (ed_add m n, ed_double m) else (ed_double n, ed_add n m))"

definition ed_mul :: "bytes \<Rightarrow> ext_point \<Rightarrow> ext_point" where
  "ed_mul k p = fst (fold ed_ladder_bit (bits_of_bytes k) (ed_neutral, p))"

section \<open>Encoding\<close>

definition ed_compress :: "ext_point \<Rightarrow> bytes" where
  "ed_compress = (\<lambda>(x, y, z, t).
     let zinv = field_inv z
     in nat_to_le 32 (nat (y * zinv mod P25519 + 2 ^ 255 * (x * zinv mod P25519 mod 2))))"

text \<open>The square root in the field, and the x-coordinate with the wanted parity.\<close>

definition recover_x :: "int \<Rightarrow> int \<Rightarrow> int option" where
  "recover_x y sign' =
     (if y \<ge> P25519 then None
      else
        let x2 = (y * y - 1) * field_inv (ed_d * y * y + 1) mod P25519
        in if x2 = 0 then (if sign' = 0 then Some 0 else None)
           else
             let x = pow_mod x2 (2 ^ 252 - 2) mod P25519;
                 x = (if (x * x - x2) mod P25519 = 0 then x else x * sqrt_minus_1 mod P25519)
             in if (x * x - x2) mod P25519 = 0
                then Some (if x mod 2 = sign' then x else (- x) mod P25519)
                else None)"

definition ed_decompress :: "bytes \<Rightarrow> ext_point option" where
  "ed_decompress s =
     (let n = le_nat (take 32 s);
          y = int (n mod 2 ^ 255);
          sign' = int (n div 2 ^ 255)
      in map_option (\<lambda>x. (x, y, 1, x * y mod P25519)) (recover_x y sign'))"

definition ed_equal :: "ext_point \<Rightarrow> ext_point \<Rightarrow> bool" where
  "ed_equal = (\<lambda>(x1, y1, z1, t1) (x2, y2, z2, t2).
     x1 * z2 mod P25519 = x2 * z1 mod P25519 \<and> y1 * z2 mod P25519 = y2 * z1 mod P25519)"

section \<open>Signatures\<close>

definition sha512_mod_order :: "bytes \<Rightarrow> nat" where
  "sha512_mod_order m = le_nat (sha512 m) mod ed_order"

text \<open>The secret scalar (clamped) and the prefix.\<close>

definition ed_expand :: "bytes \<Rightarrow> bytes \<times> bytes" where
  "ed_expand secret =
     (let h = sha512 (take 32 secret)
      in ((take 32 h)[0 := h ! 0 AND 0xf8, 31 := (h ! 31 AND 127) OR 64], drop 32 h))"

definition ed_public :: "bytes \<Rightarrow> bytes" where
  "ed_public secret = ed_compress (ed_mul (fst (ed_expand secret)) ed_base)"

definition ed_sign :: "bytes \<Rightarrow> bytes \<Rightarrow> bytes" where
  "ed_sign secret msg =
     (let (a, prefix) = ed_expand secret;
          pub = ed_compress (ed_mul a ed_base);
          r = sha512_mod_order (prefix @ msg);
          rs = ed_compress (ed_mul (nat_to_le 32 r) ed_base);
          h = sha512_mod_order (rs @ pub @ msg);
          s = (r + h * le_nat a) mod ed_order
      in rs @ nat_to_le 32 s)"

definition ed_verify :: "bytes \<Rightarrow> bytes \<Rightarrow> bytes \<Rightarrow> bool" where
  "ed_verify pub msg sig =
     (case ed_decompress pub of
        None \<Rightarrow> False
      | Some a \<Rightarrow>
          (case ed_decompress (take 32 sig) of
             None \<Rightarrow> False
           | Some r \<Rightarrow>
               let s = take 32 (drop 32 sig)
               in if le_nat s \<ge> ed_order then False
                  else
                    let h = sha512_mod_order (take 32 sig @ take 32 pub @ msg)
                    in ed_equal (ed_mul s ed_base) (ed_add r (ed_mul (nat_to_le 32 h) a))))"

end
