(* ===== verification/Hacl_Bignum25519.thy ===== *)
theory Hacl_Bignum25519
  imports Hacl_EC_Format Ed25519_Spec
begin

text \<open>
  The field arithmetic of Ed25519 (\<^verbatim>\<open>Hacl_Ed25519.c\<close>): the routines of Hacl_Field51 and Hacl_EC_Format, of which
  the C file has a copy, and those that it adds: carrying a difference, doubling, multiplication by the curve
  constants, the canonical representative and the power that a square root needs.
\<close>

section \<open>Field arithmetic\<close>

definition Hacl_Bignum_Crecip_crecip' :: "u64 list \<Rightarrow> u64 list \<Rightarrow> u64 list" where
  "Hacl_Bignum_Crecip_crecip' out z =
     (let buf = replicate 20 0;
          a = slice 0 5 buf;
          t00 = slice 5 5 buf;
          b0 = slice 10 5 buf;
          a = Hacl_Bignum_Fsquare_fsquare_times a z 1;
          t00 = Hacl_Bignum_Fsquare_fsquare_times t00 a 2;
          b0 = Hacl_Bignum_Fmul_fmul b0 t00 z;
          a = Hacl_Bignum_Fmul_fmul a b0 a;
          t00 = Hacl_Bignum_Fsquare_fsquare_times t00 a 1;
          b0 = Hacl_Bignum_Fmul_fmul b0 t00 b0;
          t00 = Hacl_Bignum_Fsquare_fsquare_times t00 b0 5;
          t01 = t00;
          b1 = b0;
          c0 = slice 15 5 buf;
          b1 = Hacl_Bignum_Fmul_fmul b1 t01 b1;
          t01 = Hacl_Bignum_Fsquare_fsquare_times t01 b1 10;
          c0 = Hacl_Bignum_Fmul_fmul c0 t01 b1;
          t01 = Hacl_Bignum_Fsquare_fsquare_times t01 c0 20;
          t01 = Hacl_Bignum_Fmul_fmul t01 t01 c0;
          t01 = Hacl_Bignum_Fsquare_fsquare_times_inplace t01 10;
          b1 = Hacl_Bignum_Fmul_fmul b1 t01 b1;
          t01 = Hacl_Bignum_Fsquare_fsquare_times t01 b1 50;
          a0 = a;
          a0 = Hacl_Bignum_Fsquare_fsquare_times a0 z 1;
          a1 = a0;
          t0 = t01;
          b = b1;
          c = c0;
          c = Hacl_Bignum_Fmul_fmul c t0 b;
          t0 = Hacl_Bignum_Fsquare_fsquare_times t0 c 100;
          t0 = Hacl_Bignum_Fmul_fmul t0 t0 c;
          t0 = Hacl_Bignum_Fsquare_fsquare_times_inplace t0 50;
          t0 = Hacl_Bignum_Fmul_fmul t0 t0 b;
          t0 = Hacl_Bignum_Fsquare_fsquare_times_inplace t0 2
      in Hacl_Bignum_Fmul_fmul out t0 a1)"

definition Hacl_EC_Format_reduce :: "u64 list \<Rightarrow> u64 list" where
  "Hacl_EC_Format_reduce out =
     (let out = Hacl_EC_Format_fcontract_first_carry_full out;
          out = Hacl_EC_Format_fcontract_second_carry_full out
      in Hacl_EC_Format_fcontract_trim out)"

definition Hacl_Lib_Create64_make_h64_5 ::
  "u64 list \<Rightarrow> u64 \<Rightarrow> u64 \<Rightarrow> u64 \<Rightarrow> u64 \<Rightarrow> u64 \<Rightarrow> u64 list" where
  "Hacl_Lib_Create64_make_h64_5 b s0 s1 s2 s3 s4 = b[0 := s0, 1 := s1, 2 := s2, 3 := s3, 4 := s4]"

definition Hacl_Lib_Create64_make_h64_10 ::
  "u64 list \<Rightarrow> u64 \<Rightarrow> u64 \<Rightarrow> u64 \<Rightarrow> u64 \<Rightarrow> u64 \<Rightarrow> u64 \<Rightarrow> u64 \<Rightarrow> u64 \<Rightarrow> u64 \<Rightarrow> u64 \<Rightarrow> u64 list" where
  "Hacl_Lib_Create64_make_h64_10 b s0 s1 s2 s3 s4 s5 s6 s7 s8 s9 =
     b[0 := s0, 1 := s1, 2 := s2, 3 := s3, 4 := s4, 5 := s5, 6 := s6, 7 := s7, 8 := s8, 9 := s9]"

definition Hacl_Bignum25519_fsum :: "u64 list \<Rightarrow> u64 list \<Rightarrow> u64 list" where
  "Hacl_Bignum25519_fsum a b = Hacl_Bignum_fsum a b"

definition Hacl_Bignum25519_fdifference :: "u64 list \<Rightarrow> u64 list \<Rightarrow> u64 list" where
  "Hacl_Bignum25519_fdifference a b = Hacl_Bignum_fdifference a b"

definition Hacl_Bignum25519_reduce_513 :: "u64 list \<Rightarrow> u64 list" where
  "Hacl_Bignum25519_reduce_513 a =
     (let t0 = a ! 0;
          t1 = a ! 1;
          t2 = a ! 2;
          t3 = a ! 3;
          t4 = a ! 4;
          t1' = t1 + drop_bit 51 t0;
          t0' = t0 AND 0x7ffffffffffff;
          t2' = t2 + drop_bit 51 t1';
          t1'' = t1' AND 0x7ffffffffffff;
          t3' = t3 + drop_bit 51 t2';
          t2'' = t2' AND 0x7ffffffffffff;
          t4' = t4 + drop_bit 51 t3';
          t3'' = t3' AND 0x7ffffffffffff;
          a = Hacl_Lib_Create64_make_h64_5 a t0' t1'' t2'' t3'' t4';
          a = Hacl_Bignum_Modulo_carry_top a;
          i0 = a ! 0;
          i1 = a ! 1;
          i0' = i0 AND 0x7ffffffffffff;
          i1' = i1 + drop_bit 51 i0;
          a = a[0 := i0']
      in a[1 := i1'])"

definition Hacl_Bignum25519_fdifference_reduced :: "u64 list \<Rightarrow> u64 list \<Rightarrow> u64 list" where
  "Hacl_Bignum25519_fdifference_reduced a b =
     (let a = Hacl_Bignum25519_fdifference a b
      in Hacl_Bignum25519_reduce_513 a)"

definition Hacl_Bignum25519_fmul :: "u64 list \<Rightarrow> u64 list \<Rightarrow> u64 list \<Rightarrow> u64 list" where
  "Hacl_Bignum25519_fmul out a b = Hacl_Bignum_fmul out a b"

definition Hacl_Bignum25519_times_2 :: "u64 list \<Rightarrow> u64 list \<Rightarrow> u64 list" where
  "Hacl_Bignum25519_times_2 out a =
     (let a0 = a ! 0;
          a1 = a ! 1;
          a2 = a ! 2;
          a3 = a ! 3;
          a4 = a ! 4;
          o0 = 2 * a0;
          o1 = 2 * a1;
          o2 = 2 * a2;
          o3 = 2 * a3;
          o4 = 2 * a4
      in Hacl_Lib_Create64_make_h64_5 out o0 o1 o2 o3 o4)"

definition Hacl_Bignum25519_times_d :: "u64 list \<Rightarrow> u64 list \<Rightarrow> u64 list" where
  "Hacl_Bignum25519_times_d out a =
     (let d1 = replicate 5 0;
          d1 = Hacl_Lib_Create64_make_h64_5 d1 0x00034dca135978a3 0x0001a8283b156ebd
            0x0005e7a26001c029 0x000739c663a03cbb 0x00052036cee2b6ff
      in Hacl_Bignum25519_fmul out d1 a)"

definition Hacl_Bignum25519_times_2d :: "u64 list \<Rightarrow> u64 list \<Rightarrow> u64 list" where
  "Hacl_Bignum25519_times_2d out a =
     (let d2 = replicate 5 0;
          d2 = Hacl_Lib_Create64_make_h64_5 d2 0x00069b9426b2f159 0x00035050762add7a
            0x0003cf44c0038052 0x0006738cc7407977 0x0002406d9dc56dff
      in Hacl_Bignum25519_fmul out a d2)"

definition Hacl_Bignum25519_fsquare :: "u64 list \<Rightarrow> u64 list \<Rightarrow> u64 list" where
  "Hacl_Bignum25519_fsquare out a =
     (let tmp = replicate 5 (FStar_UInt128_uint64_to_uint128 0);
          out = blit out 0 (take 5 a);
          (tmp, out) = Hacl_Bignum_Fsquare_fsquare' tmp out
      in out)"

definition Hacl_Bignum25519_inverse :: "u64 list \<Rightarrow> u64 list \<Rightarrow> u64 list" where
  "Hacl_Bignum25519_inverse out a = Hacl_Bignum_Crecip_crecip out a"

definition Hacl_Bignum25519_reduce :: "u64 list \<Rightarrow> u64 list" where
  "Hacl_Bignum25519_reduce out = Hacl_EC_Format_reduce out"

section \<open>What the routines compute\<close>

lemma TIGHT_sum: "TIGHT + TIGHT \<le> LOOSE"
  by (simp add: TIGHT_def LOOSE_def)

lemma crecip'_rep:
  assumes "rep TIGHT a x" and out: "length out = 5"
  shows "rep TIGHT (Hacl_Bignum_Crecip_crecip' out a) (pow_mod x (2 ^ 252 - 2))"
proof -
  have z1: "rep TIGHT a (x ^ 1)" using assms(1) by simp
  then have "rep TIGHT (Hacl_Bignum_Crecip_crecip' out a) (x ^ (2 ^ 252 - 2))"
    using out unfolding Hacl_Bignum_Crecip_crecip'_def
    apply -
    apply (rule let_buffer)
    apply ((rule let_slice, assumption, simp)
      | (rule let_fsquare_times, assumption, (assumption | erule rep_length), simp)
      | (rule let_fsquare_times_inplace, assumption, simp)
      | (rule let_fmul, assumption, assumption, (assumption | erule rep_length))
      | (rule let_copy, assumption))+
    apply (rule rep_cong, rule fmul_pow, assumption, assumption, assumption)
    apply simp
    done
  then show ?thesis
    by (rule rep_cong) (simp only: pow_mod_eq)
qed

text \<open>One carry chain brings a sum or a difference back below the bound of a product.\<close>

lemma reduce_513_rep:
  assumes "rep LOOSE a x"
  shows "rep TIGHT (Hacl_Bignum25519_reduce_513 a) x"
proof -
  obtain t0 t1 t2 t3 t4 where A: "a = [t0, t1, t2, t3, t4]"
    using rep_length [OF assms] by (rule length_5_cases)
  have l: "unat t0 < 2 ^ 63" "unat t1 < 2 ^ 62" "unat t2 < 2 ^ 62" "unat t3 < 2 ^ 62" "unat t4 < 2 ^ 62"
    using assms by (simp_all add: A rep_def limbs_below_cons LOOSE_def)
  obtain b0 b1 b2 b3 b4 where b: "Hacl_EC_Format_fcontract_first_carry_pass [t0, t1, t2, t3, t4] = [b0, b1, b2, b3, b4]"
    "unat b0 < 2 ^ 51" "unat b1 < 2 ^ 51" "unat b2 < 2 ^ 51" "unat b3 < 2 ^ 51" "unat b4 < 2 ^ 63"
    "fval [b0, b1, b2, b3, b4] = fval [t0, t1, t2, t3, t4]"
    by (rule carry_pass_correct [OF l])
  have "unat b0 < 2 ^ 63" using b(2) by simp
  then obtain c0 c4 q where c: "Hacl_Bignum_Modulo_carry_top [b0, b1, b2, b3, b4] = [c0, b1, b2, b3, c4]"
    "unat c4 < 2 ^ 51" "unat c0 = unat b0 + 19 * q" "unat b4 = unat c4 + 2 ^ 51 * q" "q < 2 ^ 12"
    "fval [c0, b1, b2, b3, c4] + q * nat P25519 = fval [b0, b1, b2, b3, b4]"
    using b(6) by (rule carry_top_correct51)
  define d0 d1 where d: "d0 = c0 AND mask 51" "d1 = b1 + drop_bit 51 c0"
  have d0: "unat d0 = unat c0 mod 2 ^ 51" by (simp add: d unat_and_mask)
  have hi: "unat c0 div 2 ^ 51 < 2"
    using b(2) c(3,5) by (intro less_mult_imp_div_less) simp
  then have d1: "unat d1 = unat b1 + unat c0 div 2 ^ 51"
    using b(3) by (simp add: d unat_add_small unat_drop_bit)
  have E: "Hacl_Bignum25519_reduce_513 a = [d0, d1, b2, b3, c4]"
    using b(1) c(1)
    by (simp add: A Hacl_Bignum25519_reduce_513_def Hacl_EC_Format_fcontract_first_carry_pass_def
        Hacl_Lib_Create64_make_h64_5_def Let_def d mask51)
  have "limbs_below TIGHT [d0, d1, b2, b3, c4]"
    using b(3-5) c(2) hi by (simp add: limbs_below_cons d0 d1 TIGHT_def trans_less_add1)
  moreover have "fval [d0, d1, b2, b3, c4] = fval [c0, b1, b2, b3, c4]"
    unfolding fval_cons d0 d1 by (simp add: algebra_simps)
  then have "int (fval a) = int (fval [d0, d1, b2, b3, c4]) + P25519 * int q"
    using b(7) c(6) P25519_pos unfolding A by (metis (no_types, lifting) of_nat_add of_nat_mult nat_0_le less_imp_le mult.commute)
  then have "int (fval [d0, d1, b2, b3, c4]) mod P25519 = int (fval a) mod P25519"
    by (simp only: mod_mult_self2)
  ultimately show ?thesis
    using assms by (simp add: rep_def E)
qed

lemma fsum25519_rep:
  "rep TIGHT a x \<Longrightarrow> rep TIGHT b y \<Longrightarrow> rep LOOSE (Hacl_Bignum25519_fsum a b) (x + y)"
  unfolding Hacl_Bignum25519_fsum_def by (rule fsum_rep [OF _ _ TIGHT_sum])

lemma fdifference25519_rep:
  "rep TIGHT a x \<Longrightarrow> rep TIGHT b y \<Longrightarrow> rep LOOSE (Hacl_Bignum25519_fdifference a b) (y - x)"
  unfolding Hacl_Bignum25519_fdifference_def by (rule fdifference_rep)

lemma fdifference_reduced_rep:
  "rep TIGHT a x \<Longrightarrow> rep TIGHT b y \<Longrightarrow> rep TIGHT (Hacl_Bignum25519_fdifference_reduced a b) (y - x)"
  unfolding Hacl_Bignum25519_fdifference_reduced_def Let_def
  by (intro reduce_513_rep fdifference25519_rep)

lemma fmul25519_rep:
  "rep LOOSE a x \<Longrightarrow> rep LOOSE b y \<Longrightarrow> length out = 5 \<Longrightarrow> rep TIGHT (Hacl_Bignum25519_fmul out a b) (x * y)"
  unfolding Hacl_Bignum25519_fmul_def by (rule fmul_rep')

lemma fsquare25519_rep:
  assumes "rep LOOSE a x" "length out = 5"
  shows "rep TIGHT (Hacl_Bignum25519_fsquare out a) (x ^ 2)"
  using fsquare_rep [OF assms(1), of "replicate 5 (FStar_UInt128_uint64_to_uint128 0)"] assms(2) rep_length [OF assms(1)]
  by (simp add: Hacl_Bignum25519_fsquare_def Let_def blit_all case_prod_beta)

lemma times_2_rep:
  assumes "rep TIGHT a x" "length out = 5"
  shows "rep LOOSE (Hacl_Bignum25519_times_2 out a) (2 * x)"
proof -
  obtain t0 t1 t2 t3 t4 where A: "a = [t0, t1, t2, t3, t4]"
    using rep_length [OF assms(1)] by (rule length_5_cases)
  have l: "unat t0 < TIGHT" "unat t1 < TIGHT" "unat t2 < TIGHT" "unat t3 < TIGHT" "unat t4 < TIGHT"
    using assms(1) by (simp_all add: A rep_def limbs_below_cons)
  have d: "unat (2 * t) = 2 * unat t" if "unat t < TIGHT" for t :: u64
    using that by (simp add: unat_mult_small TIGHT_def)
  have E: "Hacl_Bignum25519_times_2 out a = [2 * t0, 2 * t1, 2 * t2, 2 * t3, 2 * t4]"
    using assms(2) by (elim length_5_cases)
      (simp add: Hacl_Bignum25519_times_2_def Hacl_Lib_Create64_make_h64_5_def A Let_def)
  have "limbs_below LOOSE (Hacl_Bignum25519_times_2 out a)"
    using l unfolding E limbs_below_cons by (simp add: d LOOSE_def TIGHT_def)
  moreover have "fval (Hacl_Bignum25519_times_2 out a) = 2 * fval a"
    using l unfolding E unfolding A fval_cons by (simp add: d)
  moreover have "2 * int (fval a) mod P25519 = 2 * x mod P25519"
    using assms(1) by (intro mod_mult_cong refl) (simp add: rep_def)
  ultimately show ?thesis by (simp add: rep_def)
qed

lemma make_h64_5_eq [simp]: "length b = 5 \<Longrightarrow> Hacl_Lib_Create64_make_h64_5 b s0 s1 s2 s3 s4 = [s0, s1, s2, s3, s4]"
  by (elim length_5_cases) (simp add: Hacl_Lib_Create64_make_h64_5_def)

lemma list_of_5: "length a = 5 \<Longrightarrow> [a ! 0, a ! 1, a ! 2, a ! 3, a ! 4] = a"
  by (elim length_5_cases) simp

text \<open>A constant given by its limbs.\<close>

lemma rep_constant:
  assumes "unat s0 < 2 ^ 51" "unat s1 < 2 ^ 51" "unat s2 < 2 ^ 51" "unat s3 < 2 ^ 51" "unat s4 < 2 ^ 51"
    and "int (unat s0 + 2 ^ 51 * unat s1 + 2 ^ 102 * unat s2 + 2 ^ 153 * unat s3 + 2 ^ 204 * unat s4) = x"
  shows "rep TIGHT [s0, s1, s2, s3, s4] x"
  using assms by (auto simp: rep_def limbs_below_cons fval_cons TIGHT_def)

lemma rep_TIGHT_0: "rep TIGHT [0, 0, 0, 0, 0] 0" and rep_TIGHT_1: "rep TIGHT [1, 0, 0, 0, 0] 1"
  by (rule rep_constant; simp)+

lemma times_d_rep:
  assumes "rep LOOSE a x" "length out = 5"
  shows "rep TIGHT (Hacl_Bignum25519_times_d out a) (ed_d * x)"
proof -
  have "rep TIGHT [0x00034dca135978a3, 0x0001a8283b156ebd, 0x0005e7a26001c029, 0x000739c663a03cbb, 0x00052036cee2b6ff] ed_d"
    by (rule rep_constant) (simp_all add: ed_d_def)
  then show ?thesis
    unfolding Hacl_Bignum25519_times_d_def Let_def
    using assms by (intro fmul25519_rep) (simp_all add: rep_loose)
qed

lemma times_2d_rep:
  assumes "rep LOOSE a x" "length out = 5"
  shows "rep TIGHT (Hacl_Bignum25519_times_2d out a) (x * (2 * ed_d))"
proof -
  have "rep TIGHT [0x00069b9426b2f159, 0x00035050762add7a, 0x0003cf44c0038052, 0x0006738cc7407977, 0x0002406d9dc56dff]
      (2 * ed_d - P25519)"
    by (rule rep_constant) (simp_all add: ed_d_def P25519_def)
  then have "rep TIGHT [0x00069b9426b2f159, 0x00035050762add7a, 0x0003cf44c0038052, 0x0006738cc7407977, 0x0002406d9dc56dff]
      (2 * ed_d)"
    by (rule rep_cong) simp
  then show ?thesis
    unfolding Hacl_Bignum25519_times_2d_def Let_def
    using assms by (intro fmul25519_rep) (simp_all add: rep_loose)
qed

lemma inverse_rep:
  "rep TIGHT a x \<Longrightarrow> length out = 5 \<Longrightarrow> rep TIGHT (Hacl_Bignum25519_inverse out a) (field_inv x)"
  unfolding Hacl_Bignum25519_inverse_def using crecip_rep by (simp add: Hacl_Bignum_crecip_def)

text \<open>The canonical representative.\<close>

definition canonical :: "u64 list \<Rightarrow> int \<Rightarrow> bool" where
  "canonical a x = (limbs_below (2 ^ 51) a \<and> fval a = nat (x mod P25519))"

lemma canonical_rep: "canonical a x \<Longrightarrow> rep TIGHT a x"
  by (auto simp: canonical_def rep_def limbs_below_def TIGHT_def)

lemma canonical_mod: "canonical a (x mod P25519) = canonical a x"
  by (simp add: canonical_def)

lemma canonical_length: "canonical a x \<Longrightarrow> length a = 5"
  by (simp add: canonical_def limbs_below_def)

lemma reduce_canonical:
  assumes "rep LOOSE a x"
  shows "canonical (Hacl_Bignum25519_reduce a) x"
proof -
  let ?c = "Hacl_EC_Format_fcontract_second_carry_full (Hacl_EC_Format_fcontract_first_carry_full a)"
  have "limbs_below (2 ^ 62) a"
    using assms by (auto simp: rep_def limbs_below_def LOOSE_def)
  from carry_full_correct [OF this] obtain q where c: "limbs_below (2 ^ 51) ?c" "fval a = fval ?c + q * nat P25519"
    by (metis (no_types))
  from trim_correct [OF c(1)] show ?thesis
    using fval_mod [OF assms]
    by (simp add: c(2) canonical_def Hacl_Bignum25519_reduce_def Hacl_EC_Format_reduce_def Let_def)
qed

text \<open>Canonical limbs are determined by the value: equal limbs, equal elements.\<close>

lemma base51_unique:
  fixes a b m n :: nat
  assumes "a < 2 ^ 51" "b < 2 ^ 51" "a + 2 ^ 51 * m = b + 2 ^ 51 * n"
  shows "a = b \<and> m = n"
proof -
  have "(a + 2 ^ 51 * m) mod 2 ^ 51 = a" "(a + 2 ^ 51 * m) div 2 ^ 51 = m"
    "(b + 2 ^ 51 * n) mod 2 ^ 51 = b" "(b + 2 ^ 51 * n) div 2 ^ 51 = n"
    using assms(1,2) by simp_all
  then show ?thesis using assms(3) by metis
qed

lemma fval_horner:
  "fval [a0, a1, a2, a3, a4] = unat a0 + 2 ^ 51 * (unat a1 + 2 ^ 51 * (unat a2 + 2 ^ 51 * (unat a3 + 2 ^ 51 * unat a4)))"
  by (simp add: fval_cons)

lemma fval_inj:
  assumes "limbs_below (2 ^ 51) a" "limbs_below (2 ^ 51) b" "fval a = fval b"
  shows "a = b"
proof -
  have len: "length a = 5" "length b = 5" using assms(1,2) by (simp_all add: limbs_below_def)
  obtain x0 x1 x2 x3 x4 where A: "a = [x0, x1, x2, x3, x4]"
    using len(1) by (rule length_5_cases)
  obtain y0 y1 y2 y3 y4 where B: "b = [y0, y1, y2, y3, y4]"
    using len(2) by (rule length_5_cases)
  have l: "unat x0 < 2 ^ 51" "unat y0 < 2 ^ 51" "unat x1 < 2 ^ 51" "unat y1 < 2 ^ 51" "unat x2 < 2 ^ 51" "unat y2 < 2 ^ 51"
    "unat x3 < 2 ^ 51" "unat y3 < 2 ^ 51"
    using assms(1,2) by (simp_all add: A B limbs_below_cons)
  note e0 = base51_unique [OF l(1,2) assms(3) [unfolded A B fval_horner]]
  note e1 = base51_unique [OF l(3,4) conjunct2 [OF e0]]
  note e2 = base51_unique [OF l(5,6) conjunct2 [OF e1]]
  note e3 = base51_unique [OF l(7,8) conjunct2 [OF e2]]
  show ?thesis
    using e0 e1 e2 e3 by (simp add: A B word_unat_eq_iff)
qed

lemma canonical_eq_iff:
  assumes "canonical a x" "canonical b y"
  shows "a = b \<longleftrightarrow> x mod P25519 = y mod P25519"
proof
  assume "a = b"
  then have "nat (x mod P25519) = nat (y mod P25519)"
    using assms by (simp add: canonical_def)
  then show "x mod P25519 = y mod P25519"
    by (simp add: eq_nat_nat_iff)
next
  assume "x mod P25519 = y mod P25519"
  then show "a = b"
    using assms by (intro fval_inj) (simp_all add: canonical_def)
qed

end
