(* ===== verification/Hacl_Ed25519_Point.thy ===== *)
theory Hacl_Ed25519_Point
  imports Hacl_Bignum25519
begin

text \<open>
  The points of Ed25519 (\<^verbatim>\<open>Hacl_Ed25519.c\<close>): buffers of twenty words holding the four extended coordinates, their
  addition, doubling, conditional swap and constant-time ladder, comparison and compression. A routine that writes
  several buffers returns all of them; a scratch buffer of the C code that is cut into five-word pieces is a variable
  per piece where the routine owns it, and a buffer of its own where it is passed on.
\<close>

section \<open>Points\<close>

definition Hacl_Impl_Ed25519_ExtPoint_getx :: "u64 list \<Rightarrow> u64 list" where
  "Hacl_Impl_Ed25519_ExtPoint_getx p = slice 0 5 p"

definition Hacl_Impl_Ed25519_ExtPoint_gety :: "u64 list \<Rightarrow> u64 list" where
  "Hacl_Impl_Ed25519_ExtPoint_gety p = slice 5 5 p"

definition Hacl_Impl_Ed25519_ExtPoint_getz :: "u64 list \<Rightarrow> u64 list" where
  "Hacl_Impl_Ed25519_ExtPoint_getz p = slice 10 5 p"

definition Hacl_Impl_Ed25519_ExtPoint_gett :: "u64 list \<Rightarrow> u64 list" where
  "Hacl_Impl_Ed25519_ExtPoint_gett p = slice 15 5 p"

definition Hacl_Impl_Ed25519_G_make_g :: "u64 list \<Rightarrow> u64 list" where
  "Hacl_Impl_Ed25519_G_make_g g1 =
     (let gx = Hacl_Impl_Ed25519_ExtPoint_getx g1;
          gy = Hacl_Impl_Ed25519_ExtPoint_gety g1;
          gz = Hacl_Impl_Ed25519_ExtPoint_getz g1;
          gt1 = Hacl_Impl_Ed25519_ExtPoint_gett g1;
          gx = Hacl_Lib_Create64_make_h64_5 gx 0x00062d608f25d51a 0x000412a4b4f6592a
            0x00075b7171a4b31d 0x0001ff60527118fe 0x000216936d3cd6e5;
          gy = Hacl_Lib_Create64_make_h64_5 gy 0x0006666666666658 0x0004cccccccccccc
            0x0001999999999999 0x0003333333333333 0x0006666666666666;
          gz = Hacl_Lib_Create64_make_h64_5 gz 0x0000000000000001 0 0 0 0;
          gt1 = Hacl_Lib_Create64_make_h64_5 gt1 0x00068ab3a5b7dda3 0x00000eea2a5eadbb
            0x0002af8df483c27e 0x000332b375274732 0x00067875f0fd78b7
      in gx @ gy @ gz @ gt1)"

definition Hacl_Impl_Store51_store_51' :: "bytes \<Rightarrow> u64 list \<Rightarrow> bytes" where
  "Hacl_Impl_Store51_store_51' output input =
     (let t0 = input ! 0;
          t1 = input ! 1;
          t2 = input ! 2;
          t3 = input ! 3;
          t4 = input ! 4;
          o0 = push_bit 51 t1 OR t0;
          o1 = push_bit 38 t2 OR drop_bit 13 t1;
          o2 = push_bit 25 t3 OR drop_bit 26 t2;
          o3 = push_bit 12 t4 OR drop_bit 39 t3;
          output = store64_le output o0;
          output = at_off 8 (\<lambda>b1. store64_le b1 o1) output;
          output = at_off 16 (\<lambda>b2. store64_le b2 o2) output
      in at_off 24 (\<lambda>b3. store64_le b3 o3) output)"

definition Hacl_Impl_Ed25519_PointCompress_x_mod_2 :: "u64 list \<Rightarrow> u64" where
  "Hacl_Impl_Ed25519_PointCompress_x_mod_2 x = (let x0 = x ! 0 in x0 AND 1)"

definition Hacl_Impl_Ed25519_PointCompress_point_compress :: "bytes \<Rightarrow> u64 list \<Rightarrow> bytes" where
  "Hacl_Impl_Ed25519_PointCompress_point_compress z p =
     (let tmp = replicate 15 0;
          zinv = slice 0 5 tmp;
          x = slice 5 5 tmp;
          out = slice 10 5 tmp;
          px = Hacl_Impl_Ed25519_ExtPoint_getx p;
          py = Hacl_Impl_Ed25519_ExtPoint_gety p;
          pz = Hacl_Impl_Ed25519_ExtPoint_getz p;
          zinv = Hacl_Bignum25519_inverse zinv pz;
          x = Hacl_Bignum25519_fmul x px zinv;
          x = Hacl_Bignum25519_reduce x;
          out = Hacl_Bignum25519_fmul out py zinv;
          out = Hacl_Bignum25519_reduce out;
          x0 = x;
          out0 = out;
          b = Hacl_Impl_Ed25519_PointCompress_x_mod_2 x0;
          z = Hacl_Impl_Store51_store_51' z out0;
          xbyte = (ucast b :: u8);
          o31 = z ! 31
      in z[31 := o31 + push_bit 7 xbyte])"

section \<open>Conditional swap\<close>

definition Hacl_Impl_Ed25519_SwapConditional_swap_conditional_step ::
  "u64 list \<Rightarrow> u64 list \<Rightarrow> u64 list \<Rightarrow> u64 list \<Rightarrow> u64 \<Rightarrow> u64 list \<times> u64 list" where
  "Hacl_Impl_Ed25519_SwapConditional_swap_conditional_step a' b' a b swap1 =
     (let a0 = a ! 0; a1 = a ! 1; a2 = a ! 2; a3 = a ! 3; a4 = a ! 4;
          b0 = b ! 0; b1 = b ! 1; b2 = b ! 2; b3 = b ! 3; b4 = b ! 4;
          x0 = swap1 AND (a0 XOR b0);
          x1 = swap1 AND (a1 XOR b1);
          x2 = swap1 AND (a2 XOR b2);
          x3 = swap1 AND (a3 XOR b3);
          x4 = swap1 AND (a4 XOR b4);
          a0' = a0 XOR x0;
          b0' = b0 XOR x0;
          a1' = a1 XOR x1;
          b1' = b1 XOR x1;
          a2' = a2 XOR x2;
          b2' = b2 XOR x2;
          a3' = a3 XOR x3;
          b3' = b3 XOR x3;
          a4' = a4 XOR x4;
          b4' = b4 XOR x4
      in (Hacl_Lib_Create64_make_h64_5 a' a0' a1' a2' a3' a4',
          Hacl_Lib_Create64_make_h64_5 b' b0' b1' b2' b3' b4'))"

definition Hacl_Impl_Ed25519_SwapConditional_swap_conditional ::
  "u64 list \<Rightarrow> u64 list \<Rightarrow> u64 list \<Rightarrow> u64 list \<Rightarrow> u64 \<Rightarrow> u64 list \<times> u64 list" where
  "Hacl_Impl_Ed25519_SwapConditional_swap_conditional a' b' a b iswap =
     (let swap1 = 0 - iswap;
          (ax, bx) = Hacl_Impl_Ed25519_SwapConditional_swap_conditional_step
            (Hacl_Impl_Ed25519_ExtPoint_getx a') (Hacl_Impl_Ed25519_ExtPoint_getx b')
            (Hacl_Impl_Ed25519_ExtPoint_getx a) (Hacl_Impl_Ed25519_ExtPoint_getx b) swap1;
          (ay, by) = Hacl_Impl_Ed25519_SwapConditional_swap_conditional_step
            (Hacl_Impl_Ed25519_ExtPoint_gety a') (Hacl_Impl_Ed25519_ExtPoint_gety b')
            (Hacl_Impl_Ed25519_ExtPoint_gety a) (Hacl_Impl_Ed25519_ExtPoint_gety b) swap1;
          (az, bz) = Hacl_Impl_Ed25519_SwapConditional_swap_conditional_step
            (Hacl_Impl_Ed25519_ExtPoint_getz a') (Hacl_Impl_Ed25519_ExtPoint_getz b')
            (Hacl_Impl_Ed25519_ExtPoint_getz a) (Hacl_Impl_Ed25519_ExtPoint_getz b) swap1;
          (at, bt) = Hacl_Impl_Ed25519_SwapConditional_swap_conditional_step
            (Hacl_Impl_Ed25519_ExtPoint_gett a') (Hacl_Impl_Ed25519_ExtPoint_gett b')
            (Hacl_Impl_Ed25519_ExtPoint_gett a) (Hacl_Impl_Ed25519_ExtPoint_gett b) swap1
      in (ax @ ay @ az @ at, bx @ by @ bz @ bt))"

definition Hacl_Impl_Ed25519_SwapConditional_swap_conditional_inplace ::
  "u64 list \<Rightarrow> u64 list \<Rightarrow> u64 \<Rightarrow> u64 list \<times> u64 list" where
  "Hacl_Impl_Ed25519_SwapConditional_swap_conditional_inplace a b iswap =
     (let swap1 = 0 - iswap;
          (ax, bx) = Hacl_Impl_Ed25519_SwapConditional_swap_conditional_step
            (Hacl_Impl_Ed25519_ExtPoint_getx a) (Hacl_Impl_Ed25519_ExtPoint_getx b)
            (Hacl_Impl_Ed25519_ExtPoint_getx a) (Hacl_Impl_Ed25519_ExtPoint_getx b) swap1;
          (ay, by) = Hacl_Impl_Ed25519_SwapConditional_swap_conditional_step
            (Hacl_Impl_Ed25519_ExtPoint_gety a) (Hacl_Impl_Ed25519_ExtPoint_gety b)
            (Hacl_Impl_Ed25519_ExtPoint_gety a) (Hacl_Impl_Ed25519_ExtPoint_gety b) swap1;
          (az, bz) = Hacl_Impl_Ed25519_SwapConditional_swap_conditional_step
            (Hacl_Impl_Ed25519_ExtPoint_getz a) (Hacl_Impl_Ed25519_ExtPoint_getz b)
            (Hacl_Impl_Ed25519_ExtPoint_getz a) (Hacl_Impl_Ed25519_ExtPoint_getz b) swap1;
          (at, bt) = Hacl_Impl_Ed25519_SwapConditional_swap_conditional_step
            (Hacl_Impl_Ed25519_ExtPoint_gett a) (Hacl_Impl_Ed25519_ExtPoint_gett b)
            (Hacl_Impl_Ed25519_ExtPoint_gett a) (Hacl_Impl_Ed25519_ExtPoint_gett b) swap1
      in (ax @ ay @ az @ at, bx @ by @ bz @ bt))"

definition Hacl_Impl_Ed25519_SwapConditional_copy :: "u64 list \<Rightarrow> u64 list \<Rightarrow> u64 list" where
  "Hacl_Impl_Ed25519_SwapConditional_copy output input = blit output 0 (take 20 input)"

section \<open>Addition and doubling\<close>

definition Hacl_Impl_Ed25519_PointAdd_point_add :: "u64 list \<Rightarrow> u64 list \<Rightarrow> u64 list \<Rightarrow> u64 list" where
  "Hacl_Impl_Ed25519_PointAdd_point_add out p q1 =
     (let tmp = replicate 30 0;
          tmp1 = slice 0 5 tmp;
          tmp2 = slice 5 5 tmp;
          tmp3 = slice 10 5 tmp;
          tmp4 = slice 15 5 tmp;
          tmp5 = slice 20 5 tmp;
          tmp6 = slice 25 5 tmp;
          x1 = Hacl_Impl_Ed25519_ExtPoint_getx p;
          y1 = Hacl_Impl_Ed25519_ExtPoint_gety p;
          x2 = Hacl_Impl_Ed25519_ExtPoint_getx q1;
          y2 = Hacl_Impl_Ed25519_ExtPoint_gety q1;
          tmp1 = blit tmp1 0 (take 5 x1);
          tmp2 = blit tmp2 0 (take 5 x2);
          tmp1 = Hacl_Bignum25519_fdifference_reduced tmp1 y1;
          tmp2 = Hacl_Bignum25519_fdifference tmp2 y2;
          tmp3 = Hacl_Bignum25519_fmul tmp3 tmp1 tmp2;
          tmp1 = blit tmp1 0 (take 5 y1);
          tmp2 = blit tmp2 0 (take 5 y2);
          tmp1 = Hacl_Bignum25519_fsum tmp1 x1;
          tmp2 = Hacl_Bignum25519_fsum tmp2 x2;
          tmp4 = Hacl_Bignum25519_fmul tmp4 tmp1 tmp2;
          z1 = Hacl_Impl_Ed25519_ExtPoint_getz p;
          t1 = Hacl_Impl_Ed25519_ExtPoint_gett p;
          z2 = Hacl_Impl_Ed25519_ExtPoint_getz q1;
          t2 = Hacl_Impl_Ed25519_ExtPoint_gett q1;
          tmp1 = Hacl_Bignum25519_times_2d tmp1 t1;
          tmp2 = Hacl_Bignum25519_fmul tmp2 tmp1 t2;
          tmp1 = Hacl_Bignum25519_times_2 tmp1 z1;
          tmp5 = Hacl_Bignum25519_fmul tmp5 tmp1 z2;
          tmp1 = blit tmp1 0 (take 5 tmp3);
          tmp6 = blit tmp6 0 (take 5 tmp2);
          tmp1 = Hacl_Bignum25519_fdifference_reduced tmp1 tmp4;
          tmp6 = Hacl_Bignum25519_fdifference tmp6 tmp5;
          tmp5 = Hacl_Bignum25519_fsum tmp5 tmp2;
          tmp4 = Hacl_Bignum25519_fsum tmp4 tmp3;
          x3 = Hacl_Bignum25519_fmul (Hacl_Impl_Ed25519_ExtPoint_getx out) tmp1 tmp6;
          y3 = Hacl_Bignum25519_fmul (Hacl_Impl_Ed25519_ExtPoint_gety out) tmp5 tmp4;
          t3 = Hacl_Bignum25519_fmul (Hacl_Impl_Ed25519_ExtPoint_gett out) tmp1 tmp4;
          z3 = Hacl_Bignum25519_fmul (Hacl_Impl_Ed25519_ExtPoint_getz out) tmp5 tmp6
      in x3 @ y3 @ z3 @ t3)"

text \<open>Doubling works on six pieces of a scratch buffer that it is given.\<close>

definition Hacl_Impl_Ed25519_PointDouble_point_double_step_1 :: "u64 list \<Rightarrow> u64 list \<Rightarrow> u64 list" where
  "Hacl_Impl_Ed25519_PointDouble_point_double_step_1 p tmp =
     (let tmp1 = slice 0 5 tmp;
          tmp2 = slice 5 5 tmp;
          tmp3 = slice 10 5 tmp;
          tmp4 = slice 15 5 tmp;
          x1 = Hacl_Impl_Ed25519_ExtPoint_getx p;
          y1 = Hacl_Impl_Ed25519_ExtPoint_gety p;
          z1 = Hacl_Impl_Ed25519_ExtPoint_getz p;
          tmp1 = Hacl_Bignum25519_fsquare tmp1 x1;
          tmp2 = Hacl_Bignum25519_fsquare tmp2 y1;
          tmp3 = Hacl_Bignum25519_fsquare tmp3 z1;
          tmp4 = Hacl_Bignum25519_times_2 tmp4 tmp3;
          tmp3 = blit tmp3 0 (take 5 tmp1);
          tmp3 = Hacl_Bignum25519_fsum tmp3 tmp2;
          tmp3 = Hacl_Bignum25519_reduce_513 tmp3
      in tmp1 @ tmp2 @ tmp3 @ tmp4 @ drop 20 tmp)"

definition Hacl_Impl_Ed25519_PointDouble_point_double_step_2 :: "u64 list \<Rightarrow> u64 list \<Rightarrow> u64 list" where
  "Hacl_Impl_Ed25519_PointDouble_point_double_step_2 p tmp =
     (let tmp1 = slice 0 5 tmp;
          tmp2 = slice 5 5 tmp;
          tmp3 = slice 10 5 tmp;
          tmp4 = slice 15 5 tmp;
          tmp5 = slice 20 5 tmp;
          tmp6 = slice 25 5 tmp;
          x1 = Hacl_Impl_Ed25519_ExtPoint_getx p;
          y1 = Hacl_Impl_Ed25519_ExtPoint_gety p;
          tmp5 = blit tmp5 0 (take 5 x1);
          tmp5 = Hacl_Bignum25519_fsum tmp5 y1;
          tmp6 = Hacl_Bignum25519_fsquare tmp6 tmp5;
          tmp5 = blit tmp5 0 (take 5 tmp3);
          tmp6 = Hacl_Bignum25519_fdifference tmp6 tmp5;
          tmp2 = Hacl_Bignum25519_fdifference_reduced tmp2 tmp1;
          tmp4 = Hacl_Bignum25519_reduce_513 tmp4;
          tmp4 = Hacl_Bignum25519_fsum tmp4 tmp2
      in tmp1 @ tmp2 @ tmp3 @ tmp4 @ tmp5 @ tmp6)"

definition Hacl_Impl_Ed25519_PointDouble_point_double' :: "u64 list \<Rightarrow> u64 list \<Rightarrow> u64 list \<Rightarrow> u64 list \<times> u64 list" where
  "Hacl_Impl_Ed25519_PointDouble_point_double' out p tmp =
     (let tmp = Hacl_Impl_Ed25519_PointDouble_point_double_step_1 p tmp;
          tmp = Hacl_Impl_Ed25519_PointDouble_point_double_step_2 p tmp;
          tmp2 = slice 5 5 tmp;
          tmp3 = slice 10 5 tmp;
          tmp4 = slice 15 5 tmp;
          tmp6 = slice 25 5 tmp;
          x3 = Hacl_Bignum25519_fmul (Hacl_Impl_Ed25519_ExtPoint_getx out) tmp4 tmp6;
          y3 = Hacl_Bignum25519_fmul (Hacl_Impl_Ed25519_ExtPoint_gety out) tmp2 tmp3;
          t3 = Hacl_Bignum25519_fmul (Hacl_Impl_Ed25519_ExtPoint_gett out) tmp3 tmp6;
          z3 = Hacl_Bignum25519_fmul (Hacl_Impl_Ed25519_ExtPoint_getz out) tmp4 tmp2
      in (x3 @ y3 @ z3 @ t3, tmp))"

definition Hacl_Impl_Ed25519_PointDouble_point_double :: "u64 list \<Rightarrow> u64 list \<Rightarrow> u64 list" where
  "Hacl_Impl_Ed25519_PointDouble_point_double out p =
     (let tmp = replicate 30 0
      in fst (Hacl_Impl_Ed25519_PointDouble_point_double' out p tmp))"

section \<open>The ladder\<close>

definition Hacl_Impl_Ed25519_Ladder_Step_ith_bit :: "bytes \<Rightarrow> u32 \<Rightarrow> u8" where
  "Hacl_Impl_Ed25519_Ladder_Step_ith_bit k1 i =
     (let q1 = drop_bit 3 i;
          r = i AND 7;
          kq = k1 ! unat q1
      in drop_bit (unat r) kq AND 1)"

definition Hacl_Impl_Ed25519_Ladder_Step_swap_cond_inplace ::
  "u64 list \<Rightarrow> u64 list \<Rightarrow> u64 \<Rightarrow> u64 list \<times> u64 list" where
  "Hacl_Impl_Ed25519_Ladder_Step_swap_cond_inplace p q1 iswap =
     Hacl_Impl_Ed25519_SwapConditional_swap_conditional_inplace p q1 iswap"

definition Hacl_Impl_Ed25519_Ladder_Step_swap_cond ::
  "u64 list \<Rightarrow> u64 list \<Rightarrow> u64 list \<Rightarrow> u64 list \<Rightarrow> u64 \<Rightarrow> u64 list \<times> u64 list" where
  "Hacl_Impl_Ed25519_Ladder_Step_swap_cond p' q' p q1 iswap =
     Hacl_Impl_Ed25519_SwapConditional_swap_conditional p' q' p q1 iswap"

text \<open>The ladder's buffer holds four points: the two current ones and the two results.\<close>

definition Hacl_Impl_Ed25519_Ladder_Step_loop_step_1 :: "u64 list \<Rightarrow> bytes \<Rightarrow> u32 \<Rightarrow> u8 \<Rightarrow> u64 list" where
  "Hacl_Impl_Ed25519_Ladder_Step_loop_step_1 b k1 ctr i =
     (let nq = slice 0 20 b;
          nqpq = slice 20 20 b;
          bt = ucast i;
          (nq, nqpq) = Hacl_Impl_Ed25519_Ladder_Step_swap_cond_inplace nq nqpq bt
      in nq @ nqpq @ drop 40 b)"

definition Hacl_Impl_Ed25519_Ladder_Step_loop_step_2 :: "u64 list \<Rightarrow> bytes \<Rightarrow> u32 \<Rightarrow> u64 list" where
  "Hacl_Impl_Ed25519_Ladder_Step_loop_step_2 b k1 ctr =
     (let nq = slice 0 20 b;
          nqpq = slice 20 20 b;
          nq2 = slice 40 20 b;
          nqpq2 = slice 60 20 b;
          nq2 = Hacl_Impl_Ed25519_PointDouble_point_double nq2 nq;
          nqpq2 = Hacl_Impl_Ed25519_PointAdd_point_add nqpq2 nq nqpq
      in nq @ nqpq @ nq2 @ nqpq2)"

definition Hacl_Impl_Ed25519_Ladder_Step_loop_step_3 :: "u64 list \<Rightarrow> bytes \<Rightarrow> u32 \<Rightarrow> u8 \<Rightarrow> u64 list" where
  "Hacl_Impl_Ed25519_Ladder_Step_loop_step_3 b k1 ctr i =
     (let nq = slice 0 20 b;
          nqpq = slice 20 20 b;
          nq2 = slice 40 20 b;
          nqpq2 = slice 60 20 b;
          bt = ucast i;
          (nq, nqpq) = Hacl_Impl_Ed25519_Ladder_Step_swap_cond nq nqpq nq2 nqpq2 bt
      in nq @ nqpq @ drop 40 b)"

definition Hacl_Impl_Ed25519_Ladder_Step_loop_step :: "u64 list \<Rightarrow> bytes \<Rightarrow> u32 \<Rightarrow> u64 list" where
  "Hacl_Impl_Ed25519_Ladder_Step_loop_step b k1 ctr =
     (let bt = Hacl_Impl_Ed25519_Ladder_Step_ith_bit k1 ctr;
          b = Hacl_Impl_Ed25519_Ladder_Step_loop_step_1 b k1 ctr bt;
          b = Hacl_Impl_Ed25519_Ladder_Step_loop_step_2 b k1 ctr
      in Hacl_Impl_Ed25519_Ladder_Step_loop_step_3 b k1 ctr bt)"

definition Hacl_Impl_Ed25519_Ladder_point_mul' :: "u64 list \<Rightarrow> bytes \<Rightarrow> u64 list" where
  "Hacl_Impl_Ed25519_Ladder_point_mul' b k1 =
     for_range 0 256 (\<lambda>i b. Hacl_Impl_Ed25519_Ladder_Step_loop_step b k1 (256 - word_of_nat i - 1)) b"

definition Hacl_Impl_Ed25519_Ladder_make_point_inf :: "u64 list \<Rightarrow> u64 list" where
  "Hacl_Impl_Ed25519_Ladder_make_point_inf b =
     (let x = slice 0 5 b;
          y = slice 5 5 b;
          z = slice 10 5 b;
          t = slice 15 5 b;
          zero1 = 0;
          x = Hacl_Lib_Create64_make_h64_5 x zero1 zero1 zero1 zero1 zero1;
          zero10 = 0;
          one10 = 1;
          y = Hacl_Lib_Create64_make_h64_5 y one10 zero10 zero10 zero10 zero10;
          zero11 = 0;
          one1 = 1;
          z = Hacl_Lib_Create64_make_h64_5 z one1 zero11 zero11 zero11 zero11;
          zero12 = 0;
          t = Hacl_Lib_Create64_make_h64_5 t zero12 zero12 zero12 zero12 zero12
      in x @ y @ z @ t)"

definition Hacl_Impl_Ed25519_Ladder_point_mul :: "u64 list \<Rightarrow> bytes \<Rightarrow> u64 list \<Rightarrow> u64 list" where
  "Hacl_Impl_Ed25519_Ladder_point_mul result scalar q1 =
     (let b = replicate 80 0;
          nq = slice 0 20 b;
          nqpq = slice 20 20 b;
          nq = Hacl_Impl_Ed25519_Ladder_make_point_inf nq;
          nqpq = Hacl_Impl_Ed25519_SwapConditional_copy nqpq q1;
          b = Hacl_Impl_Ed25519_Ladder_point_mul' (nq @ nqpq @ drop 40 b) scalar;
          nq = slice 0 20 b
      in Hacl_Impl_Ed25519_SwapConditional_copy result nq)"

section \<open>Comparison\<close>

definition Hacl_Impl_Ed25519_PointEqual_eq :: "u64 list \<Rightarrow> u64 list \<Rightarrow> bool" where
  "Hacl_Impl_Ed25519_PointEqual_eq a b =
     (let a0 = a ! 0; a1 = a ! 1; a2 = a ! 2; a3 = a ! 3; a4 = a ! 4;
          b0 = b ! 0; b1 = b ! 1; b2 = b ! 2; b3 = b ! 3; b4 = b ! 4;
          z = (a0 = b0 \<and> a1 = b1 \<and> a2 = b2 \<and> a3 = b3 \<and> a4 = b4)
      in z)"

definition Hacl_Impl_Ed25519_PointEqual_point_equal_1 :: "u64 list \<Rightarrow> u64 list \<Rightarrow> u64 list \<Rightarrow> bool \<times> u64 list" where
  "Hacl_Impl_Ed25519_PointEqual_point_equal_1 p q1 tmp =
     (let pxqz = slice 0 5 tmp;
          qxpz = slice 5 5 tmp;
          pxqz = Hacl_Bignum25519_fmul pxqz (Hacl_Impl_Ed25519_ExtPoint_getx p) (Hacl_Impl_Ed25519_ExtPoint_getz q1);
          pxqz = Hacl_Bignum25519_reduce pxqz;
          qxpz = Hacl_Bignum25519_fmul qxpz (Hacl_Impl_Ed25519_ExtPoint_getx q1) (Hacl_Impl_Ed25519_ExtPoint_getz p);
          qxpz = Hacl_Bignum25519_reduce qxpz;
          b = Hacl_Impl_Ed25519_PointEqual_eq pxqz qxpz
      in (b, pxqz @ qxpz @ drop 10 tmp))"

definition Hacl_Impl_Ed25519_PointEqual_point_equal_2 :: "u64 list \<Rightarrow> u64 list \<Rightarrow> u64 list \<Rightarrow> bool \<times> u64 list" where
  "Hacl_Impl_Ed25519_PointEqual_point_equal_2 p q1 tmp =
     (let pyqz = slice 10 5 tmp;
          qypz = slice 15 5 tmp;
          pyqz = Hacl_Bignum25519_fmul pyqz (Hacl_Impl_Ed25519_ExtPoint_gety p) (Hacl_Impl_Ed25519_ExtPoint_getz q1);
          pyqz = Hacl_Bignum25519_reduce pyqz;
          qypz = Hacl_Bignum25519_fmul qypz (Hacl_Impl_Ed25519_ExtPoint_gety q1) (Hacl_Impl_Ed25519_ExtPoint_getz p);
          qypz = Hacl_Bignum25519_reduce qypz;
          b = Hacl_Impl_Ed25519_PointEqual_eq pyqz qypz
      in (b, take 10 tmp @ pyqz @ qypz))"

definition Hacl_Impl_Ed25519_PointEqual_point_equal' :: "u64 list \<Rightarrow> u64 list \<Rightarrow> u64 list \<Rightarrow> bool \<times> u64 list" where
  "Hacl_Impl_Ed25519_PointEqual_point_equal' p q1 tmp =
     (let (b, tmp) = Hacl_Impl_Ed25519_PointEqual_point_equal_1 p q1 tmp
      in if b = True then Hacl_Impl_Ed25519_PointEqual_point_equal_2 p q1 tmp
         else (False, tmp))"

definition Hacl_Impl_Ed25519_PointEqual_point_equal :: "u64 list \<Rightarrow> u64 list \<Rightarrow> bool" where
  "Hacl_Impl_Ed25519_PointEqual_point_equal p q1 =
     (let tmp = replicate 20 0;
          (res, tmp) = Hacl_Impl_Ed25519_PointEqual_point_equal' p q1 tmp
      in res)"

section \<open>Points and their buffers\<close>

lemmas coords_def = Hacl_Impl_Ed25519_ExtPoint_getx_def Hacl_Impl_Ed25519_ExtPoint_gety_def
  Hacl_Impl_Ed25519_ExtPoint_getz_def Hacl_Impl_Ed25519_ExtPoint_gett_def

lemma coords_append [simp]:
  assumes "length x = 5" "length y = 5" "length z = 5" "length t = 5"
  shows "Hacl_Impl_Ed25519_ExtPoint_getx (x @ y @ z @ t) = x" "Hacl_Impl_Ed25519_ExtPoint_gety (x @ y @ z @ t) = y"
    "Hacl_Impl_Ed25519_ExtPoint_getz (x @ y @ z @ t) = z" "Hacl_Impl_Ed25519_ExtPoint_gett (x @ y @ z @ t) = t"
  using assms by (simp_all add: coords_def slice_def)

lemma length_coords [simp]:
  assumes "length p = 20"
  shows "length (Hacl_Impl_Ed25519_ExtPoint_getx p) = 5" "length (Hacl_Impl_Ed25519_ExtPoint_gety p) = 5"
    "length (Hacl_Impl_Ed25519_ExtPoint_getz p) = 5" "length (Hacl_Impl_Ed25519_ExtPoint_gett p) = 5"
  using assms by (simp_all add: coords_def)

lemma coords_concat:
  assumes "length p = 20"
  shows "Hacl_Impl_Ed25519_ExtPoint_getx p @ Hacl_Impl_Ed25519_ExtPoint_gety p @ Hacl_Impl_Ed25519_ExtPoint_getz p
    @ Hacl_Impl_Ed25519_ExtPoint_gett p = p"
proof -
  have "take 5 p @ take 5 (drop 5 p) @ take 5 (drop 10 p) @ take 5 (drop 15 p) = take (5 + (5 + (5 + 5))) p"
    by (simp only: take_add drop_drop) simp
  then show ?thesis using assms by (simp add: coords_def slice_def)
qed

definition ext_rep :: "u64 list \<Rightarrow> ext_point \<Rightarrow> bool" where
  "ext_rep p = (\<lambda>(x, y, z, t). length p = 20
     \<and> rep TIGHT (Hacl_Impl_Ed25519_ExtPoint_getx p) x \<and> rep TIGHT (Hacl_Impl_Ed25519_ExtPoint_gety p) y
     \<and> rep TIGHT (Hacl_Impl_Ed25519_ExtPoint_getz p) z \<and> rep TIGHT (Hacl_Impl_Ed25519_ExtPoint_gett p) t)"

lemma ext_rep_length: "ext_rep p q \<Longrightarrow> length p = 20"
  by (auto simp: ext_rep_def)

lemma ext_rep_append:
  "rep TIGHT x x' \<Longrightarrow> rep TIGHT y y' \<Longrightarrow> rep TIGHT z z' \<Longrightarrow> rep TIGHT t t' \<Longrightarrow> ext_rep (x @ y @ z @ t) (x', y', z', t')"
  by (simp add: ext_rep_def rep_length)

lemma ext_repD:
  assumes "ext_rep p (x, y, z, t)"
  shows "rep TIGHT (Hacl_Impl_Ed25519_ExtPoint_getx p) x" "rep TIGHT (Hacl_Impl_Ed25519_ExtPoint_gety p) y"
    "rep TIGHT (Hacl_Impl_Ed25519_ExtPoint_getz p) z" "rep TIGHT (Hacl_Impl_Ed25519_ExtPoint_gett p) t"
  using assms by (simp_all add: ext_rep_def)

lemma slice_zeros_5: "k + 5 \<le> n \<Longrightarrow> slice k 5 (replicate n 0) = replicate 5 0"
  by (simp add: slice_def)

section \<open>Addition and doubling compute the formulas\<close>

lemma point_add_rep:
  assumes p: "ext_rep p P" and q: "ext_rep q1 Q" and out: "length out = 20"
  shows "ext_rep (Hacl_Impl_Ed25519_PointAdd_point_add out p q1) (ed_add P Q)"
proof -
  obtain x1 y1 z1 t1 where P: "P = (x1, y1, z1, t1)" by (cases P)
  obtain x2 y2 z2 t2 where Q: "Q = (x2, y2, z2, t2)" by (cases Q)
  note p = ext_repD [OF p [unfolded P]] and q = ext_repD [OF q [unfolded Q]]
  define o5 :: "u64 list" where "o5 = replicate 5 0"
  have o5: "length o5 = 5" by (simp add: o5_def)
  note len = p [THEN rep_length] q [THEN rep_length]
  define A where "A = Hacl_Bignum25519_fmul o5 (Hacl_Bignum25519_fdifference_reduced (Hacl_Impl_Ed25519_ExtPoint_getx p) (Hacl_Impl_Ed25519_ExtPoint_gety p))
      (Hacl_Bignum25519_fdifference (Hacl_Impl_Ed25519_ExtPoint_getx q1) (Hacl_Impl_Ed25519_ExtPoint_gety q1))"
  define B where "B = Hacl_Bignum25519_fmul o5 (Hacl_Bignum25519_fsum (Hacl_Impl_Ed25519_ExtPoint_gety p) (Hacl_Impl_Ed25519_ExtPoint_getx p))
      (Hacl_Bignum25519_fsum (Hacl_Impl_Ed25519_ExtPoint_gety q1) (Hacl_Impl_Ed25519_ExtPoint_getx q1))"
  have rA: "rep TIGHT A ((y1 - x1) * (y2 - x2))"
    unfolding A_def by (intro fmul25519_rep fdifference25519_rep rep_loose [OF fdifference_reduced_rep] p q o5)
  have rB: "rep TIGHT B ((y1 + x1) * (y2 + x2))"
    unfolding B_def by (intro fmul25519_rep fsum25519_rep p q o5)
  define a b c d where m: "a = (y1 - x1) * (y2 - x2) mod P25519" "b = (y1 + x1) * (y2 + x2) mod P25519"
    "c = t1 * (2 * ed_d) * t2 mod P25519" "d = 2 * z1 * z2 mod P25519"
  have rA: "rep TIGHT A a" and rB: "rep TIGHT B b" using rA rB by (simp_all add: m)
  note s1 = fsum25519_rep [OF p(2,1), THEN rep_length] fsum25519_rep [OF q(2,1), THEN rep_length]
  note s2 = fdifference_reduced_rep [OF p(1,2), THEN rep_length] fdifference25519_rep [OF q(1,2), THEN rep_length]
  define T where "T = Hacl_Bignum25519_times_2d (Hacl_Bignum25519_fsum (Hacl_Impl_Ed25519_ExtPoint_gety p) (Hacl_Impl_Ed25519_ExtPoint_getx p)) (Hacl_Impl_Ed25519_ExtPoint_gett p)"
  have rT: "rep TIGHT T (t1 * (2 * ed_d))"
    unfolding T_def by (intro times_2d_rep rep_loose p s1)
  define C where "C = Hacl_Bignum25519_fmul (Hacl_Bignum25519_fsum (Hacl_Impl_Ed25519_ExtPoint_gety q1) (Hacl_Impl_Ed25519_ExtPoint_getx q1)) T (Hacl_Impl_Ed25519_ExtPoint_gett q1)"
  have rC: "rep TIGHT C c"
    unfolding C_def m rep_mod by (intro fmul25519_rep rep_loose [OF rT] rep_loose q s1)
  define Z where "Z = Hacl_Bignum25519_times_2 T (Hacl_Impl_Ed25519_ExtPoint_getz p)"
  have rZ: "rep LOOSE Z (2 * z1)"
    unfolding Z_def by (intro times_2_rep p rep_length [OF rT])
  define D where "D = Hacl_Bignum25519_fmul o5 Z (Hacl_Impl_Ed25519_ExtPoint_getz q1)"
  have rD: "rep TIGHT D d"
    unfolding D_def m rep_mod by (intro fmul25519_rep rZ rep_loose q o5)
  define E F G H where efgh: "E = Hacl_Bignum25519_fdifference_reduced A B" "F = Hacl_Bignum25519_fdifference C D"
    "G = Hacl_Bignum25519_fsum D C" "H = Hacl_Bignum25519_fsum B A"
  have rE: "rep LOOSE E (b - a)" and rF: "rep LOOSE F (d - c)" and rG: "rep LOOSE G (d + c)" and rH: "rep LOOSE H (b + a)"
    unfolding efgh by (intro rep_loose fdifference_reduced_rep fdifference25519_rep fsum25519_rep rA rB rC rD)+
  have E: "Hacl_Impl_Ed25519_PointAdd_point_add out p q1 =
    Hacl_Bignum25519_fmul (Hacl_Impl_Ed25519_ExtPoint_getx out) E F @ Hacl_Bignum25519_fmul (Hacl_Impl_Ed25519_ExtPoint_gety out) G H
    @ Hacl_Bignum25519_fmul (Hacl_Impl_Ed25519_ExtPoint_getz out) G F @ Hacl_Bignum25519_fmul (Hacl_Impl_Ed25519_ExtPoint_gett out) E H"
    unfolding Hacl_Impl_Ed25519_PointAdd_point_add_def Let_def
    by (simp add: slice_zeros_5 blit_all len s1 s2 rep_length [OF rA] rep_length [OF rB] rep_length [OF rC] rep_length [OF rZ] o5
        flip: o5_def A_def B_def T_def C_def Z_def D_def efgh)
  have S: "ed_add P Q = ((b - a) * (d - c) mod P25519, (d + c) * (b + a) mod P25519, (d - c) * (d + c) mod P25519, (b - a) * (b + a) mod P25519)"
    by (simp add: ed_add_def P Q Let_def m)
  show ?thesis
    unfolding E S
    using fmul25519_rep [OF rE rF] fmul25519_rep [OF rG rH] fmul25519_rep [OF rG rF] fmul25519_rep [OF rE rH] out
    by (intro ext_rep_append) (simp_all add: mult.commute)
qed

lemma slices_6:
  assumes "length a = 5" "length b = 5" "length c = 5" "length d = 5" "length e = 5" "length f = 5"
  shows "slice 0 5 (a @ b @ c @ d @ e @ f) = a" "slice 5 5 (a @ b @ c @ d @ e @ f) = b" "slice 10 5 (a @ b @ c @ d @ e @ f) = c"
    "slice 15 5 (a @ b @ c @ d @ e @ f) = d" "slice 20 5 (a @ b @ c @ d @ e @ f) = e" "slice 25 5 (a @ b @ c @ d @ e @ f) = f"
  using assms by (simp_all add: slice_def)

lemma point_double_rep:
  assumes p: "ext_rep p P" and out: "length out = 20"
  shows "ext_rep (Hacl_Impl_Ed25519_PointDouble_point_double out p) (ed_double P)"
proof -
  obtain x1 y1 z1 t1 where P: "P = (x1, y1, z1, t1)" by (cases P)
  note p = ext_repD [OF p [unfolded P]]
  define o5 :: "u64 list" where "o5 = replicate 5 0"
  have o5: "length o5 = 5" by (simp add: o5_def)
  note len = p [THEN rep_length]
  define X Y Z where xyz: "X = Hacl_Bignum25519_fsquare o5 (Hacl_Impl_Ed25519_ExtPoint_getx p)"
    "Y = Hacl_Bignum25519_fsquare o5 (Hacl_Impl_Ed25519_ExtPoint_gety p)"
    "Z = Hacl_Bignum25519_fsquare o5 (Hacl_Impl_Ed25519_ExtPoint_getz p)"
  have rX: "rep TIGHT X (x1 ^ 2)" and rY: "rep TIGHT Y (y1 ^ 2)" and rZ: "rep TIGHT Z (z1 ^ 2)"
    unfolding xyz by (intro fsquare25519_rep rep_loose p o5)+
  define a b c where m: "a = x1 ^ 2 mod P25519" "b = y1 ^ 2 mod P25519" "c = 2 * z1 ^ 2 mod P25519"
  have rX: "rep TIGHT X a" and rY: "rep TIGHT Y b" using rX rY by (simp_all add: m)
  define ZZ where "ZZ = Hacl_Bignum25519_times_2 o5 Z"
  have rZZ: "rep LOOSE ZZ c"
    unfolding ZZ_def m rep_mod by (intro times_2_rep rZ o5)
  define H0 H where h: "H0 = Hacl_Bignum25519_fsum X Y" "H = Hacl_Bignum25519_reduce_513 H0"
  have rH: "rep TIGHT H (a + b)"
    unfolding h by (intro reduce_513_rep fsum25519_rep rX rY)
  have 1: "Hacl_Impl_Ed25519_PointDouble_point_double_step_1 p (replicate 30 0) = X @ Y @ H @ ZZ @ o5 @ o5"
  proof -
    have "drop 20 (replicate 30 0) = o5 @ o5"
      by (simp add: o5_def replicate_add [symmetric])
    then show ?thesis
      unfolding Hacl_Impl_Ed25519_PointDouble_point_double_step_1_def Let_def
      by (simp add: slice_zeros_5 blit_all rep_length [OF rX] rep_length [OF rZ] flip: o5_def xyz ZZ_def h)
  qed
  define S where "S = Hacl_Bignum25519_fsum (Hacl_Impl_Ed25519_ExtPoint_getx p) (Hacl_Impl_Ed25519_ExtPoint_gety p)"
  have rS: "rep LOOSE S (x1 + y1)"
    unfolding S_def by (intro fsum25519_rep p)
  define SS where "SS = Hacl_Bignum25519_fsquare o5 S"
  have rSS: "rep TIGHT SS ((x1 + y1) ^ 2)"
    unfolding SS_def by (intro fsquare25519_rep rS o5)
  define E G F0 F where g: "E = Hacl_Bignum25519_fdifference SS H" "G = Hacl_Bignum25519_fdifference_reduced Y X"
    "F0 = Hacl_Bignum25519_reduce_513 ZZ" "F = Hacl_Bignum25519_fsum F0 G"
  have rE: "rep LOOSE E (a + b - (x1 + y1) ^ 2)" and rG: "rep TIGHT G (a - b)" and rF0: "rep TIGHT F0 c"
    unfolding g by (intro fdifference25519_rep fdifference_reduced_rep reduce_513_rep rSS rH rX rY rZZ)+
  have rF: "rep LOOSE F (c + (a - b))"
    unfolding g(4) by (intro fsum25519_rep rG rF0)
  note lens = rep_length [OF rX] rep_length [OF rY] rep_length [OF rH] rep_length [OF rZZ] o5 rep_length [OF rS]
    rep_length [OF rE] rep_length [OF rG] rep_length [OF rF]
  have 2: "Hacl_Impl_Ed25519_PointDouble_point_double_step_2 p (X @ Y @ H @ ZZ @ o5 @ o5) = X @ G @ H @ F @ H @ E"
    unfolding Hacl_Impl_Ed25519_PointDouble_point_double_step_2_def Let_def
    by (simp add: slices_6 blit_all lens len flip: S_def SS_def g)
  have E: "Hacl_Impl_Ed25519_PointDouble_point_double out p =
    Hacl_Bignum25519_fmul (Hacl_Impl_Ed25519_ExtPoint_getx out) F E @ Hacl_Bignum25519_fmul (Hacl_Impl_Ed25519_ExtPoint_gety out) G H
    @ Hacl_Bignum25519_fmul (Hacl_Impl_Ed25519_ExtPoint_getz out) F G @ Hacl_Bignum25519_fmul (Hacl_Impl_Ed25519_ExtPoint_gett out) H E"
    unfolding Hacl_Impl_Ed25519_PointDouble_point_double_def Hacl_Impl_Ed25519_PointDouble_point_double'_def Let_def 1 2
    by (simp add: slices_6 lens)
  have S: "ed_double P = ((a + b - (x1 + y1) ^ 2) * (c + (a - b)) mod P25519, (a - b) * (a + b) mod P25519,
      (c + (a - b)) * (a - b) mod P25519, (a + b - (x1 + y1) ^ 2) * (a + b) mod P25519)"
    by (simp add: ed_double_def P Let_def m)
  show ?thesis
    unfolding E S
    using fmul25519_rep [OF rF rE] fmul25519_rep [OF rep_loose [OF rG] rep_loose [OF rH]]
      fmul25519_rep [OF rF rep_loose [OF rG]] fmul25519_rep [OF rep_loose [OF rH] rE] out
    by (intro ext_rep_append) (simp_all add: mult.commute)
qed

section \<open>The ladder multiplies\<close>

lemma ed_swap_step_eq:
  assumes "length a = 5" "length b = 5" "length a' = 5" "length b' = 5"
  shows "Hacl_Impl_Ed25519_SwapConditional_swap_conditional_step a' b' a b 0 = (a, b)"
    and "Hacl_Impl_Ed25519_SwapConditional_swap_conditional_step a' b' a b (- 1) = (b, a)"
proof -
  have x: "u XOR (u XOR v) = v" "u XOR (v XOR u) = v" for u v :: u64
    by (intro bit_word_eqI; auto simp: bit_simps)+
  show "Hacl_Impl_Ed25519_SwapConditional_swap_conditional_step a' b' a b 0 = (a, b)"
    and "Hacl_Impl_Ed25519_SwapConditional_swap_conditional_step a' b' a b (- 1) = (b, a)"
    using assms by (simp_all add: Hacl_Impl_Ed25519_SwapConditional_swap_conditional_step_def Let_def x list_of_5
        del: One_nat_def)
qed

lemma ed_swap_eq:
  assumes "length a = 20" "length b = 20" "length a' = 20" "length b' = 20"
  shows "Hacl_Impl_Ed25519_SwapConditional_swap_conditional a' b' a b (of_bool s) = (if s then (b, a) else (a, b))"
    and "Hacl_Impl_Ed25519_SwapConditional_swap_conditional_inplace a b (of_bool s) = (if s then (b, a) else (a, b))"
  unfolding Hacl_Impl_Ed25519_SwapConditional_swap_conditional_def
    Hacl_Impl_Ed25519_SwapConditional_swap_conditional_inplace_def Let_def
  using assms by (cases s; simp add: ed_swap_step_eq coords_concat)+

definition ladder_rep :: "u64 list \<Rightarrow> ext_point \<times> ext_point \<Rightarrow> bool" where
  "ladder_rep b = (\<lambda>(n, m). length b = 80 \<and> ext_rep (slice 0 20 b) n \<and> ext_rep (slice 20 20 b) m)"

lemma slices_80:
  assumes "length a = 20" "length b = 20" "length r = 40"
  shows "slice 0 20 (a @ b @ r) = a" "slice 20 20 (a @ b @ r) = b" "drop 40 (a @ b @ r) = r"
    "slice 40 20 (a @ b @ r) = take 20 r" "slice 60 20 (a @ b @ r) = drop 20 r"
  using assms by (simp_all add: slice_def)

lemma ith_bit_eq: "(ucast (Hacl_Impl_Ed25519_Ladder_Step_ith_bit k i) :: u64) = of_bool (bit (k ! (unat i div 8)) (unat i mod 8))"
proof -
  let ?v = "k ! (unat i div 8)" and ?r = "unat i mod 8"
  have m: "(7 :: u32) = mask 3" by (simp add: mask_eq_exp_minus_1)
  have "unat (i AND 7) = ?r" unfolding m unat_and_mask by simp
  moreover have "unat (drop_bit 3 i) = unat i div 8" by (simp add: unat_drop_bit)
  moreover have "drop_bit ?r ?v AND 1 = of_bool (bit ?v ?r)"
    by (simp add: and_one_eq mod2_eq_if bit_iff_odd_drop_bit)
  ultimately show ?thesis
    by (simp add: Hacl_Impl_Ed25519_Ladder_Step_ith_bit_def Let_def)
qed

lemma loop_step_rep:
  assumes "ladder_rep b st"
  shows "ladder_rep (Hacl_Impl_Ed25519_Ladder_Step_loop_step b k i)
    (ed_ladder_bit (bit (k ! (unat i div 8)) (unat i mod 8)) st)"
proof -
  let ?s = "bit (k ! (unat i div 8)) (unat i mod 8)"
  obtain n m where st: "st = (n, m)" by (cases st)
  let ?nq = "slice 0 20 b" and ?nqpq = "slice 20 20 b"
  define u v where uv: "u = (if ?s then ?nqpq else ?nq)" "v = (if ?s then ?nq else ?nqpq)"
  define U V where UV: "U = (if ?s then m else n)" "V = (if ?s then n else m)"
  have lb: "length b = 80" using assms by (simp add: ladder_rep_def st)
  have r: "ext_rep u U" "ext_rep v V"
    using assms by (simp_all add: ladder_rep_def st uv UV)
  have lu: "length u = 20" "length v = 20" by (rule ext_rep_length [OF r(1)]) (rule ext_rep_length [OF r(2)])
  have 1: "Hacl_Impl_Ed25519_Ladder_Step_loop_step_1 b k i (Hacl_Impl_Ed25519_Ladder_Step_ith_bit k i) = u @ v @ drop 40 b"
    unfolding Hacl_Impl_Ed25519_Ladder_Step_loop_step_1_def Let_def ith_bit_eq Hacl_Impl_Ed25519_Ladder_Step_swap_cond_inplace_def
    using lb by (simp add: ed_swap_eq(2) [where a' = "replicate 20 0" and b' = "replicate 20 0"] uv)
  define D A where da: "D = Hacl_Impl_Ed25519_PointDouble_point_double (take 20 (drop 40 b)) u"
    "A = Hacl_Impl_Ed25519_PointAdd_point_add (drop 20 (drop 40 b)) u v"
  have rD: "ext_rep D (ed_double U)"
    unfolding da by (intro point_double_rep r) (simp add: lb)
  have rA: "ext_rep A (ed_add U V)"
    unfolding da by (intro point_add_rep r) (simp add: lb)
  have lda: "length D = 20" "length A = 20" by (rule ext_rep_length [OF rD]) (rule ext_rep_length [OF rA])
  have 2: "Hacl_Impl_Ed25519_Ladder_Step_loop_step_2 (u @ v @ drop 40 b) k i = u @ v @ D @ A"
    unfolding Hacl_Impl_Ed25519_Ladder_Step_loop_step_2_def Let_def
    using lb by (simp add: slices_80 lu da)
  have 3: "Hacl_Impl_Ed25519_Ladder_Step_loop_step_3 (u @ v @ D @ A) k i (Hacl_Impl_Ed25519_Ladder_Step_ith_bit k i)
      = (if ?s then A @ D @ D @ A else D @ A @ D @ A)"
    unfolding Hacl_Impl_Ed25519_Ladder_Step_loop_step_3_def Let_def ith_bit_eq Hacl_Impl_Ed25519_Ladder_Step_swap_cond_def
    by (simp add: slices_80 lu lda ed_swap_eq(1))
  have "Hacl_Impl_Ed25519_Ladder_Step_loop_step b k i = (if ?s then A @ D @ D @ A else D @ A @ D @ A)"
    unfolding Hacl_Impl_Ed25519_Ladder_Step_loop_step_def Let_def 1 2 3 ..
  then show ?thesis
    using rD rA lda by (cases ?s) (simp_all add: ladder_rep_def ed_ladder_bit_def st UV slices_80)
qed

text \<open>The bits of a scalar, by their index.\<close>

lemma bits_of_bytes_nth:
  "bits_of_bytes k = map (\<lambda>i. bit (k ! ((8 * length k - 1 - i) div 8)) ((8 * length k - 1 - i) mod 8)) [0..<8 * length k]"
proof (induction k rule: rev_induct)
  case Nil
  then show ?case by (simp add: bits_of_bytes_def)
next
  case (snoc b k)
  let ?n = "length k"
  let ?f = "\<lambda>i. bit ((k @ [b]) ! ((8 * length (k @ [b]) - 1 - i) div 8)) ((8 * length (k @ [b]) - 1 - i) mod 8)"
  have "byte_bits b = map ?f [0..<8]"
  proof (unfold byte_bits_def, intro map_cong refl)
    fix i assume "i \<in> set [0..<8 :: nat]"
    then have "8 * length (k @ [b]) - 1 - i = 8 * ?n + (7 - i)" "7 - i < 8" by auto
    then have "(8 * length (k @ [b]) - 1 - i) div 8 = ?n" "(8 * length (k @ [b]) - 1 - i) mod 8 = 7 - i" by simp_all
    then show "bit b (7 - i) = ?f i" by simp
  qed
  moreover have "bits_of_bytes k = map ?f [8..<8 + 8 * ?n]"
  proof -
    have "map ?f [8..<8 + 8 * ?n] = map (?f \<circ> (\<lambda>i. i + 8)) [0..<8 * ?n]"
      unfolding map_map [symmetric] map_add_upt by (simp add: add.commute)
    also have "\<dots> = bits_of_bytes k"
      unfolding snoc.IH by (intro map_cong refl) (auto simp: nth_append)
    finally show ?thesis by simp
  qed
  moreover have "[0..<8 + 8 * ?n] = [0..<8] @ [8..<8 + 8 * ?n]"
    using upt_add_eq_append [of 0 8 "8 * ?n"] by simp
  ultimately show ?case
    by (simp add: bits_of_bytes_def)
qed

lemma point_mul'_rep:
  assumes "ladder_rep b st" "length k = 32"
  shows "ladder_rep (Hacl_Impl_Ed25519_Ladder_point_mul' b k) (fold ed_ladder_bit (bits_of_bytes k) st)"
proof -
  let ?bit = "\<lambda>i. bit (k ! ((255 - i) div 8)) ((255 - i) mod 8)"
  have "ladder_rep (for_range 0 256 (\<lambda>i b. Hacl_Impl_Ed25519_Ladder_Step_loop_step b k (256 - word_of_nat i - 1)) b)
      (fold ed_ladder_bit (map ?bit [0..<256]) st)"
  proof (rule for_range_invariant [where P = "\<lambda>i b. ladder_rep b (fold ed_ladder_bit (map ?bit [0..<i]) st)"])
    show "ladder_rep b (fold ed_ladder_bit (map ?bit [0..<0]) st)" using assms(1) by simp
    fix i b
    assume i: "i < 256" and I: "ladder_rep b (fold ed_ladder_bit (map ?bit [0..<i]) st)"
    have "(256 :: u32) - word_of_nat i - 1 = word_of_nat (255 - i)"
      using i by (simp add: of_nat_diff)
    then have "unat ((256 :: u32) - word_of_nat i - 1) = 255 - i"
      by (simp add: unat_of_nat)
    then show "ladder_rep (Hacl_Impl_Ed25519_Ladder_Step_loop_step b k (256 - word_of_nat i - 1))
        (fold ed_ladder_bit (map ?bit [0..<Suc i]) st)"
      using loop_step_rep [OF I, of k "256 - word_of_nat i - 1"] by simp
  qed simp
  then show ?thesis
    by (simp add: Hacl_Impl_Ed25519_Ladder_point_mul'_def bits_of_bytes_nth assms(2))
qed

lemma point_inf_rep:
  "length b = 20 \<Longrightarrow> ext_rep (Hacl_Impl_Ed25519_Ladder_make_point_inf b) ed_neutral"
  unfolding Hacl_Impl_Ed25519_Ladder_make_point_inf_def Let_def ed_neutral_def
  by (intro ext_rep_append) (simp_all add: rep_TIGHT_0 rep_TIGHT_1)

lemma ed_copy_eq: "length p = 20 \<Longrightarrow> length out = 20 \<Longrightarrow> Hacl_Impl_Ed25519_SwapConditional_copy out p = p"
  by (simp add: Hacl_Impl_Ed25519_SwapConditional_copy_def blit_all)

lemma point_mul_rep:
  assumes q: "ext_rep q1 Q" and k: "length k = 32" and out: "length out = 20"
  shows "ext_rep (Hacl_Impl_Ed25519_Ladder_point_mul out k q1) (ed_mul k Q)"
proof -
  let ?z = "replicate 20 (0 :: u64)"
  have lq: "length q1 = 20" by (rule ext_rep_length [OF q])
  define nq where "nq = Hacl_Impl_Ed25519_Ladder_make_point_inf ?z"
  have n: "ext_rep nq ed_neutral" unfolding nq_def by (rule point_inf_rep) simp
  have ln: "length nq = 20" by (rule ext_rep_length [OF n])
  let ?b = "nq @ q1 @ replicate 40 0"
  have "ladder_rep ?b (ed_neutral, Q)"
    using n q ln lq by (simp add: ladder_rep_def slices_80)
  from point_mul'_rep [OF this k]
  have "ladder_rep (Hacl_Impl_Ed25519_Ladder_point_mul' ?b k) (fold ed_ladder_bit (bits_of_bytes k) (ed_neutral, Q))" .
  then have r: "ext_rep (slice 0 20 (Hacl_Impl_Ed25519_Ladder_point_mul' ?b k)) (ed_mul k Q)"
    by (simp add: ladder_rep_def ed_mul_def case_prod_beta)
  have "slice 0 20 (replicate 80 0) = ?z" "slice 20 20 (replicate 80 0) = ?z"
    by (simp_all add: slice_def)
  then have "Hacl_Impl_Ed25519_Ladder_point_mul out k q1 = slice 0 20 (Hacl_Impl_Ed25519_Ladder_point_mul' ?b k)"
    using lq out ext_rep_length [OF r]
    by (simp add: Hacl_Impl_Ed25519_Ladder_point_mul_def Let_def ed_copy_eq flip: nq_def)
  then show ?thesis using r by simp
qed

text \<open>The base point.\<close>

lemma make_g_rep:
  assumes "length g = 20"
  shows "ext_rep (Hacl_Impl_Ed25519_G_make_g g) ed_base"
proof -
  have "rep TIGHT [0x00062d608f25d51a, 0x000412a4b4f6592a, 0x00075b7171a4b31d, 0x0001ff60527118fe, 0x000216936d3cd6e5] base_x"
    by (rule rep_constant) (simp_all add: base_x_def)
  moreover have "rep TIGHT [0x0006666666666658, 0x0004cccccccccccc, 0x0001999999999999, 0x0003333333333333, 0x0006666666666666] base_y"
    by (rule rep_constant) (simp_all add: base_y_def)
  moreover have "rep TIGHT [0x00068ab3a5b7dda3, 0x00000eea2a5eadbb, 0x0002af8df483c27e, 0x000332b375274732, 0x00067875f0fd78b7]
      (base_x * base_y mod P25519)"
    unfolding base_xy by (rule rep_constant) simp_all
  ultimately show ?thesis
    unfolding Hacl_Impl_Ed25519_G_make_g_def Let_def ed_base_def
    using assms by (intro ext_rep_append) (simp_all add: rep_TIGHT_1)
qed

section \<open>Comparison and compression\<close>

lemma ed_eq_iff: "length a = 5 \<Longrightarrow> length b = 5 \<Longrightarrow> Hacl_Impl_Ed25519_PointEqual_eq a b = (a = b)"
  by (elim length_5_cases) (simp add: Hacl_Impl_Ed25519_PointEqual_eq_def Let_def)

lemma reduced_eq_iff:
  assumes "rep TIGHT a x" "rep TIGHT b y"
  shows "Hacl_Impl_Ed25519_PointEqual_eq (Hacl_Bignum25519_reduce a) (Hacl_Bignum25519_reduce b) = (x mod P25519 = y mod P25519)"
  using canonical_eq_iff [OF reduce_canonical [OF rep_loose [OF assms(1)]] reduce_canonical [OF rep_loose [OF assms(2)]]]
    canonical_length [OF reduce_canonical [OF rep_loose [OF assms(1)]]] canonical_length [OF reduce_canonical [OF rep_loose [OF assms(2)]]]
  by (simp add: ed_eq_iff)

lemma point_equal_eq:
  assumes p: "ext_rep p P" and q: "ext_rep q1 Q"
  shows "Hacl_Impl_Ed25519_PointEqual_point_equal p q1 = ed_equal P Q"
proof -
  obtain x1 y1 z1 t1 where P: "P = (x1, y1, z1, t1)" by (cases P)
  obtain x2 y2 z2 t2 where Q: "Q = (x2, y2, z2, t2)" by (cases Q)
  note p = ext_repD [OF p [unfolded P], THEN rep_loose] and q = ext_repD [OF q [unfolded Q], THEN rep_loose]
  have 1: "\<exists>t. length t = 20 \<and> Hacl_Impl_Ed25519_PointEqual_point_equal_1 p q1 tmp = (x1 * z2 mod P25519 = x2 * z1 mod P25519, t)"
    if "length tmp = 20" for tmp
  proof -
    have r: "rep TIGHT (Hacl_Bignum25519_fmul (slice 0 5 tmp) (Hacl_Impl_Ed25519_ExtPoint_getx p) (Hacl_Impl_Ed25519_ExtPoint_getz q1)) (x1 * z2)"
      "rep TIGHT (Hacl_Bignum25519_fmul (slice 5 5 tmp) (Hacl_Impl_Ed25519_ExtPoint_getx q1) (Hacl_Impl_Ed25519_ExtPoint_getz p)) (x2 * z1)"
      using that by (intro fmul25519_rep p q; simp)+
    show ?thesis
      using canonical_length [OF reduce_canonical [OF rep_loose [OF r(1)]]] canonical_length [OF reduce_canonical [OF rep_loose [OF r(2)]]] that
      by (simp add: Hacl_Impl_Ed25519_PointEqual_point_equal_1_def Let_def reduced_eq_iff [OF r])
  qed
  have 2: "fst (Hacl_Impl_Ed25519_PointEqual_point_equal_2 p q1 tmp) = (y1 * z2 mod P25519 = y2 * z1 mod P25519)"
    if "length tmp = 20" for tmp
  proof -
    have r: "rep TIGHT (Hacl_Bignum25519_fmul (slice 10 5 tmp) (Hacl_Impl_Ed25519_ExtPoint_gety p) (Hacl_Impl_Ed25519_ExtPoint_getz q1)) (y1 * z2)"
      "rep TIGHT (Hacl_Bignum25519_fmul (slice 15 5 tmp) (Hacl_Impl_Ed25519_ExtPoint_gety q1) (Hacl_Impl_Ed25519_ExtPoint_getz p)) (y2 * z1)"
      using that by (intro fmul25519_rep p q; simp)+
    show ?thesis
      by (simp add: Hacl_Impl_Ed25519_PointEqual_point_equal_2_def Let_def reduced_eq_iff [OF r])
  qed
  obtain t where t: "length t = 20"
    "Hacl_Impl_Ed25519_PointEqual_point_equal_1 p q1 (replicate 20 0) = (x1 * z2 mod P25519 = x2 * z1 mod P25519, t)"
    using 1 [of "replicate 20 0"] by auto
  show ?thesis
    using 2 [OF t(1)]
    by (auto simp: Hacl_Impl_Ed25519_PointEqual_point_equal_def Hacl_Impl_Ed25519_PointEqual_point_equal'_def
        t(2) case_prod_beta ed_equal_def P Q)
qed

lemma nat_to_le_Suc: "nat_to_le (Suc n) x = nat_to_le n x @ [word_of_nat (x div 256 ^ n)]"
  by (simp add: nat_to_le_def)

lemma sign_bit_added:
  fixes n b :: nat
  assumes "n < 2 ^ 255" "b < 2"
  shows "(nat_to_le 32 n @ r)[31 := (nat_to_le 32 n @ r) ! 31 + push_bit 7 (word_of_nat b)] = nat_to_le 32 (n + 2 ^ 255 * b) @ r"
proof -
  have hi: "(n + 2 ^ 255 * b) div 256 ^ 31 = n div 256 ^ 31 + 128 * b"
  proof -
    have "n + 2 ^ 255 * b = n + 256 ^ 31 * (128 * b)" by simp
    then show ?thesis by (simp only: div_mult_self2) simp
  qed
  have lo: "nat_to_le 31 (n + 2 ^ 255 * b) = nat_to_le 31 n"
  proof (rule le_nat_inj)
    have "n + 2 ^ 255 * b = n + 256 ^ 31 * (128 * b)" by simp
    then show "le_nat (nat_to_le 31 (n + 2 ^ 255 * b)) = le_nat (nat_to_le 31 n)"
      unfolding le_nat_nat_to_le by (simp only: mod_mult_self2)
  qed simp
  have s: "nat_to_le 32 m = nat_to_le 31 m @ [word_of_nat (m div 256 ^ 31)]" for m
    using nat_to_le_Suc [of 31 m] by simp
  have p: "push_bit 7 (word_of_nat b :: u8) = word_of_nat (128 * b)"
    by (simp add: push_bit_eq_mult)
  show ?thesis
    unfolding s lo hi by (simp add: nth_append list_update_append p)
qed

lemma store_51_eq: "Hacl_Impl_Store51_store_51' = Hacl_EC_Format_fcontract_store"
  by (simp add: fun_eq_iff Hacl_Impl_Store51_store_51'_def Hacl_EC_Format_fcontract_store_def)

lemma canonical_parity:
  assumes "canonical a x"
  shows "a ! 0 AND 1 = word_of_nat (nat (x mod P25519 mod 2))"
proof -
  obtain a0 a1 a2 a3 a4 where A: "a = [a0, a1, a2, a3, a4]"
    using canonical_length [OF assms] by (rule length_5_cases)
  obtain r where "fval a = unat a0 + 2 * r"
  proof
    show "fval a = unat a0 + 2 * (2 ^ 50 * (unat a1 + 2 ^ 51 * (unat a2 + 2 ^ 51 * (unat a3 + 2 ^ 51 * unat a4))))"
      unfolding A fval_horner by simp
  qed
  then have "nat (x mod P25519) = unat a0 + 2 * r"
    using assms by (simp add: canonical_def)
  then have "nat (x mod P25519) mod 2 = unat a0 mod 2"
    by (simp only: mod_mult_self2)
  moreover have "nat (x mod P25519 mod 2) = nat (x mod P25519) mod 2"
    by (simp add: nat_mod_distrib)
  moreover have "a0 AND 1 = word_of_nat (unat a0 mod 2)"
    by (intro word_unat_eqI) (simp add: and_one_eq unat_of_nat unat_mod)
  ultimately show ?thesis by (simp add: A)
qed

lemma point_compress_eq:
  assumes p: "ext_rep p P" and out: "32 \<le> length out"
  shows "Hacl_Impl_Ed25519_PointCompress_point_compress out p = ed_compress P @ drop 32 out"
proof -
  obtain x y z t where P: "P = (x, y, z, t)" by (cases P)
  note p = ext_repD [OF p [unfolded P]]
  define o5 :: "u64 list" where "o5 = replicate 5 0"
  have o5: "length o5 = 5" by (simp add: o5_def)
  define zi where "zi = Hacl_Bignum25519_inverse o5 (Hacl_Impl_Ed25519_ExtPoint_getz p)"
  have zi: "rep LOOSE zi (field_inv z)"
    unfolding zi_def by (intro rep_loose inverse_rep p o5)
  define X Y where XY: "X = Hacl_Bignum25519_reduce (Hacl_Bignum25519_fmul o5 (Hacl_Impl_Ed25519_ExtPoint_getx p) zi)"
    "Y = Hacl_Bignum25519_reduce (Hacl_Bignum25519_fmul o5 (Hacl_Impl_Ed25519_ExtPoint_gety p) zi)"
  have X: "canonical X (x * field_inv z)" and Y: "canonical Y (y * field_inv z)"
    unfolding XY by (intro reduce_canonical rep_loose [OF fmul25519_rep] rep_loose [OF p(1)] rep_loose [OF p(2)] zi o5)+
  define b where "b = nat (x * field_inv z mod P25519 mod 2)"
  define n where "n = nat (y * field_inv z mod P25519)"
  have b: "b < 2" by (simp add: b_def)
  have n: "n < 2 ^ 255"
  proof -
    have "y * field_inv z mod P25519 < P25519" by simp
    also have "\<dots> < 2 ^ 255" by (simp add: P25519_def)
    finally show ?thesis by (simp add: n_def)
  qed
  have s: "Hacl_Impl_Store51_store_51' out Y = nat_to_le 32 n @ drop 32 out"
    using Y out unfolding store_51_eq canonical_def n_def by (subst store_limbs) simp_all
  have xb: "(ucast (X ! 0 AND 1) :: u8) = word_of_nat b"
    unfolding canonical_parity [OF X] b_def [symmetric]
    using b by (intro word_unat_eqI) (simp add: unat_ucast_down unat_of_nat)
  have "Hacl_Impl_Ed25519_PointCompress_point_compress out p = nat_to_le 32 (n + 2 ^ 255 * b) @ drop 32 out"
    unfolding Hacl_Impl_Ed25519_PointCompress_point_compress_def Let_def Hacl_Impl_Ed25519_PointCompress_x_mod_2_def
    by (simp add: slice_zeros_5 s xb sign_bit_added [OF n b] flip: o5_def zi_def XY)
  moreover have "nat (y * field_inv z mod P25519 + 2 ^ 255 * (x * field_inv z mod P25519 mod 2)) = n + 2 ^ 255 * b"
    by (simp add: n_def b_def nat_add_distrib nat_mult_distrib)
  ultimately show ?thesis
    by (simp add: ed_compress_def P Let_def)
qed

end
