(* ===== verification/Hacl_Ed25519_Decompress.thy ===== *)
theory Hacl_Ed25519_Decompress
  imports Hacl_Ed25519_Point Hacl_Curve25519
begin

text \<open>
  Decompression of Ed25519 points (\<^verbatim>\<open>Hacl_Ed25519.c\<close>): the x-coordinate from the y-coordinate and a sign bit, by a
  power and at most one correction with the square root of minus one, with every way an encoding can be rejected.
  The routines report success and return the buffers they wrote.
\<close>

section \<open>The code\<close>

definition Hacl_Impl_Ed25519_Pow2_252m2_pow2_252m2 :: "u64 list \<Rightarrow> u64 list \<Rightarrow> u64 list" where
  "Hacl_Impl_Ed25519_Pow2_252m2_pow2_252m2 out z = Hacl_Bignum_Crecip_crecip' out z"

definition Hacl_Impl_Ed25519_RecoverX_is_0 :: "u64 list \<Rightarrow> bool" where
  "Hacl_Impl_Ed25519_RecoverX_is_0 x =
     (let x0 = x ! 0; x1 = x ! 1; x2 = x ! 2; x3 = x ! 3; x4 = x ! 4
      in x0 = 0 \<and> x1 = 0 \<and> x2 = 0 \<and> x3 = 0 \<and> x4 = 0)"

definition Hacl_Impl_Ed25519_RecoverX_recover_x_step_5 ::
  "u64 list \<Rightarrow> u64 \<Rightarrow> u64 list \<Rightarrow> u64 list \<times> u64 list" where
  "Hacl_Impl_Ed25519_RecoverX_recover_x_step_5 x sign1 tmp =
     (let x3 = slice 5 5 tmp;
          t0 = slice 10 5 tmp;
          x0 = x3 ! 0;
          x00 = x0 AND 1;
          (x3, t0) =
            (if \<not> x00 = sign1 then
               let zero1 = 0;
                   t0 = Hacl_Lib_Create64_make_h64_5 t0 zero1 zero1 zero1 zero1 zero1;
                   x3 = Hacl_Bignum25519_fdifference x3 t0;
                   x3 = Hacl_Bignum25519_reduce_513 x3;
                   x3 = Hacl_Bignum25519_reduce x3
               in (x3, t0)
             else (x3, t0));
          x = blit x 0 (take 5 x3)
      in (x, take 5 tmp @ x3 @ t0 @ drop 15 tmp))"

definition Hacl_Impl_Ed25519_RecoverX_recover_x' ::
  "u64 list \<Rightarrow> u64 list \<Rightarrow> u64 \<Rightarrow> u64 list \<Rightarrow> bool \<times> u64 list \<times> u64 list" where
  "Hacl_Impl_Ed25519_RecoverX_recover_x' x y sign1 tmp =
     (let x20 = slice 0 5 tmp;
          x0 = y ! 0; x1 = y ! 1; x2 = y ! 2; x30 = y ! 3; x4 = y ! 4;
          b = (x0 \<ge> 0x7ffffffffffed \<and> x1 = 0x7ffffffffffff \<and> x2 = 0x7ffffffffffff \<and> x30 = 0x7ffffffffffff
            \<and> x4 = 0x7ffffffffffff)
      in if b then (False, x, tmp)
         else
           let tmp0 = replicate 25 0;
               one10 = slice 0 5 tmp0;
               y2 = slice 5 5 tmp0;
               dyyi = slice 10 5 tmp0;
               dyy = slice 15 5 tmp0;
               zero10 = 0;
               one1 = 1;
               one10 = Hacl_Lib_Create64_make_h64_5 one10 one1 zero10 zero10 zero10 zero10;
               y2 = Hacl_Bignum25519_fsquare y2 y;
               dyy = Hacl_Bignum25519_times_d dyy y2;
               dyy = Hacl_Bignum25519_fsum dyy one10;
               dyy = Hacl_Bignum25519_reduce_513 dyy;
               dyyi = Hacl_Bignum25519_inverse dyyi dyy;
               one10 = Hacl_Bignum25519_fdifference one10 y2;
               x20 = Hacl_Bignum25519_fmul x20 dyyi one10;
               x20 = Hacl_Bignum25519_reduce x20;
               x2_is_0 = Hacl_Impl_Ed25519_RecoverX_is_0 x20;
               (z, x) =
                 (if x2_is_0 then
                    (if sign1 = 0 then
                       let zero1 = 0;
                           x = Hacl_Lib_Create64_make_h64_5 x zero1 zero1 zero1 zero1 zero1
                       in (1 :: u8, x)
                     else (0, x))
                  else (2, x))
           in if z = 0 then (False, x, x20 @ drop 5 tmp)
              else if z = 1 then (True, x, x20 @ drop 5 tmp)
              else
                let x2 = x20;
                    x30 = slice 5 5 tmp;
                    t00 = slice 10 5 tmp;
                    t10 = slice 15 5 tmp;
                    x30 = Hacl_Impl_Ed25519_Pow2_252m2_pow2_252m2 x30 x2;
                    t00 = Hacl_Bignum25519_fsquare t00 x30;
                    t10 = blit t10 0 (take 5 x2);
                    t10 = Hacl_Bignum25519_fdifference t10 t00;
                    t10 = Hacl_Bignum25519_reduce_513 t10;
                    t10 = Hacl_Bignum25519_reduce t10;
                    t1_is_0 = Hacl_Impl_Ed25519_RecoverX_is_0 t10;
                    x30 =
                      (if \<not> t1_is_0 then
                         let sqrt_m1 = replicate 5 0;
                             sqrt_m1 = Hacl_Lib_Create64_make_h64_5 sqrt_m1 0x00061b274a0ea0b0 0x0000d5a5fc8f189d
                               0x0007ef5e9cbd0c60 0x00078595a6804c9e 0x0002b8324804fc1d
                         in Hacl_Bignum25519_fmul x30 x30 sqrt_m1
                       else x30);
                    x30 = Hacl_Bignum25519_reduce x30;
                    x3 = x30;
                    t0 = t00;
                    t1 = t10;
                    t0 = Hacl_Bignum25519_fsquare t0 x3;
                    t1 = blit t1 0 (take 5 x20);
                    t1 = Hacl_Bignum25519_fdifference t1 t0;
                    t1 = Hacl_Bignum25519_reduce_513 t1;
                    t1 = Hacl_Bignum25519_reduce t1;
                    z1 = Hacl_Impl_Ed25519_RecoverX_is_0 t1;
                    tmp = x20 @ x3 @ t0 @ t1
                in if z1 = False then (False, x, tmp)
                   else
                     let (x, tmp) = Hacl_Impl_Ed25519_RecoverX_recover_x_step_5 x sign1 tmp
                     in (True, x, tmp))"

definition Hacl_Impl_Ed25519_RecoverX_recover_x :: "u64 list \<Rightarrow> u64 list \<Rightarrow> u64 \<Rightarrow> bool \<times> u64 list" where
  "Hacl_Impl_Ed25519_RecoverX_recover_x x y sign1 =
     (let tmp = replicate 20 0;
          (res, x, tmp) = Hacl_Impl_Ed25519_RecoverX_recover_x' x y sign1 tmp
      in (res, x))"

definition Hacl_Impl_Load51_load_51 :: "u64 list \<Rightarrow> bytes \<Rightarrow> u64 list" where
  "Hacl_Impl_Load51_load_51 output input = Hacl_EC_Format_fexpand output input"

definition Hacl_Impl_Ed25519_PointDecompress_point_decompress :: "u64 list \<Rightarrow> bytes \<Rightarrow> bool \<times> u64 list" where
  "Hacl_Impl_Ed25519_PointDecompress_point_decompress out s =
     (let tmp = replicate 10 0;
          y = slice 0 5 tmp;
          x = slice 5 5 tmp;
          s31 = s ! 31;
          sign1 = ucast (drop_bit 7 s31);
          y = Hacl_Impl_Load51_load_51 y s;
          (z, x) = Hacl_Impl_Ed25519_RecoverX_recover_x x y sign1;
          x0 = x;
          y0 = y;
          z0 = z
      in if z0 = False then (False, out)
         else
           let outx = Hacl_Impl_Ed25519_ExtPoint_getx out;
               outy = Hacl_Impl_Ed25519_ExtPoint_gety out;
               outz = Hacl_Impl_Ed25519_ExtPoint_getz out;
               outt = Hacl_Impl_Ed25519_ExtPoint_gett out;
               outx = blit outx 0 (take 5 x0);
               outy = blit outy 0 (take 5 y0);
               zero1 = 0;
               one1 = 1;
               outz = Hacl_Lib_Create64_make_h64_5 outz one1 zero1 zero1 zero1 zero1;
               outt = Hacl_Bignum25519_fmul outt x0 y0
           in (True, outx @ outy @ outz @ outt))"

section \<open>The pieces\<close>

lemma is_0_iff:
  assumes "canonical a x"
  shows "Hacl_Impl_Ed25519_RecoverX_is_0 a = (x mod P25519 = 0)"
proof -
  have z: "canonical [0, 0, 0, 0, 0] 0"
    by (simp add: canonical_def limbs_below_cons fval_cons)
  have "Hacl_Impl_Ed25519_RecoverX_is_0 a = (a = [0, 0, 0, 0, 0])"
    using canonical_length [OF assms]
    by (elim length_5_cases) (simp add: Hacl_Impl_Ed25519_RecoverX_is_0_def Let_def)
  then show ?thesis
    using canonical_eq_iff [OF assms z] by simp
qed

text \<open>The encoded coordinate is rejected when it is not reduced.\<close>

lemma not_reduced_iff:
  assumes "limbs_below (2 ^ 51) y"
  shows "(y ! 0 \<ge> 0x7ffffffffffed \<and> y ! 1 = 0x7ffffffffffff \<and> y ! 2 = 0x7ffffffffffff \<and> y ! 3 = 0x7ffffffffffff
      \<and> y ! 4 = 0x7ffffffffffff) = (int (fval y) \<ge> P25519)"
proof -
  have "length y = 5" using assms by (simp add: limbs_below_def)
  then obtain a0 a1 a2 a3 a4 where A: "y = [a0, a1, a2, a3, a4]"
    by (rule length_5_cases)
  have l: "unat a0 < 2 ^ 51" "unat a1 < 2 ^ 51" "unat a2 < 2 ^ 51" "unat a3 < 2 ^ 51" "unat a4 < 2 ^ 51"
    using assms by (simp_all add: A limbs_below_cons)
  have "(2 ^ 255 - 19 \<le> fval y) = (0x7ffffffffffed \<le> unat a0 \<and> unat a1 = 0x7ffffffffffff \<and> unat a2 = 0x7ffffffffffff
      \<and> unat a3 = 0x7ffffffffffff \<and> unat a4 = 0x7ffffffffffff)"
    using l unfolding A fval_cons by simp linarith
  moreover have "(int (fval y) \<ge> P25519) = (2 ^ 255 - 19 \<le> fval y)"
  proof -
    have P: "P25519 = int (2 ^ 255 - 19)" by (simp add: P25519_def)
    show ?thesis unfolding P of_nat_le_iff ..
  qed
  ultimately show ?thesis
    by (simp add: A word_le_nat_alt word_unat_eq_iff)
qed

text \<open>The comparison of a square with the wanted value.\<close>

lemma square_check:
  assumes x: "rep TIGHT a x" and v: "canonical b v" and len: "length t = 5" "length s = 5"
  shows "canonical (Hacl_Bignum25519_reduce (Hacl_Bignum25519_reduce_513
      (Hacl_Bignum25519_fdifference (blit t 0 b) (Hacl_Bignum25519_fsquare s a)))) (x * x - v)"
proof -
  have b: "blit t 0 b = b" using len canonical_length [OF v] by (simp add: blit_all)
  have "rep TIGHT (Hacl_Bignum25519_fsquare s a) (x * x)"
    using fsquare25519_rep [OF rep_loose [OF x] len(2)] by (simp add: power2_eq_square)
  from fdifference25519_rep [OF canonical_rep [OF v] this] show ?thesis
    unfolding b by (intro reduce_canonical rep_loose [OF reduce_513_rep])
qed

lemma length_square_check:
  "rep TIGHT a x \<Longrightarrow> length s = 5 \<Longrightarrow> length (Hacl_Bignum25519_fsquare s a) = 5"
  by (rule rep_length, rule fsquare25519_rep, rule rep_loose)

lemma sqrt_m1_rep:
  "rep TIGHT [0x00061b274a0ea0b0, 0x0000d5a5fc8f189d, 0x0007ef5e9cbd0c60, 0x00078595a6804c9e, 0x0002b8324804fc1d] sqrt_minus_1"
  by (rule rep_constant) (simp_all add: sqrt_minus_1_def)

lemma x_squared_canonical:
  assumes y: "rep TIGHT y Y" and len: "length d = 5" "length i = 5" "length t = 5" "length o5 = 5"
  shows "canonical (Hacl_Bignum25519_reduce (Hacl_Bignum25519_fmul o5
      (Hacl_Bignum25519_inverse i (Hacl_Bignum25519_reduce_513 (Hacl_Bignum25519_fsum
        (Hacl_Bignum25519_times_d d (Hacl_Bignum25519_fsquare t y)) [1, 0, 0, 0, 0])))
      (Hacl_Bignum25519_fdifference [1, 0, 0, 0, 0] (Hacl_Bignum25519_fsquare t y))))
    ((Y * Y - 1) * field_inv (ed_d * Y * Y + 1))"
proof -
  have y2: "rep TIGHT (Hacl_Bignum25519_fsquare t y) (Y * Y)"
    using fsquare25519_rep [OF rep_loose [OF y] len(3)] by (simp add: power2_eq_square)
  have d: "rep TIGHT (Hacl_Bignum25519_inverse i (Hacl_Bignum25519_reduce_513 (Hacl_Bignum25519_fsum
        (Hacl_Bignum25519_times_d d (Hacl_Bignum25519_fsquare t y)) [1, 0, 0, 0, 0]))) (field_inv (ed_d * (Y * Y) + 1))"
    by (intro inverse_rep reduce_513_rep fsum25519_rep times_d_rep rep_loose y2 rep_TIGHT_1 len)
  have n: "rep LOOSE (Hacl_Bignum25519_fdifference [1, 0, 0, 0, 0] (Hacl_Bignum25519_fsquare t y)) (Y * Y - 1)"
    by (intro fdifference25519_rep rep_TIGHT_1 y2)
  show ?thesis
    unfolding mult.commute [of "Y * Y - 1"] mult.assoc
    by (rule reduce_canonical [OF rep_loose [OF fmul25519_rep [OF rep_loose [OF d] n len(4)]]])
qed

text \<open>The choice of the root with the wanted parity.\<close>

lemma step_5_eq:
  assumes "canonical a x" "0 \<le> x" "x < P25519" "length x' = 5" "length v = 5" "length t0 = 5" "length t1 = 5"
  obtains r t where "Hacl_Impl_Ed25519_RecoverX_recover_x_step_5 x' (of_bool s) (v @ a @ t0 @ t1) = (r, t)"
    "canonical r (if x mod 2 = of_bool s then x else (- x) mod P25519)"
proof -
  have la: "length a = 5" by (rule canonical_length [OF assms(1)])
  have sl: "slice 5 5 (v @ a @ t0 @ t1) = a" "slice 10 5 (v @ a @ t0 @ t1) = t0"
    using assms la by (simp_all add: slice_def)
  have par: "(a ! 0 AND 1 = of_bool s) = (x mod 2 = of_bool s)"
  proof -
    have "a ! 0 AND 1 = word_of_nat (nat (x mod 2))"
      using canonical_parity [OF assms(1)] assms(2,3) by simp
    moreover have "x mod 2 = 0 \<or> x mod 2 = 1" by linarith
    ultimately show ?thesis by (cases s) auto
  qed
  have neg: "canonical (Hacl_Bignum25519_reduce (Hacl_Bignum25519_reduce_513 (Hacl_Bignum25519_fdifference a [0, 0, 0, 0, 0]))) (- x)"
    using reduce_canonical [OF rep_loose [OF reduce_513_rep [OF fdifference25519_rep [OF canonical_rep [OF assms(1)] rep_TIGHT_0]]]]
    by simp
  show thesis
  proof (cases "x mod 2 = of_bool s")
    case True
    then show thesis
      using assms la par by (intro that [of a]) (simp_all add: Hacl_Impl_Ed25519_RecoverX_recover_x_step_5_def sl blit_all)
  next
    case False
    then show thesis
      using assms la par neg canonical_length [OF neg]
      by (intro that) (simp_all add: Hacl_Impl_Ed25519_RecoverX_recover_x_step_5_def Let_def sl blit_all canonical_mod)
  qed
qed

section \<open>Recovering x\<close>

lemma canonical_reduced: "canonical a x \<Longrightarrow> canonical a (x mod P25519)"
  by (simp add: canonical_mod)

lemma recover_x_eq:
  assumes y: "limbs_below (2 ^ 51) y" and x: "length x = 5"
  shows "case recover_x (int (fval y)) (of_bool s) of
      None \<Rightarrow> \<exists>x'. Hacl_Impl_Ed25519_RecoverX_recover_x x y (of_bool s) = (False, x')
    | Some v \<Rightarrow> \<exists>x'. Hacl_Impl_Ed25519_RecoverX_recover_x x y (of_bool s) = (True, x') \<and> canonical x' v"
proof -
  let ?Y = "int (fval y)"
  define z20 :: "u64 list" where "z20 = replicate 20 0"
  define o5 :: "u64 list" where "o5 = replicate 5 0"
  have o5: "length o5 = 5" by (simp add: o5_def)
  have sl: "slice 0 5 z20 = o5" "slice 5 5 z20 = o5" "slice 10 5 z20 = o5" "slice 15 5 z20 = o5"
    by (simp_all add: z20_def o5_def slice_def)
  have rY: "rep TIGHT y ?Y"
    using y by (auto simp: rep_def limbs_below_def TIGHT_def)
  note code = Hacl_Impl_Ed25519_RecoverX_recover_x_def Hacl_Impl_Ed25519_RecoverX_recover_x'_def
  show ?thesis
  proof (cases "?Y \<ge> P25519")
    case True
    then show ?thesis
      unfolding code Let_def not_reduced_iff [OF y] by (simp add: recover_x_def)
  next
    case False
    define y2 where "y2 = Hacl_Bignum25519_fsquare o5 y"
    define X2 where "X2 = Hacl_Bignum25519_reduce (Hacl_Bignum25519_fmul o5
      (Hacl_Bignum25519_inverse o5 (Hacl_Bignum25519_reduce_513 (Hacl_Bignum25519_fsum
        (Hacl_Bignum25519_times_d o5 y2) [1, 0, 0, 0, 0])))
      (Hacl_Bignum25519_fdifference [1, 0, 0, 0, 0] y2))"
    define x2 where "x2 = (?Y * ?Y - 1) * field_inv (ed_d * ?Y * ?Y + 1) mod P25519"
    have X2: "canonical X2 x2"
      unfolding X2_def x2_def y2_def by (rule canonical_reduced [OF x_squared_canonical [OF rY o5 o5 o5 o5]])
    have b2: "0 \<le> x2" "x2 < P25519" by (simp_all add: x2_def)
    have z2: "Hacl_Impl_Ed25519_RecoverX_is_0 X2 = (x2 = 0)"
      using is_0_iff [OF X2] b2 by simp
    show ?thesis
    proof (cases "x2 = 0")
      case True
      have c0: "canonical [0, 0, 0, 0, 0] 0"
        by (simp add: canonical_def limbs_below_cons fval_cons)
      show ?thesis
        using False True x c0 unfolding code Let_def not_reduced_iff [OF y]
        by (cases s) (simp_all add: recover_x_def Let_def sl slice_zeros_5 o5 z2 True flip: z20_def o5_def y2_def X2_def x2_def)
    next
      case nz: False
      define X3 where "X3 = Hacl_Bignum_Crecip_crecip' o5 X2"
      define x3 where "x3 = pow_mod x2 (2 ^ 252 - 2) mod P25519"
      have X3: "rep TIGHT X3 x3"
        using crecip'_rep [OF canonical_rep [OF X2] o5] by (simp add: X3_def x3_def)
      define T0 where "T0 = Hacl_Bignum25519_fsquare o5 X3"
      define T1 where "T1 = Hacl_Bignum25519_reduce (Hacl_Bignum25519_reduce_513 (Hacl_Bignum25519_fdifference X2 T0))"
      have bl: "blit o5 0 (take 5 X2) = X2"
        using canonical_length [OF X2] o5 by (simp add: blit_all)
      have T1: "canonical T1 (x3 * x3 - x2)"
        using square_check [OF X3 X2 o5 o5] bl canonical_length [OF X2] by (simp add: T1_def T0_def)
      have z3: "Hacl_Impl_Ed25519_RecoverX_is_0 T1 = ((x3 * x3 - x2) mod P25519 = 0)"
        by (rule is_0_iff [OF T1])
      define x4 where "x4 = (if (x3 * x3 - x2) mod P25519 = 0 then x3 else x3 * sqrt_minus_1 mod P25519)"
      define X4 where "X4 = Hacl_Bignum25519_reduce (if \<not> Hacl_Impl_Ed25519_RecoverX_is_0 T1
        then Hacl_Bignum25519_fmul X3 X3 [0x00061b274a0ea0b0, 0x0000d5a5fc8f189d, 0x0007ef5e9cbd0c60, 0x00078595a6804c9e, 0x0002b8324804fc1d]
        else X3)"
      have X4: "canonical X4 x4"
        unfolding X4_def x4_def z3
        using reduce_canonical [OF rep_loose [OF X3]]
          reduce_canonical [OF rep_loose [OF fmul25519_rep [OF rep_loose [OF X3] rep_loose [OF sqrt_m1_rep] rep_length [OF X3]]]]
        by (simp add: canonical_mod)
      have b4: "0 \<le> x4" "x4 < P25519" by (simp_all add: x4_def x3_def)
      define T2 where "T2 = Hacl_Bignum25519_fsquare T0 X4"
      define T3 where "T3 = Hacl_Bignum25519_reduce (Hacl_Bignum25519_reduce_513 (Hacl_Bignum25519_fdifference X2 T2))"
      have lT0: "length T0 = 5" unfolding T0_def by (rule length_square_check [OF X3 o5])
      have lT2: "length T2 = 5" unfolding T2_def by (rule length_square_check [OF canonical_rep [OF X4] lT0])
      have bl2: "blit T1 0 (take 5 X2) = X2"
        using canonical_length [OF X2] canonical_length [OF T1] by (simp add: blit_all)
      have T3: "canonical T3 (x4 * x4 - x2)"
        using square_check [OF canonical_rep [OF X4] X2 canonical_length [OF T1] lT0] bl2 canonical_length [OF X2]
        by (simp add: T3_def T2_def)
      have z4: "Hacl_Impl_Ed25519_RecoverX_is_0 T3 = ((x4 * x4 - x2) mod P25519 = 0)"
        by (rule is_0_iff [OF T3])
      obtain r t where r: "Hacl_Impl_Ed25519_RecoverX_recover_x_step_5 x (of_bool s) (X2 @ X4 @ T2 @ T3) = (r, t)"
        "canonical r (if x4 mod 2 = of_bool s then x4 else (- x4) mod P25519)"
        using step_5_eq [OF X4 b4 x canonical_length [OF X2] lT2 canonical_length [OF T3]] .
      define sb :: u64 where "sb = of_bool s"
      have code_eq: "Hacl_Impl_Ed25519_RecoverX_recover_x x y sb =
          (if Hacl_Impl_Ed25519_RecoverX_is_0 T3 then (True, r) else (False, x))"
      proof (cases "Hacl_Impl_Ed25519_RecoverX_is_0 T1")
        case True
        then have X4': "Hacl_Bignum25519_reduce X3 = X4" by (simp add: X4_def)
        show ?thesis
          using False nz True unfolding code Let_def not_reduced_iff [OF y]
          by (simp add: sl slice_zeros_5 z2 r(1) [folded sb_def] Hacl_Impl_Ed25519_Pow2_252m2_pow2_252m2_def bl bl2 o5 X4'
              flip: z20_def o5_def y2_def X2_def X3_def T0_def T1_def T2_def T3_def)
      next
        case nonsquare: False
        then have X4': "Hacl_Bignum25519_reduce (Hacl_Bignum25519_fmul X3 X3
          [0x00061b274a0ea0b0, 0x0000d5a5fc8f189d, 0x0007ef5e9cbd0c60, 0x00078595a6804c9e, 0x0002b8324804fc1d]) = X4"
          by (simp add: X4_def)
        show ?thesis
          using False nz nonsquare unfolding code Let_def not_reduced_iff [OF y]
          by (simp add: sl slice_zeros_5 z2 r(1) [folded sb_def] Hacl_Impl_Ed25519_Pow2_252m2_pow2_252m2_def bl bl2 o5 X4'
              flip: z20_def o5_def y2_def X2_def X3_def T0_def T1_def T2_def T3_def)
      qed
      have "recover_x ?Y (of_bool s) = (if (x4 * x4 - x2) mod P25519 = 0
          then Some (if x4 mod 2 = of_bool s then x4 else (- x4) mod P25519) else None)"
        using False nz unfolding recover_x_def Let_def x2_def [symmetric] x3_def [symmetric] x4_def [symmetric] by simp
      then show ?thesis
        using r(2) z4 unfolding sb_def [symmetric] code_eq by (simp del: of_bool_eq_iff)
    qed
  qed
qed

section \<open>Decompression\<close>

lemma le_nat_top_bit:
  fixes b :: "u8 list"
  assumes "length b = 32"
  shows "le_nat b div 2 ^ 255 = of_bool (bit (b ! 31) 7)"
proof -
  have s: "b = take 31 b @ [b ! 31]"
    using assms take_Suc_conv_app_nth [of 31 b] by simp
  have "le_nat b = le_nat (take 31 b) + 256 ^ 31 * unat (b ! 31)"
    using assms by (subst s) (simp add: le_nat_append)
  moreover have "le_nat (take 31 b) < 256 ^ 31"
    using le_nat_lt [of "take 31 b"] assms by simp
  ultimately have "le_nat b div 256 ^ 31 = unat (b ! 31)"
    by simp
  then have "le_nat b div 2 ^ 255 = unat (b ! 31) div 2 ^ 7"
    using div_mult2_eq [of "le_nat b" "256 ^ 31" "2 ^ 7"] by simp
  also have "\<dots> = of_bool (bit (b ! 31) 7)"
  proof -
    have "unat (b ! 31) div 2 ^ 7 < 2"
      using unat_u8_lt [of "b ! 31"] by (intro less_mult_imp_div_less) simp
    then have "unat (b ! 31) div 2 ^ 7 = of_bool (odd (unat (b ! 31) div 2 ^ 7))"
      by (cases "unat (b ! 31) div 2 ^ 7 = 0") auto
    moreover have "odd (unat (b ! 31) div 2 ^ 7) = bit (b ! 31) 7"
      unfolding bit_iff_odd [symmetric] bit_unsigned_iff by simp
    ultimately show ?thesis by simp
  qed
  finally show ?thesis .
qed

lemma point_decompress_eq:
  assumes out: "length out = 20" and s: "32 \<le> length s"
  shows "case ed_decompress s of
      None \<Rightarrow> Hacl_Impl_Ed25519_PointDecompress_point_decompress out s = (False, out)
    | Some p \<Rightarrow> \<exists>out'. Hacl_Impl_Ed25519_PointDecompress_point_decompress out s = (True, out') \<and> ext_rep out' p"
proof -
  let ?b = "take 32 s"
  define y where "y = Hacl_EC_Format_fexpand (replicate 5 0) s"
  define sg where "sg = bit (s ! 31) 7"
  have y: "limbs_below (2 ^ 51) y" "fval y = le_nat ?b mod 2 ^ 255"
    using fexpand_value [OF s, of "replicate 5 0"] by (simp_all add: y_def)
  have sg: "int (le_nat ?b div 2 ^ 255) = of_bool sg"
    using le_nat_top_bit [of ?b] s by (simp add: sg_def)
  have sign: "(ucast (drop_bit 7 (s ! 31)) :: u64) = of_bool sg"
    by (simp only: sg_def top_bit)
  have dec: "ed_decompress s = map_option (\<lambda>x. (x, int (fval y), 1, x * int (fval y) mod P25519))
      (recover_x (int (fval y)) (of_bool sg))"
    by (simp only: ed_decompress_def Let_def y(2) sg)
  have rY: "rep TIGHT y (int (fval y))"
    using y(1) by (auto simp: rep_def limbs_below_def TIGHT_def)
  have sl: "slice 0 5 (replicate 10 (0 :: u64)) = replicate 5 0" "slice 5 5 (replicate 10 (0 :: u64)) = replicate 5 0"
    by (simp_all add: slice_zeros_5)
  have code: "Hacl_Impl_Ed25519_PointDecompress_point_decompress out s =
     (let (z, x) = Hacl_Impl_Ed25519_RecoverX_recover_x (replicate 5 0) y (of_bool sg)
      in if z = False then (False, out)
         else (True, blit (Hacl_Impl_Ed25519_ExtPoint_getx out) 0 (take 5 x)
             @ blit (Hacl_Impl_Ed25519_ExtPoint_gety out) 0 (take 5 y)
             @ Hacl_Lib_Create64_make_h64_5 (Hacl_Impl_Ed25519_ExtPoint_getz out) 1 0 0 0 0
             @ Hacl_Bignum25519_fmul (Hacl_Impl_Ed25519_ExtPoint_gett out) x y))"
    unfolding Hacl_Impl_Ed25519_PointDecompress_point_decompress_def Let_def sign Hacl_Impl_Load51_load_51_def
      sl y_def [symmetric] ..
  show ?thesis
  proof (cases "recover_x (int (fval y)) (of_bool sg)")
    case None
    then show ?thesis
      using recover_x_eq [OF y(1), of "replicate 5 0" sg] by (auto simp: dec code)
  next
    case (Some v)
    then obtain x where x: "Hacl_Impl_Ed25519_RecoverX_recover_x (replicate 5 0) y (of_bool sg) = (True, x)" "canonical x v"
      using recover_x_eq [OF y(1), of "replicate 5 0" sg] by auto
    have "ext_rep (x @ y @ [1, 0, 0, 0, 0] @ Hacl_Bignum25519_fmul (Hacl_Impl_Ed25519_ExtPoint_gett out) x y)
        (v, int (fval y), 1, v * int (fval y) mod P25519)"
      using fmul25519_rep [OF rep_loose [OF canonical_rep [OF x(2)]] rep_loose [OF rY]] out
      by (intro ext_rep_append canonical_rep [OF x(2)] rY rep_TIGHT_1) simp
    then show ?thesis
      using out canonical_length [OF x(2)] rep_length [OF rY] by (simp add: dec Some code x(1) blit_all)
  qed
qed

end
