(* ===== verification/Hacl_BignumQ.thy ===== *)
theory Hacl_BignumQ
  imports Hacl_Bignum25519
begin

text \<open>
  Scalars of Ed25519 modulo the order of the base point (\<^verbatim>\<open>Hacl_Ed25519.c\<close>): five limbs of 56 bits, loading and
  storing them, schoolbook products in nine wide columns, Barrett reduction of a 512-bit number, and addition. The
  proofs read limbs as digits in base \<open>2 ^ 56\<close>.
\<close>

section \<open>The code\<close>

definition Hacl_Impl_Ed25519_PointEqual_gte_q :: "u64 list \<Rightarrow> bool" where
  "Hacl_Impl_Ed25519_PointEqual_gte_q s =
     (let s0 = s ! 0; s1 = s ! 1; s2 = s ! 2; s3 = s ! 3; s4 = s ! 4
      in if s4 > 0x00000010000000 then True
         else if s4 < 0x00000010000000 then False
         else if s3 > 0x00000000000000 then True
         else if s2 > 0x000000000014de then True
         else if s2 < 0x000000000014de then False
         else if s1 > 0xf9dea2f79cd658 then True
         else if s1 < 0xf9dea2f79cd658 then False
         else if s0 \<ge> 0x12631a5cf5d3ed then True
         else False)"

definition Hacl_Impl_Load56_load_64_bytes :: "u64 list \<Rightarrow> bytes \<Rightarrow> u64 list" where
  "Hacl_Impl_Load56_load_64_bytes out b =
     (let b0 = load64_le b AND 0xffffffffffffff;
          b1 = load64_le (drop 7 b) AND 0xffffffffffffff;
          b2 = load64_le (drop 14 b) AND 0xffffffffffffff;
          b3 = load64_le (drop 21 b) AND 0xffffffffffffff;
          b4 = load64_le (drop 28 b) AND 0xffffffffffffff;
          b5 = load64_le (drop 35 b) AND 0xffffffffffffff;
          b6 = load64_le (drop 42 b) AND 0xffffffffffffff;
          b7 = load64_le (drop 49 b) AND 0xffffffffffffff;
          b88 = load64_le (drop 56 b) AND 0xffffffffffffff;
          b63 = b ! 63;
          b9 = ucast b63
      in Hacl_Lib_Create64_make_h64_10 out b0 b1 b2 b3 b4 b5 b6 b7 b88 b9)"

definition Hacl_Impl_Load56_load_32_bytes :: "u64 list \<Rightarrow> bytes \<Rightarrow> u64 list" where
  "Hacl_Impl_Load56_load_32_bytes out b =
     (let b0 = load64_le b AND 0xffffffffffffff;
          b1 = load64_le (drop 7 b) AND 0xffffffffffffff;
          b2 = load64_le (drop 14 b) AND 0xffffffffffffff;
          b3 = load64_le (drop 21 b) AND 0xffffffffffffff;
          b4 = load32_le (drop 28 b);
          b41 = ucast b4
      in Hacl_Lib_Create64_make_h64_5 out b0 b1 b2 b3 b41)"

definition Hacl_Impl_Store56_store_56 :: "bytes \<Rightarrow> u64 list \<Rightarrow> bytes" where
  "Hacl_Impl_Store56_store_56 out b =
     (let b0 = b ! 0; b1 = b ! 1; b2 = b ! 2; b3 = b ! 3; b4 = b ! 4;
          b41 = ucast b4;
          out = store64_le out b0;
          out = at_off 7 (\<lambda>b80. store64_le b80 b1) out;
          out = at_off 14 (\<lambda>b81. store64_le b81 b2) out;
          out = at_off 21 (\<lambda>b82. store64_le b82 b3) out
      in at_off 28 (\<lambda>x0. store32_le x0 b41) out)"

definition Hacl_Lib_Create128_make_h128_9 ::
  "u128 list \<Rightarrow> u128 \<Rightarrow> u128 \<Rightarrow> u128 \<Rightarrow> u128 \<Rightarrow> u128 \<Rightarrow> u128 \<Rightarrow> u128 \<Rightarrow> u128 \<Rightarrow> u128 \<Rightarrow> u128 list" where
  "Hacl_Lib_Create128_make_h128_9 b s0 s1 s2 s3 s4 s5 s6 s7 s8 =
     b[0 := s0, 1 := s1, 2 := s2, 3 := s3, 4 := s4, 5 := s5, 6 := s6, 7 := s7, 8 := s8]"

definition Hacl_Impl_BignumQ_Mul_make_m :: "u64 list \<Rightarrow> u64 list" where
  "Hacl_Impl_BignumQ_Mul_make_m m1 =
     Hacl_Lib_Create64_make_h64_5 m1 0x12631a5cf5d3ed 0xf9dea2f79cd658 0x000000000014de 0x00000000000000 0x00000010000000"

definition Hacl_Impl_BignumQ_Mul_make_mu :: "u64 list \<Rightarrow> u64 list" where
  "Hacl_Impl_BignumQ_Mul_make_mu m1 =
     Hacl_Lib_Create64_make_h64_5 m1 0x9ce5a30a2c131b 0x215d086329a7ed 0xffffffffeb2106 0xffffffffffffff 0x00000fffffffff"

definition Hacl_Impl_BignumQ_Mul_choose :: "u64 list \<Rightarrow> u64 list \<Rightarrow> u64 list \<Rightarrow> u64 \<Rightarrow> u64 list" where
  "Hacl_Impl_BignumQ_Mul_choose z x y b =
     (let mask = b - 1;
          x0 = x ! 0; x1 = x ! 1; x2 = x ! 2; x3 = x ! 3; x4 = x ! 4;
          y0 = y ! 0; y1 = y ! 1; y2 = y ! 2; y3 = y ! 3; y4 = y ! 4;
          z0 = ((y0 XOR x0) AND mask) XOR x0;
          z1 = ((y1 XOR x1) AND mask) XOR x1;
          z2 = ((y2 XOR x2) AND mask) XOR x2;
          z3 = ((y3 XOR x3) AND mask) XOR x3;
          z4 = ((y4 XOR x4) AND mask) XOR x4
      in Hacl_Lib_Create64_make_h64_5 z z0 z1 z2 z3 z4)"

definition Hacl_Impl_BignumQ_Mul_lt :: "u64 \<Rightarrow> u64 \<Rightarrow> u64" where
  "Hacl_Impl_BignumQ_Mul_lt a b = drop_bit 63 (a - b)"

definition Hacl_Impl_BignumQ_Mul_shiftl_56 :: "u64 \<Rightarrow> u64" where
  "Hacl_Impl_BignumQ_Mul_shiftl_56 b = push_bit 56 b"

definition Hacl_Impl_BignumQ_Mul_sub_mod_264 :: "u64 list \<Rightarrow> u64 list \<Rightarrow> u64 list \<Rightarrow> u64 list" where
  "Hacl_Impl_BignumQ_Mul_sub_mod_264 z x y =
     (let x0 = x ! 0; x1 = x ! 1; x2 = x ! 2; x3 = x ! 3; x4 = x ! 4;
          y0 = y ! 0; y1 = y ! 1; y2 = y ! 2; y3 = y ! 3; y4 = y ! 4;
          b = Hacl_Impl_BignumQ_Mul_lt x0 y0;
          t0 = Hacl_Impl_BignumQ_Mul_shiftl_56 b + x0 - y0;
          y11 = y1 + b;
          b1 = Hacl_Impl_BignumQ_Mul_lt x1 y11;
          t1 = Hacl_Impl_BignumQ_Mul_shiftl_56 b1 + x1 - y11;
          y21 = y2 + b1;
          b2 = Hacl_Impl_BignumQ_Mul_lt x2 y21;
          t2 = Hacl_Impl_BignumQ_Mul_shiftl_56 b2 + x2 - y21;
          y31 = y3 + b2;
          b3 = Hacl_Impl_BignumQ_Mul_lt x3 y31;
          t3 = Hacl_Impl_BignumQ_Mul_shiftl_56 b3 + x3 - y31;
          y41 = y4 + b3;
          b4 = Hacl_Impl_BignumQ_Mul_lt x4 y41;
          t4 = push_bit 40 b4 + x4 - y41
      in Hacl_Lib_Create64_make_h64_5 z t0 t1 t2 t3 t4)"

definition Hacl_Impl_BignumQ_Mul_subm_conditional :: "u64 list \<Rightarrow> u64 list \<Rightarrow> u64 list" where
  "Hacl_Impl_BignumQ_Mul_subm_conditional z x =
     (let tmp = replicate 5 0;
          x0 = x ! 0; x1 = x ! 1; x2 = x ! 2; x3 = x ! 3; x4 = x ! 4;
          tmp = Hacl_Lib_Create64_make_h64_5 tmp x0 x1 x2 x3 x4;
          y0 = 0x12631a5cf5d3ed;
          y1 = 0xf9dea2f79cd658;
          y2 = 0x000000000014de;
          y3 = 0x00000000000000;
          y4 = 0x00000010000000;
          b = Hacl_Impl_BignumQ_Mul_lt x0 y0;
          t0 = Hacl_Impl_BignumQ_Mul_shiftl_56 b + x0 - y0;
          y11 = y1 + b;
          b1 = Hacl_Impl_BignumQ_Mul_lt x1 y11;
          t1 = Hacl_Impl_BignumQ_Mul_shiftl_56 b1 + x1 - y11;
          y21 = y2 + b1;
          b2 = Hacl_Impl_BignumQ_Mul_lt x2 y21;
          t2 = Hacl_Impl_BignumQ_Mul_shiftl_56 b2 + x2 - y21;
          y31 = y3 + b2;
          b3 = Hacl_Impl_BignumQ_Mul_lt x3 y31;
          t3 = Hacl_Impl_BignumQ_Mul_shiftl_56 b3 + x3 - y31;
          y41 = y4 + b3;
          b4 = Hacl_Impl_BignumQ_Mul_lt x4 y41;
          t4 = Hacl_Impl_BignumQ_Mul_shiftl_56 b4 + x4 - y41;
          z = Hacl_Lib_Create64_make_h64_5 z t0 t1 t2 t3 t4
      in Hacl_Impl_BignumQ_Mul_choose z tmp z b4)"

definition Hacl_Impl_BignumQ_Mul_low_mul_5 :: "u64 list \<Rightarrow> u64 list \<Rightarrow> u64 list \<Rightarrow> u64 list" where
  "Hacl_Impl_BignumQ_Mul_low_mul_5 z x y =
     (let x0 = x ! 0; x1 = x ! 1; x2 = x ! 2; x3 = x ! 3; x4 = x ! 4;
          y0 = y ! 0; y1 = y ! 1; y2 = y ! 2; y3 = y ! 3; y4 = y ! 4;
          xy00 = FStar_UInt128_mul_wide x0 y0;
          xy01 = FStar_UInt128_mul_wide x0 y1;
          xy02 = FStar_UInt128_mul_wide x0 y2;
          xy03 = FStar_UInt128_mul_wide x0 y3;
          xy04 = FStar_UInt128_mul_wide x0 y4;
          xy10 = FStar_UInt128_mul_wide x1 y0;
          xy11 = FStar_UInt128_mul_wide x1 y1;
          xy12 = FStar_UInt128_mul_wide x1 y2;
          xy13 = FStar_UInt128_mul_wide x1 y3;
          xy20 = FStar_UInt128_mul_wide x2 y0;
          xy21 = FStar_UInt128_mul_wide x2 y1;
          xy22 = FStar_UInt128_mul_wide x2 y2;
          xy30 = FStar_UInt128_mul_wide x3 y0;
          xy31 = FStar_UInt128_mul_wide x3 y1;
          xy40 = FStar_UInt128_mul_wide x4 y0;
          x5 = xy00;
          carry1 = FStar_UInt128_shift_right x5 56;
          t0 = FStar_UInt128_uint128_to_uint64 x5 AND 0xffffffffffffff;
          x6 = FStar_UInt128_add (FStar_UInt128_add xy01 xy10) carry1;
          carry2 = FStar_UInt128_shift_right x6 56;
          t11 = FStar_UInt128_uint128_to_uint64 x6 AND 0xffffffffffffff;
          x7 = FStar_UInt128_add (FStar_UInt128_add (FStar_UInt128_add xy02 xy11) xy20) carry2;
          carry3 = FStar_UInt128_shift_right x7 56;
          t21 = FStar_UInt128_uint128_to_uint64 x7 AND 0xffffffffffffff;
          x8 = FStar_UInt128_add (FStar_UInt128_add (FStar_UInt128_add (FStar_UInt128_add xy03 xy12) xy21) xy30) carry3;
          carry4 = FStar_UInt128_shift_right x8 56;
          t31 = FStar_UInt128_uint128_to_uint64 x8 AND 0xffffffffffffff;
          t4 = FStar_UInt128_uint128_to_uint64 (FStar_UInt128_add (FStar_UInt128_add (FStar_UInt128_add
                 (FStar_UInt128_add (FStar_UInt128_add xy04 xy13) xy22) xy31) xy40) carry4) AND 0xffffffffff
      in Hacl_Lib_Create64_make_h64_5 z t0 t11 t21 t31 t4)"

definition Hacl_Impl_BignumQ_Mul_mul_5 :: "u128 list \<Rightarrow> u64 list \<Rightarrow> u64 list \<Rightarrow> u128 list" where
  "Hacl_Impl_BignumQ_Mul_mul_5 z x y =
     (let x0 = x ! 0; x1 = x ! 1; x2 = x ! 2; x3 = x ! 3; x4 = x ! 4;
          y0 = y ! 0; y1 = y ! 1; y2 = y ! 2; y3 = y ! 3; y4 = y ! 4;
          xy00 = FStar_UInt128_mul_wide x0 y0;
          xy01 = FStar_UInt128_mul_wide x0 y1;
          xy02 = FStar_UInt128_mul_wide x0 y2;
          xy03 = FStar_UInt128_mul_wide x0 y3;
          xy04 = FStar_UInt128_mul_wide x0 y4;
          xy10 = FStar_UInt128_mul_wide x1 y0;
          xy11 = FStar_UInt128_mul_wide x1 y1;
          xy12 = FStar_UInt128_mul_wide x1 y2;
          xy13 = FStar_UInt128_mul_wide x1 y3;
          xy14 = FStar_UInt128_mul_wide x1 y4;
          xy20 = FStar_UInt128_mul_wide x2 y0;
          xy21 = FStar_UInt128_mul_wide x2 y1;
          xy22 = FStar_UInt128_mul_wide x2 y2;
          xy23 = FStar_UInt128_mul_wide x2 y3;
          xy24 = FStar_UInt128_mul_wide x2 y4;
          xy30 = FStar_UInt128_mul_wide x3 y0;
          xy31 = FStar_UInt128_mul_wide x3 y1;
          xy32 = FStar_UInt128_mul_wide x3 y2;
          xy33 = FStar_UInt128_mul_wide x3 y3;
          xy34 = FStar_UInt128_mul_wide x3 y4;
          xy40 = FStar_UInt128_mul_wide x4 y0;
          xy41 = FStar_UInt128_mul_wide x4 y1;
          xy42 = FStar_UInt128_mul_wide x4 y2;
          xy43 = FStar_UInt128_mul_wide x4 y3;
          xy44 = FStar_UInt128_mul_wide x4 y4;
          z0 = xy00;
          z1 = FStar_UInt128_add xy01 xy10;
          z2 = FStar_UInt128_add (FStar_UInt128_add xy02 xy11) xy20;
          z3 = FStar_UInt128_add (FStar_UInt128_add (FStar_UInt128_add xy03 xy12) xy21) xy30;
          z4 = FStar_UInt128_add (FStar_UInt128_add (FStar_UInt128_add (FStar_UInt128_add xy04 xy13) xy22) xy31) xy40;
          z5 = FStar_UInt128_add (FStar_UInt128_add (FStar_UInt128_add xy14 xy23) xy32) xy41;
          z6 = FStar_UInt128_add (FStar_UInt128_add xy24 xy33) xy42;
          z7 = FStar_UInt128_add xy34 xy43;
          z8 = xy44
      in Hacl_Lib_Create128_make_h128_9 z z0 z1 z2 z3 z4 z5 z6 z7 z8)"

definition Hacl_Impl_BignumQ_Mul_carry :: "u64 list \<Rightarrow> u128 list \<Rightarrow> u64 list" where
  "Hacl_Impl_BignumQ_Mul_carry out z =
     (let z0 = z ! 0; z1 = z ! 1; z2 = z ! 2; z3 = z ! 3; z4 = z ! 4; z5 = z ! 5; z6 = z ! 6; z7 = z ! 7; z8 = z ! 8;
          x = z0;
          carry1 = FStar_UInt128_shift_right x 56;
          x0 = FStar_UInt128_uint128_to_uint64 x AND 0xffffffffffffff;
          z1' = FStar_UInt128_add z1 carry1;
          carry2 = FStar_UInt128_shift_right z1' 56;
          x11 = FStar_UInt128_uint128_to_uint64 z1' AND 0xffffffffffffff;
          z2' = FStar_UInt128_add z2 carry2;
          carry3 = FStar_UInt128_shift_right z2' 56;
          x21 = FStar_UInt128_uint128_to_uint64 z2' AND 0xffffffffffffff;
          z3' = FStar_UInt128_add z3 carry3;
          carry4 = FStar_UInt128_shift_right z3' 56;
          x31 = FStar_UInt128_uint128_to_uint64 z3' AND 0xffffffffffffff;
          z4' = FStar_UInt128_add z4 carry4;
          carry5 = FStar_UInt128_shift_right z4' 56;
          x41 = FStar_UInt128_uint128_to_uint64 z4' AND 0xffffffffffffff;
          z5' = FStar_UInt128_add z5 carry5;
          carry6 = FStar_UInt128_shift_right z5' 56;
          x51 = FStar_UInt128_uint128_to_uint64 z5' AND 0xffffffffffffff;
          z6' = FStar_UInt128_add z6 carry6;
          carry7 = FStar_UInt128_shift_right z6' 56;
          x61 = FStar_UInt128_uint128_to_uint64 z6' AND 0xffffffffffffff;
          z7' = FStar_UInt128_add z7 carry7;
          carry8 = FStar_UInt128_shift_right z7' 56;
          x71 = FStar_UInt128_uint128_to_uint64 z7' AND 0xffffffffffffff;
          z8' = FStar_UInt128_add z8 carry8;
          y8 = FStar_UInt128_uint64_to_uint128 0;
          carry9 = FStar_UInt128_shift_right z8' 56;
          x81 = FStar_UInt128_uint128_to_uint64 z8' AND 0xffffffffffffff;
          z9' = FStar_UInt128_add y8 carry9;
          x9 = FStar_UInt128_uint128_to_uint64 z9'
      in Hacl_Lib_Create64_make_h64_10 out x0 x11 x21 x31 x41 x51 x61 x71 x81 x9)"

definition Hacl_Impl_BignumQ_Mul_mod_264 :: "u64 list \<Rightarrow> u64 list \<Rightarrow> u64 list" where
  "Hacl_Impl_BignumQ_Mul_mod_264 r t =
     (let x0 = t ! 0; x1 = t ! 1; x2 = t ! 2; x3 = t ! 3; x4 = t ! 4;
          x4' = x4 AND 0xffffffffff
      in Hacl_Lib_Create64_make_h64_5 r x0 x1 x2 x3 x4')"

definition Hacl_Impl_BignumQ_Mul_div_248 :: "u64 list \<Rightarrow> u64 list \<Rightarrow> u64 list" where
  "Hacl_Impl_BignumQ_Mul_div_248 out t =
     (let x4 = t ! 4; x5 = t ! 5; x6 = t ! 6; x7 = t ! 7; x8 = t ! 8; x9 = t ! 9;
          z0 = push_bit 32 (x5 AND 0xffffff) OR drop_bit 24 x4;
          z1 = push_bit 32 (x6 AND 0xffffff) OR drop_bit 24 x5;
          z2 = push_bit 32 (x7 AND 0xffffff) OR drop_bit 24 x6;
          z3 = push_bit 32 (x8 AND 0xffffff) OR drop_bit 24 x7;
          z4 = push_bit 32 (x9 AND 0xffffff) OR drop_bit 24 x8
      in Hacl_Lib_Create64_make_h64_5 out z0 z1 z2 z3 z4)"

definition Hacl_Impl_BignumQ_Mul_div_264 :: "u64 list \<Rightarrow> u64 list \<Rightarrow> u64 list" where
  "Hacl_Impl_BignumQ_Mul_div_264 out t =
     (let x4 = t ! 4; x5 = t ! 5; x6 = t ! 6; x7 = t ! 7; x8 = t ! 8; x9 = t ! 9;
          z0 = push_bit 16 (x5 AND 0xffffffffff) OR drop_bit 40 x4;
          z1 = push_bit 16 (x6 AND 0xffffffffff) OR drop_bit 40 x5;
          z2 = push_bit 16 (x7 AND 0xffffffffff) OR drop_bit 40 x6;
          z3 = push_bit 16 (x8 AND 0xffffffffff) OR drop_bit 40 x7;
          z4 = push_bit 16 (x9 AND 0xffffffffff) OR drop_bit 40 x8
      in Hacl_Lib_Create64_make_h64_5 out z0 z1 z2 z3 z4)"

text \<open>The scratch buffer of the reduction holds the shifted number, the products and their quotient.\<close>

definition Hacl_Impl_BignumQ_Mul_barrett_reduction''_1 ::
  "u128 list \<Rightarrow> u64 list \<Rightarrow> u64 list \<Rightarrow> u64 list \<Rightarrow> u128 list \<times> u64 list" where
  "Hacl_Impl_BignumQ_Mul_barrett_reduction''_1 qmu t mu1 tmp =
     (let q1 = slice 0 5 tmp;
          qmu' = slice 10 10 tmp;
          qmu_264 = slice 20 5 tmp;
          q1 = Hacl_Impl_BignumQ_Mul_div_248 q1 t;
          qmu = Hacl_Impl_BignumQ_Mul_mul_5 qmu q1 mu1;
          qmu' = Hacl_Impl_BignumQ_Mul_carry qmu' qmu;
          qmu_264 = Hacl_Impl_BignumQ_Mul_div_264 qmu_264 qmu'
      in (qmu, q1 @ slice 5 5 tmp @ qmu' @ qmu_264 @ drop 25 tmp))"

definition Hacl_Impl_BignumQ_Mul_barrett_reduction''_2 :: "u64 list \<Rightarrow> u64 list \<Rightarrow> u64 list \<Rightarrow> u64 list" where
  "Hacl_Impl_BignumQ_Mul_barrett_reduction''_2 t m1 tmp =
     (let qmul = slice 0 5 tmp;
          r = slice 5 5 tmp;
          qmu_264 = slice 20 5 tmp;
          s = slice 25 5 tmp;
          r = Hacl_Impl_BignumQ_Mul_mod_264 r t;
          qmul = Hacl_Impl_BignumQ_Mul_low_mul_5 qmul qmu_264 m1;
          s = Hacl_Impl_BignumQ_Mul_sub_mod_264 s r qmul
      in qmul @ r @ slice 10 15 tmp @ s)"

definition Hacl_Impl_BignumQ_Mul_barrett_reduction'' ::
  "u64 list \<Rightarrow> u64 list \<Rightarrow> u64 list \<Rightarrow> u64 list \<Rightarrow> u64 list \<Rightarrow> u64 list" where
  "Hacl_Impl_BignumQ_Mul_barrett_reduction'' z t m1 mu1 tmp =
     (let qmu = replicate 9 (FStar_UInt128_uint64_to_uint128 0);
          (qmu, tmp) = Hacl_Impl_BignumQ_Mul_barrett_reduction''_1 qmu t mu1 tmp;
          tmp = Hacl_Impl_BignumQ_Mul_barrett_reduction''_2 t m1 tmp;
          s = slice 25 5 tmp
      in Hacl_Impl_BignumQ_Mul_subm_conditional z s)"

definition Hacl_Impl_BignumQ_Mul_barrett_reduction' :: "u64 list \<Rightarrow> u64 list \<Rightarrow> u64 list" where
  "Hacl_Impl_BignumQ_Mul_barrett_reduction' z t =
     (let tmp = replicate 40 0;
          m1 = slice 0 5 tmp;
          mu1 = slice 5 5 tmp;
          tmp1 = slice 10 30 tmp;
          m1 = Hacl_Impl_BignumQ_Mul_make_m m1;
          mu1 = Hacl_Impl_BignumQ_Mul_make_mu mu1
      in Hacl_Impl_BignumQ_Mul_barrett_reduction'' z t m1 mu1 tmp1)"

definition Hacl_Impl_BignumQ_Mul_barrett_reduction :: "u64 list \<Rightarrow> u64 list \<Rightarrow> u64 list" where
  "Hacl_Impl_BignumQ_Mul_barrett_reduction z t = Hacl_Impl_BignumQ_Mul_barrett_reduction' z t"

definition Hacl_Impl_BignumQ_Mul_mul_modq :: "u64 list \<Rightarrow> u64 list \<Rightarrow> u64 list \<Rightarrow> u64 list" where
  "Hacl_Impl_BignumQ_Mul_mul_modq out x y =
     (let z' = replicate 10 0;
          z = replicate 9 (FStar_UInt128_uint64_to_uint128 0);
          z = Hacl_Impl_BignumQ_Mul_mul_5 z x y;
          z' = Hacl_Impl_BignumQ_Mul_carry z' z
      in Hacl_Impl_BignumQ_Mul_barrett_reduction' out z')"

definition Hacl_Impl_BignumQ_Mul_add_modq' :: "u64 list \<Rightarrow> u64 list \<Rightarrow> u64 list \<Rightarrow> u64 list" where
  "Hacl_Impl_BignumQ_Mul_add_modq' out x y =
     (let tmp = replicate 5 0;
          x0 = x ! 0; x1 = x ! 1; x2 = x ! 2; x3 = x ! 3; x4 = x ! 4;
          y0 = y ! 0; y1 = y ! 1; y2 = y ! 2; y3 = y ! 3; y4 = y ! 4;
          z0 = x0 + y0;
          z1 = x1 + y1;
          z2 = x2 + y2;
          z3 = x3 + y3;
          z4 = x4 + y4;
          carry1 = drop_bit 56 z0;
          x01 = z0 AND 0xffffffffffffff;
          z1' = z1 + carry1;
          carry2 = drop_bit 56 z1';
          x11 = z1' AND 0xffffffffffffff;
          z2' = z2 + carry2;
          carry3 = drop_bit 56 z2';
          x21 = z2' AND 0xffffffffffffff;
          z3' = z3 + carry3;
          carry4 = drop_bit 56 z3';
          x31 = z3' AND 0xffffffffffffff;
          x41 = z4 + carry4;
          tmp = Hacl_Lib_Create64_make_h64_5 tmp x01 x11 x21 x31 x41
      in Hacl_Impl_BignumQ_Mul_subm_conditional out tmp)"

definition Hacl_Impl_BignumQ_Mul_add_modq :: "u64 list \<Rightarrow> u64 list \<Rightarrow> u64 list \<Rightarrow> u64 list" where
  "Hacl_Impl_BignumQ_Mul_add_modq out x y = Hacl_Impl_BignumQ_Mul_add_modq' out x y"

section \<open>Digits in base \<open>2 ^ 56\<close>\<close>

definition R56 :: nat where "R56 = 2 ^ 56"

fun dval :: "nat list \<Rightarrow> nat" where
  "dval [] = 0"
| "dval (x # xs) = x + R56 * dval xs"

definition qval :: "u64 list \<Rightarrow> nat" where
  "qval a = dval (map unat a)"

definition qlimbs :: "nat \<Rightarrow> u64 list \<Rightarrow> bool" where
  "qlimbs n a = (length a = n \<and> list_all (\<lambda>x. unat x < R56) a)"

lemma R56_pos [simp]: "0 < R56"
  by (simp add: R56_def)

lemma dval_append: "dval (xs @ ys) = dval xs + R56 ^ length xs * dval ys"
  by (induction xs) (simp_all add: algebra_simps)

lemma dval_lt: "list_all (\<lambda>x. x < R56) xs \<Longrightarrow> dval xs < R56 ^ length xs"
proof (induction xs)
  case Nil
  then show ?case by simp
next
  case (Cons x xs)
  have "x + R56 * dval xs < R56 + R56 * dval xs" using Cons.prems by simp
  also have "\<dots> \<le> R56 * R56 ^ length xs"
    using Cons mult_le_mono2 [of "Suc (dval xs)" "R56 ^ length xs" R56] by simp
  finally show ?case by simp
qed

lemma qval_lt: "qlimbs n a \<Longrightarrow> qval a < R56 ^ n"
  using dval_lt [of "map unat a"] by (simp add: qlimbs_def qval_def list_all_iff)

text \<open>Propagating carries, and shifting right by less than a digit.\<close>

fun carries :: "nat \<Rightarrow> nat list \<Rightarrow> nat list" where
  "carries c [] = [c]"
| "carries c (x # xs) = (x + c) mod R56 # carries ((x + c) div R56) xs"

lemma dval_carries: "dval (carries c xs) = c + dval xs"
proof (induction xs arbitrary: c)
  case Nil
  then show ?case by simp
next
  case (Cons x xs)
  have "(x + c) mod R56 + R56 * ((x + c) div R56) = x + c" by (rule mod_mult_div_eq)
  then show ?case by (simp add: Cons distrib_left)
qed

fun shifts :: "nat \<Rightarrow> nat \<Rightarrow> nat list \<Rightarrow> nat list" where
  "shifts k m (x # y # ys) = (y mod 2 ^ k * 2 ^ m + x div 2 ^ k) # shifts k m (y # ys)"
| "shifts k m xs = []"

lemma dval_shifts:
  assumes "k + m = 56" "xs \<noteq> []" "last xs < 2 ^ k"
  shows "dval (shifts k m xs) = dval xs div 2 ^ k"
  using assms
proof (induction k m xs rule: shifts.induct)
  case (1 k m x y ys)
  define r where "r = dval (y # ys)"
  have R: "R56 = 2 ^ k * 2 ^ m" using 1(2) by (simp add: R56_def power_add [symmetric])
  have "y mod 2 ^ k = r mod 2 ^ k" by (simp add: R mult.assoc r_def)
  moreover have "dval (shifts k m (y # ys)) = r div 2 ^ k" using 1 by (simp add: r_def)
  ultimately have "dval (shifts k m (x # y # ys)) = r mod 2 ^ k * 2 ^ m + x div 2 ^ k + 2 ^ k * 2 ^ m * (r div 2 ^ k)"
    by (simp add: R)
  also have "\<dots> = x div 2 ^ k + 2 ^ m * (r mod 2 ^ k + 2 ^ k * (r div 2 ^ k))"
    by (simp only: distrib_left ac_simps)
  also have "\<dots> = x div 2 ^ k + 2 ^ m * r" by (simp only: mod_mult_div_eq)
  also have "\<dots> = (x + 2 ^ k * (2 ^ m * r)) div 2 ^ k" by simp
  also have "x + 2 ^ k * (2 ^ m * r) = dval (x # y # ys)" by (simp add: R mult.assoc r_def)
  finally show ?case .
qed simp_all

lemma length_9_cases:
  assumes "length a = 9"
  obtains a0 a1 a2 a3 a4 a5 a6 a7 a8 where "a = [a0, a1, a2, a3, a4, a5, a6, a7, a8]"
  using assms by (auto simp: eval_nat_numeral length_Suc_conv)

lemma length_10_cases:
  assumes "length a = 10"
  obtains a0 a1 a2 a3 a4 a5 a6 a7 a8 a9 where "a = [a0, a1, a2, a3, a4, a5, a6, a7, a8, a9]"
  using assms by (auto simp: eval_nat_numeral length_Suc_conv)

lemma make_h64_10_eq [simp]: "length b = 10 \<Longrightarrow>
    Hacl_Lib_Create64_make_h64_10 b s0 s1 s2 s3 s4 s5 s6 s7 s8 s9 = [s0, s1, s2, s3, s4, s5, s6, s7, s8, s9]"
  by (elim length_10_cases) (simp add: Hacl_Lib_Create64_make_h64_10_def)

lemma make_h128_9_eq [simp]: "length b = 9 \<Longrightarrow>
    Hacl_Lib_Create128_make_h128_9 b s0 s1 s2 s3 s4 s5 s6 s7 s8 = [s0, s1, s2, s3, s4, s5, s6, s7, s8]"
  by (elim length_9_cases) (simp add: Hacl_Lib_Create128_make_h128_9_def)

lemma qlimbs_cases:
  assumes "qlimbs 5 a"
  obtains a0 a1 a2 a3 a4 where "a = [a0, a1, a2, a3, a4]"
    "unat a0 < R56" "unat a1 < R56" "unat a2 < R56" "unat a3 < R56" "unat a4 < R56"
proof -
  have "length a = 5" using assms by (simp add: qlimbs_def)
  then obtain a0 a1 a2 a3 a4 where "a = [a0, a1, a2, a3, a4]" by (rule length_5_cases)
  then show thesis using assms that by (simp add: qlimbs_def)
qed

lemma mask56: "(0xffffffffffffff :: u64) = mask 56"
  by (simp add: mask_eq_exp_minus_1)

lemma unat_mask56: "unat (x AND 0xffffffffffffff :: u64) = unat x mod R56"
  unfolding mask56 unat_and_mask R56_def ..

section \<open>Products and their carries\<close>

lemma wide_sum_56:
  assumes "\<And>x y. (x, y) \<in> set ps \<Longrightarrow> unat x < R56 \<and> unat y < R56" "length ps \<le> 5"
  shows "unat (wide_sum ps) = (\<Sum>(x, y)\<leftarrow>ps. unat x * unat y)" and "unat (wide_sum ps) < 2 ^ 119"
proof -
  have p: "unat x * unat y < 2 ^ 116" if "(x, y) \<in> set ps" for x y
  proof -
    have "unat x * unat y < 2 ^ 56 * 2 ^ 56"
      using assms(1) [OF that] by (intro mult_strict_mono) (simp_all add: R56_def)
    then show ?thesis by simp
  qed
  have "length ps \<le> 32" using assms(2) by simp
  from unat_wide_sum [OF p this]
  have u: "unat (wide_sum ps) = (\<Sum>(x, y)\<leftarrow>ps. unat x * unat y)" "unat (wide_sum ps) \<le> length ps * 2 ^ 116"
    by blast+
  have "length ps * 2 ^ 116 \<le> 5 * 2 ^ 116" using assms(2) by (rule mult_le_mono1)
  then show "unat (wide_sum ps) = (\<Sum>(x, y)\<leftarrow>ps. unat x * unat y)" and "unat (wide_sum ps) < 2 ^ 119"
    using u by simp_all
qed

lemma mul_5_eq:
  assumes "length z = 9"
  shows "Hacl_Impl_BignumQ_Mul_mul_5 z [x0, x1, x2, x3, x4] [y0, y1, y2, y3, y4] =
    [wide_sum [(x0, y0)],
     wide_sum [(x0, y1), (x1, y0)],
     wide_sum [(x0, y2), (x1, y1), (x2, y0)],
     wide_sum [(x0, y3), (x1, y2), (x2, y1), (x3, y0)],
     wide_sum [(x0, y4), (x1, y3), (x2, y2), (x3, y1), (x4, y0)],
     wide_sum [(x1, y4), (x2, y3), (x3, y2), (x4, y1)],
     wide_sum [(x2, y4), (x3, y3), (x4, y2)],
     wide_sum [(x3, y4), (x4, y3)],
     wide_sum [(x4, y4)]]"
  using assms
  by (simp add: Hacl_Impl_BignumQ_Mul_mul_5_def Let_def wide_sum_def FStar_UInt128_add_def)

lemma columns_product:
  fixes x0 x1 x2 x3 x4 y0 y1 y2 y3 y4 :: nat
  shows "dval [x0 * y0, x0 * y1 + x1 * y0, x0 * y2 + x1 * y1 + x2 * y0, x0 * y3 + x1 * y2 + x2 * y1 + x3 * y0,
      x0 * y4 + x1 * y3 + x2 * y2 + x3 * y1 + x4 * y0, x1 * y4 + x2 * y3 + x3 * y2 + x4 * y1,
      x2 * y4 + x3 * y3 + x4 * y2, x3 * y4 + x4 * y3, x4 * y4]
    = dval [x0, x1, x2, x3, x4] * dval [y0, y1, y2, y3, y4]"
  by (simp add: algebra_simps)

lemma mul_5_correct:
  assumes x: "qlimbs 5 x" and y: "qlimbs 5 y" and z: "length z = 9"
  shows "length (Hacl_Impl_BignumQ_Mul_mul_5 z x y) = 9"
    and "list_all (\<lambda>c. unat c < 2 ^ 119) (Hacl_Impl_BignumQ_Mul_mul_5 z x y)"
    and "dval (map unat (Hacl_Impl_BignumQ_Mul_mul_5 z x y)) = qval x * qval y"
proof -
  obtain x0 x1 x2 x3 x4 where X: "x = [x0, x1, x2, x3, x4]"
    "unat x0 < R56" "unat x1 < R56" "unat x2 < R56" "unat x3 < R56" "unat x4 < R56"
    using x by (rule qlimbs_cases)
  obtain y0 y1 y2 y3 y4 where Y: "y = [y0, y1, y2, y3, y4]"
    "unat y0 < R56" "unat y1 < R56" "unat y2 < R56" "unat y3 < R56" "unat y4 < R56"
    using y by (rule qlimbs_cases)
  have w: "unat (wide_sum ps) = (\<Sum>(x, y)\<leftarrow>ps. unat x * unat y)" "unat (wide_sum ps) < 2 ^ 119"
    if "set ps \<subseteq> {x0, x1, x2, x3, x4} \<times> {y0, y1, y2, y3, y4}" "length ps \<le> 5" for ps
  proof -
    have p: "\<And>u v. (u, v) \<in> set ps \<Longrightarrow> unat u < R56 \<and> unat v < R56"
      using that(1) X(2-6) Y(2-6) by auto
    show "unat (wide_sum ps) = (\<Sum>(x, y)\<leftarrow>ps. unat x * unat y)" "unat (wide_sum ps) < 2 ^ 119"
      by (rule wide_sum_56 [OF p that(2)]; assumption)+
  qed
  note E0 = mul_5_eq [OF z, of x0 x1 x2 x3 x4 y0 y1 y2 y3 y4]
  note E = E0 [folded X(1) Y(1)]
  show "length (Hacl_Impl_BignumQ_Mul_mul_5 z x y) = 9"
    unfolding E by simp
  show "list_all (\<lambda>c. unat c < 2 ^ 119) (Hacl_Impl_BignumQ_Mul_mul_5 z x y)"
    unfolding E list.pred_inject by (intro conjI TrueI w(2)) simp_all
  show "dval (map unat (Hacl_Impl_BignumQ_Mul_mul_5 z x y)) = qval x * qval y"
    unfolding X(1) Y(1) E0 qval_def list.map columns_product [symmetric]
    by (simp add: w(1))
qed

lemma carry_correct56:
  assumes z: "length z = 9" "list_all (\<lambda>c. unat c < 2 ^ 119) z" and out: "length out = 10"
  shows "map unat (Hacl_Impl_BignumQ_Mul_carry out z) = carries 0 (map unat z)"
proof -
  obtain z0 z1 z2 z3 z4 z5 z6 z7 z8 where Z: "z = [z0, z1, z2, z3, z4, z5, z6, z7, z8]"
    using z(1) by (rule length_9_cases)
  have l: "unat z0 < 2 ^ 119" "unat z1 < 2 ^ 119" "unat z2 < 2 ^ 119" "unat z3 < 2 ^ 119" "unat z4 < 2 ^ 119"
    "unat z5 < 2 ^ 119" "unat z6 < 2 ^ 119" "unat z7 < 2 ^ 119" "unat z8 < 2 ^ 119"
    using z(2) by (simp_all add: Z)
  define nxt where "nxt c p = FStar_UInt128_add c (FStar_UInt128_shift_right p 56)" for c p
  define lo where "lo p = FStar_UInt128_uint128_to_uint64 p AND 0xffffffffffffff" for p
  define s1 s2 s3 s4 s5 s6 s7 s8 where s: "s1 = nxt z1 z0" "s2 = nxt z2 s1" "s3 = nxt z3 s2" "s4 = nxt z4 s3"
    "s5 = nxt z5 s4" "s6 = nxt z6 s5" "s7 = nxt z7 s6" "s8 = nxt z8 s7"
  define s9 where "s9 = FStar_UInt128_uint128_to_uint64 (nxt (FStar_UInt128_uint64_to_uint128 0) s8)"
  have E: "Hacl_Impl_BignumQ_Mul_carry out z = [lo z0, lo s1, lo s2, lo s3, lo s4, lo s5, lo s6, lo s7, lo s8, s9]"
    using out by (simp add: Hacl_Impl_BignumQ_Mul_carry_def Let_def Z nxt_def lo_def s s9_def)
  have n: "unat (nxt c p) = unat c + unat p div R56 \<and> unat (nxt c p) < 2 ^ 120"
    if "unat c < 2 ^ 119" "unat p < 2 ^ 120" for c p
    using that by (simp add: nxt_def native.val_carry R56_def)
  have lo: "unat (lo p) = unat p mod R56" for p
    unfolding lo_def unat_mask56 native.unat_to64 R56_def by (rule mod_mod_cancel) simp
  have z0: "unat z0 < 2 ^ 120" using l(1) by simp
  note u1 = n [OF l(2) z0, folded s(1)]
  note u2 = n [OF l(3) conjunct2 [OF u1], folded s(2)]
  note u3 = n [OF l(4) conjunct2 [OF u2], folded s(3)]
  note u4 = n [OF l(5) conjunct2 [OF u3], folded s(4)]
  note u5 = n [OF l(6) conjunct2 [OF u4], folded s(5)]
  note u6 = n [OF l(7) conjunct2 [OF u5], folded s(6)]
  note u7 = n [OF l(8) conjunct2 [OF u6], folded s(7)]
  note u8 = n [OF l(9) conjunct2 [OF u7], folded s(8)]
  have u9: "unat s9 = unat s8 div R56"
  proof -
    have "unat (nxt (FStar_UInt128_uint64_to_uint128 0) s8) = unat s8 div R56"
      using n [of "FStar_UInt128_uint64_to_uint128 0" s8] u8 by (simp add: native.val_of64)
    moreover have "unat s8 div R56 < 2 ^ 64"
      using u8 by (intro less_mult_imp_div_less) (simp add: R56_def)
    ultimately show ?thesis by (simp add: s9_def native.unat_to64)
  qed
  show ?thesis
    unfolding E unfolding Z list.map carries.simps lo u9 add_0_right conjunct1 [OF u1] conjunct1 [OF u2] conjunct1 [OF u3]
      conjunct1 [OF u4] conjunct1 [OF u5] conjunct1 [OF u6] conjunct1 [OF u7] conjunct1 [OF u8] ..
qed

lemma product_digits:
  assumes x: "qlimbs 5 x" and y: "qlimbs 5 y" and z: "length z = 9" and out: "length out = 10"
  defines "c \<equiv> Hacl_Impl_BignumQ_Mul_carry out (Hacl_Impl_BignumQ_Mul_mul_5 z x y)"
  shows "length c = 10" "qval c = qval x * qval y" "list_all (\<lambda>v. unat v < R56) (take 9 c)"
proof -
  note m = mul_5_correct [OF x y z]
  have e: "map unat c = carries 0 (map unat (Hacl_Impl_BignumQ_Mul_mul_5 z x y))"
    unfolding c_def by (rule carry_correct56 [OF m(1,2) out])
  show "qval c = qval x * qval y"
    unfolding qval_def e dval_carries by (simp add: m(3) qval_def)
  have lc: "length (carries k v) = Suc (length v)" for k v
    by (induction v arbitrary: k) simp_all
  have "length (map unat c) = 10" unfolding e lc using m(1) by simp
  then show "length c = 10" by simp
  have "list_all (\<lambda>v. v < R56) (take (length v) (carries k v))" for k v
    by (induction v arbitrary: k) simp_all
  from this [where v = "map unat (Hacl_Impl_BignumQ_Mul_mul_5 z x y)" and k = 0]
  have "list_all (\<lambda>v. v < R56) (take 9 (map unat c))"
    unfolding e using m(1) by simp
  then show "list_all (\<lambda>v. unat v < R56) (take 9 c)"
    by (simp add: list_all_iff take_map)
qed

section \<open>Quotients and remainders by powers of two\<close>

lemma unat_joined:
  fixes x y :: u64
  assumes "unat x < R56" "k + m = 56"
  shows "unat (push_bit m (y AND mask k) OR drop_bit k x) = unat y mod 2 ^ k * 2 ^ m + unat x div 2 ^ k"
    and "unat y mod 2 ^ k * 2 ^ m + unat x div 2 ^ k < R56"
proof -
  have R: "R56 = 2 ^ m * 2 ^ k" using assms(2) by (simp add: R56_def power_add [symmetric] add.commute)
  have lo: "unat x div 2 ^ k < 2 ^ m"
    using assms(1) unfolding R by (rule less_mult_imp_div_less)
  have "(unat y mod 2 ^ k + 1) * 2 ^ m \<le> 2 ^ k * 2 ^ m"
    by (intro mult_le_mono1) (simp add: Suc_leI)
  then show b: "unat y mod 2 ^ k * 2 ^ m + unat x div 2 ^ k < R56"
    using lo unfolding R by (simp add: mult.commute)
  have "unat (drop_bit k x) + unat (y AND mask k) * 2 ^ m < 2 ^ LENGTH(64)"
    using b by (simp add: unat_drop_bit unat_and_mask R56_def)
  then show "unat (push_bit m (y AND mask k) OR drop_bit k x) = unat y mod 2 ^ k * 2 ^ m + unat x div 2 ^ k"
    using unat_or_push_bit [of "drop_bit k x" m "y AND mask k"] lo
    by (simp add: or.commute unat_drop_bit unat_and_mask)
qed

lemma shifted_digits:
  assumes t: "length t = 10" "list_all (\<lambda>v. unat v < R56) (take 9 t)" "qval t < 2 ^ (504 + k)"
    and k: "k + m = 56"
    and c: "\<And>t0 t1 t2 t3 t4 t5 t6 t7 t8 t9. t = [t0, t1, t2, t3, t4, t5, t6, t7, t8, t9] \<Longrightarrow>
      c = [push_bit m (t5 AND mask k) OR drop_bit k t4, push_bit m (t6 AND mask k) OR drop_bit k t5,
        push_bit m (t7 AND mask k) OR drop_bit k t6, push_bit m (t8 AND mask k) OR drop_bit k t7,
        push_bit m (t9 AND mask k) OR drop_bit k t8]"
  shows "qlimbs 5 c \<and> qval c = qval t div 2 ^ (224 + k)"
proof -
  obtain t0 t1 t2 t3 t4 t5 t6 t7 t8 t9 where T: "t = [t0, t1, t2, t3, t4, t5, t6, t7, t8, t9]"
    using t(1) by (rule length_10_cases)
  have l: "unat t0 < R56" "unat t1 < R56" "unat t2 < R56" "unat t3 < R56" "unat t4 < R56" "unat t5 < R56"
    "unat t6 < R56" "unat t7 < R56" "unat t8 < R56"
    using t(2) by (simp_all add: T)
  let ?hi = "[unat t4, unat t5, unat t6, unat t7, unat t8, unat t9]"
  have split: "qval t = dval [unat t0, unat t1, unat t2, unat t3] + 2 ^ 224 * dval ?hi"
    using dval_append [of "[unat t0, unat t1, unat t2, unat t3]" ?hi] by (simp add: qval_def T R56_def)
  have lo: "dval [unat t0, unat t1, unat t2, unat t3] < 2 ^ 224"
    using dval_lt [of "[unat t0, unat t1, unat t2, unat t3]"] l by (simp add: R56_def)
  have t9: "unat t9 < 2 ^ k"
  proof -
    have "qval t = dval (map unat (take 9 t)) + 2 ^ 504 * unat t9"
      using dval_append [of "map unat (take 9 t)" "[unat t9]"] by (simp add: qval_def T R56_def)
    then have "2 ^ 504 * unat t9 < 2 ^ 504 * 2 ^ k"
      using t(3) unfolding power_add by linarith
    then show ?thesis by simp
  qed
  have "qval c = dval (shifts k m ?hi)"
    unfolding c [OF T] qval_def list.map unat_joined(1) [OF l(5) k] unat_joined(1) [OF l(6) k]
      unat_joined(1) [OF l(7) k] unat_joined(1) [OF l(8) k] unat_joined(1) [OF l(9) k] shifts.simps ..
  also have "\<dots> = dval ?hi div 2 ^ k"
    using k t9 by (intro dval_shifts) simp_all
  also have "\<dots> = qval t div 2 ^ (224 + k)"
    unfolding power_add div_mult2_eq split using lo by (simp del: dval.simps power_numeral)
  finally have "qval c = qval t div 2 ^ (224 + k)" .
  moreover have "qlimbs 5 c"
    unfolding c [OF T] qlimbs_def
    using unat_joined [OF l(5) k] unat_joined [OF l(6) k] unat_joined [OF l(7) k] unat_joined [OF l(8) k]
      unat_joined [OF l(9) k] by (simp del: push_bit_or)
  ultimately show ?thesis by blast
qed

lemma masks_24_40: "(0xffffff :: u64) = mask 24" "(0xffffffffff :: u64) = mask 40"
  by (simp_all add: mask_eq_exp_minus_1)

lemma div_248_correct:
  assumes "length t = 10" "list_all (\<lambda>v. unat v < R56) (take 9 t)" "qval t < 2 ^ 528" "length out = 5"
  shows "qlimbs 5 (Hacl_Impl_BignumQ_Mul_div_248 out t) \<and> qval (Hacl_Impl_BignumQ_Mul_div_248 out t) = qval t div 2 ^ 248"
  using shifted_digits [of t 24 32 "Hacl_Impl_BignumQ_Mul_div_248 out t"] assms
  by (simp add: Hacl_Impl_BignumQ_Mul_div_248_def Let_def masks_24_40 del: power_numeral)

lemma div_264_correct:
  assumes "length t = 10" "list_all (\<lambda>v. unat v < R56) (take 9 t)" "qval t < 2 ^ 544" "length out = 5"
  shows "qlimbs 5 (Hacl_Impl_BignumQ_Mul_div_264 out t) \<and> qval (Hacl_Impl_BignumQ_Mul_div_264 out t) = qval t div 2 ^ 264"
  using shifted_digits [of t 40 16 "Hacl_Impl_BignumQ_Mul_div_264 out t"] assms
  by (simp add: Hacl_Impl_BignumQ_Mul_div_264_def Let_def masks_24_40 del: power_numeral)

text \<open>Five digits of which the last has 40 bits: numbers modulo \<open>2 ^ 264\<close>.\<close>

lemma mod_264_digits:
  assumes "a0 < R56" "a1 < R56" "a2 < R56" "a3 < R56"
  shows "dval [a0, a1, a2, a3, a4 mod 2 ^ 40] = dval (a0 # a1 # a2 # a3 # a4 # r) mod 2 ^ 264"
proof -
  define v where "v = dval [a0, a1, a2, a3]"
  have v: "v < 2 ^ 224" using dval_lt [of "[a0, a1, a2, a3]"] assms by (simp add: R56_def v_def)
  have "dval ([a0, a1, a2, a3] @ a4 # r) = v + 2 ^ 224 * (a4 + R56 * dval r)"
    unfolding dval_append v_def by (simp add: R56_def)
  then have "dval (a0 # a1 # a2 # a3 # a4 # r) mod 2 ^ 264 = (v + 2 ^ 224 * (a4 + R56 * dval r)) mod (2 ^ 224 * 2 ^ 40)"
    by simp
  also have "\<dots> = 2 ^ 224 * ((v + 2 ^ 224 * (a4 + R56 * dval r)) div 2 ^ 224 mod 2 ^ 40) + (v + 2 ^ 224 * (a4 + R56 * dval r)) mod 2 ^ 224"
    by (rule mod_mult2_eq)
  also have "\<dots> = 2 ^ 224 * ((a4 + R56 * dval r) mod 2 ^ 40) + v"
    using v by (simp del: power_numeral)
  also have "(a4 + R56 * dval r) mod 2 ^ 40 = a4 mod 2 ^ 40"
  proof -
    have "R56 * dval r = 2 ^ 40 * (2 ^ 16 * dval r)" by (simp add: R56_def)
    then show ?thesis by (simp only: mod_mult_self2)
  qed
  also have "2 ^ 224 * (a4 mod 2 ^ 40) + v = dval ([a0, a1, a2, a3] @ [a4 mod 2 ^ 40])"
    unfolding dval_append v_def by (simp add: R56_def)
  finally show ?thesis by simp
qed

definition q264 :: "u64 list \<Rightarrow> bool" where
  "q264 a = (qlimbs 5 a \<and> unat (a ! 4) < 2 ^ 40)"

lemma mod_264_correct:
  assumes "length t = 10" "list_all (\<lambda>v. unat v < R56) (take 9 t)" "length out = 5"
  shows "q264 (Hacl_Impl_BignumQ_Mul_mod_264 out t)" and "qval (Hacl_Impl_BignumQ_Mul_mod_264 out t) = qval t mod 2 ^ 264"
proof -
  obtain t0 t1 t2 t3 t4 t5 t6 t7 t8 t9 where T: "t = [t0, t1, t2, t3, t4, t5, t6, t7, t8, t9]"
    using assms(1) by (rule length_10_cases)
  have l: "unat t0 < R56" "unat t1 < R56" "unat t2 < R56" "unat t3 < R56"
    using assms(2) by (simp_all add: T)
  have E: "Hacl_Impl_BignumQ_Mul_mod_264 out t = [t0, t1, t2, t3, t4 AND mask 40]"
    using assms(3) by (simp add: Hacl_Impl_BignumQ_Mul_mod_264_def T masks_24_40)
  have "unat t4 mod 2 ^ 40 < 2 ^ 40" by simp
  then show "q264 (Hacl_Impl_BignumQ_Mul_mod_264 out t)"
    using l unfolding E q264_def qlimbs_def by (simp add: unat_and_mask R56_def del: mod_less_divisor)
  show "qval (Hacl_Impl_BignumQ_Mul_mod_264 out t) = qval t mod 2 ^ 264"
    unfolding E unfolding qval_def T list.map unat_and_mask by (rule mod_264_digits [OF l])
qed

lemma low_mul_5_correct:
  assumes x: "qlimbs 5 x" and y: "qlimbs 5 y" and z: "length z = 5"
  shows "q264 (Hacl_Impl_BignumQ_Mul_low_mul_5 z x y)"
    and "qval (Hacl_Impl_BignumQ_Mul_low_mul_5 z x y) = qval x * qval y mod 2 ^ 264"
proof -
  obtain x0 x1 x2 x3 x4 where X: "x = [x0, x1, x2, x3, x4]"
    "unat x0 < R56" "unat x1 < R56" "unat x2 < R56" "unat x3 < R56" "unat x4 < R56"
    using x by (rule qlimbs_cases)
  obtain y0 y1 y2 y3 y4 where Y: "y = [y0, y1, y2, y3, y4]"
    "unat y0 < R56" "unat y1 < R56" "unat y2 < R56" "unat y3 < R56" "unat y4 < R56"
    using y by (rule qlimbs_cases)
  let ?z = "replicate 9 (0 :: u128)"
  define m where "m = Hacl_Impl_BignumQ_Mul_mul_5 ?z x y"
  note M = mul_5_eq [of ?z x0 x1 x2 x3 x4 y0 y1 y2 y3 y4, simplified length_replicate, OF refl, folded X(1) Y(1), folded m_def]
  have m: "length m = 9" "list_all (\<lambda>c. unat c < 2 ^ 119) m" "dval (map unat m) = qval x * qval y"
    using mul_5_correct [OF x y, of ?z] by (simp_all add: m_def)
  obtain c0 c1 c2 c3 c4 c5 c6 c7 c8 where C: "m = [c0, c1, c2, c3, c4, c5, c6, c7, c8]"
    using m(1) by (rule length_9_cases)
  have l: "unat c0 < 2 ^ 119" "unat c1 < 2 ^ 119" "unat c2 < 2 ^ 119" "unat c3 < 2 ^ 119" "unat c4 < 2 ^ 119"
    using m(2) by (simp_all add: C)
  define nxt where "nxt c p = FStar_UInt128_add c (FStar_UInt128_shift_right p 56)" for c p
  define lo where "lo p = FStar_UInt128_uint128_to_uint64 p AND 0xffffffffffffff" for p
  define s1 s2 s3 s4 where s: "s1 = nxt c1 c0" "s2 = nxt c2 s1" "s3 = nxt c3 s2" "s4 = nxt c4 s3"
  define t4 where "t4 = FStar_UInt128_uint128_to_uint64 s4 AND mask 40"
  have E: "Hacl_Impl_BignumQ_Mul_low_mul_5 z x y = [lo c0, lo s1, lo s2, lo s3, t4]"
    using M z by (simp add: Hacl_Impl_BignumQ_Mul_low_mul_5_def Let_def X(1) Y(1) C wide_sum_def masks_24_40
        nxt_def lo_def s t4_def FStar_UInt128_add_def)
  have n: "unat (nxt c p) = unat c + unat p div R56 \<and> unat (nxt c p) < 2 ^ 120"
    if "unat c < 2 ^ 119" "unat p < 2 ^ 120" for c p
    using that by (simp add: nxt_def native.val_carry R56_def)
  have lo: "unat (lo p) = unat p mod R56" for p
    unfolding lo_def unat_mask56 native.unat_to64 R56_def by (rule mod_mod_cancel) simp
  have c0: "unat c0 < 2 ^ 120" using l(1) by simp
  note u1 = n [OF l(2) c0, folded s(1)]
  note u2 = n [OF l(3) conjunct2 [OF u1], folded s(2)]
  note u3 = n [OF l(4) conjunct2 [OF u2], folded s(3)]
  note u4 = n [OF l(5) conjunct2 [OF u3], folded s(4)]
  have t4: "unat t4 = unat s4 mod 2 ^ 40"
    unfolding t4_def unat_and_mask native.unat_to64 by (rule mod_mod_cancel) simp
  have cr: "carries 0 (map unat m) = unat c0 mod R56 # unat s1 mod R56 # unat s2 mod R56 # unat s3 mod R56
      # unat s4 mod R56 # carries (unat s4 div R56) [unat c5, unat c6, unat c7, unat c8]"
    unfolding C list.map carries.simps add_0_right conjunct1 [OF u1] conjunct1 [OF u2] conjunct1 [OF u3] conjunct1 [OF u4] ..
  have "unat s4 mod R56 mod 2 ^ 40 = unat s4 mod 2 ^ 40"
    unfolding R56_def by (rule mod_mod_cancel) simp
  then have "dval [unat c0 mod R56, unat s1 mod R56, unat s2 mod R56, unat s3 mod R56, unat s4 mod 2 ^ 40]
      = dval (carries 0 (map unat m)) mod 2 ^ 264"
    using mod_264_digits [of "unat c0 mod R56" "unat s1 mod R56" "unat s2 mod R56" "unat s3 mod R56" "unat s4 mod R56"
        "carries (unat s4 div R56) [unat c5, unat c6, unat c7, unat c8]"]
    unfolding cr by simp
  then show "qval (Hacl_Impl_BignumQ_Mul_low_mul_5 z x y) = qval x * qval y mod 2 ^ 264"
    unfolding E qval_def [of "[lo c0, lo s1, lo s2, lo s3, t4]"] list.map lo t4 dval_carries m(3) by simp
  have "unat s4 mod 2 ^ 40 < 2 ^ 40" by simp
  then show "q264 (Hacl_Impl_BignumQ_Mul_low_mul_5 z x y)"
    unfolding E q264_def qlimbs_def by (simp add: lo t4) (simp add: R56_def)
qed

section \<open>Subtraction with borrows\<close>

lemma lt_eq:
  assumes "unat a < 2 ^ 63" "unat b < 2 ^ 63"
  shows "Hacl_Impl_BignumQ_Mul_lt a b = of_bool (unat a < unat b)"
proof -
  have d: "unat (drop_bit 63 (a - b)) = unat (a - b) div 2 ^ 63" by (simp add: unat_drop_bit)
  show ?thesis
  proof (cases "unat a < unat b")
    case True
    then have u: "unat (a - b) = unat a + 2 ^ 64 - unat b" by (simp add: unat_sub_if')
    have "2 ^ 63 \<le> unat (a - b)" "unat (a - b) < 2 ^ 64" using assms True unfolding u by simp_all
    then have "unat (a - b) div 2 ^ 63 = 1" by simp
    then show ?thesis using True d by (simp add: Hacl_Impl_BignumQ_Mul_lt_def word_unat_eq_iff)
  next
    case False
    then have "unat (a - b) < 2 ^ 63" using assms by (simp add: unat_sub_small)
    then show ?thesis using False d by (simp add: Hacl_Impl_BignumQ_Mul_lt_def word_unat_eq_iff)
  qed
qed

lemma borrow_digit:
  fixes x y :: u64
  assumes "unat x < 2 ^ k" "unat y \<le> 2 ^ k" "k \<le> 56"
  shows "unat (push_bit k (of_bool (unat x < unat y)) + x - y) + unat y = unat x + 2 ^ k * of_bool (unat x < unat y)"
    and "unat (push_bit k (of_bool (unat x < unat y)) + x - y) < 2 ^ k"
proof -
  have k: "(2 :: nat) ^ k \<le> 2 ^ 56" using assms(3) by (rule power_increasing) simp
  show "unat (push_bit k (of_bool (unat x < unat y)) + x - y) + unat y = unat x + 2 ^ k * of_bool (unat x < unat y)"
    and "unat (push_bit k (of_bool (unat x < unat y)) + x - y) < 2 ^ k"
  proof (atomize (full), cases "unat x < unat y")
    case True
    have "unat (push_bit k (1 :: u64)) = 2 ^ k"
      using k by (subst unat_push_bit_small) simp_all
    then have "unat (push_bit k 1 + x) = 2 ^ k + unat x"
      using assms k by (subst unat_add_small) simp_all
    moreover have "unat (push_bit k 1 + x - y) = unat (push_bit k 1 + x) - unat y"
      using calculation assms(2) by (intro unat_sub_small) simp
    ultimately show "unat (push_bit k (of_bool (unat x < unat y)) + x - y) + unat y = unat x + 2 ^ k * of_bool (unat x < unat y)
        \<and> unat (push_bit k (of_bool (unat x < unat y)) + x - y) < 2 ^ k"
      using True assms by simp
  next
    case False
    then show "unat (push_bit k (of_bool (unat x < unat y)) + x - y) + unat y = unat x + 2 ^ k * of_bool (unat x < unat y)
        \<and> unat (push_bit k (of_bool (unat x < unat y)) + x - y) < 2 ^ k"
      using assms by (simp add: unat_sub_small)
  qed
qed

text \<open>A chain of five borrows; the last digit has \<open>k\<close> bits.\<close>

lemma borrow_sum:
  fixes t0 t1 t2 t3 t4 :: nat
  assumes "t0 + y0 = x0 + 2 ^ 56 * b0" "t1 + (y1 + b0) = x1 + 2 ^ 56 * b1" "t2 + (y2 + b1) = x2 + 2 ^ 56 * b2"
    "t3 + (y3 + b2) = x3 + 2 ^ 56 * b3" "t4 + (y4 + b3) = x4 + K * b4"
  shows "(t0 + 2 ^ 56 * (t1 + 2 ^ 56 * (t2 + 2 ^ 56 * (t3 + 2 ^ 56 * t4))))
      + (y0 + 2 ^ 56 * (y1 + 2 ^ 56 * (y2 + 2 ^ 56 * (y3 + 2 ^ 56 * y4))))
    = (x0 + 2 ^ 56 * (x1 + 2 ^ 56 * (x2 + 2 ^ 56 * (x3 + 2 ^ 56 * x4)))) + 2 ^ 224 * (K * b4)"
  using assms by simp

lemma borrow_chain:
  fixes x0 x1 x2 x3 x4 y0 y1 y2 y3 y4 :: u64
  assumes x: "unat x0 < R56" "unat x1 < R56" "unat x2 < R56" "unat x3 < R56" "unat x4 < 2 ^ k"
    and y: "unat y0 < R56" "unat y1 < R56" "unat y2 < R56" "unat y3 < R56" "unat y4 < 2 ^ k" and k: "k \<le> 56"
  defines "b0 \<equiv> Hacl_Impl_BignumQ_Mul_lt x0 y0"
  defines "b1 \<equiv> Hacl_Impl_BignumQ_Mul_lt x1 (y1 + b0)"
  defines "b2 \<equiv> Hacl_Impl_BignumQ_Mul_lt x2 (y2 + b1)"
  defines "b3 \<equiv> Hacl_Impl_BignumQ_Mul_lt x3 (y3 + b2)"
  defines "b4 \<equiv> Hacl_Impl_BignumQ_Mul_lt x4 (y4 + b3)"
  defines "t \<equiv> [push_bit 56 b0 + x0 - y0, push_bit 56 b1 + x1 - (y1 + b0), push_bit 56 b2 + x2 - (y2 + b1),
      push_bit 56 b3 + x3 - (y3 + b2), push_bit k b4 + x4 - (y4 + b3)]"
  shows "qval t + qval [y0, y1, y2, y3, y4] = qval [x0, x1, x2, x3, x4] + 2 ^ 224 * (2 ^ k * unat b4)"
    and "qlimbs 5 t" "unat (t ! 4) < 2 ^ k" "b4 = 0 \<or> b4 = 1"
proof -
  note R = x(1-4) [unfolded R56_def] y(1-4) [unfolded R56_def]
  have kk: "(2 :: nat) ^ k \<le> 2 ^ 56" using k by (rule power_increasing) simp
  have step: "unat (push_bit j (Hacl_Impl_BignumQ_Mul_lt u (v + b)) + u - (v + b)) + (unat v + unat b)
      = unat u + 2 ^ j * unat (Hacl_Impl_BignumQ_Mul_lt u (v + b))
    \<and> unat (push_bit j (Hacl_Impl_BignumQ_Mul_lt u (v + b)) + u - (v + b)) < 2 ^ j
    \<and> unat (Hacl_Impl_BignumQ_Mul_lt u (v + b)) \<le> 1"
    if "unat u < 2 ^ j" "unat v < 2 ^ j" "unat b \<le> 1" "j \<le> 56" for u v b j
  proof -
    have jj: "(2 :: nat) ^ j \<le> 2 ^ 56" using that(4) by (rule power_increasing) simp
    have vb: "unat (v + b) = unat v + unat b"
      using that jj by (intro unat_add_small) simp
    have l: "Hacl_Impl_BignumQ_Mul_lt u (v + b) = of_bool (unat u < unat (v + b))"
      using that jj vb by (intro lt_eq) simp_all
    show ?thesis
      using borrow_digit [of u j "v + b"] that vb unfolding l by (simp split: if_splits)
  qed
  have s0: "unat (push_bit 56 b0 + x0 - y0) + unat y0 = unat x0 + 2 ^ 56 * unat b0"
    "unat (push_bit 56 b0 + x0 - y0) < 2 ^ 56" "unat b0 \<le> 1"
    using step [OF R(1,5), of 0] by (simp_all add: b0_def)
  note s1 = step [OF R(2,6) s0(3) order_refl, folded b1_def]
  have b1: "unat b1 \<le> 1" using s1 by blast
  note s2 = step [OF R(3,7) b1 order_refl, folded b2_def]
  have b2: "unat b2 \<le> 1" using s2 by blast
  note s3 = step [OF R(4,8) b2 order_refl, folded b3_def]
  have b3: "unat b3 \<le> 1" using s3 by blast
  note s4 = step [OF x(5) y(5) b3 k, folded b4_def]
  show "qval t + qval [y0, y1, y2, y3, y4] = qval [x0, x1, x2, x3, x4] + 2 ^ 224 * (2 ^ k * unat b4)"
    unfolding qval_def t_def list.map dval.simps mult_0_right add_0_right R56_def
    by (rule borrow_sum [OF s0(1) conjunct1 [OF s1] conjunct1 [OF s2] conjunct1 [OF s3] conjunct1 [OF s4]])
  show "unat (t ! 4) < 2 ^ k" using s4 by (simp add: t_def)
  then have "unat (t ! 4) < 2 ^ 56" using kk by simp
  then show "qlimbs 5 t"
    using s0(2) s1 s2 s3 unfolding qlimbs_def t_def by (simp add: R56_def)
  have "unat b4 \<le> 1" using s4 by blast
  then show "b4 = 0 \<or> b4 = 1"
    by (auto simp: le_Suc_eq word_unat_eq_iff)
qed

lemma q264_lt:
  assumes "q264 a"
  shows "qval a < 2 ^ 264"
proof -
  obtain a0 a1 a2 a3 a4 where A: "a = [a0, a1, a2, a3, a4]"
    "unat a0 < R56" "unat a1 < R56" "unat a2 < R56" "unat a3 < R56" "unat a4 < R56"
    using assms unfolding q264_def by (blast elim: qlimbs_cases)
  have "unat a4 < 2 ^ 40" using assms by (simp add: q264_def A(1))
  then have "dval [unat a0, unat a1, unat a2, unat a3, unat a4] =
      dval [unat a0, unat a1, unat a2, unat a3, unat a4 mod 2 ^ 40]" by simp
  also have "\<dots> < 2 ^ 264"
    unfolding mod_264_digits [OF A(2-5), of "unat a4" "[]"] by simp
  finally show ?thesis by (simp add: qval_def A(1))
qed

lemma wrapped_difference:
  fixes t x y N b :: nat
  assumes "t + y = x + N * b" "b \<le> 1" "t < N" "y < N"
  shows "t = (x + (N - y)) mod N"
proof (cases "b = 0")
  case True
  then have "x + (N - y) = t + N" using assms by simp
  then show ?thesis using assms(3) by simp
next
  case False
  then have "b = 1" using assms(2) by simp
  then have "x + (N - y) = t" using assms by simp
  then show ?thesis using assms(3) by simp
qed

lemma sub_mod_264_correct:
  assumes x: "q264 x" and y: "q264 y" and z: "length z = 5"
  shows "qlimbs 5 (Hacl_Impl_BignumQ_Mul_sub_mod_264 z x y)"
    and "qval (Hacl_Impl_BignumQ_Mul_sub_mod_264 z x y) = (qval x + (2 ^ 264 - qval y)) mod 2 ^ 264"
proof -
  obtain x0 x1 x2 x3 x4 where X: "x = [x0, x1, x2, x3, x4]"
    "unat x0 < R56" "unat x1 < R56" "unat x2 < R56" "unat x3 < R56" "unat x4 < R56"
    using x unfolding q264_def by (blast elim: qlimbs_cases)
  obtain y0 y1 y2 y3 y4 where Y: "y = [y0, y1, y2, y3, y4]"
    "unat y0 < R56" "unat y1 < R56" "unat y2 < R56" "unat y3 < R56" "unat y4 < R56"
    using y unfolding q264_def by (blast elim: qlimbs_cases)
  have x4: "unat x4 < 2 ^ 40" and y4: "unat y4 < 2 ^ 40" using x y by (simp_all add: q264_def X(1) Y(1))
  define b0 where "b0 = Hacl_Impl_BignumQ_Mul_lt x0 y0"
  define b1 where "b1 = Hacl_Impl_BignumQ_Mul_lt x1 (y1 + b0)"
  define b2 where "b2 = Hacl_Impl_BignumQ_Mul_lt x2 (y2 + b1)"
  define b3 where "b3 = Hacl_Impl_BignumQ_Mul_lt x3 (y3 + b2)"
  define b4 where "b4 = Hacl_Impl_BignumQ_Mul_lt x4 (y4 + b3)"
  define t where "t = [push_bit 56 b0 + x0 - y0, push_bit 56 b1 + x1 - (y1 + b0), push_bit 56 b2 + x2 - (y2 + b1),
      push_bit 56 b3 + x3 - (y3 + b2), push_bit 40 b4 + x4 - (y4 + b3)]"
  note chain = borrow_chain [OF X(2-5) x4 Y(2-5) y4, simplified, folded b0_def, folded b1_def, folded b2_def,
      folded b3_def, folded b4_def, folded t_def]
  have E: "Hacl_Impl_BignumQ_Mul_sub_mod_264 z x y = t"
    using z by (simp add: Hacl_Impl_BignumQ_Mul_sub_mod_264_def Hacl_Impl_BignumQ_Mul_shiftl_56_def Let_def X(1) Y(1) t_def
        flip: b0_def b1_def b2_def b3_def b4_def)
  show "qlimbs 5 (Hacl_Impl_BignumQ_Mul_sub_mod_264 z x y)" unfolding E by (rule chain(2))
  show "qval (Hacl_Impl_BignumQ_Mul_sub_mod_264 z x y) = (qval x + (2 ^ 264 - qval y)) mod 2 ^ 264"
    unfolding E
  proof (rule wrapped_difference)
    show "qval t + qval y = qval x + 2 ^ 264 * unat b4"
      using chain(1) by (simp add: X(1) Y(1))
    show "unat b4 \<le> 1" using chain(4) by auto
    show "qval t < 2 ^ 264" using chain(2,3) by (intro q264_lt) (simp add: q264_def t_def)
    show "qval y < 2 ^ 264" by (rule q264_lt [OF y])
  qed
qed

text \<open>The last step of a reduction: the order is subtracted once if that is possible.\<close>

lemma order_digits: "qval [0x12631a5cf5d3ed, 0xf9dea2f79cd658, 0x000000000014de, 0x00000000000000, 0x00000010000000] = ed_order"
  by (simp add: qval_def ed_order_def R56_def)

lemma choose_eq:
  assumes "length x = 5" "length y = 5" "length z = 5"
  shows "Hacl_Impl_BignumQ_Mul_choose z x y 0 = y" and "Hacl_Impl_BignumQ_Mul_choose z x y 1 = x"
proof -
  have x: "(u XOR v) XOR v = u" for u v :: u64
    by (intro bit_word_eqI) (auto simp: bit_simps)
  show "Hacl_Impl_BignumQ_Mul_choose z x y 0 = y" and "Hacl_Impl_BignumQ_Mul_choose z x y 1 = x"
    using assms by (simp_all add: Hacl_Impl_BignumQ_Mul_choose_def Let_def x list_of_5 del: One_nat_def)
qed

lemma subm_conditional_correct:
  assumes x: "qlimbs 5 x" and z: "length z = 5"
  shows "qlimbs 5 (Hacl_Impl_BignumQ_Mul_subm_conditional z x)"
    and "qval (Hacl_Impl_BignumQ_Mul_subm_conditional z x) = (if qval x < ed_order then qval x else qval x - ed_order)"
proof -
  obtain x0 x1 x2 x3 x4 where X: "x = [x0, x1, x2, x3, x4]"
    "unat x0 < R56" "unat x1 < R56" "unat x2 < R56" "unat x3 < R56" "unat x4 < R56"
    using x by (rule qlimbs_cases)
  define y0 y1 y2 y3 y4 :: u64 where Y: "y0 = 0x12631a5cf5d3ed" "y1 = 0xf9dea2f79cd658" "y2 = 0x000000000014de"
    "y3 = 0x00000000000000" "y4 = 0x00000010000000"
  have yl: "unat y0 < R56" "unat y1 < R56" "unat y2 < R56" "unat y3 < R56" "unat y4 < R56"
    by (simp_all add: Y R56_def)
  define b0 where "b0 = Hacl_Impl_BignumQ_Mul_lt x0 y0"
  define b1 where "b1 = Hacl_Impl_BignumQ_Mul_lt x1 (y1 + b0)"
  define b2 where "b2 = Hacl_Impl_BignumQ_Mul_lt x2 (y2 + b1)"
  define b3 where "b3 = Hacl_Impl_BignumQ_Mul_lt x3 (y3 + b2)"
  define b4 where "b4 = Hacl_Impl_BignumQ_Mul_lt x4 (y4 + b3)"
  define t where "t = [push_bit 56 b0 + x0 - y0, push_bit 56 b1 + x1 - (y1 + b0), push_bit 56 b2 + x2 - (y2 + b1),
      push_bit 56 b3 + x3 - (y3 + b2), push_bit 56 b4 + x4 - (y4 + b3)]"
  note chain = borrow_chain [OF X(2-5) X(6) [unfolded R56_def] yl(1-4) yl(5) [unfolded R56_def] order_refl, folded b0_def, folded b1_def,
      folded b2_def, folded b3_def, folded b4_def, folded t_def]
  have m: "qval [y0, y1, y2, y3, y4] = ed_order"
    unfolding Y by (rule order_digits)
  have E: "Hacl_Impl_BignumQ_Mul_subm_conditional z x = Hacl_Impl_BignumQ_Mul_choose t x t b4"
    using z by (simp add: Hacl_Impl_BignumQ_Mul_subm_conditional_def Hacl_Impl_BignumQ_Mul_shiftl_56_def Let_def X(1)
        t_def b0_def b1_def b2_def b3_def b4_def Y)
  have s: "qval t + ed_order = qval x + 2 ^ 224 * (2 ^ 56 * unat b4)"
    using chain(1) unfolding m X(1) .
  have "qval t < R56 ^ 5" by (rule qval_lt [OF chain(2)])
  then have tl: "qval t < 2 ^ 224 * 2 ^ 56" by (simp add: R56_def)
  have lt: "length t = 5" by (simp add: t_def)
  have lx: "length x = 5" by (simp add: X(1))
  show "qlimbs 5 (Hacl_Impl_BignumQ_Mul_subm_conditional z x)"
    using chain(2,4) x unfolding E by (auto simp: choose_eq lt lx)
  show "qval (Hacl_Impl_BignumQ_Mul_subm_conditional z x) = (if qval x < ed_order then qval x else qval x - ed_order)"
  proof (cases "b4 = 0")
    case True
    then show ?thesis using s unfolding E by (simp add: choose_eq lt lx)
  next
    case False
    then have "b4 = 1" using chain(4) by simp
    then show ?thesis using s tl unfolding E by (simp add: choose_eq lt lx)
  qed
qed


section \<open>Barrett reduction\<close>

text \<open>With the reciprocal rounded down, the estimated quotient is at most one too small.\<close>

lemma barrett_estimate:
  fixes t m mu r2 q h :: nat
  assumes "2 ^ 512 = mu * m + r2" "r2 + 2 ^ 248 \<le> m" "t < 2 ^ 512"
    and q: "q = t div 2 ^ 248" and h: "h = q * mu div 2 ^ 264"
  shows "h * m \<le> t" and "t < h * m + 2 * m"
proof -
  define r1 where "r1 = t mod 2 ^ 248"
  define r3 where "r3 = q * mu mod 2 ^ 264"
  have t: "t = 2 ^ 248 * q + r1" unfolding q r1_def by (rule mult_div_mod_eq [symmetric])
  have qm: "q * mu = 2 ^ 264 * h + r3" unfolding h r3_def by (rule mult_div_mod_eq [symmetric])
  have ql: "q < 2 ^ 264"
    unfolding q using assms(3) by (intro less_mult_imp_div_less) (simp add: power_add [symmetric])
  have r1: "r1 < 2 ^ 248" by (simp add: r1_def)
  have r3: "r3 < 2 ^ 264" by (simp add: r3_def)
  have "2 ^ 264 * t = q * 2 ^ 512 + 2 ^ 264 * r1"
    unfolding t by simp
  also have "q * 2 ^ 512 = (q * mu) * m + q * r2"
    unfolding assms(1) by (simp only: distrib_left mult.assoc)
  also have "(q * mu) * m = 2 ^ 264 * (h * m) + r3 * m"
    unfolding qm by (simp only: distrib_right mult.assoc)
  finally have e: "2 ^ 264 * t = 2 ^ 264 * (h * m) + r3 * m + q * r2 + 2 ^ 264 * r1" .
  then have "2 ^ 264 * (h * m) \<le> 2 ^ 264 * t" by simp
  then show "h * m \<le> t" by simp
  have m: "0 < m" using assms(2) by simp
  have "r3 * m < 2 ^ 264 * m" using r3 m by (rule mult_strict_right_mono)
  moreover have "q * r2 \<le> 2 ^ 264 * r2" using ql by (intro mult_le_mono1 less_imp_le)
  moreover have "2 ^ 264 * r1 \<le> 2 ^ 264 * 2 ^ 248" using r1 by (intro mult_le_mono2 less_imp_le)
  moreover have "2 ^ 264 * r2 + 2 ^ 264 * 2 ^ 248 \<le> 2 ^ 264 * m"
    unfolding distrib_left [symmetric] by (intro mult_le_mono2 assms(2))
  ultimately have "2 ^ 264 * t < 2 ^ 264 * (h * m) + 2 ^ 264 * m + 2 ^ 264 * m"
    using e by linarith
  then have "2 ^ 264 * t < 2 ^ 264 * (h * m + 2 * m)" by (simp add: algebra_simps)
  then show "t < h * m + 2 * m" by simp
qed

definition order_reciprocal :: nat where
  "order_reciprocal = 1852673427797059126777135760139006525645217721299241702126143248052143860224795"

lemma reciprocal_eq: "2 ^ 512 = order_reciprocal * ed_order
    + 1627715501170711445284395025044413883736156588369414752970002579683115011841"
  by (simp add: order_reciprocal_def ed_order_def)

lemma reciprocal_rest:
  "1627715501170711445284395025044413883736156588369414752970002579683115011841 + 2 ^ 248 \<le> ed_order"
  by (simp add: ed_order_def)

lemma reciprocal_digits:
  "qval [0x9ce5a30a2c131b, 0x215d086329a7ed, 0xffffffffeb2106, 0xffffffffffffff, 0x00000fffffffff] = order_reciprocal"
  by (simp add: qval_def order_reciprocal_def R56_def)

lemma difference_mod:
  fixes t v N :: nat
  assumes "v \<le> t" "t - v < N"
  shows "(t mod N + (N - v mod N)) mod N = t - v"
proof -
  have N: "0 < N" using assms(2) by simp
  have "int ((t mod N + (N - v mod N)) mod N) = (int t mod int N + (int N - int v mod int N)) mod int N"
    using of_nat_diff [OF less_imp_le [OF mod_less_divisor [OF N, of v]], where 'a = int]
    by (simp only: of_nat_mod of_nat_add)
  also have "int t mod int N + (int N - int v mod int N) = (int t mod int N - int v mod int N) + int N"
    by linarith
  also have "\<dots> mod int N = (int t - int v) mod int N"
    by (simp only: mod_add_self2 mod_diff_eq)
  also have "\<dots> = int (t - v)"
    using assms by (simp add: of_nat_diff [symmetric] mod_pos_pos_trivial del: of_nat_diff)
  finally show ?thesis by simp
qed

lemma once_subtracted:
  fixes t h m :: nat
  assumes "h * m \<le> t" "t < h * m + 2 * m" "0 < m"
  shows "(if t - h * m < m then t - h * m else t - h * m - m) = t mod m"
proof -
  have t: "t = (t - h * m) + m * h" using assms(1) by simp
  have "t mod m = (t - h * m) mod m"
    by (subst t) (rule mod_mult_self2)
  also have "\<dots> = (if t - h * m < m then t - h * m else t - h * m - m)"
  proof (cases "t - h * m < m")
    case True
    then show ?thesis by simp
  next
    case False
    then have "t - h * m = (t - h * m - m) + m" by simp
    moreover have "t - h * m - m < m" using assms by simp
    ultimately show ?thesis using False by (metis mod_add_self2 mod_less)
  qed
  finally show ?thesis by simp
qed

lemma barrett_reduction_correct:
  assumes t: "length t = 10" "list_all (\<lambda>v. unat v < R56) (take 9 t)" "qval t < 2 ^ 512" and z: "length z = 5"
  shows "qlimbs 5 (Hacl_Impl_BignumQ_Mul_barrett_reduction' z t)"
    and "qval (Hacl_Impl_BignumQ_Mul_barrett_reduction' z t) = qval t mod ed_order"
proof -
  let ?z = "replicate 5 (0 :: u64)" and ?zz = "replicate 10 (0 :: u64)" and ?w = "replicate 9 (0 :: u128)"
  define m where "m = Hacl_Impl_BignumQ_Mul_make_m ?z"
  define mu where "mu = Hacl_Impl_BignumQ_Mul_make_mu ?z"
  have m: "qlimbs 5 m" "qval m = ed_order"
    by (simp_all add: m_def Hacl_Impl_BignumQ_Mul_make_m_def order_digits qlimbs_def R56_def)
  have mu: "qlimbs 5 mu" "qval mu = order_reciprocal"
    by (simp_all add: mu_def Hacl_Impl_BignumQ_Mul_make_mu_def reciprocal_digits qlimbs_def R56_def)
  define q where "q = Hacl_Impl_BignumQ_Mul_div_248 ?z t"
  have "qval t < 2 ^ 528" using t(3) by (rule less_trans) simp
  then have q: "qlimbs 5 q" "qval q = qval t div 2 ^ 248"
    using div_248_correct [OF t(1,2), of ?z] by (simp_all add: q_def)
  define p where "p = Hacl_Impl_BignumQ_Mul_carry ?zz (Hacl_Impl_BignumQ_Mul_mul_5 ?w q mu)"
  have p: "length p = 10" "qval p = qval q * qval mu" "list_all (\<lambda>v. unat v < R56) (take 9 p)"
    unfolding p_def by (rule product_digits [OF q(1) mu(1)]; simp)+
  have pl: "qval p < 2 ^ 544"
  proof -
    have "qval q < 2 ^ 264"
      unfolding q(2) using t(3) by (intro less_mult_imp_div_less) (simp add: power_add [symmetric])
    moreover have "qval mu < 2 ^ 280" by (simp add: mu(2) order_reciprocal_def)
    ultimately have "qval q * qval mu < 2 ^ 264 * 2 ^ 280" by (rule mult_strict_mono) simp_all
    then show ?thesis unfolding p(2) by simp
  qed
  define h where "h = Hacl_Impl_BignumQ_Mul_div_264 ?z p"
  have h: "qlimbs 5 h" "qval h = qval p div 2 ^ 264"
    using div_264_correct [OF p(1,3) pl, of ?z] by (simp_all add: h_def)
  define r where "r = Hacl_Impl_BignumQ_Mul_mod_264 ?z t"
  have r: "q264 r" "qval r = qval t mod 2 ^ 264"
    unfolding r_def by (rule mod_264_correct [OF t(1,2)]; simp)+
  define v where "v = Hacl_Impl_BignumQ_Mul_low_mul_5 q h m"
  have lq: "length q = 5" using q(1) by (simp add: qlimbs_def)
  have v: "q264 v" "qval v = qval h * ed_order mod 2 ^ 264"
    unfolding v_def by (rule low_mul_5_correct [OF h(1) m(1) lq, unfolded m(2)])+
  define s where "s = Hacl_Impl_BignumQ_Mul_sub_mod_264 ?z r v"
  have s: "qlimbs 5 s" "qval s = (qval r + (2 ^ 264 - qval v)) mod 2 ^ 264"
    unfolding s_def by (rule sub_mod_264_correct [OF r(1) v(1)]; simp)+
  have "qval h = (qval t div 2 ^ 248) * order_reciprocal div 2 ^ 264"
    unfolding h(2) p(2) q(2) mu(2) ..
  note est = barrett_estimate [OF reciprocal_eq reciprocal_rest t(3) refl this]
  have small: "qval t - qval h * ed_order < 2 ^ 264"
  proof -
    have "qval t - qval h * ed_order < 2 * ed_order" using est by linarith
    also have "\<dots> < 2 ^ 264" by (simp add: ed_order_def)
    finally show ?thesis .
  qed
  have sv: "qval s = qval t - qval h * ed_order"
    unfolding s(2) r(2) v(2) by (rule difference_mod [OF est(1) small])
  have E: "Hacl_Impl_BignumQ_Mul_barrett_reduction' z t = Hacl_Impl_BignumQ_Mul_subm_conditional z s"
  proof -
    have lh: "length h = 5" and lr: "length r = 5" and lv: "length v = 5" and ls: "length s = 5"
      using h(1) r(1) v(1) s(1) by (simp_all add: qlimbs_def q264_def)
    have tmp: "slice 10 30 (replicate 40 0) = replicate 30 (0 :: u64)" by (simp add: slice_def)
    have sl: "slice 0 5 (replicate 30 0) = ?z" "slice 5 5 (replicate 30 0) = ?z" "slice 10 10 (replicate 30 0) = ?zz"
      "slice 20 5 (replicate 30 0) = ?z" "drop 25 (replicate 30 0) = ?z"
      by (simp_all add: slice_def)
    have 1: "Hacl_Impl_BignumQ_Mul_barrett_reduction''_1 ?w t mu (replicate 30 0) =
        (Hacl_Impl_BignumQ_Mul_mul_5 ?w q mu, q @ ?z @ p @ h @ ?z)"
      unfolding Hacl_Impl_BignumQ_Mul_barrett_reduction''_1_def Let_def sl q_def [symmetric] p_def [symmetric]
        h_def [symmetric] ..
    have sl2: "slice 0 5 (q @ ?z @ p @ h @ ?z) = q" "slice 5 5 (q @ ?z @ p @ h @ ?z) = ?z"
      "slice 20 5 (q @ ?z @ p @ h @ ?z) = h" "slice 25 5 (q @ ?z @ p @ h @ ?z) = ?z"
      using lq p(1) lh by (simp_all add: slice_def)
    have 2: "Hacl_Impl_BignumQ_Mul_barrett_reduction''_2 t m (q @ ?z @ p @ h @ ?z) =
        v @ r @ slice 10 15 (q @ ?z @ p @ h @ ?z) @ s"
      unfolding Hacl_Impl_BignumQ_Mul_barrett_reduction''_2_def Let_def sl2 r_def [symmetric] v_def [symmetric]
        s_def [symmetric] ..
    have 3: "slice 25 5 (v @ r @ slice 10 15 (q @ ?z @ p @ h @ ?z) @ s) = s"
      using lq p(1) lh lr lv ls by (simp add: slice_def)
    have w: "replicate 9 (FStar_UInt128_uint64_to_uint128 0) = ?w"
      by (simp add: FStar_UInt128_uint64_to_uint128_def)
    have z40: "slice 0 5 (replicate 40 (0 :: u64)) = ?z" "slice 5 5 (replicate 40 (0 :: u64)) = ?z"
      by (simp_all add: slice_def)
    show ?thesis
      unfolding Hacl_Impl_BignumQ_Mul_barrett_reduction'_def Hacl_Impl_BignumQ_Mul_barrett_reduction''_def Let_def
        tmp z40 w m_def [symmetric] mu_def [symmetric] 1 prod.case 2 3 ..
  qed
  show "qlimbs 5 (Hacl_Impl_BignumQ_Mul_barrett_reduction' z t)"
    unfolding E by (rule subm_conditional_correct(1) [OF s(1) z])
  have o: "0 < ed_order" by (simp add: ed_order_def)
  show "qval (Hacl_Impl_BignumQ_Mul_barrett_reduction' z t) = qval t mod ed_order"
    unfolding E subm_conditional_correct(2) [OF s(1) z] sv by (rule once_subtracted [OF est o])
qed

section \<open>Products and sums modulo the order\<close>

lemma mul_modq_correct:
  assumes x: "qlimbs 5 x" and y: "qlimbs 5 y" and b: "qval x * qval y < 2 ^ 512" and out: "length out = 5"
  shows "qlimbs 5 (Hacl_Impl_BignumQ_Mul_mul_modq out x y)"
    and "qval (Hacl_Impl_BignumQ_Mul_mul_modq out x y) = qval x * qval y mod ed_order"
proof -
  let ?c = "Hacl_Impl_BignumQ_Mul_carry (replicate 10 0) (Hacl_Impl_BignumQ_Mul_mul_5 (replicate 9 (FStar_UInt128_uint64_to_uint128 0)) x y)"
  have c: "length ?c = 10" "qval ?c = qval x * qval y" "list_all (\<lambda>v. unat v < R56) (take 9 ?c)"
    by (rule product_digits [OF x y]; simp)+
  have l: "qval ?c < 2 ^ 512" unfolding c(2) by (rule b)
  show "qlimbs 5 (Hacl_Impl_BignumQ_Mul_mul_modq out x y)"
    and "qval (Hacl_Impl_BignumQ_Mul_mul_modq out x y) = qval x * qval y mod ed_order"
    unfolding Hacl_Impl_BignumQ_Mul_mul_modq_def Let_def
    using barrett_reduction_correct [OF c(1,3) l out] unfolding c(2) by blast+
qed

lemma add_carry_sum:
  fixes x0 x1 x2 x3 x4 y0 y1 y2 y3 y4 :: nat
  assumes "x0 + y0 = t0 + R56 * k0" "x1 + y1 + k0 = t1 + R56 * k1" "x2 + y2 + k1 = t2 + R56 * k2"
    "x3 + y3 + k2 = t3 + R56 * k3"
  shows "dval [t0, t1, t2, t3, x4 + y4 + k3] = dval [x0, x1, x2, x3, x4] + dval [y0, y1, y2, y3, y4]"
proof -
  have e: "t0 = x0 + y0 - R56 * k0" "R56 * k0 \<le> x0 + y0" using assms(1) by simp_all
  have "dval [t0, t1, t2, t3, x4 + y4 + k3] + R56 * k0 = x0 + y0 + R56 * dval [t1, t2, t3, x4 + y4 + k3]"
    using assms(1) by simp
  moreover have "dval [t1, t2, t3, x4 + y4 + k3] + R56 * k1 = x1 + y1 + k0 + R56 * dval [t2, t3, x4 + y4 + k3]"
    using assms(2) by simp
  moreover have "dval [t2, t3, x4 + y4 + k3] + R56 * k2 = x2 + y2 + k1 + R56 * dval [t3, x4 + y4 + k3]"
    using assms(3) by simp
  moreover have "dval [t3, x4 + y4 + k3] = x3 + y3 + k2 + R56 * (x4 + y4)"
    using assms(4) by (simp add: algebra_simps)
  ultimately show ?thesis
    by (simp add: R56_def)
qed

lemma add_modq_correct:
  assumes x: "qlimbs 5 x" "qval x < ed_order" and y: "qlimbs 5 y" "qval y < ed_order" and out: "length out = 5"
  shows "qlimbs 5 (Hacl_Impl_BignumQ_Mul_add_modq out x y)"
    and "qval (Hacl_Impl_BignumQ_Mul_add_modq out x y) = (qval x + qval y) mod ed_order"
proof -
  obtain x0 x1 x2 x3 x4 where X: "x = [x0, x1, x2, x3, x4]"
    "unat x0 < R56" "unat x1 < R56" "unat x2 < R56" "unat x3 < R56" "unat x4 < R56"
    using x(1) by (rule qlimbs_cases)
  obtain y0 y1 y2 y3 y4 where Y: "y = [y0, y1, y2, y3, y4]"
    "unat y0 < R56" "unat y1 < R56" "unat y2 < R56" "unat y3 < R56" "unat y4 < R56"
    using y(1) by (rule qlimbs_cases)
  define s1 s2 s3 s4 where s: "s1 = x1 + y1 + drop_bit 56 (x0 + y0)" "s2 = x2 + y2 + drop_bit 56 s1"
    "s3 = x3 + y3 + drop_bit 56 s2" "s4 = x4 + y4 + drop_bit 56 s3"
  define lo where "lo v = v AND 0xffffffffffffff" for v :: u64
  define t where "t = [lo (x0 + y0), lo s1, lo s2, lo s3, s4]"
  have E: "Hacl_Impl_BignumQ_Mul_add_modq out x y = Hacl_Impl_BignumQ_Mul_subm_conditional out t"
    by (simp add: Hacl_Impl_BignumQ_Mul_add_modq_def Hacl_Impl_BignumQ_Mul_add_modq'_def Let_def X(1) Y(1) t_def lo_def s)
  have lo: "unat (lo v) = unat v mod R56" for v unfolding lo_def by (rule unat_mask56)
  have up: "unat (a + b + drop_bit 56 c) = unat a + unat b + unat c div R56 \<and> unat (a + b + drop_bit 56 c) < 2 ^ 58"
    if "unat a < R56" "unat b < R56" "unat c < 2 ^ 58" for a b c :: u64
  proof -
    have "unat (a + b) = unat a + unat b" using that by (intro unat_add_small) (simp add: R56_def)
    moreover have "unat c div R56 < 4" using that(3) unfolding R56_def by (intro less_mult_imp_div_less) simp
    ultimately show ?thesis
      using that by (simp add: unat_add_small unat_drop_bit R56_def)
  qed
  have s0: "unat (x0 + y0) = unat x0 + unat y0" "unat (x0 + y0) < 2 ^ 58"
    using X(2) Y(2) by (simp_all add: unat_add_small R56_def)
  note u1 = up [OF X(3) Y(3) s0(2), folded s(1)]
  note u2 = up [OF X(4) Y(4) conjunct2 [OF u1], folded s(2)]
  note u3 = up [OF X(5) Y(5) conjunct2 [OF u2], folded s(3)]
  note u4 = up [OF X(6) Y(6) conjunct2 [OF u3], folded s(4)]
  have v: "qval t = qval x + qval y"
    unfolding X(1) Y(1) t_def qval_def list.map lo conjunct1 [OF u4]
    by (rule add_carry_sum [where ?k0.0 = "unat (x0 + y0) div R56" and ?k1.0 = "unat s1 div R56" and ?k2.0 = "unat s2 div R56"])
      (simp_all only: s0(1) [symmetric] conjunct1 [OF u1, symmetric] conjunct1 [OF u2, symmetric] conjunct1 [OF u3, symmetric]
        mod_mult_div_eq)
  have "unat s4 < R56"
  proof -
    have "R56 ^ 4 * unat s4 \<le> qval t"
      by (simp add: t_def qval_def eval_nat_numeral algebra_simps)
    moreover have "qval t < R56 ^ 4 * R56"
      unfolding v using x(2) y(2) by (simp add: R56_def ed_order_def)
    ultimately have "R56 ^ 4 * unat s4 < R56 ^ 4 * R56" by (rule le_less_trans)
    then show ?thesis by simp
  qed
  then have t: "qlimbs 5 t" by (simp add: t_def qlimbs_def lo)
  show "qlimbs 5 (Hacl_Impl_BignumQ_Mul_add_modq out x y)"
    unfolding E by (rule subm_conditional_correct(1) [OF t out])
  show "qval (Hacl_Impl_BignumQ_Mul_add_modq out x y) = (qval x + qval y) mod ed_order"
    unfolding E subm_conditional_correct(2) [OF t out] v
    using x(2) y(2) by (simp add: le_mod_geq)
qed

section \<open>Loading, storing and comparing\<close>

lemma digits_of_nat: "dval (map (\<lambda>i. n div R56 ^ i mod R56) [0..<k]) = n mod R56 ^ k"
proof (induction k)
  case 0
  then show ?case by simp
next
  case (Suc k)
  have "dval (map (\<lambda>i. n div R56 ^ i mod R56) [0..<Suc k]) = n mod R56 ^ k + R56 ^ k * (n div R56 ^ k mod R56)"
    by (simp add: dval_append Suc)
  also have "\<dots> = n mod (R56 ^ k * R56)"
    by (simp only: mod_mult2_eq add.commute)
  finally show ?case by (simp add: mult.commute)
qed

lemma load_digit:
  assumes "off + 8 \<le> length b"
  shows "unat (load64_le (drop off b) AND 0xffffffffffffff) = le_nat b div 256 ^ off mod R56"
proof -
  have "unat (load64_le (drop off b)) = le_nat b div 256 ^ off mod 2 ^ 64"
    using assms by (simp add: load64_le_def unat_load64 le_nat_take le_nat_drop)
  moreover have "m mod 2 ^ 64 mod R56 = m mod R56" for m :: nat
    unfolding R56_def by (rule mod_mod_cancel) simp
  ultimately show ?thesis by (simp only: unat_mask56)
qed

lemma R56_bytes: "R56 ^ i = 256 ^ (7 * i)"
proof -
  have "R56 = 256 ^ 7" by (simp add: R56_def)
  then show ?thesis by (simp only: power_mult)
qed

lemma load_64_bytes_correct:
  assumes b: "length b = 64" and out: "length out = 10"
  shows "length (Hacl_Impl_Load56_load_64_bytes out b) = 10" "qval (Hacl_Impl_Load56_load_64_bytes out b) = le_nat b"
    and "list_all (\<lambda>v. unat v < R56) (take 9 (Hacl_Impl_Load56_load_64_bytes out b))"
proof -
  define l where "l i = load64_le (drop (7 * i) b) AND 0xffffffffffffff" for i
  have E: "Hacl_Impl_Load56_load_64_bytes out b = map l [0..<9] @ [ucast (b ! 63)]"
    using out by (simp add: Hacl_Impl_Load56_load_64_bytes_def Let_def l_def upt_rec)
  have lv: "unat (l i) = le_nat b div R56 ^ i mod R56" if "i < 9" for i
    unfolding l_def R56_bytes using that b by (intro load_digit) simp
  show "length (Hacl_Impl_Load56_load_64_bytes out b) = 10" unfolding E by simp
  show "list_all (\<lambda>v. unat v < R56) (take 9 (Hacl_Impl_Load56_load_64_bytes out b))"
    unfolding E by (simp add: list_all_iff lv)
  have top: "unat (ucast (b ! 63) :: u64) = le_nat b div R56 ^ 9"
  proof -
    have d: "drop 63 b = [b ! 63]" using b Cons_nth_drop_Suc [of 63 b] by simp
    have "le_nat b div 256 ^ 63 = le_nat (drop 63 b)" by (simp add: le_nat_drop)
    then show ?thesis unfolding R56_bytes d by (simp add: unat_ucast_up)
  qed
  have M: "map unat (map l [0..<9]) = map (\<lambda>i. le_nat b div R56 ^ i mod R56) [0..<9]"
    unfolding map_map by (intro map_cong refl) (simp add: lv)
  have "qval (Hacl_Impl_Load56_load_64_bytes out b) = le_nat b mod R56 ^ 9 + R56 ^ 9 * (le_nat b div R56 ^ 9)"
    unfolding E qval_def map_append M dval_append digits_of_nat list.map top by simp
  then show "qval (Hacl_Impl_Load56_load_64_bytes out b) = le_nat b" by (simp only: mod_mult_div_eq)
qed

lemma load_32_bytes_correct:
  assumes b: "32 \<le> length b" and out: "length out = 5"
  shows "qlimbs 5 (Hacl_Impl_Load56_load_32_bytes out b)" "qval (Hacl_Impl_Load56_load_32_bytes out b) = le_nat (take 32 b)"
proof -
  let ?n = "le_nat (take 32 b)"
  define l where "l i = load64_le (drop (7 * i) b) AND 0xffffffffffffff" for i
  define h :: u64 where "h = ucast (load32_le (drop 28 b))"
  have E: "Hacl_Impl_Load56_load_32_bytes out b = map l [0..<4] @ [h]"
    using out by (simp add: Hacl_Impl_Load56_load_32_bytes_def Let_def l_def h_def upt_rec)
  have lv: "unat (l i) = ?n div R56 ^ i mod R56" if "i < 4" for i
  proof -
    have "8 \<le> 32 - 7 * i" "8 \<le> length b - 7 * i" using that b by simp_all
    then have "load64_le (drop (7 * i) b) = load64_le (drop (7 * i) (take 32 b))"
      using b by (intro word_unat_eqI) (simp add: load64_le_def unat_load64 drop_take min_def)
    then show ?thesis
      unfolding l_def R56_bytes using that b by (simp only:) (intro load_digit, simp)
  qed
  have top: "unat h = ?n div R56 ^ 4"
  proof -
    have "unat h = le_nat (take 4 (drop 28 b))"
      using b by (simp add: h_def unat_ucast_up load32_le_def unat_load32)
    also have "take 4 (drop 28 b) = drop 28 (take 32 b)" by (simp add: drop_take)
    finally show ?thesis unfolding R56_bytes le_nat_drop by simp
  qed
  have "?n < 256 ^ 32" using le_nat_lt [of "take 32 b"] b by simp
  then have "?n div R56 ^ 4 < R56"
    unfolding R56_def by (intro less_mult_imp_div_less) simp
  then show "qlimbs 5 (Hacl_Impl_Load56_load_32_bytes out b)"
    unfolding E qlimbs_def by (simp add: list_all_iff lv top)
  have M: "map unat (map l [0..<4]) = map (\<lambda>i. ?n div R56 ^ i mod R56) [0..<4]"
    unfolding map_map by (intro map_cong refl) (simp add: lv)
  have "qval (Hacl_Impl_Load56_load_32_bytes out b) = ?n mod R56 ^ 4 + R56 ^ 4 * (?n div R56 ^ 4)"
    unfolding E qval_def map_append M dval_append digits_of_nat list.map top by simp
  then show "qval (Hacl_Impl_Load56_load_32_bytes out b) = ?n" by (simp only: mod_mult_div_eq)
qed

text \<open>Each store of eight bytes leaves seven in place; the next overwrites the last, which is zero.\<close>

lemma store_56_correct:
  assumes x: "qlimbs 5 x" and b: "qval x < 2 ^ 256" and out: "32 \<le> length out"
  shows "Hacl_Impl_Store56_store_56 out x = nat_to_le 32 (qval x) @ drop 32 out"
proof -
  obtain x0 x1 x2 x3 x4 where X: "x = [x0, x1, x2, x3, x4]"
    "unat x0 < R56" "unat x1 < R56" "unat x2 < R56" "unat x3 < R56" "unat x4 < R56"
    using x by (rule qlimbs_cases)
  have x4: "unat x4 < 2 ^ 32"
  proof -
    have "2 ^ 224 * unat x4 \<le> qval x" by (simp add: qval_def X(1) R56_def)
    then have "2 ^ 224 * unat x4 < 2 ^ 224 * 2 ^ 32" using b by simp
    then show ?thesis by simp
  qed
  have seven: "take 7 (bytes_of_u64 v) = nat_to_le 7 (unat v)" for v
    by (simp add: bytes_of_u64_nat_to_le nat_to_le_def take_map)
  have four: "bytes_of_u32 (ucast x4) = nat_to_le 4 (unat x4)"
    using x4 by (intro le_nat_inj) (simp_all add: le_nat_bytes_of_u32 le_nat_nat_to_le unat_ucast_down)
  have E: "Hacl_Impl_Store56_store_56 out x = nat_to_le 7 (unat x0) @ nat_to_le 7 (unat x1) @ nat_to_le 7 (unat x2)
      @ nat_to_le 7 (unat x3) @ nat_to_le 4 (unat x4) @ drop 32 out"
    by (simp add: Hacl_Impl_Store56_store_56_def X(1) at_off_def store64_le_eq store32_le_eq seven four)
  have "nat_to_le 7 (unat x0) @ nat_to_le 7 (unat x1) @ nat_to_le 7 (unat x2) @ nat_to_le 7 (unat x3)
      @ nat_to_le 4 (unat x4) = nat_to_le 32 (qval x)"
  proof (rule le_nat_inj)
    show "le_nat (nat_to_le 7 (unat x0) @ nat_to_le 7 (unat x1) @ nat_to_le 7 (unat x2) @ nat_to_le 7 (unat x3)
      @ nat_to_le 4 (unat x4)) = le_nat (nat_to_le 32 (qval x))"
      using X(2-5) x4 b by (simp add: le_nat_append le_nat_nat_to_le qval_def X(1) R56_def)
  qed simp
  then show ?thesis unfolding E by simp
qed

lemma digit_order:
  fixes x y X Y N :: nat
  assumes "x < N" "y < N"
  shows "(y + N * Y \<le> x + N * X) = (if Y = X then y \<le> x else Y < X)"
proof -
  consider "Y = X" | "Y < X" | "X < Y" by linarith
  then show ?thesis
  proof cases
    case 2
    then have "N * Suc Y \<le> N * X" by (intro mult_le_mono2) simp
    then show ?thesis using 2 assms by simp
  next
    case 3
    then have "N * Suc X \<le> N * Y" by (intro mult_le_mono2) simp
    then show ?thesis using 3 assms by simp
  qed simp
qed

lemma gte_q_correct:
  assumes "qlimbs 5 s"
  shows "Hacl_Impl_Ed25519_PointEqual_gte_q s = (ed_order \<le> qval s)"
proof -
  obtain s0 s1 s2 s3 s4 where S: "s = [s0, s1, s2, s3, s4]"
    "unat s0 < R56" "unat s1 < R56" "unat s2 < R56" "unat s3 < R56" "unat s4 < R56"
    using assms by (rule qlimbs_cases)
  have last: "dval (xs @ [x]) = dval xs + R56 ^ length xs * x" for xs x by (simp add: dval_append)
  have top: "(dval (ys @ [y]) \<le> dval (xs @ [x])) = (if y = x then dval ys \<le> dval xs else y < x)"
    if "length xs = length ys" "list_all (\<lambda>v. v < R56) xs" "list_all (\<lambda>v. v < R56) ys" for xs ys x y
    unfolding last using that dval_lt [of xs] dval_lt [of ys] by (simp add: digit_order)
  have c: "list_all (\<lambda>v. v < R56) [0x12631a5cf5d3ed, 0xf9dea2f79cd658, 0x14de, 0, 0x10000000]"
    by (simp add: R56_def)
  let ?c = "[0x12631a5cf5d3ed, 0xf9dea2f79cd658, 0x14de, 0, 0x10000000]"
  have o: "ed_order = dval ?c"
    using order_digits by (simp add: qval_def)
  have "(dval ?c \<le> qval s) = (if 0x10000000 = unat s4 then dval [0x12631a5cf5d3ed, 0xf9dea2f79cd658, 0x14de, 0] \<le> dval [unat s0, unat s1, unat s2, unat s3]
      else 0x10000000 < unat s4)"
    using top [of "[unat s0, unat s1, unat s2, unat s3]" "[0x12631a5cf5d3ed, 0xf9dea2f79cd658, 0x14de, 0]" "0x10000000" "unat s4"] c S(2-5)
    by (simp only: append.simps S(1) qval_def list.map list.pred_inject length_Cons simp_thms if_True)
  moreover have "(dval [0x12631a5cf5d3ed, 0xf9dea2f79cd658, 0x14de, 0] \<le> dval [unat s0, unat s1, unat s2, unat s3])
      = (if 0 = unat s3 then dval [0x12631a5cf5d3ed, 0xf9dea2f79cd658, 0x14de] \<le> dval [unat s0, unat s1, unat s2] else 0 < unat s3)"
    using top [of "[unat s0, unat s1, unat s2]" "[0x12631a5cf5d3ed, 0xf9dea2f79cd658, 0x14de]" 0 "unat s3"] c S(2-5)
    by (simp only: append.simps list.pred_inject length_Cons simp_thms if_True)
  moreover have "(dval [0x12631a5cf5d3ed, 0xf9dea2f79cd658, 0x14de] \<le> dval [unat s0, unat s1, unat s2])
      = (if 0x14de = unat s2 then dval [0x12631a5cf5d3ed, 0xf9dea2f79cd658] \<le> dval [unat s0, unat s1] else 0x14de < unat s2)"
    using top [of "[unat s0, unat s1]" "[0x12631a5cf5d3ed, 0xf9dea2f79cd658]" "0x14de" "unat s2"] c S(2-5)
    by (simp only: append.simps list.pred_inject length_Cons simp_thms if_True)
  moreover have "(dval [0x12631a5cf5d3ed, 0xf9dea2f79cd658] \<le> dval [unat s0, unat s1])
      = (if 0xf9dea2f79cd658 = unat s1 then 0x12631a5cf5d3ed \<le> unat s0 else 0xf9dea2f79cd658 < unat s1)"
    using top [of "[unat s0]" "[0x12631a5cf5d3ed]" "0xf9dea2f79cd658" "unat s1"] c S(2-5) by simp
  ultimately show ?thesis
    unfolding o S(1) Hacl_Impl_Ed25519_PointEqual_gte_q_def Let_def
    by (auto simp: word_less_nat_alt word_le_nat_alt word_unat_eq_iff)
qed

section \<open>Properties\<close>

text \<open>The order of the base point: any 64 bytes, such as a SHA-512 digest, are loaded, reduced by Barrett's method with the
  rounded reciprocal and a single final subtraction, and stored as the 32 little-endian bytes of their value modulo
  the order, without any overflow of a limb.\<close>

theorem hash_reduction_correct:
  assumes "length b = 64" "length t = 10" "length z = 5" "32 \<le> length out"
  shows "Hacl_Impl_Store56_store_56 out (Hacl_Impl_BignumQ_Mul_barrett_reduction z (Hacl_Impl_Load56_load_64_bytes t b))
    = nat_to_le 32 (le_nat b mod ed_order) @ drop 32 out"
proof -
  note l = load_64_bytes_correct [OF assms(1,2)]
  have "le_nat b < 2 ^ 512" using le_nat_lt [of b] assms(1) by simp
  then have "qval (Hacl_Impl_Load56_load_64_bytes t b) < 2 ^ 512" unfolding l(2) .
  note r = barrett_reduction_correct [OF l(1,3) this assms(3)]
  have "qval (Hacl_Impl_BignumQ_Mul_barrett_reduction' z (Hacl_Impl_Load56_load_64_bytes t b)) < ed_order"
    unfolding r(2) by (rule mod_less_divisor) (simp add: ed_order_def)
  also have "\<dots> < 2 ^ 256" by (simp add: ed_order_def)
  finally show ?thesis
    unfolding Hacl_Impl_BignumQ_Mul_barrett_reduction_def store_56_correct [OF r(1) _ assms(4)] r(2) l(2)
    by (simp add: store_56_correct [OF r(1) _ assms(4)] r(2) l(2))
qed

theorem hash_reduction_correct_witness:
  "Hacl_Impl_Store56_store_56 (replicate 32 0) (Hacl_Impl_BignumQ_Mul_barrett_reduction (replicate 5 0)
      (Hacl_Impl_Load56_load_64_bytes (replicate 10 0) (replicate 64 255))) = nat_to_le 32 ((2 ^ 512 - 1) mod ed_order)"
proof -
  have "le_nat (replicate k 255) + 1 = 256 ^ k" for k
    by (induction k) (simp_all flip: mask_eq_exp_minus_1)
  from this [of 64] have "le_nat (replicate 64 255) = 2 ^ 512 - 1" by simp
  then show ?thesis
    using hash_reduction_correct [of "replicate 64 255" "replicate 10 0" "replicate 5 0" "replicate 32 0"] by simp
qed

text \<open>The multiplication and addition behind the second half of a signature: for limbs below \<open>2 ^ 56\<close> whose product fits
  in 512 bits and a reduced summand, the five limbs computed stand for \<open>r + h * a\<close> modulo the order.\<close>

theorem scalar_muladd_correct:
  assumes "qlimbs 5 r" "qval r < ed_order" "qlimbs 5 h" "qlimbs 5 a" "qval h * qval a < 2 ^ 512" "length o1 = 5" "length o2 = 5"
  shows "qlimbs 5 (Hacl_Impl_BignumQ_Mul_add_modq o1 r (Hacl_Impl_BignumQ_Mul_mul_modq o2 h a))
    \<and> qval (Hacl_Impl_BignumQ_Mul_add_modq o1 r (Hacl_Impl_BignumQ_Mul_mul_modq o2 h a))
      = (qval r + qval h * qval a) mod ed_order"
proof -
  note m = mul_modq_correct [OF assms(3,4,5,7)]
  have "qval (Hacl_Impl_BignumQ_Mul_mul_modq o2 h a) < ed_order"
    unfolding m(2) by (rule mod_less_divisor) (simp add: ed_order_def)
  note s = add_modq_correct [OF assms(1,2) m(1) this assms(6)]
  show ?thesis
    using s(1) unfolding s(2) m(2) by (simp only: mod_add_right_eq simp_thms)
qed

theorem scalar_muladd_correct_witness:
  "qval (Hacl_Impl_BignumQ_Mul_add_modq (replicate 5 0) [5, 0, 0, 0, 0] (Hacl_Impl_BignumQ_Mul_mul_modq (replicate 5 0)
      [7, 0, 0, 0, 0] [3, 0, 0, 0, 0])) = 26"
proof -
  have v: "qlimbs 5 [c, 0, 0, 0, 0]" "qval [c, 0, 0, 0, 0] = unat c" if "unat c < 8" for c :: u64
    using that by (simp_all add: qlimbs_def qval_def R56_def)
  show ?thesis
    using scalar_muladd_correct [OF v(1) _ v(1) v(1), of 5 7 3 "replicate 5 0" "replicate 5 0"] v(2) [of 5] v(2) [of 7] v(2) [of 3]
    by (simp add: ed_order_def)
qed

end
