(* ===== verification/Hacl_Ed25519.thy ===== *)
theory Hacl_Ed25519
  imports Hacl_Ed25519_Decompress Hacl_BignumQ
begin

text \<open>
  Ed25519 signatures (\<^verbatim>\<open>Hacl_Ed25519.c\<close>): key expansion, public keys, hashing of a prefix and a message in pieces, signing
  and verification. The SHA-512 of the file is that of Hacl_SHA2_512. Signing works in one scratch buffer of bytes and
  one of words; a routine that is given a scratch buffer returns it.
\<close>

section \<open>Keys\<close>

definition Hacl_Impl_Ed25519_SecretExpand_secret_expand :: "bytes \<Rightarrow> bytes \<Rightarrow> bytes" where
  "Hacl_Impl_Ed25519_SecretExpand_secret_expand expanded secret =
     (let expanded = Hacl_SHA2_512_hash expanded secret 32;
          h_low0 = expanded ! 0;
          h_low31 = expanded ! 31;
          expanded = expanded[0 := h_low0 AND 0xf8]
      in expanded[31 := (h_low31 AND 127) OR 64])"

definition Hacl_Impl_Ed25519_SecretToPublic_point_mul_g :: "u64 list \<Rightarrow> bytes \<Rightarrow> u64 list" where
  "Hacl_Impl_Ed25519_SecretToPublic_point_mul_g result scalar =
     (let g1 = replicate 20 0;
          g1 = Hacl_Impl_Ed25519_G_make_g g1
      in Hacl_Impl_Ed25519_Ladder_point_mul result scalar g1)"

definition Hacl_Impl_Ed25519_SecretToPublic_secret_to_public' :: "bytes \<Rightarrow> bytes \<Rightarrow> bytes \<Rightarrow> bytes" where
  "Hacl_Impl_Ed25519_SecretToPublic_secret_to_public' out secret expanded_secret =
     (let a = expanded_secret;
          res = replicate 20 0;
          res = Hacl_Impl_Ed25519_SecretToPublic_point_mul_g res a
      in Hacl_Impl_Ed25519_PointCompress_point_compress out res)"

definition Hacl_Impl_Ed25519_SecretToPublic_secret_to_public :: "bytes \<Rightarrow> bytes \<Rightarrow> bytes" where
  "Hacl_Impl_Ed25519_SecretToPublic_secret_to_public out secret =
     (let expanded = replicate 64 0;
          expanded = Hacl_Impl_Ed25519_SecretExpand_secret_expand expanded secret
      in Hacl_Impl_Ed25519_SecretToPublic_secret_to_public' out secret expanded)"

section \<open>Hashing a prefix and a message\<close>

definition Hacl_Impl_SHA512_Ed25519_2_hash_block_and_rest :: "bytes \<Rightarrow> bytes \<Rightarrow> bytes \<Rightarrow> u32 \<Rightarrow> bytes" where
  "Hacl_Impl_SHA512_Ed25519_2_hash_block_and_rest out block msg len1 =
     (let nblocks = drop_bit 7 len1;
          rest = ucast (len1 AND 127);
          st = replicate 169 0;
          st = Hacl_Impl_SHA2_512_init st;
          st = Hacl_Impl_SHA2_512_update st block;
          st = Hacl_Impl_SHA2_512_update_multi st msg nblocks;
          st = Hacl_Impl_SHA2_512_update_last st (drop (unat (128 * nblocks)) msg) rest
      in Hacl_Impl_SHA2_512_finish st out)"

definition Hacl_Impl_SHA512_Ed25519_1_copy_bytes :: "bytes \<Rightarrow> bytes \<Rightarrow> u32 \<Rightarrow> bytes" where
  "Hacl_Impl_SHA512_Ed25519_1_copy_bytes output input len1 = blit output 0 (take (unat len1) input)"

definition Hacl_Impl_SHA512_Ed25519_1_concat_2 :: "bytes \<Rightarrow> bytes \<Rightarrow> bytes \<Rightarrow> u32 \<Rightarrow> bytes" where
  "Hacl_Impl_SHA512_Ed25519_1_concat_2 out pre msg len1 =
     (let out = Hacl_Impl_SHA512_Ed25519_1_copy_bytes out pre 32
      in at_off 32 (\<lambda>out. Hacl_Impl_SHA512_Ed25519_1_copy_bytes out msg len1) out)"

definition Hacl_Impl_SHA512_Ed25519_1_concat_3 :: "bytes \<Rightarrow> bytes \<Rightarrow> bytes \<Rightarrow> bytes \<Rightarrow> u32 \<Rightarrow> bytes" where
  "Hacl_Impl_SHA512_Ed25519_1_concat_3 out pre pre2 msg len1 =
     (let out = Hacl_Impl_SHA512_Ed25519_1_copy_bytes out pre 32;
          out = at_off 32 (\<lambda>out. Hacl_Impl_SHA512_Ed25519_1_copy_bytes out pre2 32) out
      in at_off 64 (\<lambda>out. Hacl_Impl_SHA512_Ed25519_1_copy_bytes out msg len1) out)"

definition Hacl_Impl_SHA512_Ed25519_1_sha512_pre_msg_1 :: "bytes \<Rightarrow> bytes \<Rightarrow> bytes \<Rightarrow> u32 \<Rightarrow> bytes" where
  "Hacl_Impl_SHA512_Ed25519_1_sha512_pre_msg_1 h prefix input len1 =
     (let block = replicate 128 0;
          block = Hacl_Impl_SHA512_Ed25519_1_concat_2 block prefix input len1
      in Hacl_Impl_SHA2_512_hash h block (len1 + 32))"

definition Hacl_Impl_SHA512_Ed25519_1_sha512_pre_pre2_msg_1 :: "bytes \<Rightarrow> bytes \<Rightarrow> bytes \<Rightarrow> bytes \<Rightarrow> u32 \<Rightarrow> bytes" where
  "Hacl_Impl_SHA512_Ed25519_1_sha512_pre_pre2_msg_1 h prefix prefix2 input len1 =
     (let block = replicate 128 0;
          block = Hacl_Impl_SHA512_Ed25519_1_concat_3 block prefix prefix2 input len1
      in Hacl_Impl_SHA2_512_hash h block (len1 + 64))"

definition Hacl_Impl_SHA512_Ed25519_3_sha512_pre_msg_2 :: "bytes \<Rightarrow> bytes \<Rightarrow> bytes \<Rightarrow> u32 \<Rightarrow> bytes" where
  "Hacl_Impl_SHA512_Ed25519_3_sha512_pre_msg_2 h prefix input len1 =
     (let input11 = input;
          input21 = drop 96 input;
          block = replicate 128 0;
          block = Hacl_Impl_SHA512_Ed25519_1_concat_2 block prefix input11 96
      in Hacl_Impl_SHA512_Ed25519_2_hash_block_and_rest h block input21 (len1 - 96))"

definition Hacl_Impl_SHA512_Ed25519_3_sha512_pre_msg :: "bytes \<Rightarrow> bytes \<Rightarrow> bytes \<Rightarrow> u32 \<Rightarrow> bytes" where
  "Hacl_Impl_SHA512_Ed25519_3_sha512_pre_msg h prefix input len1 =
     (if len1 \<le> 96 then Hacl_Impl_SHA512_Ed25519_1_sha512_pre_msg_1 h prefix input len1
      else Hacl_Impl_SHA512_Ed25519_3_sha512_pre_msg_2 h prefix input len1)"

definition Hacl_Impl_SHA512_Ed25519_3_sha512_pre_pre2_msg_2 :: "bytes \<Rightarrow> bytes \<Rightarrow> bytes \<Rightarrow> bytes \<Rightarrow> u32 \<Rightarrow> bytes" where
  "Hacl_Impl_SHA512_Ed25519_3_sha512_pre_pre2_msg_2 h prefix prefix2 input len1 =
     (let input11 = input;
          input21 = drop 64 input;
          block = replicate 128 0;
          block = Hacl_Impl_SHA512_Ed25519_1_concat_3 block prefix prefix2 input11 64
      in Hacl_Impl_SHA512_Ed25519_2_hash_block_and_rest h block input21 (len1 - 64))"

definition Hacl_Impl_SHA512_Ed25519_3_sha512_pre_pre2_msg :: "bytes \<Rightarrow> bytes \<Rightarrow> bytes \<Rightarrow> bytes \<Rightarrow> u32 \<Rightarrow> bytes" where
  "Hacl_Impl_SHA512_Ed25519_3_sha512_pre_pre2_msg h prefix prefix2 input len1 =
     (if len1 \<le> 64 then Hacl_Impl_SHA512_Ed25519_1_sha512_pre_pre2_msg_1 h prefix prefix2 input len1
      else Hacl_Impl_SHA512_Ed25519_3_sha512_pre_pre2_msg_2 h prefix prefix2 input len1)"

definition Hacl_Impl_SHA512_Ed25519_sha512_pre_msg :: "bytes \<Rightarrow> bytes \<Rightarrow> bytes \<Rightarrow> u32 \<Rightarrow> bytes" where
  "Hacl_Impl_SHA512_Ed25519_sha512_pre_msg h prefix input len1 =
     Hacl_Impl_SHA512_Ed25519_3_sha512_pre_msg h prefix input len1"

definition Hacl_Impl_SHA512_Ed25519_sha512_pre_pre2_msg :: "bytes \<Rightarrow> bytes \<Rightarrow> bytes \<Rightarrow> bytes \<Rightarrow> u32 \<Rightarrow> bytes" where
  "Hacl_Impl_SHA512_Ed25519_sha512_pre_pre2_msg h prefix prefix2 input len1 =
     Hacl_Impl_SHA512_Ed25519_3_sha512_pre_pre2_msg h prefix prefix2 input len1"

definition Hacl_Impl_Sha512_sha512_pre_msg :: "bytes \<Rightarrow> bytes \<Rightarrow> bytes \<Rightarrow> u32 \<Rightarrow> bytes" where
  "Hacl_Impl_Sha512_sha512_pre_msg h prefix input len1 = Hacl_Impl_SHA512_Ed25519_sha512_pre_msg h prefix input len1"

definition Hacl_Impl_Sha512_sha512_pre_pre2_msg :: "bytes \<Rightarrow> bytes \<Rightarrow> bytes \<Rightarrow> bytes \<Rightarrow> u32 \<Rightarrow> bytes" where
  "Hacl_Impl_Sha512_sha512_pre_pre2_msg h prefix prefix2 input len1 =
     Hacl_Impl_SHA512_Ed25519_sha512_pre_pre2_msg h prefix prefix2 input len1"

definition Hacl_Impl_SHA512_ModQ_sha512_modq_pre' ::
  "u64 list \<Rightarrow> bytes \<Rightarrow> bytes \<Rightarrow> u32 \<Rightarrow> u64 list \<Rightarrow> u64 list \<times> u64 list" where
  "Hacl_Impl_SHA512_ModQ_sha512_modq_pre' out prefix input len1 tmp =
     (let hash1 = replicate 64 0;
          hash1 = Hacl_Impl_Sha512_sha512_pre_msg hash1 prefix input len1;
          tmp = Hacl_Impl_Load56_load_64_bytes tmp hash1
      in (Hacl_Impl_BignumQ_Mul_barrett_reduction out tmp, tmp))"

definition Hacl_Impl_SHA512_ModQ_sha512_modq_pre :: "u64 list \<Rightarrow> bytes \<Rightarrow> bytes \<Rightarrow> u32 \<Rightarrow> u64 list" where
  "Hacl_Impl_SHA512_ModQ_sha512_modq_pre out prefix input len1 =
     (let tmp = replicate 10 0
      in fst (Hacl_Impl_SHA512_ModQ_sha512_modq_pre' out prefix input len1 tmp))"

definition Hacl_Impl_SHA512_ModQ_sha512_modq_pre_pre2' ::
  "u64 list \<Rightarrow> bytes \<Rightarrow> bytes \<Rightarrow> bytes \<Rightarrow> u32 \<Rightarrow> u64 list \<Rightarrow> u64 list \<times> u64 list" where
  "Hacl_Impl_SHA512_ModQ_sha512_modq_pre_pre2' out prefix prefix2 input len1 tmp =
     (let hash1 = replicate 64 0;
          hash1 = Hacl_Impl_Sha512_sha512_pre_pre2_msg hash1 prefix prefix2 input len1;
          tmp = Hacl_Impl_Load56_load_64_bytes tmp hash1
      in (Hacl_Impl_BignumQ_Mul_barrett_reduction out tmp, tmp))"

definition Hacl_Impl_SHA512_ModQ_sha512_modq_pre_pre2 :: "u64 list \<Rightarrow> bytes \<Rightarrow> bytes \<Rightarrow> bytes \<Rightarrow> u32 \<Rightarrow> u64 list" where
  "Hacl_Impl_SHA512_ModQ_sha512_modq_pre_pre2 out prefix prefix2 input len1 =
     (let tmp = replicate 10 0
      in fst (Hacl_Impl_SHA512_ModQ_sha512_modq_pre_pre2' out prefix prefix2 input len1 tmp))"

section \<open>Verification\<close>

definition Hacl_Impl_Ed25519_Verify_Steps_verify_step_1 :: "u64 list \<Rightarrow> bytes \<Rightarrow> bool \<times> u64 list" where
  "Hacl_Impl_Ed25519_Verify_Steps_verify_step_1 r' signature =
     (let rs = signature
      in Hacl_Impl_Ed25519_PointDecompress_point_decompress r' rs)"

definition Hacl_Impl_Ed25519_Verify_Steps_verify_step_2 :: "bytes \<Rightarrow> bytes \<Rightarrow> u32 \<Rightarrow> bytes \<Rightarrow> bytes \<Rightarrow> bytes" where
  "Hacl_Impl_Ed25519_Verify_Steps_verify_step_2 r msg len1 rs public =
     (let r' = replicate 5 0;
          r' = Hacl_Impl_SHA512_ModQ_sha512_modq_pre_pre2 r' rs public msg len1
      in Hacl_Impl_Store56_store_56 r r')"

definition Hacl_Impl_Ed25519_Verify_Steps_point_mul_g :: "u64 list \<Rightarrow> bytes \<Rightarrow> u64 list" where
  "Hacl_Impl_Ed25519_Verify_Steps_point_mul_g result scalar =
     (let g1 = replicate 20 0;
          g1 = Hacl_Impl_Ed25519_G_make_g g1
      in Hacl_Impl_Ed25519_Ladder_point_mul result scalar g1)"

definition Hacl_Impl_Ed25519_Verify_Steps_verify_step_4 :: "bytes \<Rightarrow> bytes \<Rightarrow> u64 list \<Rightarrow> u64 list \<Rightarrow> bool" where
  "Hacl_Impl_Ed25519_Verify_Steps_verify_step_4 s h' a' r' =
     (let tmp = replicate 60 0;
          hA = slice 0 20 tmp;
          rhA = slice 20 20 tmp;
          sB = slice 40 20 tmp;
          sB = Hacl_Impl_Ed25519_Verify_Steps_point_mul_g sB s;
          hA = Hacl_Impl_Ed25519_Ladder_point_mul hA h' a';
          rhA = Hacl_Impl_Ed25519_PointAdd_point_add rhA r' hA
      in Hacl_Impl_Ed25519_PointEqual_point_equal sB rhA)"

text \<open>The scratch buffers of the next routine belong to its only caller, which does not read them afterwards.\<close>

definition Hacl_Impl_Ed25519_Verify_verify'' :: "bytes \<Rightarrow> bytes \<Rightarrow> u32 \<Rightarrow> bytes \<Rightarrow> u64 list \<Rightarrow> bytes \<Rightarrow> bool" where
  "Hacl_Impl_Ed25519_Verify_verify'' public msg len1 signature tmp tmp' =
     (let a' = slice 0 20 tmp;
          r' = slice 20 20 tmp;
          s = slice 40 5 tmp;
          h' = tmp';
          (b, a') = Hacl_Impl_Ed25519_PointDecompress_point_decompress a' public
      in if b then
           let rs = signature;
               (b', r') = Hacl_Impl_Ed25519_Verify_Steps_verify_step_1 r' signature
           in if b' then
                let s = Hacl_Impl_Load56_load_32_bytes s (drop 32 signature);
                    b'' = Hacl_Impl_Ed25519_PointEqual_gte_q s
                in if b'' then False
                   else
                     let h' = Hacl_Impl_Ed25519_Verify_Steps_verify_step_2 h' msg len1 rs public
                     in Hacl_Impl_Ed25519_Verify_Steps_verify_step_4 (drop 32 signature) h' a' r'
              else False
         else False)"

definition Hacl_Impl_Ed25519_Verify_verify' :: "bytes \<Rightarrow> bytes \<Rightarrow> u32 \<Rightarrow> bytes \<Rightarrow> bool" where
  "Hacl_Impl_Ed25519_Verify_verify' public msg len1 signature =
     (let tmp = replicate 45 0;
          tmp' = replicate 32 0
      in Hacl_Impl_Ed25519_Verify_verify'' public msg len1 signature tmp tmp')"

definition Hacl_Impl_Ed25519_Verify_verify :: "bytes \<Rightarrow> bytes \<Rightarrow> u32 \<Rightarrow> bytes \<Rightarrow> bool" where
  "Hacl_Impl_Ed25519_Verify_verify public msg len1 signature =
     Hacl_Impl_Ed25519_Verify_verify' public msg len1 signature"

section \<open>Signing\<close>

definition Hacl_Impl_Ed25519_Sign_Steps_point_mul_g :: "u64 list \<Rightarrow> bytes \<Rightarrow> u64 list" where
  "Hacl_Impl_Ed25519_Sign_Steps_point_mul_g result scalar =
     (let g1 = replicate 20 0;
          g1 = Hacl_Impl_Ed25519_G_make_g g1
      in Hacl_Impl_Ed25519_Ladder_point_mul result scalar g1)"

definition Hacl_Impl_Ed25519_Sign_Steps_point_mul_g_compress :: "bytes \<Rightarrow> bytes \<Rightarrow> bytes" where
  "Hacl_Impl_Ed25519_Sign_Steps_point_mul_g_compress out s =
     (let tmp = replicate 20 0;
          tmp = Hacl_Impl_Ed25519_Sign_Steps_point_mul_g tmp s
      in Hacl_Impl_Ed25519_PointCompress_point_compress out tmp)"

definition Hacl_Impl_Ed25519_Sign_Steps_copy_bytes :: "bytes \<Rightarrow> bytes \<Rightarrow> u32 \<Rightarrow> bytes" where
  "Hacl_Impl_Ed25519_Sign_Steps_copy_bytes output input len1 = blit output 0 (take (unat len1) input)"

definition Hacl_Impl_Ed25519_Sign_Steps_sign_step_1 :: "bytes \<Rightarrow> bytes \<Rightarrow> bytes" where
  "Hacl_Impl_Ed25519_Sign_Steps_sign_step_1 secret tmp_bytes =
     (let tmp_bytes = at_off 224 (\<lambda>apre. Hacl_Impl_Ed25519_SecretExpand_secret_expand apre secret) tmp_bytes;
          a = drop 224 tmp_bytes
      in at_off 96 (\<lambda>a''. Hacl_Impl_Ed25519_Sign_Steps_point_mul_g_compress a'' a) tmp_bytes)"

definition Hacl_Impl_Ed25519_Sign_Steps_sign_step_2 :: "bytes \<Rightarrow> u32 \<Rightarrow> bytes \<Rightarrow> u64 list \<Rightarrow> u64 list" where
  "Hacl_Impl_Ed25519_Sign_Steps_sign_step_2 msg len1 tmp_bytes tmp_ints =
     (let r = slice 20 5 tmp_ints;
          apre = drop 224 tmp_bytes;
          prefix = drop 32 apre;
          r = Hacl_Impl_SHA512_ModQ_sha512_modq_pre r prefix msg len1
      in blit tmp_ints 20 r)"

definition Hacl_Impl_Ed25519_Sign_Steps_sign_step_4 :: "bytes \<Rightarrow> u32 \<Rightarrow> bytes \<Rightarrow> u64 list \<Rightarrow> u64 list" where
  "Hacl_Impl_Ed25519_Sign_Steps_sign_step_4 msg len1 tmp_bytes tmp_ints =
     (let h = slice 60 5 tmp_ints;
          a'' = drop 96 tmp_bytes;
          rs' = drop 160 tmp_bytes;
          h = Hacl_Impl_SHA512_ModQ_sha512_modq_pre_pre2 h rs' a'' msg len1
      in blit tmp_ints 60 h)"

definition Hacl_Impl_Ed25519_Sign_Steps_sign_step_5 :: "bytes \<Rightarrow> u64 list \<Rightarrow> bytes \<times> u64 list" where
  "Hacl_Impl_Ed25519_Sign_Steps_sign_step_5 tmp_bytes tmp_ints =
     (let r = slice 20 5 tmp_ints;
          aq = slice 45 5 tmp_ints;
          ha = slice 50 5 tmp_ints;
          s = slice 55 5 tmp_ints;
          h = slice 60 5 tmp_ints;
          a = drop 224 tmp_bytes;
          aq = Hacl_Impl_Load56_load_32_bytes aq a;
          ha = Hacl_Impl_BignumQ_Mul_mul_modq ha h aq;
          s = Hacl_Impl_BignumQ_Mul_add_modq s r ha;
          tmp_bytes = at_off 192 (\<lambda>s'. Hacl_Impl_Store56_store_56 s' s) tmp_bytes
      in (tmp_bytes, blit tmp_ints 45 (aq @ ha @ s)))"

definition Hacl_Impl_Ed25519_Sign_append_to_sig :: "bytes \<Rightarrow> bytes \<Rightarrow> bytes \<Rightarrow> bytes" where
  "Hacl_Impl_Ed25519_Sign_append_to_sig signature a b =
     (let signature = Hacl_Impl_Ed25519_Sign_Steps_copy_bytes signature a 32
      in at_off 32 (\<lambda>s. Hacl_Impl_Ed25519_Sign_Steps_copy_bytes s b 32) signature)"

definition Hacl_Impl_Ed25519_Sign_sign' :: "bytes \<Rightarrow> bytes \<Rightarrow> bytes \<Rightarrow> u32 \<Rightarrow> bytes" where
  "Hacl_Impl_Ed25519_Sign_sign' signature secret msg len1 =
     (let tmp_bytes = replicate 352 0;
          tmp_ints = replicate 65 0;
          tmp_bytes = Hacl_Impl_Ed25519_Sign_Steps_sign_step_1 secret tmp_bytes;
          tmp_ints = Hacl_Impl_Ed25519_Sign_Steps_sign_step_2 msg len1 tmp_bytes tmp_ints;
          rb = replicate 32 0;
          r = drop 20 tmp_ints;
          rb = Hacl_Impl_Store56_store_56 rb r;
          tmp_bytes = at_off 160 (\<lambda>rs_0. Hacl_Impl_Ed25519_Sign_Steps_point_mul_g_compress rs_0 rb) tmp_bytes;
          tmp_ints = Hacl_Impl_Ed25519_Sign_Steps_sign_step_4 msg len1 tmp_bytes tmp_ints;
          (tmp_bytes, tmp_ints) = Hacl_Impl_Ed25519_Sign_Steps_sign_step_5 tmp_bytes tmp_ints;
          rs' = drop 160 tmp_bytes;
          s' = drop 192 tmp_bytes
      in Hacl_Impl_Ed25519_Sign_append_to_sig signature rs' s')"

definition Hacl_Impl_Ed25519_Sign_sign :: "bytes \<Rightarrow> bytes \<Rightarrow> bytes \<Rightarrow> u32 \<Rightarrow> bytes" where
  "Hacl_Impl_Ed25519_Sign_sign signature secret msg len1 = Hacl_Impl_Ed25519_Sign_sign' signature secret msg len1"

definition Hacl_Ed25519_sign :: "bytes \<Rightarrow> bytes \<Rightarrow> bytes \<Rightarrow> u32 \<Rightarrow> bytes" where
  "Hacl_Ed25519_sign signature secret msg len1 = Hacl_Impl_Ed25519_Sign_sign signature secret msg len1"

definition Hacl_Ed25519_verify :: "bytes \<Rightarrow> bytes \<Rightarrow> u32 \<Rightarrow> bytes \<Rightarrow> bool" where
  "Hacl_Ed25519_verify public msg len1 signature = Hacl_Impl_Ed25519_Verify_verify public msg len1 signature"

definition Hacl_Ed25519_secret_to_public :: "bytes \<Rightarrow> bytes \<Rightarrow> bytes" where
  "Hacl_Ed25519_secret_to_public out secret = Hacl_Impl_Ed25519_SecretToPublic_secret_to_public out secret"


section \<open>Scalar multiplication by byte strings\<close>

lemma loop_step_take:
  "unat i < 256 \<Longrightarrow> Hacl_Impl_Ed25519_Ladder_Step_loop_step b (take 32 k) i = Hacl_Impl_Ed25519_Ladder_Step_loop_step b k i"
proof -
  assume "unat i < 256"
  then have "unat (drop_bit 3 i) < 32" by (simp add: unat_drop_bit)
  then show ?thesis
    by (simp add: Hacl_Impl_Ed25519_Ladder_Step_loop_step_def Hacl_Impl_Ed25519_Ladder_Step_loop_step_1_def
        Hacl_Impl_Ed25519_Ladder_Step_loop_step_2_def Hacl_Impl_Ed25519_Ladder_Step_loop_step_3_def
        Hacl_Impl_Ed25519_Ladder_Step_ith_bit_def Let_def)
qed

lemma point_mul_take:
  "Hacl_Impl_Ed25519_Ladder_point_mul out (take 32 k) q = Hacl_Impl_Ed25519_Ladder_point_mul out k q"
proof -
  have *: "unat ((256 :: u32) - word_of_nat i - 1) < 256" if "i < 256" for i
  proof -
    have e: "(256 :: u32) - word_of_nat i - 1 = word_of_nat (255 - i)"
      using that by (simp add: of_nat_diff)
    show ?thesis unfolding e by (simp add: unat_of_nat)
  qed
  then have "Hacl_Impl_Ed25519_Ladder_point_mul' b (take 32 k) = Hacl_Impl_Ed25519_Ladder_point_mul' b k" for b
    unfolding Hacl_Impl_Ed25519_Ladder_point_mul'_def by (intro for_range_cong loop_step_take *)
  then show ?thesis
    by (simp add: Hacl_Impl_Ed25519_Ladder_point_mul_def)
qed

lemma point_mul_correct:
  assumes "ext_rep q Q" "32 \<le> length k" "length out = 20"
  shows "ext_rep (Hacl_Impl_Ed25519_Ladder_point_mul out k q) (ed_mul (take 32 k) Q)"
  using point_mul_rep [OF assms(1) _ assms(3), of "take 32 k"] assms(2) by (simp add: point_mul_take)

text \<open>The three copies of the multiplication of the base point.\<close>

lemma point_mul_g_copies:
  "Hacl_Impl_Ed25519_Verify_Steps_point_mul_g = Hacl_Impl_Ed25519_SecretToPublic_point_mul_g"
  "Hacl_Impl_Ed25519_Sign_Steps_point_mul_g = Hacl_Impl_Ed25519_SecretToPublic_point_mul_g"
  by (simp_all add: fun_eq_iff Hacl_Impl_Ed25519_Verify_Steps_point_mul_g_def Hacl_Impl_Ed25519_Sign_Steps_point_mul_g_def
      Hacl_Impl_Ed25519_SecretToPublic_point_mul_g_def)

lemma point_mul_g_correct:
  assumes "32 \<le> length k" "length out = 20"
  shows "ext_rep (Hacl_Impl_Ed25519_SecretToPublic_point_mul_g out k) (ed_mul (take 32 k) ed_base)"
  unfolding Hacl_Impl_Ed25519_SecretToPublic_point_mul_g_def Let_def
  by (intro point_mul_correct make_g_rep assms) simp

lemma length_ed_compress [simp]: "length (ed_compress p) = 32"
  by (simp add: ed_compress_def case_prod_beta Let_def)

lemma mul_g_compress_eq:
  assumes "32 \<le> length k" "32 \<le> length out"
  shows "Hacl_Impl_Ed25519_Sign_Steps_point_mul_g_compress out k = ed_compress (ed_mul (take 32 k) ed_base) @ drop 32 out"
  unfolding Hacl_Impl_Ed25519_Sign_Steps_point_mul_g_compress_def Let_def point_mul_g_copies
  by (intro point_compress_eq point_mul_g_correct assms) simp

section \<open>Keys are as specified\<close>

lemma length_sha2_hash:
  assumes "length (initial_hash p) = 8"
  shows "length (sha2_hash p words b l m) = 8"
proof -
  have "length (foldl (\<lambda>h x. compress p h (words x)) h xs) = 8" if "length h = 8" for h xs
    using that by (induction xs arbitrary: h) simp_all
  then show ?thesis using assms by (simp add: sha2_hash_def Let_def)
qed

lemma length_sha512 [simp]: "length (sha512 m) = 64"
proof -
  have "length (sha2_hash SHA512 (words64_be 16) 128 16 m) = 8"
    by (rule length_sha2_hash) (simp add: SHA512_def length_K512)
  then show ?thesis
    by (simp add: sha512_def bytes64_be_def length_concat comp_def sum_list_triv)
qed

lemma length_ed_expand [simp]: "length (fst (ed_expand s)) = 32" "length (snd (ed_expand s)) = 32"
  by (simp_all add: ed_expand_def Let_def)

lemma secret_expand_eq:
  assumes "64 \<le> length e" "32 \<le> length secret"
  shows "Hacl_Impl_Ed25519_SecretExpand_secret_expand e secret
    = fst (ed_expand secret) @ snd (ed_expand secret) @ drop 64 e"
proof -
  define h where "h = sha512 (take 32 secret)"
  define u v where "u = take 32 h" "v = drop 32 h"
  have h: "h = u @ v" "length u = 32" "h ! 0 = u ! 0" "h ! 31 = u ! 31"
    by (simp_all add: u_v_def h_def)
  have "Hacl_SHA2_512_hash e secret 32 = u @ v @ drop 64 e"
    using sha512_hash_eq [of 32 secret e] assms h(1) by (simp add: Hacl_SHA2_512_hash_def flip: h_def)
  then show ?thesis
    by (simp add: Hacl_Impl_Ed25519_SecretExpand_secret_expand_def ed_expand_def Let_def list_update_append nth_append h(2-4)
        flip: h_def u_v_def)
qed

lemma secret_to_public_eq:
  assumes "32 \<le> length out" "32 \<le> length secret"
  shows "Hacl_Ed25519_secret_to_public out secret = ed_public secret @ drop 32 out"
proof -
  let ?k = "fst (ed_expand secret) @ snd (ed_expand secret)"
  have "Hacl_Impl_Ed25519_SecretExpand_secret_expand (replicate 64 0) secret = ?k"
    using secret_expand_eq [of "replicate 64 0" secret] assms(2) by simp
  moreover have "ext_rep (Hacl_Impl_Ed25519_SecretToPublic_point_mul_g (replicate 20 0) ?k) (ed_mul (take 32 ?k) ed_base)"
    by (rule point_mul_g_correct) simp_all
  from point_compress_eq [OF this assms(1)]
  have "Hacl_Impl_Ed25519_PointCompress_point_compress out (Hacl_Impl_Ed25519_SecretToPublic_point_mul_g (replicate 20 0) ?k)
    = ed_public secret @ drop 32 out"
    by (simp add: ed_public_def)
  ultimately show ?thesis
    by (simp add: Hacl_Ed25519_secret_to_public_def Hacl_Impl_Ed25519_SecretToPublic_secret_to_public_def
        Hacl_Impl_Ed25519_SecretToPublic_secret_to_public'_def Let_def)
qed

section \<open>Hashing in pieces is hashing the concatenation\<close>

lemma hash_block_and_rest_eq:
  assumes "128 \<le> length block" "unat len \<le> length msg" "64 \<le> length out"
  shows "Hacl_Impl_SHA512_Ed25519_2_hash_block_and_rest out block msg len
    = sha512 (take 128 block @ take (unat len) msg) @ drop 64 out"
proof -
  define n r where "n = unat len div 128" "r = unat len mod 128"
  have len: "unat len = 128 * n + r" "r < 128" by (simp_all add: n_r_def)
  have lt: "unat len < 2 ^ 32" using unat_lt_word [of len] by simp
  have m: "(127 :: u32) = mask 7" by (simp add: mask_eq_exp_minus_1)
  have w: "unat (drop_bit 7 len) = n" "unat (ucast (len AND 127) :: u64) = r"
    unfolding m by (simp_all add: unat_drop_bit drop_bit_eq_div n_r_def unat_ucast_up unat_and_mask unat_div_distrib)
  have off: "unat (128 * drop_bit 7 len) = 128 * n"
    using lt len by (simp add: unat_mult_small w)
  define i where "i = Hacl_Impl_SHA2_512_init (replicate 169 0)"
  note i = sha512_init_state [of "replicate 169 0", folded i_def, simplified]
  define s1 where "s1 = Hacl_Impl_SHA2_512_update i block"
  note s1 = sha512_update_state [OF i(1) assms(1), folded s1_def, unfolded i(2,3)]
  define s2 where "s2 = Hacl_Impl_SHA2_512_update_multi s1 msg (drop_bit 7 len)"
  let ?m1 = "take 128 block @ take (128 * n) msg"
  have s2: "Hacl_SHA2_512.state_ok s2"
    "Hacl_SHA2_512.state_hash s2 = foldl Hacl_SHA2_512.block_step (Hacl_SHA2_512.block_step H512 (take 128 block)) (blocks 128 n msg)"
    "Hacl_SHA2_512.state_count s2 = 1 + word_of_nat n"
    using sha512.multi_correct [OF s1(1), of n msg] assms(2) len lt s1(2,3)
    unfolding s2_def sha512_update_multi_eq w by simp_all
  define s3 where "s3 = Hacl_Impl_SHA2_512_update_last s2 (drop (128 * n) msg) (ucast (len AND 127))"
  have "Hacl_SHA2_512.state_ok s3 \<and> Hacl_SHA2_512.state_hash s3
      = sha2_hash (SHA512\<lparr>initial_hash := H512\<rparr>) (words64_be 16) 128 16
          (?m1 @ take (unat (ucast (len AND 127) :: u64)) (drop (128 * n) msg))"
    unfolding s3_def
  proof (rule last_hash_eq [where n = "Suc n"])
    have "blocks 128 (1 + n) ?m1 = take 128 block # blocks 128 n msg"
      using assms(1) by (simp add: blocks_append blocks_take)
    then have "blocks 128 (Suc n) ?m1 = take 128 block # blocks 128 n msg" by (simp only: plus_1_eq_Suc)
    then show "Hacl_SHA2_512.state_hash s2 = foldl Hacl_SHA2_512.block_step H512 (blocks 128 (Suc n) ?m1)"
      by (simp only: s2 foldl_Cons)
  qed (use assms(1,2) len lt w s2 in simp_all)
  moreover have "?m1 @ take r (drop (128 * n) msg) = take 128 block @ take (unat len) msg"
    by (simp only: len(1) take_add append_assoc)
  ultimately have s3: "Hacl_SHA2_512.state_ok s3"
    "bytes64_be (Hacl_SHA2_512.state_hash s3) = sha512 (take 128 block @ take (unat len) msg)"
    by (simp_all add: w sha512_def)
  have "Hacl_Impl_SHA512_Ed25519_2_hash_block_and_rest out block msg len = Hacl_Impl_SHA2_512_finish s3 out"
    by (simp add: Hacl_Impl_SHA512_Ed25519_2_hash_block_and_rest_def Let_def off flip: i_def s1_def s2_def s3_def)
  also have "length s3 = 169" using s3(1) by (simp add: Hacl_SHA2_512.state_ok_def)
  ultimately show ?thesis using assms(3) s3(2) by (simp add: sha512_finish_eq)
qed

lemma at_off_append: "n = length x \<Longrightarrow> at_off n f (x @ y) = x @ f y"
  by (simp add: at_off_def)

lemma concat_2_eq:
  assumes "32 \<le> length pre" "unat len \<le> 96" "unat len \<le> length msg"
  shows "Hacl_Impl_SHA512_Ed25519_1_concat_2 (replicate 128 0) pre msg len
    = take 32 pre @ take (unat len) msg @ replicate (96 - unat len) 0"
  using assms by (simp add: Hacl_Impl_SHA512_Ed25519_1_concat_2_def Hacl_Impl_SHA512_Ed25519_1_copy_bytes_def Let_def
      blit_0 at_off_append)

lemma concat_3_eq:
  assumes "32 \<le> length pre" "32 \<le> length pre2" "unat len \<le> 64" "unat len \<le> length msg"
  shows "Hacl_Impl_SHA512_Ed25519_1_concat_3 (replicate 128 0) pre pre2 msg len
    = take 32 pre @ take 32 pre2 @ take (unat len) msg @ replicate (64 - unat len) 0"
proof -
  have "at_off 64 f (take 32 pre @ take 32 pre2 @ y) = take 32 pre @ take 32 pre2 @ f y" for f :: "bytes \<Rightarrow> bytes" and y
    using at_off_append [of 64 "take 32 pre @ take 32 pre2"] assms(1,2) by simp
  then show ?thesis
    using assms by (simp add: Hacl_Impl_SHA512_Ed25519_1_concat_3_def Hacl_Impl_SHA512_Ed25519_1_copy_bytes_def Let_def
        blit_0 at_off_append)
qed

lemma pre_msg_eq:
  assumes "32 \<le> length pre" "unat len \<le> length msg" "64 \<le> length h"
  shows "Hacl_Impl_Sha512_sha512_pre_msg h pre msg len = sha512 (take 32 pre @ take (unat len) msg) @ drop 64 h"
proof (cases "len \<le> 96")
  case True
  then have l: "unat len \<le> 96" by (simp add: word_le_nat_alt)
  then have "unat (len + 32) = 32 + unat len" by (simp add: unat_add_small)
  then show ?thesis
    using True l assms sha512_hash_eq [of "len + 32" "take 32 pre @ take (unat len) msg @ replicate (96 - unat len) 0" h]
    by (simp add: Hacl_Impl_Sha512_sha512_pre_msg_def Hacl_Impl_SHA512_Ed25519_sha512_pre_msg_def
        Hacl_Impl_SHA512_Ed25519_3_sha512_pre_msg_def Hacl_Impl_SHA512_Ed25519_1_sha512_pre_msg_1_def concat_2_eq min_def)
next
  case False
  then have l: "96 < unat len" "unat (len - 96) = unat len - 96"
    by (simp_all add: word_le_nat_alt unat_sub not_le)
  then have "take (unat len) msg = take 96 msg @ take (unat len - 96) (drop 96 msg)"
    using take_add [of 96 "unat len - 96" msg] by simp
  then show ?thesis
    using False l assms hash_block_and_rest_eq [of "take 32 pre @ take 96 msg" "len - 96" "drop 96 msg" h]
    by (simp add: Hacl_Impl_Sha512_sha512_pre_msg_def Hacl_Impl_SHA512_Ed25519_sha512_pre_msg_def
        Hacl_Impl_SHA512_Ed25519_3_sha512_pre_msg_def Hacl_Impl_SHA512_Ed25519_3_sha512_pre_msg_2_def concat_2_eq)
qed

lemma pre_pre2_msg_eq:
  assumes "32 \<le> length pre" "32 \<le> length pre2" "unat len \<le> length msg" "64 \<le> length h"
  shows "Hacl_Impl_Sha512_sha512_pre_pre2_msg h pre pre2 msg len
    = sha512 (take 32 pre @ take 32 pre2 @ take (unat len) msg) @ drop 64 h"
proof (cases "len \<le> 64")
  case True
  then have l: "unat len \<le> 64" by (simp add: word_le_nat_alt)
  then have "unat (len + 64) = 64 + unat len" by (simp add: unat_add_small)
  then show ?thesis
    using True l assms
      sha512_hash_eq [of "len + 64" "take 32 pre @ take 32 pre2 @ take (unat len) msg @ replicate (64 - unat len) 0" h]
    by (simp add: Hacl_Impl_Sha512_sha512_pre_pre2_msg_def Hacl_Impl_SHA512_Ed25519_sha512_pre_pre2_msg_def
        Hacl_Impl_SHA512_Ed25519_3_sha512_pre_pre2_msg_def Hacl_Impl_SHA512_Ed25519_1_sha512_pre_pre2_msg_1_def concat_3_eq min_def)
next
  case False
  then have l: "64 < unat len" "unat (len - 64) = unat len - 64"
    by (simp_all add: word_le_nat_alt unat_sub not_le)
  then have "take (unat len) msg = take 64 msg @ take (unat len - 64) (drop 64 msg)"
    using take_add [of 64 "unat len - 64" msg] by simp
  then show ?thesis
    using False l assms hash_block_and_rest_eq [of "take 32 pre @ take 32 pre2 @ take 64 msg" "len - 64" "drop 64 msg" h]
    by (simp add: Hacl_Impl_Sha512_sha512_pre_pre2_msg_def Hacl_Impl_SHA512_Ed25519_sha512_pre_pre2_msg_def
        Hacl_Impl_SHA512_Ed25519_3_sha512_pre_pre2_msg_def Hacl_Impl_SHA512_Ed25519_3_sha512_pre_pre2_msg_2_def concat_3_eq)
qed

lemma ed_order_pos: "0 < ed_order" and ed_order_lt: "ed_order < 2 ^ 253"
  by (simp_all add: ed_order_def)

lemma sha512_mod_order_lt: "sha512_mod_order m < ed_order"
  unfolding sha512_mod_order_def by (rule mod_less_divisor) (rule ed_order_pos)

lemma digest_reduced:
  assumes "length out = 5"
  shows "qlimbs 5 (Hacl_Impl_BignumQ_Mul_barrett_reduction out (Hacl_Impl_Load56_load_64_bytes (replicate 10 0) (sha512 m)))"
    "qval (Hacl_Impl_BignumQ_Mul_barrett_reduction out (Hacl_Impl_Load56_load_64_bytes (replicate 10 0) (sha512 m)))
      = sha512_mod_order m"
proof -
  note l = load_64_bytes_correct [of "sha512 m" "replicate 10 0", simplified]
  have "qval (Hacl_Impl_Load56_load_64_bytes (replicate 10 0) (sha512 m)) < 2 ^ 512"
    using le_nat_lt [of "sha512 m"] unfolding l(2) by simp
  note b = barrett_reduction_correct [OF l(1,3) this assms]
  show "qlimbs 5 (Hacl_Impl_BignumQ_Mul_barrett_reduction out (Hacl_Impl_Load56_load_64_bytes (replicate 10 0) (sha512 m)))"
    unfolding Hacl_Impl_BignumQ_Mul_barrett_reduction_def by (rule b(1))
  show "qval (Hacl_Impl_BignumQ_Mul_barrett_reduction out (Hacl_Impl_Load56_load_64_bytes (replicate 10 0) (sha512 m)))
      = sha512_mod_order m"
    unfolding Hacl_Impl_BignumQ_Mul_barrett_reduction_def b(2) l(2) sha512_mod_order_def ..
qed

lemma modq_pre_correct:
  assumes "32 \<le> length pre" "unat len \<le> length msg" "length out = 5"
  shows "qlimbs 5 (Hacl_Impl_SHA512_ModQ_sha512_modq_pre out pre msg len)"
    "qval (Hacl_Impl_SHA512_ModQ_sha512_modq_pre out pre msg len) = sha512_mod_order (take 32 pre @ take (unat len) msg)"
  using digest_reduced [OF assms(3)] pre_msg_eq [OF assms(1,2), of "replicate 64 0"]
  by (simp_all add: Hacl_Impl_SHA512_ModQ_sha512_modq_pre_def Hacl_Impl_SHA512_ModQ_sha512_modq_pre'_def Let_def)

lemma modq_pre_pre2_correct:
  assumes "32 \<le> length pre" "32 \<le> length pre2" "unat len \<le> length msg" "length out = 5"
  shows "qlimbs 5 (Hacl_Impl_SHA512_ModQ_sha512_modq_pre_pre2 out pre pre2 msg len)"
    "qval (Hacl_Impl_SHA512_ModQ_sha512_modq_pre_pre2 out pre pre2 msg len)
      = sha512_mod_order (take 32 pre @ take 32 pre2 @ take (unat len) msg)"
  using digest_reduced [OF assms(4)] pre_pre2_msg_eq [OF assms(1-3), of "replicate 64 0"]
  by (simp_all add: Hacl_Impl_SHA512_ModQ_sha512_modq_pre_pre2_def Hacl_Impl_SHA512_ModQ_sha512_modq_pre_pre2'_def Let_def)

section \<open>Verification decides the specified predicate\<close>

lemma point_decompress_cases:
  assumes "length out = 20" "32 \<le> length s"
  obtains "ed_decompress s = None" "Hacl_Impl_Ed25519_PointDecompress_point_decompress out s = (False, out)"
  | p out' where "ed_decompress s = Some p" "Hacl_Impl_Ed25519_PointDecompress_point_decompress out s = (True, out')" "ext_rep out' p"
  using point_decompress_eq [OF assms] by (cases "ed_decompress s") auto

lemma ed_decompress_take: "ed_decompress (take 32 s) = ed_decompress s"
  by (simp add: ed_decompress_def)

lemma verify_step_4_eq:
  assumes "32 \<le> length s" "length h = 32" "ext_rep a A" "ext_rep r R"
  shows "Hacl_Impl_Ed25519_Verify_Steps_verify_step_4 s h a r
    = ed_equal (ed_mul (take 32 s) ed_base) (ed_add R (ed_mul h A))"
  unfolding Hacl_Impl_Ed25519_Verify_Steps_verify_step_4_def Let_def point_mul_g_copies
  using assms by (intro point_equal_eq point_mul_g_correct point_add_rep point_mul_rep) (simp_all add: slice_def)

lemma verify_step_2_eq:
  assumes "32 \<le> length rs" "32 \<le> length pub" "unat len \<le> length msg" "length out = 32"
  shows "Hacl_Impl_Ed25519_Verify_Steps_verify_step_2 out msg len rs pub
    = nat_to_le 32 (sha512_mod_order (take 32 rs @ take 32 pub @ take (unat len) msg))"
proof -
  note m = modq_pre_pre2_correct [OF assms(1-3), of "replicate 5 0", simplified]
  have "qval (Hacl_Impl_SHA512_ModQ_sha512_modq_pre_pre2 (replicate 5 0) rs pub msg len) < 2 ^ 256"
    unfolding m(2) by (rule less_trans [OF sha512_mod_order_lt]) (simp add: ed_order_def)
  then show ?thesis
    using store_56_correct [OF m(1), of out] assms(4) m(2)
    by (simp add: Hacl_Impl_Ed25519_Verify_Steps_verify_step_2_def Let_def)
qed

lemma verify_eq:
  assumes pub: "32 \<le> length pub" and sig: "64 \<le> length sig" and len: "unat len \<le> length msg"
  shows "Hacl_Ed25519_verify pub msg len sig = ed_verify pub (take (unat len) msg) sig"
proof -
  let ?z = "replicate 20 (0 :: u64)"
  have V: "Hacl_Ed25519_verify pub msg len sig
      = Hacl_Impl_Ed25519_Verify_verify'' pub msg len sig (replicate 45 0) (replicate 32 0)"
    by (simp add: Hacl_Ed25519_verify_def Hacl_Impl_Ed25519_Verify_verify_def Hacl_Impl_Ed25519_Verify_verify'_def)
  have sl: "slice 0 20 (replicate 45 0) = ?z" "slice 20 20 (replicate 45 0) = ?z" "slice 40 5 (replicate 45 0) = replicate 5 (0 :: u64)"
    by (simp_all add: slice_def)
  define s where "s = Hacl_Impl_Load56_load_32_bytes (replicate 5 0) (drop 32 sig)"
  have s: "Hacl_Impl_Ed25519_PointEqual_gte_q s = (ed_order \<le> le_nat (take 32 (drop 32 sig)))"
    using load_32_bytes_correct [of "drop 32 sig" "replicate 5 0"] sig gte_q_correct unfolding s_def by simp
  have 1: "Hacl_Impl_Ed25519_Verify_Steps_verify_step_1 ?z sig = Hacl_Impl_Ed25519_PointDecompress_point_decompress ?z sig"
    by (simp add: Hacl_Impl_Ed25519_Verify_Steps_verify_step_1_def)
  define h where "h = sha512_mod_order (take 32 sig @ take 32 pub @ take (unat len) msg)"
  have 2: "Hacl_Impl_Ed25519_Verify_Steps_verify_step_2 (replicate 32 0) msg len sig pub = nat_to_le 32 h"
    using sig unfolding h_def by (intro verify_step_2_eq pub len) simp_all
  have 4: "Hacl_Impl_Ed25519_Verify_Steps_verify_step_4 (drop 32 sig) (nat_to_le 32 h) a r
      = ed_equal (ed_mul (take 32 (drop 32 sig)) ed_base) (ed_add R (ed_mul (nat_to_le 32 h) A))"
    if "ext_rep a A" "ext_rep r R" for a A r R
    using that sig by (intro verify_step_4_eq) simp_all
  have lz: "length ?z = 20" by simp
  have ls: "32 \<le> length sig" using sig by simp
  show ?thesis
  proof (rule point_decompress_cases [OF lz pub])
    fix A a
    assume A: "ed_decompress pub = Some A" "Hacl_Impl_Ed25519_PointDecompress_point_decompress ?z pub = (True, a)" "ext_rep a A"
    show ?thesis
    proof (rule point_decompress_cases [OF lz ls])
      fix R r
      assume R: "ed_decompress sig = Some R" "Hacl_Impl_Ed25519_PointDecompress_point_decompress ?z sig = (True, r)" "ext_rep r R"
      show ?thesis
        unfolding V Hacl_Impl_Ed25519_Verify_verify''_def ed_verify_def Let_def sl A R 1 ed_decompress_take prod.case option.case
          if_True s_def [symmetric] s 2 h_def [symmetric] 4 [OF A(3) R(3)] by (rule refl)
    qed (simp add: V Hacl_Impl_Ed25519_Verify_verify''_def ed_verify_def Let_def sl A 1 ed_decompress_take)
  qed (simp add: V Hacl_Impl_Ed25519_Verify_verify''_def ed_verify_def Let_def sl)
qed

section \<open>Signing computes the specified signature\<close>

lemma store_56_take: "Hacl_Impl_Store56_store_56 out (take 5 x) = Hacl_Impl_Store56_store_56 out x"
  by (simp add: Hacl_Impl_Store56_store_56_def Let_def)

lemma sign_step_1_eq:
  assumes "32 \<le> length secret"
  shows "Hacl_Impl_Ed25519_Sign_Steps_sign_step_1 secret (replicate 352 0)
    = replicate 96 0 @ ed_public secret @ replicate 96 0 @ fst (ed_expand secret) @ snd (ed_expand secret) @ replicate 64 0"
proof -
  let ?e = "fst (ed_expand secret) @ snd (ed_expand secret) @ replicate 64 0"
  have "at_off 224 (\<lambda>e. Hacl_Impl_Ed25519_SecretExpand_secret_expand e secret) (replicate 352 0) = replicate 224 0 @ ?e"
    using assms by (simp add: at_off_def secret_expand_eq)
  moreover have "at_off 96 (\<lambda>p. Hacl_Impl_Ed25519_Sign_Steps_point_mul_g_compress p ?e) (replicate 224 0 @ ?e)
      = replicate 96 0 @ ed_public secret @ replicate 96 0 @ ?e"
    by (simp add: at_off_def mul_g_compress_eq ed_public_def)
  ultimately show ?thesis
    by (simp add: Hacl_Impl_Ed25519_Sign_Steps_sign_step_1_def Let_def)
qed

lemma sign_step_2_eq:
  assumes "length x = 224" "length a = 32" "length pre = 32" "unat len \<le> length msg"
  obtains r where "qlimbs 5 r" "qval r = sha512_mod_order (pre @ take (unat len) msg)"
    "Hacl_Impl_Ed25519_Sign_Steps_sign_step_2 msg len (x @ a @ pre @ y) (replicate 65 0)
      = replicate 20 0 @ r @ replicate 40 0"
proof -
  let ?r = "Hacl_Impl_SHA512_ModQ_sha512_modq_pre (replicate 5 0) (pre @ y) msg len"
  have r: "qlimbs 5 ?r" "qval ?r = sha512_mod_order (pre @ take (unat len) msg)"
    using modq_pre_correct [of "pre @ y" len msg "replicate 5 0"] assms by simp_all
  moreover have "length ?r = 5" using r(1) by (simp add: qlimbs_def)
  then have "Hacl_Impl_Ed25519_Sign_Steps_sign_step_2 msg len (x @ a @ pre @ y) (replicate 65 0)
      = replicate 20 0 @ ?r @ replicate 40 0"
    using assms by (simp add: Hacl_Impl_Ed25519_Sign_Steps_sign_step_2_def Let_def slice_def blit_def)
  ultimately show ?thesis by (rule that)
qed

lemma sign_step_4_eq:
  assumes "length x = 96" "length pub = 32" "length w = 32" "length rs = 32" "unat len \<le> length msg" "length r = 5"
  obtains h where "qlimbs 5 h" "qval h = sha512_mod_order (rs @ pub @ take (unat len) msg)"
    "Hacl_Impl_Ed25519_Sign_Steps_sign_step_4 msg len (x @ pub @ w @ rs @ y) (replicate 20 0 @ r @ replicate 40 0)
      = replicate 20 0 @ r @ replicate 35 0 @ h"
proof -
  let ?h = "Hacl_Impl_SHA512_ModQ_sha512_modq_pre_pre2 (replicate 5 0) (rs @ y) (pub @ w @ rs @ y) msg len"
  have h: "qlimbs 5 ?h" "qval ?h = sha512_mod_order (rs @ pub @ take (unat len) msg)"
    using modq_pre_pre2_correct [of "rs @ y" "pub @ w @ rs @ y" len msg "replicate 5 0"] assms by simp_all
  moreover have "length ?h = 5" using h(1) by (simp add: qlimbs_def)
  then have "Hacl_Impl_Ed25519_Sign_Steps_sign_step_4 msg len (x @ pub @ w @ rs @ y) (replicate 20 0 @ r @ replicate 40 0)
      = replicate 20 0 @ r @ replicate 35 0 @ ?h"
    using assms by (simp add: Hacl_Impl_Ed25519_Sign_Steps_sign_step_4_def Let_def slice_def blit_def)
  ultimately show ?thesis by (rule that)
qed

lemma sign_step_5_eq:
  assumes "length x = 192" "length s = 32" "length a = 32" "qlimbs 5 r" "qval r < ed_order" "qlimbs 5 h" "qval h < ed_order"
  shows "fst (Hacl_Impl_Ed25519_Sign_Steps_sign_step_5 (x @ s @ a @ y) (replicate 20 0 @ r @ replicate 35 0 @ h))
    = x @ nat_to_le 32 ((qval r + qval h * le_nat a) mod ed_order) @ a @ y"
proof -
  let ?z = "replicate 5 (0 :: u64)"
  define aq where "aq = Hacl_Impl_Load56_load_32_bytes ?z (a @ y)"
  define ha where "ha = Hacl_Impl_BignumQ_Mul_mul_modq ?z h aq"
  define t where "t = Hacl_Impl_BignumQ_Mul_add_modq ?z r ha"
  have aq: "qlimbs 5 aq" "qval aq = le_nat a"
    using load_32_bytes_correct [of "a @ y" ?z] assms(3) by (simp_all add: aq_def)
  have "le_nat a < 2 ^ 256" using le_nat_lt [of a] assms(3) by simp
  moreover have "qval h < 2 ^ 253" using assms(7) ed_order_lt by (rule less_trans)
  ultimately have "qval h * qval aq < 2 ^ 253 * 2 ^ 256"
    unfolding aq(2) by (intro mult_strict_mono') simp_all
  then have b: "qval h * qval aq < 2 ^ 512" by simp
  have ha: "qlimbs 5 ha" "qval ha = qval h * le_nat a mod ed_order"
    using mul_modq_correct [OF assms(6) aq(1) b, of ?z] by (simp_all add: ha_def aq(2))
  have "qval ha < ed_order" unfolding ha(2) by (rule mod_less_divisor) (rule ed_order_pos)
  from add_modq_correct [OF assms(4,5) ha(1) this, of ?z]
  have t: "qlimbs 5 t" "qval t = (qval r + qval h * le_nat a) mod ed_order"
    by (simp_all add: t_def ha(2) mod_add_right_eq)
  have "qval t < ed_order" unfolding t(2) by (rule mod_less_divisor) (rule ed_order_pos)
  also have "\<dots> < 2 ^ 256" by (simp add: ed_order_def)
  finally have st: "Hacl_Impl_Store56_store_56 (s @ a @ y) t = nat_to_le 32 (qval t) @ a @ y"
    using store_56_correct [OF t(1), of "s @ a @ y"] assms(2) by simp
  have sl: "slice 20 5 (replicate 20 0 @ r @ replicate 35 0 @ h) = r"
    "slice 45 5 (replicate 20 0 @ r @ replicate 35 0 @ h) = ?z"
    "slice 50 5 (replicate 20 0 @ r @ replicate 35 0 @ h) = ?z"
    "slice 55 5 (replicate 20 0 @ r @ replicate 35 0 @ h) = ?z"
    "slice 60 5 (replicate 20 0 @ r @ replicate 35 0 @ h) = h"
    using assms(4,6) by (simp_all add: slice_def qlimbs_def)
  have d: "drop 224 (x @ s @ a @ y) = a @ y" using assms(1,2) by simp
  show ?thesis
    unfolding Hacl_Impl_Ed25519_Sign_Steps_sign_step_5_def Let_def sl d aq_def [symmetric] ha_def [symmetric]
      t_def [symmetric] fst_conv
    using assms(1) by (simp add: at_off_append st t(2))
qed

lemma sign_eq:
  assumes sig: "64 \<le> length sig" and secret: "32 \<le> length secret" and len: "unat len \<le> length msg"
  shows "Hacl_Ed25519_sign sig secret msg len = ed_sign secret (take (unat len) msg) @ drop 64 sig"
proof -
  define m where "m = take (unat len) msg"
  define a pre pub where "a = fst (ed_expand secret)" "pre = snd (ed_expand secret)" "pub = ed_public secret"
  have l: "length a = 32" "length pre = 32" "length pub = 32"
    by (simp_all add: a_pre_pub_def ed_public_def)
  let ?Z = "\<lambda>n. replicate n (0 :: u8)"
  have 1: "Hacl_Impl_Ed25519_Sign_Steps_sign_step_1 secret (?Z 352) = (?Z 96 @ pub @ ?Z 96) @ a @ pre @ ?Z 64"
    using sign_step_1_eq [OF secret] by (simp add: a_pre_pub_def)
  obtain r where r: "qlimbs 5 r" "qval r = sha512_mod_order (pre @ m)"
    "Hacl_Impl_Ed25519_Sign_Steps_sign_step_2 msg len ((?Z 96 @ pub @ ?Z 96) @ a @ pre @ ?Z 64) (replicate 65 0)
      = replicate 20 0 @ r @ replicate 40 0"
    using sign_step_2_eq [of "?Z 96 @ pub @ ?Z 96" a pre len msg "?Z 64"] l len unfolding m_def by auto
  have lr: "length r = 5" using r(1) by (simp add: qlimbs_def)
  define rb where "rb = nat_to_le 32 (qval r)"
  have rq: "qval r < ed_order" unfolding r(2) by (rule sha512_mod_order_lt)
  then have "qval r < 2 ^ 256" by (rule less_trans) (simp add: ed_order_def)
  then have rb: "Hacl_Impl_Store56_store_56 (?Z 32) (drop 20 (replicate 20 0 @ r @ replicate 40 0)) = rb"
    using store_56_correct [OF r(1), of "?Z 32"] store_56_take [of "?Z 32" "r @ replicate 40 0"] lr by (simp add: rb_def)
  have lrb: "length rb = 32" by (simp add: rb_def)
  define rs where "rs = ed_compress (ed_mul rb ed_base)"
  have lrs: "length rs = 32" by (simp add: rs_def)
  have rs: "at_off 160 (\<lambda>x. Hacl_Impl_Ed25519_Sign_Steps_point_mul_g_compress x rb) ((?Z 96 @ pub @ ?Z 96) @ a @ pre @ ?Z 64)
    = ?Z 96 @ pub @ ?Z 32 @ rs @ ?Z 32 @ a @ pre @ ?Z 64"
    using l lrb by (simp add: at_off_def mul_g_compress_eq rs_def)
  obtain h where h: "qlimbs 5 h" "qval h = sha512_mod_order (rs @ pub @ m)"
    "Hacl_Impl_Ed25519_Sign_Steps_sign_step_4 msg len (?Z 96 @ pub @ ?Z 32 @ rs @ ?Z 32 @ a @ pre @ ?Z 64)
        (replicate 20 0 @ r @ replicate 40 0) = replicate 20 0 @ r @ replicate 35 0 @ h"
    using sign_step_4_eq [of "?Z 96" pub "?Z 32" rs len msg r "?Z 32 @ a @ pre @ ?Z 64"] l lrs lr len unfolding m_def by auto
  have hq: "qval h < ed_order" unfolding h(2) by (rule sha512_mod_order_lt)
  define s where "s = nat_to_le 32 ((qval r + qval h * le_nat a) mod ed_order)"
  have 5: "fst (Hacl_Impl_Ed25519_Sign_Steps_sign_step_5 (?Z 96 @ pub @ ?Z 32 @ rs @ ?Z 32 @ a @ pre @ ?Z 64)
      (replicate 20 0 @ r @ replicate 35 0 @ h)) = ?Z 96 @ pub @ ?Z 32 @ rs @ s @ a @ pre @ ?Z 64"
    using sign_step_5_eq [of "?Z 96 @ pub @ ?Z 32 @ rs" "?Z 32" a r h "pre @ ?Z 64"] l lrs r(1) h(1) rq hq by (simp add: s_def)
  have out: "Hacl_Impl_Ed25519_Sign_append_to_sig sig (drop 160 (?Z 96 @ pub @ ?Z 32 @ rs @ s @ a @ pre @ ?Z 64))
      (drop 192 (?Z 96 @ pub @ ?Z 32 @ rs @ s @ a @ pre @ ?Z 64)) = rs @ s @ drop 64 sig"
    using l lrs sig by (simp add: s_def Hacl_Impl_Ed25519_Sign_append_to_sig_def Hacl_Impl_Ed25519_Sign_Steps_copy_bytes_def
        Let_def blit_0 at_off_append)
  have "ed_sign secret m = rs @ s"
    by (simp add: ed_sign_def case_prod_beta Let_def s_def rs_def rb_def r(2) h(2) a_pre_pub_def ed_public_def)
  moreover have "Hacl_Ed25519_sign sig secret msg len = rs @ s @ drop 64 sig"
    unfolding Hacl_Ed25519_sign_def Hacl_Impl_Ed25519_Sign_sign_def Hacl_Impl_Ed25519_Sign_sign'_def Let_def 1 r(3) rb rs h(3)
      case_prod_beta 5 out ..
  ultimately show ?thesis by (simp add: m_def)
qed

section \<open>Decoded points encode to the bytes they came from\<close>

lemma recover_x_range:
  assumes "recover_x y s = Some x" "s = 0 \<or> s = 1"
  shows "0 \<le> x" "x < P25519" "x mod 2 = s" "y < P25519"
proof -
  define x2 where "x2 = (y * y - 1) * field_inv (ed_d * y * y + 1) mod P25519"
  define r where "r = pow_mod x2 (2 ^ 252 - 2) mod P25519"
  define w where "w = (if (r * r - x2) mod P25519 = 0 then r else r * sqrt_minus_1 mod P25519)"
  have R: "recover_x y s = (if y \<ge> P25519 then None else if x2 = 0 then (if s = 0 then Some 0 else None)
      else if (w * w - x2) mod P25519 = 0 then Some (if w mod 2 = s then w else (- w) mod P25519) else None)"
    by (simp only: recover_x_def Let_def x2_def r_def w_def)
  show "y < P25519" using assms(1) by (simp add: R split: if_splits)
  have w: "0 \<le> w" "w < P25519" by (simp_all add: w_def r_def)
  have x2: "0 \<le> x2" "x2 < P25519" by (simp_all add: x2_def)
  have "0 \<le> x \<and> x < P25519 \<and> x mod 2 = s"
  proof (cases "x2 = 0 \<or> w mod 2 = s")
    case True
    then show ?thesis using assms(1) w by (auto simp: R split: if_splits)
  next
    case False
    then have x: "x = (- w) mod P25519" and sq: "P25519 dvd w * w - x2" and nz: "x2 \<noteq> 0"
      using assms(1) by (auto simp: R dvd_eq_mod_eq_0 split: if_splits)
    have "w \<noteq> 0"
    proof
      assume "w = 0"
      then have "P25519 dvd x2" using sq by simp
      then show False using x2 nz zdvd_imp_le [of P25519 x2] by simp
    qed
    then have "x = P25519 - w" unfolding x using w by (simp add: zmod_zminus1_eq_if)
    moreover have "w mod 2 = 1 - s"
      using False assms(2) by presburger
    moreover have "odd P25519" by (simp add: P25519_def)
    ultimately show ?thesis using w \<open>w \<noteq> 0\<close> assms(2) by presburger
  qed
  then show "0 \<le> x" "x < P25519" "x mod 2 = s" by simp_all
qed

lemma ed_compress_affine:
  assumes "0 \<le> x" "x < P25519" "0 \<le> y" "y < P25519"
  shows "ed_compress (x, y, 1, t) = nat_to_le 32 (nat (y + 2 ^ 255 * (x mod 2)))"
proof -
  have i: "field_inv 1 mod P25519 = 1 mod P25519"
    unfolding field_inv_def pow_mod_eq power_one ..
  have "v * field_inv 1 mod P25519 = v mod P25519" for v
    using mod_mult_right_eq [of v "field_inv 1" P25519] unfolding i by (simp only: mod_mult_right_eq mult_1_right)
  then show ?thesis using assms by (simp add: ed_compress_def Let_def)
qed

lemma ed_compress_decompress:
  assumes "ed_decompress s = Some p" "32 \<le> length s"
  shows "ed_compress p = take 32 s"
proof -
  define n where "n = le_nat (take 32 s)"
  have n: "n < 2 ^ 256" using le_nat_lt [of "take 32 s"] assms(2) by (simp add: n_def)
  then have b: "int (n div 2 ^ 255) = 0 \<or> int (n div 2 ^ 255) = 1"
    by (simp add: less_mult_imp_div_less less_2_cases_iff flip: less_2_cases_iff)
  obtain x where x: "recover_x (int (n mod 2 ^ 255)) (int (n div 2 ^ 255)) = Some x"
    "p = (x, int (n mod 2 ^ 255), 1, x * int (n mod 2 ^ 255) mod P25519)"
    using assms(1) by (auto simp: ed_decompress_def Let_def simp flip: n_def)
  note r = recover_x_range [OF x(1) b]
  have "ed_compress p = nat_to_le 32 (nat (int (n mod 2 ^ 255) + 2 ^ 255 * int (n div 2 ^ 255)))"
    unfolding x(2) ed_compress_affine [OF r(1,2) of_nat_0_le_iff r(4)] r(3) ..
  also have "int (n mod 2 ^ 255) + 2 ^ 255 * int (n div 2 ^ 255) = int n"
    by (simp only: zmod_int zdiv_int of_nat_power of_nat_numeral mod_mult_div_eq)
  finally have "ed_compress p = nat_to_le 32 n" by simp
  also have "\<dots> = take 32 s"
    using n assms(2) by (intro le_nat_inj) (simp_all add: le_nat_nat_to_le n_def)
  finally show ?thesis .
qed

section \<open>Properties\<close>

text \<open>C14. Signing: for a 32-byte secret and the first \<open>len\<close> bytes of the message, the first 64 bytes of the output are the
  Ed25519 signature of RFC 8032 (hash the secret, clamp, hash the prefix and message to a nonce, encode its multiple of the
  base point, and add the hashed challenge times the secret scalar modulo the group order); the rest of the output is untouched.\<close>

theorem ed25519_sign_correct:
  assumes "64 \<le> length sig" and "32 \<le> length secret" and "unat len \<le> length msg"
  shows "Hacl_Ed25519_sign sig secret msg len = ed_sign secret (take (unat len) msg) @ drop 64 sig"
  by (rule sign_eq [OF assms])

theorem ed25519_sign_correct_witness:
  "Hacl_Ed25519_sign (replicate 65 7) (replicate 32 1) (replicate 200 2) 150 = ed_sign (replicate 32 1) (replicate 150 2) @ [7]"
  using ed25519_sign_correct [of "replicate 65 7" "replicate 32 1" 150 "replicate 200 2"] by simp

text \<open>C15. Verification decides the predicate of RFC 8032 on every branch: it refuses a public key or a first half that is
  no encoding of a point and a second half that is not below the group order, and otherwise accepts exactly when the
  equation of the points holds.\<close>

theorem ed25519_verify_decides:
  assumes "32 \<le> length pub" and "64 \<le> length sig" and "unat len \<le> length msg"
  shows "Hacl_Ed25519_verify pub msg len sig = ed_verify pub (take (unat len) msg) sig"
  by (rule verify_eq [OF assms])

theorem ed25519_verify_decides_witness:
  "Hacl_Ed25519_verify (replicate 32 1) (replicate 70 2) 65 (replicate 64 255) = ed_verify (replicate 32 1) (replicate 65 2) (replicate 64 255)"
  using ed25519_verify_decides [of "replicate 32 1" "replicate 64 255" 65 "replicate 70 2"] by simp

text \<open>The public key written is the encoding of the clamped secret scalar times the base point.\<close>

theorem ed25519_public_correct:
  assumes "32 \<le> length out" and "32 \<le> length secret"
  shows "Hacl_Ed25519_secret_to_public out secret = ed_public secret @ drop 32 out"
  by (rule secret_to_public_eq [OF assms])

theorem ed25519_public_correct_witness:
  "Hacl_Ed25519_secret_to_public (replicate 33 9) (replicate 32 1) = ed_public (replicate 32 1) @ [9]"
  using ed25519_public_correct [of "replicate 33 9" "replicate 32 1"] by simp

text \<open>C17. The point routines refine the formulas over the field: on buffers whose twenty limbs stand for points, addition,
  doubling and multiplication by the first 32 bytes of a scalar give buffers with tight limbs that stand for the sum,
  the double and the ladder's result, and comparison compares the affine coordinates.\<close>

theorem point_operations_refine:
  assumes "ext_rep p P" and "ext_rep q Q" and "32 \<le> length k" and "length out = 20"
  shows "ext_rep (Hacl_Impl_Ed25519_PointAdd_point_add out p q) (ed_add P Q)
    \<and> ext_rep (Hacl_Impl_Ed25519_PointDouble_point_double out p) (ed_double P)
    \<and> ext_rep (Hacl_Impl_Ed25519_Ladder_point_mul out k p) (ed_mul (take 32 k) P)
    \<and> Hacl_Impl_Ed25519_PointEqual_point_equal p q = ed_equal P Q"
  by (intro conjI point_add_rep point_double_rep point_mul_correct point_equal_eq assms)

theorem point_operations_refine_witness:
  "ext_rep (Hacl_Impl_Ed25519_PointAdd_point_add (replicate 20 0) (Hacl_Impl_Ed25519_G_make_g (replicate 20 0))
      (Hacl_Impl_Ed25519_Ladder_make_point_inf (replicate 20 0))) (ed_add ed_base ed_neutral)"
  using point_operations_refine [of "Hacl_Impl_Ed25519_G_make_g (replicate 20 0)" ed_base
      "Hacl_Impl_Ed25519_Ladder_make_point_inf (replicate 20 0)" ed_neutral "replicate 32 0" "replicate 20 0"]
  by (simp add: make_g_rep point_inf_rep)

text \<open>C16. Decoding a point: the routine answers \<open>False\<close> and leaves the buffer alone exactly when the 32 bytes encode no
  point (\<open>y\<close> not below the prime, no square root, or the sign of zero set); otherwise the buffer stands for the decoded point,
  and compressing it writes back the very bytes it came from.\<close>

theorem point_decompress_compress:
  assumes "length out = 20" and "32 \<le> length s" and "32 \<le> length o'"
  shows "case ed_decompress s of
      None \<Rightarrow> Hacl_Impl_Ed25519_PointDecompress_point_decompress out s = (False, out)
    | Some p \<Rightarrow> \<exists>out'. Hacl_Impl_Ed25519_PointDecompress_point_decompress out s = (True, out') \<and> ext_rep out' p
        \<and> Hacl_Impl_Ed25519_PointCompress_point_compress o' out' = take 32 s @ drop 32 o'"
proof (cases "ed_decompress s")
  case None
  then show ?thesis using point_decompress_eq [OF assms(1,2)] by simp
next
  case (Some p)
  then obtain out' where "Hacl_Impl_Ed25519_PointDecompress_point_decompress out s = (True, out')" "ext_rep out' p"
    using point_decompress_eq [OF assms(1,2)] by auto
  moreover from point_compress_eq [OF this(2) assms(3)]
  have "Hacl_Impl_Ed25519_PointCompress_point_compress o' out' = take 32 s @ drop 32 o'"
    by (simp add: ed_compress_decompress [OF Some assms(2)])
  ultimately show ?thesis using Some by simp
qed

theorem point_decompress_compress_witness:
  "Hacl_Impl_Ed25519_PointDecompress_point_decompress (replicate 20 7) (replicate 32 255) = (False, replicate 20 7)"
proof -
  have "le_nat (replicate k 255) + 1 = 256 ^ k" for k
    by (induction k) (simp_all flip: mask_eq_exp_minus_1)
  from this [of 32] have "le_nat (replicate 32 255) = 2 ^ 256 - 1" by simp
  then have "ed_decompress (replicate 32 255) = None"
    by (simp add: ed_decompress_def recover_x_def P25519_def)
  then show ?thesis
    using point_decompress_compress [of "replicate 20 7" "replicate 32 255" "replicate 32 0"] by simp
qed

end
