(* ===== verification/Blake2_Spec.thy ===== *)
theory Blake2_Spec
  imports SHA2_Constants Kremlib
begin

text \<open>
  BLAKE2b as RFC 7693 defines it: the mixing function on four words, a round on the columns and the diagonals of a 4 by 4
  matrix, the compression of a block with the number of bytes hashed so far, and the hash of a message under an
  optional key.
\<close>

section \<open>Constants\<close>

text \<open>The initial values are those of SHA-512: 64 fractional bits of the square roots of the first eight primes.\<close>

definition blake2b_init_words :: "u64 list" where
  "blake2b_init_words = map (root_bits 2) (take 8 primes80)"

lemma blake2b_init_words_eq [code]:
  "blake2b_init_words =
     [0x6a09e667f3bcc908, 0xbb67ae8584caa73b, 0x3c6ef372fe94f82b, 0xa54ff53a5f1d36f1,
      0x510e527fade682d1, 0x9b05688c2b3e6c1f, 0x1f83d9abfb41bd6b, 0x5be0cd19137e2179]"
  unfolding blake2b_init_words_def primes80_eq by (simp add: square_roots_64_0)

text \<open>The message schedule: ten permutations of the sixteen words.\<close>

definition blake2b_schedule :: "nat list list" where
  "blake2b_schedule =
     [[0, 1, 2, 3, 4, 5, 6, 7, 8, 9, 10, 11, 12, 13, 14, 15],
      [14, 10, 4, 8, 9, 15, 13, 6, 1, 12, 0, 2, 11, 7, 5, 3],
      [11, 8, 12, 0, 5, 2, 15, 13, 10, 14, 3, 6, 7, 1, 9, 4],
      [7, 9, 3, 1, 13, 12, 11, 14, 2, 6, 5, 10, 4, 0, 15, 8],
      [9, 0, 5, 7, 2, 4, 10, 15, 14, 1, 11, 12, 6, 8, 3, 13],
      [2, 12, 6, 10, 0, 11, 8, 3, 4, 13, 7, 5, 15, 14, 1, 9],
      [12, 5, 1, 15, 14, 13, 4, 10, 0, 7, 6, 3, 9, 2, 8, 11],
      [13, 11, 7, 14, 12, 1, 3, 9, 5, 0, 15, 4, 8, 6, 2, 10],
      [6, 15, 14, 9, 11, 3, 0, 8, 12, 2, 13, 7, 1, 4, 10, 5],
      [10, 2, 8, 4, 7, 6, 1, 5, 15, 11, 9, 14, 3, 12, 13, 0]]"

lemma blake2b_schedule_permutes:
  "list_all (\<lambda>s. length s = 16 \<and> sort s = [0..<16]) blake2b_schedule" "length blake2b_schedule = 10"
  by (simp_all add: blake2b_schedule_def upt_rec)

section \<open>Compression\<close>

type_synonym quad64 = "u64 \<times> u64 \<times> u64 \<times> u64"

fun blake_mix :: "u64 \<Rightarrow> u64 \<Rightarrow> quad64 \<Rightarrow> quad64" where
  "blake_mix x y (a, b, c, d) =
     (let a = a + b + x; d = word_rotr 32 (d XOR a);
          c = c + d; b = word_rotr 24 (b XOR c);
          a = a + b + y; d = word_rotr 16 (d XOR a);
          c = c + d; b = word_rotr 63 (b XOR c)
      in (a, b, c, d))"

definition blake_round :: "u64 list \<Rightarrow> u64 list \<Rightarrow> u64 list" where
  "blake_round s = (\<lambda>v.
     let (v0, v4, v8, v12) = blake_mix (s ! 0) (s ! 1) (v ! 0, v ! 4, v ! 8, v ! 12);
         (v1, v5, v9, v13) = blake_mix (s ! 2) (s ! 3) (v ! 1, v ! 5, v ! 9, v ! 13);
         (v2, v6, v10, v14) = blake_mix (s ! 4) (s ! 5) (v ! 2, v ! 6, v ! 10, v ! 14);
         (v3, v7, v11, v15) = blake_mix (s ! 6) (s ! 7) (v ! 3, v ! 7, v ! 11, v ! 15);
         (v0, v5, v10, v15) = blake_mix (s ! 8) (s ! 9) (v0, v5, v10, v15);
         (v1, v6, v11, v12) = blake_mix (s ! 10) (s ! 11) (v1, v6, v11, v12);
         (v2, v7, v8, v13) = blake_mix (s ! 12) (s ! 13) (v2, v7, v8, v13);
         (v3, v4, v9, v14) = blake_mix (s ! 14) (s ! 15) (v3, v4, v9, v14)
     in [v0, v1, v2, v3, v4, v5, v6, v7, v8, v9, v10, v11, v12, v13, v14, v15])"

definition words64_le :: "nat \<Rightarrow> bytes \<Rightarrow> u64 list" where
  "words64_le n b = map (\<lambda>i. load64_le (drop (8 * i) b)) [0..<n]"

definition bytes64_le :: "u64 list \<Rightarrow> bytes" where
  "bytes64_le ws = concat (map bytes_of_u64 ws)"

text \<open>\<open>t\<close> counts the bytes up to the end of this block, modulo \<open>2 ^ 128\<close>.\<close>

definition blake2b_F :: "u64 list \<Rightarrow> bytes \<Rightarrow> nat \<Rightarrow> bool \<Rightarrow> u64 list" where
  "blake2b_F h x t last' =
     (let m = words64_le 16 x;
          iv = blake2b_init_words;
          v = h @ take 4 iv @ [iv ! 4 XOR word_of_nat t, iv ! 5 XOR word_of_nat (t div 2 ^ 64),
                (if last' then NOT (iv ! 6) else iv ! 6), iv ! 7];
          v = fold (\<lambda>r. blake_round (map (\<lambda>j. m ! j) (blake2b_schedule ! (r mod 10)))) [0..<12] v
      in map (\<lambda>i. h ! i XOR v ! i XOR v ! (i + 8)) [0..<8])"

section \<open>Hashing\<close>

definition zero_pad :: "nat \<Rightarrow> bytes \<Rightarrow> bytes" where
  "zero_pad n b = b @ replicate (n - length b) 0"

text \<open>The last block, and only it, is padded and flagged; it is the only block that may be empty.\<close>

function blake2b_chain :: "u64 list \<Rightarrow> nat \<Rightarrow> bytes \<Rightarrow> u64 list" where
  "blake2b_chain h t d =
     (if length d \<le> 128 then blake2b_F h (zero_pad 128 d) (t + length d) True
      else blake2b_chain (blake2b_F h (take 128 d) (t + 128) False) (t + 128) (drop 128 d))"
  by pat_completeness auto
termination by (relation "measure (\<lambda>(h, t, d). length d)") auto

declare blake2b_chain.simps [simp del]

text \<open>The parameter block of the sequential mode: digest length, key length, fan-out and depth one.\<close>

definition blake2b_h0 :: "nat \<Rightarrow> nat \<Rightarrow> u64 list" where
  "blake2b_h0 nn kk = (blake2b_init_words)[0 := blake2b_init_words ! 0 XOR 0x01010000 XOR push_bit 8 (word_of_nat kk) XOR word_of_nat nn]"

definition blake2b_data :: "bytes \<Rightarrow> bytes \<Rightarrow> bytes" where
  "blake2b_data key m = (if key = [] then m else zero_pad 128 key @ m)"

definition blake2b_hash :: "nat \<Rightarrow> bytes \<Rightarrow> bytes \<Rightarrow> bytes" where
  "blake2b_hash nn key m = take nn (bytes64_le (blake2b_chain (blake2b_h0 nn (length key)) 0 (blake2b_data key m)))"

end
