(* ===== verification/Blake2b.thy ===== *)
theory Blake2b
  imports Blake2_Spec
begin

text \<open>
  BLAKE2b (\<^verbatim>\<open>blake2b-ref.c\<close> with the helpers of \<^verbatim>\<open>blake2-impl.h\<close> and the types of \<^verbatim>\<open>blake2.h\<close>): the state, its
  initialisation with and without a key, updates with inputs of any length, finalisation, and the one-shot function.

  Every function returns the state it was given a pointer to, with the code's return value (0 or -1) where it has one.
  \<open>size_t\<close> is 64 bits. A pointer that the code compares with \<open>NULL\<close> is an option. An array declared without
  an initialiser starts as zeros here; the code assigns all of it before it is read. The local state of the one-shot
  function, which is not assigned either, is an argument.
\<close>

section \<open>Helpers\<close>

definition blake2_load32 :: "bytes \<Rightarrow> u32" where
  "blake2_load32 p = push_bit 0 (ucast (p ! 0)) OR push_bit 8 (ucast (p ! 1)) OR push_bit 16 (ucast (p ! 2)) OR push_bit 24 (ucast (p ! 3))"

definition blake2_load64 :: "bytes \<Rightarrow> u64" where
  "blake2_load64 p =
     push_bit 0 (ucast (p ! 0)) OR push_bit 8 (ucast (p ! 1)) OR push_bit 16 (ucast (p ! 2)) OR push_bit 24 (ucast (p ! 3))
     OR push_bit 32 (ucast (p ! 4)) OR push_bit 40 (ucast (p ! 5)) OR push_bit 48 (ucast (p ! 6)) OR push_bit 56 (ucast (p ! 7))"

definition blake2_store32 :: "bytes \<Rightarrow> u32 \<Rightarrow> bytes" where
  "blake2_store32 p w =
     (let p = p[0 := ucast (drop_bit 0 w)]; p = p[1 := ucast (drop_bit 8 w)]; p = p[2 := ucast (drop_bit 16 w)]
      in p[3 := ucast (drop_bit 24 w)])"

definition blake2_store64 :: "bytes \<Rightarrow> u64 \<Rightarrow> bytes" where
  "blake2_store64 p w =
     (let p = p[0 := ucast (drop_bit 0 w)]; p = p[1 := ucast (drop_bit 8 w)]; p = p[2 := ucast (drop_bit 16 w)];
          p = p[3 := ucast (drop_bit 24 w)]; p = p[4 := ucast (drop_bit 32 w)]; p = p[5 := ucast (drop_bit 40 w)];
          p = p[6 := ucast (drop_bit 48 w)]
      in p[7 := ucast (drop_bit 56 w)])"

definition rotr64 :: "u64 \<Rightarrow> nat \<Rightarrow> u64" where
  "rotr64 w c = drop_bit c w OR push_bit (64 - c) w"

definition secure_zero_memory :: "bytes \<Rightarrow> nat \<Rightarrow> bytes" where
  "secure_zero_memory v n = blit v 0 (replicate n 0)"

section \<open>Constants and state\<close>

definition BLAKE2B_BLOCKBYTES :: u64 where "BLAKE2B_BLOCKBYTES = 128"
definition BLAKE2B_OUTBYTES :: u64 where "BLAKE2B_OUTBYTES = 64"
definition BLAKE2B_KEYBYTES :: u64 where "BLAKE2B_KEYBYTES = 64"
definition BLAKE2B_SALTBYTES :: u64 where "BLAKE2B_SALTBYTES = 16"
definition BLAKE2B_PERSONALBYTES :: u64 where "BLAKE2B_PERSONALBYTES = 16"

lemmas blake2b_constants = BLAKE2B_BLOCKBYTES_def BLAKE2B_OUTBYTES_def BLAKE2B_KEYBYTES_def BLAKE2B_SALTBYTES_def BLAKE2B_PERSONALBYTES_def

definition blake2b_IV :: "u64 list" where
  "blake2b_IV =
     [0x6a09e667f3bcc908, 0xbb67ae8584caa73b, 0x3c6ef372fe94f82b, 0xa54ff53a5f1d36f1,
      0x510e527fade682d1, 0x9b05688c2b3e6c1f, 0x1f83d9abfb41bd6b, 0x5be0cd19137e2179]"

definition blake2b_sigma :: "nat list list" where
  "blake2b_sigma =
     [[0, 1, 2, 3, 4, 5, 6, 7, 8, 9, 10, 11, 12, 13, 14, 15],
      [14, 10, 4, 8, 9, 15, 13, 6, 1, 12, 0, 2, 11, 7, 5, 3],
      [11, 8, 12, 0, 5, 2, 15, 13, 10, 14, 3, 6, 7, 1, 9, 4],
      [7, 9, 3, 1, 13, 12, 11, 14, 2, 6, 5, 10, 4, 0, 15, 8],
      [9, 0, 5, 7, 2, 4, 10, 15, 14, 1, 11, 12, 6, 8, 3, 13],
      [2, 12, 6, 10, 0, 11, 8, 3, 4, 13, 7, 5, 15, 14, 1, 9],
      [12, 5, 1, 15, 14, 13, 4, 10, 0, 7, 6, 3, 9, 2, 8, 11],
      [13, 11, 7, 14, 12, 1, 3, 9, 5, 0, 15, 4, 8, 6, 2, 10],
      [6, 15, 14, 9, 11, 3, 0, 8, 12, 2, 13, 7, 1, 4, 10, 5],
      [10, 2, 8, 4, 7, 6, 1, 5, 15, 11, 9, 14, 3, 12, 13, 0],
      [0, 1, 2, 3, 4, 5, 6, 7, 8, 9, 10, 11, 12, 13, 14, 15],
      [14, 10, 4, 8, 9, 15, 13, 6, 1, 12, 0, 2, 11, 7, 5, 3]]"

text \<open>The struct of the state; its fields \<open>h\<close>, \<open>t\<close>, \<open>f\<close> and \<open>buf\<close> carry a prefix.\<close>

record blake2b_state =
  bl_h :: "u64 list"
  bl_t :: "u64 list"
  bl_f :: "u64 list"
  bl_buf :: bytes
  buflen :: u64
  outlen :: u64
  last_node :: u8

text \<open>The packed parameter block. The three \<open>uint32_t\<close> fields are kept as the four bytes \<open>store32\<close> writes.\<close>

record blake2b_param =
  digest_length :: u8
  key_length :: u8
  fanout :: u8
  depth :: u8
  leaf_length :: bytes
  node_offset :: bytes
  xof_length :: bytes
  node_depth :: u8
  inner_length :: u8
  reserved :: bytes
  salt :: bytes
  personal :: bytes

definition param_bytes :: "blake2b_param \<Rightarrow> bytes" where
  "param_bytes P = [digest_length P, key_length P, fanout P, depth P] @ leaf_length P @ node_offset P @ xof_length P
     @ [node_depth P, inner_length P] @ reserved P @ salt P @ personal P"

definition blake2b_set_lastnode :: "blake2b_state \<Rightarrow> blake2b_state" where
  "blake2b_set_lastnode S = S\<lparr>bl_f := (bl_f S)[1 := - 1]\<rparr>"

definition blake2b_is_lastblock :: "blake2b_state \<Rightarrow> bool" where
  "blake2b_is_lastblock S = (bl_f S ! 0 \<noteq> 0)"

definition blake2b_set_lastblock :: "blake2b_state \<Rightarrow> blake2b_state" where
  "blake2b_set_lastblock S =
     (let S = (if last_node S \<noteq> 0 then blake2b_set_lastnode S else S)
      in S\<lparr>bl_f := (bl_f S)[0 := - 1]\<rparr>)"

definition blake2b_increment_counter :: "blake2b_state \<Rightarrow> u64 \<Rightarrow> blake2b_state" where
  "blake2b_increment_counter S inc =
     (let S = S\<lparr>bl_t := (bl_t S)[0 := bl_t S ! 0 + inc]\<rparr>
      in S\<lparr>bl_t := (bl_t S)[1 := bl_t S ! 1 + of_bool (bl_t S ! 0 < inc)]\<rparr>)"

section \<open>Compression\<close>

definition blake2b_G :: "nat \<Rightarrow> nat \<Rightarrow> u64 list \<Rightarrow> nat \<Rightarrow> nat \<Rightarrow> nat \<Rightarrow> nat \<Rightarrow> u64 list \<Rightarrow> u64 list" where
  "blake2b_G r i m a b c d v =
     (let v = v[a := v ! a + v ! b + m ! (blake2b_sigma ! r ! (2 * i + 0))];
          v = v[d := rotr64 (v ! d XOR v ! a) 32];
          v = v[c := v ! c + v ! d];
          v = v[b := rotr64 (v ! b XOR v ! c) 24];
          v = v[a := v ! a + v ! b + m ! (blake2b_sigma ! r ! (2 * i + 1))];
          v = v[d := rotr64 (v ! d XOR v ! a) 16];
          v = v[c := v ! c + v ! d]
      in v[b := rotr64 (v ! b XOR v ! c) 63])"

definition blake2b_ROUND :: "nat \<Rightarrow> u64 list \<Rightarrow> u64 list \<Rightarrow> u64 list" where
  "blake2b_ROUND r m v =
     (let v = blake2b_G r 0 m 0 4 8 12 v;
          v = blake2b_G r 1 m 1 5 9 13 v;
          v = blake2b_G r 2 m 2 6 10 14 v;
          v = blake2b_G r 3 m 3 7 11 15 v;
          v = blake2b_G r 4 m 0 5 10 15 v;
          v = blake2b_G r 5 m 1 6 11 12 v;
          v = blake2b_G r 6 m 2 7 8 13 v
      in blake2b_G r 7 m 3 4 9 14 v)"

definition blake2b_compress :: "blake2b_state \<Rightarrow> bytes \<Rightarrow> blake2b_state" where
  "blake2b_compress S block =
     (let m = replicate 16 0;
          v = replicate 16 0;
          m = for_range 0 16 (\<lambda>i m. m[i := blake2_load64 (drop (i * 8) block)]) m;
          v = for_range 0 8 (\<lambda>i v. v[i := bl_h S ! i]) v;
          v = v[8 := blake2b_IV ! 0];
          v = v[9 := blake2b_IV ! 1];
          v = v[10 := blake2b_IV ! 2];
          v = v[11 := blake2b_IV ! 3];
          v = v[12 := blake2b_IV ! 4 XOR bl_t S ! 0];
          v = v[13 := blake2b_IV ! 5 XOR bl_t S ! 1];
          v = v[14 := blake2b_IV ! 6 XOR bl_f S ! 0];
          v = v[15 := blake2b_IV ! 7 XOR bl_f S ! 1];
          v = blake2b_ROUND 0 m v;
          v = blake2b_ROUND 1 m v;
          v = blake2b_ROUND 2 m v;
          v = blake2b_ROUND 3 m v;
          v = blake2b_ROUND 4 m v;
          v = blake2b_ROUND 5 m v;
          v = blake2b_ROUND 6 m v;
          v = blake2b_ROUND 7 m v;
          v = blake2b_ROUND 8 m v;
          v = blake2b_ROUND 9 m v;
          v = blake2b_ROUND 10 m v;
          v = blake2b_ROUND 11 m v
      in S\<lparr>bl_h := for_range 0 8 (\<lambda>i h. h[i := h ! i XOR v ! i XOR v ! (i + 8)]) (bl_h S)\<rparr>)"

section \<open>Initialisation\<close>

definition blake2b_init0 :: "blake2b_state \<Rightarrow> blake2b_state" where
  "blake2b_init0 S =
     (let S = \<lparr>bl_h = replicate 8 0, bl_t = replicate 2 0, bl_f = replicate 2 0, bl_buf = replicate 128 0,
               buflen = 0, outlen = 0, last_node = 0\<rparr>
      in S\<lparr>bl_h := for_range 0 8 (\<lambda>i h. h[i := blake2b_IV ! i]) (bl_h S)\<rparr>)"

definition blake2b_init_param :: "blake2b_state \<Rightarrow> blake2b_param \<Rightarrow> blake2b_state \<times> int" where
  "blake2b_init_param S P =
     (let p = param_bytes P;
          S = blake2b_init0 S;
          S = S\<lparr>bl_h := for_range 0 8 (\<lambda>i h. h[i := h ! i XOR blake2_load64 (drop (8 * i) p)]) (bl_h S)\<rparr>;
          S = S\<lparr>outlen := ucast (digest_length P)\<rparr>
      in (S, 0))"

definition blake2b_init :: "blake2b_state \<Rightarrow> u64 \<Rightarrow> blake2b_state \<times> int" where
  "blake2b_init S outlen' =
     (if outlen' = 0 \<or> outlen' > BLAKE2B_OUTBYTES then (S, - 1)
      else
        let P = \<lparr>digest_length = ucast outlen', key_length = 0, fanout = 1, depth = 1,
                 leaf_length = blake2_store32 (replicate 4 0) 0, node_offset = blake2_store32 (replicate 4 0) 0,
                 xof_length = blake2_store32 (replicate 4 0) 0, node_depth = 0, inner_length = 0,
                 reserved = replicate 14 0, salt = replicate 16 0, personal = replicate 16 0\<rparr>
        in blake2b_init_param S P)"

section \<open>Absorbing input\<close>

function blake2b_update_loop :: "blake2b_state \<Rightarrow> bytes \<Rightarrow> u64 \<Rightarrow> blake2b_state \<times> bytes \<times> u64" where
  "blake2b_update_loop S inp inlen =
     (if inlen > BLAKE2B_BLOCKBYTES then
        let S = blake2b_increment_counter S BLAKE2B_BLOCKBYTES;
            S = blake2b_compress S inp;
            inp = drop (unat BLAKE2B_BLOCKBYTES) inp;
            inlen = inlen - BLAKE2B_BLOCKBYTES
        in blake2b_update_loop S inp inlen
      else (S, inp, inlen))"
  by pat_completeness auto
termination
  by (relation "measure (\<lambda>(S, inp, inlen). unat inlen)")
    (auto simp: BLAKE2B_BLOCKBYTES_def word_less_nat_alt unat_sub word_le_nat_alt)

declare blake2b_update_loop.simps [simp del]

definition blake2b_update :: "blake2b_state \<Rightarrow> bytes \<Rightarrow> u64 \<Rightarrow> blake2b_state \<times> int" where
  "blake2b_update S pin inlen =
     (let inp = pin;
          S = (if inlen > 0 then
                 let left = buflen S;
                     fill = BLAKE2B_BLOCKBYTES - left;
                     (S, inp, inlen) =
                       (if inlen > fill then
                          let S = S\<lparr>buflen := 0\<rparr>;
                              S = S\<lparr>bl_buf := blit (bl_buf S) (unat left) (take (unat fill) inp)\<rparr>;
                              S = blake2b_increment_counter S BLAKE2B_BLOCKBYTES;
                              S = blake2b_compress S (bl_buf S);
                              inp = drop (unat fill) inp;
                              inlen = inlen - fill
                          in blake2b_update_loop S inp inlen
                        else (S, inp, inlen));
                     S = S\<lparr>bl_buf := blit (bl_buf S) (unat (buflen S)) (take (unat inlen) inp)\<rparr>
                 in S\<lparr>buflen := buflen S + inlen\<rparr>
               else S)
      in (S, 0))"

definition blake2b_init_key :: "blake2b_state \<Rightarrow> u64 \<Rightarrow> bytes option \<Rightarrow> u64 \<Rightarrow> blake2b_state \<times> int" where
  "blake2b_init_key S outlen' key keylen =
     (if outlen' = 0 \<or> outlen' > BLAKE2B_OUTBYTES then (S, - 1)
      else
        case key of
          None \<Rightarrow> (S, - 1)
        | Some key \<Rightarrow>
            if keylen = 0 \<or> keylen > BLAKE2B_KEYBYTES then (S, - 1)
            else
              let P = \<lparr>digest_length = ucast outlen', key_length = ucast keylen, fanout = 1, depth = 1,
                       leaf_length = blake2_store32 (replicate 4 0) 0, node_offset = blake2_store32 (replicate 4 0) 0,
                       xof_length = blake2_store32 (replicate 4 0) 0, node_depth = 0, inner_length = 0,
                       reserved = replicate 14 0, salt = replicate 16 0, personal = replicate 16 0\<rparr>;
                  (S, rc) = blake2b_init_param S P
              in if rc < 0 then (S, - 1)
                 else
                   let block = replicate (unat BLAKE2B_BLOCKBYTES) 0;
                       block = blit block 0 (take (unat keylen) key);
                       (S, _) = blake2b_update S block BLAKE2B_BLOCKBYTES;
                       block = secure_zero_memory block (unat BLAKE2B_BLOCKBYTES)
                   in (S, 0))"

section \<open>Finalisation and the one-shot function\<close>

definition blake2b_final :: "blake2b_state \<Rightarrow> bytes option \<Rightarrow> u64 \<Rightarrow> blake2b_state \<times> bytes option \<times> int" where
  "blake2b_final S out outlen' =
     (let buffer = replicate (unat BLAKE2B_OUTBYTES) 0
      in case out of
           None \<Rightarrow> (S, out, - 1)
         | Some out' \<Rightarrow>
             if outlen' < outlen S then (S, out, - 1)
             else if blake2b_is_lastblock S then (S, out, - 1)
             else
               let S = blake2b_increment_counter S (buflen S);
                   S = blake2b_set_lastblock S;
                   S = S\<lparr>bl_buf := blit (bl_buf S) (unat (buflen S)) (replicate (unat (BLAKE2B_BLOCKBYTES - buflen S)) 0)\<rparr>;
                   S = blake2b_compress S (bl_buf S);
                   buffer = for_range 0 8 (\<lambda>i buffer. at_off (8 * i) (\<lambda>p. blake2_store64 p (bl_h S ! i)) buffer) buffer;
                   out' = blit out' 0 (take (unat (outlen S)) buffer);
                   buffer = secure_zero_memory buffer 64
               in (S, Some out', 0))"

definition blake2b :: "blake2b_state \<Rightarrow> bytes option \<Rightarrow> u64 \<Rightarrow> bytes option \<Rightarrow> u64 \<Rightarrow> bytes option \<Rightarrow> u64
    \<Rightarrow> bytes option \<times> int" where
  "blake2b S out outlen' inp inlen key keylen =
     (if inp = None \<and> inlen > 0 then (out, - 1)
      else if out = None then (out, - 1)
      else if key = None \<and> keylen > 0 then (out, - 1)
      else if outlen' = 0 \<or> outlen' > BLAKE2B_OUTBYTES then (out, - 1)
      else if keylen > BLAKE2B_KEYBYTES then (out, - 1)
      else
        let (S, rc) = (if keylen > 0 then blake2b_init_key S outlen' key keylen else blake2b_init S outlen')
        in if rc < 0 then (out, - 1)
           else
             let (S, _) = blake2b_update S (case inp of None \<Rightarrow> [] | Some b \<Rightarrow> b) inlen;
                 (S, out, _) = blake2b_final S out outlen'
             in (out, 0))"

definition blake2 :: "blake2b_state \<Rightarrow> bytes option \<Rightarrow> u64 \<Rightarrow> bytes option \<Rightarrow> u64 \<Rightarrow> bytes option \<Rightarrow> u64
    \<Rightarrow> bytes option \<times> int" where
  "blake2 S out outlen' inp inlen key keylen = blake2b S out outlen' inp inlen key keylen"

section \<open>Helpers and one round\<close>

lemma words_8:
  assumes "length s = 8"
  obtains x0 x1 x2 x3 x4 x5 x6 x7 where "s = [x0, x1, x2, x3, x4, x5, x6, x7]"
  using assms by (auto simp: numeral_eq_Suc length_Suc_conv)

lemma words_16:
  assumes "length s = 16"
  obtains x0 x1 x2 x3 x4 x5 x6 x7 x8 x9 x10 x11 x12 x13 x14 x15
  where "s = [x0, x1, x2, x3, x4, x5, x6, x7, x8, x9, x10, x11, x12, x13, x14, x15]"
  using assms by (auto simp: numeral_eq_Suc length_Suc_conv)

lemma blake2_load64_eq: "blake2_load64 b = load64_le b"
  by (simp add: blake2_load64_def load64_le_def load64_def)

lemma blake2_store64_eq:
  assumes "8 \<le> length b"
  shows "blake2_store64 b w = bytes_of_u64 w @ drop 8 b"
proof -
  have "length (take 8 b) = 8" using assms by simp
  then obtain x0 x1 x2 x3 x4 x5 x6 x7 where "take 8 b = [x0, x1, x2, x3, x4, x5, x6, x7]"
    by (rule words_8)
  moreover have "b = take 8 b @ drop 8 b" by simp
  ultimately have b: "b = [x0, x1, x2, x3, x4, x5, x6, x7] @ drop 8 b" by metis
  show ?thesis
    by (subst b) (simp add: blake2_store64_def bytes_of_u64_def Let_def)
qed

lemma blake2_store32_zero: "blake2_store32 (replicate 4 0) 0 = replicate 4 0"
  by (simp add: blake2_store32_def numeral_eq_Suc)

lemma blake2_load32_store32: "4 \<le> length b \<Longrightarrow> blake2_load32 (blake2_store32 b w) = w"
proof -
  assume "4 \<le> length b"
  then have "blake2_store32 b w = bytes_of_u32 w @ drop 4 b"
    by (auto simp: blake2_store32_def bytes_of_u32_def Let_def numeral_eq_Suc Suc_le_length_iff)
  moreover have "blake2_load32 p = load32 p" for p
    by (simp add: blake2_load32_def load32_def)
  ultimately show ?thesis by simp
qed

lemma rotr64_eq: "0 < c \<Longrightarrow> c < 64 \<Longrightarrow> rotr64 w c = word_rotr c w"
  using rotr_or [of c w] by (simp add: rotr64_def)

lemma blake2b_IV_eq: "blake2b_IV = blake2b_init_words"
  unfolding blake2b_IV_def blake2b_init_words_def primes80_eq by (simp add: square_roots_64)

lemma length_IV [simp]: "length blake2b_IV = 8"
  by (simp add: blake2b_IV_def)

lemma sigma_rows: "list_all (\<lambda>r. blake2b_sigma ! r = blake2b_schedule ! (r mod 10) \<and> length (blake2b_sigma ! r) = 16) [0..<12]"
  by (simp add: blake2b_sigma_def blake2b_schedule_def upt_rec)

lemma sigma_eq: "r < 12 \<Longrightarrow> blake2b_sigma ! r = blake2b_schedule ! (r mod 10)"
  and length_sigma: "r < 12 \<Longrightarrow> length (blake2b_sigma ! r) = 16"
  using sigma_rows [unfolded list_all_iff, THEN bspec, of r] by auto

declare blake_mix.simps [simp del]

lemma blake2b_G_eq:
  assumes "distinct [a, b, c, d]" and "a < length v" "b < length v" "c < length v" "d < length v"
    and s: "m ! (blake2b_sigma ! r ! (2 * i)) = x" "m ! (blake2b_sigma ! r ! (2 * i + 1)) = y"
  shows "blake2b_G r i m a b c d v =
    (case blake_mix x y (v ! a, v ! b, v ! c, v ! d) of (za, zb, zc, zd) \<Rightarrow> v[a := za, b := zb, c := zc, d := zd])"
proof -
  define a1 where "a1 = v ! a + v ! b + x"
  define d1 where "d1 = word_rotr 32 (v ! d XOR a1)"
  define c1 where "c1 = v ! c + d1"
  define b1 where "b1 = word_rotr 24 (v ! b XOR c1)"
  define a2 where "a2 = a1 + b1 + y"
  define d2 where "d2 = word_rotr 16 (d1 XOR a2)"
  define c2 where "c2 = c1 + d2"
  define b2 where "b2 = word_rotr 63 (b1 XOR c2)"
  have ne: "a \<noteq> b" "a \<noteq> c" "a \<noteq> d" "b \<noteq> a" "b \<noteq> c" "b \<noteq> d" "c \<noteq> a" "c \<noteq> b" "c \<noteq> d"
      "d \<noteq> a" "d \<noteq> b" "d \<noteq> c"
    using assms(1) by auto
  note len = assms(2-5)
  have rot: "rotr64 w 32 = word_rotr 32 w" "rotr64 w 24 = word_rotr 24 w" "rotr64 w 16 = word_rotr 16 w"
      "rotr64 w 63 = word_rotr 63 w" for w
    by (simp_all add: rotr64_eq)
  have "blake2b_G r i m a b c d v = v[a := a1, d := d1, c := c1, b := b1, a := a2, d := d2, c := c2, b := b2]"
    by (simp only: blake2b_G_def Let_def rot ne len s add_0_right nth_list_update_eq
        nth_list_update_neq length_list_update not_False_eq_True
        a1_def [symmetric] d1_def [symmetric] c1_def [symmetric] b1_def [symmetric]
        a2_def [symmetric] d2_def [symmetric] c2_def [symmetric] b2_def [symmetric])
  also have "\<dots> = v[a := a2, b := b2, c := c2, d := d2]"
    using assms by (intro nth_equalityI) (auto simp: nth_list_update)
  finally show ?thesis
    by (simp only: blake_mix.simps Let_def prod.case b2_def c2_def d2_def a2_def b1_def c1_def d1_def a1_def)
qed

lemma blake2b_ROUND_eq:
  assumes "length v = 16" and r: "r < 12"
  shows "blake2b_ROUND r m v = blake_round (map (\<lambda>j. m ! j) (blake2b_schedule ! (r mod 10))) v"
proof -
  define s where "s = map (\<lambda>j. m ! j) (blake2b_schedule ! (r mod 10))"
  have s: "m ! (blake2b_sigma ! r ! k) = s ! k" if "k < 16" for k
    using that length_sigma [OF r] by (simp add: s_def flip: sigma_eq [OF r])
  obtain x0 x1 x2 x3 x4 x5 x6 x7 x8 x9 x10 x11 x12 x13 x14 x15
    where v: "v = [x0, x1, x2, x3, x4, x5, x6, x7, x8, x9, x10, x11, x12, x13, x14, x15]"
    by (rule words_16 [OF assms(1)])
  obtain a0 a4 a8 a12 where a: "blake_mix (s ! 0) (s ! 1) (x0, x4, x8, x12) = (a0, a4, a8, a12)" by (metis prod_cases4)
  obtain a1 a5 a9 a13 where b: "blake_mix (s ! 2) (s ! 3) (x1, x5, x9, x13) = (a1, a5, a9, a13)" by (metis prod_cases4)
  obtain a2 a6 a10 a14 where c: "blake_mix (s ! 4) (s ! 5) (x2, x6, x10, x14) = (a2, a6, a10, a14)" by (metis prod_cases4)
  obtain a3 a7 a11 a15 where d: "blake_mix (s ! 6) (s ! 7) (x3, x7, x11, x15) = (a3, a7, a11, a15)" by (metis prod_cases4)
  obtain b0 b5 b10 b15 where e: "blake_mix (s ! 8) (s ! 9) (a0, a5, a10, a15) = (b0, b5, b10, b15)" by (metis prod_cases4)
  obtain b1 b6 b11 b12 where f: "blake_mix (s ! 10) (s ! 11) (a1, a6, a11, a12) = (b1, b6, b11, b12)" by (metis prod_cases4)
  obtain b2 b7 b8 b13 where g: "blake_mix (s ! 12) (s ! 13) (a2, a7, a8, a13) = (b2, b7, b8, b13)" by (metis prod_cases4)
  obtain b3 b4 b9 b14 where h: "blake_mix (s ! 14) (s ! 15) (a3, a4, a9, a14) = (b3, b4, b9, b14)" by (metis prod_cases4)
  have "blake_round s v = [b0, b1, b2, b3, b4, b5, b6, b7, b8, b9, b10, b11, b12, b13, b14, b15]"
    by (simp add: blake_round_def v a [unfolded One_nat_def] b c d e f g h)
  moreover have "blake2b_ROUND r m v = [b0, b1, b2, b3, b4, b5, b6, b7, b8, b9, b10, b11, b12, b13, b14, b15]"
    unfolding blake2b_ROUND_def v Let_def
    by (simp add: blake2b_G_eq [OF _ _ _ _ _ s s] a [unfolded One_nat_def] b c d e f g h)
  ultimately show ?thesis by (simp add: s_def)
qed

lemma length_blake_round [simp]: "length (blake_round s v) = 16"
  by (simp add: blake_round_def split: prod.splits)

section \<open>The compression function\<close>

text \<open>The two counter words of a number of bytes.\<close>

definition counter_words :: "nat \<Rightarrow> u64 list" where
  "counter_words n = [word_of_nat n, word_of_nat (n div 2 ^ 64)]"

lemma carry_word:
  fixes inc :: u64
  shows "word_of_nat (n div 2 ^ 64) + of_bool (word_of_nat n + inc < inc) = (word_of_nat ((n + unat inc) div 2 ^ 64) :: u64)"
proof -
  define q r where "q = n div 2 ^ 64" "r = n mod 2 ^ 64"
  have n: "n = 2 ^ 64 * q + r" and r: "r < 2 ^ 64" by (simp_all add: q_r_def)
  have i: "unat inc < 2 ^ 64" using unat_lt_word [of inc] by simp
  have "unat (word_of_nat n + inc) = (r + unat inc) mod 2 ^ 64"
    by (simp add: unat_word_ariths unat_of_nat q_r_def mod_simps)
  moreover have "(r + unat inc) mod 2 ^ 64 < unat inc \<longleftrightarrow> 2 ^ 64 \<le> r + unat inc"
    using r i by (auto simp: mod_if)
  ultimately have c: "(word_of_nat n + inc < inc) = (2 ^ 64 \<le> r + unat inc)"
    by (simp only: word_less_nat_alt)
  have "(n + unat inc) div 2 ^ 64 = q + (r + unat inc) div 2 ^ 64"
    unfolding n add.assoc by (rule div_mult_self4) simp
  moreover have "(r + unat inc) div 2 ^ 64 = of_bool (2 ^ 64 \<le> r + unat inc)"
    using r i by (auto simp: div_if)
  ultimately show ?thesis
    unfolding c by (simp add: q_r_def(1))
qed

lemma increment_counter_eq:
  "bl_t S = counter_words n \<Longrightarrow> blake2b_increment_counter S inc = S\<lparr>bl_t := counter_words (n + unat inc)\<rparr>"
  using carry_word [of n inc] by (simp add: blake2b_increment_counter_def counter_words_def Let_def)

lemma words64_le_take: "8 * n \<le> length b \<Longrightarrow> words64_le n (take (8 * n) b) = words64_le n b"
proof (unfold words64_le_def, intro map_cong refl)
  fix i assume b: "8 * n \<le> length b" and "i \<in> set [0..<n]"
  then have i: "8 * i + 8 \<le> 8 * n" by auto
  have "8 \<le> 8 * n - 8 * i" using i by linarith
  then have "take 8 (drop (8 * i) (take (8 * n) b)) = take 8 (drop (8 * i) b)"
    by (simp add: drop_take min_def)
  moreover have "8 \<le> length (drop (8 * i) (take (8 * n) b))" "8 \<le> length (drop (8 * i) b)"
    using b i by simp_all
  ultimately have "unat (load64 (drop (8 * i) (take (8 * n) b))) = unat (load64 (drop (8 * i) b))"
    by (simp only: unat_load64)
  then show "load64_le (drop (8 * i) (take (8 * n) b)) = load64_le (drop (8 * i) b)"
    unfolding load64_le_def by (rule word_unat_eqI)
qed

lemma length_F [simp]: "length (blake2b_F h x t l) = 8"
  by (simp add: blake2b_F_def Let_def)

lemma blake2b_compress_eq:
  assumes "length (bl_h S) = 8" "bl_t S = counter_words n" "bl_f S = [if fin then - 1 else 0, 0]" "128 \<le> length block"
  shows "blake2b_compress S block = S\<lparr>bl_h := blake2b_F (bl_h S) (take 128 block) n fin\<rparr>"
proof -
  define R where "R = (\<lambda>r. blake_round (map (\<lambda>j. words64_le 16 block ! j) (blake2b_schedule ! (r mod 10))))"
  obtain i0 i1 i2 i3 i4 i5 i6 i7 where iv: "blake2b_IV = [i0, i1, i2, i3, i4, i5, i6, i7]"
    by (rule words_8 [of blake2b_IV]) simp_all
  obtain h0 h1 h2 h3 h4 h5 h6 h7 where h: "bl_h S = [h0, h1, h2, h3, h4, h5, h6, h7]"
    by (rule words_8 [OF assms(1)])
  let ?v = "[h0, h1, h2, h3, h4, h5, h6, h7, i0, i1, i2, i3, i4 XOR word_of_nat n, i5 XOR word_of_nat (n div 2 ^ 64),
    i6 XOR (if fin then - 1 else 0), i7]"
  have m: "for_range 0 16 (\<lambda>i m. m[i := blake2_load64 (drop (i * 8) block)]) (replicate 16 0) = words64_le 16 block"
    by (simp add: for_range_store words64_le_def blake2_load64_eq mult.commute)
  have r: "blake2b_ROUND r (words64_le 16 block) v = R r v" if "length v = 16" "r < 12" for r v
    unfolding R_def by (rule blake2b_ROUND_eq [OF that])
  have lR: "length (R r v) = 16" for r v by (simp add: R_def)
  have z: "replicate 8 (0 :: u64) = [0, 0, 0, 0, 0, 0, 0, 0]"
    by (simp add: numeral_eq_Suc)
  have v0: "for_range 0 8 (\<lambda>i v. v[i := bl_h S ! i]) (replicate 16 0) = [h0, h1, h2, h3, h4, h5, h6, h7, 0, 0, 0, 0, 0, 0, 0, 0]"
    by (simp add: for_range_store h upt_rec z)
  have v: "(for_range 0 8 (\<lambda>i v. v[i := bl_h S ! i]) (replicate 16 0))[8 := blake2b_IV ! 0, 9 := blake2b_IV ! 1,
      10 := blake2b_IV ! 2, 11 := blake2b_IV ! 3, 12 := blake2b_IV ! 4 XOR bl_t S ! 0, 13 := blake2b_IV ! 5 XOR bl_t S ! 1,
      14 := blake2b_IV ! 6 XOR bl_f S ! 0, 15 := blake2b_IV ! 7 XOR bl_f S ! 1] = ?v"
    by (simp add: v0 iv assms(2,3) counter_words_def)
  have F: "blake2b_F (bl_h S) (take 128 block) n fin
      = map (\<lambda>i. bl_h S ! i XOR fold R [0..<12] ?v ! i XOR fold R [0..<12] ?v ! (i + 8)) [0..<8]"
    using words64_le_take [of 16 block] assms(4)
    by (simp add: blake2b_F_def Let_def R_def h iv flip: blake2b_IV_eq)
  have f: "fold R [0..<12] v = R 11 (R 10 (R 9 (R 8 (R 7 (R 6 (R 5 (R 4 (R 3 (R 2 (R 1 (R 0 v)))))))))))" for v
    by (simp add: upt_rec numeral_eq_Suc)
  define w where "w = R 11 (R 10 (R 9 (R 8 (R 7 (R 6 (R 5 (R 4 (R 3 (R 2 (R 1 (R 0 ?v)))))))))))"
  have w: "for_range 0 8 (\<lambda>i h. h[i := h ! i XOR w ! i XOR w ! (i + 8)]) (bl_h S)
      = map (\<lambda>i. bl_h S ! i XOR w ! i XOR w ! (i + 8)) [0..<8]"
    using for_range_update [of 8 "bl_h S" "\<lambda>i x. x XOR w ! i XOR w ! (i + 8)"] assms(1) by simp
  have rounds: "blake2b_ROUND 11 M (blake2b_ROUND 10 M (blake2b_ROUND 9 M (blake2b_ROUND 8 M (blake2b_ROUND 7 M (blake2b_ROUND 6 M
      (blake2b_ROUND 5 M (blake2b_ROUND 4 M (blake2b_ROUND 3 M (blake2b_ROUND 2 M (blake2b_ROUND 1 M (blake2b_ROUND 0 M ?v))))))))))) = w"
    if "M = words64_le 16 block" for M
    unfolding that w_def by (simp add: r lR)
  show ?thesis
    unfolding blake2b_compress_def Let_def m v F f rounds [OF refl] w_def [symmetric] w ..
qed

section \<open>What a state has absorbed\<close>

definition blocks_hash :: "u64 list \<Rightarrow> nat \<Rightarrow> bytes \<Rightarrow> u64 list" where
  "blocks_hash h0 n d = fold (\<lambda>i h. blake2b_F h (take 128 (drop (128 * i) d)) (128 * (i + 1)) False) [0..<n] h0"

lemma blocks_hash_0 [simp]: "blocks_hash h0 0 d = h0"
  by (simp add: blocks_hash_def)

lemma blocks_hash_Suc: "blocks_hash h0 (Suc n) d = blake2b_F (blocks_hash h0 n d) (take 128 (drop (128 * n) d)) (128 * Suc n) False"
  by (simp add: blocks_hash_def)

lemma blocks_hash_append: "128 * n \<le> length d \<Longrightarrow> blocks_hash h0 n (d @ e) = blocks_hash h0 n d"
  by (induction n) (simp_all add: blocks_hash_Suc)

lemma length_blocks_hash: "length h0 = 8 \<Longrightarrow> length (blocks_hash h0 n d) = 8"
  by (cases n) (simp_all add: blocks_hash_Suc)

lemma chain_blocks:
  "n = 0 \<or> 128 * n < length d \<Longrightarrow>
    blake2b_chain h0 0 d = blake2b_chain (blocks_hash h0 n d) (128 * n) (drop (128 * n) d)"
proof (induction n)
  case (Suc n)
  then have l: "128 * Suc n < length d" by simp
  then have "blake2b_chain h0 0 d = blake2b_chain (blocks_hash h0 n d) (128 * n) (drop (128 * n) d)"
    by (intro Suc.IH) simp
  also have "\<dots> = blake2b_chain (blocks_hash h0 (Suc n) d) (128 * Suc n) (drop (128 * Suc n) d)"
  proof -
    have "\<not> length (drop (128 * n) d) \<le> 128" using l by simp
    then show ?thesis
      by (subst blake2b_chain.simps) (simp add: blocks_hash_Suc add.commute)
  qed
  finally show ?case .
qed simp

text \<open>The types of the fields: array lengths and ranges that every operation keeps.\<close>

definition blake2b_typed :: "blake2b_state \<Rightarrow> bool" where
  "blake2b_typed S \<longleftrightarrow> length (bl_h S) = 8 \<and> length (bl_t S) = 2 \<and> length (bl_f S) = 2 \<and> length (bl_buf S) = 128
     \<and> buflen S \<le> 128 \<and> 0 < outlen S \<and> outlen S \<le> 64"

definition absorbed :: "u64 list \<Rightarrow> bytes \<Rightarrow> blake2b_state \<Rightarrow> bool" where
  "absorbed h0 d S \<longleftrightarrow> blake2b_typed S \<and> length h0 = 8 \<and> bl_f S = [0, 0] \<and> last_node S = 0
     \<and> (\<exists>n. length d = 128 * n + unat (buflen S) \<and> (n = 0 \<or> 0 < buflen S) \<and> bl_h S = blocks_hash h0 n d
          \<and> bl_t S = counter_words (128 * n) \<and> take (unat (buflen S)) (bl_buf S) = drop (128 * n) d)"

lemma update_loop_correct:
  assumes "blake2b_update_loop S inp inlen = (S', inp', inlen')"
    and "drop (128 * n) D = take (unat inlen) inp" "unat inlen \<le> length inp" "0 < inlen"
    and "length h0 = 8" "bl_h S = blocks_hash h0 n D" "bl_t S = counter_words (128 * n)" "bl_f S = [0, 0]"
  shows "\<exists>n'. S' = S\<lparr>bl_h := blocks_hash h0 n' D, bl_t := counter_words (128 * n')\<rparr> \<and> 0 < inlen' \<and> inlen' \<le> 128
    \<and> drop (128 * n') D = take (unat inlen') inp' \<and> unat inlen' \<le> length inp'"
  using assms
proof (induction S inp inlen arbitrary: n rule: blake2b_update_loop.induct)
  case (1 S inp inlen)
  show ?case
  proof (cases "inlen > BLAKE2B_BLOCKBYTES")
    case False
    then have "S' = S" "inp' = inp" "inlen' = inlen"
      using "1.prems"(1) by (simp_all add: blake2b_update_loop.simps [of S])
    then show ?thesis
      using False "1.prems" by (intro exI [of _ n]) (simp add: BLAKE2B_BLOCKBYTES_def not_less)
  next
    case True
    then have big: "128 < unat inlen" by (simp add: BLAKE2B_BLOCKBYTES_def word_less_nat_alt)
    let ?n = "Suc n"
    define T where "T = S\<lparr>bl_h := blocks_hash h0 ?n D, bl_t := counter_words (128 * ?n)\<rparr>"
    have t: "take 128 inp = take 128 (drop (128 * n) D)"
      using "1.prems"(2) big by simp
    have lh: "length (blocks_hash h0 n D) = 8" by (rule length_blocks_hash) (rule "1.prems"(5))
    have u: "unat BLAKE2B_BLOCKBYTES = 128" by (simp add: BLAKE2B_BLOCKBYTES_def)
    have c: "blake2b_increment_counter S BLAKE2B_BLOCKBYTES = S\<lparr>bl_t := counter_words (128 * n + 128)\<rparr>"
      using increment_counter_eq [OF "1.prems"(7), of BLAKE2B_BLOCKBYTES] unfolding u .
    have T: "blake2b_compress (blake2b_increment_counter S BLAKE2B_BLOCKBYTES) inp = T"
      using blake2b_compress_eq [of "S\<lparr>bl_t := counter_words (128 * n + 128)\<rparr>" "128 * n + 128" False inp] "1.prems"(3,6,8) lh big
      by (simp add: c T_def t blocks_hash_Suc add.commute)
    have len: "unat (inlen - BLAKE2B_BLOCKBYTES) = unat inlen - 128"
      using big by (simp add: BLAKE2B_BLOCKBYTES_def unat_sub word_le_nat_alt)
    have step: "blake2b_update_loop T (drop 128 inp) (inlen - BLAKE2B_BLOCKBYTES) = (S', inp', inlen')"
      using "1.prems"(1) True by (subst (asm) blake2b_update_loop.simps) (simp add: T u)
    have d: "drop (128 * ?n) D = take (unat (inlen - BLAKE2B_BLOCKBYTES)) (drop 128 inp)"
    proof -
      have "drop (128 * ?n) D = drop 128 (take (unat inlen) inp)"
        unfolding "1.prems"(2) [symmetric] by (simp add: add.commute)
      then show ?thesis by (simp only: len drop_take)
    qed
    have pos: "0 < inlen - BLAKE2B_BLOCKBYTES" using big len by (simp add: word_less_nat_alt)
    have "\<exists>n'. S' = T\<lparr>bl_h := blocks_hash h0 n' D, bl_t := counter_words (128 * n')\<rparr> \<and> 0 < inlen' \<and> inlen' \<le> 128
      \<and> drop (128 * n') D = take (unat inlen') inp' \<and> unat inlen' \<le> length inp'"
      by (rule "1.IH" [OF True refl T [symmetric], unfolded u, OF refl refl step d _ pos "1.prems"(5)])
        (use "1.prems"(3,8) len in \<open>simp_all add: T_def\<close>)
    then show ?thesis by (simp add: T_def)
  qed
qed

lemma absorbedE:
  assumes "absorbed h0 d S"
  obtains n where "length d = 128 * n + unat (buflen S)" "n = 0 \<or> 0 < buflen S" "bl_h S = blocks_hash h0 n d"
    "bl_t S = counter_words (128 * n)" "take (unat (buflen S)) (bl_buf S) = drop (128 * n) d"
    "blake2b_typed S" "length h0 = 8" "bl_f S = [0, 0]" "last_node S = 0"
  using assms by (auto simp: absorbed_def)

lemma typed_buflen: "blake2b_typed S \<Longrightarrow> unat (buflen S) \<le> 128"
  by (simp add: blake2b_typed_def word_le_nat_alt)

lemma update_correct:
  assumes "absorbed h0 d S" and "unat len \<le> length inp"
  shows "absorbed h0 (d @ take (unat len) inp) (fst (blake2b_update S inp len))"
proof -
  obtain n where n: "length d = 128 * n + unat (buflen S)" "n = 0 \<or> 0 < buflen S" "bl_h S = blocks_hash h0 n d"
      "bl_t S = counter_words (128 * n)" "take (unat (buflen S)) (bl_buf S) = drop (128 * n) d"
    and S: "blake2b_typed S" "length h0 = 8" "bl_f S = [0, 0]" "last_node S = 0"
    using assms(1) by (rule absorbedE)
  note b = typed_buflen [OF S(1)]
  have buf: "length (bl_buf S) = 128" using S(1) by (simp add: blake2b_typed_def)
  define fill where "fill = BLAKE2B_BLOCKBYTES - buflen S"
  have fill: "unat fill = 128 - unat (buflen S)"
    using b by (simp add: fill_def BLAKE2B_BLOCKBYTES_def unat_sub word_le_nat_alt)
  let ?D = "d @ take (unat len) inp"
  have hD: "bl_h S = blocks_hash h0 n ?D"
    using n(1,3) by (simp add: blocks_hash_append)
  have dD: "drop (128 * n) ?D = take (unat (buflen S)) (bl_buf S) @ take (unat len) inp"
    using n(1,5) by simp
  show ?thesis
  proof (cases "len = 0")
    case True
    then show ?thesis using assms(1) by (simp add: blake2b_update_def Let_def)
  next
    case nz: False
    then have pos: "0 < len" by (simp add: word_neq_0_conv)
    show ?thesis
    proof (cases "len > fill")
      case False
      then have le: "unat len \<le> 128 - unat (buflen S)" using fill by (simp add: word_le_nat_alt not_less)
      have u: "unat (buflen S + len) = unat (buflen S) + unat len"
        using le b by (intro unat_add_small) simp
      have "fst (blake2b_update S inp len)
          = S\<lparr>bl_buf := blit (bl_buf S) (unat (buflen S)) (take (unat len) inp), buflen := buflen S + len\<rparr>"
        using False pos by (simp add: blake2b_update_def Let_def fill_def [symmetric])
      moreover have "take (unat (buflen S) + unat len) (blit (bl_buf S) (unat (buflen S)) (take (unat len) inp)) = drop (128 * n) ?D"
        unfolding dD using assms(2) le buf b by (simp add: blit_def)
      moreover have "0 < buflen S + len" using u pos by (simp add: word_less_nat_alt)
      moreover have "length ?D = 128 * n + unat (buflen S + len)" using n(1) assms(2) by (simp add: u)
      moreover have "buflen S + len \<le> 128" using u le b by (simp add: word_le_nat_alt)
      ultimately show ?thesis
        using S n(4) hD assms(2) buf b le u by (simp add: absorbed_def blake2b_typed_def length_blit)
    next
      case True
      then have gt: "128 - unat (buflen S) < unat len" using fill by (simp add: word_less_nat_alt)
      define buf1 where "buf1 = blit (bl_buf S) (unat (buflen S)) (take (unat fill) inp)"
      have buf1: "buf1 = take 128 (drop (128 * n) ?D)" "length buf1 = 128"
      proof -
        have "drop (unat (buflen S) + unat fill) (bl_buf S) = []" using buf b by (simp add: fill)
        then show e: "buf1 = take 128 (drop (128 * n) ?D)"
          using assms(2) gt b buf unfolding dD by (simp add: buf1_def blit_def fill min_def)
        show "length buf1 = 128" using gt assms(2) b n(1) by (simp add: e)
      qed
      define T where "T = S\<lparr>buflen := 0, bl_buf := buf1, bl_h := blocks_hash h0 (Suc n) ?D, bl_t := counter_words (128 * Suc n)\<rparr>"
      have u: "unat BLAKE2B_BLOCKBYTES = 128" by (simp add: BLAKE2B_BLOCKBYTES_def)
      have c: "blake2b_increment_counter (S\<lparr>buflen := 0, bl_buf := buf1\<rparr>) BLAKE2B_BLOCKBYTES
          = S\<lparr>buflen := 0, bl_buf := buf1, bl_t := counter_words (128 * n + 128)\<rparr>"
        using increment_counter_eq [of "S\<lparr>buflen := 0, bl_buf := buf1\<rparr>" "128 * n" BLAKE2B_BLOCKBYTES] n(4) unfolding u by simp
      have bs: "blocks_hash h0 (Suc n) ?D = blake2b_F (blocks_hash h0 n ?D) buf1 (128 * n + 128) False"
        by (simp only: blocks_hash_Suc buf1(1) mult_Suc_right add.commute)
      have T: "blake2b_compress (S\<lparr>buflen := 0, bl_buf := buf1, bl_t := counter_words (128 * n + 128)\<rparr>) buf1 = T"
        using blake2b_compress_eq [of "S\<lparr>buflen := 0, bl_buf := buf1, bl_t := counter_words (128 * n + 128)\<rparr>" "128 * n + 128" False buf1]
          S length_blocks_hash [OF S(2), of n ?D] buf1(2)
        by (simp add: T_def hD bs add.commute)
      obtain S' inp' len' where loop: "blake2b_update_loop T (drop (unat fill) inp) (len - fill) = (S', inp', len')"
        by (cases "blake2b_update_loop T (drop (unat fill) inp) (len - fill)")
      have lf: "unat (len - fill) = unat len - unat fill"
        using True by (simp add: unat_sub word_le_nat_alt word_less_nat_alt)
      have "drop (128 * Suc n) ?D = drop 128 (drop (128 * n) ?D)" by (simp only: drop_drop mult_Suc_right)
      also have "\<dots> = take (unat (len - fill)) (drop (unat fill) inp)"
        unfolding dD using b buf by (simp add: fill lf drop_take)
      finally have rest: "drop (128 * Suc n) ?D = take (unat (len - fill)) (drop (unat fill) inp)" .
      obtain n' where n': "S' = T\<lparr>bl_h := blocks_hash h0 n' ?D, bl_t := counter_words (128 * n')\<rparr>" "0 < len'" "len' \<le> 128"
        "drop (128 * n') ?D = take (unat len') inp'" "unat len' \<le> length inp'"
      proof -
        have "unat (len - fill) \<le> length (drop (unat fill) inp)" using assms(2) lf by simp
        moreover have "0 < len - fill" using gt lf fill by (simp add: word_less_nat_alt)
        moreover have "bl_h T = blocks_hash h0 (Suc n) ?D" "bl_t T = counter_words (128 * Suc n)" "bl_f T = [0, 0]"
          using S(3) by (simp_all add: T_def)
        ultimately show ?thesis
          using update_loop_correct [OF loop rest _ _ S(2)] that by blast
      qed
      have l': "unat len' \<le> 128" "0 < unat len'" using n'(2,3) by (simp_all add: word_le_nat_alt word_less_nat_alt)
      have "fst (blake2b_update S inp len) = S'\<lparr>bl_buf := blit buf1 0 (take (unat len') inp'), buflen := len'\<rparr>"
      proof -
        have "fst (blake2b_update S inp len)
            = S'\<lparr>bl_buf := blit (bl_buf S') (unat (buflen S')) (take (unat len') inp'), buflen := buflen S' + len'\<rparr>"
          using True pos by (simp add: blake2b_update_def Let_def fill_def [symmetric] buf1_def [symmetric] c T loop)
        then show ?thesis by (simp add: n'(1) T_def)
      qed
      moreover have "take (unat len') (blit buf1 0 (take (unat len') inp')) = drop (128 * n') ?D"
        using n'(4,5) by (simp add: blit_def)
      moreover have "length (blit buf1 0 (take (unat len') inp')) = 128"
        using n'(5) l' buf1(2) by (simp add: length_blit)
      moreover have "length ?D = 128 * n' + unat len'"
        using arg_cong [OF n'(4), of length] n'(5) l'(2) by simp
      ultimately show ?thesis
        using S n' length_blocks_hash [OF S(2)]
        by (simp add: absorbed_def blake2b_typed_def T_def counter_words_def)
    qed
  qed
qed

lemma digest_stored:
  assumes "length h = 8"
  shows "for_range 0 8 (\<lambda>i buffer. at_off (8 * i) (\<lambda>p. blake2_store64 p (h ! i)) buffer) (replicate 64 0) = bytes64_le h"
proof -
  have l: "length (bytes_of_u64 w) = 8" for w by (simp add: bytes_of_u64_def)
  have "for_range 0 8 (\<lambda>i buffer. at_off (8 * i) (\<lambda>p. blake2_store64 p (h ! i)) buffer) (replicate 64 0)
      = for_range 0 8 (\<lambda>i buffer. blit buffer (8 * i) (bytes_of_u64 (h ! i))) (replicate 64 0)"
  proof -
    have "for_range 0 k (\<lambda>i buffer. at_off (8 * i) (\<lambda>p. blake2_store64 p (h ! i)) buffer) (replicate 64 0)
        = for_range 0 k (\<lambda>i buffer. blit buffer (8 * i) (bytes_of_u64 (h ! i))) (replicate 64 0)
      \<and> length (for_range 0 k (\<lambda>i buffer. blit buffer (8 * i) (bytes_of_u64 (h ! i))) (replicate 64 0)) = 64" if "k \<le> 8" for k
      using that
    proof (induction k)
      case (Suc k)
      then show ?case
        by (simp add: for_range_last length_blit l at_off_def blake2_store64_eq blit_def add.commute [of 8])
    qed simp
    then show ?thesis by simp
  qed
  also have "\<dots> = concat (map (\<lambda>i. bytes_of_u64 (h ! i)) [0..<8]) @ drop (8 * 8) (replicate 64 0)"
    by (rule for_range_chunks) (simp_all add: l)
  also have "map (\<lambda>i. bytes_of_u64 (h ! i)) [0..<8] = map bytes_of_u64 h"
    using assms by (intro nth_equalityI) simp_all
  finally show ?thesis by (simp add: bytes64_le_def)
qed

lemma final_correct:
  assumes "absorbed h0 d S" and "outlen S \<le> olen" and "unat (outlen S) \<le> length out"
  shows "snd (blake2b_final S (Some out) olen)
    = (Some (take (unat (outlen S)) (bytes64_le (blake2b_chain h0 0 d)) @ drop (unat (outlen S)) out), 0)"
proof -
  obtain n where n: "length d = 128 * n + unat (buflen S)" "n = 0 \<or> 0 < buflen S" "bl_h S = blocks_hash h0 n d"
      "bl_t S = counter_words (128 * n)" "take (unat (buflen S)) (bl_buf S) = drop (128 * n) d"
    and S: "blake2b_typed S" "length h0 = 8" "bl_f S = [0, 0]" "last_node S = 0"
    using assms(1) by (rule absorbedE)
  note b = typed_buflen [OF S(1)]
  have buf: "length (bl_buf S) = 128" and ol: "unat (outlen S) \<le> 64"
    using S(1) by (simp_all add: blake2b_typed_def word_le_nat_alt)
  have "n = 0 \<or> 128 * n < length d" using n(1,2) by (auto simp: word_less_nat_alt)
  then have chain: "blake2b_chain h0 0 d = blake2b_F (blocks_hash h0 n d) (zero_pad 128 (drop (128 * n) d)) (length d) True"
    using b n(1) by (subst chain_blocks [of n]) (auto simp: blake2b_chain.simps)
  have fill: "unat (BLAKE2B_BLOCKBYTES - buflen S) = 128 - unat (buflen S)"
    using b by (simp add: BLAKE2B_BLOCKBYTES_def unat_sub word_le_nat_alt)
  have pad: "blit (bl_buf S) (unat (buflen S)) (replicate (128 - unat (buflen S)) 0) = zero_pad 128 (drop (128 * n) d)"
    using buf b n(1) by (simp add: blit_def zero_pad_def n(5))
  have c: "blake2b_increment_counter S (buflen S) = S\<lparr>bl_t := counter_words (length d)\<rparr>"
    using increment_counter_eq [OF n(4), of "buflen S"] by (simp add: n(1))
  define T where "T = S\<lparr>bl_t := counter_words (length d), bl_f := [- 1, 0], bl_buf := zero_pad 128 (drop (128 * n) d)\<rparr>"
  have lz: "length (zero_pad 128 (drop (128 * n) d)) = 128" using n(1) b by (simp add: zero_pad_def)
  have T: "blake2b_compress T (zero_pad 128 (drop (128 * n) d)) = T\<lparr>bl_h := blake2b_chain h0 0 d\<rparr>"
    using blake2b_compress_eq [of T "length d" True "zero_pad 128 (drop (128 * n) d)"] lz length_blocks_hash [OF S(2)]
    by (simp add: T_def chain n(3))
  have "length (blake2b_chain h0 0 d) = 8" unfolding chain by simp
  from digest_stored [OF this]
  have "snd (blake2b_final S (Some out) olen)
      = (Some (blit out 0 (take (unat (outlen S)) (bytes64_le (blake2b_chain h0 0 d)))), 0)"
    using assms(2) S T by (simp add: blake2b_final_def Let_def blake2b_is_lastblock_def c blake2b_set_lastblock_def fill pad
        not_less BLAKE2B_OUTBYTES_def flip: T_def) (simp add: T_def)
  moreover have "length (bytes64_le (blake2b_chain h0 0 d)) = 64"
    using \<open>length (blake2b_chain h0 0 d) = 8\<close> by (simp add: bytes64_le_def length_concat comp_def bytes_of_u64_def sum_list_triv)
  ultimately show ?thesis using ol by (simp add: blit_0 min_def)
qed

section \<open>Initialised states have absorbed nothing, or the padded key\<close>

lemma load64_zeros: "8 \<le> k \<Longrightarrow> load64_le (replicate k 0) = 0"
  by (simp add: load64_le_def load64_def)

lemma parameter_word:
  fixes a b :: u8
  shows "ucast a OR push_bit 8 (ucast b) OR push_bit 16 1 OR push_bit 24 1 = (0x01010000 :: u64) XOR push_bit 8 (ucast b) XOR ucast a"
proof -
  define c :: u64 where "c = 0x01010000"
  have "take_bit 16 c = 0" by (simp add: c_def)
  then have c: "bit c i \<Longrightarrow> 16 \<le> i" for i
    by (metis bit_0_eq bit_take_bit_iff bot_apply bot_bool_def not_le)
  have u: "bit a i \<Longrightarrow> i < 8" "bit b i \<Longrightarrow> i < 8" for i by (auto dest: bit_imp_le_length)
  have "ucast a OR push_bit 8 (ucast b) OR c = c XOR push_bit 8 (ucast b) XOR ucast a"
  proof (rule bit_word_eqI)
    fix i :: nat
    show "bit (ucast a OR push_bit 8 (ucast b) OR c) i = bit (c XOR push_bit 8 (ucast b) XOR ucast a) i" if "i < LENGTH(64)"
      using u(1) [of i] u(2) [of "i - 8"] c [of i] by (auto simp: bit_simps)
  qed
  then show ?thesis by (simp add: c_def or.assoc)
qed

lemma init_param_correct:
  assumes P: "P = \<lparr>digest_length = ucast nn, key_length = ucast kk, fanout = 1, depth = 1,
      leaf_length = blake2_store32 (replicate 4 0) 0, node_offset = blake2_store32 (replicate 4 0) 0,
      xof_length = blake2_store32 (replicate 4 0) 0, node_depth = 0, inner_length = 0,
      reserved = replicate 14 0, salt = replicate 16 0, personal = replicate 16 0\<rparr>"
    and nn: "0 < nn" "nn \<le> (64 :: u64)" and kk: "kk \<le> (64 :: u64)"
  shows "snd (blake2b_init_param S P) = 0" "outlen (fst (blake2b_init_param S P)) = nn"
    "absorbed (blake2b_h0 (unat nn) (unat kk)) [] (fst (blake2b_init_param S P))"
proof -
  let ?a = "ucast nn :: u8" and ?b = "ucast kk :: u8"
  have w: "ucast ?a = nn" "ucast ?b = kk"
    using nn(2) kk by (auto intro!: word_unat_eqI simp: unat_ucast_up unat_ucast_down word_le_nat_alt)
  have p: "param_bytes P = [?a, ?b, 1, 1] @ replicate 60 0"
    unfolding param_bytes_def P blake2b_param.simps blake2_store32_zero by (simp add: numeral_eq_Suc)
  have z: "blake2_load64 (drop (8 * i) (param_bytes P)) = 0" if "i \<in> {1..<8}" for i
  proof -
    have "drop (8 * i) [?a, ?b, 1, 1] = []" using that by simp
    then have "drop (8 * i) (param_bytes P) = replicate (60 - (8 * i - 4)) 0"
      unfolding p drop_append by simp
    moreover have "8 \<le> 60 - (8 * i - 4)" using that by auto
    ultimately show ?thesis by (simp only: blake2_load64_eq load64_zeros)
  qed
  have f: "blake2_load64 (param_bytes P) = 0x01010000 XOR push_bit 8 kk XOR nn"
    using parameter_word [of ?a ?b] unfolding p blake2_load64_eq
    by (simp add: load64_le_def load64_def w or.assoc)
  obtain i0 i1 i2 i3 i4 i5 i6 i7 where iv: "blake2b_IV = [i0, i1, i2, i3, i4, i5, i6, i7]"
    by (rule words_8 [of blake2b_IV]) simp_all
  have h0: "for_range 0 8 (\<lambda>i h. h[i := blake2b_IV ! i]) (replicate 8 0) = blake2b_IV"
    by (simp add: for_range_store iv upt_rec)
  have h: "for_range 0 8 (\<lambda>i h. h[i := h ! i XOR blake2_load64 (drop (8 * i) (param_bytes P))]) blake2b_IV
      = blake2b_h0 (unat nn) (unat kk)"
  proof -
    have "for_range 0 8 (\<lambda>i h. h[i := h ! i XOR blake2_load64 (drop (8 * i) (param_bytes P))]) blake2b_IV
        = map (\<lambda>i. blake2b_IV ! i XOR blake2_load64 (drop (8 * i) (param_bytes P))) [0..<8]"
      using for_range_update [of 8 blake2b_IV "\<lambda>i x. x XOR blake2_load64 (drop (8 * i) (param_bytes P))"] by simp
    also have "\<dots> = (blake2b_IV ! 0 XOR (0x01010000 XOR push_bit 8 kk XOR nn)) # map (\<lambda>i. blake2b_IV ! i) [1..<8]"
    proof -
      have "map (\<lambda>i. blake2b_IV ! i XOR blake2_load64 (drop (8 * i) (param_bytes P))) [1..<8] = map (\<lambda>i. blake2b_IV ! i) [1..<8]"
        using z by (intro map_cong refl) (simp only: set_upt xor.right_neutral)
      moreover have "[0..<8] = 0 # [1..<8 :: nat]" by (simp only: upt_conv_Cons One_nat_def zero_less_numeral)
      ultimately show ?thesis
        by (simp only: list.map mult_0_right drop_0 f)
    qed
    also have "\<dots> = blake2b_h0 (unat nn) (unat kk)"
      unfolding blake2b_h0_def blake2b_IV_eq [symmetric] iv by (simp add: upt_rec xor.assoc)
    finally show ?thesis .
  qed
  have R: "blake2b_init_param S P = (\<lparr>bl_h = blake2b_h0 (unat nn) (unat kk), bl_t = replicate 2 0, bl_f = replicate 2 0,
      bl_buf = replicate 128 0, buflen = 0, outlen = nn, last_node = 0\<rparr>, 0)"
    using w(1) by (simp add: blake2b_init_param_def blake2b_init0_def Let_def h0 h) (simp add: P)
  have l: "length (blake2b_h0 (unat nn) (unat kk)) = 8"
    by (simp add: blake2b_h0_def flip: blake2b_IV_eq)
  show "snd (blake2b_init_param S P) = 0" "outlen (fst (blake2b_init_param S P)) = nn"
    by (simp_all add: R)
  show "absorbed (blake2b_h0 (unat nn) (unat kk)) [] (fst (blake2b_init_param S P))"
    using nn l by (simp add: R absorbed_def blake2b_typed_def counter_words_def numeral_2_eq_2)
qed

lemma range_nonzero: "0 < (w :: u64) \<Longrightarrow> w \<le> b \<Longrightarrow> w \<noteq> 0 \<and> \<not> b < w"
  by auto

lemma init_correct:
  assumes "0 < nn" "nn \<le> 64"
  shows "snd (blake2b_init S nn) = 0" "outlen (fst (blake2b_init S nn)) = nn"
    "absorbed (blake2b_h0 (unat nn) 0) [] (fst (blake2b_init S nn))"
  using range_nonzero [OF assms] init_param_correct [OF refl assms, of 0 S]
  by (simp_all add: blake2b_init_def Let_def BLAKE2B_OUTBYTES_def)

lemma update_frame_outlen: "outlen (fst (blake2b_update_loop S inp len)) = outlen S"
proof (induction S inp len rule: blake2b_update_loop.induct)
  case (1 S inp len)
  then show ?case
    by (subst blake2b_update_loop.simps) (simp add: Let_def blake2b_compress_def blake2b_increment_counter_def)
qed

lemma update_outlen: "outlen (fst (blake2b_update S inp len)) = outlen S"
  using update_frame_outlen
  by (simp add: blake2b_update_def Let_def case_prod_beta blake2b_compress_def blake2b_increment_counter_def)

lemma init_key_correct:
  assumes "0 < nn" "nn \<le> 64" "0 < kk" "kk \<le> 64" "unat kk \<le> length key"
  shows "snd (blake2b_init_key S nn (Some key) kk) = 0" "outlen (fst (blake2b_init_key S nn (Some key) kk)) = nn"
    "absorbed (blake2b_h0 (unat nn) (unat kk)) (zero_pad 128 (take (unat kk) key)) (fst (blake2b_init_key S nn (Some key) kk))"
proof -
  define T where "T = fst (blake2b_init_param S \<lparr>digest_length = ucast nn, key_length = ucast kk, fanout = 1, depth = 1,
      leaf_length = blake2_store32 (replicate 4 0) 0, node_offset = blake2_store32 (replicate 4 0) 0,
      xof_length = blake2_store32 (replicate 4 0) 0, node_depth = 0, inner_length = 0,
      reserved = replicate 14 0, salt = replicate 16 0, personal = replicate 16 0\<rparr>)"
  note T = init_param_correct [OF refl assms(1,2,4), of S, folded T_def]
  have k: "unat kk \<le> 64" using assms(4) by (simp add: word_le_nat_alt)
  have block: "blit (replicate 128 0) 0 (take (unat kk) key) = zero_pad 128 (take (unat kk) key)"
    using assms(5) k by (simp add: blit_0 zero_pad_def)
  have R: "blake2b_init_key S nn (Some key) kk = (fst (blake2b_update T (zero_pad 128 (take (unat kk) key)) 128), 0)"
    using range_nonzero [OF assms(1,2)] range_nonzero [OF assms(3,4)] T(1) block
    by (simp add: blake2b_init_key_def Let_def case_prod_beta BLAKE2B_OUTBYTES_def BLAKE2B_KEYBYTES_def BLAKE2B_BLOCKBYTES_def
        not_less flip: T_def)
  have "length (zero_pad 128 (take (unat kk) key)) = 128" using k assms(5) by (simp add: zero_pad_def)
  with update_correct [OF T(3), of 128 "zero_pad 128 (take (unat kk) key)"]
  show "absorbed (blake2b_h0 (unat nn) (unat kk)) (zero_pad 128 (take (unat kk) key)) (fst (blake2b_init_key S nn (Some key) kk))"
    by (simp add: R)
  show "snd (blake2b_init_key S nn (Some key) kk) = 0" "outlen (fst (blake2b_init_key S nn (Some key) kk)) = nn"
    by (simp_all add: R update_outlen T(2))
qed

section \<open>The one-shot function\<close>

definition opt_bytes :: "bytes option \<Rightarrow> bytes" where
  "opt_bytes p = (case p of None \<Rightarrow> [] | Some b \<Rightarrow> b)"

lemma length_hash: "nn \<le> 64 \<Longrightarrow> length (blake2b_hash nn k m) = nn"
proof -
  assume nn: "nn \<le> 64"
  have l: "length (blake2b_chain h t d) = 8" for h t d
    by (induction h t d rule: blake2b_chain.induct) (subst blake2b_chain.simps, simp)
  show ?thesis
    using nn by (simp add: blake2b_hash_def bytes64_le_def length_concat comp_def bytes_of_u64_def sum_list_triv l)
qed

lemma keyed_start:
  assumes "0 < nn" "nn \<le> 64" "kk \<le> 64" "unat kk \<le> length (opt_bytes key)" "key \<noteq> None \<or> kk = 0"
    and T: "T = (if kk > 0 then blake2b_init_key S nn key kk else blake2b_init S nn)"
  shows "snd T = 0" "outlen (fst T) = nn"
    "absorbed (blake2b_h0 (unat nn) (length (take (unat kk) (opt_bytes key)))) (blake2b_data (take (unat kk) (opt_bytes key)) []) (fst T)"
proof -
  have "snd T = 0 \<and> outlen (fst T) = nn
    \<and> absorbed (blake2b_h0 (unat nn) (length (take (unat kk) (opt_bytes key)))) (blake2b_data (take (unat kk) (opt_bytes key)) []) (fst T)"
  proof (cases "kk = 0")
    case True
    then show ?thesis using init_correct [OF assms(1,2), of S] T by (simp add: blake2b_data_def)
  next
    case False
    then obtain k where k: "key = Some k" "0 < kk" using assms(5) by (auto simp: word_neq_0_conv)
    then have "take (unat kk) k \<noteq> []" using assms(4) by (auto simp: opt_bytes_def word_less_nat_alt)
    then show ?thesis
      using init_key_correct [OF assms(1,2) k(2) assms(3), of k S] assms(4) k T by (simp add: opt_bytes_def blake2b_data_def)
  qed
  then show "snd T = 0" "outlen (fst T) = nn"
    "absorbed (blake2b_h0 (unat nn) (length (take (unat kk) (opt_bytes key)))) (blake2b_data (take (unat kk) (opt_bytes key)) []) (fst T)"
    by simp_all
qed

lemma data_append: "blake2b_data k [] @ m = blake2b_data k m"
  by (simp add: blake2b_data_def)

lemma blake2b_eq:
  assumes "unat inlen \<le> length (opt_bytes inp)" "unat kk \<le> length (opt_bytes key)" "unat nn \<le> length out"
  shows "blake2b S (Some out) nn inp inlen key kk =
    (if inp = None \<and> inlen > 0 \<or> key = None \<and> kk > 0 \<or> nn = 0 \<or> nn > 64 \<or> kk > 64 then (Some out, - 1)
     else (Some (blake2b_hash (unat nn) (take (unat kk) (opt_bytes key)) (take (unat inlen) (opt_bytes inp)) @ drop (unat nn) out), 0))"
proof (cases "inp = None \<and> inlen > 0 \<or> key = None \<and> kk > 0 \<or> nn = 0 \<or> nn > 64 \<or> kk > 64")
  case True
  then show ?thesis by (auto simp: blake2b_def BLAKE2B_OUTBYTES_def BLAKE2B_KEYBYTES_def)
next
  case False
  then have nn: "0 < nn" "nn \<le> 64" and kk: "kk \<le> 64" and key: "key \<noteq> None \<or> kk = 0"
    by (auto simp: word_neq_0_conv not_less)
  define T where "T = (if kk > 0 then blake2b_init_key S nn key kk else blake2b_init S nn)"
  note T = keyed_start [OF nn kk assms(2) key T_def]
  let ?m = "take (unat inlen) (opt_bytes inp)" and ?k = "take (unat kk) (opt_bytes key)"
  define U where "U = fst (blake2b_update (fst T) (opt_bytes inp) inlen)"
  have U: "absorbed (blake2b_h0 (unat nn) (length ?k)) (blake2b_data ?k ?m) U"
    using update_correct [OF T(3) assms(1)] unfolding U_def data_append .
  have o: "outlen U = nn" by (simp add: U_def update_outlen T(2))
  have "snd (blake2b_final U (Some out) nn) = (Some (blake2b_hash (unat nn) ?k ?m @ drop (unat nn) out), 0)"
    using final_correct [OF U, of nn out] assms(3) by (simp add: o blake2b_hash_def)
  then have "fst (snd (blake2b_final U (Some out) nn)) = Some (blake2b_hash (unat nn) ?k ?m @ drop (unat nn) out)"
    by simp
  moreover have "blake2b S (Some out) nn inp inlen key kk = (fst (snd (blake2b_final U (Some out) nn)), 0)"
  proof -
    have e: "(inp = None \<and> 0 < inlen) = False" "(key = None \<and> 0 < kk) = False" "(nn = 0 \<or> 64 < nn) = False" "(64 < kk) = False"
      using False by auto
    show ?thesis
      unfolding blake2b_def BLAKE2B_OUTBYTES_def BLAKE2B_KEYBYTES_def e T_def [symmetric]
      using T(1) by (simp add: Let_def case_prod_beta U_def opt_bytes_def)
  qed
  ultimately show ?thesis using False by simp
qed

section \<open>The life of a state\<close>

text \<open>A step is a call of the streaming interface with buffers of the sizes announced, whatever it returns; a life starts
  with a successful initialisation.\<close>

inductive blake2b_step :: "blake2b_state \<Rightarrow> blake2b_state \<Rightarrow> bool" where
  update: "unat len \<le> length inp \<Longrightarrow> blake2b_step S (fst (blake2b_update S inp len))"
| final: "(case out of None \<Rightarrow> True | Some b \<Rightarrow> unat (outlen S) \<le> length b) \<Longrightarrow> blake2b_step S (fst (blake2b_final S out olen))"

inductive blake2b_reachable :: "blake2b_state \<Rightarrow> bool" where
  init: "blake2b_init S0 nn = (S, 0) \<Longrightarrow> blake2b_reachable S"
| init_key: "blake2b_init_key S0 nn (Some key) kk = (S, 0) \<Longrightarrow> unat kk \<le> length key \<Longrightarrow> blake2b_reachable S"
| step: "blake2b_reachable S \<Longrightarrow> blake2b_step S T \<Longrightarrow> blake2b_reachable T"

inductive_cases blake2b_stepE: "blake2b_step S T"

text \<open>What the pieces of an operation may change.\<close>

lemma compress_frame: "\<exists>h. length h = length (bl_h S) \<and> blake2b_compress S b = S\<lparr>bl_h := h\<rparr>"
  by (rule exI [of _ "bl_h (blake2b_compress S b)"]) (simp add: blake2b_compress_def Let_def for_range_length)

lemma increment_frame: "\<exists>t. length t = length (bl_t S) \<and> blake2b_increment_counter S inc = S\<lparr>bl_t := t\<rparr>"
  by (rule exI [of _ "bl_t (blake2b_increment_counter S inc)"]) (simp add: blake2b_increment_counter_def Let_def)

lemma update_loop_frame:
  "unat len \<le> length inp \<Longrightarrow> \<exists>h t inp' len'. length h = length (bl_h S) \<and> length t = length (bl_t S) \<and> len' \<le> 128
    \<and> unat len' \<le> length inp' \<and> blake2b_update_loop S inp len = (S\<lparr>bl_h := h, bl_t := t\<rparr>, inp', len')"
proof (induction S inp len rule: blake2b_update_loop.induct)
  case (1 S inp len)
  show ?case
  proof (cases "len > BLAKE2B_BLOCKBYTES")
    case False
    then show ?thesis
      using "1.prems" by (subst blake2b_update_loop.simps) (force simp: BLAKE2B_BLOCKBYTES_def)
  next
    case True
    obtain t where t: "length t = length (bl_t S)" "blake2b_increment_counter S BLAKE2B_BLOCKBYTES = S\<lparr>bl_t := t\<rparr>"
      using increment_frame by blast
    obtain h where h: "length h = length (bl_h S)" "blake2b_compress (S\<lparr>bl_t := t\<rparr>) inp = S\<lparr>bl_t := t, bl_h := h\<rparr>"
      using compress_frame [of "S\<lparr>bl_t := t\<rparr>" inp] by auto
    have len: "unat (len - BLAKE2B_BLOCKBYTES) \<le> length (drop (unat BLAKE2B_BLOCKBYTES) inp)"
      using True "1.prems" by (simp add: BLAKE2B_BLOCKBYTES_def unat_sub word_le_nat_alt word_less_nat_alt)
    have "\<exists>h' t' inp' len'. length h' = length (bl_h (S\<lparr>bl_t := t, bl_h := h\<rparr>)) \<and> length t' = length (bl_t (S\<lparr>bl_t := t, bl_h := h\<rparr>)) \<and> len' \<le> 128
      \<and> unat len' \<le> length inp' \<and> blake2b_update_loop (S\<lparr>bl_t := t, bl_h := h\<rparr>) (drop (unat BLAKE2B_BLOCKBYTES) inp) (len - BLAKE2B_BLOCKBYTES)
        = ((S\<lparr>bl_t := t, bl_h := h\<rparr>)\<lparr>bl_h := h', bl_t := t'\<rparr>, inp', len')"
      by (rule "1.IH" [OF True t(2) [symmetric] h(2) [symmetric] refl refl len])
    then show ?thesis
      using True t h by (subst blake2b_update_loop.simps) (auto simp: Let_def)
  qed
qed

lemma update_typed:
  assumes "blake2b_typed S" and "unat len \<le> length inp"
  shows "blake2b_typed (fst (blake2b_update S inp len))" "bl_f (fst (blake2b_update S inp len)) = bl_f S"
    "last_node (fst (blake2b_update S inp len)) = last_node S"
proof -
  note b = typed_buflen [OF assms(1)]
  define fill where "fill = BLAKE2B_BLOCKBYTES - buflen S"
  have fill: "unat fill = 128 - unat (buflen S)"
    using b by (simp add: fill_def BLAKE2B_BLOCKBYTES_def unat_sub word_le_nat_alt)
  have "blake2b_typed (fst (blake2b_update S inp len)) \<and> bl_f (fst (blake2b_update S inp len)) = bl_f S
    \<and> last_node (fst (blake2b_update S inp len)) = last_node S"
  proof (cases "len > fill")
    case False
    then have le: "unat len \<le> 128 - unat (buflen S)" using fill by (simp add: word_le_nat_alt not_less)
    have u: "unat (buflen S + len) = unat (buflen S) + unat len"
      using le b by (intro unat_add_small) simp
    then have "buflen S + len \<le> 128" using le b by (simp add: word_le_nat_alt)
    then show ?thesis
      using False assms le b by (simp add: blake2b_update_def Let_def blake2b_typed_def length_blit flip: fill_def)
  next
    case True
    then have pos: "0 < len" by (rule le_less_trans [rotated]) simp
    define B where "B = blit (bl_buf S) (unat (buflen S)) (take (unat fill) inp)"
    have lB: "length B = 128"
      using assms b True fill by (simp add: B_def length_blit blake2b_typed_def word_less_nat_alt)
    obtain t where t: "length t = length (bl_t S)"
        "blake2b_increment_counter (S\<lparr>buflen := 0, bl_buf := B\<rparr>) BLAKE2B_BLOCKBYTES = S\<lparr>buflen := 0, bl_buf := B, bl_t := t\<rparr>"
      using increment_frame [of "S\<lparr>buflen := 0, bl_buf := B\<rparr>"] by auto
    obtain h where h: "length h = length (bl_h S)"
        "blake2b_compress (S\<lparr>buflen := 0, bl_buf := B, bl_t := t\<rparr>) B = S\<lparr>buflen := 0, bl_buf := B, bl_t := t, bl_h := h\<rparr>"
      using compress_frame [of "S\<lparr>buflen := 0, bl_buf := B, bl_t := t\<rparr>"] by auto
    define T where "T = S\<lparr>buflen := 0, bl_buf := B, bl_t := t, bl_h := h\<rparr>"
    have "unat (len - fill) \<le> length (drop (unat fill) inp)"
      using True assms(2) by (simp add: unat_sub word_le_nat_alt word_less_nat_alt)
    from update_loop_frame [OF this, of T] obtain h' t' inp' len' where l: "length h' = length (bl_h T)" "length t' = length (bl_t T)"
        "len' \<le> 128" "unat len' \<le> length inp'" "blake2b_update_loop T (drop (unat fill) inp) (len - fill) = (T\<lparr>bl_h := h', bl_t := t'\<rparr>, inp', len')"
      by blast
    have "fst (blake2b_update S inp len) = T\<lparr>bl_h := h', bl_t := t', bl_buf := blit B 0 (take (unat len') inp'), buflen := len'\<rparr>"
    proof -
      have "buflen T = 0" "bl_buf T = B" by (simp_all add: T_def)
      then show ?thesis
        using True pos by (simp add: blake2b_update_def Let_def l(5) t(2) h(2) flip: fill_def B_def T_def)
    qed
    moreover have "length (blit B 0 (take (unat len') inp')) = 128"
      using l(3,4) lB by (simp add: length_blit word_le_nat_alt)
    ultimately show ?thesis
      using assms(1) t(1) h(1) l by (simp add: T_def blake2b_typed_def)
  qed
  then show "blake2b_typed (fst (blake2b_update S inp len))" "bl_f (fst (blake2b_update S inp len)) = bl_f S"
    "last_node (fst (blake2b_update S inp len)) = last_node S" by simp_all
qed

lemma final_refused:
  "out = None \<or> olen < outlen S \<or> blake2b_is_lastblock S \<Longrightarrow> blake2b_final S out olen = (S, out, - 1)"
  by (auto simp: blake2b_final_def Let_def split: option.splits)

lemma final_accepted:
  assumes "blake2b_typed S" "outlen S \<le> olen" "\<not> blake2b_is_lastblock S" "last_node S = 0"
  obtains S' out' where "blake2b_final S (Some out) olen = (S', Some out', 0)" "blake2b_typed S'"
    "bl_f S' = (bl_f S)[0 := - 1]" "last_node S' = 0"
proof -
  note b = typed_buflen [OF assms(1)]
  obtain t where t: "length t = length (bl_t S)" "blake2b_increment_counter S (buflen S) = S\<lparr>bl_t := t\<rparr>"
    using increment_frame by blast
  define B where "B = blit (bl_buf S) (unat (buflen S)) (replicate (unat (BLAKE2B_BLOCKBYTES - buflen S)) 0)"
  define T where "T = S\<lparr>bl_t := t, bl_f := (bl_f S)[0 := - 1], bl_buf := B\<rparr>"
  obtain h where h: "length h = length (bl_h S)" "blake2b_compress T B = T\<lparr>bl_h := h\<rparr>"
    using compress_frame [of T B] by (auto simp: T_def)
  have "length B = 128"
    using assms(1) b by (simp add: B_def length_blit blake2b_typed_def BLAKE2B_BLOCKBYTES_def unat_sub word_le_nat_alt)
  then have ty: "blake2b_typed (T\<lparr>bl_h := h\<rparr>)"
    using assms(1) t(1) h(1) by (simp add: T_def blake2b_typed_def)
  have "fst (blake2b_final S (Some out) olen) = T\<lparr>bl_h := h\<rparr>" "snd (snd (blake2b_final S (Some out) olen)) = 0"
    "fst (snd (blake2b_final S (Some out) olen)) \<noteq> None"
    using assms(2-4) by (simp_all add: blake2b_final_def Let_def t(2) blake2b_set_lastblock_def not_less h(2) flip: B_def T_def)
  then show ?thesis
    using that [of "T\<lparr>bl_h := h\<rparr>"] ty assms(4) by (cases "blake2b_final S (Some out) olen") (auto simp: T_def)
qed

text \<open>The invariant of a life: typed fields, no last-node flag, and the finalisation flag clear or set.\<close>

definition blake2b_live :: "blake2b_state \<Rightarrow> bool" where
  "blake2b_live S \<longleftrightarrow> blake2b_typed S \<and> last_node S = 0 \<and> (bl_f S = [0, 0] \<or> bl_f S = [- 1, 0])"

lemma final_live:
  assumes "blake2b_live S"
  shows "blake2b_live (fst (blake2b_final S out olen))"
    "blake2b_is_lastblock S \<Longrightarrow> blake2b_is_lastblock (fst (blake2b_final S out olen))"
proof -
  have "blake2b_live (fst (blake2b_final S out olen))
    \<and> (blake2b_is_lastblock S \<longrightarrow> blake2b_is_lastblock (fst (blake2b_final S out olen)))"
  proof (cases "out = None \<or> olen < outlen S \<or> blake2b_is_lastblock S")
    case True
    then show ?thesis using assms by (simp add: final_refused)
  next
    case False
    then obtain b where b: "out = Some b" and ok: "outlen S \<le> olen" "\<not> blake2b_is_lastblock S"
      by (auto simp: not_less)
    obtain S' out' where "blake2b_final S (Some b) olen = (S', Some out', 0)" "blake2b_typed S'"
      "bl_f S' = (bl_f S)[0 := - 1]" "last_node S' = 0"
      by (rule final_accepted [OF _ ok]) (use assms in \<open>simp_all add: blake2b_live_def\<close>)
    then show ?thesis
      using assms ok(2) b by (auto simp: blake2b_live_def)
  qed
  then show "blake2b_live (fst (blake2b_final S out olen))"
    "blake2b_is_lastblock S \<Longrightarrow> blake2b_is_lastblock (fst (blake2b_final S out olen))" by simp_all
qed

lemma update_live:
  assumes "blake2b_live S" "unat len \<le> length inp"
  shows "blake2b_live (fst (blake2b_update S inp len))"
    "blake2b_is_lastblock (fst (blake2b_update S inp len)) = blake2b_is_lastblock S"
  using assms update_typed [of S len inp] by (simp_all add: blake2b_live_def blake2b_is_lastblock_def)

lemma step_live:
  assumes "blake2b_step S T" "blake2b_live S"
  shows "blake2b_live T" "blake2b_is_lastblock S \<Longrightarrow> blake2b_is_lastblock T"
  using assms update_live final_live by (auto elim!: blake2b_stepE)

lemma absorbed_live: "absorbed h0 d S \<Longrightarrow> blake2b_live S"
  by (auto simp: absorbed_def blake2b_live_def)

lemma reachable_live: "blake2b_reachable S \<Longrightarrow> blake2b_live S"
proof (induction rule: blake2b_reachable.induct)
  case (init S0 nn S)
  then have "0 < nn" "nn \<le> 64"
    by (auto simp: blake2b_init_def BLAKE2B_OUTBYTES_def word_neq_0_conv not_less split: if_splits)
  from init_correct(3) [OF this, of S0] show ?case using init absorbed_live by simp
next
  case (init_key S0 nn key kk S)
  then have "0 < nn" "nn \<le> 64" "0 < kk" "kk \<le> 64"
    by (auto simp: blake2b_init_key_def BLAKE2B_OUTBYTES_def BLAKE2B_KEYBYTES_def word_neq_0_conv not_less split: if_splits)
  from init_key_correct(3) [OF this, of key S0] show ?case using init_key absorbed_live by simp
next
  case (step S T)
  then show ?case by (blast intro: step_live)
qed

lemma finalised_forever:
  assumes "blake2b_step\<^sup>*\<^sup>* S T" "blake2b_live S" "blake2b_is_lastblock S"
  shows "blake2b_live T \<and> blake2b_is_lastblock T"
  using assms by (induction rule: rtranclp_induct) (auto dest: step_live)

text \<open>The lives of a state, with what the client saw: the flag says whether a call of \<open>final\<close> has succeeded.\<close>

inductive blake2b_life :: "blake2b_state \<Rightarrow> bool \<Rightarrow> bool" where
  init: "blake2b_init S0 nn = (S, 0) \<Longrightarrow> blake2b_life S False"
| init_key: "blake2b_init_key S0 nn (Some key) kk = (S, 0) \<Longrightarrow> unat kk \<le> length key \<Longrightarrow> blake2b_life S False"
| update: "blake2b_life S finished \<Longrightarrow> unat len \<le> length inp \<Longrightarrow> blake2b_life (fst (blake2b_update S inp len)) finished"
| final: "blake2b_life S finished \<Longrightarrow> (case out of None \<Rightarrow> True | Some b \<Rightarrow> unat (outlen S) \<le> length b)
    \<Longrightarrow> blake2b_final S out olen = (T, out', rc) \<Longrightarrow> blake2b_life T (finished \<or> rc = 0)"

lemma absorbed_unmarked: "absorbed h0 d S \<Longrightarrow> blake2b_live S \<and> \<not> blake2b_is_lastblock S"
  by (simp add: absorbed_live) (simp add: absorbed_def blake2b_is_lastblock_def)

lemma init_unmarked:
  assumes "blake2b_init S0 nn = (S, 0)"
  shows "blake2b_live S" "\<not> blake2b_is_lastblock S"
proof -
  have "0 < nn" "nn \<le> 64"
    using assms by (auto simp: blake2b_init_def BLAKE2B_OUTBYTES_def word_neq_0_conv not_less split: if_splits)
  from init_correct(3) [OF this, of S0] show "blake2b_live S" "\<not> blake2b_is_lastblock S"
    using assms absorbed_unmarked by auto
qed

lemma init_key_unmarked:
  assumes "blake2b_init_key S0 nn (Some key) kk = (S, 0)" "unat kk \<le> length key"
  shows "blake2b_live S" "\<not> blake2b_is_lastblock S"
proof -
  have "0 < nn" "nn \<le> 64" "0 < kk" "kk \<le> 64"
    using assms(1) by (auto simp: blake2b_init_key_def BLAKE2B_OUTBYTES_def BLAKE2B_KEYBYTES_def word_neq_0_conv not_less split: if_splits)
  from init_key_correct(3) [OF this assms(2), of S0] show "blake2b_live S" "\<not> blake2b_is_lastblock S"
    using assms absorbed_unmarked by auto
qed

lemma final_marks:
  assumes "blake2b_live S" "blake2b_final S out olen = (T, out', rc)"
  shows "blake2b_live T" "blake2b_is_lastblock T \<longleftrightarrow> blake2b_is_lastblock S \<or> rc = 0"
    "out = Some b \<Longrightarrow> outlen S \<le> olen \<Longrightarrow> rc = (if blake2b_is_lastblock S then - 1 else 0)"
proof -
  show "blake2b_live T" using final_live(1) [OF assms(1), of out olen] assms(2) by simp
  have "(blake2b_is_lastblock T \<longleftrightarrow> blake2b_is_lastblock S \<or> rc = 0)
    \<and> (out = Some b \<longrightarrow> outlen S \<le> olen \<longrightarrow> rc = (if blake2b_is_lastblock S then - 1 else 0))"
  proof (cases "out = None \<or> olen < outlen S \<or> blake2b_is_lastblock S")
    case True
    then show ?thesis using assms(2) by (auto simp: final_refused)
  next
    case False
    then obtain o' where o': "out = Some o'" "outlen S \<le> olen" "\<not> blake2b_is_lastblock S" by (auto simp: not_less)
    obtain S' p where "blake2b_final S (Some o') olen = (S', Some p, 0)" "bl_f S' = (bl_f S)[0 := - 1]"
      by (rule final_accepted [OF _ o'(2,3)]) (use assms(1) in \<open>simp_all add: blake2b_live_def\<close>)
    then show ?thesis using assms o' by (auto simp: blake2b_is_lastblock_def blake2b_live_def)
  qed
  then show "blake2b_is_lastblock T \<longleftrightarrow> blake2b_is_lastblock S \<or> rc = 0"
    "out = Some b \<Longrightarrow> outlen S \<le> olen \<Longrightarrow> rc = (if blake2b_is_lastblock S then - 1 else 0)" by blast+
qed

lemma life_live: "blake2b_life S finished \<Longrightarrow> blake2b_live S \<and> (blake2b_is_lastblock S \<longleftrightarrow> finished)"
proof (induction rule: blake2b_life.induct)
  case (final S finished out olen T out' rc)
  then show ?case using final_marks(1,2) by blast
qed (simp_all add: init_unmarked init_key_unmarked update_live)

section \<open>Properties\<close>

text \<open>A state in memory that was never initialised, for the examples.\<close>

definition stale_state :: blake2b_state where
  "stale_state = \<lparr>bl_h = replicate 8 3, bl_t = [7, 7], bl_f = [1, 1], bl_buf = replicate 128 9, buflen = 500, outlen = 0, last_node = 1\<rparr>"

text \<open>C22. The one-shot function on every branch: it answers -1 and leaves the output as it is for a missing output buffer, a missing
  input buffer of positive length, a missing key of positive length, a digest length outside 1 to 64 or a key longer than 64 bytes, and
  otherwise answers 0 with the BLAKE2b digest of RFC 7693 of the first \<open>inlen\<close> bytes under the first \<open>keylen\<close> bytes of the key in the
  first \<open>outlen\<close> bytes of the output, whatever the memory of its local state held before. The buffers that are not missing are as
  long as the client says.\<close>

theorem blake2b_correct:
  assumes "\<And>b. inp = Some b \<Longrightarrow> unat inlen \<le> length b" and "\<And>b. key = Some b \<Longrightarrow> unat keylen \<le> length b"
    and "\<And>b. out = Some b \<Longrightarrow> unat nn \<le> length b"
  shows "blake2b S out nn inp inlen key keylen =
    (if inp = None \<and> inlen > 0 \<or> out = None \<or> key = None \<and> keylen > 0 \<or> nn = 0 \<or> nn > 64 \<or> keylen > 64 then (out, - 1)
     else (Some (blake2b_hash (unat nn) (take (unat keylen) (opt_bytes key)) (take (unat inlen) (opt_bytes inp)) @ drop (unat nn) (opt_bytes out)), 0))"
proof (cases "inp = None \<and> inlen > 0 \<or> out = None \<or> key = None \<and> keylen > 0 \<or> nn = 0 \<or> nn > 64 \<or> keylen > 64")
  case True
  then show ?thesis by (auto simp: blake2b_def BLAKE2B_OUTBYTES_def BLAKE2B_KEYBYTES_def)
next
  case False
  then obtain b where b: "out = Some b" by auto
  have "unat inlen \<le> length (opt_bytes inp)" "unat keylen \<le> length (opt_bytes key)"
    using False assms(1,2) by (auto simp: opt_bytes_def word_neq_0_conv [symmetric] split: option.split)
  from blake2b_eq [OF this assms(3) [OF b], of S] show ?thesis using False by (simp add: b opt_bytes_def)
qed

theorem blake2b_correct_witness:
  "blake2b stale_state (Some (replicate 33 9)) 32 (Some [1, 2, 3]) 3 (Some [7, 8]) 2 = (Some (blake2b_hash 32 [7, 8] [1, 2, 3] @ [9]), 0)
    \<and> blake2b stale_state (Some [9]) 0 (Some [1, 2, 3]) 3 None 0 = (Some [9], - 1)
    \<and> blake2b stale_state None 32 (Some [1, 2, 3]) 3 None 0 = (None, - 1)
    \<and> blake2b stale_state (Some (replicate 32 9)) 32 None 3 None 0 = (Some (replicate 32 9), - 1)
    \<and> blake2b stale_state (Some (replicate 32 9)) 32 None 0 None 5 = (Some (replicate 32 9), - 1)"
  using blake2b_correct [of "Some [1, 2, 3]" 3 "Some [7, 8]" 2 "Some (replicate 33 9)" 32 stale_state]
    blake2b_correct [of "Some [1, 2, 3]" 3 None 0 "Some [9]" 0 stale_state]
    blake2b_correct [of "Some [1, 2, 3]" 3 None 0 None 32 stale_state]
    blake2b_correct [of None 3 None 0 "Some (replicate 32 9)" 32 stale_state]
    blake2b_correct [of None 0 None 5 "Some (replicate 32 9)" 32 stale_state]
  by (simp add: opt_bytes_def)

text \<open>C23. Streaming refines the one-shot hash: after an initialisation with a key of at most 64 bytes (or without one), any sequence of
  updates, of any lengths including zero and lengths that end inside or at the end of a block, makes \<open>final\<close> write the digest
  of the concatenation. The state it keeps is an abstraction of the bytes absorbed so far, with the last block held back.\<close>

theorem blake2b_streaming_correct:
  assumes "0 < nn" and "nn \<le> 64" and "kk \<le> 64" and "unat kk = length key"
    and "\<forall>x \<in> set xs. length x < 2 ^ 64" and "unat nn \<le> length out" and "nn \<le> olen"
  shows "snd (blake2b_final (foldl (\<lambda>S x. fst (blake2b_update S x (word_of_nat (length x))))
        (fst (if kk > 0 then blake2b_init_key S nn (Some key) kk else blake2b_init S nn)) xs) (Some out) olen)
    = (Some (blake2b_hash (unat nn) key (concat xs) @ drop (unat nn) out), 0)"
proof -
  define T where "T = (if kk > 0 then blake2b_init_key S nn (Some key) kk else blake2b_init S nn)"
  have T: "outlen (fst T) = nn" "absorbed (blake2b_h0 (unat nn) (length key)) (blake2b_data key []) (fst T)"
    using keyed_start [OF assms(1-3) _ _ T_def] assms(4) by (simp_all add: opt_bytes_def T_def)
  have "absorbed h0 (d @ concat xs) (foldl (\<lambda>S x. fst (blake2b_update S x (word_of_nat (length x)))) S xs)
      \<and> outlen (foldl (\<lambda>S x. fst (blake2b_update S x (word_of_nat (length x)))) S xs) = outlen S"
    if "absorbed h0 d S" "\<forall>x \<in> set xs. length x < 2 ^ 64" for h0 d S xs
    using that
  proof (induction xs arbitrary: S d)
    case (Cons x xs)
    then have "unat (word_of_nat (length x) :: u64) = length x" by (simp add: unat_of_nat)
    with update_correct [OF Cons.prems(1), of "word_of_nat (length x)" x]
    have "absorbed h0 (d @ x) (fst (blake2b_update S x (word_of_nat (length x))))" by simp
    from Cons.IH [OF this] Cons.prems(2) show ?case by (simp add: update_outlen)
  qed simp
  note U = this [OF T(2) assms(5), unfolded data_append T(1)]
  then show ?thesis
    using final_correct [OF conjunct1 [OF U], of olen out] assms(6,7)
    by (simp add: blake2b_hash_def flip: T_def)
qed

theorem blake2b_streaming_correct_witness:
  "snd (blake2b_final (foldl (\<lambda>S x. fst (blake2b_update S x (word_of_nat (length x))))
      (fst (blake2b_init_key stale_state 20 (Some [5]) 1)) [replicate 128 1, [], [2, 3]]) (Some (replicate 20 0)) 64)
    = (Some (blake2b_hash 20 [5] (replicate 128 1 @ [2, 3])), 0)"
  using blake2b_streaming_correct [of 20 1 "[5]" "[replicate 128 1, [], [2, 3]]" "replicate 20 0" 64 stale_state] by simp

text \<open>C24. Types of the state: from a successful initialisation on, through updates and finalisations in any order and with any
  results, the arrays keep their sizes, the buffer length stays within the block, the digest length between 1 and 64, the
  last-node flag off and the two finalisation words at their two legal values.\<close>

theorem blake2b_state_typed:
  assumes "blake2b_reachable S"
  shows "length (bl_h S) = 8 \<and> length (bl_t S) = 2 \<and> length (bl_buf S) = 128 \<and> unat (buflen S) \<le> 128
    \<and> 1 \<le> unat (outlen S) \<and> unat (outlen S) \<le> 64 \<and> last_node S = 0 \<and> (bl_f S = [0, 0] \<or> bl_f S = [- 1, 0])"
  using reachable_live [OF assms] by (auto simp: blake2b_live_def blake2b_typed_def word_le_nat_alt word_less_nat_alt)

theorem blake2b_state_typed_witness:
  "length (bl_buf (fst (blake2b_update (fst (blake2b_init stale_state 32)) (replicate 300 7) 300))) = 128"
proof -
  have "blake2b_reachable (fst (blake2b_init stale_state 32))"
    by (rule blake2b_reachable.init [of stale_state 32]) (simp add: prod_eq_iff init_correct)
  then have "blake2b_reachable (fst (blake2b_update (fst (blake2b_init stale_state 32)) (replicate 300 7) 300))"
    by (rule blake2b_reachable.step) (rule blake2b_step.update, simp)
  from blake2b_state_typed [OF this] show ?thesis by simp
qed

text \<open>C25. A state is finalised exactly once. The statement is about what the client sees: in every life of the state, with updates and
  finalisations in any order, a call of \<open>final\<close> with a large enough buffer answers 0 when no call before it has answered 0, and -1
  when one has; and from then on, whatever calls follow, \<open>final\<close> refuses every buffer and changes nothing.\<close>

theorem blake2b_finalise_once:
  assumes "blake2b_life S finished" and "outlen S \<le> olen" and "unat (outlen S) \<le> length out"
  shows "snd (snd (blake2b_final S (Some out) olen)) = (if finished then - 1 else 0)
    \<and> (blake2b_step\<^sup>*\<^sup>* (fst (blake2b_final S (Some out) olen)) T \<longrightarrow> blake2b_final T out' olen' = (T, out', - 1))"
proof -
  have S: "blake2b_live S" "blake2b_is_lastblock S \<longleftrightarrow> finished" using life_live [OF assms(1)] by simp_all
  obtain F p rc where F: "blake2b_final S (Some out) olen = (F, p, rc)" by (metis surj_pair)
  note m = final_marks [OF S(1) F]
  have rc: "rc = (if finished then - 1 else 0)" using m(3) assms(2) S(2) by simp
  then have "blake2b_is_lastblock F" using m(2) S(2) by (auto split: if_splits)
  then have "blake2b_final T out' olen' = (T, out', - 1)" if "blake2b_step\<^sup>*\<^sup>* F T"
    using finalised_forever [OF that m(1)] final_refused by blast
  then show ?thesis by (simp add: F rc)
qed

theorem blake2b_finalise_once_witness:
  "let S = fst (blake2b_update (fst (blake2b_init stale_state 32)) [1, 2, 3] 3); F = fst (blake2b_final S (Some (replicate 32 0)) 32)
   in snd (snd (blake2b_final S (Some (replicate 32 0)) 32)) = 0
    \<and> snd (snd (blake2b_final F (Some (replicate 32 0)) 32)) = - 1
    \<and> blake2b_final (fst (blake2b_update F [4] 1)) (Some (replicate 64 0)) 64 = (fst (blake2b_update F [4] 1), Some (replicate 64 0), - 1)"
proof -
  define I S F where "I = fst (blake2b_init stale_state 32)" and "S = fst (blake2b_update I [1, 2, 3] 3)"
    and "F = fst (blake2b_final S (Some (replicate 32 0)) 32)"
  have o: "outlen S = 32" by (simp add: S_def I_def update_outlen init_correct)
  have "blake2b_life I False" by (rule blake2b_life.init [of stale_state 32]) (simp add: prod_eq_iff I_def init_correct)
  then have S: "blake2b_life S False" unfolding S_def by (rule blake2b_life.update) simp
  note first = blake2b_finalise_once [OF S, of 32 "replicate 32 0", unfolded o, simplified, folded F_def]
  have "blake2b_life F (False \<or> snd (snd (blake2b_final S (Some (replicate 32 0)) 32)) = 0)"
    by (rule blake2b_life.final [OF S]) (simp_all add: prod_eq_iff F_def o)
  then have F: "blake2b_life F True" using first by simp
  have u: "blake2b_step\<^sup>*\<^sup>* F F" "blake2b_step\<^sup>*\<^sup>* F (fst (blake2b_update F [4] 1))"
    by (rule rtranclp.rtrancl_refl, rule r_into_rtranclp, rule blake2b_step.update) simp
  show ?thesis
    unfolding I_def [symmetric] S_def [symmetric] Let_def F_def [symmetric] using first u by simp
qed

end
