(* ===== verification/Uecc_Vli.thy ===== *)
theory Uecc_Vli
  imports Complex_Main Kremlib
begin

text \<open>
  Multi-word integers of micro-ecc (\<^verbatim>\<open>uECC.c\<close>, the \<^verbatim>\<open>uECC_vli\<close> functions) for the word size of the build, 64 bits with a
  128-bit double word (\<^verbatim>\<open>types.h\<close>). A number is an array of words, the lowest first; \<open>num_words\<close> and bit counts,
  small signed integers in the code, are natural numbers. A function that writes through \<open>result\<close> returns it; a
  call in place passes the same list twice, and each loop reads an index before it writes it.
\<close>

section \<open>The code\<close>

definition uECC_vli_clear :: "u64 list \<Rightarrow> nat \<Rightarrow> u64 list" where
  "uECC_vli_clear vli num_words = for_range 0 num_words (\<lambda>i vli. vli[i := 0]) vli"

definition uECC_vli_isZero :: "u64 list \<Rightarrow> nat \<Rightarrow> u64" where
  "uECC_vli_isZero vli num_words =
     (let bits = for_range 0 num_words (\<lambda>i bits. bits OR vli ! i) 0
      in of_bool (bits = 0))"

definition uECC_vli_testBit :: "u64 list \<Rightarrow> nat \<Rightarrow> u64" where
  "uECC_vli_testBit vli b = vli ! drop_bit 6 b AND push_bit (b AND 63) 1"

fun vli_numDigits :: "u64 list \<Rightarrow> nat \<Rightarrow> nat" where
  "vli_numDigits vli 0 = 0"
| "vli_numDigits vli (Suc i) = (if vli ! i = 0 then vli_numDigits vli i else i + 1)"

function digit_bits :: "u64 \<Rightarrow> nat \<Rightarrow> nat" where
  "digit_bits digit i = (if digit \<noteq> 0 then digit_bits (drop_bit 1 digit) (i + 1) else i)"
  by pat_completeness auto
termination
  by (relation "measure (\<lambda>(digit, i). unat digit)") (auto simp: unat_drop_bit unat_gt_0)

declare digit_bits.simps [simp del]

definition uECC_vli_numBits :: "u64 list \<Rightarrow> nat \<Rightarrow> nat" where
  "uECC_vli_numBits vli max_words =
     (let num_digits = vli_numDigits vli max_words
      in if num_digits = 0 then 0
         else
           let digit = vli ! (num_digits - 1);
               i = digit_bits digit 0
           in push_bit 6 (num_digits - 1) + i)"

definition uECC_vli_set :: "u64 list \<Rightarrow> u64 list \<Rightarrow> nat \<Rightarrow> u64 list" where
  "uECC_vli_set dest src num_words = for_range 0 num_words (\<lambda>i dest. dest[i := src ! i]) dest"

fun uECC_vli_cmp_unsafe :: "u64 list \<Rightarrow> u64 list \<Rightarrow> nat \<Rightarrow> int" where
  "uECC_vli_cmp_unsafe left right 0 = 0"
| "uECC_vli_cmp_unsafe left right (Suc i) =
     (if left ! i > right ! i then 1
      else if left ! i < right ! i then - 1
      else uECC_vli_cmp_unsafe left right i)"

definition uECC_vli_equal :: "u64 list \<Rightarrow> u64 list \<Rightarrow> nat \<Rightarrow> u64" where
  "uECC_vli_equal left right num_words =
     (let diff = for_range 0 num_words (\<lambda>j diff. let i = num_words - 1 - j in diff OR (left ! i XOR right ! i)) 0
      in of_bool (diff = 0))"

definition uECC_vli_add :: "u64 list \<Rightarrow> u64 list \<Rightarrow> u64 list \<Rightarrow> nat \<Rightarrow> u64 \<times> u64 list" where
  "uECC_vli_add result left right num_words =
     for_range 0 num_words (\<lambda>i (carry, result).
       let sum = left ! i + right ! i + carry;
           carry = (if sum \<noteq> left ! i then of_bool (sum < left ! i) else carry)
       in (carry, result[i := sum])) (0, result)"

definition uECC_vli_sub :: "u64 list \<Rightarrow> u64 list \<Rightarrow> u64 list \<Rightarrow> nat \<Rightarrow> u64 \<times> u64 list" where
  "uECC_vli_sub result left right num_words =
     for_range 0 num_words (\<lambda>i (borrow, result).
       let diff = left ! i - right ! i - borrow;
           borrow = (if diff \<noteq> left ! i then of_bool (diff > left ! i) else borrow)
       in (borrow, result[i := diff])) (0, result)"

text \<open>The result of the comparison is computed in unsigned words and returned as a signed byte.\<close>

definition uECC_vli_cmp :: "u64 list \<Rightarrow> u64 list \<Rightarrow> nat \<Rightarrow> int" where
  "uECC_vli_cmp left right num_words =
     (let tmp = replicate 4 0;
          (borrow, tmp) = uECC_vli_sub tmp left right num_words;
          neg = of_bool (borrow \<noteq> 0) :: u64;
          equal = uECC_vli_isZero tmp num_words
      in sint (ucast (of_bool (equal = 0) - 2 * neg) :: u8))"

definition uECC_vli_rshift1 :: "u64 list \<Rightarrow> nat \<Rightarrow> u64 list" where
  "uECC_vli_rshift1 vli num_words =
     snd (for_range 0 num_words (\<lambda>j (carry, vli).
       let i = num_words - 1 - j;
           temp = vli ! i;
           vli = vli[i := drop_bit 1 temp OR carry];
           carry = push_bit 63 temp
       in (carry, vli)) (0, vli))"

definition muladd :: "u64 \<Rightarrow> u64 \<Rightarrow> u64 \<times> u64 \<times> u64 \<Rightarrow> u64 \<times> u64 \<times> u64" where
  "muladd a b = (\<lambda>(r0, r1, r2).
     let p = ucast a * ucast b :: u128;
         r01 = push_bit 64 (ucast r1) OR ucast r0;
         r01 = r01 + p;
         r2 = r2 + of_bool (r01 < p);
         r1 = ucast (drop_bit 64 r01);
         r0 = ucast r01
     in (r0, r1, r2))"

definition mul2add :: "u64 \<Rightarrow> u64 \<Rightarrow> u64 \<times> u64 \<times> u64 \<Rightarrow> u64 \<times> u64 \<times> u64" where
  "mul2add a b = (\<lambda>(r0, r1, r2).
     let p = ucast a * ucast b :: u128;
         r01 = push_bit 64 (ucast r1) OR ucast r0;
         r2 = r2 + ucast (drop_bit 127 p);
         p = p * 2;
         r01 = r01 + p;
         r2 = r2 + of_bool (r01 < p);
         r1 = ucast (drop_bit 64 r01);
         r0 = ucast r01
     in (r0, r1, r2))"

definition uECC_vli_mult :: "u64 list \<Rightarrow> u64 list \<Rightarrow> u64 list \<Rightarrow> nat \<Rightarrow> u64 list" where
  "uECC_vli_mult result left right num_words =
     (let (r, result) = for_range 0 num_words (\<lambda>k (r, result).
            let (r0, r1, r2) = for_range 0 (k + 1) (\<lambda>i. muladd (left ! i) (right ! (k - i))) r
            in ((r1, r2, 0), result[k := r0])) ((0, 0, 0), result);
          (r, result) = for_range num_words (num_words * 2 - 1) (\<lambda>k (r, result).
            let (r0, r1, r2) = for_range (k + 1 - num_words) num_words (\<lambda>i. muladd (left ! i) (right ! (k - i))) r
            in ((r1, r2, 0), result[k := r0])) (r, result);
          (r0, r1, r2) = r
      in result[num_words * 2 - 1 := r0])"

text \<open>The inner loop runs while \<open>i \<le> k\<close> and \<open>i \<le> k - i\<close>, that is up to \<open>k div 2\<close>.\<close>

definition uECC_vli_square :: "u64 list \<Rightarrow> u64 list \<Rightarrow> nat \<Rightarrow> u64 list" where
  "uECC_vli_square result left num_words =
     (let (r, result) = for_range 0 (num_words * 2 - 1) (\<lambda>k (r, result).
            let m = (if k < num_words then 0 else k + 1 - num_words);
                (r0, r1, r2) = for_range m (k div 2 + 1) (\<lambda>i.
                  if i < k - i then mul2add (left ! i) (left ! (k - i)) else muladd (left ! i) (left ! (k - i))) r
            in ((r1, r2, 0), result[k := r0])) ((0, 0, 0), result);
          (r0, r1, r2) = r
      in result[num_words * 2 - 1 := r0])"

section \<open>The number an array stands for\<close>

fun vval :: "u64 list \<Rightarrow> nat" where
  "vval [] = 0"
| "vval (w # ws) = unat w + 2 ^ 64 * vval ws"

abbreviation vn :: "nat \<Rightarrow> u64 list \<Rightarrow> nat" where
  "vn n x \<equiv> vval (take n x)"

lemma vval_append: "vval (xs @ ys) = vval xs + 2 ^ (64 * length xs) * vval ys"
  by (induction xs) (simp_all add: algebra_simps power_add)

lemma vn_Suc: "i < length x \<Longrightarrow> vn (Suc i) x = vn i x + 2 ^ (64 * i) * unat (x ! i)"
  by (simp add: take_Suc_conv_app_nth vval_append)

lemma vval_lt: "vval x < 2 ^ (64 * length x)"
proof (induction x)
  case (Cons w x)
  have "unat w < 2 ^ 64" using unat_lt_word [of w] by simp
  moreover have "2 ^ 64 * Suc (vval x) \<le> 2 ^ 64 * 2 ^ (64 * length x)" using Cons by (intro mult_le_mono2) simp
  ultimately show ?case by (simp add: power_add)
qed simp

lemma vn_lt: "vn n x < 2 ^ (64 * n)"
proof -
  have "vn n x < 2 ^ (64 * length (take n x))" by (rule vval_lt)
  also have "\<dots> \<le> 2 ^ (64 * n)" by (rule power_increasing) simp_all
  finally show ?thesis .
qed

lemma vval_inj: "length x = length y \<Longrightarrow> vval x = vval y \<Longrightarrow> x = y"
proof (induction x y rule: list_induct2)
  case (Cons a x b y)
  have l: "unat a < 2 ^ 64" "unat b < 2 ^ 64" using unat_lt_word [of a] unat_lt_word [of b] by simp_all
  have e: "unat a + 2 ^ 64 * vval x = unat b + 2 ^ 64 * vval y" using Cons.prems by simp
  have "unat a = (unat a + 2 ^ 64 * vval x) mod 2 ^ 64" "unat b = (unat b + 2 ^ 64 * vval y) mod 2 ^ 64"
    using l by simp_all
  then have "unat a = unat b" unfolding e by simp
  with e have "vval x = vval y" by simp
  with Cons.IH \<open>unat a = unat b\<close> show ?case by (simp add: word_unat_eq_iff)
qed simp

lemma vn_ext: "n \<le> length x \<Longrightarrow> length x = length y \<Longrightarrow> vn n x = vn n y \<Longrightarrow> drop n x = drop n y \<Longrightarrow> x = y"
  by (metis append_take_drop_id length_take vval_inj)

lemma vn_sum: "n \<le> length x \<Longrightarrow> vn n x = (\<Sum>i<n. unat (x ! i) * 2 ^ (64 * i))"
  by (induction n) (simp_all add: vn_Suc mult.commute)

lemma vn_update_ge: "n \<le> i \<Longrightarrow> vn n (x[i := w]) = vn n x"
  by simp

lemma vn_zero: "vn n (replicate k 0) = 0"
proof -
  have "vval (replicate j 0) = 0" for j by (induction j) simp_all
  then show ?thesis by (simp add: take_replicate)
qed

section \<open>Clearing, copying and tests\<close>

lemma vli_clear_eq: "n \<le> length x \<Longrightarrow> uECC_vli_clear x n = replicate n 0 @ drop n x"
  unfolding uECC_vli_clear_def by (simp add: for_range_store map_replicate_const)

lemma vli_set_eq: "n \<le> length d \<Longrightarrow> n \<le> length s \<Longrightarrow> uECC_vli_set d s n = take n s @ drop n d"
  unfolding uECC_vli_set_def by (simp add: for_range_store) (intro nth_equalityI, simp_all)

lemma for_range_or: "for_range 0 n (\<lambda>i bits. bits OR f i) (b :: u64) = 0 \<longleftrightarrow> b = 0 \<and> (\<forall>i<n. f i = 0)"
  by (induction n) (auto simp: for_range_last or_eq_0_iff less_Suc_eq)

lemma vn_zero_iff: "n \<le> length x \<Longrightarrow> vn n x = 0 \<longleftrightarrow> (\<forall>i<n. x ! i = 0)"
  by (auto simp add: vn_sum unat_eq_zero)

lemma vli_isZero_eq: "n \<le> length x \<Longrightarrow> uECC_vli_isZero x n = of_bool (vn n x = 0)"
  by (simp add: uECC_vli_isZero_def for_range_or vn_zero_iff)

lemma vli_cmp_unsafe_eq:
  "n \<le> length x \<Longrightarrow> n \<le> length y \<Longrightarrow> uECC_vli_cmp_unsafe x y n = (if vn n x > vn n y then 1 else if vn n x < vn n y then - 1 else 0)"
proof (induction n)
  case (Suc n)
  let ?X = "(2 :: nat) ^ (64 * n)"
  have b: "vn n x < ?X" "vn n y < ?X" by (rule vn_lt)+
  have gt: "a * ?X + s > b * ?X + t" if "(b :: nat) < a" "t < ?X" for a b s t :: nat
  proof -
    have "b * ?X + t < Suc b * ?X" using that(2) by simp
    also have "\<dots> \<le> a * ?X" using that(1) by (intro mult_le_mono1) simp
    finally show ?thesis by simp
  qed
  show ?case
  proof (cases "unat (x ! n)" "unat (y ! n)" rule: linorder_cases)
    case less
    then show ?thesis using gt [OF less b(1), of "vn n y"] Suc.prems
      by (simp add: vn_Suc word_less_nat_alt mult.commute)
  next
    case equal
    then show ?thesis using Suc by (simp add: vn_Suc word_less_nat_alt)
  next
    case greater
    then show ?thesis using gt [OF greater b(2), of "vn n x"] Suc.prems
      by (simp add: vn_Suc word_less_nat_alt mult.commute)
  qed
qed simp

section \<open>Addition and subtraction\<close>

lemma add_digit:
  fixes l r c :: u64
  assumes "unat c \<le> 1"
  shows "unat (l + r + c) + 2 ^ 64 * unat (if l + r + c \<noteq> l then of_bool (l + r + c < l) else c) = unat l + unat r + unat c"
    "unat (if l + r + c \<noteq> l then of_bool (l + r + c < l) else c :: u64) \<le> 1"
proof -
  have b: "unat l < 2 ^ 64" "unat r < 2 ^ 64" using unat_lt_word [of l] unat_lt_word [of r] by simp_all
  let ?s = "unat l + unat r + unat c"
  have s: "unat (l + r + c) = ?s mod 2 ^ 64"
    by (simp add: unat_word_ariths mod_simps)
  have m: "?s mod 2 ^ 64 = (if ?s < 2 ^ 64 then ?s else ?s - 2 ^ 64)"
    using b assms by (auto simp: mod_if)
  show "unat (l + r + c) + 2 ^ 64 * unat (if l + r + c \<noteq> l then of_bool (l + r + c < l) else c) = ?s"
    using assms b unfolding word_unat_eq_iff word_less_nat_alt s m by auto
  show "unat (if l + r + c \<noteq> l then of_bool (l + r + c < l) else c :: u64) \<le> 1"
    using assms by simp
qed

lemma sub_digit:
  fixes l r c :: u64
  assumes "unat c \<le> 1"
  shows "unat (l - r - c) + unat r + unat c = unat l + 2 ^ 64 * unat (if l - r - c \<noteq> l then of_bool (l - r - c > l) else c)"
    "unat (if l - r - c \<noteq> l then of_bool (l - r - c > l) else c :: u64) \<le> 1"
proof -
  have b: "unat l < 2 ^ 64" "unat r < 2 ^ 64" using unat_lt_word [of l] unat_lt_word [of r] by simp_all
  have s: "unat (l - r - c) = (if unat r + unat c \<le> unat l then unat l - (unat r + unat c) else 2 ^ 64 + unat l - (unat r + unat c))"
  proof -
    have "uint (l - r - c) = (uint l - uint r - uint c) mod 2 ^ 64"
      by (simp add: uint_word_ariths mod_simps)
    then have "int (unat (l - r - c)) = (int (unat l) - int (unat r) - int (unat c)) mod 2 ^ 64"
      by (simp only: uint_nat)
    also have "\<dots> = (if unat r + unat c \<le> unat l then int (unat l) - int (unat r) - int (unat c)
        else 2 ^ 64 + int (unat l) - int (unat r) - int (unat c))"
    proof (cases "unat r + unat c \<le> unat l")
      case True
      have "(int (unat l) - int (unat r) - int (unat c)) mod 2 ^ 64 = int (unat l) - int (unat r) - int (unat c)"
        using True b(1) [THEN of_nat_less_iff [where 'a = int, THEN iffD2], unfolded of_nat_power of_nat_numeral]
        by (intro mod_pos_pos_trivial) linarith+
      then show ?thesis using True by simp
    next
      case False
      have "(int (unat l) - int (unat r) - int (unat c)) mod 2 ^ 64
          = (int (unat l) - int (unat r) - int (unat c) + 2 ^ 64) mod 2 ^ 64" by simp
      also have "\<dots> = int (unat l) - int (unat r) - int (unat c) + 2 ^ 64"
        using False assms b(2) [THEN of_nat_less_iff [where 'a = int, THEN iffD2], unfolded of_nat_power of_nat_numeral]
        by (intro mod_pos_pos_trivial) linarith+
      finally show ?thesis using False by simp
    qed
    finally have e: "int (unat (l - r - c)) = (if unat r + unat c \<le> unat l then int (unat l) - int (unat r) - int (unat c)
        else 2 ^ 64 + int (unat l) - int (unat r) - int (unat c))" .
    show ?thesis
    proof (cases "unat r + unat c \<le> unat l")
      case True
      with e show ?thesis by (simp only: if_True)
    next
      case False
      with e have "int (unat (l - r - c)) = 2 ^ 64 + int (unat l) - int (unat r) - int (unat c)"
        by (simp only: if_False)
      then have "int (unat (l - r - c) + (unat r + unat c)) = int (2 ^ 64 + unat l)"
        unfolding of_nat_add of_nat_power of_nat_numeral by linarith
      then have "unat (l - r - c) + (unat r + unat c) = 2 ^ 64 + unat l" by (simp only: of_nat_eq_iff)
      then show ?thesis using False by (simp only: if_False flip: add_diff_cancel_right')
    qed
  qed
  show "unat (l - r - c) + unat r + unat c = unat l + 2 ^ 64 * unat (if l - r - c \<noteq> l then of_bool (l - r - c > l) else c)"
    using assms b unfolding word_unat_eq_iff word_less_nat_alt s by auto
  show "unat (if l - r - c \<noteq> l then of_bool (l - r - c > l) else c :: u64) \<le> 1"
    using assms by simp
qed

lemma vli_add_correct:
  assumes "n \<le> length result" "n \<le> length left" "n \<le> length right" "uECC_vli_add result left right n = (c, res)"
  shows "vn n res + 2 ^ (64 * n) * unat c = vn n left + vn n right" "unat c \<le> 1" "length res = length result" "drop n res = drop n result"
proof -
  define body where "body = (\<lambda>i (carry, result).
       let sum = left ! i + right ! i + carry;
           carry = (if sum \<noteq> left ! i then of_bool (sum < left ! i) else carry)
       in (carry, result[i := sum]))"
  define P where "P = (\<lambda>i (c, res). vn i res + 2 ^ (64 * i) * unat c = vn i left + vn i right \<and> unat (c :: u64) \<le> 1
    \<and> length res = length result \<and> drop n res = drop n result)"
  have "P n (for_range 0 n body (0, result))"
  proof (rule for_range_invariant)
    show "P 0 (0, result)" by (simp add: P_def)
    fix i and s :: "u64 \<times> u64 list"
    assume i: "0 \<le> i" "i < n" and P: "P i s"
    obtain c res where s: "s = (c, res)" by (cases s)
    have I: "vn i res + 2 ^ (64 * i) * unat c = vn i left + vn i right" and c: "unat c \<le> 1"
      and l: "length res = length result" "drop n res = drop n result"
      using P by (simp_all add: P_def s)
    define sum where "sum = left ! i + right ! i + c"
    define c' where "c' = (if sum \<noteq> left ! i then of_bool (sum < left ! i) else c)"
    have d: "unat sum + 2 ^ 64 * unat c' = unat (left ! i) + unat (right ! i) + unat c" "unat c' \<le> 1"
      using add_digit [OF c, of "left ! i" "right ! i"] unfolding sum_def c'_def by simp_all
    have "vn (Suc i) (res[i := sum]) + 2 ^ (64 * Suc i) * unat c' = vn i res + 2 ^ (64 * i) * (unat sum + 2 ^ 64 * unat c')"
      using i assms(1) l by (simp add: vn_Suc power_add algebra_simps)
    also have "\<dots> = vn (Suc i) left + vn (Suc i) right"
      unfolding d(1) using I i assms(2,3) by (simp add: vn_Suc algebra_simps)
    finally have v: "vn (Suc i) (res[i := sum]) + 2 ^ (64 * Suc i) * unat c' = vn (Suc i) left + vn (Suc i) right" .
    have "body i s = (c', res[i := sum])"
      by (simp only: s body_def prod.case Let_def c'_def sum_def)
    then show "P (Suc i) (body i s)"
      using d(2) l i v by (simp add: P_def)
  qed simp
  moreover have "for_range 0 n body (0, result) = (c, res)"
    using assms(4) by (simp add: uECC_vli_add_def body_def)
  ultimately show "vn n res + 2 ^ (64 * n) * unat c = vn n left + vn n right" "unat c \<le> 1"
    "length res = length result" "drop n res = drop n result" by (simp_all add: P_def)
qed

lemma vli_sub_correct:
  assumes "n \<le> length result" "n \<le> length left" "n \<le> length right" "uECC_vli_sub result left right n = (c, res)"
  shows "vn n res + vn n right = vn n left + 2 ^ (64 * n) * unat c" "unat c \<le> 1" "length res = length result" "drop n res = drop n result"
proof -
  define body where "body = (\<lambda>i (borrow, result).
       let diff = left ! i - right ! i - borrow;
           borrow = (if diff \<noteq> left ! i then of_bool (diff > left ! i) else borrow)
       in (borrow, result[i := diff]))"
  define P where "P = (\<lambda>i (c, res). vn i res + vn i right = vn i left + 2 ^ (64 * i) * unat c \<and> unat (c :: u64) \<le> 1
    \<and> length res = length result \<and> drop n res = drop n result)"
  have "P n (for_range 0 n body (0, result))"
  proof (rule for_range_invariant)
    show "P 0 (0, result)" by (simp add: P_def)
    fix i and s :: "u64 \<times> u64 list"
    assume i: "0 \<le> i" "i < n" and P: "P i s"
    obtain c res where s: "s = (c, res)" by (cases s)
    have I: "vn i res + vn i right = vn i left + 2 ^ (64 * i) * unat c" and c: "unat c \<le> 1"
      and l: "length res = length result" "drop n res = drop n result"
      using P by (simp_all add: P_def s)
    define diff where "diff = left ! i - right ! i - c"
    define c' where "c' = (if diff \<noteq> left ! i then of_bool (diff > left ! i) else c)"
    have d: "unat diff + unat (right ! i) + unat c = unat (left ! i) + 2 ^ 64 * unat c'" "unat c' \<le> 1"
      using sub_digit [OF c, of "left ! i" "right ! i"] unfolding diff_def c'_def by simp_all
    have e: "vn (Suc i) (res[i := diff]) + vn (Suc i) right + 2 ^ (64 * i) * unat c
        = vn i res + vn i right + 2 ^ (64 * i) * (unat diff + unat (right ! i) + unat c)"
      using i assms(1,3) l by (simp add: vn_Suc algebra_simps)
    have "\<dots> = vn (Suc i) left + 2 ^ (64 * Suc i) * unat c' + 2 ^ (64 * i) * unat c"
      unfolding d(1) using I i assms(2) by (simp add: vn_Suc power_add algebra_simps)
    then have v: "vn (Suc i) (res[i := diff]) + vn (Suc i) right = vn (Suc i) left + 2 ^ (64 * Suc i) * unat c'"
      using e by simp
    have "body i s = (c', res[i := diff])"
      by (simp only: s body_def prod.case Let_def c'_def diff_def)
    then show "P (Suc i) (body i s)"
      using d(2) l i v by (simp add: P_def)
  qed simp
  moreover have "for_range 0 n body (0, result) = (c, res)"
    using assms(4) by (simp add: uECC_vli_sub_def body_def)
  ultimately show "vn n res + vn n right = vn n left + 2 ^ (64 * n) * unat c" "unat c \<le> 1"
    "length res = length result" "drop n res = drop n result" by (simp_all add: P_def)
qed


section \<open>Comparison\<close>

lemma vli_sub_borrow:
  assumes "n \<le> length result" "n \<le> length left" "n \<le> length right" "uECC_vli_sub result left right n = (c, res)"
  shows "c = of_bool (vn n left < vn n right)" "vn n right \<le> vn n left \<Longrightarrow> vn n res = vn n left - vn n right"
proof -
  note sub = vli_sub_correct [OF assms]
  have lt: "vn n left < 2 ^ (64 * n)" "vn n right < 2 ^ (64 * n)" "vn n res < 2 ^ (64 * n)" by (rule vn_lt)+
  have "unat c = 0 \<or> unat c = 1" using sub(2) by linarith
  then show "c = of_bool (vn n left < vn n right)"
  proof
    assume "unat c = 0"
    then show ?thesis using sub(1) by (simp add: unat_eq_zero)
  next
    assume c: "unat c = 1"
    then have "vn n left < vn n right" using sub(1) lt by simp
    then show ?thesis using c by (simp add: word_unat_eq_iff)
  qed
  then show "vn n res = vn n left - vn n right" if "vn n right \<le> vn n left" using sub(1) that by simp
qed

lemma word_xor_eq_0: "(a :: u64) XOR b = 0 \<longleftrightarrow> a = b"
  by (auto simp: bit_eq_iff bit_simps)

lemma vli_equal_eq:
  assumes "n \<le> length x" "n \<le> length y"
  shows "uECC_vli_equal x y n = of_bool (vn n x = vn n y)"
proof -
  have "(\<forall>j<n. x ! (n - 1 - j) XOR y ! (n - 1 - j) = 0) \<longleftrightarrow> (\<forall>i<n. x ! i = y ! i)"
  proof
    assume *: "\<forall>j<n. x ! (n - 1 - j) XOR y ! (n - 1 - j) = 0"
    show "\<forall>i<n. x ! i = y ! i"
    proof (intro allI impI)
      fix i assume "i < n"
      then show "x ! i = y ! i" using * [rule_format, of "n - 1 - i"] by (simp add: word_xor_eq_0)
    qed
  qed (auto simp: word_xor_eq_0)
  moreover have "(\<forall>i<n. x ! i = y ! i) \<longleftrightarrow> take n x = take n y"
    using assms by (auto simp: list_eq_iff_nth_eq)
  moreover have "take n x = take n y \<longleftrightarrow> vn n x = vn n y"
    using vval_inj [of "take n x" "take n y"] assms by auto
  ultimately show ?thesis
    unfolding uECC_vli_equal_def Let_def for_range_or by simp
qed

lemma minus_one_as_byte: "sint (ucast (- 1 :: u64) :: u8) = - 1"
  by code_simp

lemma vli_cmp_eq:
  assumes "n \<le> 4" "n \<le> length x" "n \<le> length y"
  shows "uECC_vli_cmp x y n = (if vn n x > vn n y then 1 else if vn n x < vn n y then - 1 else 0)"
proof -
  obtain c res where r: "uECC_vli_sub (replicate 4 0) x y n = (c, res)" by fastforce
  have n: "n \<le> length (replicate 4 (0 :: u64))" using assms(1) by simp
  note sub = vli_sub_correct [OF n assms(2,3) r] vli_sub_borrow [OF n assms(2,3) r]
  have lt: "vn n x < 2 ^ (64 * n)" "vn n y < 2 ^ (64 * n)" by (rule vn_lt)+
  have res: "n \<le> length res" using sub(3) n by simp
  have z: "vn n res = 0 \<longleftrightarrow> vn n x = vn n y" using sub(1,4,5) lt by (cases "vn n x < vn n y") auto
  show ?thesis
    unfolding uECC_vli_cmp_def r Let_def prod.case vli_isZero_eq [OF res] z sub(5)
    by (cases "vn n x" "vn n y" rule: linorder_cases) (simp_all add: minus_one_as_byte)
qed

section \<open>Shifting right by one\<close>

lemma rshift1_digit:
  fixes t c :: u64
  assumes "unat c = 2 ^ 63 * cb" "cb \<le> 1"
  shows "2 * unat (drop_bit 1 t OR c) + unat t mod 2 = unat t + 2 ^ 64 * cb"
    "unat (push_bit 63 t) = 2 ^ 63 * (unat t mod 2)"
proof -
  have t: "unat t < 2 ^ 64" using unat_lt_word [of t] by simp
  have c: "c = push_bit 63 (word_of_nat cb)"
    by (rule word_unat_eqI) (use assms in \<open>auto simp: unat_push_bit unat_of_nat mod_if\<close>)
  have "drop_bit 1 t AND c = 0"
    unfolding c using t by (intro and_push_bit_eq_0) (simp add: unat_drop_bit)
  then have "drop_bit 1 t OR c = drop_bit 1 t + c" by (rule or_eq_add_disjoint)
  also have "unat \<dots> = unat t div 2 + 2 ^ 63 * cb"
    using t assms by (subst unat_add_small) (simp_all add: unat_drop_bit)
  finally show "2 * unat (drop_bit 1 t OR c) + unat t mod 2 = unat t + 2 ^ 64 * cb"
    by simp
  show "unat (push_bit 63 t) = 2 ^ 63 * (unat t mod 2)"
    using mult_mod_right [of "2 ^ 63" "unat t" 2] by (simp add: unat_push_bit mult.commute)
qed

lemma vli_rshift1_correct:
  assumes n: "n \<le> length x"
  shows "vn n (uECC_vli_rshift1 x n) = vn n x div 2" "length (uECC_vli_rshift1 x n) = length x"
    "drop n (uECC_vli_rshift1 x n) = drop n x"
proof -
  define body where "body = (\<lambda>j (carry, vli). let i = n - 1 - j; temp = vli ! i; vli = vli[i := drop_bit 1 temp OR carry];
           carry = push_bit 63 temp in (carry :: u64, vli))"
  define P where "P = (\<lambda>j (c, v). (\<exists>cb \<le> 1. unat (c :: u64) = 2 ^ 63 * cb
      \<and> 2 * vval (drop (n - j) (take n v)) + cb = vval (drop (n - j) (take n x)))
    \<and> take (n - j) v = take (n - j) x \<and> length v = length x \<and> drop n v = drop n x)"
  have "P n (for_range 0 n body (0, x))"
  proof (rule for_range_invariant)
    show "P 0 (0, x)" using n by (simp add: P_def)
    fix j and s :: "u64 \<times> u64 list"
    assume j: "0 \<le> j" "j < n" and P: "P j s"
    obtain c v where s: "s = (c, v)" by (cases s)
    obtain cb where cb: "cb \<le> 1" "unat c = 2 ^ 63 * cb"
      and V: "2 * vval (drop (n - j) (take n v)) + cb = vval (drop (n - j) (take n x))"
      and k: "take (n - j) v = take (n - j) x" "length v = length x" "drop n v = drop n x"
      using P by (auto simp: P_def s)
    define i where "i = n - 1 - j"
    have i: "Suc i = n - j" "i < n" "i < length x" "n - Suc j = i" using j n by (simp_all add: i_def)
    have e: "v ! i = x ! i"
      using arg_cong [OF k(1), of "\<lambda>l. l ! i"] i by simp
    define w where "w = drop_bit 1 (x ! i) OR c"
    have b: "body j s = (push_bit 63 (x ! i), v[i := w])"
      unfolding body_def s prod.case Let_def i_def [symmetric] e w_def ..
    note d = rshift1_digit [OF cb(2,1), of "x ! i"]
    have dr: "drop i (take n (v[i := w])) = w # drop (n - j) (take n v)"
      using i k(2) n by (simp add: take_update_swap flip: i(1)) (simp add: drop_update_swap Cons_nth_drop_Suc [symmetric])
    have dx: "drop i (take n x) = x ! i # drop (n - j) (take n x)"
      using i n by (simp flip: i(1)) (simp add: Cons_nth_drop_Suc [symmetric])
    have "2 * vval (drop i (take n (v[i := w]))) + unat (x ! i) mod 2 = vval (drop i (take n x))"
      unfolding dr dx vval.simps V [symmetric] using d(1) unfolding w_def by simp
    moreover have "take i (v[i := w]) = take i x"
      using arg_cong [OF k(1), of "take i"] i by (simp add: min_def)
    ultimately show "P (Suc j) (body j s)"
      unfolding b P_def prod.case i(4) using d(2) k i by (intro conjI exI [of _ "unat (x ! i) mod 2"]) simp_all
  qed simp
  moreover have "uECC_vli_rshift1 x n = snd (for_range 0 n body (0, x))"
    by (simp add: uECC_vli_rshift1_def body_def)
  ultimately show "vn n (uECC_vli_rshift1 x n) = vn n x div 2" "length (uECC_vli_rshift1 x n) = length x"
    "drop n (uECC_vli_rshift1 x n) = drop n x" by (auto simp: P_def split: prod.splits)
qed


section \<open>Counting and testing bits\<close>

lemma digit_bits_bounds:
  "d \<noteq> 0 \<Longrightarrow> \<exists>k \<ge> 1. digit_bits d i = i + k \<and> 2 ^ (k - 1) \<le> unat d \<and> unat d < 2 ^ k"
proof (induction d i rule: digit_bits.induct)
  case (1 d i)
  have h: "unat (drop_bit 1 d) = unat d div 2" by (simp add: unat_drop_bit)
  show ?case
  proof (cases "drop_bit 1 d = 0")
    case True
    then have "unat d div 2 = 0" using h by simp
    moreover have "unat d \<noteq> 0" using 1(2) by (simp add: unat_eq_zero)
    ultimately have "unat d = 1" by arith
    with True 1(2) show ?thesis
      by (intro exI [of _ 1]) (simp add: digit_bits.simps [of d] digit_bits.simps [of 0])
  next
    case False
    with 1 obtain k where k: "k \<ge> 1" "digit_bits (drop_bit 1 d) (i + 1) = i + 1 + k"
      "2 ^ (k - 1) \<le> unat d div 2" "unat d div 2 < 2 ^ k" unfolding h by blast
    have "2 * 2 ^ (k - 1) \<le> unat d" "unat d < 2 * 2 ^ k" using k(3,4) by linarith+
    moreover have "2 * 2 ^ (k - 1) = (2 :: nat) ^ k" using k(1) by (cases k) simp_all
    ultimately show ?thesis using k(2) 1(2)
      by (intro exI [of _ "Suc k"]) (simp add: digit_bits.simps [of d])
  qed
qed

lemma digit_bits_le: "d \<noteq> 0 \<Longrightarrow> digit_bits d 0 \<le> 64"
proof -
  assume "d \<noteq> 0"
  then obtain k where k: "digit_bits d 0 = k" "2 ^ (k - 1) \<le> unat d" using digit_bits_bounds [of d 0] by auto
  have "(2 :: nat) ^ (k - 1) < 2 ^ 64" using k(2) unat_lt_word [of d] by simp
  then have "k - 1 < 64" by (rule power_less_imp_less_exp [rotated]) simp
  then show ?thesis using k(1) by simp
qed

lemma vli_numDigits_cases:
  "n \<le> length x \<Longrightarrow> vli_numDigits x n \<le> n \<and> vn n x = vn (vli_numDigits x n) x
    \<and> (vli_numDigits x n \<noteq> 0 \<longrightarrow> x ! (vli_numDigits x n - 1) \<noteq> 0)"
  by (induction n) (auto simp: vn_Suc)

lemma vli_numBits_bounds:
  assumes n: "n \<le> length x"
  shows "vn n x < 2 ^ uECC_vli_numBits x n" "vn n x \<noteq> 0 \<Longrightarrow> 2 ^ (uECC_vli_numBits x n - 1) \<le> vn n x"
    "uECC_vli_numBits x n \<le> 64 * n" "vn n x = 0 \<longleftrightarrow> uECC_vli_numBits x n = 0"
proof -
  define d where "d = vli_numDigits x n"
  note c = vli_numDigits_cases [OF n, folded d_def]
  have "vn n x < 2 ^ uECC_vli_numBits x n \<and> (vn n x \<noteq> 0 \<longrightarrow> 2 ^ (uECC_vli_numBits x n - 1) \<le> vn n x)
      \<and> uECC_vli_numBits x n \<le> 64 * n \<and> (vn n x = 0 \<longleftrightarrow> uECC_vli_numBits x n = 0)"
  proof (cases d)
    case 0
    then have "vn n x = 0" using c by simp
    then show ?thesis using 0 by (simp add: uECC_vli_numBits_def flip: d_def)
  next
    case (Suc j)
    define w where "w = x ! j"
    have w: "w \<noteq> 0" "Suc j \<le> n" "vn n x = vn j x + 2 ^ (64 * j) * unat w"
      using c Suc n by (simp_all add: w_def vn_Suc)
    obtain k where k: "k \<ge> 1" "digit_bits w 0 = k" "2 ^ (k - 1) \<le> unat w" "unat w < 2 ^ k"
      using digit_bits_bounds [OF w(1), of 0] by auto
    have e: "uECC_vli_numBits x n = 64 * j + k"
      using Suc k(2) by (simp add: uECC_vli_numBits_def push_bit_eq_mult w_def flip: d_def)
    have "vn j x + 2 ^ (64 * j) * unat w < 2 ^ (64 * j) * Suc (unat w)" using vn_lt [of j x] by simp
    also have "\<dots> \<le> 2 ^ (64 * j) * 2 ^ k" using k(4) by (intro mult_le_mono2) simp
    finally have "vn n x < 2 ^ (64 * j + k)" by (simp add: w(3) power_add)
    moreover have "2 ^ (64 * j) * 2 ^ (k - 1) \<le> vn n x" using k(3) by (simp add: w(3) trans_le_add2)
    then have "2 ^ (64 * j + k - 1) \<le> vn n x" using k(1) by (simp flip: power_add)
    moreover have "64 * j + k \<le> 64 * n" using digit_bits_le [OF w(1)] k(2) w(2) by simp
    moreover have "vn n x \<noteq> 0" using w(1,3) by (simp add: unat_eq_zero)
    ultimately show ?thesis using k(1) unfolding e by simp
  qed
  then show "vn n x < 2 ^ uECC_vli_numBits x n" "vn n x \<noteq> 0 \<Longrightarrow> 2 ^ (uECC_vli_numBits x n - 1) \<le> vn n x"
    "uECC_vli_numBits x n \<le> 64 * n" "vn n x = 0 \<longleftrightarrow> uECC_vli_numBits x n = 0" by blast+
qed

lemma numBits_unique:
  assumes "n \<le> length x" "vn n x < 2 ^ L" "L = 0 \<or> 2 ^ (L - 1) \<le> vn n x"
  shows "uECC_vli_numBits x n = L"
proof (rule antisym)
  note nb = vli_numBits_bounds [OF assms(1)]
  show "uECC_vli_numBits x n \<le> L"
  proof (rule ccontr)
    assume *: "\<not> uECC_vli_numBits x n \<le> L"
    then have "vn n x \<noteq> 0" using nb(4) by auto
    then have "2 ^ (uECC_vli_numBits x n - 1) \<le> vn n x" by (rule nb(2))
    also have "\<dots> < 2 ^ L" by (rule assms(2))
    finally have "uECC_vli_numBits x n - 1 < L" by simp
    then show False using * by simp
  qed
  show "L \<le> uECC_vli_numBits x n"
  proof (cases "L = 0")
    case False
    then have "2 ^ (L - 1) < (2 :: nat) ^ uECC_vli_numBits x n" using assms(3) nb(1) by linarith
    then show ?thesis by simp
  qed simp
qed

lemma word_and_bit: "(a :: u64) AND push_bit k 1 \<noteq> 0 \<longleftrightarrow> bit a k"
  by (simp add: push_bit_eq_mult and_exp_eq_0_iff_not_bit)

lemma nat_and_63: "b AND 63 = (b :: nat) mod 64"
  using take_bit_eq_mask [of 6 b] by (simp add: take_bit_eq_mod mask_eq_exp_minus_1)

lemma vli_testBit_correct:
  assumes n: "n \<le> length x" "b < 64 * n"
  shows "uECC_vli_testBit x b \<noteq> 0 \<longleftrightarrow> odd (vn n x div 2 ^ b)"
proof -
  define i where "i = b div 64"
  have i: "i < n" "i < length x" "b = 64 * i + b mod 64" using n by (auto simp: i_def)
  have sp: "take n x = take i x @ x ! i # drop (Suc i) (take n x)"
    using id_take_nth_drop [of i "take n x"] i by (simp add: min_def)
  have v: "vn n x = vn i x + 2 ^ (64 * i) * (unat (x ! i) + 2 ^ 64 * vval (drop (Suc i) (take n x)))"
    by (subst sp) (use i n in \<open>simp add: vval_append min_def\<close>)
  have "vn n x div 2 ^ b = vn n x div 2 ^ (64 * i) div 2 ^ (b mod 64)"
    by (subst i(3)) (simp add: power_add div_mult2_eq)
  also have "vn n x div 2 ^ (64 * i) = unat (x ! i) + 2 ^ 64 * vval (drop (Suc i) (take n x))"
    unfolding v using vn_lt [of i x] by simp
  also have "odd (\<dots> div 2 ^ (b mod 64)) \<longleftrightarrow> odd (unat (x ! i) div 2 ^ (b mod 64))"
  proof -
    have eq: "(2 :: nat) ^ 64 = 2 ^ (b mod 64) * (2 * 2 ^ (63 - b mod 64))"
      by (simp flip: power_add power_Suc)
    have "(unat (x ! i) + 2 ^ 64 * r) div 2 ^ (b mod 64) = 2 * (2 ^ (63 - b mod 64) * r) + unat (x ! i) div 2 ^ (b mod 64)" for r
      unfolding eq mult.assoc by (rule div_mult_self2) simp
    then show ?thesis by simp
  qed
  also have "\<dots> \<longleftrightarrow> bit (unat (x ! i)) (b mod 64)" by (simp add: bit_iff_odd)
  also have "\<dots> \<longleftrightarrow> bit (x ! i) (b mod 64)" by (simp add: bit_unsigned_iff)
  finally show ?thesis
    using word_and_bit [of "x ! i" "b mod 64"]
    by (simp add: uECC_vli_testBit_def i_def drop_bit_eq_div nat_and_63)
qed


section \<open>Multiplication\<close>

definition acc :: "u64 \<times> u64 \<times> u64 \<Rightarrow> nat" where
  "acc = (\<lambda>(r0, r1, r2). unat r0 + 2 ^ 64 * unat r1 + 2 ^ 128 * unat r2)"

lemma unat_double_word: "unat (push_bit 64 (ucast (hi :: u64)) OR ucast (lo :: u64) :: u128) = unat lo + 2 ^ 64 * unat hi"
proof -
  have b: "unat hi < 2 ^ 64" "unat lo < 2 ^ 64" using unat_lt_word [of hi] unat_lt_word [of lo] by simp_all
  have "(ucast lo :: u128) AND push_bit 64 (ucast hi) = 0"
    by (rule and_push_bit_eq_0) (use b in \<open>simp add: unat_ucast_up\<close>)
  then have "push_bit 64 (ucast hi) OR ucast lo = (ucast lo + push_bit 64 (ucast hi) :: u128)"
    by (simp add: or_eq_add_disjoint or.commute)
  also have "unat \<dots> = unat lo + 2 ^ 64 * unat hi"
    using b by (subst unat_add_small) (simp_all add: unat_push_bit_small unat_ucast_up)
  finally show ?thesis .
qed

lemma unat_u128_halves:
  fixes d :: u128
  shows "unat (ucast (drop_bit 64 d) :: u64) = unat d div 2 ^ 64" "unat (ucast d :: u64) = unat d mod 2 ^ 64"
proof -
  have "unat d div 2 ^ 64 < 2 ^ 64" using unat_lt_word [of d] by (simp add: div_less_iff_less_mult)
  then show "unat (ucast (drop_bit 64 d) :: u64) = unat d div 2 ^ 64" by (simp add: unat_ucast_down unat_drop_bit)
qed (simp add: unat_ucast_down)

lemma add_carry_128:
  fixes d p :: u128
  shows "unat d + unat p = unat (d + p) + 2 ^ 128 * of_bool (d + p < p)"
proof (cases "unat d + unat p < 2 ^ 128")
  case True
  then have "unat (d + p) = unat d + unat p" by (simp add: unat_add_small)
  then show ?thesis by (simp add: word_less_nat_alt)
next
  case False
  have b: "unat d < 2 ^ 128" "unat p < 2 ^ 128" using unat_lt_word [of d] unat_lt_word [of p] by simp_all
  have "unat (d + p) = (unat d + unat p) mod 2 ^ 128" by (simp add: unat_word_ariths)
  also have "\<dots> = unat d + unat p - 2 ^ 128" using False b by (simp add: mod_if)
  finally show ?thesis using False b by (simp add: word_less_nat_alt)
qed

text \<open>A word added to the accumulator with its carry: the accumulator gains \<open>p\<close> whenever it does not exceed 192 bits.\<close>

lemma acc_add:
  fixes p :: u128
  assumes "acc (r0, r1, r2) + unat p < 2 ^ 192"
  defines "s \<equiv> (push_bit 64 (ucast r1) OR ucast r0) + p"
  shows "acc (ucast s, ucast (drop_bit 64 s), r2 + of_bool (s < p)) = acc (r0, r1, r2) + unat p"
proof -
  have d: "unat (push_bit 64 (ucast r1) OR ucast r0 :: u128) = unat r0 + 2 ^ 64 * unat r1" by (rule unat_double_word)
  have s: "unat r0 + 2 ^ 64 * unat r1 + unat p = unat s + 2 ^ 128 * of_bool (s < p)"
    unfolding d [symmetric] s_def by (rule add_carry_128)
  have "2 ^ 128 * (unat r2 + of_bool (s < p)) < 2 ^ 192" using assms(1) s by (simp add: acc_def)
  then have "unat r2 + of_bool (s < p) < 2 ^ 64" by simp
  then have r2: "unat (r2 + of_bool (s < p)) = unat r2 + of_bool (s < p)"
    by (subst unat_add_small) auto
  have "unat (ucast s :: u64) + 2 ^ 64 * unat (ucast (drop_bit 64 s) :: u64) = unat s"
    by (subst unat_u128_halves(1), subst unat_u128_halves(2)) (rule mod_mult_div_eq)
  then show ?thesis using s by (simp add: acc_def r2 algebra_simps)
qed

lemma unat_mult_128: "unat (ucast (a :: u64) * ucast (b :: u64) :: u128) = unat a * unat b"
proof -
  have "unat a * unat b \<le> (2 ^ 64 - 1) * (2 ^ 64 - 1)"
    using unat_lt_word [of a] unat_lt_word [of b] by (intro mult_le_mono) simp_all
  then show ?thesis by (subst unat_mult_small) (simp_all add: unat_ucast_up)
qed

lemma muladd_acc:
  assumes "acc r + unat a * unat b < 2 ^ 192"
  shows "acc (muladd a b r) = acc r + unat a * unat b"
proof -
  obtain r0 r1 r2 where r: "r = (r0, r1, r2)" by (cases r)
  define p where "p = (ucast a * ucast b :: u128)"
  have p: "unat p = unat a * unat b" by (simp add: p_def unat_mult_128)
  with assms have "acc (r0, r1, r2) + unat p < 2 ^ 192" by (simp add: r)
  from acc_add [OF this] show ?thesis
    unfolding p by (simp add: muladd_def r Let_def flip: p_def)
qed

lemma mul2add_acc:
  assumes "acc r + 2 * (unat a * unat b) < 2 ^ 192"
  shows "acc (mul2add a b r) = acc r + 2 * (unat a * unat b)"
proof -
  obtain r0 r1 r2 where r: "r = (r0, r1, r2)" by (cases r)
  define p where "p = (ucast a * ucast b :: u128)"
  define h where "h = (ucast (drop_bit 127 p) :: u64)"
  have p: "unat p = unat a * unat b" by (simp add: p_def unat_mult_128)
  have lt: "unat p < 2 ^ 128" using unat_lt_word [of p] by simp
  then have "unat p div 2 ^ 127 < 2" by (simp add: div_less_iff_less_mult)
  then have h: "unat h = unat p div 2 ^ 127" by (simp add: h_def unat_ucast_down unat_drop_bit)
  have p2: "unat (p * 2) + 2 ^ 128 * unat h = 2 * unat p"
  proof -
    have "unat (p * 2) = (unat p * 2) mod 2 ^ 128" by (simp add: unat_word_ariths)
    moreover have "unat h = (unat p * 2) div 2 ^ 128" unfolding h by simp
    ultimately show ?thesis using mod_mult_div_eq [of "unat p * 2" "2 ^ 128"] by (simp only: mult.commute)
  qed
  have "2 ^ 128 * (unat r2 + unat h) < 2 ^ 192" using assms p2 by (simp add: r p acc_def)
  then have "unat r2 + unat h < 2 ^ 64" by simp
  then have "unat (r2 + h) = unat r2 + unat h" by (simp add: unat_add_small)
  then have a: "acc (r0, r1, r2 + h) + unat (p * 2) = acc r + 2 * (unat a * unat b)"
    using p2 by (simp add: acc_def r p)
  with assms have "acc (r0, r1, r2 + h) + unat (p * 2) < 2 ^ 192" by simp
  from acc_add [OF this] show ?thesis
    unfolding a by (simp add: mul2add_def r Let_def flip: p_def h_def)
qed

lemma acc_for_range:
  assumes "\<And>i r. lo \<le> i \<Longrightarrow> i < hi \<Longrightarrow> acc r + f i < 2 ^ 192 \<Longrightarrow> acc (g i r) = acc r + f i"
    and "acc r + (\<Sum>i = lo..<hi. f i) < 2 ^ 192"
  shows "acc (for_range lo hi g r) = acc r + (\<Sum>i = lo..<hi. f i)"
  using assms
proof (induction hi)
  case (Suc hi)
  show ?case
  proof (cases "lo \<le> hi")
    case True
    with Suc show ?thesis by (simp add: for_range_last)
  qed simp
qed simp

text \<open>
  One pass over columns \<open>lo\<close> to \<open>hi\<close>: the value written so far and the accumulator hold the sum of the columns, and
  the accumulator stays below \<open>n * 2 ^ 65\<close> between columns.
\<close>

definition columns :: "nat \<Rightarrow> (nat \<Rightarrow> nat) \<Rightarrow> nat \<Rightarrow> u64 list \<Rightarrow> nat \<Rightarrow> (u64 \<times> u64 \<times> u64) \<times> u64 list \<Rightarrow> bool" where
  "columns n S m res0 k = (\<lambda>(r, res). vn k res + 2 ^ (64 * k) * acc r = (\<Sum>j<k. S j * 2 ^ (64 * j))
     \<and> acc r \<le> n * 2 ^ 65 \<and> length res = length res0 \<and> drop m res = drop m res0)"

lemma columns_loop:
  assumes n: "n < 2 ^ 60" and lo: "lo \<le> hi" and hi: "hi \<le> m" "m \<le> length res0"
    and S: "\<And>k. lo \<le> k \<Longrightarrow> k < hi \<Longrightarrow> S k \<le> n * 2 ^ 128"
    and inner: "\<And>k r. lo \<le> k \<Longrightarrow> k < hi \<Longrightarrow> acc r + S k < 2 ^ 192 \<Longrightarrow> acc (inner k r) = acc r + S k"
    and I: "columns n S m res0 lo (r, res)"
  shows "columns n S m res0 hi
    (for_range lo hi (\<lambda>k (r, res). let (r0, r1, r2) = inner k r in ((r1, r2, 0), res[k := r0])) (r, res))"
proof (rule for_range_invariant)
  show "columns n S m res0 lo (r, res)" by (rule I)
  show "lo \<le> hi" by (rule lo)
  fix k and s :: "(u64 \<times> u64 \<times> u64) \<times> u64 list"
  assume k: "lo \<le> k" "k < hi" and P: "columns n S m res0 k s"
  obtain r res where s: "s = (r, res)" by (cases s)
  obtain r0 r1 r2 where i: "inner k r = (r0, r1, r2)" by (cases "inner k r")
  have I: "vn k res + 2 ^ (64 * k) * acc r = (\<Sum>j<k. S j * 2 ^ (64 * j))" "acc r \<le> n * 2 ^ 65"
    "length res = length res0" "drop m res = drop m res0"
    using P by (simp_all add: columns_def s)
  have t: "acc r + S k \<le> n * 2 ^ 65 + n * 2 ^ 128" using I(2) S [OF k] by linarith
  also have "\<dots> < 2 ^ 192" using n by simp
  finally have a: "acc (r0, r1, r2) = acc r + S k" using inner [OF k, of r] i by simp
  have sh: "acc (r0, r1, r2) = unat r0 + 2 ^ 64 * acc (r1, r2, 0)" by (simp add: acc_def)
  have "2 ^ 64 * acc (r1, r2, 0) \<le> n * 2 ^ 65 + n * 2 ^ 128" using sh a t by linarith
  also have "\<dots> \<le> 2 ^ 64 * (n * 2 ^ 65)" by simp
  finally have "acc (r1, r2, 0) \<le> n * 2 ^ 65" by simp
  moreover have "vn (Suc k) (res[k := r0]) + 2 ^ (64 * Suc k) * acc (r1, r2, 0) = (\<Sum>j<Suc k. S j * 2 ^ (64 * j))"
  proof -
    have "vn (Suc k) (res[k := r0]) + 2 ^ (64 * Suc k) * acc (r1, r2, 0) = vn k res + 2 ^ (64 * k) * acc (r0, r1, r2)"
      unfolding sh using k hi I(3) by (simp add: vn_Suc power_add algebra_simps)
    also have "\<dots> = (\<Sum>j<Suc k. S j * 2 ^ (64 * j))" unfolding a using I(1) by (simp add: algebra_simps)
    finally show ?thesis .
  qed
  ultimately show "columns n S m res0 (Suc k) (case s of (r, res) \<Rightarrow> let (r0, r1, r2) = inner k r in ((r1, r2, 0), res[k := r0]))"
    using I k hi by (simp add: columns_def s i)
qed

text \<open>The last word takes what the accumulator holds.\<close>

lemma columns_end:
  assumes c: "columns n S m res0 (2 * n - 1) ((r0, r1, r2), res)" and n: "0 < n" "2 * n \<le> m" "m \<le> length res0"
    and S: "(\<Sum>j<2 * n - 1. S j * 2 ^ (64 * j)) < 2 ^ (64 * (2 * n))"
  shows "vn (2 * n) (res[2 * n - 1 := r0]) = (\<Sum>j<2 * n - 1. S j * 2 ^ (64 * j))"
    "length (res[2 * n - 1 := r0]) = length res0" "drop m (res[2 * n - 1 := r0]) = drop m res0"
proof -
  define k where "k = 2 * n - 1"
  have k: "2 * n = Suc k" using n by (simp add: k_def)
  have I: "vn k res + 2 ^ (64 * k) * acc (r0, r1, r2) = (\<Sum>j<k. S j * 2 ^ (64 * j))"
    "length res = length res0" "drop m res = drop m res0"
    using c by (simp_all add: columns_def k_def)
  have "2 ^ (64 * k) * acc (r0, r1, r2) \<le> (\<Sum>j<k. S j * 2 ^ (64 * j))" using I(1) by linarith
  also have "\<dots> < 2 ^ (64 * k) * 2 ^ 64"
    using S unfolding k_def [symmetric] k by (simp add: power_add mult.commute)
  finally have "2 ^ (64 * k) * acc (r0, r1, r2) < 2 ^ (64 * k) * 2 ^ 64" .
  then have "acc (r0, r1, r2) < 2 ^ 64" by simp
  then have "unat r1 = 0 \<and> unat r2 = 0" by (simp add: acc_def)
  then have "acc (r0, r1, r2) = unat r0" by (simp add: acc_def)
  then show "vn (2 * n) (res[2 * n - 1 := r0]) = (\<Sum>j<2 * n - 1. S j * 2 ^ (64 * j))"
    using I n k unfolding k_def [symmetric] k by (simp add: vn_Suc)
qed (use c n in \<open>simp_all add: columns_def\<close>)


text \<open>Column \<open>k\<close> of the product, as a sum over the digits both numbers have.\<close>

definition digit :: "nat \<Rightarrow> u64 list \<Rightarrow> nat \<Rightarrow> nat" where
  "digit n x i = (if i < n then unat (x ! i) else 0)"

definition column :: "nat \<Rightarrow> u64 list \<Rightarrow> u64 list \<Rightarrow> nat \<Rightarrow> nat" where
  "column n x y k = (\<Sum>i\<le>k. digit n x i * digit n y (k - i))"

lemma vn_digits: "n \<le> length x \<Longrightarrow> n \<le> m \<Longrightarrow> vn n x = (\<Sum>i<m. digit n x i * (2 ^ 64) ^ i)"
proof -
  assume n: "n \<le> length x" "n \<le> m"
  have "(\<Sum>i<m. digit n x i * (2 ^ 64) ^ i) = (\<Sum>i<n. digit n x i * (2 ^ 64) ^ i)"
    using n(2) by (intro sum.mono_neutral_right) (auto simp: digit_def)
  also have "\<dots> = vn n x" unfolding vn_sum [OF n(1)] power_mult by (rule sum.cong) (simp_all add: digit_def)
  finally show ?thesis ..
qed

lemma product_columns:
  assumes n: "0 < n" "n \<le> length x" "n \<le> length y"
  shows "(\<Sum>k<2 * n - 1. column n x y k * 2 ^ (64 * k)) = vn n x * vn n y"
proof -
  have e: "{..<2 * n - 1} = {..(n - 1) + (n - 1)}" "{..<n} = {..n - 1}" using n(1) by auto
  have "vn n x * vn n y = (\<Sum>i\<le>n - 1. digit n x i * (2 ^ 64) ^ i) * (\<Sum>i\<le>n - 1. digit n y i * (2 ^ 64) ^ i)"
    using vn_digits [OF n(2) order_refl] vn_digits [OF n(3) order_refl] unfolding e by simp
  also have "\<dots> = (\<Sum>k\<le>(n - 1) + (n - 1). column n x y k * (2 ^ 64) ^ k)"
    unfolding column_def by (rule polynomial_product_nat) (auto simp: digit_def)
  finally show ?thesis unfolding e power_mult by (rule sym)
qed

lemma digit_lt: "digit n x i < 2 ^ 64"
  using unat_lt_word [of "x ! i"] by (simp add: digit_def)

lemma digit_mult_le: "digit n x i * digit n y j \<le> 2 ^ 128"
proof -
  have "digit n x i * digit n y j \<le> 2 ^ 64 * 2 ^ 64"
    using digit_lt [of n x i] digit_lt [of n y j] by (intro mult_le_mono) simp_all
  then show ?thesis by simp
qed

lemma column_range:
  assumes "k < 2 * n - 1"
  shows "column n x y k = (\<Sum>i = (if k < n then 0 else k + 1 - n)..<(if k < n then k + 1 else n). unat (x ! i) * unat (y ! (k - i)))"
    (is "_ = sum _ {?lo..<?hi}")
proof -
  have "column n x y k = (\<Sum>i = ?lo..<?hi. digit n x i * digit n y (k - i))"
    unfolding column_def using assms by (intro sum.mono_neutral_right) (auto simp: digit_def split: if_splits)
  also have "\<dots> = (\<Sum>i = ?lo..<?hi. unat (x ! i) * unat (y ! (k - i)))"
    using assms by (intro sum.cong) (auto simp: digit_def split: if_splits)
  finally show ?thesis .
qed

lemma column_le:
  assumes "k < 2 * n - 1"
  shows "column n x y k \<le> n * 2 ^ 128"
proof -
  let ?A = "{(if k < n then 0 else k + 1 - n)..<(if k < n then k + 1 else n)}"
  have "column n x y k = (\<Sum>i \<in> ?A. digit n x i * digit n y (k - i))"
    unfolding column_def using assms by (intro sum.mono_neutral_right) (auto simp: digit_def split: if_splits)
  also have "\<dots> \<le> of_nat (card ?A) * 2 ^ 128"
    by (rule sum_bounded_above) (rule digit_mult_le)
  also have "\<dots> \<le> n * 2 ^ 128" using assms by (intro mult_le_mono) (auto split: if_splits)
  finally show ?thesis .
qed

lemma product_lt: "vn n x * vn n y < 2 ^ (64 * (2 * n))"
proof -
  have "vn n x * vn n y < 2 ^ (64 * n) * 2 ^ (64 * n)" by (rule mult_strict_mono) (simp_all add: vn_lt)
  then show ?thesis by (simp flip: power_add mult_2)
qed

lemma vli_mult_correct:
  assumes n: "0 < n" "n < 2 ^ 60" "n \<le> length left" "n \<le> length right" "2 * n \<le> length result"
  shows "vn (2 * n) (uECC_vli_mult result left right n) = vn n left * vn n right"
    "length (uECC_vli_mult result left right n) = length result"
    "drop (2 * n) (uECC_vli_mult result left right n) = drop (2 * n) result"
proof -
  let ?S = "column n left right"
  define in1 where "in1 k r = for_range 0 (k + 1) (\<lambda>i. muladd (left ! i) (right ! (k - i))) r" for k r
  define in2 where "in2 k r = for_range (k + 1 - n) n (\<lambda>i. muladd (left ! i) (right ! (k - i))) r" for k r
  define loop where "loop f = (\<lambda>k (r, result). let (r0, r1, r2) = f k r in ((r1, r2, 0 :: u64), result[k := r0 :: u64]))"
    for f :: "nat \<Rightarrow> u64 \<times> u64 \<times> u64 \<Rightarrow> u64 \<times> u64 \<times> u64"
  have a1: "acc (in1 k r) = acc r + ?S k" if "k < n" "acc r + ?S k < 2 ^ 192" for k r
  proof -
    have "?S k = (\<Sum>i = 0..<k + 1. unat (left ! i) * unat (right ! (k - i)))" using column_range [of k n left right] that(1) by simp
    then show ?thesis unfolding in1_def using acc_for_range [of 0 "k + 1" "\<lambda>i. unat (left ! i) * unat (right ! (k - i))"] that(2) muladd_acc by simp
  qed
  have a2: "acc (in2 k r) = acc r + ?S k" if "n \<le> k" "k < 2 * n - 1" "acc r + ?S k < 2 ^ 192" for k r
  proof -
    have "?S k = (\<Sum>i = k + 1 - n..<n. unat (left ! i) * unat (right ! (k - i)))" using column_range [of k n left right] that(1,2) by simp
    then show ?thesis unfolding in2_def using acc_for_range [of "k + 1 - n" n "\<lambda>i. unat (left ! i) * unat (right ! (k - i))"] that(3) muladd_acc by simp
  qed
  have "columns n ?S (2 * n) result 0 ((0, 0, 0), result)" by (simp add: columns_def acc_def)
  then have c1: "columns n ?S (2 * n) result n (for_range 0 n (loop in1) ((0, 0, 0), result))"
    unfolding loop_def using n column_le a1 by (intro columns_loop) simp_all
  obtain r res where r: "for_range 0 n (loop in1) ((0, 0, 0), result) = (r, res)" by fastforce
  have c2: "columns n ?S (2 * n) result (2 * n - 1) (for_range n (2 * n - 1) (loop in2) (r, res))"
    unfolding loop_def using n column_le a2 c1 [unfolded r] by (intro columns_loop) simp_all
  obtain r0 r1 r2 res' where r': "for_range n (2 * n - 1) (loop in2) (r, res) = ((r0, r1, r2), res')" by (metis surj_pair)
  have e: "uECC_vli_mult result left right n = res'[2 * n - 1 := r0]"
    using r r' by (simp add: uECC_vli_mult_def loop_def in1_def in2_def mult.commute)
  have "(\<Sum>j<2 * n - 1. ?S j * 2 ^ (64 * j)) < 2 ^ (64 * (2 * n))"
    unfolding product_columns [OF n(1,3,4)] by (rule product_lt)
  from columns_end [OF c2 [unfolded r'] n(1) order_refl n(5) this]
  show "vn (2 * n) (uECC_vli_mult result left right n) = vn n left * vn n right"
    "length (uECC_vli_mult result left right n) = length result"
    "drop (2 * n) (uECC_vli_mult result left right n) = drop (2 * n) result"
    unfolding e product_columns [OF n(1,3,4)] by blast+
qed


section \<open>Squaring\<close>

text \<open>A square takes each mixed product once and doubles it.\<close>

lemma symmetric_sum:
  fixes f :: "nat \<Rightarrow> nat"
  assumes sym: "\<And>i. i \<le> k \<Longrightarrow> f (k - i) = f i"
  shows "(\<Sum>i\<le>k. f i) = (\<Sum>i = 0..<k div 2 + 1. if i < k - i then 2 * f i else f i)"
proof -
  let ?L = "{i. i \<le> k \<and> i < k - i}" and ?M = "{i. i \<le> k \<and> i = k - i}" and ?H = "{i. i \<le> k \<and> k - i < i}"
  have "{..k} = ?L \<union> ?M \<union> ?H" by auto
  moreover have "(\<Sum>i \<in> ?L \<union> ?M \<union> ?H. f i) = (\<Sum>i \<in> ?L \<union> ?M. f i) + (\<Sum>i \<in> ?H. f i)"
    by (rule sum.union_disjoint) auto
  moreover have "(\<Sum>i \<in> ?L \<union> ?M. f i) = (\<Sum>i \<in> ?L. f i) + (\<Sum>i \<in> ?M. f i)"
    by (rule sum.union_disjoint) auto
  moreover have "(\<Sum>i \<in> ?H. f i) = (\<Sum>i \<in> ?L. f i)"
    by (rule sum.reindex_bij_witness [of _ "\<lambda>i. k - i" "\<lambda>i. k - i"]) (auto simp: sym)
  moreover have "(\<Sum>i = 0..<k div 2 + 1. if i < k - i then 2 * f i else f i)
      = (\<Sum>i \<in> ?L \<union> ?M. if i < k - i then 2 * f i else f i)"
    by (rule sum.cong) auto
  moreover have "\<dots> = (\<Sum>i \<in> ?L. if i < k - i then 2 * f i else f i) + (\<Sum>i \<in> ?M. if i < k - i then 2 * f i else f i)"
    by (rule sum.union_disjoint) auto
  moreover have "(\<Sum>i \<in> ?L. if i < k - i then 2 * f i else f i) = 2 * (\<Sum>i \<in> ?L. f i)"
    by (simp add: sum_distrib_left)
  moreover have "(\<Sum>i \<in> ?M. if i < k - i then 2 * f i else f i) = (\<Sum>i \<in> ?M. f i)"
    by (rule sum.cong) auto
  ultimately show ?thesis by simp
qed

lemma column_square:
  assumes "k < 2 * n - 1"
  shows "column n x x k = (\<Sum>i = (if k < n then 0 else k + 1 - n)..<k div 2 + 1.
    if i < k - i then 2 * (unat (x ! i) * unat (x ! (k - i))) else unat (x ! i) * unat (x ! (k - i)))"
    (is "_ = sum ?f {?m..<_}")
proof -
  let ?g = "\<lambda>i. digit n x i * digit n x (k - i)"
  have "column n x x k = (\<Sum>i = 0..<k div 2 + 1. if i < k - i then 2 * ?g i else ?g i)"
    unfolding column_def by (rule symmetric_sum) (simp add: mult.commute)
  also have "\<dots> = (\<Sum>i = ?m..<k div 2 + 1. if i < k - i then 2 * ?g i else ?g i)"
    using assms by (intro sum.mono_neutral_right) (auto simp: digit_def split: if_splits)
  also have "\<dots> = sum ?f {?m..<k div 2 + 1}"
    using assms by (intro sum.cong) (auto simp: digit_def split: if_splits)
  finally show ?thesis .
qed

lemma vli_square_correct:
  assumes n: "0 < n" "n < 2 ^ 60" "n \<le> length left" "2 * n \<le> length result"
  shows "vn (2 * n) (uECC_vli_square result left n) = (vn n left)\<^sup>2"
    "length (uECC_vli_square result left n) = length result"
    "drop (2 * n) (uECC_vli_square result left n) = drop (2 * n) result"
proof -
  let ?S = "column n left left"
  define inner where "inner k r = for_range (if k < n then 0 else k + 1 - n) (k div 2 + 1)
    (\<lambda>i. if i < k - i then mul2add (left ! i) (left ! (k - i)) else muladd (left ! i) (left ! (k - i))) r" for k r
  define loop where "loop = (\<lambda>k (r, result). let (r0, r1, r2) = inner k r in ((r1, r2, 0 :: u64), result[k := r0 :: u64]))"
  have a: "acc (inner k r) = acc r + ?S k" if "k < 2 * n - 1" "acc r + ?S k < 2 ^ 192" for k r
    unfolding inner_def column_square [OF that(1)]
  proof (rule acc_for_range)
    fix i r
    show "acc ((if i < k - i then mul2add (left ! i) (left ! (k - i)) else muladd (left ! i) (left ! (k - i))) r) =
        acc r + (if i < k - i then 2 * (unat (left ! i) * unat (left ! (k - i))) else unat (left ! i) * unat (left ! (k - i)))"
      if "acc r + (if i < k - i then 2 * (unat (left ! i) * unat (left ! (k - i))) else unat (left ! i) * unat (left ! (k - i))) < 2 ^ 192"
      using that mul2add_acc [of r "left ! i" "left ! (k - i)"] muladd_acc [of r "left ! i" "left ! (k - i)"]
      by (cases "i < k - i") simp_all
  qed (use that column_square [OF that(1)] in simp)
  have "columns n ?S (2 * n) result 0 ((0, 0, 0), result)" by (simp add: columns_def acc_def)
  then have c: "columns n ?S (2 * n) result (2 * n - 1) (for_range 0 (2 * n - 1) loop ((0, 0, 0), result))"
    unfolding loop_def using n column_le a by (intro columns_loop) simp_all
  obtain r0 r1 r2 res where r: "for_range 0 (2 * n - 1) loop ((0, 0, 0), result) = ((r0, r1, r2), res)" by (metis surj_pair)
  have e: "uECC_vli_square result left n = res[2 * n - 1 := r0]"
    using r by (simp add: uECC_vli_square_def loop_def inner_def mult.commute Let_def)
  have "(\<Sum>j<2 * n - 1. ?S j * 2 ^ (64 * j)) < 2 ^ (64 * (2 * n))"
    unfolding product_columns [OF n(1,3,3)] by (rule product_lt)
  from columns_end [OF c [unfolded r] n(1) order_refl n(4) this]
  show "vn (2 * n) (uECC_vli_square result left n) = (vn n left)\<^sup>2"
    "length (uECC_vli_square result left n) = length result"
    "drop (2 * n) (uECC_vli_square result left n) = drop (2 * n) result"
    unfolding e product_columns [OF n(1,3,3)] power2_eq_square by blast+
qed

end
