(* ===== verification/Uecc_Mod.thy ===== *)
theory Uecc_Mod
  imports Uecc_Vli
begin

text \<open>
  Modular arithmetic of micro-ecc on multi-word integers: \<^verbatim>\<open>uECC_vli_modAdd\<close>, \<^verbatim>\<open>modSub\<close>, \<^verbatim>\<open>mmod\<close> (reduction by
  shifting and subtracting), \<^verbatim>\<open>modMult\<close> and \<^verbatim>\<open>modInv\<close> (binary extended Euclid). Local arrays, uninitialised in the code and
  written before they are read, start as zeros. The loop of \<^verbatim>\<open>modInv\<close> has no bound in the code and does not end for every
  modulus, so it is an optional result; its theorem shows that it returns for every odd modulus.
\<close>

section \<open>The code\<close>

definition uECC_vli_modAdd :: "u64 list \<Rightarrow> u64 list \<Rightarrow> u64 list \<Rightarrow> u64 list \<Rightarrow> nat \<Rightarrow> u64 list" where
  "uECC_vli_modAdd result left right modulus num_words =
     (let (carry, result) = uECC_vli_add result left right num_words
      in if carry \<noteq> 0 \<or> uECC_vli_cmp_unsafe modulus result num_words \<noteq> 1
         then snd (uECC_vli_sub result result modulus num_words)
         else result)"

definition uECC_vli_modSub :: "u64 list \<Rightarrow> u64 list \<Rightarrow> u64 list \<Rightarrow> u64 list \<Rightarrow> nat \<Rightarrow> u64 list" where
  "uECC_vli_modSub result left right modulus num_words =
     (let (l_borrow, result) = uECC_vli_sub result left right num_words
      in if l_borrow \<noteq> 0 then snd (uECC_vli_add result result modulus num_words) else result)"

text \<open>
  The two buffers \<open>v[0]\<close> (\<open>tmp\<close>) and \<open>v[1]\<close> (\<open>product\<close>) of \<^verbatim>\<open>uECC_vli_mmod\<close> are a list of two arrays; \<open>index\<close> names the one that holds
  the remainder.
\<close>

definition mmod_shift :: "u64 list \<Rightarrow> nat \<Rightarrow> nat \<Rightarrow> u64 list" where
  "mmod_shift modulus num_words shift =
     (let mod_multiple = replicate 8 0;
          word_shift = shift div 64;
          bit_shift = shift mod 64;
          mod_multiple = uECC_vli_clear mod_multiple word_shift
      in if bit_shift > 0
         then snd (for_range 0 num_words (\<lambda>index (carry, mod_multiple).
                (drop_bit (64 - bit_shift) (modulus ! index),
                 mod_multiple[word_shift + index := push_bit bit_shift (modulus ! index) OR carry])) (0, mod_multiple))
         else at_off word_shift (\<lambda>dest. uECC_vli_set dest modulus num_words) mod_multiple)"

definition mmod_step :: "nat \<Rightarrow> u64 \<times> u64 list list \<times> u64 list \<Rightarrow> u64 \<times> u64 list list \<times> u64 list" where
  "mmod_step num_words = (\<lambda>(index, v, mod_multiple).
     let (borrow, v) = for_range 0 (num_words * 2) (\<lambda>i (borrow, v).
           let diff = v ! unat index ! i - mod_multiple ! i - borrow;
               borrow = (if diff \<noteq> v ! unat index ! i then of_bool (diff > v ! unat index ! i) else borrow)
           in (borrow, v[unat (1 - index) := (v ! unat (1 - index))[i := diff]])) (0, v);
         index = of_bool (index XOR borrow = 0);
         mod_multiple = uECC_vli_rshift1 mod_multiple num_words;
         mod_multiple = mod_multiple[num_words - 1 :=
           mod_multiple ! (num_words - 1) OR push_bit 63 (mod_multiple ! num_words)];
         mod_multiple = at_off num_words (\<lambda>vli. uECC_vli_rshift1 vli num_words) mod_multiple
     in (index, v, mod_multiple))"

definition uECC_vli_mmod :: "u64 list \<Rightarrow> u64 list \<Rightarrow> u64 list \<Rightarrow> nat \<Rightarrow> u64 list" where
  "uECC_vli_mmod result product modulus num_words =
     (let tmp = replicate 8 0;
          v = [tmp, product];
          shift = num_words * 2 * 64 - uECC_vli_numBits modulus num_words;
          mod_multiple = mmod_shift modulus num_words shift;
          (index, v, mod_multiple) = for_range 0 (shift + 1) (\<lambda>_. mmod_step num_words) (1, v, mod_multiple)
      in uECC_vli_set result (v ! unat index) num_words)"

definition uECC_vli_modMult :: "u64 list \<Rightarrow> u64 list \<Rightarrow> u64 list \<Rightarrow> u64 list \<Rightarrow> nat \<Rightarrow> u64 list" where
  "uECC_vli_modMult result left right modulus num_words =
     (let product = uECC_vli_mult (replicate 8 0) left right num_words
      in uECC_vli_mmod result product modulus num_words)"

definition EVEN :: "u64 list \<Rightarrow> bool" where
  "EVEN vli = (vli ! 0 AND 1 = 0)"

definition vli_modInv_update :: "u64 list \<Rightarrow> u64 list \<Rightarrow> nat \<Rightarrow> u64 list" where
  "vli_modInv_update uv modulus num_words =
     (let (carry, uv) = (if \<not> EVEN uv then uECC_vli_add uv uv modulus num_words else (0, uv));
          uv = uECC_vli_rshift1 uv num_words
      in if carry \<noteq> 0 then uv[num_words - 1 := uv ! (num_words - 1) OR 0x8000000000000000] else uv)"

partial_function (option) modInv_loop ::
    "u64 list \<Rightarrow> nat \<Rightarrow> u64 list \<Rightarrow> u64 list \<Rightarrow> u64 list \<Rightarrow> u64 list \<Rightarrow> u64 list option" where
  "modInv_loop modulus num_words a b u v =
     (let cmpResult = uECC_vli_cmp_unsafe a b num_words
      in if cmpResult \<noteq> 0 then
           if EVEN a then
             modInv_loop modulus num_words (uECC_vli_rshift1 a num_words) b (vli_modInv_update u modulus num_words) v
           else if EVEN b then
             modInv_loop modulus num_words a (uECC_vli_rshift1 b num_words) u (vli_modInv_update v modulus num_words)
           else if cmpResult > 0 then
             let a = snd (uECC_vli_sub a a b num_words);
                 a = uECC_vli_rshift1 a num_words;
                 u = (if uECC_vli_cmp_unsafe u v num_words < 0 then snd (uECC_vli_add u u modulus num_words) else u);
                 u = snd (uECC_vli_sub u u v num_words)
             in modInv_loop modulus num_words a b (vli_modInv_update u modulus num_words) v
           else
             let b = snd (uECC_vli_sub b b a num_words);
                 b = uECC_vli_rshift1 b num_words;
                 v = (if uECC_vli_cmp_unsafe v u num_words < 0 then snd (uECC_vli_add v v modulus num_words) else v);
                 v = snd (uECC_vli_sub v v u num_words)
             in modInv_loop modulus num_words a b u (vli_modInv_update v modulus num_words)
         else Some u)"

definition uECC_vli_modInv :: "u64 list \<Rightarrow> u64 list \<Rightarrow> u64 list \<Rightarrow> nat \<Rightarrow> u64 list option" where
  "uECC_vli_modInv result input modulus num_words =
     (if uECC_vli_isZero input num_words \<noteq> 0 then Some (uECC_vli_clear result num_words)
      else
        let a = uECC_vli_set (replicate 4 0) input num_words;
            b = uECC_vli_set (replicate 4 0) modulus num_words;
            u = (uECC_vli_clear (replicate 4 0) num_words)[0 := 1];
            v = uECC_vli_clear (replicate 4 0) num_words
        in map_option (\<lambda>u. uECC_vli_set result u num_words) (modInv_loop modulus num_words a b u v))"

section \<open>Addition and subtraction\<close>

text \<open>One subtraction of the modulus; the left operand may be any number of the array's size.\<close>

lemma vli_modAdd_value:
  assumes n: "n \<le> length result" "n \<le> length left" "n \<le> length right" "n \<le> length m" and lt: "vn n right < vn n m"
  shows "vn n (uECC_vli_modAdd result left right m n) = (if vn n m \<le> vn n left + vn n right then vn n left + vn n right - vn n m
      else vn n left + vn n right)"
    "length (uECC_vli_modAdd result left right m n) = length result"
    "drop n (uECC_vli_modAdd result left right m n) = drop n result"
proof -
  obtain c res where r: "uECC_vli_add result left right n = (c, res)" by fastforce
  note add = vli_add_correct [OF n(1-3) r]
  have nr: "n \<le> length res" using add(3) n(1) by simp
  obtain b res' where r': "uECC_vli_sub res res m n = (b, res')" by fastforce
  note sub = vli_sub_correct [OF nr nr n(4) r']
  have bd: "vn n m < 2 ^ (64 * n)" "vn n res < 2 ^ (64 * n)" "vn n res' < 2 ^ (64 * n)" "vn n left < 2 ^ (64 * n)" by (rule vn_lt)+
  have c: "c = 0 \<or> c = 1"
    using add(2) by (metis One_nat_def le_Suc_eq le_zero_eq unat_1 unat_eq_zero word_unat_eq_iff)
  have e: "uECC_vli_modAdd result left right m n = (if c \<noteq> 0 \<or> vn n m \<le> vn n res then res' else res)"
    by (simp add: uECC_vli_modAdd_def r r' vli_cmp_unsafe_eq [OF n(4) nr] not_less)
  show "vn n (uECC_vli_modAdd result left right m n) = (if vn n m \<le> vn n left + vn n right then vn n left + vn n right - vn n m
      else vn n left + vn n right)"
  proof (cases "c \<noteq> 0 \<or> vn n m \<le> vn n res")
    case True
    have b: "unat b = 0 \<or> unat b = 1" using sub(2) by linarith
    have "vn n res' = vn n left + vn n right - vn n m \<and> vn n m \<le> vn n left + vn n right"
      using c
    proof
      assume "c = 0"
      then show ?thesis using True add(1) sub(1) b bd by auto
    next
      assume "c = 1"
      then have t: "vn n res + 2 ^ (64 * n) = vn n left + vn n right" using add(1) by simp
      then have "vn n res < vn n m" using lt bd(4) by linarith
      then have "unat b = 1" using b sub(1) by auto
      then show ?thesis using sub(1) t bd(1) by simp
    qed
    then show ?thesis unfolding e using True by simp
  next
    case False
    then show ?thesis unfolding e using add(1) by simp
  qed
  show "length (uECC_vli_modAdd result left right m n) = length result"
    "drop n (uECC_vli_modAdd result left right m n) = drop n result"
    unfolding e using add(3,4) sub(3,4) by simp_all
qed

lemma vli_modAdd_correct:
  assumes n: "n \<le> length result" "n \<le> length left" "n \<le> length right" "n \<le> length m"
    and lt: "vn n left < vn n m" "vn n right < vn n m"
  shows "vn n (uECC_vli_modAdd result left right m n) = (vn n left + vn n right) mod vn n m"
    "length (uECC_vli_modAdd result left right m n) = length result"
    "drop n (uECC_vli_modAdd result left right m n) = drop n result"
  using vli_modAdd_value [OF n lt(2)] lt by (simp_all add: mod_if)

lemma vli_modSub_correct:
  assumes n: "n \<le> length result" "n \<le> length left" "n \<le> length right" "n \<le> length m"
    and lt: "vn n left < vn n m" "vn n right < vn n m"
  shows "vn n (uECC_vli_modSub result left right m n) = (vn n left + (vn n m - vn n right)) mod vn n m"
    "length (uECC_vli_modSub result left right m n) = length result"
    "drop n (uECC_vli_modSub result left right m n) = drop n result"
proof -
  obtain b res where r: "uECC_vli_sub result left right n = (b, res)" by fastforce
  note sub = vli_sub_correct [OF n(1-3) r] vli_sub_borrow [OF n(1-3) r]
  have nr: "n \<le> length res" using sub(3) n(1) by simp
  obtain c res' where r': "uECC_vli_add res res m n = (c, res')" by fastforce
  note add = vli_add_correct [OF nr nr n(4) r']
  have bd: "vn n m < 2 ^ (64 * n)" "vn n res < 2 ^ (64 * n)" "vn n res' < 2 ^ (64 * n)" by (rule vn_lt)+
  have e: "uECC_vli_modSub result left right m n = (if vn n left < vn n right then res' else res)"
    by (simp add: uECC_vli_modSub_def r r' sub(5))
  have V: "vn n (uECC_vli_modSub result left right m n) = (if vn n left < vn n right then vn n left + vn n m - vn n right else vn n left - vn n right)"
  proof (cases "vn n left < vn n right")
    case True
    then have t: "vn n res + vn n right = vn n left + 2 ^ (64 * n)" using sub(1,5) by simp
    have c: "unat c = 0 \<or> unat c = 1" using add(2) by linarith
    then have "unat c = 1" using add(1) t lt bd(3) by auto
    then show ?thesis unfolding e using True add(1) t by simp
  next
    case False
    then show ?thesis unfolding e using sub(1,5) by simp
  qed
  show "vn n (uECC_vli_modSub result left right m n) = (vn n left + (vn n m - vn n right)) mod vn n m"
    unfolding V using lt by (auto simp: mod_if)
  show "length (uECC_vli_modSub result left right m n) = length result"
    "drop n (uECC_vli_modSub result left right m n) = drop n result"
    unfolding e using add(3,4) sub(3,4) by simp_all
qed


section \<open>Inversion\<close>

lemma vn_odd_word:
  assumes "0 < n" "n \<le> length x"
  shows "odd (vn n x) \<longleftrightarrow> odd (unat (x ! 0))"
proof -
  obtain w ws where x: "x = w # ws" using assms by (cases x) auto
  show ?thesis using assms(1) by (cases n) (simp_all add: x)
qed

lemma EVEN_iff: "0 < n \<Longrightarrow> n \<le> length x \<Longrightarrow> EVEN x \<longleftrightarrow> even (vn n x)"
proof -
  assume n: "0 < n" "n \<le> length x"
  have "EVEN x \<longleftrightarrow> unat (x ! 0 AND 1) = 0" by (simp only: EVEN_def unat_eq_zero)
  also have "unat (x ! 0 AND 1) = unat (x ! 0) mod 2" by (simp only: unsigned_and_eq unsigned_1) (simp only: and_one_eq)
  also have "\<dots> = 0 \<longleftrightarrow> even (vn n x)" using vn_odd_word [OF n] by (auto simp: even_iff_mod_2_eq_zero)
  finally show ?thesis .
qed

text \<open>The top bit of a number that leaves it free.\<close>

lemma vn_set_top:
  assumes n: "0 < n" "n \<le> length w" and lt: "vn n w < 2 ^ (64 * n - 1)"
  shows "vn n (w[n - 1 := w ! (n - 1) OR push_bit 63 y]) = vn n w + 2 ^ (64 * n - 1) * (unat y mod 2)"
proof -
  obtain j where j: "n = Suc j" using n(1) by (cases n) simp_all
  have e: "64 * n - 1 = 64 * j + 63" by (simp add: j)
  have "2 ^ (64 * j) * unat (w ! j) \<le> vn n w" using n(2) by (simp add: j vn_Suc)
  also have "\<dots> < 2 ^ (64 * j) * 2 ^ 63" using lt unfolding e by (simp add: power_add)
  finally have "2 ^ (64 * j) * unat (w ! j) < 2 ^ (64 * j) * 2 ^ 63" .
  then have "unat (w ! j) < 2 ^ 63" by simp
  then have "w ! j AND push_bit 63 y = 0" and h: "unat (w ! j) + 2 ^ 63 * (unat y mod 2) < 2 ^ 64"
    by (simp_all add: and_push_bit_eq_0)
  then have "w ! j OR push_bit 63 y = w ! j + push_bit 63 y" by (simp add: or_eq_add_disjoint)
  then have "unat (w ! j OR push_bit 63 y) = unat (w ! j) + 2 ^ 63 * (unat y mod 2)"
    using h rshift1_digit(2) [of 0 0 y] by (simp add: unat_add_small)
  then show ?thesis using n(2) unfolding e by (simp add: j vn_Suc power_add algebra_simps)
qed

text \<open>Half of a residue: the number or the number plus the modulus, whichever is even, divided by two.\<close>

definition halve :: "nat \<Rightarrow> nat \<Rightarrow> nat" where
  "halve m u = (if even u then u div 2 else (u + m) div 2)"

lemma halve_residue:
  assumes "odd m" "u < m"
  shows "halve m u < m" "int m dvd int (2 * halve m u) - int u"
proof -
  show "halve m u < m" using assms by (auto simp: halve_def)
  show "int m dvd int (2 * halve m u) - int u"
  proof (cases "even u")
    case False
    then have "2 * halve m u = u + m" using assms(1) by (simp add: halve_def)
    then show ?thesis by simp
  qed (simp add: halve_def)
qed

lemma modInv_update_correct:
  assumes n: "0 < n" "n \<le> length u" "n \<le> length m" and m: "odd (vn n m)" "vn n u < vn n m"
  shows "vn n (vli_modInv_update u m n) = halve (vn n m) (vn n u)" "length (vli_modInv_update u m n) = length u"
proof -
  obtain c r where a: "uECC_vli_add u u m n = (c, r)" by fastforce
  note add = vli_add_correct [OF n(2,2,3) a]
  have l: "n \<le> length r" using add(3) n(2) by simp
  note sh = vli_rshift1_correct [OF l] and shu = vli_rshift1_correct [OF n(2)]
  have c: "unat c = 0 \<or> unat c = 1" using add(2) by linarith
  have "vn n (vli_modInv_update u m n) = halve (vn n m) (vn n u) \<and> length (vli_modInv_update u m n) = length u"
  proof (cases "even (vn n u)")
    case True
    then have "vli_modInv_update u m n = uECC_vli_rshift1 u n"
      using EVEN_iff [OF n(1,2)] by (simp add: vli_modInv_update_def)
    then show ?thesis using True shu by (simp add: halve_def)
  next
    case False
    define w where "w = uECC_vli_rshift1 r n"
    have X: "(2 :: nat) ^ (64 * n) = 2 * 2 ^ (64 * n - 1)" using n(1) by (simp flip: power_Suc)
    have w: "vn n w = vn n r div 2" "length w = length u" "n \<le> length w" using sh(1,2) add(3) l by (simp_all add: w_def)
    have lt: "vn n w < 2 ^ (64 * n - 1)" using vn_lt [of n r] unfolding w(1) X by simp
    have e: "vli_modInv_update u m n = (if c \<noteq> 0 then w[n - 1 := w ! (n - 1) OR push_bit 63 1] else w)"
      using False EVEN_iff [OF n(1,2)] a by (simp add: vli_modInv_update_def w_def Let_def)
    have "(vn n u + vn n m) div 2 = vn n w + 2 ^ (64 * n - 1) * unat c"
      unfolding w(1) add(1) [symmetric] X by simp
    moreover have "vn n (vli_modInv_update u m n) = vn n w + 2 ^ (64 * n - 1) * unat c"
      using c
    proof
      assume "unat c = 1"
      then have "c \<noteq> 0" by auto
      then show ?thesis using vn_set_top [OF n(1) w(3) lt, of 1] \<open>unat c = 1\<close> by (simp add: e)
    qed (simp add: e unat_eq_zero)
    ultimately show ?thesis using False w(2) by (simp add: halve_def e)
  qed
  then show "vn n (vli_modInv_update u m n) = halve (vn n m) (vn n u)" "length (vli_modInv_update u m n) = length u"
    by blast+
qed

text \<open>The difference of two residues, computed with the carry of the addition dropped.\<close>

lemma modInv_difference:
  assumes n: "n \<le> length u" "n \<le> length v" "n \<le> length m" and lt: "vn n u < vn n m" "vn n v < vn n m"
  defines "w \<equiv> (if uECC_vli_cmp_unsafe u v n < 0 then snd (uECC_vli_add u u m n) else u)"
  shows "vn n (snd (uECC_vli_sub w w v n)) = (if vn n u < vn n v then vn n u + vn n m - vn n v else vn n u - vn n v)"
    "length (snd (uECC_vli_sub w w v n)) = length u"
proof -
  obtain c r where a: "uECC_vli_add u u m n = (c, r)" by fastforce
  note add = vli_add_correct [OF n(1,1,3) a]
  have w: "w = (if vn n u < vn n v then r else u)" by (simp add: w_def vli_cmp_unsafe_eq [OF n(1,2)] a)
  have lw: "n \<le> length w" "length w = length u" using n(1) add(3) by (simp_all add: w)
  obtain b s where d: "uECC_vli_sub w w v n = (b, s)" by fastforce
  note sub = vli_sub_correct [OF lw(1,1) n(2) d] vli_sub_borrow [OF lw(1,1) n(2) d]
  have bd: "vn n m < 2 ^ (64 * n)" "vn n s < 2 ^ (64 * n)" by (rule vn_lt)+
  have b: "unat b = 0 \<or> unat b = 1" and c: "unat c = 0 \<or> unat c = 1" using sub(2) add(2) by linarith+
  have "vn n s = (if vn n u < vn n v then vn n u + vn n m - vn n v else vn n u - vn n v)"
  proof (cases "vn n u < vn n v")
    case True
    then have "vn n s + vn n v + 2 ^ (64 * n) * unat c = vn n u + vn n m + 2 ^ (64 * n) * unat b"
      using sub(1) add(1) by (simp add: w)
    then show ?thesis using True b c lt bd by auto
  next
    case False
    then show ?thesis using sub(1,5) by (simp add: w)
  qed
  then show "vn n (snd (uECC_vli_sub w w v n)) = (if vn n u < vn n v then vn n u + vn n m - vn n v else vn n u - vn n v)"
    "length (snd (uECC_vli_sub w w v n)) = length u"
    using sub(3) lw(2) by (simp_all add: d)
qed


text \<open>
  What the loop keeps: both numbers are positive with the greatest common divisor of the input and the modulus, and the
  residues multiply the input to them.
\<close>

definition inv_state :: "nat \<Rightarrow> nat \<Rightarrow> nat \<Rightarrow> nat \<Rightarrow> nat \<Rightarrow> nat \<Rightarrow> bool" where
  "inv_state m x a b u v \<longleftrightarrow> 0 < a \<and> 0 < b \<and> u < m \<and> v < m \<and> gcd a b = gcd x m
     \<and> int m dvd int u * int x - int a \<and> int m dvd int v * int x - int b"

lemma inv_state_swap: "inv_state m x a b u v \<longleftrightarrow> inv_state m x b a v u"
  by (auto simp: inv_state_def gcd.commute)

lemma inv_state_halve:
  assumes m: "odd m" and I: "inv_state m x a b u v" and a: "even a"
  shows "inv_state m x (a div 2) b (halve m u) v"
proof -
  have h: "halve m u < m" "int m dvd int (2 * halve m u) - int u"
    using halve_residue [OF m] I by (simp_all add: inv_state_def)
  obtain k where k: "a = 2 * k" using a by blast
  have "odd (gcd a b)" using I m by (simp add: inv_state_def)
  then have "odd b" using a by simp
  then have "gcd (a div 2) b = gcd x m"
    using I by (simp add: inv_state_def k gcd_mult_left_left_cancel coprime_commute)
  moreover have "int m dvd int (halve m u) * int x - int (a div 2)"
  proof -
    have "int m dvd (int (2 * halve m u) - int u) * int x + (int u * int x - int a)"
      using h(2) I by (intro dvd_add dvd_mult2) (simp_all add: inv_state_def)
    also have "\<dots> = 2 * (int (halve m u) * int x - int (a div 2))" by (simp add: k algebra_simps)
    finally show ?thesis using m by (subst (asm) coprime_dvd_mult_right_iff) simp_all
  qed
  ultimately show ?thesis using I h(1) by (auto simp: inv_state_def k)
qed

lemma inv_state_subtract:
  assumes I: "inv_state m x a b u v" and ab: "b < a"
  shows "inv_state m x (a - b) b (if u < v then u + m - v else u - v) v"
proof -
  let ?d = "if u < v then u + m - v else u - v"
  have d: "?d < m" "int ?d = int u - int v + (if u < v then int m else 0)"
    using I by (auto simp: inv_state_def)
  have dv: "int m dvd int u * int x - int a" "int m dvd int v * int x - int b" using I by (simp_all only: inv_state_def)
  have "int m dvd (int u * int x - int a) - (int v * int x - int b) + (if u < v then int m else 0) * int x"
    by (rule dvd_add [OF dvd_diff [OF dv] dvd_mult2]) simp
  also have "\<dots> = int ?d * int x - int (a - b)" using ab unfolding d(2) by (simp add: algebra_simps of_nat_diff)
  finally show ?thesis
    using I ab d(1) by (simp add: inv_state_def gcd_diff1_nat)
qed

definition modInv_ok :: "nat \<Rightarrow> u64 list \<Rightarrow> u64 list \<Rightarrow> nat \<Rightarrow> bool" where
  "modInv_ok n m r x \<longleftrightarrow> length r = 4 \<and> vn n r < vn n m \<and> int (vn n m) dvd int (vn n r) * int x - int (gcd x (vn n m))"

lemma modInv_loop_correct:
  assumes n: "0 < n" "n \<le> 4" "n \<le> length m" and m: "odd (vn n m)"
    and l: "length a = 4" "length b = 4" "length u = 4" "length v = 4"
    and I: "inv_state (vn n m) x (vn n a) (vn n b) (vn n u) (vn n v)"
  shows "\<exists>r. modInv_loop m n a b u v = Some r \<and> modInv_ok n m r x"
  using l I
proof (induction "vn n a + vn n b" arbitrary: a b u v rule: less_induct)
  case less
  have nl: "n \<le> length a" "n \<le> length b" "n \<le> length u" "n \<le> length v" using less.prems n(2) by simp_all
  have pos: "0 < vn n a" "0 < vn n b" and uv: "vn n u < vn n m" "vn n v < vn n m" using less.prems(5) by (simp_all add: inv_state_def)
  note upd = modInv_update_correct [OF n(1) _ n(3) m]
  note sh = vli_rshift1_correct
  note cmp = vli_cmp_unsafe_eq [OF nl(1,2)]
  note ev = EVEN_iff [OF n(1)]
  consider (eq) "vn n a = vn n b" | (a_even) "vn n a \<noteq> vn n b" "even (vn n a)"
    | (b_even) "vn n a \<noteq> vn n b" "odd (vn n a)" "even (vn n b)"
    | (gt) "vn n b < vn n a" "odd (vn n a)" "odd (vn n b)" | (lt) "vn n a < vn n b" "odd (vn n a)" "odd (vn n b)"
    by (meson linorder_neqE_nat)
  then show ?case
  proof cases
    case eq
    then have g: "gcd x (vn n m) = vn n a" using less.prems(5) by (simp add: inv_state_def)
    have "modInv_ok n m u x" using less.prems(3,5) unfolding modInv_ok_def g inv_state_def by simp
    then show ?thesis using eq by (simp add: modInv_loop.simps [of m n a b u v] cmp)
  next
    case a_even
    have "modInv_loop m n a b u v = modInv_loop m n (uECC_vli_rshift1 a n) b (vli_modInv_update u m n) v"
      using a_even by (simp add: modInv_loop.simps [of m n a b u v] cmp ev nl)
    moreover have "\<exists>r. modInv_loop m n (uECC_vli_rshift1 a n) b (vli_modInv_update u m n) v = Some r \<and> modInv_ok n m r x"
      using inv_state_halve [OF m less.prems(5) a_even(2)] pos less.prems
      by (intro less.hyps) (simp_all add: sh n(2) upd uv)
    ultimately show ?thesis by simp
  next
    case b_even
    have "modInv_loop m n a b u v = modInv_loop m n a (uECC_vli_rshift1 b n) u (vli_modInv_update v m n)"
      using b_even by (simp add: modInv_loop.simps [of m n a b u v] cmp ev nl)
    moreover have "\<exists>r. modInv_loop m n a (uECC_vli_rshift1 b n) u (vli_modInv_update v m n) = Some r \<and> modInv_ok n m r x"
      using inv_state_halve [OF m inv_state_swap [THEN iffD1, OF less.prems(5)] b_even(3)] pos less.prems
      by (intro less.hyps) (simp_all add: sh n(2) upd uv inv_state_swap [of _ _ "vn n a"])
    ultimately show ?thesis by simp
  next
    case gt
    define a' where "a' = snd (uECC_vli_sub a a b n)"
    define w where "w = (if uECC_vli_cmp_unsafe u v n < 0 then snd (uECC_vli_add u u m n) else u)"
    define u' where "u' = snd (uECC_vli_sub w w v n)"
    obtain c where c: "uECC_vli_sub a a b n = (c, a')" by (metis a'_def prod.collapse)
    note sub = vli_sub_correct [OF nl(1,1,2) c] vli_sub_borrow [OF nl(1,1,2) c]
    have a': "vn n a' = vn n a - vn n b" "length a' = 4" "n \<le> length a'" using sub gt less.prems n(2) by simp_all
    have u': "vn n u' = (if vn n u < vn n v then vn n u + vn n m - vn n v else vn n u - vn n v)" "length u' = 4"
      using modInv_difference [OF nl(3,4) n(3) uv] less.prems by (simp_all add: u'_def w_def)
    have "even (vn n a')" using gt by (simp add: a')
    have "modInv_loop m n a b u v = modInv_loop m n (uECC_vli_rshift1 a' n) b (vli_modInv_update u' m n) v"
      using gt by (simp add: modInv_loop.simps [of m n a b u v] cmp ev nl Let_def flip: a'_def w_def u'_def)
    moreover have "\<exists>r. modInv_loop m n (uECC_vli_rshift1 a' n) b (vli_modInv_update u' m n) v = Some r \<and> modInv_ok n m r x"
    proof (rule less.hyps)
      have "inv_state (vn n m) x (vn n a') (vn n b) (vn n u') (vn n v)"
        using inv_state_subtract [OF less.prems(5) gt(1)] by (simp only: a' u')
      from inv_state_halve [OF m this \<open>even (vn n a')\<close>]
      show "inv_state (vn n m) x (vn n (uECC_vli_rshift1 a' n)) (vn n b) (vn n (vli_modInv_update u' m n)) (vn n v)"
        using \<open>inv_state _ _ (vn n a') _ _ _\<close> n(2) u'(2) by (simp add: sh a' upd inv_state_def)
      show "length (vli_modInv_update u' m n) = 4"
        using \<open>inv_state _ _ (vn n a') _ _ _\<close> n(2) u'(2) by (simp add: upd inv_state_def)
    qed (use a' less.prems gt pos in \<open>simp_all add: sh\<close>)
    ultimately show ?thesis by simp
  next
    case lt
    define b' where "b' = snd (uECC_vli_sub b b a n)"
    define w where "w = (if uECC_vli_cmp_unsafe v u n < 0 then snd (uECC_vli_add v v m n) else v)"
    define v' where "v' = snd (uECC_vli_sub w w u n)"
    obtain c where c: "uECC_vli_sub b b a n = (c, b')" by (metis b'_def prod.collapse)
    note sub = vli_sub_correct [OF nl(2,2,1) c] vli_sub_borrow [OF nl(2,2,1) c]
    have b': "vn n b' = vn n b - vn n a" "length b' = 4" "n \<le> length b'" using sub lt less.prems n(2) by simp_all
    have v': "vn n v' = (if vn n v < vn n u then vn n v + vn n m - vn n u else vn n v - vn n u)" "length v' = 4"
      using modInv_difference [OF nl(4,3) n(3) uv(2,1)] less.prems by (simp_all add: v'_def w_def)
    have "even (vn n b')" using lt by (simp add: b')
    have "modInv_loop m n a b u v = modInv_loop m n a (uECC_vli_rshift1 b' n) u (vli_modInv_update v' m n)"
      using lt by (simp add: modInv_loop.simps [of m n a b u v] cmp ev nl Let_def flip: b'_def w_def v'_def)
    moreover have "\<exists>r. modInv_loop m n a (uECC_vli_rshift1 b' n) u (vli_modInv_update v' m n) = Some r \<and> modInv_ok n m r x"
    proof (rule less.hyps)
      have I': "inv_state (vn n m) x (vn n b') (vn n a) (vn n v') (vn n u)"
        using inv_state_subtract [OF inv_state_swap [THEN iffD1, OF less.prems(5)] lt(1)] by (simp only: b' v')
      from inv_state_halve [OF m this \<open>even (vn n b')\<close>]
      show "inv_state (vn n m) x (vn n a) (vn n (uECC_vli_rshift1 b' n)) (vn n u) (vn n (vli_modInv_update v' m n))"
        using I' n(2) v'(2) by (simp add: sh b' upd inv_state_def gcd.commute)
      show "length (vli_modInv_update v' m n) = 4"
        using I' n(2) v'(2) by (simp add: upd inv_state_def)
    qed (use b' less.prems lt pos in \<open>simp_all add: sh\<close>)
    ultimately show ?thesis by simp
  qed
qed


lemma vn_set: "n \<le> length d \<Longrightarrow> n \<le> length s \<Longrightarrow> vn n (uECC_vli_set d s n) = vn n s"
  by (simp add: vli_set_eq)

lemma vn_clear: "n \<le> length d \<Longrightarrow> vn n (uECC_vli_clear d n) = 0"
  using vn_zero [of n n] by (simp add: vli_clear_eq)

lemma length_clear [simp]: "length (uECC_vli_clear d n) = length d"
  unfolding uECC_vli_clear_def by (rule for_range_length) simp

lemma length_set [simp]: "length (uECC_vli_set d s n) = length d"
  unfolding uECC_vli_set_def by (rule for_range_length) simp

lemma vn_one: "0 < n \<Longrightarrow> n \<le> length d \<Longrightarrow> vn n ((uECC_vli_clear d n)[0 := 1]) = 1"
  using vn_zero [of "n - 1" "n - 1"] by (cases n) (simp_all add: vli_clear_eq)

lemma vli_modInv_correct:
  assumes n: "0 < n" "n \<le> 4" "n \<le> length result" "n \<le> length x" "n \<le> length m"
    and m: "odd (vn n m)" "1 < vn n m" and x: "0 < vn n x"
  shows "\<exists>r. uECC_vli_modInv result x m n = Some r \<and> length r = length result \<and> drop n r = drop n result
    \<and> vn n r < vn n m \<and> vn n r * vn n x mod vn n m = gcd (vn n x) (vn n m) mod vn n m"
proof -
  define a where "a = uECC_vli_set (replicate 4 0) x n"
  define b where "b = uECC_vli_set (replicate 4 0) m n"
  define u where "u = (uECC_vli_clear (replicate 4 0) n)[0 := 1]"
  define v where "v = uECC_vli_clear (replicate 4 0) n"
  have l: "length a = 4" "length b = 4" "length u = 4" "length v = 4" by (simp_all add: a_def b_def u_def v_def)
  have V: "vn n a = vn n x" "vn n b = vn n m" "vn n u = 1" "vn n v = 0"
    using n by (simp_all add: a_def b_def u_def v_def vn_set vn_clear vn_one del: One_nat_def)
  have "inv_state (vn n m) (vn n x) (vn n a) (vn n b) (vn n u) (vn n v)"
    unfolding V inv_state_def using x m by simp
  then obtain r where r: "modInv_loop m n a b u v = Some r" "modInv_ok n m r (vn n x)"
    using modInv_loop_correct [OF n(1,2,5) m(1) l] by blast
  have nr: "n \<le> length r" using r(2) n(2) by (simp add: modInv_ok_def)
  have "uECC_vli_modInv result x m n = Some (uECC_vli_set result r n)"
    using r(1) x n(4) unfolding a_def b_def u_def v_def by (simp add: uECC_vli_modInv_def vli_isZero_eq Let_def)
  moreover have "vn n r * vn n x mod vn n m = gcd (vn n x) (vn n m) mod vn n m"
  proof -
    have "int (vn n r) * int (vn n x) mod int (vn n m) = int (gcd (vn n x) (vn n m)) mod int (vn n m)"
      using r(2) by (simp only: modInv_ok_def mod_eq_dvd_iff)
    then show ?thesis by (simp only: of_nat_mult [symmetric] of_nat_mod [symmetric] of_nat_eq_iff)
  qed
  ultimately show ?thesis
    using r(2) n(3) nr by (intro exI [of _ "uECC_vli_set result r n"]) (simp add: modInv_ok_def vn_set vli_set_eq)
qed

lemma vli_modInv_zero:
  "n \<le> length x \<Longrightarrow> vn n x = 0 \<Longrightarrow> uECC_vli_modInv result x m n = Some (uECC_vli_clear result n)"
  by (simp add: uECC_vli_modInv_def vli_isZero_eq)

section \<open>Reduction by shifting and subtracting\<close>

lemma mmod_shift_digit:
  fixes w c :: u64
  assumes "0 < s" "s < 64" "unat c < 2 ^ s"
  shows "unat (push_bit s w OR c) + 2 ^ 64 * unat (drop_bit (64 - s) w) = 2 ^ s * unat w + unat c"
    "unat (drop_bit (64 - s) w :: u64) < 2 ^ s"
proof -
  have X: "(2 :: nat) ^ 64 = 2 ^ s * 2 ^ (64 - s)" using assms(2) by (simp flip: power_add)
  have w: "unat w < 2 ^ 64" using unat_lt_word [of w] by simp
  have "c AND push_bit s w = 0" using assms(3) by (rule and_push_bit_eq_0)
  then have "push_bit s w OR c = c + push_bit s w" by (simp add: or_eq_add_disjoint or.commute)
  moreover have "unat (push_bit s w) = 2 ^ s * (unat w mod 2 ^ (64 - s))"
  proof -
    have "unat (push_bit s w) = 2 ^ s * unat w mod 2 ^ 64" by (simp add: unat_push_bit mult.commute)
    then show ?thesis by (simp only: X mult_mod_right)
  qed
  moreover have "unat c + 2 ^ s * (unat w mod 2 ^ (64 - s)) < 2 ^ 64"
  proof -
    have "Suc (unat w mod 2 ^ (64 - s)) \<le> 2 ^ (64 - s)" by (rule Suc_leI) simp
    then have "2 ^ s * Suc (unat w mod 2 ^ (64 - s)) \<le> 2 ^ s * 2 ^ (64 - s)" by (rule mult_le_mono2)
    then show ?thesis unfolding X using assms(3) by simp
  qed
  ultimately have p: "unat (push_bit s w OR c) = unat c + 2 ^ s * (unat w mod 2 ^ (64 - s))"
    by (simp add: unat_add_small)
  have d: "unat (drop_bit (64 - s) w) = unat w div 2 ^ (64 - s)" by (simp add: unat_drop_bit)
  have "unat (push_bit s w OR c) + 2 ^ 64 * unat (drop_bit (64 - s) w)
      = unat c + 2 ^ s * (unat w mod 2 ^ (64 - s) + 2 ^ (64 - s) * (unat w div 2 ^ (64 - s)))"
    unfolding p d X by (simp only: distrib_left mult.assoc add.assoc)
  also have "\<dots> = 2 ^ s * unat w + unat c" by (simp only: mod_mult_div_eq add.commute)
  finally show "unat (push_bit s w OR c) + 2 ^ 64 * unat (drop_bit (64 - s) w) = 2 ^ s * unat w + unat c" .
  show "unat (drop_bit (64 - s) w :: u64) < 2 ^ s"
    unfolding d using w X by (simp add: div_less_iff_less_mult mult.commute)
qed

lemma vn_add: "a \<le> length r \<Longrightarrow> vn (a + b) r = vn a r + 2 ^ (64 * a) * vn b (drop a r)"
  by (simp add: take_add vval_append)

text \<open>The modulus shifted to the top: the shift is at least the width of the number, so it moves whole words and then bits.\<close>

lemma mmod_shift_correct:
  assumes n: "0 < n" "n \<le> 4" "n \<le> length m" and top: "64 * (n - 1) < uECC_vli_numBits m n"
  defines "s \<equiv> n * 2 * 64 - uECC_vli_numBits m n"
  shows "vn (2 * n) (mmod_shift m n s) = vn n m * 2 ^ s" "length (mmod_shift m n s) = 8"
proof -
  note nb = vli_numBits_bounds [OF n(3)]
  define k where "k = s mod 64"
  have s: "s = 64 * n + k" "s div 64 = n" "k < 64" "uECC_vli_numBits m n + k = 64 * n"
  proof -
    have "s div 64 = n" unfolding s_def using nb(3) top n(1) by (intro div_nat_eqI) (auto simp: algebra_simps)
    then show "s div 64 = n" .
    then show "s = 64 * n + k" unfolding k_def using div_mult_mod_eq [of s 64] by simp
    then show "uECC_vli_numBits m n + k = 64 * n" using nb(3) unfolding s_def by simp
  qed (simp add: k_def)
  define mm where "mm = uECC_vli_clear (replicate 8 0) n"
  have mm: "length mm = 8" by (simp add: mm_def)
  have lt: "vn n m * 2 ^ k < 2 ^ (64 * n)"
    using mult_strict_right_mono [OF nb(1), of "2 ^ k"] s(4) by (simp flip: power_add)
  have split: "vn (2 * n) r = vn n r + 2 ^ (64 * n) * vn n (drop n r)" if "length r = 8" for r
    using vn_add [of n r n] that n(2) by (simp add: mult_2)
  have "vn n (mmod_shift m n s) = 0 \<and> vn n (drop n (mmod_shift m n s)) = 2 ^ k * vn n m \<and> length (mmod_shift m n s) = 8"
  proof (cases "k = 0")
    case True
    then have "mmod_shift m n s = take n mm @ uECC_vli_set (drop n mm) m n"
      by (simp add: mmod_shift_def Let_def at_off_def s(2) flip: k_def mm_def)
    then show ?thesis using True n mm vn_clear [of n "replicate 8 0"]
      by (simp add: vn_set min_def flip: mm_def)
  next
    case False
    define body where "body = (\<lambda>i (c :: u64, r :: u64 list). (drop_bit (64 - k) (m ! i), r[n + i := push_bit k (m ! i) OR c]))"
    define P where "P = (\<lambda>i (c, r). vn i (drop n r) + 2 ^ (64 * i) * unat (c :: u64) = 2 ^ k * vn i m \<and> unat c < 2 ^ k
      \<and> vn n r = 0 \<and> length r = 8)"
    have "P n (for_range 0 n body (0, mm))"
    proof (rule for_range_invariant)
      show "P 0 (0, mm)" using mm n vn_clear [of n "replicate 8 0"] by (simp add: P_def mm_def)
      fix i and st :: "u64 \<times> u64 list"
      assume i: "0 \<le> i" "i < n" and P: "P i st"
      obtain c r where st: "st = (c, r)" by (cases st)
      have I: "vn i (drop n r) + 2 ^ (64 * i) * unat c = 2 ^ k * vn i m" "unat c < 2 ^ k" "vn n r = 0" "length r = 8"
        using P by (simp_all add: P_def st)
      define w where "w = push_bit k (m ! i) OR c"
      define c' where "c' = drop_bit (64 - k) (m ! i)"
      have d: "unat w + 2 ^ 64 * unat c' = 2 ^ k * unat (m ! i) + unat c" "unat c' < 2 ^ k"
        using mmod_shift_digit [OF _ s(3) I(2), of "m ! i"] False by (simp_all add: w_def c'_def)
      have "vn (Suc i) (drop n (r[n + i := w])) + 2 ^ (64 * Suc i) * unat c'
          = vn i (drop n r) + 2 ^ (64 * i) * (unat w + 2 ^ 64 * unat c')"
        using i n I(4) by (simp add: drop_update_swap vn_Suc power_add algebra_simps)
      also have "\<dots> = 2 ^ k * vn (Suc i) m" unfolding d(1) using I(1) i n(3) by (simp add: vn_Suc algebra_simps)
      finally show "P (Suc i) (body i st)"
        using d(2) I(3,4) by (simp add: P_def st body_def flip: w_def c'_def)
    qed simp
    moreover obtain c r where r: "for_range 0 n body (0, mm) = (c, r)" by fastforce
    ultimately have I: "vn n (drop n r) + 2 ^ (64 * n) * unat c = 2 ^ k * vn n m" "vn n r = 0" "length r = 8"
      by (simp_all add: P_def)
    have "mmod_shift m n s = r"
      using False r by (simp add: mmod_shift_def Let_def s(2) body_def flip: k_def mm_def)
    moreover have "unat c = 0"
    proof -
      have "2 ^ (64 * n) * unat c \<le> 2 ^ k * vn n m" using I(1) by linarith
      also have "\<dots> < 2 ^ (64 * n) * 1" using lt by (simp add: mult.commute)
      finally have "unat c < 1" by (subst (asm) nat_mult_less_cancel1) simp_all
      then show ?thesis by simp
    qed
    ultimately show ?thesis using I by simp
  qed
  then show "vn (2 * n) (mmod_shift m n s) = vn n m * 2 ^ s" "length (mmod_shift m n s) = 8"
    using split by (auto simp: s(1) power_add)
qed


text \<open>The multiple of the modulus, halved in two pieces.\<close>

definition mmod_halve :: "nat \<Rightarrow> u64 list \<Rightarrow> u64 list" where
  "mmod_halve n mm =
     (let mm = uECC_vli_rshift1 mm n;
          mm = mm[n - 1 := mm ! (n - 1) OR push_bit 63 (mm ! n)]
      in at_off n (\<lambda>vli. uECC_vli_rshift1 vli n) mm)"

lemma mmod_halve_correct:
  assumes n: "0 < n" "2 * n \<le> length mm"
  shows "vn (2 * n) (mmod_halve n mm) = vn (2 * n) mm div 2" "length (mmod_halve n mm) = length mm"
proof -
  define r1 where "r1 = uECC_vli_rshift1 mm n"
  define r2 where "r2 = r1[n - 1 := r1 ! (n - 1) OR push_bit 63 (r1 ! n)]"
  have nm: "n \<le> length mm" using n by simp
  note r1 = vli_rshift1_correct [OF nm, folded r1_def]
  have X: "(2 :: nat) ^ (64 * n) = 2 * 2 ^ (64 * n - 1)" using n(1) by (simp flip: power_Suc)
  have "vn n r1 < 2 ^ (64 * n - 1)" using vn_lt [of n mm] unfolding r1(1) X by simp
  then have lo: "vn n r2 = vn n mm div 2 + 2 ^ (64 * n - 1) * (unat (r1 ! n) mod 2)"
    unfolding r2_def r1(1) [symmetric] using n r1(2) by (intro vn_set_top) simp_all
  have d2: "drop n r2 = drop n mm" "length r2 = length mm" using n(1) r1(2,3) by (simp_all add: r2_def)
  have "r1 ! n = drop n r1 ! 0" using n r1(2) by simp
  then have e: "r1 ! n = drop n mm ! 0" unfolding r1(3) .
  have nd: "n \<le> length (drop n mm)" using n by simp
  note hi = vli_rshift1_correct [OF nd]
  have odd: "unat (r1 ! n) mod 2 = vn n (drop n mm) mod 2"
    using vn_odd_word [OF n(1) nd] unfolding e mod_2_eq_odd by simp
  have r: "mmod_halve n mm = take n r2 @ uECC_vli_rshift1 (drop n mm) n"
    unfolding mmod_halve_def Let_def at_off_def r1_def [symmetric] r2_def [symmetric] d2(1) ..
  show "length (mmod_halve n mm) = length mm" using n by (simp add: r d2(2) hi(2))
  have "vn (2 * n) (mmod_halve n mm) = vn n r2 + 2 ^ (64 * n) * (vn n (drop n mm) div 2)"
    using vn_add [of n "mmod_halve n mm" n] n by (simp add: r d2(2) hi mult_2 min_def)
  also have "\<dots> = (vn n mm + 2 ^ (64 * n) * vn n (drop n mm)) div 2"
  proof -
    have "2 ^ (64 * n - 1) * (vn n (drop n mm) mod 2) + 2 ^ (64 * n) * (vn n (drop n mm) div 2)
        = 2 ^ (64 * n - 1) * (vn n (drop n mm) mod 2 + 2 * (vn n (drop n mm) div 2))"
      unfolding X by (simp only: distrib_left mult_ac)
    also have "\<dots> = 2 ^ (64 * n - 1) * vn n (drop n mm)" by (simp only: mod_mult_div_eq)
    finally have q: "2 ^ (64 * n - 1) * (vn n (drop n mm) mod 2) + 2 ^ (64 * n) * (vn n (drop n mm) div 2)
        = 2 ^ (64 * n - 1) * vn n (drop n mm)" .
    have "(vn n mm + 2 ^ (64 * n) * vn n (drop n mm)) div 2 = 2 ^ (64 * n - 1) * vn n (drop n mm) + vn n mm div 2"
      unfolding X mult.assoc by (rule div_mult_self2) simp
    then show ?thesis unfolding lo odd using q by linarith
  qed
  also have "\<dots> = vn (2 * n) mm div 2" using vn_add [of n mm n] n by (simp add: mult_2)
  finally show "vn (2 * n) (mmod_halve n mm) = vn (2 * n) mm div 2" .
qed

text \<open>The subtraction of a step is \<^verbatim>\<open>uECC_vli_sub\<close> from the buffer in use into the other one.\<close>

lemma for_range_simulate:
  assumes "\<And>i s. body i (h s) = h (body' i s)"
  shows "for_range lo hi body (h s) = h (for_range lo hi body' s)"
proof (cases "lo \<le> hi")
  case True
  then show ?thesis
  proof (induction hi)
    case (Suc hi)
    then show ?case by (cases "lo = Suc hi") (simp_all add: for_range_last assms)
  qed simp
qed simp

definition mmod_body :: "u64 list \<Rightarrow> u64 \<Rightarrow> nat \<Rightarrow> u64 \<times> u64 list list \<Rightarrow> u64 \<times> u64 list list" where
  "mmod_body mm index i = (\<lambda>(borrow, v).
       let diff = v ! unat index ! i - mm ! i - borrow;
           borrow = (if diff \<noteq> v ! unat index ! i then of_bool (diff > v ! unat index ! i) else borrow)
       in (borrow, v[unat (1 - index) := (v ! unat (1 - index))[i := diff]]))"

lemma mmod_sub_loop:
  "for_range 0 k (mmod_body mm 1) (0, [t, p]) = (case uECC_vli_sub t p mm k of (b, t) \<Rightarrow> (b, [t, p]))"
  "for_range 0 k (mmod_body mm 0) (0, [t, p]) = (case uECC_vli_sub p t mm k of (b, p) \<Rightarrow> (b, [t, p]))"
proof -
  let ?sub = "\<lambda>left i (borrow, result). let diff = left ! i - mm ! i - borrow;
           borrow = (if diff \<noteq> left ! i then of_bool (diff > left ! i) else borrow)
       in (borrow, result[i := diff])"
  have "mmod_body mm 1 i (case s of (b, t) \<Rightarrow> (b, [t, p])) = (case ?sub p i s of (b, t) \<Rightarrow> (b, [t, p]))" for i s
    by (cases s) (simp add: mmod_body_def Let_def)
  from for_range_simulate [of "mmod_body mm 1" "\<lambda>s. case s of (b, t) \<Rightarrow> (b, [t, p])", OF this, of 0 k "(0, t)"]
  show "for_range 0 k (mmod_body mm 1) (0, [t, p]) = (case uECC_vli_sub t p mm k of (b, t) \<Rightarrow> (b, [t, p]))"
    by (simp add: uECC_vli_sub_def)
  have "mmod_body mm 0 i (case s of (b, p) \<Rightarrow> (b, [t, p])) = (case ?sub t i s of (b, p) \<Rightarrow> (b, [t, p]))" for i s
    by (cases s) (simp add: mmod_body_def Let_def)
  from for_range_simulate [of "mmod_body mm 0" "\<lambda>s. case s of (b, p) \<Rightarrow> (b, [t, p])", OF this, of 0 k "(0, p)"]
  show "for_range 0 k (mmod_body mm 0) (0, [t, p]) = (case uECC_vli_sub p t mm k of (b, p) \<Rightarrow> (b, [t, p]))"
    by (simp add: uECC_vli_sub_def)
qed

definition mmod_state :: "nat \<Rightarrow> nat \<Rightarrow> nat \<Rightarrow> u64 \<times> u64 list list \<times> u64 list \<Rightarrow> bool" where
  "mmod_state n V mv = (\<lambda>(index, v, mm). index \<le> 1 \<and> (\<exists>t p. v = [t, p] \<and> 2 * n \<le> length t \<and> 2 * n \<le> length p)
     \<and> 2 * n \<le> length mm \<and> vn (2 * n) (v ! unat index) = V \<and> vn (2 * n) mm = mv)"

lemma mmod_step_eq:
  "mmod_step n (index, v, mm) =
     (case for_range 0 (2 * n) (mmod_body mm index) (0, v) of (borrow, v) \<Rightarrow> (of_bool (index XOR borrow = 0), v, mmod_halve n mm))"
  unfolding mmod_step_def mmod_body_def mmod_halve_def prod.case mult.commute [of n 2] by (simp only: Let_def)

lemma mmod_step_correct:
  assumes n: "0 < n" and I: "mmod_state n V mv st"
  shows "mmod_state n (if mv \<le> V then V - mv else V) (mv div 2) (mmod_step n st)"
proof -
  obtain index t p mm where st: "st = (index, [t, p], mm)" and l: "2 * n \<le> length t" "2 * n \<le> length p" "2 * n \<le> length mm"
    and V: "vn (2 * n) ([t, p] ! unat index) = V" and mv: "vn (2 * n) mm = mv" and ix: "index \<le> 1"
    using I by (auto simp: mmod_state_def)
  note mh = mmod_halve_correct [OF n l(3)]
  have "index = 0 \<or> index = 1" using ix by (metis word_le_less_eq word_less_1)
  then show ?thesis
  proof
    assume i: "index = 1"
    obtain b t' where r: "uECC_vli_sub t p mm (2 * n) = (b, t')" by fastforce
    note sub = vli_sub_correct [OF l r] vli_sub_borrow [OF l r]
    have e: "mmod_step n st = (of_bool (1 XOR b = 0), [t', p], mmod_halve n mm)"
      by (simp add: mmod_step_eq st i mmod_sub_loop r)
    show ?thesis unfolding e using V mv l sub(3,6) mh by (auto simp: mmod_state_def i sub(5))
  next
    assume i: "index = 0"
    obtain b p' where r: "uECC_vli_sub p t mm (2 * n) = (b, p')" by fastforce
    note sub = vli_sub_correct [OF l(2,1,3) r] vli_sub_borrow [OF l(2,1,3) r]
    have e: "mmod_step n st = (of_bool (0 XOR b = 0), [t, p'], mmod_halve n mm)"
      by (simp add: mmod_step_eq st i mmod_sub_loop r)
    show ?thesis unfolding e using V mv l sub(3,6) mh by (auto simp: mmod_state_def i sub(5))
  qed
qed

lemma mmod_loop_correct:
  assumes n: "0 < n" and I: "mmod_state n V (m * 2 ^ S) st" and lt: "V < m * 2 ^ Suc S"
  shows "\<exists>mv. mmod_state n (V mod m) mv (for_range 0 (S + 1) (\<lambda>_. mmod_step n) st)"
proof -
  define P where "P = (\<lambda>j st. \<exists>V' mv. mmod_state n V' mv st \<and> (j \<le> S \<longrightarrow> mv = m * 2 ^ (S - j)) \<and> V' < m * 2 ^ (S + 1 - j)
    \<and> V' mod m = V mod m)"
  have "P (S + 1) (for_range 0 (S + 1) (\<lambda>_. mmod_step n) st)"
  proof (rule for_range_invariant)
    show "P 0 st" unfolding P_def using I lt by (intro exI [of _ V] exI [of _ "m * 2 ^ S"]) simp
    fix j st
    assume j: "0 \<le> j" "j < S + 1" and "P j st"
    then obtain V' where V': "mmod_state n V' (m * 2 ^ (S - j)) st" "V' < m * 2 ^ (S + 1 - j)" "V' mod m = V mod m"
      by (auto simp: P_def)
    let ?M = "m * 2 ^ (S - j)"
    have e: "S + 1 - j = Suc (S - j)" "S + 1 - Suc j = S - j" using j(2) by simp_all
    have "(if ?M \<le> V' then V' - ?M else V') < ?M" using V'(2) unfolding e(1) by auto
    moreover have "(if ?M \<le> V' then V' - ?M else V') mod m = V mod m"
    proof (cases "?M \<le> V'")
      case True
      have "(V' - ?M) mod m = (V' - ?M + m * 2 ^ (S - j)) mod m" by simp
      then show ?thesis using True V'(3) by simp
    qed (use V'(3) in simp)
    moreover have "?M div 2 = m * 2 ^ (S - Suc j)" if "Suc j \<le> S"
    proof -
      have "S - j = Suc (S - Suc j)" using that by simp
      then show ?thesis by simp
    qed
    ultimately show "P (Suc j) (mmod_step n st)"
      unfolding P_def e using mmod_step_correct [OF n V'(1)]
      by (intro exI [of _ "if ?M \<le> V' then V' - ?M else V'"] exI [of _ "?M div 2"]) simp
  qed simp
  then show ?thesis by (auto simp: P_def)
qed

lemma vli_mmod_correct:
  assumes n: "0 < n" "n \<le> 4" "n \<le> length result" "2 * n \<le> length product" "n \<le> length m"
    and top: "64 * (n - 1) < uECC_vli_numBits m n"
  shows "vn n (uECC_vli_mmod result product m n) = vn (2 * n) product mod vn n m"
    "length (uECC_vli_mmod result product m n) = length result"
    "drop n (uECC_vli_mmod result product m n) = drop n result"
proof -
  note nb = vli_numBits_bounds [OF n(5)]
  define S where "S = n * 2 * 64 - uECC_vli_numBits m n"
  define mm where "mm = mmod_shift m n S"
  note mm = mmod_shift_correct [OF n(1,2,5) top, folded S_def, folded mm_def]
  have pos: "vn n m \<noteq> 0" using nb(4) top by auto
  have "vn (2 * n) product < 2 ^ (64 * (2 * n))" by (rule vn_lt)
  also have "64 * (2 * n) = (uECC_vli_numBits m n - 1) + Suc S" using nb(3) top by (simp add: S_def)
  also have "(2 :: nat) ^ \<dots> \<le> vn n m * 2 ^ Suc S"
    unfolding power_add by (rule mult_le_mono1) (rule nb(2) [OF pos])
  finally have lt: "vn (2 * n) product < vn n m * 2 ^ Suc S" .
  have I: "mmod_state n (vn (2 * n) product) (vn n m * 2 ^ S) (1, [replicate 8 0, product], mm)"
    using n mm by (simp add: mmod_state_def)
  obtain index v mm' where r: "for_range 0 (S + 1) (\<lambda>_. mmod_step n) (1, [replicate 8 0, product], mm) = (index, v, mm')"
    by (metis surj_pair)
  obtain t p where v: "index \<le> 1" "v = [t, p]" "2 * n \<le> length t" "2 * n \<le> length p"
    "vn (2 * n) (v ! unat index) = vn (2 * n) product mod vn n m"
    using mmod_loop_correct [OF n(1) I lt] unfolding r by (auto simp: mmod_state_def)
  define w where "w = v ! unat index"
  have w: "2 * n \<le> length w"
    using v(1-4) unfolding w_def by (metis One_nat_def nth_Cons_0 nth_Cons_Suc unat_0 unat_1 word_le_less_eq word_less_1)
  have e: "uECC_vli_mmod result product m n = uECC_vli_set result w n"
    unfolding uECC_vli_mmod_def S_def [symmetric] Let_def mm_def [symmetric] r prod.case w_def ..
  have "vn n w = vn (2 * n) w"
  proof -
    have sp: "vn (2 * n) w = vn n w + 2 ^ (64 * n) * vn n (drop n w)"
      using vn_add [of n w n] w by (simp add: mult_2)
    have "2 ^ (64 * n) * vn n (drop n w) \<le> vn (2 * n) w" unfolding sp by simp
    also have "\<dots> < vn n m" using v(5) pos by (simp add: w_def)
    also have "\<dots> < 2 ^ (64 * n) * 1" using vn_lt [of n m] by simp
    finally have "vn n (drop n w) < 1" by (subst (asm) nat_mult_less_cancel1) simp_all
    then show ?thesis unfolding sp by simp
  qed
  then show "vn n (uECC_vli_mmod result product m n) = vn (2 * n) product mod vn n m"
    using v(5) n(3) w by (simp add: e vn_set w_def)
  show "length (uECC_vli_mmod result product m n) = length result"
    "drop n (uECC_vli_mmod result product m n) = drop n result"
    using n(3) w by (simp_all add: e vli_set_eq)
qed

lemma vli_modMult_correct:
  assumes n: "0 < n" "n \<le> 4" "n \<le> length result" "n \<le> length left" "n \<le> length right" "n \<le> length m"
    and top: "64 * (n - 1) < uECC_vli_numBits m n"
  shows "vn n (uECC_vli_modMult result left right m n) = vn n left * vn n right mod vn n m"
    "length (uECC_vli_modMult result left right m n) = length result"
    "drop n (uECC_vli_modMult result left right m n) = drop n result"
proof -
  define product where "product = uECC_vli_mult (replicate 8 0) left right n"
  have nb: "n < 2 ^ 60" using n(2) by simp
  have l: "2 * n \<le> length (replicate 8 (0 :: u64))" using n(2) by simp
  note mult = vli_mult_correct [OF n(1) nb n(4,5) l, folded product_def]
  have lp: "2 * n \<le> length product" using mult(2) n(2) by simp
  have e: "uECC_vli_modMult result left right m n = uECC_vli_mmod result product m n"
    by (simp add: uECC_vli_modMult_def product_def)
  show "vn n (uECC_vli_modMult result left right m n) = vn n left * vn n right mod vn n m"
    "length (uECC_vli_modMult result left right m n) = length result"
    "drop n (uECC_vli_modMult result left right m n) = drop n result"
    unfolding e using vli_mmod_correct [OF n(1-3) lp n(6) top] mult(1) by simp_all
qed

text \<open>C18. Inversion ends for every argument and every odd modulus above one, and leaves a number below the modulus whose product with
  the argument is their greatest common divisor: the inverse of an argument prime to the modulus, and zero for zero. The words
  behind the result are kept.\<close>

theorem modInv_inverts:
  assumes "0 < n" and "n \<le> 4" and "n \<le> length result" and "n \<le> length x" and "n \<le> length m" and "odd (vn n m)" and "1 < vn n m"
  shows "\<exists>r. uECC_vli_modInv result x m n = Some r \<and> length r = length result \<and> drop n r = drop n result \<and> vn n r < vn n m
    \<and> vn n r * vn n x mod vn n m = gcd (vn n x) (vn n m) mod vn n m \<and> (vn n x = 0 \<longrightarrow> vn n r = 0)"
proof (cases "vn n x = 0")
  case True
  then show ?thesis using vli_modInv_zero [OF assms(4)] vn_clear [OF assms(3)] assms(3,7) by (simp add: vli_clear_eq)
next
  case False
  then show ?thesis using vli_modInv_correct [OF assms] by auto
qed

theorem modInv_inverts_witness:
  "\<exists>r. uECC_vli_modInv [0] [3] [7] 1 = Some r \<and> length r = length [0 :: u64] \<and> drop 1 r = drop 1 [0] \<and> vn 1 r < vn 1 [7]
    \<and> vn 1 r * vn 1 [3] mod vn 1 [7] = gcd (vn 1 [3]) (vn 1 [7]) mod vn 1 [7] \<and> (vn 1 [3] = 0 \<longrightarrow> vn 1 r = 0)"
  by (rule modInv_inverts) simp_all

end
