(* ===== verification/Uecc_Curves.thy ===== *)
theory Uecc_Curves
  imports Uecc_Mod
begin

text \<open>
  The curves of micro-ecc (\<^verbatim>\<open>struct uECC_Curve_t\<close> of \<^verbatim>\<open>uECC.c\<close> and the constants of \<^verbatim>\<open>curve-specific.h\<close>, word size 64). An array
  of four or eight words that the code initialises with fewer is filled with zeros. The function pointers of the structure are
  the values of enumerations; the functions themselves are defined where the code defines them, and a call through a pointer
  is a case distinction there.
\<close>

datatype double_jacobian_fn = double_jacobian_default_fn | double_jacobian_secp256k1_fn

datatype mod_sqrt_fn = mod_sqrt_default_fn | mod_sqrt_secp224r1_fn

datatype x_side_fn = x_side_default_fn | x_side_secp256k1_fn

datatype mmod_fast_fn = vli_mmod_fast_secp160r1_fn | vli_mmod_fast_secp192r1_fn | vli_mmod_fast_secp224r1_fn
  | vli_mmod_fast_secp256r1_fn | vli_mmod_fast_secp256k1_fn

record uECC_Curve =
  curve_num_words :: nat
  curve_num_bytes :: nat
  curve_num_n_bits :: nat
  curve_p :: "u64 list"
  curve_n :: "u64 list"
  curve_G :: "u64 list"
  curve_b :: "u64 list"
  curve_double_jacobian :: double_jacobian_fn
  curve_mod_sqrt :: mod_sqrt_fn
  curve_x_side :: x_side_fn
  curve_mmod_fast :: mmod_fast_fn

definition curve_secp160r1 :: uECC_Curve where
  "curve_secp160r1 =
     \<lparr>curve_num_words = 3, curve_num_bytes = 20, curve_num_n_bits = 161,
      curve_p = [0xFFFFFFFF7FFFFFFF, 0xFFFFFFFFFFFFFFFF, 0xFFFFFFFF, 0],
      curve_n = [0xF927AED3CA752257, 0x000000000001F4C8, 0x0000000100000000, 0],
      curve_G = [0x68C38BB913CBFC82, 0x8EF5732846646989, 0x4A96B568, 0x042351377AC5FB32,
        0x3168947D59DCC912, 0x23A62855, 0, 0],
      curve_b = [0x81D4D4ADC565FA45, 0x54BD7A8B65ACF89F, 0x1C97BEFC, 0],
      curve_double_jacobian = double_jacobian_default_fn,
      curve_mod_sqrt = mod_sqrt_default_fn,
      curve_x_side = x_side_default_fn,
      curve_mmod_fast = vli_mmod_fast_secp160r1_fn\<rparr>"

definition curve_secp192r1 :: uECC_Curve where
  "curve_secp192r1 =
     \<lparr>curve_num_words = 3, curve_num_bytes = 24, curve_num_n_bits = 192,
      curve_p = [0xFFFFFFFFFFFFFFFF, 0xFFFFFFFFFFFFFFFE, 0xFFFFFFFFFFFFFFFF, 0],
      curve_n = [0x146BC9B1B4D22831, 0xFFFFFFFF99DEF836, 0xFFFFFFFFFFFFFFFF, 0],
      curve_G = [0xF4FF0AFD82FF1012, 0x7CBF20EB43A18800, 0x188DA80EB03090F6, 0x73F977A11E794811,
        0x631011ED6B24CDD5, 0x07192B95FFC8DA78, 0, 0],
      curve_b = [0xFEB8DEECC146B9B1, 0x0FA7E9AB72243049, 0x64210519E59C80E7, 0],
      curve_double_jacobian = double_jacobian_default_fn,
      curve_mod_sqrt = mod_sqrt_default_fn,
      curve_x_side = x_side_default_fn,
      curve_mmod_fast = vli_mmod_fast_secp192r1_fn\<rparr>"

definition curve_secp224r1 :: uECC_Curve where
  "curve_secp224r1 =
     \<lparr>curve_num_words = 4, curve_num_bytes = 28, curve_num_n_bits = 224,
      curve_p = [0x0000000000000001, 0xFFFFFFFF00000000, 0xFFFFFFFFFFFFFFFF, 0xFFFFFFFF],
      curve_n = [0x13DD29455C5C2A3D, 0xFFFF16A2E0B8F03E, 0xFFFFFFFFFFFFFFFF, 0xFFFFFFFF],
      curve_G = [0x343280D6115C1D21, 0x4A03C1D356C21122, 0x6BB4BF7F321390B9, 0xB70E0CBD,
        0x44D5819985007E34, 0xCD4375A05A074764, 0xB5F723FB4C22DFE6, 0xBD376388],
      curve_b = [0x270B39432355FFB4, 0x5044B0B7D7BFD8BA, 0x0C04B3ABF5413256, 0xB4050A85],
      curve_double_jacobian = double_jacobian_default_fn,
      curve_mod_sqrt = mod_sqrt_secp224r1_fn,
      curve_x_side = x_side_default_fn,
      curve_mmod_fast = vli_mmod_fast_secp224r1_fn\<rparr>"

definition curve_secp256r1 :: uECC_Curve where
  "curve_secp256r1 =
     \<lparr>curve_num_words = 4, curve_num_bytes = 32, curve_num_n_bits = 256,
      curve_p = [0xFFFFFFFFFFFFFFFF, 0x00000000FFFFFFFF, 0x0000000000000000, 0xFFFFFFFF00000001],
      curve_n = [0xF3B9CAC2FC632551, 0xBCE6FAADA7179E84, 0xFFFFFFFFFFFFFFFF, 0xFFFFFFFF00000000],
      curve_G = [0xF4A13945D898C296, 0x77037D812DEB33A0, 0xF8BCE6E563A440F2, 0x6B17D1F2E12C4247,
        0xCBB6406837BF51F5, 0x2BCE33576B315ECE, 0x8EE7EB4A7C0F9E16, 0x4FE342E2FE1A7F9B],
      curve_b = [0x3BCE3C3E27D2604B, 0x651D06B0CC53B0F6, 0xB3EBBD55769886BC, 0x5AC635D8AA3A93E7],
      curve_double_jacobian = double_jacobian_default_fn,
      curve_mod_sqrt = mod_sqrt_default_fn,
      curve_x_side = x_side_default_fn,
      curve_mmod_fast = vli_mmod_fast_secp256r1_fn\<rparr>"

definition curve_secp256k1 :: uECC_Curve where
  "curve_secp256k1 =
     \<lparr>curve_num_words = 4, curve_num_bytes = 32, curve_num_n_bits = 256,
      curve_p = [0xFFFFFFFEFFFFFC2F, 0xFFFFFFFFFFFFFFFF, 0xFFFFFFFFFFFFFFFF, 0xFFFFFFFFFFFFFFFF],
      curve_n = [0xBFD25E8CD0364141, 0xBAAEDCE6AF48A03B, 0xFFFFFFFFFFFFFFFE, 0xFFFFFFFFFFFFFFFF],
      curve_G = [0x59F2815B16F81798, 0x029BFCDB2DCE28D9, 0x55A06295CE870B07, 0x79BE667EF9DCBBAC,
        0x9C47D08FFB10D4B8, 0xFD17B448A6855419, 0x5DA4FBFC0E1108A8, 0x483ADA7726A3C465],
      curve_b = [0x0000000000000007, 0x0000000000000000, 0x0000000000000000, 0x0000000000000000],
      curve_double_jacobian = double_jacobian_secp256k1_fn,
      curve_mod_sqrt = mod_sqrt_default_fn,
      curve_x_side = x_side_secp256k1_fn,
      curve_mmod_fast = vli_mmod_fast_secp256k1_fn\<rparr>"

text \<open>The field orders, as numbers.\<close>

lemma vn_p_secp160r1: "vn 3 (curve_p curve_secp160r1) = 2 ^ 160 - 2 ^ 31 - 1"
  by (simp add: curve_secp160r1_def)

lemma vn_p_secp192r1: "vn 3 (curve_p curve_secp192r1) = 2 ^ 192 - 2 ^ 64 - 1"
  by (simp add: curve_secp192r1_def)

lemma vn_p_secp224r1: "vn 4 (curve_p curve_secp224r1) = 2 ^ 224 - 2 ^ 96 + 1"
  by (simp add: curve_secp224r1_def)

lemma vn_p_secp256r1: "vn 4 (curve_p curve_secp256r1) = 2 ^ 256 - 2 ^ 224 + 2 ^ 192 + 2 ^ 96 - 1"
  by (simp add: curve_secp256r1_def)

lemma vn_p_secp256k1: "vn 4 (curve_p curve_secp256k1) = 2 ^ 256 - 2 ^ 32 - 977"
  by (simp add: curve_secp256k1_def)

lemma length_p_secp160r1: "length (curve_p curve_secp160r1) = 4"
  by (simp add: curve_secp160r1_def)

lemma length_p_secp192r1: "length (curve_p curve_secp192r1) = 4"
  by (simp add: curve_secp192r1_def)

lemma length_p_secp224r1: "length (curve_p curve_secp224r1) = 4"
  by (simp add: curve_secp224r1_def)

lemma length_p_secp256r1: "length (curve_p curve_secp256r1) = 4"
  by (simp add: curve_secp256r1_def)

lemma length_p_secp256k1: "length (curve_p curve_secp256k1) = 4"
  by (simp add: curve_secp256k1_def)

end
