(* ===== verification/Uecc_Fast.thy ===== *)
theory Uecc_Fast
  imports Uecc_Curves "HOL-Library.While_Combinator"
begin

text \<open>
  The fast reductions of micro-ecc modulo the field orders (\<^verbatim>\<open>vli_mmod_fast_*\<close> of \<^verbatim>\<open>curve-specific.h\<close>, 64-bit
  variants). The functions also overwrite the double-length product, a local buffer of their callers that is dead afterwards;
  the model returns the result only. The carry is a C \<open>int\<close> of a few units, an integer here. The correcting loops are
  \<open>while\<close> of the library; the theorems show that they end, since they say what the result is.
\<close>

section \<open>The code\<close>

text \<open>The loops that bring the result, with its carry, into range: a \<^verbatim>\<open>do ... while (carry < 0)\<close> and a \<^verbatim>\<open>while\<close>.\<close>

definition add_while_negative :: "u64 list \<Rightarrow> nat \<Rightarrow> int \<Rightarrow> u64 list \<Rightarrow> u64 list" where
  "add_while_negative p num_words carry result =
     (let body = (\<lambda>(carry, result). let (c, result) = uECC_vli_add result result p num_words in (carry + int (unat c), result));
          (carry, result) = while (\<lambda>(carry, result). carry < 0) body (body (carry, result))
      in result)"

definition sub_while_not_less :: "u64 list \<Rightarrow> nat \<Rightarrow> int \<Rightarrow> u64 list \<Rightarrow> u64 list" where
  "sub_while_not_less p num_words carry result =
     (let (carry, result) = while (\<lambda>(carry, result). carry \<noteq> 0 \<or> uECC_vli_cmp_unsafe p result num_words \<noteq> 1)
            (\<lambda>(carry, result). let (b, result) = uECC_vli_sub result result p num_words in (carry - int (unat b), result))
            (carry, result)
      in result)"

definition vli_mmod_fast_secp192r1 :: "u64 list \<Rightarrow> u64 list \<Rightarrow> u64 list" where
  "vli_mmod_fast_secp192r1 result product =
     (let result = uECC_vli_set result product 3;
          tmp = uECC_vli_set (replicate 3 0) (drop 3 product) 3;
          (c, result) = uECC_vli_add result result tmp 3;
          carry = int (unat c);
          tmp = tmp[0 := 0];
          tmp = tmp[1 := product ! 3];
          tmp = tmp[2 := product ! 4];
          (c, result) = uECC_vli_add result result tmp 3;
          carry = carry + int (unat c);
          tmp = tmp[1 := product ! 5];
          tmp = tmp[0 := tmp ! 1];
          tmp = tmp[2 := 0];
          (c, result) = uECC_vli_add result result tmp 3;
          carry = carry + int (unat c)
      in sub_while_not_less (curve_p curve_secp192r1) 3 carry result)"

definition vli_mmod_fast_secp224r1 :: "u64 list \<Rightarrow> u64 list \<Rightarrow> u64 list" where
  "vli_mmod_fast_secp224r1 result product =
     (let carry = 0;
          result = uECC_vli_set result product 4;
          result = result[3 := result ! 3 AND 0xffffffff];
          tmp = [0, product ! 3 AND 0xffffffff00000000, product ! 4, product ! 5 AND 0xffffffff];
          (_, result) = uECC_vli_add result result tmp 4;
          tmp = tmp[1 := product ! 5 AND 0xffffffff00000000, 2 := product ! 6, 3 := 0];
          (_, result) = uECC_vli_add result result tmp 4;
          tmp = [drop_bit 32 (product ! 3) OR push_bit 32 (product ! 4), drop_bit 32 (product ! 4) OR push_bit 32 (product ! 5),
                 drop_bit 32 (product ! 5) OR push_bit 32 (product ! 6), drop_bit 32 (product ! 6)];
          (b, result) = uECC_vli_sub result result tmp 4;
          carry = carry - int (unat b);
          tmp = [drop_bit 32 (product ! 5) OR push_bit 32 (product ! 6), drop_bit 32 (product ! 6), 0, 0];
          (b, result) = uECC_vli_sub result result tmp 4;
          carry = carry - int (unat b)
      in if carry < 0 then add_while_negative (curve_p curve_secp224r1) 4 carry result
         else while (\<lambda>result. uECC_vli_cmp_unsafe (curve_p curve_secp224r1) result 4 \<noteq> 1)
                (\<lambda>result. snd (uECC_vli_sub result result (curve_p curve_secp224r1) 4)) result)"

definition vli_mmod_fast_secp256r1 :: "u64 list \<Rightarrow> u64 list \<Rightarrow> u64 list" where
  "vli_mmod_fast_secp256r1 result product =
     (let result = uECC_vli_set result product 4;
          tmp = [0, product ! 5 AND 0xffffffff00000000, product ! 6, product ! 7];
          (c, tmp) = uECC_vli_add tmp tmp tmp 4;
          carry = int (unat c);
          (c, result) = uECC_vli_add result result tmp 4;
          carry = carry + int (unat c);
          tmp = tmp[1 := push_bit 32 (product ! 6), 2 := drop_bit 32 (product ! 6) OR push_bit 32 (product ! 7),
                    3 := drop_bit 32 (product ! 7)];
          (c, tmp) = uECC_vli_add tmp tmp tmp 4;
          carry = carry + int (unat c);
          (c, result) = uECC_vli_add result result tmp 4;
          carry = carry + int (unat c);
          tmp = [product ! 4, product ! 5 AND 0xffffffff, 0, product ! 7];
          (c, result) = uECC_vli_add result result tmp 4;
          carry = carry + int (unat c);
          tmp = [drop_bit 32 (product ! 4) OR push_bit 32 (product ! 5), drop_bit 32 (product ! 5) OR (product ! 6 AND 0xffffffff00000000),
                 product ! 7, drop_bit 32 (product ! 6) OR push_bit 32 (product ! 4)];
          (c, result) = uECC_vli_add result result tmp 4;
          carry = carry + int (unat c);
          tmp = [drop_bit 32 (product ! 5) OR push_bit 32 (product ! 6), drop_bit 32 (product ! 6), 0,
                 (product ! 4 AND 0xffffffff) OR push_bit 32 (product ! 5)];
          (b, result) = uECC_vli_sub result result tmp 4;
          carry = carry - int (unat b);
          tmp = [product ! 6, product ! 7, 0, drop_bit 32 (product ! 4) OR (product ! 5 AND 0xffffffff00000000)];
          (b, result) = uECC_vli_sub result result tmp 4;
          carry = carry - int (unat b);
          tmp = [drop_bit 32 (product ! 6) OR push_bit 32 (product ! 7), drop_bit 32 (product ! 7) OR push_bit 32 (product ! 4),
                 drop_bit 32 (product ! 4) OR push_bit 32 (product ! 5), push_bit 32 (product ! 6)];
          (b, result) = uECC_vli_sub result result tmp 4;
          carry = carry - int (unat b);
          tmp = [product ! 7, product ! 4 AND 0xffffffff00000000, product ! 5, product ! 6 AND 0xffffffff00000000];
          (b, result) = uECC_vli_sub result result tmp 4;
          carry = carry - int (unat b)
      in if carry < 0 then add_while_negative (curve_p curve_secp256r1) 4 carry result
         else sub_while_not_less (curve_p curve_secp256r1) 4 carry result)"

definition omega_mult_secp256k1 :: "u64 list \<Rightarrow> u64 list \<Rightarrow> u64 list" where
  "omega_mult_secp256k1 result right =
     (let (r, result) = for_range 0 4 (\<lambda>k (r, result).
            let (r0, r1, r2) = muladd 0x1000003D1 (right ! k) r
            in ((r1, r2, 0), result[k := r0])) ((0, 0, 0), result);
          (r0, r1, r2) = r
      in result[4 := r0])"

text \<open>The loop that subtracts once for each carry counts the carry, an unsigned word, down to zero.\<close>

definition vli_mmod_fast_secp256k1 :: "u64 list \<Rightarrow> u64 list \<Rightarrow> u64 list" where
  "vli_mmod_fast_secp256k1 result product =
     (let p = curve_p curve_secp256k1;
          tmp = uECC_vli_clear (replicate 8 0) 4;
          tmp = at_off 4 (\<lambda>tmp. uECC_vli_clear tmp 4) tmp;
          tmp = omega_mult_secp256k1 tmp (drop 4 product);
          (carry, result) = uECC_vli_add result product tmp 4;
          product = uECC_vli_clear product 4;
          product = omega_mult_secp256k1 product (drop 4 tmp);
          (c, result) = uECC_vli_add result result product 4;
          carry = carry + c;
          result = for_range 0 (unat carry) (\<lambda>_ result. snd (uECC_vli_sub result result p 4)) result
      in if uECC_vli_cmp_unsafe result p 4 > 0 then snd (uECC_vli_sub result result p 4) else result)"

section \<open>The correcting loops\<close>

text \<open>The value of a result with its carry, and the loops as repeated addition or subtraction of the modulus.\<close>

definition cval :: "nat \<Rightarrow> int \<Rightarrow> u64 list \<Rightarrow> int" where
  "cval n carry r = int (vn n r) + 2 ^ (64 * n) * carry"

lemma cval_add:
  assumes "n \<le> length r" "n \<le> length x" "uECC_vli_add r r x n = (c, r')"
  shows "cval n (carry + int (unat c)) r' = cval n carry r + int (vn n x)" "length r' = length r" "drop n r' = drop n r"
proof -
  note add = vli_add_correct [OF assms(1,1,2,3)]
  have "int (vn n r') + 2 ^ (64 * n) * int (unat c) = int (vn n r) + int (vn n x)"
    using arg_cong [OF add(1), of int] by simp
  then show "cval n (carry + int (unat c)) r' = cval n carry r + int (vn n x)"
    unfolding cval_def distrib_left by linarith
qed (use vli_add_correct [OF assms(1,1,2,3)] in simp_all)

lemma cval_sub:
  assumes "n \<le> length r" "n \<le> length x" "uECC_vli_sub r r x n = (b, r')"
  shows "cval n (carry - int (unat b)) r' = cval n carry r - int (vn n x)" "length r' = length r" "drop n r' = drop n r"
proof -
  note sub = vli_sub_correct [OF assms(1,1,2,3)]
  have "int (vn n r') + int (vn n x) = int (vn n r) + 2 ^ (64 * n) * int (unat b)"
    using arg_cong [OF sub(1), of int] by simp
  then show "cval n (carry - int (unat b)) r' = cval n carry r - int (vn n x)"
    unfolding cval_def right_diff_distrib by linarith
qed (use vli_sub_correct [OF assms(1,1,2,3)] in simp_all)

lemma int_vn_lt: "int (vn n r) < 2 ^ (64 * n)"
  using vn_lt [of n r] of_nat_less_iff [of "vn n r" "2 ^ (64 * n)", where 'a = int] by simp

lemma cval_negative: "cval n carry r < 0 \<longleftrightarrow> carry < 0"
proof -
  have b: "0 \<le> int (vn n r)" "int (vn n r) < 2 ^ (64 * n)" using int_vn_lt by simp_all
  show ?thesis
  proof
    assume "carry < 0"
    then have "2 ^ (64 * n) * carry \<le> 2 ^ (64 * n) * (- 1)" by (intro mult_left_mono) simp_all
    then show "cval n carry r < 0" using b unfolding cval_def by linarith
  next
    assume v: "cval n carry r < 0"
    show "carry < 0"
    proof (rule ccontr)
      assume "\<not> carry < 0"
      then have "0 \<le> (2 :: int) ^ (64 * n) * carry" by simp
      then show False using v b unfolding cval_def by linarith
    qed
  qed
qed

lemma add_while_negative_correct:
  assumes p: "n \<le> length p" "0 < vn n p" and r: "n \<le> length result" and neg: "carry < 0"
  shows "int (vn n (add_while_negative p n carry result)) = cval n carry result mod int (vn n p)"
    "length (add_while_negative p n carry result) = length result"
    "drop n (add_while_negative p n carry result) = drop n result"
proof -
  define body where "body = (\<lambda>(carry, result). let (c, result) = uECC_vli_add result result p n in (carry + int (unat c), result))"
  let ?P = "\<lambda>(c, r). cval n c r mod int (vn n p) = cval n carry result mod int (vn n p) \<and> cval n c r < int (vn n p)
      \<and> length r = length result \<and> drop n r = drop n result"
  have step: "?P (body s) \<and> cval n (fst (body s)) (snd (body s)) = cval n (fst s) (snd s) + int (vn n p)" if "?P s" "fst s < 0" for s
  proof -
    obtain c r where s: "s = (c, r)" by (cases s)
    obtain k r' where a: "uECC_vli_add r r p n = (k, r')" by fastforce
    have "n \<le> length r" using that(1) r by (simp add: s)
    note cv = cval_add(1) [OF this p(1) a, of c] cval_add(2,3) [OF this p(1) a]
    have "cval n c r < 0" using that(2) by (simp add: s cval_negative)
    then show ?thesis using that(1) cv by (simp add: s body_def a)
  qed
  have P0: "?P (carry, result)"
    using neg cval_negative [of n carry result] by simp
  have "?P (while (\<lambda>(c, r). c < 0) body (body (carry, result))) \<and> \<not> (\<lambda>(c, r). c < 0) (while (\<lambda>(c, r). c < 0) body (body (carry, result)))"
  proof (rule while_rule [where P = ?P and r = "measure (\<lambda>(c, r). nat (- cval n c r))"])
    show "?P (body (carry, result))" using step [OF P0] neg by simp
    show "?P (body s)" if "?P s" "case s of (c, r) \<Rightarrow> c < 0" for s
      using step [OF that(1)] that(2) by (cases s) simp
    show "(body s, s) \<in> measure (\<lambda>(c, r). nat (- cval n c r))" if "?P s" "case s of (c, r) \<Rightarrow> c < 0" for s
      using step [OF that(1)] that(2) cval_negative [of n "fst s" "snd s"] p(2) by (cases s, cases "body s") simp
  qed auto
  moreover obtain c r' where w: "while (\<lambda>(c, r). c < 0) body (body (carry, result)) = (c, r')" by fastforce
  ultimately have f: "cval n c r' mod int (vn n p) = cval n carry result mod int (vn n p)" "cval n c r' < int (vn n p)" "0 \<le> c"
    "length r' = length result" "drop n r' = drop n result" by auto
  have e: "add_while_negative p n carry result = r'"
    using w by (simp add: add_while_negative_def body_def Let_def)
  have "0 \<le> cval n c r'" using f(3) cval_negative [of n c r'] by simp
  then have m: "cval n c r' = cval n carry result mod int (vn n p)" using f(1,2) by simp
  have "cval n c r' < 2 ^ (64 * n)"
    using f(2) int_vn_lt [of n p] by linarith
  then have "2 ^ (64 * n) * c < 2 ^ (64 * n) * 1"
    using of_nat_0_le_iff [of "vn n r'", where 'a = int] unfolding cval_def by linarith
  then have "c = 0" using f(3) by (simp add: mult_less_cancel_left)
  then show "int (vn n (add_while_negative p n carry result)) = cval n carry result mod int (vn n p)"
    "length (add_while_negative p n carry result) = length result"
    "drop n (add_while_negative p n carry result) = drop n result"
    using m f(4,5) by (simp_all add: e cval_def)
qed


lemma cval_not_less:
  assumes "vn n p = m" "0 \<le> cval n c r" "n \<le> length p" "n \<le> length r"
  shows "c \<noteq> 0 \<or> uECC_vli_cmp_unsafe p r n \<noteq> 1 \<longleftrightarrow> int m \<le> cval n c r"
proof -
  have c: "0 \<le> c" using assms(2) cval_negative [of n c r] by simp
  have "int m \<le> cval n c r" if "c \<noteq> 0"
  proof -
    have "2 ^ (64 * n) * 1 \<le> 2 ^ (64 * n) * c" using c that by (intro mult_left_mono) simp_all
    then show ?thesis using int_vn_lt [of n p] of_nat_0_le_iff [of "vn n r", where 'a = int] unfolding cval_def assms(1) by linarith
  qed
  moreover have "uECC_vli_cmp_unsafe p r n \<noteq> 1 \<longleftrightarrow> m \<le> vn n r"
    using vli_cmp_unsafe_eq [OF assms(3,4)] assms(1) by auto
  ultimately show ?thesis by (cases "c = 0") (simp_all add: cval_def)
qed

lemma sub_while_not_less_correct:
  assumes p: "n \<le> length p" "0 < vn n p" and r: "n \<le> length result" and pos: "0 \<le> carry"
  shows "int (vn n (sub_while_not_less p n carry result)) = cval n carry result mod int (vn n p)"
    "length (sub_while_not_less p n carry result) = length result"
    "drop n (sub_while_not_less p n carry result) = drop n result"
proof -
  define m where "m = vn n p"
  define test where "test = (\<lambda>(carry :: int, result). carry \<noteq> 0 \<or> uECC_vli_cmp_unsafe p result n \<noteq> 1)"
  define body where "body = (\<lambda>(carry, result). let (b, result) = uECC_vli_sub result result p n in (carry - int (unat b), result))"
  let ?P = "\<lambda>(c, r). cval n c r mod int m = cval n carry result mod int m \<and> 0 \<le> cval n c r
      \<and> length r = length result \<and> drop n r = drop n result"
  have test: "test s \<longleftrightarrow> int m \<le> cval n (fst s) (snd s)" if "?P s" for s
    using cval_not_less [of n p m "fst s" "snd s"] that p(1) r by (cases s) (simp add: test_def m_def)
  have step: "?P (body s) \<and> cval n (fst (body s)) (snd (body s)) = cval n (fst s) (snd s) - int m" if "?P s" "test s" for s
  proof -
    obtain c r where s: "s = (c, r)" by (cases s)
    obtain b r' where a: "uECC_vli_sub r r p n = (b, r')" by fastforce
    have "n \<le> length r" using that(1) assms(3) by (simp add: s)
    note cv = cval_sub(1) [OF this p(1) a, of c] cval_sub(2,3) [OF this p(1) a]
    have "int m \<le> cval n c r" using test [OF that(1)] that(2) by (simp add: s)
    then show ?thesis using that(1) cv by (simp add: s body_def a m_def)
  qed
  have "?P (while test body (carry, result)) \<and> \<not> test (while test body (carry, result))"
  proof (rule while_rule [where P = ?P and r = "measure (\<lambda>(c, r). nat (cval n c r))"])
    show "?P (carry, result)" using pos cval_negative [of n carry result] by simp
    show "?P (body s)" if "?P s" "test s" for s using step [OF that] by simp
    show "(body s, s) \<in> measure (\<lambda>(c, r). nat (cval n c r))" if "?P s" "test s" for s
      using step [OF that] test [OF that(1)] that p(2) by (cases s, cases "body s") (simp add: m_def)
  qed auto
  moreover obtain c r' where w: "while test body (carry, result) = (c, r')" by fastforce
  ultimately have f: "?P (c, r')" "\<not> test (c, r')" by simp_all
  have lt: "cval n c r' < int m" using test [OF f(1)] f(2) by simp
  then have v: "cval n c r' = cval n carry result mod int m"
    using f(1) mod_pos_pos_trivial [of "cval n c r'" "int m"] by simp
  have e: "sub_while_not_less p n carry result = r'"
    using w by (simp add: sub_while_not_less_def test_def body_def Let_def)
  have "c = 0" using f(2) by (simp add: test_def)
  then show "int (vn n (sub_while_not_less p n carry result)) = cval n carry result mod int (vn n p)"
    "length (sub_while_not_less p n carry result) = length result"
    "drop n (sub_while_not_less p n carry result) = drop n result"
    using v f(1) by (simp_all add: e cval_def m_def)
qed

text \<open>The same loop without a carry.\<close>

lemma sub_while_plain_correct:
  assumes p: "n \<le> length p" "0 < vn n p" and r: "n \<le> length result"
  defines "w \<equiv> while (\<lambda>result. uECC_vli_cmp_unsafe p result n \<noteq> 1) (\<lambda>result. snd (uECC_vli_sub result result p n)) result"
  shows "vn n w = vn n result mod vn n p" "length w = length result" "drop n w = drop n result"
proof -
  let ?P = "\<lambda>r. vn n r mod vn n p = vn n result mod vn n p \<and> length r = length result \<and> drop n r = drop n result"
  have test: "uECC_vli_cmp_unsafe p s n \<noteq> 1 \<longleftrightarrow> vn n p \<le> vn n s" if "?P s" for s
    using vli_cmp_unsafe_eq [of n p s] p(1) r that by auto
  have step: "?P (snd (uECC_vli_sub s s p n)) \<and> vn n (snd (uECC_vli_sub s s p n)) = vn n s - vn n p" if "?P s" "vn n p \<le> vn n s" for s
  proof -
    obtain b s' where a: "uECC_vli_sub s s p n = (b, s')" by fastforce
    have "n \<le> length s" using that(1) r by simp
    note sub = vli_sub_correct [OF this this p(1) a] vli_sub_borrow [OF this this p(1) a]
    then show ?thesis using that by (simp add: a le_mod_geq)
  qed
  have "?P w \<and> \<not> uECC_vli_cmp_unsafe p w n \<noteq> 1"
    unfolding w_def
  proof (rule while_rule [where P = ?P and r = "measure (vn n)"])
    show "?P (snd (uECC_vli_sub s s p n))" if "?P s" "uECC_vli_cmp_unsafe p s n \<noteq> 1" for s
      using step [of s] that test by blast
    show "(snd (uECC_vli_sub s s p n), s) \<in> measure (vn n)" if "?P s" "uECC_vli_cmp_unsafe p s n \<noteq> 1" for s
      using step [of s] that test [of s] p(2) by simp
  qed auto
  then show "vn n w = vn n result mod vn n p" "length w = length result" "drop n w = drop n result"
    using test [of w] by (auto simp: not_le)
qed


section \<open>Halves of words\<close>

definition lo32 :: "u64 \<Rightarrow> nat" where
  "lo32 w = unat w mod 2 ^ 32"

definition hi32 :: "u64 \<Rightarrow> nat" where
  "hi32 w = unat w div 2 ^ 32"

lemma halves: "unat w = lo32 w + 2 ^ 32 * hi32 w"
  by (simp add: lo32_def hi32_def)

lemma halves_lt: "lo32 w < 2 ^ 32" "hi32 w < 2 ^ 32"
  using unat_lt_word [of w] by (simp_all add: lo32_def hi32_def div_less_iff_less_mult)

named_theorems word_halves

lemma unat_low_half [word_halves]: "unat (w AND 0xffffffff :: u64) = lo32 w"
  using unat_and_mask [of w 32] by (simp add: lo32_def mask_eq_exp_minus_1)

lemma unat_shift_high [word_halves]: "unat (drop_bit 32 w :: u64) = hi32 w"
  by (simp add: hi32_def unat_drop_bit)

lemma unat_shift_low [word_halves]: "unat (push_bit 32 w :: u64) = 2 ^ 32 * lo32 w"
proof -
  have "unat (push_bit 32 w :: u64) = 2 ^ 32 * unat w mod (2 ^ 32 * 2 ^ 32)"
    by (simp add: unat_push_bit mult.commute)
  then show ?thesis by (simp only: lo32_def mult_mod_right)
qed

lemma unat_high_half [word_halves]: "unat (w AND 0xffffffff00000000 :: u64) = 2 ^ 32 * hi32 w"
proof -
  have m: "(0xffffffff00000000 :: u64) = push_bit 32 (mask 32)"
    by (simp add: mask_eq_exp_minus_1 push_bit_eq_mult)
  have "w AND push_bit 32 (mask 32) = push_bit 32 (drop_bit 32 w)"
    by (auto intro!: bit_word_eqI simp: bit_simps)
  moreover have "lo32 (drop_bit 32 w) = hi32 w"
    using halves_lt(2) [of w] by (simp add: lo32_def unat_shift_high)
  ultimately show ?thesis unfolding m by (simp add: unat_shift_low)
qed

lemma unat_or_halves:
  assumes "unat (a :: u64) < 2 ^ 32" "unat (b :: u64) = 2 ^ 32 * y"
  shows "unat (a OR b) = unat a + 2 ^ 32 * y"
proof -
  have y: "y < 2 ^ 32" using assms(2) unat_lt_word [of b] by simp
  have "b = push_bit 32 (word_of_nat y)"
    by (rule word_unat_eqI) (use assms(2) y in \<open>simp add: unat_push_bit unat_of_nat\<close>)
  then have "a AND b = 0" using and_push_bit_eq_0 [OF assms(1)] by simp
  then have "a OR b = a + b" by (rule or_eq_add_disjoint)
  moreover have "unat a + unat b < 2 ^ 64" using assms y by simp
  ultimately show ?thesis using assms(2) by (simp add: unat_add_small)
qed

lemma unat_or_word_halves [word_halves]:
  "unat (drop_bit 32 a OR push_bit 32 b :: u64) = hi32 a + 2 ^ 32 * lo32 b"
  "unat (drop_bit 32 a OR (b AND 0xffffffff00000000) :: u64) = hi32 a + 2 ^ 32 * hi32 b"
  "unat ((a AND 0xffffffff) OR push_bit 32 b :: u64) = lo32 a + 2 ^ 32 * lo32 b"
  using unat_or_halves [of "drop_bit 32 a" "push_bit 32 b" "lo32 b"]
    unat_or_halves [of "drop_bit 32 a" "b AND 0xffffffff00000000" "hi32 b"]
    unat_or_halves [of "a AND 0xffffffff" "push_bit 32 b" "lo32 b"] halves_lt
  by (simp_all add: unat_low_half unat_shift_high unat_shift_low unat_high_half)

lemma vn_words:
  "8 \<le> length x \<Longrightarrow> vn 8 x = (\<Sum>i<8. unat (x ! i) * 2 ^ (64 * i))"
  "7 \<le> length x \<Longrightarrow> vn 7 x = (\<Sum>i<7. unat (x ! i) * 2 ^ (64 * i))"
  "6 \<le> length x \<Longrightarrow> vn 6 x = (\<Sum>i<6. unat (x ! i) * 2 ^ (64 * i))"
  "4 \<le> length x \<Longrightarrow> vn 4 x = (\<Sum>i<4. unat (x ! i) * 2 ^ (64 * i))"
  "3 \<le> length x \<Longrightarrow> vn 3 x = (\<Sum>i<3. unat (x ! i) * 2 ^ (64 * i))"
  by (simp_all only: vn_sum)

section \<open>secp192r1\<close>

lemma mmod_fast_secp192r1_correct:
  assumes l: "3 \<le> length result" "6 \<le> length product"
  shows "vn 3 (vli_mmod_fast_secp192r1 result product) = vn 6 product mod vn 3 (curve_p curve_secp192r1)"
    "length (vli_mmod_fast_secp192r1 result product) = length result"
    "drop 3 (vli_mmod_fast_secp192r1 result product) = drop 3 result"
proof -
  let ?p = "curve_p curve_secp192r1"
  define r0 where "r0 = uECC_vli_set result product 3"
  define t1 where "t1 = uECC_vli_set (replicate 3 0) (drop 3 product) 3"
  define t2 where "t2 = [0, product ! 3, product ! 4]"
  define t3 where "t3 = [product ! 5, product ! 5, 0]"
  have t1: "t1 = [product ! 3, product ! 4, product ! 5]"
    unfolding t1_def using l by (simp add: vli_set_eq list_eq_iff_nth_eq less_Suc_eq numeral_3_eq_3 numeral_eq_Suc)
  obtain c1 r1 where a1: "uECC_vli_add r0 r0 t1 3 = (c1, r1)" by fastforce
  obtain c2 r2 where a2: "uECC_vli_add r1 r1 t2 3 = (c2, r2)" by fastforce
  obtain c3 r3 where a3: "uECC_vli_add r2 r2 t3 3 = (c3, r3)" by fastforce
  have l0: "3 \<le> length r0" "length r0 = length result" "drop 3 r0 = drop 3 result" using l by (simp_all add: r0_def vli_set_eq)
  have lt: "3 \<le> length t1" "3 \<le> length t2" "3 \<le> length t3" by (simp_all add: t1 t2_def t3_def)
  note v1 = cval_add(1) [OF l0(1) lt(1) a1, of 0] cval_add(2,3) [OF l0(1) lt(1) a1]
  have l1: "3 \<le> length r1" using v1(2) l0 by simp
  note v2 = cval_add(1) [OF l1 lt(2) a2, of "0 + int (unat c1)"] cval_add(2,3) [OF l1 lt(2) a2]
  have l2: "3 \<le> length r2" using v2(2) l1 by simp
  note v3 = cval_add(1) [OF l2 lt(3) a3, of "0 + int (unat c1) + int (unat c2)"] cval_add(2,3) [OF l2 lt(3) a3]
  have l3: "3 \<le> length r3" using v3(2) l2 by simp
  define carry where "carry = int (unat c1) + int (unat c2) + int (unat c3)"
  have u: "t1[0 := 0, 1 := product ! 3, 2 := product ! 4] = t2" "t2[1 := product ! 5, 0 := t2[1 := product ! 5] ! 1, 2 := 0] = t3"
    by (simp_all add: t1 t2_def t3_def)
  have e: "vli_mmod_fast_secp192r1 result product = sub_while_not_less ?p 3 carry r3"
    unfolding vli_mmod_fast_secp192r1_def Let_def r0_def [symmetric] t1_def [symmetric] a1 prod.case u a2 a3 carry_def ..
  have V: "cval 3 carry r3 = int (vn 3 r0) + int (vn 3 t1) + int (vn 3 t2) + int (vn 3 t3)"
    using v1(1) v2(1) v3(1) by (simp add: carry_def cval_def)
  have "int (vn 6 product) = cval 3 carry r3 + int (vn 3 ?p) *
      (int (unat (product ! 3)) + 18446744073709551616 * int (unat (product ! 4)) + 340282366920938463463374607431768211457 * int (unat (product ! 5)))"
    using l unfolding vn_p_secp192r1 V
    by (simp add: r0_def vn_set vn_words t1 t2_def t3_def lessThan_nat_numeral lessThan_Suc)
  then have m: "int (vn 6 product) mod int (vn 3 ?p) = cval 3 carry r3 mod int (vn 3 ?p)" by simp
  have p: "3 \<le> length ?p" "0 < vn 3 ?p" by (simp_all add: length_p_secp192r1 vn_p_secp192r1)
  have carry: "0 \<le> carry" by (simp add: carry_def)
  note w = sub_while_not_less_correct [OF p l3 carry]
  show "vn 3 (vli_mmod_fast_secp192r1 result product) = vn 6 product mod vn 3 ?p"
    using w(1) m unfolding e by (simp only: of_nat_mod [symmetric] of_nat_eq_iff)
  show "length (vli_mmod_fast_secp192r1 result product) = length result"
    "drop 3 (vli_mmod_fast_secp192r1 result product) = drop 3 result"
    unfolding e using w(2,3) v1 v2 v3 l0 by simp_all
qed


section \<open>secp256r1\<close>

text \<open>A summand that the code doubles first, carrying the doubling.\<close>

lemma cval_add_double:
  assumes "n \<le> length r" "n \<le> length t" "uECC_vli_add t t t n = (c, t')" "uECC_vli_add r r t' n = (c', r')"
  shows "cval n (carry + int (unat c) + int (unat c')) r' = cval n carry r + 2 * int (vn n t)"
    "length r' = length r" "drop n r' = drop n r"
proof -
  note d = vli_add_correct [OF assms(2,2,2,3)]
  have l: "n \<le> length t'" using d(3) assms(2) by simp
  have "int (vn n t') + 2 ^ (64 * n) * int (unat c) = int (vn n t) + int (vn n t)"
    using arg_cong [OF d(1), of int] by simp
  then show "cval n (carry + int (unat c) + int (unat c')) r' = cval n carry r + 2 * int (vn n t)"
    unfolding cval_add(1) [OF assms(1) l assms(4)] by (simp add: cval_def distrib_left)
  show "length r' = length r" "drop n r' = drop n r" using cval_add(2,3) [OF assms(1) l assms(4)] by simp_all
qed

lemma mmod_fast_secp256r1_correct:
  assumes l: "4 \<le> length result" "8 \<le> length product"
  shows "vn 4 (vli_mmod_fast_secp256r1 result product) = vn 8 product mod vn 4 (curve_p curve_secp256r1)"
    "length (vli_mmod_fast_secp256r1 result product) = length result"
    "drop 4 (vli_mmod_fast_secp256r1 result product) = drop 4 result"
proof -
  let ?p = "curve_p curve_secp256r1"
  let ?P = "\<lambda>i. product ! i"
  define r0 where "r0 = uECC_vli_set result product 4"
  define t1 where "t1 = [0, ?P 5 AND 0xffffffff00000000, ?P 6, ?P 7]"
  define t2 where "t2 = [0, push_bit 32 (?P 6), drop_bit 32 (?P 6) OR push_bit 32 (?P 7), drop_bit 32 (?P 7)]"
  define t3 where "t3 = [?P 4, ?P 5 AND 0xffffffff, 0, ?P 7]"
  define t4 where "t4 = [drop_bit 32 (?P 4) OR push_bit 32 (?P 5), drop_bit 32 (?P 5) OR (?P 6 AND 0xffffffff00000000),
    ?P 7, drop_bit 32 (?P 6) OR push_bit 32 (?P 4)]"
  define t5 where "t5 = [drop_bit 32 (?P 5) OR push_bit 32 (?P 6), drop_bit 32 (?P 6), 0, (?P 4 AND 0xffffffff) OR push_bit 32 (?P 5)]"
  define t6 where "t6 = [?P 6, ?P 7, 0, drop_bit 32 (?P 4) OR (?P 5 AND 0xffffffff00000000)]"
  define t7 where "t7 = [drop_bit 32 (?P 6) OR push_bit 32 (?P 7), drop_bit 32 (?P 7) OR push_bit 32 (?P 4),
    drop_bit 32 (?P 4) OR push_bit 32 (?P 5), push_bit 32 (?P 6)]"
  define t8 where "t8 = [?P 7, ?P 4 AND 0xffffffff00000000, ?P 5, ?P 6 AND 0xffffffff00000000]"
  note ts = t1_def t2_def t3_def t4_def t5_def t6_def t7_def t8_def
  have lt: "4 \<le> length t1" "4 \<le> length t2" "4 \<le> length t3" "4 \<le> length t4" "4 \<le> length t5" "4 \<le> length t6"
    "4 \<le> length t7" "4 \<le> length t8" by (simp_all add: ts)
  have l0: "4 \<le> length r0" "length r0 = length result" "drop 4 r0 = drop 4 result" using l by (simp_all add: r0_def vli_set_eq)
  obtain d1 s1 where b1: "uECC_vli_add t1 t1 t1 4 = (d1, s1)" by fastforce
  obtain c1 r1 where a1: "uECC_vli_add r0 r0 s1 4 = (c1, r1)" by fastforce
  have s1: "s1[1 := push_bit 32 (?P 6), 2 := drop_bit 32 (?P 6) OR push_bit 32 (?P 7), 3 := drop_bit 32 (?P 7)] = t2"
  proof -
    note d = vli_add_correct [OF lt(1,1,1) b1]
    obtain x0 x1 x2 x3 where x: "s1 = [x0, x1, x2, x3]" using d(3) by (auto simp: t1_def length_Suc_conv)
    have "unat x0 + 2 ^ 64 * (unat x1 + 2 ^ 64 * (unat x2 + 2 ^ 64 * (unat x3 + 2 ^ 64 * unat d1)))
        = 2 ^ 64 * (2 * (unat (?P 5 AND 0xffffffff00000000) + 2 ^ 64 * (unat (?P 6) + 2 ^ 64 * unat (?P 7))))"
      using d(1) by (simp add: x t1_def)
    then have "unat x0 mod 2 ^ 64 = 0" by (metis mod_mult_self1_is_0 mod_mult_self2)
    then have "x0 = 0" using unat_lt_word [of x0] by (simp add: unat_eq_zero)
    then show ?thesis by (simp add: x t2_def)
  qed
  note v1 = cval_add_double(1) [OF l0(1) lt(1) b1 a1, of 0] cval_add_double(2,3) [OF l0(1) lt(1) b1 a1]
  have l1: "4 \<le> length r1" using v1(2) l0 by simp
  define k1 where "k1 = int (unat d1) + int (unat c1)"
  obtain d2 s2 where b2: "uECC_vli_add t2 t2 t2 4 = (d2, s2)" by fastforce
  obtain c2 r2 where a2: "uECC_vli_add r1 r1 s2 4 = (c2, r2)" by fastforce
  note v2 = cval_add_double(1) [OF l1 lt(2) b2 a2, of k1] cval_add_double(2,3) [OF l1 lt(2) b2 a2]
  have l2: "4 \<le> length r2" using v2(2) l1 by simp
  define k2 where "k2 = k1 + int (unat d2) + int (unat c2)"
  obtain c3 r3 where a3: "uECC_vli_add r2 r2 t3 4 = (c3, r3)" by fastforce
  note v3 = cval_add(1) [OF l2 lt(3) a3, of k2] cval_add(2,3) [OF l2 lt(3) a3]
  have l3: "4 \<le> length r3" using v3(2) l2 by simp
  define k3 where "k3 = k2 + int (unat c3)"
  obtain c4 r4 where a4: "uECC_vli_add r3 r3 t4 4 = (c4, r4)" by fastforce
  note v4 = cval_add(1) [OF l3 lt(4) a4, of k3] cval_add(2,3) [OF l3 lt(4) a4]
  have l4: "4 \<le> length r4" using v4(2) l3 by simp
  define k4 where "k4 = k3 + int (unat c4)"
  obtain c5 r5 where a5: "uECC_vli_sub r4 r4 t5 4 = (c5, r5)" by fastforce
  note v5 = cval_sub(1) [OF l4 lt(5) a5, of k4] cval_sub(2,3) [OF l4 lt(5) a5]
  have l5: "4 \<le> length r5" using v5(2) l4 by simp
  define k5 where "k5 = k4 - int (unat c5)"
  obtain c6 r6 where a6: "uECC_vli_sub r5 r5 t6 4 = (c6, r6)" by fastforce
  note v6 = cval_sub(1) [OF l5 lt(6) a6, of k5] cval_sub(2,3) [OF l5 lt(6) a6]
  have l6: "4 \<le> length r6" using v6(2) l5 by simp
  define k6 where "k6 = k5 - int (unat c6)"
  obtain c7 r7 where a7: "uECC_vli_sub r6 r6 t7 4 = (c7, r7)" by fastforce
  note v7 = cval_sub(1) [OF l6 lt(7) a7, of k6] cval_sub(2,3) [OF l6 lt(7) a7]
  have l7: "4 \<le> length r7" using v7(2) l6 by simp
  define k7 where "k7 = k6 - int (unat c7)"
  obtain c8 r8 where a8: "uECC_vli_sub r7 r7 t8 4 = (c8, r8)" by fastforce
  note v8 = cval_sub(1) [OF l7 lt(8) a8, of k7] cval_sub(2,3) [OF l7 lt(8) a8]
  have l8: "4 \<le> length r8" using v8(2) l7 by simp
  define k8 where "k8 = k7 - int (unat c8)"
  have e: "vli_mmod_fast_secp256r1 result product = (if k8 < 0 then add_while_negative ?p 4 k8 r8 else sub_while_not_less ?p 4 k8 r8)"
    unfolding vli_mmod_fast_secp256r1_def Let_def r0_def [symmetric] t1_def [symmetric] t3_def [symmetric] t4_def [symmetric]
      t5_def [symmetric] t6_def [symmetric] t7_def [symmetric] t8_def [symmetric] b1 a1 prod.case s1 b2 a2 a3 a4 a5 a6 a7 a8
      k8_def k7_def k6_def k5_def k4_def k3_def k2_def k1_def ..
  have V: "cval 4 k8 r8 = int (vn 4 r0) + 2 * int (vn 4 t1) + 2 * int (vn 4 t2) + int (vn 4 t3) + int (vn 4 t4)
      - int (vn 4 t5) - int (vn 4 t6) - int (vn 4 t7) - int (vn 4 t8)"
  proof -
    have "cval 4 0 r0 = int (vn 4 r0)" by (simp add: cval_def)
    then show ?thesis
      using v1(1) [unfolded add_0, folded k1_def] v2(1) [folded k2_def] v3(1) [folded k3_def] v4(1) [folded k4_def]
        v5(1) [folded k5_def] v6(1) [folded k6_def] v7(1) [folded k7_def] v8(1) [folded k8_def] by linarith
  qed
  have "int (vn 8 product) = cval 4 k8 r8 + int (vn 4 ?p) * (
    1 * int (lo32 (product ! 4)) +
    4294967297 * int (hi32 (product ! 4)) +
    18446744078004518912 * int (lo32 (product ! 5)) +
    79228162532711081667253501951 * int (hi32 (product ! 5)) +
    340282367000166625977638945021017194495 * int (lo32 (product ! 6)) +
    1461501637671185285124623296161210883009696235519 * int (hi32 (product ! 6)) +
    6277101736848182401166692341332123086285927382448418586623 * int (lo32 (product ! 7)) +
    26959946673427741530053695850515137729844644212646842236464328081408 * int (hi32 (product ! 7)))"
    using l unfolding vn_p_secp256r1 V ts
    by (simp add: r0_def vn_set vn_words lessThan_nat_numeral lessThan_Suc word_halves
      halves [of "product ! 4"] halves [of "product ! 5"] halves [of "product ! 6"] halves [of "product ! 7"])
  then have m: "int (vn 8 product) mod int (vn 4 ?p) = cval 4 k8 r8 mod int (vn 4 ?p)" by simp
  have p: "4 \<le> length ?p" "0 < vn 4 ?p" by (simp add: length_p_secp256r1, subst vn_p_secp256r1, simp)
  have w: "int (vn 4 (vli_mmod_fast_secp256r1 result product)) = cval 4 k8 r8 mod int (vn 4 ?p)
      \<and> length (vli_mmod_fast_secp256r1 result product) = length r8 \<and> drop 4 (vli_mmod_fast_secp256r1 result product) = drop 4 r8"
    unfolding e using add_while_negative_correct [OF p l8] sub_while_not_less_correct [OF p l8] by simp
  show "vn 4 (vli_mmod_fast_secp256r1 result product) = vn 8 product mod vn 4 ?p"
    using trans [OF w [THEN conjunct1] m [symmetric]] by (simp only: of_nat_mod [symmetric] of_nat_eq_iff)
  show "length (vli_mmod_fast_secp256r1 result product) = length result"
    "drop 4 (vli_mmod_fast_secp256r1 result product) = drop 4 result"
    using w v1 v2 v3 v4 v5 v6 v7 v8 l0 by simp_all
qed

section \<open>secp224r1\<close>

lemma vn_4_top: "4 \<le> length x \<Longrightarrow> unat (x ! 3) < 2 ^ 32 \<Longrightarrow> vn 4 x < 2 ^ 224"
  using vn_Suc [of 3 x] vn_lt [of 3 x] by simp

lemma add_no_carry:
  assumes "n \<le> length r" "n \<le> length x" "uECC_vli_add r r x n = (c, r')" "vn n r + vn n x < 2 ^ (64 * n)"
  shows "vn n r' = vn n r + vn n x" "length r' = length r" "drop n r' = drop n r"
proof -
  note add = vli_add_correct [OF assms(1,1,2,3)]
  have "2 ^ (64 * n) * unat c < 2 ^ (64 * n) * 1" using add(1) assms(4) by linarith
  then have "unat c = 0" by (subst (asm) nat_mult_less_cancel1) simp_all
  then show "vn n r' = vn n r + vn n x" using add(1) by simp
qed (use vli_add_correct [OF assms(1,1,2,3)] in simp_all)

lemma mmod_fast_secp224r1_correct:
  assumes l: "4 \<le> length result" "7 \<le> length product"
  shows "vn 4 (vli_mmod_fast_secp224r1 result product) = vn 7 product mod vn 4 (curve_p curve_secp224r1)"
    "length (vli_mmod_fast_secp224r1 result product) = length result"
    "drop 4 (vli_mmod_fast_secp224r1 result product) = drop 4 result"
proof -
  let ?p = "curve_p curve_secp224r1"
  let ?P = "\<lambda>i. product ! i"
  define r0 where "r0 = (uECC_vli_set result product 4)[3 := uECC_vli_set result product 4 ! 3 AND 0xffffffff]"
  define t1 where "t1 = [0, ?P 3 AND 0xffffffff00000000, ?P 4, ?P 5 AND 0xffffffff]"
  define t2 where "t2 = [0, ?P 5 AND 0xffffffff00000000, ?P 6, 0]"
  define t3 where "t3 = [drop_bit 32 (?P 3) OR push_bit 32 (?P 4), drop_bit 32 (?P 4) OR push_bit 32 (?P 5),
                 drop_bit 32 (?P 5) OR push_bit 32 (?P 6), drop_bit 32 (?P 6)]"
  define t4 where "t4 = [drop_bit 32 (?P 5) OR push_bit 32 (?P 6), drop_bit 32 (?P 6), 0, 0]"
  note ts = t1_def t2_def t3_def t4_def
  have lt: "4 \<le> length t1" "4 \<le> length t2" "4 \<le> length t3" "4 \<le> length t4" by (simp_all add: ts)
  have l0: "4 \<le> length r0" "length r0 = length result" "drop 4 r0 = drop 4 result" using l by (simp_all add: r0_def vli_set_eq)
  have r0: "vn 4 r0 = unat (?P 0) + unat (?P 1) * 2 ^ 64 + unat (?P 2) * 2 ^ 128 + lo32 (?P 3) * 2 ^ 192"
    using l by (simp add: r0_def vli_set_eq vn_words lessThan_nat_numeral lessThan_Suc nth_append word_halves)
  have small: "vn 4 r0 < 2 ^ 224" "vn 4 t1 < 2 ^ 224" "vn 4 t2 < 2 ^ 224"
  proof -
    have "unat (r0 ! 3) < 2 ^ 32" "unat (t1 ! 3) < 2 ^ 32" "unat (t2 ! 3) < 2 ^ 32"
      using l(1) halves_lt(1) by (simp_all add: r0_def t1_def t2_def word_halves)
    then show "vn 4 r0 < 2 ^ 224" "vn 4 t1 < 2 ^ 224" "vn 4 t2 < 2 ^ 224"
      using l0(1) lt(1,2) vn_4_top by blast+
  qed
  obtain c1 r1 where a1: "uECC_vli_add r0 r0 t1 4 = (c1, r1)" by fastforce
  note v1 = add_no_carry [OF l0(1) lt(1) a1]
  have w1: "vn 4 r1 = vn 4 r0 + vn 4 t1" using v1(1) small by simp
  have l1: "4 \<le> length r1" "length r1 = length result" "drop 4 r1 = drop 4 result" using v1 small l0 by simp_all
  obtain c2 r2 where a2: "uECC_vli_add r1 r1 t2 4 = (c2, r2)" by fastforce
  note v2 = add_no_carry [OF l1(1) lt(2) a2]
  have w2: "vn 4 r2 = vn 4 r0 + vn 4 t1 + vn 4 t2" using v2(1) small w1 by simp
  have l2: "4 \<le> length r2" "length r2 = length result" "drop 4 r2 = drop 4 result" using v2 small l1 w1 by simp_all
  obtain c3 r3 where a3: "uECC_vli_sub r2 r2 t3 4 = (c3, r3)" by fastforce
  note v3 = cval_sub(1) [OF l2(1) lt(3) a3, of 0] cval_sub(2,3) [OF l2(1) lt(3) a3]
  have l3: "4 \<le> length r3" using v3(2) l2 by simp
  obtain c4 r4 where a4: "uECC_vli_sub r3 r3 t4 4 = (c4, r4)" by fastforce
  note v4 = cval_sub(1) [OF l3 lt(4) a4, of "0 - int (unat c3)"] cval_sub(2,3) [OF l3 lt(4) a4]
  have l4: "4 \<le> length r4" using v4(2) l3 by simp
  define k where "k = 0 - int (unat c3) - int (unat c4)"
  have u: "t1[1 := ?P 5 AND 0xffffffff00000000, 2 := ?P 6, 3 := 0] = t2" by (simp add: ts)
  have e: "vli_mmod_fast_secp224r1 result product = (if k < 0 then add_while_negative ?p 4 k r4
      else while (\<lambda>result. uECC_vli_cmp_unsafe ?p result 4 \<noteq> 1) (\<lambda>result. snd (uECC_vli_sub result result ?p 4)) r4)"
    unfolding vli_mmod_fast_secp224r1_def Let_def r0_def [symmetric] t1_def [symmetric] a1 prod.case u
      t3_def [symmetric] t4_def [symmetric] a2 a3 a4 k_def ..
  have V: "cval 4 k r4 = int (vn 4 r0) + int (vn 4 t1) + int (vn 4 t2) - int (vn 4 t3) - int (vn 4 t4)"
    using v4(1) v3(1) w2 by (simp add: k_def cval_def)
  have "int (vn 7 product) = cval 4 k r4 + int (vn 4 ?p) * (
    1 * int (hi32 (product ! 3)) +
    4294967296 * int (lo32 (product ! 4)) +
    18446744073709551616 * int (hi32 (product ! 4)) +
    79228162514264337593543950336 * int (lo32 (product ! 5)) +
    340282366920938463463374607431768211457 * int (hi32 (product ! 5)) +
    1461501637330902918203684832716283019660227510272 * int (lo32 (product ! 6)) +
    6277101735386680763835789423207666416120802188537744064512 * int (hi32 (product ! 6)))"
    using l unfolding vn_p_secp224r1 V r0 ts
    by (simp add: vn_words lessThan_nat_numeral lessThan_Suc word_halves
      halves [of "product ! 3"] halves [of "product ! 4"] halves [of "product ! 5"] halves [of "product ! 6"])
  then have m: "int (vn 7 product) mod int (vn 4 ?p) = cval 4 k r4 mod int (vn 4 ?p)" by simp
  have p: "4 \<le> length ?p" "0 < vn 4 ?p" by (simp add: length_p_secp224r1, subst vn_p_secp224r1, simp)
  have w: "int (vn 4 (vli_mmod_fast_secp224r1 result product)) = cval 4 k r4 mod int (vn 4 ?p)
      \<and> length (vli_mmod_fast_secp224r1 result product) = length r4 \<and> drop 4 (vli_mmod_fast_secp224r1 result product) = drop 4 r4"
  proof (cases "k < 0")
    case True
    then show ?thesis unfolding e using add_while_negative_correct [OF p l4 True] by simp
  next
    case False
    then have "k = 0"
      using of_nat_0_le_iff [of "unat c3", where 'a = int] of_nat_0_le_iff [of "unat c4", where 'a = int] unfolding k_def by linarith
    then show ?thesis unfolding e using sub_while_plain_correct [OF p l4] by (simp add: cval_def of_nat_mod)
  qed
  show "vn 4 (vli_mmod_fast_secp224r1 result product) = vn 7 product mod vn 4 ?p"
    using trans [OF w [THEN conjunct1] m [symmetric]] by (simp only: of_nat_mod [symmetric] of_nat_eq_iff)
  show "length (vli_mmod_fast_secp224r1 result product) = length result"
    "drop 4 (vli_mmod_fast_secp224r1 result product) = drop 4 result"
    using w v3 v4 l2 by simp_all
qed

end
