(* ===== verification/Uecc_Fast_160.thy ===== *)
theory Uecc_Fast_160
  imports Uecc_Fast
begin

text \<open>
  The fast reduction for secp160r1 (\<^verbatim>\<open>vli_mmod_fast_secp160r1\<close>, the 64-bit variant). The order \<open>2 ^ 160 - 2 ^ 31 - 1\<close> ends inside the
  third word, so the high part of the product is read across word boundaries. The final loop leaves the order itself unreduced.
\<close>

definition omega_mult_secp160r1 :: "u64 list \<Rightarrow> u64 list \<Rightarrow> u64 list" where
  "omega_mult_secp160r1 result right =
     (let (carry, result) = for_range 0 3 (\<lambda>i (carry :: u32, result).
            let tmp = drop_bit 32 (right ! i) OR push_bit 32 (right ! (i + 1));
                result = result[i := push_bit 31 tmp + tmp + ucast carry];
                carry = ucast (drop_bit 33 tmp + of_bool (result ! i < tmp \<or> (carry \<noteq> 0 \<and> result ! i = tmp)))
            in (carry, result)) (0, result)
      in result[3 := ucast carry])"

definition vli_mmod_fast_secp160r1 :: "u64 list \<Rightarrow> u64 list \<Rightarrow> u64 list" where
  "vli_mmod_fast_secp160r1 result product =
     (let p = curve_p curve_secp160r1;
          tmp = uECC_vli_clear (replicate 6 0) 3;
          tmp = at_off 3 (\<lambda>tmp. uECC_vli_clear tmp 3) tmp;
          tmp = omega_mult_secp160r1 tmp (drop 2 product);
          product = product[2 := product ! 2 AND 0xffffffff];
          copy = tmp ! 2;
          tmp = tmp[2 := tmp ! 2 AND 0xffffffff];
          (_, result) = uECC_vli_add result product tmp 3;
          product = uECC_vli_clear product 3;
          tmp = tmp[2 := copy];
          product = omega_mult_secp160r1 product (drop 2 tmp);
          (_, result) = uECC_vli_add result result product 3
      in while (\<lambda>result. uECC_vli_cmp_unsafe result p 3 > 0) (\<lambda>result. snd (uECC_vli_sub result result p 3)) result)"

text \<open>One digit times \<open>2 ^ 31 + 1\<close>, with the carry in and out.\<close>

lemma omega160_digit:
  fixes t :: u64 and c :: u32
  assumes "unat c \<le> 2 ^ 31"
  defines "r \<equiv> push_bit 31 t + t + ucast c"
  defines "c' \<equiv> ucast (drop_bit 33 t + of_bool (r < t \<or> (c \<noteq> 0 \<and> r = t))) :: u32"
  shows "unat r + 2 ^ 64 * unat c' = unat t * (2 ^ 31 + 1) + unat c" "unat c' \<le> 2 ^ 31"
proof -
  define a where "a = unat t mod 2 ^ 33"
  define h where "h = unat t div 2 ^ 33"
  have t: "unat t = a + 2 ^ 33 * h" "a < 2 ^ 33" "h < 2 ^ 31"
    using unat_lt_word [of t] by (simp_all add: a_def h_def div_less_iff_less_mult)
  have lt: "a + 2 ^ 33 * h < 2 ^ 64" using t by simp
  have p: "unat (push_bit 31 t :: u64) = 2 ^ 31 * a"
  proof -
    have "unat (push_bit 31 t :: u64) = 2 ^ 31 * unat t mod (2 ^ 31 * 2 ^ 33)" by (simp add: unat_push_bit mult.commute)
    then show ?thesis by (simp only: a_def mult_mod_right)
  qed
  have c: "unat (ucast c :: u64) = unat c" by (simp add: unat_ucast_up)
  let ?s = "2 ^ 31 * a + unat t + unat c"
  have r: "unat r = ?s mod 2 ^ 64" unfolding r_def by (simp add: unat_word_ariths p c mod_simps)
  have b: "2 ^ 31 * a + unat c \<le> 2 ^ 64" using t(2) assms(1) by simp
  define o' where "o' = (of_bool (r < t \<or> (c \<noteq> 0 \<and> r = t)) :: nat)"
  have cz: "c \<noteq> 0 \<longleftrightarrow> unat c \<noteq> 0" by (simp add: unat_eq_zero)
  have o': "?s = unat r + 2 ^ 64 * o'"
  proof (cases "?s < 2 ^ 64")
    case True
    then have ru: "unat r = ?s" using r by simp
    then have "\<not> r < t" by (simp add: word_less_nat_alt)
    moreover have "\<not> (c \<noteq> 0 \<and> r = t)" using ru unfolding cz word_unat_eq_iff by auto
    ultimately show ?thesis using ru by (simp add: o'_def)
  next
    case False
    have s2: "?s < 2 * 2 ^ 64" using b lt t(1) by linarith
    have ru: "unat r + 2 ^ 64 = ?s" using False s2 unfolding r by (simp add: le_mod_geq)
    then have "unat r \<le> unat t" using b by linarith
    moreover have "c \<noteq> 0" if "unat r = unat t"
    proof -
      have "2 ^ 31 * a + unat c = 2 ^ 64" using ru that by linarith
      then show ?thesis using t(2) unfolding cz by (intro notI) simp
    qed
    ultimately have "r < t \<or> (c \<noteq> 0 \<and> r = t)" unfolding word_less_nat_alt word_unat_eq_iff by linarith
    then show ?thesis using ru by (simp add: o'_def)
  qed
  have hc: "unat (drop_bit 33 t :: u64) = h" by (simp add: unat_drop_bit h_def)
  have o1: "o' \<le> 1" by (simp add: o'_def)
  have "unat (drop_bit 33 t + of_bool (r < t \<or> (c \<noteq> 0 \<and> r = t)) :: u64) = h + o'"
    using t(3) hc by (subst unat_add_small) (auto simp: o'_def)
  then have c': "unat c' = h + o'" using t(3) o1 by (simp add: c'_def unat_ucast_down)
  show "unat r + 2 ^ 64 * unat c' = unat t * (2 ^ 31 + 1) + unat c"
    unfolding c' using o' t(1) by simp
  show "unat c' \<le> 2 ^ 31" unfolding c' using t(3) o1 by simp
qed

lemma omega_mult_secp160r1_correct:
  assumes l: "4 \<le> length right" "4 \<le> length result"
  shows "vn 4 (omega_mult_secp160r1 result right) = (2 ^ 31 + 1) * (vn 4 right div 2 ^ 32 mod 2 ^ 192)"
    "length (omega_mult_secp160r1 result right) = length result"
    "drop 4 (omega_mult_secp160r1 result right) = drop 4 result"
proof -
  define t where "t i = (drop_bit 32 (right ! i) OR push_bit 32 (right ! (i + 1)) :: u64)" for i
  define body where "body = (\<lambda>i (carry :: u32, result).
            let tmp = drop_bit 32 (right ! i) OR push_bit 32 (right ! (i + 1));
                result = result[i := push_bit 31 tmp + tmp + ucast carry];
                carry = (ucast (drop_bit 33 tmp + of_bool (result ! i < tmp \<or> (carry \<noteq> 0 \<and> result ! i = tmp))) :: u32)
            in (carry, result))"
  define P where "P = (\<lambda>i (c :: u32, r). vn i r + 2 ^ (64 * i) * unat c = (2 ^ 31 + 1) * (\<Sum>j<i. unat (t j) * 2 ^ (64 * j))
    \<and> unat c \<le> 2 ^ 31 \<and> length r = length result \<and> drop 4 r = drop 4 result)"
  have "P 3 (for_range 0 3 body (0, result))"
  proof (rule for_range_invariant)
    show "P 0 (0, result)" by (simp add: P_def)
    fix i and s :: "u32 \<times> u64 list"
    assume i: "0 \<le> i" "i < 3" and P: "P i s"
    obtain c r where s: "s = (c, r)" by (cases s)
    have I: "vn i r + 2 ^ (64 * i) * unat c = (2 ^ 31 + 1) * (\<Sum>j<i. unat (t j) * 2 ^ (64 * j))" "unat c \<le> 2 ^ 31"
      "length r = length result" "drop 4 r = drop 4 result"
      using P by (simp_all add: P_def s)
    define w where "w = push_bit 31 (t i) + t i + ucast c"
    define c' where "c' = (ucast (drop_bit 33 (t i) + of_bool (w < t i \<or> (c \<noteq> 0 \<and> w = t i))) :: u32)"
    have d: "unat w + 2 ^ 64 * unat c' = unat (t i) * (2 ^ 31 + 1) + unat c" "unat c' \<le> 2 ^ 31"
      using omega160_digit [OF I(2), of "t i"] by (simp_all add: w_def c'_def)
    have "i < length r" using I(3) i l(2) by simp
    then have b: "body i s = (c', r[i := w])"
      unfolding s body_def prod.case t_def [symmetric] Let_def w_def [symmetric] by (simp add: c'_def)
    have "vn (Suc i) (r[i := w]) + 2 ^ (64 * Suc i) * unat c' = vn i r + 2 ^ (64 * i) * (unat w + 2 ^ 64 * unat c')"
      using \<open>i < length r\<close> by (simp add: vn_Suc power_add algebra_simps)
    also have "\<dots> = (2 ^ 31 + 1) * (\<Sum>j<Suc i. unat (t j) * 2 ^ (64 * j))"
      unfolding d(1) distrib_left add.assoc [symmetric]
      using I(1) by (simp add: algebra_simps)
    finally show "P (Suc i) (body i s)" unfolding b using d(2) I(3,4) i by (simp add: P_def)
  qed simp
  moreover obtain c r where r: "for_range 0 3 body (0, result) = (c, r)" by fastforce
  ultimately have I: "vn 3 r + 2 ^ (64 * 3) * unat c = (2 ^ 31 + 1) * (\<Sum>j<3. unat (t j) * 2 ^ (64 * j))"
    "length r = length result" "drop 4 r = drop 4 result" by (simp_all add: P_def)
  have e: "omega_mult_secp160r1 result right = r[3 := ucast c]"
    using r by (simp add: omega_mult_secp160r1_def body_def)
  have tv: "unat (t i) = hi32 (right ! i) + 2 ^ 32 * lo32 (right ! (i + 1))" for i
    unfolding t_def by (rule word_halves)
  have "(\<Sum>j<3. unat (t j) * 2 ^ (64 * j)) = vn 4 right div 2 ^ 32 mod 2 ^ 192"
  proof -
    have "vn 4 right = lo32 (right ! 0) + 2 ^ 32 * ((\<Sum>j<3. unat (t j) * 2 ^ (64 * j)) + 2 ^ 192 * hi32 (right ! 3))"
      unfolding vn_words(4) [OF l(1)]
      using tv [of 0] tv [of 1] tv [of 2] halves [of "right ! 0"] halves [of "right ! 1"] halves [of "right ! 2"] halves [of "right ! 3"]
      by (simp add: lessThan_nat_numeral lessThan_Suc flip: numeral_2_eq_2)
    then have "vn 4 right div 2 ^ 32 = (\<Sum>j<3. unat (t j) * 2 ^ (64 * j)) + 2 ^ 192 * hi32 (right ! 3)"
      using halves_lt(1) [of "right ! 0"] by simp
    moreover have "(\<Sum>j<3. unat (t j) * 2 ^ (64 * j)) < 2 ^ 192"
      using unat_lt_word [of "t 0"] unat_lt_word [of "t 1"] unat_lt_word [of "t 2"]
      by (simp add: lessThan_nat_numeral lessThan_Suc)
    ultimately show ?thesis by simp
  qed
  then show "vn 4 (omega_mult_secp160r1 result right) = (2 ^ 31 + 1) * (vn 4 right div 2 ^ 32 mod 2 ^ 192)"
    using I(1,2) l(2) vn_Suc [of 3 "r[3 := ucast c]"] by (simp add: e unat_ucast_up)
  show "length (omega_mult_secp160r1 result right) = length result"
    "drop 4 (omega_mult_secp160r1 result right) = drop 4 result"
    using I(2,3) by (simp_all add: e)
qed


text \<open>The final loop stops at the order, so a positive multiple of it becomes the order itself.\<close>

definition residue_up_to :: "nat \<Rightarrow> nat \<Rightarrow> nat" where
  "residue_up_to p v = (if 0 < v \<and> v mod p = 0 then p else v mod p)"

lemma sub_while_greater_correct:
  assumes p: "n \<le> length p" "0 < vn n p" and r: "n \<le> length result"
  defines "w \<equiv> while (\<lambda>result. uECC_vli_cmp_unsafe result p n > 0) (\<lambda>result. snd (uECC_vli_sub result result p n)) result"
  shows "vn n w = residue_up_to (vn n p) (vn n result)" "length w = length result" "drop n w = drop n result"
proof -
  let ?P = "\<lambda>r. residue_up_to (vn n p) (vn n r) = residue_up_to (vn n p) (vn n result) \<and> length r = length result \<and> drop n r = drop n result"
  have test: "uECC_vli_cmp_unsafe s p n > 0 \<longleftrightarrow> vn n p < vn n s" if "?P s" for s
    using vli_cmp_unsafe_eq [of n s p] p(1) r that by auto
  have step: "?P (snd (uECC_vli_sub s s p n)) \<and> vn n (snd (uECC_vli_sub s s p n)) = vn n s - vn n p" if "?P s" "vn n p < vn n s" for s
  proof -
    obtain b s' where a: "uECC_vli_sub s s p n = (b, s')" by fastforce
    have "n \<le> length s" using that(1) r by simp
    note sub = vli_sub_correct [OF this this p(1) a] vli_sub_borrow [OF this this p(1) a]
    have "residue_up_to (vn n p) (vn n s - vn n p) = residue_up_to (vn n p) (vn n s)"
      using that(2) by (simp add: residue_up_to_def le_mod_geq)
    then show ?thesis using that sub by (simp add: a)
  qed
  have "?P w \<and> \<not> uECC_vli_cmp_unsafe w p n > 0"
    unfolding w_def
  proof (rule while_rule [where P = ?P and r = "measure (vn n)"])
    show "?P (snd (uECC_vli_sub s s p n))" if "?P s" "uECC_vli_cmp_unsafe s p n > 0" for s
      using step [of s] that test by blast
    show "(snd (uECC_vli_sub s s p n), s) \<in> measure (vn n)" if "?P s" "uECC_vli_cmp_unsafe s p n > 0" for s
      using step [of s] that test [of s] p(2) by simp
  qed auto
  moreover have "vn n w = residue_up_to (vn n p) (vn n w)" if "vn n w \<le> vn n p"
    using that p(2) by (auto simp: residue_up_to_def mod_if)
  ultimately show "vn n w = residue_up_to (vn n p) (vn n result)" "length w = length result" "drop n w = drop n result"
    using test [of w] by auto
qed

lemma trim_160:
  assumes "3 \<le> length x"
  shows "vn 3 (x[2 := x ! 2 AND 0xffffffff]) = vn 3 x mod 2 ^ 160"
proof -
  have "vn 3 x = vn 2 x + 2 ^ 128 * (lo32 (x ! 2) + 2 ^ 32 * hi32 (x ! 2))"
    using vn_Suc [of 2 x] assms halves [of "x ! 2"] by simp
  then have "vn 3 x = vn 2 x + 2 ^ 128 * lo32 (x ! 2) + 2 ^ 160 * hi32 (x ! 2)" by simp
  moreover have "vn 2 x + 2 ^ 128 * lo32 (x ! 2) < 2 ^ 160"
    using vn_lt [of 2 x] halves_lt(1) [of "x ! 2"] by simp
  moreover have "vn 3 (x[2 := x ! 2 AND 0xffffffff]) = vn 2 x + 2 ^ 128 * lo32 (x ! 2)"
    using vn_Suc [of 2 "x[2 := x ! 2 AND 0xffffffff]"] assms by (simp add: word_halves)
  ultimately show ?thesis by simp
qed

lemma vn_drop: "a \<le> length x \<Longrightarrow> vn b (drop a x) = vn (a + b) x div 2 ^ (64 * a)"
  using vn_add [of a x b] vn_lt [of a x] by simp

lemma vn_prefix: "a \<le> b \<Longrightarrow> b \<le> length x \<Longrightarrow> vn a x = vn b x mod 2 ^ (64 * a)"
  using vn_add [of a x "b - a"] vn_lt [of a x] by simp

lemma add_three:
  assumes "3 \<le> length r" "3 \<le> length a" "3 \<le> length b" "uECC_vli_add r a b 3 = (c, r')" "vn 3 a + vn 3 b < 2 ^ 192"
  shows "vn 3 r' = vn 3 a + vn 3 b" "length r' = length r" "drop 3 r' = drop 3 r"
proof -
  note add = vli_add_correct [OF assms(1-4)]
  have "unat c = 0" using add(1) assms(5) by simp
  then show "vn 3 r' = vn 3 a + vn 3 b" using add(1) by simp
qed (use vli_add_correct [OF assms(1-4)] in simp_all)

lemma mmod_fast_secp160r1_correct:
  assumes l: "3 \<le> length result" "6 \<le> length product" and lt: "vn 6 product < 2 ^ 320"
  shows "vn 3 (vli_mmod_fast_secp160r1 result product) mod vn 3 (curve_p curve_secp160r1) = vn 6 product mod vn 3 (curve_p curve_secp160r1)"
    "vn 3 (vli_mmod_fast_secp160r1 result product) \<le> vn 3 (curve_p curve_secp160r1)"
    "length (vli_mmod_fast_secp160r1 result product) = length result"
    "drop 3 (vli_mmod_fast_secp160r1 result product) = drop 3 result"
proof -
  let ?p = "curve_p curve_secp160r1"
  define P where "P = vn 6 product"
  define h where "h = (2 ^ 31 + 1) * (P div 2 ^ 160)"
  have H: "P div 2 ^ 160 < 2 ^ 160" using lt by (simp add: P_def div_less_iff_less_mult)
  have h: "h < 2 ^ 192" using H by (simp add: h_def)
  have R: "h div 2 ^ 160 < 2 ^ 32" using h by (simp add: div_less_iff_less_mult)
  define tmp0 where "tmp0 = at_off 3 (\<lambda>tmp. uECC_vli_clear tmp 3) (uECC_vli_clear (replicate 6 0) 3)"
  define tmp where "tmp = omega_mult_secp160r1 tmp0 (drop 2 product)"
  have tmp0: "length tmp0 = 6" "drop 4 tmp0 = replicate 2 0"
    by (simp_all add: tmp0_def at_off_def vli_clear_eq)
  have "vn 4 (drop 2 product) div 2 ^ 32 = P div 2 ^ 160"
    using vn_drop [of 2 product 4] l(2) by (simp add: P_def flip: div_mult2_eq)
  moreover have "4 \<le> length (drop 2 product)" "4 \<le> length tmp0" using l(2) tmp0 by simp_all
  note om = omega_mult_secp160r1_correct [OF this, folded tmp_def]
  ultimately have t4: "vn 4 tmp = h" using H by (simp add: h_def)
  have lt': "length tmp = 6" using om(2) tmp0(1) by simp
  have t3: "vn 3 tmp = h" using vn_prefix [of 3 4 tmp] t4 lt' h by simp
  have t6: "vn 6 tmp = h" using vn_add [of 4 tmp 2] om(3) tmp0(2) t4 lt' vn_zero [of 2 2] by simp
  define product1 where "product1 = product[2 := product ! 2 AND 0xffffffff]"
  define tmp1 where "tmp1 = tmp[2 := tmp ! 2 AND 0xffffffff]"
  have L: "vn 3 product1 = P mod 2 ^ 160" "vn 3 tmp1 = h mod 2 ^ 160"
    using trim_160 [of product] trim_160 [of tmp] l(2) lt' t3 vn_prefix [of 3 6 product]
    by (simp_all add: product1_def tmp1_def P_def mod_mod_cancel le_imp_power_dvd)
  obtain c1 r1 where a1: "uECC_vli_add result product1 tmp1 3 = (c1, r1)" by fastforce
  have "3 \<le> length product1" "3 \<le> length tmp1" using l(2) lt' by (simp_all add: product1_def tmp1_def)
  moreover have "vn 3 product1 + vn 3 tmp1 < 2 ^ 192"
  proof -
    have "P mod 2 ^ 160 < 2 ^ 160" "h mod 2 ^ 160 < 2 ^ 160" by simp_all
    then have "P mod 2 ^ 160 + h mod 2 ^ 160 < 2 ^ 160 + 2 ^ 160" by (rule add_strict_mono)
    then show ?thesis unfolding L by (rule less_trans) simp
  qed
  ultimately have v1: "vn 3 r1 = P mod 2 ^ 160 + h mod 2 ^ 160" "length r1 = length result" "drop 3 r1 = drop 3 result"
    using add_three [OF l(1) _ _ a1] L by simp_all
  define tmp2 where "tmp2 = tmp1[2 := tmp ! 2]"
  have tmp2: "tmp2 = tmp" by (simp add: tmp2_def tmp1_def)
  define product2 where "product2 = omega_mult_secp160r1 (uECC_vli_clear product1 3) (drop 2 tmp2)"
  have "vn 4 (drop 2 tmp2) div 2 ^ 32 = h div 2 ^ 160"
    using vn_drop [of 2 tmp 4] lt' t6 by (simp add: tmp2 flip: div_mult2_eq)
  moreover have "4 \<le> length (drop 2 tmp2)" "4 \<le> length (uECC_vli_clear product1 3)" using l(2) lt' by (simp_all add: tmp2 product1_def)
  note om2 = omega_mult_secp160r1_correct [OF this, folded product2_def]
  ultimately have p4: "vn 4 product2 = (2 ^ 31 + 1) * (h div 2 ^ 160)" using R by simp
  have lp: "6 \<le> length product2" using om2(2) l(2) by (simp add: product1_def)
  have p3: "vn 3 product2 = (2 ^ 31 + 1) * (h div 2 ^ 160)" using vn_prefix [of 3 4 product2] p4 lp R by simp
  obtain c2 r2 where a2: "uECC_vli_add r1 r1 product2 3 = (c2, r2)" by fastforce
  define T where "T = P mod 2 ^ 160 + h mod 2 ^ 160 + (2 ^ 31 + 1) * (h div 2 ^ 160)"
  have T: "T < 2 ^ 192"
  proof -
    have "P mod 2 ^ 160 < 2 ^ 160" "h mod 2 ^ 160 < 2 ^ 160" by simp_all
    then have "P mod 2 ^ 160 + h mod 2 ^ 160 < 2 ^ 160 + 2 ^ 160" by (rule add_strict_mono)
    moreover have "(2 ^ 31 + 1) * (h div 2 ^ 160) \<le> (2 ^ 31 + 1) * 2 ^ 32" using R by (intro mult_le_mono2) simp
    ultimately have "T < 2 ^ 160 + 2 ^ 160 + (2 ^ 31 + 1) * 2 ^ 32" unfolding T_def by (rule add_less_le_mono)
    then show ?thesis by (rule less_trans) simp
  qed
  have "vn 3 r2 = T \<and> length r2 = length result \<and> drop 3 r2 = drop 3 result"
    using add_three [OF _ _ _ a2] v1 lp l(1) p3 T by (simp add: T_def)
  then have v2: "vn 3 r2 = T" "length r2 = length result" "drop 3 r2 = drop 3 result" by simp_all
  have l2: "3 \<le> length r2" using v2(2) l(1) by simp
  define m where "m = (2 :: nat) ^ 160 - 2 ^ 31 - 1"
  have m: "(2 :: nat) ^ 160 = m + (2 ^ 31 + 1)" by (simp add: m_def)
  have C: "P mod m = T mod m"
  proof -
    have "P = P mod 2 ^ 160 + h + m * (P div 2 ^ 160)"
      using mod_mult_div_eq [of P "2 ^ 160"] unfolding h_def m distrib_right distrib_left by linarith
    moreover have "h = h mod 2 ^ 160 + (2 ^ 31 + 1) * (h div 2 ^ 160) + m * (h div 2 ^ 160)"
      using mod_mult_div_eq [of h "2 ^ 160"] unfolding m distrib_right distrib_left by linarith
    ultimately have "P = T + m * (h div 2 ^ 160 + P div 2 ^ 160)" unfolding T_def distrib_left by linarith
    then show ?thesis by (metis mod_mult_self2)
  qed
  have p: "3 \<le> length ?p" "vn 3 ?p = m" unfolding vn_p_secp160r1 by (simp_all add: length_p_secp160r1 m_def)
  have m0: "0 < vn 3 ?p" unfolding p(2) by (simp add: m_def)
  have e: "vli_mmod_fast_secp160r1 result product =
      while (\<lambda>result. uECC_vli_cmp_unsafe result ?p 3 > 0) (\<lambda>result. snd (uECC_vli_sub result result ?p 3)) r2"
    unfolding vli_mmod_fast_secp160r1_def Let_def tmp0_def [symmetric] tmp_def [symmetric] product1_def [symmetric]
      tmp1_def [symmetric] a1 prod.case tmp2_def [symmetric] product2_def [symmetric] a2 ..
  note w = sub_while_greater_correct [OF p(1) m0 l2]
  show "vn 3 (vli_mmod_fast_secp160r1 result product) mod vn 3 ?p = vn 6 product mod vn 3 ?p"
    unfolding e w(1) v2(1) p(2) P_def [symmetric] C by (simp add: residue_up_to_def)
  show "vn 3 (vli_mmod_fast_secp160r1 result product) \<le> vn 3 ?p"
    unfolding e w(1) p(2) using m0 p(2) by (simp add: residue_up_to_def less_imp_le)
  show "length (vli_mmod_fast_secp160r1 result product) = length result"
    "drop 3 (vli_mmod_fast_secp160r1 result product) = drop 3 result"
    unfolding e w(2,3) using v2(2,3) by simp_all
qed

end
