(* ===== verification/Uecc_Fast_k1.thy ===== *)
theory Uecc_Fast_k1
  imports Uecc_Fast
begin

text \<open>
  The fast reduction for secp256k1 (\<^verbatim>\<open>vli_mmod_fast_secp256k1\<close>). With the order \<open>p = 2 ^ 256 - c\<close> the code folds the high half
  of the product twice, multiplying by \<open>c\<close>, and then subtracts \<open>p\<close> once for each carry. The sum of the folds is
  \<open>k1_fold\<close>. Outside a window of \<open>c\<close> values just below \<open>2 ^ 257\<close> the result is right, up to \<open>p\<close> itself, which the code leaves
  unreduced; inside the window one subtraction does not wrap, the carry is lost and the result is off by \<open>c\<close>.
\<close>

definition k1_c :: nat where
  "k1_c = 2 ^ 32 + 977"

definition k1_fold :: "u64 list \<Rightarrow> nat" where
  "k1_fold product = (let h = k1_c * vn 4 (drop 4 product) in vn 4 product + h mod 2 ^ 256 + k1_c * (h div 2 ^ 256))"

lemma omega_mult_secp256k1_correct:
  assumes l: "4 \<le> length right" "5 \<le> length result"
  shows "vn 5 (omega_mult_secp256k1 result right) = k1_c * vn 4 right"
    "length (omega_mult_secp256k1 result right) = length result"
    "drop 5 (omega_mult_secp256k1 result right) = drop 5 result"
proof -
  define S where "S = (\<lambda>k. unat (0x1000003D1 :: u64) * unat (right ! k))"
  define inner where "inner = (\<lambda>k. muladd 0x1000003D1 (right ! k))"
  define loop where "loop = (\<lambda>k (r, result). let (r0, r1, r2) = inner k r in ((r1, r2, 0 :: u64), result[k := r0 :: u64]))"
  have S: "S k \<le> 1 * 2 ^ 128" for k
    using mult_le_mono [of "unat (0x1000003D1 :: u64)" "2 ^ 64" "unat (right ! k)" "2 ^ 64"] unat_lt_word [of "right ! k"]
    by (simp add: S_def)
  have "columns 1 S 5 result 0 ((0, 0, 0), result)" by (simp add: columns_def acc_def)
  then have c: "columns 1 S 5 result 4 (for_range 0 4 loop ((0, 0, 0), result))"
    unfolding loop_def using l S by (intro columns_loop) (simp_all add: inner_def S_def muladd_acc)
  obtain r0 r1 r2 res where r: "for_range 0 4 loop ((0, 0, 0), result) = ((r0, r1, r2), res)" by (metis surj_pair)
  have e: "omega_mult_secp256k1 result right = res[4 := r0]"
    using r by (simp add: omega_mult_secp256k1_def loop_def inner_def)
  have I: "vn 4 res + 2 ^ (64 * 4) * acc (r0, r1, r2) = (\<Sum>j<4. S j * 2 ^ (64 * j))" "length res = length result"
    "drop 5 res = drop 5 result"
    using c unfolding r columns_def prod.case by blast+
  have sum: "(\<Sum>j<4. S j * 2 ^ (64 * j)) = k1_c * vn 4 right"
    unfolding vn_sum [OF l(1)] sum_distrib_left by (rule sum.cong) (simp_all add: S_def k1_c_def)
  have "acc (r0, r1, r2) < 2 ^ 64"
  proof -
    have "2 ^ 256 * acc (r0, r1, r2) \<le> k1_c * vn 4 right" using I(1) sum by simp
    also have "\<dots> < 2 ^ 256 * 2 ^ 64" using vn_lt [of 4 right] by (simp add: k1_c_def)
    finally show ?thesis by simp
  qed
  then have "unat r1 = 0 \<and> unat r2 = 0" by (simp add: acc_def)
  then have a: "acc (r0, r1, r2) = unat r0" by (simp add: acc_def)
  have "vn (Suc 4) (res[4 := r0]) = vn 4 res + 2 ^ (64 * 4) * unat r0"
    using I(2) l(2) by (subst vn_Suc) simp_all
  then show "vn 5 (omega_mult_secp256k1 result right) = k1_c * vn 4 right"
    using I(1) sum a unfolding e by simp
  show "length (omega_mult_secp256k1 result right) = length result"
    "drop 5 (omega_mult_secp256k1 result right) = drop 5 result"
    unfolding e using I(2,3) by simp_all
qed

text \<open>Subtracting the order with the borrow dropped adds \<open>c\<close> modulo \<open>2 ^ 256\<close>.\<close>

lemma sub_p_wraps:
  assumes "4 \<le> length r"
  defines "r' \<equiv> snd (uECC_vli_sub r r (curve_p curve_secp256k1) 4)"
  shows "vn 4 r' = (vn 4 r + k1_c) mod 2 ^ 256" "length r' = length r" "drop 4 r' = drop 4 r"
proof -
  obtain b s where a: "uECC_vli_sub r r (curve_p curve_secp256k1) 4 = (b, s)" by fastforce
  have "4 \<le> length (curve_p curve_secp256k1)" by (simp add: length_p_secp256k1)
  note sub = vli_sub_correct [OF assms(1,1) this a]
  have e: "r' = s" by (simp add: r'_def a)
  have p: "vn 4 (curve_p curve_secp256k1) + k1_c = 2 ^ 256" unfolding vn_p_secp256k1 by (simp add: k1_c_def)
  have "(vn 4 r + k1_c) mod 2 ^ 256 = (vn 4 r + 2 ^ (64 * 4) * unat b + k1_c) mod 2 ^ 256"
    using mod_mult_self2 [of "vn 4 r + k1_c" "2 ^ 256" "unat b"] by (simp add: ac_simps)
  also have "\<dots> = (vn 4 s + 2 ^ 256) mod 2 ^ 256" unfolding sub(1) [symmetric] add.assoc p ..
  also have "\<dots> = vn 4 s" using vn_lt [of 4 s] by simp
  finally show "vn 4 r' = (vn 4 r + k1_c) mod 2 ^ 256" by (simp add: e)
  show "length r' = length r" "drop 4 r' = drop 4 r" using sub(3,4) by (simp_all add: e)
qed

lemma sub_p_repeated:
  fixes k :: nat
  assumes "4 \<le> length r"
  defines "r' \<equiv> for_range 0 k (\<lambda>_ r. snd (uECC_vli_sub r r (curve_p curve_secp256k1) 4)) r"
  shows "vn 4 r' = (vn 4 r + k * k1_c) mod 2 ^ 256 \<and> length r' = length r \<and> drop 4 r' = drop 4 r"
  unfolding r'_def
proof (induction k)
  case 0
  then show ?case using vn_lt [of 4 r] by simp
next
  case (Suc k)
  let ?r = "for_range 0 k (\<lambda>_ r. snd (uECC_vli_sub r r (curve_p curve_secp256k1) 4)) r"
  have "4 \<le> length ?r" using Suc assms(1) by simp
  then show ?case using Suc sub_p_wraps [of ?r] by (simp add: for_range_last mod_simps ac_simps)
qed

text \<open>The result in every case: the fold with the carries subtracted, reduced once more when it exceeds the order.\<close>

lemma mmod_fast_secp256k1_value:
  assumes l: "4 \<le> length result" "8 \<le> length product"
  defines "w \<equiv> (k1_fold product mod 2 ^ 256 + (k1_fold product div 2 ^ 256) * k1_c) mod 2 ^ 256"
  shows "vn 4 (vli_mmod_fast_secp256k1 result product) = (if w > 2 ^ 256 - k1_c then w - (2 ^ 256 - k1_c) else w)"
    "length (vli_mmod_fast_secp256k1 result product) = length result"
    "drop 4 (vli_mmod_fast_secp256k1 result product) = drop 4 result"
proof -
  let ?p = "curve_p curve_secp256k1"
  define h where "h = k1_c * vn 4 (drop 4 product)"
  define tmp0 where "tmp0 = at_off 4 (\<lambda>tmp. uECC_vli_clear tmp 4) (uECC_vli_clear (replicate 8 0) 4)"
  define tmp where "tmp = omega_mult_secp256k1 tmp0 (drop 4 product)"
  have tmp0: "length tmp0 = 8" "drop 5 tmp0 = replicate 3 0"
    by (simp_all add: tmp0_def at_off_def vli_clear_eq)
  have "4 \<le> length (drop 4 product)" "5 \<le> length tmp0" using l(2) tmp0 by simp_all
  note om = omega_mult_secp256k1_correct [OF this, folded tmp_def h_def]
  have lt: "length tmp = 8" using om(2) tmp0(1) by simp
  have "vn (4 + 1) tmp = vn 4 tmp + 2 ^ (64 * 4) * vn 1 (drop 4 tmp)" by (rule vn_add) (simp add: lt)
  then have t: "vn 4 tmp + 2 ^ 256 * vn 1 (drop 4 tmp) = h" using om(1) by simp
  have q: "vn 4 tmp = h mod 2 ^ 256" "vn 1 (drop 4 tmp) = h div 2 ^ 256"
    using vn_lt [of 4 tmp] unfolding t [symmetric] by simp_all
  have "vn (1 + 3) (drop 4 tmp) = vn 1 (drop 4 tmp) + 2 ^ (64 * 1) * vn 3 (drop 1 (drop 4 tmp))"
    by (rule vn_add) (simp add: lt)
  moreover have "drop 1 (drop 4 tmp) = drop 5 tmp" by simp
  ultimately have R: "vn 4 (drop 4 tmp) = h div 2 ^ 256"
    using om(3) tmp0(2) q(2) vn_zero [of 3 3] by simp
  have hs: "h div 2 ^ 256 \<le> k1_c"
  proof -
    have "h \<le> k1_c * 2 ^ 256" unfolding h_def using vn_lt [of 4 "drop 4 product"] by (intro mult_le_mono2) simp
    then have "h div 2 ^ 256 \<le> (k1_c * 2 ^ 256) div 2 ^ 256" by (rule div_le_mono)
    then show ?thesis by simp
  qed
  obtain c1 r1 where a1: "uECC_vli_add result product tmp 4 = (c1, r1)" by fastforce
  have "4 \<le> length product" "4 \<le> length tmp" using l lt by simp_all
  note v1 = vli_add_correct [OF l(1) this a1]
  define prod1 where "prod1 = omega_mult_secp256k1 (uECC_vli_clear product 4) (drop 4 tmp)"
  have "4 \<le> length (drop 4 tmp)" "5 \<le> length (uECC_vli_clear product 4)" using l lt by simp_all
  note om2 = omega_mult_secp256k1_correct [OF this, folded prod1_def]
  have lp: "4 \<le> length prod1" using om2(2) l(2) by simp
  have P: "vn 4 prod1 = k1_c * (h div 2 ^ 256)"
  proof -
    have "vn (4 + 1) prod1 = vn 4 prod1 + 2 ^ (64 * 4) * vn 1 (drop 4 prod1)" using lp by (rule vn_add)
    then have e: "vn 4 prod1 + 2 ^ 256 * vn 1 (drop 4 prod1) = k1_c * (h div 2 ^ 256)" using om2(1) R by simp
    have "k1_c * (h div 2 ^ 256) \<le> k1_c * k1_c" using hs by (rule mult_le_mono2)
    then have "2 ^ 256 * vn 1 (drop 4 prod1) < 2 ^ 256 * 1" using e by (simp add: k1_c_def)
    then have "vn 1 (drop 4 prod1) < 1" by (subst (asm) nat_mult_less_cancel1) simp_all
    then show ?thesis using e by simp
  qed
  have l1: "4 \<le> length r1" using v1(3) l(1) by simp
  obtain c2 r2 where a2: "uECC_vli_add r1 r1 prod1 4 = (c2, r2)" by fastforce
  note v2 = vli_add_correct [OF l1 l1 lp a2]
  have l2: "4 \<le> length r2" using v2(3) l1 by simp
  have c: "unat (c1 + c2) = unat c1 + unat c2" using v1(2) v2(2) by (subst unat_add_small) simp_all
  have F: "k1_fold product = vn 4 r2 + 2 ^ 256 * unat (c1 + c2)"
    using v1(1) v2(1) unfolding k1_fold_def Let_def h_def [symmetric] q(1) [symmetric] P [symmetric] c by simp
  have "vn 4 r2 < 2 ^ 256" using vn_lt [of 4 r2] by simp
  then have F': "k1_fold product mod 2 ^ 256 = vn 4 r2" "k1_fold product div 2 ^ 256 = unat (c1 + c2)"
    unfolding F by simp_all
  define r3 where "r3 = for_range 0 (unat (c1 + c2)) (\<lambda>_ r. snd (uECC_vli_sub r r ?p 4)) r2"
  have r3: "vn 4 r3 = w" "length r3 = length r2" "drop 4 r3 = drop 4 r2"
    using sub_p_repeated [OF l2, of "unat (c1 + c2)"] unfolding w_def F' r3_def by blast+
  have l3: "4 \<le> length r3" using r3(2) l2 by simp
  have lpp: "4 \<le> length ?p" by (simp add: length_p_secp256k1)
  have vp: "vn 4 ?p = 2 ^ 256 - k1_c" unfolding vn_p_secp256k1 by (simp add: k1_c_def)
  have e: "vli_mmod_fast_secp256k1 result product = (if w > 2 ^ 256 - k1_c then snd (uECC_vli_sub r3 r3 ?p 4) else r3)"
  proof -
    have "vli_mmod_fast_secp256k1 result product = (if uECC_vli_cmp_unsafe r3 ?p 4 > 0 then snd (uECC_vli_sub r3 r3 ?p 4) else r3)"
      unfolding vli_mmod_fast_secp256k1_def Let_def tmp0_def [symmetric] tmp_def [symmetric] a1 prod.case
        prod1_def [symmetric] a2 r3_def ..
    also have "uECC_vli_cmp_unsafe r3 ?p 4 > 0 \<longleftrightarrow> w > 2 ^ 256 - k1_c"
      unfolding vli_cmp_unsafe_eq [OF l3 lpp] r3(1) vp by simp
    finally show ?thesis .
  qed
  obtain b s where a3: "uECC_vli_sub r3 r3 ?p 4 = (b, s)" by fastforce
  note v3 = vli_sub_correct [OF l3 l3 lpp a3] vli_sub_borrow [OF l3 l3 lpp a3]
  show "vn 4 (vli_mmod_fast_secp256k1 result product) = (if w > 2 ^ 256 - k1_c then w - (2 ^ 256 - k1_c) else w)"
    unfolding e using v3(6) a3 r3(1) vp by simp
  show "length (vli_mmod_fast_secp256k1 result product) = length result"
    "drop 4 (vli_mmod_fast_secp256k1 result product) = drop 4 result"
    unfolding e using v3(3,4) a3 r3(2,3) v2(3,4) v1(3,4) by simp_all
qed

lemma fold_bound: "e \<le> f \<Longrightarrow> f < 2 ^ 68 \<Longrightarrow> a < 2 ^ 256 \<Longrightarrow> b < 2 ^ 256 \<Longrightarrow> b + a + e < (2 ^ 257 + 2 ^ 68 :: nat)"
  by simp

lemma carry_bound: "r < 2 ^ 256 \<Longrightarrow> t = r + 2 ^ 256 \<Longrightarrow> t < (2 ^ 257 :: nat)"
  by simp

lemma k1_fold_congruent:
  assumes "8 \<le> length product"
  shows "k1_fold product mod (2 ^ 256 - k1_c) = vn 8 product mod (2 ^ 256 - k1_c)"
    "k1_fold product < 2 ^ 257 + 2 ^ 68"
proof -
  define H where "H = vn 4 (drop 4 product)"
  define h where "h = k1_c * H"
  define m where "m = (2 :: nat) ^ 256 - k1_c"
  have X: "(2 :: nat) ^ 256 = m + k1_c" by (simp add: m_def k1_c_def)
  have "vn (4 + 4) product = vn 4 product + 2 ^ (64 * 4) * vn 4 (drop 4 product)" by (rule vn_add) (use assms in simp)
  then have "vn 8 product = vn 4 product + 2 ^ 256 * H" by (simp add: H_def)
  then have P: "vn 8 product = vn 4 product + h + m * H" unfolding X h_def distrib_right by (simp only: ac_simps)
  have "h = h mod 2 ^ 256 + k1_c * (h div 2 ^ 256) + m * (h div 2 ^ 256)"
    using mod_mult_div_eq [of h "2 ^ 256"] unfolding X by (simp add: algebra_simps)
  then have "vn 4 product + h = k1_fold product + m * (h div 2 ^ 256)"
    by (simp add: k1_fold_def Let_def h_def H_def)
  then have "vn 8 product = k1_fold product + m * (h div 2 ^ 256 + H)" using P by (simp add: algebra_simps)
  then show "k1_fold product mod (2 ^ 256 - k1_c) = vn 8 product mod (2 ^ 256 - k1_c)"
    unfolding m_def [symmetric] by simp
  have "h div 2 ^ 256 \<le> k1_c"
  proof -
    have "h \<le> k1_c * 2 ^ 256" unfolding h_def H_def using vn_lt [of 4 "drop 4 product"] by (intro mult_le_mono2) simp
    then have "h div 2 ^ 256 \<le> (k1_c * 2 ^ 256) div 2 ^ 256" by (rule div_le_mono)
    then show ?thesis by simp
  qed
  then have "k1_c * (h div 2 ^ 256) \<le> k1_c * k1_c" by (rule mult_le_mono2)
  moreover have "k1_c * k1_c < 2 ^ 68" by (simp add: k1_c_def)
  moreover have "h mod 2 ^ 256 < 2 ^ 256" by simp
  moreover have "vn 4 product < 2 ^ 256" using vn_lt [of 4 product] by simp
  ultimately show "k1_fold product < 2 ^ 257 + 2 ^ 68"
    unfolding k1_fold_def Let_def H_def [symmetric] h_def [symmetric] by (intro fold_bound)
qed


lemma fold_value:
  fixes w :: nat
  assumes "w + q * m = T" "q < 3" "w < m + m" and "T = m \<Longrightarrow> q = 0" "T = 2 * m \<Longrightarrow> q = 1" "T < 3 * m" and "w mod m = x mod m"
  shows "(if w > m then w - m else w) = (if T \<in> {m, 2 * m} then m else x mod m)"
proof -
  consider "w > m" | "w < m" | "w = m" by linarith
  then show ?thesis
  proof cases
    case 1
    then have "(w - m) mod m = x mod m" "w - m < m" using assms(3,7) by (simp_all add: le_mod_geq)
    moreover have "T \<noteq> m" "T \<noteq> 2 * m" using 1 assms(1,4,5) by auto
    ultimately show ?thesis using 1 by simp
  next
    case 2
    then have "w = x mod m" using assms(7) by simp
    moreover have "T \<noteq> m" "T \<noteq> 2 * m" using 2 assms(1,4,5) by auto
    ultimately show ?thesis using 2 by simp
  next
    case 3
    have "q = 0 \<or> q = 1 \<or> q = 2" using assms(2) by linarith
    then show ?thesis using 3 assms(1,6) by auto
  qed
qed

lemma mmod_fast_secp256k1_outside:
  assumes l: "4 \<le> length result" "8 \<le> length product"
    and fold: "k1_fold product < 2 ^ 257 - k1_c \<or> 2 ^ 257 \<le> k1_fold product"
  shows "vn 4 (vli_mmod_fast_secp256k1 result product) mod vn 4 (curve_p curve_secp256k1) = vn 8 product mod vn 4 (curve_p curve_secp256k1)"
    "vn 4 (vli_mmod_fast_secp256k1 result product) =
       (if k1_fold product \<in> {vn 4 (curve_p curve_secp256k1), 2 * vn 4 (curve_p curve_secp256k1)} then vn 4 (curve_p curve_secp256k1)
        else vn 8 product mod vn 4 (curve_p curve_secp256k1))"
proof -
  define T where "T = k1_fold product"
  define m where "m = (2 :: nat) ^ 256 - k1_c"
  have m: "m + k1_c = 2 ^ 256" "k1_c < 2 ^ 33" by (simp_all add: m_def k1_c_def)
  have p: "vn 4 (curve_p curve_secp256k1) = m" unfolding vn_p_secp256k1 by (simp add: m_def k1_c_def)
  define w where "w = (T mod 2 ^ 256 + (T div 2 ^ 256) * k1_c) mod 2 ^ 256"
  have "T < 2 ^ 257 + 2 ^ 68" using k1_fold_congruent(2) [OF l(2)] by (simp add: T_def)
  then have q: "T div 2 ^ 256 < 3" by (simp add: div_less_iff_less_mult)
  have sum: "w + (T div 2 ^ 256) * m = T"
  proof -
    have d: "T = T mod 2 ^ 256 + (T div 2 ^ 256) * (m + k1_c)" unfolding m(1) by simp
    consider "T div 2 ^ 256 = 0" | "T div 2 ^ 256 = 1" | "T div 2 ^ 256 = 2" using q by linarith
    then have "T mod 2 ^ 256 + (T div 2 ^ 256) * k1_c < 2 ^ 256"
    proof cases
      case 2
      then have "T = T mod 2 ^ 256 + 2 ^ 256" using d m(1) by simp
      moreover from this have "T < 2 ^ 257" by (intro carry_bound [of "T mod 2 ^ 256"]) simp_all
      ultimately show ?thesis using 2 fold m(2) by (simp add: T_def)
    next
      case 3
      then have "T = T mod 2 ^ 256 + 2 * 2 ^ 256" using d m(1) by simp
      then show ?thesis using 3 \<open>T < _\<close> m(2) by simp
    qed simp
    then have "w = T mod 2 ^ 256 + (T div 2 ^ 256) * k1_c" by (simp add: w_def)
    then show ?thesis using d by (simp add: distrib_left)
  qed
  then have c: "w mod m = vn 8 product mod m"
    using k1_fold_congruent(1) [OF l(2), folded T_def m_def] mod_mult_self1 [of w "T div 2 ^ 256" m] by simp
  have lt: "w < 2 ^ 256" by (simp add: w_def)
  have v: "vn 4 (vli_mmod_fast_secp256k1 result product) = (if w > m then w - m else w)"
    by (rule mmod_fast_secp256k1_value(1) [OF l, folded T_def m_def, folded w_def])
  show "vn 4 (vli_mmod_fast_secp256k1 result product) mod vn 4 (curve_p curve_secp256k1) = vn 8 product mod vn 4 (curve_p curve_secp256k1)"
    unfolding p v using c by (auto simp: le_mod_geq)
  have "(if w > m then w - m else w) = (if T \<in> {m, 2 * m} then m else vn 8 product mod m)"
  proof (rule fold_value [OF sum q])
    show "w < m + m" using lt m by simp
    show "T div 2 ^ 256 = 0" if "T = m" using that m by (intro div_nat_eqI) (simp_all add: k1_c_def)
    show "T div 2 ^ 256 = 1" if "T = 2 * m" using that m by (intro div_nat_eqI) (simp_all add: k1_c_def)
    show "T < 3 * m" using \<open>T < _\<close> m by simp
  qed (rule c)
  then show "vn 4 (vli_mmod_fast_secp256k1 result product) =
       (if k1_fold product \<in> {vn 4 (curve_p curve_secp256k1), 2 * vn 4 (curve_p curve_secp256k1)} then vn 4 (curve_p curve_secp256k1)
        else vn 8 product mod vn 4 (curve_p curve_secp256k1))"
    unfolding p v T_def .
qed

lemma mmod_fast_secp256k1_window:
  assumes l: "4 \<le> length result" "8 \<le> length product"
    and fold: "2 ^ 257 - k1_c \<le> k1_fold product" "k1_fold product < 2 ^ 257"
  shows "vn 4 (vli_mmod_fast_secp256k1 result product) = k1_fold product - (2 ^ 257 - k1_c)"
    "vn 4 (vli_mmod_fast_secp256k1 result product) mod vn 4 (curve_p curve_secp256k1) \<noteq> vn 8 product mod vn 4 (curve_p curve_secp256k1)"
    "vn 4 (vli_mmod_fast_secp256k1 result product) + k1_c = vn 8 product mod vn 4 (curve_p curve_secp256k1)"
proof -
  define T where "T = k1_fold product"
  define m where "m = (2 :: nat) ^ 256 - k1_c"
  have m: "m + k1_c = 2 ^ 256" "k1_c < 2 ^ 33" by (simp_all add: m_def k1_c_def)
  have p: "vn 4 (curve_p curve_secp256k1) = m" unfolding vn_p_secp256k1 by (simp add: m_def k1_c_def)
  define d where "d = T - (2 ^ 257 - k1_c)"
  have d: "T = d + m + 2 ^ 256" "d < k1_c" using fold m by (simp_all add: d_def T_def)
  have q: "T div 2 ^ 256 = 1" "T mod 2 ^ 256 = d + m"
    using d m by (simp_all add: div_nat_eqI)
  have "(T mod 2 ^ 256 + (T div 2 ^ 256) * k1_c) mod 2 ^ 256 = (d + 2 ^ 256) mod 2 ^ 256"
    unfolding q using m(1) by (simp add: add.assoc)
  also have "\<dots> = d" using d(2) m(2) by simp
  finally have v: "vn 4 (vli_mmod_fast_secp256k1 result product) = d"
    using mmod_fast_secp256k1_value(1) [OF l, folded T_def m_def] d(2) m by (simp only:) (simp add: k1_c_def)
  then show "vn 4 (vli_mmod_fast_secp256k1 result product) = k1_fold product - (2 ^ 257 - k1_c)"
    by (simp add: d_def T_def)
  have "T = d + k1_c + m + m" using d(1) m(1) by linarith
  then have "T mod m = (d + k1_c + m + m) mod m" by simp
  also have "\<dots> = d + k1_c" using d(2) m by simp
  finally have "vn 8 product mod m = d + k1_c"
    using k1_fold_congruent(1) [OF l(2), folded T_def m_def] by simp
  then show "vn 4 (vli_mmod_fast_secp256k1 result product) mod vn 4 (curve_p curve_secp256k1) \<noteq> vn 8 product mod vn 4 (curve_p curve_secp256k1)"
    unfolding p v using d(2) m by (simp add: k1_c_def)
  show "vn 4 (vli_mmod_fast_secp256k1 result product) + k1_c = vn 8 product mod vn 4 (curve_p curve_secp256k1)"
    unfolding p v by (simp add: \<open>vn 8 product mod m = d + k1_c\<close>)
qed

text \<open>C20. The fast reduction of secp256k1, exactly. \<open>k1_fold\<close> is the sum of the low half of the product and c times the high half, folded
  once more, c = 2 ^ 32 + 977. When this sum falls among the c numbers below 2 ^ 257, the result is the remainder of the product less c,
  a wrong residue. For every other product the result is congruent to it: it is the remainder, except that it is the field order p itself where the
  sum is p or 2 p, so it never exceeds p but need not be reduced. The witness has a product of each of the two odd kinds.\<close>

theorem secp256k1_reduction:
  assumes "4 \<le> length result" and "8 \<le> length product" and "p = vn 4 (curve_p curve_secp256k1)"
  shows "(if 2 ^ 257 - k1_c \<le> k1_fold product \<and> k1_fold product < 2 ^ 257
          then vn 4 (vli_mmod_fast_secp256k1 result product) + k1_c = vn 8 product mod p
          else vn 4 (vli_mmod_fast_secp256k1 result product) = (if k1_fold product \<in> {p, 2 * p} then p else vn 8 product mod p))
    \<and> (vn 4 (vli_mmod_fast_secp256k1 result product) mod p = vn 8 product mod p
      \<longleftrightarrow> k1_fold product < 2 ^ 257 - k1_c \<or> 2 ^ 257 \<le> k1_fold product)
    \<and> vn 4 (vli_mmod_fast_secp256k1 result product) \<le> p"
proof (cases "k1_fold product < 2 ^ 257 - k1_c \<or> 2 ^ 257 \<le> k1_fold product")
  case True
  have "0 < p" unfolding assms(3) vn_p_secp256k1 by simp
  then have "vn 8 product mod p \<le> p" by (simp add: less_imp_le)
  then show ?thesis using True mmod_fast_secp256k1_outside [OF assms(1,2) True, folded assms(3)] by auto
next
  case False
  then have "2 ^ 257 - k1_c \<le> k1_fold product" "k1_fold product < 2 ^ 257" by simp_all
  note w = mmod_fast_secp256k1_window [OF assms(1,2) this, folded assms(3)]
  have "0 < p" unfolding assms(3) vn_p_secp256k1 by simp
  then have "vn 8 product mod p < p" by simp
  then have "vn 4 (vli_mmod_fast_secp256k1 result product) \<le> p" using w(3) by linarith
  then show ?thesis using False w(2,3) by auto
qed

theorem secp256k1_reduction_witness:
  "(let product = [- 1, - 1, - 1, - 1, 0x4aecc4040e67ec85, 0x234e5ba641f43a7e, 0xe90a0c86a0a63, 0xfffffc2f]
    in vn 4 (vli_mmod_fast_secp256k1 (replicate 4 0) product) + 4294968273 = vn 8 product mod vn 4 (curve_p curve_secp256k1))
    \<and> vn 4 (vli_mmod_fast_secp256k1 (replicate 4 0) [0xfffffffefffffc2f, 0xffffffffffffffff, 0xffffffffffffffff, 0xffffffffffffffff, 0, 0, 0, 0])
      = vn 4 (curve_p curve_secp256k1)"
proof
  let ?product = "[- 1, - 1, - 1, - 1, 0x4aecc4040e67ec85, 0x234e5ba641f43a7e, 0xe90a0c86a0a63, 0xfffffc2f] :: u64 list"
  have h: "vn 4 (drop 4 ?product) = 26959940534423639367258949949567626958177063271088932684057008401541" by simp
  have l: "vn 4 ?product = 2 ^ 256 - 1" by (simp add: unsigned_minus_1_eq_mask mask_eq_exp_minus_1)
  have "2 ^ 257 - k1_c \<le> k1_fold ?product \<and> k1_fold ?product < 2 ^ 257"
    unfolding k1_fold_def h l by (simp add: k1_c_def)
  then show "let product = ?product in vn 4 (vli_mmod_fast_secp256k1 (replicate 4 0) product) + 4294968273
      = vn 8 product mod vn 4 (curve_p curve_secp256k1)"
    using secp256k1_reduction [of "replicate 4 0" ?product] by (simp add: k1_c_def Let_def)
  let ?order = "[0xfffffffefffffc2f, 0xffffffffffffffff, 0xffffffffffffffff, 0xffffffffffffffff, 0, 0, 0, 0] :: u64 list"
  have f: "k1_fold ?order = vn 4 (curve_p curve_secp256k1)" unfolding vn_p_secp256k1 by (simp add: k1_fold_def)
  have "\<not> (2 ^ 257 - k1_c \<le> k1_fold ?order \<and> k1_fold ?order < 2 ^ 257)" unfolding f vn_p_secp256k1 by (simp add: k1_c_def)
  then show "vn 4 (vli_mmod_fast_secp256k1 (replicate 4 0) ?order) = vn 4 (curve_p curve_secp256k1)"
    using secp256k1_reduction [of "replicate 4 0" ?order] f by simp
qed

end
