(* ===== verification/Uecc_Field.thy ===== *)
theory Uecc_Field
  imports Uecc_Fast_160 Uecc_Fast_k1
begin

text \<open>
  Field arithmetic of micro-ecc through the curve's fast reduction (\<^verbatim>\<open>uECC_vli_modMult_fast\<close>, \<^verbatim>\<open>uECC_vli_modSquare_fast\<close>). The
  contract of a fast reduction is a locale: for the double-length product of two residues it returns the residue. The curves
  secp192r1, secp224r1 and secp256r1 meet it. Field elements are related to integer expressions modulo the order by
  \<open>res\<close>, which every operation respects, so a formula over residues is read off the code.
\<close>

section \<open>The code\<close>

definition mmod_fast :: "uECC_Curve \<Rightarrow> u64 list \<Rightarrow> u64 list \<Rightarrow> u64 list" where
  "mmod_fast curve result product =
     (case curve_mmod_fast curve of
        vli_mmod_fast_secp160r1_fn \<Rightarrow> vli_mmod_fast_secp160r1 result product
      | vli_mmod_fast_secp192r1_fn \<Rightarrow> vli_mmod_fast_secp192r1 result product
      | vli_mmod_fast_secp224r1_fn \<Rightarrow> vli_mmod_fast_secp224r1 result product
      | vli_mmod_fast_secp256r1_fn \<Rightarrow> vli_mmod_fast_secp256r1 result product
      | vli_mmod_fast_secp256k1_fn \<Rightarrow> vli_mmod_fast_secp256k1 result product)"

definition uECC_vli_modMult_fast :: "u64 list \<Rightarrow> u64 list \<Rightarrow> u64 list \<Rightarrow> uECC_Curve \<Rightarrow> u64 list" where
  "uECC_vli_modMult_fast result left right curve =
     (let product = uECC_vli_mult (replicate 8 0) left right (curve_num_words curve)
      in mmod_fast curve result product)"

definition uECC_vli_modSquare_fast :: "u64 list \<Rightarrow> u64 list \<Rightarrow> uECC_Curve \<Rightarrow> u64 list" where
  "uECC_vli_modSquare_fast result left curve =
     (let product = uECC_vli_square (replicate 8 0) left (curve_num_words curve)
      in mmod_fast curve result product)"

section \<open>The contract of a fast reduction\<close>

locale fast_field =
  fixes curve :: uECC_Curve and n :: nat and p :: nat
  assumes words: "n = curve_num_words curve" "0 < n" "n \<le> 4" "length (curve_p curve) = 4"
    and order: "vn n (curve_p curve) = p" "1 < p" "odd p"
    and reduce: "n \<le> length result \<Longrightarrow> length product = 8 \<Longrightarrow> vn (2 * n) product < p * p \<Longrightarrow>
      vn n (mmod_fast curve result product) = vn (2 * n) product mod p"
    and reduce_frame: "n \<le> length result \<Longrightarrow> length product = 8 \<Longrightarrow> vn (2 * n) product < p * p \<Longrightarrow>
      length (mmod_fast curve result product) = length result \<and> drop n (mmod_fast curve result product) = drop n result"
begin

lemma modMult_fast:
  assumes "n \<le> length result" "n \<le> length a" "n \<le> length b" "vn n a < p" "vn n b < p"
  shows "vn n (uECC_vli_modMult_fast result a b curve) = vn n a * vn n b mod p"
    "length (uECC_vli_modMult_fast result a b curve) = length result"
    "drop n (uECC_vli_modMult_fast result a b curve) = drop n result"
proof -
  define product where "product = uECC_vli_mult (replicate 8 0) a b n"
  have "n < 2 ^ 60" "2 * n \<le> length (replicate 8 (0 :: u64))" using words(3) by simp_all
  note m = vli_mult_correct [OF words(2) this(1) assms(2,3) this(2), folded product_def]
  have "vn (2 * n) product < p * p" unfolding m(1) using assms(4,5) by (intro mult_strict_mono) simp_all
  then show "vn n (uECC_vli_modMult_fast result a b curve) = vn n a * vn n b mod p"
    "length (uECC_vli_modMult_fast result a b curve) = length result"
    "drop n (uECC_vli_modMult_fast result a b curve) = drop n result"
    using reduce [OF assms(1), of product] reduce_frame [OF assms(1), of product] m(1,2)
    by (simp_all add: uECC_vli_modMult_fast_def product_def words(1))
qed

lemma modSquare_fast:
  assumes "n \<le> length result" "n \<le> length a" "vn n a < p"
  shows "vn n (uECC_vli_modSquare_fast result a curve) = (vn n a)\<^sup>2 mod p"
    "length (uECC_vli_modSquare_fast result a curve) = length result"
    "drop n (uECC_vli_modSquare_fast result a curve) = drop n result"
proof -
  define product where "product = uECC_vli_square (replicate 8 0) a n"
  have "n < 2 ^ 60" "2 * n \<le> length (replicate 8 (0 :: u64))" using words(3) by simp_all
  note m = vli_square_correct [OF words(2) this(1) assms(2) this(2), folded product_def]
  have "vn (2 * n) product < p * p" unfolding m(1) power2_eq_square using assms(3) by (intro mult_strict_mono) simp_all
  then show "vn n (uECC_vli_modSquare_fast result a curve) = (vn n a)\<^sup>2 mod p"
    "length (uECC_vli_modSquare_fast result a curve) = length result"
    "drop n (uECC_vli_modSquare_fast result a curve) = drop n result"
    using reduce [OF assms(1), of product] reduce_frame [OF assms(1), of product] m(1,2)
    by (simp_all add: uECC_vli_modSquare_fast_def product_def words(1))
qed

end

lemma fast_field_secp192r1: "fast_field curve_secp192r1 3 (2 ^ 192 - 2 ^ 64 - 1)"
proof
  have m: "mmod_fast curve_secp192r1 = vli_mmod_fast_secp192r1" by (intro ext) (simp add: mmod_fast_def curve_secp192r1_def)
  fix result product :: "u64 list"
  assume "3 \<le> length result" "length product = 8"
  then show "vn 3 (mmod_fast curve_secp192r1 result product) = vn (2 * 3) product mod (2 ^ 192 - 2 ^ 64 - 1)"
    "length (mmod_fast curve_secp192r1 result product) = length result
      \<and> drop 3 (mmod_fast curve_secp192r1 result product) = drop 3 result"
    using mmod_fast_secp192r1_correct [of result product] unfolding m vn_p_secp192r1 by simp_all
qed (simp_all add: length_p_secp192r1 vn_p_secp192r1, simp_all add: curve_secp192r1_def)

lemma fast_field_secp256r1: "fast_field curve_secp256r1 4 (2 ^ 256 - 2 ^ 224 + 2 ^ 192 + 2 ^ 96 - 1)"
proof
  have m: "mmod_fast curve_secp256r1 = vli_mmod_fast_secp256r1" by (intro ext) (simp add: mmod_fast_def curve_secp256r1_def)
  fix result product :: "u64 list"
  assume "4 \<le> length result" "length product = 8"
  then show "vn 4 (mmod_fast curve_secp256r1 result product) = vn (2 * 4) product mod (2 ^ 256 - 2 ^ 224 + 2 ^ 192 + 2 ^ 96 - 1)"
    "length (mmod_fast curve_secp256r1 result product) = length result
      \<and> drop 4 (mmod_fast curve_secp256r1 result product) = drop 4 result"
    using mmod_fast_secp256r1_correct [of result product] unfolding m vn_p_secp256r1 by simp_all
next
  show "vn 4 (curve_p curve_secp256r1) = 2 ^ 256 - 2 ^ 224 + 2 ^ 192 + 2 ^ 96 - 1" by (rule vn_p_secp256r1)
qed (simp_all add: length_p_secp256r1, simp_all add: curve_secp256r1_def)

lemma fast_field_secp224r1: "fast_field curve_secp224r1 4 (2 ^ 224 - 2 ^ 96 + 1)"
proof
  have m: "mmod_fast curve_secp224r1 = vli_mmod_fast_secp224r1" by (intro ext) (simp add: mmod_fast_def curve_secp224r1_def)
  fix result product :: "u64 list"
  assume l: "4 \<le> length result" "length product = 8" and lt: "vn (2 * 4) product < (2 ^ 224 - 2 ^ 96 + 1) * (2 ^ 224 - 2 ^ 96 + 1)"
  have "vn 8 product < 2 ^ 448" using lt by simp
  then have "vn 7 product = vn 8 product" using vn_prefix [of 7 8 product] l(2) by simp
  then show "vn 4 (mmod_fast curve_secp224r1 result product) = vn (2 * 4) product mod (2 ^ 224 - 2 ^ 96 + 1)"
    "length (mmod_fast curve_secp224r1 result product) = length result
      \<and> drop 4 (mmod_fast curve_secp224r1 result product) = drop 4 result"
    using mmod_fast_secp224r1_correct [of result product] l unfolding m vn_p_secp224r1 by simp_all
next
  show "vn 4 (curve_p curve_secp224r1) = 2 ^ 224 - 2 ^ 96 + 1" by (rule vn_p_secp224r1)
qed (simp_all add: length_p_secp224r1, simp_all add: curve_secp224r1_def)

interpretation p192: fast_field curve_secp192r1 3 "2 ^ 192 - 2 ^ 64 - 1" by (rule fast_field_secp192r1)

interpretation p224: fast_field curve_secp224r1 4 "2 ^ 224 - 2 ^ 96 + 1" by (rule fast_field_secp224r1)

interpretation p256: fast_field curve_secp256r1 4 "2 ^ 256 - 2 ^ 224 + 2 ^ 192 + 2 ^ 96 - 1" by (rule fast_field_secp256r1)

end
