(* ===== verification/Uecc_Point.thy ===== *)
theory Uecc_Point
  imports Uecc_Field
begin

text \<open>
  Point operations of micro-ecc: doubling in Jacobian coordinates and the right-hand side of the curve equation
  (\<^verbatim>\<open>curve-specific.h\<close>), the co-Z additions and the Montgomery ladder (\<^verbatim>\<open>uECC.c\<close>). Coordinates that a function
  changes in place are arguments and results. The theorems relate the coordinates to integer expressions modulo the field order and
  show that the formulas are the chord and tangent rules, with the common denominator that co-Z arithmetic leaves implicit.
\<close>

section \<open>The code\<close>

text \<open>The halving block of both doubling functions: the residue, plus the order when it is odd, shifted right with its carry.\<close>

definition half_residue :: "u64 list \<Rightarrow> u64 list \<Rightarrow> nat \<Rightarrow> u64 list" where
  "half_residue X1 p num_words =
     (if uECC_vli_testBit X1 0 \<noteq> 0 then
        let (l_carry, X1) = uECC_vli_add X1 X1 p num_words;
            X1 = uECC_vli_rshift1 X1 num_words
        in X1[num_words - 1 := X1 ! (num_words - 1) OR push_bit 63 l_carry]
      else uECC_vli_rshift1 X1 num_words)"

definition double_jacobian_default ::
    "u64 list \<Rightarrow> u64 list \<Rightarrow> u64 list \<Rightarrow> uECC_Curve \<Rightarrow> u64 list \<times> u64 list \<times> u64 list" where
  "double_jacobian_default X1 Y1 Z1 curve =
     (let t4 = replicate 4 0;
          t5 = replicate 4 0;
          num_words = curve_num_words curve;
          p = curve_p curve
      in if uECC_vli_isZero Z1 num_words \<noteq> 0 then (X1, Y1, Z1)
         else
           let t4 = uECC_vli_modSquare_fast t4 Y1 curve;
               t5 = uECC_vli_modMult_fast t5 X1 t4 curve;
               t4 = uECC_vli_modSquare_fast t4 t4 curve;
               Y1 = uECC_vli_modMult_fast Y1 Y1 Z1 curve;
               Z1 = uECC_vli_modSquare_fast Z1 Z1 curve;
               X1 = uECC_vli_modAdd X1 X1 Z1 p num_words;
               Z1 = uECC_vli_modAdd Z1 Z1 Z1 p num_words;
               Z1 = uECC_vli_modSub Z1 X1 Z1 p num_words;
               X1 = uECC_vli_modMult_fast X1 X1 Z1 curve;
               Z1 = uECC_vli_modAdd Z1 X1 X1 p num_words;
               X1 = uECC_vli_modAdd X1 X1 Z1 p num_words;
               X1 = half_residue X1 p num_words;
               Z1 = uECC_vli_modSquare_fast Z1 X1 curve;
               Z1 = uECC_vli_modSub Z1 Z1 t5 p num_words;
               Z1 = uECC_vli_modSub Z1 Z1 t5 p num_words;
               t5 = uECC_vli_modSub t5 t5 Z1 p num_words;
               X1 = uECC_vli_modMult_fast X1 X1 t5 curve;
               t4 = uECC_vli_modSub t4 X1 t4 p num_words;
               X1 = uECC_vli_set X1 Z1 num_words;
               Z1 = uECC_vli_set Z1 Y1 num_words;
               Y1 = uECC_vli_set Y1 t4 num_words
           in (X1, Y1, Z1))"

definition double_jacobian_secp256k1 ::
    "u64 list \<Rightarrow> u64 list \<Rightarrow> u64 list \<Rightarrow> uECC_Curve \<Rightarrow> u64 list \<times> u64 list \<times> u64 list" where
  "double_jacobian_secp256k1 X1 Y1 Z1 curve =
     (let t4 = replicate 4 0;
          t5 = replicate 4 0;
          p = curve_p curve
      in if uECC_vli_isZero Z1 4 \<noteq> 0 then (X1, Y1, Z1)
         else
           let t5 = uECC_vli_modSquare_fast t5 Y1 curve;
               t4 = uECC_vli_modMult_fast t4 X1 t5 curve;
               X1 = uECC_vli_modSquare_fast X1 X1 curve;
               t5 = uECC_vli_modSquare_fast t5 t5 curve;
               Z1 = uECC_vli_modMult_fast Z1 Y1 Z1 curve;
               Y1 = uECC_vli_modAdd Y1 X1 X1 p 4;
               Y1 = uECC_vli_modAdd Y1 Y1 X1 p 4;
               Y1 = half_residue Y1 p 4;
               X1 = uECC_vli_modSquare_fast X1 Y1 curve;
               X1 = uECC_vli_modSub X1 X1 t4 p 4;
               X1 = uECC_vli_modSub X1 X1 t4 p 4;
               t4 = uECC_vli_modSub t4 t4 X1 p 4;
               Y1 = uECC_vli_modMult_fast Y1 Y1 t4 curve;
               Y1 = uECC_vli_modSub Y1 Y1 t5 p 4
           in (X1, Y1, Z1))"

definition double_jacobian ::
    "u64 list \<Rightarrow> u64 list \<Rightarrow> u64 list \<Rightarrow> uECC_Curve \<Rightarrow> u64 list \<times> u64 list \<times> u64 list" where
  "double_jacobian X1 Y1 Z1 curve =
     (case curve_double_jacobian curve of
        double_jacobian_default_fn \<Rightarrow> double_jacobian_default X1 Y1 Z1 curve
      | double_jacobian_secp256k1_fn \<Rightarrow> double_jacobian_secp256k1 X1 Y1 Z1 curve)"

definition x_side_default :: "u64 list \<Rightarrow> u64 list \<Rightarrow> uECC_Curve \<Rightarrow> u64 list" where
  "x_side_default result x curve =
     (let three = [3, 0, 0, 0];
          num_words = curve_num_words curve;
          result = uECC_vli_modSquare_fast result x curve;
          result = uECC_vli_modSub result result three (curve_p curve) num_words;
          result = uECC_vli_modMult_fast result result x curve
      in uECC_vli_modAdd result result (curve_b curve) (curve_p curve) num_words)"

definition x_side_secp256k1 :: "u64 list \<Rightarrow> u64 list \<Rightarrow> uECC_Curve \<Rightarrow> u64 list" where
  "x_side_secp256k1 result x curve =
     (let result = uECC_vli_modSquare_fast result x curve;
          result = uECC_vli_modMult_fast result result x curve
      in uECC_vli_modAdd result result (curve_b curve) (curve_p curve) 4)"

definition x_side :: "u64 list \<Rightarrow> u64 list \<Rightarrow> uECC_Curve \<Rightarrow> u64 list" where
  "x_side result x curve =
     (case curve_x_side curve of
        x_side_default_fn \<Rightarrow> x_side_default result x curve
      | x_side_secp256k1_fn \<Rightarrow> x_side_secp256k1 result x curve)"

definition EccPoint_isZero :: "u64 list \<Rightarrow> uECC_Curve \<Rightarrow> u64" where
  "EccPoint_isZero point curve = uECC_vli_isZero point (curve_num_words curve * 2)"

definition apply_z :: "u64 list \<Rightarrow> u64 list \<Rightarrow> u64 list \<Rightarrow> uECC_Curve \<Rightarrow> u64 list \<times> u64 list" where
  "apply_z X1 Y1 Z curve =
     (let t1 = replicate 4 0;
          t1 = uECC_vli_modSquare_fast t1 Z curve;
          X1 = uECC_vli_modMult_fast X1 X1 t1 curve;
          t1 = uECC_vli_modMult_fast t1 t1 Z curve;
          Y1 = uECC_vli_modMult_fast Y1 Y1 t1 curve
      in (X1, Y1))"

definition XYcZ_initial_double :: "u64 list \<Rightarrow> u64 list \<Rightarrow> u64 list \<Rightarrow> u64 list \<Rightarrow> u64 list option \<Rightarrow> uECC_Curve
    \<Rightarrow> u64 list \<times> u64 list \<times> u64 list \<times> u64 list" where
  "XYcZ_initial_double X1 Y1 X2 Y2 initial_Z curve =
     (let z = replicate 4 0;
          num_words = curve_num_words curve;
          z = (case initial_Z of
                 Some initial_Z \<Rightarrow> uECC_vli_set z initial_Z num_words
               | None \<Rightarrow> (uECC_vli_clear z num_words)[0 := 1]);
          X2 = uECC_vli_set X2 X1 num_words;
          Y2 = uECC_vli_set Y2 Y1 num_words;
          (X1, Y1) = apply_z X1 Y1 z curve;
          (X1, Y1, z) = double_jacobian X1 Y1 z curve;
          (X2, Y2) = apply_z X2 Y2 z curve
      in (X1, Y1, X2, Y2))"

definition XYcZ_add :: "u64 list \<Rightarrow> u64 list \<Rightarrow> u64 list \<Rightarrow> u64 list \<Rightarrow> uECC_Curve
    \<Rightarrow> u64 list \<times> u64 list \<times> u64 list \<times> u64 list" where
  "XYcZ_add X1 Y1 X2 Y2 curve =
     (let t5 = replicate 4 0;
          num_words = curve_num_words curve;
          p = curve_p curve;
          t5 = uECC_vli_modSub t5 X2 X1 p num_words;
          t5 = uECC_vli_modSquare_fast t5 t5 curve;
          X1 = uECC_vli_modMult_fast X1 X1 t5 curve;
          X2 = uECC_vli_modMult_fast X2 X2 t5 curve;
          Y2 = uECC_vli_modSub Y2 Y2 Y1 p num_words;
          t5 = uECC_vli_modSquare_fast t5 Y2 curve;
          t5 = uECC_vli_modSub t5 t5 X1 p num_words;
          t5 = uECC_vli_modSub t5 t5 X2 p num_words;
          X2 = uECC_vli_modSub X2 X2 X1 p num_words;
          Y1 = uECC_vli_modMult_fast Y1 Y1 X2 curve;
          X2 = uECC_vli_modSub X2 X1 t5 p num_words;
          Y2 = uECC_vli_modMult_fast Y2 Y2 X2 curve;
          Y2 = uECC_vli_modSub Y2 Y2 Y1 p num_words;
          X2 = uECC_vli_set X2 t5 num_words
      in (X1, Y1, X2, Y2))"

definition XYcZ_addC :: "u64 list \<Rightarrow> u64 list \<Rightarrow> u64 list \<Rightarrow> u64 list \<Rightarrow> uECC_Curve
    \<Rightarrow> u64 list \<times> u64 list \<times> u64 list \<times> u64 list" where
  "XYcZ_addC X1 Y1 X2 Y2 curve =
     (let t5 = replicate 4 0;
          t6 = replicate 4 0;
          t7 = replicate 4 0;
          num_words = curve_num_words curve;
          p = curve_p curve;
          t5 = uECC_vli_modSub t5 X2 X1 p num_words;
          t5 = uECC_vli_modSquare_fast t5 t5 curve;
          X1 = uECC_vli_modMult_fast X1 X1 t5 curve;
          X2 = uECC_vli_modMult_fast X2 X2 t5 curve;
          t5 = uECC_vli_modAdd t5 Y2 Y1 p num_words;
          Y2 = uECC_vli_modSub Y2 Y2 Y1 p num_words;
          t6 = uECC_vli_modSub t6 X2 X1 p num_words;
          Y1 = uECC_vli_modMult_fast Y1 Y1 t6 curve;
          t6 = uECC_vli_modAdd t6 X1 X2 p num_words;
          X2 = uECC_vli_modSquare_fast X2 Y2 curve;
          X2 = uECC_vli_modSub X2 X2 t6 p num_words;
          t7 = uECC_vli_modSub t7 X1 X2 p num_words;
          Y2 = uECC_vli_modMult_fast Y2 Y2 t7 curve;
          Y2 = uECC_vli_modSub Y2 Y2 Y1 p num_words;
          t7 = uECC_vli_modSquare_fast t7 t5 curve;
          t7 = uECC_vli_modSub t7 t7 t6 p num_words;
          t6 = uECC_vli_modSub t6 t7 X1 p num_words;
          t6 = uECC_vli_modMult_fast t6 t6 t5 curve;
          Y1 = uECC_vli_modSub Y1 t6 Y1 p num_words;
          X1 = uECC_vli_set X1 t7 num_words
      in (X1, Y1, X2, Y2))"

section \<open>Residues and integer expressions\<close>

lemma vn_four: "0 < n \<Longrightarrow> vn n [w, 0, 0, 0] = unat w"
  by (cases n) (simp_all add: vn_zero [of _ 3, unfolded numeral_3_eq_3, simplified])

definition res :: "uECC_Curve \<Rightarrow> u64 list \<Rightarrow> int \<Rightarrow> bool" where
  "res curve x e \<longleftrightarrow> curve_num_words curve \<le> length x
     \<and> vn (curve_num_words curve) x < vn (curve_num_words curve) (curve_p curve)
     \<and> int (vn (curve_num_words curve) x) = e mod int (vn (curve_num_words curve) (curve_p curve))"

definition buf :: "uECC_Curve \<Rightarrow> u64 list \<Rightarrow> bool" where
  "buf curve x \<longleftrightarrow> curve_num_words curve \<le> length x"

lemma res_buf: "res curve x e \<Longrightarrow> buf curve x"
  by (simp add: res_def buf_def)

lemma res_expr: "res curve x e \<Longrightarrow> e = f \<Longrightarrow> res curve x f"
  by simp

lemma res_cong: "res curve x e \<Longrightarrow> e mod int (vn (curve_num_words curve) (curve_p curve)) = f mod int (vn (curve_num_words curve) (curve_p curve))
    \<Longrightarrow> res curve x f"
  by (simp add: res_def)

text \<open>A chain of assignments: each value is related to its expression before the rest is looked at.\<close>

definition holds :: "('a \<Rightarrow> bool) \<Rightarrow> 'a \<Rightarrow> bool" where
  "holds P x = P x"

lemma holds_Let:
  "res curve a e \<Longrightarrow> (\<And>x. res curve x e \<Longrightarrow> holds P (f x)) \<Longrightarrow> holds P (Let a f)"
  by (simp add: Let_def)

lemma holds_const: "holds P (f a) \<Longrightarrow> holds P (Let a f)"
  by simp

context fast_field
begin

lemma res_iff: "res curve x e \<longleftrightarrow> n \<le> length x \<and> vn n x < p \<and> int (vn n x) = e mod int p"
  using words(1) order(1) by (simp add: res_def)

lemma buf_iff: "buf curve x \<longleftrightarrow> n \<le> length x"
  using words(1) by (simp add: buf_def)

lemma buf_local: "buf curve (replicate 4 0)"
  using words(3) by (simp add: buf_iff)

lemma p_pos: "0 < p"
  using order(2) by simp

lemma res_mult: "buf curve r \<Longrightarrow> res curve a e \<Longrightarrow> res curve b f \<Longrightarrow> res curve (uECC_vli_modMult_fast r a b curve) (e * f)"
  using modMult_fast [of r a b] p_pos by (simp add: res_iff buf_iff of_nat_mod mod_mult_eq)

lemma res_square: "buf curve r \<Longrightarrow> res curve a e \<Longrightarrow> res curve (uECC_vli_modSquare_fast r a curve) (e\<^sup>2)"
  using modSquare_fast [of r a] p_pos by (simp add: res_iff buf_iff of_nat_mod power_mod)

lemma res_add: "buf curve r \<Longrightarrow> res curve a e \<Longrightarrow> res curve b f \<Longrightarrow> res curve (uECC_vli_modAdd r a b (curve_p curve) n) (e + f)"
  using vli_modAdd_correct [of n r a b "curve_p curve"] p_pos words order
  by (simp add: res_iff buf_iff of_nat_mod mod_add_eq)

lemma res_sub:
  assumes "buf curve r" "res curve a e" "res curve b f"
  shows "res curve (uECC_vli_modSub r a b (curve_p curve) n) (e - f)"
proof -
  have a: "n \<le> length a" "vn n a < p" "int (vn n a) = e mod int p" and b: "n \<le> length b" "vn n b < p" "int (vn n b) = f mod int p"
    using assms by (simp_all add: res_iff)
  have m: "vn n (uECC_vli_modSub r a b (curve_p curve) n) = (vn n a + (p - vn n b)) mod p"
    "length (uECC_vli_modSub r a b (curve_p curve) n) = length r"
    using vli_modSub_correct [of n r a b "curve_p curve"] assms(1) a b words order by (simp_all add: buf_iff)
  have "int ((vn n a + (p - vn n b)) mod p) = (int (vn n a) - int (vn n b) + int p) mod int p"
    using b(2) by (simp add: of_nat_mod of_nat_diff algebra_simps)
  also have "\<dots> = (e - f) mod int p" by (simp add: a(3) b(3) mod_diff_eq)
  finally show ?thesis using m assms(1) p_pos by (simp add: res_iff buf_iff)
qed

lemma res_set: "buf curve r \<Longrightarrow> res curve a e \<Longrightarrow> res curve (uECC_vli_set r a n) e"
  by (simp add: res_iff buf_iff vn_set)

lemma res_half:
  assumes "res curve a (2 * e)"
  shows "res curve (half_residue a (curve_p curve) n) e"
proof -
  have a: "n \<le> length a" "vn n a < p" "int (vn n a) = (2 * e) mod int p" using assms by (simp_all add: res_iff)
  have lp: "n \<le> length (curve_p curve)" using words(3,4) by simp
  have t: "uECC_vli_testBit a 0 \<noteq> 0 \<longleftrightarrow> odd (vn n a)"
    using vli_testBit_correct [OF a(1), of 0] words(2) by simp
  obtain c s where s: "uECC_vli_add a a (curve_p curve) n = (c, s)" by fastforce
  note add = vli_add_correct [OF a(1,1) lp s]
  have c: "c = 0 \<or> c = 1"
    using add(2) by (metis One_nat_def le_Suc_eq le_zero_eq unat_1 unat_eq_zero word_unat_eq_iff)
  have ls: "n \<le> length s" using add(3) a(1) by simp
  have X: "(2 :: nat) ^ (64 * n) = 2 * 2 ^ (64 * n - 1)" using words(2) by (simp flip: power_Suc)
  have h: "vn n (half_residue a (curve_p curve) n) = halve p (vn n a) \<and> length (half_residue a (curve_p curve) n) = length a"
  proof (cases "even (vn n a)")
    case True
    then show ?thesis using t vli_rshift1_correct [OF a(1)] by (simp add: half_residue_def halve_def)
  next
    case False
    define w where "w = uECC_vli_rshift1 s n"
    have w: "vn n w = vn n s div 2" "length w = length s" "n \<le> length w"
      using vli_rshift1_correct [OF ls] ls by (simp_all add: w_def)
    have lt: "vn n w < 2 ^ (64 * n - 1)" using vn_lt [of n s] unfolding w(1) X by simp
    have e: "half_residue a (curve_p curve) n = w[n - 1 := w ! (n - 1) OR push_bit 63 c]"
      using False t s by (simp add: half_residue_def w_def Let_def)
    have "vn n (w[n - 1 := w ! (n - 1) OR push_bit 63 c]) = vn n w + 2 ^ (64 * n - 1) * (unat c mod 2)"
      using vn_set_top [OF words(2) w(3) lt] .
    also have "\<dots> = (vn n a + p) div 2"
      using c add(1) order(1) unfolding w(1) X by (metis (no_types, lifting) One_nat_def add.commute div_mult_self2 mod_less mult.assoc one_less_numeral_iff semiring_norm(76) unat_0 unat_1 zero_less_numeral zero_neq_numeral)
    finally show ?thesis using False w(2) add(3) by (simp add: e halve_def)
  qed
  note hr = halve_residue [OF order(3) a(2)]
  have "int p dvd 2 * (int (halve p (vn n a)) - e)"
  proof -
    have "int p dvd int (vn n a) - 2 * e" unfolding a(3) by (rule mod_eq_dvd_iff [THEN iffD1]) simp
    with hr(2) have "int p dvd (int (2 * halve p (vn n a)) - int (vn n a)) + (int (vn n a) - 2 * e)" by (rule dvd_add)
    then show ?thesis by (simp add: algebra_simps)
  qed
  then have "int p dvd int (halve p (vn n a)) - e"
    using order(3) by (subst (asm) coprime_dvd_mult_right_iff) simp_all
  then have "int (halve p (vn n a)) mod int p = e mod int p" by (simp only: mod_eq_dvd_iff)
  then show ?thesis using h hr(1) a(1) by (simp add: res_iff)
qed

end


context fast_field
begin

text \<open>Straight-line code over residues: the local arrays and constants first, then one rule per operation.\<close>

lemma holds_start:
  "holds P (f (replicate 4 0)) \<Longrightarrow> holds P (Let (replicate 4 0 :: u64 list) f)"
  "holds P (g n) \<Longrightarrow> holds P (Let n g)"
  "holds P (f (curve_p curve)) \<Longrightarrow> holds P (Let (curve_p curve) f)"
  by simp_all

lemma holds_else: "\<not> c \<Longrightarrow> holds P b \<Longrightarrow> holds P (if c then a else b)"
  by simp

definition half :: int where
  "half = int ((p + 1) div 2)"

lemma half: "2 * half = int p + 1"
  using order(3) by (auto simp: half_def elim!: oddE)

lemma res_halve: "res curve a e \<Longrightarrow> res curve (half_residue a (curve_p curve) n) (e * half)"
proof (rule res_half)
  assume "res curve a e"
  have "2 * (e * half) = e + e * int p" using half by (metis distrib_left mult.commute mult.left_commute mult.right_neutral add.commute)
  then have "e mod int p = 2 * (e * half) mod int p" by simp
  with \<open>res curve a e\<close> show "res curve a (2 * (e * half))" by (simp add: res_iff)
qed

lemmas res_op = res_mult res_square res_add res_sub res_set res_halve

lemma apply_z_res:
  assumes "res curve X1 x" "res curve Y1 y" "res curve Z z"
  shows "holds (\<lambda>(X1, Y1). res curve X1 (x * z\<^sup>2) \<and> res curve Y1 (y * (z\<^sup>2 * z))) (apply_z X1 Y1 Z curve)"
  unfolding apply_z_def words(1) [symmetric] using assms
  apply -
  apply (rule holds_start)
  apply (rule holds_Let, rule res_op, (rule buf_local | erule res_buf | assumption)+)+
  apply (simp add: holds_def)
  done

lemma XYcZ_add_res:
  assumes "res curve X1 x1" "res curve Y1 y1" "res curve X2 x2" "res curve Y2 y2"
  shows "holds (\<lambda>(X1, Y1, X2, Y2). let A = (x2 - x1)\<^sup>2; B = x1 * A; C = x2 * A; X = (y2 - y1)\<^sup>2 - B - C
      in res curve X1 B \<and> res curve Y1 (y1 * (C - B)) \<and> res curve X2 X \<and> res curve Y2 ((y2 - y1) * (B - X) - y1 * (C - B)))
    (XYcZ_add X1 Y1 X2 Y2 curve)"
  unfolding XYcZ_add_def words(1) [symmetric] using assms
  apply -
  apply (rule holds_start)+
  apply (rule holds_Let, rule res_op, (rule buf_local | erule res_buf | assumption)+)+
  apply (simp add: holds_def Let_def)
  done

lemma XYcZ_addC_res:
  assumes "res curve X1 x1" "res curve Y1 y1" "res curve X2 x2" "res curve Y2 y2"
  shows "holds (\<lambda>(X1, Y1, X2, Y2). let A = (x2 - x1)\<^sup>2; B = x1 * A; C = x2 * A; E = y1 * (C - B);
        X = (y2 - y1)\<^sup>2 - (B + C); X' = (y2 + y1)\<^sup>2 - (B + C)
      in res curve X1 X' \<and> res curve Y1 ((X' - B) * (y2 + y1) - E)
       \<and> res curve X2 X \<and> res curve Y2 ((y2 - y1) * (B - X) - E))
    (XYcZ_addC X1 Y1 X2 Y2 curve)"
  unfolding XYcZ_addC_def words(1) [symmetric] using assms
  apply -
  apply (rule holds_start)+
  apply (rule holds_Let, rule res_op, (rule buf_local | erule res_buf | assumption)+)+
  apply (simp add: holds_def Let_def)
  done

lemma double_jacobian_default_res:
  assumes "res curve X1 x" "res curve Y1 y" "res curve Z1 z" "vn n Z1 \<noteq> 0"
  shows "holds (\<lambda>(X1, Y1, Z1). let A = x * y\<^sup>2; M = (x + z\<^sup>2) * (x + z\<^sup>2 - (z\<^sup>2 + z\<^sup>2)); B = (M + (M + M)) * half; X = B\<^sup>2 - A - A
      in res curve X1 X \<and> res curve Y1 (B * (A - X) - (y\<^sup>2)\<^sup>2) \<and> res curve Z1 (y * z))
    (double_jacobian_default X1 Y1 Z1 curve)"
proof -
  have "\<not> uECC_vli_isZero Z1 n \<noteq> 0"
    using assms(3,4) vli_isZero_eq [of n Z1] by (simp add: res_iff)
  then show ?thesis
    unfolding double_jacobian_default_def words(1) [symmetric] using assms(1-3)
    apply -
    apply (rule holds_start)+
    apply (rule holds_else, assumption)
    apply (rule holds_Let, rule res_op, (rule buf_local | erule res_buf | assumption)+)+
    apply (simp only: holds_def Let_def prod.case)
    done
qed

lemma x_side_default_res:
  assumes "buf curve r" "res curve x e" "res curve (curve_b curve) b" and three: "3 < p"
  shows "res curve (x_side_default r x curve) ((e\<^sup>2 - 3) * e + b)"
proof -
  have "vn n [3, 0, 0, 0] = 3" using words(2) by (simp add: vn_four)
  then have "res curve [3, 0, 0, 0] 3" using words(3) three by (simp add: res_iff)
  have "holds (\<lambda>r. res curve r ((e\<^sup>2 - 3) * e + b)) (x_side_default r x curve)"
    unfolding x_side_default_def words(1) [symmetric] using assms(1-3) \<open>res curve [3, 0, 0, 0] 3\<close>
    apply -
    apply (rule holds_const)
    apply (rule holds_start)
    apply (rule holds_Let, rule res_op, (rule buf_local | assumption | erule res_buf)+)+
    apply (unfold holds_def)
    apply (rule res_op, (rule buf_local | assumption | erule res_buf)+)
    done
  then show ?thesis by (simp add: holds_def)
qed

end


section \<open>Chords and tangents\<close>

text \<open>Congruence of integer expressions, with the rules that rewrite inside polynomials.\<close>

definition eqm :: "nat \<Rightarrow> int \<Rightarrow> int \<Rightarrow> bool" where
  "eqm p a b \<longleftrightarrow> a mod int p = b mod int p"

lemma eqm_refl: "eqm p a a"
  by (simp add: eqm_def)

lemma eqm_sym: "eqm p a b \<Longrightarrow> eqm p b a"
  by (simp add: eqm_def)

lemma eqm_trans: "eqm p a b \<Longrightarrow> eqm p b c \<Longrightarrow> eqm p a c"
  by (simp add: eqm_def)

lemma eqm_ring:
  "eqm p a b \<Longrightarrow> eqm p c d \<Longrightarrow> eqm p (a + c) (b + d)"
  "eqm p a b \<Longrightarrow> eqm p c d \<Longrightarrow> eqm p (a - c) (b - d)"
  "eqm p a b \<Longrightarrow> eqm p c d \<Longrightarrow> eqm p (a * c) (b * d)"
  "eqm p a b \<Longrightarrow> eqm p (a ^ k) (b ^ k)"
  unfolding eqm_def
  by (rule mod_add_cong, assumption+) (rule mod_diff_cong, assumption+, rule mod_mult_cong, assumption+,
      simp add: power_mod [of a "int p" k, symmetric] power_mod [of b "int p" k, symmetric])

definition field_order :: "uECC_Curve \<Rightarrow> nat" where
  "field_order curve = vn (curve_num_words curve) (curve_p curve)"

lemma res_eqm: "res curve x e \<Longrightarrow> eqm (field_order curve) e f \<Longrightarrow> res curve x f"
  by (simp add: res_def eqm_def field_order_def)

text \<open>
  Two coordinate arrays stand for the affine point \<open>(x, y)\<close> with denominator \<open>z\<close>. The third point of a chord or tangent is
  given by a slope, so that no division is needed.
\<close>

definition scaled :: "uECC_Curve \<Rightarrow> u64 list \<Rightarrow> u64 list \<Rightarrow> int \<Rightarrow> int \<times> int \<Rightarrow> bool" where
  "scaled curve X Y z = (\<lambda>(x, y). res curve X (x * z\<^sup>2) \<and> res curve Y (y * z ^ 3))"

definition chord :: "nat \<Rightarrow> int \<times> int \<Rightarrow> int \<times> int \<Rightarrow> int \<times> int \<Rightarrow> bool" where
  "chord p = (\<lambda>(x1, y1) (x2, y2) (x3, y3).
     \<exists>l. eqm p (l * (x2 - x1)) (y2 - y1) \<and> eqm p x3 (l\<^sup>2 - x1 - x2) \<and> eqm p y3 (l * (x1 - x3) - y1))"

definition tangent :: "nat \<Rightarrow> int \<Rightarrow> int \<times> int \<Rightarrow> int \<times> int \<Rightarrow> bool" where
  "tangent p a = (\<lambda>(x, y) (x3, y3).
     \<exists>l. eqm p (l * (2 * y)) (3 * x\<^sup>2 + a) \<and> eqm p x3 (l\<^sup>2 - 2 * x) \<and> eqm p y3 (l * (x - x3) - y))"

text \<open>The denominator after a co-Z addition.\<close>

definition next_z :: "int \<Rightarrow> int \<times> int \<Rightarrow> int \<times> int \<Rightarrow> int" where
  "next_z z P Q = (fst Q - fst P) * z ^ 3"

lemma chord_polynomials:
  assumes l: "eqm p (l * (x2 - x1)) (y2 - y1)" and x3: "eqm p x3 (l\<^sup>2 - x1 - x2)" and y3: "eqm p y3 (l * (x1 - x3) - y1)"
    and X1: "X1 = x1 * z\<^sup>2" and Y1: "Y1 = y1 * z ^ 3" and X2: "X2 = x2 * z\<^sup>2" and Y2: "Y2 = y2 * z ^ 3"
  defines "z' \<equiv> (x2 - x1) * z ^ 3" and "B \<equiv> X1 * (X2 - X1)\<^sup>2" and "C \<equiv> X2 * (X2 - X1)\<^sup>2"
  shows "B = x1 * z'\<^sup>2" "Y1 * (C - B) = y1 * z' ^ 3"
    "eqm p ((Y2 - Y1)\<^sup>2 - B - C) (x3 * z'\<^sup>2)"
    "eqm p ((Y2 - Y1) * (B - ((Y2 - Y1)\<^sup>2 - B - C)) - Y1 * (C - B)) (y3 * z' ^ 3)"
proof -
  define W where "W = l * (x2 - x1)"
  show B: "B = x1 * z'\<^sup>2" and E: "Y1 * (C - B) = y1 * z' ^ 3"
    unfolding B_def C_def z'_def X1 X2 Y1 by algebra+
  have w: "eqm p (y2 - y1) W" using l by (simp add: W_def eqm_sym)
  have d: "Y2 - Y1 = (y2 - y1) * z ^ 3" unfolding Y1 Y2 by algebra
  have a: "eqm p ((Y2 - Y1)\<^sup>2 - B - C) ((W * z ^ 3)\<^sup>2 - B - C)"
    unfolding d by (intro eqm_ring eqm_refl w)
  have b: "(W * z ^ 3)\<^sup>2 - B - C = (l\<^sup>2 - x1 - x2) * z'\<^sup>2"
    unfolding W_def B_def C_def z'_def X1 X2 by algebra
  have c: "eqm p ((l\<^sup>2 - x1 - x2) * z'\<^sup>2) (x3 * z'\<^sup>2)"
    by (intro eqm_ring eqm_refl eqm_sym [OF x3])
  from a [unfolded b] c show X: "eqm p ((Y2 - Y1)\<^sup>2 - B - C) (x3 * z'\<^sup>2)" by (rule eqm_trans)
  have a': "eqm p ((Y2 - Y1) * (B - ((Y2 - Y1)\<^sup>2 - B - C)) - Y1 * (C - B)) ((W * z ^ 3) * (x1 * z'\<^sup>2 - x3 * z'\<^sup>2) - y1 * z' ^ 3)"
    unfolding E unfolding B [symmetric] unfolding d [symmetric]
    by (intro eqm_ring eqm_refl X) (unfold d, intro eqm_ring eqm_refl w)
  have b': "(W * z ^ 3) * (x1 * z'\<^sup>2 - x3 * z'\<^sup>2) - y1 * z' ^ 3 = (l * (x1 - x3) - y1) * z' ^ 3"
    unfolding W_def z'_def by algebra
  have c': "eqm p ((l * (x1 - x3) - y1) * z' ^ 3) (y3 * z' ^ 3)"
    by (intro eqm_ring eqm_refl eqm_sym [OF y3])
  from a' [unfolded b'] c' show "eqm p ((Y2 - Y1) * (B - ((Y2 - Y1)\<^sup>2 - B - C)) - Y1 * (C - B)) (y3 * z' ^ 3)"
    by (rule eqm_trans)
qed


lemma tangent_polynomials:
  assumes h: "2 * h = int p + 1"
    and l: "eqm p (l * (2 * y)) (3 * x\<^sup>2 - 3)" and x3: "eqm p x3 (l\<^sup>2 - 2 * x)" and y3: "eqm p y3 (l * (x - x3) - y)"
    and X: "X = x * z\<^sup>2" and Y: "Y = y * z ^ 3"
  defines "z' \<equiv> y * z ^ 4" and "A \<equiv> X * Y\<^sup>2" and "M \<equiv> (X + z\<^sup>2) * (X + z\<^sup>2 - (z\<^sup>2 + z\<^sup>2))"
  defines "B \<equiv> (M + (M + M)) * h"
  shows "Y * z = z'" "eqm p (B\<^sup>2 - A - A) (x3 * z'\<^sup>2)" "eqm p (B * (A - (B\<^sup>2 - A - A)) - (Y\<^sup>2)\<^sup>2) (y3 * z' ^ 3)"
proof -
  show "Y * z = z'" unfolding z'_def Y by algebra
  have A: "A = x * z'\<^sup>2" unfolding A_def z'_def X Y by algebra
  have Y4: "(Y\<^sup>2)\<^sup>2 = y * z' ^ 3" unfolding z'_def Y by algebra
  have B: "eqm p B (l * z')"
  proof -
    have "B = (3 * x\<^sup>2 - 3) * (z ^ 4 * h)" unfolding B_def M_def X by algebra
    moreover have "eqm p ((3 * x\<^sup>2 - 3) * (z ^ 4 * h)) ((l * (2 * y)) * (z ^ 4 * h))"
      by (intro eqm_ring eqm_refl eqm_sym [OF l])
    moreover have "(l * (2 * y)) * (z ^ 4 * h) = l * z' + int p * (l * z')"
    proof -
      have "(l * (2 * y)) * (z ^ 4 * h) = l * z' * (2 * h)" unfolding z'_def by algebra
      then show ?thesis unfolding h by algebra
    qed
    ultimately show ?thesis by (simp add: eqm_def)
  qed
  have a: "eqm p (B\<^sup>2 - A - A) ((l * z')\<^sup>2 - A - A)" by (intro eqm_ring eqm_refl B)
  have b: "(l * z')\<^sup>2 - A - A = (l\<^sup>2 - 2 * x) * z'\<^sup>2" unfolding A by algebra
  have c: "eqm p ((l\<^sup>2 - 2 * x) * z'\<^sup>2) (x3 * z'\<^sup>2)" by (intro eqm_ring eqm_refl eqm_sym [OF x3])
  from a [unfolded b] c show XX: "eqm p (B\<^sup>2 - A - A) (x3 * z'\<^sup>2)" by (rule eqm_trans)
  have a': "eqm p (B * (A - (B\<^sup>2 - A - A)) - (Y\<^sup>2)\<^sup>2) ((l * z') * (A - x3 * z'\<^sup>2) - (Y\<^sup>2)\<^sup>2)"
    by (rule eqm_ring(2) [OF eqm_ring(3) [OF B eqm_ring(2) [OF eqm_refl XX]] eqm_refl])
  have b': "(l * z') * (A - x3 * z'\<^sup>2) - (Y\<^sup>2)\<^sup>2 = (l * (x - x3) - y) * z' ^ 3" unfolding A Y4 by algebra
  have c': "eqm p ((l * (x - x3) - y) * z' ^ 3) (y3 * z' ^ 3)" by (intro eqm_ring eqm_refl eqm_sym [OF y3])
  from a' [unfolded b'] c' show "eqm p (B * (A - (B\<^sup>2 - A - A)) - (Y\<^sup>2)\<^sup>2) (y3 * z' ^ 3)" by (rule eqm_trans)
qed

context fast_field
begin

lemma field_order: "field_order curve = p"
  using words(1) order(1) by (simp add: field_order_def)

lemma res_eqm_p: "res curve x e \<Longrightarrow> eqm p e f \<Longrightarrow> res curve x f"
  using res_eqm by (simp add: field_order)

lemma XYcZ_add_chord:
  assumes P: "scaled curve X1 Y1 z P" and Q: "scaled curve X2 Y2 z Q" and c: "chord p P Q R"
  shows "holds (\<lambda>(X1, Y1, X2, Y2). scaled curve X1 Y1 (next_z z P Q) P \<and> scaled curve X2 Y2 (next_z z P Q) R)
    (XYcZ_add X1 Y1 X2 Y2 curve)"
proof -
  obtain x1 y1 x2 y2 x3 y3 where e: "P = (x1, y1)" "Q = (x2, y2)" "R = (x3, y3)" by (metis surj_pair)
  obtain l where l: "eqm p (l * (x2 - x1)) (y2 - y1)" "eqm p x3 (l\<^sup>2 - x1 - x2)" "eqm p y3 (l * (x1 - x3) - y1)"
    using c by (auto simp: chord_def e)
  note poly = chord_polynomials [OF l refl refl refl refl, of z]
  obtain X1' Y1' X2' Y2' where r: "XYcZ_add X1 Y1 X2 Y2 curve = (X1', Y1', X2', Y2')" by (metis surj_pair)
  have "res curve X1 (x1 * z\<^sup>2)" "res curve Y1 (y1 * z ^ 3)" "res curve X2 (x2 * z\<^sup>2)" "res curve Y2 (y2 * z ^ 3)"
    using P Q by (simp_all add: scaled_def e)
  note f = XYcZ_add_res [OF this, unfolded r holds_def prod.case Let_def]
  have "res curve X1' (x1 * ((x2 - x1) * z ^ 3)\<^sup>2)" "res curve Y1' (y1 * ((x2 - x1) * z ^ 3) ^ 3)"
    using f by - (unfold poly(1,2) [symmetric], blast+)
  then show ?thesis
    unfolding r holds_def prod.case scaled_def next_z_def e fst_conv snd_conv
    using f res_eqm_p [OF _ poly(3)] res_eqm_p [OF _ poly(4)] by blast
qed

lemma XYcZ_addC_chord:
  assumes P: "scaled curve X1 Y1 z P" and Q: "scaled curve X2 Y2 z Q" and c: "chord p P Q S" and d: "chord p P (fst Q, - snd Q) D"
  shows "holds (\<lambda>(X1, Y1, X2, Y2). scaled curve X1 Y1 (next_z z P Q) D \<and> scaled curve X2 Y2 (next_z z P Q) S)
    (XYcZ_addC X1 Y1 X2 Y2 curve)"
proof -
  obtain x1 y1 x2 y2 x3 y3 x4 y4 where e: "P = (x1, y1)" "Q = (x2, y2)" "S = (x3, y3)" "D = (x4, y4)" by (metis surj_pair)
  obtain l where l: "eqm p (l * (x2 - x1)) (y2 - y1)" "eqm p x3 (l\<^sup>2 - x1 - x2)" "eqm p y3 (l * (x1 - x3) - y1)"
    using c by (auto simp: chord_def e)
  obtain k where k: "eqm p (k * (x2 - x1)) (- y2 - y1)" "eqm p x4 (k\<^sup>2 - x1 - x2)" "eqm p y4 (k * (x1 - x4) - y1)"
    using d by (auto simp: chord_def e)
  note poly = chord_polynomials [OF l refl refl refl refl, of z]
  note poly' = chord_polynomials [OF k refl refl refl refl, of z]
  obtain X1' Y1' X2' Y2' where r: "XYcZ_addC X1 Y1 X2 Y2 curve = (X1', Y1', X2', Y2')" by (metis surj_pair)
  have "res curve X1 (x1 * z\<^sup>2)" "res curve Y1 (y1 * z ^ 3)" "res curve X2 (x2 * z\<^sup>2)" "res curve Y2 (y2 * z ^ 3)"
    using P Q by (simp_all add: scaled_def e)
  note f = XYcZ_addC_res [OF this, unfolded r holds_def prod.case Let_def]
  define B where "B = x1 * z\<^sup>2 * (x2 * z\<^sup>2 - x1 * z\<^sup>2)\<^sup>2"
  define C where "C = x2 * z\<^sup>2 * (x2 * z\<^sup>2 - x1 * z\<^sup>2)\<^sup>2"
  define E where "E = y1 * z ^ 3 * (C - B)"
  define s where "s = y2 * z ^ 3 + y1 * z ^ 3"
  define t where "t = y2 * z ^ 3 - y1 * z ^ 3"
  have f': "res curve X1' (s\<^sup>2 - (B + C))" "res curve Y1' ((s\<^sup>2 - (B + C) - B) * s - E)"
    "res curve X2' (t\<^sup>2 - (B + C))" "res curve Y2' (t * (B - (t\<^sup>2 - (B + C))) - E)"
    using f unfolding B_def C_def E_def s_def t_def by blast+
  have q: "eqm p (t\<^sup>2 - B - C) (x3 * ((x2 - x1) * z ^ 3)\<^sup>2)" "eqm p (t * (B - (t\<^sup>2 - B - C)) - E) (y3 * ((x2 - x1) * z ^ 3) ^ 3)"
    using poly(3,4) unfolding B_def C_def E_def t_def by blast+
  have u: "- y2 * z ^ 3 - y1 * z ^ 3 = - s" by (simp add: s_def)
  have q': "eqm p ((- s)\<^sup>2 - B - C) (x4 * ((x2 - x1) * z ^ 3)\<^sup>2)" "eqm p ((- s) * (B - ((- s)\<^sup>2 - B - C)) - E) (y4 * ((x2 - x1) * z ^ 3) ^ 3)"
    using poly'(3,4) [unfolded u] unfolding B_def C_def E_def by blast+
  have g1: "res curve X1' ((- s)\<^sup>2 - B - C)"
    by (rule res_expr [OF f'(1)]) simp
  have g2: "res curve Y1' ((- s) * (B - ((- s)\<^sup>2 - B - C)) - E)"
    by (rule res_expr [OF f'(2)]) algebra
  have g3: "res curve X2' (t\<^sup>2 - B - C)" and g4: "res curve Y2' (t * (B - (t\<^sup>2 - B - C)) - E)"
    by (rule res_expr [OF f'(3)], simp) (rule res_expr [OF f'(4)], algebra)
  show ?thesis
    unfolding r holds_def prod.case scaled_def next_z_def e fst_conv snd_conv
    using res_eqm_p [OF g1 q'(1)] res_eqm_p [OF g2 q'(2)] res_eqm_p [OF g3 q(1)] res_eqm_p [OF g4 q(2)] by blast
qed

lemma double_jacobian_default_tangent:
  assumes P: "scaled curve X1 Y1 z P" and Z: "res curve Z1 z" "vn n Z1 \<noteq> 0" and t: "tangent p (- 3) P R"
  shows "holds (\<lambda>(X1, Y1, Z1). scaled curve X1 Y1 (snd P * z ^ 4) R \<and> res curve Z1 (snd P * z ^ 4))
    (double_jacobian_default X1 Y1 Z1 curve)"
proof -
  obtain x y x3 y3 where e: "P = (x, y)" "R = (x3, y3)" by (metis surj_pair)
  obtain l where l: "eqm p (l * (2 * y)) (3 * x\<^sup>2 - 3)" "eqm p x3 (l\<^sup>2 - 2 * x)" "eqm p y3 (l * (x - x3) - y)"
    using t by (auto simp: tangent_def e)
  note poly = tangent_polynomials [OF half l refl refl, of z]
  obtain X1' Y1' Z1' where r: "double_jacobian_default X1 Y1 Z1 curve = (X1', Y1', Z1')" by (metis surj_pair)
  have "res curve X1 (x * z\<^sup>2)" "res curve Y1 (y * z ^ 3)" using P by (simp_all add: scaled_def e)
  note f = double_jacobian_default_res [OF this Z, unfolded r holds_def prod.case Let_def]
  have "res curve Z1' (y * z ^ 4)" using f by - (unfold poly(1) [symmetric], blast)
  then show ?thesis
    unfolding r holds_def prod.case scaled_def e fst_conv snd_conv
    using f res_eqm_p [OF _ poly(2)] res_eqm_p [OF _ poly(3)] by blast
qed

end

section \<open>The curves with a complete fast reduction\<close>

definition nist_curves :: "uECC_Curve set" where
  "nist_curves = {curve_secp192r1, curve_secp224r1, curve_secp256r1}"

definition base_point :: "uECC_Curve \<Rightarrow> int \<times> int" where
  "base_point curve =
     (int (vn (curve_num_words curve) (curve_G curve)), int (vn (curve_num_words curve) (drop (curve_num_words curve) (curve_G curve))))"

lemma nist_fast_field: "curve \<in> nist_curves \<Longrightarrow> fast_field curve (curve_num_words curve) (field_order curve)"
  using fast_field_secp192r1 fast_field_secp224r1 fast_field_secp256r1
    p192.field_order p224.field_order p256.field_order p192.words(1) p224.words(1) p256.words(1)
  by (auto simp: nist_curves_def)

lemma nist_functions:
  "curve \<in> nist_curves \<Longrightarrow> curve_double_jacobian curve = double_jacobian_default_fn"
  "curve \<in> nist_curves \<Longrightarrow> curve_x_side curve = x_side_default_fn"
  by (auto simp: nist_curves_def curve_secp192r1_def curve_secp224r1_def curve_secp256r1_def)

lemma nist_field_order: "curve \<in> nist_curves \<Longrightarrow>
    field_order curve \<in> {2 ^ 192 - 2 ^ 64 - 1, 2 ^ 224 - 2 ^ 96 + 1, 2 ^ 256 - 2 ^ 224 + 2 ^ 192 + 2 ^ 96 - 1}"
  using p192.field_order p224.field_order p256.field_order by (auto simp: nist_curves_def)

lemma nist_coefficient:
  assumes "curve \<in> nist_curves"
  shows "length (curve_b curve) = 4" "vn (curve_num_words curve) (curve_b curve) < field_order curve" "3 < field_order curve"
proof -
  show "length (curve_b curve) = 4"
    using assms by (auto simp: nist_curves_def curve_secp192r1_def curve_secp224r1_def curve_secp256r1_def)
  show "3 < field_order curve" using nist_field_order [OF assms] by auto
  show "vn (curve_num_words curve) (curve_b curve) < field_order curve"
    using assms p192.field_order p224.field_order p256.field_order
    by (auto simp: nist_curves_def) (simp_all add: curve_secp192r1_def curve_secp224r1_def curve_secp256r1_def)
qed

lemma nist_base_point:
  assumes "curve \<in> nist_curves"
  shows "res curve (curve_G curve) (fst (base_point curve))"
    "res curve (drop (curve_num_words curve) (curve_G curve)) (snd (base_point curve))"
  using assms p192.field_order p224.field_order p256.field_order
  by (auto simp: nist_curves_def res_def base_point_def field_order_def [symmetric])
    (simp_all add: curve_secp192r1_def curve_secp224r1_def curve_secp256r1_def)

lemma nist_modulus:
  assumes "curve \<in> nist_curves"
  shows "64 * (curve_num_words curve - 1) < uECC_vli_numBits (curve_p curve) (curve_num_words curve)"
proof -
  have "uECC_vli_numBits (curve_p curve_secp192r1) 3 = 192"
    by (rule numBits_unique, simp add: length_p_secp192r1, unfold vn_p_secp192r1, simp_all)
  moreover have "uECC_vli_numBits (curve_p curve_secp224r1) 4 = 224"
    by (rule numBits_unique, simp add: length_p_secp224r1, unfold vn_p_secp224r1, simp_all)
  moreover have "uECC_vli_numBits (curve_p curve_secp256r1) 4 = 256"
    by (rule numBits_unique, simp add: length_p_secp256r1, unfold vn_p_secp256r1, simp_all)
  ultimately show ?thesis using assms p192.words(1) p224.words(1) p256.words(1) by (auto simp: nist_curves_def)
qed

text \<open>C19. Fast and generic multiplication: for the curves with a complete fast reduction, and factors below the field
  order, multiplication with the fast reduction of the curve and with the shifting reduction leave the same array.\<close>

theorem modMult_fast_equivalent:
  assumes "curve \<in> nist_curves" and "n = curve_num_words curve" and "n \<le> length result" and "n \<le> length a" and "n \<le> length b"
    and "vn n a < field_order curve" and "vn n b < field_order curve"
  shows "uECC_vli_modMult_fast result a b curve = uECC_vli_modMult result a b (curve_p curve) n"
proof -
  have F: "fast_field curve n (field_order curve)" using nist_fast_field [OF assms(1)] assms(2) by simp
  note w = fast_field.words [OF F]
  have lp: "n \<le> length (curve_p curve)" using w by simp
  note f = fast_field.modMult_fast [OF F assms(3-7)]
  note g = vli_modMult_correct [OF w(2,3) assms(3-5) lp nist_modulus [OF assms(1), folded assms(2)], unfolded fast_field.order(1) [OF F]]
  show ?thesis by (rule vn_ext [of n]) (use f g assms(3) in simp_all)
qed

theorem modMult_fast_equivalent_witness:
  "uECC_vli_modMult_fast (replicate 4 0) [2, 0, 0, 0] [3, 0, 0, 0] curve_secp256r1 =
    uECC_vli_modMult (replicate 4 0) [2, 0, 0, 0] [3, 0, 0, 0] (curve_p curve_secp256r1) 4"
  by (rule modMult_fast_equivalent)
    (simp_all add: nist_curves_def p256.words(1) [symmetric] field_order_def, simp_all add: vn_four vn_p_secp256r1)

end
