(* ===== verification/Uecc_Mult.thy ===== *)
theory Uecc_Mult
  imports Uecc_Point
begin

text \<open>
  Scalar multiplication of micro-ecc (\<^verbatim>\<open>EccPoint_mult\<close> and \<^verbatim>\<open>regularize_k\<close> of \<^verbatim>\<open>uECC.c\<close>). The arrays \<^verbatim>\<open>Rx[2]\<close> and \<^verbatim>\<open>Ry[2]\<close> are
  lists of two arrays. The function returns \<open>None\<close> if the inversion does not end; that it ends is part of the theorem. The
  specification is a family of points \<open>M i\<close>, the multiples of \<open>M 1\<close>: the sums and the doubling that the ladder performs are
  chords and a tangent of the family, and the coordinate differences it divides by are prime to the order.
\<close>

section \<open>The code\<close>

definition ladder_addC :: "u64 list \<Rightarrow> nat \<Rightarrow> uECC_Curve \<Rightarrow> u64 list list \<times> u64 list list
    \<Rightarrow> nat \<times> u64 list list \<times> u64 list list" where
  "ladder_addC scalar i curve = (\<lambda>(Rx, Ry).
     let nb = of_bool (uECC_vli_testBit scalar i = 0);
         (X1, Y1, X2, Y2) = XYcZ_addC (Rx ! (1 - nb)) (Ry ! (1 - nb)) (Rx ! nb) (Ry ! nb) curve
     in (nb, Rx[1 - nb := X1, nb := X2], Ry[1 - nb := Y1, nb := Y2]))"

definition ladder_add :: "uECC_Curve \<Rightarrow> nat \<times> u64 list list \<times> u64 list list \<Rightarrow> u64 list list \<times> u64 list list" where
  "ladder_add curve = (\<lambda>(nb, Rx, Ry).
     let (X1, Y1, X2, Y2) = XYcZ_add (Rx ! nb) (Ry ! nb) (Rx ! (1 - nb)) (Ry ! (1 - nb)) curve
     in (Rx[nb := X1, 1 - nb := X2], Ry[nb := Y1, 1 - nb := Y2]))"

text \<open>The block of \<^verbatim>\<open>EccPoint_mult\<close> that finds the final 1/Z.\<close>

definition final_z :: "u64 list \<Rightarrow> u64 list \<Rightarrow> nat \<times> u64 list list \<times> u64 list list \<Rightarrow> uECC_Curve \<Rightarrow> u64 list option" where
  "final_z z point = (\<lambda>(nb, Rx, Ry) curve.
     let num_words = curve_num_words curve;
         p = curve_p curve;
         z = uECC_vli_modSub z (Rx ! 1) (Rx ! 0) p num_words;
         z = uECC_vli_modMult_fast z z (Ry ! (1 - nb)) curve;
         z = uECC_vli_modMult_fast z z point curve
     in case uECC_vli_modInv z z p num_words of
          None \<Rightarrow> None
        | Some z \<Rightarrow>
            let z = uECC_vli_modMult_fast z z (drop num_words point) curve
            in Some (uECC_vli_modMult_fast z z (Rx ! (1 - nb)) curve))"

definition EccPoint_mult :: "u64 list \<Rightarrow> u64 list \<Rightarrow> u64 list \<Rightarrow> u64 list option \<Rightarrow> nat \<Rightarrow> uECC_Curve \<Rightarrow> u64 list option" where
  "EccPoint_mult result point scalar initial_Z num_bits curve =
     (let z = replicate 4 0;
          num_words = curve_num_words curve;
          Rx1 = uECC_vli_set (replicate 4 0) point num_words;
          Ry1 = uECC_vli_set (replicate 4 0) (drop num_words point) num_words;
          (Rx1, Ry1, Rx0, Ry0) = XYcZ_initial_double Rx1 Ry1 (replicate 4 0) (replicate 4 0) initial_Z curve;
          (Rx, Ry) = for_range 0 (num_bits - 2)
            (\<lambda>j R. ladder_add curve (ladder_addC scalar (num_bits - 2 - j) curve R)) ([Rx0, Rx1], [Ry0, Ry1]);
          (nb, Rx, Ry) = ladder_addC scalar 0 curve (Rx, Ry)
      in case final_z z point (nb, Rx, Ry) curve of
           None \<Rightarrow> None
         | Some z \<Rightarrow>
             let (Rx, Ry) = ladder_add curve (nb, Rx, Ry);
                 (Rx0, Ry0) = apply_z (Rx ! 0) (Ry ! 0) z curve;
                 result = uECC_vli_set result Rx0 num_words
             in Some (take num_words result @ uECC_vli_set (drop num_words result) Ry0 num_words))"

definition BITS_TO_WORDS :: "nat \<Rightarrow> nat" where
  "BITS_TO_WORDS num_bits = (num_bits + 63) div 64"

definition BITS_TO_BYTES :: "nat \<Rightarrow> nat" where
  "BITS_TO_BYTES num_bits = (num_bits + 7) div 8"

definition regularize_k :: "u64 list \<Rightarrow> u64 list \<Rightarrow> u64 list \<Rightarrow> uECC_Curve \<Rightarrow> u64 \<times> u64 list \<times> u64 list" where
  "regularize_k k k0 k1 curve =
     (let num_n_words = BITS_TO_WORDS (curve_num_n_bits curve);
          num_n_bits = curve_num_n_bits curve;
          (carry, k0) = uECC_vli_add k0 k (curve_n curve) num_n_words;
          carry = of_bool (carry \<noteq> 0 \<or> num_n_bits < num_n_words * 8 * 8 \<and> uECC_vli_testBit k0 num_n_bits \<noteq> 0);
          (_, k1) = uECC_vli_add k1 k0 (curve_n curve) num_n_words
      in (carry, k0, k1))"

section \<open>The multiples of a point\<close>

definition neg :: "int \<times> int \<Rightarrow> int \<times> int" where
  "neg P = (fst P, - snd P)"

definition group_sum :: "nat \<Rightarrow> (int \<Rightarrow> int \<times> int) \<Rightarrow> int \<Rightarrow> int \<Rightarrow> bool" where
  "group_sum p M i j \<longleftrightarrow> chord p (M i) (M j) (M (i + j)) \<and> coprime (fst (M j) - fst (M i)) (int p)"

definition multiples :: "nat \<Rightarrow> (int \<Rightarrow> int \<times> int) \<Rightarrow> nat \<Rightarrow> nat \<Rightarrow> bool" where
  "multiples p M k num_bits \<longleftrightarrow> 
     tangent p (- 3) (M 1) (M 2) \<and> coprime (fst (M 1)) (int p) \<and> coprime (snd (M 1)) (int p)
   \<and> (\<forall>i\<in>{1..<num_bits}. let m = int (k div 2 ^ i) in
        group_sum p M m (m + 1) \<and> group_sum p M (m + 1) (- m) \<and> M (- m) = neg (M m) \<and>
        group_sum p M (2 * m + 1) (if bit k (i - 1) then 1 else - 1))
   \<and> M (- 1) = neg (M 1)"

lemma neg_neg [simp]: "neg (neg P) = P"
  by (simp add: neg_def)

lemma chord_sym: "chord p P Q R \<Longrightarrow> chord p Q P R"
proof -
  obtain x1 y1 x2 y2 x3 y3 where e: "P = (x1, y1)" "Q = (x2, y2)" "R = (x3, y3)" by (metis surj_pair)
  assume "chord p P Q R"
  then obtain l where l: "eqm p (l * (x2 - x1)) (y2 - y1)" "eqm p x3 (l\<^sup>2 - x1 - x2)" "eqm p y3 (l * (x1 - x3) - y1)"
    by (auto simp: chord_def e)
  have a: "eqm p (l * (x1 - x2)) (y1 - y2)"
    using eqm_ring(2) [OF eqm_refl [of p 0] l(1)] by (simp add: algebra_simps)
  have e2: "l * (x1 - x3) - y1 + l * (x2 - x1) - (y2 - y1) = l * (x2 - x3) - y2"
    by algebra
  have c: "eqm p y3 (l * (x2 - x3) - y2)"
    using eqm_ring(2) [OF eqm_ring(1) [OF l(3) eqm_sym [OF l(1)]] eqm_refl [of p "y2 - y1"]] unfolding e2
    by (rule eqm_trans [rotated]) (simp add: eqm_def)
  have b: "eqm p x3 (l\<^sup>2 - x2 - x1)" using l(2) by (simp add: algebra_simps)
  show ?thesis unfolding chord_def e prod.case using a b c by blast
qed

lemma chord_neg: "chord p P Q R \<Longrightarrow> chord p (neg P) (neg Q) (neg R)"
proof -
  obtain x1 y1 x2 y2 x3 y3 where e: "P = (x1, y1)" "Q = (x2, y2)" "R = (x3, y3)" by (metis surj_pair)
  assume "chord p P Q R"
  then obtain l where l: "eqm p (l * (x2 - x1)) (y2 - y1)" "eqm p x3 (l\<^sup>2 - x1 - x2)" "eqm p y3 (l * (x1 - x3) - y1)"
    by (auto simp: chord_def e)
  have "eqm p ((- l) * (x2 - x1)) (- y2 - - y1)" "eqm p x3 ((- l)\<^sup>2 - x1 - x2)" "eqm p (- y3) ((- l) * (x1 - x3) - - y1)"
    using eqm_ring(2) [OF eqm_refl [of p 0] l(1)] l(2) eqm_ring(2) [OF eqm_refl [of p 0] l(3)] by (simp_all add: algebra_simps)
  then show ?thesis unfolding chord_def e neg_def prod.case fst_conv snd_conv by blast
qed


section \<open>The ladder\<close>

text \<open>The two arrays hold \<open>M m\<close> and \<open>M (m + 1)\<close> over a common denominator that is prime to the order.\<close>

definition ladder_state :: "uECC_Curve \<Rightarrow> (int \<Rightarrow> int \<times> int) \<Rightarrow> int \<Rightarrow> u64 list list \<times> u64 list list \<Rightarrow> bool" where
  "ladder_state curve M m = (\<lambda>(Rx, Ry). length Rx = 2 \<and> length Ry = 2 \<and>
     (\<exists>z. coprime z (int (field_order curve)) \<and> scaled curve (Rx ! 0) (Ry ! 0) z (M m) \<and> scaled curve (Rx ! 1) (Ry ! 1) z (M (m + 1))))"

text \<open>Between the two additions of a step: entry \<open>nb\<close> holds the sum, the other one the difference.\<close>

definition ladder_mid :: "uECC_Curve \<Rightarrow> int \<times> int \<Rightarrow> int \<times> int \<Rightarrow> int \<Rightarrow> nat \<times> u64 list list \<times> u64 list list \<Rightarrow> bool" where
  "ladder_mid curve S D z = (\<lambda>(nb, Rx, Ry). length Rx = 2 \<and> length Ry = 2 \<and> nb \<le> 1 \<and>
     coprime z (int (field_order curve)) \<and> scaled curve (Rx ! nb) (Ry ! nb) z S \<and> scaled curve (Rx ! (1 - nb)) (Ry ! (1 - nb)) z D)"

context fast_field
begin

lemma coprime_next_z: "coprime z (int p) \<Longrightarrow> coprime (fst Q - fst P) (int p) \<Longrightarrow> coprime (next_z z P Q) (int p)"
  by (simp add: next_z_def)

lemma ladder_addC_state:
  assumes L: "ladder_state curve M m R" and k: "uECC_vli_testBit scalar i \<noteq> 0 \<longleftrightarrow> b"
    and s: "group_sum p M m (m + 1)" "group_sum p M (m + 1) (- m)" and neg: "M (- m) = neg (M m)" "M (- 1) = neg (M 1)"
  shows "\<exists>z. ladder_mid curve (M (2 * m + 1)) (M (if b then 1 else - 1)) z (ladder_addC scalar i curve R)
    \<and> fst (ladder_addC scalar i curve R) = of_bool (\<not> b)"
proof -
  obtain Rx Ry z where R: "R = (Rx, Ry)" "length Rx = 2" "length Ry = 2" and z: "coprime z (int p)"
    and S: "scaled curve (Rx ! 0) (Ry ! 0) z (M m)" "scaled curve (Rx ! 1) (Ry ! 1) z (M (m + 1))"
    using L by (auto simp: ladder_state_def field_order)
  have c: "chord p (M m) (M (m + 1)) (M (2 * m + 1))" "chord p (M (m + 1)) (neg (M m)) (M 1)"
    and d: "coprime (fst (M (m + 1)) - fst (M m)) (int p)"
    using s neg by (simp_all add: group_sum_def algebra_simps)
  have d': "coprime (fst (M m) - fst (M (m + 1))) (int p)" using d by (metis coprime_minus_left_iff minus_diff_eq)
  have c': "chord p (M m) (neg (M (m + 1))) (M (- 1))"
    using chord_sym [OF chord_neg [OF c(2)]] neg by simp
  show ?thesis
  proof (cases b)
    case True
    obtain X1 Y1 X2 Y2 where r: "XYcZ_addC (Rx ! 1) (Ry ! 1) (Rx ! 0) (Ry ! 0) curve = (X1, Y1, X2, Y2)" by (metis surj_pair)
    have "scaled curve X1 Y1 (next_z z (M (m + 1)) (M m)) (M 1)" "scaled curve X2 Y2 (next_z z (M (m + 1)) (M m)) (M (2 * m + 1))"
      using XYcZ_addC_chord [OF S(2,1) chord_sym [OF c(1)]] c(2) unfolding neg_def r holds_def prod.case by blast+
    then show ?thesis
      using True k R r coprime_next_z [OF z d'] by (simp add: ladder_addC_def ladder_mid_def field_order) blast
  next
    case False
    obtain X1 Y1 X2 Y2 where r: "XYcZ_addC (Rx ! 0) (Ry ! 0) (Rx ! 1) (Ry ! 1) curve = (X1, Y1, X2, Y2)" by (metis surj_pair)
    have "scaled curve X1 Y1 (next_z z (M m) (M (m + 1))) (M (- 1))" "scaled curve X2 Y2 (next_z z (M m) (M (m + 1))) (M (2 * m + 1))"
      using XYcZ_addC_chord [OF S c(1)] c' unfolding neg_def r holds_def prod.case by blast+
    then show ?thesis
      using False k R r coprime_next_z [OF z d] by (simp add: ladder_addC_def ladder_mid_def field_order) blast
  qed
qed

lemma ladder_add_state:
  assumes L: "ladder_mid curve S D z R" and c: "chord p S D T" and d: "coprime (fst D - fst S) (int p)"
  shows "case ladder_add curve R of (Rx, Ry) \<Rightarrow> length Rx = 2 \<and> length Ry = 2 \<and> coprime (next_z z S D) (int p)
    \<and> scaled curve (Rx ! fst R) (Ry ! fst R) (next_z z S D) S \<and> scaled curve (Rx ! (1 - fst R)) (Ry ! (1 - fst R)) (next_z z S D) T"
proof -
  obtain nb Rx Ry where R: "R = (nb, Rx, Ry)" "length Rx = 2" "length Ry = 2" "nb \<le> 1" and z: "coprime z (int p)"
    and S: "scaled curve (Rx ! nb) (Ry ! nb) z S" "scaled curve (Rx ! (1 - nb)) (Ry ! (1 - nb)) z D"
    using L by (auto simp: ladder_mid_def field_order)
  obtain X1 Y1 X2 Y2 where r: "XYcZ_add (Rx ! nb) (Ry ! nb) (Rx ! (1 - nb)) (Ry ! (1 - nb)) curve = (X1, Y1, X2, Y2)" by (metis surj_pair)
  have "scaled curve X1 Y1 (next_z z S D) S" "scaled curve X2 Y2 (next_z z S D) T"
    using XYcZ_add_chord [OF S c] unfolding r holds_def prod.case by blast+
  then show ?thesis
    using R r coprime_next_z [OF z d] by (cases nb) (simp_all add: ladder_add_def)
qed

lemma ladder_step_state:
  assumes L: "ladder_state curve M m R" and k: "uECC_vli_testBit scalar i \<noteq> 0 \<longleftrightarrow> b"
    and s: "group_sum p M m (m + 1)" "group_sum p M (m + 1) (- m)" "group_sum p M (2 * m + 1) (if b then 1 else - 1)"
    and neg: "M (- m) = neg (M m)" "M (- 1) = neg (M 1)"
  shows "ladder_state curve M (2 * m + of_bool b) (ladder_add curve (ladder_addC scalar i curve R))"
proof -
  obtain z where z: "ladder_mid curve (M (2 * m + 1)) (M (if b then 1 else - 1)) z (ladder_addC scalar i curve R)"
    "fst (ladder_addC scalar i curve R) = of_bool (\<not> b)"
    using ladder_addC_state [OF L k s(1,2) neg] by blast
  show ?thesis
    using ladder_add_state [OF z(1), of "M (2 * m + 1 + (if b then 1 else - 1))"] s(3)
    unfolding z(2) by (cases b) (auto simp: group_sum_def ladder_state_def field_order algebra_simps)
qed


lemma vn_nonzero: "res curve Z z \<Longrightarrow> coprime z (int p) \<Longrightarrow> vn n Z \<noteq> 0"
proof
  assume "res curve Z z" and c: "coprime z (int p)" and "vn n Z = 0"
  then have "int p dvd z" by (simp add: res_iff dvd_eq_mod_eq_0)
  with c have "int p dvd 1" by (metis coprime_common_divisor dvd_refl)
  then show False using order(2) by simp
qed

lemma initial_z:
  assumes "case initial_Z of None \<Rightarrow> True | Some Z \<Rightarrow> \<exists>z. res curve Z z \<and> coprime z (int p)"
  shows "\<exists>z. res curve (case initial_Z of Some Z \<Rightarrow> uECC_vli_set (replicate 4 0) Z n
    | None \<Rightarrow> (uECC_vli_clear (replicate 4 0) n)[0 := 1]) z \<and> coprime z (int p)"
proof (cases initial_Z)
  case None
  have "res curve ((uECC_vli_clear (replicate 4 0) n)[0 := 1]) 1"
    using words order vn_one [of n "replicate 4 0"] by (simp add: res_iff del: One_nat_def)
  then show ?thesis using None by (auto intro: exI [of _ 1])
next
  case (Some Z)
  then show ?thesis using assms res_set [OF buf_local] by auto
qed

lemma initial_double_state:
  assumes fn: "curve_double_jacobian curve = double_jacobian_default_fn"
    and X: "res curve X1 (fst P)" "res curve Y1 (snd P)" "buf curve X2" "buf curve Y2"
    and Z: "case initial_Z of None \<Rightarrow> True | Some Z \<Rightarrow> \<exists>z. res curve Z z \<and> coprime z (int p)"
    and t: "tangent p (- 3) P Q" and y: "coprime (snd P) (int p)"
  shows "case XYcZ_initial_double X1 Y1 X2 Y2 initial_Z curve of (X1, Y1, X2, Y2) \<Rightarrow>
    \<exists>z. coprime z (int p) \<and> scaled curve X1 Y1 z Q \<and> scaled curve X2 Y2 z P"
proof -
  define Z0 where "Z0 = (case initial_Z of Some Z \<Rightarrow> uECC_vli_set (replicate 4 0) Z n
    | None \<Rightarrow> (uECC_vli_clear (replicate 4 0) n)[0 := 1])"
  obtain z where z: "res curve Z0 z" "coprime z (int p)" using initial_z [OF Z] unfolding Z0_def by blast
  define X2' where "X2' = uECC_vli_set X2 X1 n"
  define Y2' where "Y2' = uECC_vli_set Y2 Y1 n"
  have r2: "res curve X2' (fst P)" "res curve Y2' (snd P)" unfolding X2'_def Y2'_def using res_set X by blast+
  obtain X3 Y3 where a: "apply_z X1 Y1 Z0 curve = (X3, Y3)" by fastforce
  have s: "scaled curve X3 Y3 z P"
    using apply_z_res [OF X(1,2) z(1)] by (simp add: a holds_def scaled_def case_prod_beta power_numeral_reduce mult.assoc)
  obtain X4 Y4 Z4 where d: "double_jacobian_default X3 Y3 Z0 curve = (X4, Y4, Z4)" by (metis surj_pair)
  have s4: "scaled curve X4 Y4 (snd P * z ^ 4) Q" "res curve Z4 (snd P * z ^ 4)"
    using double_jacobian_default_tangent [OF s z(1) vn_nonzero [OF z] t] by (simp_all add: d holds_def)
  obtain X5 Y5 where b: "apply_z X2' Y2' Z4 curve = (X5, Y5)" by fastforce
  have "scaled curve X5 Y5 (snd P * z ^ 4) P"
    using apply_z_res [OF r2 s4(2)] by (simp add: b holds_def scaled_def case_prod_beta power_numeral_reduce mult.assoc)
  moreover have "XYcZ_initial_double X1 Y1 X2 Y2 initial_Z curve = (X4, Y4, X5, Y5)"
    unfolding XYcZ_initial_double_def words(1) [symmetric] Let_def Z0_def [symmetric] X2'_def [symmetric] Y2'_def [symmetric]
      a double_jacobian_def fn prod.case double_jacobian_fn.case d b ..
  moreover have "coprime (snd P * z ^ 4) (int p)" using y z(2) by simp
  ultimately show ?thesis using s4(1) by (simp only: prod.case) blast
qed

lemma ladder_loop_state:
  assumes bits: "\<And>i. i < num_bits - 1 \<Longrightarrow> uECC_vli_testBit scalar i \<noteq> 0 \<longleftrightarrow> bit k i"
    and k: "2 \<le> num_bits" "2 ^ (num_bits - 1) \<le> k" "k < 2 ^ num_bits" and M: "multiples p M k num_bits"
    and R: "ladder_state curve M 1 R"
  shows "ladder_state curve M (int (k div 2))
    (for_range 0 (num_bits - 2) (\<lambda>j R. ladder_add curve (ladder_addC scalar (num_bits - 2 - j) curve R)) R)"
proof -
  have "ladder_state curve M (int (k div 2 ^ (num_bits - 1 - (num_bits - 2))))
    (for_range 0 (num_bits - 2) (\<lambda>j R. ladder_add curve (ladder_addC scalar (num_bits - 2 - j) curve R)) R)"
  proof (rule for_range_invariant [where P = "\<lambda>j. ladder_state curve M (int (k div 2 ^ (num_bits - 1 - j)))"])
    have "(2 :: nat) ^ num_bits = 2 * 2 ^ (num_bits - 1)" using k(1) by (cases num_bits) simp_all
    then have "k div 2 ^ (num_bits - 1) = 1" using k(2,3) by (simp add: div_nat_eqI)
    then show "ladder_state curve M (int (k div 2 ^ (num_bits - 1 - 0))) R" using R by simp
  next
    fix j R assume j: "0 \<le> j" "j < num_bits - 2" and S: "ladder_state curve M (int (k div 2 ^ (num_bits - 1 - j))) R"
    define i where "i = num_bits - 2 - j"
    have i: "num_bits - 1 - j = i + 1" "num_bits - 1 - Suc j = i" "i + 1 \<in> {1..<num_bits}" using j by (auto simp: i_def)
    have "k div 2 ^ i = 2 * (k div 2 ^ (i + 1)) + of_bool (bit k i)"
      using div_mult_mod_eq [of "k div 2 ^ i" 2] by (simp add: bit_iff_odd div_mult2_eq [symmetric] mult.commute flip: mod_2_eq_odd)
    then have m: "int (k div 2 ^ i) = 2 * int (k div 2 ^ (i + 1)) + of_bool (bit k i)" by simp
    note s = M [unfolded multiples_def Let_def, THEN conjunct2, THEN conjunct2, THEN conjunct2, THEN conjunct1, rule_format, OF i(3)]
    show "ladder_state curve M (int (k div 2 ^ (num_bits - 1 - Suc j))) (ladder_add curve (ladder_addC scalar (num_bits - 2 - j) curve R))"
      unfolding i(2) i_def [symmetric] m
      by (rule ladder_step_state [OF S [unfolded i(1)]]) (use s M bits [of i] j in \<open>simp_all add: multiples_def i_def\<close>)
  qed simp
  moreover have "num_bits - 1 - (num_bits - 2) = 1" using k(1) by simp
  ultimately show ?thesis by simp
qed

lemma res_modInv:
  assumes "res curve x e" "coprime e (int p)" "buf curve r"
  shows "\<exists>y f. uECC_vli_modInv r x (curve_p curve) n = Some y \<and> res curve y f \<and> eqm p (f * e) 1"
proof -
  have x: "n \<le> length x" "int (vn n x) = e mod int p" and r: "n \<le> length r" using assms by (simp_all add: res_iff buf_iff)
  have m: "n \<le> length (curve_p curve)" "odd (vn n (curve_p curve))" "1 < vn n (curve_p curve)" using words order by simp_all
  obtain y where y: "uECC_vli_modInv r x (curve_p curve) n = Some y" "length y = length r" "vn n y < p"
    "vn n y * vn n x mod p = gcd (vn n x) p mod p"
    using vli_modInv_correct [OF words(2,3) r x(1) m] vn_nonzero [OF assms(1,2)] order(1) by auto
  have "gcd (int (vn n x)) (int p) = 1" using assms(2) by (simp add: x(2) coprime_iff_gcd_eq_1 gcd.commute gcd_red_int [symmetric])
  then have "gcd (vn n x) p = 1" by (simp add: gcd_int_int_eq)
  then have "int (vn n y * vn n x mod p) = int (1 mod p)" unfolding y(4) by simp
  then have "int (vn n y * vn n x) mod int p = 1 mod int p" by (simp only: of_nat_mod of_nat_1)
  then have "eqm p (int (vn n y) * e) 1" by (simp add: eqm_def x(2) mod_mult_right_eq)
  moreover have "res curve y (int (vn n y))" using y(2,3) r by (simp add: res_iff)
  ultimately show ?thesis using y(1) by blast
qed


text \<open>The denominator that the code computes from the last difference is the inverse of the one the coordinates have.\<close>

lemma last_denominator:
  assumes "sg = 1 \<or> sg = - 1" and f: "eqm p (f * (sg * ((xP - xS) * z\<^sup>2) * (sg * yP * z ^ 3) * xP)) 1"
    and w: "w = f * yP * (xP * z\<^sup>2)" and v: "v = (xP - xS) * z ^ 3"
  shows "eqm p (x * v\<^sup>2 * w\<^sup>2) x" "eqm p (x * v ^ 3 * (w\<^sup>2 * w)) x"
proof -
  have "f * (sg * ((xP - xS) * z\<^sup>2) * (sg * yP * z ^ 3) * xP) = (sg * sg) * (v * w)"
    unfolding w v by algebra
  moreover have "sg * sg = 1" using assms(1) by auto
  ultimately have o: "eqm p (v * w) 1" using f by simp
  have e: "x * v\<^sup>2 * w\<^sup>2 = x * (v * w)\<^sup>2" "x * v ^ 3 * (w\<^sup>2 * w) = x * (v * w) ^ 3" by algebra+
  have "eqm p (x * (v * w) ^ i) (x * 1 ^ i)" for i by (intro eqm_ring eqm_refl o)
  then show "eqm p (x * v\<^sup>2 * w\<^sup>2) x" "eqm p (x * v ^ 3 * (w\<^sup>2 * w)) x"
    unfolding e by (metis mult.right_neutral power_one)+
qed

lemma final_z_res:
  assumes L: "ladder_mid curve S D z (nb, Rx, Ry)" and nb: "nb = of_bool (\<not> b)"
    and D: "D = (xP, (if b then 1 else - 1) * yP)"
    and cop: "coprime xP (int p)" "coprime yP (int p)" "coprime (xP - fst S) (int p)"
    and P: "res curve point xP" "res curve (drop n point) yP"
  shows "\<exists>Z f. final_z (replicate 4 0) point (nb, Rx, Ry) curve = Some Z \<and> res curve Z (f * yP * (xP * z\<^sup>2))
    \<and> eqm p (f * ((if b then 1 else - 1) * ((xP - fst S) * z\<^sup>2) * ((if b then 1 else - 1) * yP * z ^ 3) * xP)) 1"
proof -
  define sg :: int where "sg = (if b then 1 else - 1)"
  have sg: "sg = 1 \<or> sg = - 1" by (simp add: sg_def)
  have S: "res curve (Rx ! nb) (fst S * z\<^sup>2)" and Dx: "res curve (Rx ! (1 - nb)) (xP * z\<^sup>2)"
    and Dy: "res curve (Ry ! (1 - nb)) (sg * yP * z ^ 3)" and z: "coprime z (int p)"
    using L D by (simp_all add: ladder_mid_def scaled_def case_prod_beta sg_def field_order)
  define z0 where "z0 = uECC_vli_modSub (replicate 4 0) (Rx ! 1) (Rx ! 0) (curve_p curve) n"
  have z0: "res curve z0 (sg * ((xP - fst S) * z\<^sup>2))"
  proof (cases b)
    case True
    then have "res curve z0 (xP * z\<^sup>2 - fst S * z\<^sup>2)" using res_sub [OF buf_local Dx S] nb by (simp add: z0_def)
    then show ?thesis using True by (simp add: sg_def algebra_simps)
  next
    case False
    then have "res curve z0 (fst S * z\<^sup>2 - xP * z\<^sup>2)" using res_sub [OF buf_local S Dx] nb by (simp add: z0_def)
    then show ?thesis using False by (simp add: sg_def algebra_simps)
  qed
  define z1 where "z1 = uECC_vli_modMult_fast z0 z0 (Ry ! (1 - nb)) curve"
  define z2 where "z2 = uECC_vli_modMult_fast z1 z1 point curve"
  have z1: "res curve z1 (sg * ((xP - fst S) * z\<^sup>2) * (sg * yP * z ^ 3))"
    unfolding z1_def by (rule res_mult [OF res_buf [OF z0] z0 Dy])
  have z2: "res curve z2 (sg * ((xP - fst S) * z\<^sup>2) * (sg * yP * z ^ 3) * xP)"
    unfolding z2_def by (rule res_mult [OF res_buf [OF z1] z1 P(1)])
  have "coprime (sg * ((xP - fst S) * z\<^sup>2) * (sg * yP * z ^ 3) * xP) (int p)"
    using sg cop z by auto
  then obtain z3 f where z3: "uECC_vli_modInv z2 z2 (curve_p curve) n = Some z3" "res curve z3 f"
    "eqm p (f * (sg * ((xP - fst S) * z\<^sup>2) * (sg * yP * z ^ 3) * xP)) 1"
    using res_modInv [OF z2 _ res_buf [OF z2]] by blast
  define z4 where "z4 = uECC_vli_modMult_fast z3 z3 (drop n point) curve"
  have z4: "res curve z4 (f * yP)" unfolding z4_def by (rule res_mult [OF res_buf [OF z3(2)] z3(2) P(2)])
  have "final_z (replicate 4 0) point (nb, Rx, Ry) curve = Some (uECC_vli_modMult_fast z4 z4 (Rx ! (1 - nb)) curve)"
    unfolding final_z_def prod.case Let_def words(1) [symmetric] z0_def [symmetric] z1_def [symmetric] z2_def [symmetric]
      z3(1) option.case z4_def [symmetric] ..
  moreover have "res curve (uECC_vli_modMult_fast z4 z4 (Rx ! (1 - nb)) curve) (f * yP * (xP * z\<^sup>2))"
    by (rule res_mult [OF res_buf [OF z4] z4 Dx])
  ultimately show ?thesis using z3(3) unfolding sg_def by blast
qed


lemma res_prefix: "res curve x e \<Longrightarrow> n \<le> length y \<Longrightarrow> take n y = take n x \<Longrightarrow> res curve y e"
  by (simp add: res_iff)

lemma EccPoint_mult_correct:
  assumes fn: "curve_double_jacobian curve = double_jacobian_default_fn"
    and P: "res curve point (fst (M 1))" "res curve (drop n point) (snd (M 1))" and r: "2 * n \<le> length result"
    and Z: "case initial_Z of None \<Rightarrow> True | Some Z \<Rightarrow> \<exists>z. res curve Z z \<and> coprime z (int p)"
    and bits: "\<And>i. i < num_bits - 1 \<Longrightarrow> uECC_vli_testBit scalar i \<noteq> 0 \<longleftrightarrow> bit k i"
    and k: "2 \<le> num_bits" "2 ^ (num_bits - 1) \<le> k" "k < 2 ^ num_bits" and M: "multiples p M k num_bits"
  shows "\<exists>r. EccPoint_mult result point scalar initial_Z num_bits curve = Some r \<and> length r = length result
    \<and> res curve r (fst (M (int k))) \<and> res curve (drop n r) (snd (M (int k)))"
proof -
  define m where "m = int (k div 2)"
  define b where "b = bit k 0"
  have km: "int k = 2 * m + of_bool b"
    unfolding m_def b_def bit_0 by (cases "even k") (auto elim!: evenE oddE)
  note M0 = M [unfolded multiples_def Let_def]
  have s: "group_sum p M m (m + 1)" "group_sum p M (m + 1) (- m)" "M (- m) = neg (M m)"
    "group_sum p M (2 * m + 1) (if b then 1 else - 1)"
    using M0 k(1) by (auto simp: m_def b_def dest: bspec [of _ _ 1])
  have neg: "M (- 1) = neg (M 1)" and cop: "coprime (fst (M 1)) (int p)" "coprime (snd (M 1)) (int p)"
    and t: "tangent p (- 3) (M 1) (M 2)" using M0 by blast+
  define D where "D = M (if b then 1 else - 1)"
  have D: "D = (fst (M 1), (if b then 1 else - 1) * snd (M 1))" by (simp add: D_def neg neg_def)
  define X where "X = uECC_vli_set (replicate 4 0) point n"
  define Y where "Y = uECC_vli_set (replicate 4 0) (drop n point) n"
  have XY: "res curve X (fst (M 1))" "res curve Y (snd (M 1))" unfolding X_def Y_def using res_set [OF buf_local] P by blast+
  obtain X1 Y1 X0 Y0 where i: "XYcZ_initial_double X Y (replicate 4 0) (replicate 4 0) initial_Z curve = (X1, Y1, X0, Y0)"
    by (metis surj_pair)
  have "ladder_state curve M 1 ([X0, X1], [Y0, Y1])"
    using initial_double_state [OF fn XY buf_local buf_local Z t cop(2)] by (auto simp: i ladder_state_def field_order)
  note loop = ladder_loop_state [OF bits k M this, folded m_def]
  obtain Rx Ry where R: "for_range 0 (num_bits - 2) (\<lambda>j R. ladder_add curve (ladder_addC scalar (num_bits - 2 - j) curve R))
      ([X0, X1], [Y0, Y1]) = (Rx, Ry)" by fastforce
  have b0: "uECC_vli_testBit scalar 0 \<noteq> 0 \<longleftrightarrow> b" using bits [of 0] k(1) by (simp add: b_def)
  obtain z where z: "ladder_mid curve (M (2 * m + 1)) D z (ladder_addC scalar 0 curve (Rx, Ry))"
    "fst (ladder_addC scalar 0 curve (Rx, Ry)) = of_bool (\<not> b)"
    using ladder_addC_state [OF loop [unfolded R] b0 s(1,2,3) neg] unfolding D_def by blast
  obtain nb Rx' Ry' where A: "ladder_addC scalar 0 curve (Rx, Ry) = (nb, Rx', Ry')" by (metis surj_pair)
  have nb: "nb = of_bool (\<not> b)" using z(2) by (simp add: A)
  have c: "chord p (M (2 * m + 1)) D (M (2 * m + 1 + (if b then 1 else - 1)))"
    and d: "coprime (fst (M 1) - fst (M (2 * m + 1))) (int p)"
    using s(4) D unfolding group_sum_def D_def by simp_all
  obtain Zf f where F: "final_z (replicate 4 0) point (nb, Rx', Ry') curve = Some Zf"
    "res curve Zf (f * snd (M 1) * (fst (M 1) * z\<^sup>2))"
    "eqm p (f * ((if b then 1 else - 1) * ((fst (M 1) - fst (M (2 * m + 1))) * z\<^sup>2) * ((if b then 1 else - 1) * snd (M 1) * z ^ 3) * fst (M 1))) 1"
    using final_z_res [OF z(1) [unfolded A] nb D cop d P] by blast
  obtain Rx'' Ry'' where B: "ladder_add curve (nb, Rx', Ry') = (Rx'', Ry'')" by fastforce
  define v where "v = next_z z (M (2 * m + 1)) D"
  have v: "v = (fst (M 1) - fst (M (2 * m + 1))) * z ^ 3" by (simp add: v_def next_z_def D)
  have "coprime (fst D - fst (M (2 * m + 1))) (int p)" using d by (simp add: D)
  note E = ladder_add_state [OF z(1) [unfolded A] c this, unfolded B prod.case fst_conv, folded v_def]
  have Q: "scaled curve (Rx'' ! 0) (Ry'' ! 0) v (M (int k))"
    using E by (cases b) (simp_all add: nb km)
  obtain RX RY where G: "apply_z (Rx'' ! 0) (Ry'' ! 0) Zf curve = (RX, RY)" by fastforce
  have sg: "(if b then 1 else - 1 :: int) = 1 \<or> (if b then 1 else - 1 :: int) = - 1" by simp
  note den = last_denominator [OF sg F(3) refl v]
  have H: "res curve RX (fst (M (int k)))" "res curve RY (snd (M (int k)))"
  proof -
    have q: "res curve (Rx'' ! 0) (fst (M (int k)) * v\<^sup>2)" "res curve (Ry'' ! 0) (snd (M (int k)) * v ^ 3)"
      using Q by (simp_all add: scaled_def case_prod_beta)
    note g = apply_z_res [OF q F(2), unfolded G holds_def prod.case]
    show "res curve RX (fst (M (int k)))" by (rule res_eqm_p [OF g [THEN conjunct1] den(1)])
    show "res curve RY (snd (M (int k)))" by (rule res_eqm_p [OF g [THEN conjunct2] den(2)])
  qed
  define result' where "result' = uECC_vli_set result RX n"
  define result'' where "result'' = take n result' @ uECC_vli_set (drop n result') RY n"
  have l: "n \<le> length RX" "n \<le> length RY" using H by (simp_all add: res_iff)
  have l': "length result' = length result" "take n result' = take n RX"
    using r l unfolding result'_def by (simp_all add: vli_set_eq)
  have "n \<le> length (drop n result')" using r l' by simp
  then have "length result'' = length result" "take n result'' = take n RX" "take n (drop n result'') = take n RY"
    using r l l' unfolding result''_def by (simp_all add: vli_set_eq)
  moreover have "EccPoint_mult result point scalar initial_Z num_bits curve = Some result''"
    unfolding EccPoint_mult_def words(1) [symmetric] Let_def X_def [symmetric] Y_def [symmetric] i prod.case R A F(1) option.case B G
      result''_def result'_def ..
  ultimately show ?thesis
    using res_prefix [OF H(1), of result''] res_prefix [OF H(2), of "drop n result''"] r by simp
qed

end


section \<open>Regularised scalars\<close>

definition regular :: "nat \<Rightarrow> nat \<Rightarrow> nat \<Rightarrow> nat" where
  "regular N b k = (if 2 ^ b \<le> k + N then k + N else k + 2 * N)"

lemma regularize_k_correct:
  defines "N curve \<equiv> vn (BITS_TO_WORDS (curve_num_n_bits curve)) (curve_n curve)"
  assumes nw: "nw = BITS_TO_WORDS (curve_num_n_bits curve)" "0 < curve_num_n_bits curve"
    and l: "nw \<le> length k" "nw \<le> length k0" "nw \<le> length k1" "nw \<le> length (curve_n curve)"
    and N: "2 ^ (curve_num_n_bits curve - 1) \<le> N curve" "N curve < 2 ^ curve_num_n_bits curve" and k: "vn nw k < N curve"
    and r: "regularize_k k k0 k1 curve = (carry, k0', k1')"
  shows "\<exists>K. K = regular (N curve) (curve_num_n_bits curve) (vn nw k) \<and> 2 ^ curve_num_n_bits curve \<le> K \<and> K < 2 ^ (curve_num_n_bits curve + 1)
    \<and> nw \<le> length (if carry = 0 then k1' else k0')
    \<and> (\<forall>i<curve_num_n_bits curve. uECC_vli_testBit (if carry = 0 then k1' else k0') i \<noteq> 0 \<longleftrightarrow> bit K i)"
proof -
  define b where "b = curve_num_n_bits curve"
  define n where "n = N curve"
  have W: "b \<le> 64 * nw" "0 < nw" using nw by (auto simp: BITS_TO_WORDS_def b_def)
  obtain c s where a1: "uECC_vli_add k0 k (curve_n curve) nw = (c, s)" by fastforce
  note add1 = vli_add_correct [OF l(2,1,4) a1]
  have ls: "nw \<le> length s" using add1(3) l(2) by simp
  obtain c2 t where a2: "uECC_vli_add k1 s (curve_n curve) nw = (c2, t)" by fastforce
  note add2 = vli_add_correct [OF l(3) ls l(4) a2]
  have r: "carry = of_bool (c \<noteq> 0 \<or> b < nw * 64 \<and> uECC_vli_testBit s b \<noteq> 0)" "k0' = s" "k1' = t"
    using r [unfolded regularize_k_def nw(1) [symmetric] Let_def a1 prod.case a2] by (auto simp: b_def mult.commute)
  have Nn: "vn nw (curve_n curve) = n" by (simp add: n_def N_def nw(1))
  have b: "0 < b" "2 ^ (b - 1) \<le> n" "n < 2 ^ b" using nw(2) N by (simp_all add: b_def n_def)
  have B: "(2 :: nat) ^ b = 2 * 2 ^ (b - 1)" "(2 :: nat) ^ b \<le> 2 ^ (64 * nw)" using b(1) W(1) by (simp_all flip: power_Suc)
  define kk where "kk = vn nw k + n"
  have kk: "kk < 2 * n" "n \<le> kk" using k by (simp_all add: kk_def n_def)
  have v1: "vn nw s + 2 ^ (64 * nw) * unat c = kk" using add1(1) by (simp add: Nn kk_def)
  have v2: "vn nw t + 2 ^ (64 * nw) * unat c2 = vn nw s + n" using add2(1) by (simp add: Nn)
  have lt: "vn nw s < 2 ^ (64 * nw)" "vn nw t < 2 ^ (64 * nw)" by (rule vn_lt)+
  have c0: "c \<noteq> 0 \<longleftrightarrow> 2 ^ (64 * nw) \<le> kk"
    using v1 lt(1) by (cases "c = 0") (auto simp: unat_gt_0 Suc_le_eq intro: trans_le_add2)
  have top: "c \<noteq> 0 \<or> b < nw * 64 \<and> uECC_vli_testBit s b \<noteq> 0 \<longleftrightarrow> 2 ^ b \<le> kk"
  proof (cases "b = 64 * nw")
    case True
    then show ?thesis using c0 by simp
  next
    case False
    then have lb: "b < 64 * nw" using W(1) by simp
    have "kk < 2 * 2 ^ b" using kk b(3) by simp
    also have "(2 :: nat) * 2 ^ b \<le> 2 ^ (64 * nw)" using power_increasing [of "Suc b" "64 * nw" "2 :: nat"] lb by simp
    finally have small: "kk < 2 ^ (64 * nw)" .
    then have "c = 0" and sk: "vn nw s = kk" using c0 v1 by auto
    have "kk div 2 ^ b < 2" using kk b(3) by (intro less_mult_imp_div_less) simp
    then have "odd (kk div 2 ^ b) \<longleftrightarrow> 0 < kk div 2 ^ b" by (cases "kk div 2 ^ b") auto
    then have "odd (kk div 2 ^ b) \<longleftrightarrow> 2 ^ b \<le> kk" by (simp add: div_greater_zero_iff)
    then show ?thesis using \<open>c = 0\<close> vli_testBit_correct [OF ls lb] lb sk by (simp add: mult.commute)
  qed
  have bits: "uECC_vli_testBit w i \<noteq> 0 \<longleftrightarrow> bit K i"
    if "nw \<le> length w" "vn nw w = K mod 2 ^ (64 * nw)" "i < b" for w K i
  proof -
    have i: "i < 64 * nw" using that(3) W(1) by simp
    have "odd (vn nw w div 2 ^ i) \<longleftrightarrow> bit (take_bit (64 * nw) K) i" by (simp add: that(2) take_bit_eq_mod bit_iff_odd)
    then show ?thesis using vli_testBit_correct [OF that(1) i] i by (simp add: bit_take_bit_iff)
  qed
  have m: "vn nw s = kk mod 2 ^ (64 * nw)" using v1 lt(1) by (metis mod_mult_self2 mod_less)
  show ?thesis
  proof (cases "2 ^ b \<le> kk")
    case True
    then have "carry = 1" using top r(1) by simp
    then show ?thesis
      using True kk b(3) ls bits [OF ls m] unfolding n_def [symmetric] b_def [symmetric]
      by (intro exI [of _ kk]) (simp add: r(2) kk_def regular_def)
  next
    case False
    then have "carry = 0" and "c = 0" using top r(1) c0 B(2) by auto
    have lt': "length t = length k1" using add2(3) .
    have m2: "vn nw t = (kk + n) mod 2 ^ (64 * nw)"
      using v1 v2 \<open>c = 0\<close> lt(2) by (metis add.right_neutral mod_mult_self2 mod_less mult_0_right unat_0)
    have "2 ^ b \<le> kk + n" "kk + n < 2 ^ (b + 1)" using False kk b B(1) by simp_all
    moreover have "nw \<le> length t" using lt' l(3) by simp
    ultimately show ?thesis
      using bits [OF _ m2] \<open>carry = 0\<close> unfolding n_def [symmetric] b_def [symmetric]
      using False by (intro exI [of _ "kk + n"]) (simp add: r(3) kk_def regular_def)
  qed
qed

section \<open>Multiples on the curves\<close>

text \<open>A number with an inverse is prime to the modulus.\<close>

lemma coprime_inverse:
  assumes u: "u * a mod int p = 1 mod int p"
  shows "coprime a (int p)"
proof (rule coprimeI)
  fix d assume d: "d dvd a" "d dvd int p"
  have "d dvd u * a mod int p" using d by (simp add: dvd_mod)
  then have "d dvd 1 mod int p" by (simp only: u)
  then show "is_unit d" using d(2) by (simp add: dvd_mod_iff)
qed

text \<open>Chords and tangents are checked by their slope, and every congruence by its quotient.\<close>

lemma eqmI: "a - b = q * int p \<Longrightarrow> eqm p a b"
  by (simp add: eqm_def mod_eq_dvd_iff)

lemma chordI:
  assumes "l * (fst Q - fst P) - (snd Q - snd P) = q1 * int p" and "fst R - (l * l - fst P - fst Q) = q2 * int p"
    and "snd R - (l * (fst P - fst R) - snd P) = q3 * int p"
  shows "chord p P Q R"
  using assms [THEN eqmI] unfolding chord_def case_prod_beta power2_eq_square by (intro exI [of _ l] conjI)

lemma tangentI:
  assumes "l * (2 * snd P) - (3 * (fst P * fst P) + a) = q1 * int p" and "fst R - (l * l - 2 * fst P) = q2 * int p"
    and "snd R - (l * (fst P - fst R) - snd P) = q3 * int p"
  shows "tangent p a P R"
  using assms [THEN eqmI] unfolding tangent_def case_prod_beta power2_eq_square by (intro exI [of _ l] conjI)

lemma coprimeI_quotient: "u * a - 1 = q * int p \<Longrightarrow> coprime a (int p)"
  by (rule coprime_inverse [of u]) (simp add: mod_eq_dvd_iff)

text \<open>C8. Scalar multiplication: for the curves with a complete fast reduction and every scalar, the ladder returns the affine
  coordinates of the multiple of the point, whatever the initial denominator. The family M holds the multiples: the sums and
  the doubling that the ladder forms for this scalar are chords and a tangent of the family, with differences prime to the field
  order. The top bit of the scalar is taken to be set, as regularisation makes it.\<close>

theorem EccPoint_mult_multiple:
  assumes "curve \<in> nist_curves" and "n = curve_num_words curve" and "p = field_order curve"
    and "2 * n \<le> length point" and "vn n point < p" and "vn n (drop n point) < p" and "2 * n \<le> length result"
    and "M 1 = (int (vn n point), int (vn n (drop n point)))"
    and "case initial_Z of None \<Rightarrow> True | Some Z \<Rightarrow> n \<le> length Z \<and> vn n Z < p \<and> coprime (int (vn n Z)) (int p)"
    and "m \<le> length scalar" and "2 \<le> num_bits" and "num_bits - 1 \<le> 64 * m"
    and "k = 2 ^ (num_bits - 1) + vn m scalar mod 2 ^ (num_bits - 1)" and "multiples p M k num_bits"
  shows "\<exists>r. EccPoint_mult result point scalar initial_Z num_bits curve = Some r \<and> length r = length result
    \<and> int (vn n r) = fst (M (int k)) mod int p \<and> int (vn n (drop n r)) = snd (M (int k)) mod int p"
proof -
  have F: "fast_field curve n p" using nist_fast_field [OF assms(1)] assms(2,3) by simp
  have res: "res curve x e \<longleftrightarrow> n \<le> length x \<and> vn n x < p \<and> int (vn n x) = e mod int p" for x e
    by (rule fast_field.res_iff [OF F])
  have "\<exists>r. EccPoint_mult result point scalar initial_Z num_bits curve = Some r \<and> length r = length result
    \<and> res curve r (fst (M (int k))) \<and> res curve (drop n r) (snd (M (int k)))"
  proof (rule fast_field.EccPoint_mult_correct [OF F nist_functions(1) [OF assms(1)]])
    show "res curve point (fst (M 1))" "res curve (drop n point) (snd (M 1))" using assms(4-6,8) by (simp_all add: res)
    show "case initial_Z of None \<Rightarrow> True | Some Z \<Rightarrow> \<exists>z. res curve Z z \<and> coprime z (int p)"
    proof (cases initial_Z)
      case (Some Z)
      then have "res curve Z (int (vn n Z))" "coprime (int (vn n Z)) (int p)" using assms(9) by (simp_all add: res)
      then show ?thesis using Some by auto
    qed simp
    show "uECC_vli_testBit scalar i \<noteq> 0 \<longleftrightarrow> bit k i" if "i < num_bits - 1" for i
    proof -
      have "bit k i \<longleftrightarrow> bit (take_bit (num_bits - 1) k) i" using that by (simp add: bit_take_bit_iff)
      also have "take_bit (num_bits - 1) k = take_bit (num_bits - 1) (vn m scalar)" by (simp add: assms(13) take_bit_eq_mod)
      also have "bit (take_bit (num_bits - 1) (vn m scalar)) i \<longleftrightarrow> odd (vn m scalar div 2 ^ i)"
        using that by (simp only: bit_take_bit_iff bit_iff_odd [of "vn m scalar" i]) simp
      finally show ?thesis using vli_testBit_correct [OF assms(10), of i] that assms(12) by simp
    qed
    have "vn m scalar mod 2 ^ (num_bits - 1) < 2 ^ (num_bits - 1)" by simp
    moreover have "(2 :: nat) ^ num_bits = 2 * 2 ^ (num_bits - 1)" using assms(11) by (cases num_bits) simp_all
    ultimately show "2 ^ (num_bits - 1) \<le> k" "k < 2 ^ num_bits" unfolding assms(13) by simp_all
  qed (use assms(7,11,14) in simp_all)
  then show ?thesis unfolding res by blast
qed

text \<open>The first multiples of the base point of secp256r1.\<close>

definition p256_multiples :: "int \<Rightarrow> int \<times> int" where
  "p256_multiples i =
     (if i = 1 then base_point curve_secp256r1
      else if i = - 1 then neg (base_point curve_secp256r1)
      else if i = 2 then
      (0x7cf27b188d034f7e8a52380304b51ac3c08969e277f21b35a60b48fc47669978,
       0x7775510db8ed040293d9ac69f7430dbba7dade63ce982299e04b79d227873d1)
      else if i = 3 then
      (0x5ecbe4d1a6330a44c8f7ef951d4bf165e6c6b721efada985fb41661bc6e7fd6c,
       0x8734640c4998ff7e374b06ce1a64a2ecd82ab036384fb83d9a79b127a27d5032)
      else
      (0xe2534a3532d08fbba02dde659ee62bd0031fe2db785596ef509302446b030852,
       0xe0f1575a4c633cc719dfee5fda862d764efc96c3f30ee0055c42c23f184ed8c6))"

lemma p256_base_point: "base_point curve_secp256r1 =
      (0x6b17d1f2e12c4247f8bce6e563a440f277037d812deb33a0f4a13945d898c296,
       0x4fe342e2fe1a7f9b8ee7eb4a7c0f9e162bce33576b315ececbb6406837bf51f5)"
  by (simp add: base_point_def curve_secp256r1_def)

lemma p256_order: "int (field_order curve_secp256r1) = 0xffffffff00000001000000000000000000000000ffffffffffffffffffffffff"
  by (simp add: p256.field_order)

lemma p256_multiples_values:
  "p256_multiples 1 = (0x6b17d1f2e12c4247f8bce6e563a440f277037d812deb33a0f4a13945d898c296, 0x4fe342e2fe1a7f9b8ee7eb4a7c0f9e162bce33576b315ececbb6406837bf51f5)"
  "p256_multiples 2 = (0x7cf27b188d034f7e8a52380304b51ac3c08969e277f21b35a60b48fc47669978, 0x7775510db8ed040293d9ac69f7430dbba7dade63ce982299e04b79d227873d1)"
  "p256_multiples 3 = (0x5ecbe4d1a6330a44c8f7ef951d4bf165e6c6b721efada985fb41661bc6e7fd6c, 0x8734640c4998ff7e374b06ce1a64a2ecd82ab036384fb83d9a79b127a27d5032)"
  "p256_multiples 4 = (0xe2534a3532d08fbba02dde659ee62bd0031fe2db785596ef509302446b030852, 0xe0f1575a4c633cc719dfee5fda862d764efc96c3f30ee0055c42c23f184ed8c6)"
  "p256_multiples (- 1) = (0x6b17d1f2e12c4247f8bce6e563a440f277037d812deb33a0f4a13945d898c296, - 0x4fe342e2fe1a7f9b8ee7eb4a7c0f9e162bce33576b315ececbb6406837bf51f5)"
  by (simp_all add: p256_multiples_def p256_base_point neg_def)

lemmas p256_numerals = p256_multiples_values p256_order fst_conv snd_conv

lemma p256_sum_1_2: "group_sum (field_order curve_secp256r1) p256_multiples 1 2"
proof -
  have "chord (field_order curve_secp256r1) (p256_multiples 1) (p256_multiples 2) (p256_multiples 3)"
    unfolding p256_numerals
    by (rule chordI [where l = "0x28cdb0fe6681d140c59fb73f85f16459ca4cee083742bada762de4ca226a8086" and ?q1.0 = "0x2d882df6b409ed6234c5e881e9c20fb2dc0692fcfae9a7e7d26f83701f5a790"
          and ?q2.0 = "(- 0x680ec94785873a3e3b5f2f6b1a9b192c85a45edc90a674fd52fee739f691356)" and ?q3.0 = "(- 0x1f5be5a821184fb883718cb4d32fe46accbc8708b1c3cd98536982cfdbc6e2b)"])
      (unfold p256_numerals, simp_all)
  moreover have "coprime (fst (p256_multiples 2) - fst (p256_multiples 1)) (int (field_order curve_secp256r1))"
    by (rule coprimeI_quotient [where u = "0x5cd14f7b0db3ae51c4b8a837b2f5efd55ea52a15f4802742d3248c306ae52d7" and q = "0x6792dd8b73248ee85ef4c700d42bd5f58bd6b980f8925414edfd33a8b02433"])
      (unfold p256_numerals, simp)
  ultimately show ?thesis by (simp add: group_sum_def)
qed

lemma p256_sum_2_m1: "group_sum (field_order curve_secp256r1) p256_multiples 2 (- 1)"
proof -
  have "chord (field_order curve_secp256r1) (p256_multiples 2) (p256_multiples (- 1)) (p256_multiples 1)"
    unfolding p256_numerals
    by (rule chordI [where l = "0x5db6434be6e7fd2d34a9038a578ce07b7184d351f7f0cb885b1b26fb598e5062" and ?q1.0 = "(- 0x68925987c2d7c3a0770abaaeb71fc288bf61d4b375cc4d704f3b016d8e8e342)"
          and ?q2.0 = "(- 0x224deea909af9fd646a50d4638bfdf2e7461ce5e34b807cdf25ec05a8ea2b920)" and ?q3.0 = "(- 0x68925987c2d7c3a0770abaaeb71fc288bf61d4b375cc4d704f3b016d8e8e342)"])
      (unfold p256_numerals, simp_all)
  moreover have "coprime (fst (p256_multiples (- 1)) - fst (p256_multiples 2)) (int (field_order curve_secp256r1))"
    by (rule coprimeI_quotient [where u = "0xfa32eb074f24c51be3b4757c84d0a102aa15ad5fa0b7fd8bd2cdb73cf951ad28" and q = "(- 0x117316482063e8a7a9365c56a03cadfb53fa15a7c90e55409c7c1282c61db2af)"])
      (unfold p256_numerals, simp)
  ultimately show ?thesis by (simp add: group_sum_def)
qed

lemma p256_sum_3_1: "group_sum (field_order curve_secp256r1) p256_multiples 3 1"
proof -
  have "chord (field_order curve_secp256r1) (p256_multiples 3) (p256_multiples 1) (p256_multiples 4)"
    unfolding p256_numerals
    by (rule chordI [where l = "0x3bc4a654a1f8113272ee87355dc20e2b5cba0f811375b122bf20ae097f5e9d4d" and ?q1.0 = "0x2def1c5855c8e252a69adf014ac2ad12cbafdf42ab61f4b4236938d9ebff221"
          and ?q2.0 = "(- 0xdf43bba2e46758a1e1ed58d1e1fc5b9beed2cb5902641c3355ae331bf503f2b)" and ?q3.0 = "0x1eb53d7cf7b8a07570edfca853354f7f8e317f7d74bf4f44b581454f38ee81da"])
      (unfold p256_numerals, simp_all)
  moreover have "coprime (fst (p256_multiples 1) - fst (p256_multiples 3)) (int (field_order curve_secp256r1))"
    by (rule coprimeI_quotient [where u = "0x187bfabe7d2d7f7d79109e90303a622b8ed71a98750859301b67fee9f59e1e60" and q = "0x12d12c1599b7a424e45846c4238fb7b9e127cadd2e82acb6b03ab21c4af2441"])
      (unfold p256_numerals, simp)
  ultimately show ?thesis by (simp add: group_sum_def)
qed

lemma p256_tangent: "tangent (field_order curve_secp256r1) (- 3) (p256_multiples 1) (p256_multiples 2)"
  unfolding p256_numerals
  by (rule tangentI [where l = "0xa249bcb3191802d3cb56fc75a8731f848e7b2caf080f3477a4e4d904a671af9d" and ?q1.0 = "(- 0x211d1d206a8228ca3f068bcb77b6c66e965b291a72799fab76713dc1b6ea6cd9)"
        and ?q2.0 = "(- 0x66e168103bdfa57cdd53063189a61e37915827bb44d670bd3c287263db86185b)" and ?q3.0 = "0xb51838d2fa990fc8a24a572b59edda8bd8fcf1612aa22bdac765f9f95e4f3a0"])
    (unfold p256_numerals, simp_all)

lemma p256_base_point_coprime_fst: "coprime (fst (p256_multiples 1)) (int (field_order curve_secp256r1))"
  by (rule coprimeI_quotient [where u = "0xe060cbb088706d5d24936933b69b16ab707d656273744b65664c49e577f35238" and q = "0x5ddd55d95ae81faeb5e4b852737700c96cbf327b64aef7782abca7b541df6331"])
    (unfold p256_numerals, simp)

lemma p256_base_point_coprime_snd: "coprime (snd (p256_multiples 1)) (int (field_order curve_secp256r1))"
  by (rule coprimeI_quotient [where u = "0xfa27a3da2c00618a828f8cd65c1a919effc67bf68b4dbb05bbdaa775c45d4034" and q = "0x4e104e12f3a38fc09aea0baf29696d6f7bd7bd47a01a49f9d3ccd9ab7ea51a3d"])
    (unfold p256_numerals, simp)

lemma p256_negative: "p256_multiples (- 1) = neg (p256_multiples 1)"
  by (simp add: p256_multiples_def)

lemma p256_multiples_3: "multiples (field_order curve_secp256r1) p256_multiples 3 2"
  unfolding multiples_def using p256_tangent p256_base_point_coprime_fst p256_base_point_coprime_snd
    p256_sum_1_2 p256_sum_2_m1 p256_sum_3_1 p256_negative
  by (auto simp: Let_def bit_0 less_2_cases_iff)

theorem EccPoint_mult_multiple_witness:
  "\<exists>r. EccPoint_mult (replicate 8 0) (curve_G curve_secp256r1) [1, 0, 0, 0] None 2 curve_secp256r1 = Some r
    \<and> length r = length (replicate 8 (0 :: 64 word))
    \<and> int (vn 4 r) = fst (p256_multiples (int 3)) mod int (field_order curve_secp256r1)
    \<and> int (vn 4 (drop 4 r)) = snd (p256_multiples (int 3)) mod int (field_order curve_secp256r1)"
proof (rule EccPoint_mult_multiple [where m = 4])
  have n: "curve_num_words curve_secp256r1 = 4" using p256.words(1) by simp
  have c: "curve_secp256r1 \<in> nist_curves" by (simp add: nist_curves_def)
  note G = nist_base_point [OF c, unfolded res_def base_point_def n fst_conv snd_conv]
  show "curve_secp256r1 \<in> nist_curves" by (rule c)
  show "4 = curve_num_words curve_secp256r1" by (rule n [symmetric])
  show "vn 4 (curve_G curve_secp256r1) < field_order curve_secp256r1" using G by (simp add: field_order_def n)
  show "vn 4 (drop 4 (curve_G curve_secp256r1)) < field_order curve_secp256r1" using G by (simp add: field_order_def n)
  show "2 * 4 \<le> length (curve_G curve_secp256r1)" by (simp add: curve_secp256r1_def)
  show "p256_multiples 1 = (int (vn 4 (curve_G curve_secp256r1)), int (vn 4 (drop 4 (curve_G curve_secp256r1))))"
    by (simp add: p256_multiples_def base_point_def n)
  show "multiples (field_order curve_secp256r1) p256_multiples 3 2" by (rule p256_multiples_3)
  show "(3 :: nat) = 2 ^ (2 - 1) + vn 4 [1, 0, 0, 0] mod 2 ^ (2 - 1)" by (simp add: vn_four)
qed simp_all

end
