(* ===== verification/Uecc_Keys.thy ===== *)
theory Uecc_Keys
  imports Uecc_Mult
begin

text \<open>
  Keys and points of micro-ecc (\<^verbatim>\<open>uECC.c\<close>, word size 64, big-endian byte strings as the build's
  \<^verbatim>\<open>uECC_VLI_NATIVE_LITTLE_ENDIAN=0\<close> selects): conversion between words and bytes, random integers, key generation, shared secrets,
  compressed points and the validation of points and keys, with the square roots of \<^verbatim>\<open>curve-specific.h\<close>.

  The random number generator behind \<^verbatim>\<open>g_rng_function\<close> is a parameter: \<open>None\<close> is the null pointer, \<open>Some rng\<close> a function of a
  state and a number of bytes that gives \<open>None\<close> when it fails or the bytes it wrote. The bytes are read as words in the order of
  the little-endian processors that have 64-bit words. An integer result is 0 or 1, as in the code; the option around it is \<open>None\<close> only
  where a loop would not end.
\<close>

section \<open>The code\<close>

definition uECC_vli_nativeToBytes :: "bytes \<Rightarrow> nat \<Rightarrow> u64 list \<Rightarrow> bytes" where
  "uECC_vli_nativeToBytes bytes num_bytes native =
     for_range 0 num_bytes (\<lambda>i bytes.
       let b = num_bytes - 1 - i
       in bytes[i := ucast (drop_bit (8 * (b mod 8)) (native ! (b div 8)))]) bytes"

definition uECC_vli_bytesToNative :: "u64 list \<Rightarrow> bytes \<Rightarrow> nat \<Rightarrow> u64 list" where
  "uECC_vli_bytesToNative native bytes num_bytes =
     for_range 0 num_bytes (\<lambda>i native.
       let b = num_bytes - 1 - i
       in native[b div 8 := native ! (b div 8) OR push_bit (8 * (b mod 8)) (ucast (bytes ! i))])
     (uECC_vli_clear native ((num_bytes + 7) div 8))"

type_synonym 's rng = "'s \<Rightarrow> nat \<Rightarrow> bytes option \<times> 's"

definition uECC_set_rng :: "'s rng option \<Rightarrow> 's rng option \<Rightarrow> 's rng option" where
  "uECC_set_rng rng_function g_rng_function = rng_function"

definition uECC_get_rng :: "'s rng option \<Rightarrow> 's rng option" where
  "uECC_get_rng g_rng_function = g_rng_function"

definition uECC_curve_private_key_size :: "uECC_Curve \<Rightarrow> nat" where
  "uECC_curve_private_key_size curve = BITS_TO_BYTES (curve_num_n_bits curve)"

definition uECC_curve_public_key_size :: "uECC_Curve \<Rightarrow> nat" where
  "uECC_curve_public_key_size curve = 2 * curve_num_bytes curve"

definition uECC_RNG_MAX_TRIES :: nat where
  "uECC_RNG_MAX_TRIES = 64"

definition random_words :: "u64 list \<Rightarrow> bytes \<Rightarrow> nat \<Rightarrow> u64 list" where
  "random_words random bytes num_words =
     for_range 0 num_words (\<lambda>i random. random[i := load64_le (drop (8 * i) bytes)]) random"

fun random_int_loop :: "nat \<Rightarrow> 's rng \<Rightarrow> 's \<Rightarrow> u64 list \<Rightarrow> u64 list \<Rightarrow> nat \<Rightarrow> nat \<Rightarrow> int \<times> u64 list \<times> 's" where
  "random_int_loop 0 rng s random upper num_words num_bits = (0, random, s)"
| "random_int_loop (Suc tries) rng s random upper num_words num_bits =
     (case rng s (num_words * 8) of
        (None, s) \<Rightarrow> (0, random, s)
      | (Some bytes, s) \<Rightarrow>
          let random = random_words random bytes num_words;
              random = random[num_words - 1 := random ! (num_words - 1) AND drop_bit (num_words * 8 * 8 - num_bits) (- 1)]
          in if uECC_vli_isZero random num_words = 0 \<and> uECC_vli_cmp upper random num_words = 1 then (1, random, s)
             else random_int_loop tries rng s random upper num_words num_bits)"

definition uECC_generate_random_int :: "'s rng option \<Rightarrow> 's \<Rightarrow> u64 list \<Rightarrow> u64 list \<Rightarrow> nat \<Rightarrow> int \<times> u64 list \<times> 's" where
  "uECC_generate_random_int g_rng_function s random upper num_words =
     (let num_bits = uECC_vli_numBits upper num_words
      in case g_rng_function of
           None \<Rightarrow> (0, random, s)
         | Some rng \<Rightarrow> random_int_loop uECC_RNG_MAX_TRIES rng s random upper num_words num_bits)"

definition EccPoint_compute_public_key :: "u64 list \<Rightarrow> u64 list \<Rightarrow> uECC_Curve \<Rightarrow> (u64 \<times> u64 list) option" where
  "EccPoint_compute_public_key result private_key curve =
     (let (carry, tmp1, tmp2) = regularize_k private_key (replicate 4 0) (replicate 4 0) curve
      in case EccPoint_mult result (curve_G curve) (if carry = 0 then tmp2 else tmp1) None (curve_num_n_bits curve + 1) curve of
           None \<Rightarrow> None
         | Some result \<Rightarrow> if EccPoint_isZero result curve \<noteq> 0 then Some (0, result) else Some (1, result))"

fun make_key_loop :: "nat \<Rightarrow> 's rng option \<Rightarrow> 's \<Rightarrow> bytes \<Rightarrow> bytes \<Rightarrow> u64 list \<Rightarrow> u64 list \<Rightarrow> uECC_Curve
    \<Rightarrow> (int \<times> bytes \<times> bytes \<times> 's) option" where
  "make_key_loop 0 g_rng_function s public_key private_key public private curve = Some (0, public_key, private_key, s)"
| "make_key_loop (Suc tries) g_rng_function s public_key private_key public private curve =
     (case uECC_generate_random_int g_rng_function s private (curve_n curve) (BITS_TO_WORDS (curve_num_n_bits curve)) of
        (ok, private, s) \<Rightarrow>
          if ok = 0 then Some (0, public_key, private_key, s)
          else case EccPoint_compute_public_key public private curve of
            None \<Rightarrow> None
          | Some (ok, public) \<Rightarrow>
              if ok \<noteq> 0 then
                let private_key = uECC_vli_nativeToBytes private_key (BITS_TO_BYTES (curve_num_n_bits curve)) private;
                    public_key = uECC_vli_nativeToBytes public_key (curve_num_bytes curve) public;
                    public_key = at_off (curve_num_bytes curve) (\<lambda>bytes.
                      uECC_vli_nativeToBytes bytes (curve_num_bytes curve) (drop (curve_num_words curve) public)) public_key
                in Some (1, public_key, private_key, s)
              else make_key_loop tries g_rng_function s public_key private_key public private curve)"

definition uECC_make_key :: "'s rng option \<Rightarrow> 's \<Rightarrow> bytes \<Rightarrow> bytes \<Rightarrow> uECC_Curve \<Rightarrow> (int \<times> bytes \<times> bytes \<times> 's) option" where
  "uECC_make_key g_rng_function s public_key private_key curve =
     make_key_loop uECC_RNG_MAX_TRIES g_rng_function s public_key private_key (replicate 8 0) (replicate 4 0) curve"

text \<open>The words of a public key, first the x and then the y coordinate.\<close>

definition public_words :: "bytes \<Rightarrow> uECC_Curve \<Rightarrow> u64 list" where
  "public_words public_key curve =
     at_off (curve_num_words curve) (\<lambda>native.
       uECC_vli_bytesToNative native (drop (curve_num_bytes curve) public_key) (curve_num_bytes curve))
     (uECC_vli_bytesToNative (replicate 8 0) public_key (curve_num_bytes curve))"

definition uECC_shared_secret :: "'s rng option \<Rightarrow> 's \<Rightarrow> bytes \<Rightarrow> bytes \<Rightarrow> bytes \<Rightarrow> uECC_Curve
    \<Rightarrow> (int \<times> bytes \<times> 's) option" where
  "uECC_shared_secret g_rng_function s public_key private_key secret curve =
     (let num_words = curve_num_words curve;
          num_bytes = curve_num_bytes curve;
          private = uECC_vli_bytesToNative (replicate 4 0) private_key (BITS_TO_BYTES (curve_num_n_bits curve));
          public = public_words public_key curve;
          (carry, private, tmp) = regularize_k private private (replicate 4 0) curve;
          (ok, initial_Z, s) = (case g_rng_function of
              None \<Rightarrow> (1, None, s)
            | Some _ \<Rightarrow>
                case uECC_generate_random_int g_rng_function s (if carry = 0 then private else tmp) (curve_p curve) num_words of
                  (ok, z, s) \<Rightarrow> (ok, Some z, s))
      in if ok = 0 then Some (0, secret, s)
         else case EccPoint_mult public public (if carry = 0 then tmp else private) initial_Z (curve_num_n_bits curve + 1) curve of
           None \<Rightarrow> None
         | Some public \<Rightarrow>
             let secret = uECC_vli_nativeToBytes secret num_bytes public
             in Some (of_bool (EccPoint_isZero public curve = 0), secret, s))"

definition uECC_compress :: "bytes \<Rightarrow> bytes \<Rightarrow> uECC_Curve \<Rightarrow> bytes" where
  "uECC_compress public_key compressed curve =
     (let compressed = for_range 0 (curve_num_bytes curve) (\<lambda>i compressed. compressed[i + 1 := public_key ! i]) compressed
      in compressed[0 := 2 + (public_key ! (curve_num_bytes curve * 2 - 1) AND 1)])"

text \<open>Square roots modulo the field order.\<close>

definition mod_sqrt_default :: "u64 list \<Rightarrow> uECC_Curve \<Rightarrow> u64 list" where
  "mod_sqrt_default a curve =
     (let p1 = [1, 0, 0, 0];
          l_result = [1, 0, 0, 0];
          num_words = curve_num_words curve;
          (_, p1) = uECC_vli_add p1 (curve_p curve) p1 num_words;
          num_bits = uECC_vli_numBits p1 num_words;
          l_result = for_range 0 (num_bits - 2) (\<lambda>j l_result.
            let i = num_bits - 1 - j;
                l_result = uECC_vli_modSquare_fast l_result l_result curve
            in if uECC_vli_testBit p1 i \<noteq> 0 then uECC_vli_modMult_fast l_result l_result a curve else l_result) l_result
      in uECC_vli_set a l_result num_words)"

type_synonym sqrt224 = "u64 list \<times> u64 list \<times> u64 list"

definition mod_sqrt_secp224r1_rs :: "sqrt224 \<Rightarrow> sqrt224 \<Rightarrow> sqrt224" where
  "mod_sqrt_secp224r1_rs = (\<lambda>(d1, e1, f1) (d0, e0, f0).
     let p = curve_p curve_secp224r1;
         t = uECC_vli_modSquare_fast (replicate 4 0) d0 curve_secp224r1;
         e1 = uECC_vli_modMult_fast e1 d0 e0 curve_secp224r1;
         d1 = uECC_vli_modAdd d1 t f0 p 4;
         e1 = uECC_vli_modAdd e1 e1 e1 p 4;
         f1 = uECC_vli_modMult_fast f1 t f0 curve_secp224r1;
         f1 = uECC_vli_modAdd f1 f1 f1 p 4;
         f1 = uECC_vli_modAdd f1 f1 f1 p 4
     in (d1, e1, f1))"

definition mod_sqrt_secp224r1_rss :: "sqrt224 \<Rightarrow> sqrt224 \<Rightarrow> nat \<Rightarrow> sqrt224" where
  "mod_sqrt_secp224r1_rss = (\<lambda>(d1, e1, f1) (d0, e0, f0) j.
     for_range 1 (j + 1) (\<lambda>i s. mod_sqrt_secp224r1_rs s s) (uECC_vli_set d1 d0 4, uECC_vli_set e1 e0 4, uECC_vli_set f1 f0 4))"

definition mod_sqrt_secp224r1_rm :: "sqrt224 \<Rightarrow> u64 list \<Rightarrow> u64 list \<times> u64 list \<Rightarrow> u64 list \<times> u64 list \<Rightarrow> sqrt224" where
  "mod_sqrt_secp224r1_rm = (\<lambda>(d2, e2, f2) c (d0, e0) (d1, e1).
     let p = curve_p curve_secp224r1;
         t1 = uECC_vli_modMult_fast (replicate 4 0) e0 e1 curve_secp224r1;
         t1 = uECC_vli_modMult_fast t1 t1 c curve_secp224r1;
         t1 = uECC_vli_modSub t1 p t1 p 4;
         t2 = uECC_vli_modMult_fast (replicate 4 0) d0 d1 curve_secp224r1;
         t2 = uECC_vli_modAdd t2 t2 t1 p 4;
         t1 = uECC_vli_modMult_fast t1 d0 e1 curve_secp224r1;
         e2 = uECC_vli_modMult_fast e2 d1 e0 curve_secp224r1;
         e2 = uECC_vli_modAdd e2 e2 t1 p 4;
         f2 = uECC_vli_modSquare_fast f2 e2 curve_secp224r1;
         f2 = uECC_vli_modMult_fast f2 f2 c curve_secp224r1;
         f2 = uECC_vli_modSub f2 p f2 p 4;
         d2 = uECC_vli_set d2 t2 4
     in (d2, e2, f2))"

definition mod_sqrt_secp224r1_rp :: "sqrt224 \<Rightarrow> u64 list \<Rightarrow> u64 list \<Rightarrow> sqrt224" where
  "mod_sqrt_secp224r1_rp s1 c r =
     (let p = curve_p curve_secp224r1;
          d0 = uECC_vli_set (replicate 4 0) r 4;
          f0 = uECC_vli_modSub (replicate 4 0) p c p 4;
          (s1, s0, pow2i) = for_range 0 7 (\<lambda>i (s1, s0, pow2i).
            let (d1, e1, f1) = mod_sqrt_secp224r1_rss s1 s0 pow2i;
                (d0, e0, f0) = s0;
                (d1, e1, f1) = mod_sqrt_secp224r1_rm (d1, e1, f1) c (d1, e1) (d0, e0);
                d0 = uECC_vli_set d0 d1 4;
                e0 = uECC_vli_set e0 e1 4;
                f0 = uECC_vli_set f0 f1 4
            in ((d1, e1, f1), (d0, e0, f0), pow2i * 2)) (s1, (d0, [1, 0, 0, 0], f0), 1)
      in s1)"

fun mod_sqrt_secp224r1_loop :: "nat \<Rightarrow> sqrt224 \<Rightarrow> sqrt224 \<Rightarrow> sqrt224 \<times> sqrt224" where
  "mod_sqrt_secp224r1_loop 0 s0 s1 = (s0, s1)"
| "mod_sqrt_secp224r1_loop (Suc i) (d0, e0, f0) (d1, e1, f1) =
     (let s0 = (uECC_vli_set d0 d1 4, uECC_vli_set e0 e1 4, uECC_vli_set f0 f1 4);
          s1 = mod_sqrt_secp224r1_rs (d1, e1, f1) s0
      in if uECC_vli_isZero (fst s1) 4 \<noteq> 0 then (s0, s1) else mod_sqrt_secp224r1_loop i s0 s1)"

definition mod_sqrt_secp224r1 :: "u64 list \<Rightarrow> uECC_Curve \<Rightarrow> u64 list option" where
  "mod_sqrt_secp224r1 a curve =
     (let z = replicate 4 0;
          s0 = mod_sqrt_secp224r1_rp (z, z, z) a a;
          s1 = mod_sqrt_secp224r1_rs (z, z, z) s0;
          ((d0, e0, f0), (d1, e1, f1)) = mod_sqrt_secp224r1_loop 95 s0 s1
      in case uECC_vli_modInv f1 e0 (curve_p curve_secp224r1) 4 of
           None \<Rightarrow> None
         | Some f1 \<Rightarrow> Some (uECC_vli_modMult_fast a d0 f1 curve_secp224r1))"

definition mod_sqrt :: "u64 list \<Rightarrow> uECC_Curve \<Rightarrow> u64 list option" where
  "mod_sqrt a curve =
     (case curve_mod_sqrt curve of
        mod_sqrt_default_fn \<Rightarrow> Some (mod_sqrt_default a curve)
      | mod_sqrt_secp224r1_fn \<Rightarrow> mod_sqrt_secp224r1 a curve)"

definition uECC_decompress :: "bytes \<Rightarrow> bytes \<Rightarrow> uECC_Curve \<Rightarrow> bytes option" where
  "uECC_decompress compressed public_key curve =
     (let num_words = curve_num_words curve;
          num_bytes = curve_num_bytes curve;
          point = uECC_vli_bytesToNative (replicate 8 0) (drop 1 compressed) num_bytes;
          y = x_side (drop num_words point) point curve
      in case mod_sqrt y curve of
           None \<Rightarrow> None
         | Some y \<Rightarrow>
             let y = (if y ! 0 AND 1 \<noteq> ucast (compressed ! 0 AND 1) then snd (uECC_vli_sub y (curve_p curve) y num_words) else y);
                 public_key = uECC_vli_nativeToBytes public_key num_bytes point
             in Some (at_off num_bytes (\<lambda>bytes. uECC_vli_nativeToBytes bytes num_bytes y) public_key))"

definition uECC_valid_point :: "u64 list \<Rightarrow> uECC_Curve \<Rightarrow> int" where
  "uECC_valid_point point curve =
     (let num_words = curve_num_words curve
      in if EccPoint_isZero point curve \<noteq> 0 then 0
         else if uECC_vli_cmp_unsafe (curve_p curve) point num_words \<noteq> 1
           \<or> uECC_vli_cmp_unsafe (curve_p curve) (drop num_words point) num_words \<noteq> 1 then 0
         else
           let tmp1 = uECC_vli_modSquare_fast (replicate 4 0) (drop num_words point) curve;
               tmp2 = x_side (replicate 4 0) point curve
           in uint (uECC_vli_equal tmp1 tmp2 num_words))"

definition uECC_valid_public_key :: "bytes \<Rightarrow> uECC_Curve \<Rightarrow> int" where
  "uECC_valid_public_key public_key curve = uECC_valid_point (public_words public_key curve) curve"

definition uECC_compute_public_key :: "bytes \<Rightarrow> bytes \<Rightarrow> uECC_Curve \<Rightarrow> (int \<times> bytes) option" where
  "uECC_compute_public_key private_key public_key curve =
     (let private = uECC_vli_bytesToNative (replicate 4 0) private_key (BITS_TO_BYTES (curve_num_n_bits curve));
          num_n_words = BITS_TO_WORDS (curve_num_n_bits curve)
      in if uECC_vli_isZero private num_n_words \<noteq> 0 then Some (0, public_key)
         else if uECC_vli_cmp (curve_n curve) private num_n_words \<noteq> 1 then Some (0, public_key)
         else case EccPoint_compute_public_key (replicate 8 0) private curve of
           None \<Rightarrow> None
         | Some (ok, public) \<Rightarrow>
             if ok = 0 then Some (0, public_key)
             else
               let public_key = uECC_vli_nativeToBytes public_key (curve_num_bytes curve) public
               in Some (1, at_off (curve_num_bytes curve) (\<lambda>bytes.
                    uECC_vli_nativeToBytes bytes (curve_num_bytes curve) (drop (curve_num_words curve) public)) public_key))"

section \<open>Bytes and words\<close>

lemma bit_vn:
  assumes "n \<le> length x"
  shows "bit (vn n x) j \<longleftrightarrow> j < 64 * n \<and> bit (x ! (j div 64)) (j mod 64)"
proof (cases "j < 64 * n")
  case True
  then show ?thesis
    using vli_testBit_correct [OF assms True] word_and_bit [of "x ! (j div 64)" "j mod 64"]
    by (simp add: uECC_vli_testBit_def bit_iff_odd [of "vval _"] drop_bit_eq_div nat_and_63)
next
  case False
  then have "vn n x < 2 ^ j" by (intro order_less_le_trans [OF vn_lt power_increasing]) simp_all
  then show ?thesis using False by (simp add: bit_iff_odd)
qed

lemma bit_le_nat: "bit (le_nat xs) j \<longleftrightarrow> j < 8 * length xs \<and> bit (xs ! (j div 8)) (j mod 8)"
proof (induction xs arbitrary: j)
  case (Cons x xs)
  have lt: "unat x < 2 ^ 8" using unat_lt_word [of x] by simp
  show ?case
  proof (cases "j < 8")
    case True
    have "bit (le_nat (x # xs)) j \<longleftrightarrow> bit (take_bit 8 (le_nat (x # xs))) j" using True by (simp add: bit_take_bit_iff)
    also have "take_bit 8 (le_nat (x # xs)) = unat x" using lt by (simp add: take_bit_eq_mod)
    finally show ?thesis using True by (simp add: bit_unsigned_iff)
  next
    case False
    have "bit (le_nat (x # xs)) j \<longleftrightarrow> bit (drop_bit 8 (le_nat (x # xs))) (j - 8)" using False by (simp add: bit_drop_bit_eq)
    also have "drop_bit 8 (le_nat (x # xs)) = le_nat xs" using lt by (simp add: drop_bit_eq_div)
    finally have *: "bit (le_nat (x # xs)) j \<longleftrightarrow> bit (le_nat xs) (j - 8)" .
    obtain i where i: "j = i + 8" using False by (metis add.commute le_Suc_ex not_less)
    show ?thesis using * Cons.IH [of i] by (simp add: i)
  qed
qed simp

lemma byte_index: "8 * c \<le> k \<Longrightarrow> k - 8 * c < 8 \<Longrightarrow> k div 8 = c \<and> k mod 8 = k - 8 * (c :: nat)"
  by (metis add_diff_inverse_nat div_less div_mult_self4 mod_less mod_mult_self4 add.right_neutral not_less zero_neq_numeral)

lemma bytesToNative_bits:
  assumes n: "(num_bytes + 7) div 8 = n" "n \<le> length native"
  shows "length (uECC_vli_bytesToNative native bytes num_bytes) = length native"
    "drop n (uECC_vli_bytesToNative native bytes num_bytes) = drop n native"
    "w < n \<Longrightarrow> k < 64 \<Longrightarrow> bit (uECC_vli_bytesToNative native bytes num_bytes ! w) k \<longleftrightarrow>
       8 * w + k div 8 < num_bytes \<and> bit (bytes ! (num_bytes - 1 - (8 * w + k div 8))) (k mod 8)"
proof -
  define body where "body = (\<lambda>i native.
    let b = num_bytes - 1 - i
    in native[b div 8 := native ! (b div 8) OR push_bit (8 * (b mod 8)) (ucast (bytes ! i) :: u64)])"
  define I where "I = (\<lambda>i x. length x = length native \<and> drop n x = drop n native \<and>
    (\<forall>w<n. \<forall>k<64. bit (x ! w :: u64) k \<longleftrightarrow> num_bytes - i \<le> 8 * w + k div 8 \<and> 8 * w + k div 8 < num_bytes \<and>
       bit (bytes ! (num_bytes - 1 - (8 * w + k div 8))) (k mod 8)))"
  have "I num_bytes (for_range 0 num_bytes body (uECC_vli_clear native n))"
  proof (rule for_range_invariant [where P = I])
    show "I 0 (uECC_vli_clear native n)"
      using n(2) by (auto simp: I_def vli_clear_eq nth_append)
  next
    fix i x assume i: "0 \<le> i" "i < num_bytes" and x: "I i x"
    define b where "b = num_bytes - 1 - i"
    have b: "b div 8 < n" "b < num_bytes" "num_bytes - i = Suc b" "num_bytes - Suc i = b" "num_bytes - 1 - b = i"
      using i n(1) by (auto simp: b_def)
    have e: "body i x = x[b div 8 := x ! (b div 8) OR push_bit (8 * (b mod 8)) (ucast (bytes ! i))]"
      by (simp add: body_def b_def Let_def)
    have lx: "length x = length native" using x by (simp add: I_def)
    have "bit (body i x ! w) k \<longleftrightarrow> b \<le> 8 * w + k div 8 \<and> 8 * w + k div 8 < num_bytes \<and>
       bit (bytes ! (num_bytes - 1 - (8 * w + k div 8))) (k mod 8)" if wk: "w < n" "k < 64" for w k
    proof -
      have old: "bit (x ! w) k \<longleftrightarrow> Suc b \<le> 8 * w + k div 8 \<and> 8 * w + k div 8 < num_bytes \<and>
          bit (bytes ! (num_bytes - 1 - (8 * w + k div 8))) (k mod 8)"
        using x wk by (simp add: I_def b(3))
      show ?thesis
      proof (cases "w = b div 8")
        case True
        have new: "bit (body i x ! w) k \<longleftrightarrow> bit (x ! w) k \<or> 8 * (b mod 8) \<le> k \<and> bit (bytes ! i) (k - 8 * (b mod 8))"
          using True wk n(2) lx by (auto simp: e bit_simps)
        have "8 * (b mod 8) \<le> k \<and> bit (bytes ! i) (k - 8 * (b mod 8)) \<longleftrightarrow> 8 * w + k div 8 = b \<and> bit (bytes ! i) (k mod 8)"
        proof
          assume a: "8 * (b mod 8) \<le> k \<and> bit (bytes ! i) (k - 8 * (b mod 8))"
          then have "k - 8 * (b mod 8) < 8" using bit_imp_le_length [of "bytes ! i"] by fastforce
          then have "k div 8 = b mod 8" "k mod 8 = k - 8 * (b mod 8)" using a byte_index [of "b mod 8" k] by blast+
          then show "8 * w + k div 8 = b \<and> bit (bytes ! i) (k mod 8)" using a True by simp
        next
          assume a: "8 * w + k div 8 = b \<and> bit (bytes ! i) (k mod 8)"
          then have "b mod 8 = k div 8" using True by (metis add_left_cancel mult_div_mod_eq)
          then show "8 * (b mod 8) \<le> k \<and> bit (bytes ! i) (k - 8 * (b mod 8))"
            using a by (simp add: minus_mult_div_eq_mod)
        qed
        then show ?thesis using new old b(2,5) by (cases "8 * w + k div 8 = b") auto
      next
        case False
        then have "8 * w + k div 8 \<noteq> b" using wk(2) by auto
        then show ?thesis using False old by (auto simp: e)
      qed
    qed
    then show "I (Suc i) (body i x)"
      using x b(1) by (simp add: I_def b(4)) (simp add: e drop_update_cancel)
  qed simp
  moreover have "uECC_vli_bytesToNative native bytes num_bytes = for_range 0 num_bytes body (uECC_vli_clear native n)"
    by (simp add: uECC_vli_bytesToNative_def body_def n(1))
  ultimately show "length (uECC_vli_bytesToNative native bytes num_bytes) = length native"
    "drop n (uECC_vli_bytesToNative native bytes num_bytes) = drop n native"
    "w < n \<Longrightarrow> k < 64 \<Longrightarrow> bit (uECC_vli_bytesToNative native bytes num_bytes ! w) k \<longleftrightarrow>
       8 * w + k div 8 < num_bytes \<and> bit (bytes ! (num_bytes - 1 - (8 * w + k div 8))) (k mod 8)"
    by (simp_all add: I_def)
qed

lemma nativeToBytes_eq:
  assumes "num_bytes \<le> length bytes"
  shows "uECC_vli_nativeToBytes bytes num_bytes native =
    map (\<lambda>i. ucast (drop_bit (8 * ((num_bytes - 1 - i) mod 8)) (native ! ((num_bytes - 1 - i) div 8)))) [0..<num_bytes] @ drop num_bytes bytes"
  using for_range_store [OF assms, of "\<lambda>i. ucast (drop_bit (8 * ((num_bytes - 1 - i) mod 8)) (native ! ((num_bytes - 1 - i) div 8)))"]
  by (simp add: uECC_vli_nativeToBytes_def Let_def)

lemma vn_bytesToNative:
  assumes n: "(num_bytes + 7) div 8 = n" "n \<le> length native" and l: "num_bytes \<le> length bytes"
  shows "vn n (uECC_vli_bytesToNative native bytes num_bytes) = le_nat (rev (take num_bytes bytes))"
proof (rule bit_eqI)
  fix j
  define x where "x = uECC_vli_bytesToNative native bytes num_bytes"
  have lx: "n \<le> length x" using bytesToNative_bits(1) [OF n] n(2) by (simp add: x_def)
  have "bit (vn n x) j \<longleftrightarrow> j < 64 * n \<and> bit (x ! (j div 64)) (j mod 64)" by (rule bit_vn [OF lx])
  also have "\<dots> \<longleftrightarrow> j div 8 < num_bytes \<and> bit (bytes ! (num_bytes - 1 - j div 8)) (j mod 8)"
  proof (cases "j < 64 * n")
    case True
    have d: "8 * (j div 64) + j mod 64 div 8 = j div 8" "j mod 64 mod 8 = j mod 8"
      using div_mult2_eq [of j 8 8] mod_mult2_eq [of j 8 8] by (simp_all add: mod_mod_cancel)
    show ?thesis
      using True bytesToNative_bits(3) [OF n, of "j div 64" "j mod 64" bytes] unfolding x_def d by (simp add: less_mult_imp_div_less mult.commute)
  next
    case False
    then show ?thesis using n(1) by auto
  qed
  also have "\<dots> \<longleftrightarrow> bit (le_nat (rev (take num_bytes bytes))) j"
    using l by (auto simp: bit_le_nat rev_nth)
  finally show "bit (vn n (uECC_vli_bytesToNative native bytes num_bytes)) j \<longleftrightarrow> bit (le_nat (rev (take num_bytes bytes))) j"
    by (simp add: x_def)
qed

lemma byte_bit: "k < 8 \<Longrightarrow> bit (ucast (w :: u64) :: u8) k = bit w k"
  by (simp add: bit_unsigned_iff)

lemma bytes_native_bytes:
  assumes n: "(num_bytes + 7) div 8 = n" "n \<le> length native" and l: "num_bytes \<le> length bytes" "num_bytes \<le> length out"
  shows "uECC_vli_nativeToBytes out num_bytes (uECC_vli_bytesToNative native bytes num_bytes) = take num_bytes bytes @ drop num_bytes out"
proof -
  define x where "x = uECC_vli_bytesToNative native bytes num_bytes"
  have "ucast (drop_bit (8 * ((num_bytes - 1 - i) mod 8)) (x ! ((num_bytes - 1 - i) div 8))) = bytes ! i" if i: "i < num_bytes" for i
  proof (rule bit_word_eqI)
    fix k assume k: "k < LENGTH(8)"
    define b where "b = num_bytes - 1 - i"
    have b: "b div 8 < n" "b < num_bytes" "num_bytes - 1 - b = i" using i n(1) by (auto simp: b_def)
    have e: "8 * (b div 8) + (8 * (b mod 8) + k) div 8 = b" "(8 * (b mod 8) + k) mod 8 = k" "8 * (b mod 8) + k < 64"
      using k by simp_all
    show "bit (ucast (drop_bit (8 * ((num_bytes - 1 - i) mod 8)) (x ! ((num_bytes - 1 - i) div 8))) :: u8) k = bit (bytes ! i) k"
      using bytesToNative_bits(3) [OF n b(1) e(3), of bytes] b k unfolding b_def [symmetric] x_def e(1,2)
      by (simp add: bit_simps)
  qed
  then have "map (\<lambda>i. ucast (drop_bit (8 * ((num_bytes - 1 - i) mod 8)) (x ! ((num_bytes - 1 - i) div 8)))) [0..<num_bytes] = take num_bytes bytes"
    using l(1) by (intro nth_equalityI) simp_all
  then show ?thesis using nativeToBytes_eq [OF l(2), of x] by (simp add: x_def)
qed

lemma length_nativeToBytes: "num_bytes \<le> length bytes \<Longrightarrow> length (uECC_vli_nativeToBytes bytes num_bytes native) = length bytes"
  by (simp add: nativeToBytes_eq)

lemma le_nat_nativeToBytes:
  assumes n: "num_bytes \<le> 8 * n" "n \<le> length native" and l: "num_bytes \<le> length bytes"
  shows "le_nat (rev (take num_bytes (uECC_vli_nativeToBytes bytes num_bytes native))) = vn n native mod 2 ^ (8 * num_bytes)"
proof -
  define x where "x = map (\<lambda>i. ucast (drop_bit (8 * ((num_bytes - 1 - i) mod 8)) (native ! ((num_bytes - 1 - i) div 8))) :: u8) [0..<num_bytes]"
  have "le_nat (rev x) = take_bit (8 * num_bytes) (vn n native)"
  proof (rule bit_eqI)
    fix j
    have i: "j div 64 < n \<and> j < 64 * n" if "j < 8 * num_bytes" using that n(1) by (auto simp: less_mult_imp_div_less)
    have "bit (le_nat (rev x)) j \<longleftrightarrow> j < 8 * num_bytes \<and> bit (rev x ! (j div 8)) (j mod 8)"
      by (simp add: bit_le_nat x_def)
    also have "\<dots> \<longleftrightarrow> j < 8 * num_bytes \<and> bit (native ! (j div 64)) (j mod 64)"
    proof (cases "j < 8 * num_bytes")
      case True
      then have "j div 8 < num_bytes" by (simp add: less_mult_imp_div_less mult.commute)
      then have "rev x ! (j div 8) = ucast (drop_bit (8 * (j div 8 mod 8)) (native ! (j div 8 div 8)))"
        by (simp add: x_def rev_nth)
      then show ?thesis
        using div_mult2_eq [of j 8 8] mod_mult2_eq [of j 8 8] byte_bit [of "j mod 8"] by (simp add: bit_drop_bit_eq add.commute)
    qed simp
    also have "\<dots> \<longleftrightarrow> bit (take_bit (8 * num_bytes) (vn n native)) j"
      using i bit_vn [OF n(2), of j] by (auto simp: bit_take_bit_iff)
    finally show "bit (le_nat (rev x)) j \<longleftrightarrow> bit (take_bit (8 * num_bytes) (vn n native)) j" .
  qed
  then show ?thesis using nativeToBytes_eq [OF l, of native] by (simp add: x_def take_bit_eq_mod)
qed

lemma public_words_value:
  assumes n: "n = curve_num_words curve" "n \<le> 4" "num_bytes = curve_num_bytes curve" "(num_bytes + 7) div 8 = n" and l: "2 * num_bytes \<le> length public_key"
  shows "length (public_words public_key curve) = 8"
    "vn n (public_words public_key curve) = le_nat (rev (take num_bytes public_key))"
    "vn n (drop n (public_words public_key curve)) = le_nat (rev (take num_bytes (drop num_bytes public_key)))"
proof -
  define a where "a = uECC_vli_bytesToNative (replicate 8 0) public_key num_bytes"
  define b where "b = uECC_vli_bytesToNative (drop n a) (drop num_bytes public_key) num_bytes"
  have n8: "n \<le> length (replicate 8 (0 :: u64))" using n(2) by simp
  have a: "length a = 8" "vn n a = le_nat (rev (take num_bytes public_key))"
    using bytesToNative_bits(1) [OF n(4) n8] vn_bytesToNative [OF n(4) n8, of public_key] l by (simp_all add: a_def)
  have d: "n \<le> length (drop n a)" using a n(2) by simp
  have b: "length b = 8 - n" "vn n b = le_nat (rev (take num_bytes (drop num_bytes public_key)))"
    using bytesToNative_bits(1) [OF n(4) d] vn_bytesToNative [OF n(4) d, of "drop num_bytes public_key"] l a by (simp_all add: b_def)
  have "public_words public_key curve = take n a @ b"
    unfolding public_words_def n(1,3) [symmetric] a_def [symmetric] at_off_def b_def ..
  then show "length (public_words public_key curve) = 8"
    "vn n (public_words public_key curve) = le_nat (rev (take num_bytes public_key))"
    "vn n (drop n (public_words public_key curve)) = le_nat (rev (take num_bytes (drop num_bytes public_key)))"
    using a b n(2) by simp_all
qed

section \<open>Random integers\<close>

lemma random_int_loop_range:
  assumes n: "0 < n" "n \<le> 4" "n \<le> length top'" "n \<le> length random"
    and r: "random_int_loop tries rng s random top' n num_bits = (ok, random', s')"
  shows "ok \<in> {0, 1} \<and> length random' = length random \<and> (ok = 1 \<longrightarrow> 0 < vn n random' \<and> vn n random' < vn n top')"
  using n(4) r
proof (induction tries arbitrary: random s)
  case (Suc tries)
  obtain bytes s1 where b: "rng s (n * 8) = (bytes, s1)" by fastforce
  show ?case
  proof (cases bytes)
    case None
    then show ?thesis using Suc.prems b by simp
  next
    case (Some bs)
    define w where "w = random_words random bs n"
    define x where "x = w[n - 1 := w ! (n - 1) AND drop_bit (n * 8 * 8 - num_bits) (- 1)]"
    have lx: "length x = length random"
      by (simp add: x_def w_def random_words_def for_range_length)
    have lx': "n \<le> length x" using lx Suc.prems(1) by simp
    have e: "random_int_loop (Suc tries) rng s random top' n num_bits =
      (if uECC_vli_isZero x n = 0 \<and> uECC_vli_cmp top' x n = 1 then (1, x, s1) else random_int_loop tries rng s1 x top' n num_bits)"
      using b Some by (simp add: w_def x_def Let_def)
    show ?thesis
    proof (cases "uECC_vli_isZero x n = 0 \<and> uECC_vli_cmp top' x n = 1")
      case True
      then have "ok = 1" "random' = x" using Suc.prems(2) unfolding e by auto
      moreover have "0 < vn n x" "vn n x < vn n top'"
        using True vli_isZero_eq [OF lx'] vli_cmp_eq [OF n(2,3) lx'] by (auto split: if_splits)
      ultimately show ?thesis using lx by simp
    next
      case False
      then have "random_int_loop tries rng s1 x top' n num_bits = (ok, random', s')" using Suc.prems(2) by (simp only: e if_False)
      from Suc.IH [OF lx' this] show ?thesis using lx by simp
    qed
  qed
qed simp

lemma generate_random_int_range:
  assumes "0 < n" "n \<le> 4" "n \<le> length top'" "n \<le> length random"
    and "uECC_generate_random_int rng s random top' n = (ok, random', s')"
  shows "ok \<in> {0, 1} \<and> length random' = length random \<and> (ok = 1 \<longrightarrow> 0 < vn n random' \<and> vn n random' < vn n top')"
proof (cases rng)
  case (Some r)
  then have "random_int_loop uECC_RNG_MAX_TRIES r s random top' n (uECC_vli_numBits top' n) = (ok, random', s')"
    using assms(5) by (simp add: uECC_generate_random_int_def)
  then show ?thesis by (rule random_int_loop_range [OF assms(1-4)])
qed (use assms(5) in \<open>simp add: uECC_generate_random_int_def\<close>)

section \<open>Validation of points\<close>

definition on_curve :: "uECC_Curve \<Rightarrow> nat \<Rightarrow> nat \<Rightarrow> bool" where
  "on_curve curve x y \<longleftrightarrow>
     (let p = int (field_order curve); b = int (vn (curve_num_words curve) (curve_b curve))
      in (int y)\<^sup>2 mod p = (int x ^ 3 - 3 * int x + b) mod p)"

definition valid_coordinates :: "uECC_Curve \<Rightarrow> nat \<Rightarrow> nat \<Rightarrow> bool" where
  "valid_coordinates curve x y \<longleftrightarrow>
     x < field_order curve \<and> y < field_order curve \<and> (x \<noteq> 0 \<or> y \<noteq> 0) \<and> on_curve curve x y"

context fast_field
begin

lemma res_value: "n \<le> length x \<Longrightarrow> vn n x < p \<Longrightarrow> res curve x (int (vn n x))"
  by (simp add: res_iff)

lemma valid_point_iff:
  assumes fn: "curve_x_side curve = x_side_default_fn" and b: "n \<le> length (curve_b curve)" "vn n (curve_b curve) < p" and p: "3 < p"
    and l: "2 * n \<le> length point"
  shows "uECC_valid_point point curve = of_bool (valid_coordinates curve (vn n point) (vn n (drop n point)))"
proof -
  define x where "x = vn n point"
  define y where "y = vn n (drop n point)"
  have lp: "n \<le> length point" "n \<le> length (drop n point)" "n \<le> length (curve_p curve)" "n * 2 \<le> length point" using l words by simp_all
  have z: "EccPoint_isZero point curve = of_bool (x = 0 \<and> y = 0)"
    using vli_isZero_eq [OF lp(4)] vn_add [OF lp(1), of n] by (simp add: EccPoint_isZero_def words(1) [symmetric] mult_2_right x_def y_def)
  have c: "uECC_vli_cmp_unsafe (curve_p curve) point n = 1 \<longleftrightarrow> x < p"
    "uECC_vli_cmp_unsafe (curve_p curve) (drop n point) n = 1 \<longleftrightarrow> y < p"
    using vli_cmp_unsafe_eq [OF lp(3,1)] vli_cmp_unsafe_eq [OF lp(3,2)] order(1) by (auto simp: x_def y_def split: if_splits)
  show ?thesis
  proof (cases "(x \<noteq> 0 \<or> y \<noteq> 0) \<and> x < p \<and> y < p")
    case False
    then show ?thesis
      using z c unfolding uECC_valid_point_def words(1) [symmetric] Let_def valid_coordinates_def field_order x_def [symmetric] y_def [symmetric]
      by auto
  next
    case True
    define t1 where "t1 = uECC_vli_modSquare_fast (replicate 4 0) (drop n point) curve"
    define t2 where "t2 = x_side (replicate 4 0) point curve"
    have r: "res curve point (int x)" "res curve (drop n point) (int y)"
      using True res_value [OF lp(1)] res_value [OF lp(2)] by (simp_all add: x_def y_def)
    have t1: "res curve t1 ((int y)\<^sup>2)" unfolding t1_def by (rule res_square [OF buf_local r(2)])
    have t2: "res curve t2 (((int x)\<^sup>2 - 3) * int x + int (vn n (curve_b curve)))"
      using x_side_default_res [OF buf_local r(1) res_value [OF b] p] by (simp add: t2_def x_side_def fn)
    have e: "((int x)\<^sup>2 - 3) * int x + int (vn n (curve_b curve)) = int x ^ 3 - 3 * int x + int (vn n (curve_b curve))"
      by algebra
    have lt: "n \<le> length t1" "n \<le> length t2" using t1 t2 by (simp_all add: res_iff)
    have "uECC_valid_point point curve = uint (uECC_vli_equal t1 t2 n)"
      using True z c unfolding uECC_valid_point_def words(1) [symmetric] Let_def t1_def t2_def by simp
    also have "\<dots> = of_bool (vn n t1 = vn n t2)" by (simp add: vli_equal_eq [OF lt])
    also have "vn n t1 = vn n t2 \<longleftrightarrow> on_curve curve x y"
    proof -
      have i: "int (vn n t1) = (int y)\<^sup>2 mod int p"
        "int (vn n t2) = (int x ^ 3 - 3 * int x + int (vn n (curve_b curve))) mod int p"
        using t1 t2 unfolding e by (simp_all only: res_iff)
      show ?thesis
        unfolding on_curve_def field_order words(1) [symmetric] Let_def i [symmetric] of_nat_eq_iff ..
    qed
    finally show ?thesis using True by (simp add: valid_coordinates_def field_order x_def y_def)
  qed
qed

end

section \<open>Square roots\<close>

text \<open>The exponent is read from the top bit down to bit 2, so the result is the power with a quarter of it.\<close>

lemma power_prefix:
  assumes "bit k i = b"
  shows "(a :: int) ^ (k div 2 ^ i) = (a ^ (k div 2 ^ Suc i))\<^sup>2 * (if b then a else 1)"
proof -
  have "k div 2 ^ i = k div 2 ^ Suc i * 2 + of_bool b"
    unfolding power_Suc2 div_mult2_eq using assms by (cases "even (k div 2 ^ i)") (auto simp: bit_iff_odd elim!: evenE oddE)
  then show ?thesis by (auto simp: power_add power_mult)
qed

context fast_field
begin

lemma mod_sqrt_default_res:
  assumes a: "res curve a e" and p: "p mod 4 = 3" "Suc p < 2 ^ (64 * n)"
  shows "res curve (mod_sqrt_default a curve) (e ^ ((p + 1) div 4))"
proof -
  obtain c p1 where p1: "uECC_vli_add [1, 0, 0, 0] (curve_p curve) [1, 0, 0, 0] n = (c, p1)" by fastforce
  have l: "n \<le> length (curve_p curve)" "n \<le> length [1 :: u64, 0, 0, 0]" using words by simp_all
  have one: "vn n [1, 0, 0, 0] = 1"
    using words(2) by (simp add: vn_four)
  note add = vli_add_correct [OF l(2,1,2) p1, unfolded one order(1)]
  have "unat c = 0"
  proof (rule ccontr)
    assume "unat c \<noteq> 0"
    then have "(2 :: nat) ^ (64 * n) * 1 \<le> 2 ^ (64 * n) * unat c" by (intro mult_le_mono2) simp
    then show False using add(1) p(2) by linarith
  qed
  then have v: "vn n p1 = Suc p" "n \<le> length p1" using add words(3) by simp_all
  define m where "m = uECC_vli_numBits p1 n"
  have m: "Suc p < 2 ^ m" "2 ^ (m - 1) \<le> Suc p" "m \<le> 64 * n"
    using vli_numBits_bounds [OF v(2)] by (simp_all add: v m_def)
  have m2: "2 \<le> m"
  proof (rule ccontr)
    assume "\<not> 2 \<le> m"
    then have "(2 :: nat) ^ m \<le> 2 ^ 1" by (intro power_increasing) simp_all
    then show False using m(1) order(2) by simp
  qed
  define body where "body = (\<lambda>j l_result.
    let i = m - 1 - j; l_result = uECC_vli_modSquare_fast l_result l_result curve
    in if uECC_vli_testBit p1 i \<noteq> 0 then uECC_vli_modMult_fast l_result l_result a curve else l_result)"
  have "res curve (for_range 0 (m - 2) body [1, 0, 0, 0]) (e ^ (Suc p div 2 ^ (m - (m - 2))))"
  proof (rule for_range_invariant [where P = "\<lambda>j x. res curve x (e ^ (Suc p div 2 ^ (m - j)))"])
    show "res curve [1, 0, 0, 0] (e ^ (Suc p div 2 ^ (m - 0)))"
      using m(1) one order(2) words(3) by (simp add: res_iff)
  next
    fix j x assume j: "0 \<le> j" "j < m - 2" and x: "res curve x (e ^ (Suc p div 2 ^ (m - j)))"
    define i where "i = m - 1 - j"
    have i: "m - j = Suc i" "m - Suc j = i" "i < 64 * n" using j m(3) by (auto simp: i_def)
    have t: "uECC_vli_testBit p1 i \<noteq> 0 \<longleftrightarrow> bit (Suc p) i" using vli_testBit_correct [OF v(2) i(3)] by (simp add: v(1) bit_iff_odd)
    define y where "y = uECC_vli_modSquare_fast x x curve"
    have y: "res curve y ((e ^ (Suc p div 2 ^ Suc i))\<^sup>2)" unfolding y_def using res_square [OF res_buf [OF x] x] i(1) by simp
    have "body j x = (if bit (Suc p) i then uECC_vli_modMult_fast y y a curve else y)"
      unfolding body_def Let_def i_def [symmetric] t y_def ..
    then show "res curve (body j x) (e ^ (Suc p div 2 ^ (m - Suc j)))"
      using power_prefix [of "Suc p" i _ e] y res_mult [OF res_buf [OF y] y a] by (simp add: i(2))
  qed simp
  moreover have "m - (m - 2) = 2" using m2 by simp
  ultimately have r: "res curve (for_range 0 (m - 2) body [1, 0, 0, 0]) (e ^ ((p + 1) div 4))" by simp
  have "mod_sqrt_default a curve = uECC_vli_set a (for_range 0 (m - 2) body [1, 0, 0, 0]) n"
    unfolding mod_sqrt_default_def words(1) [symmetric] Let_def p1 prod.case m_def body_def ..
  then show ?thesis using res_set [OF res_buf [OF a] r] by simp
qed

end

section \<open>Compressed points\<close>

lemma compress_eq:
  assumes "num_bytes + 1 \<le> length compressed" "num_bytes = curve_num_bytes curve" "num_bytes \<le> length public_key"
  shows "uECC_compress public_key compressed curve =
    (2 + (public_key ! (num_bytes * 2 - 1) AND 1)) # take num_bytes public_key @ drop (num_bytes + 1) compressed"
proof -
  have "for_range 0 num_bytes (\<lambda>i c. c[i + 1 := public_key ! i]) (c0 # cs) = c0 # for_range 0 num_bytes (\<lambda>i c. c[i := public_key ! i]) cs"
    for c0 cs
    by (induction num_bytes) (simp_all add: for_range_last)
  moreover obtain c0 cs where c: "compressed = c0 # cs" "num_bytes \<le> length cs" using assms(1) by (cases compressed) auto
  moreover have "map (\<lambda>i. public_key ! i) [0..<num_bytes] = take num_bytes public_key"
    using assms(3) by (intro nth_equalityI) simp_all
  ultimately have "for_range 0 num_bytes (\<lambda>i c. c[i + 1 := public_key ! i]) compressed =
      c0 # take num_bytes public_key @ drop num_bytes cs"
    using for_range_store [OF c(2), of "\<lambda>i. public_key ! i"] by simp
  then show ?thesis by (simp add: uECC_compress_def assms(2) [symmetric] c(1))
qed

definition be_nat :: "bytes \<Rightarrow> nat" where
  "be_nat xs = le_nat (rev xs)"

lemma odd_be_nat: "xs \<noteq> [] \<Longrightarrow> odd (be_nat xs) \<longleftrightarrow> odd (unat (last xs))"
  by (cases xs rule: rev_cases) (simp_all add: be_nat_def)

lemma odd_word: "odd (w :: 'a :: len word) \<longleftrightarrow> odd (unat w)"
  using bit_unsigned_iff [of w 0, where 'a = nat] by (simp add: bit_0)

lemma parity_bits: "(w :: u64) AND 1 \<noteq> ucast (2 + (b AND 1) AND 1 :: u8) \<longleftrightarrow> odd (unat w) \<noteq> odd (unat b)"
  by (simp add: and_one_eq mod_2_eq_odd odd_word [symmetric])

context fast_field
begin

lemma square_root:
  assumes p: "p mod 4 = 3" and y: "y < p" "int y ^ ((p - 1) div 2) mod int p \<in> {1, int p - 1}"
    and c: "(int y)\<^sup>2 mod int p = e mod int p" and v: "int v = e ^ ((p + 1) div 4) mod int p"
  shows "v = y \<or> v + y = p"
proof -
  define k where "k = p div 4"
  have pk: "p = 4 * k + 3" using p div_mult_mod_eq [of p 4] by (simp add: k_def)
  have k: "(p + 1) div 4 = k + 1" "(p - 1) div 2 = 2 * k + 1" by (simp_all add: pk)
  have "eqm p (e ^ (k + 1)) (((int y)\<^sup>2) ^ (k + 1))" by (rule eqm_ring(4)) (simp add: eqm_def c)
  also have "((int y)\<^sup>2) ^ (k + 1) = int y * int y ^ (2 * k + 1)" by (simp flip: power_mult) (simp add: power2_eq_square mult.assoc)
  finally have e: "eqm p (e ^ (k + 1)) (int y * int y ^ (2 * k + 1))" .
  note y2 = y(2) [unfolded k(2)]
  obtain sg :: int where sg: "sg = 1 \<or> sg = - 1" "eqm p (int y ^ (2 * k + 1)) sg"
  proof (cases "int y ^ (2 * k + 1) mod int p = 1")
    case True
    then show ?thesis using that [of 1] order(2) by (simp add: eqm_def)
  next
    case False
    then have "int y ^ (2 * k + 1) mod int p = (- 1) mod int p" using y2 order(2) by (simp add: zmod_minus1)
    then show ?thesis using that [of "- 1"] by (simp add: eqm_def)
  qed
  have "eqm p (e ^ (k + 1)) (int y * sg)" by (rule eqm_trans [OF e eqm_ring(3) [OF eqm_refl sg(2)]])
  then have v': "int v = (int y * sg) mod int p" using v by (simp only: eqm_def k(1))
  show ?thesis
  proof (cases "sg = 1 \<or> y = 0")
    case True
    then have "int v = int y" using v' y(1) by auto
    then show ?thesis by simp
  next
    case False
    then have "int v = (- int y) mod int p" using v' sg(1) by simp
    also have "\<dots> = int p - int y" using False y(1) by (simp add: zmod_zminus1_eq_if)
    finally show ?thesis using y(1) by simp
  qed
qed

lemma decompress_compress:
  assumes fn: "curve_x_side curve = x_side_default_fn" "curve_mod_sqrt curve = mod_sqrt_default_fn"
    and b: "n \<le> length (curve_b curve)" "vn n (curve_b curve) < p"
    and p: "p mod 4 = 3" "3 < p" "Suc p < 2 ^ (64 * n)" "p \<le> 2 ^ (8 * num_bytes)"
    and nb: "num_bytes = curve_num_bytes curve" "(num_bytes + 7) div 8 = n"
    and l: "2 * num_bytes \<le> length public_key" "num_bytes + 1 \<le> length compressed" "2 * num_bytes \<le> length out"
    and xy: "x = be_nat (take num_bytes public_key)" "y = be_nat (take num_bytes (drop num_bytes public_key))"
    and valid: "valid_coordinates curve x y" and y: "int y ^ ((p - 1) div 2) mod int p \<in> {1, int p - 1}"
  shows "uECC_decompress (uECC_compress public_key compressed curve) out curve = Some (take (2 * num_bytes) public_key @ drop (2 * num_bytes) out)"
proof -
  define c where "c = uECC_compress public_key compressed curve"
  have c0: "c ! 0 = 2 + (public_key ! (num_bytes * 2 - 1) AND 1)" and c1: "take num_bytes (drop 1 c) = take num_bytes public_key"
    "num_bytes \<le> length (drop 1 c)"
    using compress_eq [OF l(2) nb(1), of public_key] l(1) by (simp_all add: c_def)
  define point where "point = uECC_vli_bytesToNative (replicate 8 0) (drop 1 c) num_bytes"
  have n8: "n \<le> length (replicate 8 (0 :: u64))" using words(3) by simp
  have lp: "length point = 8" using bytesToNative_bits(1) [OF nb(2) n8, of "drop 1 c"] by (simp add: point_def)
  have px: "vn n point = x"
    using vn_bytesToNative [OF nb(2) n8 c1(2)] unfolding point_def c1(1) xy(1) be_nat_def .
  have xyp: "x < p" "y < p" "(int y)\<^sup>2 mod int p = (int x ^ 3 - 3 * int x + int (vn n (curve_b curve))) mod int p"
    using valid by (simp_all add: valid_coordinates_def on_curve_def field_order words(1) [symmetric] Let_def)
  define v where "v = mod_sqrt_default (x_side (drop n point) point curve) curve"
  define e where "e = ((int x)\<^sup>2 - 3) * int x + int (vn n (curve_b curve))"
  have rx: "res curve point (int x)" using res_value [of point] lp words(3) xyp(1) px by simp
  have "buf curve (drop n point)" using lp words(3) by (simp add: buf_iff)
  from x_side_default_res [OF this rx res_value [OF b] p(2)]
  have "res curve (x_side (drop n point) point curve) e" by (simp add: x_side_def fn e_def)
  from mod_sqrt_default_res [OF this p(1,3)] have rv: "res curve v (e ^ ((p + 1) div 4))" by (simp add: v_def)
  have "e = int x ^ 3 - 3 * int x + int (vn n (curve_b curve))" unfolding e_def by algebra
  then have root: "vn n v = y \<or> vn n v + y = p"
    using square_root [OF p(1) xyp(2) y, of e "vn n v"] xyp(3) rv by (simp add: res_iff)
  have lv: "n \<le> length v" "vn n v < p" using rv by (simp_all add: res_iff)
  have nb0: "0 < num_bytes" using nb(2) words(2) by (cases num_bytes) simp_all
  have "last (take num_bytes (drop num_bytes public_key)) = public_key ! (num_bytes * 2 - 1)"
    using l(1) nb0 by (simp add: last_conv_nth mult_2_right)
  then have oy: "odd y \<longleftrightarrow> odd (unat (public_key ! (num_bytes * 2 - 1)))"
    using odd_be_nat [of "take num_bytes (drop num_bytes public_key)"] l(1) nb0 by (simp add: xy(2))
  have ov: "odd (vn n v) \<longleftrightarrow> odd (unat (v ! 0))" by (rule vn_odd_word [OF words(2) lv(1)])
  define w where "w = (if v ! 0 AND 1 \<noteq> ucast (c ! 0 AND 1) then snd (uECC_vli_sub v (curve_p curve) v n) else v)"
  have w: "vn n w = y \<and> n \<le> length w"
  proof (cases "vn n v = y")
    case True
    then have "w = v" using oy ov parity_bits [of "v ! 0"] by (simp add: w_def c0)
    then show ?thesis using True lv by simp
  next
    case False
    then have sum: "vn n v + y = p" using root by blast
    then have "odd (vn n v) \<noteq> odd y" using order(3) by (metis even_add)
    then have e: "w = snd (uECC_vli_sub v (curve_p curve) v n)" using oy ov parity_bits [of "v ! 0"] by (simp add: w_def c0)
    obtain br d where d: "uECC_vli_sub v (curve_p curve) v n = (br, d)" by fastforce
    have "n \<le> length (curve_p curve)" using words by simp
    then show ?thesis
      using vli_sub_borrow(2) [OF lv(1) _ lv(1) d] vli_sub_correct(3) [OF lv(1) _ lv(1) d] lv sum order(1) by (simp add: e d)
  qed
  define out1 where "out1 = uECC_vli_nativeToBytes out num_bytes point"
  have n8': "num_bytes \<le> 8 * n" using nb(2) by linarith
  have bytes: "take num_bytes (uECC_vli_nativeToBytes o1 num_bytes z) = zs"
    if "num_bytes \<le> length o1" "n \<le> length z" "length zs = num_bytes" "vn n z = be_nat zs" "vn n z < p" for o1 z zs
  proof -
    have "vn n z mod 2 ^ (8 * num_bytes) = be_nat zs" using that(4,5) p(4) by simp
    then have "rev (take num_bytes (uECC_vli_nativeToBytes o1 num_bytes z)) = rev zs"
      using le_nat_nativeToBytes [OF n8' that(2,1)] that(1,3) length_nativeToBytes [OF that(1)]
      by (intro le_nat_inj) (simp_all add: be_nat_def)
    then show ?thesis by simp
  qed
  have o1: "take num_bytes out1 = take num_bytes public_key" "length out1 = length out" "drop num_bytes out1 = drop num_bytes out"
    using bytes [of out point "take num_bytes public_key"] l px xyp(1) lp words(3) nativeToBytes_eq [of num_bytes out point]
    by (simp_all add: out1_def length_nativeToBytes xy(1))
  have o2: "uECC_vli_nativeToBytes (drop num_bytes out1) num_bytes w = take num_bytes (drop num_bytes public_key) @ drop (2 * num_bytes) out"
    using bytes [of "drop num_bytes out1" w "take num_bytes (drop num_bytes public_key)"] l w xyp(2) o1
      nativeToBytes_eq [of num_bytes "drop num_bytes out1" w]
    by (simp add: xy(2) mult_2)
  have "uECC_decompress c out curve = Some (take num_bytes out1 @ uECC_vli_nativeToBytes (drop num_bytes out1) num_bytes w)"
    unfolding uECC_decompress_def words(1) [symmetric] nb(1) [symmetric] Let_def point_def [symmetric] mod_sqrt_def fn mod_sqrt_fn.case
      v_def [symmetric] option.case w_def [symmetric] out1_def [symmetric] at_off_def ..
  then show ?thesis
    unfolding o2 o1(1) c_def by (simp add: mult_2 take_add)
qed

end

section \<open>Keys of the curves\<close>

lemma nist_bytes:
  assumes "curve \<in> nist_curves"
  shows "(curve_num_bytes curve + 7) div 8 = curve_num_words curve"
  using assms by (auto simp: nist_curves_def curve_secp192r1_def curve_secp224r1_def curve_secp256r1_def)

text \<open>C21. Validation of a public key: for the curves with a complete fast reduction, the answer is 1 exactly when the two
  big-endian coordinates are below the field order, not both zero, and satisfy the equation of the curve, and 0 otherwise.\<close>

theorem valid_public_key_decides:
  assumes "curve \<in> nist_curves" and "num_bytes = curve_num_bytes curve" and "2 * num_bytes \<le> length public_key"
  shows "uECC_valid_public_key public_key curve =
    of_bool (valid_coordinates curve (be_nat (take num_bytes public_key)) (be_nat (take num_bytes (drop num_bytes public_key))))"
proof -
  have F: "fast_field curve (curve_num_words curve) (field_order curve)" by (rule nist_fast_field [OF assms(1)])
  note w = fast_field.words [OF F]
  note pw = public_words_value [OF refl w(3) assms(2) nist_bytes [OF assms(1), folded assms(2)] assms(3), folded be_nat_def]
  note c = nist_coefficient [OF assms(1)]
  have "curve_num_words curve \<le> length (curve_b curve)" "2 * curve_num_words curve \<le> length (public_words public_key curve)"
    using c(1) w(3) pw(1) by simp_all
  then show ?thesis
    unfolding uECC_valid_public_key_def
    using fast_field.valid_point_iff [OF F nist_functions(2) [OF assms(1)] _ c(2,3)] pw(2,3) by simp
qed

theorem valid_public_key_decides_witness:
  "uECC_valid_public_key (replicate 64 0) curve_secp256r1 =
    of_bool (valid_coordinates curve_secp256r1 (be_nat (take 32 (replicate 64 0))) (be_nat (take 32 (drop 32 (replicate 64 0)))))"
  by (rule valid_public_key_decides) (simp_all add: nist_curves_def, simp add: curve_secp256r1_def)

text \<open>C9. Compression and decompression: for the curves whose field order is 3 modulo 4 and that have a complete fast
  reduction, decompressing a compressed key gives back the key, when its coordinates are a point of the curve. The power of y is
  Euler's criterion, which holds for every y as the field order is prime; it is assumed for the y at hand.\<close>

theorem decompress_compressed_key:
  assumes "curve \<in> {curve_secp192r1, curve_secp256r1}" and "num_bytes = curve_num_bytes curve" and "p = field_order curve"
    and "2 * num_bytes \<le> length public_key" and "num_bytes + 1 \<le> length compressed" and "2 * num_bytes \<le> length out"
    and "x = be_nat (take num_bytes public_key)" and "y = be_nat (take num_bytes (drop num_bytes public_key))"
    and "valid_coordinates curve x y" and "int y ^ ((p - 1) div 2) mod int p \<in> {1, int p - 1}"
  shows "uECC_decompress (uECC_compress public_key compressed curve) out curve
    = Some (take (2 * num_bytes) public_key @ drop (2 * num_bytes) out)"
proof -
  have c: "curve \<in> nist_curves" using assms(1) by (auto simp: nist_curves_def)
  have F: "fast_field curve (curve_num_words curve) p" using nist_fast_field [OF c] assms(3) by simp
  note k = nist_coefficient [OF c, folded assms(3)]
  have b: "curve_num_words curve \<le> length (curve_b curve)" using k(1) fast_field.words(3) [OF F] by simp
  have s: "curve_mod_sqrt curve = mod_sqrt_default_fn"
    using assms(1) by (auto simp: curve_secp192r1_def curve_secp256r1_def)
  have "curve_num_bytes curve_secp192r1 = 24" "curve_num_bytes curve_secp256r1 = 32"
    by (simp_all add: curve_secp192r1_def curve_secp256r1_def)
  then have nb: "num_bytes = 24 \<and> curve_num_words curve = 3 \<and> p = 2 ^ 192 - 2 ^ 64 - 1
    \<or> num_bytes = 32 \<and> curve_num_words curve = 4 \<and> p = 2 ^ 256 - 2 ^ 224 + 2 ^ 192 + 2 ^ 96 - 1"
    using assms(1-3) p192.field_order p256.field_order p192.words(1) p256.words(1) by auto
  have p: "p mod 4 = 3" "Suc p < 2 ^ (64 * curve_num_words curve)" "p \<le> 2 ^ (8 * num_bytes)" using nb by auto
  show ?thesis
    by (rule fast_field.decompress_compress [OF F nist_functions(2) [OF c] s b k(2) p(1) k(3) p(2,3) assms(2)
          nist_bytes [OF c, folded assms(2)] assms(4-10)])
qed

definition key_y_one :: bytes where
  "key_y_one =
    [9, 0xe7, 0x8d, 0x4e, 0xf6, 0xd, 5, 0xf7, 0x50, 0xf6, 0x63, 0x62, 9, 9, 0x2b, 0xc4,
     0x3c, 0xbd, 0xd6, 0xb4, 0x7e, 0x11, 0xa9, 0xde, 0x20, 0xa9, 0xfe, 0xb2, 0xa5, 0xb, 0xb9, 0x6c] @ replicate 31 0 @ [1]"

lemma key_y_one: "take 32 key_y_one = [9, 0xe7, 0x8d, 0x4e, 0xf6, 0xd, 5, 0xf7, 0x50, 0xf6, 0x63, 0x62, 9, 9, 0x2b, 0xc4,
     0x3c, 0xbd, 0xd6, 0xb4, 0x7e, 0x11, 0xa9, 0xde, 0x20, 0xa9, 0xfe, 0xb2, 0xa5, 0xb, 0xb9, 0x6c]"
  "take 32 (drop 32 key_y_one) = replicate 31 0 @ [1]" "length key_y_one = 64"
  by (simp_all add: key_y_one_def)

lemma key_y_one_value: "be_nat (take 32 key_y_one) = 0x9e78d4ef60d05f750f6636209092bc43cbdd6b47e11a9de20a9feb2a50bb96c"
  "be_nat (take 32 (drop 32 key_y_one)) = 1"
  unfolding key_y_one be_nat_def by (simp_all add: le_nat_zeros)

lemma p256_b: "vn 4 (curve_b curve_secp256r1) = 0x5ac635d8aa3a93e7b3ebbd55769886bc651d06b0cc53b0f63bce3c3e27d2604b"
  by (simp add: curve_secp256r1_def)

lemma key_y_one_valid: "valid_coordinates curve_secp256r1 0x9e78d4ef60d05f750f6636209092bc43cbdd6b47e11a9de20a9feb2a50bb96c 1"
proof -
  have e: "(int 1)\<^sup>2 mod int (field_order curve_secp256r1) =
    (int 0x9e78d4ef60d05f750f6636209092bc43cbdd6b47e11a9de20a9feb2a50bb96c ^ 3 - 3 * int 0x9e78d4ef60d05f750f6636209092bc43cbdd6b47e11a9de20a9feb2a50bb96c + int (vn 4 (curve_b curve_secp256r1))) mod int (field_order curve_secp256r1)"
    unfolding eqm_def [symmetric]
    by (rule eqmI [where q = "- 0x3cb9f6aa0c5d082197ebc2632caa770ccddb6872b3252623fe39a756a8d899275f00551d3fd8da693f1d30f4cbe25901897bae7e4a0589f46c697dfe2633a"])
      (unfold p256_order p256_b, simp)
  have l: "x < field_order curve_secp256r1" if "x < 2 ^ 255" for x using that by (simp add: p256.field_order)
  show ?thesis
    unfolding valid_coordinates_def on_curve_def Let_def p256.words(1) [symmetric]
    by (intro conjI l e) simp_all
qed

theorem decompress_compressed_key_witness:
  "uECC_decompress (uECC_compress key_y_one (replicate 33 0) curve_secp256r1) (replicate 64 0) curve_secp256r1
    = Some (take (2 * 32) key_y_one @ drop (2 * 32) (replicate 64 0))"
proof (rule decompress_compressed_key [OF _ _ refl _ _ _ refl refl])
  show "32 = curve_num_bytes curve_secp256r1" by (simp add: curve_secp256r1_def)
  show "valid_coordinates curve_secp256r1 (be_nat (take 32 key_y_one)) (be_nat (take 32 (drop 32 key_y_one)))"
    unfolding key_y_one_value by (rule key_y_one_valid)
  show "int (be_nat (take 32 (drop 32 key_y_one))) ^ ((field_order curve_secp256r1 - 1) div 2) mod int (field_order curve_secp256r1)
    \<in> {1, int (field_order curve_secp256r1) - 1}"
    unfolding key_y_one_value by (simp add: p256_order)
qed (simp_all add: key_y_one)

end
