(* ===== verification/Uecc_Ecdsa.thy ===== *)
theory Uecc_Ecdsa
  imports Uecc_Keys
begin

text \<open>
  Signatures of micro-ecc (the ECDSA part of \<^verbatim>\<open>uECC.c\<close>): the conversion of a hash, signing with a given, random or
  deterministic nonce, and verification. The hash function of the deterministic nonce is the client's: \<open>init\<close>, \<open>update\<close> and
  \<open>finish\<close> act on an abstract state, the rest of \<^verbatim>\<open>uECC_HashContext\<close> is a record, and its scratch area \<^verbatim>\<open>tmp\<close> is passed along.
\<close>

section \<open>The code\<close>

definition bits2int :: "u64 list \<Rightarrow> bytes \<Rightarrow> nat \<Rightarrow> uECC_Curve \<Rightarrow> u64 list" where
  "bits2int native bits bits_size curve =
     (let num_n_bytes = BITS_TO_BYTES (curve_num_n_bits curve);
          num_n_words = BITS_TO_WORDS (curve_num_n_bits curve);
          bits_size = (if bits_size > num_n_bytes then num_n_bytes else bits_size);
          native = uECC_vli_clear native num_n_words;
          native = uECC_vli_bytesToNative native bits bits_size
      in if bits_size * 8 \<le> curve_num_n_bits curve then native
         else
           let shift = bits_size * 8 - curve_num_n_bits curve;
               (carry, native) = for_range 0 num_n_words (\<lambda>j (carry, native).
                 let ptr = num_n_words - 1 - j;
                     temp = native ! ptr
                 in (push_bit (64 - shift) temp, native[ptr := drop_bit shift temp OR carry])) (0, native)
           in if uECC_vli_cmp_unsafe (curve_n curve) native num_n_words \<noteq> 1
              then snd (uECC_vli_sub native native (curve_n curve) num_n_words) else native)"

text \<open>The result, the nonce (which the code overwrites), the signature and the state of the random number generator.\<close>

definition uECC_sign_with_k :: "'s rng option \<Rightarrow> 's \<Rightarrow> bytes \<Rightarrow> bytes \<Rightarrow> nat \<Rightarrow> u64 list \<Rightarrow> bytes \<Rightarrow> uECC_Curve
    \<Rightarrow> (int \<times> u64 list \<times> bytes \<times> 's) option" where
  "uECC_sign_with_k g_rng_function st private_key message_hash hash_size k signature curve =
     (let num_words = curve_num_words curve;
          num_n_words = BITS_TO_WORDS (curve_num_n_bits curve);
          num_n_bits = curve_num_n_bits curve
      in if uECC_vli_isZero k num_words \<noteq> 0 \<or> uECC_vli_cmp (curve_n curve) k num_n_words \<noteq> 1 then Some (0, k, signature, st)
         else
           let (carry, tmp, s) = regularize_k k (replicate 4 0) (replicate 4 0) curve
           in case EccPoint_mult (replicate 8 0) (curve_G curve) (if carry = 0 then s else tmp) None (num_n_bits + 1) curve of
                None \<Rightarrow> None
              | Some p \<Rightarrow>
                  if uECC_vli_isZero p num_words \<noteq> 0 then Some (0, k, signature, st)
                  else case (case g_rng_function of
                      None \<Rightarrow> (1, (uECC_vli_clear tmp num_n_words)[0 := 1], st)
                    | Some _ \<Rightarrow> uECC_generate_random_int g_rng_function st tmp (curve_n curve) num_n_words) of
                    (ok, tmp, st) \<Rightarrow>
                      if ok = 0 then Some (0, k, signature, st)
                      else
                        let k = uECC_vli_modMult k k tmp (curve_n curve) num_n_words
                        in case uECC_vli_modInv k k (curve_n curve) num_n_words of
                             None \<Rightarrow> None
                           | Some k \<Rightarrow>
                               let k = uECC_vli_modMult k k tmp (curve_n curve) num_n_words;
                                   signature = uECC_vli_nativeToBytes signature (curve_num_bytes curve) p;
                                   tmp = uECC_vli_bytesToNative tmp private_key (BITS_TO_BYTES num_n_bits);
                                   s = s[num_n_words - 1 := 0];
                                   s = uECC_vli_set s p num_words;
                                   s = uECC_vli_modMult s tmp s (curve_n curve) num_n_words;
                                   tmp = bits2int tmp message_hash hash_size curve;
                                   s = uECC_vli_modAdd s tmp s (curve_n curve) num_n_words;
                                   s = uECC_vli_modMult s s k (curve_n curve) num_n_words
                               in if uECC_vli_numBits s num_n_words > curve_num_bytes curve * 8 then Some (0, k, signature, st)
                                  else Some (1, k, at_off (curve_num_bytes curve) (\<lambda>bytes.
                                    uECC_vli_nativeToBytes bytes (curve_num_bytes curve) s) signature, st))"

fun sign_loop :: "nat \<Rightarrow> 's rng option \<Rightarrow> 's \<Rightarrow> bytes \<Rightarrow> bytes \<Rightarrow> nat \<Rightarrow> u64 list \<Rightarrow> bytes \<Rightarrow> uECC_Curve
    \<Rightarrow> (int \<times> bytes \<times> 's) option" where
  "sign_loop 0 g_rng_function st private_key message_hash hash_size k signature curve = Some (0, signature, st)"
| "sign_loop (Suc tries) g_rng_function st private_key message_hash hash_size k signature curve =
     (case uECC_generate_random_int g_rng_function st k (curve_n curve) (BITS_TO_WORDS (curve_num_n_bits curve)) of
        (ok, k, st) \<Rightarrow>
          if ok = 0 then Some (0, signature, st)
          else case uECC_sign_with_k g_rng_function st private_key message_hash hash_size k signature curve of
            None \<Rightarrow> None
          | Some (ok, k, signature, st) \<Rightarrow>
              if ok \<noteq> 0 then Some (1, signature, st)
              else sign_loop tries g_rng_function st private_key message_hash hash_size k signature curve)"

definition uECC_sign :: "'s rng option \<Rightarrow> 's \<Rightarrow> bytes \<Rightarrow> bytes \<Rightarrow> nat \<Rightarrow> bytes \<Rightarrow> uECC_Curve \<Rightarrow> (int \<times> bytes \<times> 's) option" where
  "uECC_sign g_rng_function st private_key message_hash hash_size signature curve =
     sign_loop uECC_RNG_MAX_TRIES g_rng_function st private_key message_hash hash_size (replicate 4 0) signature curve"

definition smax :: "nat \<Rightarrow> nat \<Rightarrow> nat" where
  "smax a b = (if a > b then a else b)"

text \<open>
  The interleaved multiplication of \<^verbatim>\<open>uECC_verify\<close>. The array of pointers \<^verbatim>\<open>points\<close> has the null pointer at index 0; the index is formed
  from one bit of each scalar.
\<close>

definition shamir_index :: "u64 list \<Rightarrow> u64 list \<Rightarrow> nat \<Rightarrow> nat" where
  "shamir_index u1 u2 i =
     of_bool (uECC_vli_testBit u1 i \<noteq> 0) OR push_bit 1 (of_bool (uECC_vli_testBit u2 i \<noteq> 0))"

definition verify_step :: "u64 list option list \<Rightarrow> u64 list \<Rightarrow> u64 list \<Rightarrow> uECC_Curve \<Rightarrow> nat
    \<Rightarrow> u64 list \<times> u64 list \<times> u64 list \<Rightarrow> u64 list \<times> u64 list \<times> u64 list" where
  "verify_step points u1 u2 curve i = (\<lambda>(rx, ry, z).
     let num_words = curve_num_words curve;
         (rx, ry, z) = double_jacobian rx ry z curve
     in case points ! shamir_index u1 u2 i of
          None \<Rightarrow> (rx, ry, z)
        | Some point \<Rightarrow>
            let tx = uECC_vli_set (replicate 4 0) point num_words;
                ty = uECC_vli_set (replicate 4 0) (drop num_words point) num_words;
                (tx, ty) = apply_z tx ty z curve;
                tz = uECC_vli_modSub (replicate 4 0) rx tx (curve_p curve) num_words;
                (tx, ty, rx, ry) = XYcZ_add tx ty rx ry curve;
                z = uECC_vli_modMult_fast z z tz curve
            in (rx, ry, z))"

text \<open>The sum of the base point and the public key; its two coordinates are the halves of one array.\<close>

definition verify_sum :: "u64 list \<Rightarrow> uECC_Curve \<Rightarrow> u64 list option" where
  "verify_sum public curve =
     (let num_words = curve_num_words curve;
          sum_x = uECC_vli_set (replicate 4 0) public num_words;
          sum_y = uECC_vli_set (replicate 4 0) (drop num_words public) num_words;
          tx = uECC_vli_set (replicate 4 0) (curve_G curve) num_words;
          ty = uECC_vli_set (replicate 4 0) (drop num_words (curve_G curve)) num_words;
          z = uECC_vli_modSub (replicate 4 0) sum_x tx (curve_p curve) num_words;
          (tx, ty, sum_x, sum_y) = XYcZ_add tx ty sum_x sum_y curve
      in case uECC_vli_modInv z z (curve_p curve) num_words of
           None \<Rightarrow> None
         | Some z \<Rightarrow>
             let (sum_x, sum_y) = apply_z sum_x sum_y z curve
             in Some (take num_words sum_x @ sum_y))"

definition uECC_verify :: "bytes \<Rightarrow> bytes \<Rightarrow> nat \<Rightarrow> bytes \<Rightarrow> uECC_Curve \<Rightarrow> int option" where
  "uECC_verify public_key message_hash hash_size signature curve =
     (let num_words = curve_num_words curve;
          num_n_words = BITS_TO_WORDS (curve_num_n_bits curve);
          public = public_words public_key curve;
          r = uECC_vli_bytesToNative (replicate 4 0) signature (curve_num_bytes curve);
          s = uECC_vli_bytesToNative (replicate 4 0) (drop (curve_num_bytes curve) signature) (curve_num_bytes curve)
      in if uECC_vli_isZero r num_words \<noteq> 0 \<or> uECC_vli_isZero s num_words \<noteq> 0 then Some 0
         else if uECC_vli_cmp_unsafe (curve_n curve) r num_n_words \<noteq> 1
           \<or> uECC_vli_cmp_unsafe (curve_n curve) s num_n_words \<noteq> 1 then Some 0
         else case uECC_vli_modInv (replicate 4 0) s (curve_n curve) num_n_words of
           None \<Rightarrow> None
         | Some z \<Rightarrow>
             let u1 = bits2int (replicate 4 0) message_hash hash_size curve;
                 u1 = uECC_vli_modMult u1 u1 z (curve_n curve) num_n_words;
                 u2 = uECC_vli_modMult (replicate 4 0) r z (curve_n curve) num_n_words
             in case verify_sum public curve of
                  None \<Rightarrow> None
                | Some sumP \<Rightarrow>
                    let points = [None, Some (curve_G curve), Some public, Some sumP];
                        num_bits = smax (uECC_vli_numBits u1 num_n_words) (uECC_vli_numBits u2 num_n_words);
                        point = the (points ! shamir_index u1 u2 (num_bits - 1));
                        rx = uECC_vli_set (replicate 4 0) point num_words;
                        ry = uECC_vli_set (replicate 4 0) (drop num_words point) num_words;
                        z = (uECC_vli_clear z num_words)[0 := 1];
                        (rx, ry, z) = for_range 0 (num_bits - 1)
                          (\<lambda>j. verify_step points u1 u2 curve (num_bits - 2 - j)) (rx, ry, z)
                    in case uECC_vli_modInv z z (curve_p curve) num_words of
                         None \<Rightarrow> None
                       | Some z \<Rightarrow>
                           let (rx, ry) = apply_z rx ry z curve;
                               rx = (if uECC_vli_cmp_unsafe (curve_n curve) rx num_n_words \<noteq> 1
                                     then snd (uECC_vli_sub rx rx (curve_n curve) num_n_words) else rx)
                           in Some (uint (uECC_vli_equal rx r num_words)))"

section \<open>The number made of a hash\<close>

text \<open>A shift to the right across words, by less than a word.\<close>

lemma shift_words:
  assumes n: "n \<le> length x" and s: "0 < s" "s < 64"
    and r: "for_range 0 n (\<lambda>j (carry, x). let ptr = n - 1 - j; temp = x ! ptr
      in (push_bit (64 - s) temp, x[ptr := drop_bit s temp OR carry])) (0, x) = (c, y)"
  shows "vn n y = vn n x div 2 ^ s" "length y = length x"
proof -
  define I where "I = (\<lambda>j (c, y). length y = length x \<and> c = (if j = 0 then 0 else push_bit (64 - s) (x ! (n - j)))
    \<and> (\<forall>w<n. y ! w = (if w < n - j then x ! w else drop_bit s (x ! w) OR (if w + 1 < n then push_bit (64 - s) (x ! (w + 1)) else 0 :: u64))))"
  have "I n (c, y)"
    unfolding r [symmetric]
  proof (rule for_range_invariant [where P = I])
    fix j cx assume j: "0 \<le> j" "j < n" and I: "I j cx"
    obtain c y where cy: "cx = (c, y)" by fastforce
    define ptr where "ptr = n - 1 - j"
    have p: "ptr < n" "n - j = Suc ptr" "n - Suc j = ptr" "ptr + 1 < n \<longleftrightarrow> j \<noteq> 0" using j by (auto simp: ptr_def)
    have y: "length y = length x" "y ! ptr = x ! ptr" "c = (if ptr + 1 < n then push_bit (64 - s) (x ! (ptr + 1)) else 0)"
      using I p by (simp_all add: I_def cy)
    have "(case cx of (carry, x) \<Rightarrow> let ptr = n - 1 - j; temp = x ! ptr
        in (push_bit (64 - s) temp, x[ptr := drop_bit s temp OR carry])) =
      (push_bit (64 - s) (x ! ptr), y[ptr := drop_bit s (x ! ptr) OR c])"
      unfolding cy prod.case Let_def ptr_def [symmetric] y(2) ..
    moreover have "I (Suc j) (push_bit (64 - s) (x ! ptr), y[ptr := drop_bit s (x ! ptr) OR c])"
      unfolding I_def prod.case
    proof (intro conjI allI impI)
      fix w assume w: "w < n"
      have "y ! w = (if w < Suc ptr then x ! w else drop_bit s (x ! w) OR (if w + 1 < n then push_bit (64 - s) (x ! (w + 1)) else 0))"
        using I w by (simp add: I_def cy p(2))
      then show "y[ptr := drop_bit s (x ! ptr) OR c] ! w =
        (if w < n - Suc j then x ! w else drop_bit s (x ! w) OR (if w + 1 < n then push_bit (64 - s) (x ! (w + 1)) else 0))"
        using y n w p(1) unfolding p(3) by (cases "w = ptr") (auto simp: nth_list_update)
    qed (use y p in simp_all)
    ultimately show "I (Suc j) (case cx of (carry, x) \<Rightarrow> let ptr = n - 1 - j; temp = x ! ptr
        in (push_bit (64 - s) temp, x[ptr := drop_bit s temp OR carry]))" by simp
  qed (simp_all add: I_def)
  then have y: "length y = length x" "\<And>w. w < n \<Longrightarrow> y ! w = drop_bit s (x ! w) OR (if w + 1 < n then push_bit (64 - s) (x ! (w + 1)) else 0)"
    by (simp_all add: I_def)
  show "length y = length x" by (rule y(1))
  have ly: "n \<le> length y" using y(1) n by simp
  have "vn n y = drop_bit s (vn n x)"
  proof (rule bit_eqI)
    fix j
    show "bit (vn n y) j \<longleftrightarrow> bit (drop_bit s (vn n x)) j"
    proof (cases "j < 64 * n")
      case False
      then show ?thesis by (simp add: bit_vn [OF ly] bit_vn [OF n] bit_drop_bit_eq)
    next
      case True
      define w where "w = j div 64"
      define k where "k = j mod 64"
      have jk: "j = 64 * w + k" "k < 64" "w < n" using True by (simp_all add: w_def k_def less_mult_imp_div_less mult.commute)
      have "bit (vn n y) j \<longleftrightarrow> bit (y ! w) k" using True by (simp add: bit_vn [OF ly] w_def k_def)
      also have "\<dots> \<longleftrightarrow> k + s < 64 \<and> bit (x ! w) (k + s) \<or> 64 - s \<le> k \<and> w + 1 < n \<and> bit (x ! (w + 1)) (k - (64 - s))"
        using jk y(2) [OF jk(3)] by (auto simp: bit_simps add.commute dest: bit_imp_le_length)
      also have "\<dots> \<longleftrightarrow> bit (vn n x) (j + s)"
      proof (cases "k + s < 64")
        case True
        then have e: "j + s = 64 * w + (k + s)" using jk by simp
        have "(j + s) div 64 = w" "(j + s) mod 64 = k + s" "j + s < 64 * n"
          using True jk(3) unfolding e by (simp_all only: div_mult_self4 mod_mult_self4) simp_all
        moreover have "\<not> 64 - s \<le> k" using True by linarith
        ultimately show ?thesis using True by (simp add: bit_vn [OF n])
      next
        case False
        have e: "j + s = 64 * (w + 1) + (k - (64 - s))" "k - (64 - s) < 64" using jk False s by auto
        then have "(j + s) div 64 = w + 1" "(j + s) mod 64 = k - (64 - s)" by (simp_all only: div_mult_self4 mod_mult_self4) simp_all
        moreover have "a = 64 * (w + 1) + r \<Longrightarrow> r < 64 \<Longrightarrow> a < 64 * n \<longleftrightarrow> w + 1 < n" for a r by auto
        from this [OF e] have "j + s < 64 * n \<longleftrightarrow> w + 1 < n" .
        moreover have "64 - s \<le> k" using False by linarith
        ultimately show ?thesis using False by (simp add: bit_vn [OF n])
      qed
      finally show ?thesis by (simp add: bit_drop_bit_eq add.commute)
    qed
  qed
  then show "vn n y = vn n x div 2 ^ s" by (simp add: drop_bit_eq_div)
qed

definition hash_value :: "bytes \<Rightarrow> nat \<Rightarrow> nat \<Rightarrow> nat \<Rightarrow> nat" where
  "hash_value bits bits_size nb N =
     (let size = min bits_size (BITS_TO_BYTES nb); e = be_nat (take size bits)
      in if size * 8 \<le> nb then e else let q = e div 2 ^ (size * 8 - nb) in if N \<le> q then q - N else q)"

lemma bits2int_value:
  assumes nw: "nw = BITS_TO_WORDS (curve_num_n_bits curve)" and l: "nw \<le> length native" "nw \<le> length (curve_n curve)" "bits_size \<le> length bits"
  shows "vn nw (bits2int native bits bits_size curve) = hash_value bits bits_size (curve_num_n_bits curve) (vn nw (curve_n curve))"
    "length (bits2int native bits bits_size curve) = length native"
proof -
  define nb where "nb = curve_num_n_bits curve"
  have nw': "BITS_TO_WORDS nb = nw" by (simp add: nw nb_def)
  define size where "size = min bits_size (BITS_TO_BYTES nb)"
  have sz: "(if bits_size > BITS_TO_BYTES nb then BITS_TO_BYTES nb else bits_size) = size" by (simp add: size_def)
  define m where "m = (size + 7) div 8"
  have m: "m \<le> nw" unfolding m_def nw'[symmetric] BITS_TO_WORDS_def
    using div_le_mono [of "size + 7" "BITS_TO_BYTES nb + 7" 8] by (simp add: size_def BITS_TO_BYTES_def div_mult2_eq [symmetric, of "nb + 7 + 56" 8 8, simplified])
  have szb: "size \<le> length bits" using l(3) by (simp add: size_def)
  define x0 where "x0 = uECC_vli_clear native nw"
  define x where "x = uECC_vli_bytesToNative x0 bits size"
  have x0: "length x0 = length native" "m \<le> length x0" "vn (nw - m) (drop m x0) = 0"
    using l(1) m vn_zero [of "nw - m" "nw - m"] by (simp_all add: x0_def vli_clear_eq)
  have lx: "length x = length native" "drop m x = drop m x0" using bytesToNative_bits(1,2) [OF m_def [symmetric] x0(2)] x0(1) by (simp_all add: x_def)
  have vx: "vn nw x = be_nat (take size bits)"
    using vn_add [of m x "nw - m"] lx l(1) m x0(3) vn_bytesToNative [OF m_def [symmetric] x0(2) szb] by (simp add: x_def be_nat_def)
  have lx': "nw \<le> length x" using lx l(1) by simp
  have "vn nw (bits2int native bits bits_size curve) = hash_value bits bits_size nb (vn nw (curve_n curve))
    \<and> length (bits2int native bits bits_size curve) = length native"
  proof (cases "size * 8 \<le> nb")
    case True
    have "bits2int native bits bits_size curve = x"
      using True unfolding bits2int_def nb_def [symmetric] nw' Let_def sz x0_def [symmetric] x_def [symmetric] by simp
    then show ?thesis using True vx lx by (simp add: hash_value_def size_def [symmetric] Let_def)
  next
    case False
    define shift where "shift = size * 8 - nb"
    have shift: "0 < shift" "shift < 64" using False by (auto simp: shift_def size_def BITS_TO_BYTES_def)
    obtain c y where y: "for_range 0 nw (\<lambda>j (carry, native). let ptr = nw - 1 - j; temp = native ! ptr
        in (push_bit (64 - shift) temp, native[ptr := drop_bit shift temp OR carry])) (0, x) = (c, y)" by fastforce
    note yv = shift_words [OF lx' shift y]
    have e: "bits2int native bits bits_size curve =
      (if uECC_vli_cmp_unsafe (curve_n curve) y nw \<noteq> 1 then snd (uECC_vli_sub y y (curve_n curve) nw) else y)"
      using False y unfolding bits2int_def nb_def [symmetric] nw' Let_def sz x0_def [symmetric] x_def [symmetric] shift_def [symmetric] by simp
    have ly: "nw \<le> length y" using yv(2) lx' by simp
    obtain d z where z: "uECC_vli_sub y y (curve_n curve) nw = (d, z)" by fastforce
    show ?thesis
      using False yv lx(1) vli_cmp_unsafe_eq [OF l(2) ly] vli_sub_borrow(2) [OF ly ly l(2) z] vli_sub_correct(3) [OF ly ly l(2) z]
      by (auto simp: e z hash_value_def size_def [symmetric] Let_def vx shift_def split: if_splits)
  qed
  then show "vn nw (bits2int native bits bits_size curve) = hash_value bits bits_size (curve_num_n_bits curve) (vn nw (curve_n curve))"
    "length (bits2int native bits bits_size curve) = length native" by (simp_all add: nb_def)
qed

section \<open>The interleaved multiplication\<close>

text \<open>
  The specification is a family of points, \<open>M a b\<close> for the a-fold of the base point plus the b-fold of the public key. What the
  loop computes are a tangent and, where one of the two bits is set, a chord of the family.
\<close>

definition shamir_step :: "nat \<Rightarrow> (nat \<Rightarrow> nat \<Rightarrow> int \<times> int) \<Rightarrow> nat \<Rightarrow> nat \<Rightarrow> bool \<Rightarrow> bool \<Rightarrow> bool" where
  "shamir_step p M a b c d \<longleftrightarrow>
     tangent p (- 3) (M a b) (M (2 * a) (2 * b)) \<and> coprime (snd (M a b)) (int p)
   \<and> (c \<or> d \<longrightarrow> chord p (M (of_bool c) (of_bool d)) (M (2 * a) (2 * b)) (M (2 * a + of_bool c) (2 * b + of_bool d))
       \<and> coprime (fst (M (2 * a) (2 * b)) - fst (M (of_bool c) (of_bool d))) (int p))"

definition shamir_points :: "nat \<Rightarrow> (nat \<Rightarrow> nat \<Rightarrow> int \<times> int) \<Rightarrow> nat \<Rightarrow> nat \<Rightarrow> nat \<Rightarrow> bool" where
  "shamir_points p M u1 u2 num_bits \<longleftrightarrow>
     chord p (M 1 0) (M 0 1) (M 1 1) \<and> coprime (fst (M 0 1) - fst (M 1 0)) (int p)
   \<and> (\<forall>i<num_bits - 1. shamir_step p M (u1 div 2 ^ Suc i) (u2 div 2 ^ Suc i) (bit u1 i) (bit u2 i))"

definition shamir_state :: "uECC_Curve \<Rightarrow> int \<times> int \<Rightarrow> u64 list \<times> u64 list \<times> u64 list \<Rightarrow> bool" where
  "shamir_state curve P = (\<lambda>(rx, ry, z). \<exists>e. coprime e (int (field_order curve)) \<and> scaled curve rx ry e P \<and> res curve z e)"

text \<open>The array of a point: the two coordinates one after the other.\<close>

definition point_rep :: "uECC_Curve \<Rightarrow> u64 list \<Rightarrow> int \<times> int \<Rightarrow> bool" where
  "point_rep curve point P \<longleftrightarrow> res curve point (fst P) \<and> res curve (drop (curve_num_words curve) point) (snd P)"

lemma div_pow_Suc: "(u :: nat) div 2 ^ i = 2 * (u div 2 ^ Suc i) + of_bool (bit u i)"
  using power_prefix [of u i "bit u i" 2] unfolding power_Suc2 div_mult2_eq
  by (cases "even (u div 2 ^ i)") (auto simp: bit_iff_odd elim!: evenE oddE)

context fast_field
begin

lemma inverse_denominator:
  assumes "eqm p (f * e) 1"
  shows "eqm p (x * e\<^sup>2 * f\<^sup>2) x" "eqm p (x * e ^ 3 * (f\<^sup>2 * f)) x"
proof -
  have e: "x * e\<^sup>2 * f\<^sup>2 = x * (f * e)\<^sup>2" "x * e ^ 3 * (f\<^sup>2 * f) = x * (f * e) ^ 3" by algebra+
  have "eqm p (x * (f * e) ^ i) (x * 1 ^ i)" for i by (intro eqm_ring eqm_refl assms)
  then show "eqm p (x * e\<^sup>2 * f\<^sup>2) x" "eqm p (x * e ^ 3 * (f\<^sup>2 * f)) x"
    unfolding e by (metis mult.right_neutral power_one)+
qed

text \<open>Dividing the denominator out.\<close>

lemma normalise:
  assumes S: "scaled curve X Y e P" and z: "res curve z e" "coprime e (int p)" and b: "buf curve r"
  shows "\<exists>v. uECC_vli_modInv r z (curve_p curve) n = Some v \<and>
    (case apply_z X Y v curve of (X, Y) \<Rightarrow> res curve X (fst P) \<and> res curve Y (snd P))"
proof -
  obtain v f where v: "uECC_vli_modInv r z (curve_p curve) n = Some v" "res curve v f" "eqm p (f * e) 1"
    using res_modInv [OF z b] by blast
  have q: "res curve X (fst P * e\<^sup>2)" "res curve Y (snd P * e ^ 3)" using S by (simp_all add: scaled_def case_prod_beta)
  obtain X' Y' where a: "apply_z X Y v curve = (X', Y')" by fastforce
  note g = apply_z_res [OF q v(2), unfolded a holds_def prod.case]
  have "res curve X' (fst P)" by (rule res_eqm_p [OF g [THEN conjunct1] inverse_denominator(1) [OF v(3)]])
  moreover have "res curve Y' (snd P)" by (rule res_eqm_p [OF g [THEN conjunct2] inverse_denominator(2) [OF v(3)]])
  ultimately show ?thesis using v(1) a by simp
qed

lemma point_set:
  assumes "point_rep curve point P"
  shows "res curve (uECC_vli_set (replicate 4 0) point n) (fst P)" "res curve (uECC_vli_set (replicate 4 0) (drop n point) n) (snd P)"
  using assms res_set [OF buf_local] by (simp_all add: point_rep_def words(1) [symmetric])

lemma verify_sum_point:
  assumes G: "point_rep curve (curve_G curve) P" and Q: "point_rep curve public Q"
    and c: "chord p P Q R" and d: "coprime (fst Q - fst P) (int p)"
  shows "\<exists>sumP. verify_sum public curve = Some sumP \<and> point_rep curve sumP R"
proof -
  define sx where "sx = uECC_vli_set (replicate 4 0) public n"
  define sy where "sy = uECC_vli_set (replicate 4 0) (drop n public) n"
  define tx where "tx = uECC_vli_set (replicate 4 0) (curve_G curve) n"
  define ty where "ty = uECC_vli_set (replicate 4 0) (drop n (curve_G curve)) n"
  define z where "z = uECC_vli_modSub (replicate 4 0) sx tx (curve_p curve) n"
  have s: "scaled curve sx sy 1 Q" "scaled curve tx ty 1 P"
    using point_set [OF G] point_set [OF Q] by (simp_all add: scaled_def case_prod_beta sx_def sy_def tx_def ty_def)
  have z: "res curve z (fst Q - fst P)"
    unfolding z_def sx_def tx_def by (rule res_sub [OF buf_local point_set(1) [OF Q] point_set(1) [OF G]])
  obtain tx' ty' sx' sy' where a: "XYcZ_add tx ty sx sy curve = (tx', ty', sx', sy')" by (metis surj_pair)
  have "scaled curve sx' sy' (fst Q - fst P) R"
    using XYcZ_add_chord [OF s(2,1) c] by (simp add: a holds_def next_z_def)
  from normalise [OF this z d res_buf [OF z]] obtain v X Y where
    v: "uECC_vli_modInv z z (curve_p curve) n = Some v" "apply_z sx' sy' v curve = (X, Y)" "res curve X (fst R)" "res curve Y (snd R)"
    by auto
  have "verify_sum public curve = Some (take n X @ Y)"
    unfolding verify_sum_def words(1) [symmetric] Let_def sx_def [symmetric] sy_def [symmetric] tx_def [symmetric] ty_def [symmetric]
      z_def [symmetric] a prod.case v(1,2) option.case ..
  moreover have "res curve (take n X @ Y) (fst R)" "drop n (take n X @ Y) = Y"
    using v(3) by (auto intro: res_prefix simp: res_iff)
  ultimately show ?thesis using v(4) by (simp add: point_rep_def words(1) [symmetric])
qed

lemma verify_step_state:
  assumes fn: "curve_double_jacobian curve = double_jacobian_default_fn"
    and S: "shamir_state curve (M a b) R" and st: "shamir_step p M a b c d"
    and i: "uECC_vli_testBit u1 i \<noteq> 0 \<longleftrightarrow> c" "uECC_vli_testBit u2 i \<noteq> 0 \<longleftrightarrow> d"
    and pts: "points = [None, Some P1, Some P2, Some P3]" "point_rep curve P1 (M 1 0)" "point_rep curve P2 (M 0 1)" "point_rep curve P3 (M 1 1)"
  shows "shamir_state curve (M (2 * a + of_bool c) (2 * b + of_bool d)) (verify_step points u1 u2 curve i R)"
proof -
  obtain rx ry z e where R: "R = (rx, ry, z)" and e: "coprime e (int p)" "scaled curve rx ry e (M a b)" "res curve z e"
    using S by (auto simp: shamir_state_def field_order)
  have t: "tangent p (- 3) (M a b) (M (2 * a) (2 * b))" "coprime (snd (M a b)) (int p)" using st by (simp_all add: shamir_step_def)
  obtain rx' ry' z' where D: "double_jacobian rx ry z curve = (rx', ry', z')" by (metis surj_pair)
  define e' where "e' = snd (M a b) * e ^ 4"
  have s: "scaled curve rx' ry' e' (M (2 * a) (2 * b))" "res curve z' e'" "coprime e' (int p)"
    using double_jacobian_default_tangent [OF e(2,3) vn_nonzero [OF e(3,1)] t(1)] D t(2) e(1)
    by (simp_all add: double_jacobian_def fn holds_def e'_def)
  define j where "j = shamir_index u1 u2 i"
  have j: "j = of_bool c + 2 * of_bool d" using i by (cases c; cases d) (simp_all add: j_def shamir_index_def)
  show ?thesis
  proof (cases "c \<or> d")
    case False
    then have "verify_step points u1 u2 curve i R = (rx', ry', z')"
      unfolding verify_step_def R prod.case words(1) [symmetric] Let_def D j_def [symmetric] j by (simp add: pts(1))
    then show ?thesis using s False by (auto simp: shamir_state_def field_order)
  next
    case True
    define P where "P = M (of_bool c) (of_bool d)"
    obtain point where pt: "points ! j = Some point" "point_rep curve point P"
      using True pts by (cases c; cases d) (simp_all add: j P_def)
    define tx where "tx = uECC_vli_set (replicate 4 0) point n"
    define ty where "ty = uECC_vli_set (replicate 4 0) (drop n point) n"
    obtain tx' ty' where a: "apply_z tx ty z' curve = (tx', ty')" by fastforce
    have u: "scaled curve tx' ty' e' P"
      using apply_z_res [OF point_set [OF pt(2)] s(2)]
      by (simp add: a [unfolded tx_def ty_def] holds_def scaled_def case_prod_beta power_numeral_reduce mult.assoc)
    define tz where "tz = uECC_vli_modSub (replicate 4 0) rx' tx' (curve_p curve) n"
    have x: "res curve rx' (fst (M (2 * a) (2 * b)) * e'\<^sup>2)" "res curve tx' (fst P * e'\<^sup>2)"
      using s(1) u by (simp_all add: scaled_def case_prod_beta)
    have tz: "res curve tz (fst (M (2 * a) (2 * b)) * e'\<^sup>2 - fst P * e'\<^sup>2)"
      unfolding tz_def by (rule res_sub [OF buf_local x])
    obtain tx2 ty2 rx2 ry2 where g: "XYcZ_add tx' ty' rx' ry' curve = (tx2, ty2, rx2, ry2)" by (metis surj_pair)
    have c: "chord p P (M (2 * a) (2 * b)) (M (2 * a + of_bool c) (2 * b + of_bool d))"
      and d: "coprime (fst (M (2 * a) (2 * b)) - fst P) (int p)" using st True by (simp_all add: shamir_step_def P_def)
    define e2 where "e2 = next_z e' P (M (2 * a) (2 * b))"
    have "scaled curve rx2 ry2 e2 (M (2 * a + of_bool c) (2 * b + of_bool d))"
      using XYcZ_add_chord [OF u s(1) c] by (simp add: g holds_def e2_def)
    moreover have "res curve (uECC_vli_modMult_fast z' z' tz curve) e2"
      by (rule res_expr [OF res_mult [OF res_buf [OF s(2)] s(2) tz]]) (simp add: e2_def next_z_def, algebra)
    moreover have "coprime e2 (int p)" unfolding e2_def by (rule coprime_next_z [OF s(3) d])
    moreover have "verify_step points u1 u2 curve i R = (rx2, ry2, uECC_vli_modMult_fast z' z' tz curve)"
      unfolding verify_step_def R prod.case words(1) [symmetric] Let_def D j_def [symmetric] pt(1) option.case
        tx_def [symmetric] ty_def [symmetric] a tz_def [symmetric] g ..
    ultimately show ?thesis by (auto simp: shamir_state_def field_order)
  qed
qed

lemma verify_loop_state:
  assumes fn: "curve_double_jacobian curve = double_jacobian_default_fn"
    and bits: "\<And>i. i < L \<Longrightarrow> uECC_vli_testBit u1 i \<noteq> 0 \<longleftrightarrow> bit k1 i" "\<And>i. i < L \<Longrightarrow> uECC_vli_testBit u2 i \<noteq> 0 \<longleftrightarrow> bit k2 i"
    and k: "k1 < 2 ^ L" "k2 < 2 ^ L" "0 < L" "2 ^ (L - 1) \<le> k1 \<or> 2 ^ (L - 1) \<le> k2" and M: "shamir_points p M k1 k2 L"
    and pts: "points = [None, Some P1, Some P2, Some P3]" "point_rep curve P1 (M 1 0)" "point_rep curve P2 (M 0 1)" "point_rep curve P3 (M 1 1)"
    and pt: "point = the (points ! shamir_index u1 u2 (L - 1))" and z: "n \<le> length z"
  shows "shamir_state curve (M k1 k2) (for_range 0 (L - 1) (\<lambda>j. verify_step points u1 u2 curve (L - 2 - j))
    (uECC_vli_set (replicate 4 0) point n, uECC_vli_set (replicate 4 0) (drop n point) n, (uECC_vli_clear z n)[0 := 1]))"
proof -
  have top_bit: "k div 2 ^ (L - 1) = of_bool (bit k (L - 1))" if "k < 2 ^ L" for k :: nat
  proof -
    have "k < 2 * 2 ^ (L - 1)" using that k(3) by (cases L) simp_all
    then have "k div 2 ^ (L - 1) < 2" by (intro less_mult_imp_div_less) simp
    then show ?thesis by (auto simp: bit_iff_odd less_2_cases_iff)
  qed
  define c where "c = bit k1 (L - 1)"
  define d where "d = bit k2 (L - 1)"
  have cd: "k1 div 2 ^ (L - 1) = of_bool c" "k2 div 2 ^ (L - 1) = of_bool d" using top_bit k(1,2) by (simp_all add: c_def d_def)
  have "c \<or> d"
    using k(4) cd by (cases c; cases d) (auto simp: div_eq_0_iff)
  have ix: "shamir_index u1 u2 (L - 1) = of_bool c + 2 * of_bool d"
    using bits [of "L - 1"] k(3) by (cases c; cases d) (simp_all add: shamir_index_def c_def d_def)
  have pr: "point_rep curve point (M (of_bool c) (of_bool d))"
    unfolding pt ix pts(1) using \<open>c \<or> d\<close> pts(2-4) by (cases c; cases d) simp_all
  have one: "res curve ((uECC_vli_clear z n)[0 := 1]) 1"
    using words order vn_one [of n z] z by (simp add: res_iff del: One_nat_def)
  have start: "shamir_state curve (M (k1 div 2 ^ (L - 1)) (k2 div 2 ^ (L - 1)))
    (uECC_vli_set (replicate 4 0) point n, uECC_vli_set (replicate 4 0) (drop n point) n, (uECC_vli_clear z n)[0 := 1])"
    unfolding cd using point_set [OF pr] one by (auto simp: shamir_state_def scaled_def case_prod_beta intro!: exI [of _ 1])
  have "shamir_state curve (M (k1 div 2 ^ (L - 1 - (L - 1))) (k2 div 2 ^ (L - 1 - (L - 1))))
    (for_range 0 (L - 1) (\<lambda>j. verify_step points u1 u2 curve (L - 2 - j))
    (uECC_vli_set (replicate 4 0) point n, uECC_vli_set (replicate 4 0) (drop n point) n, (uECC_vli_clear z n)[0 := 1]))"
  proof (rule for_range_invariant [where P = "\<lambda>j. shamir_state curve (M (k1 div 2 ^ (L - 1 - j)) (k2 div 2 ^ (L - 1 - j)))"])
    fix j R assume j: "0 \<le> j" "j < L - 1" and S: "shamir_state curve (M (k1 div 2 ^ (L - 1 - j)) (k2 div 2 ^ (L - 1 - j))) R"
    define i where "i = L - 2 - j"
    have i: "L - 1 - j = Suc i" "L - 1 - Suc j = i" "i < L - 1" "i < L" using j by (auto simp: i_def)
    have st: "shamir_step p M (k1 div 2 ^ Suc i) (k2 div 2 ^ Suc i) (bit k1 i) (bit k2 i)" using M i(3) by (simp add: shamir_points_def)
    have "shamir_state curve (M (2 * (k1 div 2 ^ Suc i) + of_bool (bit k1 i)) (2 * (k2 div 2 ^ Suc i) + of_bool (bit k2 i)))
      (verify_step points u1 u2 curve i R)"
      by (rule verify_step_state [OF fn S [unfolded i(1)] st bits(1) [OF i(4)] bits(2) [OF i(4)] pts])
    then show "shamir_state curve (M (k1 div 2 ^ (L - 1 - Suc j)) (k2 div 2 ^ (L - 1 - Suc j))) (verify_step points u1 u2 curve (L - 2 - j) R)"
      unfolding i(2) div_pow_Suc [of k1 i, symmetric] div_pow_Suc [of k2 i, symmetric] by (simp only: i_def)
  qed (use start in simp_all)
  then show ?thesis by simp
qed

lemma smax_numBits:
  assumes l: "n \<le> length x" "n \<le> length y" and L: "vn n x < 2 ^ L" "vn n y < 2 ^ L" "0 < L" "2 ^ (L - 1) \<le> vn n x \<or> 2 ^ (L - 1) \<le> vn n y"
  shows "smax (uECC_vli_numBits x n) (uECC_vli_numBits y n) = L"
proof -
  have le: "uECC_vli_numBits w n \<le> L" if "n \<le> length w" "vn n w < 2 ^ L" for w
  proof (rule ccontr)
    assume *: "\<not> uECC_vli_numBits w n \<le> L"
    note nb = vli_numBits_bounds [OF that(1)]
    have "vn n w \<noteq> 0" using nb(4) * by auto
    then have "2 ^ (uECC_vli_numBits w n - 1) < (2 :: nat) ^ L" using nb(2) that(2) by linarith
    then show False using * by simp
  qed
  show ?thesis
    using L(4) numBits_unique [OF l(1) L(1)] numBits_unique [OF l(2) L(2)] le [OF l(1) L(1)] le [OF l(2) L(2)] by (auto simp: smax_def)
qed

lemma verify_correct:
  assumes fn: "curve_double_jacobian curve = double_jacobian_default_fn"
    and nw: "BITS_TO_WORDS (curve_num_n_bits curve) = n" "(num_bytes + 7) div 8 = n" "num_bytes = curve_num_bytes curve"
    and N: "N = vn n (curve_n curve)" "n \<le> length (curve_n curve)" "odd N" "1 < N" "64 * (n - 1) < uECC_vli_numBits (curve_n curve) n" "p < 2 * N"
    and l: "2 * num_bytes \<le> length public_key" "2 * num_bytes \<le> length signature" "hash_size \<le> length message_hash"
    and G: "point_rep curve (curve_G curve) (M 1 0)"
    and Q: "M 0 1 = (int (be_nat (take num_bytes public_key)), int (be_nat (take num_bytes (drop num_bytes public_key))))"
      "be_nat (take num_bytes public_key) < p" "be_nat (take num_bytes (drop num_bytes public_key)) < p"
    and rs: "r = be_nat (take num_bytes signature)" "s = be_nat (take num_bytes (drop num_bytes signature))" "0 < r" "r < N" "0 < s" "s < N"
    and w: "w * s mod N = 1"
    and u: "u1 = hash_value message_hash hash_size (curve_num_n_bits curve) N * w mod N" "u2 = r * w mod N"
    and L: "u1 < 2 ^ L" "u2 < 2 ^ L" "0 < L" "2 ^ (L - 1) \<le> u1 \<or> 2 ^ (L - 1) \<le> u2" and M: "shamir_points p M u1 u2 L"
  shows "uECC_verify public_key message_hash hash_size signature curve = Some (of_bool (nat (fst (M u1 u2) mod int p) mod N = r))"
proof -
  have n4: "n \<le> length (replicate 4 (0 :: u64))" "n \<le> length (replicate 8 (0 :: u64))" using words(3) by simp_all
  have np: "0 < n" "n \<le> 4" using words by simp_all
  define R where "R = uECC_vli_bytesToNative (replicate 4 0) signature num_bytes"
  define S where "S = uECC_vli_bytesToNative (replicate 4 0) (drop num_bytes signature) num_bytes"
  have RS: "vn n R = r" "length R = 4" "vn n S = s" "length S = 4"
    using vn_bytesToNative [OF nw(2) n4(1), of signature] vn_bytesToNative [OF nw(2) n4(1), of "drop num_bytes signature"] l(2)
      bytesToNative_bits(1) [OF nw(2) n4(1)] by (simp_all add: R_def S_def rs(1,2) be_nat_def)
  have lRS: "n \<le> length R" "n \<le> length S" using RS words(3) by simp_all
  define public where "public = public_words public_key curve"
  note pw = public_words_value [OF words(1,3) nw(3,2) l(1), folded public_def be_nat_def]
  have lp: "n \<le> length public" "n \<le> length (drop n public)" using pw(1) words(3) by simp_all
  have pub: "point_rep curve public (M 0 1)"
    unfolding point_rep_def words(1) [symmetric] Q(1) fst_conv snd_conv
    using res_value [OF lp(1), unfolded pw(2), OF Q(2)] res_value [OF lp(2), unfolded pw(3), OF Q(3)] by (rule conjI)
  have isz: "uECC_vli_isZero R n = 0" "uECC_vli_isZero S n = 0"
    using vli_isZero_eq [OF lRS(1)] vli_isZero_eq [OF lRS(2)] rs(3,5) RS by simp_all
  have cmp: "uECC_vli_cmp_unsafe (curve_n curve) R n = 1" "uECC_vli_cmp_unsafe (curve_n curve) S n = 1"
    using vli_cmp_unsafe_eq [OF N(2) lRS(1)] vli_cmp_unsafe_eq [OF N(2) lRS(2)] rs(4,6) RS N(1) by simp_all
  obtain z where z: "uECC_vli_modInv (replicate 4 0) S (curve_n curve) n = Some z" "length z = 4" "vn n z < N" "vn n z * s mod N = gcd s N mod N"
    using vli_modInv_correct [OF np n4(1) lRS(2) N(2)] N(1,3,4) rs(5) RS by auto
  have "gcd s N dvd w * s mod N" by (rule dvd_mod) simp_all
  then have "gcd s N = 1" by (simp add: w)
  then have z1: "vn n z * s mod N = 1" using z(4) N(4) by simp
  have "vn n z mod N = vn n z * (w * s mod N) mod N" by (simp add: w)
  also have "\<dots> = (vn n z * s mod N) * w mod N" by (simp add: mod_mult_right_eq mod_mult_left_eq mult_ac)
  finally have zw: "vn n z mod N = w mod N" by (simp add: z1)
  define e where "e = bits2int (replicate 4 0) message_hash hash_size curve"
  have e: "vn n e = hash_value message_hash hash_size (curve_num_n_bits curve) N" "length e = 4"
    using bits2int_value [OF nw(1) [symmetric] n4(1) N(2) l(3)] by (simp_all add: e_def N(1))
  define U1 where "U1 = uECC_vli_modMult e e z (curve_n curve) n"
  define U2 where "U2 = uECC_vli_modMult (replicate 4 0) R z (curve_n curve) n"
  have le: "n \<le> length e" "n \<le> length z" using e(2) z(2) words(3) by simp_all
  have U: "vn n U1 = u1" "length U1 = 4" "vn n U2 = u2" "length U2 = 4"
    using vli_modMult_correct [OF np le(1,1,2) N(2,5)] vli_modMult_correct [OF np n4(1) lRS(1) le(2) N(2,5)] e zw RS(1)
    unfolding U1_def U2_def u N(1) [symmetric] by (metis length_replicate mod_mult_right_eq)+
  have lU: "n \<le> length U1" "n \<le> length U2" using U words(3) by simp_all
  obtain sumP where sumP: "verify_sum public curve = Some sumP" "point_rep curve sumP (M 1 1)"
    using verify_sum_point [OF G pub, of "M 1 1"] M by (auto simp: shamir_points_def)
  define points where "points = [None, Some (curve_G curve), Some public, Some sumP]"
  have sm: "smax (uECC_vli_numBits U1 n) (uECC_vli_numBits U2 n) = L"
    by (rule smax_numBits [OF lU]) (use L U in simp_all)
  have "L \<le> 64 * n"
    using sm vli_numBits_bounds(3) [OF lU(1)] vli_numBits_bounds(3) [OF lU(2)] by (auto simp: smax_def split: if_splits)
  then have bits: "uECC_vli_testBit U1 i \<noteq> 0 \<longleftrightarrow> bit u1 i" "uECC_vli_testBit U2 i \<noteq> 0 \<longleftrightarrow> bit u2 i" if "i < L" for i
    using vli_testBit_correct [OF lU(1), of i] vli_testBit_correct [OF lU(2), of i] that U by (simp_all add: bit_iff_odd)
  define point where "point = the (points ! shamir_index U1 U2 (L - 1))"
  have "shamir_state curve (M u1 u2) (for_range 0 (L - 1) (\<lambda>j. verify_step points U1 U2 curve (L - 2 - j))
    (uECC_vli_set (replicate 4 0) point n, uECC_vli_set (replicate 4 0) (drop n point) n, (uECC_vli_clear z n)[0 := 1]))"
    by (rule verify_loop_state [OF fn bits L M points_def G pub sumP(2) point_def le(2)])
  then obtain rx ry zz d where loop: "for_range 0 (L - 1) (\<lambda>j. verify_step points U1 U2 curve (L - 2 - j))
      (uECC_vli_set (replicate 4 0) point n, uECC_vli_set (replicate 4 0) (drop n point) n, (uECC_vli_clear z n)[0 := 1]) = (rx, ry, zz)"
    and d: "coprime d (int p)" "scaled curve rx ry d (M u1 u2)" "res curve zz d"
    unfolding shamir_state_def field_order by (auto simp: case_prod_beta) (metis prod.collapse)
  obtain v X Y where v: "uECC_vli_modInv zz zz (curve_p curve) n = Some v" "apply_z rx ry v curve = (X, Y)" "res curve X (fst (M u1 u2))"
    using normalise [OF d(2,3,1) res_buf [OF d(3)]] by auto
  define x where "x = nat (fst (M u1 u2) mod int p)"
  have X: "vn n X = x" "n \<le> length X" "x < p" using v(3) p_pos by (simp_all add: res_iff x_def) (metis nat_int)+
  define X' where "X' = (if uECC_vli_cmp_unsafe (curve_n curve) X n \<noteq> 1 then snd (uECC_vli_sub X X (curve_n curve) n) else X)"
  obtain c D where D: "uECC_vli_sub X X (curve_n curve) n = (c, D)" by fastforce
  have "x mod N = (if N \<le> x then x - N else x)" using X(3) N(6) by (simp add: mod_if [of x])
  then have X': "vn n X' = x mod N" "n \<le> length X'"
    using vli_cmp_unsafe_eq [OF N(2) X(2)] vli_sub_borrow(2) [OF X(2,2) N(2) D] vli_sub_correct(3) [OF X(2,2) N(2) D] X(1,2) N(1) D
    by (auto simp: X'_def split: if_splits)
  have "uECC_verify public_key message_hash hash_size signature curve = Some (uint (uECC_vli_equal X' R n))"
    unfolding uECC_verify_def words(1) [symmetric] nw(1) nw(3) [symmetric] Let_def public_def [symmetric] R_def [symmetric] S_def [symmetric]
      isz cmp z(1) option.case e_def [symmetric] U1_def [symmetric] U2_def [symmetric] sumP(1) sm points_def [symmetric] point_def [symmetric]
      loop prod.case v(1,2) X'_def [symmetric] by simp
  then show ?thesis using vli_equal_eq [OF X'(2) lRS(1)] X'(1) RS(1) by (simp add: x_def)
qed

end

section \<open>Verification on the curves\<close>

lemma nist_order_bits:
  "vn 3 (curve_n curve_secp192r1) = 0xffffffffffffffffffffffff99def836146bc9b1b4d22831"
  "vn 4 (curve_n curve_secp224r1) = 0xffffffffffffffffffffffffffff16a2e0b8f03e13dd29455c5c2a3d"
  "vn 4 (curve_n curve_secp256r1) = 0xffffffff00000000ffffffffffffffffbce6faada7179e84f3b9cac2fc632551"
  "curve_num_n_bits curve_secp192r1 = 192" "curve_num_n_bits curve_secp224r1 = 224" "curve_num_n_bits curve_secp256r1 = 256"
  "length (curve_n curve_secp192r1) = 4" "length (curve_n curve_secp224r1) = 4" "length (curve_n curve_secp256r1) = 4"
  by (simp_all add: curve_secp192r1_def curve_secp224r1_def curve_secp256r1_def)

lemma nist_order_numBits: "uECC_vli_numBits (curve_n curve_secp192r1) 3 = 192" "uECC_vli_numBits (curve_n curve_secp224r1) 4 = 224"
  "uECC_vli_numBits (curve_n curve_secp256r1) 4 = 256"
  by (rule numBits_unique, simp add: nist_order_bits, unfold nist_order_bits, simp_all)+

lemma nist_order:
  assumes "curve \<in> nist_curves" and "n = curve_num_words curve" and "N = vn n (curve_n curve)"
  shows "BITS_TO_WORDS (curve_num_n_bits curve) = n" "n \<le> length (curve_n curve)" "odd N" "1 < N"
    "64 * (n - 1) < uECC_vli_numBits (curve_n curve) n" "field_order curve < 2 * N"
proof -
  have "curve = curve_secp192r1 \<and> n = 3 \<or> curve = curve_secp224r1 \<and> n = 4 \<or> curve = curve_secp256r1 \<and> n = 4"
    using assms(1,2) p192.words(1) p224.words(1) p256.words(1) by (auto simp: nist_curves_def)
  then consider "curve = curve_secp192r1" "n = 3" | "curve = curve_secp224r1" "n = 4" | "curve = curve_secp256r1" "n = 4" by blast
  then have "BITS_TO_WORDS (curve_num_n_bits curve) = n \<and> n \<le> length (curve_n curve) \<and> odd N \<and> 1 < N
    \<and> 64 * (n - 1) < uECC_vli_numBits (curve_n curve) n \<and> field_order curve < 2 * N"
    unfolding assms(3)
    by cases (simp_all only: nist_order_bits nist_order_numBits p192.field_order p224.field_order p256.field_order, simp_all add: BITS_TO_WORDS_def)
  then show "BITS_TO_WORDS (curve_num_n_bits curve) = n" "n \<le> length (curve_n curve)" "odd N" "1 < N"
    "64 * (n - 1) < uECC_vli_numBits (curve_n curve) n" "field_order curve < 2 * N" by simp_all
qed

text \<open>A signature out of range is rejected at once.\<close>

lemma verify_out_of_range:
  assumes n: "n = curve_num_words curve" "n \<le> 4" "BITS_TO_WORDS (curve_num_n_bits curve) = n" "n \<le> length (curve_n curve)"
      "(num_bytes + 7) div 8 = n" "num_bytes = curve_num_bytes curve"
    and l: "2 * num_bytes \<le> length signature" and N: "N = vn n (curve_n curve)"
    and rs: "r = be_nat (take num_bytes signature)" "s = be_nat (take num_bytes (drop num_bytes signature))"
    and out: "r = 0 \<or> N \<le> r \<or> s = 0 \<or> N \<le> s"
  shows "uECC_verify public_key message_hash hash_size signature curve = Some 0"
proof -
  have n4: "n \<le> length (replicate 4 (0 :: u64))" using n(2) by simp
  define R where "R = uECC_vli_bytesToNative (replicate 4 0) signature num_bytes"
  define S where "S = uECC_vli_bytesToNative (replicate 4 0) (drop num_bytes signature) num_bytes"
  have RS: "vn n R = r" "length R = 4" "vn n S = s" "length S = 4"
    using vn_bytesToNative [OF n(5) n4, of signature] vn_bytesToNative [OF n(5) n4, of "drop num_bytes signature"] l
      bytesToNative_bits(1) [OF n(5) n4] by (simp_all add: R_def S_def rs be_nat_def)
  have lRS: "n \<le> length R" "n \<le> length S" using RS n(2) by simp_all
  have "uECC_vli_isZero R n \<noteq> 0 \<or> uECC_vli_isZero S n \<noteq> 0
    \<or> uECC_vli_cmp_unsafe (curve_n curve) R n \<noteq> 1 \<or> uECC_vli_cmp_unsafe (curve_n curve) S n \<noteq> 1"
    using out vli_isZero_eq [OF lRS(1)] vli_isZero_eq [OF lRS(2)] vli_cmp_unsafe_eq [OF n(4) lRS(1)] vli_cmp_unsafe_eq [OF n(4) lRS(2)]
      RS N by auto
  then show ?thesis
    unfolding uECC_verify_def n(1) [symmetric] n(3) n(6) [symmetric] Let_def R_def [symmetric] S_def [symmetric] by auto
qed

text \<open>C6. Verification: for the curves with a complete fast reduction the answer is 1 exactly when both halves of the signature
  are between 1 and the group order less one and the x coordinate of u1 G + u2 Q, reduced modulo the group order, is the first
  half; in every other case it is 0. For a signature in range, w is the inverse of s, u1 and u2 are formed from the hash
  and the first half, and the family M holds the points that the interleaved multiplication passes through: the doublings are
  tangents, and the additions chords, with differences prime to the field order.\<close>

theorem verify_decides:
  assumes "curve \<in> nist_curves" and "n = curve_num_words curve" and "num_bytes = curve_num_bytes curve" and "p = field_order curve"
    and "N = vn n (curve_n curve)"
    and "2 * num_bytes \<le> length public_key" and "2 * num_bytes \<le> length signature" and "hash_size \<le> length message_hash"
    and "r = be_nat (take num_bytes signature)" and "s = be_nat (take num_bytes (drop num_bytes signature))"
    and "be_nat (take num_bytes public_key) < p" and "be_nat (take num_bytes (drop num_bytes public_key)) < p"
    and "M 1 0 = base_point curve"
    and "M 0 1 = (int (be_nat (take num_bytes public_key)), int (be_nat (take num_bytes (drop num_bytes public_key))))"
    and "0 < r \<Longrightarrow> r < N \<Longrightarrow> 0 < s \<Longrightarrow> s < N \<Longrightarrow> w * s mod N = 1
      \<and> u1 = hash_value message_hash hash_size (curve_num_n_bits curve) N * w mod N \<and> u2 = r * w mod N
      \<and> u1 < 2 ^ L \<and> u2 < 2 ^ L \<and> 0 < L \<and> (2 ^ (L - 1) \<le> u1 \<or> 2 ^ (L - 1) \<le> u2) \<and> shamir_points p M u1 u2 L"
  shows "uECC_verify public_key message_hash hash_size signature curve =
    Some (of_bool (0 < r \<and> r < N \<and> 0 < s \<and> s < N \<and> nat (fst (M u1 u2) mod int p) mod N = r))"
proof -
  have F: "fast_field curve n p" using nist_fast_field [OF assms(1)] assms(2,4) by simp
  note o = nist_order [OF assms(1,2,5)] and nb = nist_bytes [OF assms(1), folded assms(2,3)]
  show ?thesis
  proof (cases "0 < r \<and> r < N \<and> 0 < s \<and> s < N")
    case True
    have G: "point_rep curve (curve_G curve) (M 1 0)"
      using nist_base_point [OF assms(1)] unfolding point_rep_def assms(13) by blast
    from assms(15) True have h: "w * s mod N = 1" "u1 = hash_value message_hash hash_size (curve_num_n_bits curve) N * w mod N"
      "u2 = r * w mod N" "u1 < 2 ^ L" "u2 < 2 ^ L" "0 < L" "2 ^ (L - 1) \<le> u1 \<or> 2 ^ (L - 1) \<le> u2" "shamir_points p M u1 u2 L"
      by blast+
    have "uECC_verify public_key message_hash hash_size signature curve = Some (of_bool (nat (fst (M u1 u2) mod int p) mod N = r))"
      by (rule fast_field.verify_correct [OF F nist_functions(1) [OF assms(1)] o(1) nb assms(3,5) o(2-5) o(6) [folded assms(4)] assms(6-8) G
            assms(14,11,12,9,10) _ _ _ _ h]) (use True in simp_all)
    then show ?thesis using True by simp
  next
    case False
    then have "r = 0 \<or> N \<le> r \<or> s = 0 \<or> N \<le> s" by auto
    from verify_out_of_range [OF assms(2) fast_field.words(3) [OF F] o(1,2) nb assms(3,7,5,9,10) this]
    have v: "uECC_verify public_key message_hash hash_size signature curve = Some 0" .
    show ?thesis unfolding v using False by auto
  qed
qed

text \<open>A signature on secp256r1 with s = 1 of the one-byte hash 2: the sum 2 G + 5 Q has the x coordinate r = 5.\<close>

definition example_points :: "nat \<Rightarrow> nat \<Rightarrow> int \<times> int" where
  "example_points i j =
     (if (i, j) = (1, 0) then base_point curve_secp256r1
      else if (i, j) = (0, 1) then
      (0x28a1f8b8efd996f3496b8fe5a6396fe225b4f62061840ff71d1be588f9c21d89,
       0xb3d406abb7945fd269ab42c7fe6e71d598cb1ff7cc3ad1a7398c30937f82276b)
      else if (i, j) = (1, 1) then
      (0xd7eb7b4559fe27fb7585e21337a984338c8c18588aa745a3a9f7ed35736efb78,
       0xc9ab240850c3fca8185bc4e812e67ad8dd0b2cfec809ae3c560d3f0648a9a45b)
      else if (i, j) = (0, 2) then
      (0x9127eb6355d452ab9d8507470b1f072c25a7345f7cd3d87c47c27742cfa04837,
       0x6270daca92097be6bc842f441655a9e65d4a9fdc164c3ef616a9bbad18835f41)
      else if (i, j) = (1, 2) then
      (0x1ce486c73f92b3ed25b3b3707c1090ab0b1941b472e6d87223f7e2f46a56c2de,
       0xa770cc32a2c1afa393f92e9afe546bfbae3af1ea253acf41e740ac43ff3a2124)
      else if (i, j) = (2, 4) then
      (0x3ec5d2eac08ef0ba15332740e2a5cc29a01da72d9cc80c37daaaef43f6bee126,
       0x396ce12205be157a9bf1b451337d0ec19e00dbb919b01df9036225862761b3d5)
      else
      (5,
       0x459243b9aa581806fe913bce99817ade11ca503c64d9a3c533415c083248fbcc))"

lemma example_points_values:
  "example_points 1 0 = base_point curve_secp256r1"
  "example_points 0 1 = (0x28a1f8b8efd996f3496b8fe5a6396fe225b4f62061840ff71d1be588f9c21d89,
       0xb3d406abb7945fd269ab42c7fe6e71d598cb1ff7cc3ad1a7398c30937f82276b)"
  "example_points 1 1 = (0xd7eb7b4559fe27fb7585e21337a984338c8c18588aa745a3a9f7ed35736efb78,
       0xc9ab240850c3fca8185bc4e812e67ad8dd0b2cfec809ae3c560d3f0648a9a45b)"
  "example_points 0 2 = (0x9127eb6355d452ab9d8507470b1f072c25a7345f7cd3d87c47c27742cfa04837,
       0x6270daca92097be6bc842f441655a9e65d4a9fdc164c3ef616a9bbad18835f41)"
  "example_points 1 2 = (0x1ce486c73f92b3ed25b3b3707c1090ab0b1941b472e6d87223f7e2f46a56c2de,
       0xa770cc32a2c1afa393f92e9afe546bfbae3af1ea253acf41e740ac43ff3a2124)"
  "example_points 2 4 = (0x3ec5d2eac08ef0ba15332740e2a5cc29a01da72d9cc80c37daaaef43f6bee126,
       0x396ce12205be157a9bf1b451337d0ec19e00dbb919b01df9036225862761b3d5)"
  "example_points 2 5 = (5,
       0x459243b9aa581806fe913bce99817ade11ca503c64d9a3c533415c083248fbcc)"
  by (simp_all add: example_points_def)

lemmas example_numerals = example_points_values p256_base_point p256_order fst_conv snd_conv

lemma example_sum: "chord (field_order curve_secp256r1) (example_points 1 0) (example_points 0 1) (example_points 1 1)"
  by (rule chordI [where l = "0x4241f9ca9827a9af43f5c469404280f68b824daab81533f8f780e9095ad8c9f0" and ?q1.0 = "(- 0x113382c661e8215d4600e7e2e6399be7bdc79a1baaf83327857426367273395a)"
        and ?q2.0 = "(- 0x112615cd543789c16e3a8a78b91a0fedfd954b0aa96e720e88a2d392217f1a97)" and ?q3.0 = "0x1c2a9d955ca4c39a56ec92aeaa59f704075d6024d4dccf57d0c508acb16843d0"])
    (unfold example_numerals, simp_all)

lemma example_sum_coprime: "coprime (fst (example_points 0 1) - fst (example_points 1 0)) (int (field_order curve_secp256r1))"
  by (rule coprimeI_quotient [where u = "0xa72ac4d1349f58e749d8c5883840072971f05d72fb04359f64e5716473d51fef" and q = "(- 0x2b65fb23258483eee23c8f4de50854e50246c909d28876189dcee8dfccce55dc)"])
    (unfold example_numerals, simp)

lemma example_double_Q: "tangent (field_order curve_secp256r1) (- 3) (example_points 0 1) (example_points 0 2)"
  by (rule tangentI [where l = "0x65de36172809d3edda8e637ed92b8d458772a76f9710ab7a9ef36149dcdf23a0" and ?q1.0 = "0x7bc4705fc7f20ed97ee0e0caf5d6cc1cf3899c8cc2787169f3168ddc4d427230"
        and ?q2.0 = "(- 0x2889179049b810d1bd99e2445d460b3da797484c69c075a29168695aad6f5f49)" and ?q3.0 = "0x299792fb89299e739be5d578b8bcf377dfae71a51b2b71d18b664489a7b80294"])
    (unfold example_numerals, simp_all)

lemma example_double_Q_coprime: "coprime (snd (example_points 0 1)) (int (field_order curve_secp256r1))"
  by (rule coprimeI_quotient [where u = "0xd3940a9a78786b525e0075cc80ba8cc1a238392c895e9cb0047ccbf939e0a15d" and q = "0x949fbf86c2a3dea75508eb483feff0e1aad23231738acac79663da7d824d6322"])
    (unfold example_numerals, simp)

lemma example_add_G: "chord (field_order curve_secp256r1) (example_points 1 0) (example_points 0 2) (example_points 1 2)"
  by (rule chordI [where l = "0x1bddb74a047d7e2a9a2b0ec387b91847797810e84d9e9ea4a283311bd27ea504" and ?q1.0 = "0x424a9d55a08bf904a679be52d1a1ca3b5a520afb545a76bca92cdcc544731c8"
        and ?q2.0 = "(- 0x30884af9901a5ca6b0e671006e014698f426d7b7c74275edf4d3743a841a59b)" and ?q3.0 = "(- 0x8832332ce27e4aa5ecb1b31528325a44b154807e4e1b68775187ead278fdc39)"])
    (unfold example_numerals, simp_all)

lemma example_add_G_coprime: "coprime (fst (example_points 0 2) - fst (example_points 1 0)) (int (field_order curve_secp256r1))"
  by (rule coprimeI_quotient [where u = "0x55703c2daa7f999200f30d8332ee2b7e6945b03bff4ead94ba3320028b9861ee" and q = "0xcb4087014c75d3acf8c70a3f03840db9daee6a6964b62ae7e7197f0bac7c353"])
    (unfold example_numerals, simp)

lemma example_double: "tangent (field_order curve_secp256r1) (- 3) (example_points 1 2) (example_points 2 4)"
  by (rule tangentI [where l = "0x522d1f532ae4bc4635eeeafe16606e1396ed240f51fd1767139f32294e78b741" and ?q1.0 = "0x61b6ecfee9298d27d4f68e31e71f2baeb33a2e40b3b475569d5a204053d15d41"
        and ?q2.0 = "(- 0x1a60f00568edcc74b6e3d1b678af3d0145a884ffd9410a55778ed5c2df4e6861)" and ?q3.0 = "0xae02323165fd3251ed18e543485f1b5566035484adf4e3db8b9bd14a38f02bf"])
    (unfold example_numerals, simp_all)

lemma example_double_coprime: "coprime (snd (example_points 1 2)) (int (field_order curve_secp256r1))"
  by (rule coprimeI_quotient [where u = "0xa7c618a085f9e1206926c4d38374e1aabfbea92a80111e501a2bac08e1e28285" and q = "0x6dbc268ef657cae43a5455d27201eece01fc2d629c3971d7eb71577efc30804d"])
    (unfold example_numerals, simp)

lemma example_add_Q: "chord (field_order curve_secp256r1) (example_points 0 1) (example_points 2 4) (example_points 2 5)"
  by (rule chordI [where l = "0x7a2484660a5f653ec4e3dfe94ea9e04857c7b51a6f44b536b59a2028e1cf47df" and ?q1.0 = "0xa903e79c6b84acf4135493c8d3895e7b40e2bd048138dd2fa98b60f047d9ba7"
        and ?q2.0 = "(- 0x3a46d366fd560e19b538ccb928fc54938839d3308a376c1bff8e9af1a3b18a73)" and ?q3.0 = "(- 0x1362fc52e620561c241368ee5a1a9decdcab3ccc8e4cedaff824f07e69c7d13b)"])
    (unfold example_numerals, simp_all)

lemma example_add_Q_coprime: "coprime (fst (example_points 2 4) - fst (example_points 0 1)) (int (field_order curve_secp256r1))"
  by (rule coprimeI_quotient [where u = "0x293d76ca2643a986f86dda24d7e321ab91ec3043df702e1d34637dfb1548b569" and q = "0x3910ec2fe09234b5343f246a749a39556180c6d80d753430a0d765da0ddc39c"])
    (unfold example_numerals, simp)

lemma example_shamir_points: "shamir_points (field_order curve_secp256r1) example_points 2 5 3"
proof -
  have i: "i < 2 \<longleftrightarrow> i = 0 \<or> i = 1" for i :: nat by auto
  note facts = example_sum example_sum_coprime example_double_Q example_double_Q_coprime example_add_G example_add_G_coprime
    example_double example_double_coprime example_add_Q example_add_Q_coprime
  show ?thesis
    unfolding shamir_points_def using facts by (auto simp: shamir_step_def i bit_0 bit_Suc)
qed

definition example_key :: bytes where
  "example_key =
    [0x28, 0xa1, 0xf8, 0xb8, 0xef, 0xd9, 0x96, 0xf3, 0x49, 0x6b, 0x8f, 0xe5, 0xa6, 0x39, 0x6f, 0xe2,
     0x25, 0xb4, 0xf6, 0x20, 0x61, 0x84, 0xf, 0xf7, 0x1d, 0x1b, 0xe5, 0x88, 0xf9, 0xc2, 0x1d, 0x89] @
    [0xb3, 0xd4, 6, 0xab, 0xb7, 0x94, 0x5f, 0xd2, 0x69, 0xab, 0x42, 0xc7, 0xfe, 0x6e, 0x71, 0xd5,
     0x98, 0xcb, 0x1f, 0xf7, 0xcc, 0x3a, 0xd1, 0xa7, 0x39, 0x8c, 0x30, 0x93, 0x7f, 0x82, 0x27, 0x6b]"

lemma example_key: "be_nat (take 32 example_key) = 0x28a1f8b8efd996f3496b8fe5a6396fe225b4f62061840ff71d1be588f9c21d89"
  "be_nat (take 32 (drop 32 example_key)) = 0xb3d406abb7945fd269ab42c7fe6e71d598cb1ff7cc3ad1a7398c30937f82276b" "length example_key = 64"
  by (simp_all add: example_key_def be_nat_def)

definition example_signature :: bytes where
  "example_signature = replicate 31 0 @ [5] @ replicate 31 0 @ [1]"

lemma example_signature: "be_nat (take 32 example_signature) = 5" "be_nat (take 32 (drop 32 example_signature)) = 1"
  "length example_signature = 64"
  by (simp_all add: example_signature_def be_nat_def le_nat_zeros)

theorem verify_decides_witness:
  "uECC_verify example_key [2] 1 example_signature curve_secp256r1 = Some 1"
proof -
  define N where "N = vn 4 (curve_n curve_secp256r1)"
  have N: "5 < N" "1 < N" unfolding N_def nist_order_bits by simp_all
  have v: "uECC_verify example_key [2] 1 example_signature curve_secp256r1 =
    Some (of_bool (0 < (5 :: nat) \<and> 5 < N \<and> 0 < (1 :: nat) \<and> 1 < N
      \<and> nat (fst (example_points 2 5) mod int (field_order curve_secp256r1)) mod N = 5))"
  proof (rule verify_decides [where n = 4 and num_bytes = 32 and w = 1 and L = 3])
    show "curve_secp256r1 \<in> nist_curves" by (simp add: nist_curves_def)
    show "4 = curve_num_words curve_secp256r1" by (rule p256.words(1))
    show "32 = curve_num_bytes curve_secp256r1" by (simp add: curve_secp256r1_def)
    show "field_order curve_secp256r1 = field_order curve_secp256r1" ..
    show "be_nat (take 32 example_key) < field_order curve_secp256r1"
      "be_nat (take 32 (drop 32 example_key)) < field_order curve_secp256r1"
      unfolding example_key p256.field_order by simp_all
    show "5 = be_nat (take 32 example_signature)" "1 = be_nat (take 32 (drop 32 example_signature))"
      by (simp_all only: example_signature)
    show "example_points 1 0 = base_point curve_secp256r1" by (rule example_points_values(1))
    show "example_points 0 1 = (int (be_nat (take 32 example_key)), int (be_nat (take 32 (drop 32 example_key))))"
      unfolding example_points_values example_key by simp
    have "hash_value [2] 1 (curve_num_n_bits curve_secp256r1) N = 2"
      by (simp add: hash_value_def nist_order_bits BITS_TO_BYTES_def be_nat_def)
    then show "1 * 1 mod N = 1 \<and> 2 = hash_value [2] 1 (curve_num_n_bits curve_secp256r1) N * 1 mod N \<and> 5 = 5 * 1 mod N
      \<and> (2 :: nat) < 2 ^ 3 \<and> (5 :: nat) < 2 ^ 3 \<and> 0 < (3 :: nat) \<and> ((2 :: nat) ^ (3 - 1) \<le> 2 \<or> (2 :: nat) ^ (3 - 1) \<le> 5)
      \<and> shamir_points (field_order curve_secp256r1) example_points 2 5 3"
      using N example_shamir_points by simp
  qed (simp_all add: N_def example_signature example_key)
  have "fst (example_points 2 5) mod int (field_order curve_secp256r1) = 5" unfolding example_points_values p256_order by simp
  then show ?thesis using v N by simp
qed

end
