(* ===== verification/Uecc_Total.thy ===== *)
theory Uecc_Total
  imports Uecc_Ecdsa
begin

text \<open>
  What scalar multiplication does for every scalar, regular or not, and every point or pair of residues: it ends, since the inversion
  of any residue does, and its coordinates are residues. No law of the group is used.
\<close>

definition field_element :: "uECC_Curve \<Rightarrow> u64 list \<Rightarrow> bool" where
  "field_element curve x \<longleftrightarrow> (\<exists>e. res curve x e)"

lemma res_field_element: "res curve x e \<Longrightarrow> field_element curve x"
  by (auto simp: field_element_def)

lemma field_element_buf: "field_element curve x \<Longrightarrow> buf curve x"
  by (auto simp: field_element_def res_buf)

definition ladder_words :: "uECC_Curve \<Rightarrow> u64 list list \<times> u64 list list \<Rightarrow> bool" where
  "ladder_words curve R \<longleftrightarrow> length (fst R) = 2 \<and> length (snd R) = 2 \<and> (\<forall>x\<in>set (fst R) \<union> set (snd R). field_element curve x)"

lemma ladder_words_nth:
  "ladder_words curve (Rx, Ry) \<Longrightarrow> i < 2 \<Longrightarrow> field_element curve (Rx ! i) \<and> field_element curve (Ry ! i)"
  by (simp add: ladder_words_def)

lemma ladder_words_update:
  assumes "ladder_words curve (Rx, Ry)" "field_element curve a" "field_element curve b" "field_element curve c" "field_element curve d"
  shows "ladder_words curve (Rx[i := a, j := b], Ry[i := c, j := d])"
  using assms set_update_subset_insert [of Rx i a] set_update_subset_insert [of "Rx[i := a]" j b]
    set_update_subset_insert [of Ry i c] set_update_subset_insert [of "Ry[i := c]" j d]
  by (auto simp: ladder_words_def)

context fast_field
begin

lemma field_element_iff: "field_element curve x \<longleftrightarrow> n \<le> length x \<and> vn n x < p"
  unfolding field_element_def res_iff by (auto intro: exI [of _ "int (vn n x)"])

lemma field_element_op:
  "buf curve r \<Longrightarrow> field_element curve a \<Longrightarrow> field_element curve b \<Longrightarrow> field_element curve (uECC_vli_modMult_fast r a b curve)"
  "buf curve r \<Longrightarrow> field_element curve a \<Longrightarrow> field_element curve b \<Longrightarrow> field_element curve (uECC_vli_modSub r a b (curve_p curve) n)"
  "buf curve r \<Longrightarrow> field_element curve a \<Longrightarrow> field_element curve (uECC_vli_set r a n)"
  unfolding field_element_def using res_mult res_sub res_set by blast+

lemma apply_z_words:
  assumes "field_element curve X" "field_element curve Y" "field_element curve Z" "apply_z X Y Z curve = (X', Y')"
  shows "field_element curve X' \<and> field_element curve Y'"
  using assms apply_z_res unfolding field_element_def holds_def by fastforce

lemma XYcZ_add_words:
  assumes "field_element curve X1" "field_element curve Y1" "field_element curve X2" "field_element curve Y2"
    and "XYcZ_add X1 Y1 X2 Y2 curve = (A, B, C, D)"
  shows "field_element curve A \<and> field_element curve B \<and> field_element curve C \<and> field_element curve D"
proof -
  obtain x1 y1 x2 y2 where "res curve X1 x1" "res curve Y1 y1" "res curve X2 x2" "res curve Y2 y2"
    using assms unfolding field_element_def by blast
  from XYcZ_add_res [OF this] show ?thesis unfolding assms(5) holds_def prod.case Let_def field_element_def by blast
qed

lemma XYcZ_addC_words:
  assumes "field_element curve X1" "field_element curve Y1" "field_element curve X2" "field_element curve Y2"
    and "XYcZ_addC X1 Y1 X2 Y2 curve = (A, B, C, D)"
  shows "field_element curve A \<and> field_element curve B \<and> field_element curve C \<and> field_element curve D"
proof -
  obtain x1 y1 x2 y2 where "res curve X1 x1" "res curve Y1 y1" "res curve X2 x2" "res curve Y2 y2"
    using assms unfolding field_element_def by blast
  from XYcZ_addC_res [OF this] show ?thesis unfolding assms(5) holds_def prod.case Let_def field_element_def by blast
qed

lemma double_jacobian_default_words:
  assumes "field_element curve X" "field_element curve Y" "field_element curve Z" "double_jacobian_default X Y Z curve = (X', Y', Z')"
  shows "field_element curve X' \<and> field_element curve Y' \<and> field_element curve Z'"
proof (cases "vn n Z = 0")
  case True
  then have "uECC_vli_isZero Z n \<noteq> 0" using assms(3) vli_isZero_eq [of n Z] by (simp add: field_element_iff)
  then have "double_jacobian_default X Y Z curve = (X, Y, Z)"
    unfolding double_jacobian_default_def words(1) [symmetric] Let_def by simp
  then show ?thesis using assms by simp
next
  case False
  obtain x y z where "res curve X x" "res curve Y y" "res curve Z z" using assms unfolding field_element_def by blast
  from double_jacobian_default_res [OF this False] show ?thesis
    unfolding assms(4) holds_def prod.case Let_def field_element_def by blast
qed

lemma modInv_words:
  assumes "field_element curve x" "buf curve r"
  shows "\<exists>y. uECC_vli_modInv r x (curve_p curve) n = Some y \<and> field_element curve y"
proof -
  have l: "n \<le> length x" "n \<le> length r" using assms by (simp_all add: field_element_iff buf_iff)
  have m: "n \<le> length (curve_p curve)" "odd (vn n (curve_p curve))" "1 < vn n (curve_p curve)" using words order by simp_all
  show ?thesis
  proof (cases "vn n x = 0")
    case True
    then show ?thesis using vli_modInv_zero [OF l(1)] vn_clear [OF l(2)] l(2) p_pos by (simp add: field_element_iff)
  next
    case False
    then show ?thesis using vli_modInv_correct [OF words(2,3) l(2,1) m] l(2) order(1) by (auto simp: field_element_iff)
  qed
qed

lemma initial_double_words:
  assumes fn: "curve_double_jacobian curve = double_jacobian_default_fn"
    and X: "field_element curve X1" "field_element curve Y1" "buf curve X2" "buf curve Y2"
    and Z: "case initial_Z of None \<Rightarrow> True | Some Z \<Rightarrow> field_element curve Z"
    and r: "XYcZ_initial_double X1 Y1 X2 Y2 initial_Z curve = (A, B, C, D)"
  shows "field_element curve A \<and> field_element curve B \<and> field_element curve C \<and> field_element curve D"
proof -
  define Z0 where "Z0 = (case initial_Z of Some Z \<Rightarrow> uECC_vli_set (replicate 4 0) Z n
    | None \<Rightarrow> (uECC_vli_clear (replicate 4 0) n)[0 := 1])"
  have z: "field_element curve Z0"
  proof (cases initial_Z)
    case None
    then show ?thesis using initial_z [of None] by (auto simp: Z0_def field_element_def)
  next
    case (Some Z)
    then show ?thesis using assms(6) field_element_op(3) [OF buf_local] by (simp add: Z0_def)
  qed
  define X2' where "X2' = uECC_vli_set X2 X1 n"
  define Y2' where "Y2' = uECC_vli_set Y2 Y1 n"
  have r2: "field_element curve X2'" "field_element curve Y2'" unfolding X2'_def Y2'_def using field_element_op(3) X by blast+
  obtain X3 Y3 where a: "apply_z X1 Y1 Z0 curve = (X3, Y3)" by fastforce
  obtain X4 Y4 Z4 where d: "double_jacobian_default X3 Y3 Z0 curve = (X4, Y4, Z4)" by (metis surj_pair)
  obtain X5 Y5 where b: "apply_z X2' Y2' Z4 curve = (X5, Y5)" by fastforce
  have "XYcZ_initial_double X1 Y1 X2 Y2 initial_Z curve = (X4, Y4, X5, Y5)"
    unfolding XYcZ_initial_double_def words(1) [symmetric] Let_def Z0_def [symmetric] X2'_def [symmetric] Y2'_def [symmetric]
      a double_jacobian_def fn prod.case double_jacobian_fn.case d b ..
  then show ?thesis
    using r apply_z_words [OF X(1,2) z a] double_jacobian_default_words [OF _ _ z d] apply_z_words [OF r2 _ b] by auto
qed

lemma ladder_addC_words:
  assumes "ladder_words curve R"
  shows "fst (ladder_addC scalar i curve R) \<le> 1 \<and> ladder_words curve (snd (ladder_addC scalar i curve R))"
proof -
  obtain Rx Ry where R: "R = (Rx, Ry)" by fastforce
  define nb :: nat where "nb = of_bool (uECC_vli_testBit scalar i = 0)"
  have nb: "nb < 2" "1 - nb < 2" by (simp_all add: nb_def)
  obtain X1 Y1 X2 Y2 where r: "XYcZ_addC (Rx ! (1 - nb)) (Ry ! (1 - nb)) (Rx ! nb) (Ry ! nb) curve = (X1, Y1, X2, Y2)"
    by (metis surj_pair)
  note e = ladder_words_nth [OF assms [unfolded R]]
  have f: "field_element curve X1" "field_element curve Y1" "field_element curve X2" "field_element curve Y2"
    using XYcZ_addC_words [OF _ _ _ _ r] e [OF nb(1)] e [OF nb(2)] by blast+
  have "ladder_addC scalar i curve R = (nb, Rx[1 - nb := X1, nb := X2], Ry[1 - nb := Y1, nb := Y2])"
    by (simp only: ladder_addC_def R prod.case Let_def nb_def [symmetric] r)
  then show ?thesis
    using nb ladder_words_update [OF assms [unfolded R] f(1,3,2,4), of "1 - nb" nb] by simp
qed

lemma ladder_add_words:
  assumes "ladder_words curve R" "nb \<le> 1"
  shows "ladder_words curve (ladder_add curve (nb, R))"
proof -
  obtain Rx Ry where R: "R = (Rx, Ry)" by fastforce
  have nb: "nb < 2" "1 - nb < 2" using assms(2) by simp_all
  obtain X1 Y1 X2 Y2 where r: "XYcZ_add (Rx ! nb) (Ry ! nb) (Rx ! (1 - nb)) (Ry ! (1 - nb)) curve = (X1, Y1, X2, Y2)"
    by (metis surj_pair)
  note e = ladder_words_nth [OF assms(1) [unfolded R]]
  have f: "field_element curve X1" "field_element curve Y1" "field_element curve X2" "field_element curve Y2"
    using XYcZ_add_words [OF _ _ _ _ r] e [OF nb(1)] e [OF nb(2)] by blast+
  have "ladder_add curve (nb, R) = (Rx[nb := X1, 1 - nb := X2], Ry[nb := Y1, 1 - nb := Y2])"
    by (simp only: ladder_add_def R prod.case Let_def r)
  then show ?thesis
    using ladder_words_update [OF assms(1) [unfolded R] f(1,3,2,4), of nb "1 - nb"] by simp
qed

lemma final_z_words:
  assumes R: "ladder_words curve (Rx, Ry)" "nb \<le> 1" and P: "field_element curve point" "field_element curve (drop n point)"
  shows "\<exists>Z. final_z (replicate 4 0) point (nb, Rx, Ry) curve = Some Z \<and> field_element curve Z"
proof -
  have nb: "1 - nb < 2" "0 < (2 :: nat)" "1 < (2 :: nat)" by simp_all
  note e = ladder_words_nth [OF R(1)]
  define z0 where "z0 = uECC_vli_modSub (replicate 4 0) (Rx ! 1) (Rx ! 0) (curve_p curve) n"
  have z0: "field_element curve z0" unfolding z0_def using field_element_op(2) [OF buf_local] e nb by blast
  define z1 where "z1 = uECC_vli_modMult_fast z0 z0 (Ry ! (1 - nb)) curve"
  have z1: "field_element curve z1" unfolding z1_def using field_element_op(1) [OF field_element_buf] z0 e nb by blast
  define z2 where "z2 = uECC_vli_modMult_fast z1 z1 point curve"
  have z2: "field_element curve z2" unfolding z2_def using field_element_op(1) [OF field_element_buf] z1 P by blast
  obtain z3 where z3: "uECC_vli_modInv z2 z2 (curve_p curve) n = Some z3" "field_element curve z3"
    using modInv_words [OF z2 field_element_buf [OF z2]] by blast
  define z4 where "z4 = uECC_vli_modMult_fast z3 z3 (drop n point) curve"
  have z4: "field_element curve z4" unfolding z4_def using field_element_op(1) [OF field_element_buf] z3 P by blast
  have "final_z (replicate 4 0) point (nb, Rx, Ry) curve = Some (uECC_vli_modMult_fast z4 z4 (Rx ! (1 - nb)) curve)"
    unfolding final_z_def prod.case Let_def words(1) [symmetric] z0_def [symmetric] z1_def [symmetric] z2_def [symmetric]
      z3(1) option.case z4_def [symmetric] ..
  moreover have "field_element curve (uECC_vli_modMult_fast z4 z4 (Rx ! (1 - nb)) curve)"
    using field_element_op(1) [OF field_element_buf] z4 e nb by blast
  ultimately show ?thesis by blast
qed

lemma EccPoint_mult_total:
  assumes fn: "curve_double_jacobian curve = double_jacobian_default_fn"
    and P: "field_element curve point" "field_element curve (drop n point)" and r: "2 * n \<le> length result"
    and Z: "case initial_Z of None \<Rightarrow> True | Some Z \<Rightarrow> field_element curve Z"
  shows "\<exists>r. EccPoint_mult result point scalar initial_Z num_bits curve = Some r \<and> length r = length result
    \<and> drop (2 * n) r = drop (2 * n) result \<and> field_element curve r \<and> field_element curve (drop n r)"
proof -
  define X where "X = uECC_vli_set (replicate 4 0) point n"
  define Y where "Y = uECC_vli_set (replicate 4 0) (drop n point) n"
  have XY: "field_element curve X" "field_element curve Y" unfolding X_def Y_def using field_element_op(3) [OF buf_local] P by blast+
  obtain X1 Y1 X0 Y0 where i: "XYcZ_initial_double X Y (replicate 4 0) (replicate 4 0) initial_Z curve = (X1, Y1, X0, Y0)"
    by (metis surj_pair)
  have start: "ladder_words curve ([X0, X1], [Y0, Y1])"
    using initial_double_words [OF fn XY buf_local buf_local Z i] by (simp add: ladder_words_def)
  obtain Rx Ry where R: "for_range 0 (num_bits - 2) (\<lambda>j R. ladder_add curve (ladder_addC scalar (num_bits - 2 - j) curve R))
      ([X0, X1], [Y0, Y1]) = (Rx, Ry)" by fastforce
  have "ladder_words curve (for_range 0 (num_bits - 2) (\<lambda>j R. ladder_add curve (ladder_addC scalar (num_bits - 2 - j) curve R))
      ([X0, X1], [Y0, Y1]))"
  proof (rule for_range_invariant [where P = "\<lambda>j. ladder_words curve"])
    fix j R assume "ladder_words curve R"
    from ladder_addC_words [OF this, of scalar "num_bits - 2 - j"]
    show "ladder_words curve (ladder_add curve (ladder_addC scalar (num_bits - 2 - j) curve R))"
      using ladder_add_words by (metis prod.collapse)
  qed (use start in simp_all)
  then have L: "ladder_words curve (Rx, Ry)" by (simp only: R)
  obtain nb Rx' Ry' where A: "ladder_addC scalar 0 curve (Rx, Ry) = (nb, Rx', Ry')" by (metis surj_pair)
  have L': "ladder_words curve (Rx', Ry')" "nb \<le> 1" using ladder_addC_words [OF L, of scalar 0] unfolding A fst_conv snd_conv by blast+
  obtain Zf where F: "final_z (replicate 4 0) point (nb, Rx', Ry') curve = Some Zf" "field_element curve Zf"
    using final_z_words [OF L' P] by blast
  obtain Rx'' Ry'' where B: "ladder_add curve (nb, Rx', Ry') = (Rx'', Ry'')" by fastforce
  have L'': "ladder_words curve (Rx'', Ry'')" using ladder_add_words [OF L'] by (simp only: B)
  obtain RX RY where G: "apply_z (Rx'' ! 0) (Ry'' ! 0) Zf curve = (RX, RY)" by fastforce
  have H: "field_element curve RX" "field_element curve RY"
    using apply_z_words [OF _ _ F(2) G] ladder_words_nth [OF L'', of 0] by simp_all
  define result' where "result' = uECC_vli_set result RX n"
  define result'' where "result'' = take n result' @ uECC_vli_set (drop n result') RY n"
  have l: "n \<le> length RX" "n \<le> length RY" "vn n RX < p" "vn n RY < p" using H by (simp_all add: field_element_iff)
  have l': "length result' = length result" "take n result' = take n RX" "drop n result' = drop n result"
    using r l unfolding result'_def by (simp_all add: vli_set_eq)
  have "n \<le> length (drop n result')" using r l' by simp
  then have t: "length result'' = length result" "take n result'' = take n RX" "take n (drop n result'') = take n RY"
    "drop (2 * n) result'' = drop (2 * n) result"
    using r l l' unfolding result''_def by (simp_all add: vli_set_eq mult_2)
  moreover have "EccPoint_mult result point scalar initial_Z num_bits curve = Some result''"
    unfolding EccPoint_mult_def words(1) [symmetric] Let_def X_def [symmetric] Y_def [symmetric] i prod.case R A F(1) option.case B G
      result''_def result'_def ..
  moreover have "field_element curve result''" "field_element curve (drop n result'')"
    unfolding field_element_iff t(2,3) using t(1) l r by simp_all
  ultimately show ?thesis by blast
qed

end

end
