(* ===== verification/Uecc_Short.thy ===== *)
theory Uecc_Short
  imports Uecc_Mult
begin

text \<open>
  A ladder that can be followed by hand: secp192r1 with the base point replaced by a point of order five (the point lies on the
  curve with another constant b, which neither the ladder nor signing reads). The multiples repeat with period five, and the nonce is
  chosen so that its regularised scalar, \<open>short_scalar 96\<close>, is the bit 1 followed by 96 times the bits 10; no sum of its ladder is the point
  at infinity. Uecc_Sign makes a signature with it.
\<close>

definition short_base :: "u64 list" where
  "short_base = [0x11, 0, 0, 0x3e1752017403404e, 0xa989befac49c3743, 0x360f898bffb1d5ca, 0, 0]"

definition short_curve :: uECC_Curve where
  "short_curve = curve_secp192r1\<lparr>curve_G := short_base\<rparr>"

definition short_nonce :: "u64 list" where
  "short_nonce = [0x963ee0f8f5d88279, 0xaaaaaaab10cbb274, 0xaaaaaaaaaaaaaaaa, 0]"

definition short_multiples :: "int \<Rightarrow> int \<times> int" where
  "short_multiples i =
     (if i mod 5 = 1 then (17, 0x360f898bffb1d5caa989befac49c37433e1752017403404e)
      else if i mod 5 = 4 then (17, - 0x360f898bffb1d5caa989befac49c37433e1752017403404e)
      else if i mod 5 = 2 then (- 7, 0x1b07c4c5ffd8eae554c4df7d624e1ba19f0ba900ba01a027)
      else (- 7, - 0x1b07c4c5ffd8eae554c4df7d624e1ba19f0ba900ba01a027))"

lemma p192_order: "int (field_order curve_secp192r1) = 0xfffffffffffffffffffffffffffffffeffffffffffffffff"
  by (simp add: p192.field_order)

lemma short_values:
  "short_multiples 1 = (17, 0x360f898bffb1d5caa989befac49c37433e1752017403404e)" "short_multiples 4 = (17, - 0x360f898bffb1d5caa989befac49c37433e1752017403404e)"
  "short_multiples 2 = (- 7, 0x1b07c4c5ffd8eae554c4df7d624e1ba19f0ba900ba01a027)" "short_multiples 3 = (- 7, - 0x1b07c4c5ffd8eae554c4df7d624e1ba19f0ba900ba01a027)"
  by (simp_all add: short_multiples_def)

lemma short_mod: "short_multiples i = short_multiples (i mod 5)"
  by (simp add: short_multiples_def)

lemma short_neg: "i mod 5 \<noteq> 0 \<Longrightarrow> short_multiples (- i) = neg (short_multiples i)"
proof -
  assume "i mod 5 \<noteq> 0"
  moreover have "0 \<le> i mod 5" "i mod 5 < 5" by simp_all
  ultimately have "i mod 5 = 1 \<or> i mod 5 = 2 \<or> i mod 5 = 3 \<or> i mod 5 = 4" by arith
  then show ?thesis by (auto simp: short_multiples_def neg_def zmod_zminus1_eq_if)
qed

lemmas short_numerals = short_values p192_order fst_conv snd_conv

lemma short_sum_1_2: "chord (field_order curve_secp192r1) (short_multiples 1) (short_multiples 2) (short_multiples 3)"
  by (rule chordI [where l = "0xa12052dd9553b47438dd894fe418967b714b270ab26abc01" and ?q1.0 = "(- 0xf)"
        and ?q2.0 = "(- 0x6569ac4f880b515c15cf6e9eb8189bb6037267fa611a8802)" and ?q3.0 = "(- 0xf)"])
    (unfold short_numerals, simp_all)

lemma short_sum_2_4: "chord (field_order curve_secp192r1) (short_multiples 2) (short_multiples 4) (short_multiples 1)"
  by (rule chordI [where l = "0x1c9f07674004e2a35567641053b63c8bac1e8adfe8bfcbfb" and ?q1.0 = "3"
        and ?q2.0 = "(- 0x3332c68c87966ca19e873d5c7b66b98cf7fd34d0cedf802)" and ?q3.0 = "3"])
    (unfold short_numerals, simp_all)

lemma short_sum_3_1: "chord (field_order curve_secp192r1) (short_multiples 3) (short_multiples 1) (short_multiples 4)"
  by (rule chordI [where l = "0xe360f898bffb1d5caa989befac49c37353e1752017403404" and ?q1.0 = "0x15"
        and ?q2.0 = "(- 0xc9f51d9a486fa1836f19abb52049f2807742bd8d3b6e600b)" and ?q3.0 = "0x15"])
    (unfold short_numerals, simp_all)

lemma short_tangent: "tangent (field_order curve_secp192r1) (- 3) (short_multiples 1) (short_multiples 2)"
  by (rule tangentI [where l = "0xe360f898bffb1d5caa989befac49c37353e1752017403404" and ?q1.0 = "0x600882940e7cfa4b3a84686d312cef71bbaee224e2c650f0"
        and ?q2.0 = "(- 0xc9f51d9a486fa1836f19abb52049f2807742bd8d3b6e600b)" and ?q3.0 = "(- 0x15)"])
    (unfold short_numerals, simp_all)

lemma short_coprime: "coprime (24 :: int) (int (field_order curve_secp192r1))"
  by (rule coprimeI_quotient [where u = "0xaaaaaaaaaaaaaaaaaaaaaaaaaaaaaaaa000000000000000" and q = "1"], unfold short_numerals, simp)

lemma short_coprime_x: "coprime (fst (short_multiples 1)) (int (field_order curve_secp192r1))"
  by (rule coprimeI_quotient [where u = "0xf0f0f0f0f0f0f0f0f0f0f0f0f0f0f0f0000000000000000" and q = "1"], unfold short_numerals, simp)

lemma short_coprime_y: "coprime (snd (short_multiples 1)) (int (field_order curve_secp192r1))"
  by (rule coprimeI_quotient [where u = "0x2e58ecc3497b140ce9dfb9ec6ead660d9acf761da20bdc0" and q = "0x9c9920e00391ad390b80b439e09c0c4f4f878a21562f81"], unfold short_numerals, simp)

lemma short_group_sum:
  assumes "i mod 5 = a" "j mod 5 = b" "(i + j) mod 5 = c" and "chord (field_order curve_secp192r1) (short_multiples a) (short_multiples b) (short_multiples c)"
    and "fst (short_multiples b) - fst (short_multiples a) = 24 \<or> fst (short_multiples b) - fst (short_multiples a) = - 24"
  shows "group_sum (field_order curve_secp192r1) short_multiples i j"
  unfolding group_sum_def short_mod [of i] short_mod [of j] short_mod [of "i + j"] assms(1-3)
  using assms(4,5) short_coprime by (auto simp only: coprime_minus_left_iff)

fun short_scalar :: "nat \<Rightarrow> nat" where
  "short_scalar 0 = 1"
| "short_scalar (Suc j) = 4 * short_scalar j + 2"

lemma short_scalar_mod: "short_scalar j mod 5 = 1"
proof (induction j)
  case (Suc j)
  then have "(4 * short_scalar j + 2) mod 5 = 1" by presburger
  then show ?case by simp
qed simp

lemma short_scalar_div: "t \<le> j \<Longrightarrow> short_scalar j div 4 ^ t = short_scalar (j - t)"
proof (induction t)
  case (Suc t)
  have "short_scalar j div 4 ^ Suc t = short_scalar j div 4 ^ t div 4" by (simp only: power_Suc2 div_mult2_eq)
  also have "\<dots> = short_scalar (Suc (j - Suc t)) div 4" using Suc by (simp add: Suc_diff_Suc)
  finally show ?case by simp
qed simp

lemma short_scalar_closed: "3 * short_scalar j + 2 = 5 * 4 ^ j"
  by (induction j) simp_all

lemma short_scalar_96: "short_scalar 96 = 0x1aaaaaaaaaaaaaaaaaaaaaaaaaaaaaaaaaaaaaaaaaaaaaaaa"
  using short_scalar_closed [of 96] by simp

lemma short_prefix:
  assumes "i \<in> {1..<193}"
  shows "(short_scalar 96 div 2 ^ i) mod 5 = (if even i then 1 else 3)" "bit (short_scalar 96) (i - 1) \<longleftrightarrow> even i"
proof -
  have four: "(2 :: nat) ^ (2 * t) = 4 ^ t" for t by (simp add: power_mult)
  have "(short_scalar 96 div 2 ^ i) mod 5 = (if even i then 1 else 3) \<and> (bit (short_scalar 96) (i - 1) \<longleftrightarrow> even i)"
  proof (cases "even i")
    case True
    then obtain u where u: "i = 2 * Suc u" "u \<le> 95" using assms by (cases "i div 2") (auto elim!: evenE)
    define t where "t = Suc u"
    have t: "i = 2 * t" "t \<le> 96" using u by (simp_all add: t_def)
    have "i - 1 = 2 * u + 1" using u by simp
    then have "short_scalar 96 div 2 ^ (i - 1) = short_scalar 96 div 4 ^ u div 2"
      by (simp only: power_add four power_one_right div_mult2_eq)
    moreover have "96 - u = Suc (96 - t)" using u(2) by (simp add: t_def)
    then have "short_scalar 96 div 4 ^ u = short_scalar (Suc (96 - t))" using u(2) by (simp add: short_scalar_div del: short_scalar.simps)
    ultimately have "short_scalar 96 div 2 ^ (i - 1) = 2 * short_scalar (96 - t) + 1" by simp
    then have "odd (short_scalar 96 div 2 ^ (i - 1))" by simp
    then show ?thesis using True t by (simp add: four short_scalar_div short_scalar_mod bit_iff_odd)
  next
    case False
    then obtain t where t: "i = 2 * t + 1" "t \<le> 95" using assms by (auto elim!: oddE)
    have e: "short_scalar 96 div 2 ^ (2 * t) = short_scalar (Suc (95 - t))"
    proof -
      have "96 - t = Suc (95 - t)" using t(2) by simp
      then show ?thesis using t(2) by (simp add: four short_scalar_div del: short_scalar.simps)
    qed
    have "short_scalar 96 div 2 ^ i = 2 * short_scalar (95 - t) + 1"
      using e by (simp add: t(1) div_mult2_eq mult.commute [of 2])
    moreover have "(2 * short_scalar (95 - t) + 1) mod 5 = 3" using short_scalar_mod [of "95 - t"] by presburger
    ultimately show ?thesis using False e by (simp add: t(1) bit_iff_odd)
  qed
  then show "(short_scalar 96 div 2 ^ i) mod 5 = (if even i then 1 else 3)" "bit (short_scalar 96) (i - 1) \<longleftrightarrow> even i"
    by simp_all
qed

lemma short_multiples_ladder: "multiples (field_order curve_secp192r1) short_multiples (short_scalar 96) 193"
proof -
  let ?p = "field_order curve_secp192r1" and ?M = short_multiples
  have n: "?M 4 = neg (?M 1)" "?M 3 = neg (?M 2)" by (simp_all add: short_values neg_def)
  have c: "chord ?p (?M 3) (?M 4) (?M 2)"
    using chord_neg [OF chord_sym [OF short_sum_1_2]] by (simp add: n)
  note sums = short_sum_1_2 short_sum_2_4 short_sum_3_1 c chord_sym [OF short_sum_2_4]
  have "let m = int (short_scalar 96 div 2 ^ i) in group_sum ?p ?M m (m + 1) \<and> group_sum ?p ?M (m + 1) (- m) \<and> ?M (- m) = neg (?M m)
      \<and> group_sum ?p ?M (2 * m + 1) (if bit (short_scalar 96) (i - 1) then 1 else - 1)" if i: "i \<in> {1..<193}" for i
  proof -
    define m where "m = int (short_scalar 96 div 2 ^ i)"
    have m: "m mod 5 = (if even i then 1 else 3)" using arg_cong [OF short_prefix(1) [OF i], of int] by (simp add: m_def zmod_int)
    have neg: "?M (- m) = neg (?M m)" by (rule short_neg) (simp add: m)
    show ?thesis
    proof (cases "even i")
      case True
      then have r: "m mod 5 = 1" "(m + 1) mod 5 = 2" "(- m) mod 5 = 4" "(2 * m + 1) mod 5 = 3" using m by (simp_all, presburger+)
      have "group_sum ?p ?M m (m + 1)" by (rule short_group_sum [OF r(1,2) _ sums(1)]) (use r in presburger, simp add: short_values)
      moreover have "group_sum ?p ?M (m + 1) (- m)" by (rule short_group_sum [OF r(2,3) _ sums(2)]) (simp_all add: short_values)
      moreover have "group_sum ?p ?M (2 * m + 1) 1" by (rule short_group_sum [OF r(4) _ _ sums(3)]) (use r in \<open>simp, presburger, simp add: short_values\<close>)
      ultimately show ?thesis using True neg short_prefix(2) [OF i] by (simp add: m_def)
    next
      case False
      then have r: "m mod 5 = 3" "(m + 1) mod 5 = 4" "(- m) mod 5 = 2" "(2 * m + 1) mod 5 = 2" using m by (simp_all, presburger+)
      have "group_sum ?p ?M m (m + 1)" by (rule short_group_sum [OF r(1,2) _ sums(4)]) (use r in presburger, simp add: short_values)
      moreover have "group_sum ?p ?M (m + 1) (- m)" by (rule short_group_sum [OF r(2,3) _ sums(5)]) (simp_all add: short_values)
      moreover have "group_sum ?p ?M (2 * m + 1) (- 1)" by (rule short_group_sum [OF r(4) _ _ sums(2)]) (use r in \<open>simp, presburger, simp add: short_values\<close>)
      ultimately show ?thesis using False neg short_prefix(2) [OF i] by (simp add: m_def)
    qed
  qed
  moreover have "?M (- 1) = neg (?M 1)" by (rule short_neg) simp
  ultimately show ?thesis
    unfolding multiples_def using short_tangent short_coprime_x short_coprime_y by blast
qed

end
