(* ===== verification/Uecc_Sign.thy ===== *)
theory Uecc_Sign
  imports Uecc_Total Uecc_Short
begin

text \<open>
  What \<^verbatim>\<open>uECC_sign_with_k\<close> returns: the x coordinate of the multiple of the base point, and the solution of the ECDSA equation
  modulo the group order, whatever number the generator draws to blind the inversion. With the verification of
  Uecc_Ecdsa: a signature that is made is accepted, under the laws of the group that the two families of points express.
\<close>

text \<open>The point that \<^verbatim>\<open>uECC_sign_with_k\<close> computes from its nonce.\<close>

definition signing_point :: "u64 list \<Rightarrow> uECC_Curve \<Rightarrow> u64 list option" where
  "signing_point k curve =
     (case regularize_k k (replicate 4 0) (replicate 4 0) curve of
        (carry, k0, k1) \<Rightarrow> EccPoint_mult (replicate 8 0) (curve_G curve) (if carry = 0 then k1 else k0) None (curve_num_n_bits curve + 1) curve)"

context fast_field
begin

lemma regular_mod: "regular N b k mod N = k mod N"
  by (simp add: regular_def)

lemma sign_nonce:
  assumes fn: "curve_double_jacobian curve = double_jacobian_default_fn"
    and nw: "BITS_TO_WORDS nb = n" "nb = curve_num_n_bits curve" "0 < nb"
    and N: "N = vn n (curve_n curve)" "n \<le> length (curve_n curve)" "2 ^ (nb - 1) \<le> N" "N < 2 ^ nb"
    and G: "point_rep curve (curve_G curve) (M 1)" and k: "n \<le> length k" "vn n k < N"
    and M: "multiples p M (regular N nb (vn n k)) (nb + 1)"
    and r: "regularize_k k (replicate 4 0) (replicate 4 0) curve = (carry, k0, k1)"
  shows "\<exists>P. EccPoint_mult (replicate 8 0) (curve_G curve) (if carry = 0 then k1 else k0) None (nb + 1) curve = Some P
    \<and> length P = 8 \<and> point_rep curve P (M (int (regular N nb (vn n k))))"
proof -
  define K where "K = regular N nb (vn n k)"
  have n4: "n \<le> length (replicate 4 (0 :: u64))" using words(3) by simp
  have K: "2 ^ nb \<le> K" "K < 2 ^ (nb + 1)" "\<And>i. i < nb \<Longrightarrow> uECC_vli_testBit (if carry = 0 then k1 else k0) i \<noteq> 0 \<longleftrightarrow> bit K i"
    using regularize_k_correct [of n curve k "replicate 4 0" "replicate 4 0" carry k0 k1] nw N k r n4 by (auto simp: K_def)
  have "\<exists>r. EccPoint_mult (replicate 8 0) (curve_G curve) (if carry = 0 then k1 else k0) None (nb + 1) curve = Some r
    \<and> length r = length (replicate 8 (0 :: u64)) \<and> res curve r (fst (M (int K))) \<and> res curve (drop n r) (snd (M (int K)))"
  proof (rule EccPoint_mult_correct [OF fn])
    show "res curve (curve_G curve) (fst (M 1))" "res curve (drop n (curve_G curve)) (snd (M 1))"
      using G by (simp_all add: point_rep_def words(1) [symmetric])
  qed (use words(3) nw(3) K M in \<open>simp_all add: K_def\<close>)
  then show ?thesis by (auto simp: K_def point_rep_def words(1) [symmetric])
qed

text \<open>The blinded inversion: the factor cancels.\<close>

lemma blinded_inverse:
  assumes N: "N = vn n m" "n \<le> length m" "odd N" "1 < N" "64 * (n - 1) < uECC_vli_numBits m n"
    and k: "n \<le> length k" "coprime (vn n k) N" and t: "n \<le> length t" "coprime (vn n t) N"
  shows "\<exists>v. uECC_vli_modInv (uECC_vli_modMult k k t m n) (uECC_vli_modMult k k t m n) m n = Some v
    \<and> n \<le> length (uECC_vli_modMult v v t m n) \<and> vn n (uECC_vli_modMult v v t m n) * vn n k mod N = 1"
proof -
  have np: "0 < n" "n \<le> 4" using words by simp_all
  define a where "a = uECC_vli_modMult k k t m n"
  note a = vli_modMult_correct [OF np k(1,1) t(1) N(2,5), folded a_def N(1)]
  have la: "n \<le> length a" using a(2) k(1) by simp
  have "coprime (vn n k * vn n t) N" using k(2) t(2) by simp
  then have g: "gcd (vn n a) N = 1" by (simp add: a(1) coprime_iff_gcd_eq_1 gcd.commute gcd_red_nat [symmetric])
  have "vn n a \<noteq> 0" using g N(4) by (auto intro: ccontr)
  then obtain v where v: "uECC_vli_modInv a a m n = Some v" "length v = length a" "vn n v < N" "vn n v * vn n a mod N = gcd (vn n a) N mod N"
    using vli_modInv_correct [OF np la la N(2)] N(1,3,4) by auto
  have lv: "n \<le> length v" using v(2) la by simp
  note b = vli_modMult_correct [OF np lv lv t(1) N(2,5), folded N(1)]
  have "vn n (uECC_vli_modMult v v t m n) * vn n k mod N = vn n v * (vn n k * vn n t mod N) mod N"
    by (simp add: b(1) mod_mult_left_eq mod_mult_right_eq mult_ac)
  also have "\<dots> = 1" using v(4) g N(4) by (simp add: a(1))
  finally show ?thesis using v(1) b(2) lv by (auto simp: a_def)
qed

text \<open>The signature, given the point that the multiplication returns.\<close>

lemma sign_with_k_point:
  fixes g_rng_function :: "'s rng option"
  assumes nb: "nb = curve_num_n_bits curve" "BITS_TO_WORDS nb = n" "BITS_TO_BYTES nb = num_bytes" "(num_bytes + 7) div 8 = n"
      "num_bytes = curve_num_bytes curve"
    and N: "N = vn n (curve_n curve)" "n \<le> length (curve_n curve)" "odd N" "1 < N" "64 * (n - 1) < uECC_vli_numBits (curve_n curve) n"
      "N \<le> 2 ^ (8 * num_bytes)" "p \<le> 2 ^ (8 * num_bytes)"
    and prime: "\<And>t. g_rng_function \<noteq> None \<Longrightarrow> 0 < t \<Longrightarrow> t < N \<Longrightarrow> coprime t N"
    and l: "num_bytes \<le> length private_key" "2 * num_bytes \<le> length signature" "hash_size \<le> length message_hash" "length k = 4"
    and k: "0 < vn n k" "vn n k < N" "coprime (vn n k) N"
    and P: "signing_point k curve = Some P" "length P = 8" "vn n P = x" "0 < x" "x < p"
  shows "\<exists>ok k' sig st'. uECC_sign_with_k g_rng_function st private_key message_hash hash_size k signature curve = Some (ok, k', sig, st')
    \<and> (g_rng_function = None \<longrightarrow> ok = 1) \<and> length sig = length signature
    \<and> (ok \<noteq> 0 \<longrightarrow> be_nat (take num_bytes sig) = x \<and> (\<exists>s<N. be_nat (take num_bytes (drop num_bytes sig)) = s
        \<and> s * vn n k mod N = (hash_value message_hash hash_size nb N + x * be_nat (take num_bytes private_key)) mod N))"
proof -
  have np: "0 < n" "n \<le> 4" using words by simp_all
  have n4: "n \<le> length (replicate 4 (0 :: u64))" using words(3) by simp
  have lk: "n \<le> length k" using l(4) np by simp
  obtain carry k0 k1 where r: "regularize_k k (replicate 4 0) (replicate 4 0) curve = (carry, k0, k1)" by (metis surj_pair)
  have lr: "length k0 = 4" "length k1 = 4"
  proof -
    obtain c a where a: "uECC_vli_add (replicate 4 0) k (curve_n curve) n = (c, a)" by fastforce
    have la: "length a = 4" using vli_add_correct(3) [OF n4 lk N(2) a] by simp
    obtain c' b where b: "uECC_vli_add (replicate 4 0) a (curve_n curve) n = (c', b)" by fastforce
    have lb: "length b = 4" using vli_add_correct(3) [OF n4 _ N(2) b] la np by simp
    show "length k0 = 4" "length k1 = 4"
      using r la lb unfolding regularize_k_def nb(1) [symmetric] nb(2) Let_def a prod.case b by simp_all
  qed
  have P1: "EccPoint_mult (replicate 8 0) (curve_G curve) (if carry = 0 then k1 else k0) None (nb + 1) curve = Some P"
    using P(1) by (simp add: signing_point_def r nb(1))
  note vx = P(3,5) and x = P(3,4)
  have lP: "n \<le> length P" using P(2) np by simp
  have z: "uECC_vli_isZero k n = 0" "uECC_vli_cmp (curve_n curve) k n = 1" "uECC_vli_isZero P n = 0"
    using vli_isZero_eq [OF lk] vli_isZero_eq [OF lP] vli_cmp_eq [OF np(2) N(2) lk] k N(1) vx x(2) by simp_all
  define draw where "draw = (case g_rng_function of
      None \<Rightarrow> (1, (uECC_vli_clear k0 n)[0 := 1], st)
    | Some _ \<Rightarrow> uECC_generate_random_int g_rng_function st k0 (curve_n curve) n)"
  obtain ok t st' where d: "draw = (ok, t, st')" by (metis surj_pair)
  have t: "(g_rng_function = None \<longrightarrow> ok = 1) \<and> length t = 4 \<and> (ok \<noteq> 0 \<longrightarrow> ok = 1 \<and> coprime (vn n t) N)"
  proof (cases g_rng_function)
    case None
    then have "ok = 1" "t = (uECC_vli_clear k0 n)[0 := 1]" using d by (simp_all add: draw_def)
    then show ?thesis using vn_one [of n k0] np lr N(4) by (simp del: One_nat_def)
  next
    case (Some g)
    have "n \<le> length k0" using lr np by simp
    then show ?thesis
      using generate_random_int_range [OF np(1,2) N(2), of k0 g_rng_function st ok t st'] d Some lr N(1) prime by (auto simp: draw_def)
  qed
  have unf: "uECC_sign_with_k g_rng_function st private_key message_hash hash_size k signature curve =
    (case draw of (ok, tmp, st) \<Rightarrow>
       if ok = 0 then Some (0, k, signature, st)
       else
         let k = uECC_vli_modMult k k tmp (curve_n curve) n
         in case uECC_vli_modInv k k (curve_n curve) n of
              None \<Rightarrow> None
            | Some k \<Rightarrow>
                let k = uECC_vli_modMult k k tmp (curve_n curve) n;
                    signature = uECC_vli_nativeToBytes signature num_bytes P;
                    tmp = uECC_vli_bytesToNative tmp private_key num_bytes;
                    s = (if carry = 0 then k1 else k1)[n - 1 := 0];
                    s = uECC_vli_set s P n;
                    s = uECC_vli_modMult s tmp s (curve_n curve) n;
                    tmp = bits2int tmp message_hash hash_size curve;
                    s = uECC_vli_modAdd s tmp s (curve_n curve) n;
                    s = uECC_vli_modMult s s k (curve_n curve) n
                in if uECC_vli_numBits s n > num_bytes * 8 then Some (0, k, signature, st)
                   else Some (1, k, at_off num_bytes (\<lambda>bytes. uECC_vli_nativeToBytes bytes num_bytes s) signature, st))"
    unfolding uECC_sign_with_k_def nb(1) [symmetric] nb(2,3) nb(5) [symmetric] words(1) [symmetric] Let_def r prod.case P1 option.case z draw_def
    by simp
  show ?thesis
  proof (cases "ok = 0")
    case True
    then show ?thesis using t unfolding unf d by auto
  next
    case False
    then have t: "ok = 1" "length t = 4" "coprime (vn n t) N" using t by blast+
    have lt: "n \<le> length t" using t(2) np by simp
    obtain v where v: "uECC_vli_modInv (uECC_vli_modMult k k t (curve_n curve) n) (uECC_vli_modMult k k t (curve_n curve) n) (curve_n curve) n = Some v"
      "n \<le> length (uECC_vli_modMult v v t (curve_n curve) n)" "vn n (uECC_vli_modMult v v t (curve_n curve) n) * vn n k mod N = 1"
      using blinded_inverse [OF N(1-5) lk k(3) lt t(3)] by blast
    define w where "w = uECC_vli_modMult v v t (curve_n curve) n"
    define sig1 where "sig1 = uECC_vli_nativeToBytes signature num_bytes P"
    define d where "d = uECC_vli_bytesToNative t private_key num_bytes"
    define s0 where "s0 = uECC_vli_set (k1[n - 1 := 0]) P n"
    define s1 where "s1 = uECC_vli_modMult s0 d s0 (curve_n curve) n"
    define e where "e = bits2int d message_hash hash_size curve"
    define s2 where "s2 = uECC_vli_modAdd s1 e s1 (curve_n curve) n"
    define s3 where "s3 = uECC_vli_modMult s2 s2 w (curve_n curve) n"
    have dv: "vn n d = be_nat (take num_bytes private_key)" "length d = 4"
      using vn_bytesToNative [OF nb(4) lt l(1)] bytesToNative_bits(1) [OF nb(4) lt] t(2) by (simp_all add: d_def be_nat_def)
    have ld: "n \<le> length d" using dv np by simp
    have s0: "vn n s0 = x" "length s0 = 4" "n \<le> length s0" using vn_set [of n "k1[n - 1 := 0]" P] lr np lP vx by (simp_all add: s0_def)
    have s1: "vn n s1 = vn n d * x mod N" "n \<le> length s1" "vn n s1 < N"
      using vli_modMult_correct [OF np s0(3) ld s0(3) N(2,5)] s0 np N(1,4) by (simp_all add: s1_def)
    have ev: "vn n e = hash_value message_hash hash_size nb N" "n \<le> length e"
      using bits2int_value [of n curve d hash_size message_hash] nb(1,2) ld N(1,2) l(3) by (simp_all add: e_def)
    have s2: "vn n s2 mod N = (vn n e + vn n s1) mod N" "n \<le> length s2"
      using vli_modAdd_value [OF s1(2) ev(2) s1(2) N(2)] s1 N(1) by (auto simp: s2_def mod_if [of "_ + _"])
    have lw: "n \<le> length w" using v(2) by (simp add: w_def)
    have s3: "vn n s3 = vn n s2 * vn n w mod N" "n \<le> length s3" "vn n s3 < N"
      using vli_modMult_correct [OF np s2(2,2) lw N(2,5)] s2 N(1,4) by (simp_all add: s3_def)
    have "vn n s3 * vn n k mod N = (vn n s2 mod N) * (vn n w * vn n k mod N) mod N"
      by (simp only: s3(1) mod_mult_left_eq mod_mult_right_eq mult.assoc)
    also have "\<dots> = (vn n e + vn n s1) mod N" using v(3) by (simp add: s2(1) w_def)
    also have "\<dots> = (hash_value message_hash hash_size nb N + x * be_nat (take num_bytes private_key)) mod N"
      by (simp add: ev(1) s1(1) dv(1) mod_add_right_eq mult.commute)
    finally have eq: "vn n s3 * vn n k mod N = (hash_value message_hash hash_size nb N + x * be_nat (take num_bytes private_key)) mod N" .
    have "\<not> uECC_vli_numBits s3 n > num_bytes * 8"
    proof
      note B = vli_numBits_bounds [OF s3(2)]
      assume *: "uECC_vli_numBits s3 n > num_bytes * 8"
      then have "2 ^ (uECC_vli_numBits s3 n - 1) \<le> vn n s3" using B(2,4) by auto
      moreover have "(2 :: nat) ^ (8 * num_bytes) \<le> 2 ^ (uECC_vli_numBits s3 n - 1)" using * by (intro power_increasing) auto
      ultimately show False using s3(3) N(6) by linarith
    qed
    then have res: "uECC_sign_with_k g_rng_function st private_key message_hash hash_size k signature curve =
        Some (1, w, take num_bytes sig1 @ uECC_vli_nativeToBytes (drop num_bytes sig1) num_bytes s3, st')"
      unfolding unf \<open>draw = (ok, t, st')\<close> prod.case Let_def v(1) option.case
        w_def [symmetric] sig1_def [symmetric] d_def [symmetric] if_cancel s0_def [symmetric] s1_def [symmetric] e_def [symmetric] s2_def [symmetric]
        s3_def [symmetric] at_off_def t(1) by simp
    have n8: "num_bytes \<le> 8 * n" using nb(4) by linarith
    have ls: "num_bytes \<le> length signature" "num_bytes \<le> length (drop num_bytes sig1)" "length sig1 = length signature"
      using l(2) length_nativeToBytes [of num_bytes signature P] by (simp_all add: sig1_def)
    have b1: "be_nat (take num_bytes sig1) = x"
      using le_nat_nativeToBytes [OF n8 lP ls(1)] vx N(7) by (simp add: sig1_def be_nat_def)
    have b2: "be_nat (take num_bytes (uECC_vli_nativeToBytes (drop num_bytes sig1) num_bytes s3)) = vn n s3"
      using le_nat_nativeToBytes [OF n8 s3(2) ls(2)] s3(3) N(6) by (simp add: be_nat_def)
    show ?thesis
      unfolding res using b1 b2 eq s3(3) ls length_nativeToBytes [OF ls(2), of s3] t(1) by auto
  qed
qed

lemma sign_with_k_correct:
  fixes g_rng_function :: "'s rng option"
  assumes fn: "curve_double_jacobian curve = double_jacobian_default_fn"
    and nb: "nb = curve_num_n_bits curve" "0 < nb" "BITS_TO_WORDS nb = n" "BITS_TO_BYTES nb = num_bytes" "(num_bytes + 7) div 8 = n"
      "num_bytes = curve_num_bytes curve"
    and N: "N = vn n (curve_n curve)" "n \<le> length (curve_n curve)" "odd N" "1 < N" "64 * (n - 1) < uECC_vli_numBits (curve_n curve) n"
      "2 ^ (nb - 1) \<le> N" "N < 2 ^ nb" "N \<le> 2 ^ (8 * num_bytes)" "p \<le> 2 ^ (8 * num_bytes)"
    and prime: "\<And>t. 0 < t \<Longrightarrow> t < N \<Longrightarrow> coprime t N"
    and l: "num_bytes \<le> length private_key" "2 * num_bytes \<le> length signature" "hash_size \<le> length message_hash" "length k = 4"
    and G: "point_rep curve (curve_G curve) (M 1)" and k: "0 < vn n k" "vn n k < N"
    and M: "multiples p M (regular N nb (vn n k)) (nb + 1)"
    and x: "x = nat (fst (M (int (regular N nb (vn n k)))) mod int p)" "0 < x"
  shows "\<exists>ok k' sig st'. uECC_sign_with_k g_rng_function st private_key message_hash hash_size k signature curve = Some (ok, k', sig, st')
    \<and> (g_rng_function = None \<longrightarrow> ok = 1) \<and> length sig = length signature
    \<and> (ok \<noteq> 0 \<longrightarrow> be_nat (take num_bytes sig) = x \<and> (\<exists>s<N. be_nat (take num_bytes (drop num_bytes sig)) = s
        \<and> s * vn n k mod N = (hash_value message_hash hash_size nb N + x * be_nat (take num_bytes private_key)) mod N))"
proof -
  have np: "0 < n" "n \<le> 4" using words by simp_all
  have lk: "n \<le> length k" using l(4) np by simp
  obtain carry k0 k1 where r: "regularize_k k (replicate 4 0) (replicate 4 0) curve = (carry, k0, k1)" by (metis surj_pair)
  obtain P where P: "EccPoint_mult (replicate 8 0) (curve_G curve) (if carry = 0 then k1 else k0) None (nb + 1) curve = Some P"
    "length P = 8" "point_rep curve P (M (int (regular N nb (vn n k))))"
    using sign_nonce [OF fn nb(3,1,2) N(1,2,6,7) G lk k(2) M r] by blast
  have s: "signing_point k curve = Some P" using P(1) by (simp add: signing_point_def r nb(1))
  have vx: "vn n P = x" "x < p" using P(3) p_pos by (simp_all add: point_rep_def res_iff x(1)) (metis nat_int)+
  have c: "coprime (vn n k) N" using prime k by blast
  show ?thesis
    by (rule sign_with_k_point [OF nb(1,3-6) N(1-5,8,9) prime l k c s P(2) vx(1) x(2) vx(2)])
qed

text \<open>
  A signature that satisfies the equation is accepted. The hypothesis \<open>law\<close> is what the group of the curve contributes: scalars that
  combine to the nonce lead the interleaved multiplication to the point the signature was made from.
\<close>

lemma signed_is_verified:
  assumes fn: "curve_double_jacobian curve = double_jacobian_default_fn"
    and nw: "BITS_TO_WORDS (curve_num_n_bits curve) = n" "(num_bytes + 7) div 8 = n" "num_bytes = curve_num_bytes curve"
    and N: "N = vn n (curve_n curve)" "n \<le> length (curve_n curve)" "odd N" "1 < N" "64 * (n - 1) < uECC_vli_numBits (curve_n curve) n" "p < 2 * N"
    and prime: "\<And>t. 0 < t \<Longrightarrow> t < N \<Longrightarrow> coprime t N"
    and l: "2 * num_bytes \<le> length public_key" "2 * num_bytes \<le> length sig" "hash_size \<le> length message_hash"
    and G: "point_rep curve (curve_G curve) (M 1 0)"
    and Q: "M 0 1 = (int (be_nat (take num_bytes public_key)), int (be_nat (take num_bytes (drop num_bytes public_key))))"
      "be_nat (take num_bytes public_key) < p" "be_nat (take num_bytes (drop num_bytes public_key)) < p"
    and sig: "x = be_nat (take num_bytes sig)" "s = be_nat (take num_bytes (drop num_bytes sig))" "0 < x" "x < N" "0 < s" "s < N"
      "s * k mod N = (hash_value message_hash hash_size (curve_num_n_bits curve) N + x * d) mod N"
    and law: "\<And>u1 u2. u1 < N \<Longrightarrow> u2 < N \<Longrightarrow> (u1 + u2 * d) mod N = k mod N \<Longrightarrow>
      fst (M u1 u2) mod int p = int x \<and> (\<exists>L. u1 < 2 ^ L \<and> u2 < 2 ^ L \<and> 0 < L \<and> (2 ^ (L - 1) \<le> u1 \<or> 2 ^ (L - 1) \<le> u2) \<and> shamir_points p M u1 u2 L)"
  shows "uECC_verify public_key message_hash hash_size sig curve = Some 1"
proof -
  define e where "e = hash_value message_hash hash_size (curve_num_n_bits curve) N"
  obtain w where w: "w * s mod N = 1"
  proof -
    have "coprime s N" using prime sig(5,6) by blast
    then obtain a b where "s * a = N * b + 1" using bezout_nat [of s N] sig(5) by (auto simp: coprime_iff_gcd_eq_1)
    then have "a * s = N * b + 1" by (simp add: mult.commute)
    then have "a * s mod N = 1" using N(4) mod_mult_self4 [of N b 1] by simp
    then show ?thesis by (rule that)
  qed
  define u1 where "u1 = e * w mod N"
  define u2 where "u2 = x * w mod N"
  have "(u1 + u2 * d) mod N = (e * w + x * w * d) mod N"
    by (rule mod_add_cong) (simp_all add: u1_def u2_def mod_mult_left_eq)
  also have "\<dots> = w * (e + x * d) mod N" by (simp add: algebra_simps)
  also have "\<dots> = w * (s * k mod N) mod N" unfolding sig(7) e_def by (simp only: mod_mult_right_eq)
  also have "\<dots> = (w * s mod N) * k mod N" by (simp only: mod_mult_left_eq mod_mult_right_eq mult.assoc)
  also have "\<dots> = k mod N" by (simp add: w)
  finally have c: "(u1 + u2 * d) mod N = k mod N" .
  have "u1 < N" "u2 < N" using N(4) by (simp_all add: u1_def u2_def)
  from law [OF this c] obtain L where L: "fst (M u1 u2) mod int p = int x" "u1 < 2 ^ L" "u2 < 2 ^ L" "0 < L" "2 ^ (L - 1) \<le> u1 \<or> 2 ^ (L - 1) \<le> u2"
    "shamir_points p M u1 u2 L" by blast
  have "uECC_verify public_key message_hash hash_size sig curve = Some (of_bool (nat (fst (M u1 u2) mod int p) mod N = x))"
    by (rule verify_correct [OF fn nw N l G Q sig(1,2,3,4,5,6) w u1_def [unfolded e_def] u2_def L(2-6)])
  then show ?thesis using sig(4) by (simp add: L(1))
qed

end

section \<open>Signatures on the curves\<close>

lemma nist_sizes:
  assumes "curve \<in> nist_curves" and "n = curve_num_words curve" and "N = vn n (curve_n curve)"
  shows "BITS_TO_BYTES (curve_num_n_bits curve) = curve_num_bytes curve" "N \<le> 2 ^ (8 * curve_num_bytes curve)"
    "field_order curve \<le> 2 ^ (8 * curve_num_bytes curve)" "8 \<le> length (curve_G curve)"
proof -
  have b: "curve_num_bytes curve_secp192r1 = 24" "curve_num_bytes curve_secp224r1 = 28" "curve_num_bytes curve_secp256r1 = 32"
    by (simp_all add: curve_secp192r1_def curve_secp224r1_def curve_secp256r1_def)
  have "curve = curve_secp192r1 \<and> n = 3 \<or> curve = curve_secp224r1 \<and> n = 4 \<or> curve = curve_secp256r1 \<and> n = 4"
    using assms(1,2) p192.words(1) p224.words(1) p256.words(1) by (auto simp: nist_curves_def)
  then consider "curve = curve_secp192r1" "n = 3" | "curve = curve_secp224r1" "n = 4" | "curve = curve_secp256r1" "n = 4" by blast
  then have "BITS_TO_BYTES (curve_num_n_bits curve) = curve_num_bytes curve \<and> N \<le> 2 ^ (8 * curve_num_bytes curve)
    \<and> field_order curve \<le> 2 ^ (8 * curve_num_bytes curve)"
    unfolding assms(3)
    by cases (simp_all only: b nist_order_bits p192.field_order p224.field_order p256.field_order, simp_all add: BITS_TO_BYTES_def)
  then show "BITS_TO_BYTES (curve_num_n_bits curve) = curve_num_bytes curve" "N \<le> 2 ^ (8 * curve_num_bytes curve)"
    "field_order curve \<le> 2 ^ (8 * curve_num_bytes curve)" by simp_all
  show "8 \<le> length (curve_G curve)"
    using assms(1) by (auto simp: nist_curves_def curve_secp192r1_def curve_secp224r1_def curve_secp256r1_def)
qed

lemma sign_nonce_out_of_range:
  assumes "n = curve_num_words curve" "n \<le> 4" "BITS_TO_WORDS (curve_num_n_bits curve) = n" "n \<le> length (curve_n curve)"
    and "n \<le> length k" "vn n k = 0 \<or> vn n (curve_n curve) \<le> vn n k"
  shows "uECC_sign_with_k g_rng_function st private_key message_hash hash_size k signature curve = Some (0, k, signature, st)"
  using assms(6) vli_isZero_eq [OF assms(5)] vli_cmp_eq [OF assms(2,4,5)]
  unfolding uECC_sign_with_k_def assms(1) [symmetric] assms(3) Let_def by auto

lemma sign_point_zero:
  assumes "n = curve_num_words curve" "BITS_TO_WORDS (curve_num_n_bits curve) = n"
    and "uECC_vli_isZero k n = 0" "uECC_vli_cmp (curve_n curve) k n = 1"
    and "signing_point k curve = Some P" "n \<le> length P" "vn n P = 0"
  shows "uECC_sign_with_k g_rng_function st private_key message_hash hash_size k signature curve = Some (0, k, signature, st)"
proof -
  obtain carry k0 k1 where r: "regularize_k k (replicate 4 0) (replicate 4 0) curve = (carry, k0, k1)" by (metis surj_pair)
  have P: "EccPoint_mult (replicate 8 0) (curve_G curve) (if carry = 0 then k1 else k0) None (curve_num_n_bits curve + 1) curve = Some P"
    using assms(5) by (simp add: signing_point_def r)
  show ?thesis
    using vli_isZero_eq [OF assms(6)] assms(7)
    unfolding uECC_sign_with_k_def assms(1) [symmetric] assms(2-4) Let_def r prod.case P option.case by simp
qed

text \<open>The operations read the base point and nothing derived from it, so the facts of a curve hold for every base point.\<close>

lemma fast_field_base_point: "fast_field curve n p \<Longrightarrow> fast_field (curve\<lparr>curve_G := G\<rparr>) n p"
proof -
  have m: "mmod_fast (curve\<lparr>curve_G := G\<rparr>) = mmod_fast curve" by (intro ext) (simp add: mmod_fast_def)
  have f: "curve_num_words (curve\<lparr>curve_G := G\<rparr>) = curve_num_words curve" "curve_p (curve\<lparr>curve_G := G\<rparr>) = curve_p curve" by simp_all
  have "fast_field (curve\<lparr>curve_G := G\<rparr>) n p = fast_field curve n p" by (simp only: fast_field_def m f)
  then show "fast_field curve n p \<Longrightarrow> fast_field (curve\<lparr>curve_G := G\<rparr>) n p" by simp
qed

lemma nist_signing_point:
  assumes "base \<in> nist_curves" and "curve = base\<lparr>curve_G := G\<rparr>" and "n = curve_num_words curve"
    and "2 * n \<le> length G" and "vn n G < field_order base" and "vn n (drop n G) < field_order base"
  shows "\<exists>P. signing_point k curve = Some P \<and> length P = 8 \<and> vn n P < field_order base"
proof -
  have n: "n = curve_num_words base" using assms(2,3) by simp
  have F: "fast_field curve n (field_order base)"
    unfolding assms(2) using nist_fast_field [OF assms(1)] n by (intro fast_field_base_point) simp
  obtain carry k0 k1 where r: "regularize_k k (replicate 4 0) (replicate 4 0) curve = (carry, k0, k1)" by (metis surj_pair)
  have G: "field_element curve G" "field_element curve (drop n G)"
    using assms(4-6) fast_field.field_element_iff [OF F] by simp_all
  have l: "2 * n \<le> length (replicate 8 (0 :: u64))" using fast_field.words(3) [OF F] by simp
  have d: "curve_double_jacobian curve = double_jacobian_default_fn" "curve_G curve = G" using nist_functions(1) [OF assms(1)] assms(2) by simp_all
  show ?thesis
    using fast_field.EccPoint_mult_total [OF F d(1) G l,
        where initial_Z = None and scalar = "if carry = 0 then k1 else k0" and num_bits = "curve_num_n_bits curve + 1"]
      fast_field.field_element_iff [OF F]
    by (auto simp: signing_point_def r d(2))
qed

text \<open>C7. Signing: for the curves with a complete fast reduction, with any base point of two reduced coordinates in place of theirs (the
  curve itself is the case of its own), signing with a nonce ends with a result, and returns no signature when the nonce is
  zero or not below the group order N. The halves of a signature it returns are the x coordinate x of the point computed from
  the nonce, not zero, and the number s below N with s k = e + x d modulo N, where e is made of the hash and d is the private
  key. The random number that blinds the inversion cancels. Both the nonce and that number are taken to be prime to N, as
  numbers below a prime order are. Without a random number generator the only failures are a nonce out of range and an x coordinate
  that is zero. The witness follows the code to a signature with the base point of Uecc_Short, whose multiples repeat after five: the
  call succeeds, the first half is 17, and the second half solves the equation.\<close>

theorem sign_with_nonce:
  fixes g_rng_function :: "'s rng option"
  assumes "base \<in> nist_curves" and "curve = base\<lparr>curve_G := G\<rparr>"
    and "n = curve_num_words curve" and "num_bytes = curve_num_bytes curve" and "N = vn n (curve_n curve)"
    and "2 * n \<le> length G" and "vn n G < field_order base" and "vn n (drop n G) < field_order base"
    and "num_bytes \<le> length private_key" and "2 * num_bytes \<le> length signature" and "hash_size \<le> length message_hash" and "length k = 4"
    and "0 < vn n k \<Longrightarrow> vn n k < N \<Longrightarrow> coprime (vn n k) N" and "\<And>t. g_rng_function \<noteq> None \<Longrightarrow> 0 < t \<Longrightarrow> t < N \<Longrightarrow> coprime t N"
  shows "\<exists>ok k' sig st'. uECC_sign_with_k g_rng_function st private_key message_hash hash_size k signature curve = Some (ok, k', sig, st')
    \<and> length sig = length signature
    \<and> (g_rng_function = None \<and> 0 < vn n k \<and> vn n k < N \<and> (\<exists>P. signing_point k curve = Some P \<and> 0 < vn n P) \<longrightarrow> ok = 1)
    \<and> (ok \<noteq> 0 \<longrightarrow> 0 < vn n k \<and> vn n k < N \<and> (\<exists>P. signing_point k curve = Some P \<and> 0 < vn n P \<and> be_nat (take num_bytes sig) = vn n P
        \<and> (\<exists>s<N. be_nat (take num_bytes (drop num_bytes sig)) = s
          \<and> s * vn n k mod N = (hash_value message_hash hash_size (curve_num_n_bits curve) N + vn n P * be_nat (take num_bytes private_key)) mod N)))"
proof -
  have b: "n = curve_num_words base" "N = vn n (curve_n base)" "num_bytes = curve_num_bytes base" using assms(2-5) by simp_all
  have F: "fast_field curve n (field_order base)"
    unfolding assms(2) using nist_fast_field [OF assms(1)] b(1) by (intro fast_field_base_point) simp
  have o: "BITS_TO_WORDS (curve_num_n_bits curve) = n" "n \<le> length (curve_n curve)" "odd N" "1 < N" "64 * (n - 1) < uECC_vli_numBits (curve_n curve) n"
    using nist_order [OF assms(1) b(1,2)] assms(2) by simp_all
  have z: "BITS_TO_BYTES (curve_num_n_bits curve) = num_bytes" "N \<le> 2 ^ (8 * num_bytes)" "field_order base \<le> 2 ^ (8 * num_bytes)"
    using nist_sizes [OF assms(1) b(1,2)] assms(2) b(3) by simp_all
  have nb: "(num_bytes + 7) div 8 = n" using nist_bytes [OF assms(1)] b(1,3) by simp
  have lk: "n \<le> length k" "n \<le> 4" using fast_field.words(3) [OF F] assms(12) by simp_all
  obtain P where P: "signing_point k curve = Some P" "length P = 8" "vn n P < field_order base"
    using nist_signing_point [OF assms(1-3,6-8)] by blast
  have lP: "n \<le> length P" using P(2) lk by simp
  consider "vn n k = 0 \<or> N \<le> vn n k" | "0 < vn n k" "vn n k < N" "vn n P = 0" | "0 < vn n k" "vn n k < N" "0 < vn n P"
    by fastforce
  then show ?thesis
  proof cases
    case 1
    then have e: "uECC_sign_with_k g_rng_function st private_key message_hash hash_size k signature curve = Some (0, k, signature, st)"
      by (intro sign_nonce_out_of_range [OF assms(3) lk(2) o(1,2) lk(1)]) (simp add: assms(5))
    show ?thesis by (rule exI [of _ 0], rule exI [of _ k], rule exI [of _ signature], rule exI [of _ st]) (use 1 in \<open>auto simp: e\<close>)
  next
    case 2
    have "uECC_vli_isZero k n = 0" "uECC_vli_cmp (curve_n curve) k n = 1"
      using 2 vli_isZero_eq [OF lk(1)] vli_cmp_eq [OF lk(2) o(2) lk(1)] assms(5) by simp_all
    then have e: "uECC_sign_with_k g_rng_function st private_key message_hash hash_size k signature curve = Some (0, k, signature, st)"
      by (intro sign_point_zero [OF assms(3) o(1) _ _ P(1) lP 2(3)])
    show ?thesis
      by (rule exI [of _ 0], rule exI [of _ k], rule exI [of _ signature], rule exI [of _ st]) (use 2 in \<open>simp add: e P(1)\<close>)
  next
    case 3
    have c: "coprime (vn n k) N" using assms(13) 3 by blast
    show ?thesis
      using fast_field.sign_with_k_point [OF F refl o(1) z(1) nb assms(4,5) o(2-5) z(2,3) assms(14) assms(9-12) 3(1,2) c P(1,2) refl 3(3) P(3),
          where st = st] P(1) 3 by blast
  qed
qed

text \<open>The signature of the witness: its nonce, the point of its ladder and the two halves.\<close>

lemma short_order:
  "vn 3 (curve_n curve_secp192r1) = 0xffffffffffffffffffffffff99def836146bc9b1b4d22831" "vn 3 short_nonce = 0xaaaaaaaaaaaaaaaaaaaaaaab10cbb274963ee0f8f5d88279"
  "length (curve_n curve_secp192r1) = 4"
  by (simp_all add: nist_order_bits short_nonce_def)

lemma short_nonce_coprime: "coprime (vn 3 short_nonce) (vn 3 (curve_n short_curve))"
proof -
  have "coprime (int (vn 3 short_nonce)) (int (vn 3 (curve_n curve_secp192r1)))"
    by (rule coprimeI_quotient [where u = "0x2676c03fae03c9d247d9c456b4486e72193879e1c96c1ee1" and q = "0x19a4802a7402868c2fe682e491c36ac24c89292b6ea2c1d8"], unfold short_order, simp)
  then show ?thesis by (simp add: short_curve_def)
qed

lemma short_curve_field: "fast_field short_curve 3 (field_order curve_secp192r1)"
  unfolding short_curve_def by (intro fast_field_base_point) (use fast_field_secp192r1 p192.field_order in simp)

lemma short_regular: "regular (vn 3 (curve_n short_curve)) 192 (vn 3 short_nonce) = short_scalar 96"
  by (simp add: regular_def short_curve_def short_order short_scalar_96)

lemma short_base_rep: "point_rep short_curve short_base (short_multiples 1)"
  by (simp add: point_rep_def res_def short_curve_def short_base_def short_values p192.words(1) [symmetric] p192.field_order [unfolded field_order_def p192.words(1) [symmetric]])

lemma short_signing_point: "\<exists>P. signing_point short_nonce short_curve = Some P \<and> vn 3 P = 17"
proof -
  obtain carry k0 k1 where r: "regularize_k short_nonce (replicate 4 0) (replicate 4 0) short_curve = (carry, k0, k1)" by (metis surj_pair)
  have b: "curve_num_n_bits short_curve = 192" "curve_double_jacobian short_curve = double_jacobian_default_fn" "curve_G short_curve = short_base"
    by (simp_all add: short_curve_def curve_secp192r1_def)
  have w: "BITS_TO_WORDS 192 = 3" by (simp add: BITS_TO_WORDS_def)
  have N: "3 \<le> length (curve_n short_curve)" "2 ^ (192 - 1) \<le> vn 3 (curve_n short_curve)" "vn 3 (curve_n short_curve) < 2 ^ 192"
    "vn 3 short_nonce < vn 3 (curve_n short_curve)"
    by (simp_all add: short_curve_def short_order)
  have "\<exists>P. EccPoint_mult (replicate 8 0) (curve_G short_curve) (if carry = 0 then k1 else k0) None (192 + 1) short_curve = Some P
    \<and> length P = 8 \<and> point_rep short_curve P (short_multiples (int (regular (vn 3 (curve_n short_curve)) 192 (vn 3 short_nonce))))"
  proof (rule fast_field.sign_nonce [OF short_curve_field b(2) w b(1) [symmetric] _ refl N(1-3) _ _ N(4) _ r])
    show "point_rep short_curve (curve_G short_curve) (short_multiples 1)" by (simp only: b(3) short_base_rep)
    show "multiples (field_order curve_secp192r1) short_multiples (regular (vn 3 (curve_n short_curve)) 192 (vn 3 short_nonce)) (192 + 1)"
      using short_multiples_ladder by (simp add: short_regular)
  qed (simp_all add: short_nonce_def)
  then obtain P where P: "EccPoint_mult (replicate 8 0) (curve_G short_curve) (if carry = 0 then k1 else k0) None (192 + 1) short_curve = Some P"
    "point_rep short_curve P (short_multiples (int (short_scalar 96)))"
    by (auto simp: short_regular)
  have "int (short_scalar 96) mod 5 = 1" using short_scalar_mod [of 96] by (simp flip: zmod_int [of _ 5, simplified])
  then have "short_multiples (int (short_scalar 96)) = short_multiples 1" using short_mod [of "int (short_scalar 96)"] by simp
  then have "vn 3 P = 17"
    using P(2) by (simp add: point_rep_def res_def short_values short_curve_def p192.words(1) [symmetric] p192.field_order [unfolded field_order_def p192.words(1) [symmetric]])
  then show ?thesis using P(1) by (simp add: signing_point_def r b(1))
qed

theorem sign_with_nonce_witness:
  "\<exists>k' sig. uECC_sign_with_k (None :: unit rng option) () (replicate 24 2) (replicate 32 3) 32 short_nonce (replicate 48 0) short_curve
      = Some (1, k', sig, ())
    \<and> length sig = 48 \<and> be_nat (take 24 sig) = 17
    \<and> be_nat (take 24 (drop 24 sig)) < vn 3 (curve_n curve_secp192r1)
    \<and> be_nat (take 24 (drop 24 sig)) * vn 3 short_nonce mod vn 3 (curve_n curve_secp192r1)
      = (hash_value (replicate 32 3) 32 192 (vn 3 (curve_n curve_secp192r1)) + 17 * be_nat (replicate 24 2)) mod vn 3 (curve_n curve_secp192r1)"
proof -
  have b: "3 = curve_num_words short_curve" "24 = curve_num_bytes short_curve" "curve_num_n_bits short_curve = 192"
    "vn 3 (curve_n curve_secp192r1) = vn 3 (curve_n short_curve)"
    by (simp_all add: short_curve_def curve_secp192r1_def)
  have G: "vn 3 short_base < field_order curve_secp192r1" "vn 3 (drop 3 short_base) < field_order curve_secp192r1"
    by (simp_all add: short_base_def p192.field_order)
  have k: "0 < vn 3 short_nonce" "vn 3 short_nonce < vn 3 (curve_n curve_secp192r1)" by (simp_all add: short_order)
  obtain P where P: "signing_point short_nonce short_curve = Some P" "vn 3 P = 17" using short_signing_point by blast
  have "curve_secp192r1 \<in> nist_curves" "coprime (vn 3 short_nonce) (vn 3 (curve_n curve_secp192r1))" using short_nonce_coprime by (simp_all add: nist_curves_def b(4))
  from sign_with_nonce [OF this(1) short_curve_def b(1,2,4) _ G,
      of "replicate 24 2" "replicate 48 0" 32 "replicate 32 3" short_nonce "None :: unit rng option" "()"]
    this(2) k P b(3)
  show ?thesis by (auto simp: short_base_def short_nonce_def)
qed

end
