(* ===== verification/Uecc_Deterministic.thy ===== *)
theory Uecc_Deterministic
  imports Uecc_Ecdsa Blake2b
begin

text \<open>
  Deterministic signatures of micro-ecc (\<^verbatim>\<open>uECC_sign_deterministic\<close> and its HMAC, \<^verbatim>\<open>uECC.c\<close>). The hash function is the client's: the
  record has the three function pointers and the two sizes of \<^verbatim>\<open>uECC_HashContext\<close>; the hash-specific data that follow the
  structure in the client's memory are a state \<open>c\<close>, and the scratch area \<^verbatim>\<open>tmp\<close>, with the layout K, V, padded block, is a byte list.
  What the code relies on is the locale \<open>hash_function\<close>; the BLAKE2b code of this repository provides it.
\<close>

section \<open>The code\<close>

record 'c uECC_HashContext =
  init_hash :: "'c \<Rightarrow> 'c"
  update_hash :: "'c \<Rightarrow> bytes \<Rightarrow> nat \<Rightarrow> 'c"
  finish_hash :: "'c \<Rightarrow> bytes \<Rightarrow> 'c \<times> bytes"
  block_size :: nat
  result_size :: nat

definition HMAC_pad :: "'c uECC_HashContext \<Rightarrow> u8 \<Rightarrow> bytes \<Rightarrow> bytes" where
  "HMAC_pad ctx x tmp =
     (let tmp = for_range 0 (result_size ctx) (\<lambda>i tmp. tmp[2 * result_size ctx + i := tmp ! i XOR x]) tmp
      in for_range (result_size ctx) (block_size ctx) (\<lambda>i tmp. tmp[2 * result_size ctx + i := x]) tmp)"

definition HMAC_init :: "'c uECC_HashContext \<Rightarrow> 'c \<times> bytes \<Rightarrow> 'c \<times> bytes" where
  "HMAC_init ctx = (\<lambda>(c, tmp).
     let tmp = HMAC_pad ctx 0x36 tmp;
         c = init_hash ctx c;
         c = update_hash ctx c (drop (2 * result_size ctx) tmp) (block_size ctx)
     in (c, tmp))"

definition HMAC_update :: "'c uECC_HashContext \<Rightarrow> 'c \<times> bytes \<Rightarrow> bytes \<Rightarrow> nat \<Rightarrow> 'c \<times> bytes" where
  "HMAC_update ctx = (\<lambda>(c, tmp) message message_size. (update_hash ctx c message message_size, tmp))"

text \<open>The result goes to the scratch area at the offset \<open>off\<close> (0 for K, \<open>result_size\<close> for V); the key is K.\<close>

definition HMAC_finish :: "'c uECC_HashContext \<Rightarrow> 'c \<times> bytes \<Rightarrow> nat \<Rightarrow> 'c \<times> bytes" where
  "HMAC_finish ctx = (\<lambda>(c, tmp) off.
     let tmp = HMAC_pad ctx 0x5c tmp;
         (tmp, c) = at_off_with off (\<lambda>r. let (c, r) = finish_hash ctx c r in (r, c)) tmp;
         c = init_hash ctx c;
         c = update_hash ctx c (drop (2 * result_size ctx) tmp) (block_size ctx);
         c = update_hash ctx c (drop off tmp) (result_size ctx);
         (tmp, c) = at_off_with off (\<lambda>r. let (c, r) = finish_hash ctx c r in (r, c)) tmp
     in (c, tmp))"

definition update_V :: "'c uECC_HashContext \<Rightarrow> 'c \<times> bytes \<Rightarrow> 'c \<times> bytes" where
  "update_V ctx s =
     (let s = HMAC_init ctx s;
          s = HMAC_update ctx s (drop (result_size ctx) (snd s)) (result_size ctx)
      in HMAC_finish ctx s (result_size ctx))"

text \<open>
  A new K from V, one byte and what is to be bound to it, then a new V: the block that \<^verbatim>\<open>uECC_sign_deterministic\<close> has three times, twice
  with the private key and the hash and once, after a nonce was refused, without them.
\<close>

definition renew_K :: "'c uECC_HashContext \<Rightarrow> u8 \<Rightarrow> (bytes \<times> nat) list \<Rightarrow> 'c \<times> bytes \<Rightarrow> 'c \<times> bytes" where
  "renew_K ctx byte messages s =
     (let (c, tmp) = HMAC_init ctx s;
          tmp = tmp[2 * result_size ctx := byte];
          s = HMAC_update ctx (c, tmp) (drop (result_size ctx) tmp) (result_size ctx + 1);
          s = foldl (\<lambda>s (message, message_size). HMAC_update ctx s message message_size) s messages;
          s = HMAC_finish ctx s 0
      in update_V ctx s)"

text \<open>The endless loop that fills \<^verbatim>\<open>T\<close> with successive values of V; the inner loop copies byte by byte and leaves when \<^verbatim>\<open>T\<close> is full.\<close>

fun copy_V :: "nat \<Rightarrow> nat \<Rightarrow> bytes \<Rightarrow> bytes \<Rightarrow> nat \<Rightarrow> nat \<Rightarrow> bool \<times> bytes \<times> nat" where
  "copy_V 0 i V T T_bytes limit = (False, T, T_bytes)"
| "copy_V (Suc left) i V T T_bytes limit =
     (let T = T[T_bytes := V ! i];
          T_bytes = T_bytes + 1
      in if T_bytes \<ge> limit then (True, T, T_bytes) else copy_V left (i + 1) V T T_bytes limit)"

partial_function (option) fill_T :: "'c uECC_HashContext \<Rightarrow> nat \<Rightarrow> 'c \<times> bytes \<Rightarrow> bytes \<Rightarrow> nat \<Rightarrow> (('c \<times> bytes) \<times> bytes) option" where
  "fill_T ctx limit s T T_bytes =
     (let s = update_V ctx s;
          (filled, T, T_bytes) = copy_V (result_size ctx) 0 (drop (result_size ctx) (snd s)) T T_bytes limit
      in if filled then Some (s, T) else fill_T ctx limit s T T_bytes)"

fun deterministic_loop :: "nat \<Rightarrow> 's rng option \<Rightarrow> 's \<Rightarrow> 'c uECC_HashContext \<Rightarrow> 'c \<times> bytes \<Rightarrow> bytes \<Rightarrow> bytes \<Rightarrow> nat \<Rightarrow> bytes \<Rightarrow> uECC_Curve
    \<Rightarrow> (int \<times> bytes \<times> 's \<times> 'c \<times> bytes) option" where
  "deterministic_loop 0 g_rng_function st ctx s private_key message_hash hash_size signature curve = Some (0, signature, st, s)"
| "deterministic_loop (Suc tries) g_rng_function st ctx s private_key message_hash hash_size signature curve =
     (let num_n_words = BITS_TO_WORDS (curve_num_n_bits curve);
          num_n_bits = curve_num_n_bits curve
      in case fill_T ctx (num_n_words * 8) s (replicate 32 0) 0 of
           None \<Rightarrow> None
         | Some (s, T_ptr) \<Rightarrow>
             let T = random_words (replicate 4 0) T_ptr num_n_words;
                 T = (if num_n_words * 8 * 8 > num_n_bits
                      then T[num_n_words - 1 := T ! (num_n_words - 1) AND drop_bit (num_n_words * 8 * 8 - num_n_bits) (- 1)] else T)
             in case uECC_sign_with_k g_rng_function st private_key message_hash hash_size T signature curve of
                  None \<Rightarrow> None
                | Some (ok, T, signature, st) \<Rightarrow>
                    if ok \<noteq> 0 then Some (1, signature, st, s)
                    else deterministic_loop tries g_rng_function st ctx (renew_K ctx 0 [] s) private_key message_hash hash_size signature curve)"

definition deterministic_start :: "'c uECC_HashContext \<Rightarrow> 'c \<times> bytes \<Rightarrow> bytes \<Rightarrow> bytes \<Rightarrow> nat \<Rightarrow> uECC_Curve \<Rightarrow> 'c \<times> bytes" where
  "deterministic_start ctx = (\<lambda>(c, tmp) private_key message_hash hash_size curve.
     let tmp = for_range 0 (result_size ctx) (\<lambda>i tmp. tmp[result_size ctx + i := 1, i := 0]) tmp;
         s = renew_K ctx 0 [(private_key, curve_num_bytes curve), (message_hash, hash_size)] (c, tmp)
     in renew_K ctx 1 [(private_key, curve_num_bytes curve), (message_hash, hash_size)] s)"

definition uECC_sign_deterministic :: "'s rng option \<Rightarrow> 's \<Rightarrow> bytes \<Rightarrow> bytes \<Rightarrow> nat \<Rightarrow> 'c uECC_HashContext \<Rightarrow> 'c \<times> bytes \<Rightarrow> bytes \<Rightarrow> uECC_Curve
    \<Rightarrow> (int \<times> bytes \<times> 's \<times> 'c \<times> bytes) option" where
  "uECC_sign_deterministic g_rng_function st private_key message_hash hash_size ctx s signature curve =
     (let s = deterministic_start ctx s private_key message_hash hash_size curve
      in deterministic_loop uECC_RNG_MAX_TRIES g_rng_function st ctx s private_key message_hash hash_size signature curve)"

section \<open>The contract of the hash function\<close>

locale hash_function =
  fixes ctx :: "'c uECC_HashContext" and H :: "bytes \<Rightarrow> bytes" and absorbs :: "bytes \<Rightarrow> 'c \<Rightarrow> bool"
  assumes init: "absorbs [] (init_hash ctx c)"
    and update: "absorbs d c \<Longrightarrow> m < 2 ^ 32 \<Longrightarrow> m \<le> length message \<Longrightarrow> absorbs (d @ take m message) (update_hash ctx c message m)"
    and finish: "absorbs d c \<Longrightarrow> result_size ctx \<le> length r \<Longrightarrow> snd (finish_hash ctx c r) = H d @ drop (result_size ctx) r"
    and digest: "length (H d) = result_size ctx"
    and sizes: "0 < result_size ctx" "result_size ctx \<le> block_size ctx" "block_size ctx < 2 ^ 32"

definition mac_key :: "u8 \<Rightarrow> nat \<Rightarrow> bytes \<Rightarrow> bytes" where
  "mac_key x block K = map (\<lambda>b. b XOR x) (K @ replicate (block - length K) 0)"

definition mac :: "(bytes \<Rightarrow> bytes) \<Rightarrow> nat \<Rightarrow> bytes \<Rightarrow> bytes \<Rightarrow> bytes" where
  "mac H block K m = H (mac_key 0x5c block K @ H (mac_key 0x36 block K @ m))"

text \<open>The values of V that follow one another under a key, and the setup of RFC 6979.\<close>

fun chain_V :: "(bytes \<Rightarrow> bytes) \<Rightarrow> nat \<Rightarrow> bytes \<Rightarrow> nat \<Rightarrow> bytes \<Rightarrow> bytes" where
  "chain_V H block K 0 V = V"
| "chain_V H block K (Suc j) V = chain_V H block K j (mac H block K V)"

definition renewed :: "(bytes \<Rightarrow> bytes) \<Rightarrow> nat \<Rightarrow> u8 \<Rightarrow> bytes \<Rightarrow> bytes \<times> bytes \<Rightarrow> bytes \<times> bytes" where
  "renewed H block byte m = (\<lambda>(K, V). let K = mac H block K (V @ [byte] @ m) in (K, mac H block K V))"

definition nonce_start :: "(bytes \<Rightarrow> bytes) \<Rightarrow> nat \<Rightarrow> nat \<Rightarrow> bytes \<Rightarrow> bytes \<times> bytes" where
  "nonce_start H block n m = renewed H block 1 m (renewed H block 0 m (replicate n 0, replicate n 1))"

definition nonce_bytes :: "(bytes \<Rightarrow> bytes) \<Rightarrow> nat \<Rightarrow> bytes \<times> bytes \<Rightarrow> nat \<Rightarrow> bytes" where
  "nonce_bytes H block = (\<lambda>(K, V) n. take n (concat (map (\<lambda>j. chain_V H block K (Suc j) V) [0..<n])))"

lemma take_concat_prefix:
  assumes "\<And>j. f j \<noteq> []" "n \<le> m"
  shows "take n (concat (map f [0..<m])) = take n (concat (map f [0..<n]))"
proof -
  have *: "k \<le> length (concat (map f [0..<k]))" for k
  proof (induction k)
    case (Suc k)
    have "1 \<le> length (f k)" using assms(1) [of k] by (cases "f k") simp_all
    then show ?case using Suc by simp
  qed simp
  obtain k where "m = n + k" using assms(2) le_iff_add by blast
  then have "map f [0..<m] = map f [0..<n] @ map f [n..<n + k]" by (simp only: upt_add_eq_append [OF le0] map_append)
  then show ?thesis using * [of n] by simp
qed

lemma for_range_prefix:
  assumes "j + n \<le> length out" "n \<le> j"
  shows "for_range 0 n (\<lambda>i o'. o'[j + i := f (o' ! i)]) out = take j out @ map f (take n out) @ drop (j + n) out"
  using assms
proof (induction n)
  case (Suc n)
  then have IH: "for_range 0 n (\<lambda>i o'. o'[j + i := f (o' ! i)]) out = take j out @ map f (take n out) @ drop (j + n) out" by simp
  have d: "drop (j + n) out = out ! (j + n) # drop (j + Suc n) out" using Suc.prems by (simp add: Cons_nth_drop_Suc)
  show ?case
    using Suc.prems by (simp add: for_range_last IH nth_append list_update_append d take_Suc_conv_app_nth)
qed simp

lemma for_range_fill:
  assumes "j + b \<le> length out" "a \<le> b"
  shows "for_range a b (\<lambda>i o'. o'[j + i := x]) out = take (j + a) out @ replicate (b - a) x @ drop (j + b) out"
  using assms(2,1)
proof (induction b rule: dec_induct)
  case (step b)
  then have IH: "for_range a b (\<lambda>i o'. o'[j + i := x]) out = take (j + a) out @ replicate (b - a) x @ drop (j + b) out" by simp
  have d: "drop (j + b) out = out ! (j + b) # drop (j + Suc b) out" using step.prems by (simp add: Cons_nth_drop_Suc)
  have "Suc b - a = Suc (b - a)" using step.hyps by simp
  then show ?case
    using step by (simp add: for_range_last IH list_update_append d replicate_append_same)
qed simp

context hash_function
begin

abbreviation "rs \<equiv> result_size ctx"
abbreviation "bs \<equiv> block_size ctx"

lemma HMAC_pad_eq:
  assumes "length K = rs" "length V = rs" "bs \<le> length P"
  shows "HMAC_pad ctx x (K @ V @ P) = K @ V @ mac_key x bs K @ drop bs P"
proof -
  have 1: "for_range 0 rs (\<lambda>i tmp. tmp[2 * rs + i := tmp ! i XOR x]) (K @ V @ P) = K @ V @ map (\<lambda>b. b XOR x) K @ drop rs P"
    using for_range_prefix [of "2 * rs" rs "K @ V @ P" "\<lambda>b. b XOR x"] assms sizes(2) by simp
  have "for_range rs bs (\<lambda>i tmp. tmp[2 * rs + i := x]) (K @ V @ map (\<lambda>b. b XOR x) K @ drop rs P)
      = K @ V @ map (\<lambda>b. b XOR x) K @ replicate (bs - rs) x @ drop bs P"
    using for_range_fill [of "2 * rs" bs "K @ V @ map (\<lambda>b. b XOR x) K @ drop rs P" rs x] assms sizes(2) by simp
  then show ?thesis by (simp add: HMAC_pad_def Let_def 1 mac_key_def assms(1) map_replicate_const)
qed

lemma length_mac_key: "length K = rs \<Longrightarrow> length (mac_key x bs K) = bs"
  using sizes(2) by (simp add: mac_key_def)

lemma length_mac: "length (mac H bs K m) = rs"
  by (simp add: mac_def digest)

lemma HMAC_init_eq:
  assumes "length K = rs" "length V = rs" "bs \<le> length P" "HMAC_init ctx (c, K @ V @ P) = (c', tmp)"
  shows "tmp = K @ V @ mac_key 0x36 bs K @ drop bs P" "absorbs (mac_key 0x36 bs K) c'"
proof -
  show "tmp = K @ V @ mac_key 0x36 bs K @ drop bs P" using assms(4) by (simp add: HMAC_init_def HMAC_pad_eq [OF assms(1-3)] Let_def)
  have "c' = update_hash ctx (init_hash ctx c) (mac_key 0x36 bs K @ drop bs P) bs"
    using assms by (simp add: HMAC_init_def HMAC_pad_eq [OF assms(1-3)] Let_def)
  then show "absorbs (mac_key 0x36 bs K) c'"
    using update [OF init sizes(3), of "mac_key 0x36 bs K @ drop bs P" c] length_mac_key [OF assms(1)] by simp
qed

lemma HMAC_finish_eq:
  assumes l: "length K = rs" "length V = rs" "bs \<le> length P" and a: "absorbs (mac_key 0x36 bs K @ m) c"
    and f: "HMAC_finish ctx (c, K @ V @ P) off = (c', tmp)" and off: "off = 0 \<or> off = rs"
  shows "\<exists>P'. length P' = length P \<and> tmp = (if off = 0 then mac H bs K m @ V @ P' else K @ mac H bs K m @ P')"
proof -
  define P' where "P' = mac_key 0x5c bs K @ drop bs P"
  have P': "length P' = length P" "take bs P' = mac_key 0x5c bs K" "bs \<le> length P'" using l length_mac_key [OF l(1)] by (simp_all add: P'_def)
  have pad: "HMAC_pad ctx 0x5c (K @ V @ P) = K @ V @ P'" by (simp add: HMAC_pad_eq [OF l] P'_def)
  define put where "put = (\<lambda>h. if off = 0 then h @ V @ P' else K @ h @ P')"
  have lo: "rs \<le> length (drop off (K @ V @ P'))" using off l by auto
  obtain c1 r1 where f1: "finish_hash ctx c (drop off (K @ V @ P')) = (c1, r1)" by fastforce
  define h1 where "h1 = H (mac_key 0x36 bs K @ m)"
  have "r1 = h1 @ drop rs (drop off (K @ V @ P'))" using finish [OF a lo] f1 by (simp add: h1_def)
  then have t1: "at_off_with off (\<lambda>r. let (c, r) = finish_hash ctx c r in (r, c)) (K @ V @ P') = (put h1, c1)"
    using off l f1 by (auto simp: at_off_with_def put_def)
  have lh: "length h1 = rs" by (simp add: h1_def digest)
  define c2 where "c2 = update_hash ctx (init_hash ctx c1) (drop (2 * rs) (put h1)) bs"
  define c3 where "c3 = update_hash ctx c2 (drop off (put h1)) rs"
  have d: "drop (2 * rs) (put h1) = P'" using l lh by (simp add: put_def)
  have "absorbs (mac_key 0x5c bs K) c2"
    using update [OF init sizes(3), of P' c1] P' unfolding c2_def d by simp
  moreover have "take rs (drop off (put h1)) = h1" "rs \<le> length (drop off (put h1))" using off l lh by (auto simp: put_def)
  moreover have "rs < 2 ^ 32" using sizes by simp
  ultimately have a3: "absorbs (mac_key 0x5c bs K @ h1) c3" using update [of "mac_key 0x5c bs K" c2 rs "drop off (put h1)"] by (simp add: c3_def)
  obtain c4 r4 where f4: "finish_hash ctx c3 (drop off (put h1)) = (c4, r4)" by fastforce
  have "r4 = mac H bs K m @ drop rs (drop off (put h1))"
    using finish [OF a3 \<open>rs \<le> length (drop off (put h1))\<close>] f4 by (simp add: mac_def h1_def)
  then have t4: "at_off_with off (\<lambda>r. let (c, r) = finish_hash ctx c3 r in (r, c)) (put h1) = (put (mac H bs K m), c4)"
    using off l lh f4 by (auto simp: at_off_with_def put_def)
  have "tmp = put (mac H bs K m)"
    using f unfolding HMAC_finish_def prod.case Let_def pad t1 [unfolded Let_def] c2_def [symmetric] c3_def [symmetric] t4 [unfolded Let_def] by simp
  then show ?thesis using P'(1) unfolding put_def by blast
qed

lemma update_V_eq:
  assumes l: "length K = rs" "length V = rs" "bs \<le> length P"
  shows "\<exists>c' P'. length P' = length P \<and> update_V ctx (c, K @ V @ P) = (c', K @ mac H bs K V @ P')"
proof -
  obtain c1 tmp1 where i: "HMAC_init ctx (c, K @ V @ P) = (c1, tmp1)" by fastforce
  note i' = HMAC_init_eq [OF l i]
  define P1 where "P1 = mac_key 0x36 bs K @ drop bs P"
  have P1: "length P1 = length P" "tmp1 = K @ V @ P1" using i'(1) length_mac_key [OF l(1)] l(3) by (simp_all add: P1_def)
  define c2 where "c2 = update_hash ctx c1 (V @ P1) rs"
  have a: "absorbs (mac_key 0x36 bs K @ V) c2"
    using update [OF i'(2), of rs "V @ P1"] sizes l by (simp add: c2_def)
  obtain c3 tmp3 where f: "HMAC_finish ctx (c2, K @ V @ P1) rs = (c3, tmp3)" by fastforce
  have "bs \<le> length P1" using P1 l by simp
  from HMAC_finish_eq [OF l(1,2) this a f] obtain P' where "length P' = length P" "tmp3 = K @ mac H bs K V @ P'"
    using sizes(1) P1 by auto
  moreover have "update_V ctx (c, K @ V @ P) = (c3, tmp3)"
    using f l by (simp add: update_V_def i Let_def HMAC_update_def P1(2) c2_def)
  ultimately show ?thesis by blast
qed

lemma HMAC_updates:
  assumes "absorbs d c" "\<forall>(m, n) \<in> set ms. n \<le> length m \<and> n < 2 ^ 32"
  shows "\<exists>c'. foldl (\<lambda>s (message, message_size). HMAC_update ctx s message message_size) (c, tmp) ms = (c', tmp)
    \<and> absorbs (d @ concat (map (\<lambda>(m, n). take n m) ms)) c'"
  using assms
proof (induction ms arbitrary: d c)
  case (Cons p ms)
  obtain m n where p: "p = (m, n)" by fastforce
  have "absorbs (d @ take n m) (update_hash ctx c m n)" using update [OF Cons.prems(1), of n m] Cons.prems(2) by (simp add: p)
  from Cons.IH [OF this] Cons.prems(2) show ?case by (simp add: p HMAC_update_def)
qed simp

lemma renew_K_eq:
  fixes byte :: u8
  assumes l: "length K = rs" "length V = rs" "bs \<le> length P" "rs + 1 < 2 ^ 32"
    and ms: "\<forall>(m, n) \<in> set ms. n \<le> length m \<and> n < 2 ^ 32"
  defines "K' \<equiv> mac H bs K (V @ [byte] @ concat (map (\<lambda>(m, n). take n m) ms))"
  shows "\<exists>c' P'. length P' = length P \<and> renew_K ctx byte ms (c, K @ V @ P) = (c', K' @ mac H bs K' V @ P')"
proof -
  obtain c1 tmp1 where i: "HMAC_init ctx (c, K @ V @ P) = (c1, tmp1)" by fastforce
  note i' = HMAC_init_eq [OF l(1-3) i]
  define P1 where "P1 = (mac_key 0x36 bs K @ drop bs P)[0 := byte]"
  have P1: "length P1 = length P" "tmp1[2 * rs := byte] = K @ V @ P1" "0 < length P1"
    using i'(1) length_mac_key [OF l(1)] l sizes by (auto simp: P1_def list_update_append)
  have lP1: "bs \<le> length P1" using P1 l by simp
  have "P1 ! 0 = byte" using P1(3) by (simp add: P1_def)
  then obtain P2 where P2: "P1 = byte # P2" using P1(3) by (cases P1) auto
  define c2 where "c2 = update_hash ctx c1 (V @ P1) (rs + 1)"
  have a2: "absorbs (mac_key 0x36 bs K @ V @ [byte]) c2"
    using update [OF i'(2), of "rs + 1" "V @ P1"] l by (simp add: c2_def P2)
  obtain c3 where c3: "foldl (\<lambda>s (message, message_size). HMAC_update ctx s message message_size) (c2, K @ V @ P1) ms = (c3, K @ V @ P1)"
    "absorbs (mac_key 0x36 bs K @ V @ [byte] @ concat (map (\<lambda>(m, n). take n m) ms)) c3"
    using HMAC_updates [OF a2 ms, of "K @ V @ P1"] by auto
  obtain c4 tmp4 where f: "HMAC_finish ctx (c3, K @ V @ P1) 0 = (c4, tmp4)" by fastforce
  from HMAC_finish_eq [OF l(1,2) lP1 c3(2) f] obtain P3 where P3: "length P3 = length P" "tmp4 = K' @ V @ P3"
    using P1 by (auto simp: K'_def)
  have "bs \<le> length P3" using P3 l by simp
  from update_V_eq [OF _ l(2) this, of K' c4] obtain c5 P5 where
    "length P5 = length P" "update_V ctx (c4, K' @ V @ P3) = (c5, K' @ mac H bs K' V @ P5)"
    using P3(1) by (auto simp: K'_def length_mac)
  moreover have "renew_K ctx byte ms (c, K @ V @ P) = update_V ctx (c4, tmp4)"
  proof -
    have u: "HMAC_update ctx (c1, K @ V @ P1) (drop rs (K @ V @ P1)) (rs + 1) = (c2, K @ V @ P1)"
      using l by (simp add: HMAC_update_def c2_def)
    show ?thesis unfolding renew_K_def i Let_def prod.case P1(2) u c3(1) f ..
  qed
  ultimately show ?thesis by (auto simp: P3(2))
qed

lemma length_chain: "length V = rs \<Longrightarrow> length (chain_V H bs K j V) = rs"
  by (induction j arbitrary: V) (simp_all add: length_mac)

lemma chain_prefix:
  assumes "length V = rs" "n \<le> a" "n \<le> b"
  shows "take n (concat (map (\<lambda>j. chain_V H bs K (Suc j) V) [0..<a])) = take n (concat (map (\<lambda>j. chain_V H bs K (Suc j) V) [0..<b]))"
proof -
  have "chain_V H bs K (Suc j) V \<noteq> []" for j
    using length_chain [OF assms(1), of K "Suc j"] sizes(1) by (metis less_numeral_extra(3) list.size(3))
  from take_concat_prefix [OF this assms(2)] take_concat_prefix [OF this assms(3)] show ?thesis by simp
qed

lemma length_nonce: "length V = rs \<Longrightarrow> length (nonce_bytes H bs (K, V) n) = n"
proof -
  assume V: "length V = rs"
  have "n \<le> length (concat (map (\<lambda>j. chain_V H bs K (Suc j) V) [0..<n]))"
  proof (induction n)
    case (Suc n)
    then show ?case using sizes(1) length_chain [OF V, of K "Suc n"] by simp
  qed simp
  then show ?thesis by (simp add: nonce_bytes_def)
qed

lemma copy_V_eq:
  assumes "limit \<le> length T" "t < limit" "i + left \<le> length V"
  shows "copy_V left i V T t limit =
    (if limit \<le> t + left then (True, take t T @ take (limit - t) (drop i V) @ drop limit T, limit)
     else (False, take t T @ take left (drop i V) @ drop (t + left) T, t + left))"
  using assms
proof (induction left arbitrary: i T t)
  case 0
  then show ?case by simp
next
  case (Suc left)
  have lt: "t < length T" using Suc.prems by simp
  have c: "drop i V = V ! i # drop (Suc i) V" using Suc.prems(3) by (simp add: Cons_nth_drop_Suc)
  show ?case
  proof (cases "limit \<le> Suc t")
    case True
    then have "limit = Suc t" using Suc.prems by simp
    then show ?thesis using lt by (simp add: c upd_conv_take_nth_drop)
  next
    case False
    have "copy_V (Suc left) i V T t limit = copy_V left (Suc i) V (T[t := V ! i]) (Suc t) limit" using False by simp
    also have "\<dots> = (if limit \<le> Suc t + left then (True, take (Suc t) (T[t := V ! i]) @ take (limit - Suc t) (drop (Suc i) V) @ drop limit (T[t := V ! i]), limit)
       else (False, take (Suc t) (T[t := V ! i]) @ take left (drop (Suc i) V) @ drop (Suc t + left) (T[t := V ! i]), Suc t + left))"
      by (rule Suc.IH) (use Suc.prems False in simp_all)
    also have "take (Suc t) (T[t := V ! i]) = take t T @ [V ! i]" using lt by (simp add: take_Suc_conv_app_nth)
    finally show ?thesis
      using False Suc.prems by (simp add: c take_Cons' Suc_diff_Suc [symmetric] del: Suc_diff_Suc)
  qed
qed

lemma fill_T_eq:
  assumes "length K = rs" "length V = rs" "bs \<le> length P" "limit \<le> length T" "t < limit"
  shows "\<exists>c' j P'. length P' = length P \<and> fill_T ctx limit (c, K @ V @ P) T t =
    Some ((c', K @ chain_V H bs K (Suc j) V @ P'), take t T @ nonce_bytes H bs (K, V) (limit - t) @ drop limit T)"
  using assms
proof (induction "limit - t" arbitrary: c V P T t rule: less_induct)
  case less
  obtain c1 P1 where u: "length P1 = length P" "update_V ctx (c, K @ V @ P) = (c1, K @ mac H bs K V @ P1)"
    using update_V_eq [OF less.prems(1-3)] by blast
  define V1 where "V1 = mac H bs K V"
  have V1: "length V1 = rs" by (simp add: V1_def length_mac)
  have d: "drop rs (K @ V1 @ P1) = V1 @ P1" using less.prems(1) by simp
  note cp = copy_V_eq [OF less.prems(4,5), of 0 rs "V1 @ P1", unfolded drop_0]
  have split: "take n (concat (map (\<lambda>j. chain_V H bs K (Suc j) V) [0..<n])) = take n (V1 @ concat (map (\<lambda>j. chain_V H bs K (Suc j) V1) [0..<n - 1]))"
    if "0 < n" for n
  proof -
    have u: "[0..<n] = 0 # map Suc [0..<n - 1]" using that by (cases n) (simp_all add: upt_conv_Cons map_Suc_upt del: upt_Suc)
    have "map (\<lambda>j. chain_V H bs K (Suc j) V) [0..<n] = V1 # map (\<lambda>j. chain_V H bs K (Suc j) V1) [0..<n - 1]"
      unfolding u by (simp add: V1_def)
    then show ?thesis by simp
  qed
  show ?case
  proof (cases "limit \<le> t + rs")
    case True
    then have "nonce_bytes H bs (K, V) (limit - t) = take (limit - t) V1"
      using less.prems(5) V1 split [of "limit - t"] by (simp add: nonce_bytes_def)
    moreover have "fill_T ctx limit (c, K @ V @ P) T t = Some ((c1, K @ V1 @ P1), take t T @ take (limit - t) V1 @ drop limit T)"
      using True cp V1 by (subst fill_T.simps, simp only: u(2) V1_def [symmetric] snd_conv d Let_def) simp
    ultimately show ?thesis using u(1) by (intro exI [of _ c1] exI [of _ 0] exI [of _ P1]) (simp add: V1_def)
  next
    case False
    define T1 where "T1 = take t T @ V1 @ drop (t + rs) T"
    have T1: "limit \<le> length T1" "t + rs < limit" using False less.prems(4) V1 by (simp_all add: T1_def)
    have e: "fill_T ctx limit (c, K @ V @ P) T t = fill_T ctx limit (c1, K @ V1 @ P1) T1 (t + rs)"
      using False cp V1 by (subst fill_T.simps, simp only: u(2) V1_def [symmetric] snd_conv d Let_def) (simp add: T1_def)
    have "limit - (t + rs) < limit - t" using False sizes(1) by simp
    from less.hyps [OF this less.prems(1) V1 _ T1, of P1 c1] obtain c' j P' where
      r: "length P' = length P1" "fill_T ctx limit (c1, K @ V1 @ P1) T1 (t + rs) =
        Some ((c', K @ chain_V H bs K (Suc j) V1 @ P'), take (t + rs) T1 @ nonce_bytes H bs (K, V1) (limit - (t + rs)) @ drop limit T1)"
      using u(1) less.prems(3) by auto
    have lt: "t \<le> length T" using less.prems by simp
    have "take (t + rs) T1 = take t T @ V1" "drop limit T1 = drop limit T" using V1 lt False by (simp_all add: T1_def)
    moreover have "V1 @ nonce_bytes H bs (K, V1) (limit - (t + rs)) = nonce_bytes H bs (K, V) (limit - t)"
      using False V1 split [of "limit - t"] chain_prefix [OF V1, of "limit - (t + rs)" "limit - (t + rs)" "limit - t - 1" K] sizes(1)
      by (simp add: nonce_bytes_def)
    ultimately show ?thesis
      unfolding e r(2) using r(1) u(1) by (intro exI [of _ c'] exI [of _ "Suc j"] exI [of _ P']) (simp add: V1_def [symmetric])
  qed
qed

lemma deterministic_start_eq:
  assumes l: "2 * rs + bs \<le> length tmp" "rs + 1 < 2 ^ 32"
    and m: "curve_num_bytes curve \<le> length private_key" "curve_num_bytes curve < 2 ^ 32" "hash_size \<le> length message_hash" "hash_size < 2 ^ 32"
    and kv: "(K, V) = nonce_start H bs rs (take (curve_num_bytes curve) private_key @ take hash_size message_hash)"
  shows "\<exists>c' P. bs \<le> length P \<and> length K = rs \<and> length V = rs
    \<and> deterministic_start ctx (c, tmp) private_key message_hash hash_size curve = (c', K @ V @ P)"
proof -
  define ms where "ms = [(private_key, curve_num_bytes curve), (message_hash, hash_size)]"
  define P where "P = drop (2 * rs) tmp"
  have P: "bs \<le> length P" using l by (simp add: P_def)
  have init: "for_range 0 rs (\<lambda>i tmp. tmp[rs + i := 1, i := 0]) tmp = replicate rs 0 @ replicate rs 1 @ P"
  proof -
    have "length (for_range 0 n (\<lambda>i tmp. tmp[rs + i := 1, i := 0]) tmp) = length tmp \<and> (\<forall>i<length tmp.
        for_range 0 n (\<lambda>i tmp. tmp[rs + i := 1, i := 0]) tmp ! i = (if i < n then 0 else if rs \<le> i \<and> i < rs + n then 1 else tmp ! i))"
      if "n \<le> rs" for n
      using that by (induction n) (use l in \<open>auto simp: for_range_last nth_list_update\<close>)
    from this [of rs] show ?thesis
      using l by (intro nth_equalityI) (auto simp: P_def nth_append)
  qed
  have ms': "\<forall>(m, n) \<in> set ms. n \<le> length m \<and> n < 2 ^ 32" using m by (simp add: ms_def)
  define d where "d = take (curve_num_bytes curve) private_key @ take hash_size message_hash"
  have d: "concat (map (\<lambda>(m, n). take n m) ms) = d" by (simp add: ms_def d_def)
  obtain K1 V1 where 1: "renewed H bs 0 d (replicate rs 0, replicate rs 1) = (K1, V1)" by fastforce
  have lr: "length (replicate rs (0 :: u8)) = rs" "length (replicate rs (1 :: u8)) = rs" by simp_all
  obtain c1 P1 where r1: "length P1 = length P" "renew_K ctx 0 ms (c, replicate rs 0 @ replicate rs 1 @ P) = (c1, K1 @ V1 @ P1)"
    using renew_K_eq [OF lr P l(2) ms', of 0 c] 1 by (auto simp: renewed_def Let_def d)
  have l1: "length K1 = rs" "length V1 = rs" using 1 by (auto simp: renewed_def Let_def length_mac)
  have P1: "bs \<le> length P1" using r1 P by simp
  have kv': "renewed H bs 1 d (K1, V1) = (K, V)" using kv 1 by (simp add: nonce_start_def d_def)
  obtain c2 P2 where r2: "length P2 = length P1" "renew_K ctx 1 ms (c1, K1 @ V1 @ P1) = (c2, K @ V @ P2)"
    using renew_K_eq [OF l1 P1 l(2) ms', of 1 c1] kv' by (auto simp: renewed_def Let_def d)
  have "length K = rs" "length V = rs" using kv' by (auto simp: renewed_def Let_def length_mac)
  moreover have "deterministic_start ctx (c, tmp) private_key message_hash hash_size curve = (c2, K @ V @ P2)"
    by (simp add: deterministic_start_def init ms_def [symmetric] r1(2) r2(2))
  ultimately show ?thesis using r2(1) P1 by auto
qed

end

section \<open>BLAKE2b as the hash function\<close>

definition blake2b_context :: "blake2b_state uECC_HashContext" where
  "blake2b_context =
     \<lparr>init_hash = \<lambda>c. fst (blake2b_init c 32),
      update_hash = \<lambda>c message n. fst (blake2b_update c message (word_of_nat n)),
      finish_hash = \<lambda>c r. (case blake2b_final c (Some r) 32 of (c, out, _) \<Rightarrow> (c, opt_bytes out)),
      block_size = 128, result_size = 32\<rparr>"

interpretation blake: hash_function blake2b_context "blake2b_hash 32 []" "\<lambda>d c. absorbed (blake2b_h0 32 0) d c \<and> outlen c = 32"
proof
  fix c d m r message
  show "absorbed (blake2b_h0 32 0) [] (init_hash blake2b_context c) \<and> outlen (init_hash blake2b_context c) = 32"
    using init_correct [of 32 c] by (simp add: blake2b_context_def)
  show "absorbed (blake2b_h0 32 0) (d @ take m message) (update_hash blake2b_context c message m)
      \<and> outlen (update_hash blake2b_context c message m) = 32"
    if "absorbed (blake2b_h0 32 0) d c \<and> outlen c = 32" "m < 2 ^ 32" "m \<le> length message"
  proof -
    have "unat (word_of_nat m :: u64) = m" using that(2) by (simp add: unat_of_nat)
    then show ?thesis
      using that update_correct [of "blake2b_h0 32 0" d c "word_of_nat m" message] by (simp add: blake2b_context_def update_outlen)
  qed
  show "snd (finish_hash blake2b_context c r) = blake2b_hash 32 [] d @ drop (result_size blake2b_context) r"
    if "absorbed (blake2b_h0 32 0) d c \<and> outlen c = 32" "result_size blake2b_context \<le> length r"
  proof -
    have "blake2b_hash 32 [] d = take 32 (bytes64_le (blake2b_chain (blake2b_h0 32 0) 0 d))"
      using data_append [of "[]" d] by (simp add: blake2b_hash_def) (simp add: blake2b_data_def)
    then show ?thesis
      using that final_correct [of "blake2b_h0 32 0" d c 32 r]
      by (simp add: blake2b_context_def case_prod_beta opt_bytes_def)
  qed
  show "length (blake2b_hash 32 [] d) = result_size blake2b_context" using length_hash [of 32 "[]" d] by (simp add: blake2b_context_def)
qed (simp_all add: blake2b_context_def)

text \<open>The nonce for whatever curve: the code hashes \<^verbatim>\<open>num_bytes\<close> bytes of the private key.\<close>

lemma deterministic_nonce_general:
  assumes H: "hash_function ctx H absorbs"
    and l: "2 * result_size ctx + block_size ctx \<le> length tmp" "result_size ctx + 1 < 2 ^ 32"
    and m: "curve_num_bytes curve \<le> length private_key" "curve_num_bytes curve < 2 ^ 32" "hash_size \<le> length message_hash" "hash_size < 2 ^ 32"
    and n: "0 < n" "n \<le> 32"
  shows "\<exists>c' c'' T P P' V'. 
      (let (K, V) = nonce_start H (block_size ctx) (result_size ctx) (take (curve_num_bytes curve) private_key @ take hash_size message_hash)
       in deterministic_start ctx (c, tmp) private_key message_hash hash_size curve = (c', K @ V @ P)
        \<and> fill_T ctx n (c', K @ V @ P) (replicate 32 0) 0 = Some ((c'', K @ V' @ P'), T)
        \<and> length K = result_size ctx \<and> length V = result_size ctx \<and> take n T = nonce_bytes H (block_size ctx) (K, V) n)"
proof -
  obtain K V where kv: "(K, V) = nonce_start H (block_size ctx) (result_size ctx)
      (take (curve_num_bytes curve) private_key @ take hash_size message_hash)" by (metis surj_pair)
  obtain c' P where s: "block_size ctx \<le> length P" "length K = result_size ctx" "length V = result_size ctx"
    "deterministic_start ctx (c, tmp) private_key message_hash hash_size curve = (c', K @ V @ P)"
    using hash_function.deterministic_start_eq [OF H l m kv] by blast
  have n32: "n \<le> length (replicate 32 (0 :: u8))" using n(2) by simp
  obtain c'' j P' where f: "fill_T ctx n (c', K @ V @ P) (replicate 32 0) 0 =
      Some ((c'', K @ chain_V H (block_size ctx) K (Suc j) V @ P'),
        take 0 (replicate 32 0) @ nonce_bytes H (block_size ctx) (K, V) (n - 0) @ drop n (replicate 32 0))"
    using hash_function.fill_T_eq [OF H s(2,3,1) n32 n(1)] by blast
  have "length (nonce_bytes H (block_size ctx) (K, V) n) = n"
    using hash_function.length_nonce [OF H s(3)] .
  then show ?thesis
    unfolding kv [symmetric] Let_def prod.case using s f by fastforce
qed

lemma private_key_hashed:
  assumes "curve \<in> {curve_secp160r1, curve_secp192r1, curve_secp224r1, curve_secp256r1, curve_secp256k1}"
    and "length private_key = uECC_curve_private_key_size curve"
  shows "take (curve_num_bytes curve) private_key = (if curve = curve_secp160r1 then butlast private_key else private_key)"
    "curve_num_bytes curve \<le> length private_key" "curve_num_bytes curve < 2 ^ 32"
proof -
  have b: "curve_num_bytes curve_secp160r1 = 20" "curve_num_bytes curve_secp192r1 = 24" "curve_num_bytes curve_secp224r1 = 28"
    "curve_num_bytes curve_secp256r1 = 32" "curve_num_bytes curve_secp256k1 = 32"
    and n: "curve_num_n_bits curve_secp160r1 = 161" "curve_num_n_bits curve_secp192r1 = 192" "curve_num_n_bits curve_secp224r1 = 224"
    "curve_num_n_bits curve_secp256r1 = 256" "curve_num_n_bits curve_secp256k1 = 256"
    by (simp_all add: curve_secp160r1_def curve_secp192r1_def curve_secp224r1_def curve_secp256r1_def curve_secp256k1_def)
  have d: "curve = curve_secp160r1 \<longleftrightarrow> curve_num_bytes curve = 20" using assms(1) b by auto
  show "take (curve_num_bytes curve) private_key = (if curve = curve_secp160r1 then butlast private_key else private_key)"
    "curve_num_bytes curve \<le> length private_key" "curve_num_bytes curve < 2 ^ 32"
    unfolding d using assms by (auto simp: b n uECC_curve_private_key_size_def BITS_TO_BYTES_def butlast_conv_take)
qed

text \<open>C10. The nonce of a deterministic signature, for every hash function that keeps the documented contract and a private key of the
  size the curve has. The code leaves in its scratch area the pair (K, V) that the generator of RFC 6979 reaches (steps b to g,
  with the hash of the message taken as it is and not reduced), and the first candidate is made of the next values of V: n bytes of
  them, for the number n of bytes that are asked for. The private key that K absorbs is the whole octet string int2octets(x) of the
  RFC on secp192r1, secp224r1, secp256r1 and secp256k1. On secp160r1, whose group order has 161 bits, it is not: the code takes 20
  of the 21 bytes and leaves the last one out, against the RFC and against its own comment.\<close>

theorem deterministic_nonce:
  assumes H: "hash_function ctx H absorbs"
    and curve: "curve \<in> {curve_secp160r1, curve_secp192r1, curve_secp224r1, curve_secp256r1, curve_secp256k1}"
    and l: "2 * result_size ctx + block_size ctx \<le> length tmp" "result_size ctx + 1 < 2 ^ 32"
    and m: "length private_key = uECC_curve_private_key_size curve" "hash_size \<le> length message_hash" "hash_size < 2 ^ 32"
    and n: "0 < n" "n \<le> 32"
  shows "\<exists>c' c'' T P P' V'.
      (let (K, V) = nonce_start H (block_size ctx) (result_size ctx)
          ((if curve = curve_secp160r1 then butlast private_key else private_key) @ take hash_size message_hash)
       in deterministic_start ctx (c, tmp) private_key message_hash hash_size curve = (c', K @ V @ P)
        \<and> fill_T ctx n (c', K @ V @ P) (replicate 32 0) 0 = Some ((c'', K @ V' @ P'), T)
        \<and> length K = result_size ctx \<and> length V = result_size ctx \<and> take n T = nonce_bytes H (block_size ctx) (K, V) n)"
  using deterministic_nonce_general [OF H l private_key_hashed(2,3) [OF curve m(1)] m(2,3) n, where c = c]
  unfolding private_key_hashed(1) [OF curve m(1)] .

theorem deterministic_nonce_witness:
  "(\<exists>c' c'' T P P' V'.
      (let (K, V) = nonce_start (blake2b_hash 32 []) 128 32 (replicate 32 7 @ [1, 2, 3])
       in deterministic_start blake2b_context (stale_state, replicate 192 0) (replicate 32 7) [1, 2, 3] 3 curve_secp256r1 = (c', K @ V @ P)
        \<and> fill_T blake2b_context 32 (c', K @ V @ P) (replicate 32 0) 0 = Some ((c'', K @ V' @ P'), T)
        \<and> length K = 32 \<and> length V = 32 \<and> take 32 T = nonce_bytes (blake2b_hash 32 []) 128 (K, V) 32))
    \<and> (\<exists>c' c'' T P P' V'.
      (let (K, V) = nonce_start (blake2b_hash 32 []) 128 32 (replicate 20 7 @ [1, 2, 3])
       in deterministic_start blake2b_context (stale_state, replicate 192 0) (replicate 20 7 @ [9]) [1, 2, 3] 3 curve_secp160r1 = (c', K @ V @ P)
        \<and> fill_T blake2b_context 24 (c', K @ V @ P) (replicate 32 0) 0 = Some ((c'', K @ V' @ P'), T)
        \<and> length K = 32 \<and> length V = 32 \<and> take 24 T = nonce_bytes (blake2b_hash 32 []) 128 (K, V) 24))"
proof
  have d: "curve_secp256r1 \<noteq> curve_secp160r1" by (simp add: curve_secp256r1_def curve_secp160r1_def)
  have s: "uECC_curve_private_key_size curve_secp256r1 = 32" "uECC_curve_private_key_size curve_secp160r1 = 21"
    by (simp_all add: uECC_curve_private_key_size_def BITS_TO_BYTES_def curve_secp256r1_def curve_secp160r1_def)
  show "\<exists>c' c'' T P P' V'.
      (let (K, V) = nonce_start (blake2b_hash 32 []) 128 32 (replicate 32 7 @ [1, 2, 3])
       in deterministic_start blake2b_context (stale_state, replicate 192 0) (replicate 32 7) [1, 2, 3] 3 curve_secp256r1 = (c', K @ V @ P)
        \<and> fill_T blake2b_context 32 (c', K @ V @ P) (replicate 32 0) 0 = Some ((c'', K @ V' @ P'), T)
        \<and> length K = 32 \<and> length V = 32 \<and> take 32 T = nonce_bytes (blake2b_hash 32 []) 128 (K, V) 32)"
    using deterministic_nonce [OF blake.hash_function_axioms, of curve_secp256r1 "replicate 192 0" "replicate 32 7" 3 "[1, 2, 3]" 32 stale_state]
    by (simp add: d s blake2b_context_def)
  show "\<exists>c' c'' T P P' V'.
      (let (K, V) = nonce_start (blake2b_hash 32 []) 128 32 (replicate 20 7 @ [1, 2, 3])
       in deterministic_start blake2b_context (stale_state, replicate 192 0) (replicate 20 7 @ [9]) [1, 2, 3] 3 curve_secp160r1 = (c', K @ V @ P)
        \<and> fill_T blake2b_context 24 (c', K @ V @ P) (replicate 32 0) 0 = Some ((c'', K @ V' @ P'), T)
        \<and> length K = 32 \<and> length V = 32 \<and> take 24 T = nonce_bytes (blake2b_hash 32 []) 128 (K, V) 24)"
    using deterministic_nonce [OF blake.hash_function_axioms, of curve_secp160r1 "replicate 192 0" "replicate 20 7 @ [9]" 3 "[1, 2, 3]" 24 stale_state]
    by (simp add: s blake2b_context_def butlast_append)
qed

end
