(* ===== verification/Spec2Isabelle.thy ===== *)
theory Spec2Isabelle
  imports Hacl_Chacha20Poly1305 NaCl_Box Hacl_HMAC_SHA2_256 Hacl_SHA2_384 Midl_Alloc
    Midl_Merge Midl_Sort Hacl_Ed25519 Blake2b Uecc_Sign Uecc_Deterministic
begin

text \<open>
  The C code of the repository.

  The repository holds the LIGO compiler and a copy of the Tezos libraries it links against. All of
  that is OCaml except the C libraries below \<^verbatim>\<open>src/vendors/tezos-modded/vendors\<close>: the HACL* cryptography
  (\<^verbatim>\<open>ocaml-hacl\<close>), the LMDB store (\<^verbatim>\<open>ocaml-lmdb\<close>), micro-ecc (\<^verbatim>\<open>ocaml-uecc\<close>), BLAKE2b and secp256k1. They do the
  node's sealing, hashing, signing and storage. This development models the HACL* code, BLAKE2b,
  micro-ecc and the ID lists of LMDB; file names below are relative to the \<^verbatim>\<open>src\<close> directory of their library.

  How C is represented. A w-bit unsigned integer is a word of w bits, so addition, subtraction and
  multiplication wrap as in C; a cast is \<open>ucast\<close>, a right shift of a signed value \<open>signed_drop_bit\<close>. An array is a list; a
  pointer into an array is \<open>drop n\<close> of it for reading, and \<open>at_off\<close> (Prelude) for writing through it. A function that writes
  through a pointer argument returns the updated list. The out-of-range access of an array is
  excluded by length hypotheses in the HACL* theories, where all lengths are constants or arguments; in the
  LMDB theories an access is \<open>rd\<close> or \<open>wr\<close>, which give \<open>None\<close> out of range, so a theorem that an operation returns
  \<open>Some\<close> includes that it stays inside its array. Two arguments of one call are taken not to overlap, which is
  how the callers in the code use them; where the code passes the same array twice (the decryption in place of
  \<^verbatim>\<open>crypto_box\<close>) the model does too.

  The theories.
    \<^item> Prelude: shared list and word lemmas, \<open>blit\<close> (memcpy into a list), \<open>at_off\<close>, block splitting.
    \<^item> Kremlib: \<^verbatim>\<open>kremlib.h\<close> and \<^verbatim>\<open>kremlib_base.h\<close>, that is byte loads and stores in both orders, rotations and the constant-time
      masks. FStar: the 128-bit integers, once as the compiler's type (\<^verbatim>\<open>kremlib.h\<close>) and once emulated by two 64-bit
      words (\<^verbatim>\<open>FStar.c\<close>), with the refinement from one to the other.
    \<^item> Poly1305_Spec and Hacl_Poly1305_64: the one-time authenticator over integers modulo 2^130 - 5, and
      \<^verbatim>\<open>Hacl_Poly1305_64.c\<close>: 44-bit limbs, delayed carries, one-shot and incremental interface. The state record
      \<open>poly1305_state\<close> is the C struct of the two limb arrays; \<open>state_ok\<close> is its limb-bound invariant and \<open>state_acc\<close> the
      field element it stands for.
    \<^item> Stream_Spec, Hacl_Lib, Hacl_Salsa20, Hacl_Chacha20: the two stream ciphers against their definitions on 4 by 4
      matrices; the counter-mode loop is shared as the locale of Stream_Spec.
    \<^item> Hacl_Policies, NaCl_SecretBox: the constant-time comparison and the secret box of \<^verbatim>\<open>NaCl.c\<close>.
    \<^item> Field25519_Spec, Hacl_Field51, Hacl_EC_Format: the field modulo 2^255 - 19 in five 51-bit limbs, which \<^verbatim>\<open>Hacl_Curve25519.c\<close>
      and \<^verbatim>\<open>Hacl_Ed25519.c\<close> share as textual copies. \<open>rep B a x\<close> says that the buffer \<open>a\<close> has limbs below \<open>B\<close> and stands for \<open>x\<close>; one
      rule per operation gives the bound and the value of its result, so the curve proofs are compositions of these rules.
    \<^item> Hacl_Curve25519, NaCl_Box: the X25519 ladder and the public-key boxes of \<^verbatim>\<open>NaCl.c\<close>. The specification runs the formulas of
      RFC 7748 over all 256 bits of the clamped scalar, as the code does; that the ladder is a group action is not proved.
    \<^item> Ed25519_Spec, Hacl_Bignum25519, Hacl_Ed25519_Point, Hacl_Ed25519_Decompress, Hacl_BignumQ, Hacl_Ed25519: \<^verbatim>\<open>Hacl_Ed25519.c\<close>.
      The specification is RFC 8032 over integers: the extended-coordinate formulas, the encoding of points, and scalars modulo the
      group order. \<open>ext_rep b P\<close> says that the twenty limbs of a buffer stand for a point, \<open>qval\<close> reads five 56-bit limbs of a
      scalar; Barrett reduction, the square root of the decoding and the branches of verification are proved exact. That the formulas
      form a group is not proved, so that a signature made is a signature accepted is not a theorem here.
    \<^item> AEAD_Poly1305_64, Hacl_Chacha20Poly1305: the padded authenticator and authenticated encryption.
    \<^item> SHA2_Spec, SHA2_Constants, Hacl_SHA2_256, Hacl_HMAC_SHA2_256, Hacl_SHA2_512, Hacl_SHA2_384: the hash functions against
      a definition generic in the word size. The round constants of the specification are the fractional bits
      of roots of the first primes, computed in SHA2_Constants; the code's tables are proved to be these.
    \<^item> Blake2_Spec, Blake2b: \<^verbatim>\<open>blake2b-ref.c\<close> of \<^verbatim>\<open>ocaml-blake2/src\<close> against RFC 7693. The record \<open>blake2b_state\<close> is the C struct;
      \<open>absorbed h0 d S\<close> relates it to the bytes \<open>d\<close> absorbed, with the last block held back in the buffer. The calls a
      client may make are the step relation \<open>blake2b_step\<close>, whose reachable states keep their types; \<open>blake2b_life\<close> adds
      to them whether \<^verbatim>\<open>final\<close> has succeeded, and a state is finalised once.
    \<^item> Midl, Midl_Alloc, Midl_Merge, Midl_Sort: \<^verbatim>\<open>midl.c\<close>, the sorted ID lists of LMDB: bisection, insertion of pairs, growth and
      append with a failing allocator, merging, and the quicksort with an explicit stack. An ID list is the allocated block with the
      capacity word in front, so that the pointer arithmetic \<open>ids[-1]\<close> is index 0 of the list.

    \<^item> Uecc_Vli, Uecc_Mod, Uecc_Curves: \<^verbatim>\<open>uECC.c\<close> as the build configures it (64-bit words, 128-bit products, the separate squaring,
      optimisation level 3, big-endian byte strings). A number is a list of words, \<open>vn n x\<close> is what its first n words stand for; every operation
      is related to it, down to the shifting reduction and the inversion, which ends. A curve is the record \<open>uECC_Curve\<close>, whose function pointers
      are enumerations that the calling definitions branch on.
    \<^item> Uecc_Fast, Uecc_Fast_k1, Uecc_Fast_160, Uecc_Field: the fast reductions of \<^verbatim>\<open>curve-specific.h\<close>. The locale \<open>fast_field\<close> is their contract, which
      secp192r1, secp224r1 and secp256r1 meet (the curves in \<open>nist_curves\<close>). The reduction of secp256k1 does not: Uecc_Fast_k1 says
      exactly when it is wrong and what it gives then. That of secp160r1 stops at the order itself, so its result may be the order instead of zero.
    \<^item> Uecc_Point, Uecc_Mult, Uecc_Total: the point formulas and the co-Z ladder. \<open>res curve x e\<close> says that an array is the residue of an integer
      expression, and \<open>chord\<close> and \<open>tangent\<close> state a point addition by its slope; the ladder is correct for every family
      of points whose sums and doubling along the scalar are chords and tangents. Uecc_Total shows that it returns
      residues for every scalar whatever.
    \<^item> Uecc_Short: a ladder on a base point of order five, whose multiples are few enough to follow; the example of Uecc_Sign is a signature on it.
    \<^item> Uecc_Keys, Uecc_Ecdsa, Uecc_Sign: conversion to and from bytes, random integers, keys, compressed points, validation, signing and verification.
    \<^item> Uecc_Deterministic: the nonce of \<^verbatim>\<open>uECC_sign_deterministic\<close>, over the locale \<open>hash_function\<close> that states what a hash context promises. It is
      interpreted on the model of BLAKE2b.

  What the lemmas show. For every HACL* operation: functional correctness against the specification for every input whose lengths
  the code can represent (the buffers of Poly1305, the secret box and the public-key box are shorter than 2 ^ 32 bytes, because the
  code casts 64-bit lengths to 32 bits; each theorem states its own bound), the bounds of limbs that make the word arithmetic exact, and that decryption
  inverts encryption and refuses every tag but the right one. For the incremental interfaces: that init, any sequence of
  updates, update_last and finish give the one-shot result. For LMDB: search finds the position the order
  prescribes, sorting gives the descending permutation, operations never touch memory outside the block and
  report ENOMEM without damage when the allocator fails. For micro-ecc: reduction, inversion and the fast multiplication are exact, the
  ladder computes the multiple of a point, validation and verification decide as stated on every input, a compressed key is
  recovered, and a signature that is made satisfies the ECDSA equation, for every base point. The nonce of a deterministic signature is that of
  RFC 6979 up to the reduction of the hash, except on secp160r1, where the code leaves out a byte of the private key.

  Termination. Counted loops are recursions on their counter. The loops of Midl_Merge and Midl_Sort whose end depends on
  the data are \<open>partial_function (option)\<close>, as are the inversion of Uecc_Mod and the filling of the nonce in Uecc_Deterministic; that
  they end, inside their arrays, is part of the theorems (the result is \<open>Some\<close>). The correction loops of the fast reductions
  are the library's \<open>while\<close>, whose value is unspecified where it does not end, so that a theorem on the value includes the
  end. The stack of the quicksort has the 64 entries the code reserves; the proof shows that they suffice because the
  longer part is pushed and the shorter continued with.

  Parameters. realloc: the allocation theorems are for every answer, \<open>None\<close> (failure) or \<open>Some w\<close>, where w is the content of the
  fresh words. The random number generator of micro-ecc is a function of a state that may fail, or absent. The hash function
  of deterministic signing is a record of functions on a client state. The laws of an elliptic curve group are no theorem
  here: what a proof needs of them is a hypothesis on the points at hand, and so is that a number is prime to the (prime) group order.

  Duplicated code. The static field arithmetic of \<^verbatim>\<open>AEAD_Poly1305_64.c\<close> and the static SHA-256 of \<^verbatim>\<open>Hacl_HMAC_SHA2_256.c\<close> are textual
  copies of those in \<^verbatim>\<open>Hacl_Poly1305_64.c\<close> and \<^verbatim>\<open>Hacl_SHA2_256.c\<close>, as the SHA-512 of \<^verbatim>\<open>Hacl_Ed25519.c\<close> is one of \<^verbatim>\<open>Hacl_SHA2_512.c\<close>; they share one model.

  Not modelled. System calls and foreign-function glue (\<^verbatim>\<open>Hacl_Unverified_Random.c\<close>, the stubs), the page
  store of LMDB (\<^verbatim>\<open>mdb.c\<close>: memory-mapped files, locks and pointers into pages), \<^verbatim>\<open>Hacl_Poly1305_32.c\<close> (the bindings do not use it),
  libsecp256k1 (whose size is in tables and configurations of the same arithmetic), and all OCaml code. Of micro-ecc: the code for 8- and 32-bit
  words, assembly and a little-endian byte order, which the build does not select, the functions behind \<^verbatim>\<open>uECC_ENABLE_VLI_API\<close>, and the default
  random number generator of the platform. No theorem says that \<^verbatim>\<open>mod_sqrt_secp224r1\<close> finds a square root.
\<close>

end
